(* ===== verification/Prelude.thy ===== *)
theory Prelude
  imports Main "HOL-Library.Word" "HOL-Library.Monad_Syntax" "HOL-Library.While_Combinator"
    "HOL-Library.Multiset"
begin

unbundle bit_operations_syntax

text \<open>
  Shared vocabulary of the development: the machine types of the C sources, the way a
  run-time failure is modelled, the collections of rewrite rules the component theories
  fill, and the generic facts on lists, options, maps and words they share.

  Failure. A C function that can stop the process by a failing \<open>assert\<close>, or that
  would read or write through an invalid pointer or outside an array, is a function into
  \<open>'a option\<close>: \<open>None\<close> is that failure. Error codes the code returns to its caller
  are ordinary values.
\<close>

section \<open>Machine types\<close>

type_synonym u8 = "8 word"
type_synonym u16 = "16 word"
type_synonym u32 = "32 word"
type_synonym u64 = "64 word"
type_synonym bytes = "8 word list"

text \<open>A C string: its characters without the terminating zero, as byte values.\<close>

type_synonym cstr = "8 word list"

section \<open>Collections of rewrite rules\<close>

named_theorems mq_simps \<open>definitions of the message queue operations\<close>
named_theorems inv_defs \<open>definitions of the component invariants\<close>

section \<open>Options: failing computations\<close>

lemma bind_Some_iff [simp]:
  "(Option.bind m f = Some y) \<longleftrightarrow> (\<exists>x. m = Some x \<and> f x = Some y)"
  by (cases m) auto

definition assert_opt :: "bool \<Rightarrow> unit option" where
  "assert_opt b = (if b then Some () else None)"

lemma assert_opt_Some [simp]: "assert_opt b = Some u \<longleftrightarrow> b"
  by (simp add: assert_opt_def)

lemma assert_opt_True [simp]: "assert_opt True = Some ()"
  by (simp add: assert_opt_def)

text \<open>An array access of the C code: \<open>None\<close> outside the bounds.\<close>

definition nth_opt :: "'a list \<Rightarrow> nat \<Rightarrow> 'a option" where
  "nth_opt xs i = (if i < length xs then Some (xs ! i) else None)"

lemma nth_opt_Some [simp]: "nth_opt xs i = Some x \<longleftrightarrow> i < length xs \<and> xs ! i = x"
  by (simp add: nth_opt_def)

lemma nth_opt_in: "i < length xs \<Longrightarrow> nth_opt xs i = Some (xs ! i)"
  by simp

definition upd_opt :: "'a list \<Rightarrow> nat \<Rightarrow> 'a \<Rightarrow> 'a list option" where
  "upd_opt xs i x = (if i < length xs then Some (xs[i := x]) else None)"

lemma upd_opt_Some [simp]: "upd_opt xs i x = Some ys \<longleftrightarrow> i < length xs \<and> ys = xs[i := x]"
  by (auto simp: upd_opt_def)

section \<open>Rings: reading a circular array\<close>

text \<open>The \<open>n\<close> entries of a circular array from index \<open>h\<close> on.\<close>

definition ring_slice :: "'a list \<Rightarrow> nat \<Rightarrow> nat \<Rightarrow> 'a list" where
  "ring_slice xs h n = map (\<lambda>i. xs ! ((h + i) mod length xs)) [0..<n]"

lemma length_ring_slice [simp]: "length (ring_slice xs h n) = n"
  by (simp add: ring_slice_def)

lemma ring_slice_0 [simp]: "ring_slice xs h 0 = []"
  by (simp add: ring_slice_def)

lemma nth_ring_slice [simp]: "i < n \<Longrightarrow> ring_slice xs h n ! i = xs ! ((h + i) mod length xs)"
  by (simp add: ring_slice_def)

lemma ring_slice_Suc: "ring_slice xs h (Suc n) = ring_slice xs h n @ [xs ! ((h + n) mod length xs)]"
  by (simp add: ring_slice_def)

lemma mod_add_small:
  "h < L \<Longrightarrow> i < L \<Longrightarrow> (h + i) mod L = (if h + i < L then h + i else h + i - L)" for h :: nat
  by (simp add: mod_if)

lemma ring_slice_Cons:
  assumes "h < length xs"
  shows "ring_slice xs h (Suc n) = xs ! h # ring_slice xs (Suc h mod length xs) n"
proof (rule nth_equalityI)
  show "length (ring_slice xs h (Suc n)) = length (xs ! h # ring_slice xs (Suc h mod length xs) n)"
    by simp
next
  fix i assume "i < length (ring_slice xs h (Suc n))"
  then show "ring_slice xs h (Suc n) ! i = (xs ! h # ring_slice xs (Suc h mod length xs) n) ! i"
    using assms by (cases i) (simp_all add: mod_simps del: upt_Suc)
qed

lemma ring_slice_take: "n \<le> length xs \<Longrightarrow> ring_slice xs 0 n = take n xs"
  by (rule nth_equalityI) simp_all

text \<open>Writing just behind the slice does not disturb it.\<close>

lemma ring_slice_update_behind:
  assumes "h < length xs" "n < length xs"
  shows "ring_slice (xs[(h + n) mod length xs := x]) h n = ring_slice xs h n"
proof (rule nth_equalityI)
  show "length (ring_slice (xs[(h + n) mod length xs := x]) h n) = length (ring_slice xs h n)"
    by simp
next
  fix i assume "i < length (ring_slice (xs[(h + n) mod length xs := x]) h n)"
  then have i: "i < n" by simp
  with assms have "(h + i) mod length xs \<noteq> (h + n) mod length xs"
    by (simp add: mod_add_small) linarith
  then show "ring_slice (xs[(h + n) mod length xs := x]) h n ! i = ring_slice xs h n ! i"
    using i by simp
qed

lemma ring_slice_snoc:
  assumes "h < length xs" "n < length xs"
  shows "ring_slice (xs[(h + n) mod length xs := x]) h (Suc n) = ring_slice xs h n @ [x]"
proof -
  have "(h + n) mod length xs < length xs"
    using assms by (intro mod_less_divisor) linarith
  with assms show ?thesis
    by (simp add: ring_slice_Suc ring_slice_update_behind del: upt_Suc)
qed

text \<open>The number of entries between two positions.\<close>

lemma ring_count:
  fixes h t c :: nat assumes "h < c" "t < c"
  shows "(t + c - h) mod c = (if h \<le> t then t - h else t + c - h)"
  using assms by (simp add: mod_if)

section \<open>Sums over lists\<close>

text \<open>A sum over a list after one entry has changed.\<close>

lemma sum_list_move:
  "t < length ps \<Longrightarrow> sum_list (map f (ps[t := p])) + f (ps ! t) = sum_list (map f ps) + f p"
  for f :: "'a \<Rightarrow> nat"
proof (induction ps arbitrary: t)
  case (Cons q ps)
  then show ?case by (cases t) (auto simp: algebra_simps)
qed simp

lemma sum_list_0_iff: "sum_list (map f ps) = 0 \<longleftrightarrow> (\<forall>p\<in>set ps. f p = 0)" for f :: "'a \<Rightarrow> nat"
  by (induction ps) auto

lemma sum_list_ge: "p \<in> set ps \<Longrightarrow> f p \<le> sum_list (map f ps)" for f :: "'a \<Rightarrow> nat"
  by (induction ps) auto

section \<open>Words\<close>

lemma or_mask_eq: "(x OR mask n = y OR mask n) = (drop_bit n x = drop_bit n y)" for x y :: "'a::len word"
proof
  assume "x OR mask n = y OR mask n"
  then have "drop_bit n (x OR mask n) = drop_bit n (y OR mask n)" by simp
  moreover have "drop_bit n (mask n :: 'a word) = 0"
    by (rule bit_eqI) (simp add: bit_simps)
  ultimately show "drop_bit n x = drop_bit n y" by simp
next
  assume d: "drop_bit n x = drop_bit n y"
  show "x OR mask n = y OR mask n"
  proof (rule bit_word_eqI)
    fix k assume "k < LENGTH('a)"
    moreover have "bit (drop_bit n x) (k - n) = bit (drop_bit n y) (k - n)" using d by simp
    ultimately show "bit (x OR mask n) k = bit (y OR mask n) k"
      by (cases "k < n") (auto simp: bit_simps)
  qed
qed

lemma unat_drop_bit_div: "unat (drop_bit n x) = unat x div 2 ^ n" for x :: "'a::len word"
  by (subst unat_drop_bit_eq) (rule drop_bit_eq_div)

lemma unat_and_mask: "unat (x AND mask n) = unat x mod 2 ^ n" for x :: "'a::len word"
  unfolding take_bit_eq_mask [symmetric]
  by (subst unsigned_take_bit_eq) (rule take_bit_eq_mod)

end
