(* ===== verification/Fifo.thy ===== *)
theory Fifo
  imports Prelude
begin

text \<open>
  The contract of a first-in first-out queue whose operations may fail, and what a client
  gets from it: any interleaving of pushes and pops behaves like the same interleaving on
  a list, and never fails. The ring buffers of \<open>skynet_mq.c\<close> and \<open>lua-netpack.c\<close> are
  instances.
\<close>

datatype 'a fifo_op = Push 'a | Pop

text \<open>The results of the pops of a sequence of operations, and the final queue.\<close>

fun fifo_run :: "('a \<Rightarrow> 'q \<Rightarrow> 'q option) \<Rightarrow> ('q \<Rightarrow> ('a option \<times> 'q) option)
    \<Rightarrow> 'a fifo_op list \<Rightarrow> 'q \<Rightarrow> ('a option list \<times> 'q) option" where
  "fifo_run push pop [] q = Some ([], q)"
| "fifo_run push pop (Push x # ops) q = do { q' \<leftarrow> push x q; fifo_run push pop ops q' }"
| "fifo_run push pop (Pop # ops) q = do {
     (r, q') \<leftarrow> pop q;
     (rs, q'') \<leftarrow> fifo_run push pop ops q';
     Some (r # rs, q'')
   }"

text \<open>The same on lists: the specification.\<close>

fun list_run :: "'a fifo_op list \<Rightarrow> 'a list \<Rightarrow> 'a option list \<times> 'a list" where
  "list_run [] xs = ([], xs)"
| "list_run (Push x # ops) xs = list_run ops (xs @ [x])"
| "list_run (Pop # ops) [] = (let (rs, ys) = list_run ops [] in (None # rs, ys))"
| "list_run (Pop # ops) (x # xs) = (let (rs, ys) = list_run ops xs in (Some x # rs, ys))"

locale fifo =
  fixes push :: "'a \<Rightarrow> 'q \<Rightarrow> 'q option"
    and pop :: "'q \<Rightarrow> ('a option \<times> 'q) option"
    and contents :: "'q \<Rightarrow> 'a list"
    and invar :: "'q \<Rightarrow> bool"
  assumes push_ok: "invar q \<Longrightarrow> \<exists>q'. push x q = Some q' \<and> invar q' \<and> contents q' = contents q @ [x]"
    and pop_empty: "invar q \<Longrightarrow> contents q = [] \<Longrightarrow>
      \<exists>q'. pop q = Some (None, q') \<and> invar q' \<and> contents q' = []"
    and pop_first: "invar q \<Longrightarrow> contents q = x # xs \<Longrightarrow>
      \<exists>q'. pop q = Some (Some x, q') \<and> invar q' \<and> contents q' = xs"
begin

lemma run_refines_list:
  "invar q \<Longrightarrow> \<exists>q'. fifo_run push pop ops q = Some (fst (list_run ops (contents q)), q')
     \<and> invar q' \<and> contents q' = snd (list_run ops (contents q))"
proof (induction ops arbitrary: q)
  case Nil
  then show ?case by simp
next
  case (Cons op ops)
  show ?case
  proof (cases op)
    case (Push x)
    from push_ok [OF Cons.prems, of x] obtain q1 where
      q1: "push x q = Some q1" "invar q1" "contents q1 = contents q @ [x]" by blast
    from Cons.IH [OF q1(2)] q1 Push show ?thesis by auto
  next
    case Pop
    show ?thesis
    proof (cases "contents q")
      case Nil
      from pop_empty [OF Cons.prems Nil] obtain q1 where
        q1: "pop q = Some (None, q1)" "invar q1" "contents q1 = []" by blast
      from Cons.IH [OF q1(2)] q1 Pop Nil show ?thesis by (auto simp: split_beta Let_def)
    next
      case (Cons x xs)
      from pop_first [OF Cons.prems Cons] obtain q1 where
        q1: "pop q = Some (Some x, q1)" "invar q1" "contents q1 = xs" by blast
      from Cons.IH [OF q1(2)] q1 Pop Cons show ?thesis by (auto simp: split_beta Let_def)
    qed
  qed
qed

lemma push_total: "invar q \<Longrightarrow> push x q \<noteq> None"
  using push_ok [of q x] by force

lemma pop_total: "invar q \<Longrightarrow> pop q \<noteq> None"
  using pop_empty [of q] pop_first [of q] by (cases "contents q") force+

lemma push_contents: "invar q \<Longrightarrow> push x q = Some q' \<Longrightarrow> invar q' \<and> contents q' = contents q @ [x]"
  using push_ok [of q x] by force

lemma pop_contents:
  "invar q \<Longrightarrow> pop q = Some (r, q') \<Longrightarrow>
     invar q' \<and> (case contents q of [] \<Rightarrow> r = None \<and> contents q' = []
                 | x # xs \<Rightarrow> r = Some x \<and> contents q' = xs)"
  using pop_empty [of q] pop_first [of q] by (cases "contents q") force+

end

end
