(* ===== verification/Message_Queue.thy ===== *)
theory Message_Queue
  imports Fifo
begin

text \<open>
  \<^verbatim>\<open>skynet-src/skynet_mq.c\<close>: the message queue of a service (a growing ring buffer) and
  the global queue (a linked list of the message queues that have work).

  Queues live in a heap \<open>qheap\<close> from references to records, because the global queue
  is threaded through their \<open>next\<close> fields. Every operation of the source runs between
  \<open>SPIN_LOCK\<close> and \<open>SPIN_UNLOCK\<close> and is one function here; that the lock makes it atomic
  is the subject of the theory \<open>Locks\<close>. The C type \<open>int\<close> of indices, capacities and
  lengths is \<open>nat\<close>: they are never negative, and \<open>int\<close> would overflow only past
  \<open>2^30\<close> stored messages. The freshly allocated part of a ring is uninitialised, which
  is \<open>None\<close>; reading it is a failure.
\<close>

section \<open>Data\<close>

text \<open>What a message's \<open>data\<close> pointer points to: nothing, a byte buffer, the
  \<open>struct remote_message\<close> (name and handle of the destination, message, size) the harbor
  service is sent, or a \<open>struct skynet_socket_message\<close> (type, id, \<open>ud\<close>, buffer) with the bytes
  that follow it.\<close>

datatype payload =
    PNull
  | PBuf bytes
  | PRemote cstr u32 payload u64
  | PSocket int int int "bytes option" bytes

record skynet_message =
  source :: u32
  session :: int
  data :: payload
  sz :: u64

definition MESSAGE_TYPE_SHIFT :: nat where
  "MESSAGE_TYPE_SHIFT = (8 - 1) * 8"

definition MESSAGE_TYPE_MASK :: u64 where
  "MESSAGE_TYPE_MASK = drop_bit 8 (- 1)"

definition DEFAULT_QUEUE_SIZE :: nat where "DEFAULT_QUEUE_SIZE = 64"
definition MQ_OVERLOAD :: nat where "MQ_OVERLOAD = 1024"

type_synonym mqref = nat

record message_queue =
  mq_handle :: u32
  mq_cap :: nat
  mq_head :: nat
  mq_tail :: nat
  mq_release :: bool
  mq_in_global :: bool
  mq_overload :: nat
  mq_overload_threshold :: nat
  mq_queue :: "skynet_message option list"
  mq_next :: "mqref option"

record mq_state =
  qheap :: "mqref \<rightharpoonup> message_queue"
  qalloc :: mqref
  ghead :: "mqref option"
  gtail :: "mqref option"

section \<open>The ring buffer of one queue\<close>

definition ring_create :: "u32 \<Rightarrow> message_queue" where
  "ring_create h =
     \<lparr> mq_handle = h, mq_cap = DEFAULT_QUEUE_SIZE, mq_head = 0, mq_tail = 0,
       mq_release = False, mq_in_global = True, mq_overload = 0,
       mq_overload_threshold = MQ_OVERLOAD,
       mq_queue = replicate DEFAULT_QUEUE_SIZE None, mq_next = None \<rparr>"

definition skynet_mq_length :: "message_queue \<Rightarrow> nat" where
  "skynet_mq_length q =
     (if mq_head q \<le> mq_tail q then mq_tail q - mq_head q
      else mq_tail q + mq_cap q - mq_head q)"

definition skynet_mq_overload :: "message_queue \<Rightarrow> nat \<times> message_queue" where
  "skynet_mq_overload q =
     (if mq_overload q \<noteq> 0 then (mq_overload q, q\<lparr>mq_overload := 0\<rparr>) else (0, q))"

definition overload_loop :: "nat \<Rightarrow> message_queue \<Rightarrow> message_queue" where
  "overload_loop len = while (\<lambda>q. len > mq_overload_threshold q)
     (\<lambda>q. q\<lparr>mq_overload := len, mq_overload_threshold := mq_overload_threshold q * 2\<rparr>)"

text \<open>The result is the popped message, or \<open>None\<close> where the code returns 1.\<close>

definition ring_pop :: "message_queue \<Rightarrow> (skynet_message option \<times> message_queue) option" where
  "ring_pop q =
     (if mq_head q \<noteq> mq_tail q then do {
        e \<leftarrow> nth_opt (mq_queue q) (mq_head q);
        m \<leftarrow> e;
        let head = mq_head q + 1;
        let tail = mq_tail q;
        let cap = mq_cap q;
        let head = (if head \<ge> cap then 0 else head);
        let len = (if tail < head then tail + cap - head else tail - head);
        Some (Some m, overload_loop len (q\<lparr>mq_head := head\<rparr>))
      }
      else Some (None, q\<lparr>mq_overload_threshold := MQ_OVERLOAD, mq_in_global := False\<rparr>))"

definition expand_queue :: "message_queue \<Rightarrow> message_queue" where
  "expand_queue q =
     q\<lparr>mq_queue := map (\<lambda>i. mq_queue q ! ((mq_head q + i) mod mq_cap q)) [0..<mq_cap q]
                     @ replicate (mq_cap q) None,
       mq_head := 0, mq_tail := mq_cap q, mq_cap := mq_cap q * 2\<rparr>"

text \<open>The part of \<open>skynet_mq_push\<close> that stores the message in the ring.\<close>

definition ring_push :: "skynet_message \<Rightarrow> message_queue \<Rightarrow> message_queue option" where
  "ring_push m q = do {
     ring \<leftarrow> upd_opt (mq_queue q) (mq_tail q) (Some m);
     let tail = (if mq_tail q + 1 \<ge> mq_cap q then 0 else mq_tail q + 1);
     let q = q\<lparr>mq_queue := ring, mq_tail := tail\<rparr>;
     Some (if mq_head q = mq_tail q then expand_queue q else q)
   }"

section \<open>The global queue and the queue operations on the heap\<close>

definition get_q :: "mqref \<Rightarrow> mq_state \<Rightarrow> message_queue option" where
  "get_q r s = qheap s r"

definition put_q :: "mqref \<Rightarrow> message_queue \<Rightarrow> mq_state \<Rightarrow> mq_state" where
  "put_q r q s = s\<lparr>qheap := (qheap s)(r \<mapsto> q)\<rparr>"

definition skynet_globalmq_push :: "mqref \<Rightarrow> mq_state \<Rightarrow> mq_state option" where
  "skynet_globalmq_push r s = do {
     q \<leftarrow> get_q r s;
     assert_opt (mq_next q = None);
     case gtail s of
       Some t \<Rightarrow> do {
         tq \<leftarrow> get_q t s;
         Some ((put_q t (tq\<lparr>mq_next := Some r\<rparr>) s)\<lparr>gtail := Some r\<rparr>)
       }
     | None \<Rightarrow> Some (s\<lparr>ghead := Some r, gtail := Some r\<rparr>)
   }"

definition skynet_globalmq_pop :: "mq_state \<Rightarrow> (mqref option \<times> mq_state) option" where
  "skynet_globalmq_pop s =
     (case ghead s of
        None \<Rightarrow> Some (None, s)
      | Some r \<Rightarrow> do {
          q \<leftarrow> get_q r s;
          let s1 = s\<lparr>ghead := mq_next q\<rparr>;
          s2 \<leftarrow> (if ghead s1 = None then do {
                  assert_opt (gtail s1 = Some r);
                  Some (s1\<lparr>gtail := None\<rparr>)
                } else Some s1);
          Some (Some r, put_q r (q\<lparr>mq_next := None\<rparr>) s2)
        })"

definition skynet_mq_init :: mq_state where
  "skynet_mq_init = \<lparr>qheap = Map.empty, qalloc = 0, ghead = None, gtail = None\<rparr>"

definition skynet_mq_create :: "u32 \<Rightarrow> mq_state \<Rightarrow> mqref \<times> mq_state" where
  "skynet_mq_create h s =
     (qalloc s, (put_q (qalloc s) (ring_create h) s)\<lparr>qalloc := qalloc s + 1\<rparr>)"

definition skynet_mq_handle :: "mqref \<Rightarrow> mq_state \<Rightarrow> u32 option" where
  "skynet_mq_handle r s = map_option mq_handle (get_q r s)"

definition skynet_mq_pop :: "mqref \<Rightarrow> mq_state \<Rightarrow> (skynet_message option \<times> mq_state) option" where
  "skynet_mq_pop r s = do {
     q \<leftarrow> get_q r s;
     (m, q') \<leftarrow> ring_pop q;
     Some (m, put_q r q' s)
   }"

definition skynet_mq_push :: "mqref \<Rightarrow> skynet_message \<Rightarrow> mq_state \<Rightarrow> mq_state option" where
  "skynet_mq_push r m s = do {
     q \<leftarrow> get_q r s;
     q' \<leftarrow> ring_push m q;
     if \<not> mq_in_global q'
     then skynet_globalmq_push r (put_q r (q'\<lparr>mq_in_global := True\<rparr>) s)
     else Some (put_q r q' s)
   }"

definition skynet_mq_mark_release :: "mqref \<Rightarrow> mq_state \<Rightarrow> mq_state option" where
  "skynet_mq_mark_release r s = do {
     q \<leftarrow> get_q r s;
     assert_opt (\<not> mq_release q);
     let s = put_q r (q\<lparr>mq_release := True\<rparr>) s;
     if \<not> mq_in_global q then skynet_globalmq_push r s else Some s
   }"

text \<open>\<open>_release\<close>: the ring and the queue record are freed.\<close>

definition mq_free :: "mqref \<Rightarrow> mq_state \<Rightarrow> mq_state option" where
  "mq_free r s = do {
     q \<leftarrow> get_q r s;
     assert_opt (mq_next q = None);
     Some (s\<lparr>qheap := (qheap s)(r := None)\<rparr>)
   }"

text \<open>
  \<open>_drop_queue\<close> pops every message, hands each to \<open>drop_func\<close> and frees the queue. The
  drop function changes other parts of the system as well, so it works on a state \<open>'s\<close>
  that holds the queues, reached by \<open>get\<close> and \<open>put\<close>. The loop is fuelled by
  the number of messages: \<open>drop_fuel_enough\<close> below shows when that is enough.
\<close>

fun drop_loop ::
  "nat \<Rightarrow> ('s \<Rightarrow> mq_state) \<Rightarrow> (mq_state \<Rightarrow> 's \<Rightarrow> 's) \<Rightarrow> (skynet_message \<Rightarrow> 's \<Rightarrow> 's option)
     \<Rightarrow> mqref \<Rightarrow> 's \<Rightarrow> 's option" where
  "drop_loop 0 gt pt dropf r s = None"
| "drop_loop (Suc n) gt pt dropf r s = do {
     (m, ms) \<leftarrow> skynet_mq_pop r (gt s);
     case m of
       None \<Rightarrow> Some (pt ms s)
     | Some msg \<Rightarrow> do { s' \<leftarrow> dropf msg (pt ms s); drop_loop n gt pt dropf r s' }
   }"

definition drop_queue ::
  "nat \<Rightarrow> ('s \<Rightarrow> mq_state) \<Rightarrow> (mq_state \<Rightarrow> 's \<Rightarrow> 's) \<Rightarrow> (skynet_message \<Rightarrow> 's \<Rightarrow> 's option)
     \<Rightarrow> mqref \<Rightarrow> 's \<Rightarrow> 's option" where
  "drop_queue n gt pt dropf r s = do {
     s \<leftarrow> drop_loop n gt pt dropf r s;
     ms \<leftarrow> mq_free r (gt s);
     Some (pt ms s)
   }"

definition skynet_mq_release ::
  "nat \<Rightarrow> ('s \<Rightarrow> mq_state) \<Rightarrow> (mq_state \<Rightarrow> 's \<Rightarrow> 's) \<Rightarrow> (skynet_message \<Rightarrow> 's \<Rightarrow> 's option)
     \<Rightarrow> mqref \<Rightarrow> 's \<Rightarrow> 's option" where
  "skynet_mq_release n gt pt dropf r s = do {
     q \<leftarrow> get_q r (gt s);
     if mq_release q then drop_queue n gt pt dropf r s
     else do { ms \<leftarrow> skynet_globalmq_push r (gt s); Some (pt ms s) }
   }"

lemmas [mq_simps] = get_q_def put_q_def skynet_globalmq_push_def skynet_globalmq_pop_def
  skynet_mq_create_def skynet_mq_handle_def skynet_mq_pop_def skynet_mq_push_def
  skynet_mq_mark_release_def mq_free_def


section \<open>The ring buffer refines a list\<close>

definition ring_inv :: "message_queue \<Rightarrow> bool" where
  "ring_inv q \<longleftrightarrow> mq_head q < mq_cap q \<and> mq_tail q < mq_cap q
     \<and> length (mq_queue q) = mq_cap q \<and> 0 < mq_overload_threshold q
     \<and> (\<forall>i < skynet_mq_length q. mq_queue q ! ((mq_head q + i) mod mq_cap q) \<noteq> None)"

definition ring_list :: "message_queue \<Rightarrow> skynet_message list" where
  "ring_list q = map the (ring_slice (mq_queue q) (mq_head q) (skynet_mq_length q))"

lemma length_ring_list [simp]: "length (ring_list q) = skynet_mq_length q"
  by (simp add: ring_list_def)

lemma ring_length_less: "ring_inv q \<Longrightarrow> skynet_mq_length q < mq_cap q"
  by (auto simp: ring_inv_def skynet_mq_length_def)

lemma ring_tail_eq: "ring_inv q \<Longrightarrow> mq_tail q = (mq_head q + skynet_mq_length q) mod mq_cap q"
  by (auto simp: ring_inv_def skynet_mq_length_def)

lemma ring_create_inv: "ring_inv (ring_create h)"
  by (simp add: ring_inv_def ring_create_def skynet_mq_length_def DEFAULT_QUEUE_SIZE_def
      MQ_OVERLOAD_def)

lemma ring_create_list: "ring_list (ring_create h) = []"
  by (simp add: ring_list_def ring_create_def skynet_mq_length_def)

subsection \<open>The overload loop terminates\<close>

definition same_ring :: "message_queue \<Rightarrow> message_queue \<Rightarrow> bool" where
  "same_ring p q \<longleftrightarrow> mq_head p = mq_head q \<and> mq_tail p = mq_tail q \<and> mq_cap p = mq_cap q
     \<and> mq_queue p = mq_queue q \<and> mq_handle p = mq_handle q \<and> mq_release p = mq_release q
     \<and> mq_in_global p = mq_in_global q \<and> mq_next p = mq_next q"

lemma overload_loop_result:
  assumes "0 < mq_overload_threshold q"
  shows "same_ring (overload_loop len q) q
     \<and> 0 < mq_overload_threshold (overload_loop len q)
     \<and> len \<le> mq_overload_threshold (overload_loop len q)
     \<and> mq_overload (overload_loop len q)
         = (if mq_overload_threshold q < len then len else mq_overload q)"
  unfolding overload_loop_def
  by (rule while_rule [where r = "measure (\<lambda>q. len - mq_overload_threshold q)"
      and P = "\<lambda>p. same_ring p q \<and> 0 < mq_overload_threshold p
         \<and> (mq_overload_threshold p = mq_overload_threshold q \<and> mq_overload p = mq_overload q
            \<or> mq_overload_threshold q < len \<and> mq_overload p = len)"])
    (use assms in \<open>auto simp: same_ring_def\<close>)

lemmas overload_loop_pos = overload_loop_result [THEN conjunct2, THEN conjunct1]

lemma overload_loop_fields [simp]:
  assumes "0 < mq_overload_threshold q"
  shows "mq_head (overload_loop len q) = mq_head q" "mq_tail (overload_loop len q) = mq_tail q"
    "mq_cap (overload_loop len q) = mq_cap q" "mq_queue (overload_loop len q) = mq_queue q"
    "mq_handle (overload_loop len q) = mq_handle q" "mq_release (overload_loop len q) = mq_release q"
    "mq_in_global (overload_loop len q) = mq_in_global q" "mq_next (overload_loop len q) = mq_next q"
  using overload_loop_result [OF assms, of len] by (simp_all add: same_ring_def)

subsection \<open>Pop, expand and push\<close>

lemma ring_list_empty_iff: "ring_inv q \<Longrightarrow> ring_list q = [] \<longleftrightarrow> mq_head q = mq_tail q"
  by (auto simp: ring_inv_def skynet_mq_length_def simp flip: length_0_conv)

lemma ring_pop_empty:
  assumes "ring_inv q" "ring_list q = []"
  shows "ring_pop q = Some (None, q\<lparr>mq_overload_threshold := MQ_OVERLOAD, mq_in_global := False\<rparr>)"
    and "ring_inv (q\<lparr>mq_overload_threshold := MQ_OVERLOAD, mq_in_global := False\<rparr>)"
    and "ring_list (q\<lparr>mq_overload_threshold := MQ_OVERLOAD, mq_in_global := False\<rparr>) = []"
  using assms ring_list_empty_iff [OF assms(1)]
  by (auto simp: ring_pop_def ring_inv_def skynet_mq_length_def ring_list_def MQ_OVERLOAD_def)

text \<open>The queue after a successful pop, before the overload loop.\<close>

definition advance :: "message_queue \<Rightarrow> message_queue" where
  "advance q = q\<lparr>mq_head := (if mq_head q + 1 \<ge> mq_cap q then 0 else mq_head q + 1)\<rparr>"

lemma advance_length:
  "ring_inv q \<Longrightarrow> mq_head q \<noteq> mq_tail q \<Longrightarrow> skynet_mq_length q = Suc (skynet_mq_length (advance q))"
  by (auto simp: ring_inv_def skynet_mq_length_def advance_def)

lemma advance_head: "ring_inv q \<Longrightarrow> mq_head (advance q) = Suc (mq_head q) mod mq_cap q"
  by (auto simp: ring_inv_def advance_def mod_Suc)

lemma advance_inv: "ring_inv q \<Longrightarrow> mq_head q \<noteq> mq_tail q \<Longrightarrow> ring_inv (advance q)"
  using advance_length [of q] advance_head [of q]
  by (auto simp: ring_inv_def mod_simps advance_def split: if_splits)

lemma advance_list:
  assumes "ring_inv q" "mq_head q \<noteq> mq_tail q"
  shows "ring_list q = the (mq_queue q ! mq_head q) # ring_list (advance q)"
proof -
  from assms have "mq_head q < length (mq_queue q)" "length (mq_queue q) = mq_cap q"
    by (auto simp: ring_inv_def)
  with assms show ?thesis
    by (simp add: ring_list_def advance_length ring_slice_Cons advance_head)
       (simp add: advance_def)
qed

lemma ring_list_overload [simp]:
  "0 < mq_overload_threshold q \<Longrightarrow> ring_list (overload_loop n q) = ring_list q"
  by (simp add: ring_list_def skynet_mq_length_def)

lemma ring_inv_overload:
  "ring_inv q \<Longrightarrow> ring_inv (overload_loop n q)"
  using overload_loop_pos [of q n] by (simp add: ring_inv_def skynet_mq_length_def)

lemma ring_pop_first:
  assumes "ring_inv q" "ring_list q = m # ms"
  shows "ring_pop q = Some (Some m, overload_loop (length ms) (advance q))"
    and "ring_inv (overload_loop (length ms) (advance q))"
    and "ring_list (overload_loop (length ms) (advance q)) = ms"
proof -
  from assms have ne: "mq_head q \<noteq> mq_tail q"
    using ring_list_empty_iff by force
  from advance_list [OF assms(1) ne] assms(2)
  have m: "the (mq_queue q ! mq_head q) = m" and ms: "ring_list (advance q) = ms" by simp_all
  from assms(1) ne have "0 < skynet_mq_length q"
    by (auto simp: ring_inv_def skynet_mq_length_def)
  with assms(1) have "mq_queue q ! mq_head q \<noteq> None"
    by (force simp: ring_inv_def)
  with m have e: "mq_queue q ! mq_head q = Some m" by auto
  have pos: "0 < mq_overload_threshold (advance q)"
    using assms(1) by (simp add: ring_inv_def advance_def)
  have len: "length ms = skynet_mq_length (advance q)" using ms by auto
  show "ring_pop q = Some (Some m, overload_loop (length ms) (advance q))"
    using assms(1) ne e unfolding len
    by (auto simp: ring_pop_def ring_inv_def skynet_mq_length_def advance_def Let_def)
  show "ring_inv (overload_loop (length ms) (advance q))"
    using advance_inv [OF assms(1) ne] by (rule ring_inv_overload)
  show "ring_list (overload_loop (length ms) (advance q)) = ms"
    using ms pos by simp
qed

text \<open>The queue after the message is stored, before the test for a full ring.\<close>

definition stored :: "skynet_message \<Rightarrow> message_queue \<Rightarrow> message_queue" where
  "stored m q = q\<lparr>mq_queue := (mq_queue q)[mq_tail q := Some m],
     mq_tail := (if mq_tail q + 1 \<ge> mq_cap q then 0 else mq_tail q + 1)\<rparr>"

lemma ring_push_stored:
  "ring_inv q \<Longrightarrow> ring_push m q =
     Some (if mq_head q = mq_tail (stored m q) then expand_queue (stored m q) else stored m q)"
  by (simp add: ring_push_def stored_def ring_inv_def Let_def upd_opt_def)

lemma stored_slice:
  assumes "ring_inv q"
  shows "map the (ring_slice (mq_queue (stored m q)) (mq_head q) (Suc (skynet_mq_length q)))
    = ring_list q @ [m]"
proof -
  from assms have "mq_head q < length (mq_queue q)" "skynet_mq_length q < length (mq_queue q)"
    "length (mq_queue q) = mq_cap q"
    using ring_length_less [OF assms] by (auto simp: ring_inv_def)
  then show ?thesis
    using ring_tail_eq [OF assms]
      ring_slice_snoc [of "mq_head q" "mq_queue q" "skynet_mq_length q" "Some m"]
    by (simp add: stored_def ring_list_def)
qed

lemma stored_written:
  assumes "ring_inv q" "i \<le> skynet_mq_length q"
  shows "mq_queue (stored m q) ! ((mq_head q + i) mod mq_cap q) \<noteq> None"
proof (cases "i = skynet_mq_length q")
  case True
  have "mq_tail q < length (mq_queue q)" using assms(1) by (simp add: ring_inv_def)
  with True show ?thesis using ring_tail_eq [OF assms(1)] by (simp add: stored_def)
next
  case False
  with assms have "mq_queue q ! ((mq_head q + i) mod mq_cap q) \<noteq> None"
    by (simp add: ring_inv_def)
  moreover have "mq_tail q < length (mq_queue q)" using assms(1) by (simp add: ring_inv_def)
  ultimately show ?thesis by (simp add: stored_def nth_list_update)
qed

lemma stored_length:
  "ring_inv q \<Longrightarrow> mq_head q \<noteq> mq_tail (stored m q) \<Longrightarrow>
     skynet_mq_length (stored m q) = Suc (skynet_mq_length q)"
  by (auto simp: stored_def ring_inv_def skynet_mq_length_def split: if_splits)

lemma stored_full:
  "ring_inv q \<Longrightarrow> mq_head q = mq_tail (stored m q) \<Longrightarrow> Suc (skynet_mq_length q) = mq_cap q"
  by (auto simp: stored_def ring_inv_def skynet_mq_length_def split: if_splits)

lemma stored_ok:
  assumes "ring_inv q" "mq_head q \<noteq> mq_tail (stored m q)"
  shows "ring_inv (stored m q)" "ring_list (stored m q) = ring_list q @ [m]"
proof -
  have hd: "mq_head (stored m q) = mq_head q" "mq_cap (stored m q) = mq_cap q"
    by (simp_all add: stored_def)
  show "ring_inv (stored m q)"
    using assms(1) stored_length [OF assms] stored_written [OF assms(1), of _ m] hd
    by (auto simp: ring_inv_def stored_def less_Suc_eq_le)
  show "ring_list (stored m q) = ring_list q @ [m]"
    using stored_slice [OF assms(1), of m] stored_length [OF assms] hd by (simp add: ring_list_def)
qed

lemma expand_slice:
  assumes "length (mq_queue q) = mq_cap q"
  shows "ring_slice (mq_queue (expand_queue q)) 0 (mq_cap q) = ring_slice (mq_queue q) (mq_head q) (mq_cap q)"
  by (rule nth_equalityI) (use assms in \<open>auto simp: expand_queue_def nth_append\<close>)

lemma expand_ok:
  assumes "ring_inv q" "mq_head q = mq_tail (stored m q)"
  shows "ring_inv (expand_queue (stored m q))"
    and "ring_list (expand_queue (stored m q)) = ring_list q @ [m]"
proof -
  let ?p = "stored m q"
  have full: "Suc (skynet_mq_length q) = mq_cap q" using assms by (rule stored_full)
  have len: "length (mq_queue ?p) = mq_cap ?p" "mq_cap ?p = mq_cap q" "mq_head ?p = mq_head q"
    using assms(1) by (auto simp: stored_def ring_inv_def)
  have el: "skynet_mq_length (expand_queue ?p) = mq_cap q" "mq_head (expand_queue ?p) = 0"
    using len by (simp_all add: expand_queue_def skynet_mq_length_def)
  show "ring_list (expand_queue ?p) = ring_list q @ [m]"
    using stored_slice [OF assms(1), of m] expand_slice [OF len(1)] len el full
    by (simp add: ring_list_def)
  have "mq_queue ?p ! ((mq_head q + i) mod mq_cap q) \<noteq> None" if "i < mq_cap q" for i
    using stored_written [OF assms(1), of i m] that full by simp
  then have "mq_queue (expand_queue ?p) ! i \<noteq> None" if "i < mq_cap q" for i
    using that len by (simp add: expand_queue_def nth_append)
  moreover have "0 < mq_cap q" "0 < mq_overload_threshold q" using assms(1) by (auto simp: ring_inv_def)
  ultimately show "ring_inv (expand_queue ?p)"
    unfolding ring_inv_def el using len by (simp add: expand_queue_def stored_def)
qed

lemma ring_push_ok:
  assumes "ring_inv q"
  shows "\<exists>q'. ring_push m q = Some q' \<and> ring_inv q' \<and> ring_list q' = ring_list q @ [m]"
  using assms stored_ok [OF assms, of m] expand_ok [OF assms, of m]
  by (cases "mq_head q = mq_tail (stored m q)") (simp_all add: ring_push_stored)

lemma ring_push_frame:
  "ring_inv q \<Longrightarrow> ring_push m q = Some q' \<Longrightarrow>
     mq_handle q' = mq_handle q \<and> mq_release q' = mq_release q
     \<and> mq_in_global q' = mq_in_global q \<and> mq_next q' = mq_next q"
  by (auto simp: ring_push_stored stored_def expand_queue_def split: if_splits)

lemma ring_pop_frame:
  assumes "ring_inv q" "ring_pop q = Some (r, q')"
  shows "mq_handle q' = mq_handle q \<and> mq_release q' = mq_release q
     \<and> mq_next q' = mq_next q \<and> mq_in_global q' = (mq_in_global q \<and> r \<noteq> None)"
proof (cases "ring_list q")
  case Nil
  with assms ring_pop_empty(1) [OF assms(1) Nil] show ?thesis by auto
next
  case (Cons m ms)
  moreover have "0 < mq_overload_threshold (advance q)"
    using assms(1) by (simp add: ring_inv_def advance_def)
  ultimately show ?thesis
    using assms ring_pop_first(1) [OF assms(1) Cons] by (auto simp: advance_def)
qed

interpretation ring: fifo ring_push ring_pop ring_list ring_inv
proof unfold_locales
  fix q :: message_queue and x
  assume "ring_inv q"
  then show "\<exists>q'. ring_push x q = Some q' \<and> ring_inv q' \<and> ring_list q' = ring_list q @ [x]"
    by (rule ring_push_ok)
next
  fix q :: message_queue
  assume "ring_inv q" "ring_list q = []"
  then show "\<exists>q'. ring_pop q = Some (None, q') \<and> ring_inv q' \<and> ring_list q' = []"
    using ring_pop_empty by blast
next
  fix q :: message_queue and x xs
  assume "ring_inv q" "ring_list q = x # xs"
  then show "\<exists>q'. ring_pop q = Some (Some x, q') \<and> ring_inv q' \<and> ring_list q' = xs"
    using ring_pop_first by blast
qed

section \<open>The global queue refines a list of queue references\<close>

fun chain :: "(mqref \<rightharpoonup> message_queue) \<Rightarrow> mqref option \<Rightarrow> mqref list \<Rightarrow> bool" where
  "chain h p [] \<longleftrightarrow> p = None"
| "chain h p (r # rs) \<longleftrightarrow> p = Some r \<and> (\<exists>q. h r = Some q \<and> chain h (mq_next q) rs)"

text \<open>The state holds the global queue \<open>rs\<close>, and no other queue is linked.\<close>

definition gq_rep :: "mq_state \<Rightarrow> mqref list \<Rightarrow> bool" where
  "gq_rep s rs \<longleftrightarrow> chain (qheap s) (ghead s) rs \<and> distinct rs
     \<and> gtail s = (if rs = [] then None else Some (last rs))
     \<and> (\<forall>r q. qheap s r = Some q \<longrightarrow> r \<notin> set rs \<longrightarrow> mq_next q = None)"

text \<open>Every queue is a well-formed ring, queues in the global queue are flagged
  \<open>in_global\<close> or marked for release, and fresh references are unused.\<close>

definition heap_ok :: "mq_state \<Rightarrow> mqref list \<Rightarrow> bool" where
  "heap_ok s rs \<longleftrightarrow> (\<forall>r q. qheap s r = Some q \<longrightarrow> ring_inv q \<and> r < qalloc s
     \<and> (r \<in> set rs \<longrightarrow> mq_in_global q \<or> mq_release q))"

definition mq_inv :: "mq_state \<Rightarrow> mqref list \<Rightarrow> bool" where
  "mq_inv s rs \<longleftrightarrow> gq_rep s rs \<and> heap_ok s rs"

lemma chain_update_other: "r \<notin> set rs \<Longrightarrow> chain (h(r := v)) p rs = chain h p rs"
  by (induction rs arbitrary: p) auto

text \<open>An update that keeps the links of a queue keeps the chain.\<close>

lemma chain_update_same:
  "h r = Some q \<Longrightarrow> mq_next q' = mq_next q \<Longrightarrow> chain h p rs \<Longrightarrow> chain (h(r \<mapsto> q')) p rs"
  by (induction rs arbitrary: p) auto

lemma chain_dom: "chain h p rs \<Longrightarrow> r \<in> set rs \<Longrightarrow> \<exists>q. h r = Some q"
  by (induction rs arbitrary: p) auto

lemma chain_append:
  "chain h p (rs @ [t]) \<Longrightarrow> distinct (rs @ [t]) \<Longrightarrow> h t = Some tq \<Longrightarrow> r \<notin> set (rs @ [t]) \<Longrightarrow>
   h r = Some q \<Longrightarrow> mq_next q = None \<Longrightarrow> chain (h(t \<mapsto> tq\<lparr>mq_next := Some r\<rparr>)) p (rs @ [t, r])"
  by (induction rs arbitrary: p) auto

lemma chain_unique: "chain h p rs \<Longrightarrow> chain h p rs' \<Longrightarrow> rs = rs'"
proof (induction rs arbitrary: p rs')
  case Nil
  then show ?case by (cases rs') auto
next
  case (Cons r rs)
  then show ?case by (cases rs') auto
qed

lemma gq_rep_unique: "gq_rep s rs \<Longrightarrow> gq_rep s rs' \<Longrightarrow> rs = rs'"
  unfolding gq_rep_def by (blast dest: chain_unique)

lemma gq_rep_keep_links:
  "gq_rep s rs \<Longrightarrow> qheap s r = Some q \<Longrightarrow> mq_next q' = mq_next q \<Longrightarrow> gq_rep (put_q r q' s) rs"
  by (auto simp: gq_rep_def put_q_def chain_update_same)

text \<open>Two states that differ at most in the links of the global queue.\<close>

definition unlink :: "message_queue \<Rightarrow> message_queue" where
  "unlink q = q\<lparr>mq_next := None\<rparr>"

definition relinked :: "mq_state \<Rightarrow> mq_state \<Rightarrow> bool" where
  "relinked s s' \<longleftrightarrow> qalloc s' = qalloc s
     \<and> (\<forall>r. map_option unlink (qheap s' r) = map_option unlink (qheap s r))"

lemma unlink_simps [simp]:
  "mq_handle (unlink q) = mq_handle q" "mq_release (unlink q) = mq_release q"
  "mq_in_global (unlink q) = mq_in_global q" "ring_inv (unlink q) = ring_inv q"
  "ring_list (unlink q) = ring_list q"
  by (simp_all add: unlink_def ring_inv_def ring_list_def skynet_mq_length_def)

lemma unlink_same:
  assumes "unlink q' = unlink q"
  shows "mq_handle q' = mq_handle q" "mq_release q' = mq_release q"
    "mq_in_global q' = mq_in_global q" "ring_inv q' = ring_inv q" "ring_list q' = ring_list q"
  using arg_cong [OF assms, of mq_handle] arg_cong [OF assms, of mq_release]
    arg_cong [OF assms, of mq_in_global] arg_cong [OF assms, of ring_inv]
    arg_cong [OF assms, of ring_list] by simp_all

lemma relinkedD:
  assumes "relinked s s'" "qheap s' r = Some q'"
  obtains q where "qheap s r = Some q" "unlink q' = unlink q"
  using assms unfolding relinked_def by (metis map_option_eq_Some)

lemma relinked_sym: "relinked s s' \<Longrightarrow> relinked s' s"
  by (simp add: relinked_def)

lemma heap_ok_relinked:
  assumes "heap_ok s rs" "relinked s s'"
    and "\<And>r q. qheap s r = Some q \<Longrightarrow> r \<in> set rs' \<Longrightarrow> mq_in_global q \<or> mq_release q"
  shows "heap_ok s' rs'"
proof -
  have "qalloc s' = qalloc s" using assms(2) by (simp add: relinked_def)
  moreover have "ring_inv q' \<and> r < qalloc s \<and> (r \<in> set rs' \<longrightarrow> mq_in_global q' \<or> mq_release q')"
    if q': "qheap s' r = Some q'" for r q'
  proof -
    from relinkedD [OF assms(2) q'] obtain q where q: "qheap s r = Some q" "unlink q' = unlink q" .
    with assms(1,3) unlink_same [OF q(2)] show ?thesis by (auto simp: heap_ok_def)
  qed
  ultimately show ?thesis by (simp add: heap_ok_def)
qed

lemma globalmq_push_rep:
  assumes rep: "gq_rep s rs" and q: "qheap s r = Some q" and new: "r \<notin> set rs"
  shows "\<exists>s'. skynet_globalmq_push r s = Some s' \<and> gq_rep s' (rs @ [r])
 \<and> relinked s s'"
proof (cases rs rule: rev_cases)
  case Nil
  have "mq_next q = None" using rep q new by (auto simp: gq_rep_def)
  with Nil rep q show ?thesis by (auto simp: mq_simps gq_rep_def relinked_def)
next
  case (snoc ts t)
  from rep q new have nxt: "mq_next q = None" by (auto simp: gq_rep_def)
  from rep snoc obtain tq where tq: "qheap s t = Some tq"
    by (auto simp: gq_rep_def dest: chain_dom [of _ _ _ t])
  from rep snoc have ch: "chain (qheap s) (ghead s) (ts @ [t])" "distinct (ts @ [t])"
    by (simp_all add: gq_rep_def)
  from new snoc have rt: "r \<notin> set (ts @ [t])" by simp
  have "chain ((qheap s)(t \<mapsto> tq\<lparr>mq_next := Some r\<rparr>)) (ghead s) (ts @ [t, r])"
    using chain_append [OF ch tq rt q nxt] .
  then have "gq_rep ((put_q t (tq\<lparr>mq_next := Some r\<rparr>) s)\<lparr>gtail := Some r\<rparr>) (rs @ [r])"
    using rep rt snoc nxt q by (auto simp: gq_rep_def put_q_def)
  moreover have "skynet_globalmq_push r s = Some ((put_q t (tq\<lparr>mq_next := Some r\<rparr>) s)\<lparr>gtail := Some r\<rparr>)"
    using rep snoc nxt q tq by (simp add: skynet_globalmq_push_def get_q_def gq_rep_def)
  ultimately show ?thesis using tq by (auto simp: put_q_def relinked_def unlink_def)
qed

lemma globalmq_pop_empty: "gq_rep s [] \<Longrightarrow> skynet_globalmq_pop s = Some (None, s)"
  by (simp add: gq_rep_def skynet_globalmq_pop_def)

lemma globalmq_pop_rep:
  assumes "gq_rep s (r # rs)"
  shows "\<exists>s'. skynet_globalmq_pop s = Some (Some r, s') \<and> gq_rep s' rs
 \<and> relinked s s'"
proof -
  from assms obtain q where q: "ghead s = Some r" "qheap s r = Some q"
    and ch: "chain (qheap s) (mq_next q) rs" and r: "r \<notin> set rs"
    by (auto simp: gq_rep_def)
  have ch': "chain ((qheap s)(r \<mapsto> q\<lparr>mq_next := None\<rparr>)) (mq_next q) rs"
    using ch r by (simp add: chain_update_other)
  show ?thesis
  proof (cases rs)
    case Nil
    with assms q ch show ?thesis by (auto simp: mq_simps gq_rep_def relinked_def unlink_def)
  next
    case (Cons r' rs')
    with ch have "mq_next q = Some r'" by simp
    with assms q ch' r Cons show ?thesis
      by (auto simp: skynet_globalmq_pop_def get_q_def put_q_def gq_rep_def relinked_def unlink_def)
  qed
qed

section \<open>Every operation preserves the invariant\<close>

text \<open>The abstract content of a queue: its messages, and \<open>None\<close> for a freed queue.\<close>

definition q_msgs :: "mq_state \<Rightarrow> mqref \<Rightarrow> skynet_message list option" where
  "q_msgs s r = map_option ring_list (qheap s r)"

lemma q_msgs_relinked: "relinked s s' \<Longrightarrow> q_msgs s' r = q_msgs s r"
proof -
  assume "relinked s s'"
  then have "map_option ring_list (map_option unlink (qheap s' r))
    = map_option ring_list (map_option unlink (qheap s r))" by (simp add: relinked_def)
  then show ?thesis by (simp add: q_msgs_def option.map_comp comp_def)
qed

lemma mq_init_inv: "mq_inv skynet_mq_init []"
  by (simp add: mq_inv_def gq_rep_def heap_ok_def skynet_mq_init_def)

lemma mq_create_inv:
  assumes "mq_inv s rs" "skynet_mq_create h s = (r, s')"
  shows "mq_inv s' rs" "qheap s r = None" "qheap s' = (qheap s)(r \<mapsto> ring_create h)" "r \<notin> set rs"
proof -
  from assms(2) have r: "r = qalloc s" and s': "s' = (put_q r (ring_create h) s)\<lparr>qalloc := Suc r\<rparr>"
    by (auto simp: skynet_mq_create_def)
  from assms(1) show new: "qheap s r = None"
    by (cases "qheap s r") (auto simp: mq_inv_def heap_ok_def r)
  with assms(1) show nin: "r \<notin> set rs"
    by (auto simp: mq_inv_def gq_rep_def dest: chain_dom)
  show "qheap s' = (qheap s)(r \<mapsto> ring_create h)" by (simp add: s' put_q_def)
  have "mq_next (ring_create h) = None" by (simp add: ring_create_def)
  with assms(1) nin show "mq_inv s' rs"
    using ring_create_inv [of h]
    by (auto simp: mq_inv_def gq_rep_def heap_ok_def s' put_q_def chain_update_other r less_SucI)
qed

lemma mq_globalpush_inv:
  assumes "mq_inv s rs" "qheap s r = Some q" "r \<notin> set rs" "mq_in_global q \<or> mq_release q"
  shows "\<exists>s'. skynet_globalmq_push r s = Some s' \<and> mq_inv s' (rs @ [r]) \<and> relinked s s'"
proof -
  from assms globalmq_push_rep [of s rs r q] obtain s' where
    s': "skynet_globalmq_push r s = Some s'" "gq_rep s' (rs @ [r])" "relinked s s'"
    by (auto simp: mq_inv_def)
  have "heap_ok s' (rs @ [r])"
    by (rule heap_ok_relinked [OF _ s'(3)])
       (use assms in \<open>auto simp: mq_inv_def heap_ok_def\<close>)
  with s' show ?thesis by (auto simp: mq_inv_def)
qed

lemma mq_globalpop_inv:
  assumes "mq_inv s (r # rs)"
  shows "\<exists>s'. skynet_globalmq_pop s = Some (Some r, s') \<and> mq_inv s' rs \<and> relinked s s'"
proof -
  from assms globalmq_pop_rep [of s r rs] obtain s' where
    s': "skynet_globalmq_pop s = Some (Some r, s')" "gq_rep s' rs" "relinked s s'"
    by (auto simp: mq_inv_def)
  have "heap_ok s' rs"
    by (rule heap_ok_relinked [OF _ s'(3)])
       (use assms in \<open>auto simp: mq_inv_def heap_ok_def\<close>)
  with s' show ?thesis by (auto simp: mq_inv_def)
qed

lemma mq_put_inv:
  assumes "mq_inv s rs" "qheap s r = Some q" "mq_next q' = mq_next q" "ring_inv q'"
    and "r \<in> set rs \<Longrightarrow> mq_in_global q' \<or> mq_release q'"
  shows "mq_inv (put_q r q' s) rs"
  using assms gq_rep_keep_links [of s rs r q q'] by (auto simp: mq_inv_def heap_ok_def put_q_def)

lemma mq_pop_inv:
  assumes "mq_inv s rs" "qheap s r = Some q"
  obtains q' where
    "skynet_mq_pop r s = Some (case ring_list q of [] \<Rightarrow> None | m # _ \<Rightarrow> Some m, put_q r q' s)"
    "ring_list q' = tl (ring_list q)" "mq_release q' = mq_release q" "mq_handle q' = mq_handle q"
    "mq_in_global q' = (mq_in_global q \<and> ring_list q \<noteq> [])" "mq_next q' = mq_next q"
    "r \<notin> set rs \<or> ring_list q \<noteq> [] \<or> mq_release q \<Longrightarrow> mq_inv (put_q r q' s) rs"
proof -
  have ri: "ring_inv q" using assms by (auto simp: mq_inv_def heap_ok_def)
  obtain m q' where pop: "ring_pop q = Some (m, q')"
    using ring.pop_total [OF ri] by (cases "ring_pop q") auto
  have m: "m = (case ring_list q of [] \<Rightarrow> None | m # _ \<Rightarrow> Some m)"
    and l: "ring_list q' = tl (ring_list q)" and i: "ring_inv q'"
    using ring.pop_contents [OF ri pop] by (auto split: list.splits)
  note fr = ring_pop_frame [OF ri pop]
  have rs: "r \<in> set rs \<Longrightarrow> mq_in_global q \<or> mq_release q"
    using assms by (auto simp: mq_inv_def heap_ok_def)
  have m0: "m = None \<longleftrightarrow> ring_list q = []" by (simp add: m split: list.splits)
  show ?thesis
  proof (rule that [of q'])
    show "skynet_mq_pop r s = Some (case ring_list q of [] \<Rightarrow> None | m # _ \<Rightarrow> Some m, put_q r q' s)"
      using assms(2) pop by (simp add: skynet_mq_pop_def get_q_def m)
    show "r \<notin> set rs \<or> ring_list q \<noteq> [] \<or> mq_release q \<Longrightarrow> mq_inv (put_q r q' s) rs"
      by (rule mq_put_inv [OF assms]) (use fr i rs m0 in auto)
  qed (use l fr m0 in auto)
qed

lemma mq_push_inv:
  assumes "mq_inv s rs" "qheap s r = Some q" "mq_in_global q \<or> r \<notin> set rs"
  shows "\<exists>s' q'. skynet_mq_push r m s = Some s'
    \<and> mq_inv s' (if mq_in_global q then rs else rs @ [r])
    \<and> relinked (put_q r q' s) s' \<and> ring_list q' = ring_list q @ [m]
    \<and> mq_in_global q' \<and> mq_release q' = mq_release q \<and> mq_handle q' = mq_handle q"
proof -
  have ri: "ring_inv q" using assms by (auto simp: mq_inv_def heap_ok_def)
  obtain q' where p: "ring_push m q = Some q'" "ring_inv q'" "ring_list q' = ring_list q @ [m]"
    using ring.push_ok [OF ri] by blast
  note fr = ring_push_frame [OF ri p(1)]
  show ?thesis
  proof (cases "mq_in_global q")
    case True
    have "mq_inv (put_q r q' s) rs"
      by (rule mq_put_inv [OF assms(1,2)]) (use fr p True in auto)
    with True p fr assms(2) show ?thesis
      by (intro exI [of _ "put_q r q' s"] exI [of _ q'])
         (simp add: skynet_mq_push_def get_q_def relinked_def)
  next
    case False
    let ?q = "q'\<lparr>mq_in_global := True\<rparr>"
    have lst: "ring_list ?q = ring_list q'" and inv: "ring_inv ?q"
      using p(2) by (auto simp: ring_list_def ring_inv_def skynet_mq_length_def)
    have "mq_inv (put_q r ?q s) rs"
      by (rule mq_put_inv [OF assms(1,2)]) (use fr inv in auto)
    from mq_globalpush_inv [OF this, of r ?q] False assms(3) obtain s' where
      "skynet_globalmq_push r (put_q r ?q s) = Some s'" "mq_inv s' (rs @ [r])"
      "relinked (put_q r ?q s) s'" by (auto simp: put_q_def)
    with False p fr lst assms(2) show ?thesis
      by (intro exI [of _ s'] exI [of _ ?q]) (simp add: skynet_mq_push_def get_q_def)
  qed
qed

lemma mq_mark_inv:
  assumes "mq_inv s rs" "qheap s r = Some q" "\<not> mq_release q" "mq_in_global q \<or> r \<notin> set rs"
  shows "\<exists>s'. skynet_mq_mark_release r s = Some s'
    \<and> mq_inv s' (if mq_in_global q then rs else rs @ [r])
    \<and> relinked (put_q r (q\<lparr>mq_release := True\<rparr>) s) s'"
proof -
  let ?q = "q\<lparr>mq_release := True\<rparr>"
  have inv: "ring_inv ?q"
    using assms by (auto simp: mq_inv_def heap_ok_def ring_inv_def skynet_mq_length_def)
  have i: "mq_inv (put_q r ?q s) rs"
    by (rule mq_put_inv [OF assms(1,2)]) (use inv in auto)
  show ?thesis
  proof (cases "mq_in_global q")
    case True
    with i assms show ?thesis by (simp add: skynet_mq_mark_release_def get_q_def relinked_def)
  next
    case False
    from mq_globalpush_inv [OF i, of r ?q] False assms(4) obtain s' where
      "skynet_globalmq_push r (put_q r ?q s) = Some s'" "mq_inv s' (rs @ [r])"
      "relinked (put_q r ?q s) s'" by (auto simp: put_q_def)
    with False assms show ?thesis
      by (simp add: skynet_mq_mark_release_def get_q_def)
  qed
qed

lemma mq_free_inv:
  assumes "mq_inv s rs" "qheap s r = Some q" "r \<notin> set rs"
  shows "\<exists>s'. mq_free r s = Some s' \<and> mq_inv s' rs \<and> qheap s' = (qheap s)(r := None)"
  using assms by (auto simp: mq_free_def get_q_def mq_inv_def gq_rep_def heap_ok_def chain_update_other)

section \<open>The ring buffer as a queue\<close>

text \<open>C5. The message queue is a first-in first-out queue of unbounded length: any sequence of
  pushes and pops from a new queue gives exactly the results the same sequence gives on a
  list; the ring never fails, whatever number of times it wraps around or is expanded.\<close>

theorem mq_refines_list:
  "\<exists>q. fifo_run ring_push ring_pop ops (ring_create h) = Some (fst (list_run ops []), q)
     \<and> ring_list q = snd (list_run ops [])"
  using ring.run_refines_list [OF ring_create_inv, of ops h] by (auto simp: ring_create_list)

text \<open>The overload report: after a successful pop the queue is never longer than the
  threshold, and a length above the threshold is recorded as the overload.\<close>

theorem mq_overload_reported:
  assumes "ring_inv q" "ring_pop q = Some (Some m, q')"
  shows "skynet_mq_length q' \<le> mq_overload_threshold q'
     \<and> (mq_overload_threshold q < skynet_mq_length q' \<longrightarrow> mq_overload q' = skynet_mq_length q')"
proof -
  from ring.pop_contents [OF assms] obtain ms where ms: "ring_list q = m # ms" "ring_list q' = ms"
    by (auto split: list.splits)
  have pos: "0 < mq_overload_threshold (advance q)" "mq_overload_threshold (advance q) = mq_overload_threshold q"
    using assms(1) by (auto simp: ring_inv_def advance_def)
  have "q' = overload_loop (length ms) (advance q)"
    using ring_pop_first(1) [OF assms(1) ms(1)] assms(2) by simp
  moreover have "skynet_mq_length q' = length ms" using ms(2) by (simp flip: length_ring_list)
  ultimately show ?thesis
    using overload_loop_result [OF pos(1), of "length ms"] pos(2) by simp
qed

theorem mq_overload_reported_witness:
  "\<exists>q q' m. ring_inv q \<and> ring_pop q = Some (Some m, q') \<and> skynet_mq_length q' \<le> mq_overload_threshold q'"
proof -
  let ?m = "\<lparr>source = 1, session = 1, data = PNull, sz = 0\<rparr>"
  obtain q where q: "ring_inv q" "ring_list q = [?m]"
    using ring.push_ok [OF ring_create_inv, of ?m 1] by (auto simp: ring_create_list)
  then obtain q' where p: "ring_pop q = Some (Some ?m, q')"
    using ring.pop_first by blast
  from mq_overload_reported [OF q(1) p] q p show ?thesis by blast
qed

end
