(* ===== verification/Scheduler.thy ===== *)
theory Scheduler
  imports Message_Queue Transition
begin

text \<open>
  How the threads of a node use the queues of \<open>skynet_mq.c\<close>. A thread \<^emph>\<open>holds\<close> a queue
  from the moment it takes it off the global queue (or creates it) until it puts it back,
  finds it empty, or frees it: between \<open>skynet_globalmq_pop\<close> and the end of
  \<open>skynet_context_message_dispatch\<close> for a worker, between \<open>skynet_mq_create\<close> and
  \<open>skynet_globalmq_push\<close> for \<open>skynet_context_new\<close>. Every step is one locked
  operation of \<open>skynet_mq.c\<close> by some thread, so all interleavings are covered.

  Two guards come from the reference counts of \<open>skynet_server.c\<close>: nobody pushes to a
  queue whose context is gone (\<open>skynet_mq_push\<close> is reached through a grabbed context),
  and a worker that dispatches to a live context holds a reference, so the queue it finds
  empty is not marked for release. The logs \<open>sent\<close> and \<open>received\<close> are history
  variables.
\<close>

record sched =
  mq :: mq_state
  holds :: "nat \<Rightarrow> mqref set"
  sent :: "mqref \<Rightarrow> skynet_message list"
  received :: "mqref \<Rightarrow> skynet_message list"

definition sched_init :: "sched \<Rightarrow> bool" where
  "sched_init s \<longleftrightarrow> mq s = skynet_mq_init \<and> holds s = (\<lambda>_. {})
     \<and> sent s = (\<lambda>_. []) \<and> received s = (\<lambda>_. [])"

definition hold :: "nat \<Rightarrow> mqref \<Rightarrow> sched \<Rightarrow> sched" where
  "hold t r s = s\<lparr>holds := (holds s)(t := insert r (holds s t))\<rparr>"

definition unhold :: "nat \<Rightarrow> mqref \<Rightarrow> sched \<Rightarrow> sched" where
  "unhold t r s = s\<lparr>holds := (holds s)(t := holds s t - {r})\<rparr>"

inductive sched_step :: "sched \<Rightarrow> sched \<Rightarrow> bool" where
  create: "skynet_mq_create h (mq s) = (r, m') \<Longrightarrow> sched_step s (hold t r (s\<lparr>mq := m'\<rparr>))"
| publish: "r \<in> holds s t \<Longrightarrow> skynet_globalmq_push r (mq s) = Some m' \<Longrightarrow>
    sched_step s (unhold t r (s\<lparr>mq := m'\<rparr>))"
| take: "skynet_globalmq_pop (mq s) = Some (Some r, m') \<Longrightarrow>
    sched_step s (hold t r (s\<lparr>mq := m'\<rparr>))"
| recv: "r \<in> holds s t \<Longrightarrow> skynet_mq_pop r (mq s) = Some (Some msg, m') \<Longrightarrow>
    sched_step s (s\<lparr>mq := m', received := (received s)(r := received s r @ [msg])\<rparr>)"
| idle: "r \<in> holds s t \<Longrightarrow> qheap (mq s) r = Some q \<Longrightarrow> \<not> mq_release q \<Longrightarrow>
    skynet_mq_pop r (mq s) = Some (None, m') \<Longrightarrow> sched_step s (unhold t r (s\<lparr>mq := m'\<rparr>))"
| free: "r \<in> holds s t \<Longrightarrow> qheap (mq s) r = Some q \<Longrightarrow> mq_release q \<Longrightarrow>
    skynet_mq_pop r (mq s) = Some (None, m1) \<Longrightarrow> mq_free r m1 = Some m' \<Longrightarrow>
    sched_step s (unhold t r (s\<lparr>mq := m'\<rparr>))"
| send: "qheap (mq s) r = Some q \<Longrightarrow> \<not> mq_release q \<Longrightarrow> skynet_mq_push r msg (mq s) = Some m' \<Longrightarrow>
    sched_step s (s\<lparr>mq := m', sent := (sent s)(r := sent s r @ [msg])\<rparr>)"
| mark: "qheap (mq s) r = Some q \<Longrightarrow> \<not> mq_release q \<Longrightarrow> skynet_mq_mark_release r (mq s) = Some m' \<Longrightarrow>
    sched_step s (s\<lparr>mq := m'\<rparr>)"

section \<open>The invariant\<close>

definition q_inv :: "sched \<Rightarrow> mqref list \<Rightarrow> mqref \<Rightarrow> message_queue \<Rightarrow> bool" where
  "q_inv s rs r q \<longleftrightarrow>
     (if r \<in> set rs \<or> (\<exists>t. r \<in> holds s t) then mq_in_global q \<or> mq_release q
      else \<not> mq_in_global q \<and> \<not> mq_release q \<and> ring_list q = [])
     \<and> sent s r = received s r @ ring_list q"

definition sched_rep :: "sched \<Rightarrow> mqref list \<Rightarrow> bool" where
  "sched_rep s rs \<longleftrightarrow> mq_inv (mq s) rs
     \<and> (\<forall>t r. r \<in> holds s t \<longrightarrow> qheap (mq s) r \<noteq> None \<and> r \<notin> set rs)
     \<and> (\<forall>t t' r. r \<in> holds s t \<longrightarrow> r \<in> holds s t' \<longrightarrow> t = t')
     \<and> (\<forall>r q. qheap (mq s) r = Some q \<longrightarrow> q_inv s rs r q)
     \<and> (\<forall>r \<ge> qalloc (mq s). sent s r = [] \<and> received s r = [])"

definition sched_inv :: "sched \<Rightarrow> bool" where
  "sched_inv s \<longleftrightarrow> (\<exists>rs. sched_rep s rs)"

lemma sched_init_inv: "sched_init s \<Longrightarrow> sched_inv s"
  unfolding sched_inv_def sched_rep_def
  using mq_init_inv by (intro exI [of _ "[]"]) (auto simp: sched_init_def skynet_mq_init_def)

lemma heap_dom_alloc: "mq_inv m rs \<Longrightarrow> qheap m r = Some q \<Longrightarrow> r < qalloc m"
  by (simp add: mq_inv_def heap_ok_def)

lemma rep_in_heap: "mq_inv m rs \<Longrightarrow> r \<in> set rs \<Longrightarrow> \<exists>q. qheap m r = Some q"
  by (auto simp: mq_inv_def gq_rep_def dest: chain_dom)

text \<open>Relinking the global queue keeps the per-queue facts.\<close>

lemma q_inv_unlink: "unlink q' = unlink q \<Longrightarrow> q_inv s rs r q' = q_inv s rs r q"
  using unlink_same [of q' q] by (simp add: q_inv_def)

lemma relinked_Some: "relinked m m' \<Longrightarrow> qheap m r = Some q \<Longrightarrow> \<exists>q'. qheap m' r = Some q'"
  using relinkedD [OF relinked_sym, of m m' r q] by blast

lemma relinked_q_inv:
  assumes "relinked m m'" "\<And>r q. qheap m r = Some q \<Longrightarrow> q_inv s rs r q" "qheap m' r = Some q'"
  shows "q_inv s rs r q'"
proof -
  from relinkedD [OF assms(1,3)] obtain q where q: "qheap m r = Some q" "unlink q' = unlink q" .
  from assms(2) [OF q(1)] show ?thesis by (rule q_inv_unlink [OF q(2), THEN iffD2])
qed

lemma rep_facts:
  assumes "sched_rep s rs"
  shows rep_mq: "mq_inv (mq s) rs"
    and rep_held_heap: "\<And>t r. r \<in> holds s t \<Longrightarrow> qheap (mq s) r \<noteq> None"
    and rep_held_out: "\<And>t r. r \<in> holds s t \<Longrightarrow> r \<notin> set rs"
    and rep_held_one: "\<And>t t' r. r \<in> holds s t \<Longrightarrow> r \<in> holds s t' \<Longrightarrow> t = t'"
    and rep_queue: "\<And>r q. qheap (mq s) r = Some q \<Longrightarrow> q_inv s rs r q"
    and rep_fresh: "\<And>r. r \<ge> qalloc (mq s) \<Longrightarrow> sent s r = [] \<and> received s r = []"
  using assms unfolding sched_rep_def by blast+

lemma sched_repI:
  assumes "mq_inv (mq s) rs" "\<And>t r. r \<in> holds s t \<Longrightarrow> qheap (mq s) r \<noteq> None"
    "\<And>t r. r \<in> holds s t \<Longrightarrow> r \<notin> set rs"
    "\<And>t t' r. r \<in> holds s t \<Longrightarrow> r \<in> holds s t' \<Longrightarrow> t = t'"
    "\<And>r q. qheap (mq s) r = Some q \<Longrightarrow> q_inv s rs r q"
    "\<And>r. r \<ge> qalloc (mq s) \<Longrightarrow> sent s r = [] \<and> received s r = []"
  shows "sched_rep s rs"
  using assms unfolding sched_rep_def by blast

lemma held_hold [simp]: "r' \<in> holds (hold t r s) t' \<longleftrightarrow> r' \<in> holds s t' \<or> r' = r \<and> t' = t"
  by (auto simp: hold_def)

lemma held_unhold [simp]: "r' \<in> holds (unhold t r s) t' \<longleftrightarrow> r' \<in> holds s t' \<and> \<not> (r' = r \<and> t' = t)"
  by (auto simp: unhold_def)

lemma hold_fields [simp]:
  "mq (hold t r s) = mq s" "sent (hold t r s) = sent s" "received (hold t r s) = received s"
  "mq (unhold t r s) = mq s" "sent (unhold t r s) = sent s" "received (unhold t r s) = received s"
  by (simp_all add: hold_def unhold_def)

lemma ring_create_flags: "mq_in_global (ring_create h)" "\<not> mq_release (ring_create h)"
  by (simp_all add: ring_create_def)

lemma step_create:
  assumes rep: "sched_rep s rs" and c: "skynet_mq_create h (mq s) = (r, m')"
  shows "sched_rep (hold t r (s\<lparr>mq := m'\<rparr>)) rs"
proof -
  note f = rep_facts [OF rep]
  note n = mq_create_inv [OF f(1) c]
  have al: "r = qalloc (mq s)" "qalloc m' = Suc r" using c by (auto simp: skynet_mq_create_def)
  have free: "r \<notin> holds s t'" for t' using f(2) n(2) by blast
  show ?thesis
  proof (rule sched_repI)
    fix r' q assume q: "qheap (mq (hold t r (s\<lparr>mq := m'\<rparr>))) r' = Some q"
    show "q_inv (hold t r (s\<lparr>mq := m'\<rparr>)) rs r' q"
    proof (cases "r' = r")
      case True
      with q n(3) have "q = ring_create h" by simp
      with True f(6) [of r] al show ?thesis
        by (auto simp: q_inv_def ring_create_list ring_create_flags)
    next
      case False
      with q n(3) f(5) [of r' q] show ?thesis by (auto simp: q_inv_def)
    qed
  qed (use n al free f in \<open>auto split: if_splits\<close>)
qed

lemma step_publish:
  assumes rep: "sched_rep s rs" and h: "r \<in> holds s t"
    and p: "skynet_globalmq_push r (mq s) = Some m'"
  shows "sched_rep (unhold t r (s\<lparr>mq := m'\<rparr>)) (rs @ [r])"
proof -
  note f = rep_facts [OF rep]
  obtain q where q: "qheap (mq s) r = Some q" using f(2) [OF h] by auto
  have "mq_in_global q \<or> mq_release q" using f(5) [OF q] h by (auto simp: q_inv_def split: if_splits)
  with mq_globalpush_inv [OF f(1) q f(3) [OF h]] p
  have m': "mq_inv m' (rs @ [r])" "relinked (mq s) m'" by auto
  have qi: "q_inv (unhold t r (s\<lparr>mq := m'\<rparr>)) (rs @ [r]) r' q'" if "qheap (mq s) r' = Some q'" for r' q'
    using f(5) [OF that] h f(4) by (auto simp: q_inv_def split: if_splits)
  show ?thesis
  proof (rule sched_repI)
    fix r' q' assume "qheap (mq (unhold t r (s\<lparr>mq := m'\<rparr>))) r' = Some q'"
    then show "q_inv (unhold t r (s\<lparr>mq := m'\<rparr>)) (rs @ [r]) r' q'"
      using relinked_q_inv [OF m'(2) qi] by simp
  next
    fix t' r' assume "r' \<in> holds (unhold t r (s\<lparr>mq := m'\<rparr>)) t'"
    then show "qheap (mq (unhold t r (s\<lparr>mq := m'\<rparr>))) r' \<noteq> None"
      using f(2) relinked_Some [OF m'(2)] by fastforce
  next
    fix t' r' assume "r' \<in> holds (unhold t r (s\<lparr>mq := m'\<rparr>)) t'"
    then show "r' \<notin> set (rs @ [r])" using f(3,4) h by auto
  qed (use m' f in \<open>auto simp: relinked_def\<close>)
qed

lemma step_take:
  assumes rep: "sched_rep s rs" and p: "skynet_globalmq_pop (mq s) = Some (Some r, m')"
  shows "sched_rep (hold t r (s\<lparr>mq := m'\<rparr>)) (tl rs)"
proof -
  note f = rep_facts [OF rep]
  obtain rs' where rs: "rs = r # rs'" and m': "mq_inv m' rs'" "relinked (mq s) m'"
    using f(1) p mq_globalpop_inv [of "mq s"] globalmq_pop_empty [of "mq s"]
    by (cases rs) (fastforce simp: mq_inv_def)+
  have d: "r \<notin> set rs'" using f(1) rs by (auto simp: mq_inv_def gq_rep_def)
  have out: "r \<notin> holds s t'" for t' using f(3) rs by auto
  have qi: "q_inv (hold t r (s\<lparr>mq := m'\<rparr>)) rs' r' q'" if "qheap (mq s) r' = Some q'" for r' q'
    using f(5) [OF that] rs by (auto simp: q_inv_def split: if_splits)
  obtain q where "qheap (mq s) r = Some q" using rep_in_heap [OF f(1), of r] rs by auto
  then have r': "qheap m' r \<noteq> None" using relinked_Some [OF m'(2)] by fastforce
  show ?thesis
  proof (rule sched_repI)
    fix r' q' assume "qheap (mq (hold t r (s\<lparr>mq := m'\<rparr>))) r' = Some q'"
    then show "q_inv (hold t r (s\<lparr>mq := m'\<rparr>)) (tl rs) r' q'"
      using relinked_q_inv [OF m'(2) qi] rs by simp
  next
    fix t' r' assume "r' \<in> holds (hold t r (s\<lparr>mq := m'\<rparr>)) t'"
    then show "qheap (mq (hold t r (s\<lparr>mq := m'\<rparr>))) r' \<noteq> None"
      using f(2) relinked_Some [OF m'(2)] r' by fastforce
  qed (use m' f rs d out in \<open>auto simp: relinked_def\<close>)
qed

lemma step_put:
  assumes rep: "sched_rep s rs" and q: "qheap (mq s) r = Some q"
    and m': "mq_inv m' rs'" "relinked (put_q r q' (mq s)) m'"
    and rs': "set rs' \<subseteq> insert r (set rs)" "set rs \<subseteq> set rs'"
    and s': "mq s' = m'" "\<And>t. holds s' t \<subseteq> holds s t" "\<And>t. holds s t - {r} \<subseteq> holds s' t"
      "\<And>r'. r' \<noteq> r \<Longrightarrow> sent s' r' = sent s r' \<and> received s' r' = received s r'"
    and out: "\<And>t. r \<in> holds s' t \<Longrightarrow> r \<notin> set rs'"
    and qi: "q_inv s' rs' r q'"
  shows "sched_rep s' rs'"
proof -
  note f = rep_facts [OF rep]
  have all: "q_inv s' rs' r' p" if p: "qheap (put_q r q' (mq s)) r' = Some p" for r' p
  proof (cases "r' = r")
    case True
    with p qi show ?thesis by (simp add: put_q_def)
  next
    case False
    with p have "q_inv s rs r' p" using f(5) by (simp add: put_q_def)
    moreover have "r' \<in> set rs' \<longleftrightarrow> r' \<in> set rs" using rs' False by auto
    moreover have "(\<exists>t. r' \<in> holds s' t) \<longleftrightarrow> (\<exists>t. r' \<in> holds s t)" using s'(2,3) False by blast
    ultimately show ?thesis using s'(4) [OF False] by (simp add: q_inv_def)
  qed
  have al: "qalloc m' = qalloc (mq s)" using m'(2) by (simp add: relinked_def put_q_def)
  have r: "r < qalloc (mq s)" using heap_dom_alloc [OF f(1) q] .
  show ?thesis
  proof (rule sched_repI)
    fix r' p assume "qheap (mq s') r' = Some p"
    then show "q_inv s' rs' r' p" using relinked_q_inv [OF m'(2) all] s'(1) by simp
  next
    fix t r' assume h: "r' \<in> holds s' t"
    then have "qheap (mq s) r' \<noteq> None" using f(2) s'(2) by blast
    then have "qheap (put_q r q' (mq s)) r' \<noteq> None" by (auto simp: put_q_def)
    then show "qheap (mq s') r' \<noteq> None" using relinked_Some [OF m'(2)] s'(1) by fastforce
    show "r' \<notin> set rs'"
      using h out f(3) s'(2) rs'(1) by (cases "r' = r") blast+
  next
    fix r' assume a: "qalloc (mq s') \<le> r'"
    then have "r' \<noteq> r" using r al s'(1) by simp
    with a show "sent s' r' = [] \<and> received s' r' = []" using s'(4) f(6) al s'(1) by simp
  next
    fix t t' r' assume "r' \<in> holds s' t" "r' \<in> holds s' t'"
    then show "t = t'" using f(4) s'(2) by blast
  qed (use m' s'(1) in simp)
qed

lemma step_pop:
  assumes rep: "sched_rep s rs" and h: "r \<in> holds s t" and q: "qheap (mq s) r = Some q"
    and p: "skynet_mq_pop r (mq s) = Some (x, m')"
  obtains q' where "m' = put_q r q' (mq s)" "mq_inv m' rs" "relinked (put_q r q' (mq s)) m'"
    "x = (case ring_list q of [] \<Rightarrow> None | m # _ \<Rightarrow> Some m)" "ring_list q' = tl (ring_list q)"
    "mq_release q' = mq_release q" "mq_in_global q' = (mq_in_global q \<and> ring_list q \<noteq> [])"
    "mq_in_global q \<or> mq_release q" "sent s r = received s r @ ring_list q"
proof -
  note f = rep_facts [OF rep]
  have g: "mq_in_global q \<or> mq_release q" "sent s r = received s r @ ring_list q"
    using f(5) [OF q] h by (auto simp: q_inv_def split: if_splits)
  show ?thesis
    by (rule mq_pop_inv [OF f(1) q])
       (rule that, use p g f(3) [OF h] in \<open>auto simp: relinked_def\<close>)
qed

lemma step_recv:
  assumes rep: "sched_rep s rs" and h: "r \<in> holds s t"
    and p: "skynet_mq_pop r (mq s) = Some (Some msg, m')"
  shows "sched_rep (s\<lparr>mq := m', received := (received s)(r := received s r @ [msg])\<rparr>) rs"
proof -
  note f = rep_facts [OF rep]
  obtain q where q: "qheap (mq s) r = Some q" using f(2) [OF h] by auto
  from rep h q p show ?thesis
  proof (rule step_pop)
    fix q'
    assume a: "mq_inv m' rs" "relinked (put_q r q' (mq s)) m'"
      "Some msg = (case ring_list q of [] \<Rightarrow> None | m # _ \<Rightarrow> Some m)" "ring_list q' = tl (ring_list q)"
      "mq_release q' = mq_release q" "mq_in_global q' = (mq_in_global q \<and> ring_list q \<noteq> [])"
      "mq_in_global q \<or> mq_release q" "sent s r = received s r @ ring_list q"
    show ?thesis
      by (rule step_put [OF rep q a(1,2)])
         (use a f(3) [OF h] h f(3) in \<open>auto simp: q_inv_def split: list.splits\<close>)
  qed
qed

lemma step_idle:
  assumes rep: "sched_rep s rs" and h: "r \<in> holds s t" and q: "qheap (mq s) r = Some q"
    and rel: "\<not> mq_release q" and p: "skynet_mq_pop r (mq s) = Some (None, m')"
  shows "sched_rep (unhold t r (s\<lparr>mq := m'\<rparr>)) rs"
  using rep h q p
proof (rule step_pop)
  note f = rep_facts [OF rep]
  fix q'
  assume a: "mq_inv m' rs" "relinked (put_q r q' (mq s)) m'"
    "None = (case ring_list q of [] \<Rightarrow> None | m # _ \<Rightarrow> Some m)" "ring_list q' = tl (ring_list q)"
    "mq_release q' = mq_release q" "mq_in_global q' = (mq_in_global q \<and> ring_list q \<noteq> [])"
    "sent s r = received s r @ ring_list q"
  have one: "r \<notin> holds s t'" if "t' \<noteq> t" for t' using f(4) [OF h] that by blast
  show ?thesis
    by (rule step_put [OF rep q a(1,2)])
       (use a rel f(3) [OF h] one in \<open>auto simp: q_inv_def split: list.splits\<close>)
qed

lemma step_free:
  assumes rep: "sched_rep s rs" and h: "r \<in> holds s t" and q: "qheap (mq s) r = Some q"
    and p: "skynet_mq_pop r (mq s) = Some (None, m1)" and fr: "mq_free r m1 = Some m'"
  shows "sched_rep (unhold t r (s\<lparr>mq := m'\<rparr>)) rs"
  using rep h q p
proof (rule step_pop)
  note f = rep_facts [OF rep]
  fix q'
  assume a: "m1 = put_q r q' (mq s)" "mq_inv m1 rs"
  have m': "mq_inv m' rs" "qheap m' = (qheap (mq s))(r := None)" "qalloc m' = qalloc (mq s)"
    using mq_free_inv [OF a(2), of r q'] f(3) [OF h] fr a(1)
    by (auto simp: put_q_def mq_free_def get_q_def)
  have one: "r \<notin> holds s t'" if "t' \<noteq> t" for t' using f(4) [OF h] that by blast
  show ?thesis
    by (rule sched_repI)
       (use m' f one in \<open>auto simp: q_inv_def split: if_splits\<close>)
qed

lemma step_send:
  assumes rep: "sched_rep s rs" and q: "qheap (mq s) r = Some q" and rel: "\<not> mq_release q"
    and p: "skynet_mq_push r msg (mq s) = Some m'"
  shows "\<exists>rs'. sched_rep (s\<lparr>mq := m', sent := (sent s)(r := sent s r @ [msg])\<rparr>) rs'"
proof -
  note f = rep_facts [OF rep]
  have out: "r \<notin> set rs" "\<And>t. r \<notin> holds s t" if "\<not> mq_in_global q"
    using f(5) [OF q] rel that by (auto simp: q_inv_def split: if_splits)
  have lg: "sent s r = received s r @ ring_list q" using f(5) [OF q] by (simp add: q_inv_def)
  have sch: "r \<in> set rs \<or> (\<exists>t. r \<in> holds s t)" if "mq_in_global q"
    using f(5) [OF q] that by (auto simp: q_inv_def split: if_splits)
  obtain q' where a: "mq_inv m' (if mq_in_global q then rs else rs @ [r])"
    "relinked (put_q r q' (mq s)) m'" "ring_list q' = ring_list q @ [msg]" "mq_in_global q'"
    using mq_push_inv [OF f(1) q, of msg] out p by auto
  have "sched_rep (s\<lparr>mq := m', sent := (sent s)(r := sent s r @ [msg])\<rparr>)
      (if mq_in_global q then rs else rs @ [r])"
    by (rule step_put [OF rep q a(1,2)])
       (use a out lg sch f(3) in \<open>auto simp: q_inv_def split: if_splits\<close>)
  then show ?thesis ..
qed

lemma step_mark:
  assumes rep: "sched_rep s rs" and q: "qheap (mq s) r = Some q" and rel: "\<not> mq_release q"
    and p: "skynet_mq_mark_release r (mq s) = Some m'"
  shows "\<exists>rs'. sched_rep (s\<lparr>mq := m'\<rparr>) rs'"
proof -
  note f = rep_facts [OF rep]
  have out: "r \<notin> set rs" "\<And>t. r \<notin> holds s t" if "\<not> mq_in_global q"
    using f(5) [OF q] rel that by (auto simp: q_inv_def split: if_splits)
  have lg: "sent s r = received s r @ ring_list q" using f(5) [OF q] by (simp add: q_inv_def)
  have sch: "r \<in> set rs \<or> (\<exists>t. r \<in> holds s t)" if "mq_in_global q"
    using f(5) [OF q] that by (auto simp: q_inv_def split: if_splits)
  let ?q' = "q\<lparr>mq_release := True\<rparr>"
  have rl: "ring_list ?q' = ring_list q" by (simp add: ring_list_def skynet_mq_length_def)
  have a: "mq_inv m' (if mq_in_global q then rs else rs @ [r])" "relinked (put_q r ?q' (mq s)) m'"
    using mq_mark_inv [OF f(1) q rel] out p by auto
  have "sched_rep (s\<lparr>mq := m'\<rparr>) (if mq_in_global q then rs else rs @ [r])"
    by (rule step_put [OF rep q a])
       (use out lg sch f(3) rl in \<open>auto simp: q_inv_def split: if_splits\<close>)
  then show ?thesis ..
qed

lemma sched_step_inv: "sched_inv s \<Longrightarrow> sched_step s s' \<Longrightarrow> sched_inv s'"
  unfolding sched_inv_def
  by (erule exE, erule sched_step.cases)
     (blast dest: step_create step_publish step_take step_recv step_idle step_free step_send step_mark)+

interpretation sched_sys: inductive_invariant sched_init sched_step sched_inv
  by unfold_locales (auto intro: sched_init_inv sched_step_inv)

section \<open>What every interleaving guarantees\<close>

text \<open>A run for the witnesses: thread 0 creates a queue and two messages are sent to it, then
  thread 0 receives one of them.\<close>

definition demo_msg :: "u32 \<Rightarrow> skynet_message" where
  "demo_msg n = \<lparr>source = n, session = 1, data = PNull, sz = 0\<rparr>"

definition demo_queue :: "skynet_message list \<Rightarrow> message_queue" where
  "demo_queue ms = (ring_create 1)\<lparr>mq_queue := map Some ms @ replicate (64 - length ms) None,
     mq_tail := length ms\<rparr>"

definition demo_state :: "message_queue \<Rightarrow> skynet_message list \<Rightarrow> skynet_message list \<Rightarrow> sched" where
  "demo_state q sn rc = \<lparr>mq = \<lparr>qheap = [0 \<mapsto> q], qalloc = 1, ghead = None, gtail = None\<rparr>,
     holds = (\<lambda>_. {})(0 := {0}), sent = (\<lambda>_. [])(0 := sn), received = (\<lambda>_. [])(0 := rc)\<rparr>"

lemma demo_reach0: "reach sched_init sched_step (demo_state (demo_queue []) [] [])"
proof -
  let ?s = "\<lparr>mq = skynet_mq_init, holds = (\<lambda>_. {}), sent = (\<lambda>_. []), received = (\<lambda>_. [])\<rparr>"
  let ?q = "\<lparr>qheap = [0 \<mapsto> ring_create 1], qalloc = 1, ghead = None, gtail = None\<rparr>"
  have "reach sched_init sched_step ?s"
    by (rule reach_init) (simp add: sched_init_def)
  moreover have "sched_step ?s (hold 0 0 (?s\<lparr>mq := ?q\<rparr>))"
    by (rule sched_step.create [of 1]) (simp add: skynet_mq_create_def skynet_mq_init_def put_q_def)
  moreover have "hold 0 0 (?s\<lparr>mq := ?q\<rparr>) = demo_state (demo_queue []) [] []"
    by (simp add: hold_def demo_state_def demo_queue_def ring_create_def DEFAULT_QUEUE_SIZE_def
        fun_upd_idem)
  ultimately show ?thesis using reach_step by metis
qed

lemma demo_send_step:
  assumes "length ms < 62"
  shows "sched_step (demo_state (demo_queue ms) sn rc) (demo_state (demo_queue (ms @ [m])) (sn @ [m]) rc)"
proof -
  let ?s = "demo_state (demo_queue ms) sn rc"
  have "(map Some ms @ replicate (64 - length ms) None)[length ms := Some m]
    = map Some (ms @ [m]) @ replicate (64 - length (ms @ [m])) None"
    using assms by (simp add: list_update_append) (cases "64 - length ms", auto)
  then have "skynet_mq_push 0 m (mq ?s)
    = Some \<lparr>qheap = [0 \<mapsto> demo_queue (ms @ [m])], qalloc = 1, ghead = None, gtail = None\<rparr>"
    using assms
    by (simp add: skynet_mq_push_def get_q_def put_q_def ring_push_def upd_opt_def demo_state_def
        demo_queue_def ring_create_def DEFAULT_QUEUE_SIZE_def Let_def)
  from sched_step.send [OF _ _ this, of "demo_queue ms"] show ?thesis
    by (simp add: demo_state_def demo_queue_def ring_create_def)
qed

definition demo_final :: sched where
  "demo_final = demo_state (demo_queue [demo_msg 7, demo_msg 8]) [demo_msg 7, demo_msg 8] []"

lemma demo_reach: "reach sched_init sched_step demo_final"
  using reach_step [OF reach_step [OF demo_reach0 demo_send_step] demo_send_step,
      of "demo_msg 7" "demo_msg 8"]
  by (simp add: demo_final_def)

lemma demo_final_facts:
  "qheap (mq demo_final) 0 = Some (demo_queue [demo_msg 7, demo_msg 8])" "0 \<in> holds demo_final 0"
  "gq_rep (mq demo_final) []" "ring_list (demo_queue [demo_msg 7, demo_msg 8]) = [demo_msg 7, demo_msg 8]"
  "\<not> mq_release (demo_queue ms)" "mq_next (demo_queue ms) = None" "mq_in_global (demo_queue ms)"
  by (auto simp: demo_final_def demo_state_def gq_rep_def demo_queue_def ring_create_def
      ring_list_def skynet_mq_length_def ring_slice_def upt_rec numeral_2_eq_2)

text \<open>C1. Two threads never hold the same message queue, and a held queue is not in the
  global queue: a service's messages are dispatched by one thread at a time.\<close>

theorem sched_exclusive:
  assumes "reach sched_init sched_step s" "r \<in> holds s t"
  shows "(r \<in> holds s t' \<longrightarrow> t' = t) \<and> (gq_rep (mq s) rs \<longrightarrow> r \<notin> set rs)"
proof -
  from sched_sys.reach_inv [OF assms(1)] obtain rs0 where rep: "sched_rep s rs0"
    by (auto simp: sched_inv_def)
  then have "gq_rep (mq s) rs \<Longrightarrow> rs = rs0"
    by (auto simp: sched_rep_def mq_inv_def dest: gq_rep_unique)
  with rep assms(2) show ?thesis using rep_held_one [OF rep] rep_held_out [OF rep] by blast
qed

theorem sched_exclusive_witness:
  "reach sched_init sched_step demo_final \<and> 0 \<in> holds demo_final 0
   \<and> 0 \<notin> holds demo_final 1 \<and> gq_rep (mq demo_final) []"
  using sched_exclusive [OF demo_reach demo_final_facts(2), of 1 "[]"] demo_reach demo_final_facts
  by simp

text \<open>C2. No message is lost to the scheduler: a live queue that holds messages, or that is
  marked for release, is in the global queue or held by a thread.\<close>

theorem sched_no_lost_queue:
  assumes "reach sched_init sched_step s" "gq_rep (mq s) rs" "qheap (mq s) r = Some q"
    and "ring_list q \<noteq> [] \<or> mq_release q"
  shows "r \<in> set rs \<or> (\<exists>t. r \<in> holds s t)"
proof -
  from sched_sys.reach_inv [OF assms(1)] obtain rs0 where rep: "sched_rep s rs0"
    by (auto simp: sched_inv_def)
  then have "rs = rs0" using assms(2)
    by (auto simp: sched_rep_def mq_inv_def dest: gq_rep_unique)
  with rep_queue [OF rep assms(3)] assms(4) show ?thesis
    by (auto simp: q_inv_def split: if_splits)
qed

theorem sched_no_lost_queue_witness:
  "reach sched_init sched_step demo_final \<and> (0 \<in> set [] \<or> (\<exists>t. 0 \<in> holds demo_final t))"
  using sched_no_lost_queue [OF demo_reach demo_final_facts(3) demo_final_facts(1)] demo_reach
    demo_final_facts(4) by simp

text \<open>C3. Delivery is exactly once and in order: what was sent to a queue is what was received
  from it followed by what the queue still holds.\<close>

theorem sched_fifo_delivery:
  assumes "reach sched_init sched_step s" "qheap (mq s) r = Some q"
  shows "sent s r = received s r @ ring_list q"
proof -
  from sched_sys.reach_inv [OF assms(1)] obtain rs where rep: "sched_rep s rs"
    by (auto simp: sched_inv_def)
  from rep_queue [OF rep assms(2)] show ?thesis by (simp add: q_inv_def)
qed

theorem sched_fifo_delivery_witness:
  "sent demo_final 0 = received demo_final 0 @ [demo_msg 7, demo_msg 8]"
  using sched_fifo_delivery [OF demo_reach demo_final_facts(1)] demo_final_facts(4) by simp



end
