(* ===== verification/Locks.thy ===== *)
theory Locks
  imports Transition
begin

text \<open>
  \<^verbatim>\<open>skynet-src/spinlock.h\<close> and \<^verbatim>\<open>skynet-src/rwlock.h\<close> (the variants on the \<open>__sync\<close>
  builtins): the locks the other components rely on when their operations are taken as
  single steps. A thread's position inside a lock function is a program counter; each
  atomic builtin and each read of a lock word is one step, and the threads interleave
  freely. The memory is sequentially consistent, as the full barriers of the builtins and
  \<open>__sync_synchronize\<close> in the waiting loops intend.
\<close>

section \<open>The spin lock\<close>

record spinlock =
  lock :: int

definition spinlock_init :: spinlock where
  "spinlock_init = \<lparr>lock = 0\<rparr>"

text \<open>\<open>__sync_lock_test_and_set(&lock->lock, 1)\<close>: the old value, and the lock set.\<close>

definition test_and_set :: "spinlock \<Rightarrow> int \<times> spinlock" where
  "test_and_set l = (lock l, l\<lparr>lock := 1\<rparr>)"

datatype spin_pc = SIdle | SSpin | STry | SHeld
datatype spin_op = Lock | Trylock

text \<open>One turn of the loop of \<open>spinlock_lock\<close>.\<close>

definition spinlock_lock :: "spinlock \<Rightarrow> spin_pc \<times> spinlock" where
  "spinlock_lock l = (let (old, l') = test_and_set l in (if old \<noteq> 0 then SSpin else SHeld, l'))"

definition spinlock_trylock :: "spinlock \<Rightarrow> spin_pc \<times> spinlock" where
  "spinlock_trylock l = (let (old, l') = test_and_set l in (if old = 0 then SHeld else SIdle, l'))"

definition spinlock_unlock :: "spinlock \<Rightarrow> spin_pc \<times> spinlock" where
  "spinlock_unlock l = (SIdle, l\<lparr>lock := 0\<rparr>)"

fun spin_next :: "spin_op \<Rightarrow> spin_pc \<Rightarrow> spinlock \<Rightarrow> spin_pc \<times> spinlock" where
  "spin_next Lock SIdle l = (SSpin, l)"
| "spin_next Trylock SIdle l = (STry, l)"
| "spin_next oper SSpin l = spinlock_lock l"
| "spin_next oper STry l = spinlock_trylock l"
| "spin_next oper SHeld l = spinlock_unlock l"

type_synonym spin_state = "spinlock \<times> (nat \<Rightarrow> spin_pc)"

inductive spin_step :: "spin_state \<Rightarrow> spin_state \<Rightarrow> bool" where
  spin_move: "spin_next oper (pc t) l = (p, l') \<Longrightarrow> spin_step (l, pc) (l', pc(t := p))"

definition spin_start :: "spin_state \<Rightarrow> bool" where
  "spin_start s \<longleftrightarrow> s = (spinlock_init, \<lambda>_. SIdle)"

definition spin_inv :: "spin_state \<Rightarrow> bool" where [inv_defs]:
  "spin_inv s \<longleftrightarrow> (case s of (l, pc) \<Rightarrow>
     (lock l = 0 \<or> lock l = 1)
   \<and> (lock l \<noteq> 0 \<longleftrightarrow> (\<exists>t. pc t = SHeld))
   \<and> (\<forall>t u. pc t = SHeld \<longrightarrow> pc u = SHeld \<longrightarrow> t = u))"

inductive_cases spin_stepE: "spin_step s t"

lemma spin_inv_step: "spin_inv s \<Longrightarrow> spin_step s s' \<Longrightarrow> spin_inv s'"
proof (erule spin_stepE)
  fix oper pc t l p l'
  assume "spin_inv s" and s: "s = (l, pc)" "s' = (l', pc(t := p))" and n: "spin_next oper (pc t) l = (p, l')"
  then have inv: "lock l = 0 \<or> lock l = 1" "lock l \<noteq> 0 \<longleftrightarrow> (\<exists>t. pc t = SHeld)"
    "\<forall>t u. pc t = SHeld \<longrightarrow> pc u = SHeld \<longrightarrow> t = u" by (auto simp: spin_inv_def)
  consider "p \<noteq> SHeld" "pc t \<noteq> SHeld" "lock l' = lock l" | "pc t \<noteq> SHeld" "lock l = 0" "p = SHeld" "lock l' = 1"
    | "pc t = SHeld" "p \<noteq> SHeld" "lock l' = 0"
    using n inv(1) by (cases "pc t"; cases oper)
      (auto simp: spinlock_lock_def spinlock_trylock_def spinlock_unlock_def test_and_set_def split: if_splits)
  then show "spin_inv s'"
  proof cases
    case 1
    then have "(pc(t := p)) u = SHeld \<longleftrightarrow> pc u = SHeld" for u by auto
    with 1 inv s show ?thesis by (simp add: spin_inv_def del: fun_upd_apply)
  qed (use inv s in \<open>auto simp: spin_inv_def\<close>)
qed

interpretation spin_sys: inductive_invariant spin_start spin_step spin_inv
proof
  show "\<And>s. spin_start s \<Longrightarrow> spin_inv s" by (auto simp: spin_start_def spin_inv_def spinlock_init_def)
qed (rule spin_inv_step)

section \<open>The read-write lock\<close>

record rwlock =
  w_flag :: int
  r_count :: int

definition rwlock_init :: rwlock where
  "rwlock_init = \<lparr>w_flag = 0, r_count = 0\<rparr>"

text \<open>Where a thread is: waiting for \<open>write\<close> to clear, about to count itself as a reader, about
  to look at \<open>write\<close> again, about to take the count back, inside the read section; about to
  take \<open>write\<close>, waiting for the readers to leave, inside the write section.\<close>

datatype rw_pc = Idle | RSpin | RInc | RCheck | RUndo | Reading | WTake | WWait | Writing
datatype rw_op = RLock | WLock

fun rwlock_rlock :: "rw_pc \<Rightarrow> rwlock \<Rightarrow> rw_pc \<times> rwlock" where
  "rwlock_rlock RSpin l = (if w_flag l \<noteq> 0 then RSpin else RInc, l)"
| "rwlock_rlock RInc l = (RCheck, l\<lparr>r_count := r_count l + 1\<rparr>)"
| "rwlock_rlock RCheck l = (if w_flag l \<noteq> 0 then RUndo else Reading, l)"
| "rwlock_rlock RUndo l = (RSpin, l\<lparr>r_count := r_count l - 1\<rparr>)"
| "rwlock_rlock p l = (p, l)"

fun rwlock_wlock :: "rw_pc \<Rightarrow> rwlock \<Rightarrow> rw_pc \<times> rwlock" where
  "rwlock_wlock WTake l = (if w_flag l \<noteq> 0 then WTake else WWait, l\<lparr>w_flag := 1\<rparr>)"
| "rwlock_wlock WWait l = (if r_count l \<noteq> 0 then WWait else Writing, l)"
| "rwlock_wlock p l = (p, l)"

definition rwlock_wunlock :: "rwlock \<Rightarrow> rw_pc \<times> rwlock" where
  "rwlock_wunlock l = (Idle, l\<lparr>w_flag := 0\<rparr>)"

definition rwlock_runlock :: "rwlock \<Rightarrow> rw_pc \<times> rwlock" where
  "rwlock_runlock l = (Idle, l\<lparr>r_count := r_count l - 1\<rparr>)"

definition rw_next :: "rw_op \<Rightarrow> rw_pc \<Rightarrow> rwlock \<Rightarrow> rw_pc \<times> rwlock" where
  "rw_next oper p l =
     (case p of
        Idle \<Rightarrow> (case oper of RLock \<Rightarrow> (RSpin, l) | WLock \<Rightarrow> (WTake, l))
      | Reading \<Rightarrow> rwlock_runlock l
      | Writing \<Rightarrow> rwlock_wunlock l
      | WTake \<Rightarrow> rwlock_wlock p l
      | WWait \<Rightarrow> rwlock_wlock p l
      | _ \<Rightarrow> rwlock_rlock p l)"

type_synonym rw_state = "rwlock \<times> rw_pc list"

text \<open>The threads are a fixed finite list, as \<open>config->thread\<close> makes it.\<close>

inductive rw_step :: "rw_state \<Rightarrow> rw_state \<Rightarrow> bool" where
  rw_move: "t < length pcs \<Longrightarrow> rw_next oper (pcs ! t) l = (p, l') \<Longrightarrow> rw_step (l, pcs) (l', pcs[t := p])"

inductive_cases rw_stepE: "rw_step s t"

definition rw_start :: "nat \<Rightarrow> rw_state \<Rightarrow> bool" where
  "rw_start n s \<longleftrightarrow> s = (rwlock_init, replicate n Idle)"

text \<open>A reader is counted from its increment on, a writer owns \<open>write\<close> from its test-and-set on.\<close>

fun counted :: "rw_pc \<Rightarrow> nat" where
  "counted RCheck = 1" | "counted RUndo = 1" | "counted Reading = 1" | "counted _ = 0"

fun owning :: "rw_pc \<Rightarrow> nat" where
  "owning WWait = 1" | "owning Writing = 1" | "owning _ = 0"

definition rw_inv :: "rw_state \<Rightarrow> bool" where [inv_defs]:
  "rw_inv s \<longleftrightarrow> (case s of (l, pcs) \<Rightarrow>
     r_count l = int (sum_list (map counted pcs))
   \<and> w_flag l = int (sum_list (map owning pcs))
   \<and> w_flag l \<le> 1
   \<and> (Writing \<in> set pcs \<longrightarrow> Reading \<notin> set pcs))"

lemma update_mem: "x \<in> set (xs[i := y]) \<Longrightarrow> x = y \<or> x \<in> set xs"
  using set_update_subset_insert by fastforce

lemma rw_inv_step: "rw_inv s \<Longrightarrow> rw_step s s' \<Longrightarrow> rw_inv s'"
proof (erule rw_stepE)
  fix t pcs oper l p l'
  assume "rw_inv s" and s: "s = (l, pcs)" "s' = (l', pcs[t := p])" and t: "t < length pcs"
    and n: "rw_next oper (pcs ! t) l = (p, l')"
  then have inv: "r_count l = int (sum_list (map counted pcs))" "w_flag l = int (sum_list (map owning pcs))"
    "w_flag l \<le> 1" "Writing \<in> set pcs \<longrightarrow> Reading \<notin> set pcs" by (auto simp: rw_inv_def)
  note mv = sum_list_move [OF t, of counted p] sum_list_move [OF t, of owning p]
  have at: "pcs ! t \<in> set pcs" using t by simp
  have wr: "w_flag l \<noteq> 0" if "Writing \<in> set pcs"
    using sum_list_ge [OF that, of owning] inv(2) by (simp del: sum_list_eq_0_iff)
  have rd: "r_count l \<noteq> 0" if "Reading \<in> set pcs"
    using sum_list_ge [OF that, of counted] inv(1) by (simp del: sum_list_eq_0_iff)
  have ex: "Reading \<notin> set (pcs[t := p])" if "Writing \<in> set (pcs[t := p])"
    using that inv(4) wr rd n at
    by (cases "pcs ! t") (auto simp: rw_next_def rwlock_runlock_def rwlock_wunlock_def
        dest!: update_mem split: if_splits rw_op.splits)
  have "r_count l' = int (sum_list (map counted (pcs[t := p]))) \<and> w_flag l' = int (sum_list (map owning (pcs[t := p])))
    \<and> w_flag l' \<le> 1"
    using inv mv n sum_list_ge [OF at, of counted] sum_list_ge [OF at, of owning]
    by (cases "pcs ! t") (auto simp: rw_next_def rwlock_runlock_def rwlock_wunlock_def
        simp del: sum_list_eq_0_iff split: if_splits rw_op.splits)
  with ex show "rw_inv s'" using s by (auto simp: rw_inv_def)
qed

interpretation rw_sys: inductive_invariant "rw_start n" rw_step rw_inv
proof
  show "\<And>s. rw_start n s \<Longrightarrow> rw_inv s"
    by (auto simp: rw_start_def rw_inv_def rwlock_init_def sum_list_0_iff)
qed (rule rw_inv_step)

section \<open>What the locks guarantee\<close>

text \<open>Mutual exclusion of the spin lock: in no interleaving of lock, trylock and unlock do
  two threads hold it at once, and the lock word is 0 exactly when no thread holds it.\<close>

lemma spinlock_mutex:
  assumes "reach spin_start spin_step (l, pc)"
  shows "(\<forall>t u. pc t = SHeld \<and> pc u = SHeld \<longrightarrow> t = u) \<and> (lock l = 0 \<longleftrightarrow> (\<forall>t. pc t \<noteq> SHeld))"
  using spin_sys.reach_inv [OF assms] by (auto simp: spin_inv_def)

theorem spinlock_mutex_witness:
  "reach spin_start spin_step (spinlock_init, \<lambda>_. SIdle)
   \<and> lock spinlock_init = 0"
proof
  show r: "reach spin_start spin_step (spinlock_init, \<lambda>_. SIdle)"
    by (rule reach.reach_init) (simp add: spin_start_def)
  show "lock spinlock_init = 0" using spinlock_mutex [OF r] by simp
qed

text \<open>C12. The read-write lock excludes a writer from every other writer and from every reader, in
  every interleaving; its reader count is the number of threads between their increment and
  their decrement, so it never leaves the range of 0 to the number of threads.\<close>

theorem rwlock_exclusion:
  assumes "reach (rw_start n) rw_step (l, pcs)"
  shows "(Writing \<in> set pcs \<longrightarrow> Reading \<notin> set pcs)
     \<and> (\<forall>t u. t < length pcs \<and> u < length pcs \<and> pcs ! t = Writing \<and> pcs ! u = Writing \<longrightarrow> t = u)
     \<and> 0 \<le> r_count l \<and> r_count l \<le> int (length pcs)"
proof -
  from rw_sys.reach_inv [OF assms] have
    inv: "r_count l = int (sum_list (map counted pcs))" "w_flag l = int (sum_list (map owning pcs))"
    "w_flag l \<le> 1" "Writing \<in> set pcs \<longrightarrow> Reading \<notin> set pcs" by (auto simp: rw_inv_def)
  have one: "t = u" if tu: "t < length pcs" "u < length pcs" "pcs ! t = Writing" "pcs ! u = Writing" for t u
  proof (rule ccontr)
    assume ne: "t \<noteq> u"
    let ?ps = "pcs[t := Idle]"
    have "Writing \<in> set ?ps" using tu ne by (metis length_list_update nth_list_update_neq nth_mem)
    from sum_list_ge [OF this, of owning] sum_list_move [OF tu(1), of owning Idle] inv(2,3) tu(3)
    show False by simp
  qed
  have "sum_list (map counted ps) \<le> length ps" for ps
  proof (induction ps)
    case (Cons p ps)
    then show ?case by (cases p) auto
  qed simp
  then show ?thesis using inv one by simp
qed

text \<open>The read-write lock does not deadlock: whenever a thread is inside one of its functions
  or sections, some thread's next step changes the state, so the waiting loops of all threads
  cannot be stuck at once.\<close>

lemma rwlock_progress:
  assumes "reach (rw_start n) rw_step (l, pcs)" "t < length pcs" "pcs ! t \<noteq> Idle"
  shows "\<exists>u<length pcs. pcs ! u \<noteq> Idle \<and> (\<forall>oper. rw_next oper (pcs ! u) l \<noteq> (pcs ! u, l))"
proof -
  from rw_sys.reach_inv [OF assms(1)] have
    inv: "r_count l = int (sum_list (map counted pcs))" "w_flag l = int (sum_list (map owning pcs))"
    by (auto simp: rw_inv_def)
  have moves: "\<forall>oper. rw_next oper p l \<noteq> (p, l)" if "counted p \<noteq> 0" for p
    using that by (cases p) (auto simp: rw_next_def rwlock_runlock_def)
  show ?thesis
  proof (cases "w_flag l = 0")
    case True
    then have "owning (pcs ! t) = 0" using inv(2) sum_list_ge [of "pcs ! t" pcs owning] assms(2) by simp
    then have "\<forall>oper. rw_next oper (pcs ! t) l \<noteq> (pcs ! t, l)"
      using True assms(3) by (cases "pcs ! t") (auto simp: rw_next_def rwlock_runlock_def)
    then show ?thesis using assms(2,3) by blast
  next
    case False
    then obtain u where u: "u < length pcs" "owning (pcs ! u) \<noteq> 0"
      using inv(2) by (auto simp: in_set_conv_nth)
    show ?thesis
    proof (cases "pcs ! u = WWait \<and> r_count l \<noteq> 0")
      case True
      then obtain v where v: "v < length pcs" "counted (pcs ! v) \<noteq> 0"
        using inv(1) by (auto simp: in_set_conv_nth)
      then have "pcs ! v \<noteq> Idle" by auto
      with moves v show ?thesis by blast
    next
      case f: False
      then have "\<forall>oper. rw_next oper (pcs ! u) l \<noteq> (pcs ! u, l)"
        using u(2) by (cases "pcs ! u") (auto simp: rw_next_def rwlock_wunlock_def)
      moreover have "pcs ! u \<noteq> Idle" using u(2) by auto
      ultimately show ?thesis using u(1) by blast
    qed
  qed
qed

text \<open>A state reached by a reader and a writer entering the lock together.\<close>

definition rw_demo :: rw_state where
  "rw_demo = (\<lparr>w_flag = 1, r_count = 1\<rparr>, [RCheck, WWait])"

lemma rw_demo_reach: "reach (rw_start 2) rw_step rw_demo"
proof -
  let ?r = "reach (rw_start 2) rw_step"
  have move: "?r (l', pcs[t := p])"
    if "?r (l, pcs)" "t < length pcs" "rw_next oper (pcs ! t) l = (p, l')" for l pcs t oper p l'
    by (rule reach.reach_step [OF that(1) rw_move [OF that(2,3)]])
  have 0: "?r (rwlock_init, [Idle, Idle])"
    by (rule reach.reach_init) (simp add: rw_start_def numeral_eq_Suc)
  have 1: "?r (rwlock_init, [RSpin, Idle])"
    using move [OF 0, of 0 RLock] by (simp add: rw_next_def)
  have 2: "?r (rwlock_init, [RInc, Idle])"
    using move [OF 1, of 0 RLock] by (simp add: rw_next_def rwlock_init_def)
  have 3: "?r (rwlock_init, [RInc, WTake])"
    using move [OF 2, of 1 WLock] by (simp add: rw_next_def)
  have 4: "?r (\<lparr>w_flag = 1, r_count = 0\<rparr>, [RInc, WWait])"
    using move [OF 3, of 1 WLock] by (simp add: rw_next_def rwlock_init_def)
  show ?thesis
    using move [OF 4, of 0 RLock] by (simp add: rw_next_def rw_demo_def)
qed

theorem rwlock_exclusion_witness:
  "reach (rw_start 2) rw_step (fst rw_demo, snd rw_demo)
   \<and> r_count (fst rw_demo) \<le> int (length (snd rw_demo))"
  using rwlock_exclusion [of 2 "fst rw_demo" "snd rw_demo"] rw_demo_reach by simp

lemma rwlock_progress_witness:
  "reach (rw_start 2) rw_step (fst rw_demo, snd rw_demo) \<and> snd rw_demo ! 1 \<noteq> Idle
   \<and> (\<exists>u<length (snd rw_demo). snd rw_demo ! u \<noteq> Idle)"
  using rwlock_progress [of 2 "fst rw_demo" "snd rw_demo" 1] rw_demo_reach
  by (auto simp: rw_demo_def)

end
