(* ===== verification/Framing.thy ===== *)
theory Framing
  imports Prelude
begin

unbundle bit_operations_syntax

text \<open>
  Length-prefixed messages in a byte stream. A message of at most \<open>256 ^ hs - 1\<close> bytes is sent
  behind its length in \<open>hs\<close> bytes, most significant first; a reader that gets the stream in
  pieces of any size must deliver the messages, in order. The locale states what a reader
  does with one piece; inside it we prove once that the delivered messages do not depend
  on how the stream was cut. The gate (\<open>databuffer.h\<close>, \<open>service_gate.c\<close>) and the packer
  (\<open>lua-netpack.c\<close>) are instances.
\<close>

section \<open>Big-endian numbers\<close>

definition be_nat :: "bytes \<Rightarrow> nat" where
  "be_nat bs = foldl (\<lambda>n b. n * 256 + unat b) 0 bs"

fun be_bytes :: "nat \<Rightarrow> nat \<Rightarrow> bytes" where
  "be_bytes 0 n = []"
| "be_bytes (Suc k) n = be_bytes k (n div 256) @ [of_nat (n mod 256)]"

lemma be_nat_snoc: "be_nat (bs @ [b]) = be_nat bs * 256 + unat b"
  by (simp add: be_nat_def)

lemma length_be_bytes [simp]: "length (be_bytes k n) = k"
  by (induction k arbitrary: n) auto

lemma be_bytes_Nil [simp]: "be_bytes k n = [] \<longleftrightarrow> k = 0"
  by (metis length_0_conv length_be_bytes)

lemma unat_byte [simp]: "unat (of_nat (n mod 256) :: u8) = n mod 256"
  by (simp add: unat_of_nat)

lemma be_nat_bytes: "n < 256 ^ k \<Longrightarrow> be_nat (be_bytes k n) = n"
proof (induction k arbitrary: n)
  case (Suc k)
  then have "n div 256 < 256 ^ k" by (simp add: less_mult_imp_div_less mult.commute)
  with Suc.IH show ?case by (simp add: be_nat_snoc del: of_nat_mod)
qed (simp add: be_nat_def)

lemma be_nat_less: "be_nat bs < 256 ^ length bs"
proof (induction bs rule: rev_induct)
  case (snoc b bs)
  have "unat b < 256" using unsigned_less [of b] by simp
  with snoc show ?case by (simp add: be_nat_snoc)
qed (simp add: be_nat_def)

lemma be_bytes_nat: "be_bytes (length bs) (be_nat bs) = bs"
proof (induction bs rule: rev_induct)
  case (snoc b bs)
  have u: "unat b < 256" using unsigned_less [of b] by simp
  then have "(be_nat bs * 256 + unat b) div 256 = be_nat bs" "(be_nat bs * 256 + unat b) mod 256 = unat b"
    by simp_all
  then show ?case using snoc by (simp add: be_nat_snoc del: of_nat_mod)
qed simp

lemma be_nat_zero: "be_nat (replicate k 0) = 0"
proof (induction k)
  case (Suc k)
  then show ?case by (simp only: replicate_Suc replicate_append_same [symmetric] be_nat_snoc) simp
qed (simp add: be_nat_def)

text \<open>The same number as the C expressions assemble it from bytes.\<close>

lemma bit_ucast8: "bit (ucast (a::u8) :: 'a::len word) n \<Longrightarrow> n < 8"
  by (auto simp: bit_simps dest: bit_imp_le_length)

lemma or_bytes:
  fixes a b c d :: u8
  shows "(push_bit 8 (ucast a) OR ucast b :: u32) = push_bit 8 (ucast a) + ucast b"
    and "(push_bit 24 (ucast a) OR push_bit 16 (ucast b) OR push_bit 8 (ucast c) OR ucast d :: u32)
       = push_bit 24 (ucast a) + (push_bit 16 (ucast b) + (push_bit 8 (ucast c) + ucast d))"
proof -
  have lo: "bit (ucast x :: u32) n \<Longrightarrow> n < 8" for x :: u8 and n by (rule bit_ucast8)
  show 2: "(push_bit 8 (ucast a) OR ucast b :: u32) = push_bit 8 (ucast a) + ucast b" for a b :: u8
    by (rule disjunctive_add [symmetric]) (auto simp: bit_push_bit_iff dest: lo)
  have 3: "(push_bit 16 (ucast b) OR push_bit 8 (ucast c) OR ucast d :: u32)
      = push_bit 16 (ucast b) + (push_bit 8 (ucast c) + ucast d)"
    unfolding 2 [symmetric]
    by (rule disjunctive_add [symmetric]) (auto simp: bit_push_bit_iff bit_or_iff dest!: lo)
  show "(push_bit 24 (ucast a) OR push_bit 16 (ucast b) OR push_bit 8 (ucast c) OR ucast d :: u32)
       = push_bit 24 (ucast a) + (push_bit 16 (ucast b) + (push_bit 8 (ucast c) + ucast d))"
    unfolding 3 [symmetric]
    by (rule disjunctive_add [symmetric]) (auto simp: bit_push_bit_iff bit_or_iff dest!: lo)
qed

lemma be_word2: "(push_bit 8 (ucast a) OR ucast b :: u32) = of_nat (be_nat [a, b])"
  unfolding or_bytes by (simp add: be_nat_def push_bit_eq_mult)

lemma be_word4:
  "(push_bit 24 (ucast a) OR push_bit 16 (ucast b) OR push_bit 8 (ucast c) OR ucast d :: u32)
     = of_nat (be_nat [a, b, c, d])"
  unfolding or_bytes(2) by (simp add: be_nat_def push_bit_eq_mult algebra_simps)

lemma be_word_bytes:
  "be_bytes 4 (unat w) = [ucast (drop_bit 24 w AND 255), ucast (drop_bit 16 w AND 255), ucast (drop_bit 8 w AND 255), ucast (w AND 255)]"
  for w :: u32
proof -
  have "of_nat (unat w div 2 ^ k mod 256) = (ucast (drop_bit k w AND 255) :: u8)" for k
  proof -
    have "255 = (mask 8 :: u32)" by (simp add: mask_eq_exp_minus_1)
    then have "unat (drop_bit k w AND 255) = unat w div 2 ^ k mod 256"
      using unat_and_mask [of "drop_bit k w" 8] by (simp add: unat_drop_bit_div)
    then show ?thesis by (metis of_nat_unat)
  qed
  from this [of 24] this [of 16] this [of 8] this [of 0]
  have "[of_nat (unat w div 2 ^ 24 mod 256), of_nat (unat w div 2 ^ 16 mod 256), of_nat (unat w div 2 ^ 8 mod 256),
      of_nat (unat w div 2 ^ 0 mod 256)]
     = [ucast (drop_bit 24 w AND 255), ucast (drop_bit 16 w AND 255), ucast (drop_bit 8 w AND 255), ucast (w AND 255) :: u8]"
    by (simp only: drop_bit_0 id_apply)
  moreover have "4 = Suc (Suc (Suc (Suc 0)))" by simp
  then have "be_bytes 4 n = [of_nat (n div 2 ^ 24 mod 256), of_nat (n div 2 ^ 16 mod 256), of_nat (n div 2 ^ 8 mod 256),
      of_nat (n div 2 ^ 0 mod 256)]" for n
    by (simp only: be_bytes.simps append.simps) (simp add: div_mult2_eq [symmetric] del: of_nat_mod)
  ultimately show ?thesis by simp
qed

section \<open>Little-endian numbers\<close>

definition le_nat :: "bytes \<Rightarrow> nat" where
  "le_nat bs = foldr (\<lambda>b n. unat b + 256 * n) bs 0"

fun le_bytes :: "nat \<Rightarrow> nat \<Rightarrow> bytes" where
  "le_bytes 0 n = []"
| "le_bytes (Suc k) n = of_nat (n mod 256) # le_bytes k (n div 256)"

lemma length_le_bytes [simp]: "length (le_bytes k n) = k"
  by (induction k arbitrary: n) auto

lemma le_nat_bytes: "n < 256 ^ k \<Longrightarrow> le_nat (le_bytes k n) = n"
proof (induction k arbitrary: n)
  case (Suc k)
  then have "n div 256 < 256 ^ k" by (simp add: less_mult_imp_div_less mult.commute)
  with Suc.IH show ?case by (simp add: le_nat_def del: of_nat_mod)
qed (simp add: le_nat_def)

lemma le_nat_less: "le_nat bs < 256 ^ length bs"
proof (induction bs)
  case (Cons b bs)
  have "unat b < 256" using unsigned_less [of b] by simp
  with Cons show ?case by (simp add: le_nat_def)
qed (simp add: le_nat_def)

text \<open>The 32-bit word at a position of a byte array.\<close>

definition le32 :: "bytes \<Rightarrow> nat \<Rightarrow> u32" where
  "le32 x i = ucast (x ! i) OR push_bit 8 (ucast (x ! (i + 1))) OR push_bit 16 (ucast (x ! (i + 2)))
     OR push_bit 24 (ucast (x ! (i + 3)))"

section \<open>Frames\<close>

definition frame :: "nat \<Rightarrow> bytes \<Rightarrow> bytes" where
  "frame hs body = be_bytes hs (length body) @ body"

text \<open>A complete frame at the front of a stream.\<close>

definition head_len :: "nat \<Rightarrow> bytes \<Rightarrow> nat" where
  "head_len hs p = hs + be_nat (take hs p)"

definition complete :: "nat \<Rightarrow> bytes \<Rightarrow> bool" where
  "complete hs p \<longleftrightarrow> 0 < hs \<and> hs \<le> length p \<and> head_len hs p \<le> length p"

text \<open>All complete frames of a stream, and what is left over.\<close>

function split_frames :: "nat \<Rightarrow> bytes \<Rightarrow> bytes list \<times> bytes" where
  "split_frames hs p =
     (if complete hs p then
        let (out, rest) = split_frames hs (drop (head_len hs p) p)
        in (drop hs (take (head_len hs p) p) # out, rest)
      else ([], p))"
  by pat_completeness auto
termination
  by (relation "measure (\<lambda>(hs, p). length p)") (auto simp: complete_def head_len_def)

declare split_frames.simps [simp del]

text \<open>No frame of the stream, complete or announced, is of \<open>lim\<close> bytes or more.\<close>

function fits :: "nat \<Rightarrow> nat \<Rightarrow> bytes \<Rightarrow> bool" where
  "fits hs lim p =
     (if 0 < hs \<and> hs \<le> length p then
        be_nat (take hs p) < lim \<and> (complete hs p \<longrightarrow> fits hs lim (drop (head_len hs p) p))
      else True)"
  by pat_completeness auto
termination
  by (relation "measure (\<lambda>(hs, lim, p). length p)") (auto simp: complete_def head_len_def)

declare fits.simps [simp del]

lemma split_incomplete: "\<not> complete hs p \<Longrightarrow> split_frames hs p = ([], p)"
  by (simp add: split_frames.simps)

lemma split_complete:
  "complete hs p \<Longrightarrow> split_frames hs p =
     (drop hs (take (head_len hs p) p) # fst (split_frames hs (drop (head_len hs p) p)),
      snd (split_frames hs (drop (head_len hs p) p)))"
  by (subst split_frames.simps) (simp add: case_prod_beta)

lemma split_rest: "\<not> complete hs (snd (split_frames hs p))"
proof (induction hs p rule: split_frames.induct)
  case (1 hs p)
  then show ?case by (cases "complete hs p") (simp_all add: split_complete split_incomplete)
qed

lemma complete_append: "complete hs p \<Longrightarrow> complete hs (p @ c)"
  by (auto simp: complete_def head_len_def)

lemma head_len_append: "complete hs p \<Longrightarrow> head_len hs (p @ c) = head_len hs p"
  by (simp add: complete_def head_len_def)

text \<open>Reading on: the frames of a longer stream are those of its beginning, then those of the
  left-over bytes with the rest.\<close>

lemma split_append:
  "split_frames hs (p @ c) =
     (fst (split_frames hs p) @ fst (split_frames hs (snd (split_frames hs p) @ c)),
      snd (split_frames hs (snd (split_frames hs p) @ c)))"
proof (induction hs p rule: split_frames.induct)
  case (1 hs p)
  show ?case
  proof (cases "complete hs p")
    case True
    then have l: "head_len hs p \<le> length p" by (simp add: complete_def)
    have "split_frames hs (p @ c) =
       (drop hs (take (head_len hs p) p) # fst (split_frames hs (drop (head_len hs p) p @ c)),
        snd (split_frames hs (drop (head_len hs p) p @ c)))"
      using split_complete [OF complete_append [OF True]] head_len_append [OF True] l by simp
    with "1.IH" [OF True] split_complete [OF True] show ?thesis by simp
  next
    case False
    then show ?thesis by (simp add: split_incomplete)
  qed
qed

lemma fits_append: "fits hs lim (p @ c) \<Longrightarrow> fits hs lim p \<and> fits hs lim (snd (split_frames hs p) @ c)"
proof (induction hs p rule: split_frames.induct)
  case (1 hs p)
  show ?case
  proof (cases "complete hs p")
    case True
    then have l: "head_len hs p \<le> length p" "0 < hs" "hs \<le> length p" by (simp_all add: complete_def)
    from "1.prems" True l have "be_nat (take hs p) < lim" "fits hs lim (drop (head_len hs p) p @ c)"
      using complete_append [OF True, of c] head_len_append [OF True, of c]
      by (subst (asm) fits.simps; simp)+
    with "1.IH" [OF True] True l show ?thesis by (subst fits.simps) (simp add: split_complete)
  next
    case False
    have "fits hs lim p"
    proof (cases "0 < hs \<and> hs \<le> length p")
      case True
      with "1.prems" have "be_nat (take hs p) < lim" by (subst (asm) fits.simps) simp
      then show ?thesis using False by (subst fits.simps) simp
    next
      case False
      then show ?thesis by (subst fits.simps) auto
    qed
    then show ?thesis using False "1.prems" by (simp add: split_incomplete)
  qed
qed

lemma split_frame_Cons:
  assumes "0 < hs" "length b < 256 ^ hs"
  shows "split_frames hs (frame hs b @ p) = (b # fst (split_frames hs p), snd (split_frames hs p))"
proof -
  have h: "head_len hs (frame hs b @ p) = hs + length b"
    using assms by (simp add: head_len_def frame_def be_nat_bytes)
  then have "complete hs (frame hs b @ p)" using assms by (simp add: complete_def) (simp add: frame_def)
  from split_complete [OF this] h show ?thesis by (simp add: frame_def)
qed

lemma split_frames_concat:
  assumes "0 < hs" "\<forall>b\<in>set bs. length b < 256 ^ hs"
  shows "split_frames hs (concat (map (frame hs) bs)) = (bs, [])"
  using assms(2)
proof (induction bs)
  case Nil
  then show ?case using assms(1) by (simp add: split_incomplete complete_def)
next
  case (Cons b bs)
  with split_frame_Cons [OF assms(1), of b] show ?case by simp
qed

lemma fits_frames:
  assumes "0 < hs" "\<forall>b\<in>set bs. length b < 256 ^ hs \<and> length b < lim"
  shows "fits hs lim (concat (map (frame hs) bs))"
  using assms(2)
proof (induction bs)
  case Nil
  then show ?case using assms(1) by (subst fits.simps) simp
next
  case (Cons b bs)
  let ?p = "concat (map (frame hs) (b # bs))"
  have b: "be_nat (take hs ?p) = length b" using Cons.prems by (simp add: frame_def be_nat_bytes)
  have "drop (head_len hs ?p) ?p = concat (map (frame hs) bs)"
    unfolding head_len_def b by (simp add: frame_def)
  then show ?case unfolding fits.simps [of hs lim ?p] b using Cons by simp
qed

text \<open>A frame at the front of the stream: its header known, its body still to come or there.\<close>

lemma split_known:
  assumes "0 < hs" "n < 256 ^ hs"
  shows "n \<le> length p \<Longrightarrow> split_frames hs (be_bytes hs n @ p) =
      (take n p # fst (split_frames hs (drop n p)), snd (split_frames hs (drop n p)))"
    and "length p < n \<Longrightarrow> \<not> complete hs (be_bytes hs n @ p)"
    and "fits hs lim (be_bytes hs n @ p) \<Longrightarrow> n \<le> length p \<Longrightarrow> fits hs lim (drop n p)"
proof -
  have h: "head_len hs (be_bytes hs n @ p) = hs + n" using assms by (simp add: head_len_def be_nat_bytes)
  show "length p < n \<Longrightarrow> \<not> complete hs (be_bytes hs n @ p)" using h by (simp add: complete_def)
  assume n: "n \<le> length p"
  then have c: "complete hs (be_bytes hs n @ p)" using h assms(1) by (simp add: complete_def)
  show "split_frames hs (be_bytes hs n @ p) =
      (take n p # fst (split_frames hs (drop n p)), snd (split_frames hs (drop n p)))"
    using split_complete [OF c] h by simp
  show "fits hs lim (be_bytes hs n @ p) \<Longrightarrow> fits hs lim (drop n p)"
    using c h assms(1) by (subst (asm) fits.simps) simp
qed

section \<open>Readers\<close>

fun feed_all :: "(bytes \<Rightarrow> 's \<Rightarrow> ('o list \<times> 's) option) \<Rightarrow> bytes list \<Rightarrow> 's \<Rightarrow> ('o list \<times> 's) option" where
  "feed_all feed [] s = Some ([], s)"
| "feed_all feed (c # cs) s = do {
     (out, s') \<leftarrow> feed c s;
     (out', s'') \<leftarrow> feed_all feed cs s';
     Some (out @ out', s'')
   }"

text \<open>A reader turns each message it keeps into one output; \<open>piece\<close> says what it accepts as input, \<open>good\<close> which messages.\<close>

locale frame_reader =
  fixes hs :: nat and lim :: nat and keep :: "bytes \<Rightarrow> bool" and deliver :: "bytes \<Rightarrow> 'o"
    and feed :: "bytes \<Rightarrow> 's \<Rightarrow> ('o list \<times> 's) option"
    and pend :: "'s \<Rightarrow> bytes" and invar :: "'s \<Rightarrow> bool" and piece :: "bytes \<Rightarrow> bool"
    and good :: "bytes \<Rightarrow> bool"
  assumes hs_pos: "0 < hs"
    and feed_ok: "invar s \<Longrightarrow> piece c \<Longrightarrow> fits hs lim (pend s @ c) \<Longrightarrow>
      \<forall>b\<in>set (fst (split_frames hs (pend s @ c))). good b \<Longrightarrow>
      \<exists>s'. feed c s = Some (map deliver (filter keep (fst (split_frames hs (pend s @ c)))), s')
         \<and> invar s' \<and> pend s' = snd (split_frames hs (pend s @ c))"
begin

lemma feed_all_split:
  assumes "invar s" "fits hs lim (pend s @ concat cs)" "\<not> complete hs (pend s)" "\<forall>c\<in>set cs. piece c"
    "\<forall>b\<in>set (fst (split_frames hs (pend s @ concat cs))). good b"
  shows "\<exists>s'. feed_all feed cs s = Some (map deliver (filter keep (fst (split_frames hs (pend s @ concat cs)))), s')
     \<and> invar s' \<and> pend s' = snd (split_frames hs (pend s @ concat cs))"
  using assms
proof (induction cs arbitrary: s)
  case (Cons c cs)
  let ?p = "pend s @ c"
  from fits_append [of hs lim ?p "concat cs"] Cons.prems(2) have
    f: "fits hs lim ?p" "fits hs lim (snd (split_frames hs ?p) @ concat cs)" by simp_all
  have pc: "piece c" "\<forall>c\<in>set cs. piece c" using Cons.prems(4) by simp_all
  have g: "\<forall>b\<in>set (fst (split_frames hs ?p)). good b"
    "\<forall>b\<in>set (fst (split_frames hs (snd (split_frames hs ?p) @ concat cs))). good b"
    using Cons.prems(5) split_append [of hs ?p "concat cs"] by simp_all
  from feed_ok [OF Cons.prems(1) pc(1) f(1) g(1)] obtain s1 where
    s1: "feed c s = Some (map deliver (filter keep (fst (split_frames hs ?p))), s1)" "invar s1"
      "pend s1 = snd (split_frames hs ?p)" by blast
  from Cons.IH [OF s1(2)] f(2) s1(3) split_rest [of hs ?p] pc(2) g(2) obtain s2 where
    s2: "feed_all feed cs s1 = Some (map deliver (filter keep (fst (split_frames hs (pend s1 @ concat cs)))), s2)"
      "invar s2" "pend s2 = snd (split_frames hs (pend s1 @ concat cs))" by auto
  then show ?case using s1 split_append [of hs ?p "concat cs"] by simp
qed (simp add: split_incomplete)

text \<open>Whatever the cuts, the frames sent are the frames delivered, and nothing is left over.\<close>

lemma frames_delivered:
  assumes "invar s" "pend s = []" "\<forall>b\<in>set bs. length b < 256 ^ hs \<and> length b < lim"
    and "\<forall>b\<in>set bs. good b" and "concat cs = concat (map (frame hs) bs)" "\<forall>c\<in>set cs. piece c"
  shows "\<exists>s'. feed_all feed cs s = Some (map deliver (filter keep bs), s') \<and> invar s' \<and> pend s' = []"
proof -
  have n: "\<not> complete hs (pend s)" using assms(2) hs_pos by (simp add: complete_def)
  from feed_all_split [OF assms(1) _ n, of cs] fits_frames [OF hs_pos assms(3)]
    split_frames_concat [OF hs_pos, of bs] assms(2-6)
  show ?thesis by auto
qed

end

end
