(* ===== verification/Databuffer.thy ===== *)
theory Databuffer
  imports Framing
begin

unbundle bit_operations_syntax

text \<open>
  \<^verbatim>\<open>service-src/databuffer.h\<close>: the input buffer of a connection of the gate, a chain of received
  pieces. The chain of \<open>struct message\<close> is the list of its buffers, head first; the nodes
  come from a pool shared by all connections, of which we keep the number of blocks
  allocated and of nodes free. A buffer stands for the bytes not read yet.
\<close>

section \<open>The model\<close>

definition MESSAGEPOOL :: nat where "MESSAGEPOOL = 1023"

record databuffer =
  header :: int
  offset :: nat
  db_size :: int
  messages :: "bytes list"

record messagepool =
  mp_blocks :: nat
  mp_free :: nat

definition databuffer_zero :: databuffer where
  "databuffer_zero = \<lparr>header = 0, offset = 0, db_size = 0, messages = []\<rparr>"

definition messagepool_free :: "messagepool \<Rightarrow> messagepool" where
  "messagepool_free mp = \<lparr>mp_blocks = 0, mp_free = 0\<rparr>"

text \<open>Taking the head node off the chain; it needs one.\<close>

definition return_message :: "databuffer \<Rightarrow> messagepool \<Rightarrow> (databuffer \<times> messagepool) option" where
  "return_message db mp =
     (case messages db of
        [] \<Rightarrow> None
      | _ # ms \<Rightarrow> Some (db\<lparr>messages := ms\<rparr>, mp\<lparr>mp_free := mp_free mp + 1\<rparr>))"

text \<open>The loop of \<open>databuffer_read\<close>; \<open>None\<close> when the chain ends before the bytes do.\<close>

function read_loop :: "databuffer \<Rightarrow> messagepool \<Rightarrow> nat \<Rightarrow> (bytes \<times> databuffer \<times> messagepool) option" where
  "read_loop db mp sz =
     (case messages db of
        [] \<Rightarrow> None
      | current # _ \<Rightarrow>
          let bsz = int (length current) - int (offset db) in
          if bsz > int sz then
            Some (take sz (drop (offset db) current), db\<lparr>offset := offset db + sz\<rparr>, mp)
          else if bsz = int sz then do {
            (db', mp') \<leftarrow> return_message (db\<lparr>offset := 0\<rparr>) mp;
            Some (take sz (drop (offset db) current), db', mp')
          }
          else if bsz < 0 then None
          else (case return_message db mp of
                  None \<Rightarrow> None
                | Some (db', mp') \<Rightarrow> do {
                    (bs, r) \<leftarrow> read_loop (db'\<lparr>offset := 0\<rparr>) mp' (sz - nat bsz);
                    Some (take (nat bsz) (drop (offset db) current) @ bs, r)
                  }))"
  by pat_completeness auto
termination
  by (relation "measure (\<lambda>(db, mp, sz). length (messages db))") (auto simp: return_message_def)

declare read_loop.simps [simp del]

definition databuffer_read :: "databuffer \<Rightarrow> messagepool \<Rightarrow> nat \<Rightarrow> (bytes \<times> databuffer \<times> messagepool) option" where
  "databuffer_read db mp sz = do {
     assert_opt (db_size db \<ge> int sz);
     read_loop (db\<lparr>db_size := db_size db - int sz\<rparr>) mp sz
   }"

definition databuffer_push :: "databuffer \<Rightarrow> messagepool \<Rightarrow> bytes \<Rightarrow> databuffer \<times> messagepool" where
  "databuffer_push db mp data =
     (db\<lparr>messages := messages db @ [data], db_size := db_size db + int (length data)\<rparr>,
      if mp_free mp > 0 then mp\<lparr>mp_free := mp_free mp - 1\<rparr>
      else mp\<lparr>mp_blocks := mp_blocks mp + 1, mp_free := MESSAGEPOOL - 1\<rparr>)"

text \<open>The header as the \<open>int\<close> expression computes it: four bytes with the top bit set give a
  negative number.\<close>

definition parse_header :: "bytes \<Rightarrow> int" where
  "parse_header plen =
     (if length plen = 2
      then uint ((push_bit 8 (ucast (plen ! 0)) OR ucast (plen ! 1)) :: u32)
      else sint ((push_bit 24 (ucast (plen ! 0)) OR push_bit 16 (ucast (plen ! 1))
                  OR push_bit 8 (ucast (plen ! 2)) OR ucast (plen ! 3)) :: u32))"

definition databuffer_readheader ::
    "databuffer \<Rightarrow> messagepool \<Rightarrow> nat \<Rightarrow> (int \<times> databuffer \<times> messagepool) option" where
  "databuffer_readheader db mp header_size =
     (if header db = 0 \<and> db_size db < int header_size then Some (-1, db, mp)
      else do {
        (db', mp') \<leftarrow> (if header db = 0 then do {
                           (plen, db', mp') \<leftarrow> databuffer_read db mp header_size;
                           Some (db'\<lparr>header := parse_header plen\<rparr>, mp')
                         } else Some (db, mp));
        Some (if db_size db' < header db' then -1 else header db', db', mp')
      })"

definition databuffer_reset :: "databuffer \<Rightarrow> databuffer" where
  "databuffer_reset db = db\<lparr>header := 0\<rparr>"

function clear_loop :: "databuffer \<Rightarrow> messagepool \<Rightarrow> databuffer \<times> messagepool" where
  "clear_loop db mp =
     (case return_message db mp of None \<Rightarrow> (db, mp) | Some (db', mp') \<Rightarrow> clear_loop db' mp')"
  by pat_completeness auto
termination
  by (relation "measure (\<lambda>(db, mp). length (messages db))")
    (auto simp: return_message_def split: list.splits)

declare clear_loop.simps [simp del]

definition databuffer_clear :: "databuffer \<Rightarrow> messagepool \<Rightarrow> databuffer \<times> messagepool" where
  "databuffer_clear db mp = (databuffer_zero, snd (clear_loop db mp))"

section \<open>The bytes of a buffer\<close>

definition unread :: "databuffer \<Rightarrow> bytes" where
  "unread db = drop (offset db) (concat (messages db))"

definition db_inv :: "databuffer \<Rightarrow> bool" where [inv_defs]:
  "db_inv db \<longleftrightarrow>
     (case messages db of [] \<Rightarrow> offset db = 0 | m # _ \<Rightarrow> offset db \<le> length m)
   \<and> db_size db = int (length (unread db))"

text \<open>The nodes in use and free are the nodes allocated, for a pool that serves \<open>used\<close> nodes.\<close>

definition mp_inv :: "nat \<Rightarrow> messagepool \<Rightarrow> bool" where [inv_defs]:
  "mp_inv used mp \<longleftrightarrow> used + mp_free mp = MESSAGEPOOL * mp_blocks mp"

lemma read_loop_cases:
  assumes m: "messages db = m # ms" and n: "length m = offset db + n"
  shows "n > sz \<Longrightarrow> read_loop db mp sz = Some (take sz (drop (offset db) m), db\<lparr>offset := offset db + sz\<rparr>, mp)"
    and "read_loop db mp n = Some (drop (offset db) m, db\<lparr>offset := 0, messages := ms\<rparr>, mp\<lparr>mp_free := mp_free mp + 1\<rparr>)"
    and "n < sz \<Longrightarrow> read_loop db mp sz = do {
           (bs, r) \<leftarrow> read_loop (db\<lparr>messages := ms, offset := 0\<rparr>) (mp\<lparr>mp_free := mp_free mp + 1\<rparr>) (sz - n);
           Some (drop (offset db) m @ bs, r)
         }"
  by (subst read_loop.simps, simp add: m n Let_def return_message_def)+

lemma read_loop_spec:
  assumes "messages db = m # ms" "0 < sz" "offset db \<le> length m"
    "sz \<le> length (drop (offset db) (concat (m # ms)))"
  shows "\<exists>off' ms' k. read_loop db mp sz =
       Some (take sz (drop (offset db) (concat (m # ms))), db\<lparr>offset := off', messages := ms'\<rparr>,
             mp\<lparr>mp_free := mp_free mp + k\<rparr>)
     \<and> drop off' (concat ms') = drop (offset db + sz) (concat (m # ms))
     \<and> (case ms' of [] \<Rightarrow> off' = 0 | m' # _ \<Rightarrow> off' \<le> length m')
     \<and> length ms' + k = length (m # ms)"
  using assms
proof (induction ms arbitrary: m db sz mp)
  case Nil
  obtain n where n: "length m = offset db + n" using Nil.prems(3) le_Suc_ex by blast
  have "sz = n \<or> n > sz" using Nil.prems(4) n by auto
  then show ?case
  proof
    assume "sz = n"
    then show ?thesis using read_loop_cases(2) [OF Nil.prems(1) n] n
      by (intro exI [of _ "0::nat"] exI [of _ "[]"] exI [of _ "1::nat"]) simp
  next
    assume g: "n > sz"
    show ?thesis using read_loop_cases(1) [OF Nil.prems(1) n g] g n Nil.prems(1)
      by (intro exI [of _ "offset db + sz"] exI [of _ "[m]"] exI [of _ "0::nat"]) simp
  qed
next
  case (Cons m' ms)
  obtain n where n: "length m = offset db + n" using Cons.prems(3) le_Suc_ex by blast
  consider "n > sz" | "n = sz" | "n < sz" by linarith
  then show ?case
  proof cases
    case 1
    then show ?thesis using read_loop_cases(1) [OF Cons.prems(1) n 1] n Cons.prems(1)
      by (intro exI [of _ "offset db + sz"] exI [of _ "m # m' # ms"] exI [of _ "0::nat"]) simp
  next
    case 2
    then show ?thesis using read_loop_cases(2) [OF Cons.prems(1) n] n
      by (intro exI [of _ "0::nat"] exI [of _ "m' # ms"] exI [of _ "1::nat"]) simp
  next
    case 3
    let ?db = "db\<lparr>messages := m' # ms, offset := 0\<rparr>" and ?mp = "mp\<lparr>mp_free := mp_free mp + 1\<rparr>"
    have r: "messages ?db = m' # ms" "0 < sz - n" "offset ?db \<le> length m'"
      "sz - n \<le> length (drop (offset ?db) (concat (m' # ms)))"
      using 3 n Cons.prems by auto
    from Cons.IH [OF r, of ?mp] obtain off' ms' k where
      i: "read_loop ?db ?mp (sz - n) =
          Some (take (sz - n) (concat (m' # ms)), db\<lparr>offset := off', messages := ms'\<rparr>,
                mp\<lparr>mp_free := mp_free mp + Suc k\<rparr>)"
        "drop off' (concat ms') = drop (sz - n) (concat (m' # ms))"
        "case ms' of [] \<Rightarrow> off' = 0 | m' # _ \<Rightarrow> off' \<le> length m'"
        "length ms' + k = length (m' # ms)" by auto
    show ?thesis using read_loop_cases(3) [OF Cons.prems(1) n 3, of mp] i 3 n
      by (intro exI [of _ off'] exI [of _ ms'] exI [of _ "Suc k"]) simp
  qed
qed

text \<open>A read takes the next bytes and nothing else.\<close>

lemma databuffer_read_spec:
  assumes inv: "db_inv db" and sz: "0 < sz" "int sz \<le> db_size db"
  shows "\<exists>db' mp'. databuffer_read db mp sz = Some (take sz (unread db), db', mp')
     \<and> db_inv db' \<and> unread db' = drop sz (unread db) \<and> header db' = header db
     \<and> (\<forall>used. mp_inv (used + length (messages db)) mp \<longrightarrow> mp_inv (used + length (messages db')) mp')"
proof -
  let ?db = "db\<lparr>db_size := db_size db - int sz\<rparr>"
  from inv sz obtain m ms where m: "messages db = m # ms"
    by (cases "messages db") (auto simp: db_inv_def unread_def)
  have p: "messages ?db = m # ms" "offset ?db \<le> length m" "sz \<le> length (drop (offset ?db) (concat (m # ms)))"
    using inv sz(2) m by (auto simp: db_inv_def unread_def)
  from read_loop_spec [OF p(1) sz(1) p(2,3), of mp] obtain off' ms' k where
    r: "read_loop ?db mp sz = Some (take sz (drop (offset db) (concat (m # ms))),
          ?db\<lparr>offset := off', messages := ms'\<rparr>, mp\<lparr>mp_free := mp_free mp + k\<rparr>)"
      "drop off' (concat ms') = drop (offset db + sz) (concat (m # ms))"
      "case ms' of [] \<Rightarrow> off' = 0 | m' # _ \<Rightarrow> off' \<le> length m'"
      "length ms' + k = length (m # ms)" by auto
  let ?db' = "?db\<lparr>offset := off', messages := ms'\<rparr>"
  have u: "unread ?db' = drop sz (unread db)"
    using r(2) m by (simp add: unread_def add.commute del: concat.simps drop_append)
  have "databuffer_read db mp sz = Some (take sz (unread db), ?db', mp\<lparr>mp_free := mp_free mp + k\<rparr>)"
    using sz(2) r(1) m by (simp add: databuffer_read_def unread_def assert_opt_def del: concat.simps)
  moreover have "db_inv ?db'"
    using inv r(3) u sz(2) by (cases ms') (simp_all add: db_inv_def of_nat_diff)
  moreover have "\<forall>used. mp_inv (used + length (messages db)) mp \<longrightarrow>
      mp_inv (used + length (messages ?db')) (mp\<lparr>mp_free := mp_free mp + k\<rparr>)"
    using r(4) m by (simp add: mp_inv_def)
  ultimately show ?thesis using u by auto
qed

lemma databuffer_push_spec:
  assumes inv: "db_inv db" and push: "databuffer_push db mp data = (db', mp')"
  shows "db_inv db'" "unread db' = unread db @ data" "header db' = header db"
    "mp_inv (used + length (messages db)) mp \<Longrightarrow> mp_inv (used + length (messages db')) mp'"
proof -
  have o: "offset db \<le> length (concat (messages db))"
    using inv by (cases "messages db") (auto simp: db_inv_def)
  from push have d: "db' = db\<lparr>messages := messages db @ [data], db_size := db_size db + int (length data)\<rparr>"
    by (simp add: databuffer_push_def)
  show u: "unread db' = unread db @ data" using o by (simp add: d unread_def)
  show "db_inv db'" using inv u by (cases "messages db") (auto simp: db_inv_def d)
  show "header db' = header db" by (simp add: d)
  show "mp_inv (used + length (messages db)) mp \<Longrightarrow> mp_inv (used + length (messages db')) mp'"
    using push by (auto simp: mp_inv_def databuffer_push_def MESSAGEPOOL_def split: if_splits)
qed

lemma clear_loop_spec:
  "clear_loop db mp = (db\<lparr>messages := []\<rparr>, mp\<lparr>mp_free := mp_free mp + length (messages db)\<rparr>)"
proof (induction db mp rule: clear_loop.induct)
  case (1 db mp)
  then show ?case
    by (subst clear_loop.simps) (cases "messages db"; auto simp: return_message_def)
qed

lemma databuffer_clear_spec:
  "databuffer_clear db mp = (db', mp') \<Longrightarrow> db' = databuffer_zero \<and>
     (mp_inv (used + length (messages db)) mp \<longrightarrow> mp_inv used mp')"
  by (auto simp: databuffer_clear_def mp_inv_def clear_loop_spec)

lemma databuffer_zero_inv [simp]: "db_inv databuffer_zero" "unread databuffer_zero = []" "header databuffer_zero = 0"
  "messages databuffer_zero = []"
  by (simp_all add: databuffer_zero_def db_inv_def unread_def)

section \<open>The header\<close>

lemma unread_header [simp]: "unread (db\<lparr>header := h\<rparr>) = unread db"
  by (simp add: unread_def)

lemma db_inv_header [simp]: "db_inv (db\<lparr>header := h\<rparr>) = db_inv db"
  by (cases "messages db") (simp_all add: db_inv_def)

lemma list2: "length xs = 2 \<Longrightarrow> xs = [xs ! 0, xs ! 1]"
  by (auto simp: list_eq_iff_nth_eq less_Suc_eq numeral_eq_Suc)

lemma list4: "length xs = 4 \<Longrightarrow> xs = [xs ! 0, xs ! 1, xs ! 2, xs ! 3]"
  by (auto simp: list_eq_iff_nth_eq less_Suc_eq numeral_eq_Suc)

lemma parse_header_2: "length bs = 2 \<Longrightarrow> parse_header bs = int (be_nat bs)"
proof -
  assume l: "length bs = 2"
  have b: "be_nat bs < 2 ^ 32" using be_nat_less [of bs] l by simp
  have "parse_header bs = uint (of_nat (be_nat bs) :: u32)"
    unfolding parse_header_def be_word2 list2 [OF l, symmetric] using l by simp
  also have "\<dots> = int (be_nat bs)" using b by (simp add: unsigned_of_nat take_bit_nat_eq_self)
  finally show ?thesis .
qed

text \<open>Lengths from 2^31 on come out negative.\<close>

lemma parse_header_4:
  assumes l: "length bs = 4"
  shows "parse_header bs = (if be_nat bs < 2 ^ 31 then int (be_nat bs) else int (be_nat bs) - 2 ^ 32)"
proof -
  let ?n = "be_nat bs"
  have b: "?n < 2 ^ 32" using be_nat_less [of bs] l by simp
  have "parse_header bs = sint (of_nat ?n :: u32)"
    unfolding parse_header_def be_word4 list4 [OF l, symmetric] using l by simp
  also have "\<dots> = signed_take_bit 31 (int ?n)" by (simp add: signed_of_nat)
  also have "\<dots> = int ?n - 2 ^ 32 * of_bool (bit (int ?n) 31)"
    using b by (simp add: signed_take_bit_eq_take_bit_minus take_bit_int_eq_self)
  also have "bit (int ?n) 31 \<longleftrightarrow> \<not> ?n < 2 ^ 31"
  proof -
    have "?n div 2 ^ 31 < 2" using b by (simp add: less_mult_imp_div_less)
    then have "odd (?n div 2 ^ 31) \<longleftrightarrow> ?n div 2 ^ 31 \<noteq> 0" by (auto simp: less_2_cases_iff)
    moreover have "?n div 2 ^ 31 = 0 \<longleftrightarrow> ?n < 2 ^ 31" by (subst div_eq_0_iff) simp
    moreover have "int ?n div 2 ^ 31 = int (?n div 2 ^ 31)" by (simp only: zdiv_int of_nat_power of_nat_numeral)
    ultimately show ?thesis unfolding bit_iff_odd by (simp only: even_of_nat)
  qed
  finally show ?thesis by simp
qed

end
