(* ===== verification/Registry.thy ===== *)
theory Registry
  imports Prelude
begin

text \<open>
  The contract of a table that hands out its own keys or places: adding an item binds a
  fresh key to a fresh value, removing a key unbinds it, and a lookup reads the binding.
  A client that adds and removes in any order sees a finite map that is injective
  throughout. The handle storage of \<open>skynet_handle.c\<close> (contexts under handles) and the
  hash of \<open>hashid.h\<close> (socket ids under connection slots) are instances.
\<close>

datatype ('k, 'v) reg_event = Added 'k 'v | Removed 'k

fun replay :: "('k, 'v) reg_event list \<Rightarrow> ('k \<rightharpoonup> 'v) \<Rightarrow> ('k \<rightharpoonup> 'v)" where
  "replay [] m = m"
| "replay (Added k v # es) m = replay es (m(k \<mapsto> v))"
| "replay (Removed k # es) m = replay es (m(k := None))"

definition inj_map :: "('k \<rightharpoonup> 'v) \<Rightarrow> bool" where
  "inj_map m \<longleftrightarrow> (\<forall>k k' v. m k = Some v \<longrightarrow> m k' = Some v \<longrightarrow> k = k')"

lemma inj_map_empty [simp]: "inj_map Map.empty"
  by (simp add: inj_map_def)

lemma inj_map_add: "inj_map m \<Longrightarrow> v \<notin> ran m \<Longrightarrow> inj_map (m(k \<mapsto> v))"
  by (auto simp: inj_map_def ran_def split: if_splits)

lemma inj_map_remove: "inj_map m \<Longrightarrow> inj_map (m(k := None))"
  by (auto simp: inj_map_def split: if_splits)

locale registry =
  fixes invar :: "'s \<Rightarrow> bool"
    and bindings :: "'s \<Rightarrow> 'k \<rightharpoonup> 'v"
    and ready :: "'x \<Rightarrow> 's \<Rightarrow> bool"
    and add :: "'x \<Rightarrow> 's \<Rightarrow> (('k \<times> 'v) \<times> 's) option"
    and remove :: "'k \<Rightarrow> 's \<Rightarrow> 's"
    and find :: "'k \<Rightarrow> 's \<Rightarrow> 'v option"
  assumes find_ok: "invar s \<Longrightarrow> find k s = bindings s k"
    and add_ok: "invar s \<Longrightarrow> ready x s \<Longrightarrow> \<exists>k v s'. add x s = Some ((k, v), s') \<and> invar s'
        \<and> k \<notin> dom (bindings s) \<and> v \<notin> ran (bindings s) \<and> bindings s' = (bindings s)(k \<mapsto> v)"
    and remove_inv: "invar s \<Longrightarrow> invar (remove k s)"
    and remove_bindings: "invar s \<Longrightarrow> bindings (remove k s) = (bindings s)(k := None)"
begin

text \<open>The runs of a client that adds only what the table is ready for.\<close>

inductive runs :: "'s \<Rightarrow> ('k, 'v) reg_event list \<Rightarrow> 's \<Rightarrow> bool" where
  runs_nil: "runs s [] s"
| runs_add: "ready x s \<Longrightarrow> add x s = Some ((k, v), s') \<Longrightarrow> runs s' es s'' \<Longrightarrow> runs s (Added k v # es) s''"
| runs_remove: "runs (remove k s) es s'' \<Longrightarrow> runs s (Removed k # es) s''"

lemma runs_refine_map:
  assumes "runs s es s'" "invar s" "inj_map (bindings s)"
  shows "invar s' \<and> bindings s' = replay es (bindings s) \<and> inj_map (bindings s')"
  using assms
proof (induction rule: runs.induct)
  case (runs_add x s k v s' es s'')
  from add_ok [OF runs_add.prems(1) runs_add.hyps(1)] runs_add.hyps(2)
  have "invar s'" "v \<notin> ran (bindings s)" "bindings s' = (bindings s)(k \<mapsto> v)" by auto
  with runs_add.IH inj_map_add [OF runs_add.prems(2)] show ?case by (metis replay.simps(2))
next
  case (runs_remove k s es s'')
  then show ?case by (metis inj_map_remove remove_bindings remove_inv replay.simps(3))
qed simp

lemma find_after_runs:
  "runs s es s' \<Longrightarrow> invar s \<Longrightarrow> inj_map (bindings s) \<Longrightarrow> find k s' = replay es (bindings s) k"
  using runs_refine_map find_ok by metis

lemma find_added:
  "invar s \<Longrightarrow> ready x s \<Longrightarrow> add x s = Some ((k, v), s') \<Longrightarrow> find k s' = Some v \<and> find k s = None"
  using add_ok [of s x] find_ok by (auto simp: domIff)

lemma find_removed: "invar s \<Longrightarrow> find k' (remove k s) = (if k' = k then None else find k' s)"
  by (simp add: find_ok remove_inv remove_bindings)

end

end
