(* ===== verification/Hashid.thy ===== *)
theory Hashid
  imports Registry
begin

unbundle bit_operations_syntax

text \<open>
  \<^verbatim>\<open>service-src/hashid.h\<close>: from socket ids to the slots of the gate's connections, a hash table
  whose nodes are the slots themselves. A pointer to a node is its index; the chains run
  through the \<open>next\<close> fields. A read or write through a bad index is \<open>None\<close>.
\<close>

section \<open>The model\<close>

record hashid_node =
  node_id :: int
  node_next :: "nat option"

record hashid =
  hashmod :: int
  cap :: nat
  count :: nat
  ids :: "hashid_node list"
  hash :: "nat option list"

definition free_node :: hashid_node where
  "free_node = \<lparr>node_id = -1, node_next = None\<rparr>"

text \<open>\<open>hashcap = 16; while (hashcap < max) hashcap *= 2\<close>.\<close>

function hashcap_from :: "nat \<Rightarrow> nat \<Rightarrow> nat" where
  "hashcap_from hc n = (if 0 < hc \<and> hc < n then hashcap_from (hc * 2) n else hc)"
  by pat_completeness auto
termination by (relation "measure (\<lambda>(hc, n). n - hc)") auto

declare hashcap_from.simps [simp del]

definition hashid_init :: "nat \<Rightarrow> hashid" where
  "hashid_init n =
     (let hashcap = hashcap_from 16 n in
      \<lparr>hashmod = int hashcap - 1, cap = n, count = 0,
       ids = replicate n free_node, hash = replicate hashcap None\<rparr>)"

definition hashid_clear :: "hashid \<Rightarrow> hashid" where
  "hashid_clear hi = hi\<lparr>ids := [], hash := [], hashmod := 1, cap := 0, count := 0\<rparr>"

text \<open>\<open>id & hi->hashmod\<close>.\<close>

definition hashid_index :: "hashid \<Rightarrow> int \<Rightarrow> nat" where
  "hashid_index hi i = nat (i AND hashmod hi)"

text \<open>The walk along a chain; \<open>fuel\<close> bounds its length, \<open>None\<close> is running out of it or a bad
  pointer. \<open>Some None\<close> is the end of the chain.\<close>

fun chain_find :: "nat \<Rightarrow> hashid_node list \<Rightarrow> nat option \<Rightarrow> int \<Rightarrow> nat option option" where
  "chain_find fuel ns None i = Some None"
| "chain_find 0 ns (Some c) i = None"
| "chain_find (Suc fuel) ns (Some c) i =
     (if c < length ns then
        if node_id (ns ! c) = i then Some (Some c) else chain_find fuel ns (node_next (ns ! c)) i
      else None)"

text \<open>A chain without cycles has at most one node per slot, so the number of slots is fuel enough.\<close>

definition hashid_lookup :: "hashid \<Rightarrow> int \<Rightarrow> int option" where
  "hashid_lookup hi i = do {
     c \<leftarrow> nth_opt (hash hi) (hashid_index hi i);
     r \<leftarrow> chain_find (length (ids hi)) (ids hi) c i;
     Some (case r of Some c \<Rightarrow> int c | None \<Rightarrow> -1)
   }"

text \<open>The loop of \<open>hashid_remove\<close>: the predecessor and the node to unlink.\<close>

fun chain_pred :: "nat \<Rightarrow> hashid_node list \<Rightarrow> nat \<Rightarrow> int \<Rightarrow> (nat \<times> nat) option option" where
  "chain_pred 0 ns c i = None"
| "chain_pred (Suc fuel) ns c i =
     (if c < length ns then
        (case node_next (ns ! c) of
           None \<Rightarrow> Some None
         | Some d \<Rightarrow> if d < length ns then
             if node_id (ns ! d) = i then Some (Some (c, d)) else chain_pred fuel ns d i
             else None)
      else None)"

definition clear_node :: "nat \<Rightarrow> hashid \<Rightarrow> int \<times> hashid" where
  "clear_node c hi = (int c, hi\<lparr>ids := (ids hi)[c := free_node], count := count hi - 1\<rparr>)"

definition hashid_remove :: "hashid \<Rightarrow> int \<Rightarrow> (int \<times> hashid) option" where
  "hashid_remove hi i = do {
     let h = hashid_index hi i;
     first \<leftarrow> nth_opt (hash hi) h;
     (case first of
        None \<Rightarrow> Some (-1, hi)
      | Some c \<Rightarrow>
          if c < length (ids hi) then
            if node_id (ids hi ! c) = i
            then Some (clear_node c (hi\<lparr>hash := (hash hi)[h := node_next (ids hi ! c)]\<rparr>))
            else do {
              r \<leftarrow> chain_pred (length (ids hi)) (ids hi) c i;
              (case r of
                 None \<Rightarrow> Some (-1, hi)
               | Some (p, d) \<Rightarrow>
                   Some (clear_node d (hi\<lparr>ids := (ids hi)[p := (ids hi ! p)\<lparr>node_next := node_next (ids hi ! d)\<rparr>]\<rparr>)))
            }
          else None)
   }"

text \<open>The first free slot from \<open>id % cap\<close> on; ids are not negative, where \<open>%\<close> is \<open>mod\<close>.\<close>

function free_slot :: "nat \<Rightarrow> hashid \<Rightarrow> int \<Rightarrow> nat option" where
  "free_slot i hi x =
     (if i < cap hi then
        let index = nat ((int i + x) mod int (cap hi)) in
        if node_id (ids hi ! index) = -1 then Some index else free_slot (Suc i) hi x
      else None)"
  by pat_completeness auto
termination by (relation "measure (\<lambda>(i, hi, x). cap hi - i)") auto

declare free_slot.simps [simp del]

definition hashid_insert :: "hashid \<Rightarrow> int \<Rightarrow> (nat \<times> hashid) option" where
  "hashid_insert hi x = do {
     c \<leftarrow> free_slot 0 hi x;
     assert_opt (c < length (ids hi) \<and> node_next (ids hi ! c) = None);
     let h = hashid_index hi x;
     first \<leftarrow> nth_opt (hash hi) h;
     Some (c, hi\<lparr>count := count hi + 1,
                ids := (ids hi)[c := \<lparr>node_id = x, node_next = first\<rparr>],
                hash := (hash hi)[h := Some c]\<rparr>)
   }"

definition hashid_full :: "hashid \<Rightarrow> bool" where
  "hashid_full hi \<longleftrightarrow> count hi = cap hi"

section \<open>Chains\<close>

fun links :: "hashid_node list \<Rightarrow> nat option \<Rightarrow> nat list \<Rightarrow> bool" where
  "links ns None [] = True"
| "links ns (Some c) (d # l) = (c = d \<and> c < length ns \<and> links ns (node_next (ns ! c)) l)"
| "links ns _ _ = False"

lemma links_None [simp]: "links ns None l \<longleftrightarrow> l = []"
  by (cases l) auto

lemma links_Nil [simp]: "links ns p [] \<longleftrightarrow> p = None"
  by (cases p) auto

lemma links_Cons: "links ns p (c # l) \<longleftrightarrow> p = Some c \<and> c < length ns \<and> links ns (node_next (ns ! c)) l"
  by (cases p) auto

lemma links_less: "links ns p l \<Longrightarrow> c \<in> set l \<Longrightarrow> c < length ns"
  by (induction l arbitrary: p) (auto simp: links_Cons)

lemma links_frame: "links ns p l \<Longrightarrow> x \<notin> set l \<Longrightarrow> links (ns[x := y]) p l"
  by (induction l arbitrary: p) (auto simp: links_Cons)

lemma links_append: "links ns p (l1 @ c # l2) \<Longrightarrow> c < length ns \<and> links ns (node_next (ns ! c)) l2"
  by (induction l1 arbitrary: p) (auto simp: links_Cons)

lemma links_unlink:
  assumes "links ns p (l1 @ c # d # l2)" "distinct (l1 @ c # d # l2)"
  shows "links (ns[c := (ns ! c)\<lparr>node_next := node_next (ns ! d)\<rparr>]) p (l1 @ c # l2)"
  using assms
proof (induction l1 arbitrary: p)
  case Nil
  then show ?case by (auto simp: links_Cons intro: links_frame)
qed (auto simp: links_Cons)

lemma links_fun: "links ns q a \<Longrightarrow> links ns q b \<Longrightarrow> a = b"
proof (induction a arbitrary: b q)
  case (Cons c a)
  then show ?case by (cases b) (auto simp: links_Cons)
qed simp

lemma filter_neq_id: "x \<notin> set xs \<Longrightarrow> filter (\<lambda>y. y \<noteq> x) xs = xs"
  by (auto simp: filter_id_conv)

lemma distinct_bounded: "distinct l \<Longrightarrow> (\<forall>c\<in>set l. c < n) \<Longrightarrow> length l \<le> n"
  using card_mono [of "{..<n}" "set l"] by (auto simp: distinct_card subset_iff)

lemma chain_find_links:
  "links ns p l \<Longrightarrow> length l \<le> fuel \<Longrightarrow> chain_find fuel ns p i = Some (List.find (\<lambda>c. node_id (ns ! c) = i) l)"
proof (induction l arbitrary: p fuel)
  case (Cons c l)
  then obtain f where "fuel = Suc f" by (cases fuel) auto
  with Cons show ?case by (auto simp: links_Cons)
qed simp

lemma chain_pred_links:
  assumes "links ns (node_next (ns ! c)) l" "c < length ns" "length l < fuel"
  shows "chain_pred fuel ns c i = Some (case List.find (\<lambda>c. node_id (ns ! c) = i) l of
      None \<Rightarrow> None
    | Some d \<Rightarrow> Some (last (c # takeWhile (\<lambda>c. node_id (ns ! c) \<noteq> i) l), d))"
  using assms
proof (induction l arbitrary: c fuel)
  case Nil
  then obtain f where "fuel = Suc f" by (cases fuel) auto
  with Nil show ?case by simp
next
  case (Cons d l)
  then obtain f where f: "fuel = Suc f" by (cases fuel) auto
  from Cons.prems have d: "node_next (ns ! c) = Some d" "d < length ns" "links ns (node_next (ns ! d)) l"
    by (auto simp: links_Cons)
  have "length l < f" using Cons.prems(3) f by simp
  note ih = Cons.IH [OF d(3,2) this]
  show ?case using f d Cons.prems(2) ih by (auto split: option.splits)
qed

lemma find_split:
  "List.find P l = Some x \<Longrightarrow> \<exists>l2. l = takeWhile (\<lambda>y. \<not> P y) l @ x # l2 \<and> P x"
  by (induction l) (auto split: if_splits)

section \<open>The invariant\<close>

definition used :: "hashid \<Rightarrow> nat set" where
  "used hi = {c. c < length (ids hi) \<and> node_id (ids hi ! c) \<noteq> -1}"

definition hash_map :: "hashid \<Rightarrow> int \<rightharpoonup> nat" where
  "hash_map hi i = List.find (\<lambda>c. i \<noteq> -1 \<and> node_id (ids hi ! c) = i) [0..<length (ids hi)]"

definition chained :: "hashid \<Rightarrow> nat \<Rightarrow> nat list \<Rightarrow> bool" where
  "chained hi h l \<longleftrightarrow> links (ids hi) (hash hi ! h) l \<and> distinct l
     \<and> set l = {c \<in> used hi. hashid_index hi (node_id (ids hi ! c)) = h}"

definition hashid_inv :: "hashid \<Rightarrow> bool" where [inv_defs]:
  "hashid_inv hi \<longleftrightarrow>
     (\<exists>k. length (hash hi) = 2 ^ k \<and> hashmod hi = 2 ^ k - 1)
   \<and> length (ids hi) = cap hi \<and> 0 < cap hi \<and> count hi = card (used hi)
   \<and> (\<forall>c\<in>used hi. 0 \<le> node_id (ids hi ! c))
   \<and> (\<forall>c<length (ids hi). node_id (ids hi ! c) = -1 \<longrightarrow> node_next (ids hi ! c) = None)
   \<and> inj_on (\<lambda>c. node_id (ids hi ! c)) (used hi)
   \<and> (\<forall>h<length (hash hi). \<exists>l. chained hi h l)"

lemma index_less:
  assumes "hashid_inv hi"
  shows "hashid_index hi i < length (hash hi)"
proof -
  from assms obtain k where k: "length (hash hi) = 2 ^ k" "hashmod hi = 2 ^ k - 1" by (auto simp: hashid_inv_def)
  have "i AND hashmod hi = i mod 2 ^ k"
    unfolding k(2) by (simp flip: mask_eq_exp_minus_1 take_bit_eq_mask add: take_bit_eq_mod)
  then show ?thesis using k(1) by (simp add: hashid_index_def nat_less_iff)
qed

lemma hash_map_Some:
  assumes "hashid_inv hi"
  shows "hash_map hi i = Some c \<longleftrightarrow> c \<in> used hi \<and> node_id (ids hi ! c) = i"
proof
  assume "hash_map hi i = Some c"
  then show "c \<in> used hi \<and> node_id (ids hi ! c) = i"
    by (auto simp: hash_map_def find_Some_iff used_def)
next
  assume c: "c \<in> used hi \<and> node_id (ids hi ! c) = i"
  then have "hash_map hi i \<noteq> None" by (auto simp: hash_map_def find_None_iff used_def)
  then obtain d where d: "hash_map hi i = Some d" by auto
  then have "d \<in> used hi \<and> node_id (ids hi ! d) = i" by (auto simp: hash_map_def find_Some_iff used_def)
  moreover have "inj_on (\<lambda>c. node_id (ids hi ! c)) (used hi)" using assms by (simp add: hashid_inv_def)
  ultimately show "hash_map hi i = Some c" using c d by (auto simp: inj_on_def)
qed

lemma chain_finds:
  assumes inv: "hashid_inv hi" and l: "chained hi (hashid_index hi i) l"
  shows "List.find (\<lambda>c. node_id (ids hi ! c) = i) l = hash_map hi i"
proof (cases "List.find (\<lambda>c. node_id (ids hi ! c) = i) l")
  case None
  then have "hash_map hi i \<noteq> Some c" for c
    using hash_map_Some [OF inv, of i c] l by (auto simp: find_None_iff chained_def)
  then show ?thesis using None by (metis not_Some_eq)
next
  case (Some c)
  then have "c \<in> set l" "node_id (ids hi ! c) = i" by (auto simp: find_Some_iff)
  then have "c \<in> used hi" using l by (auto simp: chained_def)
  then show ?thesis using Some hash_map_Some [OF inv, of i c] \<open>node_id (ids hi ! c) = i\<close> by simp
qed

lemma chain_length: "chained hi h l \<Longrightarrow> length l \<le> length (ids hi)"
  by (rule distinct_bounded) (auto simp: chained_def used_def)

lemma lookup_eval:
  assumes inv: "hashid_inv hi"
  shows "hashid_lookup hi i = Some (case hash_map hi i of Some c \<Rightarrow> int c | None \<Rightarrow> -1)"
proof -
  let ?h = "hashid_index hi i"
  have h: "?h < length (hash hi)" by (rule index_less [OF inv])
  then obtain l where l: "chained hi ?h l" using inv by (auto simp: hashid_inv_def)
  have "chain_find (length (ids hi)) (ids hi) (hash hi ! ?h) i = Some (hash_map hi i)"
    using chain_find_links [OF _ chain_length [OF l]] l chain_finds [OF inv l] by (simp add: chained_def)
  then show ?thesis using h by (simp add: hashid_lookup_def nth_opt_def split: option.split)
qed

section \<open>Removal\<close>

text \<open>What a removal of node \<open>c\<close> has to achieve.\<close>

definition unlinked :: "nat \<Rightarrow> hashid \<Rightarrow> hashid \<Rightarrow> bool" where
  "unlinked c hi hi' \<longleftrightarrow> length (ids hi') = length (ids hi) \<and> cap hi' = cap hi \<and> hashmod hi' = hashmod hi
     \<and> length (hash hi') = length (hash hi) \<and> count hi' = count hi - 1
     \<and> (\<forall>x. node_id (ids hi' ! x) = (if x = c then -1 else node_id (ids hi ! x)))
     \<and> (\<forall>x<length (ids hi). node_id (ids hi' ! x) = -1 \<longrightarrow> node_next (ids hi' ! x) = None)
     \<and> (\<forall>h l. h < length (hash hi) \<longrightarrow> chained hi h l \<longrightarrow> links (ids hi') (hash hi' ! h) (filter (\<lambda>x. x \<noteq> c) l))"

lemma unlinked_inv:
  assumes inv: "hashid_inv hi" and c: "c \<in> used hi" and u: "unlinked c hi hi'"
  shows "hashid_inv hi'" "hash_map hi' = (hash_map hi)(node_id (ids hi ! c) := None)"
proof -
  have used': "used hi' = used hi - {c}" using u by (auto simp: used_def unlinked_def)
  have ni: "node_id (ids hi' ! x) = node_id (ids hi ! x)" if "x \<in> used hi'" for x
    using u that used' by (auto simp: unlinked_def)
  have ix: "hashid_index hi' = hashid_index hi" using u by (auto simp: unlinked_def hashid_index_def)
  have fin: "finite (used hi)" by (simp add: used_def)
  have ch: "\<exists>l. chained hi' h l" if h: "h < length (hash hi')" for h
  proof -
    have h': "h < length (hash hi)" using h u by (simp add: unlinked_def)
    then obtain l where l: "chained hi h l" using inv by (auto simp: hashid_inv_def)
    then have "links (ids hi') (hash hi' ! h) (filter (\<lambda>x. x \<noteq> c) l)" using u h' by (simp add: unlinked_def)
    moreover have "set (filter (\<lambda>x. x \<noteq> c) l) = {x \<in> used hi'. hashid_index hi' (node_id (ids hi' ! x)) = h}"
      using l ni used' ix by (auto simp: chained_def)
    moreover have "distinct (filter (\<lambda>x. x \<noteq> c) l)" using l by (simp add: chained_def)
    ultimately show ?thesis unfolding chained_def by blast
  qed
  show inv': "hashid_inv hi'"
    unfolding hashid_inv_def
  proof (intro conjI)
    show "\<exists>k. length (hash hi') = 2 ^ k \<and> hashmod hi' = 2 ^ k - 1" "length (ids hi') = cap hi'" "0 < cap hi'"
      using inv u by (auto simp: hashid_inv_def unlinked_def)
    show "count hi' = card (used hi')" using inv u c fin by (simp add: hashid_inv_def unlinked_def used')
    show "\<forall>x\<in>used hi'. 0 \<le> node_id (ids hi' ! x)" using inv ni used' by (auto simp: hashid_inv_def)
    show "\<forall>x<length (ids hi'). node_id (ids hi' ! x) = - 1 \<longrightarrow> node_next (ids hi' ! x) = None"
      using u by (simp add: unlinked_def)
    have "inj_on (\<lambda>c. node_id (ids hi ! c)) (used hi')"
      using inv used' by (auto simp: hashid_inv_def intro: inj_on_subset)
    then show "inj_on (\<lambda>c. node_id (ids hi' ! c)) (used hi')" using ni by (simp cong: inj_on_cong)
    show "\<forall>h<length (hash hi'). \<exists>l. chained hi' h l" using ch by blast
  qed
  show "hash_map hi' = (hash_map hi)(node_id (ids hi ! c) := None)"
  proof
    fix i
    have "hash_map hi' i = Some x \<longleftrightarrow> i \<noteq> node_id (ids hi ! c) \<and> hash_map hi i = Some x" for x
    proof -
      have "node_id (ids hi ! x) = node_id (ids hi ! c) \<longleftrightarrow> x = c" if "x \<in> used hi"
        using that c inv unfolding hashid_inv_def inj_on_def by blast
      then show ?thesis unfolding hash_map_Some [OF inv] hash_map_Some [OF inv']
        using ni [of x] unfolding used' by auto
    qed
    then show "hash_map hi' i = ((hash_map hi)(node_id (ids hi ! c) := None)) i"
      by (metis fun_upd_other fun_upd_same not_Some_eq)
  qed
qed

lemma other_chain:
  assumes "chained hi h l" "c \<in> used hi" "hashid_index hi (node_id (ids hi ! c)) \<noteq> h"
  shows "c \<notin> set l"
  using assms by (auto simp: chained_def)

lemma remove_head:
  assumes inv: "hashid_inv hi" and h: "h = hashid_index hi (node_id (ids hi ! c))"
    and c: "hash hi ! h = Some c" "c \<in> used hi"
  shows "unlinked c hi (snd (clear_node c (hi\<lparr>hash := (hash hi)[h := node_next (ids hi ! c)]\<rparr>)))" (is "unlinked c hi ?hi")
proof -
  have cl: "c < length (ids hi)" using c(2) by (simp add: used_def)
  have hl: "h < length (hash hi)" unfolding h by (rule index_less [OF inv])
  have "links (ids ?hi) (hash ?hi ! h') (filter (\<lambda>x. x \<noteq> c) l)"
    if l: "h' < length (hash hi)" "chained hi h' l" for h' l
  proof (cases "h' = h")
    case True
    from l(2) True c(1) obtain l' where l': "l = c # l'" by (cases l) (auto simp: chained_def links_Cons)
    with l(2) have "c \<notin> set l'" "links (ids hi) (node_next (ids hi ! c)) l'" by (auto simp: chained_def links_Cons)
    moreover from this have "filter (\<lambda>x. x \<noteq> c) l = l'" using l' by (auto simp: filter_id_conv)
    ultimately show ?thesis using True hl by (simp add: clear_node_def links_frame)
  next
    case False
    with l(2) c(2) h have "c \<notin> set l" by (intro other_chain) auto
    moreover note filter_neq_id [OF this]
    ultimately show ?thesis using False l(2) by (simp add: clear_node_def links_frame chained_def)
  qed
  then show ?thesis using inv cl
    by (auto simp: unlinked_def clear_node_def free_node_def hashid_inv_def nth_list_update)
qed

lemma remove_inner:
  assumes inv: "hashid_inv hi" and h: "h = hashid_index hi (node_id (ids hi ! d))"
    and l: "chained hi h (l1 @ p # d # l2)"
  shows "unlinked d hi (snd (clear_node d (hi\<lparr>ids := (ids hi)[p := (ids hi ! p)\<lparr>node_next := node_next (ids hi ! d)\<rparr>]\<rparr>)))"
    (is "unlinked d hi ?hi")
proof -
  from l have mem: "p \<in> used hi" "d \<in> used hi" "p \<noteq> d" "hashid_index hi (node_id (ids hi ! p)) = h"
    by (auto simp: chained_def)
  have lk: "links ((ids hi)[p := (ids hi ! p)\<lparr>node_next := node_next (ids hi ! d)\<rparr>]) (hash hi ! h) (l1 @ p # l2)"
    using l by (intro links_unlink) (auto simp: chained_def)
  have "links (ids ?hi) (hash ?hi ! h') (filter (\<lambda>x. x \<noteq> d) l')"
    if l': "h' < length (hash hi)" "chained hi h' l'" for h' l'
  proof (cases "h' = h")
    case True
    have "l' = l1 @ p # d # l2" using True l l'(2) links_fun by (auto simp: chained_def)
    moreover have "distinct (l1 @ p # d # l2)" using l by (simp add: chained_def)
    ultimately have "filter (\<lambda>x. x \<noteq> d) l' = l1 @ p # l2" "d \<notin> set (l1 @ p # l2)"
      by (auto simp: filter_neq_id)
    with lk True show ?thesis by (simp add: clear_node_def links_frame)
  next
    case False
    with l'(2) mem h have "d \<notin> set l'" "p \<notin> set l'" using other_chain by metis+
    moreover note filter_neq_id [OF this(1)]
    ultimately show ?thesis using l'(2) by (simp add: clear_node_def links_frame chained_def)
  qed
  then show ?thesis using inv mem
    by (auto simp: unlinked_def clear_node_def free_node_def hashid_inv_def nth_list_update used_def)
qed

lemma remove_spec:
  assumes inv: "hashid_inv hi"
  shows "hashid_remove hi i = (case hash_map hi i of
      None \<Rightarrow> Some (-1, hi)
    | Some c \<Rightarrow> Some (int c, snd (the (hashid_remove hi i))))"
    and "hashid_inv (snd (the (hashid_remove hi i)))"
    and "hash_map (snd (the (hashid_remove hi i))) = (hash_map hi)(i := None)"
    and "cap (snd (the (hashid_remove hi i))) = cap hi"
proof -
  let ?h = "hashid_index hi i"
  have h: "?h < length (hash hi)" by (rule index_less [OF inv])
  then obtain l where l: "chained hi ?h l" using inv by (auto simp: hashid_inv_def)
  note f = chain_finds [OF inv l]
  have "\<exists>r hi'. hashid_remove hi i = Some (r, hi') \<and>
     (case hash_map hi i of None \<Rightarrow> r = -1 \<and> hi' = hi | Some c \<Rightarrow> r = int c \<and> unlinked c hi hi')"
  proof (cases l)
    case Nil
    then have "hash hi ! ?h = None" "hash_map hi i = None" using l f by (auto simp: chained_def)
    then show ?thesis using h by (simp add: hashid_remove_def nth_opt_def)
  next
    case (Cons c l')
    then have c: "hash hi ! ?h = Some c" "c < length (ids hi)" "links (ids hi) (node_next (ids hi ! c)) l'"
      "c \<in> used hi" using l by (auto simp: chained_def links_Cons)
    show ?thesis
    proof (cases "node_id (ids hi ! c) = i")
      case True
      then have "hash_map hi i = Some c" using f Cons by simp
      moreover from True remove_head [OF inv _ _ c(4), of ?h] c(1)
      have "unlinked c hi (snd (clear_node c (hi\<lparr>hash := (hash hi)[?h := node_next (ids hi ! c)]\<rparr>)))" by simp
      ultimately show ?thesis using True h c
        by (simp add: hashid_remove_def nth_opt_def clear_node_def)
    next
      case False
      have "length l' < length (ids hi)" using chain_length [OF l] Cons by simp
      note cp = chain_pred_links [OF c(3,2) this, of i]
      have fm: "List.find (\<lambda>c. node_id (ids hi ! c) = i) l' = hash_map hi i" using f Cons False by simp
      show ?thesis
      proof (cases "hash_map hi i")
        case None
        then show ?thesis using False h c cp fm by (simp add: hashid_remove_def nth_opt_def)
      next
        case (Some d)
        let ?t = "takeWhile (\<lambda>c. node_id (ids hi ! c) \<noteq> i) l'"
        from find_split [of _ l' d] Some fm obtain l2 where
          l2: "l' = ?t @ d # l2" "node_id (ids hi ! d) = i" by metis
        obtain l1 p where lp: "c # ?t = l1 @ [p]" by (metis rev_exhaust list.distinct(1))
        then have p: "last (c # ?t) = p" by simp
        have "l = l1 @ p # d # l2" using Cons l2(1) lp by (metis append.assoc append_Cons append_Nil)
        with l l2(2) have "unlinked d hi (snd (clear_node d (hi\<lparr>ids := (ids hi)[p := (ids hi ! p)\<lparr>node_next := node_next (ids hi ! d)\<rparr>]\<rparr>)))"
          by (intro remove_inner [OF inv]) auto
        then show ?thesis using False h c cp fm Some p
          by (simp add: hashid_remove_def nth_opt_def clear_node_def)
      qed
    qed
  qed
  then obtain r hi' where r: "hashid_remove hi i = Some (r, hi')"
    "case hash_map hi i of None \<Rightarrow> r = -1 \<and> hi' = hi | Some c \<Rightarrow> r = int c \<and> unlinked c hi hi'" by blast
  show "hashid_remove hi i = (case hash_map hi i of
      None \<Rightarrow> Some (-1, hi) | Some c \<Rightarrow> Some (int c, snd (the (hashid_remove hi i))))"
    using r by (auto split: option.splits)
  show "hashid_inv (snd (the (hashid_remove hi i)))"
    "hash_map (snd (the (hashid_remove hi i))) = (hash_map hi)(i := None)"
    "cap (snd (the (hashid_remove hi i))) = cap hi"
  proof -
    have "hashid_inv hi' \<and> hash_map hi' = (hash_map hi)(i := None) \<and> cap hi' = cap hi"
    proof (cases "hash_map hi i")
      case None
      then show ?thesis using r inv by auto
    next
      case (Some c)
      then have c: "c \<in> used hi" "node_id (ids hi ! c) = i" "unlinked c hi hi'"
        using hash_map_Some [OF inv, of i c] r(2) Some by simp_all
      with unlinked_inv [OF inv c(1,3)] show ?thesis by (simp add: unlinked_def)
    qed
    then show "hashid_inv (snd (the (hashid_remove hi i)))"
      "hash_map (snd (the (hashid_remove hi i))) = (hash_map hi)(i := None)"
      "cap (snd (the (hashid_remove hi i))) = cap hi" using r(1) by simp_all
  qed
qed

section \<open>Insertion\<close>

lemma free_slot_spec:
  "case free_slot i hi x of
      Some c \<Rightarrow> c < cap hi \<and> node_id (ids hi ! c) = -1
    | None \<Rightarrow> \<forall>j. i \<le> j \<and> j < cap hi \<longrightarrow> node_id (ids hi ! nat ((int j + x) mod int (cap hi))) \<noteq> -1"
proof (induction i hi x rule: free_slot.induct)
  case (1 i hi x)
  let ?c = "nat ((int i + x) mod int (cap hi))"
  show ?case
  proof (cases "i < cap hi")
    case False
    then show ?thesis by (subst free_slot.simps) auto
  next
    case i: True
    then have l: "?c < cap hi" by (simp add: nat_less_iff)
    show ?thesis
    proof (cases "node_id (ids hi ! ?c) = -1")
      case True
      have "free_slot i hi x = Some ?c" by (subst free_slot.simps) (simp add: i True Let_def)
      then show ?thesis using l True by simp
    next
      case False
      have e: "free_slot i hi x = free_slot (Suc i) hi x"
        by (subst free_slot.simps) (simp only: i False Let_def if_True if_False)
      show ?thesis unfolding e using "1.IH" [OF i refl False] False
        by (auto split: option.splits) (metis le_antisym not_less_eq_eq)
    qed
  qed
qed

lemma free_slot_finds:
  assumes inv: "hashid_inv hi" and nf: "\<not> hashid_full hi"
  obtains c where "free_slot 0 hi x = Some c" "c < length (ids hi)" "node_id (ids hi ! c) = -1"
proof -
  have cap: "length (ids hi) = cap hi" "0 < cap hi" using inv by (auto simp: hashid_inv_def)
  have "card (used hi) \<noteq> cap hi" using inv nf by (simp add: hashid_inv_def hashid_full_def)
  then have "used hi \<noteq> {..<cap hi}" by (metis card_lessThan)
  moreover have "used hi \<subseteq> {..<cap hi}" using cap(1) by (auto simp: used_def)
  ultimately obtain j where "j \<in> {..<cap hi}" "j \<notin> used hi" by blast
  then have j: "j < cap hi" "node_id (ids hi ! j) = -1" using cap(1) by (auto simp: used_def)
  have "free_slot 0 hi x \<noteq> None"
  proof
    assume "free_slot 0 hi x = None"
    with free_slot_spec [of 0 hi x] have a: "node_id (ids hi ! nat ((int i + x) mod int (cap hi))) \<noteq> -1"
      if "i < cap hi" for i using that by auto
    let ?i = "nat ((int j - x) mod int (cap hi))"
    have i: "int ?i = (int j - x) mod int (cap hi)" using cap(2) by simp
    have "?i < cap hi" using cap(2) by (simp add: nat_less_iff)
    moreover have "(int ?i + x) mod int (cap hi) = int j" unfolding i using j(1) by (simp add: mod_simps)
    ultimately show False using a [of ?i] j(2) by simp
  qed
  then obtain c where c: "free_slot 0 hi x = Some c" by blast
  with free_slot_spec [of 0 hi x] have "c < cap hi" "node_id (ids hi ! c) = -1" by simp_all
  with c cap(1) show ?thesis by (intro that) simp_all
qed

lemma insert_spec:
  assumes inv: "hashid_inv hi" and nf: "\<not> hashid_full hi" and x: "0 \<le> x" "x \<notin> dom (hash_map hi)"
  shows "\<exists>c hi'. hashid_insert hi x = Some (c, hi') \<and> hashid_inv hi' \<and> c < cap hi
     \<and> c \<notin> ran (hash_map hi) \<and> hash_map hi' = (hash_map hi)(x \<mapsto> c) \<and> cap hi' = cap hi"
proof -
  from free_slot_finds [OF inv nf, of x] obtain c where
    c: "free_slot 0 hi x = Some c" "c < length (ids hi)" "node_id (ids hi ! c) = -1" by blast
  let ?h = "hashid_index hi x"
  let ?hi = "hi\<lparr>count := count hi + 1, ids := (ids hi)[c := \<lparr>node_id = x, node_next = hash hi ! ?h\<rparr>],
       hash := (hash hi)[?h := Some c]\<rparr>"
  have h: "?h < length (hash hi)" by (rule index_less [OF inv])
  have cu: "c \<notin> used hi" using c by (simp add: used_def)
  have used': "used ?hi = insert c (used hi)" using c x(1) by (auto simp: used_def nth_list_update)
  have ni: "node_id (ids ?hi ! y) = (if y = c then x else node_id (ids hi ! y))" for y
    using c(2) by simp
  have ix: "hashid_index ?hi = hashid_index hi" by (auto simp: hashid_index_def)
  have xn: "node_id (ids hi ! y) \<noteq> x" if "y \<in> used hi" for y
    using that x(2) hash_map_Some [OF inv, of x y] by auto
  have ch: "\<exists>l. chained ?hi h' l" if h': "h' < length (hash ?hi)" for h'
  proof -
    from h' obtain l where l: "chained hi h' l" using inv by (auto simp: hashid_inv_def)
    have cl: "c \<notin> set l" using l cu by (auto simp: chained_def)
    show ?thesis
    proof (cases "h' = ?h")
      case True
      have "chained ?hi h' (c # l)"
        using l True cl cu c(2) h ni used' ix by (auto simp: chained_def links_Cons links_frame)
      then show ?thesis by blast
    next
      case False
      have "chained ?hi h' l"
        using l False cl cu ni used' ix by (auto simp: chained_def links_frame)
      then show ?thesis by blast
    qed
  qed
  have "hashid_inv ?hi"
    unfolding hashid_inv_def
  proof (intro conjI)
    show "\<exists>k. length (hash ?hi) = 2 ^ k \<and> hashmod ?hi = 2 ^ k - 1" "length (ids ?hi) = cap ?hi" "0 < cap ?hi"
      using inv by (auto simp: hashid_inv_def)
    show "count ?hi = card (used ?hi)" unfolding used' using inv cu by (simp add: hashid_inv_def used_def)
    show "\<forall>y\<in>used ?hi. 0 \<le> node_id (ids ?hi ! y)" unfolding used' ni using inv x(1) by (auto simp: hashid_inv_def)
    show "\<forall>y<length (ids ?hi). node_id (ids ?hi ! y) = - 1 \<longrightarrow> node_next (ids ?hi ! y) = None"
    proof (intro allI impI)
      fix y assume y: "y < length (ids ?hi)" "node_id (ids ?hi ! y) = - 1"
      then have "y \<noteq> c" using x(1) ni by auto
      then show "node_next (ids ?hi ! y) = None" using y inv by (simp add: hashid_inv_def)
    qed
    show "inj_on (\<lambda>y. node_id (ids ?hi ! y)) (used ?hi)" unfolding used' ni
      using inv xn cu by (auto simp: hashid_inv_def inj_on_def)
    show "\<forall>h<length (hash ?hi). \<exists>l. chained ?hi h l" using ch by blast
  qed
  moreover have "hash_map ?hi = (hash_map hi)(x \<mapsto> c)"
  proof
    fix i
    have eq: "hash_map ?hi i = Some y \<longleftrightarrow> (if i = x then y = c else hash_map hi i = Some y)" for y
      unfolding hash_map_Some [OF inv] hash_map_Some [OF \<open>hashid_inv ?hi\<close>] used' ni using xn cu by auto
    show "hash_map ?hi i = ((hash_map hi)(x \<mapsto> c)) i"
    proof (cases "i = x")
      case True
      then show ?thesis using eq [of c] by simp
    next
      case False
      then have "hash_map ?hi i = hash_map hi i" using eq by (metis not_Some_eq)
      with False show ?thesis by simp
    qed
  qed
  moreover have "c \<notin> ran (hash_map hi)" using cu hash_map_Some [OF inv] by (auto simp: ran_def)
  moreover have "hashid_insert hi x = Some (c, ?hi)"
    using c h inv by (simp add: hashid_insert_def nth_opt_def assert_opt_def hashid_inv_def Let_def)
  moreover have "c < cap hi" using c(2) inv by (simp add: hashid_inv_def)
  ultimately show ?thesis by auto
qed

lemma hashcap_power: "\<exists>k. hashcap_from (2 ^ j) n = 2 ^ k"
proof (induction "2 ^ j :: nat" n arbitrary: j rule: hashcap_from.induct)
  case (1 n)
  show ?case
  proof (cases "2 ^ j < n")
    case True
    with 1 [of "Suc j"] show ?thesis by (subst hashcap_from.simps) (simp add: mult.commute)
  next
    case False
    then show ?thesis by (subst hashcap_from.simps) auto
  qed
qed

lemma hashid_init_inv:
  assumes "0 < n"
  shows "hashid_inv (hashid_init n)" "hash_map (hashid_init n) = Map.empty" "cap (hashid_init n) = n"
proof -
  obtain k where k: "hashcap_from 16 n = 2 ^ k" using hashcap_power [of 4 n] by auto
  have u: "used (hashid_init n) = {}" by (auto simp: used_def hashid_init_def free_node_def Let_def)
  show "hashid_inv (hashid_init n)"
    using assms u k by (auto simp: hashid_inv_def hashid_init_def Let_def free_node_def chained_def
        intro!: exI [of _ "[]"])
  show "hash_map (hashid_init n) = Map.empty"
    by (auto simp: fun_eq_iff hash_map_def hashid_init_def Let_def free_node_def find_None_iff)
  show "cap (hashid_init n) = n" by (simp add: hashid_init_def Let_def)
qed

section \<open>What the table guarantees\<close>

definition hashid_ready :: "int \<Rightarrow> hashid \<Rightarrow> bool" where
  "hashid_ready x hi \<longleftrightarrow> 0 \<le> x \<and> x \<notin> dom (hash_map hi) \<and> \<not> hashid_full hi"

definition hashid_add :: "int \<Rightarrow> hashid \<Rightarrow> ((int \<times> nat) \<times> hashid) option" where
  "hashid_add x hi = map_option (\<lambda>(c, hi'). ((x, c), hi')) (hashid_insert hi x)"

definition hashid_find :: "int \<Rightarrow> hashid \<Rightarrow> nat option" where
  "hashid_find x hi = (case hashid_lookup hi x of Some r \<Rightarrow> if 0 \<le> r then Some (nat r) else None | None \<Rightarrow> None)"

interpretation hashids: registry hashid_inv hash_map hashid_ready hashid_add
  "\<lambda>k hi. snd (the (hashid_remove hi k))" hashid_find
proof
  fix hi x
  assume inv: "hashid_inv hi"
  show "hashid_find x hi = hash_map hi x"
    by (simp add: hashid_find_def lookup_eval [OF inv] split: option.split)
  assume "hashid_ready x hi"
  with insert_spec [OF inv] show "\<exists>k v s'. hashid_add x hi = Some ((k, v), s') \<and> hashid_inv s'
      \<and> k \<notin> dom (hash_map hi) \<and> v \<notin> ran (hash_map hi) \<and> hash_map s' = (hash_map hi)(k \<mapsto> v)"
    by (fastforce simp: hashid_ready_def hashid_add_def)
qed (fact remove_spec)+

text \<open>Over any sequence of insertions (of new ids, while the table is not full) and removals,
  \<open>hashid_lookup\<close> returns the slot given to an id that is present and -1 for every other
  id; two ids never share a slot. The assertions never fail and the chains never run out.\<close>

lemma hashid_refines_map:
  assumes "0 < n" "hashids.runs (hashid_init n) es hi"
  shows "hashid_lookup hi x = Some (case replay es Map.empty x of Some c \<Rightarrow> int c | None \<Rightarrow> -1)
     \<and> hashid_inv hi \<and> inj_map (hash_map hi)"
proof -
  have "hashid_inv hi \<and> hash_map hi = replay es Map.empty \<and> inj_map (hash_map hi)"
    using hashids.runs_refine_map [OF assms(2)] hashid_init_inv [OF assms(1)] by auto
  then show ?thesis using lookup_eval [of hi x] by auto
qed

theorem hashid_refines_map_witness:
  "(0::nat) < 2 \<and> hashids.runs (hashid_init 2) [Removed 9] (snd (the (hashid_remove (hashid_init 2) 9)))
   \<and> hashid_lookup (snd (the (hashid_remove (hashid_init 2) 9))) 9 = Some (-1)"
proof -
  have r: "hashids.runs (hashid_init 2) [Removed 9] (snd (the (hashid_remove (hashid_init 2) 9)))"
    by (intro hashids.runs_remove hashids.runs_nil)
  from hashid_refines_map [OF _ r, of 9] r show ?thesis by simp
qed

end
