(* ===== verification/Cstring.thy ===== *)
theory Cstring
  imports Prelude
begin

text \<open>
  The parts of the C library's string functions the sources use, on C strings as lists of
  byte values without the terminating zero: \<open>strtol\<close>, \<open>strtoul\<close>, the conversions
  \<open>%d\<close> and \<open>%08x\<close> of \<open>printf\<close>, \<open>strsep\<close>. Reading a printed number gives it back.
\<close>

section \<open>Definitions\<close>

definition ch :: "char \<Rightarrow> u8" where "ch c = of_char c"

text \<open>An ASCII literal as bytes.\<close>

definition lit :: "string \<Rightarrow> cstr" where "lit s = map of_char s"

text \<open>The C string in a buffer: what comes before the first zero.\<close>

definition upto_nul :: "bytes \<Rightarrow> cstr" where "upto_nul bs = takeWhile (\<lambda>b. b \<noteq> 0) bs"

definition is_space :: "u8 \<Rightarrow> bool" where
  "is_space b \<longleftrightarrow> b = 32 \<or> (9 \<le> b \<and> b \<le> 13)"

text \<open>The value of a digit of some base up to 36.\<close>

definition digit_val :: "u8 \<Rightarrow> nat option" where
  "digit_val b =
     (if 48 \<le> b \<and> b \<le> 57 then Some (unat b - 48)
      else if 97 \<le> b \<and> b \<le> 122 then Some (unat b - 87)
      else if 65 \<le> b \<and> b \<le> 90 then Some (unat b - 55)
      else None)"

definition is_digit :: "nat \<Rightarrow> u8 \<Rightarrow> bool" where
  "is_digit base b \<longleftrightarrow> (case digit_val b of Some d \<Rightarrow> d < base | None \<Rightarrow> False)"

text \<open>The value of the leading digits.\<close>

fun read_digits :: "nat \<Rightarrow> nat \<Rightarrow> cstr \<Rightarrow> nat" where
  "read_digits base acc [] = acc"
| "read_digits base acc (b # bs) =
     (if is_digit base b then read_digits base (acc * base + the (digit_val b)) bs else acc)"

definition skip_space :: "cstr \<Rightarrow> cstr" where "skip_space s = dropWhile is_space s"

text \<open>The sign and the rest.\<close>

fun read_sign :: "cstr \<Rightarrow> bool \<times> cstr" where
  "read_sign (b # bs) = (if b = 45 then (True, bs) else if b = 43 then (False, bs) else (False, b # bs))"
| "read_sign [] = (False, [])"

text \<open>Base 16 takes an optional \<open>0x\<close> when a digit follows it.\<close>

fun skip_0x :: "cstr \<Rightarrow> cstr" where
  "skip_0x (a # b # c # bs) = (if a = 48 \<and> (b = 120 \<or> b = 88) \<and> is_digit 16 c then c # bs else a # b # c # bs)"
| "skip_0x bs = bs"

definition magnitude :: "nat \<Rightarrow> cstr \<Rightarrow> nat" where
  "magnitude base s = read_digits base 0 (if base = 16 then skip_0x s else s)"

text \<open>\<open>strtol\<close> and \<open>strtoul\<close> of a 64-bit \<open>long\<close>: out of range they saturate.\<close>

definition strtol :: "nat \<Rightarrow> cstr \<Rightarrow> int" where
  "strtol base s =
     (let (neg, r) = read_sign (skip_space s); n = int (magnitude base r)
      in if neg then max (- n) (- (2 ^ 63)) else min n (2 ^ 63 - 1))"

definition strtoul :: "nat \<Rightarrow> cstr \<Rightarrow> u64" where
  "strtoul base s =
     (let (neg, r) = read_sign (skip_space s); n = magnitude base r
      in if 2 ^ 64 \<le> n then - 1
         else if neg then - of_nat n else of_nat n)"

text \<open>The conversion of a \<open>long\<close> to \<open>int\<close>.\<close>

definition to_int :: "int \<Rightarrow> int" where "to_int n = sint (word_of_int n :: u32)"

fun dec_nat :: "nat \<Rightarrow> cstr" where
  "dec_nat n = (if n < 10 then [48 + of_nat n] else dec_nat (n div 10) @ [48 + of_nat (n mod 10)])"

declare dec_nat.simps [simp del]

definition dec :: "int \<Rightarrow> cstr" where
  "dec n = (if n < 0 then 45 # dec_nat (nat (- n)) else dec_nat (nat n))"

definition hex_digit :: "nat \<Rightarrow> u8" where
  "hex_digit n = (if n < 10 then 48 + of_nat n else 87 + of_nat n)"

text \<open>The \<open>k\<close> low hexadecimal digits, most significant first.\<close>

fun hex_digits :: "nat \<Rightarrow> nat \<Rightarrow> cstr" where
  "hex_digits 0 n = []"
| "hex_digits (Suc k) n = hex_digits k (n div 16) @ [hex_digit (n mod 16)]"

text \<open>\<open>strsep\<close> at one delimiter: the token, and what follows the delimiter.\<close>

definition strsep :: "u8 \<Rightarrow> cstr \<Rightarrow> cstr \<times> cstr option" where
  "strsep d s =
     (takeWhile (\<lambda>b. b \<noteq> d) s,
      case dropWhile (\<lambda>b. b \<noteq> d) s of [] \<Rightarrow> None | _ # r \<Rightarrow> Some r)"

definition strsep_any :: "u8 set \<Rightarrow> cstr \<Rightarrow> cstr \<times> cstr option" where
  "strsep_any ds s =
     (takeWhile (\<lambda>b. b \<notin> ds) s,
      case dropWhile (\<lambda>b. b \<notin> ds) s of [] \<Rightarrow> None | _ # r \<Rightarrow> Some r)"

text \<open>Base 0 of \<open>strtol\<close>: the base is that of a C literal.\<close>

definition strtol_auto :: "cstr \<Rightarrow> int" where
  "strtol_auto s =
     (let (neg, r) = read_sign (skip_space s);
          n = int (if skip_0x r \<noteq> r then magnitude 16 r
                   else if take 1 r = [48] then magnitude 8 r else magnitude 10 r)
      in if neg then max (- n) (- (2 ^ 63)) else min n (2 ^ 63 - 1))"

text \<open>\<open>%x\<close>, and a word read by \<open>%s\<close> of \<open>sscanf\<close> with what follows it.\<close>

fun hex_nat :: "nat \<Rightarrow> cstr" where
  "hex_nat n = (if n < 16 then [hex_digit n] else hex_nat (n div 16) @ [hex_digit (n mod 16)])"

declare hex_nat.simps [simp del]

definition scan_word :: "cstr \<Rightarrow> (cstr \<times> cstr) option" where
  "scan_word s =
     (let r = skip_space s in
      if r = [] then None else Some (takeWhile (\<lambda>b. \<not> is_space b) r, dropWhile (\<lambda>b. \<not> is_space b) r))"

text \<open>A number read by \<open>%d\<close> of \<open>sscanf\<close> and the rest, \<open>None\<close> if there is none.\<close>

definition scan_int :: "cstr \<Rightarrow> (int \<times> cstr) option" where
  "scan_int s =
     (let (neg, r) = read_sign (skip_space s); ds = takeWhile (is_digit 10) r in
      if ds = [] then None
      else Some (to_int (strtol 10 s), dropWhile (is_digit 10) r))"

section \<open>Reading printed numbers\<close>

lemma digit_table:
  "list_all (\<lambda>d. digit_val (48 + of_nat d) = Some d) [0..<10]"
  "list_all (\<lambda>d. digit_val (hex_digit d) = Some d) [0..<16]"
  by code_simp+

lemma digit_dec: "d < 10 \<Longrightarrow> digit_val (48 + of_nat d) = Some d"
  using digit_table(1) unfolding list_all_iff set_upt by (metis atLeastLessThan_iff zero_le)

lemma digit_hex: "d < 16 \<Longrightarrow> digit_val (hex_digit d) = Some d"
  using digit_table(2) unfolding list_all_iff set_upt by (metis atLeastLessThan_iff zero_le)

lemma read_digits_append:
  assumes "\<forall>b\<in>set ds. is_digit base b" "\<not> (rest \<noteq> [] \<and> is_digit base (hd rest))"
  shows "read_digits base acc (ds @ rest) = read_digits base acc ds"
  using assms(1)
proof (induction ds arbitrary: acc)
  case Nil
  then show ?case using assms(2) by (cases rest) auto
qed simp

lemma read_digits_snoc:
  assumes "\<forall>b\<in>set ds. is_digit base b" "is_digit base b"
  shows "read_digits base acc (ds @ [b]) = read_digits base acc ds * base + the (digit_val b)"
  using assms by (induction ds arbitrary: acc) auto

lemma dec_nat_digits: "\<forall>b\<in>set (dec_nat n). is_digit 10 b"
proof (induction n rule: dec_nat.induct)
  case (1 n)
  show ?case
  proof (cases "n < 10")
    case True
    then show ?thesis using digit_dec [OF True]
      by (subst dec_nat.simps) (simp add: is_digit_def del: of_nat_numeral)
  next
    case False
    have "n mod 10 < 10" by simp
    from digit_dec [OF this] False "1.IH" show ?thesis
      by (subst dec_nat.simps) (auto simp: is_digit_def)
  qed
qed

lemma read_dec_nat: "read_digits 10 0 (dec_nat n) = n"
proof (induction n rule: dec_nat.induct)
  case (1 n)
  show ?case
  proof (cases "n < 10")
    case True
    with digit_dec [OF True] show ?thesis by (subst dec_nat.simps) (simp add: is_digit_def)
  next
    case False
    have m: "n mod 10 < 10" by simp
    have "is_digit 10 (48 + of_nat (n mod 10))" using digit_dec [OF m] by (simp add: is_digit_def)
    from read_digits_snoc [OF dec_nat_digits this] digit_dec [OF m] False "1.IH" show ?thesis
      by (subst dec_nat.simps) simp
  qed
qed

lemma dec_nat_Cons: "\<exists>b bs. dec_nat n = b # bs \<and> is_digit 10 b"
  using dec_nat_digits [of n] by (cases "dec_nat n") (auto simp: dec_nat.simps [of n] split: if_splits)

lemma digit_not_space: "is_digit base b \<Longrightarrow> \<not> is_space b \<and> b \<noteq> 45 \<and> b \<noteq> 43"
  by (auto simp: is_digit_def digit_val_def is_space_def word_le_nat_alt split: if_splits)

lemma skip_sign_dec: "read_sign (skip_space (dec_nat n @ rest)) = (False, dec_nat n @ rest)"
proof -
  obtain b bs where "dec_nat n = b # bs" "is_digit 10 b" using dec_nat_Cons by blast
  with digit_not_space [of 10 b] show ?thesis by (simp add: skip_space_def)
qed

text \<open>\<open>strtol\<close> reads back what \<open>%d\<close> printed.\<close>

lemma strtol_dec:
  assumes "\<bar>n\<bar> < 2 ^ 63" "\<not> (rest \<noteq> [] \<and> is_digit 10 (hd rest))"
  shows "strtol 10 (dec n @ rest) = n"
proof -
  have m: "magnitude 10 (dec_nat k @ rest) = k" for k
    using read_digits_append [OF dec_nat_digits assms(2)] read_dec_nat by (simp add: magnitude_def)
  show ?thesis
  proof (cases "n < 0")
    case True
    then have "read_sign (skip_space (dec n @ rest)) = (True, dec_nat (nat (- n)) @ rest)"
      by (simp add: dec_def skip_space_def is_space_def)
    then show ?thesis using True m assms(1) by (simp add: strtol_def)
  next
    case False
    then show ?thesis using m assms(1) skip_sign_dec by (simp add: strtol_def dec_def)
  qed
qed

lemma hex_digits_digits: "\<forall>b\<in>set (hex_digits k n). is_digit 16 b"
proof (induction k arbitrary: n)
  case (Suc k)
  have "n mod 16 < 16" by simp
  from digit_hex [OF this] Suc show ?case by (simp add: is_digit_def)
qed simp

lemma length_hex_digits [simp]: "length (hex_digits k n) = k"
  by (induction k arbitrary: n) auto

lemma read_hex_digits: "read_digits 16 0 (hex_digits k n) = n mod 16 ^ k"
proof (induction k arbitrary: n)
  case (Suc k)
  have m: "n mod 16 < 16" by simp
  have "is_digit 16 (hex_digit (n mod 16))" using digit_hex [OF m] by (simp add: is_digit_def)
  from read_digits_snoc [OF hex_digits_digits this, of 0 k "n div 16"] Suc.IH digit_hex [OF m]
  have "read_digits 16 0 (hex_digits (Suc k) n) = (n div 16 mod 16 ^ k) * 16 + n mod 16" by simp
  also have "\<dots> = n mod 16 ^ Suc k" by (simp add: mod_mult2_eq)
  finally show ?case .
qed simp

end
