(* ===== verification/Gate.thy ===== *)
theory Gate
  imports Databuffer Hashid Cstring Ptype
begin

unbundle bit_operations_syntax

text \<open>
  \<^verbatim>\<open>service-src/service_gate.c\<close>: the service that accepts client connections, cuts their byte
  streams into messages and forwards each message to a broker, to the agent of the
  connection or to the watchdog. What the service asks of the node (messages sent, sockets
  closed, started or written, log lines) is the list of effects an operation returns; the
  answers it needs (\<open>skynet_queryname\<close>, \<open>skynet_socket_listen\<close>) are arguments.
  \<open>None\<close> is a failing assertion or a bad memory access.
\<close>

section \<open>State and effects\<close>

definition BACKLOG :: int where "BACKLOG = 32"

datatype gate_effect =
    Send (eff_source: u32) (eff_dest: u32) (eff_type: int) (eff_session: int) (eff_msg: bytes)
  | Sock_close int
  | Sock_start int
  | Sock_send int bytes
  | Log string "cstr list"

record connection =
  conn_id :: int
  agent :: u32
  client :: u32
  remote_name :: cstr
  buffer :: databuffer

record gate =
  listen_id :: int
  watchdog :: u32
  broker :: u32
  client_tag :: int
  header_size :: nat
  max_connection :: nat
  conn_hash :: hashid
  conn :: "connection list"
  mp :: messagepool

definition empty_connection :: connection where
  "empty_connection = \<lparr>conn_id = -1, agent = 0, client = 0, remote_name = [], buffer = databuffer_zero\<rparr>"

definition gate_create :: gate where
  "gate_create = \<lparr>listen_id = -1, watchdog = 0, broker = 0, client_tag = 0, header_size = 0,
     max_connection = 0,
     conn_hash = \<lparr>hashmod = 0, cap = 0, count = 0, ids = [], hash = []\<rparr>,
     conn = [], mp = \<lparr>mp_blocks = 0, mp_free = 0\<rparr>\<rparr>"

definition gate_release :: "gate \<Rightarrow> gate_effect list" where
  "gate_release g =
     map (\<lambda>c. Sock_close (conn_id c)) (filter (\<lambda>c. conn_id c \<ge> 0) (take (max_connection g) (conn g)))
     @ (if listen_id g \<ge> 0 then [Sock_close (listen_id g)] else [])"

section \<open>Control commands\<close>

text \<open>The buffer \<open>tmp\<close> after \<open>_parm\<close>: the arguments moved to the front and terminated; what lay
  behind is still there.\<close>

definition parm :: "bytes \<Rightarrow> nat \<Rightarrow> bytes" where
  "parm msg command_sz =
     (let p = dropWhile (\<lambda>b. b = 32) (drop command_sz msg)
      in p @ 0 # drop (length p + 1) (msg @ [0]))"

text \<open>The C string at a position of a buffer, and \<open>strsep(&p, " ")\<close> on one: the buffer with the
  delimiter overwritten, and the new \<open>p\<close>.\<close>

definition str_at :: "bytes \<Rightarrow> nat \<Rightarrow> cstr" where
  "str_at buf off = upto_nul (drop off buf)"

definition strsep_at :: "bytes \<Rightarrow> nat \<Rightarrow> bytes \<times> nat option" where
  "strsep_at buf off =
     (let e = off + length (takeWhile (\<lambda>b. b \<noteq> 32 \<and> b \<noteq> 0) (drop off buf)) in
      if e < length buf \<and> buf ! e = 32 then (buf[e := 0], Some (Suc e)) else (buf, None))"

text \<open>\<open>memcmp(command, literal, i) == 0\<close>, where \<open>i\<close> is the length of the word: any prefix of the
  literal passes.\<close>

definition command_is :: "bytes \<Rightarrow> nat \<Rightarrow> string \<Rightarrow> bool" where
  "command_is msg i w \<longleftrightarrow> i \<le> length w + 1 \<and> take i msg = take i (lit w @ [0])"

definition forward_agent :: "gate \<Rightarrow> int \<Rightarrow> u32 \<Rightarrow> u32 \<Rightarrow> gate option" where
  "forward_agent g fd agentaddr clientaddr = do {
     id \<leftarrow> hashid_lookup (conn_hash g) fd;
     if id \<ge> 0 then do {
       c \<leftarrow> nth_opt (conn g) (nat id);
       Some (g\<lparr>conn := (conn g)[nat id := c\<lparr>agent := agentaddr, client := clientaddr\<rparr>]\<rparr>)
     } else Some g
   }"

definition ctrl_forward :: "bytes \<Rightarrow> gate \<Rightarrow> gate option" where
  "ctrl_forward buf g =
     (case strsep_at buf 0 of
        (buf1, None) \<Rightarrow> Some g
      | (buf1, Some a) \<Rightarrow>
          (case strsep_at buf1 a of
             (buf2, None) \<Rightarrow> Some g
           | (buf2, Some c) \<Rightarrow>
               forward_agent g (to_int (strtol 10 (str_at buf2 0)))
                 (ucast (strtoul 16 (str_at buf2 (Suc a)))) (ucast (strtoul 16 (str_at buf2 (Suc c))))))"

definition ctrl_uid :: "(int \<Rightarrow> gate_effect) \<Rightarrow> bytes \<Rightarrow> gate \<Rightarrow> gate_effect list option" where
  "ctrl_uid eff buf g = do {
     let uid = to_int (strtol 10 (str_at buf 0));
     id \<leftarrow> hashid_lookup (conn_hash g) uid;
     Some (if id \<ge> 0 then [eff uid] else [])
   }"

definition ctrl :: "(cstr \<Rightarrow> u32) \<Rightarrow> bytes \<Rightarrow> gate \<Rightarrow> (gate_effect list \<times> gate) option" where
  "ctrl queryname msg g =
     (if msg = [] then Some ([], g)
      else
        let i = length (takeWhile (\<lambda>b. b \<noteq> 32) msg) in
        if command_is msg i ''kick'' then map_option (\<lambda>es. (es, g)) (ctrl_uid Sock_close (parm msg i) g)
        else if command_is msg i ''forward'' then map_option (\<lambda>g'. ([], g')) (ctrl_forward (parm msg i) g)
        else if command_is msg i ''broker'' then Some ([], g\<lparr>broker := queryname (str_at (parm msg i) 0)\<rparr>)
        else if command_is msg i ''start'' then map_option (\<lambda>es. (es, g)) (ctrl_uid Sock_start (parm msg i) g)
        else if command_is msg i ''close'' then
          (if listen_id g \<ge> 0 then Some ([Sock_close (listen_id g)], g\<lparr>listen_id := -1\<rparr>) else Some ([], g))
        else Some ([Log ''[gate] Unkown command : %s'' [upto_nul msg]], g))"

section \<open>Messages of the clients\<close>

definition report :: "gate \<Rightarrow> cstr \<Rightarrow> gate_effect list" where
  "report g text = (if watchdog g = 0 then [] else [Send 0 (watchdog g) PTYPE_TEXT 0 text])"

text \<open>\<open>_forward\<close>: a message of \<open>size\<close> bytes, to the first of broker, agent and watchdog there is.
  Without any of them the bytes stay in the buffer.\<close>

definition forward :: "gate \<Rightarrow> connection \<Rightarrow> databuffer \<Rightarrow> messagepool \<Rightarrow> nat
    \<Rightarrow> (gate_effect list \<times> databuffer \<times> messagepool) option" where
  "forward g c db pool sz =
     (if broker g \<noteq> 0 then do {
        (temp, db', pool') \<leftarrow> databuffer_read db pool sz;
        Some ([Send 0 (broker g) (client_tag g OR PTYPE_TAG_DONTCOPY) 0 temp], db', pool')
      }
      else if agent c \<noteq> 0 then do {
        (temp, db', pool') \<leftarrow> databuffer_read db pool sz;
        Some ([Send (client c) (agent c) (client_tag g OR PTYPE_TAG_DONTCOPY) 0 temp], db', pool')
      }
      else if watchdog g \<noteq> 0 then do {
        (temp, db', pool') \<leftarrow> databuffer_read db pool sz;
        Some ([Send 0 (watchdog g) (PTYPE_TEXT OR PTYPE_TAG_DONTCOPY) 0 (dec (conn_id c) @ lit '' data '' @ temp)],
              db', pool')
      }
      else Some ([], db, pool))"

partial_function (option) dispatch_loop :: "gate \<Rightarrow> connection \<Rightarrow> int \<Rightarrow> databuffer \<Rightarrow> messagepool
    \<Rightarrow> (gate_effect list \<times> databuffer \<times> messagepool) option" where
  "dispatch_loop g c sid db pool = do {
     (sz, db1, pool1) \<leftarrow> databuffer_readheader db pool (header_size g);
     if sz < 0 then Some ([], db1, pool1)
     else if sz > 0 then
       (if sz \<ge> 0x1000000 then
          (let (db2, pool2) = databuffer_clear db1 pool1
           in Some ([Sock_close sid, Log ''Recv socket message > 16M'' []], db2, pool2))
        else do {
          (es, db2, pool2) \<leftarrow> forward g c db1 pool1 (nat sz);
          (es', r) \<leftarrow> dispatch_loop g c sid (databuffer_reset db2) pool2;
          Some (es @ es', r)
        })
     else dispatch_loop g c sid db1 pool1
   }"

text \<open>\<open>dispatch_message\<close> for connection number \<open>k\<close> of socket \<open>sid\<close>.\<close>

definition dispatch_message :: "nat \<Rightarrow> int \<Rightarrow> bytes \<Rightarrow> gate \<Rightarrow> (gate_effect list \<times> gate) option" where
  "dispatch_message k sid data g = do {
     c \<leftarrow> nth_opt (conn g) k;
     let (db, pool) = databuffer_push (buffer c) (mp g) data;
     (es, db', pool') \<leftarrow> dispatch_loop g c sid db pool;
     Some (es, g\<lparr>conn := (conn g)[k := c\<lparr>buffer := db'\<rparr>], mp := pool'\<rparr>)
   }"

section \<open>Socket events\<close>

datatype socket_event =
    SData int bytes
  | SConnect int
  | SClose int
  | SError int
  | SAccept int int bytes
  | SWarning int int

definition on_data :: "int \<Rightarrow> bytes \<Rightarrow> gate \<Rightarrow> (gate_effect list \<times> gate) option" where
  "on_data sid data g = do {
     id \<leftarrow> hashid_lookup (conn_hash g) sid;
     if id \<ge> 0 then dispatch_message (nat id) sid data g
     else Some ([Log ''Drop unknown connection %d message'' [dec sid], Sock_close sid], g)
   }"

definition on_connect :: "int \<Rightarrow> gate \<Rightarrow> (gate_effect list \<times> gate) option" where
  "on_connect sid g =
     (if sid = listen_id g then Some ([], g)
      else do {
        id \<leftarrow> hashid_lookup (conn_hash g) sid;
        Some (if id < 0 then [Log ''Close unknown connection %d'' [dec sid], Sock_close sid] else [], g)
      })"

definition on_close :: "int \<Rightarrow> gate \<Rightarrow> (gate_effect list \<times> gate) option" where
  "on_close sid g = do {
     (id, h) \<leftarrow> hashid_remove (conn_hash g) sid;
     let g1 = g\<lparr>conn_hash := h\<rparr>;
     if id \<ge> 0 then do {
       c \<leftarrow> nth_opt (conn g1) (nat id);
       let (db, pool) = databuffer_clear (buffer c) (mp g1);
       Some (report g1 (dec sid @ lit '' close''),
             g1\<lparr>conn := (conn g1)[nat id := empty_connection], mp := pool\<rparr>)
     } else Some ([], g1)
   }"

text \<open>\<open>ud\<close> is the new socket, \<open>addr\<close> the address text behind the message.\<close>

definition on_accept :: "int \<Rightarrow> int \<Rightarrow> bytes \<Rightarrow> gate \<Rightarrow> (gate_effect list \<times> gate) option" where
  "on_accept sid ud addr g = do {
     assert_opt (listen_id g = sid);
     if hashid_full (conn_hash g) then Some ([Sock_close ud], g)
     else do {
       (k, h) \<leftarrow> hashid_insert (conn_hash g) ud;
       c \<leftarrow> nth_opt (conn g) k;
       let name = upto_nul (take 31 addr);
       Some (report g (dec ud @ lit '' open '' @ dec ud @ lit '' '' @ name @ lit '':0'')
               @ [Log ''socket open: %x'' [dec ud]],
             g\<lparr>conn_hash := h, conn := (conn g)[k := c\<lparr>conn_id := ud, remote_name := name\<rparr>]\<rparr>)
     }
   }"

fun dispatch_socket_message :: "socket_event \<Rightarrow> gate \<Rightarrow> (gate_effect list \<times> gate) option" where
  "dispatch_socket_message (SData sid data) g = on_data sid data g"
| "dispatch_socket_message (SConnect sid) g = on_connect sid g"
| "dispatch_socket_message (SClose sid) g = on_close sid g"
| "dispatch_socket_message (SError sid) g = on_close sid g"
| "dispatch_socket_message (SAccept sid ud addr) g = on_accept sid ud addr g"
| "dispatch_socket_message (SWarning sid ud) g = Some ([Log ''fd (%d) send buffer (%d)K'' [dec sid, dec ud]], g)"

section \<open>The callback\<close>

text \<open>\<open>idbuf[0] | idbuf[1] << 8 | idbuf[2] << 16 | idbuf[3] << 24\<close> as the \<open>int\<close> argument of the lookup.\<close>

definition client_uid :: "bytes \<Rightarrow> int" where
  "client_uid b = sint ((push_bit 24 (ucast (b ! 3)) OR push_bit 16 (ucast (b ! 2))
     OR push_bit 8 (ucast (b ! 1)) OR ucast (b ! 0)) :: u32)"

datatype gate_message = Text bytes | Client u32 bytes | Socket socket_event

text \<open>The result of the callback: whether the message is kept, the effects and the new state.\<close>

fun cb :: "(cstr \<Rightarrow> u32) \<Rightarrow> gate_message \<Rightarrow> gate \<Rightarrow> (bool \<times> gate_effect list \<times> gate) option" where
  "cb queryname (Text msg) g = map_option (\<lambda>r. (False, r)) (ctrl queryname msg g)"
| "cb queryname (Client source msg) g =
     (if length msg \<le> 4 then Some (False, [Log ''Invalid client message from %x'' []], g)
      else do {
        let uid = client_uid (drop (length msg - 4) msg);
        id \<leftarrow> hashid_lookup (conn_hash g) uid;
        if id \<ge> 0 then Some (True, [Sock_send uid (take (length msg - 4) msg)], g)
        else Some (False, [Log ''Invalid client id %d from %x'' [dec uid]], g)
      })"
| "cb queryname (Socket ev) g = map_option (\<lambda>r. (False, r)) (dispatch_socket_message ev g)"

section \<open>Initialisation\<close>

text \<open>\<open>listen host port backlog\<close> is the socket number \<open>skynet_socket_listen\<close> returns.\<close>

definition start_listen :: "(cstr \<Rightarrow> int \<Rightarrow> int \<Rightarrow> int) \<Rightarrow> cstr \<Rightarrow> gate \<Rightarrow> int \<times> gate_effect list \<times> gate" where
  "start_listen listen addr g =
     (let (before, rest) = strsep 58 addr;
          (host, portstr) = (case rest of None \<Rightarrow> ([], addr) | Some p \<Rightarrow> (before, p));
          port = to_int (strtol 10 portstr)
      in if port \<le> 0 then (1, [Log ''Invalid gate address %s'' [addr]], g)
         else let id = listen host port BACKLOG; g' = g\<lparr>listen_id := id\<rparr>
              in if id < 0 then (1, [], g') else (0, [Sock_start id], g'))"

text \<open>\<open>sscanf(parm, "%c %s %s %d %d", ...)\<close> when at least four conversions succeed; a fifth that
  fails leaves \<open>max\<close> at 0.\<close>

definition scan_word :: "cstr \<Rightarrow> cstr \<times> cstr" where
  "scan_word s = (let r = skip_space s in (takeWhile (\<lambda>b. \<not> is_space b) r, dropWhile (\<lambda>b. \<not> is_space b) r))"

definition scan_parm :: "cstr \<Rightarrow> (u8 \<times> cstr \<times> cstr \<times> int \<times> int) option" where
  "scan_parm s =
     (case s of
        [] \<Rightarrow> None
      | h # r0 \<Rightarrow>
          let (wd, r1) = scan_word r0; (bind, r2) = scan_word r1 in
          if wd = [] \<or> bind = [] then None
          else (case scan_int r2 of
                  None \<Rightarrow> None
                | Some (tag, r3) \<Rightarrow>
                    Some (h, wd, bind, tag, case scan_int r3 of None \<Rightarrow> 0 | Some (m, _) \<Rightarrow> m)))"

definition gate_init :: "(cstr \<Rightarrow> u32) \<Rightarrow> (cstr \<Rightarrow> int \<Rightarrow> int \<Rightarrow> int) \<Rightarrow> cstr option \<Rightarrow> gate
    \<Rightarrow> int \<times> gate_effect list \<times> gate" where
  "gate_init queryname listen pr g =
     (case pr of
        None \<Rightarrow> (1, [], g)
      | Some p \<Rightarrow>
          (case scan_parm p of
             None \<Rightarrow> (1, [Log ''Invalid gate parm %s'' [p]], g)
           | Some (h, wd, binding, tag, m) \<Rightarrow>
               if m \<le> 0 then (1, [Log ''Need max connection'' []], g)
               else if h \<noteq> 83 \<and> h \<noteq> 76 then (1, [Log ''Invalid data header style'' []], g)
               else
                 let tag' = (if tag = 0 then PTYPE_CLIENT else tag);
                     w = (if take 1 wd = [33] then 0 else queryname wd);
                     g1 = g\<lparr>watchdog := w\<rparr>
                 in if take 1 wd \<noteq> [33] \<and> w = 0 then (1, [Log ''Invalid watchdog %s'' [wd]], g1)
                    else start_listen listen binding
                      (g1\<lparr>conn_hash := hashid_init (nat m),
                          conn := replicate (nat m) empty_connection,
                          max_connection := nat m,
                          client_tag := tag',
                          header_size := (if h = 83 then 2 else 4)\<rparr>)))"

section \<open>Framing\<close>

text \<open>Where a message of a connection goes, when there is somewhere to go.\<close>

definition has_target :: "gate \<Rightarrow> connection \<Rightarrow> bool" where
  "has_target g c \<longleftrightarrow> broker g \<noteq> 0 \<or> agent c \<noteq> 0 \<or> watchdog g \<noteq> 0"

definition delivery :: "gate \<Rightarrow> connection \<Rightarrow> bytes \<Rightarrow> gate_effect" where
  "delivery g c body =
     (if broker g \<noteq> 0 then Send 0 (broker g) (client_tag g OR PTYPE_TAG_DONTCOPY) 0 body
      else if agent c \<noteq> 0 then Send (client c) (agent c) (client_tag g OR PTYPE_TAG_DONTCOPY) 0 body
      else Send 0 (watchdog g) (PTYPE_TEXT OR PTYPE_TAG_DONTCOPY) 0 (dec (conn_id c) @ lit '' data '' @ body))"

text \<open>The stream a buffer has not delivered: a header already read counts with its bytes.\<close>

definition db_pend :: "nat \<Rightarrow> databuffer \<Rightarrow> bytes" where
  "db_pend hs db = (if header db = 0 then [] else be_bytes hs (nat (header db))) @ unread db"

definition frame_limit :: nat where "frame_limit = 0x1000000"

definition header_ok :: "nat \<Rightarrow> databuffer \<Rightarrow> bool" where
  "header_ok hs db \<longleftrightarrow> 0 \<le> header db \<and> header db < int frame_limit \<and> header db < 256 ^ hs"

lemma forward_spec:
  assumes "has_target g c" "db_inv db" "0 < n" "int n \<le> db_size db"
  shows "\<exists>db' pool'. forward g c db pool n = Some ([delivery g c (take n (unread db))], db', pool')
     \<and> db_inv db' \<and> unread db' = drop n (unread db) \<and> header db' = header db"
  using databuffer_read_spec [OF assms(2,3,4), of pool] assms(1)
  by (auto simp: forward_def delivery_def has_target_def)

lemma parse_header_ok:
  assumes "hs = 2 \<or> hs = 4" "length bs = hs" "be_nat bs < frame_limit"
  shows "parse_header bs = int (be_nat bs)"
  using assms parse_header_2 [of bs] parse_header_4 [of bs] by (auto simp: frame_limit_def)

lemma db_size_unread: "db_inv db \<Longrightarrow> db_size db = int (length (unread db))"
  by (simp add: db_inv_def)

lemma readheader_short:
  "header db = 0 \<Longrightarrow> db_size db < int hs \<Longrightarrow> databuffer_readheader db pool hs = Some (-1, db, pool)"
  by (simp add: databuffer_readheader_def)

lemma readheader_known:
  "header db \<noteq> 0 \<Longrightarrow> databuffer_readheader db pool hs =
     Some (if db_size db < header db then -1 else header db, db, pool)"
  by (simp add: databuffer_readheader_def)

lemma readheader_new:
  assumes hs: "hs = 2 \<or> hs = 4" and inv: "db_inv db" and h: "header db = 0" and sz: "hs \<le> length (unread db)"
    and lim: "be_nat (take hs (unread db)) < frame_limit"
  shows "\<exists>db' pool'. databuffer_readheader db pool hs =
      Some (if db_size db' < header db' then -1 else header db', db', pool')
     \<and> db_inv db' \<and> header_ok hs db' \<and> header db' = int (be_nat (take hs (unread db)))
     \<and> unread db' = drop hs (unread db)"
proof -
  have s: "int hs \<le> db_size db" "0 < hs" using db_size_unread [OF inv] sz hs by auto
  from databuffer_read_spec [OF inv s(2,1), of pool] obtain db1 pool1 where
    r: "databuffer_read db pool hs = Some (take hs (unread db), db1, pool1)" "db_inv db1"
      "unread db1 = drop hs (unread db)" by blast
  have l: "length (take hs (unread db)) = hs" using sz by simp
  let ?db = "db1\<lparr>header := parse_header (take hs (unread db))\<rparr>"
  have "databuffer_readheader db pool hs = Some (if db_size ?db < header ?db then -1 else header ?db, ?db, pool1)"
    using h s r(1) by (simp add: databuffer_readheader_def)
  moreover have "db_inv ?db" "unread ?db = drop hs (unread db)"
    using r by simp_all
  moreover have "header ?db = int (be_nat (take hs (unread db)))" using parse_header_ok [OF hs l lim] by simp
  moreover have "header_ok hs ?db"
    using parse_header_ok [OF hs l lim] lim be_nat_less [of "take hs (unread db)"] l
    by (simp add: header_ok_def)
  ultimately show ?thesis by blast
qed

lemma be_bytes_take: "hs \<le> length p \<Longrightarrow> be_bytes hs (be_nat (take hs p)) @ drop hs p = p"
  using be_bytes_nat [of "take hs p"] by simp

lemma dispatch_loop_spec:
  assumes t: "has_target g c" and hs: "header_size g = 2 \<or> header_size g = 4"
  shows "db_inv db \<Longrightarrow> header_ok (header_size g) db \<Longrightarrow> fits (header_size g) frame_limit (db_pend (header_size g) db) \<Longrightarrow>
    \<exists>db' pool'. dispatch_loop g c sid db pool =
        Some (map (delivery g c) (filter (\<lambda>b. b \<noteq> []) (fst (split_frames (header_size g) (db_pend (header_size g) db)))), db', pool')
      \<and> db_inv db' \<and> header_ok (header_size g) db'
      \<and> db_pend (header_size g) db' = snd (split_frames (header_size g) (db_pend (header_size g) db))"
proof (induction "length (db_pend (header_size g) db)" arbitrary: db pool rule: less_induct)
  case less
  let ?hs = "header_size g"
  have hp: "0 < ?hs" using hs by auto
  \<comment> \<open>the step once the header is in the buffer\<close>
  have body: "\<exists>db' pool'. dispatch_loop g c sid db pool =
        Some (map (delivery g c) (filter (\<lambda>b. b \<noteq> []) (fst (split_frames ?hs (db_pend ?hs db)))), db', pool')
      \<and> db_inv db' \<and> header_ok ?hs db' \<and> db_pend ?hs db' = snd (split_frames ?hs (db_pend ?hs db))"
    if d: "databuffer_readheader db pool ?hs = Some (if db_size db1 < header db1 then -1 else header db1, db1, pool1)"
      "db_inv db1" "header_ok ?hs db1" "db_pend ?hs db = be_bytes ?hs (nat (header db1)) @ unread db1" "0 < header db1"
    for db1 pool1
  proof -
    let ?n = "nat (header db1)"
    have n: "?n < 256 ^ ?hs" "header db1 = int ?n" "header db1 < int frame_limit"
      using d(3,5) by (auto simp: header_ok_def nat_less_iff)
    note k = split_known [OF hp n(1), where p = "unread db1"]
    show ?thesis
    proof (cases "length (unread db1) < ?n")
      case True
      then have "databuffer_readheader db pool ?hs = Some (-1, db1, pool1)"
        using d(1) n(2) db_size_unread [OF d(2)] by simp
      then have r: "dispatch_loop g c sid db pool = Some ([], db1, pool1)"
        by (subst dispatch_loop.simps) simp
      have "split_frames ?hs (db_pend ?hs db) = ([], db_pend ?hs db)"
        using split_incomplete [OF k(2) [OF True]] d(4) by simp
      moreover have "db_pend ?hs db1 = db_pend ?hs db" using d(4,5) by (simp add: db_pend_def)
      ultimately show ?thesis using r d(2,3) by auto
    next
      case False
      then have l: "?n \<le> length (unread db1)" by simp
      have rh: "databuffer_readheader db pool ?hs = Some (int ?n, db1, pool1)"
        using d(1) n(2) l db_size_unread [OF d(2)] by simp
      have np: "0 < ?n" "int ?n \<le> db_size db1" using d(5) l db_size_unread [OF d(2)] by auto
      from forward_spec [OF t d(2) np, of pool1] obtain db2 pool2 where
        f: "forward g c db1 pool1 ?n = Some ([delivery g c (take ?n (unread db1))], db2, pool2)"
          "db_inv db2" "unread db2 = drop ?n (unread db1)" by blast
      let ?db3 = "databuffer_reset db2"
      have p3: "db_pend ?hs ?db3 = drop ?n (unread db1)" "db_inv ?db3" "header_ok ?hs ?db3"
        using f by (simp_all add: db_pend_def databuffer_reset_def header_ok_def frame_limit_def)
      have "length (db_pend ?hs ?db3) < length (db_pend ?hs db)" using p3(1) d(4) hp by simp
      moreover have "fits ?hs frame_limit (db_pend ?hs ?db3)"
        using k(3) [OF _ l] less.prems(3) d(4) p3(1) by simp
      ultimately obtain db' pool' where
        i: "dispatch_loop g c sid ?db3 pool2 =
            Some (map (delivery g c) (filter (\<lambda>b. b \<noteq> []) (fst (split_frames ?hs (drop ?n (unread db1))))), db', pool')"
          "db_inv db'" "header_ok ?hs db'" "db_pend ?hs db' = snd (split_frames ?hs (drop ?n (unread db1)))"
        using less.hyps [of ?db3 pool2] p3 by auto
      have "dispatch_loop g c sid db pool =
          Some (delivery g c (take ?n (unread db1)) #
            map (delivery g c) (filter (\<lambda>b. b \<noteq> []) (fst (split_frames ?hs (drop ?n (unread db1))))), db', pool')"
        using rh f(1) i(1) np(1) n(3)
        by (subst dispatch_loop.simps) (simp add: frame_limit_def)
      moreover have "take ?n (unread db1) \<noteq> []" using np(1) l by (cases "unread db1") auto
      ultimately show ?thesis using k(1) [OF l] d(4) i by auto
    qed
  qed
  show ?case
  proof (cases "header db = 0")
    case False
    then have "0 < header db" using less.prems(2) by (simp add: header_ok_def)
    then show ?thesis
      using body [of db pool] readheader_known [OF False] less.prems by (simp add: db_pend_def)
  next
    case h: True
    then have p: "db_pend ?hs db = unread db" by (simp add: db_pend_def)
    show ?thesis
    proof (cases "?hs \<le> length (unread db)")
      case False
      then have "dispatch_loop g c sid db pool = Some ([], db, pool)"
        using readheader_short [OF h, of ?hs pool] db_size_unread [OF less.prems(1)]
        by (subst dispatch_loop.simps) simp
      moreover have "\<not> complete ?hs (unread db)" using False by (simp add: complete_def)
      ultimately show ?thesis using p less.prems by (auto simp: split_incomplete)
    next
      case l: True
      have lim: "be_nat (take ?hs (unread db)) < frame_limit"
        using less.prems(3) p l hp by (subst (asm) fits.simps) simp
      from readheader_new [OF hs less.prems(1) h l lim, of pool] obtain db1 pool1 where
        d: "databuffer_readheader db pool ?hs = Some (if db_size db1 < header db1 then -1 else header db1, db1, pool1)"
          "db_inv db1" "header_ok ?hs db1" "header db1 = int (be_nat (take ?hs (unread db)))"
          "unread db1 = drop ?hs (unread db)" by blast
      have pe: "db_pend ?hs db = be_bytes ?hs (nat (header db1)) @ unread db1"
        using p d(4,5) be_bytes_take [OF l] by simp
      show ?thesis
      proof (cases "header db1 = 0")
        case False
        then show ?thesis using body [OF d(1,2,3) pe] d(3) by (simp add: header_ok_def)
      next
        case z: True
        have "databuffer_readheader db pool ?hs = Some (0, db1, pool1)"
          using d(1) z db_size_unread [OF d(2)] by simp
        then have r: "dispatch_loop g c sid db pool = dispatch_loop g c sid db1 pool1"
          by (subst dispatch_loop.simps) simp
        have p1: "db_pend ?hs db1 = unread db1" using z by (simp add: db_pend_def)
        have n0: "(0::nat) < 256 ^ ?hs" by simp
        have s: "split_frames ?hs (db_pend ?hs db) = ([] # fst (split_frames ?hs (unread db1)), snd (split_frames ?hs (unread db1)))"
          using split_known(1) [OF hp n0, of "unread db1"] pe z by simp
        have f: "fits ?hs frame_limit (unread db1)"
          using split_known(3) [OF hp n0, of frame_limit "unread db1"] less.prems(3) pe z by simp
        have "length (db_pend ?hs db1) < length (db_pend ?hs db)" using pe p1 hp by simp
        from less.hyps [OF this d(2,3)] f p1 r s show ?thesis by auto
      qed
    qed
  qed
qed

section \<open>Any stream at all\<close>

text \<open>The nodes a buffer holds can be given back to the pool.\<close>

definition keeps_nodes :: "databuffer \<Rightarrow> messagepool \<Rightarrow> databuffer \<Rightarrow> messagepool \<Rightarrow> bool" where
  "keeps_nodes db pool db' pool' \<longleftrightarrow>
     (\<forall>u. mp_inv (u + length (messages db)) pool \<longrightarrow> mp_inv (u + length (messages db')) pool')"

lemma keeps_refl [simp]: "keeps_nodes db pool db pool"
  by (simp add: keeps_nodes_def)

lemma keeps_trans: "keeps_nodes d p d' p' \<Longrightarrow> keeps_nodes d' p' d'' p'' \<Longrightarrow> keeps_nodes d p d'' p''"
  by (simp add: keeps_nodes_def)

lemma keeps_header [simp]: "keeps_nodes db pool (db'\<lparr>header := h\<rparr>) pool' = keeps_nodes db pool db' pool'"
  by (simp add: keeps_nodes_def)

lemma read_total:
  assumes "db_inv db" "0 < n" "n \<le> length (unread db)"
  obtains db' pool' where "databuffer_read db pool n = Some (take n (unread db), db', pool')" "db_inv db'"
    "unread db' = drop n (unread db)" "header db' = header db" "keeps_nodes db pool db' pool'"
  using databuffer_read_spec [OF assms(1,2), of pool] assms by (auto simp: keeps_nodes_def db_inv_def)

lemma forward_total:
  assumes "db_inv db" "0 < n" "n \<le> length (unread db)"
  obtains es db' pool' where "forward g c db pool n = Some (es, db', pool')" "db_inv db'"
    "length (unread db') \<le> length (unread db)" "keeps_nodes db pool db' pool'"
proof (cases "has_target g c")
  case True
  obtain db' pool' where r: "databuffer_read db pool n = Some (take n (unread db), db', pool')" "db_inv db'"
    "unread db' = drop n (unread db)" "keeps_nodes db pool db' pool'"
    by (rule read_total [OF assms, of pool]) blast
  then have "forward g c db pool n = Some ([delivery g c (take n (unread db))], db', pool')"
    using True by (auto simp: forward_def delivery_def has_target_def)
  then show ?thesis by (rule that) (use r in simp_all)
next
  case False
  then have "forward g c db pool n = Some ([], db, pool)" by (auto simp: forward_def has_target_def)
  with assms that show ?thesis by auto
qed

lemma dispatch_loop_total:
  assumes hs: "header_size g = 2 \<or> header_size g = 4"
  shows "db_inv db \<Longrightarrow> \<exists>es db' pool'. dispatch_loop g c sid db pool = Some (es, db', pool')
      \<and> db_inv db' \<and> keeps_nodes db pool db' pool'"
proof (induction "2 * length (unread db) + (if header db \<noteq> 0 then 1 else 0)" arbitrary: db pool rule: less_induct)
  case less
  let ?hs = "header_size g"
  have step: "\<exists>es db' pool'. dispatch_loop g c sid db pool = Some (es, db', pool') \<and> db_inv db' \<and> keeps_nodes db pool db' pool'"
    if d: "databuffer_readheader db pool ?hs = Some (if db_size db1 < header db1 then -1 else header db1, db1, pool1)"
      "db_inv db1" "keeps_nodes db pool db1 pool1"
      "2 * length (unread db1) < 2 * length (unread db) + (if header db \<noteq> 0 then 1 else 0)" for db1 pool1
  proof -
    consider "db_size db1 < header db1 \<or> header db1 < 0" | "db_size db1 \<ge> header db1" "header db1 = 0"
      | "db_size db1 \<ge> header db1" "header db1 \<ge> 0x1000000"
      | "db_size db1 \<ge> header db1" "0 < header db1" "header db1 < 0x1000000" by linarith
    then show ?thesis
    proof cases
      case 1
      then have "dispatch_loop g c sid db pool = Some ([], db1, pool1)"
        by (subst dispatch_loop.simps) (auto simp: d(1))
      then show ?thesis using d(2,3) by blast
    next
      case 2
      then have "dispatch_loop g c sid db pool = dispatch_loop g c sid db1 pool1"
        by (subst dispatch_loop.simps) (simp add: d(1))
      moreover from less.hyps [OF _ d(2), of pool1] d(4) 2(2)
      obtain es db' pool' where "dispatch_loop g c sid db1 pool1 = Some (es, db', pool')" "db_inv db'"
        "keeps_nodes db1 pool1 db' pool'" by auto
      ultimately show ?thesis using keeps_trans [OF d(3)] by metis
    next
      case 3
      obtain db2 pool2 where cl: "databuffer_clear db1 pool1 = (db2, pool2)" by fastforce
      have "keeps_nodes db1 pool1 db2 pool2" "db_inv db2"
        using databuffer_clear_spec [OF cl] by (auto simp: keeps_nodes_def)
      moreover have "dispatch_loop g c sid db pool = Some ([Sock_close sid, Log ''Recv socket message > 16M'' []], db2, pool2)"
        using 3 by (subst dispatch_loop.simps) (simp add: d(1) cl)
      ultimately show ?thesis using d(3) keeps_trans by blast
    next
      case 4
      let ?n = "nat (header db1)"
      have n: "0 < ?n" "?n \<le> length (unread db1)" using 4 db_size_unread [OF d(2)] by auto
      obtain es db2 pool2 where f: "forward g c db1 pool1 ?n = Some (es, db2, pool2)" "db_inv db2"
        "length (unread db2) \<le> length (unread db1)" "keeps_nodes db1 pool1 db2 pool2"
        by (rule forward_total [OF d(2) n, of g c pool1]) blast
      let ?db3 = "databuffer_reset db2"
      have r: "db_inv ?db3" "unread ?db3 = unread db2" "header ?db3 = 0" using f(2) by (simp_all add: databuffer_reset_def)
      from less.hyps [OF _ r(1), of pool2] r(2,3) f(3) d(4)
      obtain es' db' pool' where i: "dispatch_loop g c sid ?db3 pool2 = Some (es', db', pool')" "db_inv db'"
        "keeps_nodes ?db3 pool2 db' pool'" by auto
      have "dispatch_loop g c sid db pool = Some (es @ es', db', pool')"
        using 4 by (subst dispatch_loop.simps) (simp add: d(1) f(1) i(1))
      moreover have "keeps_nodes db pool db' pool'"
      proof -
        have "keeps_nodes db1 pool1 ?db3 pool2" using f(4) by (simp add: databuffer_reset_def)
        then show ?thesis using keeps_trans [OF d(3)] keeps_trans i(3) by blast
      qed
      ultimately show ?thesis using i(2) by blast
    qed
  qed
  show ?case
  proof (cases "header db = 0")
    case False
    then show ?thesis using step [of db pool] readheader_known less.prems by simp
  next
    case h: True
    show ?thesis
    proof (cases "?hs \<le> length (unread db)")
      case False
      then have "dispatch_loop g c sid db pool = Some ([], db, pool)"
        using readheader_short [OF h, of ?hs pool] db_size_unread [OF less.prems]
        by (subst dispatch_loop.simps) simp
      then show ?thesis using less.prems by auto
    next
      case l: True
      have hp: "0 < ?hs" using hs by auto
      obtain db1 pool1 where r: "databuffer_read db pool ?hs = Some (take ?hs (unread db), db1, pool1)"
        "db_inv db1" "unread db1 = drop ?hs (unread db)" "keeps_nodes db pool db1 pool1"
        by (rule read_total [OF less.prems hp l, of pool]) blast
      let ?db = "db1\<lparr>header := parse_header (take ?hs (unread db))\<rparr>"
      have "databuffer_readheader db pool ?hs = Some (if db_size ?db < header ?db then -1 else header ?db, ?db, pool1)"
        using h l r(1) db_size_unread [OF less.prems] by (simp add: databuffer_readheader_def)
      then show ?thesis
        by (rule step) (use r l hp in simp_all)
    qed
  qed
qed

section \<open>The gate as a reader of frames\<close>

definition reading :: "nat \<Rightarrow> gate \<Rightarrow> nat \<Rightarrow> gate \<Rightarrow> bool" where
  "reading hs g0 k g \<longleftrightarrow> k < length (conn g) \<and> header_size g = hs
     \<and> db_inv (buffer (conn g ! k)) \<and> header_ok hs (buffer (conn g ! k))
     \<and> has_target g (conn g ! k) \<and> delivery g (conn g ! k) = delivery g0 (conn g0 ! k)"

lemma delivery_cong:
  "broker g' = broker g \<Longrightarrow> watchdog g' = watchdog g \<Longrightarrow> client_tag g' = client_tag g \<Longrightarrow>
   delivery g' (c\<lparr>buffer := b\<rparr>) = delivery g c \<and> has_target g' (c\<lparr>buffer := b\<rparr>) = has_target g c"
  by (simp add: delivery_def has_target_def fun_eq_iff)

lemma dispatch_message_reads:
  assumes hs: "hs = 2 \<or> hs = 4" and r: "reading hs g0 k g"
    and f: "fits hs frame_limit (db_pend hs (buffer (conn g ! k)) @ data)"
  shows "\<exists>g'. dispatch_message k sid data g =
      Some (map (delivery g0 (conn g0 ! k)) (filter (\<lambda>b. b \<noteq> [])
        (fst (split_frames hs (db_pend hs (buffer (conn g ! k)) @ data)))), g')
     \<and> reading hs g0 k g'
     \<and> db_pend hs (buffer (conn g' ! k)) = snd (split_frames hs (db_pend hs (buffer (conn g ! k)) @ data))"
proof -
  let ?c = "conn g ! k"
  from r have k: "k < length (conn g)" "header_size g = hs" "db_inv (buffer ?c)" "header_ok hs (buffer ?c)"
    "has_target g ?c" "delivery g ?c = delivery g0 (conn g0 ! k)" by (auto simp: reading_def)
  obtain db pool where p: "databuffer_push (buffer ?c) (mp g) data = (db, pool)" by fastforce
  note ps = databuffer_push_spec [OF k(3) p]
  have pe: "db_pend hs db = db_pend hs (buffer ?c) @ data" using ps(2,3) by (simp add: db_pend_def)
  have hok: "header_ok hs db" using k(4) ps(3) by (simp add: header_ok_def)
  have hs': "header_size g = 2 \<or> header_size g = 4" using hs k(2) by simp
  from dispatch_loop_spec [OF k(5) hs' ps(1), of sid pool] hok f pe k(2) obtain db' pool' where
    d: "dispatch_loop g ?c sid db pool = Some (map (delivery g ?c) (filter (\<lambda>b. b \<noteq> [])
          (fst (split_frames hs (db_pend hs (buffer ?c) @ data)))), db', pool')"
      "db_inv db'" "header_ok hs db'" "db_pend hs db' = snd (split_frames hs (db_pend hs (buffer ?c) @ data))"
    by auto
  let ?g = "g\<lparr>conn := (conn g)[k := ?c\<lparr>buffer := db'\<rparr>], mp := pool'\<rparr>"
  have "dispatch_message k sid data g = Some (map (delivery g0 (conn g0 ! k)) (filter (\<lambda>b. b \<noteq> [])
        (fst (split_frames hs (db_pend hs (buffer ?c) @ data)))), ?g)"
    using k(1,6) p d(1) by (simp add: dispatch_message_def nth_opt_def)
  moreover have "reading hs g0 k ?g"
    using k d(2,3) delivery_cong [where g' = ?g and g = g and c = ?c and b = db'] by (simp add: reading_def)
  ultimately show ?thesis using d(4) k(1) by auto
qed

interpretation gate_short: frame_reader 2 frame_limit "\<lambda>b. b \<noteq> []" "delivery g0 (conn g0 ! k)"
  "dispatch_message k sid" "\<lambda>g. db_pend 2 (buffer (conn g ! k))" "reading 2 g0 k" "\<lambda>_. True" "\<lambda>_. True" for g0 k sid
  by unfold_locales (simp, rule dispatch_message_reads, simp_all)

interpretation gate_long: frame_reader 4 frame_limit "\<lambda>b. b \<noteq> []" "delivery g0 (conn g0 ! k)"
  "dispatch_message k sid" "\<lambda>g. db_pend 4 (buffer (conn g ! k))" "reading 4 g0 k" "\<lambda>_. True" "\<lambda>_. True" for g0 k sid
  by unfold_locales (simp, rule dispatch_message_reads, simp_all)


definition demo_gate :: gate where
  "demo_gate = gate_create\<lparr>broker := 7, header_size := 2, conn := [empty_connection\<lparr>conn_id := 5\<rparr>]\<rparr>"


section \<open>The gate never fails\<close>

definition conn_nodes :: "gate \<Rightarrow> nat" where
  "conn_nodes g = sum_list (map (\<lambda>c. length (messages (buffer c))) (conn g))"

definition gate_inv :: "gate \<Rightarrow> bool" where [inv_defs]:
  "gate_inv g \<longleftrightarrow> (header_size g = 2 \<or> header_size g = 4) \<and> hashid_inv (conn_hash g)
     \<and> length (conn g) = cap (conn_hash g)
     \<and> (\<forall>c\<in>set (conn g). db_inv (buffer c))
     \<and> (\<forall>sid k. hash_map (conn_hash g) sid = Some k \<longrightarrow> conn_id (conn g ! k) = sid)
     \<and> (\<forall>k<length (conn g). k \<notin> ran (hash_map (conn_hash g)) \<longrightarrow> conn g ! k = empty_connection)
     \<and> mp_inv (conn_nodes g) (mp g)"

lemma hash_map_less: "gate_inv g \<Longrightarrow> hash_map (conn_hash g) sid = Some k \<Longrightarrow> k < length (conn g)"
  using hash_map_Some [of "conn_hash g" sid k] by (auto simp: gate_inv_def used_def hashid_inv_def)

text \<open>Replacing one connection's buffer.\<close>

lemma gate_inv_buffer:
  assumes inv: "gate_inv g" and m: "hash_map (conn_hash g) sid = Some k" and d: "db_inv db'"
    and kn: "keeps_nodes (buffer (conn g ! k)) (mp g) db' pool'"
  shows "gate_inv (g\<lparr>conn := (conn g)[k := (conn g ! k)\<lparr>buffer := db'\<rparr>], mp := pool'\<rparr>)" (is "gate_inv ?g")
proof -
  have k: "k < length (conn g)" by (rule hash_map_less [OF inv m])
  let ?f = "\<lambda>c. length (messages (buffer c))"
  have s: "conn_nodes ?g + ?f (conn g ! k) = conn_nodes g + length (messages db')"
    using sum_list_move [OF k, of ?f "(conn g ! k)\<lparr>buffer := db'\<rparr>"] by (simp add: conn_nodes_def)
  have le: "?f (conn g ! k) \<le> conn_nodes g"
    using sum_list_ge [of "conn g ! k" "conn g" ?f] k by (simp add: conn_nodes_def)
  obtain u where u: "conn_nodes g = u + ?f (conn g ! k)" using le by (metis add.commute le_Suc_ex)
  with s have u': "conn_nodes ?g = u + length (messages db')" by simp
  have "mp_inv (conn_nodes ?g) (mp ?g)"
    using kn inv u u' by (simp add: keeps_nodes_def gate_inv_def)
  moreover have "\<forall>c\<in>set (conn ?g). db_inv (buffer c)"
    using inv d by (auto simp: gate_inv_def dest!: set_update_subset_insert [THEN subsetD])
  moreover have "\<forall>sid' k'. hash_map (conn_hash g) sid' = Some k' \<longrightarrow> conn_id (conn ?g ! k') = sid'"
    using inv k by (auto simp: gate_inv_def nth_list_update)
  moreover have "k \<in> ran (hash_map (conn_hash g))" using m by (rule ranI)
  then have "\<forall>k'<length (conn ?g). k' \<notin> ran (hash_map (conn_hash ?g)) \<longrightarrow> conn ?g ! k' = empty_connection"
  proof -
    assume kr: "k \<in> ran (hash_map (conn_hash g))"
    show ?thesis
    proof (intro allI impI)
      fix k' assume k': "k' < length (conn ?g)" "k' \<notin> ran (hash_map (conn_hash ?g))"
      with kr have "k' \<noteq> k" by auto
      then show "conn ?g ! k' = empty_connection" using k' inv by (simp add: gate_inv_def)
    qed
  qed
  ultimately show ?thesis using inv by (simp add: gate_inv_def)
qed

lemma gate_lookup:
  "gate_inv g \<Longrightarrow> hashid_lookup (conn_hash g) sid = Some (case hash_map (conn_hash g) sid of Some k \<Rightarrow> int k | None \<Rightarrow> -1)"
  by (rule lookup_eval) (simp add: gate_inv_def)

lemma on_data_safe:
  assumes inv: "gate_inv g"
  shows "\<exists>es g'. on_data sid data g = Some (es, g') \<and> gate_inv g'"
proof (cases "hash_map (conn_hash g) sid")
  case None
  then show ?thesis using inv gate_lookup [OF inv, of sid] by (simp add: on_data_def)
next
  case (Some k)
  have k: "k < length (conn g)" by (rule hash_map_less [OF inv Some])
  let ?c = "conn g ! k"
  obtain db pool where p: "databuffer_push (buffer ?c) (mp g) data = (db, pool)" by fastforce
  have "db_inv (buffer ?c)" using inv k by (simp add: gate_inv_def)
  note ps = databuffer_push_spec [OF this p]
  have hs: "header_size g = 2 \<or> header_size g = 4" using inv by (simp add: gate_inv_def)
  from dispatch_loop_total [OF hs ps(1), of ?c sid pool] obtain es db' pool' where
    d: "dispatch_loop g ?c sid db pool = Some (es, db', pool')" "db_inv db'" "keeps_nodes db pool db' pool'" by blast
  have "keeps_nodes (buffer ?c) (mp g) db' pool'"
    using ps(4) d(3) by (simp add: keeps_nodes_def)
  from gate_inv_buffer [OF inv Some d(2) this] show ?thesis
    using Some gate_lookup [OF inv, of sid] k p d(1)
    by (simp add: on_data_def dispatch_message_def nth_opt_def)
qed

lemma on_close_safe:
  assumes inv: "gate_inv g"
  shows "\<exists>es g'. on_close sid g = Some (es, g') \<and> gate_inv g'"
proof -
  let ?h = "snd (the (hashid_remove (conn_hash g) sid))"
  have hi: "hashid_inv (conn_hash g)" using inv by (simp add: gate_inv_def)
  note rm = remove_spec [OF hi, of sid]
  show ?thesis
  proof (cases "hash_map (conn_hash g) sid")
    case None
    then have "on_close sid g = Some ([], g\<lparr>conn_hash := conn_hash g\<rparr>)" using rm(1) by (simp add: on_close_def)
    then show ?thesis using inv by simp
  next
    case (Some k)
    have k: "k < length (conn g)" by (rule hash_map_less [OF inv Some])
    let ?c = "conn g ! k"
    obtain db pool where cl: "databuffer_clear (buffer ?c) (mp g) = (db, pool)" by fastforce
    let ?g = "g\<lparr>conn_hash := ?h, conn := (conn g)[k := empty_connection], mp := pool\<rparr>"
    obtain h where h: "hashid_remove (conn_hash g) sid = Some (int k, h)" "?h = h" using rm(1) Some by auto
    have r: "on_close sid g = Some (report (g\<lparr>conn_hash := ?h\<rparr>) (dec sid @ lit '' close''), ?g)"
      unfolding h(2) using h(1) k cl by (simp add: on_close_def nth_opt_def Let_def)
    let ?f = "\<lambda>c. length (messages (buffer c))"
    have "conn_nodes ?g + ?f ?c = conn_nodes g"
      using sum_list_move [OF k, of ?f empty_connection] by (simp add: conn_nodes_def empty_connection_def)
    then have "mp_inv (conn_nodes ?g) pool"
      using databuffer_clear_spec [OF cl, of "conn_nodes ?g"] inv by (simp add: gate_inv_def)
    moreover have "\<forall>c\<in>set (conn ?g). db_inv (buffer c)"
      using inv by (auto simp: gate_inv_def empty_connection_def dest!: set_update_subset_insert [THEN subsetD])
    moreover have "conn_id (conn ?g ! k') = sid'" if "hash_map ?h sid' = Some k'" for sid' k'
    proof -
      from that rm(3) have o: "sid' \<noteq> sid" "hash_map (conn_hash g) sid' = Some k'" by (auto split: if_splits)
      have "k' \<noteq> k"
        using o Some inv hash_map_Some [OF hi, of sid k] hash_map_Some [OF hi, of sid' k'] by auto
      then show ?thesis using o(2) inv by (simp add: gate_inv_def)
    qed
    moreover have "conn ?g ! k' = empty_connection" if "k' < length (conn g)" "k' \<notin> ran (hash_map ?h)" for k'
    proof (cases "k' = k")
      case False
      then have "k' \<notin> ran (hash_map (conn_hash g))"
      proof -
        have "hash_map (conn_hash g) a \<noteq> Some k'" for a
        proof
          assume a: "hash_map (conn_hash g) a = Some k'"
          then have "a \<noteq> sid" using False Some by auto
          then have "hash_map ?h a = Some k'" using a rm(3) by simp
          then show False using that(2) by (auto simp: ran_def)
        qed
        then show ?thesis by (auto simp: ran_def)
      qed
      then show ?thesis using False that(1) inv by (simp add: gate_inv_def)
    qed (use k in simp)
    ultimately have "gate_inv ?g" using inv rm(2,4) by (simp add: gate_inv_def)
    then show ?thesis using r by blast
  qed
qed

lemma on_accept_safe:
  assumes inv: "gate_inv g" and sid: "sid = listen_id g"
    and ud: "0 \<le> ud" "ud \<notin> dom (hash_map (conn_hash g))"
  shows "\<exists>es g'. on_accept sid ud addr g = Some (es, g') \<and> gate_inv g'"
proof (cases "hashid_full (conn_hash g)")
  case True
  then show ?thesis using inv sid by (simp add: on_accept_def)
next
  case False
  have hi: "hashid_inv (conn_hash g)" using inv by (simp add: gate_inv_def)
  from insert_spec [OF hi False ud] obtain k h where
    h: "hashid_insert (conn_hash g) ud = Some (k, h)" "hashid_inv h" "k < cap (conn_hash g)"
      "k \<notin> ran (hash_map (conn_hash g))" "hash_map h = (hash_map (conn_hash g))(ud \<mapsto> k)"
      "cap h = cap (conn_hash g)" by blast
  have k: "k < length (conn g)" using h(3) inv by (simp add: gate_inv_def)
  have e: "conn g ! k = empty_connection" using h(4) k inv by (simp add: gate_inv_def)
  let ?c = "empty_connection\<lparr>conn_id := ud, remote_name := upto_nul (take 31 addr)\<rparr>"
  let ?g = "g\<lparr>conn_hash := h, conn := (conn g)[k := ?c]\<rparr>"
  have r: "\<exists>es. on_accept sid ud addr g = Some (es, ?g)"
    using sid False h(1) k e by (simp add: on_accept_def nth_opt_def assert_opt_def Let_def)
  let ?f = "\<lambda>c. length (messages (buffer c))"
  have "conn_nodes ?g = conn_nodes g"
    using sum_list_move [OF k, of ?f ?c] e by (simp add: conn_nodes_def empty_connection_def)
  moreover have "\<forall>c\<in>set (conn ?g). db_inv (buffer c)"
    using inv by (auto simp: gate_inv_def empty_connection_def dest!: set_update_subset_insert [THEN subsetD])
  moreover have "conn_id (conn ?g ! k') = sid'" if "hash_map h sid' = Some k'" for sid' k'
  proof (cases "sid' = ud")
    case True
    then show ?thesis using that h(5) k by simp
  next
    case False
    then have o: "hash_map (conn_hash g) sid' = Some k'" using that h(5) by simp
    then have "k' \<noteq> k" using h(4) by (auto simp: ran_def)
    then show ?thesis using o inv by (simp add: gate_inv_def)
  qed
  moreover have "conn ?g ! k' = empty_connection" if "k' < length (conn g)" "k' \<notin> ran (hash_map h)" for k'
  proof -
    have "hash_map h ud = Some k" using h(5) by simp
    then have "k \<in> ran (hash_map h)" by (rule ranI)
    then have n: "k' \<noteq> k" using that(2) by auto
    have "k' \<notin> ran (hash_map (conn_hash g))"
    proof
      assume "k' \<in> ran (hash_map (conn_hash g))"
      then obtain a where a: "hash_map (conn_hash g) a = Some k'" by (auto simp: ran_def)
      then have "a \<noteq> ud" using ud(2) by auto
      then have "hash_map h a = Some k'" using a h(5) by simp
      then show False using that(2) by (auto simp: ran_def)
    qed
    then show ?thesis using n that(1) inv by (simp add: gate_inv_def)
  qed
  ultimately have "gate_inv ?g" using inv h(2,6) by (simp add: gate_inv_def)
  then show ?thesis using r by blast
qed

text \<open>What the socket layer promises about the events it reports.\<close>

fun event_ok :: "gate \<Rightarrow> socket_event \<Rightarrow> bool" where
  "event_ok g (SAccept sid ud addr) \<longleftrightarrow> sid = listen_id g \<and> 0 \<le> ud \<and> ud \<notin> dom (hash_map (conn_hash g))"
| "event_ok g _ \<longleftrightarrow> True"

lemma socket_message_safe:
  assumes "gate_inv g" "event_ok g ev"
  shows "\<exists>es g'. dispatch_socket_message ev g = Some (es, g') \<and> gate_inv g'"
  using assms
proof (cases ev)
  case (SConnect sid)
  then show ?thesis using assms(1) gate_lookup [of g sid] by (simp add: on_connect_def)
qed (simp_all add: on_data_safe on_close_safe on_accept_safe)

lemma forward_agent_safe:
  assumes inv: "gate_inv g"
  shows "\<exists>g'. forward_agent g fd a c = Some g' \<and> gate_inv g'"
proof (cases "hash_map (conn_hash g) fd")
  case None
  then show ?thesis using inv gate_lookup [OF inv, of fd] by (simp add: forward_agent_def)
next
  case (Some k)
  have k: "k < length (conn g)" by (rule hash_map_less [OF inv Some])
  let ?g = "g\<lparr>conn := (conn g)[k := (conn g ! k)\<lparr>agent := a, client := c\<rparr>]\<rparr>"
  have "conn_nodes ?g = conn_nodes g"
    using sum_list_move [OF k, of "\<lambda>c. length (messages (buffer c))" "(conn g ! k)\<lparr>agent := a, client := c\<rparr>"]
    by (simp add: conn_nodes_def)
  moreover have "\<forall>c\<in>set (conn ?g). db_inv (buffer c)"
    using inv k by (auto simp: gate_inv_def dest!: set_update_subset_insert [THEN subsetD])
  moreover have "\<forall>sid' k'. hash_map (conn_hash g) sid' = Some k' \<longrightarrow> conn_id (conn ?g ! k') = sid'"
    using inv k by (auto simp: gate_inv_def nth_list_update)
  moreover have "conn ?g ! k' = empty_connection" if "k' < length (conn g)" "k' \<notin> ran (hash_map (conn_hash g))" for k'
  proof -
    have "k' \<noteq> k" using that(2) Some by (auto simp: ran_def)
    then show ?thesis using that inv by (simp add: gate_inv_def)
  qed
  ultimately have "gate_inv ?g" using inv by (simp add: gate_inv_def)
  then show ?thesis using Some gate_lookup [OF inv, of fd] k by (simp add: forward_agent_def nth_opt_def)
qed

lemma ctrl_safe:
  assumes inv: "gate_inv g"
  shows "\<exists>es g'. ctrl queryname msg g = Some (es, g') \<and> gate_inv g'"
proof -
  have uid: "\<exists>es. ctrl_uid eff buf g = Some es" for eff buf
    using gate_lookup [OF inv] by (simp add: ctrl_uid_def Let_def)
  have fw: "\<exists>g'. ctrl_forward buf g = Some g' \<and> gate_inv g'" for buf
    using inv forward_agent_safe [OF inv] by (auto simp: ctrl_forward_def split: prod.splits option.splits)
  have upd: "gate_inv (g\<lparr>broker := b\<rparr>)" "gate_inv (g\<lparr>listen_id := l\<rparr>)" for b l
    using inv by (simp_all add: gate_inv_def conn_nodes_def)
  let ?i = "length (takeWhile (\<lambda>b. b \<noteq> 32) msg)"
  show ?thesis
    using uid [of Sock_close "parm msg ?i"] uid [of Sock_start "parm msg ?i"] fw [of "parm msg ?i"] inv upd
    by (auto simp: ctrl_def Let_def split: if_splits)
qed

fun message_ok :: "gate \<Rightarrow> gate_message \<Rightarrow> bool" where
  "message_ok g (Socket ev) \<longleftrightarrow> event_ok g ev"
| "message_ok g _ \<longleftrightarrow> True"


text \<open>A gate as \<open>gate_init\<close> leaves it.\<close>

lemma gate_init_inv:
  assumes "gate_init queryname listen pr gate_create = (0, es, g)"
  shows "gate_inv g"
proof -
  from assms obtain p h wd binding tag m where
    p: "pr = Some p" "scan_parm p = Some (h, wd, binding, tag, m)" "0 < m"
    by (auto simp: gate_init_def split: option.splits prod.splits if_splits)
  have sl: "start_listen listen b g0 = (0, es, g) \<Longrightarrow> \<exists>l. g = g0\<lparr>listen_id := l\<rparr>" for b g0
    by (auto simp: start_listen_def Let_def split: prod.splits if_splits)
  from assms p obtain w tag' l where
    g: "g = gate_create\<lparr>watchdog := w, conn_hash := hashid_init (nat m), conn := replicate (nat m) empty_connection,
        max_connection := nat m, client_tag := tag', header_size := (if h = 83 then 2 else 4), listen_id := l\<rparr>"
    by (auto simp: gate_init_def Let_def split: if_splits dest!: sl)
  have "0 < nat m" using p(3) by simp
  note hi = hashid_init_inv [OF this]
  have "conn_nodes g = 0" by (simp add: conn_nodes_def g sum_list_0_iff empty_connection_def)
  then show ?thesis using hi by (simp add: gate_inv_def g empty_connection_def gate_create_def mp_inv_def)
qed

text \<open>\<open>S w 8888 0 2\<close>: two-byte headers, a watchdog, port 8888, two connections.\<close>

definition new_gate_parm :: cstr where
  "new_gate_parm = [83, 32, 119, 32, 56, 56, 56, 56, 32, 48, 32, 50]"

definition new_gate :: gate where
  "new_gate = snd (snd (gate_init (\<lambda>_. 9) (\<lambda>_ _ _. 3) (Some new_gate_parm) gate_create))"

lemma new_gate_inv: "gate_inv new_gate"
proof -
  have "fst (gate_init (\<lambda>_. 9) (\<lambda>_ _ _. 3) (Some new_gate_parm) gate_create) = 0"
    by code_simp
  then have "gate_init (\<lambda>_. 9) (\<lambda>_ _ _. 3) (Some new_gate_parm) gate_create = (0, fst (snd (gate_init (\<lambda>_. 9) (\<lambda>_ _ _. 3) (Some new_gate_parm) gate_create)), new_gate)"
    by (metis new_gate_def prod.collapse)
  then show ?thesis by (rule gate_init_inv)
qed


section \<open>What the gate does not handle\<close>

text \<open>A four-byte header of 2^31 or more is read as a negative length: it escapes the check
  for messages over 16M, and from then on the connection is stuck. Whatever arrives later is
  appended to the buffer, nothing is ever forwarded and the connection is not closed.\<close>

lemma negative_header_stuck:
  assumes inv: "db_inv (buffer (conn g ! k))" and k: "k < length (conn g)" and h: "header (buffer (conn g ! k)) < 0"
  shows "\<exists>g'. dispatch_message k sid data g = Some ([], g')
     \<and> header (buffer (conn g' ! k)) < 0
     \<and> unread (buffer (conn g' ! k)) = unread (buffer (conn g ! k)) @ data"
proof -
  obtain db pool where p: "databuffer_push (buffer (conn g ! k)) (mp g) data = (db, pool)" by fastforce
  note ps = databuffer_push_spec [OF inv p]
  have "header db \<noteq> 0" "header db < 0" using ps(3) h by simp_all
  then have "dispatch_loop g (conn g ! k) sid db pool = Some ([], db, pool)"
    using readheader_known [of db pool "header_size g"] by (subst dispatch_loop.simps) simp
  then show ?thesis using k p ps h by (simp add: dispatch_message_def nth_opt_def)
qed

definition long_gate :: gate where
  "long_gate = gate_create\<lparr>broker := 7, header_size := 4,
     conn := [empty_connection\<lparr>buffer := databuffer_zero\<lparr>header := parse_header [0x80, 0, 0, 5]\<rparr>\<rparr>]\<rparr>"

theorem negative_header_stuck_witness:
  "(db_inv (buffer (conn long_gate ! 0)) \<and> header (buffer (conn long_gate ! 0)) < 0
    \<and> feed_all (dispatch_message 0 5) [[0x80, 0, 0, 5]] (long_gate\<lparr>conn := [empty_connection]\<rparr>)
      = Some ([], long_gate\<lparr>mp := \<lparr>mp_blocks = 1, mp_free = 1023\<rparr>\<rparr>))
   \<and> (\<exists>g'. dispatch_message 0 5 [1, 2, 3] long_gate = Some ([], g') \<and> header (buffer (conn g' ! 0)) < 0)"
proof
  have h: "parse_header [0x80, 0, 0, 5] = - 2147483643" by code_simp
  have d: "dispatch_loop (long_gate\<lparr>conn := [empty_connection]\<rparr>) empty_connection 5
      \<lparr>header = 0, offset = 0, db_size = 4, messages = [[0x80, 0, 0, 5]]\<rparr> \<lparr>mp_blocks = 1, mp_free = 1022\<rparr>
     = Some ([], databuffer_zero\<lparr>header := parse_header [0x80, 0, 0, 5]\<rparr>, \<lparr>mp_blocks = 1, mp_free = 1023\<rparr>)"
    by (subst dispatch_loop.simps) (simp add: databuffer_readheader_def databuffer_read_def read_loop.simps
        long_gate_def assert_opt_def Let_def return_message_def h databuffer_zero_def)
  show a: "db_inv (buffer (conn long_gate ! 0)) \<and> header (buffer (conn long_gate ! 0)) < 0
    \<and> feed_all (dispatch_message 0 5) [[0x80, 0, 0, 5]] (long_gate\<lparr>conn := [empty_connection]\<rparr>)
      = Some ([], long_gate\<lparr>mp := \<lparr>mp_blocks = 1, mp_free = 1023\<rparr>\<rparr>)"
    using d by (simp add: long_gate_def h dispatch_message_def nth_opt_def databuffer_push_def empty_connection_def
        databuffer_zero_def gate_create_def MESSAGEPOOL_def db_inv_def unread_def)
  show "\<exists>g'. dispatch_message 0 5 [1, 2, 3] long_gate = Some ([], g') \<and> header (buffer (conn g' ! 0)) < 0"
    using negative_header_stuck [of long_gate 0 5 "[1, 2, 3]"] a by (auto simp: long_gate_def)
qed

definition quiet_gate :: gate where
  "quiet_gate = gate_create\<lparr>client_tag := 3, header_size := 2, conn := [empty_connection\<lparr>conn_id := 5\<rparr>]\<rparr>"

definition with_agent :: "gate \<Rightarrow> gate" where
  "with_agent g = g\<lparr>conn := (conn g)[0 := (conn g ! 0)\<lparr>agent := 8\<rparr>]\<rparr>"

text \<open>While a connection has neither broker nor agent nor watchdog, \<open>_forward\<close> leaves the body
  of a message in the buffer although its header is gone, so the body is read as the next
  header. Here the client sends the message \<open>[0, 4]\<close>, then an agent takes over and the
  client sends \<open>[7, 8]\<close>: the agent gets the bytes \<open>[0, 2, 7, 8]\<close>, a header among them.\<close>

theorem unforwarded_body_misframes:
  "\<exists>g1 g2. dispatch_message 0 5 (frame 2 [0, 4]) quiet_gate = Some ([], g1)
     \<and> dispatch_message 0 5 (frame 2 [7, 8]) (with_agent g1) = Some ([Send 0 8 (3 OR PTYPE_TAG_DONTCOPY) 0 [0, 2, 7, 8]], g2)"
proof -
  let ?c = "empty_connection\<lparr>conn_id := 5\<rparr>"
  have f: "frame 2 [0, 4] = [0, 2, 0, 4]" "frame 2 [7, 8] = [0, 2, 7, 8]" by code_simp+
  have h: "parse_header [0, 2] = 2" "parse_header [0, 4] = 4" by code_simp+
  let ?db = "\<lparr>header = 4, offset = 0, db_size = 0, messages = []\<rparr>" and ?pool = "\<lparr>mp_blocks = 1, mp_free = 1023\<rparr>"
  let ?db2 = "\<lparr>header = 0, offset = Suc (Suc 0), db_size = 2, messages = [[0, 2, 0, 4]]\<rparr>"
  have 2: "dispatch_loop quiet_gate ?c 5 ?db2 \<lparr>mp_blocks = 1, mp_free = 1022\<rparr> = Some ([], ?db, ?pool)"
    by (subst dispatch_loop.simps) (simp add: databuffer_readheader_def databuffer_read_def read_loop.simps
        quiet_gate_def assert_opt_def Let_def return_message_def h)
  have 1: "dispatch_loop quiet_gate ?c 5 \<lparr>header = 0, offset = 0, db_size = 4, messages = [[0, 2, 0, 4]]\<rparr>
      \<lparr>mp_blocks = 1, mp_free = 1022\<rparr> = Some ([], ?db, ?pool)"
    using 2 by (subst dispatch_loop.simps) (simp add: databuffer_readheader_def databuffer_read_def read_loop.simps
        quiet_gate_def assert_opt_def Let_def return_message_def h forward_def gate_create_def
        empty_connection_def databuffer_reset_def)
  let ?g1 = "quiet_gate\<lparr>conn := [?c\<lparr>buffer := ?db\<rparr>], mp := ?pool\<rparr>"
  have g1: "dispatch_message 0 5 (frame 2 [0, 4]) quiet_gate = Some ([], ?g1)"
    using 1 by (simp add: f dispatch_message_def nth_opt_def databuffer_push_def quiet_gate_def gate_create_def
        empty_connection_def databuffer_zero_def MESSAGEPOOL_def)
  let ?g = "with_agent ?g1"
  have 4: "dispatch_loop ?g (conn ?g ! 0) 5 \<lparr>header = 0, offset = 0, db_size = 0, messages = []\<rparr> ?pool
      = Some ([], \<lparr>header = 0, offset = 0, db_size = 0, messages = []\<rparr>, ?pool)"
    by (subst dispatch_loop.simps) (simp add: databuffer_readheader_def with_agent_def quiet_gate_def)
  have 3: "dispatch_loop ?g (conn ?g ! 0) 5 \<lparr>header = 4, offset = 0, db_size = 4, messages = [[0, 2, 7, 8]]\<rparr>
      \<lparr>mp_blocks = 1, mp_free = 1022\<rparr>
     = Some ([Send 0 8 (3 OR PTYPE_TAG_DONTCOPY) 0 [0, 2, 7, 8]], \<lparr>header = 0, offset = 0, db_size = 0, messages = []\<rparr>, ?pool)"
    using 4 by (subst dispatch_loop.simps) (simp add: databuffer_readheader_def databuffer_read_def read_loop.simps
        quiet_gate_def with_agent_def assert_opt_def Let_def return_message_def forward_def gate_create_def
        empty_connection_def databuffer_reset_def)
  have "\<exists>g2. dispatch_message 0 5 (frame 2 [7, 8]) ?g = Some ([Send 0 8 (3 OR PTYPE_TAG_DONTCOPY) 0 [0, 2, 7, 8]], g2)"
    using 3 by (simp add: f dispatch_message_def nth_opt_def databuffer_push_def quiet_gate_def with_agent_def MESSAGEPOOL_def)
  with g1 show ?thesis by blast
qed

end
