(* ===== verification/Netpack.thy ===== *)
theory Netpack
  imports Framing Fifo
begin

unbundle bit_operations_syntax

text \<open>
  \<^verbatim>\<open>lualib-src/lua-netpack.c\<close>: the packer of the Lua gate. It cuts the byte streams of all
  connections into messages with a two-byte length; unfinished messages wait in a hash
  table, finished ones in a ring that the Lua side empties with \<open>lpop\<close>. The queue is the
  first argument on the Lua stack, \<open>None\<close> for a null pointer; a chain of the hash table is a
  list. Of the buffer of an unfinished message we keep the bytes filled in so far.
\<close>

section \<open>The model\<close>

definition QUEUESIZE :: nat where "QUEUESIZE = 1024"
definition HASHSIZE :: nat where "HASHSIZE = 4096"

record netpack =
  np_id :: int
  np_buffer :: bytes

record uncomplete =
  uc_id :: int
  uc_size :: int
  uc_buffer :: bytes
  uc_read :: int
  uc_header :: int

record queue =
  cap :: nat
  head :: nat
  tail :: nat
  hash :: "nat \<Rightarrow> uncomplete list"
  items :: "netpack list"

definition blank_pack :: netpack where "blank_pack = \<lparr>np_id = 0, np_buffer = []\<rparr>"

definition new_queue :: queue where
  "new_queue = \<lparr>cap = QUEUESIZE, head = 0, tail = 0, hash = (\<lambda>_. []), items = replicate QUEUESIZE blank_pack\<rparr>"

definition get_queue :: "queue option \<Rightarrow> queue" where
  "get_queue q = (case q of Some q \<Rightarrow> q | None \<Rightarrow> new_queue)"

definition lclear :: "queue option \<Rightarrow> queue option" where
  "lclear q = map_option (\<lambda>q. q\<lparr>hash := (\<lambda>i. if i < HASHSIZE then [] else hash q i), head := 0, tail := 0\<rparr>) q"

definition hash_fd :: "int \<Rightarrow> nat" where
  "hash_fd fd = unat (word_of_int (drop_bit 24 fd + drop_bit 12 fd + fd) :: u32) mod HASHSIZE"

text \<open>The unfinished message of a connection is taken out of its chain.\<close>

fun take_id :: "int \<Rightarrow> uncomplete list \<Rightarrow> (uncomplete \<times> uncomplete list) option" where
  "take_id fd [] = None"
| "take_id fd (uc # us) =
     (if uc_id uc = fd then Some (uc, us)
      else map_option (\<lambda>(u, r). (u, uc # r)) (take_id fd us))"

definition find_uncomplete :: "queue option \<Rightarrow> int \<Rightarrow> (uncomplete \<times> queue) option" where
  "find_uncomplete q fd =
     (case q of
        None \<Rightarrow> None
      | Some q \<Rightarrow>
          let h = hash_fd fd in
          map_option (\<lambda>(uc, us). (uc, q\<lparr>hash := (hash q)(h := us)\<rparr>)) (take_id fd (hash q h)))"

definition add_uncomplete :: "uncomplete \<Rightarrow> queue \<Rightarrow> queue" where
  "add_uncomplete uc q = (let h = hash_fd (uc_id uc) in q\<lparr>hash := (hash q)(h := uc # hash q h)\<rparr>)"

definition expand_queue :: "queue \<Rightarrow> queue" where
  "expand_queue q =
     \<lparr>cap = cap q + QUEUESIZE, head = 0, tail = cap q, hash = hash q,
      items = map (\<lambda>i. items q ! ((head q + i) mod cap q)) [0..<cap q] @ replicate QUEUESIZE blank_pack\<rparr>"

definition push_data :: "netpack \<Rightarrow> queue \<Rightarrow> queue option" where
  "push_data np q = do {
     is \<leftarrow> upd_opt (items q) (tail q) np;
     let t = (if Suc (tail q) \<ge> cap q then Suc (tail q) - cap q else Suc (tail q));
     let q' = q\<lparr>items := is, tail := t\<rparr>;
     Some (if head q' = tail q' then expand_queue q' else q')
   }"

definition lpop :: "queue \<Rightarrow> (netpack option \<times> queue) option" where
  "lpop q =
     (if head q = tail q then Some (None, q)
      else do {
        np \<leftarrow> nth_opt (items q) (head q);
        Some (Some np, q\<lparr>head := (if Suc (head q) \<ge> cap q then 0 else Suc (head q))\<rparr>)
      })"

definition read_size :: "bytes \<Rightarrow> nat" where
  "read_size b = unat (push_bit 8 (ucast (b ! 0)) OR ucast (b ! 1) :: u32)"

text \<open>\<open>save_uncomplete\<close> and the assignments that follow each of its calls: one byte of the length
  known, or the length and some bytes of the body.\<close>

definition save_header :: "int \<Rightarrow> u8 \<Rightarrow> queue \<Rightarrow> queue" where
  "save_header fd b q = add_uncomplete \<lparr>uc_id = fd, uc_size = 0, uc_buffer = [], uc_read = -1, uc_header = uint b\<rparr> q"

definition save_body :: "int \<Rightarrow> nat \<Rightarrow> bytes \<Rightarrow> queue \<Rightarrow> queue" where
  "save_body fd n bs q =
     add_uncomplete \<lparr>uc_id = fd, uc_size = int n, uc_buffer = bs, uc_read = int (length bs), uc_header = 0\<rparr> q"

function push_more :: "int \<Rightarrow> bytes \<Rightarrow> queue \<Rightarrow> queue option" where
  "push_more fd buffer q =
     (if buffer = [] then None
      else if length buffer = 1 then Some (save_header fd (buffer ! 0) q)
      else
        let pack_size = read_size buffer; rest = drop 2 buffer in
        if length rest < pack_size then Some (save_body fd pack_size rest q)
        else
          (case push_data \<lparr>np_id = fd, np_buffer = take pack_size rest\<rparr> q of
             None \<Rightarrow> None
           | Some q' \<Rightarrow>
               if drop pack_size rest \<noteq> [] then push_more fd (drop pack_size rest) q' else Some q'))"
  by pat_completeness auto
termination by (relation "measure (\<lambda>(fd, b, q). length b)") auto

declare push_more.simps [simp del]

definition close_uncomplete :: "int \<Rightarrow> queue option \<Rightarrow> queue option" where
  "close_uncomplete fd q = (case find_uncomplete q fd of None \<Rightarrow> q | Some (_, q') \<Rightarrow> Some q')"

datatype filter_result =
    R_none
  | R_data int bytes
  | R_more
  | R_error int bytes
  | R_open int bytes
  | R_close int
  | R_warning int int

text \<open>The first part of \<open>filter_data_\<close>: the second byte of the length, when only the first was there.\<close>

definition fill_header :: "uncomplete \<Rightarrow> bytes \<Rightarrow> (uncomplete \<times> bytes) option" where
  "fill_header uc buffer =
     (if uc_read uc < 0 then do {
        assert_opt (uc_read uc = -1 \<and> buffer \<noteq> []);
        let pack_size = uint (hd buffer) OR push_bit 8 (uc_header uc);
        Some (uc\<lparr>uc_size := pack_size, uc_buffer := [], uc_read := 0\<rparr>, tl buffer)
      } else Some (uc, buffer))"

definition filter_data :: "int \<Rightarrow> bytes \<Rightarrow> queue option \<Rightarrow> (filter_result \<times> queue option) option" where
  "filter_data fd buffer q =
     (case find_uncomplete q fd of
        Some (uc0, q1) \<Rightarrow> do {
          (uc, b) \<leftarrow> fill_header uc0 buffer;
          let need = uc_size uc - uc_read uc;
          if int (length b) < need then
            Some (R_none, Some (add_uncomplete (uc\<lparr>uc_buffer := uc_buffer uc @ b, uc_read := uc_read uc + int (length b)\<rparr>) q1))
          else
            let pack = uc_buffer uc @ take (nat need) b; rest = drop (nat need) b in
            if rest = [] then Some (R_data fd pack, Some q1)
            else do {
              q2 \<leftarrow> push_data \<lparr>np_id = fd, np_buffer = pack\<rparr> q1;
              q3 \<leftarrow> push_more fd rest q2;
              Some (R_more, Some q3)
            }
        }
      | None \<Rightarrow>
          if buffer = [] then None
          else if length buffer = 1 then Some (R_none, Some (save_header fd (buffer ! 0) (get_queue q)))
          else
            let pack_size = read_size buffer; rest = drop 2 buffer in
            if length rest < pack_size then Some (R_none, Some (save_body fd pack_size rest (get_queue q)))
            else if length rest = pack_size then Some (R_data fd rest, q)
            else do {
              q2 \<leftarrow> push_data \<lparr>np_id = fd, np_buffer = take pack_size rest\<rparr> (get_queue q);
              q3 \<leftarrow> push_more fd (drop pack_size rest) q2;
              Some (R_more, Some q3)
            })"

datatype socket_message = M_data int bytes | M_connect int | M_close int | M_accept int int bytes
  | M_error int bytes | M_warning int int

fun lfilter :: "socket_message \<Rightarrow> queue option \<Rightarrow> (filter_result \<times> queue option) option" where
  "lfilter (M_data fd b) q = filter_data fd b q"
| "lfilter (M_connect fd) q = Some (R_none, q)"
| "lfilter (M_close fd) q = Some (R_close fd, close_uncomplete fd q)"
| "lfilter (M_accept fd ud addr) q = Some (R_open ud addr, q)"
| "lfilter (M_error fd err) q = Some (R_error fd err, close_uncomplete fd q)"
| "lfilter (M_warning fd ud) q = Some (R_warning fd ud, q)"

definition write_size :: "nat \<Rightarrow> bytes" where
  "write_size len = [ucast (drop_bit 8 (of_nat len :: u32) AND 0xff), ucast ((of_nat len :: u32) AND 0xff)]"

text \<open>\<open>Inl\<close> is the Lua error.\<close>

definition lpack :: "bytes \<Rightarrow> string + bytes" where
  "lpack b = (if length b \<ge> 0x10000 then Inl ''Invalid size (too long) of data : %d'' else Inr (write_size (length b) @ b))"

section \<open>The ring is a queue\<close>

definition net_list :: "queue \<Rightarrow> netpack list" where
  "net_list q = ring_slice (items q) (head q) ((tail q + cap q - head q) mod cap q)"

definition net_inv :: "queue \<Rightarrow> bool" where [inv_defs]:
  "net_inv q \<longleftrightarrow> 1 < cap q \<and> length (items q) = cap q \<and> head q < cap q \<and> tail q < cap q"

lemma net_list_empty: "net_inv q \<Longrightarrow> net_list q = [] \<longleftrightarrow> head q = tail q"
  by (auto simp: net_list_def net_inv_def ring_count simp flip: length_0_conv split: if_splits)

lemma net_list_expand:
  "net_list (expand_queue q) = map (\<lambda>i. items q ! ((head q + i) mod cap q)) [0..<cap q]"
proof -
  have "0 < QUEUESIZE" by (simp add: QUEUESIZE_def)
  then have "(cap q + (cap q + QUEUESIZE) - 0) mod (cap q + QUEUESIZE) = cap q"
    unfolding diff_zero mod_add_self2 by simp
  then show ?thesis by (simp add: net_list_def expand_queue_def ring_slice_take)
qed

lemma push_data_spec:
  assumes inv: "net_inv q"
  shows "\<exists>q'. push_data np q = Some q' \<and> net_inv q' \<and> net_list q' = net_list q @ [np] \<and> hash q' = hash q"
proof -
  let ?c = "cap q" and ?h = "head q" and ?t = "tail q"
  let ?n = "(?t + ?c - ?h) mod ?c"
  let ?is = "(items q)[?t := np]" and ?t' = "if Suc ?t \<ge> ?c then Suc ?t - ?c else Suc ?t"
  have c: "1 < ?c" "length (items q) = ?c" "?h < ?c" "?t < ?c" using inv by (auto simp: net_inv_def)
  have n: "?n < length (items q)" using c by simp
  have ht: "(?h + ?n) mod length (items q) = ?t" using c by (simp add: ring_count mod_if)
  have sl: "ring_slice ?is ?h (Suc ?n) = net_list q @ [np]"
    using ring_slice_snoc [of ?h "items q" ?n np] ht c n by (simp add: net_list_def)
  have r: "push_data np q = Some (if ?h = ?t' then expand_queue (q\<lparr>items := ?is, tail := ?t'\<rparr>) else q\<lparr>items := ?is, tail := ?t'\<rparr>)"
    using c by (simp add: push_data_def upd_opt_def Let_def)
  show ?thesis
  proof (cases "?h = ?t'")
    case False
    have "(?t' + ?c - ?h) mod ?c = Suc ?n" using c False by (auto simp: ring_count mod_if)
    then show ?thesis using r False c sl by (simp add: net_inv_def net_list_def)
  next
    case True
    have sn: "Suc ?n = ?c" using c True by (auto simp: ring_count split: if_splits)
    let ?q = "expand_queue (q\<lparr>items := ?is, tail := ?t'\<rparr>)"
    have "net_list ?q = map (\<lambda>i. ?is ! ((?h + i) mod ?c)) [0..<?c]"
      using net_list_expand [of "q\<lparr>items := ?is, tail := ?t'\<rparr>"] c by simp
    also have "\<dots> = ring_slice ?is ?h (Suc ?n)" unfolding sn using c by (simp add: ring_slice_def)
    finally have "net_list ?q = net_list q @ [np]" using sl by simp
    moreover have "net_inv ?q" using c by (simp add: net_inv_def expand_queue_def QUEUESIZE_def)
    ultimately show ?thesis using r True by (simp add: expand_queue_def)
  qed
qed

lemma lpop_spec:
  assumes inv: "net_inv q"
  shows "net_list q = [] \<Longrightarrow> lpop q = Some (None, q)"
    and "net_list q = x # xs \<Longrightarrow> \<exists>q'. lpop q = Some (Some x, q') \<and> net_inv q' \<and> net_list q' = xs \<and> hash q' = hash q"
proof -
  show "net_list q = [] \<Longrightarrow> lpop q = Some (None, q)" using net_list_empty [OF inv] by (simp add: lpop_def)
  assume l: "net_list q = x # xs"
  let ?c = "cap q" and ?h = "head q" and ?t = "tail q"
  let ?h' = "if Suc ?h \<ge> ?c then 0 else Suc ?h"
  have c: "1 < ?c" "length (items q) = ?c" "?h < ?c" "?t < ?c" using inv by (auto simp: net_inv_def)
  have ne: "?h \<noteq> ?t" using net_list_empty [OF inv] l by auto
  have n: "(?t + ?c - ?h) mod ?c = Suc ((?t + ?c - ?h') mod ?c)"
    using c ne by (auto simp: ring_count mod_if)
  have hm: "Suc ?h mod length (items q) = ?h'" using c by (simp add: mod_if)
  have "net_list q = items q ! ?h # ring_slice (items q) ?h' ((?t + ?c - ?h') mod ?c)"
    unfolding net_list_def n using ring_slice_Cons [of ?h "items q"] c hm by simp
  then have x: "x = items q ! ?h" "xs = net_list (q\<lparr>head := ?h'\<rparr>)"
    using l by (simp_all add: net_list_def)
  have "lpop q = Some (Some x, q\<lparr>head := ?h'\<rparr>)" using ne c x(1) by (simp add: lpop_def nth_opt_def)
  moreover have "net_inv (q\<lparr>head := ?h'\<rparr>)" using c by (auto simp: net_inv_def)
  ultimately show "\<exists>q'. lpop q = Some (Some x, q') \<and> net_inv q' \<and> net_list q' = xs \<and> hash q' = hash q"
    using x(2) by simp
qed

interpretation net_ring: fifo push_data lpop net_list net_inv
proof
  fix q np x xs
  assume inv: "net_inv q"
  show "\<exists>q'. push_data np q = Some q' \<and> net_inv q' \<and> net_list q' = net_list q @ [np]"
    using push_data_spec [OF inv] by blast
  show "net_list q = [] \<Longrightarrow> \<exists>q'. lpop q = Some (None, q') \<and> net_inv q' \<and> net_list q' = []"
    using lpop_spec(1) [OF inv] inv by auto
  show "net_list q = x # xs \<Longrightarrow> \<exists>q'. lpop q = Some (Some x, q') \<and> net_inv q' \<and> net_list q' = xs"
    using lpop_spec(2) [OF inv] by blast
qed

section \<open>The unfinished messages\<close>

text \<open>The bytes of the stream an unfinished message stands for.\<close>

definition uc_bytes :: "uncomplete \<Rightarrow> bytes" where
  "uc_bytes uc = (if uc_read uc < 0 then [word_of_int (uc_header uc)] else be_bytes 2 (nat (uc_size uc)) @ uc_buffer uc)"

definition uc_ok :: "uncomplete \<Rightarrow> bool" where
  "uc_ok uc \<longleftrightarrow> (if uc_read uc < 0 then uc_read uc = -1 \<and> 0 \<le> uc_header uc \<and> uc_header uc < 256
     else uc_read uc = int (length (uc_buffer uc)) \<and> uc_read uc < uc_size uc \<and> uc_size uc < 0x10000)"

definition hash_ok :: "queue \<Rightarrow> bool" where [inv_defs]:
  "hash_ok q \<longleftrightarrow> (\<forall>h. distinct (map uc_id (hash q h)) \<and> (\<forall>uc\<in>set (hash q h). uc_ok uc \<and> hash_fd (uc_id uc) = h))"

definition pends :: "queue \<Rightarrow> int \<Rightarrow> bytes" where
  "pends q fd = (case List.find (\<lambda>u. uc_id u = fd) (hash q (hash_fd fd)) of None \<Rightarrow> [] | Some u \<Rightarrow> uc_bytes u)"

definition waiting :: "queue \<Rightarrow> int \<Rightarrow> bool" where
  "waiting q fd \<longleftrightarrow> fd \<in> uc_id ` set (hash q (hash_fd fd))"

lemma take_id_split:
  "take_id fd us = Some (u, r) \<Longrightarrow> \<exists>a b. us = a @ u # b \<and> r = a @ b \<and> uc_id u = fd \<and> fd \<notin> uc_id ` set a"
proof (induction us arbitrary: r)
  case (Cons v us)
  show ?case
  proof (cases "uc_id v = fd")
    case True
    with Cons.prems show ?thesis by (intro exI [of _ "[]"] exI [of _ us]) auto
  next
    case False
    with Cons.prems obtain r' where r': "take_id fd us = Some (u, r')" "r = v # r'" by auto
    from Cons.IH [OF r'(1)] obtain a b where "us = a @ u # b \<and> r' = a @ b \<and> uc_id u = fd \<and> fd \<notin> uc_id ` set a" by blast
    with r'(2) False show ?thesis by (intro exI [of _ "v # a"] exI [of _ b]) auto
  qed
qed simp

lemma take_id_None: "take_id fd us = None \<longleftrightarrow> fd \<notin> uc_id ` set us"
  by (induction us) auto

lemma find_id_None: "List.find (\<lambda>u. uc_id u = fd) us = None \<longleftrightarrow> fd \<notin> uc_id ` set us"
  by (auto simp: find_None_iff)

lemma find_id_split:
  "fd \<notin> uc_id ` set a \<Longrightarrow> uc_id u = fd \<Longrightarrow> List.find (\<lambda>u. uc_id u = fd) (a @ u # b) = Some u"
  by (induction a) auto

lemma find_id_other:
  "uc_id u \<noteq> fd \<Longrightarrow> List.find (\<lambda>u. uc_id u = fd) (a @ u # b) = List.find (\<lambda>u. uc_id u = fd) (a @ b)"
  by (induction a) auto

lemma pends_not_waiting: "\<not> waiting q fd \<Longrightarrow> pends q fd = []"
  by (simp add: pends_def waiting_def find_id_None [THEN iffD2])

lemma find_uncomplete_None: "find_uncomplete (Some q) fd = None \<longleftrightarrow> \<not> waiting q fd"
  by (simp add: find_uncomplete_def Let_def take_id_None waiting_def)

text \<open>Taking the unfinished message of a connection out, and putting one in.\<close>

lemma find_uncomplete_Some:
  assumes ok: "hash_ok q" and f: "find_uncomplete (Some q) fd = Some (uc, q1)"
  shows "pends q fd = uc_bytes uc" "uc_ok uc" "uc_id uc = fd" "\<not> waiting q1 fd" "hash_ok q1"
    "pends q1 = (pends q)(fd := [])" "net_inv q1 = net_inv q" "net_list q1 = net_list q"
proof -
  let ?h = "hash_fd fd"
  from f obtain us where t: "take_id fd (hash q ?h) = Some (uc, us)" "q1 = q\<lparr>hash := (hash q)(?h := us)\<rparr>"
    by (auto simp: find_uncomplete_def Let_def)
  from take_id_split [OF t(1)] obtain a b where
    ab: "hash q ?h = a @ uc # b" "us = a @ b" "uc_id uc = fd" "fd \<notin> uc_id ` set a" by blast
  have d: "distinct (map uc_id (hash q ?h))" "\<forall>u\<in>set (hash q ?h). uc_ok u \<and> hash_fd (uc_id u) = ?h"
    using ok unfolding hash_ok_def by blast+
  show "pends q fd = uc_bytes uc" using ab(1) find_id_split [OF ab(4,3), of b] by (simp add: pends_def)
  show "uc_ok uc" "uc_id uc = fd" using d(2) ab by auto
  show nw: "\<not> waiting q1 fd" using d(1) ab t(2) by (auto simp: waiting_def)
  show "hash_ok q1" using ok d ab t(2) by (auto simp: hash_ok_def)
  show "pends q1 = (pends q)(fd := [])"
  proof
    fix fd'
    show "pends q1 fd' = ((pends q)(fd := [])) fd'"
    proof (cases "fd' = fd")
      case True
      then show ?thesis using pends_not_waiting [OF nw] by simp
    next
      case False
      then show ?thesis using ab t(2) find_id_other [of uc fd' a b] by (simp add: pends_def)
    qed
  qed
  show "net_inv q1 = net_inv q" "net_list q1 = net_list q" using t(2) by (simp_all add: net_inv_def net_list_def)
qed

lemma add_uncomplete_spec:
  assumes ok: "hash_ok q" and u: "uc_ok uc" "\<not> waiting q (uc_id uc)"
  shows "hash_ok (add_uncomplete uc q)" "pends (add_uncomplete uc q) = (pends q)(uc_id uc := uc_bytes uc)"
    "net_inv (add_uncomplete uc q) = net_inv q" "net_list (add_uncomplete uc q) = net_list q"
proof -
  show "hash_ok (add_uncomplete uc q)"
    using ok u by (auto simp: hash_ok_def add_uncomplete_def Let_def waiting_def)
  show "pends (add_uncomplete uc q) = (pends q)(uc_id uc := uc_bytes uc)"
    by (auto simp: fun_eq_iff pends_def add_uncomplete_def Let_def)
  show "net_inv (add_uncomplete uc q) = net_inv q" "net_list (add_uncomplete uc q) = net_list q"
    by (simp_all add: net_inv_def net_list_def add_uncomplete_def Let_def)
qed

lemma pends_hash: "hash q' = hash q \<Longrightarrow> pends q' = pends q \<and> hash_ok q' = hash_ok q \<and> waiting q' = waiting q"
  by (auto simp: pends_def hash_ok_def waiting_def fun_eq_iff)

section \<open>Cutting a stream\<close>

lemma read_size_be: "2 \<le> length b \<Longrightarrow> read_size b = be_nat (take 2 b)"
proof -
  assume "2 \<le> length b"
  then have t: "take 2 b = [b ! 0, b ! 1]" by (cases b; cases "tl b") (auto simp: numeral_2_eq_2)
  have "be_nat [b ! 0, b ! 1] < 2 ^ 32" using be_nat_less [of "[b ! 0, b ! 1]"] by simp
  then show ?thesis unfolding read_size_def be_word2 t by (simp add: unat_of_nat)
qed

lemma read_size_less: "2 \<le> length b \<Longrightarrow> read_size b < 0x10000"
proof -
  assume l: "2 \<le> length b"
  then have "length (take 2 b) = 2" by simp
  with be_nat_less [of "take 2 b"] l show ?thesis by (simp only: read_size_be) simp
qed

lemma complete_2: "complete 2 b \<longleftrightarrow> 2 \<le> length b \<and> read_size b \<le> length (drop 2 b)"
  by (cases "2 \<le> length b") (auto simp: complete_def head_len_def read_size_be)

lemma split_2:
  "2 \<le> length b \<Longrightarrow> read_size b \<le> length (drop 2 b) \<Longrightarrow> split_frames 2 b =
     (take (read_size b) (drop 2 b) # fst (split_frames 2 (drop (read_size b) (drop 2 b))),
      snd (split_frames 2 (drop (read_size b) (drop 2 b))))"
  using split_complete [of 2 b] complete_2 [of b]
  by (simp add: head_len_def read_size_be take_drop add.commute)

abbreviation pack :: "int \<Rightarrow> bytes \<Rightarrow> netpack" where
  "pack fd b \<equiv> \<lparr>np_id = fd, np_buffer = b\<rparr>"

lemma save_header_spec:
  assumes "hash_ok q" "\<not> waiting q fd"
  shows "hash_ok (save_header fd b q)" "pends (save_header fd b q) = (pends q)(fd := [b])"
    "net_inv (save_header fd b q) = net_inv q" "net_list (save_header fd b q) = net_list q"
proof -
  have "uint b < 256" using unsigned_less [of b] by simp
  then show "hash_ok (save_header fd b q)" "pends (save_header fd b q) = (pends q)(fd := [b])"
    "net_inv (save_header fd b q) = net_inv q" "net_list (save_header fd b q) = net_list q"
    using add_uncomplete_spec [OF assms(1), of "\<lparr>uc_id = fd, uc_size = 0, uc_buffer = [], uc_read = -1, uc_header = uint b\<rparr>"] assms(2)
    by (simp_all add: save_header_def uc_ok_def uc_bytes_def)
qed

lemma save_body_spec:
  assumes "hash_ok q" "\<not> waiting q fd" "length bs < n" "n < 0x10000"
  shows "hash_ok (save_body fd n bs q)" "pends (save_body fd n bs q) = (pends q)(fd := be_bytes 2 n @ bs)"
    "net_inv (save_body fd n bs q) = net_inv q" "net_list (save_body fd n bs q) = net_list q"
  using add_uncomplete_spec [OF assms(1), of "\<lparr>uc_id = fd, uc_size = int n, uc_buffer = bs, uc_read = int (length bs), uc_header = 0\<rparr>"] assms
  by (simp_all add: save_body_def uc_ok_def uc_bytes_def)

lemma be_bytes_rest: "2 \<le> length b \<Longrightarrow> be_bytes 2 (read_size b) @ drop 2 b = b"
proof -
  assume l: "2 \<le> length b"
  then have "length (take 2 b) = 2" by simp
  with be_bytes_nat [of "take 2 b"] have "be_bytes 2 (be_nat (take 2 b)) = take 2 b" by simp
  then show ?thesis using l by (simp add: read_size_be)
qed

lemma push_more_spec:
  assumes "net_inv q" "hash_ok q" "\<not> waiting q fd" "b \<noteq> []"
  shows "\<exists>q'. push_more fd b q = Some q' \<and> net_inv q' \<and> hash_ok q'
     \<and> net_list q' = net_list q @ map (pack fd) (fst (split_frames 2 b))
     \<and> pends q' = (pends q)(fd := snd (split_frames 2 b))"
  using assms
proof (induction fd b q rule: push_more.induct)
  case (1 fd b q)
  consider "length b = 1" | "2 \<le> length b" "length (drop 2 b) < read_size b"
    | "2 \<le> length b" "read_size b \<le> length (drop 2 b)"
    using "1.prems"(4) by (cases b; cases "tl b"; fastforce)
  then show ?case
  proof cases
    case 1
    then have s: "split_frames 2 b = ([], b)" by (simp add: split_incomplete complete_def)
    have "push_more fd b q = Some (save_header fd (b ! 0) q)"
      using 1 "1.prems"(4) by (subst push_more.simps) simp
    moreover have "[b ! 0] = b" using 1 by (cases b) auto
    ultimately show ?thesis
      using save_header_spec [OF "1.prems"(2,3), of "b ! 0"] "1.prems"(1) s by (simp del: fun_upd_apply)
  next
    case 2
    then have s: "split_frames 2 b = ([], b)" by (intro split_incomplete) (simp add: complete_2)
    have "push_more fd b q = Some (save_body fd (read_size b) (drop 2 b) q)"
      using 2 "1.prems"(4) by (subst push_more.simps) (auto simp: Let_def)
    then show ?thesis
      using save_body_spec [OF "1.prems"(2,3) 2(2) read_size_less [OF 2(1)]] "1.prems"(1) s be_bytes_rest [OF 2(1)]
      by (simp del: fun_upd_apply)
  next
    case 3
    let ?n = "read_size b" and ?r = "drop (read_size b) (drop 2 b)"
    note s = split_2 [OF 3]
    from push_data_spec [OF "1.prems"(1), of "pack fd (take ?n (drop 2 b))"] obtain q1 where
      q1: "push_data (pack fd (take ?n (drop 2 b))) q = Some q1" "net_inv q1"
        "net_list q1 = net_list q @ [pack fd (take ?n (drop 2 b))]" "hash q1 = hash q" by blast
    have h1: "hash_ok q1" "\<not> waiting q1 fd" "pends q1 = pends q" using pends_hash [OF q1(4)] "1.prems" by auto
    have e: "push_more fd b q = (if ?r \<noteq> [] then push_more fd ?r q1 else Some q1)"
      using 3 "1.prems"(4) q1(1) by (subst push_more.simps) (auto simp: Let_def)
    show ?thesis
    proof (cases "?r = []")
      case True
      have "split_frames 2 ([] :: bytes) = ([], [])" by (simp add: split_incomplete complete_def)
      moreover have "pends q = (pends q)(fd := [])" using pends_not_waiting [OF "1.prems"(3)] by auto
      ultimately show ?thesis using e True s q1 h1 by simp
    next
      case False
      have "\<exists>q'. push_more fd ?r q1 = Some q' \<and> net_inv q' \<and> hash_ok q'
         \<and> net_list q' = net_list q1 @ map (pack fd) (fst (split_frames 2 ?r))
         \<and> pends q' = (pends q1)(fd := snd (split_frames 2 ?r))"
        by (rule "1.IH" [OF _ _ refl refl _ q1(1) False q1(2) h1(1,2) False]) (use 3 "1.prems"(4) in auto)
      then show ?thesis using e False s q1(3) h1(3) by auto
    qed
  qed
qed

section \<open>One piece of input\<close>

text \<open>The Lua side takes everything out of the ring when \<open>lfilter\<close> answers \<open>more\<close>.\<close>

partial_function (option) drain :: "queue \<Rightarrow> ((int \<times> bytes) list \<times> queue) option" where
  "drain q = do {
     (r, q') \<leftarrow> lpop q;
     (case r of
        None \<Rightarrow> Some ([], q')
      | Some np \<Rightarrow> do { (l, q'') \<leftarrow> drain q'; Some ((np_id np, np_buffer np) # l, q'') })
   }"

lemma drain_spec:
  "net_inv q \<Longrightarrow> \<exists>q'. drain q = Some (map (\<lambda>np. (np_id np, np_buffer np)) (net_list q), q')
     \<and> net_inv q' \<and> net_list q' = [] \<and> hash q' = hash q"
proof (induction "net_list q" arbitrary: q)
  case Nil
  then show ?case using lpop_spec(1) [OF Nil.prems] by (subst drain.simps) simp
next
  case (Cons x xs)
  from lpop_spec(2) [OF Cons.prems Cons.hyps(2) [symmetric]] obtain q1 where
    q1: "lpop q = Some (Some x, q1)" "net_inv q1" "net_list q1 = xs" "hash q1 = hash q" by blast
  from Cons.hyps(1) [OF q1(3) [symmetric] q1(2)] obtain q2 where
    q2: "drain q1 = Some (map (\<lambda>np. (np_id np, np_buffer np)) (net_list q1), q2)" "net_inv q2"
      "net_list q2 = []" "hash q2 = hash q1" by blast
  have "drain q = Some ((np_id x, np_buffer x) # map (\<lambda>np. (np_id np, np_buffer np)) (net_list q1), q2)"
    by (subst drain.simps) (simp add: q1(1) q2(1))
  then show ?case using q1(3,4) q2(2,3,4) Cons.hyps(2) [symmetric] by simp
qed

definition net_feed :: "int \<Rightarrow> bytes \<Rightarrow> queue option \<Rightarrow> ((int \<times> bytes) list \<times> queue option) option" where
  "net_feed fd c q = do {
     (r, q') \<leftarrow> filter_data fd c q;
     (case r of
        R_data f b \<Rightarrow> Some ([(f, b)], q')
      | R_more \<Rightarrow> do { (l, q'') \<leftarrow> drain (get_queue q'); Some (l, Some q'') }
      | _ \<Rightarrow> Some ([], q'))
   }"

definition np_ok :: "queue option \<Rightarrow> bool" where [inv_defs]:
  "np_ok q \<longleftrightarrow> (case q of None \<Rightarrow> True | Some q \<Rightarrow> net_inv q \<and> hash_ok q \<and> net_list q = [])"

definition pend_of :: "queue option \<Rightarrow> int \<Rightarrow> bytes" where
  "pend_of q = (case q of None \<Rightarrow> (\<lambda>_. []) | Some q \<Rightarrow> pends q)"

lemma new_queue_ok: "net_inv new_queue" "hash_ok new_queue" "net_list new_queue = []" "pends new_queue = (\<lambda>_. [])"
  "\<not> waiting new_queue fd"
  by (simp_all add: net_inv_def new_queue_def QUEUESIZE_def hash_ok_def net_list_def pends_def waiting_def fun_eq_iff)

text \<open>A finished message behind which more follows: into the ring, and on with the rest.\<close>

lemma feed_more:
  assumes q: "net_inv q" "hash_ok q" "net_list q = []" "\<not> waiting q fd" and r: "rest \<noteq> []"
  shows "\<exists>q2 q3 q4. push_data (pack fd b) q = Some q2 \<and> push_more fd rest q2 = Some q3
     \<and> drain q3 = Some (map (Pair fd) (b # fst (split_frames 2 rest)), q4)
     \<and> np_ok (Some q4) \<and> pends q4 = (pends q)(fd := snd (split_frames 2 rest))"
proof -
  from push_data_spec [OF q(1), of "pack fd b"] obtain q2 where
    q2: "push_data (pack fd b) q = Some q2" "net_inv q2" "net_list q2 = [pack fd b]" "hash q2 = hash q"
    using q(3) by auto
  have h2: "hash_ok q2" "\<not> waiting q2 fd" "pends q2 = pends q" using pends_hash [OF q2(4)] q by auto
  from push_more_spec [OF q2(2) h2(1,2) r] obtain q3 where
    q3: "push_more fd rest q2 = Some q3" "net_inv q3" "hash_ok q3"
      "net_list q3 = net_list q2 @ map (pack fd) (fst (split_frames 2 rest))"
      "pends q3 = (pends q2)(fd := snd (split_frames 2 rest))" by blast
  from drain_spec [OF q3(2)] obtain q4 where
    q4: "drain q3 = Some (map (\<lambda>np. (np_id np, np_buffer np)) (net_list q3), q4)" "net_inv q4"
      "net_list q4 = []" "hash q4 = hash q3" by blast
  have "map (\<lambda>np. (np_id np, np_buffer np)) (net_list q3) = map (Pair fd) (b # fst (split_frames 2 rest))"
    using q2(3) q3(4) by (simp add: comp_def)
  then show ?thesis using q2(1) q3(1,3,5) q4 pends_hash [OF q4(4)] h2(3) by (simp add: np_ok_def)
qed

lemma split_Nil: "split_frames 2 [] = ([], [])"
  by (simp add: split_incomplete complete_def)

lemma net_feed_fresh:
  assumes ok: "np_ok q" and nf: "find_uncomplete q fd = None" and c: "c \<noteq> []"
  shows "\<exists>q'. net_feed fd c q = Some (map (Pair fd) (fst (split_frames 2 c)), q') \<and> np_ok q'
     \<and> pend_of q' = (pend_of q)(fd := snd (split_frames 2 c))"
proof -
  let ?q = "get_queue q"
  have g: "net_inv ?q" "hash_ok ?q" "net_list ?q = []" "\<not> waiting ?q fd" "pends ?q = pend_of q"
    using ok nf new_queue_ok
    by (auto simp: np_ok_def get_queue_def pend_of_def find_uncomplete_None split: option.splits)
  have pn: "pend_of q fd = []" using pends_not_waiting [OF g(4)] g(5) by simp
  consider "length c = 1" | "2 \<le> length c" "length (drop 2 c) < read_size c"
    | "2 \<le> length c" "read_size c = length (drop 2 c)" | "2 \<le> length c" "read_size c < length (drop 2 c)"
    using c by (cases c; cases "tl c"; fastforce)
  then show ?thesis
  proof cases
    case 1
    then have s: "split_frames 2 c = ([], c)" by (simp add: split_incomplete complete_def)
    have "[c ! 0] = c" using 1 by (cases c) auto
    then show ?thesis using 1 nf s save_header_spec [OF g(2,4), of "c ! 0"] g
      by (simp add: net_feed_def filter_data_def np_ok_def pend_of_def del: fun_upd_apply) (auto simp: c)
  next
    case 2
    then have s: "split_frames 2 c = ([], c)" by (intro split_incomplete) (simp add: complete_2)
    have n: "length c \<noteq> 1" using 2 by simp
    show ?thesis using 2 nf n c s save_body_spec [OF g(2,4) 2(2) read_size_less [OF 2(1)]] g be_bytes_rest [OF 2(1)]
      by (simp add: net_feed_def filter_data_def np_ok_def pend_of_def Let_def del: fun_upd_apply)
  next
    case 3
    have n: "length c \<noteq> 1" using 3 by simp
    have s: "split_frames 2 c = ([drop 2 c], [])" using split_2 [of c] 3 by (simp add: split_Nil)
    have "pend_of q = (pend_of q)(fd := [])" using pn by auto
    then show ?thesis using 3 nf n c s ok by (simp add: net_feed_def filter_data_def Let_def del: fun_upd_apply)
  next
    case 4
    let ?n = "read_size c" and ?r = "drop (read_size c) (drop 2 c)"
    have n: "length c \<noteq> 1" using 4 by simp
    have r: "?r \<noteq> []" using 4 by simp
    have s: "split_frames 2 c = (take ?n (drop 2 c) # fst (split_frames 2 ?r), snd (split_frames 2 ?r))"
      using split_2 [of c] 4 by simp
    from feed_more [OF g(1-4) r, of "take ?n (drop 2 c)"] obtain q2 q3 q4 where
      m: "push_data (pack fd (take ?n (drop 2 c))) ?q = Some q2" "push_more fd ?r q2 = Some q3"
        "drain q3 = Some (map (Pair fd) (take ?n (drop 2 c) # fst (split_frames 2 ?r)), q4)"
        "np_ok (Some q4)" "pends q4 = (pends ?q)(fd := snd (split_frames 2 ?r))" by blast
    have "filter_data fd c q = Some (R_more, Some q3)"
      using 4 nf n c m(1,2) by (simp add: filter_data_def Let_def)
    then have "net_feed fd c q = Some (map (Pair fd) (fst (split_frames 2 c)), Some q4)"
      using m(3) s by (simp add: net_feed_def get_queue_def)
    then show ?thesis using m(4,5) s g(5) by (simp add: pend_of_def)
  qed
qed

lemma header_or:
  fixes x :: u8
  assumes "0 \<le> h" "h < 256"
  shows "uint x OR push_bit 8 h = int (be_nat [word_of_int h, x])"
proof -
  have lo: "bit (uint x) n \<Longrightarrow> n < 8" for n
    using bit_imp_le_length [of x n] by (simp add: bit_uint_iff)
  have "uint x + push_bit 8 h = uint x OR push_bit 8 h"
    by (rule disjunctive_add) (auto simp: bit_push_bit_iff dest: lo)
  moreover have "uint (word_of_int h :: u8) = h" using assms by (simp add: uint_word_of_int)
  then have "int (unat (word_of_int h :: u8)) = h" by simp
  moreover have "int (unat x) = uint x" by simp
  ultimately show ?thesis by (simp only: be_nat_def foldl.simps) (simp add: push_bit_eq_mult)
qed

text \<open>After \<open>fill_header\<close> the length of the message is known.\<close>

lemma fill_header_spec:
  assumes u: "uc_ok uc" and c: "c \<noteq> []"
  shows "\<exists>uc' b n. fill_header uc c = Some (uc', b) \<and> uc_id uc' = uc_id uc
     \<and> uc_size uc' = int n \<and> uc_read uc' = int (length (uc_buffer uc')) \<and> length (uc_buffer uc') \<le> n \<and> n < 0x10000
     \<and> uc_bytes uc @ c = be_bytes 2 n @ uc_buffer uc' @ b"
proof (cases "uc_read uc < 0")
  case True
  obtain x b where x: "c = x # b" using c by (cases c) auto
  let ?h = "word_of_int (uc_header uc) :: u8" and ?n = "be_nat [word_of_int (uc_header uc), x]"
  have h: "uc_read uc = -1" "0 \<le> uc_header uc" "uc_header uc < 256" using u True by (auto simp: uc_ok_def)
  have "fill_header uc c = Some (uc\<lparr>uc_size := int ?n, uc_buffer := [], uc_read := 0\<rparr>, b)"
    using True h x header_or [OF h(2,3)] by (simp add: fill_header_def assert_opt_def)
  moreover have "?n < 0x10000" using be_nat_less [of "[?h, x]"] by simp
  moreover have "be_bytes 2 ?n = [?h, x]" using be_bytes_nat [of "[?h, x]"] by (simp add: numeral_2_eq_2)
  ultimately show ?thesis using True x
    by (intro exI [of _ "uc\<lparr>uc_size := int ?n, uc_buffer := [], uc_read := 0\<rparr>"] exI [of _ b] exI [of _ ?n])
      (simp add: uc_bytes_def)
next
  case False
  then show ?thesis using u
    by (intro exI [of _ uc] exI [of _ c] exI [of _ "nat (uc_size uc)"]) (auto simp: fill_header_def uc_ok_def uc_bytes_def)
qed

lemma net_feed_waiting:
  assumes ok: "np_ok (Some q)" and f: "find_uncomplete (Some q) fd = Some (uc, q1)" and c: "c \<noteq> []"
  shows "\<exists>q'. net_feed fd c (Some q) = Some (map (Pair fd) (fst (split_frames 2 (pends q fd @ c))), q') \<and> np_ok q'
     \<and> pend_of q' = (pends q)(fd := snd (split_frames 2 (pends q fd @ c)))"
proof -
  have q: "net_inv q" "hash_ok q" "net_list q = []" using ok by (auto simp: np_ok_def)
  note fu = find_uncomplete_Some [OF q(2) f]
  from fill_header_spec [OF fu(2) c] obtain uc' b n where
    u: "fill_header uc c = Some (uc', b)" "uc_id uc' = uc_id uc" "uc_size uc' = int n"
      "uc_read uc' = int (length (uc_buffer uc'))" "length (uc_buffer uc') \<le> n" "n < 0x10000"
      "uc_bytes uc @ c = be_bytes 2 n @ uc_buffer uc' @ b" by blast
  let ?p = "uc_buffer uc' @ b"
  have st: "pends q fd @ c = be_bytes 2 n @ ?p" using u(7) fu(1) by simp
  have n: "(0::nat) < 2" "n < 256 ^ 2" using u(6) by simp_all
  note k = split_known [OF n, where p = ?p]
  have q1: "net_inv q1" "hash_ok q1" "net_list q1 = []" "\<not> waiting q1 fd" using fu q by simp_all
  have need: "nat (uc_size uc' - uc_read uc') = n - length (uc_buffer uc')" using u(3,4) by simp
  have pd: "(pends q1)(fd := x) = (pends q)(fd := x)" for x using fu(6) by simp
  have tk: "uc_buffer uc' @ take (n - length (uc_buffer uc')) b = take n ?p" "drop (n - length (uc_buffer uc')) b = drop n ?p"
    using u(5) by simp_all
  consider "length ?p < n" | "length ?p = n" | "n < length ?p" by linarith
  then show ?thesis
  proof cases
    case 1
    let ?u = "uc'\<lparr>uc_buffer := ?p, uc_read := uc_read uc' + int (length b)\<rparr>"
    have uok: "uc_ok ?u" "\<not> waiting q1 (uc_id ?u)" "uc_id ?u = fd"
      using 1 u fu(3) q1(4) by (simp_all add: uc_ok_def)
    have ub: "uc_bytes ?u = be_bytes 2 n @ ?p" using u(3,4) by (simp add: uc_bytes_def)
    note a = add_uncomplete_spec [OF q1(2) uok(1,2)]
    have "net_feed fd c (Some q) = Some ([], Some (add_uncomplete ?u q1))"
      using f u(1,3,4) 1 by (simp add: net_feed_def filter_data_def Let_def)
    moreover have "split_frames 2 (pends q fd @ c) = ([], pends q fd @ c)"
      using split_incomplete [OF k(2) [OF 1]] st by simp
    ultimately show ?thesis using a q1 uok(3) ub st pd by (simp add: np_ok_def pend_of_def del: fun_upd_apply)
  next
    case 2
    have "filter_data fd c (Some q) = Some (R_data fd ?p, Some q1)"
      using f u(1,3,4) 2 tk need by (simp add: filter_data_def Let_def)
    moreover have "split_frames 2 (pends q fd @ c) = ([?p], [])" using k(1) 2 st split_Nil by simp
    ultimately show ?thesis using q1 fu(6) by (simp add: net_feed_def np_ok_def pend_of_def del: fun_upd_apply)
  next
    case 3
    let ?r = "drop n ?p"
    have r: "?r \<noteq> []" using 3 by (metis drop_eq_Nil leD)
    from feed_more [OF q1 r, of "take n ?p"] obtain q2 q3 q4 where
      m: "push_data (pack fd (take n ?p)) q1 = Some q2" "push_more fd ?r q2 = Some q3"
        "drain q3 = Some (map (Pair fd) (take n ?p # fst (split_frames 2 ?r)), q4)"
        "np_ok (Some q4)" "pends q4 = (pends q1)(fd := snd (split_frames 2 ?r))" by blast
    have "\<not> int (length b) < uc_size uc' - uc_read uc'" using 3 u(3,4,5) by simp
    then have "filter_data fd c (Some q) = Some (R_more, Some q3)"
      using f u(1) m(1,2) r unfolding filter_data_def
      by (simp only: option.case prod.case bind.bind_lunit Let_def need tk if_False)
    moreover have s: "split_frames 2 (pends q fd @ c) = (take n ?p # fst (split_frames 2 ?r), snd (split_frames 2 ?r))"
      using k(1) 3 st by simp
    ultimately have "net_feed fd c (Some q) = Some (map (Pair fd) (fst (split_frames 2 (pends q fd @ c))), Some q4)"
      using m(3) by (simp add: net_feed_def get_queue_def)
    then show ?thesis using m(4,5) s pd by (simp add: pend_of_def del: fun_upd_apply)
  qed
qed

text \<open>One piece of one connection: what it completes is delivered, and no other connection is touched.\<close>

lemma net_feed_spec:
  assumes ok: "np_ok q" and c: "c \<noteq> []"
  shows "\<exists>q'. net_feed fd c q = Some (map (Pair fd) (fst (split_frames 2 (pend_of q fd @ c))), q') \<and> np_ok q'
     \<and> pend_of q' = (pend_of q)(fd := snd (split_frames 2 (pend_of q fd @ c)))"
proof (cases "find_uncomplete q fd")
  case None
  then have "pend_of q fd = []"
    using pends_not_waiting by (cases q) (auto simp: pend_of_def find_uncomplete_None)
  with net_feed_fresh [OF ok None c] show ?thesis by simp
next
  case (Some r)
  then obtain q0 where q0: "q = Some q0" by (cases q) (auto simp: find_uncomplete_def)
  obtain uc q1 where "r = (uc, q1)" by fastforce
  with net_feed_waiting [of q0 fd uc q1 c] ok Some c q0 show ?thesis by (simp add: pend_of_def)
qed

interpretation net_reader: frame_reader 2 "0x10000" "\<lambda>_. True" "Pair fd" "net_feed fd"
  "\<lambda>q. pend_of q fd" np_ok "\<lambda>c. c \<noteq> []" "\<lambda>_. True" for fd
proof
  fix q :: "queue option" and c :: bytes
  assume "np_ok q" "c \<noteq> []"
  from net_feed_spec [OF this, of fd] show "\<exists>s'. net_feed fd c q =
      Some (map (Pair fd) (filter (\<lambda>_. True) (fst (split_frames 2 (pend_of q fd @ c)))), s')
    \<and> np_ok s' \<and> pend_of s' fd = snd (split_frames 2 (pend_of q fd @ c))" by auto
qed simp

section \<open>What the packer guarantees\<close>

lemma lpack_frame: "length b < 0x10000 \<Longrightarrow> lpack b = Inr (frame 2 b)"
proof -
  assume l: "length b < 0x10000"
  let ?n = "length b"
  have u: "unat (of_nat ?n :: u32) = ?n" using l by (simp add: unat_of_nat)
  have ff: "(0xff :: u32) = mask 8" by (simp add: mask_eq_exp_minus_1)
  have "unat (drop_bit 8 (of_nat ?n :: u32) AND 0xff) = ?n div 256 mod 256" "unat ((of_nat ?n :: u32) AND 0xff) = ?n mod 256"
    unfolding ff unat_and_mask unat_drop_bit_div u by simp_all
  then have "ucast (drop_bit 8 (of_nat ?n :: u32) AND 0xff) = (of_nat (?n div 256 mod 256) :: u8)"
    "ucast ((of_nat ?n :: u32) AND 0xff) = (of_nat (?n mod 256) :: u8)"
    by (metis of_nat_unat)+
  then show ?thesis using l by (simp add: lpack_def frame_def write_size_def numeral_2_eq_2)
qed

fun feed_events :: "(int \<times> bytes) list \<Rightarrow> queue option \<Rightarrow> ((int \<times> bytes) list \<times> queue option) option" where
  "feed_events [] q = Some ([], q)"
| "feed_events ((fd, c) # evs) q = do {
     (out, q') \<leftarrow> net_feed fd c q;
     (out', q'') \<leftarrow> feed_events evs q';
     Some (out @ out', q'')
   }"

definition for_fd :: "int \<Rightarrow> (int \<times> bytes) list \<Rightarrow> bytes list" where
  "for_fd fd evs = map snd (filter (\<lambda>e. fst e = fd) evs)"

lemma for_fd_simps [simp]:
  "for_fd fd [] = []" "for_fd fd (xs @ ys) = for_fd fd xs @ for_fd fd ys"
  "for_fd fd ((f, c) # evs) = (if f = fd then c # for_fd fd evs else for_fd fd evs)"
  "for_fd fd (map (Pair f) bs) = (if f = fd then bs else [])"
  by (simp_all add: for_fd_def filter_map comp_def)

lemma feed_events_spec:
  assumes "np_ok q" "\<forall>e\<in>set evs. snd e \<noteq> []" "\<forall>fd. \<not> complete 2 (pend_of q fd)"
  shows "\<exists>out q'. feed_events evs q = Some (out, q') \<and> np_ok q'
     \<and> (\<forall>fd. for_fd fd out = fst (split_frames 2 (pend_of q fd @ concat (for_fd fd evs)))
          \<and> pend_of q' fd = snd (split_frames 2 (pend_of q fd @ concat (for_fd fd evs))))"
  using assms
proof (induction evs arbitrary: q)
  case Nil
  then show ?case by (simp add: split_incomplete)
next
  case (Cons e evs)
  obtain fd c where e: "e = (fd, c)" by fastforce
  have c: "c \<noteq> []" using Cons.prems(2) e by simp
  from net_feed_spec [OF Cons.prems(1) c, of fd] obtain q1 where
    q1: "net_feed fd c q = Some (map (Pair fd) (fst (split_frames 2 (pend_of q fd @ c))), q1)" "np_ok q1"
      "pend_of q1 = (pend_of q)(fd := snd (split_frames 2 (pend_of q fd @ c)))" by blast
  have nc: "\<forall>fd. \<not> complete 2 (pend_of q1 fd)" using q1(3) Cons.prems(3) split_rest by simp
  have ev: "\<forall>e\<in>set evs. snd e \<noteq> []" using Cons.prems(2) by simp
  from Cons.IH [OF q1(2) ev nc] obtain out q2 where
    q2: "feed_events evs q1 = Some (out, q2)" "np_ok q2"
      "\<forall>fd. for_fd fd out = fst (split_frames 2 (pend_of q1 fd @ concat (for_fd fd evs)))
          \<and> pend_of q2 fd = snd (split_frames 2 (pend_of q1 fd @ concat (for_fd fd evs)))" by blast
  let ?out = "map (Pair fd) (fst (split_frames 2 (pend_of q fd @ c))) @ out"
  have "feed_events (e # evs) q = Some (?out, q2)" using q1(1) q2(1) e by simp
  moreover have "for_fd f ?out = fst (split_frames 2 (pend_of q f @ concat (for_fd f (e # evs))))
      \<and> pend_of q2 f = snd (split_frames 2 (pend_of q f @ concat (for_fd f (e # evs))))" for f
    using q2(3) q1(3) e split_append [of 2 "pend_of q fd @ c" "concat (for_fd fd evs)"] by auto
  ultimately show ?case using q2(2) by blast
qed

text \<open>C15. What \<open>netpack.pack\<close> packs, \<open>netpack.filter\<close> and \<open>netpack.pop\<close> deliver: when the pieces
  received on each connection make up the packed messages \<open>bs fd\<close>, cut anywhere and mixed
  with the pieces of the other connections in any way, every connection's messages come out
  once, whole and in order, and no unfinished message is left.\<close>

theorem netpack_roundtrip:
  assumes "\<forall>e\<in>set evs. snd e \<noteq> []"
    and "\<forall>fd. (\<forall>b\<in>set (bs fd). length b < 0x10000)
         \<and> concat (for_fd fd evs) = concat (map (\<lambda>b. projr (lpack b)) (bs fd))"
  shows "\<exists>out q'. feed_events evs None = Some (out, q') \<and> np_ok q'
     \<and> (\<forall>fd. for_fd fd out = bs fd \<and> pend_of q' fd = [])"
proof -
  have "np_ok None" "\<forall>fd. \<not> complete 2 (pend_of None fd)" by (simp_all add: np_ok_def pend_of_def complete_def)
  from feed_events_spec [OF this(1) assms(1) this(2)] obtain out q' where
    r: "feed_events evs None = Some (out, q')" "np_ok q'"
      "\<forall>fd. for_fd fd out = fst (split_frames 2 (concat (for_fd fd evs)))
          \<and> pend_of q' fd = snd (split_frames 2 (concat (for_fd fd evs)))" by (auto simp: pend_of_def)
  have "concat (for_fd fd evs) = concat (map (frame 2) (bs fd))" for fd
  proof -
    have "map (\<lambda>b. projr (lpack b)) (bs fd) = map (frame 2) (bs fd)"
      using assms(2) lpack_frame by (intro map_cong) auto
    then show ?thesis using assms(2) by metis
  qed
  then have "split_frames 2 (concat (for_fd fd evs)) = (bs fd, [])" for fd
    using split_frames_concat [of 2 "bs fd"] assms(2) by simp
  then show ?thesis using r by auto
qed

definition demo_events :: "(int \<times> bytes) list" where
  "demo_events = [(7, [0]), (9, [0, 1, 5, 0]), (7, [2, 1]), (9, [0]), (7, [2])]"

theorem netpack_roundtrip_witness:
  "(\<forall>fd. concat (for_fd fd demo_events)
      = concat (map (\<lambda>b. projr (lpack b)) (if fd = 7 then [[1, 2]] else if fd = 9 then [[5], []] else [])))
   \<and> (\<exists>out q'. feed_events demo_events None = Some (out, q') \<and> for_fd 7 out = [[1, 2]] \<and> for_fd 9 out = [[5], []])"
proof
  show a: "\<forall>fd. concat (for_fd fd demo_events)
      = concat (map (\<lambda>b. projr (lpack b)) (if fd = 7 then [[1, 2]] else if fd = 9 then [[5], []] else []))"
    by (simp add: demo_events_def lpack_frame frame_def numeral_2_eq_2)
  have "\<exists>out q'. feed_events demo_events None = Some (out, q') \<and> np_ok q'
     \<and> (\<forall>fd. for_fd fd out = (if fd = 7 then [[1, 2]] else if fd = 9 then [[5], []] else []) \<and> pend_of q' fd = [])"
    by (rule netpack_roundtrip) (use a in \<open>auto simp: demo_events_def\<close>)
  then show "\<exists>out q'. feed_events demo_events None = Some (out, q') \<and> for_fd 7 out = [[1, 2]] \<and> for_fd 9 out = [[5], []]"
    by auto
qed

end
