(* ===== verification/Handle.thy ===== *)
theory Handle
  imports Registry
begin

unbundle bit_operations_syntax

text \<open>
  \<^verbatim>\<open>skynet-src/skynet_handle.c\<close>: the table of the services of a node. A context is known by
  its address (a natural number); the field \<open>handle\<close> of a context is the function \<open>hof\<close>
  from addresses to handles, an argument of the operations that read it. Each operation
  runs under the storage's lock and is one step. \<open>slot_size\<close> is the length of \<open>slot\<close>.
  The contexts a retirement must release are part of its result; releasing them is in the
  model of the server.
\<close>

section \<open>The model\<close>

definition HANDLE_MASK :: u32 where "HANDLE_MASK = 0xffffff"
definition HANDLE_REMOTE_SHIFT :: nat where "HANDLE_REMOTE_SHIFT = 24"
definition DEFAULT_SLOT_SIZE :: nat where "DEFAULT_SLOT_SIZE = 4"
definition MAX_SLOT_SIZE :: nat where "MAX_SLOT_SIZE = 0x40000000"

record handle_name =
  hn_name :: cstr
  hn_handle :: u32

record handle_storage =
  harbor :: u32
  handle_index :: u32
  slot :: "nat option list"
  name_cap :: nat
  name_count :: nat
  name :: "handle_name list"

text \<open>\<open>x & (n - 1)\<close> as an index.\<close>

definition slot_hash :: "u32 \<Rightarrow> nat \<Rightarrow> nat" where
  "slot_hash h n = unat (h AND (of_nat n - 1))"

text \<open>The inner loop of \<open>skynet_handle_register\<close>: the first free slot from \<open>handle_index\<close> on.\<close>

function register_probe :: "nat \<Rightarrow> handle_storage \<Rightarrow> (u32 \<times> nat) option" where
  "register_probe i s =
     (if i < length (slot s) then
        let handle = (of_nat i + handle_index s) AND HANDLE_MASK;
            hash = slot_hash handle (length (slot s))
        in if slot s ! hash = None then Some (handle, hash) else register_probe (Suc i) s
      else None)"
  by pat_completeness auto
termination by (relation "measure (\<lambda>(i, s). length (slot s) - i)") auto

declare register_probe.simps [simp del]

text \<open>Moving the contexts to a table of twice the size; \<open>None\<close> when an assertion fails.\<close>

fun rehash :: "(nat \<Rightarrow> u32) \<Rightarrow> nat option list \<Rightarrow> nat option list \<Rightarrow> nat option list option" where
  "rehash hof [] new_slot = Some new_slot"
| "rehash hof (None # cs) new_slot = None"
| "rehash hof (Some c # cs) new_slot =
     (let hash = slot_hash (hof c) (length new_slot) in
      if new_slot ! hash = None then rehash hof cs (new_slot[hash := Some c]) else None)"

partial_function (option) skynet_handle_register ::
    "(nat \<Rightarrow> u32) \<Rightarrow> nat \<Rightarrow> handle_storage \<Rightarrow> (u32 \<times> handle_storage) option" where
  "skynet_handle_register hof ctx s =
     (case register_probe 0 s of
        Some (handle, hash) \<Rightarrow>
          Some (handle OR harbor s, s\<lparr>slot := (slot s)[hash := Some ctx], handle_index := handle + 1\<rparr>)
      | None \<Rightarrow> do {
          assert_opt (int (length (slot s)) * 2 - 1 \<le> uint HANDLE_MASK);
          new_slot \<leftarrow> rehash hof (slot s) (replicate (length (slot s) * 2) None);
          skynet_handle_register hof ctx (s\<lparr>slot := new_slot\<rparr>)
        })"

text \<open>The loop of \<open>skynet_handle_retire\<close> that drops the names of a handle in place.\<close>

function name_compact :: "u32 \<Rightarrow> nat \<Rightarrow> nat \<Rightarrow> nat \<Rightarrow> handle_name list \<Rightarrow> nat \<times> handle_name list" where
  "name_compact handle n i j ns =
     (if i < n then
        if hn_handle (ns ! i) = handle then name_compact handle n (Suc i) j ns
        else name_compact handle n (Suc i) (Suc j) (if i \<noteq> j then ns[j := ns ! i] else ns)
      else (j, ns))"
  by pat_completeness auto
termination by (relation "measure (\<lambda>(h, n, i, j, ns). n - i)") auto

declare name_compact.simps [simp del]

definition skynet_handle_retire ::
    "(nat \<Rightarrow> u32) \<Rightarrow> u32 \<Rightarrow> handle_storage \<Rightarrow> bool \<times> nat option \<times> handle_storage" where
  "skynet_handle_retire hof handle s =
     (let hash = slot_hash handle (length (slot s)) in
      case slot s ! hash of
        Some ctx \<Rightarrow>
          if hof ctx = handle then
            let (j, ns) = name_compact handle (name_count s) 0 0 (name s)
            in (True, Some ctx, s\<lparr>slot := (slot s)[hash := None], name_count := j, name := ns\<rparr>)
          else (False, None, s)
      | None \<Rightarrow> (False, None, s))"

text \<open>One pass of \<open>skynet_handle_retireall\<close>: the contexts retired, in order.\<close>

lemma retire_slot_length:
  "skynet_handle_retire hof h s = (ret, c, s') \<Longrightarrow> length (slot s') = length (slot s)"
  by (auto simp: skynet_handle_retire_def Let_def split: option.splits if_splits prod.splits)

function retire_sweep :: "(nat \<Rightarrow> u32) \<Rightarrow> nat \<Rightarrow> handle_storage \<Rightarrow> nat list \<times> handle_storage" where
  "retire_sweep hof i s =
     (if i < length (slot s) then
        let handle = (case slot s ! i of Some ctx \<Rightarrow> hof ctx | None \<Rightarrow> 0) in
        if handle \<noteq> 0 then
          (case skynet_handle_retire hof handle s of
             (ret, c, s') \<Rightarrow>
               let (cs, s'') = retire_sweep hof (Suc i) s'
               in (case c of Some ctx \<Rightarrow> ctx # cs | None \<Rightarrow> cs, s''))
        else retire_sweep hof (Suc i) s
      else ([], s))"
  by pat_completeness auto
termination by (relation "measure (\<lambda>(h, i, s). length (slot s) - i)") (auto dest!: retire_slot_length [OF sym])

declare retire_sweep.simps [simp del]

partial_function (option) skynet_handle_retireall ::
    "(nat \<Rightarrow> u32) \<Rightarrow> handle_storage \<Rightarrow> (nat list \<times> handle_storage) option" where
  "skynet_handle_retireall hof s =
     (let (cs, s') = retire_sweep hof 0 s in
      if cs = [] then Some ([], s')
      else do { (ds, s'') \<leftarrow> skynet_handle_retireall hof s'; Some (cs @ ds, s'') })"

text \<open>The context a handle names; \<open>skynet_context_grab\<close> on it is in the model of the server.\<close>

definition skynet_handle_grab :: "(nat \<Rightarrow> u32) \<Rightarrow> u32 \<Rightarrow> handle_storage \<Rightarrow> nat option" where
  "skynet_handle_grab hof handle s =
     (case slot s ! slot_hash handle (length (slot s)) of
        Some ctx \<Rightarrow> if hof ctx = handle then Some ctx else None
      | None \<Rightarrow> None)"

text \<open>\<open>strcmp\<close>, of which the code reads the sign only.\<close>

fun strcmp :: "cstr \<Rightarrow> cstr \<Rightarrow> int" where
  "strcmp [] [] = 0"
| "strcmp [] (y # ys) = -1"
| "strcmp (x # xs) [] = 1"
| "strcmp (x # xs) (y # ys) = (if x < y then -1 else if y < x then 1 else strcmp xs ys)"

text \<open>The binary search of \<open>skynet_handle_findname\<close> and \<open>_insert_name\<close>: \<open>Inl\<close> the index of the
  name, \<open>Inr\<close> the final \<open>begin\<close>; \<open>None\<close> for a read outside the array.\<close>

function name_search :: "handle_name list \<Rightarrow> cstr \<Rightarrow> int \<Rightarrow> int \<Rightarrow> (nat + nat) option" where
  "name_search ns nm b e =
     (if b \<le> e then
        let mid = (b + e) div 2 in
        if 0 \<le> mid \<and> nat mid < length ns then
          let c = strcmp (hn_name (ns ! nat mid)) nm in
          if c = 0 then Some (Inl (nat mid))
          else if c < 0 then name_search ns nm (mid + 1) e
          else name_search ns nm b (mid - 1)
        else None
      else Some (Inr (nat b)))"
  by pat_completeness auto
termination by (relation "measure (\<lambda>(ns, nm, b, e). nat (e - b + 1))") auto

declare name_search.simps [simp del]

definition skynet_handle_findname :: "cstr \<Rightarrow> handle_storage \<Rightarrow> u32 option" where
  "skynet_handle_findname nm s = do {
     r \<leftarrow> name_search (name s) nm 0 (int (name_count s) - 1);
     (case r of Inl i \<Rightarrow> Some (hn_handle (name s ! i)) | Inr _ \<Rightarrow> Some 0)
   }"

text \<open>\<open>for (i = a; i < b; i++) dst[i + d] = src[i]\<close>.\<close>

function copy_up :: "'a list \<Rightarrow> nat \<Rightarrow> nat \<Rightarrow> nat \<Rightarrow> 'a list \<Rightarrow> 'a list option" where
  "copy_up src d i b dst =
     (if i < b then do {
        x \<leftarrow> nth_opt src i;
        dst' \<leftarrow> upd_opt dst (i + d) x;
        copy_up src d (Suc i) b dst'
      } else Some dst)"
  by pat_completeness auto
termination by (relation "measure (\<lambda>(src, d, i, b, dst). b - i)") auto

declare copy_up.simps [simp del]

text \<open>\<open>for (i = n; i > before; i--) name[i] = name[i-1]\<close>.\<close>

fun shift_up :: "nat \<Rightarrow> nat \<Rightarrow> 'a list \<Rightarrow> 'a list option" where
  "shift_up 0 before ns = Some ns"
| "shift_up (Suc i) before ns =
     (if Suc i > before then do {
        x \<leftarrow> nth_opt ns i;
        ns' \<leftarrow> upd_opt ns (Suc i) x;
        shift_up i before ns'
      } else Some ns)"

text \<open>Fresh memory of \<open>skynet_malloc\<close>: entries no code reads.\<close>

definition blank_name :: handle_name where
  "blank_name = \<lparr>hn_name = [], hn_handle = 0\<rparr>"

definition insert_name_before :: "cstr \<Rightarrow> u32 \<Rightarrow> nat \<Rightarrow> handle_storage \<Rightarrow> handle_storage option" where
  "insert_name_before nm handle before s = do {
     s' \<leftarrow> (if name_count s \<ge> name_cap s then do {
              let cap = name_cap s * 2;
              assert_opt (cap \<le> MAX_SLOT_SIZE);
              n1 \<leftarrow> copy_up (name s) 0 0 before (replicate cap blank_name);
              n2 \<leftarrow> copy_up (name s) 1 before (name_count s) n1;
              Some (s\<lparr>name_cap := cap, name := n2\<rparr>)
            } else do {
              n1 \<leftarrow> shift_up (name_count s) before (name s);
              Some (s\<lparr>name := n1\<rparr>)
            });
     n3 \<leftarrow> upd_opt (name s') before \<lparr>hn_name = nm, hn_handle = handle\<rparr>;
     Some (s'\<lparr>name := n3, name_count := Suc (name_count s')\<rparr>)
   }"

definition insert_name :: "cstr \<Rightarrow> u32 \<Rightarrow> handle_storage \<Rightarrow> (cstr option \<times> handle_storage) option" where
  "insert_name nm handle s = do {
     r \<leftarrow> name_search (name s) nm 0 (int (name_count s) - 1);
     (case r of
        Inl _ \<Rightarrow> Some (None, s)
      | Inr b \<Rightarrow> do { s' \<leftarrow> insert_name_before nm handle b s; Some (Some nm, s') })
   }"

definition skynet_handle_namehandle :: "u32 \<Rightarrow> cstr \<Rightarrow> handle_storage \<Rightarrow> (cstr option \<times> handle_storage) option" where
  "skynet_handle_namehandle handle nm s = insert_name nm handle s"

definition skynet_handle_init :: "int \<Rightarrow> handle_storage" where
  "skynet_handle_init hb =
     \<lparr>harbor = push_bit HANDLE_REMOTE_SHIFT (word_of_int (hb AND 0xff)),
      handle_index = 1,
      slot = replicate DEFAULT_SLOT_SIZE None,
      name_cap = 2, name_count = 0, name = replicate 2 blank_name\<rparr>"

section \<open>The slot table\<close>

lemma uint_mask: "uint HANDLE_MASK = 2 ^ 24 - 1"
  by (simp add: HANDLE_MASK_def)

lemma handle_mask_mask: "HANDLE_MASK = mask 24"
  by (simp add: HANDLE_MASK_def mask_eq_exp_minus_1)

lemma slot_hash_mod: "k < 32 \<Longrightarrow> slot_hash h (2 ^ k) = unat h mod 2 ^ k"
  by (simp add: slot_hash_def mask_eq_exp_minus_1 [symmetric] unat_and_mask)

lemma slot_hash_less: "0 < n \<Longrightarrow> n < 2 ^ 32 \<Longrightarrow> slot_hash h n < n"
proof -
  assume n: "0 < n" "n < 2 ^ 32"
  have "unat (of_nat n :: u32) = n" using n by (simp add: unat_of_nat)
  then have "unat (of_nat n - 1 :: u32) = n - 1"
    using n by (subst unat_minus_one) auto
  moreover have "h AND (of_nat n - 1) \<le> (of_nat n - 1 :: u32)" by (rule word_and_le1)
  ultimately show ?thesis using n by (simp add: slot_hash_def word_le_nat_alt)
qed

text \<open>A handle probed for and the slot it goes to.\<close>

lemma probed_hash:
  assumes "k \<le> 24"
  shows "slot_hash ((of_nat i + h) AND HANDLE_MASK) (2 ^ k) = (i + unat h) mod 2 ^ k"
proof -
  have "slot_hash ((of_nat i + h) AND HANDLE_MASK) (2 ^ k) = unat (of_nat i + h) mod 2 ^ 24 mod 2 ^ k"
    using assms by (simp add: slot_hash_mod handle_mask_mask unat_and_mask)
  also have "\<dots> = unat (of_nat i + h) mod 2 ^ k"
    using assms by (intro mod_mod_cancel le_imp_power_dvd)
  also have "unat (of_nat i + h) = (i + unat h) mod 2 ^ 32"
    by (simp add: unat_word_ariths unat_of_nat mod_simps)
  also have "\<dots> mod 2 ^ k = (i + unat h) mod 2 ^ k"
    using assms by (intro mod_mod_cancel le_imp_power_dvd) simp
  finally show ?thesis .
qed

lemma probe_reaches:
  assumes "k \<le> 24" "j < 2 ^ k"
  shows "\<exists>i<2 ^ k. slot_hash ((of_nat i + h) AND HANDLE_MASK) (2 ^ k) = j"
proof -
  let ?i = "(j + (2 ^ k - unat h mod 2 ^ k)) mod 2 ^ k"
  have "(?i + unat h) mod 2 ^ k = (j + (2 ^ k - unat h mod 2 ^ k) + unat h mod 2 ^ k) mod 2 ^ k"
    by (simp only: mod_simps)
  also have "j + (2 ^ k - unat h mod 2 ^ k) + unat h mod 2 ^ k = j + 2 ^ k"
    using mod_less_divisor [of "2 ^ k" "unat h"] by (simp del: mod_less_divisor)
  also have "\<dots> mod 2 ^ k = j" using assms(2) by simp
  finally show ?thesis
    using probed_hash [OF assms(1), of ?i h] by (intro exI [of _ ?i]) simp
qed

lemma register_probe_spec:
  assumes "length (slot s) = 2 ^ k" "k \<le> 24"
  shows "case register_probe i s of
      Some (h, hash) \<Rightarrow> hash < 2 ^ k \<and> slot s ! hash = None \<and> hash = slot_hash h (2 ^ k) \<and> h AND HANDLE_MASK = h
    | None \<Rightarrow> \<forall>i'. i \<le> i' \<and> i' < 2 ^ k \<longrightarrow> slot s ! slot_hash ((of_nat i' + handle_index s) AND HANDLE_MASK) (2 ^ k) \<noteq> None"
  using assms
proof (induction i s rule: register_probe.induct)
  case (1 i s)
  let ?h = "(of_nat i + handle_index s) AND HANDLE_MASK"
  have l: "slot_hash ?h (2 ^ k) < 2 ^ k" by (simp add: probed_hash [OF "1.prems"(2)])
  show ?case
  proof (cases "i < 2 ^ k")
    case True
    show ?thesis
    proof (cases "slot s ! slot_hash ?h (2 ^ k) = None")
      case n: True
      then have "register_probe i s = Some (?h, slot_hash ?h (2 ^ k))"
        using True "1.prems" by (subst register_probe.simps) (simp add: Let_def)
      then show ?thesis using n l by (simp add: and.assoc)
    next
      case n: False
      have e: "register_probe i s = register_probe (Suc i) s"
        by (subst register_probe.simps) (simp only: "1.prems"(1) True n Let_def if_True if_False)
      have ih: "case register_probe (Suc i) s of
          Some (h, hash) \<Rightarrow> hash < 2 ^ k \<and> slot s ! hash = None \<and> hash = slot_hash h (2 ^ k) \<and> h AND HANDLE_MASK = h
        | None \<Rightarrow> \<forall>i'. Suc i \<le> i' \<and> i' < 2 ^ k \<longrightarrow> slot s ! slot_hash ((of_nat i' + handle_index s) AND HANDLE_MASK) (2 ^ k) \<noteq> None"
        using "1.IH" True n "1.prems" by simp
      show ?thesis unfolding e using ih n by (auto split: option.splits) (metis le_antisym not_less_eq_eq)
    qed
  next
    case False
    then have "register_probe i s = None" using "1.prems" by (subst register_probe.simps) simp
    then show ?thesis using False by auto
  qed
qed

text \<open>The probe finds a free slot when there is one.\<close>

lemma register_probe_None:
  assumes "length (slot s) = 2 ^ k" "k \<le> 24"
  shows "register_probe 0 s = None \<longleftrightarrow> None \<notin> set (slot s)"
proof
  assume "register_probe 0 s = None"
  then have a: "\<forall>i'. i' < 2 ^ k \<longrightarrow> slot s ! slot_hash ((of_nat i' + handle_index s) AND HANDLE_MASK) (2 ^ k) \<noteq> None"
    using register_probe_spec [OF assms, of 0] by simp
  show "None \<notin> set (slot s)"
  proof
    assume "None \<in> set (slot s)"
    then obtain j where "j < 2 ^ k" "slot s ! j = None" using assms(1) by (auto simp: in_set_conv_nth)
    with probe_reaches [OF assms(2), of j "handle_index s"] a show False by metis
  qed
next
  assume n: "None \<notin> set (slot s)"
  show "register_probe 0 s = None"
  proof (rule ccontr)
    assume "register_probe 0 s \<noteq> None"
    then obtain h hash where "register_probe 0 s = Some (h, hash)" by auto
    with register_probe_spec [OF assms, of 0] have "hash < length (slot s)" "slot s ! hash = None"
      using assms(1) by auto
    with n show False by (metis nth_mem)
  qed
qed

definition contexts :: "handle_storage \<Rightarrow> nat set" where
  "contexts s = {c. Some c \<in> set (slot s)}"

definition slots_ok :: "(nat \<Rightarrow> u32) \<Rightarrow> handle_storage \<Rightarrow> bool" where [inv_defs]:
  "slots_ok hof s \<longleftrightarrow>
     (\<exists>k. 2 \<le> k \<and> k \<le> 24 \<and> length (slot s) = 2 ^ k)
   \<and> harbor s AND HANDLE_MASK = 0
   \<and> (\<forall>i c. i < length (slot s) \<longrightarrow> slot s ! i = Some c \<longrightarrow>
        slot_hash (hof c) (length (slot s)) = i \<and> hof c AND NOT HANDLE_MASK = harbor s)"

lemma slots_okD:
  assumes "slots_ok hof s"
  obtains k where "2 \<le> k" "k \<le> 24" "length (slot s) = 2 ^ k" "harbor s AND HANDLE_MASK = 0"
    "\<forall>i c. i < 2 ^ k \<longrightarrow> slot s ! i = Some c \<longrightarrow>
        slot_hash (hof c) (2 ^ k) = i \<and> hof c AND NOT HANDLE_MASK = harbor s"
  using assms unfolding slots_ok_def by auto

lemma context_at:
  assumes "slots_ok hof s" "c \<in> contexts s"
  shows "slot_hash (hof c) (length (slot s)) < length (slot s) \<and> slot s ! slot_hash (hof c) (length (slot s)) = Some c"
proof -
  from assms(2) obtain i where "i < length (slot s)" "slot s ! i = Some c"
    by (auto simp: contexts_def in_set_conv_nth)
  with assms(1) show ?thesis unfolding slots_ok_def by auto
qed

lemma hof_inj: "slots_ok hof s \<Longrightarrow> c \<in> contexts s \<Longrightarrow> c' \<in> contexts s \<Longrightarrow> hof c = hof c' \<Longrightarrow> c = c'"
  by (metis option.inject context_at)

lemma tagged_handle:
  assumes "h AND HANDLE_MASK = h" "hb AND HANDLE_MASK = 0"
  shows "(h OR hb) AND HANDLE_MASK = h" "(h OR hb) AND NOT HANDLE_MASK = hb"
proof -
  show "(h OR hb) AND HANDLE_MASK = h" using assms by (simp add: bit.conj_disj_distrib2)
  have "h AND NOT HANDLE_MASK = (h AND HANDLE_MASK) AND NOT HANDLE_MASK" using assms(1) by simp
  also have "\<dots> = 0" by (simp add: and.assoc)
  finally have h: "h AND NOT HANDLE_MASK = 0" .
  have "hb = hb AND (HANDLE_MASK OR NOT HANDLE_MASK)" by simp
  also have "\<dots> = hb AND NOT HANDLE_MASK" using assms(2) by (simp only: bit.conj_disj_distrib or.left_neutral)
  finally show "(h OR hb) AND NOT HANDLE_MASK = hb" using h by (simp add: bit.conj_disj_distrib2)
qed

lemma slot_hash_tagged:
  assumes "h AND HANDLE_MASK = h" "hb AND HANDLE_MASK = 0" "k \<le> 24"
  shows "slot_hash (h OR hb) (2 ^ k) = slot_hash h (2 ^ k)"
proof -
  have m: "slot_hash x (2 ^ k) = unat (x AND HANDLE_MASK) mod 2 ^ k" for x
  proof -
    have "unat (x AND HANDLE_MASK) mod 2 ^ k = unat x mod 2 ^ 24 mod 2 ^ k"
      by (simp add: handle_mask_mask unat_and_mask)
    also have "\<dots> = unat x mod 2 ^ k" using assms(3) by (intro mod_mod_cancel le_imp_power_dvd)
    finally show ?thesis using assms(3) by (simp add: slot_hash_mod)
  qed
  show ?thesis unfolding m using tagged_handle [OF assms(1,2)] assms(1) by simp
qed

text \<open>Registration in a table with a free slot.\<close>

definition same_names :: "handle_storage \<Rightarrow> handle_storage \<Rightarrow> bool" where
  "same_names s s' \<longleftrightarrow> name s' = name s \<and> name_cap s' = name_cap s \<and> name_count s' = name_count s
     \<and> harbor s' = harbor s"

lemma contexts_add:
  "i < length (slot s) \<Longrightarrow> slot s ! i = None \<Longrightarrow>
     contexts (s\<lparr>slot := (slot s)[i := Some c], handle_index := j\<rparr>) = insert c (contexts s)"
  unfolding contexts_def by (auto simp: in_set_conv_nth nth_list_update) (metis option.distinct(1))+

lemma register_free:
  assumes ok: "slots_ok hof s" and free: "None \<in> set (slot s)" and new: "ctx \<notin> contexts s"
  shows "\<exists>h s'. skynet_handle_register hof ctx s = Some (h, s') \<and> slots_ok (hof(ctx := h)) s'
     \<and> h \<notin> hof ` contexts s \<and> contexts s' = insert ctx (contexts s) \<and> same_names s s'"
proof -
  from ok obtain k where k: "2 \<le> k" "k \<le> 24" "length (slot s) = 2 ^ k" "harbor s AND HANDLE_MASK = 0"
    "\<forall>i c. i < 2 ^ k \<longrightarrow> slot s ! i = Some c \<longrightarrow>
        slot_hash (hof c) (2 ^ k) = i \<and> hof c AND NOT HANDLE_MASK = harbor s"
    by (rule slots_okD)
  obtain h hash where p: "register_probe 0 s = Some (h, hash)"
    using register_probe_None [OF k(3,2)] free by auto
  with register_probe_spec [OF k(3,2), of 0] have
    h: "hash < 2 ^ k" "slot s ! hash = None" "hash = slot_hash h (2 ^ k)" "h AND HANDLE_MASK = h" by auto
  let ?h = "h OR harbor s" and ?s = "s\<lparr>slot := (slot s)[hash := Some ctx], handle_index := h + 1\<rparr>"
  have r: "skynet_handle_register hof ctx s = Some (?h, ?s)"
    by (subst skynet_handle_register.simps) (simp add: p)
  have hash: "slot_hash ?h (2 ^ k) = hash" using slot_hash_tagged [OF h(4) k(4,2)] h(3) by simp
  have fresh: "?h \<notin> hof ` contexts s"
  proof
    assume "?h \<in> hof ` contexts s"
    then obtain c where "c \<in> contexts s" "hof c = ?h" by auto
    with context_at [OF ok] hash k(3) h(2) show False by force
  qed
  have "slots_ok (hof(ctx := ?h)) ?s"
    unfolding slots_ok_def
  proof (intro conjI allI impI)
    fix i c assume i: "i < length (slot ?s)" "slot ?s ! i = Some c"
    show "slot_hash ((hof(ctx := ?h)) c) (length (slot ?s)) = i"
      "(hof(ctx := ?h)) c AND NOT HANDLE_MASK = harbor ?s"
    proof -
      have "slot_hash ((hof(ctx := ?h)) c) (2 ^ k) = i \<and> (hof(ctx := ?h)) c AND NOT HANDLE_MASK = harbor s"
      proof (cases "i = hash")
        case True
        then show ?thesis using i k(3) hash tagged_handle(2) [OF h(4) k(4)] by simp
      next
        case False
        then have "slot s ! i = Some c" using i by simp
        moreover from this have "Some c \<in> set (slot s)" using i by (auto simp: in_set_conv_nth)
        then have "c \<noteq> ctx" using new by (auto simp: contexts_def)
        ultimately show ?thesis using k(3,5) i by simp
      qed
      then show "slot_hash ((hof(ctx := ?h)) c) (length (slot ?s)) = i"
        "(hof(ctx := ?h)) c AND NOT HANDLE_MASK = harbor ?s" using k(3) by simp_all
    qed
  qed (use k in auto)
  moreover have "contexts ?s = insert ctx (contexts s)" using contexts_add h(1,2) k(3) by simp
  ultimately show ?thesis using r fresh by (auto simp: same_names_def)
qed

text \<open>Rehashing: distinct places in the new table, so no assertion fails.\<close>

lemma rehash_ok:
  assumes "distinct (map (\<lambda>c. slot_hash (hof c) m) cs)" "length new = m" "0 < m" "m < 2 ^ 32"
    "\<forall>c\<in>set cs. new ! slot_hash (hof c) m = None"
  shows "\<exists>new'. rehash hof (map Some cs) new = Some new' \<and> length new' = m
     \<and> (\<forall>c\<in>set cs. new' ! slot_hash (hof c) m = Some c)
     \<and> (\<forall>j. j \<notin> (\<lambda>c. slot_hash (hof c) m) ` set cs \<longrightarrow> new' ! j = new ! j)"
  using assms
proof (induction cs arbitrary: new)
  case (Cons c cs)
  let ?h = "\<lambda>c. slot_hash (hof c) m"
  let ?new = "new[?h c := Some c]"
  have l: "?h c < length new" using slot_hash_less Cons.prems by simp
  have n: "\<forall>d\<in>set cs. ?new ! ?h d = None"
  proof
    fix d assume "d \<in> set cs"
    then have "?h d \<noteq> ?h c" "new ! ?h d = None" using Cons.prems(1,5) by (simp_all add: image_iff) metis
    then show "?new ! ?h d = None" by simp
  qed
  have len: "length ?new = m" and dis: "distinct (map ?h cs)" using Cons.prems(1,2) by auto
  from Cons.IH [OF dis len Cons.prems(3,4) n] obtain new' where
    r: "rehash hof (map Some cs) ?new = Some new'" "length new' = m" "\<forall>c\<in>set cs. new' ! ?h c = Some c"
       "\<forall>j. j \<notin> ?h ` set cs \<longrightarrow> new' ! j = ?new ! j" by blast
  have "rehash hof (map Some (c # cs)) new = Some new'"
    using r(1) Cons.prems(2,5) by (simp add: Let_def)
  moreover have "?h c \<notin> ?h ` set cs" using Cons.prems(1) by simp
  then have "new' ! ?h c = Some c" using r(4) l by simp
  ultimately show ?case using r by auto
qed simp

definition full_slots :: "handle_storage \<Rightarrow> bool" where
  "full_slots s \<longleftrightarrow> None \<notin> set (slot s)"

lemma mod_double: "(x::nat) mod (n * 2) = y mod (n * 2) \<Longrightarrow> x mod n = y mod n"
  by (metis mod_mod_cancel dvd_triv_left)

lemma register_grow:
  assumes ok: "slots_ok hof s" and full: "full_slots s" and room: "length (slot s) < 2 ^ 24"
  shows "\<exists>new. rehash hof (slot s) (replicate (length (slot s) * 2) None) = Some new
     \<and> slots_ok hof (s\<lparr>slot := new\<rparr>) \<and> contexts (s\<lparr>slot := new\<rparr>) = contexts s \<and> None \<in> set new"
proof -
  from ok obtain k where k: "2 \<le> k" "k \<le> 24" "length (slot s) = 2 ^ k" "harbor s AND HANDLE_MASK = 0"
    "\<forall>i c. i < 2 ^ k \<longrightarrow> slot s ! i = Some c \<longrightarrow>
        slot_hash (hof c) (2 ^ k) = i \<and> hof c AND NOT HANDLE_MASK = harbor s"
    by (rule slots_okD)
  have k24: "k < 24" using room k(3) by (metis power_strict_increasing_iff one_less_numeral_iff semiring_norm(76))
  define cs where "cs = map the (slot s)"
  have cs: "slot s = map Some cs" unfolding cs_def map_map
    using full by (intro map_idI [symmetric]) (metis comp_apply full_slots_def option.collapse)
  let ?m = "2 ^ k * 2 :: nat" and ?h = "\<lambda>c. slot_hash (hof c) (2 ^ k * 2)"
  have m: "?m = 2 ^ Suc k" by simp
  have hm: "?h c = unat (hof c) mod ?m" for c unfolding m using k24 by (intro slot_hash_mod) simp
  have ho: "unat (hof c) mod 2 ^ k = i" "hof c AND NOT HANDLE_MASK = harbor s"
    if "i < 2 ^ k" "cs ! i = c" for i c
    using k(2,3,5) that cs slot_hash_mod [of k "hof c"] by auto
  have lcs: "length cs = 2 ^ k" using k(3) cs by simp
  have apart: "i = j" if "i < 2 ^ k" "j < 2 ^ k" "?h (cs ! i) = ?h (cs ! j)" for i j
    using ho(1) [OF that(1) refl] ho(1) [OF that(2) refl] that(3) mod_double hm by metis
  have "distinct (map ?h cs)" using apart lcs by (auto simp: distinct_conv_nth)
  moreover have "?m < 2 ^ 32" unfolding m using k24 by (intro power_strict_increasing) auto
  moreover have "\<forall>c\<in>set cs. replicate ?m None ! ?h c = None"
    using slot_hash_less [OF _ calculation(2)] by simp
  ultimately obtain new where
    r: "rehash hof (map Some cs) (replicate ?m None) = Some new" "length new = ?m"
       "\<forall>c\<in>set cs. new ! ?h c = Some c" "\<forall>j. j \<notin> ?h ` set cs \<longrightarrow> new ! j = replicate ?m None ! j"
    using rehash_ok [of hof ?m cs "replicate ?m None"] by auto
  have at: "c \<in> set cs \<and> ?h c = j" if "j < ?m" "new ! j = Some c" for j c
    using r(3,4) that by (cases "j \<in> ?h ` set cs") auto
  have "slots_ok hof (s\<lparr>slot := new\<rparr>)"
    unfolding slots_ok_def
  proof (intro conjI allI impI)
    show "\<exists>k'. 2 \<le> k' \<and> k' \<le> 24 \<and> length (slot (s\<lparr>slot := new\<rparr>)) = 2 ^ k'"
      using r(2) m k24 k(1) by (intro exI [of _ "Suc k"]) auto
  next
    fix i c assume i: "i < length (slot (s\<lparr>slot := new\<rparr>))" "slot (s\<lparr>slot := new\<rparr>) ! i = Some c"
    then have c: "c \<in> set cs" "?h c = i" using at r(2) by auto
    then show "slot_hash (hof c) (length (slot (s\<lparr>slot := new\<rparr>))) = i" using r(2) by simp
    from c(1) lcs obtain j where "j < 2 ^ k" "cs ! j = c" by (auto simp: in_set_conv_nth)
    then show "hof c AND NOT HANDLE_MASK = harbor (s\<lparr>slot := new\<rparr>)" using ho by simp
  qed (simp add: k(4))
  moreover have "contexts (s\<lparr>slot := new\<rparr>) = contexts s"
  proof -
    have "Some c \<in> set new \<longleftrightarrow> c \<in> set cs" for c
    proof
      assume "c \<in> set cs"
      moreover have "?h c < length new" using r(2) slot_hash_less [of ?m] \<open>?m < 2 ^ 32\<close> by simp
      ultimately show "Some c \<in> set new" using r(3) by (metis nth_mem)
    qed (use at r(2) in \<open>auto simp: in_set_conv_nth\<close>)
    then show ?thesis by (auto simp: contexts_def cs)
  qed
  moreover have "None \<in> set new"
  proof (rule ccontr)
    assume "None \<notin> set new"
    then have all: "\<exists>c. new ! j = Some c" if "j < ?m" for j using that r(2) by (metis nth_mem option.exhaust)
    obtain c where c: "new ! 0 = Some c" using all [of 0] by auto
    obtain d where d: "new ! (2 ^ k) = Some d" using all [of "2 ^ k"] by auto
    from at [of 0 c] c have c': "c \<in> set cs" "?h c = 0" by auto
    from at [of "2 ^ k" d] d have d': "d \<in> set cs" "?h d = 2 ^ k" by auto
    obtain i where i: "i < 2 ^ k" "cs ! i = c" using c'(1) lcs by (auto simp: in_set_conv_nth)
    obtain j where j: "j < 2 ^ k" "cs ! j = d" using d'(1) lcs by (auto simp: in_set_conv_nth)
    have "unat (hof c) mod 2 ^ k = 0" using c'(2) hm mod_double [of _ "2 ^ k" 0] by simp
    moreover have "unat (hof d) mod 2 ^ k = 0" using d'(2) hm mod_double [of "unat (hof d)" "2 ^ k" "2 ^ k"] by simp
    ultimately have "c = d" using ho(1) [OF i] ho(1) [OF j] i j by auto
    then show False using c'(2) d'(2) by simp
  qed
  ultimately show ?thesis using r(1) cs k(3) by auto
qed

section \<open>The names\<close>

lemma strcmp_0 [simp]: "strcmp a b = 0 \<longleftrightarrow> a = b"
  by (induction a b rule: strcmp.induct) auto

lemma strcmp_refl [simp]: "strcmp a a = 0"
  by simp

lemma strcmp_swap: "strcmp b a = - strcmp a b"
  by (induction a b rule: strcmp.induct) auto

lemma strcmp_trans: "strcmp a b < 0 \<Longrightarrow> strcmp b c < 0 \<Longrightarrow> strcmp a c < 0"
proof (induction a b arbitrary: c rule: strcmp.induct)
  case (2 y ys)
  then show ?case by (cases c) auto
next
  case (4 x xs y ys)
  then show ?case by (cases c) (auto split: if_splits)
qed auto

abbreviation name_less :: "handle_name \<Rightarrow> handle_name \<Rightarrow> bool" where
  "name_less a b \<equiv> strcmp (hn_name a) (hn_name b) < 0"

definition names :: "handle_storage \<Rightarrow> handle_name list" where
  "names s = take (name_count s) (name s)"

definition names_ok :: "handle_storage \<Rightarrow> bool" where [inv_defs]:
  "names_ok s \<longleftrightarrow> name_count s \<le> name_cap s \<and> length (name s) = name_cap s \<and> 1 \<le> name_cap s
     \<and> sorted_wrt name_less (names s)"

definition name_map :: "handle_storage \<Rightarrow> cstr \<rightharpoonup> u32" where
  "name_map s = map_of (map (\<lambda>n. (hn_name n, hn_handle n)) (names s))"

text \<open>The binary search splits a sorted array at the name.\<close>

definition found_at :: "handle_name list \<Rightarrow> cstr \<Rightarrow> nat + nat \<Rightarrow> bool" where
  "found_at ns nm r \<longleftrightarrow> (case r of
      Inl i \<Rightarrow> i < length ns \<and> hn_name (ns ! i) = nm
    | Inr p \<Rightarrow> p \<le> length ns \<and> (\<forall>i<p. strcmp (hn_name (ns ! i)) nm < 0)
         \<and> (\<forall>i. p \<le> i \<and> i < length ns \<longrightarrow> strcmp (hn_name (ns ! i)) nm > 0))"

lemma name_search_spec:
  assumes "sorted_wrt name_less (take n ns)" "n \<le> length ns"
    "0 \<le> b" "b \<le> e + 1" "e < int n"
    "\<forall>i. int i < b \<longrightarrow> strcmp (hn_name (ns ! i)) nm < 0"
    "\<forall>i. e < int i \<and> i < n \<longrightarrow> strcmp (hn_name (ns ! i)) nm > 0"
  shows "\<exists>r. name_search ns nm b e = Some r \<and> found_at (take n ns) nm r"
  using assms
proof (induction ns nm b e rule: name_search.induct)
  case (1 ns nm b e)
  show ?case
  proof (cases "b \<le> e")
    case False
    with "1.prems"(2-7) show ?thesis
      by (subst name_search.simps) (auto simp: found_at_def)
  next
    case True
    let ?mid = "(b + e) div 2"
    have m: "b \<le> ?mid" "?mid \<le> e" using True by auto
    have mi: "0 \<le> ?mid" "nat ?mid < n" "nat ?mid < length ns" using m "1.prems"(2,3,5) by auto
    have lt: "name_less (ns ! i) (ns ! j)" if "i < j" "j < n" for i j
      using "1.prems"(1,2) that by (force simp: sorted_wrt_iff_nth_less)
    let ?c = "strcmp (hn_name (ns ! nat ?mid)) nm"
    consider "?c = 0" | "?c < 0" | "?c > 0" by linarith
    then show ?thesis
    proof cases
      case 1
      then show ?thesis using True mi "1.prems"(2)
        by (subst name_search.simps) (simp add: Let_def found_at_def)
    next
      case 2
      then have e: "name_search ns nm b e = name_search ns nm (?mid + 1) e"
        using True mi by (subst name_search.simps) (simp add: Let_def del: strcmp_0)
      have lo: "\<forall>i. int i < ?mid + 1 \<longrightarrow> strcmp (hn_name (ns ! i)) nm < 0"
      proof (intro allI impI)
        fix i assume i: "int i < ?mid + 1"
        show "strcmp (hn_name (ns ! i)) nm < 0"
        proof (cases "i = nat ?mid")
          case False
          then have "i < nat ?mid" using i by linarith
          then show ?thesis using strcmp_trans lt mi(2) 2 by blast
        qed (use 2 in simp)
      qed
      have ne: "?c \<noteq> 0" using 2 by linarith
      show ?thesis unfolding e
        by (rule "1.IH"(1) [OF True refl _ refl ne 2 "1.prems"(1,2) _ _ "1.prems"(5) lo "1.prems"(7)])
          (use mi m in auto)
    next
      case 3
      then have e: "name_search ns nm b e = name_search ns nm b (?mid - 1)"
        using True mi by (subst name_search.simps) (simp add: Let_def del: strcmp_0)
      have hi: "\<forall>i. ?mid - 1 < int i \<and> i < n \<longrightarrow> strcmp (hn_name (ns ! i)) nm > 0"
      proof (intro allI impI)
        fix i assume i: "?mid - 1 < int i \<and> i < n"
        show "strcmp (hn_name (ns ! i)) nm > 0"
        proof (cases "i = nat ?mid")
          case False
          then have "nat ?mid < i" using i by linarith
          then have "name_less (ns ! nat ?mid) (ns ! i)" using lt i by blast
          moreover have "strcmp nm (hn_name (ns ! nat ?mid)) < 0" using 3 strcmp_swap [of nm] by simp
          ultimately have "strcmp nm (hn_name (ns ! i)) < 0" using strcmp_trans by blast
          then show ?thesis using strcmp_swap [of nm] by simp
        qed (use 3 in simp)
      qed
      have ne: "?c \<noteq> 0" "\<not> ?c < 0" using 3 by linarith+
      show ?thesis unfolding e
        by (rule "1.IH"(2) [OF True refl _ refl ne "1.prems"(1-3) _ _ "1.prems"(6) hi])
          (use mi m "1.prems"(5) in auto)
    qed
  qed
qed

lemma search_names:
  assumes "names_ok s"
  shows "\<exists>r. name_search (name s) nm 0 (int (name_count s) - 1) = Some r \<and> found_at (names s) nm r"
  unfolding names_def
  by (rule name_search_spec) (use assms in \<open>auto simp: names_ok_def names_def\<close>)

lemma sorted_names_distinct: "sorted_wrt name_less ns \<Longrightarrow> distinct (map hn_name ns)"
  by (induction ns) fastforce+

lemma map_of_names_at:
  assumes "sorted_wrt name_less ns" "i < length ns"
  shows "map_of (map (\<lambda>n. (hn_name n, hn_handle n)) ns) (hn_name (ns ! i)) = Some (hn_handle (ns ! i))"
  using assms sorted_names_distinct by (intro map_of_is_SomeI) (auto simp: comp_def)

lemma found_at_map:
  assumes "sorted_wrt name_less ns" "found_at ns nm r"
  shows "map_of (map (\<lambda>n. (hn_name n, hn_handle n)) ns) nm =
     (case r of Inl i \<Rightarrow> Some (hn_handle (ns ! i)) | Inr _ \<Rightarrow> None)"
proof (cases r)
  case (Inl i)
  with assms map_of_names_at [OF assms(1), of i] show ?thesis by (auto simp: found_at_def)
next
  case (Inr p)
  have "nm \<noteq> hn_name (ns ! i)" if "i < length ns" for i
  proof -
    have "strcmp (hn_name (ns ! i)) nm \<noteq> 0"
      using assms(2) Inr that by (cases "i < p") (simp_all add: found_at_def less_imp_neq not_less del: strcmp_0, metis less_irrefl)
    then show ?thesis by simp
  qed
  then have "nm \<notin> hn_name ` set ns" by (metis imageE in_set_conv_nth)
  then show ?thesis using Inr by (simp add: map_of_eq_None_iff image_image)
qed

lemma findname_eval:
  assumes "names_ok s"
  shows "skynet_handle_findname nm s = Some (case name_map s nm of Some h \<Rightarrow> h | None \<Rightarrow> 0)"
proof -
  from search_names [OF assms] obtain r where
    r: "name_search (name s) nm 0 (int (name_count s) - 1) = Some r" "found_at (names s) nm r" by blast
  have "sorted_wrt name_less (names s)" using assms by (simp add: names_ok_def)
  from found_at_map [OF this r(2)] r show ?thesis
    by (auto simp: skynet_handle_findname_def name_map_def names_def found_at_def split: sum.splits)
qed

text \<open>The array edits.\<close>

lemma copy_up_eq:
  "i \<le> b \<Longrightarrow> b \<le> length src \<Longrightarrow> b + d \<le> length dst \<Longrightarrow>
   copy_up src d i b dst = Some (take (i + d) dst @ take (b - i) (drop i src) @ drop (b + d) dst)"
proof (induction src d i b dst rule: copy_up.induct)
  case (1 src d i b dst)
  show ?case
  proof (cases "i < b")
    case True
    then have "copy_up src d i b dst = copy_up src d (Suc i) b (dst[i + d := src ! i])"
      using "1.prems" by (subst copy_up.simps) (simp add: nth_opt_def upd_opt_def)
    also have "\<dots> = Some (take (Suc i + d) (dst[i + d := src ! i]) @ take (b - Suc i) (drop (Suc i) src)
        @ drop (b + d) (dst[i + d := src ! i]))"
      using True "1.prems" by (intro "1.IH") (auto simp: nth_opt_def upd_opt_def)
    also have "take (Suc i + d) (dst[i + d := src ! i]) = take (i + d) dst @ [src ! i]"
      using True "1.prems" by (simp add: take_Suc_conv_app_nth)
    also have "take (b - i) (drop i src) = src ! i # take (b - Suc i) (drop (Suc i) src)"
      using True "1.prems" by (simp add: Cons_nth_drop_Suc [symmetric] Suc_diff_Suc [symmetric])
    ultimately show ?thesis using True "1.prems" by simp
  next
    case False
    with "1.prems" show ?thesis by (subst copy_up.simps) simp
  qed
qed

lemma shift_up_eq:
  "before \<le> n \<Longrightarrow> n < length ns \<Longrightarrow>
   shift_up n before ns = Some (take (Suc before) ns @ take (n - before) (drop before ns) @ drop (Suc n) ns)"
proof (induction n arbitrary: ns)
  case (Suc n)
  show ?case
  proof (cases "before = Suc n")
    case True
    then show ?thesis using append_take_drop_id [of "Suc (Suc n)" ns] by simp
  next
    case False
    with Suc.prems have b: "before \<le> n" by simp
    have "take (Suc n - before) (drop before ns) = take (n - before) (drop before ns) @ [ns ! n]"
      using Suc.prems b by (simp add: Suc_diff_le take_Suc_conv_app_nth)
    moreover have "drop (Suc n) (ns[Suc n := ns ! n]) = ns ! n # drop (Suc (Suc n)) ns"
      using Suc.prems by (metis Cons_nth_drop_Suc drop_update_cancel length_list_update lessI nth_list_update_eq)
    moreover have "take (n - before) (drop before (ns[Suc n := ns ! n])) = take (n - before) (drop before ns)"
      using b by (simp add: drop_update_swap)
    ultimately show ?thesis
      using Suc.IH [of "ns[Suc n := ns ! n]"] Suc.prems b by (simp add: nth_opt_def upd_opt_def)
  qed
qed simp

lemma insert_before_names:
  assumes ok: "names_ok s" and p: "p \<le> name_count s"
    and cap: "name_cap s \<le> name_count s \<longrightarrow> name_cap s * 2 \<le> MAX_SLOT_SIZE"
  shows "\<exists>s'. insert_name_before nm h p s = Some s'
     \<and> names s' = take p (names s) @ \<lparr>hn_name = nm, hn_handle = h\<rparr> # drop p (names s)
     \<and> name_count s' = Suc (name_count s) \<and> name_count s' \<le> name_cap s' \<and> length (name s') = name_cap s'
     \<and> (name_cap s' = name_cap s \<or> name_cap s' = name_cap s * 2)
     \<and> slot s' = slot s \<and> harbor s' = harbor s \<and> handle_index s' = handle_index s"
proof -
  let ?n = "\<lparr>hn_name = nm, hn_handle = h\<rparr>" and ?c = "name_count s"
  from ok have len: "?c \<le> length (name s)" "length (name s) = name_cap s" "1 \<le> name_cap s"
    by (auto simp: names_ok_def)
  have splice: "take (Suc ?c) ((take (Suc p) xs @ take (?c - p) (drop p (name s)) @ ys)[p := ?n])
      = take p (names s) @ ?n # drop p (names s)"
    if "take p xs = take p (name s)" "p < length xs" for xs ys
  proof -
    have "(take (Suc p) xs @ take (?c - p) (drop p (name s)) @ ys)[p := ?n]
        = take p (name s) @ ?n # take (?c - p) (drop p (name s)) @ ys"
      using that p len by (simp add: list_update_append take_Suc_conv_app_nth)
    moreover have "length (take p (name s)) = p" using p len by simp
    ultimately show ?thesis using p len
      by (simp add: names_def take_drop min_def take_Cons' Suc_diff_le)
  qed
  show ?thesis
  proof (cases "name_cap s \<le> ?c")
    case True
    have c1: "copy_up (name s) 0 0 p (replicate (name_cap s * 2) blank_name)
        = Some (take p (name s) @ replicate (name_cap s * 2 - p) blank_name)" (is "_ = Some ?n1")
      using p len by (subst copy_up_eq) auto
    have c2: "copy_up (name s) 1 p ?c ?n1
        = Some (take (Suc p) ?n1 @ take (?c - p) (drop p (name s)) @ drop (Suc ?c) ?n1)" (is "_ = Some ?n2")
      using p len True by (subst copy_up_eq) auto
    have l2: "length ?n2 = name_cap s * 2" using p len True by simp
    have "take (Suc ?c) (?n2[p := ?n]) = take p (names s) @ ?n # drop p (names s)"
      by (rule splice) (use p len in auto)
    moreover have "insert_name_before nm h p s
        = Some (s\<lparr>name_cap := name_cap s * 2, name := ?n2[p := ?n], name_count := Suc ?c\<rparr>)"
      using True cap c1 c2 l2 p len unfolding insert_name_before_def
      by (simp add: upd_opt_def Let_def assert_opt_def del: take_append length_append)
    ultimately show ?thesis using l2 True len by (simp add: names_def del: take_append length_append)
  next
    case False
    have c: "shift_up ?c p (name s)
        = Some (take (Suc p) (name s) @ take (?c - p) (drop p (name s)) @ drop (Suc ?c) (name s))" (is "_ = Some ?n1")
      using p len False by (intro shift_up_eq) auto
    have l1: "length ?n1 = name_cap s" using p len False by simp
    have "take (Suc ?c) (?n1[p := ?n]) = take p (names s) @ ?n # drop p (names s)"
      by (rule splice) (use p len False in auto)
    moreover have "insert_name_before nm h p s = Some (s\<lparr>name := ?n1[p := ?n], name_count := Suc ?c\<rparr>)"
      using False c l1 p unfolding insert_name_before_def
      by (simp add: upd_opt_def del: length_append)
    ultimately show ?thesis using l1 False by (simp add: names_def del: take_append length_append)
  qed
qed

lemma sorted_insert_at:
  assumes "sorted_wrt name_less ns" "found_at ns nm (Inr p)"
  shows "sorted_wrt name_less (take p ns @ \<lparr>hn_name = nm, hn_handle = h\<rparr> # drop p ns)"
proof -
  from assms(2) have p: "p \<le> length ns" "\<forall>i<p. strcmp (hn_name (ns ! i)) nm < 0"
    "\<forall>i. p \<le> i \<and> i < length ns \<longrightarrow> strcmp (hn_name (ns ! i)) nm > 0" by (auto simp: found_at_def)
  have lo: "strcmp (hn_name x) nm < 0" if "x \<in> set (take p ns)" for x
    using that p(1,2) by (auto simp: in_set_conv_nth)
  have hi: "strcmp nm (hn_name x) < 0" if "x \<in> set (drop p ns)" for x
    using that p(1,3) strcmp_swap [of nm] by (auto simp: in_set_conv_nth)
  have s: "sorted_wrt name_less (take p ns @ drop p ns)" using assms(1) by simp
  then show ?thesis unfolding sorted_wrt_append using lo hi by simp
qed

lemma map_of_insert_at:
  assumes "k \<notin> fst ` set xs"
  shows "map_of (take p xs @ (k, v) # drop p xs) = (map_of xs)(k \<mapsto> v)"
proof
  fix j
  have e: "map_of xs j = (map_of (drop p xs) ++ map_of (take p xs)) j"
    by (metis append_take_drop_id map_of_append)
  have "map_of (take p xs) k = None" using assms by (auto simp: map_of_eq_None_iff dest: in_set_takeD)
  then show "map_of (take p xs @ (k, v) # drop p xs) j = ((map_of xs)(k \<mapsto> v)) j"
    by (auto simp: e map_add_def split: option.splits)
qed

lemma namehandle_spec:
  assumes ok: "names_ok s" and cap: "name_cap s \<le> name_count s \<longrightarrow> name_cap s * 2 \<le> MAX_SLOT_SIZE"
  shows "\<exists>s'. skynet_handle_namehandle h nm s = Some (if nm \<in> dom (name_map s) then None else Some nm, s')
     \<and> names_ok s' \<and> name_map s' = (if nm \<in> dom (name_map s) then name_map s else (name_map s)(nm \<mapsto> h))
     \<and> slot s' = slot s \<and> harbor s' = harbor s \<and> handle_index s' = handle_index s"
proof -
  from search_names [OF ok] obtain r where
    r: "name_search (name s) nm 0 (int (name_count s) - 1) = Some r" "found_at (names s) nm r" by blast
  have so: "sorted_wrt name_less (names s)" using ok by (simp add: names_ok_def)
  note fm = found_at_map [OF so r(2), folded name_map_def]
  show ?thesis
  proof (cases r)
    case (Inl i)
    then show ?thesis using r(1) ok fm by (auto simp: skynet_handle_namehandle_def insert_name_def)
  next
    case (Inr p)
    have p: "p \<le> name_count s" using r(2) Inr ok by (auto simp: found_at_def names_def names_ok_def)
    from insert_before_names [OF ok p cap] obtain s' where s': "insert_name_before nm h p s = Some s'"
      "names s' = take p (names s) @ \<lparr>hn_name = nm, hn_handle = h\<rparr> # drop p (names s)"
      "name_count s' \<le> name_cap s'" "length (name s') = name_cap s'"
      "name_cap s' = name_cap s \<or> name_cap s' = name_cap s * 2"
      "slot s' = slot s" "harbor s' = harbor s" "handle_index s' = handle_index s" by metis
    have "names_ok s'"
      using s' sorted_insert_at [OF so r(2) [unfolded Inr]] ok by (auto simp: names_ok_def)
    moreover have nd: "nm \<notin> dom (name_map s)" using fm Inr by auto
    moreover have "name_map s' = (name_map s)(nm \<mapsto> h)"
    proof -
      have "nm \<notin> fst ` set (map (\<lambda>n. (hn_name n, hn_handle n)) (names s))"
        using nd by (simp add: name_map_def dom_map_of_conv_image_fst)
      from map_of_insert_at [OF this, of p h] show ?thesis
        by (simp add: name_map_def s'(2) take_map drop_map)
    qed
    ultimately show ?thesis
      using r(1) Inr s' by (auto simp: skynet_handle_namehandle_def insert_name_def)
  qed
qed

text \<open>Retirement drops exactly the names of the handle.\<close>

lemma name_compact_spec:
  assumes "j \<le> i" "i \<le> n" "n \<le> length ns"
  shows "case name_compact h n i j ns of (j', ns') \<Rightarrow>
     take j' ns' = take j ns @ filter (\<lambda>x. hn_handle x \<noteq> h) (drop i (take n ns))
   \<and> j' \<le> n \<and> length ns' = length ns"
  using assms
proof (induction h n i j ns rule: name_compact.induct)
  case (1 h n i j ns)
  show ?case
  proof (cases "i < n")
    case False
    then show ?thesis using "1.prems" by (subst name_compact.simps) simp
  next
    case True
    have d: "drop i (take n ns) = ns ! i # drop (Suc i) (take n ns)"
      using True "1.prems"(3) by (metis Cons_nth_drop_Suc length_take min.absorb2 nth_take)
    show ?thesis
    proof (cases "hn_handle (ns ! i) = h")
      case h: True
      then show ?thesis using "1.IH"(1) [OF True h] True "1.prems" d
        by (subst name_compact.simps) (simp split: prod.splits)
    next
      case h: False
      define N where "N = (if i \<noteq> j then ns[j := ns ! i] else ns)"
      have e: "name_compact h n i j ns = name_compact h n (Suc i) (Suc j) N"
        by (subst name_compact.simps) (simp only: True h N_def if_True if_False)
      have N: "take (Suc j) N = take j ns @ [ns ! i]" "length N = length ns"
        "drop (Suc i) (take n N) = drop (Suc i) (take n ns)"
        using True "1.prems" by (auto simp: take_Suc_conv_app_nth drop_take N_def)
      show ?thesis unfolding e using "1.IH"(2) [OF True h, folded N_def] True h "1.prems" d N by simp
    qed
  qed
qed

lemma retire_miss:
  "skynet_handle_grab hof h s = None \<Longrightarrow> skynet_handle_retire hof h s = (False, None, s)"
  by (auto simp: skynet_handle_grab_def skynet_handle_retire_def Let_def split: option.splits if_splits)

lemma grab_registered:
  assumes "slots_ok hof s"
  shows "skynet_handle_grab hof h s = Some c \<longleftrightarrow> c \<in> contexts s \<and> hof c = h"
proof
  assume g: "skynet_handle_grab hof h s = Some c"
  from assms obtain k where k: "k \<le> 24" "length (slot s) = 2 ^ k" by (rule slots_okD)
  have "(2::nat) ^ k < 2 ^ 32" using k(1) by (intro power_strict_increasing) auto
  then have "slot_hash h (length (slot s)) < length (slot s)" using k(2) by (intro slot_hash_less) auto
  with g show "c \<in> contexts s \<and> hof c = h"
    by (auto simp: skynet_handle_grab_def contexts_def in_set_conv_nth split: option.splits if_splits)
next
  assume "c \<in> contexts s \<and> hof c = h"
  with context_at [OF assms, of c] show "skynet_handle_grab hof h s = Some c"
    by (auto simp: skynet_handle_grab_def)
qed

lemma retire_hit:
  assumes ok: "slots_ok hof s" "names_ok s" and g: "skynet_handle_grab hof h s = Some c"
  shows "\<exists>s'. skynet_handle_retire hof h s = (True, Some c, s') \<and> slots_ok hof s' \<and> names_ok s'
     \<and> contexts s' = contexts s - {c} \<and> names s' = filter (\<lambda>x. hn_handle x \<noteq> h) (names s)
     \<and> harbor s' = harbor s \<and> handle_index s' = handle_index s \<and> name_cap s' = name_cap s"
proof -
  let ?hash = "slot_hash h (length (slot s))"
  from g grab_registered [OF ok(1)] have c: "c \<in> contexts s" "hof c = h" by auto
  with context_at [OF ok(1)] have at: "?hash < length (slot s)" "slot s ! ?hash = Some c" by auto
  obtain j ns where jn: "name_compact h (name_count s) 0 0 (name s) = (j, ns)" by fastforce
  have cnt: "name_count s \<le> length (name s)" using ok(2) by (simp add: names_ok_def)
  from name_compact_spec [of 0 0 "name_count s" "name s" h] jn cnt have
    ns: "take j ns = filter (\<lambda>x. hn_handle x \<noteq> h) (names s)" "j \<le> name_count s" "length ns = length (name s)"
    by (auto simp: names_def)
  let ?s = "s\<lparr>slot := (slot s)[?hash := None], name_count := j, name := ns\<rparr>"
  have r: "skynet_handle_retire hof h s = (True, Some c, ?s)"
    using at c jn by (simp add: skynet_handle_retire_def Let_def)
  have other: "(slot s)[?hash := None] ! i = Some d \<Longrightarrow> slot s ! i = Some d" if "i < length (slot s)" for i d
    using that by (cases "i = ?hash") auto
  have "slots_ok hof ?s"
    using ok(1) other unfolding slots_ok_def by auto
  moreover have "names_ok ?s"
    using ok(2) ns by (auto simp: names_ok_def names_def intro: sorted_wrt_filter)
  moreover have "contexts ?s = contexts s - {c}"
  proof -
    have "Some d \<in> set ((slot s)[?hash := None]) \<longleftrightarrow> d \<in> contexts s - {c}" for d
    proof
      assume "Some d \<in> set ((slot s)[?hash := None])"
      then obtain i where i: "i < length (slot s)" "(slot s)[?hash := None] ! i = Some d"
        by (auto simp: in_set_conv_nth)
      then have "i \<noteq> ?hash" "slot s ! i = Some d" using other by auto
      with i(1) ok(1) c(2) show "d \<in> contexts s - {c}"
        by (auto simp: contexts_def in_set_conv_nth slots_ok_def)
    next
      assume d: "d \<in> contexts s - {c}"
      with context_at [OF ok(1), of d] have
        i: "slot_hash (hof d) (length (slot s)) < length (slot s)" "slot s ! slot_hash (hof d) (length (slot s)) = Some d"
        by auto
      with d at(2) have "slot_hash (hof d) (length (slot s)) \<noteq> ?hash" by auto
      with i show "Some d \<in> set ((slot s)[?hash := None])"
        by (metis length_list_update nth_list_update_neq nth_mem)
    qed
    then show ?thesis by (auto simp: contexts_def)
  qed
  ultimately show ?thesis using r ns by (auto simp: names_def)
qed

section \<open>What the handle storage guarantees\<close>

definition handle_inv :: "(nat \<Rightarrow> u32) \<Rightarrow> handle_storage \<Rightarrow> bool" where [inv_defs]:
  "handle_inv hof s \<longleftrightarrow> slots_ok hof s \<and> names_ok s"

definition handle_map :: "(nat \<Rightarrow> u32) \<Rightarrow> handle_storage \<Rightarrow> u32 \<rightharpoonup> nat" where
  "handle_map hof s h = List.find (\<lambda>c. hof c = h) (map the (filter (\<lambda>x. x \<noteq> None) (slot s)))"

text \<open>When it returns at all, naming keeps the table in order and does not touch the slots.\<close>

lemma namehandle_keeps:
  assumes inv: "handle_inv hof s" and r: "skynet_handle_namehandle h nm s = Some (r, s')"
  shows "handle_inv hof s'" "slot s' = slot s"
proof -
  have ok: "slots_ok hof s" "names_ok s" using inv by (auto simp: handle_inv_def)
  have "names_ok s' \<and> slot s' = slot s \<and> harbor s' = harbor s"
  proof (cases "name_cap s \<le> name_count s \<longrightarrow> name_cap s * 2 \<le> MAX_SLOT_SIZE")
    case True
    from namehandle_spec [OF ok(2) this, of h nm] r show ?thesis by auto
  next
    case False
    then have "insert_name_before nm h p s = None" for p
      by (simp add: insert_name_before_def Let_def assert_opt_def)
    then have "s' = s" using r
      by (auto simp: skynet_handle_namehandle_def insert_name_def split: sum.splits) (metis old.sum.exhaust)
    then show ?thesis using ok by simp
  qed
  then show "handle_inv hof s'" "slot s' = slot s" using ok(1) by (simp_all add: handle_inv_def slots_ok_def)
qed

lemma contexts_list: "set (map the (filter (\<lambda>x. x \<noteq> None) (slot s))) = contexts s"
  by (force simp: contexts_def)

lemma handle_map_Some:
  assumes "slots_ok hof s"
  shows "handle_map hof s h = Some c \<longleftrightarrow> c \<in> contexts s \<and> hof c = h"
proof
  assume "handle_map hof s h = Some c"
  then show "c \<in> contexts s \<and> hof c = h"
    unfolding handle_map_def contexts_list [symmetric] find_Some_iff by (metis nth_mem)
next
  assume c: "c \<in> contexts s \<and> hof c = h"
  then have "handle_map hof s h \<noteq> None"
    unfolding handle_map_def contexts_list [symmetric] find_None_iff by auto
  then obtain d where d: "handle_map hof s h = Some d" by auto
  then have "d \<in> contexts s \<and> hof d = h"
    unfolding handle_map_def contexts_list [symmetric] find_Some_iff by (metis nth_mem)
  with c d hof_inj [OF assms] show "handle_map hof s h = Some c" by metis
qed

lemma grab_eq_map: "slots_ok hof s \<Longrightarrow> skynet_handle_grab hof h s = handle_map hof s h"
  using grab_registered handle_map_Some by (metis not_Some_eq)

lemma handle_map_None: "slots_ok hof s \<Longrightarrow> handle_map hof s h = None \<longleftrightarrow> h \<notin> hof ` contexts s"
  using handle_map_Some [of hof s h] by (metis imageE imageI not_Some_eq)

definition handle_ready :: "nat \<Rightarrow> handle_storage \<Rightarrow> bool" where
  "handle_ready ctx s \<longleftrightarrow> ctx \<notin> contexts s \<and> (full_slots s \<longrightarrow> length (slot s) < 2 ^ 24)"

lemma register_ok:
  assumes inv: "handle_inv hof s" and ready: "handle_ready ctx s"
  shows "\<exists>h s'. skynet_handle_register hof ctx s = Some (h, s') \<and> handle_inv (hof(ctx := h)) s'
     \<and> h \<notin> hof ` contexts s \<and> contexts s' = insert ctx (contexts s) \<and> names s' = names s
     \<and> harbor s' = harbor s"
proof -
  have ok: "slots_ok hof s" "names_ok s" using inv by (auto simp: handle_inv_def)
  have nm: "names_ok s' \<and> names s' = names s" if "same_names s s'" for s'
    using that ok(2) by (simp add: same_names_def names_ok_def names_def)
  show ?thesis
  proof (cases "full_slots s")
    case False
    then obtain h s' where "skynet_handle_register hof ctx s = Some (h, s')" "slots_ok (hof(ctx := h)) s'"
      "h \<notin> hof ` contexts s" "contexts s' = insert ctx (contexts s)" "same_names s s'"
      using register_free [OF ok(1)] ready unfolding full_slots_def handle_ready_def by blast
    with nm [of s'] show ?thesis by (auto simp: handle_inv_def same_names_def)
  next
    case True
    then have room: "length (slot s) < 2 ^ 24" using ready by (simp add: handle_ready_def)
    from register_grow [OF ok(1) True room] obtain new where
      new: "rehash hof (slot s) (replicate (length (slot s) * 2) None) = Some new"
        "slots_ok hof (s\<lparr>slot := new\<rparr>)" "contexts (s\<lparr>slot := new\<rparr>) = contexts s" "None \<in> set new" by blast
    have p: "register_probe 0 s = None"
      using slots_okD [OF ok(1)] register_probe_None True unfolding full_slots_def by metis
    have a: "int (length (slot s)) * 2 - 1 \<le> uint HANDLE_MASK"
    proof -
      from ok(1) obtain k where k: "length (slot s) = 2 ^ k" by (rule slots_okD)
      then have "k < 24" using room by (metis power_strict_increasing_iff one_less_numeral_iff semiring_norm(76))
      then have "(2::int) ^ Suc k \<le> 2 ^ 24" by (intro power_increasing) auto
      then show ?thesis using k by (simp add: uint_mask)
    qed
    have r: "skynet_handle_register hof ctx s = skynet_handle_register hof ctx (s\<lparr>slot := new\<rparr>)"
      by (subst skynet_handle_register.simps) (simp add: p a new(1))
    have "ctx \<notin> contexts s" using ready by (simp add: handle_ready_def)
    with register_free [OF new(2), of ctx] new(3,4) obtain h s' where
      "skynet_handle_register hof ctx (s\<lparr>slot := new\<rparr>) = Some (h, s')" "slots_ok (hof(ctx := h)) s'"
      "h \<notin> hof ` contexts s" "contexts s' = insert ctx (contexts s)" "same_names (s\<lparr>slot := new\<rparr>) s'"
      by auto
    with nm [of s'] r show ?thesis by (auto simp: handle_inv_def same_names_def)
  qed
qed

lemma register_full:
  assumes inv: "slots_ok hof s" and full: "full_slots s" "length (slot s) = 2 ^ 24"
  shows "skynet_handle_register hof ctx s = None"
proof -
  have "register_probe 0 s = None"
    using register_probe_None [of s 24] full by (simp add: full_slots_def)
  then show ?thesis
    by (subst skynet_handle_register.simps) (simp add: full(2) uint_mask assert_opt_def)
qed

lemma retire_ok:
  assumes "handle_inv hof s" "skynet_handle_retire hof h s = (ret, c, s')"
  shows "handle_inv hof s'" "ret \<longleftrightarrow> c \<noteq> None" "c = handle_map hof s h"
    "contexts s' = contexts s - {d. hof d = h}"
    "names s' = (if c = None then names s else filter (\<lambda>x. hn_handle x \<noteq> h) (names s))"
    "length (slot s') = length (slot s)"
proof -
  have ok: "slots_ok hof s" "names_ok s" using assms(1) by (auto simp: handle_inv_def)
  show "handle_inv hof s'" "ret \<longleftrightarrow> c \<noteq> None" "c = handle_map hof s h"
    "contexts s' = contexts s - {d. hof d = h}"
    "names s' = (if c = None then names s else filter (\<lambda>x. hn_handle x \<noteq> h) (names s))"
  proof -
    consider "skynet_handle_grab hof h s = None" | d where "skynet_handle_grab hof h s = Some d" by auto
    then have "handle_inv hof s' \<and> (ret \<longleftrightarrow> c \<noteq> None) \<and> c = handle_map hof s h
      \<and> contexts s' = contexts s - {d. hof d = h}
      \<and> names s' = (if c = None then names s else filter (\<lambda>x. hn_handle x \<noteq> h) (names s))"
    proof cases
      case 1
      then have "contexts s \<inter> {d. hof d = h} = {}" using grab_registered [OF ok(1), of h] by auto
      then show ?thesis using assms retire_miss [OF 1] 1 grab_eq_map [OF ok(1), of h] by auto
    next
      case (2 d)
      then have "contexts s \<inter> {d. hof d = h} = {d}"
        using grab_registered [OF ok(1), of h] hof_inj [OF ok(1)] by (auto simp: set_eq_iff)
      then show ?thesis
        using retire_hit [OF ok 2] assms 2 grab_eq_map [OF ok(1), of h] by (auto simp: handle_inv_def)
    qed
    then show "handle_inv hof s'" "ret \<longleftrightarrow> c \<noteq> None" "c = handle_map hof s h"
      "contexts s' = contexts s - {d. hof d = h}"
      "names s' = (if c = None then names s else filter (\<lambda>x. hn_handle x \<noteq> h) (names s))" by blast+
  qed
  show "length (slot s') = length (slot s)" using assms(2) by (rule retire_slot_length)
qed

text \<open>The table as a registry: the state also holds the handle fields of the contexts, and an
  addition is the registration followed by the assignment of \<open>ctx->handle\<close> that
  \<open>skynet_context_new\<close> makes of its result.\<close>

type_synonym handle_state = "(nat \<Rightarrow> u32) \<times> handle_storage"

definition handle_add :: "nat \<Rightarrow> handle_state \<Rightarrow> ((u32 \<times> nat) \<times> handle_state) option" where
  "handle_add ctx st = do {
     (h, s') \<leftarrow> skynet_handle_register (fst st) ctx (snd st);
     Some ((h, ctx), ((fst st)(ctx := h), s'))
   }"

definition handle_remove :: "u32 \<Rightarrow> handle_state \<Rightarrow> handle_state" where
  "handle_remove h st = (fst st, snd (snd (skynet_handle_retire (fst st) h (snd st))))"

lemma handle_map_restrict:
  assumes "handle_inv hof s" "handle_inv hof s'" "contexts s' = contexts s - {d. hof d = h}"
  shows "handle_map hof s' = (handle_map hof s)(h := None)"
proof
  fix k
  have ok: "slots_ok hof s" "slots_ok hof s'" using assms(1,2) by (auto simp: handle_inv_def)
  show "handle_map hof s' k = ((handle_map hof s)(h := None)) k"
  proof -
    have "handle_map hof s' k = Some c \<longleftrightarrow> k \<noteq> h \<and> handle_map hof s k = Some c" for c
      unfolding handle_map_Some [OF ok(1)] handle_map_Some [OF ok(2)] using assms(3) by auto
    then show ?thesis by (metis fun_upd_other fun_upd_same not_Some_eq)
  qed
qed

lemma handle_map_extend:
  assumes "handle_inv hof s" "handle_inv (hof(ctx := h)) s'" "contexts s' = insert ctx (contexts s)"
    "ctx \<notin> contexts s" "h \<notin> hof ` contexts s"
  shows "handle_map (hof(ctx := h)) s' = (handle_map hof s)(h \<mapsto> ctx)"
proof
  fix k
  have ok: "slots_ok hof s" "slots_ok (hof(ctx := h)) s'" using assms(1,2) by (auto simp: handle_inv_def)
  show "handle_map (hof(ctx := h)) s' k = ((handle_map hof s)(h \<mapsto> ctx)) k"
  proof (cases "k = h")
    case True
    then show ?thesis using handle_map_Some [OF ok(2), of h ctx] assms(3) by simp
  next
    case False
    have "handle_map (hof(ctx := h)) s' k = Some c \<longleftrightarrow> handle_map hof s k = Some c" for c
      unfolding handle_map_Some [OF ok(1)] handle_map_Some [OF ok(2)] using False assms(3,4) by auto
    then have "handle_map (hof(ctx := h)) s' k = handle_map hof s k" by (metis not_Some_eq)
    with False show ?thesis by simp
  qed
qed

lemma handle_add_ok:
  assumes inv: "handle_inv (fst st) (snd st)" and ready: "handle_ready ctx (snd st)"
  shows "\<exists>k v st'. handle_add ctx st = Some ((k, v), st') \<and> handle_inv (fst st') (snd st')
     \<and> k \<notin> dom (handle_map (fst st) (snd st)) \<and> v \<notin> ran (handle_map (fst st) (snd st))
     \<and> handle_map (fst st') (snd st') = (handle_map (fst st) (snd st))(k \<mapsto> v)"
proof -
  obtain hof s where st: "st = (hof, s)" by fastforce
  from register_ok [OF inv ready] st obtain h s' where
    r: "skynet_handle_register hof ctx s = Some (h, s')" "handle_inv (hof(ctx := h)) s'"
      "h \<notin> hof ` contexts s" "contexts s' = insert ctx (contexts s)" by auto
  have ok: "slots_ok hof s" and new: "ctx \<notin> contexts s"
    using inv ready st by (auto simp: handle_inv_def handle_ready_def)
  have "h \<notin> dom (handle_map hof s)" using handle_map_None [OF ok, of h] r(3) by (simp add: domIff)
  moreover have "ctx \<notin> ran (handle_map hof s)" using handle_map_Some [OF ok] new by (auto simp: ran_def)
  moreover have "handle_map (hof(ctx := h)) s' = (handle_map hof s)(h \<mapsto> ctx)"
    using handle_map_extend [of hof s ctx h s'] inv st r new by simp
  ultimately show ?thesis using r st by (auto simp: handle_add_def)
qed

lemma handle_remove_ok:
  assumes "handle_inv (fst st) (snd st)"
  shows "handle_inv (fst (handle_remove h st)) (snd (handle_remove h st))"
    "handle_map (fst (handle_remove h st)) (snd (handle_remove h st)) = (handle_map (fst st) (snd st))(h := None)"
proof -
  obtain hof s where st: "st = (hof, s)" by fastforce
  obtain ret c s' where r: "skynet_handle_retire hof h s = (ret, c, s')" by (metis prod_cases3)
  from assms st have inv: "handle_inv hof s" by simp
  note ok = retire_ok [OF inv r]
  show "handle_inv (fst (handle_remove h st)) (snd (handle_remove h st))"
    "handle_map (fst (handle_remove h st)) (snd (handle_remove h st)) = (handle_map (fst st) (snd st))(h := None)"
    using ok(1) handle_map_restrict [OF inv ok(1,4)] by (simp_all add: handle_remove_def st r)
qed

interpretation handles: registry "\<lambda>st. handle_inv (fst st) (snd st)" "\<lambda>st. handle_map (fst st) (snd st)"
  "\<lambda>ctx st. handle_ready ctx (snd st)" handle_add handle_remove
  "\<lambda>h st. skynet_handle_grab (fst st) h (snd st)"
proof
  show "\<And>s k. handle_inv (fst s) (snd s) \<Longrightarrow> skynet_handle_grab (fst s) k (snd s) = handle_map (fst s) (snd s) k"
    by (rule grab_eq_map) (simp add: handle_inv_def)
qed (fact handle_add_ok handle_remove_ok)+

lemma handle_init_inv: "handle_inv hof (skynet_handle_init hb)" "handle_map hof (skynet_handle_init hb) = Map.empty"
proof -
  have "push_bit 24 x AND HANDLE_MASK = 0" for x :: u32
    unfolding handle_mask_mask by (rule bit_word_eqI) (auto simp: bit_simps)
  then have "slots_ok hof (skynet_handle_init hb)"
    by (auto simp: slots_ok_def skynet_handle_init_def DEFAULT_SLOT_SIZE_def HANDLE_REMOTE_SHIFT_def
        numeral_eq_Suc less_Suc_eq intro!: exI [of _ 2])
  then show "handle_inv hof (skynet_handle_init hb)"
    by (simp add: handle_inv_def names_ok_def names_def skynet_handle_init_def)
  show "handle_map hof (skynet_handle_init hb) = Map.empty"
    by (simp add: fun_eq_iff handle_map_def skynet_handle_init_def)
qed

text \<open>C8. Registering a context in any well-formed storage gives it a handle no registered
  context has, with the node's harbor id in its high bits; the storage then maps that handle to
  the context and every other handle as before. The table grows when it is full, and only a
  table with all 2^24 slots taken makes the call fail.\<close>

theorem register_fresh_handle:
  assumes inv: "handle_inv hof s" and new: "ctx \<notin> contexts s"
    and room: "full_slots s \<longrightarrow> length (slot s) < 2 ^ 24"
  shows "\<exists>h s'. skynet_handle_register hof ctx s = Some (h, s')
     \<and> handle_map hof s h = None \<and> h AND NOT HANDLE_MASK = harbor s
     \<and> handle_inv (hof(ctx := h)) s'
     \<and> (\<forall>k. skynet_handle_grab (hof(ctx := h)) k s' = (if k = h then Some ctx else skynet_handle_grab hof k s))"
proof -
  have ready: "handle_ready ctx s" using new room by (simp add: handle_ready_def)
  from register_ok [OF inv ready] obtain h s' where
    r: "skynet_handle_register hof ctx s = Some (h, s')" "handle_inv (hof(ctx := h)) s'"
      "h \<notin> hof ` contexts s" "contexts s' = insert ctx (contexts s)" "harbor s' = harbor s" by auto
  have ok: "slots_ok hof s" "slots_ok (hof(ctx := h)) s'"
    using inv r(2) by (auto simp: handle_inv_def)
  have "h AND NOT HANDLE_MASK = harbor s"
  proof -
    have "ctx \<in> contexts s'" using r(4) by simp
    from context_at [OF ok(2) this] have "(hof(ctx := h)) ctx AND NOT HANDLE_MASK = harbor s'"
      using ok(2) unfolding slots_ok_def by metis
    then show ?thesis using r(5) by simp
  qed
  then show ?thesis
    using r handle_map_None [OF ok(1), of h] handle_map_extend [OF inv r(2,4) new r(3)]
    by (auto simp: grab_eq_map [OF ok(1)] grab_eq_map [OF ok(2)])
qed

theorem register_fresh_handle_witness:
  "handle_inv (\<lambda>_. 0) (skynet_handle_init 1)
   \<and> (\<exists>h s'. skynet_handle_register (\<lambda>_. 0) 7 (skynet_handle_init 1) = Some (h, s')
        \<and> skynet_handle_grab ((\<lambda>_. 0)(7 := h)) h s' = Some 7)"
proof (intro conjI handle_init_inv(1))
  have "7 \<notin> contexts (skynet_handle_init 1)"
    by (simp add: contexts_def skynet_handle_init_def)
  moreover have "full_slots (skynet_handle_init 1) \<longrightarrow> length (slot (skynet_handle_init 1)) < 2 ^ 24"
    by (simp add: skynet_handle_init_def DEFAULT_SLOT_SIZE_def)
  ultimately show "\<exists>h s'. skynet_handle_register (\<lambda>_. 0) 7 (skynet_handle_init 1) = Some (h, s')
        \<and> skynet_handle_grab ((\<lambda>_. 0)(7 := h)) h s' = Some 7"
    using register_fresh_handle [OF handle_init_inv(1) [of "\<lambda>_. 0" 1], of 7] by force
qed

text \<open>C9. Over any sequence of registrations and retirements from start-up, the storage is an
  injective finite map: \<open>skynet_handle_grab\<close> returns the context registered last under a
  handle that has not been retired since, and two handles never name one context.\<close>

theorem handle_storage_refines_map:
  assumes "handles.runs (hof, skynet_handle_init hb) es (hof', s')"
  shows "skynet_handle_grab hof' h s' = replay es Map.empty h
     \<and> handle_inv hof' s' \<and> inj_map (handle_map hof' s')"
  using handles.runs_refine_map [OF assms] handles.find_after_runs [OF assms] handle_init_inv
  by auto

definition demo_handles :: handle_state where
  "demo_handles = (\<lambda>_. 0, skynet_handle_init 1)"

lemma demo_run:
  "handles.runs demo_handles [Added 0x1000001 7, Removed 0x1000001]
     (handle_remove 0x1000001 (snd (the (handle_add 7 demo_handles))))"
proof (rule handles.runs_add)
  show "handle_ready 7 (snd demo_handles)"
    by (simp add: handle_ready_def demo_handles_def contexts_def skynet_handle_init_def DEFAULT_SLOT_SIZE_def)
  have p: "register_probe 0 (skynet_handle_init 1) = Some (1, 1)"
    by (subst register_probe.simps) (simp add: skynet_handle_init_def DEFAULT_SLOT_SIZE_def slot_hash_def HANDLE_MASK_def Let_def)
  have "(1::u32) OR harbor (skynet_handle_init 1) = 0x1000001"
    by (simp add: skynet_handle_init_def HANDLE_REMOTE_SHIFT_def push_bit_eq_mult)
  then show "handle_add 7 demo_handles = Some ((0x1000001, 7), snd (the (handle_add 7 demo_handles)))"
    using p by (simp add: handle_add_def demo_handles_def skynet_handle_register.simps)
qed (intro handles.runs_remove handles.runs_nil)

theorem handle_storage_refines_map_witness:
  "handles.runs demo_handles [Added 0x1000001 7, Removed 0x1000001]
     (handle_remove 0x1000001 (snd (the (handle_add 7 demo_handles))))
   \<and> skynet_handle_grab (fst (handle_remove 0x1000001 (snd (the (handle_add 7 demo_handles))))) 0x1000001
       (snd (handle_remove 0x1000001 (snd (the (handle_add 7 demo_handles))))) = None"
proof (intro conjI demo_run)
  have "handles.runs (\<lambda>_. 0, skynet_handle_init 1) [Added 0x1000001 7, Removed 0x1000001]
     (fst (handle_remove 0x1000001 (snd (the (handle_add 7 demo_handles)))),
      snd (handle_remove 0x1000001 (snd (the (handle_add 7 demo_handles)))))"
    using demo_run by (simp add: demo_handles_def)
  from handle_storage_refines_map [OF this, of "0x1000001"]
  show "skynet_handle_grab (fst (handle_remove 0x1000001 (snd (the (handle_add 7 demo_handles))))) 0x1000001
       (snd (handle_remove 0x1000001 (snd (the (handle_add 7 demo_handles))))) = None"
    by simp
qed

text \<open>C10. The name table is a finite map kept in a sorted array: naming a handle succeeds
  exactly when the name is free, the binary search of \<open>skynet_handle_findname\<close> then returns
  the handle bound to any name (0 when there is none), and a taken name keeps its handle.\<close>

theorem name_table_correct:
  assumes "handle_inv hof s" "name_cap s * 2 \<le> MAX_SLOT_SIZE"
  shows "\<exists>r s'. skynet_handle_namehandle h nm s = Some (r, s') \<and> handle_inv hof s'
     \<and> (r = None \<longleftrightarrow> nm \<in> dom (name_map s))
     \<and> (\<forall>x. skynet_handle_findname x s' =
          Some (if x = nm \<and> nm \<notin> dom (name_map s) then h
                else case name_map s x of Some g \<Rightarrow> g | None \<Rightarrow> 0))"
proof -
  have ok: "slots_ok hof s" "names_ok s" using assms(1) by (auto simp: handle_inv_def)
  from namehandle_spec [OF ok(2), of h nm] assms(2) obtain s' where
    s': "skynet_handle_namehandle h nm s = Some (if nm \<in> dom (name_map s) then None else Some nm, s')"
      "names_ok s'" "name_map s' = (if nm \<in> dom (name_map s) then name_map s else (name_map s)(nm \<mapsto> h))"
      "slot s' = slot s" "harbor s' = harbor s" by blast
  have "slots_ok hof s'" using ok(1) s'(4,5) by (simp add: slots_ok_def)
  then show ?thesis using s' by (auto simp: handle_inv_def findname_eval)
qed

theorem name_table_correct_witness:
  "handle_inv (\<lambda>_. 0) (skynet_handle_init 1) \<and> name_cap (skynet_handle_init 1) * 2 \<le> MAX_SLOT_SIZE
   \<and> (\<exists>s'. skynet_handle_namehandle 5 [97] (skynet_handle_init 1) = Some (Some [97], s')
        \<and> skynet_handle_findname [97] s' = Some 5)"
proof (intro conjI handle_init_inv(1))
  show c: "name_cap (skynet_handle_init 1) * 2 \<le> MAX_SLOT_SIZE"
    by (simp add: skynet_handle_init_def MAX_SLOT_SIZE_def)
  have "name_map (skynet_handle_init 1) = Map.empty"
    by (simp add: name_map_def names_def skynet_handle_init_def)
  with namehandle_spec [of "skynet_handle_init 1" 5 "[97]"] c handle_init_inv(1) [of "\<lambda>_. 0" 1]
    name_table_correct [OF handle_init_inv(1) [of "\<lambda>_. 0" 1] c, of 5 "[97]"]
  show "\<exists>s'. skynet_handle_namehandle 5 [97] (skynet_handle_init 1) = Some (Some [97], s')
        \<and> skynet_handle_findname [97] s' = Some 5"
    by (fastforce simp: handle_inv_def)
qed

text \<open>Retiring a handle unregisters its context and removes exactly the names bound to it,
  keeping the order of the others; every other handle still names its context. A handle no
  context has is refused and nothing changes.\<close>

lemma retire_unregisters:
  assumes "handle_inv hof s"
  shows "\<exists>s'. skynet_handle_retire hof h s = (handle_map hof s h \<noteq> None, handle_map hof s h, s')
     \<and> handle_inv hof s' \<and> handle_map hof s' = (handle_map hof s)(h := None)
     \<and> (if handle_map hof s h = None then s' = s
        else names s' = filter (\<lambda>x. hn_handle x \<noteq> h) (names s))"
proof -
  obtain ret c s' where r: "skynet_handle_retire hof h s = (ret, c, s')" by (metis prod_cases3)
  note ok = retire_ok [OF assms r]
  have "s' = s" if "handle_map hof s h = None"
    using retire_miss [of hof h s] that r assms by (simp add: grab_eq_map handle_inv_def)
  then show ?thesis
    using r ok handle_map_restrict [OF assms ok(1,4)] by auto
qed

theorem retire_unregisters_witness:
  "handle_inv (\<lambda>_. 0) (skynet_handle_init 1)
   \<and> (\<exists>s'. skynet_handle_retire (\<lambda>_. 0) 9 (skynet_handle_init 1) = (False, None, s'))"
  using retire_unregisters [OF handle_init_inv(1) [of "\<lambda>_. 0" 1], of 9] handle_init_inv
  by (auto simp: handle_init_inv)

text \<open>One pass of \<open>skynet_handle_retireall\<close> retires every context with a handle other than 0.\<close>

definition from_slot :: "(nat \<Rightarrow> u32) \<Rightarrow> nat \<Rightarrow> handle_storage \<Rightarrow> nat set" where
  "from_slot hof i s = {c \<in> contexts s. hof c \<noteq> 0 \<and> i \<le> slot_hash (hof c) (length (slot s))}"

lemma from_slot_at:
  assumes "slots_ok hof s" "i < length (slot s)"
  shows "from_slot hof i s = (case slot s ! i of Some c \<Rightarrow> if hof c \<noteq> 0 then {c} else {} | None \<Rightarrow> {})
     \<union> from_slot hof (Suc i) s" (is "?l = ?r")
proof -
  have "c \<in> ?l \<longleftrightarrow> c \<in> ?r" for c
  proof (cases "c \<in> contexts s")
    case True
    have "slot_hash (hof c) (length (slot s)) = i \<longleftrightarrow> slot s ! i = Some c"
      using context_at [OF assms(1) True] assms unfolding slots_ok_def by metis
    with True show ?thesis by (auto simp: from_slot_def le_Suc_eq Suc_le_eq le_less split: option.splits)
  next
    case False
    then have "slot s ! i \<noteq> Some c" using assms(2) by (metis contexts_def mem_Collect_eq nth_mem)
    with False show ?thesis by (auto simp: from_slot_def split: option.splits)
  qed
  then show ?thesis by blast
qed

lemma retire_sweep_spec:
  assumes "handle_inv hof s" "retire_sweep hof i s = (cs, s')"
  shows "handle_inv hof s' \<and> set cs = from_slot hof i s \<and> distinct cs \<and> contexts s' = contexts s - set cs"
  using assms
proof (induction hof i s arbitrary: cs s' rule: retire_sweep.induct)
  case (1 hof i s)
  have ok: "slots_ok hof s" using "1.prems"(1) by (simp add: handle_inv_def)
  let ?h = "case slot s ! i of Some ctx \<Rightarrow> hof ctx | None \<Rightarrow> 0"
  show ?case
  proof (cases "i < length (slot s)")
    case False
    then have "from_slot hof i s = {}" using context_at [OF ok] by (force simp: from_slot_def)
    then show ?thesis using False "1.prems" by (simp add: retire_sweep.simps)
  next
    case i: True
    show ?thesis
    proof (cases "?h = 0")
      case True
      then have "from_slot hof i s = from_slot hof (Suc i) s"
        by (auto simp: from_slot_at [OF ok i] split: option.splits)
      with "1.IH"(2) [OF i refl _ "1.prems"(1)] True i "1.prems"(2) show ?thesis
        by (simp add: retire_sweep.simps [of hof i s] Let_def)
    next
      case False
      then obtain c where c: "slot s ! i = Some c" "hof c \<noteq> 0" by (auto split: option.splits)
      obtain ret d s1 where r: "skynet_handle_retire hof (hof c) s = (ret, d, s1)" by (metis prod_cases3)
      note rok = retire_ok [OF "1.prems"(1) r]
      have cin: "c \<in> contexts s" using c(1) i by (auto simp: contexts_def in_set_conv_nth)
      then have d: "d = Some c" using rok(3) handle_map_Some [OF ok] by simp
      have cs1: "contexts s1 = contexts s - {c}" using rok(4) hof_inj [OF ok] cin by auto
      obtain cs' where cs': "retire_sweep hof (Suc i) s1 = (cs', s')" "cs = c # cs'"
        using "1.prems"(2) i c r d
        by (subst (asm) retire_sweep.simps) (auto simp: Let_def split: prod.splits)
      have ih: "handle_inv hof s' \<and> set cs' = from_slot hof (Suc i) s1 \<and> distinct cs' \<and> contexts s' = contexts s1 - set cs'"
        using "1.IH"(1) [OF i refl _ _ refl rok(1) cs'(1)] c r by auto
      have "from_slot hof (Suc i) s1 = from_slot hof (Suc i) s - {c}"
        using cs1 rok(6) by (auto simp: from_slot_def)
      moreover have "from_slot hof i s = insert c (from_slot hof (Suc i) s)"
        using from_slot_at [OF ok i] c by auto
      ultimately show ?thesis using ih cs'(2) cs1 by auto
    qed
  qed
qed

lemma retire_sweep_all:
  assumes "handle_inv hof s" "retire_sweep hof 0 s = (cs, s')"
  shows "handle_inv hof s'" "set cs = {c \<in> contexts s. hof c \<noteq> 0}" "distinct cs"
    "contexts s' = {c \<in> contexts s. hof c = 0}"
  using retire_sweep_spec [OF assms] by (auto simp: from_slot_def)

lemma retireall_spec:
  assumes inv: "handle_inv hof s"
  shows "\<exists>cs s'. skynet_handle_retireall hof s = Some (cs, s') \<and> handle_inv hof s'
     \<and> distinct cs \<and> set cs = {c \<in> contexts s. hof c \<noteq> 0} \<and> contexts s' = {c \<in> contexts s. hof c = 0}"
proof -
  obtain cs s' where r: "retire_sweep hof 0 s = (cs, s')" by fastforce
  note a = retire_sweep_all [OF inv r]
  obtain cs2 s2 where r2: "retire_sweep hof 0 s' = (cs2, s2)" by fastforce
  note a2 = retire_sweep_all [OF a(1) r2]
  have e: "cs2 = []" using a2(2) a(4) by auto
  have "skynet_handle_retireall hof s' = Some ([], s2)"
    by (subst skynet_handle_retireall.simps) (simp add: r2 e)
  then have "skynet_handle_retireall hof s = Some (cs, if cs = [] then s' else s2)"
    by (subst skynet_handle_retireall.simps) (simp add: r)
  then show ?thesis using a a2 by auto
qed

text \<open>C11. \<open>skynet_handle_retireall\<close> ends, after at most two passes when no service is created
  meanwhile, and hands exactly the contexts with a handle other than 0 over for release, each once.\<close>

theorem retireall_terminates:
  assumes inv: "handle_inv hof s"
  shows "\<exists>cs s'. skynet_handle_retireall hof s = Some (cs, s') \<and> handle_inv hof s'
     \<and> distinct cs \<and> set cs = {c \<in> contexts s. hof c \<noteq> 0} \<and> contexts s' = {c \<in> contexts s. hof c = 0}"
  using retireall_spec [OF inv] .

theorem retireall_terminates_witness:
  "handle_inv (\<lambda>_. 0) (skynet_handle_init 1)
   \<and> (\<exists>cs s'. skynet_handle_retireall (\<lambda>_. 0) (skynet_handle_init 1) = Some (cs, s') \<and> handle_inv (\<lambda>_. 0) s')"
  using retireall_terminates [OF handle_init_inv(1) [of "\<lambda>_. 0" 1]] handle_init_inv(1) [of "\<lambda>_. 0" 1] by blast

section \<open>What the handle storage does not guarantee\<close>

text \<open>The handle 0 is meant to be reserved, but once the 24-bit index has wrapped around it
  is given out on a node with harbor 0: the search masks \<open>handle_index\<close> without skipping 0.\<close>

theorem register_gives_zero:
  assumes "handle_inv hof s" "handle_index s = 0x1000000" "slot s ! 0 = None" "harbor s = 0"
  shows "\<exists>s'. skynet_handle_register hof ctx s = Some (0, s')"
proof -
  from assms(1) obtain k where k: "length (slot s) = 2 ^ k" by (auto simp: handle_inv_def elim: slots_okD)
  have "register_probe 0 s = Some (0, 0)"
    using assms(2,3) k by (subst register_probe.simps) (simp add: HANDLE_MASK_def slot_hash_def Let_def)
  then show ?thesis using assms(4) by (subst skynet_handle_register.simps) simp
qed

theorem register_gives_zero_witness:
  "handle_inv (\<lambda>_. 0) ((skynet_handle_init 0)\<lparr>handle_index := 0x1000000\<rparr>)
   \<and> (\<exists>s'. skynet_handle_register (\<lambda>_. 0) 7 ((skynet_handle_init 0)\<lparr>handle_index := 0x1000000\<rparr>) = Some (0, s'))"
proof (intro conjI)
  show i: "handle_inv (\<lambda>_. 0) ((skynet_handle_init 0)\<lparr>handle_index := 0x1000000\<rparr>)"
    using handle_init_inv(1) [of "\<lambda>_. 0" 0] by (simp add: handle_inv_def slots_ok_def names_ok_def names_def)
  show "\<exists>s'. skynet_handle_register (\<lambda>_. 0) 7 ((skynet_handle_init 0)\<lparr>handle_index := 0x1000000\<rparr>) = Some (0, s')"
    by (rule register_gives_zero [OF i]) (simp_all add: skynet_handle_init_def DEFAULT_SLOT_SIZE_def)
qed

definition race_storage :: handle_storage where
  "race_storage = (skynet_handle_init 0)\<lparr>slot := [Some 10, Some 11, Some 12, Some 13], handle_index := 9\<rparr>"

definition race_handles :: "nat \<Rightarrow> u32" where
  "race_handles c = (if c = 10 then 8 else if c = 11 then 1 else if c = 12 then 2 else if c = 13 then 3 else 0)"

text \<open>\<open>skynet_context_new\<close> stores \<open>ctx->handle\<close> after \<open>skynet_handle_register\<close> has dropped the
  lock; until then the field is 0. A table that another thread's registration doubles in that
  window rehashes the new context by 0 and not by its handle: here the storage is well-formed
  for the handles given out, and with the field of one context still 0 the registration dies
  in \<open>assert(new_slot[hash] == NULL)\<close>.\<close>

lemma resize_race_aborts:
  "handle_inv race_handles race_storage
   \<and> skynet_handle_register race_handles 14 race_storage \<noteq> None
   \<and> skynet_handle_register (race_handles(13 := 0)) 14 race_storage = None"
proof (intro conjI)
  have "slots_ok race_handles race_storage"
    unfolding slots_ok_def by (auto simp: race_storage_def race_handles_def skynet_handle_init_def slot_hash_def
        HANDLE_MASK_def HANDLE_REMOTE_SHIFT_def less_Suc_eq intro!: exI [of _ 2])
  then show inv: "handle_inv race_handles race_storage"
    by (simp add: handle_inv_def names_ok_def names_def race_storage_def skynet_handle_init_def)
  have "handle_ready 14 race_storage"
    by (simp add: handle_ready_def contexts_def race_storage_def)
  from register_ok [OF inv this] show "skynet_handle_register race_handles 14 race_storage \<noteq> None" by auto
  have l: "length (slot race_storage) = 2 ^ 2" by (simp add: race_storage_def)
  have "register_probe 0 race_storage = None"
    unfolding register_probe_None [OF l, simplified] by (simp add: race_storage_def)
  moreover have "rehash (race_handles(13 := 0)) (slot race_storage) (replicate (length (slot race_storage) * 2) None) = None"
    by code_simp
  ultimately show "skynet_handle_register (race_handles(13 := 0)) 14 race_storage = None"
    by (subst skynet_handle_register.simps) (simp add: assert_opt_def)
qed

end
