(* ===== verification/Timer.thy ===== *)
theory Timer
  imports Message_Queue
begin

unbundle bit_operations_syntax

text \<open>
  \<^verbatim>\<open>skynet-src/skynet_timer.c\<close>: the hierarchical timing wheel. A timer keeps a list per
  slot of the near wheel (256 slots) and of four levels of 64 slots. The linked lists of
  \<open>struct link_list\<close> are lists, in insertion order. A tick (\<open>timer_update\<close>) returns the
  events it dispatches, in order; handing each to \<open>skynet_context_push\<close> is the business
  of the server model. The lock \<open>T->lock\<close> makes each function a single step; the window
  inside \<open>timer_execute\<close> in which the lock is released is not used by anything else here.
\<close>

section \<open>Data\<close>

definition TIME_NEAR_SHIFT :: nat where "TIME_NEAR_SHIFT = 8"
definition TIME_LEVEL_SHIFT :: nat where "TIME_LEVEL_SHIFT = 6"
definition TIME_NEAR :: nat where "TIME_NEAR = 2 ^ TIME_NEAR_SHIFT"
definition TIME_LEVEL :: nat where "TIME_LEVEL = 2 ^ TIME_LEVEL_SHIFT"
definition TIME_NEAR_MASK :: u32 where "TIME_NEAR_MASK = of_nat TIME_NEAR - 1"
definition TIME_LEVEL_MASK :: u32 where "TIME_LEVEL_MASK = of_nat TIME_LEVEL - 1"

record timer_event =
  te_handle :: u32
  te_session :: int

record timer_node =
  expire :: u32
  event :: timer_event

record timer =
  near :: "timer_node list list"
  t_wheel :: "timer_node list list list"
  time :: u32
  starttime :: u32
  current :: u64
  current_point :: u64

section \<open>Operations\<close>

text \<open>\<open>link_clear\<close> on slot \<open>i\<close> of a wheel: the nodes it held, and the wheel without them;
  \<open>link\<close> appends a node to a slot.\<close>

definition link_clear :: "timer_node list list \<Rightarrow> nat \<Rightarrow> timer_node list \<times> timer_node list list" where
  "link_clear w i = (w ! i, w[i := []])"

definition link :: "timer_node list list \<Rightarrow> nat \<Rightarrow> timer_node \<Rightarrow> timer_node list list" where
  "link w i n = w[i := w ! i @ [n]]"

text \<open>The loop of \<open>add_node\<close> that looks for the level: \<open>i\<close> and \<open>msk\<close> are its variables.\<close>

function level_loop :: "u32 \<Rightarrow> u32 \<Rightarrow> nat \<Rightarrow> u32 \<Rightarrow> nat" where
  "level_loop tm cur i msk =
     (if i < 3 then
        (if tm OR (msk - 1) = cur OR (msk - 1) then i
         else level_loop tm cur (Suc i) (push_bit TIME_LEVEL_SHIFT msk))
      else i)"
  by pat_completeness auto
termination
  by (relation "measure (\<lambda>(_, _, i, _). 3 - i)") auto

declare level_loop.simps [simp del]

definition add_node :: "timer_node \<Rightarrow> timer \<Rightarrow> timer" where
  "add_node n T =
     (let tm = expire n; cur = time T in
      if tm OR TIME_NEAR_MASK = cur OR TIME_NEAR_MASK
      then T\<lparr>near := link (near T) (unat (tm AND TIME_NEAR_MASK)) n\<rparr>
      else
        let i = level_loop tm cur 0 (push_bit TIME_LEVEL_SHIFT (of_nat TIME_NEAR));
            idx = unat (drop_bit (TIME_NEAR_SHIFT + i * TIME_LEVEL_SHIFT) tm AND TIME_LEVEL_MASK)
        in T\<lparr>t_wheel := (t_wheel T)[i := link (t_wheel T ! i) idx n]\<rparr>)"

definition timer_add :: "timer_event \<Rightarrow> int \<Rightarrow> timer \<Rightarrow> timer" where
  "timer_add e t T = add_node \<lparr>expire = word_of_int t + time T, event = e\<rparr> T"

definition move_list :: "nat \<Rightarrow> nat \<Rightarrow> timer \<Rightarrow> timer" where
  "move_list level idx T =
     (let (ns, w) = link_clear (t_wheel T ! level) idx
      in fold add_node ns (T\<lparr>t_wheel := (t_wheel T)[level := w]\<rparr>))"

text \<open>
  The loop of \<open>timer_shift\<close>. In C \<open>msk\<close> is an \<open>int\<close> and the loop would not stop on
  a zero counter; it is entered with a non-zero \<open>ct\<close> only. The model carries the loop's
  own variables and is fuelled by the number of levels; \<open>None\<close> is a run past the
  last level, which \<open>shift_loop_ends\<close> excludes.
\<close>

fun shift_loop :: "nat \<Rightarrow> u32 \<Rightarrow> u32 \<Rightarrow> nat \<Rightarrow> u32 \<Rightarrow> timer \<Rightarrow> timer option" where
  "shift_loop 0 ct msk i tm T = None"
| "shift_loop (Suc n) ct msk i tm T =
     (if ct AND (msk - 1) = 0 then
        let idx = unat (tm AND TIME_LEVEL_MASK) in
        if idx \<noteq> 0 then Some (move_list i idx T)
        else shift_loop n ct (push_bit TIME_LEVEL_SHIFT msk) (Suc i) (drop_bit TIME_LEVEL_SHIFT tm) T
      else Some T)"

definition timer_shift :: "timer \<Rightarrow> timer option" where
  "timer_shift T =
     (let ct = time T + 1; T = T\<lparr>time := ct\<rparr> in
      if ct = 0 then Some (move_list 3 0 T)
      else shift_loop 4 ct (of_nat TIME_NEAR) 0 (drop_bit TIME_NEAR_SHIFT ct) T)"

text \<open>\<open>timer_execute\<close>: the nodes of the current near slot, which it dispatches, and the timer
  without them. After the slot is cleared its list is empty, so the C loop runs once.\<close>

definition timer_execute :: "timer \<Rightarrow> timer_node list \<times> timer" where
  "timer_execute T =
     (let idx = unat (time T AND TIME_NEAR_MASK); (ns, w) = link_clear (near T) idx
      in (ns, T\<lparr>near := w\<rparr>))"

definition timer_update :: "timer \<Rightarrow> (timer_node list \<times> timer) option" where
  "timer_update T = do {
     let (ns1, T) = timer_execute T;
     T \<leftarrow> timer_shift T;
     let (ns2, T) = timer_execute T;
     Some (ns1 @ ns2, T)
   }"

definition timer_create_timer :: timer where
  "timer_create_timer =
     \<lparr>near = replicate TIME_NEAR [], t_wheel = replicate 4 (replicate TIME_LEVEL []),
      time = 0, starttime = 0, current = 0, current_point = 0\<rparr>"

text \<open>The message \<open>dispatch_list\<close> and \<open>skynet_timeout\<close> push for an event.\<close>

definition PTYPE_RESPONSE :: u64 where "PTYPE_RESPONSE = 1"

definition timer_message :: "int \<Rightarrow> skynet_message" where
  "timer_message sess =
     \<lparr>source = 0, session = sess, data = PNull, sz = push_bit MESSAGE_TYPE_SHIFT PTYPE_RESPONSE\<rparr>"

definition dispatch_list :: "timer_node list \<Rightarrow> (u32 \<times> skynet_message) list" where
  "dispatch_list ns = map (\<lambda>n. (te_handle (event n), timer_message (te_session (event n)))) ns"

text \<open>
  \<open>skynet_updatetime\<close> with the reading \<open>cp\<close> of the monotonic clock: the events dispatched,
  in order, and the new timer. The flag tells that the clock went backwards, which the code
  logs.
\<close>

fun update_loop :: "nat \<Rightarrow> timer \<Rightarrow> (timer_node list \<times> timer) option" where
  "update_loop 0 T = Some ([], T)"
| "update_loop (Suc n) T = do {
     (ns, T) \<leftarrow> timer_update T;
     (ns', T) \<leftarrow> update_loop n T;
     Some (ns @ ns', T)
   }"

definition skynet_updatetime :: "u64 \<Rightarrow> timer \<Rightarrow> (bool \<times> timer_node list \<times> timer) option" where
  "skynet_updatetime cp T =
     (if cp < current_point T then Some (True, [], T\<lparr>current_point := cp\<rparr>)
      else if cp \<noteq> current_point T then do {
        let diff = (ucast (cp - current_point T) :: u32);
        (ns, T) \<leftarrow> update_loop (unat diff)
          (T\<lparr>current_point := cp, current := current T + ucast diff\<rparr>);
        Some (False, ns, T)
      }
      else Some (False, [], T))"

definition skynet_starttime :: "timer \<Rightarrow> u32" where "skynet_starttime T = starttime T"
definition skynet_now :: "timer \<Rightarrow> u64" where "skynet_now T = current T"

text \<open>\<open>systime\<close> and \<open>gettime\<close>: a clock reading (seconds, nanoseconds) in centiseconds.\<close>

definition systime :: "nat \<Rightarrow> nat \<Rightarrow> u32 \<times> u32" where
  "systime tv_sec tv_nsec = (of_nat tv_sec, of_nat (tv_nsec div 10000000))"

definition gettime :: "nat \<Rightarrow> nat \<Rightarrow> u64" where
  "gettime tv_sec tv_nsec = of_nat tv_sec * 100 + of_nat (tv_nsec div 10000000)"

definition skynet_timer_init :: "nat \<times> nat \<Rightarrow> nat \<times> nat \<Rightarrow> timer" where
  "skynet_timer_init rt mt =
     (let (sec, cs) = systime (fst rt) (snd rt)
      in timer_create_timer\<lparr>starttime := sec, current := ucast cs,
           current_point := gettime (fst mt) (snd mt)\<rparr>)"

section \<open>Constants\<close>

lemma mask_consts:
  "TIME_NEAR_MASK = mask 8" "TIME_LEVEL_MASK = mask 6" "of_nat TIME_NEAR = (2 :: u32) ^ 8"
  by (simp_all add: TIME_NEAR_MASK_def TIME_LEVEL_MASK_def TIME_NEAR_def TIME_LEVEL_def
      TIME_NEAR_SHIFT_def TIME_LEVEL_SHIFT_def mask_eq_exp_minus_1)

lemma mask_values:
  "mask 8 = (255 :: u32)" "mask 14 = (16383 :: u32)" "mask 20 = (1048575 :: u32)"
  "mask 26 = (67108863 :: u32)" "mask 6 = (63 :: u32)"
  by (simp_all add: mask_eq_exp_minus_1)

section \<open>Where a node belongs\<close>

datatype slot = Near nat | Lvl nat nat

definition slot_nat :: "nat \<Rightarrow> nat \<Rightarrow> slot" where
  "slot_nat c e =
     (if e div 2 ^ 8 = c div 2 ^ 8 then Near (e mod 2 ^ 8)
      else if e div 2 ^ 14 = c div 2 ^ 14 then Lvl 0 (e div 2 ^ 8 mod 64)
      else if e div 2 ^ 20 = c div 2 ^ 20 then Lvl 1 (e div 2 ^ 14 mod 64)
      else if e div 2 ^ 26 = c div 2 ^ 26 then Lvl 2 (e div 2 ^ 20 mod 64)
      else Lvl 3 (e div 2 ^ 26 mod 64))"

definition slot_of :: "u32 \<Rightarrow> u32 \<Rightarrow> slot" where
  "slot_of c e = slot_nat (unat c) (unat e)"

fun bucket :: "timer \<Rightarrow> slot \<Rightarrow> timer_node list" where
  "bucket T (Near i) = near T ! i"
| "bucket T (Lvl l i) = t_wheel T ! l ! i"

fun valid_slot :: "slot \<Rightarrow> bool" where
  "valid_slot (Near i) \<longleftrightarrow> i < 256"
| "valid_slot (Lvl l i) \<longleftrightarrow> l < 4 \<and> i < 64"

definition wheel_wf :: "timer \<Rightarrow> bool" where
  "wheel_wf T \<longleftrightarrow> length (near T) = 256 \<and> length (t_wheel T) = 4 \<and> (\<forall>l < 4. length (t_wheel T ! l) = 64)"

lemma drop_eq_div: "drop_bit n x = drop_bit n y \<longleftrightarrow> unat x div 2 ^ n = unat y div 2 ^ n" for x y :: u32
  by (simp only: unat_drop_bit_div [symmetric] word_unat_eq_iff)

lemma level_loop_eval:
  "level_loop e c 0 (2 ^ 14) =
     (if unat e div 2 ^ 14 = unat c div 2 ^ 14 then 0
      else if unat e div 2 ^ 20 = unat c div 2 ^ 20 then 1
      else if unat e div 2 ^ 26 = unat c div 2 ^ 26 then 2 else 3)"
  unfolding drop_eq_div [symmetric] or_mask_eq [symmetric]
  by (simp add: level_loop.simps [of e c] TIME_LEVEL_SHIFT_def mask_values push_bit_eq_mult)

lemma near_test: "(e OR TIME_NEAR_MASK = c OR TIME_NEAR_MASK) \<longleftrightarrow> unat e div 2 ^ 8 = unat c div 2 ^ 8"
  unfolding mask_consts or_mask_eq drop_eq_div ..

lemma level_start: "push_bit TIME_LEVEL_SHIFT (of_nat TIME_NEAR) = (2 :: u32) ^ 14"
  by (simp add: TIME_LEVEL_SHIFT_def TIME_NEAR_def TIME_NEAR_SHIFT_def)

lemma level_shifts:
  "8 + 0 * 6 = (8 :: nat)" "8 + 1 * 6 = (14 :: nat)" "8 + 2 * 6 = (20 :: nat)" "8 + 3 * 6 = (26 :: nat)"
  "2 ^ 6 = (64 :: nat)"
  by simp_all

lemma add_node_slot:
  "add_node n T = (case slot_of (time T) (expire n) of
     Near i \<Rightarrow> T\<lparr>near := link (near T) i n\<rparr>
   | Lvl l i \<Rightarrow> T\<lparr>t_wheel := (t_wheel T)[l := link (t_wheel T ! l) i n]\<rparr>)"
  unfolding add_node_def Let_def near_test level_start level_loop_eval slot_of_def slot_nat_def
  unfolding mask_consts(1,2) unat_and_mask unat_drop_bit_div TIME_NEAR_SHIFT_def TIME_LEVEL_SHIFT_def
  by (cases "unat (expire n) div 2 ^ 8 = unat (time T) div 2 ^ 8";
      cases "unat (expire n) div 2 ^ 14 = unat (time T) div 2 ^ 14";
      cases "unat (expire n) div 2 ^ 20 = unat (time T) div 2 ^ 20";
      cases "unat (expire n) div 2 ^ 26 = unat (time T) div 2 ^ 26")
     (simp_all only: if_True if_False slot.case level_shifts simp_thms)

lemma slot_of_valid: "valid_slot (slot_of c e)"
  by (simp add: slot_of_def slot_nat_def)

lemma add_node_bucket:
  assumes "wheel_wf T" "valid_slot sl"
  shows "bucket (add_node n T) sl =
    (if sl = slot_of (time T) (expire n) then bucket T sl @ [n] else bucket T sl)"
  using assms slot_of_valid [of "time T" "expire n"]
  by (cases sl; cases "slot_of (time T) (expire n)")
     (auto simp: add_node_slot link_def wheel_wf_def nth_list_update)

lemma add_node_wf [simp]: "wheel_wf T \<Longrightarrow> wheel_wf (add_node n T)"
  using slot_of_valid [of "time T" "expire n"]
  by (cases "slot_of (time T) (expire n)")
     (auto simp: add_node_slot link_def wheel_wf_def nth_list_update)

lemma add_node_time [simp]: "time (add_node n T) = time T"
  by (cases "slot_of (time T) (expire n)") (auto simp: add_node_slot)

lemma fold_add_node:
  "wheel_wf T \<Longrightarrow> wheel_wf (fold add_node ns T) \<and> time (fold add_node ns T) = time T
   \<and> (\<forall>sl. valid_slot sl \<longrightarrow>
        bucket (fold add_node ns T) sl = bucket T sl @ filter (\<lambda>n. slot_of (time T) (expire n) = sl) ns)"
  by (induction ns arbitrary: T) (auto simp: add_node_bucket)

section \<open>The abstract timer: a first-in first-out list of events for every expiry time\<close>

definition due :: "timer \<Rightarrow> u32 \<Rightarrow> timer_node list" where
  "due T e = filter (\<lambda>n. expire n = e) (bucket T (slot_of (time T) e))"

definition placed :: "timer \<Rightarrow> bool" where
  "placed T \<longleftrightarrow> (\<forall>sl n. valid_slot sl \<longrightarrow> n \<in> set (bucket T sl) \<longrightarrow> slot_of (time T) (expire n) = sl)"

text \<open>A time that lies ahead by less than \<open>2^31\<close> ticks.\<close>

definition ahead :: "u32 \<Rightarrow> u32 \<Rightarrow> bool" where
  "ahead c e \<longleftrightarrow> 0 < unat (e - c) \<and> unat (e - c) < 2 ^ 31"

definition timer_inv :: "timer \<Rightarrow> bool" where
  "timer_inv T \<longleftrightarrow> wheel_wf T \<and> placed T
     \<and> (\<forall>sl n. valid_slot sl \<longrightarrow> n \<in> set (bucket T sl) \<longrightarrow> ahead (time T) (expire n))"

lemma due_add_node:
  assumes "wheel_wf T"
  shows "due (add_node n T) e = due T e @ (if expire n = e then [n] else [])"
  using assms by (auto simp: due_def add_node_bucket slot_of_valid)

lemma placed_add_node: "wheel_wf T \<Longrightarrow> placed T \<Longrightarrow> placed (add_node n T)"
  unfolding placed_def by (auto simp: add_node_bucket split: if_splits)

lemma due_fold_add_node:
  "wheel_wf T \<Longrightarrow> due (fold add_node ns T) e = due T e @ filter (\<lambda>n. expire n = e) ns"
  by (induction ns arbitrary: T) (auto simp: due_add_node)

lemma placed_fold_add_node: "wheel_wf T \<Longrightarrow> placed T \<Longrightarrow> placed (fold add_node ns T)"
  by (induction ns arbitrary: T) (auto simp: placed_add_node)

section \<open>What one tick moves\<close>

definition moved :: "nat \<Rightarrow> (nat \<times> nat) option" where
  "moved c =
     (if c = 0 then Some (3, 0)
      else if c mod 2 ^ 8 \<noteq> 0 then None
      else if c div 2 ^ 8 mod 64 \<noteq> 0 then Some (0, c div 2 ^ 8 mod 64)
      else if c div 2 ^ 14 mod 64 \<noteq> 0 then Some (1, c div 2 ^ 14 mod 64)
      else if c div 2 ^ 20 mod 64 \<noteq> 0 then Some (2, c div 2 ^ 20 mod 64)
      else Some (3, c div 2 ^ 26 mod 64))"

lemma mod_next: "(c :: nat) mod 2 ^ k = 0 \<Longrightarrow> c div 2 ^ k mod 64 = 0 \<Longrightarrow> c mod 2 ^ (k + 6) = 0"
  by (simp add: power_add mod_mult2_eq)

lemma and_mask_test: "(c AND mask k = 0) \<longleftrightarrow> unat c mod 2 ^ k = 0" for c :: u32
  by (metis unat_0 unat_and_mask word_unat_eq_iff)

lemma shift_step:
  "shift_loop (Suc n) ct (2 ^ k) i (drop_bit k ct) T =
     (if unat ct mod 2 ^ k = 0 then
        if unat ct div 2 ^ k mod 64 \<noteq> 0 then Some (move_list i (unat ct div 2 ^ k mod 64) T)
        else shift_loop n ct (2 ^ (k + 6)) (Suc i) (drop_bit (k + 6) ct) T
      else Some T)"
proof -
  have m: "2 ^ k - 1 = (mask k :: u32)" by (simp add: mask_eq_exp_minus_1)
  have p: "push_bit TIME_LEVEL_SHIFT (2 ^ k) = (2 :: u32) ^ (k + 6)"
    by (simp add: TIME_LEVEL_SHIFT_def push_bit_eq_mult power_add mult.commute)
  have d: "drop_bit TIME_LEVEL_SHIFT (drop_bit k ct) = drop_bit (k + 6) ct"
    by (simp add: TIME_LEVEL_SHIFT_def add.commute)
  show ?thesis
    by (simp only: shift_loop.simps m p d and_mask_test mask_consts(2) unat_and_mask
        unat_drop_bit_div level_shifts(5) Let_def)
qed

lemma top_digit:
  fixes ct :: u32
  assumes "ct \<noteq> 0" "unat ct mod 2 ^ 26 = 0"
  shows "unat ct div 2 ^ 26 mod 64 \<noteq> 0"
proof -
  have "unat ct < 2 ^ 32" using unsigned_less [of ct] by simp
  then have "unat ct div 2 ^ 26 < 64" by (simp add: less_mult_imp_div_less)
  moreover have "unat ct div 2 ^ 26 \<noteq> 0"
    using assms by (metis mult_0_right mult_div_mod_eq add_0_right unat_eq_zero)
  ultimately show ?thesis by simp
qed

lemma shift_loop_moved:
  assumes "ct \<noteq> 0"
  shows "shift_loop 4 ct (2 ^ 8) 0 (drop_bit 8 ct) T
    = Some (case moved (unat ct) of None \<Rightarrow> T | Some (i, idx) \<Rightarrow> move_list i idx T)"
proof -
  have four: "4 = Suc (Suc (Suc (Suc 0)))" by simp
  have nz: "unat ct \<noteq> 0" using assms by (simp add: unat_eq_zero)
  have k: "8 + 6 = (14 :: nat)" "14 + 6 = (20 :: nat)" "20 + 6 = (26 :: nat)" by simp_all
  note n1 = mod_next [of "unat ct" 8, unfolded k] and n2 = mod_next [of "unat ct" 14, unfolded k]
    and n3 = mod_next [of "unat ct" 20, unfolded k] and top = top_digit [OF assms]
  show ?thesis
    unfolding four shift_step k moved_def
    using nz n1 n2 n3 top
    by (cases "unat ct mod 2 ^ 8 = 0"; cases "unat ct div 2 ^ 8 mod 64 = 0";
        cases "unat ct div 2 ^ 14 mod 64 = 0"; cases "unat ct div 2 ^ 20 mod 64 = 0")
       (simp_all only: if_True if_False simp_thms option.case prod.case One_nat_def numeral_2_eq_2 numeral_3_eq_3)
qed

text \<open>The loop of \<open>timer_shift\<close> always ends, and moves at most one slot.\<close>

lemma timer_shift_moved:
  "timer_shift T = Some (let T' = T\<lparr>time := time T + 1\<rparr> in
     case moved (unat (time T + 1)) of None \<Rightarrow> T' | Some (i, idx) \<Rightarrow> move_list i idx T')"
proof (cases "time T + 1 = 0")
  case True
  then show ?thesis by (simp add: timer_shift_def moved_def)
next
  case False
  show ?thesis
    unfolding timer_shift_def Let_def mask_consts(3) TIME_NEAR_SHIFT_def shift_loop_moved [OF False]
    using False by (simp only: if_False)
qed

lemma div_next: "Suc c div D = (if Suc c mod D = 0 then Suc (c div D) else c div D)"
  by (rule div_Suc)

text \<open>The digits of two times that agree above a level agree above every higher level.\<close>

lemma div_up: "(e :: nat) div 2 ^ k = c div 2 ^ k \<Longrightarrow> k \<le> l \<Longrightarrow> e div 2 ^ l = c div 2 ^ l"
  by (metis div_mult2_eq le_add_diff_inverse power_add)

lemma mod_up: "(c :: nat) mod 2 ^ l = 0 \<Longrightarrow> k \<le> l \<Longrightarrow> c mod 2 ^ k = 0"
  by (meson dvd_trans le_imp_power_dvd mod_eq_0_iff_dvd)

lemma mod_64: "(c :: nat) mod 2 ^ (k + 6) = 0 \<Longrightarrow> c div 2 ^ k mod 64 = 0"
  by (simp add: power_add mod_mult2_eq)

text \<open>The key fact. When the counter goes from \<open>c\<close> to \<open>c + 1\<close>, an expiry time that is
  still ahead either stays in its slot or is in the slot that is moved.\<close>

text \<open>Nothing between two levels of the wheel changes on a tick that does not complete the
  lower one.\<close>

lemma div_same: "Suc c mod 2 ^ k \<noteq> 0 \<Longrightarrow> k \<le> l \<Longrightarrow> Suc c div 2 ^ l = c div 2 ^ l"
  using mod_up [of "Suc c" l k] by (auto simp: div_next)

lemma ahead_leaves:
  assumes "Suc c mod 2 ^ k = 0" "c < e"
  shows "e div 2 ^ k \<noteq> c div 2 ^ k"
proof -
  have "Suc c div 2 ^ k \<le> e div 2 ^ k" using assms(2) by (intro div_le_mono) simp
  with assms(1) show ?thesis by (simp add: div_next)
qed

lemma slot_stable_at:
  assumes ah: "e div 2 ^ 26 = c div 2 ^ 26 \<Longrightarrow> c < e"
    and k: "k \<in> {8, 14, 20, 26}" and z: "Suc c mod 2 ^ k = 0"
    and nz: "k < 26 \<Longrightarrow> Suc c mod 2 ^ (k + 6) \<noteq> 0"
    and other: "e div 2 ^ k \<noteq> Suc c div 2 ^ k"
  shows "slot_nat (Suc c) e = slot_nat c e"
proof -
  have ne: "e div 2 ^ l \<noteq> c div 2 ^ l" if "l \<le> k" "l \<le> 26" for l
    using ahead_leaves [OF mod_up [OF z that(1)]] ah div_up [of e l c 26] that(2) by blast
  have ne': "e div 2 ^ l \<noteq> Suc c div 2 ^ l" if "l \<le> k" for l
    using other div_up [of e l "Suc c" k] that by blast
  have same: "Suc c div 2 ^ l = c div 2 ^ l" if "k + 6 \<le> l" "k < 26" for l
    using div_same [OF nz [OF that(2)] that(1)] .
  show ?thesis
    using k ne [of 8] ne [of 14] ne [of 20] ne [of 26] ne' [of 8] ne' [of 14] ne' [of 20] ne' [of 26]
      same [of 14] same [of 20] same [of 26]
    unfolding slot_nat_def by (elim insertE emptyE) (simp_all del: div_Suc)
qed

lemma moved_digit:
  assumes "moved (Suc c) = Some (i, idx)"
  shows "\<exists>k \<in> {8, 14, 20, 26}. k = 8 + 6 * i \<and> Suc c mod 2 ^ k = 0 \<and> idx = Suc c div 2 ^ k mod 64
     \<and> (k < 26 \<longrightarrow> Suc c mod 2 ^ (k + 6) \<noteq> 0)"
proof -
  have k: "8 + 6 = (14 :: nat)" "14 + 6 = (20 :: nat)" "20 + 6 = (26 :: nat)" by simp_all
  note n = mod_next [of "Suc c" 8, unfolded k] mod_next [of "Suc c" 14, unfolded k]
    mod_next [of "Suc c" 20, unfolded k]
    and z = mod_64 [of "Suc c" 8, unfolded k] mod_64 [of "Suc c" 14, unfolded k]
    mod_64 [of "Suc c" 20, unfolded k]
  from assms consider
      (a) "i = 0" "idx = Suc c div 2 ^ 8 mod 64" "Suc c mod 2 ^ 8 = 0" "Suc c div 2 ^ 8 mod 64 \<noteq> 0"
    | (b) "i = 1" "idx = Suc c div 2 ^ 14 mod 64" "Suc c mod 2 ^ 8 = 0" "Suc c div 2 ^ 8 mod 64 = 0"
        "Suc c div 2 ^ 14 mod 64 \<noteq> 0"
    | (c) "i = 2" "idx = Suc c div 2 ^ 20 mod 64" "Suc c mod 2 ^ 8 = 0" "Suc c div 2 ^ 8 mod 64 = 0"
        "Suc c div 2 ^ 14 mod 64 = 0" "Suc c div 2 ^ 20 mod 64 \<noteq> 0"
    | (d) "i = 3" "idx = Suc c div 2 ^ 26 mod 64" "Suc c mod 2 ^ 8 = 0" "Suc c div 2 ^ 8 mod 64 = 0"
        "Suc c div 2 ^ 14 mod 64 = 0" "Suc c div 2 ^ 20 mod 64 = 0"
    unfolding moved_def by (auto simp only: option.inject prod.inject split: if_splits)
  then show ?thesis
  proof cases
    case a
    with z(1) have "Suc c mod 2 ^ 14 \<noteq> 0" by blast
    with a show ?thesis by (intro bexI [of _ 8]) simp_all
  next
    case b
    with n(1) z(2) have "Suc c mod 2 ^ 14 = 0" "Suc c mod 2 ^ 20 \<noteq> 0" by blast+
    with b show ?thesis by (intro bexI [of _ 14]) simp_all
  next
    case c
    with n(1,2) z(3) have "Suc c mod 2 ^ 20 = 0" "Suc c mod 2 ^ 26 \<noteq> 0" by metis+
    with c show ?thesis by (intro bexI [of _ 20]) simp_all
  next
    case d
    with n have "Suc c mod 2 ^ 26 = 0" by metis
    with d show ?thesis by (intro bexI [of _ 26]) simp_all
  qed
qed

lemma slot_of_moved_digit:
  assumes ah: "e div 2 ^ 26 = c div 2 ^ 26 \<Longrightarrow> c < e"
    and k: "k \<in> {8, 14, 20, 26}" "k = 8 + 6 * i" and z: "Suc c mod 2 ^ k = 0"
    and nz: "k < 26 \<longrightarrow> Suc c mod 2 ^ (k + 6) \<noteq> 0"
    and eq: "e div 2 ^ k = Suc c div 2 ^ k"
  shows "slot_nat c e = Lvl i (e div 2 ^ k mod 64)"
proof -
  have ne: "e div 2 ^ l \<noteq> c div 2 ^ l" if "l \<le> k" "l \<le> 26" for l
    using ahead_leaves [OF mod_up [OF z that(1)]] ah div_up [of e l c 26] that(2) by blast
  have same: "e div 2 ^ l = c div 2 ^ l" if "k + 6 \<le> l" "k < 26" for l
    using div_same [of c "k + 6" l] nz that div_up [OF eq, of l] by simp
  have i: "i = (k - 8) div 6" using k(2) by simp
  show ?thesis
    unfolding i
    using k(1) ne [of 8] ne [of 14] ne [of 20] ne [of 26] same [of 14] same [of 20] same [of 26]
    unfolding slot_nat_def by (elim insertE emptyE) simp_all
qed

lemma slot_stable:
  assumes ah: "e div 2 ^ 26 = c div 2 ^ 26 \<Longrightarrow> c < e"
    and nm: "\<And>i idx. moved (Suc c) = Some (i, idx) \<Longrightarrow> slot_nat c e \<noteq> Lvl i idx"
  shows "slot_nat (Suc c) e = slot_nat c e"
proof (cases "moved (Suc c)")
  case None
  then have "Suc c mod 2 ^ 8 \<noteq> 0" by (auto simp only: moved_def split: if_splits)
  note d = div_same [OF this]
  have "Suc c div 2 ^ 8 = c div 2 ^ 8" "Suc c div 2 ^ 14 = c div 2 ^ 14"
    "Suc c div 2 ^ 20 = c div 2 ^ 20" "Suc c div 2 ^ 26 = c div 2 ^ 26"
    by (rule d; simp)+
  then show ?thesis by (simp only: slot_nat_def)
next
  case (Some m)
  obtain i idx where m: "m = (i, idx)" by (cases m)
  obtain k where
    k: "k \<in> {8, 14, 20, 26}" "k = 8 + 6 * i" "Suc c mod 2 ^ k = 0" "idx = Suc c div 2 ^ k mod 64"
    "k < 26 \<longrightarrow> Suc c mod 2 ^ (k + 6) \<noteq> 0"
    using moved_digit [OF Some [unfolded m]] by (elim bexE conjE) (rule that)
  show ?thesis
  proof (rule slot_stable_at [OF ah k(1,3)])
    show "e div 2 ^ k \<noteq> Suc c div 2 ^ k"
    proof
      assume eq: "e div 2 ^ k = Suc c div 2 ^ k"
      from slot_of_moved_digit [OF ah k(1,2,3,5) eq] nm [of i idx] Some m k(4) eq show False by simp
    qed
  qed (use k(5) in auto)
qed

text \<open>The same for the 32-bit counter, with the wrap-around to 0.\<close>

lemma unat_next: "c + 1 \<noteq> 0 \<Longrightarrow> unat (c + 1) = Suc (unat c)" for c :: u32
  by (metis Suc_eq_plus1 add.commute unatSuc)

lemma slot_nat_top:
  assumes "e div 2 ^ 26 \<noteq> c div 2 ^ 26"
  shows "slot_nat c e = Lvl 3 (e div 2 ^ 26 mod 64)"
proof -
  have "e div 2 ^ 8 \<noteq> c div 2 ^ 8" "e div 2 ^ 14 \<noteq> c div 2 ^ 14" "e div 2 ^ 20 \<noteq> c div 2 ^ 20"
    using assms div_up [of e 8 c 26] div_up [of e 14 c 26] div_up [of e 20 c 26] by auto
  with assms show ?thesis by (simp only: slot_nat_def if_False)
qed

lemma ahead_order:
  assumes "ahead c e" "unat e div 2 ^ 26 = unat c div 2 ^ 26"
  shows "unat c < unat e"
proof (rule ccontr)
  assume le: "\<not> unat c < unat e"
  let ?q = "unat c div 2 ^ 26"
  have "unat e = ?q * 2 ^ 26 + unat e mod 2 ^ 26" "unat c = ?q * 2 ^ 26 + unat c mod 2 ^ 26"
    using assms(2) by (metis div_mult_mod_eq)+
  moreover have "unat e mod 2 ^ 26 < 2 ^ 26" "unat c mod 2 ^ 26 < 2 ^ 26" by simp_all
  ultimately have "unat c < unat e + 2 ^ 26" by linarith
  moreover have "unat (e - c) = (if unat c \<le> unat e then unat e - unat c else unat e + 2 ^ 32 - unat c)"
    by (simp add: unat_sub_if')
  ultimately show False using assms(1) le by (auto simp: ahead_def split: if_splits)
qed

lemma slot_of_stable:
  assumes ah: "ahead c e"
    and nm: "\<And>i idx. moved (unat (c + 1)) = Some (i, idx) \<Longrightarrow> slot_of c e \<noteq> Lvl i idx"
  shows "slot_of (c + 1) e = slot_of c e"
proof (cases "c + 1 = 0")
  case False
  then show ?thesis
    using slot_stable [OF ahead_order [OF ah]] nm
    by (simp only: slot_of_def unat_next [OF False]) auto
next
  case True
  then have c: "c = - 1" by (metis add_eq_0_iff2)
  have cc: "unat c = 2 ^ 32 - 1" by (simp add: c unsigned_minus_1_eq_mask mask_eq_exp_minus_1)
  have "unat (e - c) = (if unat c \<le> unat e then unat e - unat c else unat e + 2 ^ 32 - unat c)"
    by (simp add: unat_sub_if')
  moreover have "unat e < 2 ^ 32" using unsigned_less [of e] by simp
  ultimately have "unat e < 2 ^ 31" using ah cc by (auto simp: ahead_def split: if_splits)
  then have e: "unat e div 2 ^ 26 < 32" by (simp add: less_mult_imp_div_less)
  then have s: "slot_of c e = Lvl 3 (unat e div 2 ^ 26 mod 64)"
    unfolding slot_of_def cc by (intro slot_nat_top) simp
  have "moved (unat (c + 1)) = Some (3, 0)" by (simp add: True moved_def)
  from nm [OF this] s have "unat e div 2 ^ 26 mod 64 \<noteq> 0" by simp
  then have "slot_of (c + 1) e = Lvl 3 (unat e div 2 ^ 26 mod 64)"
    unfolding slot_of_def True by (intro slot_nat_top) auto
  with s show ?thesis by simp
qed

lemma ahead_next:
  assumes a: "ahead c e" and ne: "e \<noteq> c + 1"
  shows "ahead (c + 1) e"
proof -
  have eq: "e - (c + 1) = (e - c) - 1" by simp
  have nz: "e - c \<noteq> 0" "e - c \<noteq> 1"
    using a ne by (auto simp: ahead_def algebra_simps diff_eq_eq)
  have "unat ((e - c) - 1) = unat (e - c) - 1" using nz(1) by (rule unat_minus_one)
  moreover have "unat (e - c) \<noteq> 1" using nz(2) by (metis unat_1 word_unat_eq_iff)
  ultimately show ?thesis using a unfolding ahead_def eq by linarith
qed

section \<open>A tick refines: dispatch what is due, forget it, keep the rest in order\<close>

lemma slot_of_now: "slot_of c e = Near (unat c mod 2 ^ 8) \<longleftrightarrow> e = c"
proof
  assume "slot_of c e = Near (unat c mod 2 ^ 8)"
  then have "unat e div 2 ^ 8 = unat c div 2 ^ 8" "unat e mod 2 ^ 8 = unat c mod 2 ^ 8"
    by (simp_all only: slot_of_def slot_nat_def slot.inject slot.distinct split: if_splits)
  then have "unat e = unat c" by (metis div_mult_mod_eq)
  then show "e = c" by (simp only: word_unat_eq_iff)
next
  assume "e = c"
  then show "slot_of c e = Near (unat c mod 2 ^ 8)" by (simp add: slot_of_def slot_nat_def)
qed

lemma timer_execute_eval:
  "timer_execute T = (bucket T (Near (unat (time T) mod 2 ^ 8)),
     T\<lparr>near := (near T)[unat (time T) mod 2 ^ 8 := []]\<rparr>)"
  by (simp only: timer_execute_def mask_consts(1) unat_and_mask link_clear_def Let_def prod.case bucket.simps)

lemma placed_due_now:
  assumes "placed T"
  shows "bucket T (Near (unat (time T) mod 2 ^ 8)) = due T (time T)"
proof -
  have valid: "valid_slot (Near (unat (time T) mod 2 ^ 8))" by simp
  have "slot_of (time T) (time T) = Near (unat (time T) mod 2 ^ 8)" by (simp only: slot_of_now)
  moreover have "filter (\<lambda>n. expire n = time T) (bucket T (Near (unat (time T) mod 2 ^ 8)))
      = bucket T (Near (unat (time T) mod 2 ^ 8))"
  proof (rule filter_True, rule ballI)
    fix n assume "n \<in> set (bucket T (Near (unat (time T) mod 2 ^ 8)))"
    then have "slot_of (time T) (expire n) = Near (unat (time T) mod 2 ^ 8)"
      using assms valid unfolding placed_def by blast
    then show "expire n = time T" by (simp only: slot_of_now)
  qed
  ultimately show ?thesis by (simp only: due_def)
qed

lemma bucket_clear_near:
  "wheel_wf T \<Longrightarrow> valid_slot sl \<Longrightarrow> i < 256 \<Longrightarrow>
     bucket (T\<lparr>near := (near T)[i := []]\<rparr>) sl = (if sl = Near i then [] else bucket T sl)"
  by (cases sl) (auto simp: wheel_wf_def nth_list_update)

lemma bucket_clear_level:
  "wheel_wf T \<Longrightarrow> valid_slot sl \<Longrightarrow> valid_slot (Lvl l i) \<Longrightarrow>
     bucket (T\<lparr>t_wheel := (t_wheel T)[l := (t_wheel T ! l)[i := []]]\<rparr>) sl
       = (if sl = Lvl l i then [] else bucket T sl)"
  by (cases sl) (auto simp: wheel_wf_def nth_list_update)

text \<open>Clearing a slot removes exactly the events whose time belongs there.\<close>

lemma execute_refines:
  assumes "wheel_wf T" "placed T"
  defines "T' \<equiv> snd (timer_execute T)"
  shows "fst (timer_execute T) = due T (time T)" "wheel_wf T'" "placed T'" "time T' = time T"
    and "due T' e = (if e = time T then [] else due T e)"
    and "valid_slot sl \<Longrightarrow> n \<in> set (bucket T' sl) \<Longrightarrow> n \<in> set (bucket T sl) \<and> expire n \<noteq> time T"
proof -
  let ?i = "unat (time T) mod 2 ^ 8"
  have i: "?i < 256" by simp
  have T': "T' = T\<lparr>near := (near T)[?i := []]\<rparr>" by (simp only: T'_def timer_execute_eval snd_conv)
  note b = bucket_clear_near [OF assms(1) _ i, folded T']
  show "fst (timer_execute T) = due T (time T)"
    by (simp only: timer_execute_eval fst_conv placed_due_now [OF assms(2)])
  show "wheel_wf T'" using assms(1) by (simp add: T' wheel_wf_def)
  show t: "time T' = time T" by (simp add: T')
  show "placed T'" using assms(2) unfolding placed_def t by (auto simp: b split: if_splits)
  show "due T' e = (if e = time T then [] else due T e)"
    using slot_of_now [of "time T" e] by (auto simp: due_def t b [OF slot_of_valid])
  show "n \<in> set (bucket T sl) \<and> expire n \<noteq> time T" if "valid_slot sl" "n \<in> set (bucket T' sl)"
  proof -
    from that have n: "n \<in> set (bucket T sl)" "sl \<noteq> Near ?i" by (auto simp: b split: if_splits)
    with assms(2) that(1) have "slot_of (time T) (expire n) = sl" unfolding placed_def by blast
    with n show ?thesis using slot_of_now [of "time T" "expire n"] by metis
  qed
qed

lemma move_list_eval:
  "move_list l i T = fold add_node (bucket T (Lvl l i))
     (T\<lparr>t_wheel := (t_wheel T)[l := (t_wheel T ! l)[i := []]]\<rparr>)"
  by (simp add: move_list_def link_clear_def)

lemma moved_valid: "moved c = Some (i, idx) \<Longrightarrow> valid_slot (Lvl i idx)"
  by (auto simp only: moved_def option.inject prod.inject valid_slot.simps split: if_splits; simp)

text \<open>\<open>timer_shift\<close> advances the counter and changes nothing else of the abstract timer.\<close>

lemma shift_refines:
  assumes wf: "wheel_wf T" and pl: "placed T"
    and all: "\<forall>sl n. valid_slot sl \<longrightarrow> n \<in> set (bucket T sl) \<longrightarrow> ahead (time T) (expire n)"
  obtains T' where "timer_shift T = Some T'" "wheel_wf T'" "placed T'" "time T' = time T + 1"
    "\<forall>e. due T' e = due T e"
    "\<forall>sl n. valid_slot sl \<longrightarrow> n \<in> set (bucket T' sl) \<longrightarrow> (\<exists>sl'. valid_slot sl' \<and> n \<in> set (bucket T sl'))"
proof (cases "moved (unat (time T + 1))")
  case None
  note ah = all [rule_format]
  let ?T = "T\<lparr>time := time T + 1\<rparr>"
  have b: "bucket ?T sl = bucket T sl" for sl by (cases sl) simp_all
  have st: "slot_of (time T + 1) (expire n) = slot_of (time T) (expire n)"
    if "valid_slot sl" "n \<in> set (bucket T sl)" for sl n
    using slot_of_stable [OF ah [OF that]] None by simp
  show ?thesis
  proof (rule that [of ?T])
    show "placed ?T" using pl st unfolding placed_def by (simp add: b)
    show "\<forall>e. due ?T e = due T e"
    proof
      fix e
      have "filter (\<lambda>n. expire n = e) (bucket T (slot_of (time T + 1) e))
        = filter (\<lambda>n. expire n = e) (bucket T (slot_of (time T) e))"
      proof (cases "ahead (time T) e")
        case True
        then show ?thesis using slot_of_stable [OF True] None by simp
      next
        case False
        then have "filter (\<lambda>n. expire n = e) (bucket T sl) = []" if "valid_slot sl" for sl
          using ah [OF that] by (auto simp: filter_empty_conv)
        then show ?thesis using slot_of_valid by simp
      qed
      then show "due ?T e = due T e" by (simp add: due_def b)
    qed
  qed (use None wf in \<open>auto simp: timer_shift_moved wheel_wf_def b\<close>)
next
  case (Some m)
  note ah = all [rule_format]
  obtain i idx where m: "m = (i, idx)" by (cases m)
  let ?T = "T\<lparr>time := time T + 1\<rparr>"
  let ?M = "Lvl i idx" and ?ns = "bucket T (Lvl i idx)"
  define C where "C = ?T\<lparr>t_wheel := (t_wheel ?T)[i := (t_wheel ?T ! i)[idx := []]]\<rparr>"
  have v: "valid_slot ?M" using Some m by (auto dest: moved_valid)
  have wfT: "wheel_wf ?T" using wf by (simp add: wheel_wf_def)
  have b: "bucket C sl = (if sl = ?M then [] else bucket T sl)" if "valid_slot sl" for sl
    using bucket_clear_level [OF wfT that v] unfolding C_def by (cases sl) auto
  have wfC: "wheel_wf C" using wf v by (auto simp: C_def wheel_wf_def nth_list_update)
  have tC: "time C = time T + 1" by (simp add: C_def)
  have st: "slot_of (time T + 1) e = slot_of (time T) e" if "ahead (time T) e" "slot_of (time T) e \<noteq> ?M" for e
    using slot_of_stable [OF that(1)] that(2) Some m by simp
  have plC: "placed C"
    unfolding placed_def tC
  proof (intro allI impI)
    fix sl n assume a: "valid_slot sl" "n \<in> set (bucket C sl)"
    then have n: "n \<in> set (bucket T sl)" "sl \<noteq> ?M" by (auto simp: b split: if_splits)
    with a(1) pl have "slot_of (time T) (expire n) = sl" unfolding placed_def by blast
    with st [of "expire n"] ah [OF a(1) n(1)] n(2) show "slot_of (time T + 1) (expire n) = sl" by simp
  qed
  have only: "filter (\<lambda>n. expire n = e) (bucket T sl) = []" if "valid_slot sl" "sl \<noteq> slot_of (time T) e" for sl e
    using pl that unfolding placed_def by (auto simp: filter_empty_conv)
  have dueC: "due C e @ filter (\<lambda>n. expire n = e) ?ns = due T e" for e
  proof (cases "slot_of (time T) e = ?M")
    case True
    then have "due C e = []" using only [OF slot_of_valid, of "time T + 1" e e]
      by (auto simp: due_def tC b [OF slot_of_valid])
    with True show ?thesis by (simp add: due_def)
  next
    case False
    then have "filter (\<lambda>n. expire n = e) ?ns = []" using only [OF v] by simp
    moreover have "due C e = due T e"
    proof (cases "ahead (time T) e")
      case True
      then show ?thesis using st [OF True False] False slot_of_valid by (simp add: due_def tC b)
    next
      case nah: False
      then have none: "filter (\<lambda>n. expire n = e) (bucket T sl) = []" if "valid_slot sl" for sl
        using ah [OF that] by (auto simp: filter_empty_conv)
      show ?thesis unfolding due_def tC b [OF slot_of_valid] using none slot_of_valid by simp
    qed
    ultimately show ?thesis by simp
  qed
  note f = fold_add_node [OF wfC, of ?ns]
  show ?thesis
  proof (rule that [of "fold add_node ?ns C"])
    have "bucket ?T ?M = ?ns" by simp
    then show "timer_shift T = Some (fold add_node ?ns C)"
      using Some m unfolding timer_shift_moved Let_def by (simp only: option.case prod.case move_list_eval C_def)
    show "placed (fold add_node ?ns C)" using placed_fold_add_node [OF wfC plC] .
    show "\<forall>e. due (fold add_node ?ns C) e = due T e" using due_fold_add_node [OF wfC] dueC by simp
    show "\<forall>sl n. valid_slot sl \<longrightarrow> n \<in> set (bucket (fold add_node ?ns C) sl) \<longrightarrow>
        (\<exists>sl'. valid_slot sl' \<and> n \<in> set (bucket T sl'))"
    proof (intro allI impI)
      fix sl n
      assume that: "valid_slot sl" "n \<in> set (bucket (fold add_node ?ns C) sl)"
      from that f have "n \<in> set (bucket C sl) \<union> set ?ns" by auto
      then have "n \<in> set (bucket T sl) \<union> set ?ns"
        unfolding b [OF that(1)] by (auto split: if_splits)
      with that(1) v show "\<exists>sl'. valid_slot sl' \<and> n \<in> set (bucket T sl')" by blast
    qed
  qed (use f tC in simp_all)
qed

lemma not_ahead_now: "\<not> ahead c c"
  by (simp add: ahead_def)

lemma timer_update_refines:
  assumes "timer_inv T"
  obtains T' where "timer_update T = Some (due T (time T + 1), T')" "timer_inv T'"
    "time T' = time T + 1" "\<And>e. due T' e = (if e = time T + 1 then [] else due T e)"
proof -
  from assms have wf: "wheel_wf T" and pl: "placed T"
    and ah: "\<And>sl n. valid_slot sl \<Longrightarrow> n \<in> set (bucket T sl) \<Longrightarrow> ahead (time T) (expire n)"
    unfolding timer_inv_def by blast+
  obtain ns1 T1 where e1: "timer_execute T = (ns1, T1)" by (cases "timer_execute T")
  note x1 = execute_refines [OF wf pl, unfolded e1, simplified fst_conv snd_conv]
  have none: "due T (time T) = []"
    using ah [OF slot_of_valid] not_ahead_now by (force simp: due_def filter_empty_conv)
  have ah1: "ahead (time T1) (expire n)" if "valid_slot sl" "n \<in> set (bucket T1 sl)" for sl n
    using x1(6) [OF that] ah that(1) x1(4) by auto
  have ah1all: "\<forall>sl n. valid_slot sl \<longrightarrow> n \<in> set (bucket T1 sl) \<longrightarrow> ahead (time T1) (expire n)"
    using ah1 by blast
  obtain T2 where
    T2: "timer_shift T1 = Some T2" "wheel_wf T2" "placed T2" "time T2 = time T1 + 1"
      "\<forall>e. due T2 e = due T1 e"
      "\<forall>sl n. valid_slot sl \<longrightarrow> n \<in> set (bucket T2 sl) \<longrightarrow> (\<exists>sl'. valid_slot sl' \<and> n \<in> set (bucket T1 sl'))"
    by (rule shift_refines [OF x1(2,3) ah1all])
  obtain ns2 T3 where e3: "timer_execute T2 = (ns2, T3)" by (cases "timer_execute T2")
  note x3 = execute_refines [OF T2(2,3), unfolded e3, simplified fst_conv snd_conv]
  have t: "time T2 = time T + 1" "time T + 1 \<noteq> time T" using T2(4) x1(4) by simp_all
  have ns2: "ns2 = due T (time T + 1)" using x3(1) T2(5) x1(5) t by simp
  have ah3: "ahead (time T3) (expire n)" if "valid_slot sl" "n \<in> set (bucket T3 sl)" for sl n
  proof -
    from x3(6) [OF that] have n: "n \<in> set (bucket T2 sl)" "expire n \<noteq> time T + 1" using t by simp_all
    from T2(6) that(1) n(1) ah1 x1(4) have "ahead (time T) (expire n)" by auto
    with n(2) show ?thesis using x3(4) t by (simp add: ahead_next)
  qed
  show ?thesis
  proof (rule that [of T3])
    show "timer_update T = Some (due T (time T + 1), T3)"
      using x1(1) none by (simp add: timer_update_def e1 T2(1) e3 ns2)
    show "timer_inv T3" using x3(2,3) ah3 by (simp add: timer_inv_def)
    show "time T3 = time T + 1" using x3(4) t by simp
    show "due T3 e = (if e = time T + 1 then [] else due T e)" for e
      using x3(5) T2(5) x1(5) t none by simp
  qed
qed

lemma unat_delay: "0 < d \<Longrightarrow> d < 2 ^ 31 \<Longrightarrow> unat (word_of_int d :: u32) = nat d"
  by (simp add: unsigned_of_int take_bit_int_eq_self)

lemma timer_add_refines:
  assumes "timer_inv T" "0 < d" "d < 2 ^ 31"
  shows "timer_inv (timer_add ev d T)" "time (timer_add ev d T) = time T"
    and "due (timer_add ev d T) e =
      due T e @ (if e = time T + word_of_int d then [\<lparr>expire = e, event = ev\<rparr>] else [])"
proof -
  let ?n = "\<lparr>expire = word_of_int d + time T, event = ev\<rparr>"
  from assms(1) have wf: "wheel_wf T" and pl: "placed T"
    and ah: "\<And>sl n. valid_slot sl \<Longrightarrow> n \<in> set (bucket T sl) \<Longrightarrow> ahead (time T) (expire n)"
    unfolding timer_inv_def by blast+
  have "ahead (time T) (expire ?n)"
    using assms(2,3) unat_delay [OF assms(2,3)] by (simp add: ahead_def)
  then show "timer_inv (timer_add ev d T)"
    using wf pl ah unfolding timer_inv_def timer_add_def
    by (auto simp: placed_add_node add_node_bucket split: if_splits)
  show "time (timer_add ev d T) = time T" by (simp add: timer_add_def)
  show "due (timer_add ev d T) e =
      due T e @ (if e = time T + word_of_int d then [\<lparr>expire = e, event = ev\<rparr>] else [])"
    using wf by (auto simp: timer_add_def due_add_node add.commute)
qed

lemma timer_create_inv: "timer_inv timer_create_timer" "due timer_create_timer e = []"
proof -
  have b: "bucket timer_create_timer sl = []" if "valid_slot sl" for sl
    using that by (cases sl) (auto simp: timer_create_timer_def TIME_NEAR_def TIME_LEVEL_def
        TIME_NEAR_SHIFT_def TIME_LEVEL_SHIFT_def)
  show "due timer_create_timer e = []" by (simp add: due_def b slot_of_valid)
  show "timer_inv timer_create_timer"
    using b unfolding timer_inv_def placed_def
    by (auto simp: wheel_wf_def timer_create_timer_def TIME_NEAR_def TIME_LEVEL_def
        TIME_NEAR_SHIFT_def TIME_LEVEL_SHIFT_def)
qed

text \<open>The lists due at the next \<open>n\<close> ticks.\<close>

definition due_next :: "timer \<Rightarrow> nat \<Rightarrow> timer_node list" where
  "due_next T n = concat (map (\<lambda>i. due T (time T + of_nat (Suc i))) [0..<n])"

lemma due_far: "timer_inv T \<Longrightarrow> 2 ^ 31 \<le> unat (e - time T) \<Longrightarrow> due T e = []"
  unfolding timer_inv_def due_def ahead_def using slot_of_valid
  by (force simp: filter_empty_conv)

lemma update_loop_refines:
  assumes "timer_inv T" "n < 2 ^ 32"
  shows "\<exists>T'. update_loop n T = Some (due_next T n, T') \<and> timer_inv T' \<and> time T' = time T + of_nat n
     \<and> (\<forall>e. due T' e = (if e \<noteq> time T \<and> unat (e - time T) \<le> n then [] else due T e))"
  using assms
proof (induction n arbitrary: T)
  case 0
  then show ?case by (auto simp: due_next_def unat_eq_zero)
next
  case (Suc n)
  obtain T1 where T1: "timer_update T = Some (due T (time T + 1), T1)" "timer_inv T1"
    "time T1 = time T + 1" "\<And>e. due T1 e = (if e = time T + 1 then [] else due T e)"
    by (rule timer_update_refines [OF Suc.prems(1)]) (rule that; blast)
  from Suc.IH [OF T1(2)] Suc.prems(2) obtain T2 where
    T2: "update_loop n T1 = Some (due_next T1 n, T2)" "timer_inv T2" "time T2 = time T1 + of_nat n"
      "\<And>e. due T2 e = (if e \<noteq> time T1 \<and> unat (e - time T1) \<le> n then [] else due T1 e)"
    by auto
  have "due T1 (time T1 + of_nat (Suc i)) = due T (time T + of_nat (Suc (Suc i)))" if "i < n" for i
  proof -
    have "(of_nat (Suc i) :: u32) \<noteq> 0"
      using that Suc.prems(2) by (auto simp: word_of_nat_eq_0_iff simp del: of_nat_Suc dest!: dvd_imp_le)
    then show ?thesis using T1(3,4) by (simp add: add.assoc)
  qed
  then have m: "map (\<lambda>i. due T1 (time T1 + of_nat (Suc i))) [0..<n]
    = map (\<lambda>i. due T (time T + of_nat (Suc (Suc i)))) [0..<n]"
    by (intro map_cong) (auto simp del: of_nat_Suc)
  have u: "[0..<Suc n] = 0 # map Suc [0..<n]"
    by (simp add: upt_conv_Cons map_Suc_upt del: upt_Suc)
  have nx: "due T (time T + 1) @ due_next T1 n = due_next T (Suc n)"
    unfolding due_next_def u m by (simp add: comp_def del: upt_Suc)
  have "due T2 e = (if e \<noteq> time T \<and> unat (e - time T) \<le> Suc n then [] else due T e)" for e
  proof -
    have eq: "e - (time T + 1) = (e - time T) - 1" by simp
    show ?thesis
    proof (cases "e = time T")
      case True
      have "unat (e - time T1) = 2 ^ 32 - 1"
        using True T1(3) by (simp add: unsigned_minus_1_eq_mask mask_eq_exp_minus_1)
      with True Suc.prems(2) T2(4) [of e] T1(4) [of e] show ?thesis by simp
    next
      case False
      then have "unat ((e - time T) - 1) = unat (e - time T) - 1" by (intro unat_minus_one) simp
      with False T2(4) [of e] T1(3) T1(4) [of e] eq show ?thesis by auto
    qed
  qed
  with T1 T2 nx show ?case by (auto simp: add.assoc)
qed

section \<open>What the timer guarantees\<close>

text \<open>C6. One tick of the timing wheel refines the abstract timer (a first-in first-out list of
  events for every expiry time): it dispatches, in the order they were added, exactly the
  events due at the new time, and keeps every other event with its order.\<close>

theorem timer_tick:
  assumes "timer_inv T"
  shows "\<exists>T'. timer_update T = Some (due T (time T + 1), T') \<and> timer_inv T' \<and> time T' = time T + 1
     \<and> (\<forall>e. due T' e = (if e = time T + 1 then [] else due T e))"
  by (rule timer_update_refines [OF assms]) blast

theorem timer_tick_witness:
  "timer_inv timer_create_timer
   \<and> (\<exists>T'. timer_update timer_create_timer = Some (due timer_create_timer (time timer_create_timer + 1), T')
        \<and> timer_inv T')"
  using timer_tick [OF timer_create_inv(1)] timer_create_inv(1) by blast

text \<open>C7. A timeout fires exactly when it should: an event added with delay \<open>d\<close> changes nothing
  of what the first \<open>d - 1\<close> ticks dispatch, and the \<open>d\<close>-th tick dispatches it, after the
  events already due at that time. The counter may wrap around in between.\<close>

theorem timer_fires_on_time:
  assumes inv: "timer_inv T" and d: "0 < d" "d < 2 ^ 31"
  shows "\<exists>T1 T2. update_loop (nat d - 1) (timer_add ev d T) = Some (due_next T (nat d - 1), T1)
     \<and> timer_update T1 = Some (due T (time T + word_of_int d)
          @ [\<lparr>expire = time T + word_of_int d, event = ev\<rparr>], T2)"
proof -
  let ?A = "timer_add ev d T" and ?n = "nat d - 1"
  let ?e = "time T + word_of_int d"
  note a = timer_add_refines [OF inv d, of ev]
  have n: "?n < 2 ^ 32" using d by simp
  from update_loop_refines [OF a(1) n] obtain T1 where
    T1: "update_loop ?n ?A = Some (due_next ?A ?n, T1)" "timer_inv T1" "time T1 = time T + of_nat ?n"
      "\<forall>e. due T1 e = (if e \<noteq> time ?A \<and> unat (e - time ?A) \<le> ?n then [] else due ?A e)"
    using a(2) by auto
  obtain m where m: "d = int m" using d by (metis less_imp_le zero_le_imp_eq_int)
  obtain k where k: "m = Suc k" using m d by (cases m) auto
  have e: "time T1 + 1 = ?e" using T1(3) by (simp add: m k algebra_simps)
  have u: "unat (?e - time T) = nat d" using unat_delay [OF d] by simp
  have "due ?A (time T + of_nat (Suc i)) = due T (time T + of_nat (Suc i))" if "i < ?n" for i
  proof -
    have "unat (of_nat (Suc i) :: u32) = Suc i" using that d by (simp add: unat_of_nat del: of_nat_Suc)
    then have "(of_nat (Suc i) :: u32) \<noteq> word_of_int d" using unat_delay [OF d] that by auto
    then show ?thesis using a(3) by simp
  qed
  then have "due_next ?A ?n = due_next T ?n"
    unfolding due_next_def a(2) by (intro arg_cong [of _ _ concat] map_cong) (auto simp del: of_nat_Suc)
  moreover have "due T1 ?e = due T ?e @ [\<lparr>expire = ?e, event = ev\<rparr>]"
  proof -
    have "\<not> nat d \<le> nat d - 1" using d by simp
    with T1(4) a(2,3) u show ?thesis by simp
  qed
  moreover obtain T2 where "timer_update T1 = Some (due T1 (time T1 + 1), T2)"
    by (rule timer_update_refines [OF T1(2)]) blast
  ultimately show ?thesis using T1(1) e by auto
qed

theorem timer_fires_on_time_witness:
  "timer_inv timer_create_timer \<and> (0::int) < 300 \<and> (300::int) < 2 ^ 31
   \<and> (\<exists>T1 T2. update_loop (nat 300 - 1) (timer_add \<lparr>te_handle = 5, te_session = 9\<rparr> 300 timer_create_timer)
         = Some (due_next timer_create_timer (nat 300 - 1), T1)
       \<and> timer_update T1 = Some (due timer_create_timer (time timer_create_timer + word_of_int 300)
          @ [\<lparr>expire = time timer_create_timer + word_of_int 300, event = \<lparr>te_handle = 5, te_session = 9\<rparr>\<rparr>], T2))"
proof (intro conjI)
  show "\<exists>T1 T2. update_loop (nat 300 - 1) (timer_add \<lparr>te_handle = 5, te_session = 9\<rparr> 300 timer_create_timer)
         = Some (due_next timer_create_timer (nat 300 - 1), T1)
       \<and> timer_update T1 = Some (due timer_create_timer (time timer_create_timer + word_of_int 300)
          @ [\<lparr>expire = time timer_create_timer + word_of_int 300, event = \<lparr>te_handle = 5, te_session = 9\<rparr>\<rparr>], T2)"
    by (rule timer_fires_on_time [OF timer_create_inv(1)]) simp_all
qed (simp_all add: timer_create_inv(1))

text \<open>The clock fields take no part in the wheel, and a tick leaves them alone.\<close>

lemma clock_fields:
  "bucket (T\<lparr>current_point := a\<rparr>) sl = bucket T sl" "bucket (T\<lparr>current := b\<rparr>) sl = bucket T sl"
  "timer_inv (T\<lparr>current_point := a\<rparr>) = timer_inv T" "timer_inv (T\<lparr>current := b\<rparr>) = timer_inv T"
  "due (T\<lparr>current_point := a\<rparr>) e = due T e" "due (T\<lparr>current := b\<rparr>) e = due T e"
proof -
  show b: "bucket (T\<lparr>current_point := a\<rparr>) sl = bucket T sl" "bucket (T\<lparr>current := b\<rparr>) sl = bucket T sl" for sl
    by (cases sl; simp)+
  show "timer_inv (T\<lparr>current_point := a\<rparr>) = timer_inv T" "timer_inv (T\<lparr>current := b\<rparr>) = timer_inv T"
    by (simp_all add: timer_inv_def placed_def wheel_wf_def b)
  show "due (T\<lparr>current_point := a\<rparr>) e = due T e" "due (T\<lparr>current := b\<rparr>) e = due T e"
    by (simp_all add: due_def b)
qed

lemma add_node_clock: "current (add_node n T) = current T \<and> current_point (add_node n T) = current_point T"
  by (simp add: add_node_slot split: slot.split)

lemma fold_add_node_clock:
  "current (fold add_node ns T) = current T \<and> current_point (fold add_node ns T) = current_point T"
  by (induction ns arbitrary: T) (simp_all add: add_node_clock)

lemma timer_update_clock:
  "timer_update T = Some (ns, T') \<Longrightarrow> current T' = current T \<and> current_point T' = current_point T"
  by (auto simp: timer_update_def timer_execute_eval timer_shift_moved Let_def move_list_eval
      fold_add_node_clock split: option.splits)

lemma update_loop_clock:
  "update_loop n T = Some (ns, T') \<Longrightarrow> current T' = current T \<and> current_point T' = current_point T"
proof (induction n arbitrary: T ns)
  case (Suc n)
  from Suc.prems obtain ns1 T1 ns2 where "timer_update T = Some (ns1, T1)" "update_loop n T1 = Some (ns2, T')"
    by auto
  with Suc.IH [of T1] timer_update_clock [of T] show ?case by simp
qed simp

text \<open>\<open>skynet_updatetime\<close> catches up with the clock: it dispatches, in order of expiry and
  first-in first-out within one expiry time, exactly the events of the ticks that have passed,
  and advances the node's time by them; when the clock has gone backwards it dispatches nothing.\<close>

lemma updatetime_catches_up:
  assumes "timer_inv T"
  shows "\<exists>T'. skynet_updatetime cp T =
      Some (cp < current_point T,
            if cp < current_point T then []
            else due_next T (unat (ucast (cp - current_point T) :: u32)), T')
     \<and> timer_inv T' \<and> current_point T' = cp
     \<and> current T' = (if cp < current_point T then current T
                     else current T + ucast (ucast (cp - current_point T) :: u32))"
proof -
  let ?d = "ucast (cp - current_point T) :: u32"
  let ?T = "T\<lparr>current_point := cp, current := current T + ucast ?d\<rparr>"
  have n: "unat ?d < 2 ^ 32" using unsigned_less [of ?d] by simp
  have i: "timer_inv ?T" using assms by (simp add: clock_fields)
  from update_loop_refines [OF i n] obtain T' where
    T': "update_loop (unat ?d) ?T = Some (due_next ?T (unat ?d), T')" "timer_inv T'" by blast
  have dn: "due_next ?T m = due_next T m" for m by (simp add: due_next_def clock_fields)
  note fr = update_loop_clock [OF T'(1)]
  show ?thesis
  proof (cases "cp = current_point T")
    case True
    then show ?thesis using assms by (simp add: skynet_updatetime_def due_next_def)
  next
    case False
    then show ?thesis
      using assms T' fr dn by (simp add: skynet_updatetime_def clock_fields Let_def)
  qed
qed

theorem updatetime_catches_up_witness:
  "timer_inv timer_create_timer
   \<and> (\<exists>T'. skynet_updatetime 700 timer_create_timer = Some (False, due_next timer_create_timer 700, T')
        \<and> current T' = 700)"
proof (intro conjI timer_create_inv(1))
  have c: "current_point timer_create_timer = 0" "current timer_create_timer = 0"
    by (simp_all add: timer_create_timer_def)
  show "\<exists>T'. skynet_updatetime 700 timer_create_timer = Some (False, due_next timer_create_timer 700, T')
      \<and> current T' = 700"
    using updatetime_catches_up [OF timer_create_inv(1), of 700] unfolding c
    by (auto simp del: update_loop.simps)
qed

end
