(* ===== verification/Module.thy ===== *)
theory Module
  imports Cstring
begin

text \<open>
  \<^verbatim>\<open>skynet-src/skynet_module.c\<close>: the table of loaded service modules. The dynamic linker is an
  argument: \<open>dlopen\<close> gives a library, if the file is there, and \<open>dlsym\<close> the address of a
  function of it. Libraries, functions and instances are numbers. A module of the table is
  named by its index; only the entries below \<open>count\<close> are kept. The local array \<open>tmp\<close> of
  \<open>_try_open\<close> is modelled as it is, and a write past its end or a string without its final
  zero is the failure \<open>None\<close>.
\<close>

definition MAX_MODULE_TYPE :: nat where "MAX_MODULE_TYPE = 32"

record skynet_module =
  md_name :: cstr
  md_module :: nat
  md_create :: "nat option"
  md_init :: "nat option"
  md_release :: "nat option"
  md_signal :: "nat option"

record modules =
  m_path :: cstr
  m_m :: "skynet_module list"

section \<open>Searching the path\<close>

text \<open>\<open>memcpy\<close> of \<open>bs\<close> into an array at \<open>i\<close>.\<close>

definition write_at :: "bytes \<Rightarrow> nat \<Rightarrow> bytes \<Rightarrow> bytes option" where
  "write_at xs i bs =
     (if i + length bs \<le> length xs then Some (take i xs @ bs @ drop (i + length bs) xs) else None)"

text \<open>A read of a string: there must be a zero in the array.\<close>

definition read_str :: "bytes \<Rightarrow> cstr option" where
  "read_str xs = (if 0 \<in> set xs then Some (upto_nul xs) else None)"

text \<open>The result of the search: a library or nothing, or the end of the process.\<close>

datatype opened = Opened "nat option" | Exit

text \<open>One entry of the path, the text up to the next semicolon: what stands before the question mark,
  the name, and what stands behind it.\<close>

definition fill_tmp :: "nat \<Rightarrow> cstr \<Rightarrow> cstr \<Rightarrow> (bool \<times> bytes) option" where
  "fill_tmp sz name entry = do {
     let i = length (takeWhile (\<lambda>b. b \<noteq> ch CHR ''?'') entry);
     t1 \<leftarrow> write_at (replicate sz 0) 0 (take i entry);
     t2 \<leftarrow> write_at t1 i name;
     if i < length entry then do {
       t3 \<leftarrow> write_at t2 (i + length name) (drop (i + 1) entry);
       Some (True, t3)
     } else Some (False, t2)
   }"

function search_path :: "(cstr \<Rightarrow> nat option) \<Rightarrow> nat \<Rightarrow> cstr \<Rightarrow> cstr \<Rightarrow> opened option" where
  "search_path dlopen sz name path =
     (let p = dropWhile (\<lambda>b. b = ch CHR '';'') path in
      if p = [] then Some (Opened None)
      else do {
        (ok, tmp) \<leftarrow> fill_tmp sz name (takeWhile (\<lambda>b. b \<noteq> ch CHR '';'') p);
        if \<not> ok then Some Exit
        else do {
          fname \<leftarrow> read_str tmp;
          case dlopen fname of
            Some dl \<Rightarrow> Some (Opened (Some dl))
          | None \<Rightarrow> search_path dlopen sz name (dropWhile (\<lambda>b. b \<noteq> ch CHR '';'') p)
        }
      })"
  by pat_completeness auto
termination
proof (relation "measure (\<lambda>(_, _, _, p). length p)", goal_cases)
  case (2 dlopen sz name path p x ok tmp fname)
  have "length (dropWhile (\<lambda>b. b \<noteq> ch CHR '';'') p) < length p"
  proof (cases p)
    case Nil
    with 2 show ?thesis by simp
  next
    case (Cons a q)
    have "a \<noteq> ch CHR '';''"
      using hd_dropWhile [of "\<lambda>b. b = ch CHR '';''" path] 2(1,2) Cons by (metis list.sel(1))
    with Cons length_dropWhile_le [of "\<lambda>b. b \<noteq> ch CHR '';''" q] show ?thesis by simp
  qed
  with 2(1) length_dropWhile_le [of "\<lambda>b. b = ch CHR '';''" path] show ?case by simp
qed simp

declare search_path.simps [simp del]

definition try_open :: "(cstr \<Rightarrow> nat option) \<Rightarrow> modules \<Rightarrow> cstr \<Rightarrow> opened option" where
  "try_open dlopen m name = search_path dlopen (length (m_path m) + length name) name (m_path m)"

section \<open>The table\<close>

fun find_module :: "nat \<Rightarrow> cstr \<Rightarrow> skynet_module list \<Rightarrow> nat option" where
  "find_module i name [] = None"
| "find_module i name (m # ms) = (if md_name m = name then Some i else find_module (Suc i) name ms)"

definition query :: "cstr \<Rightarrow> modules \<Rightarrow> nat option" where
  "query name m = find_module 0 name (m_m m)"

definition open_sym :: "(nat \<Rightarrow> cstr \<Rightarrow> nat option) \<Rightarrow> cstr \<Rightarrow> nat \<Rightarrow> skynet_module" where
  "open_sym dlsym name dl =
     \<lparr>md_name = name, md_module = dl,
      md_create = dlsym dl (name @ lit ''_create''), md_init = dlsym dl (name @ lit ''_init''),
      md_release = dlsym dl (name @ lit ''_release''), md_signal = dlsym dl (name @ lit ''_signal'')\<rparr>"

text \<open>\<open>None\<close> also stands for the \<open>exit\<close> of a malformed path.\<close>

definition skynet_module_query ::
    "(cstr \<Rightarrow> nat option) \<Rightarrow> (nat \<Rightarrow> cstr \<Rightarrow> nat option) \<Rightarrow> cstr \<Rightarrow> modules \<Rightarrow> (nat option \<times> modules) option" where
  "skynet_module_query dlopen dlsym name m =
     (case query name m of
        Some i \<Rightarrow> Some (Some i, m)
      | None \<Rightarrow>
          if length (m_m m) < MAX_MODULE_TYPE then do {
            r \<leftarrow> try_open dlopen m name;
            case r of
              Exit \<Rightarrow> None
            | Opened None \<Rightarrow> Some (None, m)
            | Opened (Some dl) \<Rightarrow>
                let md = open_sym dlsym name dl in
                if md_init md = None then Some (None, m)
                else Some (Some (length (m_m m)), m\<lparr>m_m := m_m m @ [md]\<rparr>)
          }
          else Some (None, m))"

definition skynet_module_insert :: "skynet_module \<Rightarrow> modules \<Rightarrow> modules option" where
  "skynet_module_insert md m = do {
     assert_opt (query (md_name md) m = None \<and> length (m_m m) < MAX_MODULE_TYPE);
     Some (m\<lparr>m_m := m_m m @ [md]\<rparr>)
   }"

text \<open>An instance is made by the module's function, an argument; a module without one has the
  instance \<open>~0\<close>. The outer \<open>option\<close> of the result is the null pointer of C.\<close>

definition NO_INSTANCE :: nat where "NO_INSTANCE = 2 ^ 64 - 1"

definition skynet_module_instance_create :: "(nat \<Rightarrow> nat option) \<Rightarrow> skynet_module \<Rightarrow> nat option" where
  "skynet_module_instance_create call md = (case md_create md of Some f \<Rightarrow> call f | None \<Rightarrow> Some NO_INSTANCE)"

definition skynet_module_init :: "cstr \<Rightarrow> modules" where
  "skynet_module_init path = \<lparr>m_path = path, m_m = []\<rparr>"

section \<open>Lemmas\<close>

definition modules_inv :: "modules \<Rightarrow> bool" where
  "modules_inv m \<longleftrightarrow> length (m_m m) \<le> MAX_MODULE_TYPE \<and> distinct (map md_name (m_m m))"

lemma find_module_Some:
  "find_module i name ms = Some k \<Longrightarrow> i \<le> k \<and> k < i + length ms \<and> md_name (ms ! (k - i)) = name"
proof (induction i name ms rule: find_module.induct)
  case (2 i name m ms)
  then show ?case by (auto simp: nth_Cons Suc_diff_Suc split: if_splits nat.splits)
     (metis Suc_diff_le diff_Suc_Suc old.nat.inject)
qed simp

lemma find_module_None: "find_module i name ms = None \<longleftrightarrow> name \<notin> md_name ` set ms"
  by (induction i name ms rule: find_module.induct) auto

lemma find_module_append:
  "find_module i name (ms @ [m]) = (case find_module i name ms of Some k \<Rightarrow> Some k
     | None \<Rightarrow> if md_name m = name then Some (i + length ms) else None)"
  by (induction i name ms rule: find_module.induct) (auto split: option.splits)

lemma query_None: "query name m = None \<longleftrightarrow> name \<notin> md_name ` set (m_m m)"
  by (simp add: query_def find_module_None)

lemma query_Some: "query name m = Some k \<Longrightarrow> k < length (m_m m) \<and> md_name (m_m m ! k) = name"
  using find_module_Some [of 0 name "m_m m" k] by (simp add: query_def)

lemma query_append:
  "query name (m\<lparr>m_m := m_m m @ [md]\<rparr>) =
     (case query name m of Some k \<Rightarrow> Some k | None \<Rightarrow> if md_name md = name then Some (length (m_m m)) else None)"
  by (simp add: query_def find_module_append split: option.splits)

lemma open_sym_name [simp]: "md_name (open_sym dlsym name dl) = name"
  by (simp add: open_sym_def)

lemma write_at_ok:
  "i + length bs \<le> length xs \<Longrightarrow> write_at xs i bs = Some (take i xs @ bs @ drop (i + length bs) xs)"
  by (simp add: write_at_def)

text \<open>The array is large enough for every entry of the path, and keeps a zero at its end.\<close>

definition expand :: "cstr \<Rightarrow> cstr \<Rightarrow> cstr" where
  "expand name entry =
     (let i = length (takeWhile (\<lambda>b. b \<noteq> ch CHR ''?'') entry) in take i entry @ name @ drop (i + 1) entry)"

lemma expand_props:
  assumes "ch CHR ''?'' \<in> set e"
  shows "Suc (length (expand name e)) = length e + length name" "set (expand name e) \<subseteq> set e \<union> set name"
proof -
  have "length (takeWhile (\<lambda>b. b \<noteq> ch CHR ''?'') e) < length e" using assms by (induction e) auto
  then show "Suc (length (expand name e)) = length e + length name" by (simp add: expand_def Let_def)
  show "set (expand name e) \<subseteq> set e \<union> set name"
    using set_take_subset set_drop_subset by (fastforce simp: expand_def Let_def)
qed

lemma fill_tmp_ok:
  assumes "length entry + length name \<le> sz"
  shows "fill_tmp sz name entry =
     Some (if ch CHR ''?'' \<in> set entry then (True, expand name entry @ replicate (sz - length (expand name entry)) 0)
           else (False, entry @ name @ replicate (sz - length entry - length name) 0))"
proof -
  let ?i = "length (takeWhile (\<lambda>b. b \<noteq> ch CHR ''?'') entry)"
  have i: "?i \<le> length entry" by (rule length_takeWhile_le)
  have iff: "?i < length entry \<longleftrightarrow> ch CHR ''?'' \<in> set entry"
    by (induction entry) auto
  let ?a = "take ?i entry"
  have t2: "fill_tmp sz name entry = do {
       t2 \<leftarrow> Some (?a @ name @ replicate (sz - ?i - length name) 0);
       if ?i < length entry then do {
         t3 \<leftarrow> write_at t2 (?i + length name) (drop (?i + 1) entry);
         Some (True, t3)
       } else Some (False, t2) }"
    using i assms by (simp add: fill_tmp_def write_at_ok Let_def min_def drop_replicate)
  show ?thesis
  proof (cases "?i < length entry")
    case True
    then have "fill_tmp sz name entry =
        Some (True, ?a @ name @ drop (?i + 1) entry @ replicate (sz - length entry + 1 - length name) 0)"
      using t2 assms by (simp add: write_at_ok min_def drop_replicate) (simp add: add.commute)
    moreover have "sz - length entry + 1 - length name = sz - length (expand name entry)"
      using expand_props(1) [of entry name] iff True assms by linarith
    ultimately show ?thesis using True iff by (simp only: expand_def Let_def append_assoc if_True)
  next
    case False
    then have "?i = length entry" using i by simp
    then show ?thesis using t2 False iff by simp
  qed
qed

text \<open>The entries of the path in order, and the specification of the search: the first entry whose
  expansion opens, unless an entry without a question mark comes before it.\<close>

fun split_on :: "u8 \<Rightarrow> cstr \<Rightarrow> cstr list" where
  "split_on d [] = [[]]"
| "split_on d (x # xs) =
     (if x = d then [] # split_on d xs else (x # hd (split_on d xs)) # tl (split_on d xs))"

definition entries :: "cstr \<Rightarrow> cstr list" where
  "entries path = filter (\<lambda>e. e \<noteq> []) (split_on (ch CHR '';'') path)"

fun first_open :: "(cstr \<Rightarrow> nat option) \<Rightarrow> cstr \<Rightarrow> cstr list \<Rightarrow> opened" where
  "first_open dlopen name [] = Opened None"
| "first_open dlopen name (e # es) =
     (if ch CHR ''?'' \<notin> set e then Exit
      else case dlopen (expand name e) of Some dl \<Rightarrow> Opened (Some dl) | None \<Rightarrow> first_open dlopen name es)"

lemma split_on_unfold:
  "split_on d xs = takeWhile (\<lambda>b. b \<noteq> d) xs # (case dropWhile (\<lambda>b. b \<noteq> d) xs of [] \<Rightarrow> [] | _ # r \<Rightarrow> split_on d r)"
  by (induction xs) auto

lemma entries_skip: "entries (dropWhile (\<lambda>b. b = ch CHR '';'') path) = entries path"
  by (induction path) (auto simp: entries_def)

lemma entries_first:
  assumes "p \<noteq> []" "hd p \<noteq> ch CHR '';''"
  shows "entries p = takeWhile (\<lambda>b. b \<noteq> ch CHR '';'') p # entries (dropWhile (\<lambda>b. b \<noteq> ch CHR '';'') p)"
proof -
  have t: "takeWhile (\<lambda>b. b \<noteq> ch CHR '';'') p \<noteq> []" using assms by (cases p) auto
  show ?thesis
  proof (cases "dropWhile (\<lambda>b. b \<noteq> ch CHR '';'') p")
    case Nil
    show ?thesis using t split_on_unfold [of "ch CHR '';''" p] unfolding Nil by (simp add: entries_def)
  next
    case (Cons a r)
    then have "a = ch CHR '';''" using hd_dropWhile [of "\<lambda>b. b \<noteq> ch CHR '';''" p] by (metis list.distinct(1) list.sel(1))
    then show ?thesis using Cons t split_on_unfold [of "ch CHR '';''" p] by (simp add: entries_def)
  qed
qed

lemma read_str_padded:
  "0 \<notin> set xs \<Longrightarrow> length xs < sz \<Longrightarrow> read_str (xs @ replicate (sz - length xs) 0) = Some xs"
  by (auto simp: read_str_def upto_nul_def takeWhile_append takeWhile_eq_all_conv)

lemma search_path_eq:
  assumes "length path + length name \<le> sz" "0 \<notin> set path" "0 \<notin> set name"
  shows "search_path dlopen sz name path = Some (first_open dlopen name (entries path))"
  using assms
proof (induction dlopen sz name path rule: search_path.induct)
  case (1 dlopen sz name path)
  let ?p = "dropWhile (\<lambda>b. b = ch CHR '';'') path"
  let ?e = "takeWhile (\<lambda>b. b \<noteq> ch CHR '';'') ?p" and ?r = "dropWhile (\<lambda>b. b \<noteq> ch CHR '';'') ?p"
  show ?case
  proof (cases "?p = []")
    case True
    have "entries path = []" using entries_skip [of path] unfolding True by (simp add: entries_def)
    then show ?thesis using True by (subst search_path.simps) (simp add: Let_def)
  next
    case False
    have es: "entries path = ?e # entries ?r"
      using entries_first [OF False] hd_dropWhile [OF False] entries_skip [of path] by simp
    have len: "length ?p \<le> length path" "length ?e \<le> length ?p" "length ?r \<le> length ?p"
      by (rule length_dropWhile_le length_takeWhile_le)+
    have sub: "set ?e \<subseteq> set path" "set ?r \<subseteq> set path"
      by (blast dest: set_takeWhileD set_dropWhileD)+
    have ft: "fill_tmp sz name ?e =
       Some (if ch CHR ''?'' \<in> set ?e then (True, expand name ?e @ replicate (sz - length (expand name ?e)) 0)
           else (False, ?e @ name @ replicate (sz - length ?e - length name) 0))"
      by (rule fill_tmp_ok) (use len "1.prems"(1) in linarith)
    have step: "search_path dlopen sz name path = do {
        (ok, tmp) \<leftarrow> fill_tmp sz name ?e;
        if \<not> ok then Some Exit
        else do {
          fname \<leftarrow> read_str tmp;
          case dlopen fname of
            Some dl \<Rightarrow> Some (Opened (Some dl))
          | None \<Rightarrow> search_path dlopen sz name ?r } }"
      using False by (subst search_path.simps) (simp only: Let_def if_False)
    show ?thesis
    proof (cases "ch CHR ''?'' \<in> set ?e")
      case True
      have rd: "read_str (expand name ?e @ replicate (sz - length (expand name ?e)) 0) = Some (expand name ?e)"
        using expand_props [OF True, of name] "1.prems" len sub by (intro read_str_padded) auto
      have rest: "search_path dlopen sz name ?r = Some (first_open dlopen name (entries ?r))"
        if "dlopen (expand name ?e) = None"
        by (rule "1.IH" [OF refl False ft [unfolded if_P [OF True]] refl _ rd that])
           (use "1.prems" len sub in auto)
      show ?thesis
        unfolding step ft es using True rd rest by (simp split: option.split)
    next
      case nq: False
      then show ?thesis unfolding step ft es by simp
    qed
  qed
qed

text \<open>C16. The search for a module stays inside its local buffer: for every search path and every name it ends
  with the library of the first path entry, in order, whose file opens, or with none, or
  with the exit of the process at an entry without a question mark; it never writes outside the
  buffer and never hands the linker an unterminated string.\<close>

theorem module_search_bounds:
  assumes "0 \<notin> set (m_path m)" "0 \<notin> set name"
  shows "try_open dlopen m name = Some (first_open dlopen name (entries (m_path m)))"
  using search_path_eq [of "m_path m" name] assms by (simp add: try_open_def)

definition demo_modules :: modules where
  "demo_modules = skynet_module_init (lit ''a/?.so;;b/?.so'')"

theorem module_search_bounds_witness:
  "try_open (\<lambda>f. if f = lit ''b/gate.so'' then Some 5 else None) demo_modules (lit ''gate'') = Some (Opened (Some 5))"
proof -
  have c: "0 \<notin> set (m_path demo_modules)" "0 \<notin> set (lit ''gate'')" by code_simp+
  have "first_open (\<lambda>f. if f = lit ''b/gate.so'' then Some 5 else None) (lit ''gate'') (entries (m_path demo_modules))
      = Opened (Some 5)"
    by code_simp
  with module_search_bounds [OF c] show ?thesis by simp
qed

text \<open>A module is loaded at most once: after a query that found or loaded the module, every
  later query gives the same entry and changes nothing, whatever the linker would answer then;
  the table keeps at most 32 modules under distinct names.\<close>

lemma module_loaded_once:
  assumes "modules_inv m" "skynet_module_query dlopen dlsym name m = Some (r, m')"
  shows "modules_inv m' \<and> (\<forall>i. r = Some i \<longrightarrow> i < length (m_m m') \<and> md_name (m_m m' ! i) = name
     \<and> skynet_module_query dlopen' dlsym' name m' = Some (Some i, m'))"
proof (cases "query name m")
  case (Some i)
  then show ?thesis using assms query_Some [OF Some] by (auto simp: skynet_module_query_def)
next
  case None
  have "m' = m \<and> r = None \<or> (\<exists>dl. r = Some (length (m_m m)) \<and> m' = m\<lparr>m_m := m_m m @ [open_sym dlsym name dl]\<rparr>
      \<and> length (m_m m) < MAX_MODULE_TYPE)"
    using assms(2) None
    by (cases "try_open dlopen m name"; cases "length (m_m m) < MAX_MODULE_TYPE")
       (auto simp: skynet_module_query_def Let_def split: if_splits opened.splits option.splits)
  then show ?thesis
  proof (elim disjE exE conjE)
    fix dl assume r: "r = Some (length (m_m m))" "m' = m\<lparr>m_m := m_m m @ [open_sym dlsym name dl]\<rparr>"
      "length (m_m m) < MAX_MODULE_TYPE"
    have "query name m' = Some (length (m_m m))" using None by (simp add: r(2) query_append)
    then show ?thesis using r assms(1) None by (auto simp: modules_inv_def query_None skynet_module_query_def)
  qed (use assms(1) in simp)
qed

lemma module_loaded_once_witness:
  "\<exists>m'. skynet_module_query (\<lambda>_. Some 5) (\<lambda>_ _. Some 6) (lit ''gate'') demo_modules = Some (Some 0, m')
     \<and> skynet_module_query (\<lambda>_. None) (\<lambda>_ _. None) (lit ''gate'') m' = Some (Some 0, m')"
proof -
  have c: "0 \<notin> set (m_path demo_modules)" "0 \<notin> set (lit ''gate'')" by code_simp+
  have i: "modules_inv demo_modules" by code_simp
  have "try_open (\<lambda>_. Some 5) demo_modules (lit ''gate'') = Some (Opened (Some 5))"
  proof -
    have "first_open (\<lambda>_. Some 5) (lit ''gate'') (entries (m_path demo_modules)) = Opened (Some 5)" by code_simp
    with search_path_eq [of "m_path demo_modules" "lit ''gate''"] c show ?thesis by (simp add: try_open_def)
  qed
  moreover have "query (lit ''gate'') demo_modules = None" "m_m demo_modules = []" by code_simp+
  ultimately have q: "skynet_module_query (\<lambda>_. Some 5) (\<lambda>_ _. Some 6) (lit ''gate'') demo_modules
      = Some (Some 0, demo_modules\<lparr>m_m := [open_sym (\<lambda>_ _. Some 6) (lit ''gate'') 5]\<rparr>)"
    by (simp add: skynet_module_query_def MAX_MODULE_TYPE_def open_sym_def)
  show ?thesis using module_loaded_once [OF i q] q by blast
qed

end
