(* ===== verification/Server.thy ===== *)
theory Server
  imports Handle Timer Module Ptype
begin

unbundle bit_operations_syntax

text \<open>
  The core of the node: \<^verbatim>\<open>skynet-src/skynet_server.c\<close> (service contexts, their reference counts,
  sending, dispatching, the text commands) with the small files it works with,
  \<^verbatim>\<open>skynet_harbor.c\<close>, \<^verbatim>\<open>skynet_monitor.c\<close>, \<^verbatim>\<open>skynet_env.c\<close>, \<^verbatim>\<open>skynet_error.c\<close>, \<^verbatim>\<open>skynet_log.c\<close>,
  the timeout of \<^verbatim>\<open>skynet_timer.c\<close> and the part of \<^verbatim>\<open>skynet_socket.c\<close> that turns socket events
  into messages.

  A context is an address in \<open>n_ctxs\<close>; \<open>None\<close> there is memory that is free. An access to a
  free context, a failing assertion and undefined behaviour are the result \<open>None\<close> of an
  operation. The code of the services is an argument: a service asks the node for something
  and continues with the answer, so its code is a tree of such requests (\<open>prog\<close>). The pointer
  \<open>cb_ud\<close> stands for the private state of the service. What the node does to the world outside
  (instances released or signalled, memory freed, log files) is recorded in \<open>n_trace\<close>.
\<close>

section \<open>State\<close>

record skynet_context =
  cx_instance :: nat
  cx_mod :: nat
  cx_cb :: "nat option"
  cx_cb_ud :: nat
  cx_queue :: mqref
  cx_logfile :: "nat option"
  cx_result :: cstr
  cx_handle :: u32
  cx_session_id :: u32
  cx_ref :: int
  cx_init :: bool
  cx_endless :: bool

datatype effect =
    Released nat nat
  | Signalled nat nat int
  | Freed payload
  | Logged nat bytes
  | Closed nat

record skynet_node =
  n_total :: int
  n_monitor_exit :: u32
  n_current :: u32
  n_ctxs :: "nat \<rightharpoonup> skynet_context"
  n_alloc :: nat
  n_handles :: handle_storage
  n_mq :: mq_state
  n_timer :: timer
  n_modules :: modules
  n_env :: "cstr \<rightharpoonup> cstr"
  n_harbor :: u32
  n_remote :: "nat option"
  n_logger :: u32
  n_trace :: "effect list"

text \<open>The code of a service: the requests it makes. The fields are the arguments of the function of the
  same name; the function that follows them is what the service does with the result.\<close>

datatype prog =
    Return int
  | Do_send u32 u32 int int payload u64 "int \<Rightarrow> prog"
  | Do_sendname u32 cstr int int payload u64 "int \<Rightarrow> prog"
  | Do_command cstr "cstr option" "cstr option \<Rightarrow> prog"
  | Do_callback nat nat prog
  | Do_error cstr prog
  | Do_harbor_start prog

text \<open>What is outside the node: the functions of the service modules and the services of the operating
  system.\<close>

record world =
  w_create :: "nat \<Rightarrow> nat \<Rightarrow> nat option"
  w_init :: "nat \<Rightarrow> nat \<Rightarrow> cstr option \<Rightarrow> prog"
  w_cb :: "nat \<Rightarrow> nat \<Rightarrow> int \<Rightarrow> int \<Rightarrow> u32 \<Rightarrow> payload \<Rightarrow> u64 \<Rightarrow> prog"
  w_dlopen :: "cstr \<Rightarrow> nat option"
  w_dlsym :: "nat \<Rightarrow> cstr \<Rightarrow> nat option"
  w_fopen :: "cstr \<Rightarrow> nat option"
  w_ctime :: "u64 \<Rightarrow> cstr"

definition get_ctx :: "nat \<Rightarrow> skynet_node \<Rightarrow> skynet_context option" where
  "get_ctx c n = n_ctxs n c"

definition put_ctx :: "nat \<Rightarrow> skynet_context \<Rightarrow> skynet_node \<Rightarrow> skynet_node" where
  "put_ctx c x n = n\<lparr>n_ctxs := (n_ctxs n)(c \<mapsto> x)\<rparr>"

definition handle_of :: "skynet_node \<Rightarrow> nat \<Rightarrow> u32" where
  "handle_of n c = (case n_ctxs n c of Some x \<Rightarrow> cx_handle x | None \<Rightarrow> 0)"

definition emit :: "effect \<Rightarrow> skynet_node \<Rightarrow> skynet_node" where
  "emit e n = n\<lparr>n_trace := n_trace n @ [e]\<rparr>"

section \<open>Contexts and their reference counts\<close>

definition skynet_context_total :: "skynet_node \<Rightarrow> int" where
  "skynet_context_total n = n_total n"

definition context_inc :: "skynet_node \<Rightarrow> skynet_node" where
  "context_inc n = n\<lparr>n_total := n_total n + 1\<rparr>"

definition context_dec :: "skynet_node \<Rightarrow> skynet_node" where
  "context_dec n = n\<lparr>n_total := n_total n - 1\<rparr>"

definition skynet_context_handle :: "nat \<Rightarrow> skynet_node \<Rightarrow> u32 option" where
  "skynet_context_handle c n = map_option cx_handle (get_ctx c n)"

definition skynet_context_newsession :: "nat \<Rightarrow> skynet_node \<Rightarrow> (int \<times> skynet_node) option" where
  "skynet_context_newsession c n = do {
     x \<leftarrow> get_ctx c n;
     let session = cx_session_id x + 1;
     if sint session \<le> 0 then Some (1, put_ctx c (x\<lparr>cx_session_id := 1\<rparr>) n)
     else Some (sint session, put_ctx c (x\<lparr>cx_session_id := session\<rparr>) n)
   }"

definition skynet_context_grab :: "nat \<Rightarrow> skynet_node \<Rightarrow> skynet_node option" where
  "skynet_context_grab c n = do {
     x \<leftarrow> get_ctx c n;
     Some (put_ctx c (x\<lparr>cx_ref := cx_ref x + 1\<rparr>) n)
   }"

definition skynet_context_reserve :: "nat \<Rightarrow> skynet_node \<Rightarrow> skynet_node option" where
  "skynet_context_reserve c n = do { n \<leftarrow> skynet_context_grab c n; Some (context_dec n) }"

definition skynet_module_instance_release :: "nat \<Rightarrow> nat \<Rightarrow> skynet_node \<Rightarrow> skynet_node option" where
  "skynet_module_instance_release md inst n = do {
     m \<leftarrow> nth_opt (m_m (n_modules n)) md;
     Some (case md_release m of Some f \<Rightarrow> emit (Released f inst) n | None \<Rightarrow> n)
   }"

definition skynet_module_instance_signal :: "nat \<Rightarrow> nat \<Rightarrow> int \<Rightarrow> skynet_node \<Rightarrow> skynet_node option" where
  "skynet_module_instance_signal md inst sig n = do {
     m \<leftarrow> nth_opt (m_m (n_modules n)) md;
     Some (case md_signal m of Some f \<Rightarrow> emit (Signalled f inst sig) n | None \<Rightarrow> n)
   }"

definition delete_context :: "nat \<Rightarrow> skynet_node \<Rightarrow> skynet_node option" where
  "delete_context c n = do {
     x \<leftarrow> get_ctx c n;
     let n = (case cx_logfile x of Some f \<Rightarrow> emit (Closed f) n | None \<Rightarrow> n);
     n \<leftarrow> skynet_module_instance_release (cx_mod x) (cx_instance x) n;
     m \<leftarrow> skynet_mq_mark_release (cx_queue x) (n_mq n);
     Some (context_dec (n\<lparr>n_mq := m, n_ctxs := (n_ctxs n)(c := None)\<rparr>))
   }"

text \<open>The result says whether the context is still there.\<close>

definition skynet_context_release :: "nat \<Rightarrow> skynet_node \<Rightarrow> (bool \<times> skynet_node) option" where
  "skynet_context_release c n = do {
     x \<leftarrow> get_ctx c n;
     let n = put_ctx c (x\<lparr>cx_ref := cx_ref x - 1\<rparr>) n;
     if cx_ref x - 1 = 0 then do { n \<leftarrow> delete_context c n; Some (False, n) }
     else Some (True, n)
   }"

text \<open>\<open>skynet_handle_grab\<close> takes a reference while it has the lock of the table, and
  \<open>skynet_handle_retire\<close> gives back the reference of the table when it has released the lock.\<close>

definition handle_grab :: "u32 \<Rightarrow> skynet_node \<Rightarrow> (nat option \<times> skynet_node) option" where
  "handle_grab h n =
     (case skynet_handle_grab (handle_of n) h (n_handles n) of
        None \<Rightarrow> Some (None, n)
      | Some c \<Rightarrow> do { n \<leftarrow> skynet_context_grab c n; Some (Some c, n) })"

definition handle_retire :: "u32 \<Rightarrow> skynet_node \<Rightarrow> (bool \<times> skynet_node) option" where
  "handle_retire h n =
     (case skynet_handle_retire (handle_of n) h (n_handles n) of
        (ret, c, hs) \<Rightarrow>
          let n = n\<lparr>n_handles := hs\<rparr> in
          case c of
            None \<Rightarrow> Some (ret, n)
          | Some c \<Rightarrow> do { (_, n) \<leftarrow> skynet_context_release c n; Some (ret, n) })"

fun release_all :: "nat list \<Rightarrow> skynet_node \<Rightarrow> skynet_node option" where
  "release_all [] n = Some n"
| "release_all (c # cs) n = do { (_, n) \<leftarrow> skynet_context_release c n; release_all cs n }"

text \<open>\<open>skynet_handle_retireall\<close>: the contexts the loops take out of the table, released in that order.
  A release does not touch the table, so it makes no difference to the loops that it comes in between.\<close>

definition handle_retireall :: "skynet_node \<Rightarrow> skynet_node option" where
  "handle_retireall n = do {
     (cs, hs) \<leftarrow> skynet_handle_retireall (handle_of n) (n_handles n);
     release_all cs (n\<lparr>n_handles := hs\<rparr>)
   }"

definition skynet_context_push :: "u32 \<Rightarrow> skynet_message \<Rightarrow> skynet_node \<Rightarrow> (int \<times> skynet_node) option" where
  "skynet_context_push h msg n = do {
     (g, n) \<leftarrow> handle_grab h n;
     case g of
       None \<Rightarrow> Some (-1, n)
     | Some c \<Rightarrow> do {
         x \<leftarrow> get_ctx c n;
         m \<leftarrow> skynet_mq_push (cx_queue x) msg (n_mq n);
         (_, n) \<leftarrow> skynet_context_release c (n\<lparr>n_mq := m\<rparr>);
         Some (0, n)
       }
   }"

definition skynet_context_endless :: "u32 \<Rightarrow> skynet_node \<Rightarrow> skynet_node option" where
  "skynet_context_endless h n = do {
     (g, n) \<leftarrow> handle_grab h n;
     case g of
       None \<Rightarrow> Some n
     | Some c \<Rightarrow> do {
         x \<leftarrow> get_ctx c n;
         (_, n) \<leftarrow> skynet_context_release c (put_ctx c (x\<lparr>cx_endless := True\<rparr>) n);
         Some n
       }
   }"

text \<open>The type of a message is in the top byte of its size.\<close>

definition with_type :: "u64 \<Rightarrow> int \<Rightarrow> u64" where
  "with_type len type = len OR push_bit MESSAGE_TYPE_SHIFT (word_of_int type)"

definition skynet_context_send ::
    "nat \<Rightarrow> payload \<Rightarrow> u64 \<Rightarrow> u32 \<Rightarrow> int \<Rightarrow> int \<Rightarrow> skynet_node \<Rightarrow> skynet_node option" where
  "skynet_context_send c msg len src type sess n = do {
     x \<leftarrow> get_ctx c n;
     m \<leftarrow> skynet_mq_push (cx_queue x)
           \<lparr>source = src, session = sess, data = msg, sz = with_type len type\<rparr> (n_mq n);
     Some (n\<lparr>n_mq := m\<rparr>)
   }"

definition skynet_callback :: "nat \<Rightarrow> nat \<Rightarrow> nat \<Rightarrow> skynet_node \<Rightarrow> skynet_node option" where
  "skynet_callback c f ud n = do {
     x \<leftarrow> get_ctx c n;
     Some (put_ctx c (x\<lparr>cx_cb := Some f, cx_cb_ud := ud\<rparr>) n)
   }"

section \<open>Log messages: skynet_error.c\<close>

definition LOG_MESSAGE_SIZE :: nat where "LOG_MESSAGE_SIZE = 256"

text \<open>\<open>vsnprintf\<close> into a buffer of the given size: the text it leaves there and the length it reports.
  The argument is the text after formatting.\<close>

definition vsnprintf :: "nat \<Rightarrow> cstr \<Rightarrow> cstr \<times> nat" where
  "vsnprintf cap text = (take (cap - 1) text, length text)"

text \<open>The loop starts with 256, so \<open>max_size\<close> is never 0 there.\<close>

function format_loop :: "nat \<Rightarrow> cstr \<Rightarrow> cstr \<times> nat" where
  "format_loop max_size text =
     (let max_size = max_size * 2; (data, len) = vsnprintf max_size text
      in if len < max_size \<or> max_size = 0 then (data, len) else format_loop max_size text)"
  by pat_completeness auto
termination
  by (relation "measure (\<lambda>(max_size, text). Suc (length text) - max_size)") (auto simp: vsnprintf_def)

declare format_loop.simps [simp del]

definition format_message :: "cstr \<Rightarrow> cstr \<times> nat" where
  "format_message text =
     (let (tmp, len) = vsnprintf LOG_MESSAGE_SIZE text
      in if len < LOG_MESSAGE_SIZE then (tmp, len) else format_loop LOG_MESSAGE_SIZE text)"

definition skynet_error :: "nat option \<Rightarrow> cstr \<Rightarrow> skynet_node \<Rightarrow> skynet_node option" where
  "skynet_error ctx text n = do {
     n \<leftarrow> (if n_logger n = 0 then do {
             h \<leftarrow> skynet_handle_findname (lit ''logger'') (n_handles n);
             Some (n\<lparr>n_logger := h\<rparr>)
           } else Some n);
     if n_logger n = 0 then Some n
     else do {
       let (data, len) = format_message text;
       src \<leftarrow> (case ctx of None \<Rightarrow> Some 0 | Some c \<Rightarrow> skynet_context_handle c n);
       (_, n) \<leftarrow> skynet_context_push (n_logger n)
          \<lparr>source = src, session = 0, data = PBuf (data @ [0]), sz = with_type (of_nat len) PTYPE_TEXT\<rparr> n;
       Some n
     }
   }"

section \<open>Environment: skynet_env.c\<close>

definition skynet_getenv :: "cstr \<Rightarrow> skynet_node \<Rightarrow> cstr option" where
  "skynet_getenv key n = n_env n key"

definition skynet_setenv :: "cstr \<Rightarrow> cstr \<Rightarrow> skynet_node \<Rightarrow> skynet_node option" where
  "skynet_setenv key val n = do {
     assert_opt (n_env n key = None);
     Some (n\<lparr>n_env := (n_env n)(key \<mapsto> val)\<rparr>)
   }"

section \<open>Remote messages: skynet_harbor.c\<close>

definition GLOBALNAME_LENGTH :: nat where "GLOBALNAME_LENGTH = 16"

text \<open>The size of \<open>struct remote_message\<close>: 20 bytes of name and handle, padding, a pointer and a size.\<close>

definition REMOTE_MESSAGE_SIZE :: u64 where "REMOTE_MESSAGE_SIZE = 40"

definition skynet_harbor_send :: "cstr \<Rightarrow> u32 \<Rightarrow> payload \<Rightarrow> u64 \<Rightarrow> u32 \<Rightarrow> int \<Rightarrow> skynet_node \<Rightarrow> skynet_node option" where
  "skynet_harbor_send nm h msg len src sess n = do {
     let type = uint (drop_bit MESSAGE_TYPE_SHIFT len);
     assert_opt (type \<noteq> PTYPE_SYSTEM \<and> type \<noteq> PTYPE_HARBOR);
     c \<leftarrow> n_remote n;
     skynet_context_send c (PRemote nm h msg (len AND MESSAGE_TYPE_MASK)) REMOTE_MESSAGE_SIZE src type sess n
   }"

definition skynet_harbor_message_isremote :: "u32 \<Rightarrow> skynet_node \<Rightarrow> bool option" where
  "skynet_harbor_message_isremote h n = do {
     assert_opt (n_harbor n \<noteq> NOT 0);
     let hb = h AND NOT HANDLE_MASK;
     Some (hb \<noteq> n_harbor n \<and> hb \<noteq> 0)
   }"

definition skynet_harbor_init :: "int \<Rightarrow> skynet_node \<Rightarrow> skynet_node" where
  "skynet_harbor_init hb n = n\<lparr>n_harbor := push_bit HANDLE_REMOTE_SHIFT (word_of_int hb)\<rparr>"

definition skynet_harbor_start :: "nat \<Rightarrow> skynet_node \<Rightarrow> skynet_node option" where
  "skynet_harbor_start c n = do {
     n \<leftarrow> skynet_context_reserve c n;
     Some (n\<lparr>n_remote := Some c\<rparr>)
   }"

definition skynet_harbor_exit :: "skynet_node \<Rightarrow> skynet_node option" where
  "skynet_harbor_exit n =
     (case n_remote n of
        None \<Rightarrow> Some n
      | Some c \<Rightarrow> do { (_, n) \<leftarrow> skynet_context_release c (n\<lparr>n_remote := None\<rparr>); Some n })"

definition skynet_isremote :: "u32 \<Rightarrow> skynet_node \<Rightarrow> (bool \<times> int) option" where
  "skynet_isremote h n = do {
     r \<leftarrow> skynet_harbor_message_isremote h n;
     Some (r, uint (drop_bit HANDLE_REMOTE_SHIFT h))
   }"

section \<open>Sending\<close>

text \<open>The copy of a message: the given number of bytes and a zero. A structure is copied whole.\<close>

definition copy_data :: "payload \<Rightarrow> u64 \<Rightarrow> payload option" where
  "copy_data d len =
     (case d of
        PBuf bs \<Rightarrow> if unat len \<le> length bs then Some (PBuf (take (unat len) bs @ [0])) else None
      | _ \<Rightarrow> Some d)"

definition filter_args ::
    "nat option \<Rightarrow> int \<Rightarrow> int \<Rightarrow> payload \<Rightarrow> u64 \<Rightarrow> skynet_node \<Rightarrow> (int \<times> payload \<times> u64 \<times> skynet_node) option" where
  "filter_args ctx type sess d len n = do {
     let needcopy = (type AND PTYPE_TAG_DONTCOPY = 0);
     let allocsession = (type AND PTYPE_TAG_ALLOCSESSION \<noteq> 0);
     (sess, n) \<leftarrow> (if allocsession then do {
                      assert_opt (sess = 0);
                      c \<leftarrow> ctx;
                      skynet_context_newsession c n
                    } else Some (sess, n));
     d \<leftarrow> (if needcopy then copy_data d len else Some d);
     Some (sess, d, with_type len (type AND 0xff), n)
   }"

text \<open>The null pointer has no \<open>handle\<close> field: without a context the source must be given.\<close>

definition own_handle :: "nat option \<Rightarrow> u32 \<Rightarrow> skynet_node \<Rightarrow> u32 option" where
  "own_handle ctx src n = (if src = 0 then do { c \<leftarrow> ctx; skynet_context_handle c n } else Some src)"

definition skynet_send ::
    "nat option \<Rightarrow> u32 \<Rightarrow> u32 \<Rightarrow> int \<Rightarrow> int \<Rightarrow> payload \<Rightarrow> u64 \<Rightarrow> skynet_node \<Rightarrow> (int \<times> skynet_node) option" where
  "skynet_send ctx src dest type sess d len n =
     (if len AND MESSAGE_TYPE_MASK \<noteq> len then do {
        n \<leftarrow> skynet_error ctx (lit ''The message to '' @ hex_nat (unat dest) @ lit '' is too large'') n;
        Some (-1, if type AND PTYPE_TAG_DONTCOPY \<noteq> 0 then emit (Freed d) n else n)
      }
      else do {
        (sess, d, len, n) \<leftarrow> filter_args ctx type sess d len n;
        src \<leftarrow> own_handle ctx src n;
        if dest = 0 then Some (sess, n)
        else do {
          remote \<leftarrow> skynet_harbor_message_isremote dest n;
          if remote then do {
            n \<leftarrow> skynet_harbor_send [] dest d len src sess n;
            Some (sess, n)
          }
          else do {
            (r, n) \<leftarrow> skynet_context_push dest \<lparr>source = src, session = sess, data = d, sz = len\<rparr> n;
            if r \<noteq> 0 then Some (-1, emit (Freed d) n) else Some (sess, n)
          }
        }
      })"

text \<open>The name field of 16 bytes, cut or padded with zeros.\<close>

definition copy_name :: "cstr \<Rightarrow> bytes" where
  "copy_name addr =
     (let a = take GLOBALNAME_LENGTH addr in a @ replicate (GLOBALNAME_LENGTH - length a) 0)"

definition skynet_sendname ::
    "nat option \<Rightarrow> u32 \<Rightarrow> cstr \<Rightarrow> int \<Rightarrow> int \<Rightarrow> payload \<Rightarrow> u64 \<Rightarrow> skynet_node \<Rightarrow> (int \<times> skynet_node) option" where
  "skynet_sendname ctx src addr type sess d len n = do {
     src \<leftarrow> own_handle ctx src n;
     case addr of
       a # rest \<Rightarrow>
         if a = ch CHR '':'' then skynet_send ctx src (ucast (strtoul 16 rest)) type sess d len n
         else if a = ch CHR ''.'' then do {
           des \<leftarrow> skynet_handle_findname rest (n_handles n);
           if des = 0 then Some (-1, if type AND PTYPE_TAG_DONTCOPY \<noteq> 0 then emit (Freed d) n else n)
           else skynet_send ctx src des type sess d len n
         }
         else do {
           (sess, d, len, n) \<leftarrow> filter_args ctx type sess d len n;
           n \<leftarrow> skynet_harbor_send (copy_name addr) 0 d len src sess n;
           Some (sess, n)
         }
     | [] \<Rightarrow> do {
         (sess, d, len, n) \<leftarrow> filter_args ctx type sess d len n;
         n \<leftarrow> skynet_harbor_send (copy_name []) 0 d len src sess n;
         Some (sess, n)
       }
   }"

text \<open>A message that is dropped with its queue: its source is told.\<close>

definition drop_message :: "u32 \<Rightarrow> skynet_message \<Rightarrow> skynet_node \<Rightarrow> skynet_node option" where
  "drop_message h msg n = do {
     let n = emit (Freed (data msg)) n;
     assert_opt (h \<noteq> 0);
     (_, n) \<leftarrow> skynet_send None h (source msg) PTYPE_ERROR 0 PNull 0 n;
     Some n
   }"

text \<open>\<open>skynet_mq_release\<close> with \<open>drop_message\<close>. Nobody sends to the queue of a context that is gone, so
  the loop ends after the messages that are in the queue.\<close>

definition mq_release_dropping :: "u32 \<Rightarrow> mqref \<Rightarrow> skynet_node \<Rightarrow> skynet_node option" where
  "mq_release_dropping h q n = do {
     rq \<leftarrow> get_q q (n_mq n);
     skynet_mq_release (Suc (skynet_mq_length rq)) n_mq (\<lambda>m n. n\<lparr>n_mq := m\<rparr>) (drop_message h) q n
   }"

section \<open>Message log: skynet_log.c\<close>

definition hex8 :: "u32 \<Rightarrow> cstr" where "hex8 h = hex_digits 8 (unat h)"

definition skynet_log_open :: "world \<Rightarrow> nat \<Rightarrow> u32 \<Rightarrow> skynet_node \<Rightarrow> (nat option \<times> skynet_node) option" where
  "skynet_log_open w ctx h n =
     (case skynet_getenv (lit ''logpath'') n of
        None \<Rightarrow> Some (None, n)
      | Some logpath \<Rightarrow>
          let tmp = logpath @ lit ''/'' @ hex8 h @ lit ''.log'' in
          case w_fopen w tmp of
            Some f \<Rightarrow> do {
              let ti = ucast (skynet_starttime (n_timer n)) + skynet_now (n_timer n) div 100;
              n \<leftarrow> skynet_error (Some ctx) (lit ''Open log file '' @ tmp) n;
              Some (Some f, emit (Logged f (lit ''open time: ''
                 @ dec (uint (ucast (skynet_now (n_timer n)) :: u32)) @ lit '' '' @ w_ctime w ti)) n)
            }
          | None \<Rightarrow> do {
              n \<leftarrow> skynet_error (Some ctx) (lit ''Open log file '' @ tmp @ lit '' fail'') n;
              Some (None, n)
            })"

definition skynet_log_close :: "nat \<Rightarrow> nat \<Rightarrow> u32 \<Rightarrow> skynet_node \<Rightarrow> skynet_node option" where
  "skynet_log_close ctx f h n = do {
     n \<leftarrow> skynet_error (Some ctx) (lit ''Close log file :'' @ hex8 h) n;
     let n = emit (Logged f (lit ''close time: '' @ dec (uint (ucast (skynet_now (n_timer n)) :: u32)) @ [10])) n;
     Some (emit (Closed f) n)
   }"

definition log_blob :: "bytes \<Rightarrow> nat \<Rightarrow> cstr option" where
  "log_blob buf k =
     (if k \<le> length buf then Some (concat (map (\<lambda>b. hex_digits 2 (unat b)) (take k buf))) else None)"

text \<open>The conversion \<open>%*s\<close> of the text behind a socket message prints up to its final zero, with at least
  the given width; without a zero it reads past the end.\<close>

definition log_socket :: "int \<Rightarrow> int \<Rightarrow> int \<Rightarrow> bytes option \<Rightarrow> bytes \<Rightarrow> cstr option" where
  "log_socket type sid ud buffer tail = do {
     body \<leftarrow> (case buffer of
               None \<Rightarrow> do { t \<leftarrow> read_str tail; Some (lit ''['' @ t @ lit '']'') }
             | Some buf \<Rightarrow> log_blob buf (nat ud));
     Some (lit ''[socket] '' @ dec type @ lit '' '' @ dec sid @ lit '' '' @ dec ud @ lit '' '' @ body @ [10])
   }"

text \<open>The bytes of a message that is not a socket message, as far as they are modelled.\<close>

definition log_bytes :: "payload \<Rightarrow> nat \<Rightarrow> cstr option" where
  "log_bytes d k = (case d of PBuf bs \<Rightarrow> log_blob bs k | PNull \<Rightarrow> log_blob [] k | _ \<Rightarrow> Some [])"

definition skynet_log_output ::
    "nat \<Rightarrow> u32 \<Rightarrow> int \<Rightarrow> int \<Rightarrow> payload \<Rightarrow> nat \<Rightarrow> skynet_node \<Rightarrow> skynet_node option" where
  "skynet_log_output f src type sess d len n =
     (if type = PTYPE_SOCKET then
        case d of
          PSocket st sid ud buffer tail \<Rightarrow> do { t \<leftarrow> log_socket st sid ud buffer tail; Some (emit (Logged f t) n) }
        | _ \<Rightarrow> None
      else do {
        t \<leftarrow> log_bytes d len;
        Some (emit (Logged f (lit '':'' @ hex8 src @ lit '' '' @ dec type @ lit '' '' @ dec sess @ lit '' ''
          @ dec (uint (ucast (skynet_now (n_timer n)) :: u32)) @ lit '' '' @ t @ [10])) n)
      })"

section \<open>The monitor: skynet_monitor.c\<close>

record skynet_monitor =
  sm_version :: u32
  sm_check_version :: u32
  sm_source :: u32
  sm_destination :: u32

definition skynet_monitor_new :: skynet_monitor where
  "skynet_monitor_new = \<lparr>sm_version = 0, sm_check_version = 0, sm_source = 0, sm_destination = 0\<rparr>"

definition skynet_monitor_trigger :: "u32 \<Rightarrow> u32 \<Rightarrow> skynet_monitor \<Rightarrow> skynet_monitor" where
  "skynet_monitor_trigger src dest sm =
     sm\<lparr>sm_source := src, sm_destination := dest, sm_version := sm_version sm + 1\<rparr>"

definition skynet_monitor_check :: "skynet_monitor \<Rightarrow> skynet_node \<Rightarrow> (skynet_monitor \<times> skynet_node) option" where
  "skynet_monitor_check sm n =
     (if sm_version sm = sm_check_version sm then
        if sm_destination sm \<noteq> 0 then do {
          n \<leftarrow> skynet_context_endless (sm_destination sm) n;
          n \<leftarrow> skynet_error None (lit ''A message from [ :'' @ hex8 (sm_source sm) @ lit '' ] to [ :''
                 @ hex8 (sm_destination sm) @ lit '' ] maybe in an endless loop (version = ''
                 @ dec (sint (sm_version sm)) @ lit '')'') n;
          Some (sm, n)
        } else Some (sm, n)
      else Some (sm\<lparr>sm_check_version := sm_version sm\<rparr>, n))"

section \<open>Dispatching\<close>

text \<open>A runner executes the code of a service on behalf of a context.\<close>

type_synonym runner = "nat \<Rightarrow> prog \<Rightarrow> skynet_node \<Rightarrow> (int \<times> skynet_node) option"

definition dispatch_message :: "world \<Rightarrow> runner \<Rightarrow> nat \<Rightarrow> skynet_message \<Rightarrow> skynet_node \<Rightarrow> skynet_node option" where
  "dispatch_message w run c msg n = do {
     x \<leftarrow> get_ctx c n;
     assert_opt (cx_init x);
     let n = n\<lparr>n_current := cx_handle x\<rparr>;
     let type = uint (drop_bit MESSAGE_TYPE_SHIFT (sz msg));
     let len = sz msg AND MESSAGE_TYPE_MASK;
     n \<leftarrow> (case cx_logfile x of
              Some f \<Rightarrow> skynet_log_output f (source msg) type (session msg) (data msg) (unat len) n
            | None \<Rightarrow> Some n);
     f \<leftarrow> cx_cb x;
     (r, n) \<leftarrow> run c (w_cb w f (cx_cb_ud x) type (session msg) (source msg) (data msg) len) n;
     Some (if r = 0 then emit (Freed (data msg)) n else n)
   }"

text \<open>\<open>skynet_context_dispatchall\<close>: the loop ends when the queue is empty, which depends on the code of the
  service; without an end there is no result.\<close>

partial_function (option) skynet_context_dispatchall ::
    "world \<Rightarrow> runner \<Rightarrow> nat \<Rightarrow> mqref \<Rightarrow> skynet_node \<Rightarrow> skynet_node option" where
  "skynet_context_dispatchall w run c q n = do {
     (msg, m) \<leftarrow> skynet_mq_pop q (n_mq n);
     case msg of
       None \<Rightarrow> Some (n\<lparr>n_mq := m\<rparr>)
     | Some msg \<Rightarrow> do {
         n \<leftarrow> dispatch_message w run c msg (n\<lparr>n_mq := m\<rparr>);
         skynet_context_dispatchall w run c q n
       }
   }"

text \<open>The overload report of a queue.\<close>

definition report_overload :: "nat \<Rightarrow> mqref \<Rightarrow> skynet_node \<Rightarrow> skynet_node option" where
  "report_overload c q n = do {
     rq \<leftarrow> get_q q (n_mq n);
     let (overload, rq) = skynet_mq_overload rq;
     let n = n\<lparr>n_mq := put_q q rq (n_mq n)\<rparr>;
     if overload \<noteq> 0 then skynet_error (Some c) (lit ''May overload, message queue length = '' @ dec (int overload)) n
     else Some n
   }"

text \<open>What follows a successful pop in the loop: the report and the call of the service.\<close>

definition deliver_one ::
    "world \<Rightarrow> runner \<Rightarrow> nat \<Rightarrow> mqref \<Rightarrow> u32 \<Rightarrow> skynet_message \<Rightarrow> skynet_monitor \<Rightarrow> skynet_node
       \<Rightarrow> (skynet_monitor \<times> skynet_node) option" where
  "deliver_one w run c q h msg sm n = do {
     n \<leftarrow> report_overload c q n;
     let sm = skynet_monitor_trigger (source msg) h sm;
     x \<leftarrow> get_ctx c n;
     n \<leftarrow> (if cx_cb x = None then Some (emit (Freed (data msg)) n) else dispatch_message w run c msg n);
     Some (skynet_monitor_trigger 0 0 sm, n)
   }"

text \<open>The loop over \<open>i < n\<close>. The result says whether it was left because the queue was empty.\<close>

function dispatch_loop ::
    "world \<Rightarrow> runner \<Rightarrow> nat \<Rightarrow> mqref \<Rightarrow> u32 \<Rightarrow> int \<Rightarrow> nat \<Rightarrow> nat \<Rightarrow> skynet_monitor \<Rightarrow> skynet_node
       \<Rightarrow> (bool \<times> skynet_monitor \<times> skynet_node) option" where
  "dispatch_loop w run c q h weight i k sm n =
     (if i < k then do {
        (msg, m) \<leftarrow> skynet_mq_pop q (n_mq n);
        case msg of
          None \<Rightarrow> Some (True, sm, n\<lparr>n_mq := m\<rparr>)
        | Some msg \<Rightarrow> do {
            rq \<leftarrow> get_q q m;
            let k' = (if i = 0 \<and> weight \<ge> 0 then drop_bit (nat weight) (skynet_mq_length rq) else k);
            (sm, n) \<leftarrow> deliver_one w run c q h msg sm (n\<lparr>n_mq := m\<rparr>);
            dispatch_loop w run c q h weight (Suc i) k' sm n
          }
      }
      else Some (False, sm, n))"
  by pat_completeness auto
termination
  by (relation "measures [\<lambda>(w, run, c, q, h, weight, i, k, sm, n). if i = 0 then 1 else 0,
        \<lambda>(w, run, c, q, h, weight, i, k, sm, n). k - i]") auto

declare dispatch_loop.simps [simp del]

definition globalmq_pop :: "skynet_node \<Rightarrow> (mqref option \<times> skynet_node) option" where
  "globalmq_pop n = do { (q, m) \<leftarrow> skynet_globalmq_pop (n_mq n); Some (q, n\<lparr>n_mq := m\<rparr>) }"

definition dispatch_queue ::
    "world \<Rightarrow> runner \<Rightarrow> int \<Rightarrow> skynet_monitor \<Rightarrow> mqref \<Rightarrow> skynet_node
       \<Rightarrow> (mqref option \<times> skynet_monitor \<times> skynet_node) option" where
  "dispatch_queue w run weight sm q n = do {
     h \<leftarrow> skynet_mq_handle q (n_mq n);
     (g, n) \<leftarrow> handle_grab h n;
     case g of
       None \<Rightarrow> do {
         n \<leftarrow> mq_release_dropping h q n;
         (q, n) \<leftarrow> globalmq_pop n;
         Some (q, sm, n)
       }
     | Some c \<Rightarrow> do {
         (empty, sm, n) \<leftarrow> dispatch_loop w run c q h weight 0 1 sm n;
         if empty then do {
           (_, n) \<leftarrow> skynet_context_release c n;
           (q, n) \<leftarrow> globalmq_pop n;
           Some (q, sm, n)
         }
         else do {
           x \<leftarrow> get_ctx c n;
           assert_opt (q = cx_queue x);
           (nq, n) \<leftarrow> globalmq_pop n;
           (q, n) \<leftarrow> (case nq of
                       Some nq \<Rightarrow> do { m \<leftarrow> skynet_globalmq_push q (n_mq n); Some (nq, n\<lparr>n_mq := m\<rparr>) }
                     | None \<Rightarrow> Some (q, n));
           (_, n) \<leftarrow> skynet_context_release c n;
           Some (Some q, sm, n)
         }
       }
   }"

definition skynet_context_message_dispatch ::
    "world \<Rightarrow> runner \<Rightarrow> int \<Rightarrow> skynet_monitor \<Rightarrow> mqref option \<Rightarrow> skynet_node
       \<Rightarrow> (mqref option \<times> skynet_monitor \<times> skynet_node) option" where
  "skynet_context_message_dispatch w run weight sm q n =
     (case q of
        Some q \<Rightarrow> dispatch_queue w run weight sm q n
      | None \<Rightarrow> do {
          (q, n) \<leftarrow> globalmq_pop n;
          case q of
            None \<Rightarrow> Some (None, sm, n)
          | Some q \<Rightarrow> dispatch_queue w run weight sm q n
        })"

section \<open>Launching a service\<close>

definition new_context :: "nat \<Rightarrow> nat \<Rightarrow> skynet_context" where
  "new_context md inst =
     \<lparr>cx_instance = inst, cx_mod = md, cx_cb = None, cx_cb_ud = 0, cx_queue = 0, cx_logfile = None,
      cx_result = [], cx_handle = 0, cx_session_id = 0, cx_ref = 2, cx_init = False, cx_endless = False\<rparr>"

text \<open>From the allocation of the context to the call of the module's \<open>init\<close>.\<close>

definition context_setup :: "nat \<Rightarrow> nat \<Rightarrow> skynet_node \<Rightarrow> (nat \<times> mqref \<times> skynet_node) option" where
  "context_setup md inst n = do {
     let c = n_alloc n;
     let n = (put_ctx c (new_context md inst) n)\<lparr>n_alloc := Suc c\<rparr>;
     (h, hs) \<leftarrow> skynet_handle_register (handle_of n) c (n_handles n);
     let (q, m) = skynet_mq_create h (n_mq n);
     let n = put_ctx c ((new_context md inst)\<lparr>cx_handle := h, cx_queue := q\<rparr>) (n\<lparr>n_handles := hs, n_mq := m\<rparr>);
     Some (c, q, context_inc n)
   }"

definition launch_done :: "cstr \<Rightarrow> cstr option \<Rightarrow> nat \<Rightarrow> mqref \<Rightarrow> skynet_node \<Rightarrow> (nat option \<times> skynet_node) option" where
  "launch_done nm param c q n = do {
     (ret, n) \<leftarrow> skynet_context_release c n;
     n \<leftarrow> (if ret then do { x \<leftarrow> get_ctx c n; Some (put_ctx c (x\<lparr>cx_init := True\<rparr>) n) } else Some n);
     m \<leftarrow> skynet_globalmq_push q (n_mq n);
     let n = n\<lparr>n_mq := m\<rparr>;
     n \<leftarrow> (if ret then skynet_error (Some c) (lit ''LAUNCH '' @ nm @ lit '' ''
              @ (case param of Some p \<Rightarrow> p | None \<Rightarrow> [])) n else Some n);
     Some (if ret then Some c else None, n)
   }"

definition launch_failed :: "cstr \<Rightarrow> nat \<Rightarrow> mqref \<Rightarrow> skynet_node \<Rightarrow> (nat option \<times> skynet_node) option" where
  "launch_failed nm c q n = do {
     n \<leftarrow> skynet_error (Some c) (lit ''FAILED launch '' @ nm) n;
     h \<leftarrow> skynet_context_handle c n;
     (_, n) \<leftarrow> skynet_context_release c n;
     (_, n) \<leftarrow> handle_retire h n;
     n \<leftarrow> mq_release_dropping h q n;
     Some (None, n)
   }"

definition skynet_context_new ::
    "world \<Rightarrow> runner \<Rightarrow> cstr \<Rightarrow> cstr option \<Rightarrow> skynet_node \<Rightarrow> (nat option \<times> skynet_node) option" where
  "skynet_context_new w run nm param n = do {
     (md, ms) \<leftarrow> skynet_module_query (w_dlopen w) (w_dlsym w) nm (n_modules n);
     let n = n\<lparr>n_modules := ms\<rparr>;
     case md of
       None \<Rightarrow> Some (None, n)
     | Some i \<Rightarrow> do {
         md \<leftarrow> nth_opt (m_m ms) i;
         case skynet_module_instance_create (\<lambda>f. w_create w f (n_alloc n)) md of
           None \<Rightarrow> Some (None, n)
         | Some inst \<Rightarrow> do {
             (c, q, n) \<leftarrow> context_setup i inst n;
             f \<leftarrow> md_init md;
             (r, n) \<leftarrow> run c (w_init w f inst param) n;
             if r = 0 then launch_done nm param c q n else launch_failed nm c q n
           }
       }
   }"

section \<open>Names and handles as text\<close>

text \<open>\<open>id_to_hex\<close>: a colon and eight upper-case hexadecimal digits.\<close>

definition upper_hex :: "u32 \<Rightarrow> u8" where
  "upper_hex d = lit ''0123456789ABCDEF'' ! unat d"

definition id_to_hex :: "u32 \<Rightarrow> cstr" where
  "id_to_hex h = ch CHR '':'' # map (\<lambda>i. upper_hex (drop_bit ((7 - i) * 4) h AND 0xf)) [0..<8]"

definition skynet_queryname :: "nat \<Rightarrow> cstr \<Rightarrow> skynet_node \<Rightarrow> (u32 \<times> skynet_node) option" where
  "skynet_queryname ctx nm n =
     (if take 1 nm = [ch CHR '':''] then Some (ucast (strtoul 16 (tl nm)), n)
      else if take 1 nm = [ch CHR ''.''] then do { h \<leftarrow> skynet_handle_findname (tl nm) (n_handles n); Some (h, n) }
      else do { n \<leftarrow> skynet_error (Some ctx) (lit ''Don't support query global name '' @ nm) n; Some (0, n) })"

definition tohandle :: "nat \<Rightarrow> cstr \<Rightarrow> skynet_node \<Rightarrow> (u32 \<times> skynet_node) option" where
  "tohandle ctx param n =
     (if take 1 param = [ch CHR '':''] then Some (ucast (strtoul 16 (tl param)), n)
      else if take 1 param = [ch CHR ''.''] then do { h \<leftarrow> skynet_handle_findname (tl param) (n_handles n); Some (h, n) }
      else do { n \<leftarrow> skynet_error (Some ctx) (lit ''Can't convert '' @ param @ lit '' to handle'') n; Some (0, n) })"

section \<open>The text commands\<close>

text \<open>A command gives a string, in most cases the \<open>result\<close> field of the context, or the null pointer. A
  null pointer for the parameter of a command that reads it is a failure.\<close>

type_synonym command = "nat \<Rightarrow> cstr option \<Rightarrow> skynet_node \<Rightarrow> (cstr option \<times> skynet_node) option"

definition answer :: "nat \<Rightarrow> cstr \<Rightarrow> skynet_node \<Rightarrow> (cstr option \<times> skynet_node) option" where
  "answer c res n = do { x \<leftarrow> get_ctx c n; Some (Some res, put_ctx c (x\<lparr>cx_result := res\<rparr>) n) }"

definition colon_hex :: "u32 \<Rightarrow> cstr" where "colon_hex h = ch CHR '':'' # hex_nat (unat h)"

text \<open>\<open>handle_exit\<close>, from the notification of the monitor service on.\<close>

definition exit_notify :: "nat \<Rightarrow> u32 \<Rightarrow> skynet_node \<Rightarrow> skynet_node option" where
  "exit_notify c h n = do {
     n \<leftarrow> (if n_monitor_exit n \<noteq> 0 then do {
             (_, n) \<leftarrow> skynet_send (Some c) h (n_monitor_exit n) PTYPE_CLIENT 0 PNull 0 n;
             Some n
           } else Some n);
     (_, n) \<leftarrow> handle_retire h n;
     Some n
   }"

definition handle_exit :: "nat \<Rightarrow> u32 \<Rightarrow> skynet_node \<Rightarrow> skynet_node option" where
  "handle_exit c h n =
     (if h = 0 then do {
        self \<leftarrow> skynet_context_handle c n;
        n \<leftarrow> skynet_error (Some c) (lit ''KILL self'') n;
        exit_notify c self n
      } else do {
        n \<leftarrow> skynet_error (Some c) (lit ''KILL '' @ colon_hex h) n;
        exit_notify c h n
      })"

definition skynet_timeout :: "u32 \<Rightarrow> int \<Rightarrow> int \<Rightarrow> skynet_node \<Rightarrow> (int \<times> skynet_node) option" where
  "skynet_timeout h ti sess n =
     (if ti \<le> 0 then do {
        (r, n) \<leftarrow> skynet_context_push h (timer_message sess) n;
        Some (if r \<noteq> 0 then -1 else sess, n)
      }
      else Some (sess, n\<lparr>n_timer := timer_add \<lparr>te_handle = h, te_session = sess\<rparr> ti (n_timer n)\<rparr>))"

definition cmd_timeout :: command where
  "cmd_timeout c param n = do {
     p \<leftarrow> param;
     let ti = to_int (strtol 10 p);
     (sess, n) \<leftarrow> skynet_context_newsession c n;
     h \<leftarrow> skynet_context_handle c n;
     (_, n) \<leftarrow> skynet_timeout h ti sess n;
     answer c (dec sess) n
   }"

definition cmd_reg :: command where
  "cmd_reg c param n = do {
     h \<leftarrow> skynet_context_handle c n;
     case param of
       None \<Rightarrow> answer c (colon_hex h) n
     | Some p \<Rightarrow>
         if p = [] then answer c (colon_hex h) n
         else if hd p = ch CHR ''.'' then do {
           (r, hs) \<leftarrow> skynet_handle_namehandle h (tl p) (n_handles n);
           Some (r, n\<lparr>n_handles := hs\<rparr>)
         }
         else do {
           n \<leftarrow> skynet_error (Some c) (lit ''Can't register global name '' @ p @ lit '' in C'') n;
           Some (None, n)
         }
   }"

definition cmd_query :: command where
  "cmd_query c param n = do {
     p \<leftarrow> param;
     if take 1 p = [ch CHR ''.''] then do {
       h \<leftarrow> skynet_handle_findname (tl p) (n_handles n);
       if h \<noteq> 0 then answer c (colon_hex h) n else Some (None, n)
     } else Some (None, n)
   }"

text \<open>The arrays \<open>name\<close> and \<open>handle\<close> are not initialised: with less than two words in the parameter the
  code reads what happens to be on the stack.\<close>

definition cmd_name :: command where
  "cmd_name c param n = do {
     p \<leftarrow> param;
     (nm, rest) \<leftarrow> scan_word p;
     (h, _) \<leftarrow> scan_word rest;
     if hd h \<noteq> ch CHR '':'' then Some (None, n)
     else do {
       let handle_id = (ucast (strtoul 16 (tl h)) :: u32);
       if handle_id = 0 then Some (None, n)
       else if hd nm = ch CHR ''.'' then do {
         (r, hs) \<leftarrow> skynet_handle_namehandle handle_id (tl nm) (n_handles n);
         Some (r, n\<lparr>n_handles := hs\<rparr>)
       }
       else do {
         n \<leftarrow> skynet_error (Some c) (lit ''Can't set global name '' @ nm @ lit '' in C'') n;
         Some (None, n)
       }
     }
   }"

definition cmd_exit :: command where
  "cmd_exit c param n = do { n \<leftarrow> handle_exit c 0 n; Some (None, n) }"

definition cmd_kill :: command where
  "cmd_kill c param n = do {
     p \<leftarrow> param;
     (h, n) \<leftarrow> tohandle c p n;
     n \<leftarrow> (if h \<noteq> 0 then handle_exit c h n else Some n);
     Some (None, n)
   }"

definition cmd_launch :: "world \<Rightarrow> runner \<Rightarrow> command" where
  "cmd_launch w run c param n = do {
     p \<leftarrow> param;
     let (md, args) = strsep_any {32, 9, 13, 10} p;
     let args = map_option (\<lambda>a. fst (strsep_any {13, 10} a)) args;
     (inst, n) \<leftarrow> skynet_context_new w run md args n;
     case inst of
       None \<Rightarrow> Some (None, n)
     | Some i \<Rightarrow> do { h \<leftarrow> skynet_context_handle i n; answer c (id_to_hex h) n }
   }"

definition cmd_getenv :: command where
  "cmd_getenv c param n = do { p \<leftarrow> param; Some (skynet_getenv p n, n) }"

definition cmd_setenv :: command where
  "cmd_setenv c param n = do {
     p \<leftarrow> param;
     let key = takeWhile (\<lambda>b. b \<noteq> ch CHR '' '') p;
     if length key = length p then Some (None, n)
     else do { n \<leftarrow> skynet_setenv key (drop (length key + 1) p) n; Some (None, n) }
   }"

definition cmd_starttime :: command where
  "cmd_starttime c param n = answer c (dec (uint (skynet_starttime (n_timer n)))) n"

definition cmd_endless :: command where
  "cmd_endless c param n = do {
     x \<leftarrow> get_ctx c n;
     if cx_endless x then answer c (lit ''1'') (put_ctx c (x\<lparr>cx_endless := False\<rparr>) n)
     else Some (None, n)
   }"

definition cmd_abort :: command where
  "cmd_abort c param n = do { n \<leftarrow> handle_retireall n; Some (None, n) }"

definition cmd_monitor :: command where
  "cmd_monitor c param n =
     (case param of
        Some p \<Rightarrow>
          if p = [] then
            (if n_monitor_exit n \<noteq> 0 then answer c (colon_hex (n_monitor_exit n)) n else Some (None, n))
          else do { (h, n) \<leftarrow> tohandle c p n; Some (None, n\<lparr>n_monitor_exit := h\<rparr>) }
      | None \<Rightarrow> if n_monitor_exit n \<noteq> 0 then answer c (colon_hex (n_monitor_exit n)) n else Some (None, n))"

definition cmd_mqlen :: command where
  "cmd_mqlen c param n = do {
     x \<leftarrow> get_ctx c n;
     q \<leftarrow> get_q (cx_queue x) (n_mq n);
     answer c (dec (int (skynet_mq_length q))) n
   }"

text \<open>The three commands that act on another context hold a reference to it meanwhile.\<close>

definition with_context ::
    "u32 \<Rightarrow> (nat \<Rightarrow> skynet_node \<Rightarrow> skynet_node option) \<Rightarrow> skynet_node \<Rightarrow> (cstr option \<times> skynet_node) option" where
  "with_context h act n =
     (if h = 0 then Some (None, n)
      else do {
        (g, n) \<leftarrow> handle_grab h n;
        case g of
          None \<Rightarrow> Some (None, n)
        | Some t \<Rightarrow> do {
            n \<leftarrow> act t n;
            (_, n) \<leftarrow> skynet_context_release t n;
            Some (None, n)
          }
      })"

definition cmd_logon :: "world \<Rightarrow> command" where
  "cmd_logon w c param n = do {
     p \<leftarrow> param;
     (h, n) \<leftarrow> tohandle c p n;
     with_context h (\<lambda>t n. do {
       x \<leftarrow> get_ctx t n;
       if cx_logfile x = None then do {
         (f, n) \<leftarrow> skynet_log_open w c h n;
         case f of
           None \<Rightarrow> Some n
         | Some f \<Rightarrow> do {
             x \<leftarrow> get_ctx t n;
             Some (if cx_logfile x = None then put_ctx t (x\<lparr>cx_logfile := Some f\<rparr>) n else emit (Closed f) n)
           }
       } else Some n }) n
   }"

definition cmd_logoff :: command where
  "cmd_logoff c param n = do {
     p \<leftarrow> param;
     (h, n) \<leftarrow> tohandle c p n;
     with_context h (\<lambda>t n. do {
       x \<leftarrow> get_ctx t n;
       case cx_logfile x of
         Some f \<Rightarrow> skynet_log_close c f h (put_ctx t (x\<lparr>cx_logfile := None\<rparr>) n)
       | None \<Rightarrow> Some n }) n
   }"

definition cmd_signal :: command where
  "cmd_signal c param n = do {
     p \<leftarrow> param;
     (h, n) \<leftarrow> tohandle c p n;
     with_context h (\<lambda>t n. do {
       x \<leftarrow> get_ctx t n;
       let r = dropWhile (\<lambda>b. b \<noteq> ch CHR '' '') p;
       let sig = (if r = [] then 0 else to_int (strtol_auto r));
       skynet_module_instance_signal (cx_mod x) (cx_instance x) sig n }) n
   }"

definition cmd_funcs :: "world \<Rightarrow> runner \<Rightarrow> (cstr \<times> command) list" where
  "cmd_funcs w run =
     [(lit ''TIMEOUT'', cmd_timeout), (lit ''REG'', cmd_reg), (lit ''QUERY'', cmd_query), (lit ''NAME'', cmd_name),
      (lit ''EXIT'', cmd_exit), (lit ''KILL'', cmd_kill), (lit ''LAUNCH'', cmd_launch w run),
      (lit ''GETENV'', cmd_getenv), (lit ''SETENV'', cmd_setenv), (lit ''STARTTIME'', cmd_starttime),
      (lit ''ENDLESS'', cmd_endless), (lit ''ABORT'', cmd_abort), (lit ''MONITOR'', cmd_monitor),
      (lit ''MQLEN'', cmd_mqlen), (lit ''LOGON'', cmd_logon w), (lit ''LOGOFF'', cmd_logoff),
      (lit ''SIGNAL'', cmd_signal)]"

definition skynet_command :: "world \<Rightarrow> runner \<Rightarrow> nat \<Rightarrow> cstr \<Rightarrow> cstr option \<Rightarrow> skynet_node \<Rightarrow> (cstr option \<times> skynet_node) option" where
  "skynet_command w run c cmd param n =
     (case map_of (cmd_funcs w run) cmd of
        Some f \<Rightarrow> f c param n
      | None \<Rightarrow> Some (None, n))"

section \<open>Running the code of a service\<close>

text \<open>Only \<open>LAUNCH\<close> runs other code inside the code of a service, the \<open>init\<close> of the new service, which may
  launch again: \<open>rec\<close> is the runner for that.\<close>

primrec exec :: "world \<Rightarrow> runner \<Rightarrow> nat \<Rightarrow> prog \<Rightarrow> skynet_node \<Rightarrow> (int \<times> skynet_node) option" where
  "exec w rec c (Return r) = (\<lambda>n. Some (r, n))"
| "exec w rec c (Do_send src dest type sess d len k) =
     (\<lambda>n. do { (r, n) \<leftarrow> skynet_send (Some c) src dest type sess d len n; exec w rec c (k r) n })"
| "exec w rec c (Do_sendname src addr type sess d len k) =
     (\<lambda>n. do { (r, n) \<leftarrow> skynet_sendname (Some c) src addr type sess d len n; exec w rec c (k r) n })"
| "exec w rec c (Do_command cmd param k) =
     (\<lambda>n. do { (r, n) \<leftarrow> skynet_command w rec c cmd param n; exec w rec c (k r) n })"
| "exec w rec c (Do_callback f ud k) = (\<lambda>n. do { n \<leftarrow> skynet_callback c f ud n; exec w rec c k n })"
| "exec w rec c (Do_error text k) = (\<lambda>n. do { n \<leftarrow> skynet_error (Some c) text n; exec w rec c k n })"
| "exec w rec c (Do_harbor_start k) = (\<lambda>n. do { n \<leftarrow> skynet_harbor_start c n; exec w rec c k n })"

text \<open>The number bounds how deep launches nest; services that launch each other without end overflow the
  stack in C.\<close>

primrec run_prog :: "world \<Rightarrow> nat \<Rightarrow> runner" where
  "run_prog w 0 = (\<lambda>c p n. None)"
| "run_prog w (Suc k) = exec w (run_prog w k)"

section \<open>Timer and socket events\<close>

fun push_all :: "(u32 \<times> skynet_message) list \<Rightarrow> skynet_node \<Rightarrow> skynet_node option" where
  "push_all [] n = Some n"
| "push_all ((h, msg) # es) n = do { (_, n) \<leftarrow> skynet_context_push h msg n; push_all es n }"

text \<open>The timer thread: \<open>skynet_updatetime\<close> with the pushes of \<open>dispatch_list\<close>.\<close>

definition update_time :: "u64 \<Rightarrow> skynet_node \<Rightarrow> skynet_node option" where
  "update_time cp n = do {
     (back, ns, t) \<leftarrow> skynet_updatetime cp (n_timer n);
     n' \<leftarrow> (if back then skynet_error None (lit ''time diff error: change from '' @ dec (uint cp)
               @ lit '' to '' @ dec (uint (current_point (n_timer n)))) n else Some n);
     push_all (dispatch_list ns) (n'\<lparr>n_timer := t\<rparr>)
   }"

text \<open>The size of \<open>struct skynet_socket_message\<close>.\<close>

definition SOCKET_MESSAGE_SIZE :: nat where "SOCKET_MESSAGE_SIZE = 24"

text \<open>\<open>forward_message\<close>: the event becomes a message, with up to 128 bytes of text behind the structure when
  \<open>padding\<close> is set.\<close>

definition forward_message ::
    "int \<Rightarrow> bool \<Rightarrow> u32 \<Rightarrow> int \<Rightarrow> int \<Rightarrow> bytes option \<Rightarrow> skynet_node \<Rightarrow> skynet_node option" where
  "forward_message type padding opaque sid ud d n = do {
     let tail = (if padding then (case d of Some t \<Rightarrow> take 128 (upto_nul t) | None \<Rightarrow> []) else []);
     let len = SOCKET_MESSAGE_SIZE + length tail;
     let sm = PSocket type sid ud (if padding then None else d) tail;
     (r, n) \<leftarrow> skynet_context_push opaque
        \<lparr>source = 0, session = 0, data = sm, sz = with_type (of_nat len) PTYPE_SOCKET\<rparr> n;
     Some (if r \<noteq> 0 then emit (Freed sm) n else n)
   }"

datatype socket_result =
    Sk_exit
  | Sk_data | Sk_close | Sk_open | Sk_error | Sk_accept | Sk_udp
  | Sk_other int

text \<open>\<open>skynet_socket_poll\<close>: the result of \<open>socket_server_poll\<close> (kind, \<open>opaque\<close>, \<open>id\<close>, \<open>ud\<close>, \<open>data\<close> and
  \<open>more\<close>, here \<open>again\<close>) is an argument.\<close>

definition skynet_socket_poll ::
    "socket_result \<Rightarrow> u32 \<Rightarrow> int \<Rightarrow> int \<Rightarrow> bytes option \<Rightarrow> bool \<Rightarrow> skynet_node \<Rightarrow> (int \<times> skynet_node) option" where
  "skynet_socket_poll type opaque sid ud d again n =
     (let fwd = (\<lambda>t padding. do {
          n \<leftarrow> forward_message t padding opaque sid ud d n;
          Some (if again then -1 else 1, n) })
      in case type of
           Sk_exit \<Rightarrow> Some (0, n)
         | Sk_data \<Rightarrow> fwd 1 False
         | Sk_close \<Rightarrow> fwd 3 False
         | Sk_open \<Rightarrow> fwd 2 True
         | Sk_error \<Rightarrow> fwd 5 True
         | Sk_accept \<Rightarrow> fwd 4 True
         | Sk_udp \<Rightarrow> fwd 6 False
         | Sk_other t \<Rightarrow> do {
             n \<leftarrow> skynet_error None (lit ''Unknown socket message type '' @ dec t @ lit ''.'') n;
             Some (-1, n)
           })"

text \<open>\<open>check_wsz\<close> and \<open>skynet_socket_send\<close>: the answer of \<open>socket_server_send\<close>, the bytes waiting to be
  written or a negative number, is an argument.\<close>

definition check_wsz :: "nat \<Rightarrow> int \<Rightarrow> int \<Rightarrow> skynet_node \<Rightarrow> (int \<times> skynet_node) option" where
  "check_wsz c sid wsz n =
     (if wsz < 0 then Some (-1, n)
      else if wsz > 1024 * 1024 then do {
        h \<leftarrow> skynet_context_handle c n;
        (_, n) \<leftarrow> skynet_send (Some c) 0 h PTYPE_SOCKET 0 (PSocket 7 sid (to_int (wsz div 1024)) None [])
                   (of_nat SOCKET_MESSAGE_SIZE) n;
        Some (0, n)
      }
      else Some (0, n))"

section \<open>Start\<close>

definition skynet_globalinit :: "modules \<Rightarrow> timer \<Rightarrow> handle_storage \<Rightarrow> skynet_node" where
  "skynet_globalinit ms t hs =
     \<lparr>n_total = 0, n_monitor_exit = 0, n_current = - 1, n_ctxs = Map.empty, n_alloc = 0, n_handles = hs,
      n_mq = skynet_mq_init, n_timer = t, n_modules = ms, n_env = Map.empty, n_harbor = NOT 0,
      n_remote = None, n_logger = 0, n_trace = []\<rparr>"

end
