(* ===== verification/Queue_View.thy ===== *)
theory Queue_View
  imports Message_Queue
begin

text \<open>
  What a client of \<^verbatim>\<open>skynet_mq.c\<close> needs to know of it: for every message queue its content, whether
  it is marked for release, whether it counts as being in the global queue and its handle.
  The invariant \<open>queues_ok held\<close> speaks of the links of the global queue; \<open>held\<close> are the
  queues that were taken out of the global queue and that the running code has in hand. Each
  operation is described by what it does to the view, and never fails under the invariant.
\<close>

record q_view =
  v_msgs :: "skynet_message list"
  v_release :: bool
  v_global :: bool
  v_handle :: u32

definition view_of :: "message_queue \<Rightarrow> q_view" where
  "view_of q = \<lparr>v_msgs = ring_list q, v_release = mq_release q, v_global = mq_in_global q, v_handle = mq_handle q\<rparr>"

definition qview :: "mq_state \<Rightarrow> mqref \<rightharpoonup> q_view" where
  "qview m r = map_option view_of (qheap m r)"

definition queues_rep :: "mqref set \<Rightarrow> mqref list \<Rightarrow> mq_state \<Rightarrow> bool" where
  "queues_rep held rs m \<longleftrightarrow> mq_inv m rs
     \<and> held \<inter> set rs = {} \<and> held \<subseteq> dom (qview m)
     \<and> (\<forall>r v. qview m r = Some v \<longrightarrow>
          (if r \<in> set rs \<union> held then v_global v \<or> v_release v
           else \<not> v_global v \<and> \<not> v_release v \<and> v_msgs v = []))"

definition queues_ok :: "mqref set \<Rightarrow> mq_state \<Rightarrow> bool" where
  "queues_ok held m \<longleftrightarrow> (\<exists>rs. queues_rep held rs m)"

lemma view_of_sel [simp]:
  "v_msgs (view_of q) = ring_list q" "v_release (view_of q) = mq_release q"
  "v_global (view_of q) = mq_in_global q" "v_handle (view_of q) = mq_handle q"
  by (simp_all add: view_of_def)

lemma qview_Some: "qview m r = Some v \<longleftrightarrow> (\<exists>q. qheap m r = Some q \<and> v = view_of q)"
  by (auto simp: qview_def)

lemma view_of_unlink: "unlink q' = unlink q \<Longrightarrow> view_of q' = view_of q"
  using unlink_same [of q' q] by (simp add: view_of_def)

lemma qview_relinked:
  assumes "relinked m m'"
  shows "qview m' = qview m"
proof
  fix r
  have "map_option unlink (qheap m' r) = map_option unlink (qheap m r)" using assms by (simp add: relinked_def)
  then show "qview m' r = qview m r"
    by (cases "qheap m r"; cases "qheap m' r") (auto simp: qview_def dest: view_of_unlink)
qed

lemma qview_put [simp]: "qview (put_q r q m) = (qview m)(r \<mapsto> view_of q)"
  by (auto simp: qview_def put_q_def)

lemma queues_repD:
  assumes "queues_rep held rs m" "qview m r = Some v"
  shows "r \<in> set rs \<union> held \<Longrightarrow> v_global v \<or> v_release v"
    and "r \<notin> set rs \<union> held \<Longrightarrow> \<not> v_global v \<and> \<not> v_release v \<and> v_msgs v = []"
  using assms unfolding queues_rep_def by metis+

lemma in_global_dom: "mq_inv m rs \<Longrightarrow> r \<in> set rs \<Longrightarrow> \<exists>v. qview m r = Some v"
  by (auto simp: mq_inv_def gq_rep_def qview_def dest: chain_dom)

lemma queues_init: "queues_ok {} skynet_mq_init" "qview skynet_mq_init = Map.empty"
proof -
  show e: "qview skynet_mq_init = Map.empty" by (rule ext) (simp add: qview_def skynet_mq_init_def)
  then show "queues_ok {} skynet_mq_init"
    using mq_init_inv unfolding queues_ok_def queues_rep_def by (intro exI [of _ "[]"]) simp
qed

text \<open>A new queue counts as being in the global queue, and the caller has it in hand.\<close>

lemma queues_create:
  assumes ok: "queues_ok held m" and c: "skynet_mq_create h m = (r, m')"
  shows "queues_ok (insert r held) m'" "qview m r = None" "r \<notin> held"
    "qview m' = (qview m)(r \<mapsto> \<lparr>v_msgs = [], v_release = False, v_global = True, v_handle = h\<rparr>)"
proof -
  from ok obtain rs where rep: "queues_rep held rs m" by (auto simp: queues_ok_def)
  then have i: "mq_inv m rs" by (simp add: queues_rep_def)
  note n = mq_create_inv [OF i c]
  show v: "qview m' = (qview m)(r \<mapsto> \<lparr>v_msgs = [], v_release = False, v_global = True, v_handle = h\<rparr>)"
    using n(3) ring_create_list [of h] by (auto simp: qview_def view_of_def ring_create_def)
  show f: "qview m r = None" using n(2) by (simp add: qview_def)
  then show "r \<notin> held" using rep by (auto simp: queues_rep_def)
  then have "queues_rep (insert r held) rs m'"
    using rep n(1,4) f v unfolding queues_rep_def by (auto split: if_splits)
  then show "queues_ok (insert r held) m'" by (auto simp: queues_ok_def)
qed

text \<open>A push to a queue that is not marked for release.\<close>

lemma queues_push:
  assumes ok: "queues_ok held m" and v: "qview m r = Some v" "\<not> v_release v"
  shows "\<exists>m'. skynet_mq_push r msg m = Some m' \<and> queues_ok held m'
     \<and> qview m' = (qview m)(r \<mapsto> v\<lparr>v_msgs := v_msgs v @ [msg], v_global := True\<rparr>)"
proof -
  from ok obtain rs where rep: "queues_rep held rs m" by (auto simp: queues_ok_def)
  then have i: "mq_inv m rs" by (simp add: queues_rep_def)
  from v obtain q where q: "qheap m r = Some q" "v = view_of q" by (auto simp: qview_Some)
  have g: "mq_in_global q \<longleftrightarrow> r \<in> set rs \<union> held"
    using queues_repD [OF rep v(1)] v(2) q(2) by auto
  from mq_push_inv [OF i q(1), of msg] g obtain m' q' where
    p: "skynet_mq_push r msg m = Some m'" "mq_inv m' (if mq_in_global q then rs else rs @ [r])"
      "relinked (put_q r q' m) m'" "ring_list q' = ring_list q @ [msg]"
      "mq_in_global q'" "mq_release q' = mq_release q" "mq_handle q' = mq_handle q" by auto
  have w: "qview m' = (qview m)(r \<mapsto> v\<lparr>v_msgs := v_msgs v @ [msg], v_global := True\<rparr>)"
    using qview_relinked [OF p(3)] p(4-7) q(2) by (auto simp: view_of_def)
  have "queues_rep held (if mq_in_global q then rs else rs @ [r]) m'"
    using rep g p(2) v unfolding queues_rep_def w by (auto split: if_splits)
  with p(1) w show ?thesis by (auto simp: queues_ok_def)
qed

lemma queues_mark:
  assumes ok: "queues_ok held m" and v: "qview m r = Some v" "\<not> v_release v"
  shows "\<exists>m'. skynet_mq_mark_release r m = Some m' \<and> queues_ok held m'
     \<and> qview m' = (qview m)(r \<mapsto> v\<lparr>v_release := True\<rparr>)"
proof -
  from ok obtain rs where rep: "queues_rep held rs m" by (auto simp: queues_ok_def)
  then have i: "mq_inv m rs" by (simp add: queues_rep_def)
  from v obtain q where q: "qheap m r = Some q" "v = view_of q" by (auto simp: qview_Some)
  have g: "mq_in_global q \<longleftrightarrow> r \<in> set rs \<union> held"
    using queues_repD [OF rep v(1)] v(2) q(2) by auto
  from mq_mark_inv [OF i q(1)] g v(2) q(2) obtain m' where
    p: "skynet_mq_mark_release r m = Some m'" "mq_inv m' (if mq_in_global q then rs else rs @ [r])"
      "relinked (put_q r (q\<lparr>mq_release := True\<rparr>) m) m'" by auto
  have w: "qview m' = (qview m)(r \<mapsto> v\<lparr>v_release := True\<rparr>)"
    using qview_relinked [OF p(3)] q(2) by (auto simp: view_of_def ring_list_def skynet_mq_length_def)
  have "queues_rep held (if mq_in_global q then rs else rs @ [r]) m'"
    using rep g p(2) v unfolding queues_rep_def w by (auto split: if_splits)
  with p(1) w show ?thesis by (auto simp: queues_ok_def)
qed

text \<open>A pop from a queue in hand: an empty queue that is not marked for release goes out of hand, it
  sleeps until the next push.\<close>

lemma queues_pop:
  assumes ok: "queues_ok held m" and v: "qview m r = Some v" and h: "r \<in> held"
  shows "\<exists>m'. skynet_mq_pop r m = Some (case v_msgs v of [] \<Rightarrow> None | x # _ \<Rightarrow> Some x, m')
     \<and> queues_ok (if v_msgs v = [] \<and> \<not> v_release v then held - {r} else held) m'
     \<and> qview m' = (qview m)(r \<mapsto> v\<lparr>v_msgs := tl (v_msgs v), v_global := (v_global v \<and> v_msgs v \<noteq> [])\<rparr>)"
proof -
  from ok obtain rs where rep: "queues_rep held rs m" by (auto simp: queues_ok_def)
  then have i: "mq_inv m rs" and out: "r \<notin> set rs" using h by (auto simp: queues_rep_def)
  from v obtain q where q: "qheap m r = Some q" "v = view_of q" by (auto simp: qview_Some)
  obtain q' where p: "skynet_mq_pop r m = Some (case ring_list q of [] \<Rightarrow> None | x # _ \<Rightarrow> Some x, put_q r q' m)"
      "ring_list q' = tl (ring_list q)" "mq_release q' = mq_release q" "mq_handle q' = mq_handle q"
      "mq_in_global q' = (mq_in_global q \<and> ring_list q \<noteq> [])" "mq_inv (put_q r q' m) rs"
    by (rule mq_pop_inv [OF i q(1)]) (use out in blast)
  let ?m = "put_q r q' m"
  have w: "qview ?m = (qview m)(r \<mapsto> v\<lparr>v_msgs := tl (v_msgs v), v_global := (v_global v \<and> v_msgs v \<noteq> [])\<rparr>)"
    using p(2-5) q(2) by (auto simp: view_of_def)
  have "queues_rep (if v_msgs v = [] \<and> \<not> v_release v then held - {r} else held) rs ?m"
    using rep out p(6) v h unfolding queues_rep_def w by (auto split: if_splits)
  with p(1) w q(2) show ?thesis unfolding queues_ok_def by auto
qed

lemma queues_globalpush:
  assumes ok: "queues_ok held m" and h: "r \<in> held"
  shows "\<exists>m'. skynet_globalmq_push r m = Some m' \<and> queues_ok (held - {r}) m' \<and> qview m' = qview m"
proof -
  from ok obtain rs where rep: "queues_rep held rs m" by (auto simp: queues_ok_def)
  then have i: "mq_inv m rs" and out: "r \<notin> set rs" using h by (auto simp: queues_rep_def)
  from rep h obtain v where v: "qview m r = Some v" by (auto simp: queues_rep_def)
  from v obtain q where q: "qheap m r = Some q" "v = view_of q" by (auto simp: qview_Some)
  from mq_globalpush_inv [OF i q(1) out] queues_repD(1) [OF rep v] h q(2) obtain m' where
    p: "skynet_globalmq_push r m = Some m'" "mq_inv m' (rs @ [r])" "relinked m m'" by auto
  have w: "qview m' = qview m" by (rule qview_relinked [OF p(3)])
  have "queues_rep (held - {r}) (rs @ [r]) m'"
    using rep p(2) h unfolding queues_rep_def w by (auto split: if_splits)
  with p(1) w show ?thesis by (auto simp: queues_ok_def)
qed

lemma queues_globalpop:
  assumes ok: "queues_ok held m"
  shows "\<exists>r m'. skynet_globalmq_pop m = Some (r, m') \<and> qview m' = qview m
     \<and> (case r of None \<Rightarrow> queues_ok held m' | Some r \<Rightarrow> queues_ok (insert r held) m' \<and> r \<notin> held \<and> r \<in> dom (qview m))"
proof -
  from ok obtain rs where rep: "queues_rep held rs m" by (auto simp: queues_ok_def)
  then have i: "mq_inv m rs" by (simp add: queues_rep_def)
  show ?thesis
  proof (cases rs)
    case Nil
    with i have "skynet_globalmq_pop m = Some (None, m)" by (simp add: mq_inv_def globalmq_pop_empty)
    with ok show ?thesis by auto
  next
    case (Cons r rs')
    from mq_globalpop_inv [OF i [unfolded Cons]] obtain m' where
      p: "skynet_globalmq_pop m = Some (Some r, m')" "mq_inv m' rs'" "relinked m m'" by auto
    have w: "qview m' = qview m" by (rule qview_relinked [OF p(3)])
    have d: "distinct rs" using i by (simp add: mq_inv_def gq_rep_def)
    have "r \<in> dom (qview m)" using in_global_dom [OF i] Cons by auto
    moreover have "r \<notin> held" using rep Cons by (auto simp: queues_rep_def)
    moreover have "queues_rep (insert r held) rs' m'"
      using rep p(2) d Cons \<open>r \<in> dom (qview m)\<close> unfolding queues_rep_def w by (auto split: if_splits)
    ultimately show ?thesis using p(1) w by (auto simp: queues_ok_def)
  qed
qed

lemma queues_free:
  assumes ok: "queues_ok held m" and h: "r \<in> held"
  shows "\<exists>m'. mq_free r m = Some m' \<and> queues_ok (held - {r}) m' \<and> qview m' = (qview m)(r := None)"
proof -
  from ok obtain rs where rep: "queues_rep held rs m" by (auto simp: queues_ok_def)
  then have i: "mq_inv m rs" and out: "r \<notin> set rs" using h by (auto simp: queues_rep_def)
  from rep h obtain v where "qview m r = Some v" by (auto simp: queues_rep_def)
  then obtain q where q: "qheap m r = Some q" by (auto simp: qview_Some)
  from mq_free_inv [OF i q out] obtain m' where
    p: "mq_free r m = Some m'" "mq_inv m' rs" "qheap m' = (qheap m)(r := None)" by blast
  have w: "qview m' = (qview m)(r := None)" using p(3) by (auto simp: qview_def)
  have "queues_rep (held - {r}) rs m'"
    using rep p(2) out h unfolding queues_rep_def w by (auto split: if_splits)
  with p(1) w show ?thesis by (auto simp: queues_ok_def)
qed

lemma qview_release: "qview m r = Some v \<Longrightarrow> get_q r m \<noteq> None \<and> mq_release (the (get_q r m)) = v_release v"
  by (auto simp: qview_Some get_q_def)

end
