(* ===== verification/Contexts.thy ===== *)
theory Contexts
  imports Server Queue_View
begin

unbundle bit_operations_syntax

text \<open>
  The reference counts of the service contexts. The invariant \<open>node_inv refs held n\<close> says that the
  count of every context is the number of references to it: one of the handle table when the
  context is registered there, and \<open>refs c\<close> that the running code, the creator or the harbor hold.
  A context with a reference is there; its queue is there and not marked for release; different
  contexts have different queues. \<open>held\<close> are the message queues the running code has in hand.
\<close>

section \<open>The invariant\<close>

definition ctx_ok :: "(nat \<Rightarrow> nat) \<Rightarrow> skynet_node \<Rightarrow> nat \<Rightarrow> skynet_context \<Rightarrow> bool" where
  "ctx_ok refs n c x \<longleftrightarrow> c < n_alloc n
     \<and> cx_ref x = of_bool (c \<in> contexts (n_handles n)) + int (refs c) \<and> 0 < cx_ref x
     \<and> cx_mod x < length (m_m (n_modules n))
     \<and> (\<exists>v. qview (n_mq n) (cx_queue x) = Some v \<and> \<not> v_release v \<and> v_handle v = cx_handle x)"

definition queues_apart :: "skynet_node \<Rightarrow> bool" where
  "queues_apart n \<longleftrightarrow> (\<forall>c d x y. n_ctxs n c = Some x \<longrightarrow> n_ctxs n d = Some y \<longrightarrow> cx_queue x = cx_queue y \<longrightarrow> c = d)"

definition node_inv :: "(nat \<Rightarrow> nat) \<Rightarrow> mqref set \<Rightarrow> skynet_node \<Rightarrow> bool" where
  "node_inv refs held n \<longleftrightarrow> handle_inv (handle_of n) (n_handles n)
     \<and> contexts (n_handles n) \<subseteq> dom (n_ctxs n)
     \<and> (\<forall>c x. n_ctxs n c = Some x \<longrightarrow> ctx_ok refs n c x)
     \<and> queues_apart n
     \<and> (\<forall>c. 0 < refs c \<longrightarrow> c \<in> dom (n_ctxs n))
     \<and> (\<forall>c. n_remote n = Some c \<longrightarrow> 0 < refs c)
     \<and> queues_ok held (n_mq n)"

lemma handle_of_simps [simp]:
  "handle_of (n\<lparr>n_total := a\<rparr>) = handle_of n" "handle_of (n\<lparr>n_monitor_exit := b\<rparr>) = handle_of n"
  "handle_of (n\<lparr>n_current := b\<rparr>) = handle_of n" "handle_of (n\<lparr>n_alloc := d\<rparr>) = handle_of n"
  "handle_of (n\<lparr>n_handles := e\<rparr>) = handle_of n" "handle_of (n\<lparr>n_mq := f\<rparr>) = handle_of n"
  "handle_of (n\<lparr>n_timer := g\<rparr>) = handle_of n" "handle_of (n\<lparr>n_modules := h\<rparr>) = handle_of n"
  "handle_of (n\<lparr>n_env := i\<rparr>) = handle_of n" "handle_of (n\<lparr>n_harbor := b\<rparr>) = handle_of n"
  "handle_of (n\<lparr>n_remote := k\<rparr>) = handle_of n" "handle_of (n\<lparr>n_logger := b\<rparr>) = handle_of n"
  "handle_of (n\<lparr>n_trace := l\<rparr>) = handle_of n"
  by (simp_all add: handle_of_def fun_eq_iff)

lemma node_inv_irrelevant [simp]:
  "node_inv refs held (n\<lparr>n_total := a\<rparr>) = node_inv refs held n"
  "node_inv refs held (n\<lparr>n_monitor_exit := b\<rparr>) = node_inv refs held n"
  "node_inv refs held (n\<lparr>n_current := b\<rparr>) = node_inv refs held n"
  "node_inv refs held (n\<lparr>n_timer := g\<rparr>) = node_inv refs held n"
  "node_inv refs held (n\<lparr>n_env := i\<rparr>) = node_inv refs held n"
  "node_inv refs held (n\<lparr>n_harbor := b\<rparr>) = node_inv refs held n"
  "node_inv refs held (n\<lparr>n_logger := b\<rparr>) = node_inv refs held n"
  "node_inv refs held (n\<lparr>n_trace := l\<rparr>) = node_inv refs held n"
  "node_inv refs held (emit e n) = node_inv refs held n"
  "node_inv refs held (context_dec n) = node_inv refs held n"
  "node_inv refs held (context_inc n) = node_inv refs held n"
  by (simp_all add: node_inv_def ctx_ok_def queues_apart_def emit_def context_dec_def context_inc_def)

lemma emit_fields [simp]:
  "n_ctxs (emit e n) = n_ctxs n" "n_mq (emit e n) = n_mq n" "n_handles (emit e n) = n_handles n"
  "n_alloc (emit e n) = n_alloc n" "n_modules (emit e n) = n_modules n" "n_remote (emit e n) = n_remote n"
  "n_harbor (emit e n) = n_harbor n" "n_logger (emit e n) = n_logger n" "get_ctx c (emit e n) = get_ctx c n"
  "handle_of (emit e n) = handle_of n" "n_monitor_exit (emit e n) = n_monitor_exit n"
  by (simp_all add: emit_def get_ctx_def)

lemma put_ctx_fields [simp]:
  "n_ctxs (put_ctx c x n) = (n_ctxs n)(c \<mapsto> x)" "n_mq (put_ctx c x n) = n_mq n"
  "n_handles (put_ctx c x n) = n_handles n" "n_alloc (put_ctx c x n) = n_alloc n"
  "n_modules (put_ctx c x n) = n_modules n" "n_remote (put_ctx c x n) = n_remote n"
  "n_harbor (put_ctx c x n) = n_harbor n" "n_logger (put_ctx c x n) = n_logger n"
  "handle_of (put_ctx c x n) = (handle_of n)(c := cx_handle x)"
  by (auto simp: put_ctx_def handle_of_def)

text \<open>The table only reads the handles of the contexts it holds.\<close>

lemma slots_ok_cong: "\<forall>c\<in>contexts s. hof c = hof' c \<Longrightarrow> slots_ok hof s = slots_ok hof' s"
  unfolding slots_ok_def contexts_def by (metis (mono_tags, lifting) mem_Collect_eq nth_mem)

lemma handle_inv_cong: "\<forall>c\<in>contexts s. hof c = hof' c \<Longrightarrow> handle_inv hof s = handle_inv hof' s"
  using slots_ok_cong [of s hof hof'] by (simp add: handle_inv_def)

lemma node_invD:
  assumes "node_inv refs held n"
  shows "handle_inv (handle_of n) (n_handles n)" "contexts (n_handles n) \<subseteq> dom (n_ctxs n)"
    "n_ctxs n c = Some x \<Longrightarrow> ctx_ok refs n c x" "queues_apart n" "0 < refs c \<Longrightarrow> \<exists>x. n_ctxs n c = Some x"
    "n_remote n = Some c \<Longrightarrow> 0 < refs c" "queues_ok held (n_mq n)"
  using assms unfolding node_inv_def by blast+

section \<open>Changing one context\<close>

text \<open>A change of the other fields, with the reference count following \<open>refs\<close>.\<close>

lemma node_inv_put:
  assumes inv: "node_inv refs held n" and x: "n_ctxs n c = Some x"
    and same: "cx_handle y = cx_handle x" "cx_queue y = cx_queue x" "cx_mod y = cx_mod x"
    and ref: "cx_ref y = cx_ref x + int (refs' c) - int (refs c)" "0 < cx_ref y" "\<forall>d. d \<noteq> c \<longrightarrow> refs' d = refs d"
    and rem: "n_remote n = Some c \<longrightarrow> 0 < refs' c"
  shows "node_inv refs' held (put_ctx c y n)"
proof -
  note d = node_invD [OF inv]
  have "handle_of (put_ctx c y n) = handle_of n" using x same(1) by (auto simp: handle_of_def)
  moreover have "ctx_ok refs' (put_ctx c y n) e z" if "((n_ctxs n)(c \<mapsto> y)) e = Some z" for e z
    using that d(3) [of e z] d(3) [OF x] ref same by (auto simp: ctx_ok_def split: if_splits)
  moreover have "queues_apart (put_ctx c y n)"
    using d(4) x same(2) unfolding queues_apart_def by (auto split: if_splits)
  ultimately show ?thesis
    using d(1,2,7) x ref(3) rem node_invD(5,6) [OF inv] unfolding node_inv_def
    by (auto simp: dom_def) (metis gr0I)+
qed

lemma node_inv_put_same:
  assumes "node_inv refs held n" "n_ctxs n c = Some x"
    "cx_handle y = cx_handle x" "cx_queue y = cx_queue x" "cx_mod y = cx_mod x" "cx_ref y = cx_ref x"
  shows "node_inv refs held (put_ctx c y n)"
  by (rule node_inv_put [OF assms(1-5)]) (use assms node_invD(3) [OF assms(1,2)] node_invD(6) [OF assms(1)] in \<open>simp_all add: ctx_ok_def\<close>)

section \<open>Changing the queues\<close>

text \<open>An operation on the queues that keeps every queue which is not marked for release.\<close>

definition queues_kept :: "mq_state \<Rightarrow> mq_state \<Rightarrow> bool" where
  "queues_kept m m' \<longleftrightarrow> (\<forall>r v. qview m r = Some v \<longrightarrow> \<not> v_release v \<longrightarrow>
     (\<exists>v'. qview m' r = Some v' \<and> \<not> v_release v' \<and> v_handle v' = v_handle v))"

text \<open>An operation that only adds messages, and only to queues not marked for release.\<close>

definition queues_grow :: "mq_state \<Rightarrow> mq_state \<Rightarrow> bool" where
  "queues_grow m m' \<longleftrightarrow> (\<forall>r v. qview m r = Some v \<longrightarrow>
     (\<exists>v'. qview m' r = Some v' \<and> v_release v' = v_release v \<and> v_handle v' = v_handle v \<and> (v_release v \<longrightarrow> v' = v)))"

lemma queues_grow_kept: "queues_grow m m' \<Longrightarrow> queues_kept m m'"
  unfolding queues_grow_def queues_kept_def by metis

lemma queues_grow_view: "qview m' = qview m \<Longrightarrow> queues_grow m m'"
  by (simp add: queues_grow_def)

lemma queues_grow_upd:
  "qview m' = (qview m)(r \<mapsto> v') \<Longrightarrow> qview m r = Some v \<Longrightarrow> \<not> v_release v \<Longrightarrow> v_handle v' = v_handle v
     \<Longrightarrow> v_release v' = v_release v \<Longrightarrow> queues_grow m m'"
  by (simp add: queues_grow_def)

lemma queues_kept_upd:
  "qview m' = (qview m)(r \<mapsto> v') \<Longrightarrow> qview m r = Some v \<Longrightarrow> v_handle v' = v_handle v \<Longrightarrow> v_release v' = v_release v
     \<Longrightarrow> queues_kept m m'"
  by (simp add: queues_kept_def)

lemma node_inv_mq:
  assumes inv: "node_inv refs held n" and "queues_kept (n_mq n) m" "queues_ok held' m"
  shows "node_inv refs held' (n\<lparr>n_mq := m\<rparr>)"
proof -
  note d = node_invD [OF inv]
  have "ctx_ok refs (n\<lparr>n_mq := m\<rparr>) c x" if "n_ctxs n c = Some x" for c x
    using d(3) [OF that] assms(2) unfolding ctx_ok_def queues_kept_def by fastforce
  moreover have "queues_apart (n\<lparr>n_mq := m\<rparr>)" using d(4) by (simp add: queues_apart_def)
  ultimately show ?thesis using d(1,2) assms(3) node_invD(5,6) [OF inv] unfolding node_inv_def by (simp add: domIff)
qed

lemma ctx_queue:
  assumes "node_inv refs held n" "n_ctxs n c = Some x"
  obtains v where "qview (n_mq n) (cx_queue x) = Some v" "\<not> v_release v" "v_handle v = cx_handle x"
  using node_invD(3) [OF assms] by (auto simp: ctx_ok_def)

section \<open>Taking and giving back references\<close>

lemma grab_inv:
  assumes "node_inv refs held n" "n_ctxs n c = Some x"
  shows "skynet_context_grab c n = Some (put_ctx c (x\<lparr>cx_ref := cx_ref x + 1\<rparr>) n)"
    "node_inv (refs(c := refs c + 1)) held (put_ctx c (x\<lparr>cx_ref := cx_ref x + 1\<rparr>) n)"
proof -
  show "skynet_context_grab c n = Some (put_ctx c (x\<lparr>cx_ref := cx_ref x + 1\<rparr>) n)"
    using assms(2) by (simp add: skynet_context_grab_def get_ctx_def)
  show "node_inv (refs(c := refs c + 1)) held (put_ctx c (x\<lparr>cx_ref := cx_ref x + 1\<rparr>) n)"
    by (rule node_inv_put [OF assms]) (use node_invD(3) [OF assms] in \<open>auto simp: ctx_ok_def\<close>)
qed

text \<open>What an operation leaves alone.\<close>

definition kept :: "skynet_node \<Rightarrow> skynet_node \<Rightarrow> bool" where
  "kept n n' \<longleftrightarrow> n_handles n' = n_handles n \<and> n_modules n' = n_modules n \<and> n_harbor n' = n_harbor n
     \<and> n_remote n' = n_remote n \<and> n_alloc n' = n_alloc n"

lemma trace_same: "\<exists>t. n = n\<lparr>n_trace := t\<rparr>"
  by (rule exI [of _ "n_trace n"]) (cases n, simp)

lemma instance_release_trace:
  "md < length (m_m (n_modules n)) \<Longrightarrow> \<exists>t. skynet_module_instance_release md inst n = Some (n\<lparr>n_trace := t\<rparr>)"
  using trace_same [of n]
  by (cases "md_release (m_m (n_modules n) ! md)") (auto simp: skynet_module_instance_release_def nth_opt_def emit_def)

lemma instance_signal_trace:
  "md < length (m_m (n_modules n)) \<Longrightarrow> \<exists>t. skynet_module_instance_signal md inst sig n = Some (n\<lparr>n_trace := t\<rparr>)"
  using trace_same [of n]
  by (cases "md_signal (m_m (n_modules n) ! md)") (auto simp: skynet_module_instance_signal_def nth_opt_def emit_def)

lemma delete_inv:
  assumes inv: "node_inv refs held n" and x: "n_ctxs n c = Some x"
    and last: "c \<notin> contexts (n_handles n)" "refs c \<le> 1" "n_remote n \<noteq> Some c"
    and y: "y = x\<lparr>cx_ref := r\<rparr>"
  shows "\<exists>n'. delete_context c (put_ctx c y n) = Some n' \<and> kept n n' \<and> n_ctxs n' = (n_ctxs n)(c := None)
     \<and> node_inv (refs(c := 0)) held n'"
proof -
  note d = node_invD [OF inv]
  from ctx_queue [OF inv x] obtain v where v: "qview (n_mq n) (cx_queue x) = Some v" "\<not> v_release v" by metis
  from queues_mark [OF d(7) v] obtain m where
    m: "skynet_mq_mark_release (cx_queue x) (n_mq n) = Some m" "queues_ok held m"
      "qview m = (qview (n_mq n))(cx_queue x \<mapsto> v\<lparr>v_release := True\<rparr>)" by blast
  have md: "cx_mod x < length (m_m (n_modules n))" using d(3) [OF x] by (simp add: ctx_ok_def)
  let ?n = "context_dec (n\<lparr>n_mq := m, n_ctxs := (n_ctxs n)(c := None)\<rparr>)"
  let ?p = "put_ctx c y n"
  let ?q = "case cx_logfile x of Some f \<Rightarrow> emit (Closed f) ?p | None \<Rightarrow> ?p"
  obtain t1 where q: "?q = ?p\<lparr>n_trace := t1\<rparr>"
    using trace_same [of ?p] by (cases "cx_logfile x") (auto simp: emit_def)
  from instance_release_trace [of "cx_mod x" ?q "cx_instance x"] md obtain t where
    t: "skynet_module_instance_release (cx_mod x) (cx_instance x) ?q = Some (?p\<lparr>n_trace := t\<rparr>)"
    unfolding q by auto
  have "delete_context c ?p = Some (?n\<lparr>n_trace := t\<rparr>)"
    using t m(1) y unfolding delete_context_def get_ctx_def
    by (simp add: context_dec_def) (simp add: put_ctx_def)
  note t = this
  have "handle_inv (handle_of ?n) (n_handles n)"
    using d(1) last(1) handle_inv_cong [of "n_handles n" "handle_of n" "handle_of ?n"]
    by (auto simp: handle_of_def context_dec_def)
  moreover have "ctx_ok (refs(c := 0)) ?n e z" if e: "n_ctxs n e = Some z" "e \<noteq> c" for e z
  proof -
    have "cx_queue z \<noteq> cx_queue x" using d(4) x e unfolding queues_apart_def by metis
    then show ?thesis using d(3) [OF e(1)] e(2) m(3) by (simp add: ctx_ok_def context_dec_def)
  qed
  moreover have "queues_apart ?n" using d(4) by (simp add: queues_apart_def context_dec_def)
  ultimately have "node_inv (refs(c := 0)) held ?n"
    using d(2) last m(2) node_invD(5,6) [OF inv] unfolding node_inv_def
    by (auto simp: context_dec_def split: if_splits)
  then show ?thesis using t by (auto simp: kept_def context_dec_def)
qed

lemma release_inv:
  assumes inv: "node_inv refs held n" and r: "0 < refs c" and rem: "n_remote n = Some c \<longrightarrow> 1 < refs c"
  shows "\<exists>b n'. skynet_context_release c n = Some (b, n') \<and> kept n n' \<and> (b \<longleftrightarrow> c \<in> dom (n_ctxs n'))
     \<and> (\<forall>d. d \<noteq> c \<longrightarrow> n_ctxs n' d = n_ctxs n d) \<and> node_inv (refs(c := refs c - 1)) held n'"
proof -
  obtain x where x: "n_ctxs n c = Some x" using node_invD(5) [OF inv r] by blast
  note ok = node_invD(3) [OF inv x]
  show ?thesis
  proof (cases "cx_ref x - 1 = 0")
    case True
    then have l: "c \<notin> contexts (n_handles n)" "refs c \<le> 1" using ok r by (auto simp: ctx_ok_def of_bool_def split: if_splits)
    from delete_inv [OF inv x l _ refl, of "cx_ref x - 1"] rem l(2) obtain n' where
      n': "delete_context c (put_ctx c (x\<lparr>cx_ref := cx_ref x - 1\<rparr>) n) = Some n'" "kept n n'"
        "n_ctxs n' = (n_ctxs n)(c := None)" "node_inv (refs(c := 0)) held n'" by auto
    have "refs c - 1 = 0" using l(2) by simp
    then show ?thesis using n' True x by (auto simp: skynet_context_release_def get_ctx_def)
  next
    case False
    let ?n = "put_ctx c (x\<lparr>cx_ref := cx_ref x - 1\<rparr>) n"
    have "node_inv (refs(c := refs c - 1)) held ?n"
      by (rule node_inv_put [OF inv x]) (use False ok r rem in \<open>auto simp: ctx_ok_def\<close>)
    then show ?thesis using False x by (auto simp: skynet_context_release_def get_ctx_def kept_def)
  qed
qed

section \<open>Looking up, retiring and registering handles\<close>

lemma grab_found:
  assumes "node_inv refs held n" "skynet_handle_grab (handle_of n) h (n_handles n) = Some c"
  obtains x where "n_ctxs n c = Some x" "cx_handle x = h" "c \<in> contexts (n_handles n)"
proof -
  have "slots_ok (handle_of n) (n_handles n)" using node_invD(1) [OF assms(1)] by (simp add: handle_inv_def)
  then have c: "c \<in> contexts (n_handles n)" "handle_of n c = h" using grab_registered assms(2) by metis+
  then obtain x where "n_ctxs n c = Some x" using node_invD(2) [OF assms(1)] by auto
  with c that show thesis by (simp add: handle_of_def)
qed

lemma handle_grab_inv:
  assumes "node_inv refs held n"
  shows "\<exists>g n'. handle_grab h n = Some (g, n') \<and> g = skynet_handle_grab (handle_of n) h (n_handles n) \<and> kept n n'
     \<and> n_mq n' = n_mq n
     \<and> (case g of None \<Rightarrow> n' = n
        | Some c \<Rightarrow> \<exists>x. n_ctxs n c = Some x \<and> n' = put_ctx c (x\<lparr>cx_ref := cx_ref x + 1\<rparr>) n
            \<and> c \<in> contexts (n_handles n) \<and> cx_handle x = h \<and> node_inv (refs(c := refs c + 1)) held n')"
proof (cases "skynet_handle_grab (handle_of n) h (n_handles n)")
  case None
  then show ?thesis by (simp add: handle_grab_def kept_def)
next
  case (Some c)
  from grab_found [OF assms Some] obtain x where x: "n_ctxs n c = Some x" "cx_handle x = h" "c \<in> contexts (n_handles n)"
    by metis
  from grab_inv [OF assms x(1)] Some x show ?thesis by (simp add: handle_grab_def kept_def)
qed

lemma handle_grab_cases:
  assumes "node_inv refs held n" "handle_grab h n = Some (g, n')"
  shows "kept n n'" "n_mq n' = n_mq n" "g = None \<Longrightarrow> n' = n" "g = Some c \<Longrightarrow> node_inv (refs(c := refs c + 1)) held n'"
    "g = Some c \<Longrightarrow> handle_of n c = h"
  using handle_grab_inv [OF assms(1), of h] assms(2) by (cases g; auto simp: handle_of_def)+

text \<open>A change of the table that keeps its contexts.\<close>

lemma node_inv_handles:
  assumes inv: "node_inv refs held n" and hs: "handle_inv (handle_of n) hs" "contexts hs = contexts (n_handles n)"
  shows "node_inv refs held (n\<lparr>n_handles := hs\<rparr>)"
proof -
  note d = node_invD [OF inv]
  have "ctx_ok refs (n\<lparr>n_handles := hs\<rparr>) e z" if e: "n_ctxs n e = Some z" for e z
    using d(3) [OF e] hs(2) by (simp add: ctx_ok_def)
  then show ?thesis
    using d(2,4,7) hs node_invD(5,6) [OF inv] unfolding node_inv_def by (auto simp: queues_apart_def)
qed

lemma handle_retire_inv:
  assumes inv: "node_inv refs held n"
  shows "\<exists>b n'. handle_retire h n = Some (b, n') \<and> node_inv refs held n'
     \<and> contexts (n_handles n') = contexts (n_handles n) - {d. handle_of n d = h}
     \<and> n_modules n' = n_modules n \<and> n_remote n' = n_remote n \<and> n_harbor n' = n_harbor n \<and> n_alloc n' = n_alloc n"
proof -
  obtain b g hs where t: "skynet_handle_retire (handle_of n) h (n_handles n) = (b, g, hs)" by (metis prod_cases3)
  note d = node_invD [OF inv]
  note r = retire_ok [OF d(1) t]
  let ?n = "n\<lparr>n_handles := hs\<rparr>"
  show ?thesis
  proof (cases g)
    case None
    have "handle_map (handle_of n) (n_handles n) h = None" using r(3) None by simp
    then have same: "contexts hs = contexts (n_handles n)"
      using r(4) handle_map_None [of "handle_of n" "n_handles n" h] d(1) by (auto simp: handle_inv_def)
    have "node_inv refs held ?n" by (rule node_inv_handles [OF inv r(1) same])
    then show ?thesis using t None r(4) by (auto simp: handle_retire_def)
  next
    case (Some c)
    have so: "slots_ok (handle_of n) (n_handles n)" using d(1) by (simp add: handle_inv_def)
    have c: "c \<in> contexts (n_handles n)" "handle_of n c = h"
      using r(3) Some handle_map_Some [OF so] by metis+
    have one: "contexts hs = contexts (n_handles n) - {c}"
      using r(4) hof_inj [OF so] c by (auto simp: set_eq_iff)
    let ?refs = "refs(c := refs c + 1)"
    have "ctx_ok ?refs ?n e z" if e: "n_ctxs n e = Some z" for e z
      using d(3) [OF e] one c(1) by (auto simp: ctx_ok_def)
    moreover obtain x where "n_ctxs n c = Some x" using d(2) c(1) by auto
    ultimately have "node_inv ?refs held ?n"
      using d(2,4,7) r(1) one node_invD(5,6) [OF inv] unfolding node_inv_def by (auto simp: queues_apart_def)
    from release_inv [OF this, of c] node_invD(6) [OF inv] obtain b' n' where
      n': "skynet_context_release c ?n = Some (b', n')" "kept ?n n'" "node_inv (?refs(c := ?refs c - 1)) held n'"
      by auto
    have "?refs(c := ?refs c - 1) = refs" by auto
    then show ?thesis using t Some n' r(4) by (auto simp: handle_retire_def kept_def)
  qed
qed

section \<open>Light steps\<close>

text \<open>A step that sends messages and changes fields of contexts that do not matter here.\<close>

definition same_ctx :: "skynet_context \<Rightarrow> skynet_context \<Rightarrow> bool" where
  "same_ctx x y \<longleftrightarrow> cx_handle y = cx_handle x \<and> cx_queue y = cx_queue x \<and> cx_mod y = cx_mod x \<and> cx_ref y = cx_ref x"

definition light :: "mqref set \<Rightarrow> skynet_node \<Rightarrow> skynet_node \<Rightarrow> bool" where
  "light held n n' \<longleftrightarrow> kept n n' \<and> (\<forall>c. rel_option same_ctx (n_ctxs n c) (n_ctxs n' c))
     \<and> queues_grow (n_mq n) (n_mq n') \<and> queues_ok held (n_mq n')"

lemma queues_grow_refl [simp]: "queues_grow m m"
  by (simp add: queues_grow_def)

lemma queues_grow_trans: "queues_grow m m' \<Longrightarrow> queues_grow m' m'' \<Longrightarrow> queues_grow m m''"
  unfolding queues_grow_def by metis

lemma same_ctx_refl [simp]: "same_ctx x x"
  by (simp add: same_ctx_def)

lemma light_refl: "queues_ok held (n_mq n) \<Longrightarrow> light held n n"
  by (simp add: light_def kept_def option.rel_refl)

lemma light_trans [trans]: "light held n n' \<Longrightarrow> light held n' n'' \<Longrightarrow> light held n n''"
proof -
  assume a: "light held n n'" "light held n' n''"
  have "rel_option same_ctx (n_ctxs n c) (n_ctxs n'' c)" for c
  proof -
    have "rel_option same_ctx (n_ctxs n c) (n_ctxs n' c)" "rel_option same_ctx (n_ctxs n' c) (n_ctxs n'' c)"
      using a by (simp_all add: light_def)
    then show ?thesis
      by (cases "n_ctxs n c"; cases "n_ctxs n' c"; cases "n_ctxs n'' c") (auto simp: same_ctx_def)
  qed
  then show ?thesis using a unfolding light_def kept_def by (auto intro: queues_grow_trans)
qed

lemma light_ctx:
  assumes "light held n n'" "n_ctxs n c = Some x"
  obtains y where "n_ctxs n' c = Some y" "same_ctx x y"
proof -
  have "rel_option same_ctx (n_ctxs n c) (n_ctxs n' c)" using assms(1) by (simp add: light_def)
  with assms(2) that show thesis by (auto elim: option.rel_cases)
qed

lemma light_ctx_back:
  assumes "light held n n'" "n_ctxs n' c = Some y"
  obtains x where "n_ctxs n c = Some x" "same_ctx x y"
proof -
  have "rel_option same_ctx (n_ctxs n c) (n_ctxs n' c)" using assms(1) by (simp add: light_def)
  with assms(2) that show thesis by (auto elim: option.rel_cases)
qed

lemma light_handle_of: "light held n n' \<Longrightarrow> handle_of n' = handle_of n"
proof
  fix c assume "light held n n'"
  then have "rel_option same_ctx (n_ctxs n c) (n_ctxs n' c)" by (simp add: light_def)
  then show "handle_of n' c = handle_of n c" by (auto simp: handle_of_def same_ctx_def elim!: option.rel_cases)
qed

lemma light_inv:
  assumes inv: "node_inv refs held n" and l: "light held n n'"
  shows "node_inv refs held n'"
proof -
  note d = node_invD [OF inv]
  have k: "kept n n'" "queues_kept (n_mq n) (n_mq n')" "queues_ok held (n_mq n')"
    using l queues_grow_kept by (auto simp: light_def)
  have "ctx_ok refs n' c y" if y: "n_ctxs n' c = Some y" for c y
  proof -
    from light_ctx_back [OF l y] obtain x where x: "n_ctxs n c = Some x" "same_ctx x y" .
    from d(3) [OF x(1)] x(2) k(1,2) show ?thesis
      unfolding ctx_ok_def same_ctx_def kept_def queues_kept_def by fastforce
  qed
  moreover have "queues_apart n'"
    unfolding queues_apart_def
  proof (intro allI impI)
    fix c e y z assume "n_ctxs n' c = Some y" "n_ctxs n' e = Some z" and q: "cx_queue y = cx_queue z"
    then show "c = e"
      using d(4) light_ctx_back [OF l] unfolding queues_apart_def same_ctx_def by metis
  qed
  moreover have "dom (n_ctxs n') = dom (n_ctxs n)"
    using light_ctx [OF l] light_ctx_back [OF l] by (auto simp: dom_def) metis+
  moreover have "handle_inv (handle_of n') (n_handles n')" using d(1) k(1) light_handle_of [OF l] by (simp add: kept_def)
  ultimately show ?thesis
    using d(2) k(1,3) node_invD(5,6) [OF inv] unfolding node_inv_def kept_def by auto
qed

lemma light_put:
  "queues_ok held (n_mq n) \<Longrightarrow> n_ctxs n c = Some x \<Longrightarrow> same_ctx x y \<Longrightarrow> light held n (put_ctx c y n)"
  by (simp add: light_def kept_def option.rel_refl)

lemma light_irrelevant [simp]:
  "light held n (n'\<lparr>n_total := a\<rparr>) = light held n n'" "light held n (n'\<lparr>n_monitor_exit := b\<rparr>) = light held n n'"
  "light held n (n'\<lparr>n_current := b\<rparr>) = light held n n'" "light held n (n'\<lparr>n_timer := g\<rparr>) = light held n n'"
  "light held n (n'\<lparr>n_env := i\<rparr>) = light held n n'" "light held n (n'\<lparr>n_logger := b\<rparr>) = light held n n'"
  "light held n (n'\<lparr>n_trace := l\<rparr>) = light held n n'" "light held n (emit e n') = light held n n'"
  by (simp_all add: light_def kept_def emit_def)

section \<open>Sending\<close>

text \<open>A push takes a reference and gives it back: all that changes is the queue of the destination.\<close>

lemma push_eq:
  assumes inv: "node_inv refs held n"
  shows "\<exists>m. skynet_context_push h msg n =
       Some (case skynet_handle_grab (handle_of n) h (n_handles n) of None \<Rightarrow> (-1, n) | Some c \<Rightarrow> (0, n\<lparr>n_mq := m\<rparr>))
     \<and> (\<forall>c x. skynet_handle_grab (handle_of n) h (n_handles n) = Some c \<longrightarrow> n_ctxs n c = Some x \<longrightarrow>
          queues_ok held m \<and> queues_grow (n_mq n) m
        \<and> (\<exists>v. qview (n_mq n) (cx_queue x) = Some v
             \<and> qview m = (qview (n_mq n))(cx_queue x \<mapsto> v\<lparr>v_msgs := v_msgs v @ [msg], v_global := True\<rparr>)))"
proof (cases "skynet_handle_grab (handle_of n) h (n_handles n)")
  case None
  then show ?thesis by (simp add: skynet_context_push_def handle_grab_def)
next
  case (Some c)
  from grab_found [OF inv Some] obtain x where x: "n_ctxs n c = Some x" by metis
  from ctx_queue [OF inv x] obtain v where v: "qview (n_mq n) (cx_queue x) = Some v" "\<not> v_release v" by metis
  from queues_push [OF node_invD(7) [OF inv] v] obtain m where
    m: "skynet_mq_push (cx_queue x) msg (n_mq n) = Some m" "queues_ok held m"
      "qview m = (qview (n_mq n))(cx_queue x \<mapsto> v\<lparr>v_msgs := v_msgs v @ [msg], v_global := True\<rparr>)" by blast
  have r: "cx_ref x \<noteq> 0" using node_invD(3) [OF inv x] by (simp add: ctx_ok_def)
  have bk: "put_ctx c x ((put_ctx c (x\<lparr>cx_ref := cx_ref x + 1\<rparr>) n)\<lparr>n_mq := m\<rparr>) = n\<lparr>n_mq := m\<rparr>"
    using x by (simp add: put_ctx_def map_upd_triv)
  have "skynet_context_release c ((put_ctx c (x\<lparr>cx_ref := cx_ref x + 1\<rparr>) n)\<lparr>n_mq := m\<rparr>) = Some (True, n\<lparr>n_mq := m\<rparr>)"
    using r bk by (simp add: skynet_context_release_def get_ctx_def)
  then have "skynet_context_push h msg n = Some (0, n\<lparr>n_mq := m\<rparr>)"
    using Some x m(1)
    by (simp add: skynet_context_push_def handle_grab_def skynet_context_grab_def get_ctx_def Let_def)
  moreover have "queues_grow (n_mq n) m" by (rule queues_grow_upd [OF m(3) v]) simp_all
  ultimately show ?thesis using Some x m(2,3) v(1) by auto
qed

lemma push_light:
  assumes inv: "node_inv refs held n"
  shows "\<exists>r n'. skynet_context_push h msg n = Some (r, n') \<and> light held n n'"
proof (cases "skynet_handle_grab (handle_of n) h (n_handles n)")
  case None
  then show ?thesis using push_eq [OF inv, of h msg] light_refl [OF node_invD(7) [OF inv]] by auto
next
  case (Some c)
  from grab_found [OF inv Some] obtain x where "n_ctxs n c = Some x" by metis
  then show ?thesis
    using push_eq [OF inv, of h msg] Some by (auto simp: light_def kept_def option.rel_refl)
qed

lemma error_light:
  assumes inv: "node_inv refs held n" and c: "\<And>c. ctx = Some c \<Longrightarrow> c \<in> dom (n_ctxs n)"
  shows "\<exists>n'. skynet_error ctx text n = Some n' \<and> light held n n'"
proof -
  have "names_ok (n_handles n)" using node_invD(1) [OF inv] by (simp add: handle_inv_def)
  from findname_eval [OF this, of "lit ''logger''"] obtain h where
    h: "skynet_handle_findname (lit ''logger'') (n_handles n) = Some h" by blast
  define n1 where "n1 = (if n_logger n = 0 then n\<lparr>n_logger := h\<rparr> else n)"
  have i1: "node_inv refs held n1" using inv by (simp add: n1_def)
  have l1: "light held n n1" using light_refl [OF node_invD(7) [OF inv]] by (simp add: n1_def)
  obtain src where src: "(case ctx of None \<Rightarrow> Some 0 | Some c \<Rightarrow> skynet_context_handle c n1) = Some src"
    using c by (cases ctx) (auto simp: skynet_context_handle_def get_ctx_def n1_def)
  obtain dat len where f: "format_message text = (dat, len)" by fastforce
  let ?msg = "\<lparr>source = src, session = 0, data = PBuf (dat @ [0]), sz = with_type (of_nat len) PTYPE_TEXT\<rparr>"
  from push_light [OF i1, of "n_logger n1" ?msg] obtain r n2 where
    n2: "skynet_context_push (n_logger n1) ?msg n1 = Some (r, n2)" "light held n1 n2" by blast
  have "skynet_error ctx text n = (if n_logger n1 = 0 then Some n1 else Some n2)"
    using h src f n2(1) by (cases "n_logger n = 0") (auto simp: skynet_error_def n1_def split: option.splits)
  then show ?thesis using l1 light_trans [OF l1 n2(2)] by auto
qed

lemma newsession_light:
  assumes inv: "node_inv refs held n" and c: "c \<in> dom (n_ctxs n)"
  shows "\<exists>sess n'. skynet_context_newsession c n = Some (sess, n') \<and> light held n n'"
proof -
  from c obtain x where x: "n_ctxs n c = Some x" by blast
  have l: "light held n (put_ctx c (x\<lparr>cx_session_id := k\<rparr>) n)" for k
    by (rule light_put [OF node_invD(7) [OF inv] x]) (simp add: same_ctx_def)
  show ?thesis using x l by (simp add: skynet_context_newsession_def get_ctx_def Let_def)
qed

lemma context_send_light:
  assumes inv: "node_inv refs held n" and c: "c \<in> dom (n_ctxs n)"
  shows "\<exists>n'. skynet_context_send c msg len src type sess n = Some n' \<and> light held n n'"
proof -
  from c obtain x where x: "n_ctxs n c = Some x" by blast
  from ctx_queue [OF inv x] obtain v where v: "qview (n_mq n) (cx_queue x) = Some v" "\<not> v_release v" by metis
  let ?msg = "\<lparr>source = src, session = sess, data = msg, sz = with_type len type\<rparr>"
  from queues_push [OF node_invD(7) [OF inv] v, of ?msg] obtain m where
    m: "skynet_mq_push (cx_queue x) ?msg (n_mq n) = Some m" "queues_ok held m"
      "qview m = (qview (n_mq n))(cx_queue x \<mapsto> v\<lparr>v_msgs := v_msgs v @ [?msg], v_global := True\<rparr>)" by blast
  have "queues_grow (n_mq n) m" by (rule queues_grow_upd [OF m(3) v]) simp_all
  then show ?thesis using x m(1,2)
    by (simp add: skynet_context_send_def get_ctx_def light_def kept_def option.rel_refl)
qed

text \<open>The reserved context of the harbor is there.\<close>

lemma remote_alive: "node_inv refs held n \<Longrightarrow> n_remote n = Some c \<Longrightarrow> c \<in> dom (n_ctxs n)"
  using node_invD(5,6) by blast

lemma harbor_send_light:
  assumes inv: "node_inv refs held n" and r: "skynet_harbor_send nm h msg len src sess n = Some n'"
  shows "light held n n'"
proof -
  from r obtain c where c: "n_remote n = Some c" by (auto simp: skynet_harbor_send_def Let_def assert_opt_def split: if_splits)
  from context_send_light [OF inv remote_alive [OF inv c]] r c show ?thesis
    by (auto simp: skynet_harbor_send_def Let_def assert_opt_def split: if_splits) (metis option.inject)
qed

lemma filter_args_light:
  assumes inv: "node_inv refs held n" and ctx: "\<And>c. ctx = Some c \<Longrightarrow> c \<in> dom (n_ctxs n)"
    and f: "filter_args ctx type sess d len n = Some (sess', d', len', n')"
  shows "light held n n'"
proof (cases "type AND PTYPE_TAG_ALLOCSESSION \<noteq> 0")
  case True
  with f obtain c where c: "ctx = Some c" "skynet_context_newsession c n = Some (sess', n')"
    by (auto simp: filter_args_def Let_def assert_opt_def split: if_splits)
  with newsession_light [OF inv ctx [OF c(1)]] show ?thesis by auto
next
  case False
  with f have "n' = n" by (auto simp: filter_args_def Let_def split: if_splits)
  then show ?thesis using light_refl [OF node_invD(7) [OF inv]] by simp
qed

lemma send_light:
  assumes inv: "node_inv refs held n" and ctx: "\<And>c. ctx = Some c \<Longrightarrow> c \<in> dom (n_ctxs n)"
    and s: "skynet_send ctx src dest type sess d len n = Some (r, n')"
  shows "light held n n'"
proof (cases "len AND MESSAGE_TYPE_MASK \<noteq> len")
  case True
  with s obtain n1 where n1: "skynet_error ctx (lit ''The message to '' @ hex_nat (unat dest) @ lit '' is too large'') n = Some n1"
    "n' = n1 \<or> n' = emit (Freed d) n1" by (auto simp: skynet_send_def split: if_splits)
  from error_light [OF inv ctx] n1 show ?thesis by (metis light_irrelevant(8) option.inject)
next
  case False
  with s obtain sess1 d1 len1 n1 src1 where
    f: "filter_args ctx type sess d len n = Some (sess1, d1, len1, n1)" and o: "own_handle ctx src n1 = Some src1"
    and rest: "(if dest = 0 then Some (sess1, n1)
        else do {
          remote \<leftarrow> skynet_harbor_message_isremote dest n1;
          if remote then do {
            n \<leftarrow> skynet_harbor_send [] dest d1 len1 src1 sess1 n1;
            Some (sess1, n)
          }
          else do {
            (r, n) \<leftarrow> skynet_context_push dest \<lparr>source = src1, session = sess1, data = d1, sz = len1\<rparr> n1;
            if r \<noteq> 0 then Some (-1, emit (Freed d1) n) else Some (sess1, n)
          }
        }) = Some (r, n')"
    by (auto simp: skynet_send_def simp del: bind_eq_Some_conv split: if_splits bind_splits)
  have l1: "light held n n1" by (rule filter_args_light [OF inv ctx f])
  have i1: "node_inv refs held n1" by (rule light_inv [OF inv l1])
  consider "n' = n1" | "skynet_harbor_send [] dest d1 len1 src1 sess1 n1 = Some n'"
    | n2 r2 where "skynet_context_push dest \<lparr>source = src1, session = sess1, data = d1, sz = len1\<rparr> n1 = Some (r2, n2)"
        "n' = n2 \<or> n' = emit (Freed d1) n2"
    using rest by (auto split: if_splits)
  then have "light held n1 n'"
  proof cases
    case 1
    then show ?thesis using light_refl [OF node_invD(7) [OF i1]] by simp
  next
    case 2
    then show ?thesis by (rule harbor_send_light [OF i1])
  next
    case 3
    then show ?thesis using push_light [OF i1] by (metis light_irrelevant(8) option.inject prod.inject)
  qed
  then show ?thesis by (rule light_trans [OF l1])
qed

lemma sendname_light:
  assumes inv: "node_inv refs held n" and ctx: "\<And>c. ctx = Some c \<Longrightarrow> c \<in> dom (n_ctxs n)"
    and s: "skynet_sendname ctx src addr type sess d len n = Some (r, n')"
  shows "light held n n'"
proof -
  have via: "light held n n'" if "do {
           (sess, d, len, n) \<leftarrow> filter_args ctx type sess d len n;
           n \<leftarrow> skynet_harbor_send nm 0 d len src1 sess n;
           Some (sess, n)
         } = Some (r, n')" for nm src1
  proof -
    from that obtain sess1 d1 len1 n1 where f: "filter_args ctx type sess d len n = Some (sess1, d1, len1, n1)"
      "skynet_harbor_send nm 0 d1 len1 src1 sess1 n1 = Some n'" by auto
    have l: "light held n n1" by (rule filter_args_light [OF inv ctx f(1)])
    from harbor_send_light [OF light_inv [OF inv l] f(2)] show ?thesis by (rule light_trans [OF l])
  qed
  have fail: "light held n n" "light held n (emit (Freed d) n)"
    using light_refl [OF node_invD(7) [OF inv]] by simp_all
  show ?thesis
    using s via fail send_light [OF inv ctx] unfolding skynet_sendname_def
    by (cases addr) (auto split: if_splits simp del: light_irrelevant)
qed

lemma drop_message_light:
  assumes inv: "node_inv refs held n" and s: "drop_message h msg n = Some n'"
  shows "light held n n'"
proof -
  from s obtain r where "skynet_send None h (source msg) PTYPE_ERROR 0 PNull 0 (emit (Freed (data msg)) n) = Some (r, n')"
    by (auto simp: drop_message_def Let_def assert_opt_def split: if_splits)
  from send_light [OF _ _ this, of refs held] inv have "light held (emit (Freed (data msg)) n) n'" by simp
  then show ?thesis by (simp add: light_def kept_def)
qed

section \<open>Dropping a queue\<close>

lemma drop_loop_inv:
  assumes "node_inv refs held n" "q \<in> held" "qview (n_mq n) q = Some v" "v_release v"
    and "drop_loop k n_mq (\<lambda>m n. n\<lparr>n_mq := m\<rparr>) (drop_message h) q n = Some n'"
  shows "node_inv refs held n' \<and> (\<exists>w. qview (n_mq n') q = Some w \<and> v_release w) \<and> kept n n'"
  using assms
proof (induction k arbitrary: n v)
  case (Suc k)
  note d = node_invD [OF Suc.prems(1)]
  from queues_pop [OF d(7) Suc.prems(3,2)] Suc.prems(4) obtain m where
    m: "skynet_mq_pop q (n_mq n) = Some (case v_msgs v of [] \<Rightarrow> None | x # _ \<Rightarrow> Some x, m)" "queues_ok held m"
      "qview m = (qview (n_mq n))(q \<mapsto> v\<lparr>v_msgs := tl (v_msgs v), v_global := (v_global v \<and> v_msgs v \<noteq> [])\<rparr>)"
    by auto
  have i1: "node_inv refs held (n\<lparr>n_mq := m\<rparr>)"
    by (rule node_inv_mq [OF Suc.prems(1) queues_kept_upd [OF m(3) Suc.prems(3)] m(2)]) simp_all
  show ?case
  proof (cases "v_msgs v")
    case Nil
    then show ?thesis using Suc.prems(4,5) m(1,3) i1 by (auto simp: kept_def)
  next
    case (Cons x xs)
    with Suc.prems(5) m(1) obtain n2 where n2: "drop_message h x (n\<lparr>n_mq := m\<rparr>) = Some n2"
      "drop_loop k n_mq (\<lambda>m n. n\<lparr>n_mq := m\<rparr>) (drop_message h) q n2 = Some n'" by auto
    have l: "light held (n\<lparr>n_mq := m\<rparr>) n2" by (rule drop_message_light [OF i1 n2(1)])
    then have "queues_grow m (n_mq n2)" by (simp add: light_def)
    moreover have "qview m q = Some (v\<lparr>v_msgs := tl (v_msgs v), v_global := (v_global v \<and> v_msgs v \<noteq> [])\<rparr>)"
      using m(3) by simp
    ultimately obtain v2 where "qview (n_mq n2) q = Some v2" "v_release v2"
      using Suc.prems(4) unfolding queues_grow_def by fastforce
    from Suc.IH [OF light_inv [OF i1 l] Suc.prems(2) this n2(2)] l show ?thesis
      by (simp add: light_def kept_def)
  qed
qed simp

lemma mq_release_inv:
  assumes inv: "node_inv refs held n" and q: "q \<in> held" and r: "mq_release_dropping h q n = Some n'"
  shows "node_inv refs (held - {q}) n' \<and> kept n n'"
proof -
  note d = node_invD [OF inv]
  obtain v where v: "qview (n_mq n) q = Some v"
    using d(7) q by (auto simp: queues_ok_def queues_rep_def)
  then obtain mq where mq: "get_q q (n_mq n) = Some mq" "mq_release mq = v_release v"
    using qview_release [OF v] by auto
  show ?thesis
  proof (cases "v_release v")
    case True
    with r mq obtain n1 m where n1:
      "drop_loop (Suc (skynet_mq_length mq)) n_mq (\<lambda>m n. n\<lparr>n_mq := m\<rparr>) (drop_message h) q n = Some n1"
      "mq_free q (n_mq n1) = Some m" "n' = n1\<lparr>n_mq := m\<rparr>"
      by (auto simp: mq_release_dropping_def skynet_mq_release_def drop_queue_def)
    have i1: "node_inv refs held n1" and rel: "\<exists>w. qview (n_mq n1) q = Some w \<and> v_release w"
      and k: "kept n n1"
      using drop_loop_inv [OF inv q v True n1(1)] by blast+
    from queues_free [OF node_invD(7) [OF i1] q] n1(2) have
      m: "queues_ok (held - {q}) m" "qview m = (qview (n_mq n1))(q := None)" by auto
    have "queues_kept (n_mq n1) m" using m(2) rel by (auto simp: queues_kept_def)
    then show ?thesis using node_inv_mq [OF i1 _ m(1)] n1(3) k by (simp add: kept_def)
  next
    case False
    with r mq obtain m where m: "skynet_globalmq_push q (n_mq n) = Some m" "n' = n\<lparr>n_mq := m\<rparr>"
      by (auto simp: mq_release_dropping_def skynet_mq_release_def)
    with queues_globalpush [OF d(7) q] have "queues_ok (held - {q}) m" "qview m = qview (n_mq n)" by auto
    then show ?thesis using node_inv_mq [OF inv queues_grow_kept [OF queues_grow_view]] m(2) by (simp add: kept_def)
  qed
qed

section \<open>Retiring everything\<close>

lemma release_all_inv:
  assumes "node_inv (\<lambda>c. refs c + of_bool (c \<in> set cs)) held n" "distinct cs"
    and "\<forall>c. n_remote n = Some c \<longrightarrow> 0 < refs c"
  shows "\<exists>n'. release_all cs n = Some n' \<and> node_inv refs held n' \<and> kept n n'"
  using assms
proof (induction cs arbitrary: n)
  case Nil
  then show ?case by (simp add: kept_def)
next
  case (Cons c cs)
  let ?r = "\<lambda>d. refs d + of_bool (d \<in> set (c # cs))"
  from release_inv [OF Cons.prems(1), of c] Cons.prems(3) obtain b n1 where
    n1: "skynet_context_release c n = Some (b, n1)" "kept n n1" "node_inv (?r(c := ?r c - 1)) held n1" by auto
  have "?r(c := ?r c - 1) = (\<lambda>d. refs d + of_bool (d \<in> set cs))" using Cons.prems(2) by auto
  with Cons.IH [of n1] n1 Cons.prems(2,3) obtain n2 where
    "release_all cs n1 = Some n2" "node_inv refs held n2" "kept n1 n2" by (auto simp: kept_def)
  then show ?case using n1 by (auto simp: kept_def)
qed

lemma retireall_inv:
  assumes inv: "node_inv refs held n"
  shows "\<exists>n'. handle_retireall n = Some n' \<and> node_inv refs held n' \<and> n_remote n' = n_remote n"
proof -
  note d = node_invD [OF inv]
  from retireall_spec [OF d(1)] obtain cs hs where
    r: "skynet_handle_retireall (handle_of n) (n_handles n) = Some (cs, hs)" "handle_inv (handle_of n) hs" "distinct cs"
      "set cs \<subseteq> contexts (n_handles n)" "contexts hs = contexts (n_handles n) - set cs" by auto
  let ?n = "n\<lparr>n_handles := hs\<rparr>" and ?refs = "\<lambda>c. refs c + of_bool (c \<in> set cs)"
  have "ctx_ok ?refs ?n e z" if e: "n_ctxs n e = Some z" for e z
    using d(3) [OF e] r(4,5) by (auto simp: ctx_ok_def)
  then have "node_inv ?refs held ?n"
    using d(2,4,7) r(2,4,5) node_invD(5,6) [OF inv] unfolding node_inv_def by (auto simp: queues_apart_def)
  from release_all_inv [OF this r(3)] node_invD(6) [OF inv] obtain n' where
    "release_all cs ?n = Some n'" "node_inv refs held n'" "kept ?n n'" by auto
  then show ?thesis using r(1) by (simp add: handle_retireall_def kept_def)
qed

section \<open>A new context\<close>

lemma fresh_ctx: "node_inv refs held n \<Longrightarrow> n_ctxs n (n_alloc n) = None \<and> refs (n_alloc n) = 0 \<and> n_alloc n \<notin> contexts (n_handles n)"
proof -
  assume inv: "node_inv refs held n"
  have "n_ctxs n (n_alloc n) = None"
    using node_invD(3) [OF inv, of "n_alloc n"] by (cases "n_ctxs n (n_alloc n)") (auto simp: ctx_ok_def)
  then show ?thesis using node_invD(2) [OF inv] node_invD(5) [OF inv, of "n_alloc n"] by (auto simp: domIff)
qed

lemma register_Some:
  assumes inv: "handle_inv hof s" and new: "c \<notin> contexts s" and r: "skynet_handle_register hof c s = Some (h, s')"
  shows "handle_inv (hof(c := h)) s'" "contexts s' = insert c (contexts s)"
proof -
  have "handle_ready c s"
  proof -
    have so: "slots_ok hof s" using inv by (simp add: handle_inv_def)
    then obtain k where "k \<le> 24" "length (slot s) = 2 ^ k" by (auto simp: slots_ok_def)
    then have "length (slot s) \<le> 2 ^ 24" using power_increasing [of k 24 "2 :: nat"] by simp
    then show ?thesis using new register_full [OF so, of c] r by (auto simp: handle_ready_def le_less)
  qed
  from register_ok [OF inv this] r show "handle_inv (hof(c := h)) s'" "contexts s' = insert c (contexts s)" by auto
qed

lemma context_setup_inv:
  assumes inv: "node_inv refs held n" and md: "md < length (m_m (n_modules n))"
    and r: "context_setup md inst n = Some (c, q, n')"
  shows "node_inv (refs(c := 1)) (insert q held) n'" "c = n_alloc n" "q \<notin> held" "n_remote n' = n_remote n"
    "n_modules n' = n_modules n"
proof -
  note d = node_invD [OF inv] and fr = fresh_ctx [OF inv]
  let ?c = "n_alloc n" and ?y = "new_context md inst"
  have h0: "(handle_of n)(?c := 0) = handle_of n" using fr by (auto simp: handle_of_def)
  have reg0: "(handle_of n)(?c := cx_handle ?y) = handle_of n" using h0 by (simp add: new_context_def)
  from r obtain h hs where reg: "skynet_handle_register (handle_of n) ?c (n_handles n) = Some (h, hs)"
    by (auto simp: context_setup_def Let_def reg0)
  obtain m where cr: "skynet_mq_create h (n_mq n) = (q, m)" and c: "c = ?c"
    and n': "n' = context_inc (put_ctx c (?y\<lparr>cx_handle := h, cx_queue := q\<rparr>)
        ((put_ctx c ?y n)\<lparr>n_alloc := Suc c, n_handles := hs, n_mq := m\<rparr>))"
    using r reg by (auto simp: context_setup_def Let_def reg0 split: prod.splits)
  note rg = register_Some [OF d(1) _ reg] and qc = queues_create [OF d(7) cr]
  let ?x = "?y\<lparr>cx_handle := h, cx_queue := q\<rparr>"
  let ?n = "put_ctx c ?x ((put_ctx c ?y n)\<lparr>n_alloc := Suc c, n_handles := hs, n_mq := m\<rparr>)"
  have ct: "n_ctxs ?n = (n_ctxs n)(c \<mapsto> ?x)" by simp
  have con: "contexts hs = insert c (contexts (n_handles n))" using rg(2) fr c by simp
  have "handle_of ?n = (handle_of n)(c := h)" using c by (auto simp: handle_of_def)
  then have "handle_inv (handle_of ?n) (n_handles ?n)" using rg(1) fr c by simp
  moreover have "ctx_ok (refs(c := 1)) ?n e z" if e: "n_ctxs ?n e = Some z" for e z
  proof (cases "e = c")
    case True
    then show ?thesis using e con md qc(4) by (auto simp: ctx_ok_def new_context_def)
  next
    case False
    with e have e': "n_ctxs n e = Some z" by simp
    from ctx_queue [OF inv e'] obtain v where "qview (n_mq n) (cx_queue z) = Some v" by metis
    then have "cx_queue z \<noteq> q" using qc(2) by auto
    then show ?thesis using d(3) [OF e'] False con qc(4) c by (auto simp: ctx_ok_def)
  qed
  moreover have "queues_apart ?n"
  proof -
    have "cx_queue z \<noteq> q" if "n_ctxs n e = Some z" for e z
      using ctx_queue [OF inv that] qc(2) by (metis option.distinct(1))
    then show ?thesis using d(4) unfolding queues_apart_def ct by (auto split: if_splits)
  qed
  moreover have "contexts (n_handles ?n) \<subseteq> dom (n_ctxs ?n)" using d(2) con by auto
  ultimately have "node_inv (refs(c := 1)) (insert q held) ?n"
    using qc(1) node_invD(5,6) [OF inv] unfolding node_inv_def by (auto simp: domIff)
  then show "node_inv (refs(c := 1)) (insert q held) n'" using n' by simp
  show "c = n_alloc n" "q \<notin> held" "n_remote n' = n_remote n" "n_modules n' = n_modules n"
    using c qc(3) n' by (simp_all add: context_inc_def)
qed

end
