(* ===== verification/Runner.thy ===== *)
theory Runner
  imports Contexts Transition
begin

text \<open>
  The code of the services against the invariant of the node. A runner executes the code of a
  service; the locale says what it must keep, and inside it every request a service can make is
  shown to keep it. The runner of the model is then an instance, by induction on how deep launches nest:
  the reference counts stay exact whatever the services do.
\<close>

section \<open>What a service may change\<close>

text \<open>References are not lost, a context that becomes the remote one got a reference for that, and as long as
  there is no remote context nothing has changed.\<close>

definition grows :: "(nat \<Rightarrow> nat) \<Rightarrow> skynet_node \<Rightarrow> (nat \<Rightarrow> nat) \<Rightarrow> skynet_node \<Rightarrow> bool" where
  "grows refs n refs' n' \<longleftrightarrow> (\<forall>d. refs d \<le> refs' d)
     \<and> (\<forall>d. n_remote n' = Some d \<longrightarrow> n_remote n = Some d \<or> refs d < refs' d)
     \<and> (n_remote n' = None \<longrightarrow> n_remote n = None \<and> refs' = refs)"

definition stays :: "(nat \<Rightarrow> nat) \<Rightarrow> mqref set \<Rightarrow> skynet_node \<Rightarrow> skynet_node \<Rightarrow> bool" where
  "stays refs held n n' \<longleftrightarrow> (\<exists>refs'. grows refs n refs' n' \<and> node_inv refs' held n')"

lemma grows_trans: "grows refs n refs' n' \<Longrightarrow> grows refs' n' refs'' n'' \<Longrightarrow> grows refs n refs'' n''"
proof -
  assume a: "grows refs n refs' n'" "grows refs' n' refs'' n''"
  have "\<forall>d. n_remote n'' = Some d \<longrightarrow> n_remote n = Some d \<or> refs d < refs'' d"
    using a unfolding grows_def by (meson dual_order.strict_trans2 dual_order.strict_trans1)
  then show ?thesis using a unfolding grows_def by (meson order_trans)
qed

lemma stays_same: "node_inv refs held n' \<Longrightarrow> n_remote n' = n_remote n \<Longrightarrow> stays refs held n n'"
  unfolding stays_def grows_def by auto

lemma stays_light: "node_inv refs held n \<Longrightarrow> light held n n' \<Longrightarrow> stays refs held n n'"
  by (rule stays_same [OF light_inv]) (auto simp: light_def kept_def)

lemma stays_refl: "node_inv refs held n \<Longrightarrow> stays refs held n n"
  by (rule stays_same) simp_all

lemma stays_trans:
  assumes "stays refs held n n1"
    and "\<And>refs1. grows refs n refs1 n1 \<Longrightarrow> node_inv refs1 held n1 \<Longrightarrow> stays refs1 held n1 n2"
  shows "stays refs held n n2"
  using assms unfolding stays_def by (meson grows_trans)

lemma stays_light_then:
  assumes "light held n n1" "stays refs held n1 n2"
  shows "stays refs held n n2"
  using assms unfolding stays_def grows_def light_def kept_def by metis

lemma alive: "node_inv refs held n \<Longrightarrow> 0 < refs c \<Longrightarrow> c \<in> dom (n_ctxs n)"
  using node_invD(5) by blast

lemma grows_pos: "grows refs n refs' n' \<Longrightarrow> 0 < refs c \<Longrightarrow> 0 < refs' c"
  unfolding grows_def by (meson order.strict_trans2)

section \<open>Requests that run no code\<close>

lemma answer_light:
  assumes inv: "node_inv refs held n" and r: "answer c res n = Some (a, n')"
  shows "light held n n'"
proof -
  from r obtain x where x: "n_ctxs n c = Some x" "n' = put_ctx c (x\<lparr>cx_result := res\<rparr>) n"
    by (auto simp: answer_def get_ctx_def)
  show ?thesis unfolding x(2) by (rule light_put [OF node_invD(7) [OF inv] x(1)]) (simp add: same_ctx_def)
qed

lemma error_keeps:
  assumes "node_inv refs held n" "c \<in> dom (n_ctxs n)" "skynet_error (Some c) t n = Some n'"
  shows "light held n n'"
  using error_light [of refs held n "Some c" t] assms by auto

lemma findname_same: "do { h \<leftarrow> skynet_handle_findname nm hs; Some (h, n) } = Some (g, n') \<Longrightarrow> n' = n"
  by auto

lemma tohandle_light:
  assumes inv: "node_inv refs held n" and c: "c \<in> dom (n_ctxs n)" and r: "tohandle c p n = Some (h, n')"
  shows "light held n n'"
  using r light_refl [OF node_invD(7) [OF inv]] error_keeps [OF inv c]
  by (auto simp: tohandle_def split: if_splits)

lemma names_stays:
  assumes inv: "node_inv refs held n" and r: "skynet_handle_namehandle h nm (n_handles n) = Some (a, hs)"
  shows "stays refs held n (n\<lparr>n_handles := hs\<rparr>)"
proof -
  note k = namehandle_keeps [OF node_invD(1) [OF inv] r]
  have "contexts hs = contexts (n_handles n)" using k(2) by (simp add: contexts_def)
  from node_inv_handles [OF inv k(1) this] show ?thesis by (rule stays_same) simp
qed

lemma handle_retire_stays: "node_inv refs held n \<Longrightarrow> handle_retire h n = Some (b, n') \<Longrightarrow> stays refs held n n'"
  using handle_retire_inv [of refs held n h] by (auto intro: stays_same)

lemma exit_notify_stays:
  assumes inv: "node_inv refs held n" and c: "0 < refs c" and r: "exit_notify c h n = Some n'"
  shows "stays refs held n n'"
proof -
  obtain n2 b where n2: "n2 = n \<or> (\<exists>s. skynet_send (Some c) h (n_monitor_exit n) PTYPE_CLIENT 0 PNull 0 n = Some (s, n2))"
    and n3: "handle_retire h n2 = Some (b, n')"
    using r unfolding exit_notify_def by (auto split: if_splits)
  have l2: "light held n n2"
    using n2 light_refl [OF node_invD(7) [OF inv]] send_light [OF inv, of "Some c"] alive [OF inv c] by auto
  from handle_retire_stays [OF light_inv [OF inv l2] n3] show ?thesis by (rule stays_light_then [OF l2])
qed

lemma handle_exit_stays:
  assumes inv: "node_inv refs held n" and c: "0 < refs c" and r: "handle_exit c h n = Some n'"
  shows "stays refs held n n'"
proof -
  from r obtain t n1 h1 where "skynet_error (Some c) t n = Some n1" "exit_notify c h1 n1 = Some n'"
    by (auto simp: handle_exit_def split: if_splits)
  then show ?thesis
    using error_keeps [OF inv alive [OF inv c]] exit_notify_stays [OF light_inv [OF inv]] c
    by (blast intro: stays_light_then)
qed

lemma timeout_light:
  assumes inv: "node_inv refs held n" and r: "skynet_timeout h ti sess n = Some (s, n')"
  shows "light held n n'"
  using r push_light [OF inv, of h "timer_message sess"] light_refl [OF node_invD(7) [OF inv]]
  by (auto simp: skynet_timeout_def split: if_splits)

text \<open>A command that holds a reference to another context meanwhile.\<close>

lemma with_context_stays:
  assumes inv: "node_inv refs held n" and r: "with_context h act n = Some (a, n')"
    and act: "\<And>refs1 t n1 n2. node_inv refs1 held n1 \<Longrightarrow> 0 < refs1 t \<Longrightarrow> (\<forall>d. refs d \<le> refs1 d) \<Longrightarrow>
       act t n1 = Some n2 \<Longrightarrow> light held n1 n2"
  shows "stays refs held n n'"
proof -
  from handle_grab_inv [OF inv, of h] obtain g n1 where g: "handle_grab h n = Some (g, n1)" by blast
  note gc = handle_grab_cases [OF inv g]
  show ?thesis
  proof (cases g)
    case None
    then show ?thesis using r g gc(3) stays_refl [OF inv] by (auto simp: with_context_def split: if_splits)
  next
    case (Some t)
    let ?refs = "refs(t := refs t + 1)"
    have i1: "node_inv ?refs held n1" by (rule gc(4) [OF Some])
    consider "n' = n" | n2 b where "act t n1 = Some n2" "skynet_context_release t n2 = Some (b, n')"
      using r g Some by (auto simp: with_context_def split: if_splits)
    then show ?thesis
    proof cases
      case 1
      then show ?thesis using stays_refl [OF inv] by simp
    next
      case 2
      have l: "light held n1 n2" by (rule act [OF i1 _ _ 2(1)]) simp_all
      have rem: "n_remote n2 = n_remote n" using l gc(1) by (simp add: light_def kept_def)
      from release_inv [OF light_inv [OF i1 l], of t] node_invD(6) [OF inv, of t] rem 2(2)
      have "kept n2 n'" "node_inv (?refs(t := ?refs t - 1)) held n'" by auto
      moreover have "?refs(t := ?refs t - 1) = refs" by auto
      ultimately show ?thesis using stays_same rem by (metis kept_def)
    qed
  qed
qed

lemma log_open_light:
  assumes inv: "node_inv refs held n" and c: "c \<in> dom (n_ctxs n)" and r: "skynet_log_open w c h n = Some (f, n')"
  shows "light held n n'"
  using r light_refl [OF node_invD(7) [OF inv]] error_keeps [OF inv c]
  by (auto simp: skynet_log_open_def Let_def split: option.splits)

lemma log_close_light:
  assumes inv: "node_inv refs held n" and c: "c \<in> dom (n_ctxs n)" and r: "skynet_log_close c f h n = Some n'"
  shows "light held n n'"
  using r error_keeps [OF inv c] by (auto simp: skynet_log_close_def Let_def)

section \<open>Requests, given a runner\<close>

lemma query_grows:
  assumes "skynet_module_query dlo dls nm ms = Some (r, ms')"
  shows "length (m_m ms) \<le> length (m_m ms')" "r = Some i \<Longrightarrow> i < length (m_m ms')"
proof -
  have "length (m_m ms) \<le> length (m_m ms') \<and> (r = Some i \<longrightarrow> i < length (m_m ms'))"
    using assms query_Some [of nm ms]
    by (cases "try_open dlo ms nm"; cases "length (m_m ms) < MAX_MODULE_TYPE"; cases "query nm ms")
       (auto simp: skynet_module_query_def Let_def split: if_splits opened.splits option.splits)
  then show "length (m_m ms) \<le> length (m_m ms')" "r = Some i \<Longrightarrow> i < length (m_m ms')" by blast+
qed

lemma node_inv_modules:
  assumes inv: "node_inv refs held n" and l: "length (m_m (n_modules n)) \<le> length (m_m ms)"
  shows "node_inv refs held (n\<lparr>n_modules := ms\<rparr>)"
proof -
  note d = node_invD [OF inv]
  have "ctx_ok refs (n\<lparr>n_modules := ms\<rparr>) e z" if e: "n_ctxs n e = Some z" for e z
    using d(3) [OF e] l by (auto simp: ctx_ok_def)
  then show ?thesis
    using d(1,2,4,7) node_invD(5,6) [OF inv] unfolding node_inv_def by (auto simp: queues_apart_def)
qed

text \<open>The end of a launch gives back the reference of the creator, and the queue.\<close>

lemma launch_done_inv:
  assumes inv: "node_inv refs held n" and c: "0 < refs c" "n_remote n = Some c \<longrightarrow> 1 < refs c" and q: "q \<in> held"
    and r: "launch_done nm param c q n = Some (a, n')"
  shows "node_inv (refs(c := refs c - 1)) (held - {q}) n' \<and> n_remote n' = n_remote n"
proof -
  let ?refs = "refs(c := refs c - 1)"
  from release_inv [OF inv c] obtain b n1 where
    n1: "skynet_context_release c n = Some (b, n1)" "kept n n1" "b \<longleftrightarrow> c \<in> dom (n_ctxs n1)" "node_inv ?refs held n1" by blast
  define n2 where "n2 = (if b then put_ctx c ((the (n_ctxs n1 c))\<lparr>cx_init := True\<rparr>) n1 else n1)"
  have i2: "node_inv ?refs held n2" "n_remote n2 = n_remote n" "b \<longrightarrow> c \<in> dom (n_ctxs n2)"
  proof -
    show "node_inv ?refs held n2"
      using n1(3,4) node_inv_put_same [OF n1(4), of c] by (auto simp: n2_def)
  qed (use n1(2) in \<open>auto simp: n2_def kept_def\<close>)
  from queues_globalpush [OF node_invD(7) [OF i2(1)] q] obtain m where
    m: "skynet_globalmq_push q (n_mq n2) = Some m" "queues_ok (held - {q}) m" "qview m = qview (n_mq n2)" by blast
  have i3: "node_inv ?refs (held - {q}) (n2\<lparr>n_mq := m\<rparr>)"
    by (rule node_inv_mq [OF i2(1) queues_grow_kept [OF queues_grow_view [OF m(3)]] m(2)])
  have step: "launch_done nm param c q n = do {
       n \<leftarrow> (if b then skynet_error (Some c) (lit ''LAUNCH '' @ nm @ lit '' ''
              @ (case param of Some p \<Rightarrow> p | None \<Rightarrow> [])) (n2\<lparr>n_mq := m\<rparr>) else Some (n2\<lparr>n_mq := m\<rparr>));
       Some (if b then Some c else None, n) }"
    using n1(1,3) m(1) by (cases b) (auto simp: launch_done_def n2_def get_ctx_def)
  show ?thesis
  proof (cases b)
    case True
    with r step obtain t where "skynet_error (Some c) t (n2\<lparr>n_mq := m\<rparr>) = Some n'" by auto
    from error_keeps [OF i3 _ this] i2(3) True have "light (held - {q}) (n2\<lparr>n_mq := m\<rparr>) n'" by auto
    with light_inv [OF i3 this] i2(2) show ?thesis by (auto simp: light_def kept_def)
  next
    case False
    then show ?thesis using r step i3 i2(2) by auto
  qed
qed

lemma launch_failed_inv:
  assumes inv: "node_inv refs held n" and c: "0 < refs c" "n_remote n = Some c \<longrightarrow> 1 < refs c" and q: "q \<in> held"
    and r: "launch_failed nm c q n = Some (a, n')"
  shows "node_inv (refs(c := refs c - 1)) (held - {q}) n' \<and> n_remote n' = n_remote n"
proof -
  from r obtain n1 h b n2 b' n3 where
    n: "skynet_error (Some c) (lit ''FAILED launch '' @ nm) n = Some n1"
      "skynet_context_release c n1 = Some (b, n2)" "handle_retire h n2 = Some (b', n3)"
      "mq_release_dropping h q n3 = Some n'"
    by (auto simp: launch_failed_def)
  have l1: "light held n n1" by (rule error_keeps [OF inv alive [OF inv c(1)] n(1)])
  have rem1: "n_remote n1 = n_remote n" using l1 by (simp add: light_def kept_def)
  from release_inv [OF light_inv [OF inv l1] c(1)] c(2) rem1 n(2) have
    i2: "node_inv (refs(c := refs c - 1)) held n2" "kept n1 n2" by auto
  from handle_retire_inv [OF i2(1), of h] n(3) have
    i3: "node_inv (refs(c := refs c - 1)) held n3" "n_remote n3 = n_remote n2" by auto
  from mq_release_inv [OF i3(1) q n(4)] rem1 i2(2) i3(2) show ?thesis by (simp add: kept_def)
qed

locale service_runner =
  fixes run :: runner
  assumes run_stays: "node_inv refs held n \<Longrightarrow> 0 < refs c \<Longrightarrow> run c p n = Some (r, n') \<Longrightarrow> stays refs held n n'"
begin

lemma context_new_stays:
  assumes inv: "node_inv refs held n" and r: "skynet_context_new w run nm param n = Some (a, n')"
  shows "stays refs held n n'"
proof -
  from r obtain md ms where q: "skynet_module_query (w_dlopen w) (w_dlsym w) nm (n_modules n) = Some (md, ms)"
    by (auto simp: skynet_context_new_def)
  let ?n = "n\<lparr>n_modules := ms\<rparr>"
  note qg = query_grows [OF q]
  have i0: "node_inv refs held ?n" by (rule node_inv_modules [OF inv qg(1)])
  consider "n' = ?n" | i inst c qu n1 s n2 p where "md = Some i" "context_setup i inst ?n = Some (c, qu, n1)"
      "run c p n1 = Some (s, n2)" "launch_done nm param c qu n2 = Some (a, n') \<or> launch_failed nm c qu n2 = Some (a, n')"
    using r q by (auto simp: skynet_context_new_def Let_def split: option.splits if_splits)
  then show ?thesis
  proof cases
    case 1
    then show ?thesis using stays_same [OF i0, of n] by simp
  next
    case 2
    have "i < length (m_m (n_modules ?n))" using qg(2) [OF 2(1)] by simp
    note su = context_setup_inv [OF i0 this 2(2)]
    have fr: "refs c = 0" "n_remote n \<noteq> Some c" using fresh_ctx [OF inv] su(2) node_invD(6) [OF inv, of c] by auto
    from run_stays [OF su(1) _ 2(3)] obtain refs' where
      g: "grows (refs(c := 1)) n1 refs' n2" "node_inv refs' (insert qu held) n2" by (auto simp: stays_def)
    have ge: "(refs(c := 1)) d \<le> refs' d"
      and rm: "n_remote n2 = Some d \<Longrightarrow> n_remote n = Some d \<or> (refs(c := 1)) d < refs' d" for d
      using g(1) su(4) by (simp_all add: grows_def)
    have c: "0 < refs' c" "n_remote n2 = Some c \<longrightarrow> 1 < refs' c" using ge [of c] rm [of c] fr(2) by auto
    have h: "insert qu held - {qu} = held" using su(3) by blast
    have "node_inv (refs'(c := refs' c - 1)) held n' \<and> n_remote n' = n_remote n2"
      using 2(4) launch_done_inv [OF g(2) c] launch_failed_inv [OF g(2) c] h by (metis insertI1)
    moreover have "grows refs n (refs'(c := refs' c - 1)) n2"
      unfolding grows_def
    proof (intro conjI allI impI)
      fix d
      show "refs d \<le> (refs'(c := refs' c - 1)) d" using ge [of d] fr(1) by (cases "d = c") auto
      show "n_remote n = Some d \<or> refs d < (refs'(c := refs' c - 1)) d" if "n_remote n2 = Some d"
        using rm [OF that] fr c(2) that by (cases "d = c") auto
    next
      assume "n_remote n2 = None"
      then have "n_remote n1 = None" "refs' = refs(c := 1)" using g(1) by (simp_all add: grows_def)
      then show "n_remote n = None" "refs'(c := refs' c - 1) = refs" using su(4) fr(1) by auto
    qed
    ultimately show ?thesis
      unfolding stays_def grows_def by (intro exI [of _ "refs'(c := refs' c - 1)"]) simp
  qed
qed

lemma cmd_launch_stays:
  assumes inv: "node_inv refs held n" and r: "cmd_launch w run c param n = Some (a, n')"
  shows "stays refs held n n'"
proof -
  from r obtain p where p: "param = Some p" by (auto simp: cmd_launch_def)
  obtain nm args where st: "strsep_any {32, 9, 13, 10} p = (nm, args)" by fastforce
  let ?args = "map_option (\<lambda>a. fst (strsep_any {13, 10} a)) args"
  obtain i n1 where n1: "skynet_context_new w run nm ?args n = Some (i, n1)"
    using r p st by (auto simp: cmd_launch_def)
  have n': "n' = n1 \<or> (\<exists>h. answer c (id_to_hex h) n1 = Some (a, n'))"
    using r p st n1 by (cases i) (auto simp: cmd_launch_def)
  show ?thesis
    using context_new_stays [OF inv n1]
  proof (rule stays_trans)
    fix refs1 assume "node_inv refs1 held n1"
    then show "stays refs1 held n1 n'" using n' stays_refl answer_light stays_light by blast
  qed
qed

end

text \<open>The other commands run no code.\<close>

lemma simple_commands_stay:
  assumes inv: "node_inv refs held n" and c: "0 < refs c"
  shows "cmd_timeout c param n = Some (a, n') \<Longrightarrow> stays refs held n n'"
    "cmd_reg c param n = Some (a, n') \<Longrightarrow> stays refs held n n'"
    "cmd_query c param n = Some (a, n') \<Longrightarrow> stays refs held n n'"
    "cmd_name c param n = Some (a, n') \<Longrightarrow> stays refs held n n'"
    "cmd_exit c param n = Some (a, n') \<Longrightarrow> stays refs held n n'"
    "cmd_kill c param n = Some (a, n') \<Longrightarrow> stays refs held n n'"
    "cmd_getenv c param n = Some (a, n') \<Longrightarrow> stays refs held n n'"
    "cmd_setenv c param n = Some (a, n') \<Longrightarrow> stays refs held n n'"
    "cmd_starttime c param n = Some (a, n') \<Longrightarrow> stays refs held n n'"
    "cmd_endless c param n = Some (a, n') \<Longrightarrow> stays refs held n n'"
    "cmd_abort c param n = Some (a, n') \<Longrightarrow> stays refs held n n'"
    "cmd_monitor c param n = Some (a, n') \<Longrightarrow> stays refs held n n'"
    "cmd_mqlen c param n = Some (a, n') \<Longrightarrow> stays refs held n n'"
proof -
  note al = alive [OF inv c] and rf = stays_refl [OF inv]
  have err: "stays refs held n n1" if "skynet_error (Some c) t n = Some n1" for t n1
    by (rule stays_light [OF inv error_keeps [OF inv al that]])
  have ans: "stays refs held n n1" if "answer c t n = Some (b, n1)" for t b n1
    by (rule stays_light [OF inv answer_light [OF inv that]])
  show "stays refs held n n'" if r: "cmd_timeout c param n = Some (a, n')"
  proof -
    from r obtain s n1 h ti z n2 where n1: "skynet_context_newsession c n = Some (s, n1)"
      "skynet_timeout h ti s n1 = Some (z, n2)" "answer c (dec s) n2 = Some (a, n')"
      by (auto simp: cmd_timeout_def Let_def)
    have l1: "light held n n1" using newsession_light [OF inv al] n1(1) by auto
    note i1 = light_inv [OF inv l1]
    have l2: "light held n1 n2" by (rule timeout_light [OF i1 n1(2)])
    from answer_light [OF light_inv [OF i1 l2] n1(3)] show ?thesis
      by (intro stays_light [OF inv] light_trans [OF l1] light_trans [OF l2])
  qed
  show "stays refs held n n'" if r: "cmd_reg c param n = Some (a, n')"
  proof (cases param)
    case None
    then show ?thesis using r ans by (auto simp: cmd_reg_def)
  next
    case (Some p)
    then show ?thesis using r err ans names_stays [OF inv]
      by (cases "p = []"; cases "hd p = ch CHR ''.''") (auto simp: cmd_reg_def)
  qed
  show "stays refs held n n'" if r: "cmd_query c param n = Some (a, n')"
    using r ans rf by (auto simp: cmd_query_def split: if_splits)
  show "stays refs held n n'" if r: "cmd_name c param n = Some (a, n')"
    using r err rf names_stays [OF inv] by (auto simp: cmd_name_def Let_def split: if_splits)
  show "stays refs held n n'" if r: "cmd_exit c param n = Some (a, n')"
    using r handle_exit_stays [OF inv c] by (auto simp: cmd_exit_def)
  show "stays refs held n n'" if r: "cmd_kill c param n = Some (a, n')"
  proof -
    from r obtain p h n1 where n1: "tohandle c p n = Some (h, n1)" "n' = n1 \<or> handle_exit c h n1 = Some n'"
      by (auto simp: cmd_kill_def split: if_splits)
    have l1: "light held n n1" by (rule tohandle_light [OF inv al n1(1)])
    note i1 = light_inv [OF inv l1]
    have "stays refs held n1 n'" using n1(2) stays_refl [OF i1] handle_exit_stays [OF i1 c] by blast
    then show ?thesis by (rule stays_light_then [OF l1])
  qed
  show "stays refs held n n'" if r: "cmd_getenv c param n = Some (a, n')"
    using r rf by (auto simp: cmd_getenv_def)
  show "stays refs held n n'" if r: "cmd_setenv c param n = Some (a, n')"
    using r rf stays_same [of refs held _ n] inv
    by (auto simp: cmd_setenv_def Let_def skynet_setenv_def assert_opt_def split: if_splits)
  show "stays refs held n n'" if r: "cmd_starttime c param n = Some (a, n')"
    using r ans by (auto simp: cmd_starttime_def)
  show "stays refs held n n'" if r: "cmd_endless c param n = Some (a, n')"
  proof -
    from r obtain x where x: "n_ctxs n c = Some x"
      "n' = n \<or> answer c (lit ''1'') (put_ctx c (x\<lparr>cx_endless := False\<rparr>) n) = Some (a, n')"
      by (auto simp: cmd_endless_def get_ctx_def split: if_splits)
    have l: "light held n (put_ctx c (x\<lparr>cx_endless := False\<rparr>) n)"
      by (rule light_put [OF node_invD(7) [OF inv] x(1)]) (simp add: same_ctx_def)
    show ?thesis
      using x(2) rf answer_light [OF light_inv [OF inv l]] stays_light [OF inv] light_trans [OF l] by blast
  qed
  show "stays refs held n n'" if r: "cmd_abort c param n = Some (a, n')"
    using r retireall_inv [OF inv] by (auto simp: cmd_abort_def intro: stays_same)
  show "stays refs held n n'" if r: "cmd_monitor c param n = Some (a, n')"
  proof -
    have th: "stays refs held n (n1\<lparr>n_monitor_exit := h\<rparr>)" if "tohandle c p n = Some (h, n1)" for p h n1
      using tohandle_light [OF inv al that] stays_light [OF inv, of "n1\<lparr>n_monitor_exit := h\<rparr>"] by simp
    show ?thesis using r ans rf th by (auto simp: cmd_monitor_def split: option.splits if_splits)
  qed
  show "stays refs held n n'" if r: "cmd_mqlen c param n = Some (a, n')"
    using r ans by (auto simp: cmd_mqlen_def)
qed

lemma context_commands_stay:
  assumes inv: "node_inv refs held n" and c: "0 < refs c"
  shows "cmd_logon w c param n = Some (a, n') \<Longrightarrow> stays refs held n n'"
    "cmd_logoff c param n = Some (a, n') \<Longrightarrow> stays refs held n n'"
    "cmd_signal c param n = Some (a, n') \<Longrightarrow> stays refs held n n'"
proof -
  note al = alive [OF inv c]
  have th: "stays refs held n n2"
    if "tohandle c p n = Some (h, n1)" "with_context h act n1 = Some (b, n2)"
      "\<And>refs1 t n1 n2. node_inv refs1 held n1 \<Longrightarrow> 0 < refs1 t \<Longrightarrow> (\<forall>d. refs d \<le> refs1 d) \<Longrightarrow>
         act t n1 = Some n2 \<Longrightarrow> light held n1 n2" for p h act b n1 n2
  proof -
    have l: "light held n n1" by (rule tohandle_light [OF inv al that(1)])
    show ?thesis by (rule stays_light_then [OF l with_context_stays [OF light_inv [OF inv l] that(2,3)]])
  qed
  have cal: "c \<in> dom (n_ctxs n1)" if "node_inv refs1 held n1" "\<forall>d. refs d \<le> refs1 d" for refs1 n1
    using alive [OF that(1)] that(2) c by (meson order.strict_trans2)
  have put: "light held n1 (put_ctx t y n1)"
    if "node_inv refs1 held n1" "n_ctxs n1 t = Some x" "same_ctx x y" for refs1 n1 t x y
    by (rule light_put [OF node_invD(7) [OF that(1)] that(2,3)])
  show "stays refs held n n'" if r: "cmd_logon w c param n = Some (a, n')"
  proof -
    let ?act = "\<lambda>h t n. do {
       x \<leftarrow> get_ctx t n;
       if cx_logfile x = None then do {
         (f, n) \<leftarrow> skynet_log_open w c h n;
         case f of
           None \<Rightarrow> Some n
         | Some f \<Rightarrow> do {
             x \<leftarrow> get_ctx t n;
             Some (if cx_logfile x = None then put_ctx t (x\<lparr>cx_logfile := Some f\<rparr>) n else emit (Closed f) n)
           }
       } else Some n }"
    from r obtain p h n1 where n1: "tohandle c p n = Some (h, n1)" "with_context h (?act h) n1 = Some (a, n')"
      by (auto simp: cmd_logon_def)
    show ?thesis
    proof (rule th [OF n1])
      fix refs1 t m m' assume i: "node_inv refs1 held m" "\<forall>d. refs d \<le> refs1 d" and act: "?act h t m = Some m'"
      from act obtain x where x: "n_ctxs m t = Some x" by (auto simp: get_ctx_def)
      show "light held m m'"
      proof (cases "cx_logfile x = None")
        case False
        then show ?thesis using act x light_refl [OF node_invD(7) [OF i(1)]] by (auto simp: get_ctx_def)
      next
        case True
        with act x obtain f m1 where f: "skynet_log_open w c h m = Some (f, m1)" by (auto simp: get_ctx_def)
        have l: "light held m m1" by (rule log_open_light [OF i(1) cal [OF i] f])
        note i1 = light_inv [OF i(1) l]
        have rest: "(case f of None \<Rightarrow> Some m1 | Some f \<Rightarrow> do {
             x \<leftarrow> get_ctx t m1;
             Some (if cx_logfile x = None then put_ctx t (x\<lparr>cx_logfile := Some f\<rparr>) m1 else emit (Closed f) m1)
           }) = Some m'"
          using act x True f by (simp add: get_ctx_def)
        have "light held m1 m'"
          using rest light_refl [OF node_invD(7) [OF i1]] put [OF i1, of t]
          by (cases f) (auto simp: same_ctx_def get_ctx_def split: if_splits)
        then show ?thesis by (rule light_trans [OF l])
      qed
    qed
  qed
  show "stays refs held n n'" if r: "cmd_logoff c param n = Some (a, n')"
  proof -
    let ?act = "\<lambda>h t n. do {
       x \<leftarrow> get_ctx t n;
       case cx_logfile x of
         Some f \<Rightarrow> skynet_log_close c f h (put_ctx t (x\<lparr>cx_logfile := None\<rparr>) n)
       | None \<Rightarrow> Some n }"
    from r obtain p h n1 where n1: "tohandle c p n = Some (h, n1)" "with_context h (?act h) n1 = Some (a, n')"
      by (auto simp: cmd_logoff_def)
    show ?thesis
    proof (rule th [OF n1])
      fix refs1 t m m' assume i: "node_inv refs1 held m" "\<forall>d. refs d \<le> refs1 d" and act: "?act h t m = Some m'"
      from act obtain x where x: "n_ctxs m t = Some x" by (auto simp: get_ctx_def)
      have l: "light held m (put_ctx t (x\<lparr>cx_logfile := None\<rparr>) m)"
        by (rule put [OF i(1) x]) (simp add: same_ctx_def)
      note i1 = light_inv [OF i(1) l]
      show "light held m m'"
        using act x light_refl [OF node_invD(7) [OF i(1)]] log_close_light [OF i1 cal [OF i1 i(2)]] light_trans [OF l]
        by (auto simp: get_ctx_def split: option.splits)
    qed
  qed
  show "stays refs held n n'" if r: "cmd_signal c param n = Some (a, n')"
  proof -
    from r obtain p h n1 sig where n1: "tohandle c p n = Some (h, n1)"
      "with_context h (\<lambda>t n. do { x \<leftarrow> get_ctx t n; skynet_module_instance_signal (cx_mod x) (cx_instance x) sig n }) n1
         = Some (a, n')"
      by (auto simp: cmd_signal_def Let_def)
    show ?thesis
    proof (rule th [OF n1])
      fix refs1 t m m' assume i: "node_inv refs1 held m"
        and act: "do { x \<leftarrow> get_ctx t m; skynet_module_instance_signal (cx_mod x) (cx_instance x) sig m } = Some m'"
      from act obtain x where x: "n_ctxs m t = Some x"
        "skynet_module_instance_signal (cx_mod x) (cx_instance x) sig m = Some m'" by (auto simp: get_ctx_def)
      have "cx_mod x < length (m_m (n_modules m))" using node_invD(3) [OF i x(1)] by (simp add: ctx_ok_def)
      from instance_signal_trace [OF this, of "cx_instance x" sig] x(2) light_refl [OF node_invD(7) [OF i]]
      show "light held m m'" by auto
    qed
  qed
qed

section \<open>The runner of the node\<close>

lemma callback_light:
  assumes inv: "node_inv refs held n" and r: "skynet_callback c f ud n = Some n'"
  shows "light held n n'"
proof -
  from r obtain x where x: "n_ctxs n c = Some x" "n' = put_ctx c (x\<lparr>cx_cb := Some f, cx_cb_ud := ud\<rparr>) n"
    by (auto simp: skynet_callback_def get_ctx_def)
  show ?thesis unfolding x(2) by (rule light_put [OF node_invD(7) [OF inv] x(1)]) (simp add: same_ctx_def)
qed

lemma node_inv_remote:
  assumes inv: "node_inv refs held n" and c: "0 < refs c"
  shows "node_inv refs held (n\<lparr>n_remote := Some c\<rparr>)"
proof -
  note d = node_invD [OF inv]
  have "ctx_ok refs (n\<lparr>n_remote := Some c\<rparr>) e z" if e: "n_ctxs n e = Some z" for e z
    using d(3) [OF e] by (simp add: ctx_ok_def)
  then show ?thesis
    using d(1,2,4,7) c node_invD(5) [OF inv] unfolding node_inv_def by (auto simp: queues_apart_def)
qed

lemma harbor_start_stays:
  assumes inv: "node_inv refs held n" and r: "skynet_harbor_start c n = Some n'"
  shows "stays refs held n n'"
proof -
  from r obtain x where x: "n_ctxs n c = Some x"
    by (auto simp: skynet_harbor_start_def skynet_context_reserve_def skynet_context_grab_def get_ctx_def)
  note g = grab_inv [OF inv x]
  let ?n = "put_ctx c (x\<lparr>cx_ref := cx_ref x + 1\<rparr>) n"
  have n': "n' = (context_dec ?n)\<lparr>n_remote := Some c\<rparr>"
    using r g(1) by (simp add: skynet_harbor_start_def skynet_context_reserve_def)
  have "node_inv (refs(c := refs c + 1)) held n'"
    unfolding n' by (rule node_inv_remote) (use g(2) in simp_all)
  moreover have "grows refs n (refs(c := refs c + 1)) n'" by (simp add: grows_def n')
  ultimately show ?thesis by (auto simp: stays_def)
qed

context service_runner
begin

lemma command_stays:
  assumes "node_inv refs held n" "0 < refs c" "skynet_command w run c cmd param n = Some (a, n')"
  shows "stays refs held n n'"
proof (cases "map_of (cmd_funcs w run) cmd")
  case None
  then show ?thesis using assms stays_refl by (simp add: skynet_command_def)
next
  case (Some f)
  then have "(cmd, f) \<in> set (cmd_funcs w run)" by (rule map_of_SomeD)
  then have "f \<in> {cmd_timeout, cmd_reg, cmd_query, cmd_name, cmd_exit, cmd_kill, cmd_launch w run, cmd_getenv, cmd_setenv,
      cmd_starttime, cmd_endless, cmd_abort, cmd_monitor, cmd_mqlen, cmd_logon w, cmd_logoff, cmd_signal}"
    unfolding cmd_funcs_def by auto
  moreover have "f c param n = Some (a, n')" using assms(3) Some by (simp add: skynet_command_def)
  ultimately show ?thesis
    by (elim insertE emptyE) (simp; frule simple_commands_stay [OF assms(1,2)] context_commands_stay [OF assms(1,2)]
          cmd_launch_stays [OF assms(1)], assumption)+
qed

lemma exec_stays:
  "node_inv refs held n \<Longrightarrow> 0 < refs c \<Longrightarrow> exec w run c p n = Some (r, n') \<Longrightarrow> stays refs held n n'"
proof (induction p arbitrary: refs n)
  case (Return s)
  then show ?case using stays_refl by simp
next
  case (Do_send src dest type sess d len k)
  then obtain s n1 where n1: "skynet_send (Some c) src dest type sess d len n = Some (s, n1)"
    "exec w run c (k s) n1 = Some (r, n')" by auto
  have l: "light held n n1"
    using send_light [OF Do_send.prems(1) _ n1(1)] alive [OF Do_send.prems(1,2)] by auto
  from Do_send.IH [OF _ light_inv [OF Do_send.prems(1) l] Do_send.prems(2) n1(2)] show ?case
    by (intro stays_light_then [OF l]) simp
next
  case (Do_sendname src addr type sess d len k)
  then obtain s n1 where n1: "skynet_sendname (Some c) src addr type sess d len n = Some (s, n1)"
    "exec w run c (k s) n1 = Some (r, n')" by auto
  have l: "light held n n1"
    using sendname_light [OF Do_sendname.prems(1) _ n1(1)] alive [OF Do_sendname.prems(1,2)] by auto
  from Do_sendname.IH [OF _ light_inv [OF Do_sendname.prems(1) l] Do_sendname.prems(2) n1(2)] show ?case
    by (intro stays_light_then [OF l]) simp
next
  case (Do_command cmd param k)
  then obtain s n1 where n1: "skynet_command w run c cmd param n = Some (s, n1)"
    "exec w run c (k s) n1 = Some (r, n')" by auto
  show ?case
    using command_stays [OF Do_command.prems(1,2) n1(1)]
  proof (rule stays_trans)
    fix refs1 assume a: "grows refs n refs1 n1" "node_inv refs1 held n1"
    show "stays refs1 held n1 n'"
      by (rule Do_command.IH [OF _ a(2) grows_pos [OF a(1) Do_command.prems(2)] n1(2)]) simp
  qed
next
  case (Do_callback f ud k)
  then obtain n1 where n1: "skynet_callback c f ud n = Some n1" "exec w run c k n1 = Some (r, n')" by auto
  have l: "light held n n1" by (rule callback_light [OF Do_callback.prems(1) n1(1)])
  from Do_callback.IH [OF light_inv [OF Do_callback.prems(1) l] Do_callback.prems(2) n1(2)] show ?case
    by (rule stays_light_then [OF l])
next
  case (Do_error t k)
  then obtain n1 where n1: "skynet_error (Some c) t n = Some n1" "exec w run c k n1 = Some (r, n')" by auto
  have l: "light held n n1"
    by (rule error_keeps [OF Do_error.prems(1) alive [OF Do_error.prems(1,2)] n1(1)])
  from Do_error.IH [OF light_inv [OF Do_error.prems(1) l] Do_error.prems(2) n1(2)] show ?case
    by (rule stays_light_then [OF l])
next
  case (Do_harbor_start k)
  then obtain n1 where n1: "skynet_harbor_start c n = Some n1" "exec w run c k n1 = Some (r, n')" by auto
  show ?case
    using harbor_start_stays [OF Do_harbor_start.prems(1) n1(1)]
  proof (rule stays_trans)
    fix refs1 assume "grows refs n refs1 n1" "node_inv refs1 held n1"
    then show "stays refs1 held n1 n'"
      using Do_harbor_start.IH [OF _ _ n1(2)] grows_pos [of refs n refs1 n1 c] Do_harbor_start.prems(2) by blast
  qed
qed

end

lemma run_prog_runner: "service_runner (run_prog w k)"
proof (induction k)
  case 0
  show ?case by unfold_locales simp
next
  case (Suc k)
  show ?case
    by unfold_locales (auto simp: service_runner.exec_stays [OF Suc.IH])
qed

interpretation node_runner: service_runner "run_prog w k" for w k
  by (rule run_prog_runner)

end
