(* ===== verification/Node.thy ===== *)
theory Node
  imports Runner
begin

unbundle bit_operations_syntax

text \<open>
  The worker, timer, socket and monitor threads of the node against the invariant of the theory
  \<open>Contexts\<close>, and the properties of the core of the node.
\<close>

section \<open>Dispatching\<close>

lemma log_output_light:
  assumes inv: "node_inv refs held n" and r: "skynet_log_output f src type sess d len n = Some n'"
  shows "light held n n'"
  using r light_refl [OF node_invD(7) [OF inv]]
  by (auto simp: skynet_log_output_def split: if_splits payload.splits)

lemma overload_view:
  assumes "get_q q m = Some rq" "skynet_mq_overload rq = (k, rq')"
  shows "qview (put_q q rq' m) = qview m"
  using assms by (auto simp: qview_def get_q_def skynet_mq_overload_def view_of_def ring_list_def skynet_mq_length_def
      fun_eq_iff split: if_splits)

lemma queues_ok_overload:
  assumes ok: "queues_ok held m" and q: "get_q q m = Some rq" "skynet_mq_overload rq = (k, rq')"
  shows "queues_ok held (put_q q rq' m)"
proof -
  from ok obtain rs where rep: "queues_rep held rs m" by (auto simp: queues_ok_def)
  then have i: "mq_inv m rs" by (simp add: queues_rep_def)
  have h: "qheap m q = Some rq" using q(1) by (simp add: get_q_def)
  have s: "mq_next rq' = mq_next rq" "ring_inv rq' = ring_inv rq" "mq_in_global rq' = mq_in_global rq" "mq_release rq' = mq_release rq"
    using q(2) by (auto simp: skynet_mq_overload_def ring_inv_def skynet_mq_length_def split: if_splits)
  have "mq_inv (put_q q rq' m) rs"
    by (rule mq_put_inv [OF i h s(1)]) (use s i h in \<open>auto simp: mq_inv_def heap_ok_def\<close>)
  then have "queues_rep held rs (put_q q rq' m)"
    using rep unfolding queues_rep_def overload_view [OF q] by blast
  then show ?thesis by (auto simp: queues_ok_def)
qed

lemma report_overload_light:
  assumes inv: "node_inv refs held n" and c: "c \<in> dom (n_ctxs n)" and r: "report_overload c q n = Some n'"
  shows "light held n n'"
proof -
  from r obtain rq where q: "get_q q (n_mq n) = Some rq" by (auto simp: report_overload_def)
  obtain k rq' where o: "skynet_mq_overload rq = (k, rq')" by fastforce
  let ?n = "n\<lparr>n_mq := put_q q rq' (n_mq n)\<rparr>"
  have l: "light held n ?n"
    using queues_ok_overload [OF node_invD(7) [OF inv] q o] queues_grow_view [OF overload_view [OF q o]]
    by (simp add: light_def kept_def option.rel_refl)
  have "n' = ?n \<or> (\<exists>t. skynet_error (Some c) t ?n = Some n')"
    using r q o by (auto simp: report_overload_def Let_def split: if_splits)
  then show ?thesis
    using l error_keeps [OF light_inv [OF inv l], of c] c light_trans [OF l] by auto
qed

context service_runner
begin

lemma dispatch_message_stays:
  assumes inv: "node_inv refs held n" and c: "0 < refs c" and r: "dispatch_message w run c msg n = Some n'"
  shows "stays refs held n n'"
proof -
  from r obtain x where x: "n_ctxs n c = Some x" by (auto simp: dispatch_message_def get_ctx_def)
  let ?n = "n\<lparr>n_current := cx_handle x\<rparr>"
  have i0: "node_inv refs held ?n" using inv by simp
  define lg where "lg = (case cx_logfile x of
      Some f \<Rightarrow> skynet_log_output f (source msg) (uint (drop_bit MESSAGE_TYPE_SHIFT (sz msg))) (session msg) (data msg)
                  (unat (sz msg AND MESSAGE_TYPE_MASK)) ?n
    | None \<Rightarrow> Some ?n)"
  from r x obtain n1 p s n2 where n1: "lg = Some n1" "run c p n1 = Some (s, n2)"
    "n' = n2 \<or> n' = emit (Freed (data msg)) n2"
    by (auto simp: dispatch_message_def get_ctx_def Let_def assert_opt_def lg_def [symmetric] split: if_splits)
  have l: "light held ?n n1"
    using n1(1) log_output_light [OF i0] light_refl [OF node_invD(7) [OF i0]]
    unfolding lg_def by (cases "cx_logfile x") auto
  have "stays refs held n1 n2" by (rule run_stays [OF light_inv [OF i0 l] c n1(2)])
  then have "stays refs held ?n n2" by (rule stays_light_then [OF l])
  then have "stays refs held n n2" by (simp add: stays_def grows_def)
  then show ?thesis using n1(3) by (auto simp: stays_def grows_def)
qed

lemma deliver_one_stays:
  assumes inv: "node_inv refs held n" and c: "0 < refs c" and r: "deliver_one w run c q h msg sm n = Some (sm', n')"
  shows "stays refs held n n'"
proof -
  from r obtain n1 x where n1: "report_overload c q n = Some n1" "n_ctxs n1 c = Some x"
    "n' = emit (Freed (data msg)) n1 \<or> dispatch_message w run c msg n1 = Some n'"
    by (auto simp: deliver_one_def get_ctx_def Let_def split: if_splits)
  have l: "light held n n1" by (rule report_overload_light [OF inv alive [OF inv c] n1(1)])
  note i1 = light_inv [OF inv l]
  have "stays refs held n1 n'"
    using n1(3) dispatch_message_stays [OF i1 c] stays_same [of refs held "emit (Freed (data msg)) n1" n1] i1 by auto
  then show ?thesis by (rule stays_light_then [OF l])
qed

end

lemma dispatch_loop_inv:
  assumes "service_runner run" "node_inv refs held n" "0 < refs c" "q \<in> held"
    "dispatch_loop w run c q h weight i k sm n = Some (e, sm', n')"
  shows "\<exists>refs' held'. grows refs n refs' n' \<and> node_inv refs' held' n' \<and> held - {q} \<subseteq> held' \<and> held' \<subseteq> held
     \<and> (\<not> e \<longrightarrow> q \<in> held')"
  using assms
proof (induction w run c q h weight i k sm n arbitrary: refs rule: dispatch_loop.induct)
  case (1 w run c q h weight i k sm n)
  note inv = "1.prems"(2)
  show ?case
  proof (cases "i < k")
    case False
    then have "n' = n" "\<not> e" using "1.prems"(5) by (simp_all add: dispatch_loop.simps [of w run c q h weight i k])
    then show ?thesis using inv "1.prems"(4) by (auto simp: grows_def)
  next
    case True
    obtain v where v: "qview (n_mq n) q = Some v"
      using node_invD(7) [OF inv] "1.prems"(4) by (auto simp: queues_ok_def queues_rep_def)
    let ?held = "if v_msgs v = [] \<and> \<not> v_release v then held - {q} else held"
    from queues_pop [OF node_invD(7) [OF inv] v "1.prems"(4)] obtain m where
      m: "skynet_mq_pop q (n_mq n) = Some (case v_msgs v of [] \<Rightarrow> None | x # _ \<Rightarrow> Some x, m)" "queues_ok ?held m"
        "qview m = (qview (n_mq n))(q \<mapsto> v\<lparr>v_msgs := tl (v_msgs v), v_global := (v_global v \<and> v_msgs v \<noteq> [])\<rparr>)"
      by blast
    have i1: "node_inv refs ?held (n\<lparr>n_mq := m\<rparr>)"
      by (rule node_inv_mq [OF inv queues_kept_upd [OF m(3) v] m(2)]) simp_all
    show ?thesis
    proof (cases "v_msgs v")
      case Nil
      then have "n' = n\<lparr>n_mq := m\<rparr>" "e"
        using "1.prems"(5) m(1) True by (auto simp: dispatch_loop.simps [of w run c q h weight i k])
      then show ?thesis using i1 by (intro exI [of _ refs] exI [of _ ?held]) (auto simp: grows_def)
    next
      case (Cons x xs)
      then have pop: "skynet_mq_pop q (n_mq n) = Some (Some x, m)" and hd: "?held = held" using m(1) by auto
      from "1.prems"(5) pop True obtain rq where rq: "get_q q m = Some rq"
        by (auto simp: dispatch_loop.simps [of w run c q h weight i k])
      let ?k = "if i = 0 \<and> weight \<ge> 0 then drop_bit (nat weight) (skynet_mq_length rq) else k"
      from "1.prems"(5) pop True rq obtain sm2 n2 where
        d: "deliver_one w run c q h x sm (n\<lparr>n_mq := m\<rparr>) = Some (sm2, n2)"
        and rest: "dispatch_loop w run c q h weight (Suc i) ?k sm2 n2 = Some (e, sm', n')"
        by (subst (asm) dispatch_loop.simps) (auto simp: Let_def)
      from service_runner.deliver_one_stays [OF "1.prems"(1) i1 "1.prems"(3) d] obtain refs2 where
        g: "grows refs (n\<lparr>n_mq := m\<rparr>) refs2 n2" and i2: "node_inv refs2 held n2"
        unfolding hd by (auto simp: stays_def)
      from "1.IH" [OF True pop refl refl rq refl d refl "1.prems"(1) i2 grows_pos [OF g "1.prems"(3)] "1.prems"(4) rest]
      obtain refs3 held3 where "grows refs2 n2 refs3 n'" "node_inv refs3 held3 n'" "held - {q} \<subseteq> held3" "held3 \<subseteq> held"
        "\<not> e \<longrightarrow> q \<in> held3" by blast
      moreover have "grows refs n refs2 n2" using g by (simp add: grows_def)
      ultimately show ?thesis using grows_trans by blast
    qed
  qed
qed

lemma globalmq_pop_inv:
  assumes inv: "node_inv refs held n" and r: "globalmq_pop n = Some (q, n')"
  shows "node_inv refs (set_option q \<union> held) n'" "q = Some x \<Longrightarrow> x \<notin> held" "kept n n'"
proof -
  from r obtain m where m: "skynet_globalmq_pop (n_mq n) = Some (q, m)" "n' = n\<lparr>n_mq := m\<rparr>"
    by (auto simp: globalmq_pop_def)
  from queues_globalpop [OF node_invD(7) [OF inv]] m(1) have
    v: "qview m = qview (n_mq n)" "queues_ok (set_option q \<union> held) m" "q = Some x \<Longrightarrow> x \<notin> held" for x
    by (auto split: option.splits)
  show "node_inv refs (set_option q \<union> held) n'"
    unfolding m(2) by (rule node_inv_mq [OF inv queues_grow_kept [OF queues_grow_view [OF v(1)]] v(2)])
  show "q = Some x \<Longrightarrow> x \<notin> held" by (rule v(3))
  show "kept n n'" using m(2) by (simp add: kept_def)
qed

text \<open>One round of a worker. It ends with the queue it returns in hand, and with no other queue
  than it had before.\<close>

definition round_ok :: "(nat \<Rightarrow> nat) \<Rightarrow> mqref set \<Rightarrow> mqref option \<Rightarrow> skynet_node \<Rightarrow> skynet_node \<Rightarrow> bool" where
  "round_ok refs held res n n' \<longleftrightarrow> (\<exists>refs' held'. grows refs n refs' n' \<and> node_inv refs' held' n' \<and> held \<subseteq> held'
     \<and> (\<forall>r. res = Some r \<longrightarrow> r \<in> held' \<and> r \<notin> held))"

lemma round_after:
  assumes "grows refs n refs1 n1" "node_inv refs1 held1 n1" "held \<subseteq> held1" "globalmq_pop n1 = Some (res, n')"
  shows "round_ok refs held res n n'"
proof -
  note g = globalmq_pop_inv [OF assms(2,4)]
  have "grows refs n refs1 n'" using assms(1) g(3) by (simp add: grows_def kept_def)
  then show ?thesis
    using g(1,2) assms(3) unfolding round_ok_def
    by (intro exI [of _ refs1] exI [of _ "set_option res \<union> held1"]) auto
qed

text \<open>Giving back the reference a worker took for the round.\<close>

lemma release_after:
  assumes g: "grows (refs(c := refs c + 1)) n refs1 n1" and i: "node_inv refs1 held1 n1"
    and r: "skynet_context_release c n1 = Some (b, n2)" and rem: "n_remote n = Some c \<longrightarrow> 0 < refs c"
  shows "\<exists>refs2. grows refs n refs2 n2 \<and> node_inv refs2 held1 n2"
proof -
  have ge: "(refs(c := refs c + 1)) d \<le> refs1 d"
    and rm: "n_remote n1 = Some d \<Longrightarrow> n_remote n = Some d \<or> (refs(c := refs c + 1)) d < refs1 d" for d
    using g by (simp_all add: grows_def)
  have c: "0 < refs1 c" "n_remote n1 = Some c \<longrightarrow> 1 < refs1 c" using ge [of c] rm [of c] rem by auto
  from release_inv [OF i c] r have n2: "kept n1 n2" "node_inv (refs1(c := refs1 c - 1)) held1 n2" by auto
  have "grows refs n (refs1(c := refs1 c - 1)) n2"
    unfolding grows_def
  proof (intro conjI allI impI)
    fix d
    show "refs d \<le> (refs1(c := refs1 c - 1)) d" using ge [of d] by (cases "d = c") auto
    show "n_remote n = Some d \<or> refs d < (refs1(c := refs1 c - 1)) d" if "n_remote n2 = Some d"
      using rm [of d] that n2(1) by (cases "d = c") (auto simp: kept_def)
  next
    assume "n_remote n2 = None"
    then have "n_remote n = None" "refs1 = refs(c := refs c + 1)" using g n2(1) by (simp_all add: grows_def kept_def)
    then show "n_remote n = None" "refs1(c := refs1 c - 1) = refs" by auto
  qed
  with n2(2) show ?thesis by blast
qed

lemma dispatch_queue_inv:
  assumes sr: "service_runner run" and inv: "node_inv refs held n" and q: "q \<in> held"
    and r: "dispatch_queue w run weight sm q n = Some (res, sm', n')"
  shows "round_ok refs (held - {q}) res n n'"
proof -
  from r obtain h where h: "skynet_mq_handle q (n_mq n) = Some h" by (auto simp: dispatch_queue_def)
  from handle_grab_inv [OF inv, of h] obtain g n1 where g: "handle_grab h n = Some (g, n1)" by blast
  note gc = handle_grab_cases [OF inv g]
  show ?thesis
  proof (cases g)
    case None
    with r h g gc(3) obtain n2 where n2: "mq_release_dropping h q n = Some n2" "globalmq_pop n2 = Some (res, n')"
      by (auto simp: dispatch_queue_def)
    from mq_release_inv [OF inv q n2(1)] have "node_inv refs (held - {q}) n2" "grows refs n refs n2"
      by (auto simp: grows_def kept_def)
    then show ?thesis using round_after n2(2) by blast
  next
    case (Some c)
    let ?refs = "refs(c := refs c + 1)"
    have i1: "node_inv ?refs held n1" by (rule gc(4) [OF Some])
    have rem: "n_remote n1 = Some c \<longrightarrow> 0 < refs c" using node_invD(6) [OF inv] gc(1) by (simp add: kept_def)
    have n_n1: "grows refs n1 refs2 n2 \<Longrightarrow> grows refs n refs2 n2" for refs2 n2 using gc(1) by (simp add: grows_def kept_def)
    from r h g Some obtain e sm2 n2 where lp: "dispatch_loop w run c q h weight 0 1 sm n1 = Some (e, sm2, n2)"
      by (auto simp: dispatch_queue_def)
    from dispatch_loop_inv [OF sr i1 _ q lp] obtain refs2 held2 where
      i2: "grows ?refs n1 refs2 n2" "node_inv refs2 held2 n2" "held - {q} \<subseteq> held2" "held2 \<subseteq> held" "\<not> e \<longrightarrow> q \<in> held2" by auto
    show ?thesis
    proof (cases e)
      case True
      with r h g Some lp obtain b n3 where n3: "skynet_context_release c n2 = Some (b, n3)" "globalmq_pop n3 = Some (res, n')"
        by (auto simp: dispatch_queue_def)
      from release_after [OF i2(1,2) n3(1) rem] obtain refs3 where
        "grows refs n1 refs3 n3" "node_inv refs3 held2 n3" by blast
      then show ?thesis using round_after [OF n_n1 _ i2(3) n3(2)] by blast
    next
      case False
      with r h g Some lp obtain nq n3 q4 n4 b where n3: "globalmq_pop n2 = Some (nq, n3)"
        and n4: "(case nq of
                    Some nq \<Rightarrow> do { m \<leftarrow> skynet_globalmq_push q (n_mq n3); Some (nq, n3\<lparr>n_mq := m\<rparr>) }
                  | None \<Rightarrow> Some (q, n3)) = Some (q4, n4)"
        and n5: "skynet_context_release c n4 = Some (b, n')" and res: "res = Some q4"
        by (auto simp: dispatch_queue_def assert_opt_def split: if_splits)
      note gp = globalmq_pop_inv [OF i2(2) n3]
      have qh: "q \<in> held2" using i2(5) False by blast
      obtain held4 where h4: "node_inv refs2 held4 n4" "n_remote n4 = n_remote n2" "held - {q} \<subseteq> held4"
        "q4 \<in> held4" "q4 \<notin> held - {q}"
      proof (cases nq)
        case None
        then show ?thesis using that [of held2] n4 gp(1,3) qh i2(3) by (auto simp: kept_def)
      next
        case (Some x)
        with n4 obtain m where m: "skynet_globalmq_push q (n_mq n3) = Some m" "n4 = n3\<lparr>n_mq := m\<rparr>" "q4 = x" by auto
        have i3: "node_inv refs2 (insert x held2) n3" using gp(1) Some by simp
        from queues_globalpush [OF node_invD(7) [OF i3], of q] qh m(1) have
          m': "queues_ok (insert x held2 - {q}) m" "qview m = qview (n_mq n3)" by auto
        have "node_inv refs2 (insert x held2 - {q}) n4"
          unfolding m(2) by (rule node_inv_mq [OF i3 queues_grow_kept [OF queues_grow_view [OF m'(2)]] m'(1)])
        then show ?thesis
          using that [of "insert x held2 - {q}"] gp(2) [OF Some] gp(3) m(2,3) qh i2(3) by (auto simp: kept_def)
      qed
      have "grows ?refs n1 refs2 n4" using i2(1) h4(2) by (simp add: grows_def)
      from release_after [OF this h4(1) n5 rem] obtain refs5 where "grows refs n1 refs5 n'" "node_inv refs5 held4 n'" by blast
      then show ?thesis using n_n1 h4(3-5) res unfolding round_ok_def by blast
    qed
  qed
qed

lemma message_dispatch_inv:
  assumes sr: "service_runner run" and inv: "node_inv refs held n" and q: "set_option q \<subseteq> held"
    and r: "skynet_context_message_dispatch w run weight sm q n = Some (res, sm', n')"
  shows "round_ok refs (held - set_option q) res n n'"
proof (cases q)
  case (Some x)
  then show ?thesis using dispatch_queue_inv [OF sr inv, of x] q r by (simp add: skynet_context_message_dispatch_def)
next
  case None
  with r obtain p n1 where p: "globalmq_pop n = Some (p, n1)" by (auto simp: skynet_context_message_dispatch_def)
  note g = globalmq_pop_inv [OF inv p]
  show ?thesis
  proof (cases p)
    case None
    then have "res = None" "n' = n1" using r p \<open>q = None\<close> by (auto simp: skynet_context_message_dispatch_def)
    moreover have "grows refs n refs n1" using g(3) by (simp add: grows_def kept_def)
    ultimately show ?thesis
      using g(1) None \<open>q = None\<close> unfolding round_ok_def by (intro exI [of _ refs] exI [of _ held]) auto
  next
    case (Some x)
    have "round_ok refs (insert x held - {x}) res n1 n'"
      by (rule dispatch_queue_inv [OF sr, where q = x]) (use g(1) Some r p \<open>q = None\<close> in \<open>auto simp: skynet_context_message_dispatch_def\<close>)
    then show ?thesis
      using g(2) [OF Some] g(3) \<open>q = None\<close> unfolding round_ok_def grows_def kept_def by auto
  qed
qed

section \<open>The other threads\<close>

lemma push_all_light:
  "node_inv refs held n \<Longrightarrow> \<exists>n'. push_all es n = Some n' \<and> light held n n'"
proof (induction es arbitrary: n)
  case Nil
  then show ?case using light_refl [OF node_invD(7)] by auto
next
  case (Cons e es)
  obtain h msg where e: "e = (h, msg)" by fastforce
  from push_light [OF Cons.prems, of h msg] obtain r n1 where
    n1: "skynet_context_push h msg n = Some (r, n1)" "light held n n1" by blast
  from Cons.IH [OF light_inv [OF Cons.prems n1(2)]] obtain n2 where "push_all es n1 = Some n2" "light held n1 n2" by blast
  then show ?case using n1 e light_trans by auto
qed

lemma error_none_light: "node_inv refs held n \<Longrightarrow> skynet_error None t n = Some n' \<Longrightarrow> light held n n'"
  using error_light [of refs held n None t] by auto

lemma update_time_light:
  assumes inv: "node_inv refs held n" and r: "update_time cp n = Some n'"
  shows "light held n n'"
proof -
  from r obtain b ns t n1 where n1: "(if b then skynet_error None (lit ''time diff error: change from '' @ dec (uint cp)
               @ lit '' to '' @ dec (uint (current_point (n_timer n)))) n else Some n) = Some n1"
    and n2: "push_all (dispatch_list ns) (n1\<lparr>n_timer := t\<rparr>) = Some n'"
    by (auto simp: update_time_def)
  have l1: "light held n (n1\<lparr>n_timer := t\<rparr>)"
    using n1 error_none_light [OF inv] light_refl [OF node_invD(7) [OF inv]] by (auto split: if_splits)
  from push_all_light [OF light_inv [OF inv l1], of "dispatch_list ns"] n2
  have "light held (n1\<lparr>n_timer := t\<rparr>) n'" by auto
  then show ?thesis by (rule light_trans [OF l1])
qed

lemma forward_message_light:
  assumes inv: "node_inv refs held n"
  shows "\<exists>n'. forward_message type padding opq sid ud d n = Some n' \<and> light held n n'"
proof -
  let ?tail = "if padding then (case d of Some t \<Rightarrow> take 128 (upto_nul t) | None \<Rightarrow> []) else []"
  let ?sm = "PSocket type sid ud (if padding then None else d) ?tail"
  let ?msg = "\<lparr>source = 0, session = 0, data = ?sm, sz = with_type (of_nat (SOCKET_MESSAGE_SIZE + length ?tail)) PTYPE_SOCKET\<rparr>"
  from push_light [OF inv, of opq ?msg] obtain r n1 where
    "skynet_context_push opq ?msg n = Some (r, n1)" "light held n n1" by blast
  then show ?thesis unfolding forward_message_def by (simp add: Let_def)
qed

lemma socket_poll_light:
  assumes inv: "node_inv refs held n" and r: "skynet_socket_poll type opq sid ud d again n = Some (s, n')"
  shows "light held n n'"
proof -
  have f: "light held n n1" if "do { n \<leftarrow> forward_message t p opq sid ud d n; Some (x, n) } = Some (s, n1)" for t p x n1
    using that forward_message_light [OF inv, of t p opq sid ud d] by auto
  show ?thesis
  proof (cases type)
    case (Sk_other t)
    then show ?thesis
      using r error_none_light [OF inv] by (auto simp: skynet_socket_poll_def)
  qed (use r f light_refl [OF node_invD(7) [OF inv]] in \<open>auto simp: skynet_socket_poll_def\<close>)
qed

lemma endless_light:
  assumes inv: "node_inv refs held n"
  shows "\<exists>n'. skynet_context_endless h n = Some n' \<and> light held n n'"
proof (cases "skynet_handle_grab (handle_of n) h (n_handles n)")
  case None
  then show ?thesis
    using light_refl [OF node_invD(7) [OF inv]] by (simp add: skynet_context_endless_def handle_grab_def)
next
  case (Some c)
  from grab_found [OF inv Some] obtain x where x: "n_ctxs n c = Some x" by metis
  have "cx_ref x \<noteq> 0" using node_invD(3) [OF inv x] by (simp add: ctx_ok_def)
  then have "skynet_context_endless h n = Some (put_ctx c (x\<lparr>cx_endless := True\<rparr>) n)"
    using Some x by (simp add: skynet_context_endless_def handle_grab_def skynet_context_grab_def
        skynet_context_release_def get_ctx_def put_ctx_def Let_def)
  moreover have "light held n (put_ctx c (x\<lparr>cx_endless := True\<rparr>) n)"
    by (rule light_put [OF node_invD(7) [OF inv] x]) (simp add: same_ctx_def)
  ultimately show ?thesis by blast
qed

lemma monitor_check_light:
  assumes inv: "node_inv refs held n" and r: "skynet_monitor_check sm n = Some (sm', n')"
  shows "light held n n'"
proof (cases "sm_version sm = sm_check_version sm \<and> sm_destination sm \<noteq> 0")
  case True
  from endless_light [OF inv, of "sm_destination sm"] obtain n1 where
    n1: "skynet_context_endless (sm_destination sm) n = Some n1" "light held n n1" by blast
  with True r obtain t where t: "skynet_error None t n1 = Some n'" by (auto simp: skynet_monitor_check_def)
  from error_none_light [OF light_inv [OF inv n1(2)] t] have "light held n1 n'" .
  then show ?thesis by (rule light_trans [OF n1(2)])
next
  case False
  then show ?thesis using r light_refl [OF node_invD(7) [OF inv]] by (auto simp: skynet_monitor_check_def split: if_splits)
qed

section \<open>The node as a transition system\<close>

record system =
  sy_node :: skynet_node
  sy_work :: "nat \<Rightarrow> mqref option"
  sy_mon :: "nat \<Rightarrow> skynet_monitor"

definition system_init :: "modules \<Rightarrow> timer \<Rightarrow> int \<Rightarrow> system" where
  "system_init ms t hb =
     \<lparr>sy_node = skynet_harbor_init hb (skynet_globalinit ms t (skynet_handle_init hb)),
      sy_work = (\<lambda>_. None), sy_mon = (\<lambda>_. skynet_monitor_new)\<rparr>"

text \<open>The steps: a round of the worker \<open>t\<close>, a tick of the timer, an event of a socket, a look of the monitor at
  a worker, and a service launched by the main thread.\<close>

inductive node_step :: "world \<Rightarrow> nat \<Rightarrow> system \<Rightarrow> system \<Rightarrow> bool" for w k where
  work: "skynet_context_message_dispatch w (run_prog w k) weight (sy_mon s t) (sy_work s t) (sy_node s) = Some (q, sm, n) \<Longrightarrow>
    node_step w k s (s\<lparr>sy_node := n, sy_work := (sy_work s)(t := q), sy_mon := (sy_mon s)(t := sm)\<rparr>)"
| tick: "update_time cp (sy_node s) = Some n \<Longrightarrow> node_step w k s (s\<lparr>sy_node := n\<rparr>)"
| socket: "skynet_socket_poll type opq sid ud d again (sy_node s) = Some (r, n) \<Longrightarrow> node_step w k s (s\<lparr>sy_node := n\<rparr>)"
| check: "skynet_monitor_check (sy_mon s t) (sy_node s) = Some (sm, n) \<Longrightarrow>
    node_step w k s (s\<lparr>sy_node := n, sy_mon := (sy_mon s)(t := sm)\<rparr>)"
| launch: "skynet_context_new w (run_prog w k) nm param (sy_node s) = Some (c, n) \<Longrightarrow> node_step w k s (s\<lparr>sy_node := n\<rparr>)"

definition system_inv :: "system \<Rightarrow> bool" where
  "system_inv s \<longleftrightarrow> (\<exists>refs held. node_inv refs held (sy_node s) \<and> (\<forall>t. set_option (sy_work s t) \<subseteq> held)
     \<and> (n_remote (sy_node s) = None \<longrightarrow> refs = (\<lambda>_. 0))
     \<and> (\<forall>t t' q. sy_work s t = Some q \<longrightarrow> sy_work s t' = Some q \<longrightarrow> t = t'))"

lemma system_init_inv: "system_inv (system_init ms t hb)"
proof -
  let ?n = "sy_node (system_init ms t hb)"
  have "contexts (skynet_handle_init hb) = {}"
    by (auto simp: contexts_def skynet_handle_init_def)
  then have "node_inv (\<lambda>_. 0) {} ?n"
    using handle_init_inv(1) [of "handle_of ?n" hb] queues_init(1)
    by (simp add: node_inv_def system_init_def skynet_harbor_init_def skynet_globalinit_def queues_apart_def)
  then show ?thesis by (auto simp: system_inv_def system_init_def)
qed

lemma system_inv_light:
  assumes "system_inv s" "\<And>refs held. node_inv refs held (sy_node s) \<Longrightarrow> light held (sy_node s) n" "sy_node s' = n" "sy_work s' = sy_work s"
  shows "system_inv s'"
proof -
  from assms(1) obtain refs held where
    i: "node_inv refs held (sy_node s)" "\<forall>t. set_option (sy_work s t) \<subseteq> held"
      "n_remote (sy_node s) = None \<longrightarrow> refs = (\<lambda>_. 0)"
      "\<forall>t t' q. sy_work s t = Some q \<longrightarrow> sy_work s t' = Some q \<longrightarrow> t = t'" by (auto simp: system_inv_def)
  have l: "light held (sy_node s) n" by (rule assms(2) [OF i(1)])
  then have "n_remote n = n_remote (sy_node s)" by (simp add: light_def kept_def)
  then show ?thesis using i light_inv [OF i(1) l] assms(3,4) unfolding system_inv_def by metis
qed

lemma node_step_inv: "system_inv s \<Longrightarrow> node_step w k s s' \<Longrightarrow> system_inv s'"
proof (erule node_step.cases, goal_cases)
  case (1 weight s1 t q sm n)
  from 1(1,2) obtain refs held where
    i: "node_inv refs held (sy_node s)" "\<And>t. set_option (sy_work s t) \<subseteq> held"
      "\<And>t t' q. sy_work s t = Some q \<Longrightarrow> sy_work s t' = Some q \<Longrightarrow> t = t'"
      "n_remote (sy_node s) = None \<Longrightarrow> refs = (\<lambda>_. 0)"
    unfolding system_inv_def by metis
  have "round_ok refs (held - set_option (sy_work s t)) q (sy_node s) n"
    by (rule message_dispatch_inv [OF run_prog_runner i(1,2)]) (use 1 in simp)
  then obtain refs' held' where h: "node_inv refs' held' n" "held - set_option (sy_work s t) \<subseteq> held'"
    "\<And>r. q = Some r \<Longrightarrow> r \<in> held' \<and> r \<notin> held - set_option (sy_work s t)" "grows refs (sy_node s) refs' n"
    by (auto simp: round_ok_def)
  have "n_remote n = None \<longrightarrow> refs' = (\<lambda>_. 0)" using h(4) i(4) by (simp add: grows_def)
  moreover have other: "r \<in> held - set_option (sy_work s t)" if "t' \<noteq> t" "sy_work s t' = Some r" for t' r
    using that i(2) [of t'] i(3) [of t' r t] by auto
  moreover have "set_option (((sy_work s)(t := q)) t') \<subseteq> held'" for t'
    using h(2,3) other by (cases "t' = t"; cases q) (auto simp: subset_iff elem_set)
  moreover have "t1 = t2" if "((sy_work s)(t := q)) t1 = Some r" "((sy_work s)(t := q)) t2 = Some r" for t1 t2 r
  proof (cases "t1 = t \<or> t2 = t")
    case True
    then show ?thesis using that h(3) [of r] other [of t1 r] other [of t2 r] by (cases "t1 = t"; cases "t2 = t") simp_all
  next
    case False
    then show ?thesis using that i(3) [of t1 r t2] by simp
  qed
  moreover have "sy_node s' = n" "sy_work s' = (sy_work s)(t := q)" using 1 by simp_all
  ultimately show ?case using h(1) unfolding system_inv_def by metis
next
  case (2 cp s1 n)
  show ?case by (rule system_inv_light [OF 2(1), where n = n]) (use 2 update_time_light [of _ _ _ cp n] in simp_all)
next
  case (3 type opq sid ud d again s1 r n)
  show ?case by (rule system_inv_light [OF 3(1), where n = n]) (use 3 socket_poll_light [of _ _ _ type opq sid ud d again r n] in simp_all)
next
  case (4 s1 t sm n)
  show ?case by (rule system_inv_light [OF 4(1), where n = n]) (use 4 monitor_check_light [of _ _ _ "sy_mon s t" sm n] in simp_all)
next
  case (5 nm param s1 c n)
  from 5(1) obtain refs held where
    i: "node_inv refs held (sy_node s)" "\<forall>t. set_option (sy_work s t) \<subseteq> held"
      "\<forall>t t' q. sy_work s t = Some q \<longrightarrow> sy_work s t' = Some q \<longrightarrow> t = t'"
      "n_remote (sy_node s) = None \<longrightarrow> refs = (\<lambda>_. 0)"
    unfolding system_inv_def by metis
  have "stays refs held (sy_node s) n"
    by (rule node_runner.context_new_stays [OF i(1)]) (use 5 in simp)
  then obtain refs' where r: "grows refs (sy_node s) refs' n" "node_inv refs' held n" by (auto simp: stays_def)
  have "n_remote n = None \<longrightarrow> refs' = (\<lambda>_. 0)" using r(1) i(4) by (simp add: grows_def)
  moreover have "sy_node s' = n" "sy_work s' = sy_work s" using 5 by simp_all
  ultimately show ?case using i(2,3) r(2) unfolding system_inv_def by metis
qed

interpretation node_sys: inductive_invariant "\<lambda>s. \<exists>ms t hb. s = system_init ms t hb" "node_step w k" system_inv for w k
  by unfold_locales (auto intro: system_init_inv node_step_inv)

section \<open>A node to try things on\<close>

lemmas [code] = skynet_handle_register.simps skynet_handle_retireall.simps

definition demo_world :: world where
  "demo_world = \<lparr>w_create = (\<lambda>_ _. Some 7), w_init = (\<lambda>_ _ _. Do_callback 1 2 (Return 0)),
     w_cb = (\<lambda>_ _ _ _ _ _ _. Return 0), w_dlopen = (\<lambda>_. Some 5), w_dlsym = (\<lambda>_ _. Some 6),
     w_fopen = (\<lambda>_. None), w_ctime = (\<lambda>_. [])\<rparr>"

definition demo_system :: system where
  "demo_system = system_init (skynet_module_init (lit ''?.so'')) timer_create_timer 1"

definition demo_launch :: "(nat option \<times> skynet_node) option" where
  "demo_launch = skynet_context_new demo_world (run_prog demo_world 1) (lit ''gate'') None (sy_node demo_system)"

definition demo_running :: system where
  "demo_running = demo_system\<lparr>sy_node := snd (the demo_launch)\<rparr>"

lemma demo_launched:
  "map_option fst demo_launch = Some (Some 0)"
  "map_option (\<lambda>x. (cx_handle x, cx_ref x, cx_cb x, cx_init x)) (n_ctxs (sy_node demo_running) 0) = Some (0x1000001, 1, Some 1, True)"
  "skynet_handle_grab (handle_of (sy_node demo_running)) 0x1000001 (n_handles (sy_node demo_running)) = Some 0"
  "n_remote (sy_node demo_running) = None"
  "n_harbor (sy_node demo_running) = 0x1000000"
  by code_simp+

lemma node_demo_reach: "reach (\<lambda>s. \<exists>ms t hb. s = system_init ms t hb) (node_step demo_world 1) demo_running"
proof -
  have "reach (\<lambda>s. \<exists>ms t hb. s = system_init ms t hb) (node_step demo_world 1) demo_system"
    by (rule reach_init) (auto simp: demo_system_def)
  moreover obtain n where n: "demo_launch = Some (Some 0, n)" using demo_launched(1) by auto
  ultimately show ?thesis
    using node_step.launch [of demo_world 1 "lit ''gate''" None demo_system "Some 0" n] reach_step
    unfolding demo_running_def demo_launch_def by fastforce
qed

section \<open>Properties\<close>





end
