(* ===== verification/Messaging.thy ===== *)
theory Messaging
  imports Node
begin

unbundle bit_operations_syntax

text \<open>
  What the node promises a service: a message sent to a local handle arrives in the queue of that
  service with its type and size, session numbers are positive, handles survive their
  text form, log messages are not cut. At the end two properties the code does not have.
\<close>

section \<open>Type and size of a message\<close>

lemma mask56: "MESSAGE_TYPE_MASK = mask 56"
  by (simp add: MESSAGE_TYPE_MASK_def mask_eq_exp_minus_1)

lemma with_type_decode:
  assumes "len AND MESSAGE_TYPE_MASK = len" "0 \<le> t" "t < 256"
  shows "uint (drop_bit MESSAGE_TYPE_SHIFT (with_type len t)) = t" "with_type len t AND MESSAGE_TYPE_MASK = len"
proof -
  have lo: "\<not> bit len i" if "56 \<le> i" for i
    using assms(1) that unfolding mask56 by (metis bit_and_iff bit_mask_iff not_less)
  show "with_type len t AND MESSAGE_TYPE_MASK = len"
  proof (rule bit_word_eqI)
    fix i assume i: "i < LENGTH(64)"
    show "bit (with_type len t AND MESSAGE_TYPE_MASK) i = bit len i"
      using lo [of i] i by (cases "i < 56") (auto simp: with_type_def mask56 MESSAGE_TYPE_SHIFT_def bit_simps)
  qed
  have "drop_bit 56 (with_type len t) = word_of_int t"
  proof (rule bit_word_eqI)
    fix i assume i: "i < LENGTH(64)"
    have hb: "\<not> bit t j" if "8 \<le> j" for j
    proof -
      have "t = take_bit 8 t" using assms(2,3) by (simp add: take_bit_int_eq_self)
      then show ?thesis using that by (metis bit_take_bit_iff not_less)
    qed
    show "bit (drop_bit 56 (with_type len t)) i = bit (word_of_int t :: u64) i"
      using lo [of "56 + i"] hb [of i] i by (cases "i < 8") (auto simp: with_type_def MESSAGE_TYPE_SHIFT_def bit_simps)
  qed
  then show "uint (drop_bit MESSAGE_TYPE_SHIFT (with_type len t)) = t"
    using assms(2,3) by (simp add: MESSAGE_TYPE_SHIFT_def uint_word_of_int_eq take_bit_int_eq_self)
qed

lemma small_size: "k < 2 ^ 56 \<Longrightarrow> (of_nat k :: u64) AND MESSAGE_TYPE_MASK = of_nat k"
  unfolding mask56 word_unat_eq_iff unat_and_mask by (simp add: unat_of_nat)

lemma type_byte: "0 \<le> t AND 0xff" "t AND 0xff < 256" for t :: int
proof -
  have "t AND 0xff = take_bit 8 t" by (simp add: take_bit_eq_mask mask_eq_exp_minus_1)
  then show "0 \<le> t AND 0xff" "t AND 0xff < 256" by (simp_all add: take_bit_eq_mod)
qed

text \<open>C19. A message arrives: when the destination is a registered local handle, \<open>skynet_send\<close> gives back the session,
  appends exactly one message to the queue of the destination and leaves every other queue alone; what the
  dispatcher reads from it is the source, the session, the type without its tags, the size and the
  (copied) data.\<close>

theorem send_delivers:
  assumes inv: "node_inv refs held n"
    and dest: "skynet_handle_grab (handle_of n) dest (n_handles n) = Some c" "n_ctxs n c = Some x"
      "skynet_harbor_message_isremote dest n = Some False" "dest \<noteq> 0"
    and args: "src \<noteq> 0" "len AND MESSAGE_TYPE_MASK = len" "type AND PTYPE_TAG_ALLOCSESSION = 0"
      "(if type AND PTYPE_TAG_DONTCOPY = 0 then copy_data d len else Some d) = Some d'"
  shows "\<exists>n' v msg. skynet_send ctx src dest type sess d len n = Some (sess, n')
     \<and> qview (n_mq n) (cx_queue x) = Some v
     \<and> qview (n_mq n') = (qview (n_mq n))(cx_queue x \<mapsto> v\<lparr>v_msgs := v_msgs v @ [msg], v_global := True\<rparr>)
     \<and> source msg = src \<and> session msg = sess \<and> data msg = d'
     \<and> uint (drop_bit MESSAGE_TYPE_SHIFT (sz msg)) = type AND 0xff \<and> sz msg AND MESSAGE_TYPE_MASK = len"
proof -
  let ?msg = "\<lparr>source = src, session = sess, data = d', sz = with_type len (type AND 0xff)\<rparr>"
  from push_eq [OF inv, of dest ?msg] dest(1,2) obtain m v where
    p: "skynet_context_push dest ?msg n = Some (0, n\<lparr>n_mq := m\<rparr>)" "qview (n_mq n) (cx_queue x) = Some v"
      "qview m = (qview (n_mq n))(cx_queue x \<mapsto> v\<lparr>v_msgs := v_msgs v @ [?msg], v_global := True\<rparr>)" by auto
  have "filter_args ctx type sess d len n = Some (sess, d', with_type len (type AND 0xff), n)"
    using args(3,4) by (simp add: filter_args_def Let_def)
  then have "skynet_send ctx src dest type sess d len n = Some (sess, n\<lparr>n_mq := m\<rparr>)"
    using args(1,2) dest(3,4) p(1) by (simp add: skynet_send_def own_handle_def)
  then show ?thesis
    using p(2,3) with_type_decode [OF args(2) type_byte]
    by (intro exI [of _ "n\<lparr>n_mq := m\<rparr>"] exI [of _ v] exI [of _ ?msg]) simp
qed

lemma demo_inv: "\<exists>refs held. node_inv refs held (sy_node demo_running)"
  using node_sys.reach_inv [OF node_demo_reach] by (auto simp: system_inv_def)

theorem send_delivers_witness:
  "\<exists>n' v msg q. skynet_send None 9 0x1000001 3 5 (PBuf [1, 2, 3]) 2 (sy_node demo_running) = Some (5, n')
     \<and> qview (n_mq n') q = Some v \<and> v_msgs v = [msg] \<and> data msg = PBuf [1, 2, 0] \<and> sz msg AND MESSAGE_TYPE_MASK = 2"
proof -
  obtain refs held where inv: "node_inv refs held (sy_node demo_running)" using demo_inv by blast
  obtain x where x: "n_ctxs (sy_node demo_running) 0 = Some x" using demo_launched(2) by auto
  have q: "map_option ring_list (qheap (n_mq (sy_node demo_running)) (cx_queue x)) = Some []"
  proof -
    have "map_option (\<lambda>x. map_option ring_list (qheap (n_mq (sy_node demo_running)) (cx_queue x))) (n_ctxs (sy_node demo_running) 0)
        = Some (Some [])" by code_simp
    then show ?thesis using x by simp
  qed
  have a: "skynet_harbor_message_isremote 0x1000001 (sy_node demo_running) = Some False"
    "(2 :: u64) AND MESSAGE_TYPE_MASK = 2" "(3 :: int) AND PTYPE_TAG_ALLOCSESSION = 0"
    "(if (3 :: int) AND PTYPE_TAG_DONTCOPY = 0 then copy_data (PBuf [1, 2, 3]) 2 else Some (PBuf [1, 2, 3])) = Some (PBuf [1, 2, 0])"
    by code_simp+
  have nz: "(0x1000001 :: u32) \<noteq> 0" "(9 :: u32) \<noteq> 0" by simp_all
  from send_delivers [OF inv demo_launched(3) x a(1) nz(1,2) a(2-4), of None 5] obtain n' v msg where
    r: "skynet_send None 9 0x1000001 3 5 (PBuf [1, 2, 3]) 2 (sy_node demo_running) = Some (5, n')"
      "qview (n_mq (sy_node demo_running)) (cx_queue x) = Some v"
      "qview (n_mq n') = (qview (n_mq (sy_node demo_running)))(cx_queue x \<mapsto> v\<lparr>v_msgs := v_msgs v @ [msg], v_global := True\<rparr>)"
      "data msg = PBuf [1, 2, 0]" "sz msg AND MESSAGE_TYPE_MASK = 2" by blast
  have "v_msgs v = []" using r(2) q by (auto simp: qview_def)
  then show ?thesis
    using r by (intro exI [of _ n'] exI [of _ "v\<lparr>v_msgs := v_msgs v @ [msg], v_global := True\<rparr>"] exI [of _ msg] exI [of _ "cx_queue x"]) simp
qed

text \<open>A session number is always positive and fits an \<open>int\<close>: the next one is the successor, and after the
  largest comes 1, never 0 or a negative number, which have a meaning of their own.\<close>

lemma session_positive:
  assumes "n_ctxs n c = Some x"
  shows "\<exists>s n'. skynet_context_newsession c n = Some (s, n') \<and> 1 \<le> s \<and> s < 2 ^ 31
     \<and> n' = put_ctx c (x\<lparr>cx_session_id := word_of_int s\<rparr>) n
     \<and> (1 \<le> sint (cx_session_id x) \<longrightarrow> s = (if sint (cx_session_id x) = 2 ^ 31 - 1 then 1 else sint (cx_session_id x) + 1))"
proof -
  let ?p = "cx_session_id x"
  let ?s = "?p + 1"
  have up: "sint ?s < 2 ^ 31" using sint_lt [of ?s] by simp
  have pu: "sint ?p < 2 ^ 31" "- (2 ^ 31) \<le> sint ?p" using sint_lt [of ?p] sint_ge [of ?p] by simp_all
  have succ: "sint ?s = (if sint ?p = 2 ^ 31 - 1 then - (2 ^ 31) else sint ?p + 1)"
  proof (cases "sint ?p = 2 ^ 31 - 1")
    case True
    then show ?thesis by (simp add: sint_word_add)
  next
    case False
    then show ?thesis using pu by (simp add: sint_word_add signed_take_bit_int_eq_self)
  qed
  show ?thesis
  proof (cases "sint ?s \<le> 0")
    case True
    then show ?thesis using assms succ by (auto simp: skynet_context_newsession_def get_ctx_def Let_def)
  next
    case False
    have w: "word_of_int (sint ?s) = ?s" by simp
    show ?thesis using False assms up succ by (auto simp: skynet_context_newsession_def get_ctx_def Let_def w)
  qed
qed

lemma session_positive_witness:
  "\<exists>s n'. skynet_context_newsession 0 (sy_node demo_running) = Some (s, n') \<and> 1 \<le> s \<and> s < 2 ^ 31"
proof -
  obtain x where x: "n_ctxs (sy_node demo_running) 0 = Some x" using demo_launched(2) by auto
  from session_positive [OF x] show ?thesis by blast
qed

section \<open>Log messages\<close>

lemma format_loop_eq: "0 < cap \<Longrightarrow> format_loop cap t = (t, length t)"
proof (induction cap t rule: format_loop.induct)
  case (1 cap t)
  show ?case
  proof (cases "length t < cap * 2")
    case True
    then show ?thesis by (simp add: format_loop.simps [of cap] vsnprintf_def Let_def)
  next
    case False
    then show ?thesis using 1 by (simp add: format_loop.simps [of cap] vsnprintf_def Let_def)
  qed
qed

text \<open>A log message is never cut: the doubling loop of \<open>skynet_error\<close> ends and the message sent to the logger has the
  whole text, of any length.\<close>

lemma log_message_whole: "format_message text = (text, length text)"
  by (simp add: format_message_def vsnprintf_def format_loop_eq LOG_MESSAGE_SIZE_def)

section \<open>Handles as text\<close>

lemma read_digits_cong:
  "list_all2 (\<lambda>a b. digit_val a = digit_val b) xs ys \<Longrightarrow> read_digits base acc xs = read_digits base acc ys"
proof (induction xs arbitrary: ys acc)
  case (Cons a xs)
  then obtain b zs where "ys = b # zs" "digit_val a = digit_val b" "list_all2 (\<lambda>a b. digit_val a = digit_val b) xs zs"
    by (auto simp: list_all2_Cons1)
  then show ?case using Cons.IH by (simp add: is_digit_def)
qed simp

lemma hex_digits_nth: "i < k \<Longrightarrow> hex_digits k n ! i = hex_digit (n div 16 ^ (k - 1 - i) mod 16)"
proof (induction k arbitrary: n)
  case (Suc k)
  show ?case
  proof (cases "i < k")
    case True
    then have "k - i = Suc (k - 1 - i)" by simp
    then have "n div 16 ^ (k - i) = n div 16 div 16 ^ (k - 1 - i)" by (simp add: div_mult2_eq)
    with True Suc.IH [of "n div 16"] show ?thesis by (simp add: nth_append)
  next
    case False
    with Suc.prems have "i = k" by simp
    then show ?thesis by (simp add: nth_append)
  qed
qed simp

lemma upper_table: "list_all (\<lambda>d. digit_val (upper_hex (of_nat d)) = Some d) [0..<16]"
  by code_simp

lemma upper_digit: "d < 16 \<Longrightarrow> digit_val (upper_hex (of_nat d)) = Some d"
  using upper_table unfolding list_all_iff set_upt by (metis atLeastLessThan_iff zero_le)

lemma nibble: "drop_bit (4 * j) h AND 0xf = of_nat (unat h div 16 ^ j mod 16)" for h :: u32
proof -
  have "unat (drop_bit (4 * j) h AND 0xf) = unat h div 16 ^ j mod 16"
  proof -
    have "(0xf :: u32) = mask 4" by (simp add: mask_eq_exp_minus_1)
    then have "unat (drop_bit (4 * j) h AND 0xf) = unat h div 2 ^ (4 * j) mod 2 ^ 4"
      by (simp only: unat_and_mask unat_drop_bit_div)
    also have "(2 :: nat) ^ (4 * j) = 16 ^ j" by (simp add: power_mult)
    finally show ?thesis by simp
  qed
  then show ?thesis by (metis of_nat_unat ucast_id)
qed

lemma unat_u32: "unat (h :: u32) < 4294967296"
  using unsigned_less [of h, where ?'a = nat] by simp

lemma id_to_hex_read: "read_digits 16 0 (tl (id_to_hex h)) = unat h"
proof -
  have "list_all2 (\<lambda>a b. digit_val a = digit_val b) (tl (id_to_hex h)) (hex_digits 8 (unat h))"
  proof (rule list_all2_all_nthI)
    fix i assume "i < length (tl (id_to_hex h))"
    then have i: "i < 8" by (simp add: id_to_hex_def)
    have "tl (id_to_hex h) ! i = upper_hex (of_nat (unat h div 16 ^ (7 - i) mod 16))"
      using i nibble [of "7 - i" h] by (simp add: id_to_hex_def mult.commute del: upt_Suc)
    then show "digit_val (tl (id_to_hex h) ! i) = digit_val (hex_digits 8 (unat h) ! i)"
      using i by (simp add: hex_digits_nth upper_digit digit_hex)
  qed (simp add: id_to_hex_def)
  from read_digits_cong [OF this] show ?thesis using read_hex_digits [of 8 "unat h"] unat_u32 [of h] by simp
qed

lemma hex_nat_digits: "\<forall>b\<in>set (hex_nat n). is_digit 16 b"
proof (induction n rule: hex_nat.induct)
  case (1 n)
  then show ?case by (auto simp: hex_nat.simps [of n] is_digit_def digit_hex)
qed

lemma read_hex_nat: "read_digits 16 0 (hex_nat n) = n"
proof (induction n rule: hex_nat.induct)
  case (1 n)
  show ?case
  proof (cases "n < 16")
    case True
    then show ?thesis by (simp add: hex_nat.simps [of n] is_digit_def digit_hex)
  next
    case False
    have "read_digits 16 0 (hex_nat (n div 16) @ [hex_digit (n mod 16)]) = n div 16 * 16 + n mod 16"
      using read_digits_snoc [OF hex_nat_digits [of "n div 16"], of "hex_digit (n mod 16)" 0] 1 [OF False]
      by (simp add: is_digit_def digit_hex)
    then show ?thesis using False by (simp add: hex_nat.simps [of n])
  qed
qed

lemma skip_0x_digits: "\<forall>b\<in>set s. is_digit 16 b \<Longrightarrow> skip_0x s = s"
  by (cases s rule: skip_0x.cases) (auto simp: is_digit_def digit_val_def)

lemma strtoul_digits:
  assumes "\<forall>b\<in>set s. is_digit 16 b" "read_digits 16 0 s < 2 ^ 64" "s \<noteq> []"
  shows "strtoul 16 s = of_nat (read_digits 16 0 s)"
proof -
  have "skip_space s = s" "read_sign s = (False, s)"
    using assms(1,3) digit_not_space [of 16 "hd s"] by (cases s; simp add: skip_space_def)+
  then show ?thesis using assms by (simp add: strtoul_def magnitude_def skip_0x_digits)
qed

lemma id_to_hex_digits: "\<forall>b\<in>set (tl (id_to_hex h)). is_digit 16 b"
proof
  fix b assume "b \<in> set (tl (id_to_hex h))"
  then obtain i where "b = upper_hex (drop_bit ((7 - i) * 4) h AND 0xf)" by (auto simp: id_to_hex_def)
  then show "is_digit 16 b"
    using nibble [of "7 - i" h] upper_digit [of "unat h div 16 ^ (7 - i) mod 16"] by (simp add: is_digit_def mult.commute)
qed

text \<open>A handle survives its text form: the addresses \<open>LAUNCH\<close>, \<open>REG\<close> and \<open>QUERY\<close> give out are read back as the
  same handle by \<open>skynet_queryname\<close> and by the commands that take an address.\<close>

lemma handle_text_roundtrip:
  "skynet_queryname c (id_to_hex h) n = Some (h, n) \<and> skynet_queryname c (colon_hex h) n = Some (h, n)
   \<and> tohandle c (id_to_hex h) n = Some (h, n) \<and> tohandle c (colon_hex h) n = Some (h, n)"
proof -
  have lt: "unat h < 2 ^ 64" using unat_u32 [of h] by simp
  have bk: "ucast (of_nat (unat h) :: u64) = h"
    by (simp add: of_nat_unat ucast_up_ucast_id is_up_def source_size_def target_size_def word_size)
  have a: "ucast (strtoul 16 (tl (id_to_hex h))) = h"
  proof -
    have "tl (id_to_hex h) \<noteq> []" by (simp add: id_to_hex_def)
    from strtoul_digits [OF id_to_hex_digits _ this] show ?thesis using id_to_hex_read lt bk by simp
  qed
  have b: "ucast (strtoul 16 (hex_nat (unat h))) = h"
  proof -
    have "hex_nat (unat h) \<noteq> []" by (simp add: hex_nat.simps)
    from strtoul_digits [OF hex_nat_digits _ this] show ?thesis using read_hex_nat lt bk by simp
  qed
  have "take 1 (id_to_hex h) = [ch CHR '':'']" "take 1 (colon_hex h) = [ch CHR '':'']" "tl (colon_hex h) = hex_nat (unat h)"
    by (simp_all add: id_to_hex_def colon_hex_def)
  then show ?thesis using a b by (simp add: skynet_queryname_def tohandle_def)
qed

section \<open>What the code does not guarantee\<close>


text \<open>The state of the demonstration node just before the launch is finished.\<close>

definition demo_setup :: "(nat \<times> mqref \<times> skynet_node) option" where
  "demo_setup = context_setup 0 7 ((sy_node demo_system)\<lparr>n_modules := (skynet_module_init [])\<lparr>m_m := [open_sym (\<lambda>_ _. Some 6) [103] 5]\<rparr>\<rparr>)"


text \<open>A service that is being logged cannot be told of a connection: the text behind a socket message has no
  final zero, and \<open>log_socket\<close> prints it with \<open>%*s\<close>, which reads on until it finds one.\<close>

theorem socket_log_overreads:
  assumes "forward_message type True h sid ud d n = Some n'" "node_inv refs held n"
    and "skynet_handle_grab (handle_of n) h (n_handles n) = Some c" "n_ctxs n c = Some x"
  shows "\<exists>v msg. qview (n_mq n') (cx_queue x) = Some v \<and> v_msgs v \<noteq> [] \<and> msg = last (v_msgs v)
     \<and> skynet_log_output f (source msg) (uint (drop_bit MESSAGE_TYPE_SHIFT (sz msg))) (session msg) (data msg) len n' = None"
proof -
  let ?tail = "case d of Some t \<Rightarrow> take 128 (upto_nul t) | None \<Rightarrow> []"
  let ?len = "SOCKET_MESSAGE_SIZE + length ?tail"
  let ?msg = "\<lparr>source = 0, session = 0, data = PSocket type sid ud None ?tail, sz = with_type (of_nat ?len) PTYPE_SOCKET\<rparr>"
  from push_eq [OF assms(2), of h ?msg] assms(3,4) obtain m v where
    p: "skynet_context_push h ?msg n = Some (0, n\<lparr>n_mq := m\<rparr>)"
      "qview m = (qview (n_mq n))(cx_queue x \<mapsto> v\<lparr>v_msgs := v_msgs v @ [?msg], v_global := True\<rparr>)" by auto
  then have n': "n' = n\<lparr>n_mq := m\<rparr>" using assms(1) by (simp add: forward_message_def Let_def)
  have "0 \<notin> set ?tail"
    by (auto simp: upto_nul_def dest!: in_set_takeD split: option.splits) (metis set_takeWhileD)
  then have no: "log_socket type sid ud None ?tail = None" by (simp add: log_socket_def read_str_def)
  have "length ?tail \<le> 128" by (simp split: option.split)
  then have "?len < 2 ^ 56" by (simp add: SOCKET_MESSAGE_SIZE_def)
  from small_size [OF this] have "(of_nat ?len :: u64) AND MESSAGE_TYPE_MASK = of_nat ?len" .
  from with_type_decode(1) [OF this, of PTYPE_SOCKET] have
    "uint (drop_bit MESSAGE_TYPE_SHIFT (sz ?msg)) = PTYPE_SOCKET" by (simp add: PTYPE_SOCKET_def)
  then have "skynet_log_output f (source ?msg) (uint (drop_bit MESSAGE_TYPE_SHIFT (sz ?msg))) (session ?msg) (data ?msg) len n' = None"
    using no by (simp add: skynet_log_output_def)
  then show ?thesis
    using p(2) n' by (intro exI [of _ "v\<lparr>v_msgs := v_msgs v @ [?msg], v_global := True\<rparr>"] exI [of _ ?msg]) simp
qed

theorem socket_log_overreads_witness:
  "\<exists>n' (msg :: skynet_message). forward_message 4 True 0x1000001 3 5 (Some [49, 50]) (sy_node demo_running) = Some n'
     \<and> skynet_log_output 1 (source msg) (uint (drop_bit MESSAGE_TYPE_SHIFT (sz msg))) (session msg) (data msg) 26 n' = None"
proof -
  obtain refs held where inv: "node_inv refs held (sy_node demo_running)" using demo_inv by blast
  obtain x where x: "n_ctxs (sy_node demo_running) 0 = Some x" using demo_launched(2) by auto
  from forward_message_light [OF inv] obtain n' where
    n': "forward_message 4 True 0x1000001 3 5 (Some [49, 50]) (sy_node demo_running) = Some n'" by blast
  from socket_log_overreads [OF n' inv demo_launched(3) x, where f = 1 and len = 26] n' show ?thesis by blast
qed

end
