(* ===== verification/Codec.thy ===== *)
theory Codec
  imports Cstring Framing
begin

unbundle bit_operations_syntax

text \<open>
  \<^verbatim>\<open>lualib-src/lua-crypt.c\<close>: the text codings (hexadecimal, base64) and the exclusive or of
  strings, and what all functions of the module share: the output buffer with its bound,
  and the errors. An argument of a function is the Lua string as bytes; a result is an error
  \<open>Inl e\<close> (\<open>luaL_error\<close>) or the string \<open>Inr s\<close> it pushes. \<open>None\<close> is undefined behaviour: a
  write outside the output buffer, a read of bytes never written, or a loop index of type
  \<open>int\<close> that passes \<open>2 ^ 31\<close>.
\<close>

section \<open>Output buffers and errors\<close>

datatype crypt_error =
    InvalidKeySize nat
  | InvalidDesLength nat
  | InvalidDesText
  | InvalidHexSize nat
  | InvalidHexText
  | InvalidBase64
  | InvalidUint64
  | CantBeZero
  | CantXorEmpty

type_synonym crypt_result = "(crypt_error + bytes) option"

definition SMALL_CHUNK :: nat where "SMALL_CHUNK = 256"

text \<open>The capacity of the buffer: the local array, or user data of \<open>need\<close> bytes.\<close>

definition out_cap :: "bool \<Rightarrow> nat \<Rightarrow> nat" where
  "out_cap big need = (if big then need else SMALL_CHUNK)"

definition out_put :: "nat \<Rightarrow> bytes \<Rightarrow> bytes \<Rightarrow> bytes option" where
  "out_put cap buf bs = (if length buf + length bs \<le> cap then Some (buf @ bs) else None)"

definition push_lstring :: "bytes \<Rightarrow> nat \<Rightarrow> crypt_result" where
  "push_lstring buf n = (if n \<le> length buf then Some (Inr (take n buf)) else None)"

definition int_index :: "nat \<Rightarrow> bool" where
  "int_index n \<longleftrightarrow> n < 2 ^ 31"

section \<open>Hexadecimal\<close>

definition hex_chars :: bytes where "hex_chars = lit ''0123456789abcdef''"

fun tohex_loop :: "nat \<Rightarrow> bytes \<Rightarrow> bytes \<Rightarrow> bytes option" where
  "tohex_loop cap [] buf = Some buf"
| "tohex_loop cap (c # text) buf = do {
     buf \<leftarrow> out_put cap buf [hex_chars ! unat (drop_bit 4 c), hex_chars ! unat (c AND 0xf)];
     tohex_loop cap text buf
   }"

definition ltohex :: "bytes \<Rightarrow> crypt_result" where
  "ltohex text = do {
     let sz = length text;
     assert_opt (int_index (2 * sz - 1));
     buf \<leftarrow> tohex_loop (out_cap (sz > SMALL_CHUNK div 2) (sz * 2)) text [];
     push_lstring buf (sz * 2)
   }"

definition HEX :: "u8 \<Rightarrow> u8" where
  "HEX c = (if ch CHR ''0'' \<le> c \<and> c \<le> ch CHR ''9'' then c - ch CHR ''0''
            else c - ch CHR ''a'' + 10)"

fun fromhex_loop :: "nat \<Rightarrow> bytes \<Rightarrow> bytes \<Rightarrow> crypt_result" where
  "fromhex_loop cap (h # l # text) buf = (
     let hi = HEX h; low = HEX l in
     if hi > 16 \<or> low > 16 then Some (Inl InvalidHexText)
     else do {
       buf \<leftarrow> out_put cap buf [push_bit 4 hi OR low];
       fromhex_loop cap text buf
     })"
| "fromhex_loop cap text buf = Some (Inr buf)"

definition lfromhex :: "bytes \<Rightarrow> crypt_result" where
  "lfromhex text = do {
     let sz = length text;
     if odd sz then Some (Inl (InvalidHexSize sz))
     else do {
       assert_opt (int_index sz);
       r \<leftarrow> fromhex_loop (out_cap (sz > SMALL_CHUNK * 2) (sz div 2)) text [];
       (case r of Inl e \<Rightarrow> Some (Inl e) | Inr buf \<Rightarrow> push_lstring buf (sz div 2))
     }
   }"

section \<open>Base64\<close>

definition encoding :: bytes where
  "encoding = lit ''ABCDEFGHIJKLMNOPQRSTUVWXYZabcdefghijklmnopqrstuvwxyz0123456789+/''"

definition enc6 :: "u32 \<Rightarrow> u8" where
  "enc6 v = encoding ! unat v"

definition b64_v3 :: "u8 \<Rightarrow> u8 \<Rightarrow> u8 \<Rightarrow> u32" where
  "b64_v3 a b c = push_bit 16 (ucast a) OR push_bit 8 (ucast b) OR ucast c"

definition b64_v2 :: "u8 \<Rightarrow> u8 \<Rightarrow> u32" where
  "b64_v2 a b = push_bit 8 (ucast a) OR ucast b"

fun b64encode_loop :: "nat \<Rightarrow> bytes \<Rightarrow> bytes \<Rightarrow> (bytes \<times> bytes) option" where
  "b64encode_loop cap (a # b # c # text) buf = do {
     let v = b64_v3 a b c;
     buf \<leftarrow> out_put cap buf
       [enc6 (drop_bit 18 v), enc6 (drop_bit 12 v AND 0x3f), enc6 (drop_bit 6 v AND 0x3f), enc6 (v AND 0x3f)];
     b64encode_loop cap text buf
   }"
| "b64encode_loop cap text buf = Some (text, buf)"

definition b64encode_tail :: "nat \<Rightarrow> bytes \<Rightarrow> bytes \<Rightarrow> bytes option" where
  "b64encode_tail cap text buf = (case text of
     [a] \<Rightarrow> (let v = ucast a :: u32 in
       out_put cap buf [enc6 (drop_bit 2 v), enc6 (push_bit 4 (v AND 3)), ch CHR ''='', ch CHR ''=''])
   | [a, b] \<Rightarrow> (let v = b64_v2 a b in
       out_put cap buf [enc6 (drop_bit 10 v), enc6 (drop_bit 4 v AND 0x3f),
                        enc6 (push_bit 2 (v AND 0xf)), ch CHR ''=''])
   | _ \<Rightarrow> Some buf)"

definition lb64encode :: "bytes \<Rightarrow> crypt_result" where
  "lb64encode text = do {
     let sz = length text;
     let encode_sz = (sz + 2) div 3 * 4;
     assert_opt (int_index encode_sz);
     let cap = out_cap (encode_sz > SMALL_CHUNK) encode_sz;
     (rest, buf) \<leftarrow> b64encode_loop cap text [];
     buf \<leftarrow> b64encode_tail cap rest buf;
     push_lstring buf encode_sz
   }"

definition decoding :: "int list" where
  "decoding = [62,-1,-1,-1,63,52,53,54,55,56,57,58,59,60,61,-1,-1,-1,-2,-1,-1,-1,0,1,2,3,4,5,6,7,8,9,
     10,11,12,13,14,15,16,17,18,19,20,21,22,23,24,25,-1,-1,-1,-1,-1,-1,26,27,28,29,30,31,32,33,34,35,
     36,37,38,39,40,41,42,43,44,45,46,47,48,49,50,51]"

definition b64index :: "u8 \<Rightarrow> int" where
  "b64index c = (if c < 43 then -1
     else if unat (c - 43) \<ge> length decoding then -1
     else decoding ! unat (c - 43))"

text \<open>The inner loop: the next four characters of the alphabet, others are skipped. \<open>None\<close>:
  the text ends before (the code raises an error).\<close>

fun b64_gather :: "int list \<Rightarrow> bytes \<Rightarrow> (int list \<times> bytes) option" where
  "b64_gather cs [] = (if length cs < 4 then None else Some (cs, []))"
| "b64_gather cs (t # text) = (
     if length cs < 4 then (let c = b64index t in b64_gather (if c = -1 then cs else cs @ [c]) text)
     else Some (cs, t # text))"

definition u32_int :: "int \<Rightarrow> u32" where "u32_int c = of_int c"

definition b64_group :: "int list \<Rightarrow> crypt_error + bytes" where
  "b64_group c = (
     let padding = length (filter (\<lambda>x. x = -2) c) in
     if padding = 0 then
       (let v = push_bit 18 (u32_int (c!0)) OR push_bit 12 (u32_int (c!1)) OR push_bit 6 (u32_int (c!2))
                OR u32_int (c!3)
        in Inr [ucast (drop_bit 16 v), ucast (drop_bit 8 v AND 0xff), ucast (v AND 0xff)])
     else if padding = 1 then
       (if c!3 \<noteq> -2 \<or> c!2 AND 3 \<noteq> 0 then Inl InvalidBase64
        else let v = push_bit 10 (u32_int (c!0)) OR push_bit 4 (u32_int (c!1)) OR u32_int (drop_bit 2 (c!2))
             in Inr [ucast (drop_bit 8 v), ucast (v AND 0xff)])
     else if padding = 2 then
       (if c!3 \<noteq> -2 \<or> c!2 \<noteq> -2 \<or> c!1 AND 0xf \<noteq> 0 then Inl InvalidBase64
        else let v = push_bit 2 (u32_int (c!0)) OR u32_int (drop_bit 4 (c!1)) in Inr [ucast v])
     else Inl InvalidBase64)"

lemma b64_gather_shorter:
  "b64_gather cs text = Some (cs', rest) \<Longrightarrow> length cs' \<ge> 4 \<and> length rest + length cs' \<le> length text + length cs"
proof (induction "text" arbitrary: cs)
  case (Cons t "text")
  then show ?case by (cases "b64index t = -1") (fastforce simp: Let_def split: if_splits)+
qed (auto split: if_splits)

text \<open>The outer loop.\<close>

function b64decode_loop :: "nat \<Rightarrow> bytes \<Rightarrow> bytes \<Rightarrow> crypt_result" where
  "b64decode_loop cap text buf = (
     if text = [] then Some (Inr buf)
     else (case b64_gather [] text of
       None \<Rightarrow> Some (Inl InvalidBase64)
     | Some (c, rest) \<Rightarrow> (case b64_group c of
         Inl e \<Rightarrow> Some (Inl e)
       | Inr bs \<Rightarrow> do { buf \<leftarrow> out_put cap buf bs; b64decode_loop cap rest buf })))"
  by pat_completeness auto
termination
  by (relation "measure (\<lambda>(cap, text, buf). length text)") (auto dest: b64_gather_shorter)

definition lb64decode :: "bytes \<Rightarrow> crypt_result" where
  "lb64decode text = do {
     let sz = length text;
     let decode_sz = (sz + 3) div 4 * 3;
     assert_opt (int_index sz);
     r \<leftarrow> b64decode_loop (out_cap (decode_sz > SMALL_CHUNK) decode_sz) text [];
     (case r of Inl e \<Rightarrow> Some (Inl e) | Inr buf \<Rightarrow> push_lstring buf (length buf))
   }"

declare b64decode_loop.simps [simp del]

section \<open>Exclusive or\<close>

definition lxor_str :: "bytes \<Rightarrow> bytes \<Rightarrow> crypt_result" where
  "lxor_str s1 s2 = (
     if s2 = [] then Some (Inl CantXorEmpty)
     else do {
       assert_opt (int_index (length s1));
       Some (Inr (map (\<lambda>i. s1 ! i XOR s2 ! (i mod length s2)) [0..<length s1]))
     })"

section \<open>Output never leaves the buffer\<close>

lemma out_put_ok [simp]: "length buf + length bs \<le> cap \<Longrightarrow> out_put cap buf bs = Some (buf @ bs)"
  by (simp add: out_put_def)

lemma push_whole [simp]: "push_lstring buf (length buf) = Some (Inr buf)"
  by (simp add: push_lstring_def)

lemma out_cap_ge: "(\<not> big \<Longrightarrow> need \<le> SMALL_CHUNK) \<Longrightarrow> need \<le> out_cap big need"
  by (simp add: out_cap_def)

section \<open>The contract of a coding\<close>

text \<open>A coding has an encoder that always succeeds below a length, and a decoder that undoes
  it. Codings compose.\<close>

locale coding =
  fixes enc :: "bytes \<Rightarrow> crypt_result"
    and dec :: "bytes \<Rightarrow> crypt_result"
    and coded :: "bytes \<Rightarrow> bytes"
    and lim :: nat
  assumes enc_ok: "length s < lim \<Longrightarrow> enc s = Some (Inr (coded s))"
    and dec_ok: "length s < lim \<Longrightarrow> dec (coded s) = Some (Inr s)"
begin

lemma coded_inj: "length s < lim \<Longrightarrow> length t < lim \<Longrightarrow> coded s = coded t \<Longrightarrow> s = t"
  by (metis dec_ok option.inject sum.inject(2))

lemma roundtrip: "length s < lim \<Longrightarrow> \<exists>c. enc s = Some (Inr c) \<and> dec c = Some (Inr s)"
  using enc_ok dec_ok by blast

end

section \<open>Hexadecimal: round trip\<close>

definition hex_of :: "bytes \<Rightarrow> bytes" where
  "hex_of text = concat (map (\<lambda>c. [hex_chars ! unat (drop_bit 4 c), hex_chars ! unat (c AND 0xf)]) text)"

lemma length_hex_of [simp]: "length (hex_of text) = 2 * length text"
  by (induction "text") (simp_all add: hex_of_def)

lemma tohex_loop_eq:
  "length buf + 2 * length text \<le> cap \<Longrightarrow> tohex_loop cap text buf = Some (buf @ hex_of text)"
  by (induction "text" arbitrary: buf) (simp_all add: hex_of_def)

lemma ltohex_eq: "length text < 2 ^ 30 \<Longrightarrow> ltohex text = Some (Inr (hex_of text))"
  using push_whole [of "hex_of text"]
  by (simp add: ltohex_def Let_def int_index_def out_cap_def SMALL_CHUNK_def tohex_loop_eq mult.commute del: push_whole)

lemma HEX_digit: "n < 16 \<Longrightarrow> HEX (hex_chars ! n) = of_nat n"
proof -
  have "\<forall>n\<in>set [0..<16]. HEX (hex_chars ! n) = of_nat n" by code_simp
  then show "n < 16 \<Longrightarrow> HEX (hex_chars ! n) = of_nat n" by simp
qed

lemma nibbles: "push_bit 4 (drop_bit 4 c) OR (c AND 0xf) = (c :: u8)"
proof (rule bit_word_eqI)
  fix n assume n: "n < LENGTH(8)"
  then have "bit (0xf :: u8) n \<longleftrightarrow> n < 4" using bit_mask_iff [of 4 n, where 'a = "8 word"]
    by (simp add: mask_eq_exp_minus_1)
  then show "bit (push_bit 4 (drop_bit 4 c) OR (c AND 0xf)) n \<longleftrightarrow> bit c n"
    using n by (auto simp: bit_simps)
qed

lemma nibble_less: "unat (drop_bit 4 (c :: u8)) < 16" "unat (c AND 0xf) < 16"
proof -
  have "unat c < 256" using unsigned_less [of c] by simp
  then show "unat (drop_bit 4 c) < 16" by (simp add: unat_drop_bit_div)
  show "unat (c AND 0xf) < 16" using unat_and_mask [of c 4] by (simp add: mask_eq_exp_minus_1)
qed

lemma fromhex_loop_eq:
  "length buf + length text \<le> cap \<Longrightarrow> fromhex_loop cap (hex_of text) buf = Some (Inr (buf @ text))"
proof (induction "text" arbitrary: buf)
  case (Cons c "text")
  have "HEX (hex_chars ! unat (drop_bit 4 c)) = drop_bit 4 c" "HEX (hex_chars ! unat (c AND 0xf)) = c AND 0xf"
    using HEX_digit nibble_less by simp_all
  moreover have "\<not> drop_bit 4 c > 16" "\<not> c AND 0xf > 16"
    using nibble_less [of c] by (simp_all add: word_less_nat_alt)
  ultimately show ?case using Cons by (simp add: hex_of_def nibbles)
qed (simp add: hex_of_def)

lemma lfromhex_eq: "length text < 2 ^ 30 \<Longrightarrow> lfromhex (hex_of text) = Some (Inr text)"
  by (simp add: lfromhex_def Let_def int_index_def out_cap_def SMALL_CHUNK_def fromhex_loop_eq)

interpretation hex: coding ltohex lfromhex hex_of "2 ^ 30"
  by unfold_locales (simp_all add: ltohex_eq lfromhex_eq)

section \<open>Base64: round trip\<close>

lemma b64index_enc: "n < 64 \<Longrightarrow> b64index (encoding ! n) = int n"
proof -
  have "\<forall>n\<in>set [0..<64]. b64index (encoding ! n) = int n" by code_simp
  then show "n < 64 \<Longrightarrow> b64index (encoding ! n) = int n" by simp
qed

lemma b64index_pad [simp]: "b64index (ch CHR ''='') = -2"
  by code_simp

lemma b64index_enc6: "v < 64 \<Longrightarrow> b64index (enc6 v) = uint v"
  by (simp add: enc6_def b64index_enc word_less_nat_alt)

lemma and_masks:
  "(v :: u32) AND 0x3f = take_bit 6 v" "v AND 0xff = take_bit 8 v" "v AND 3 = take_bit 2 v" "v AND 0xf = take_bit 4 v"
  by (simp_all add: take_bit_eq_mask mask_eq_exp_minus_1)

lemma sextets:
  "push_bit 18 (drop_bit 18 v) OR push_bit 12 (take_bit 6 (drop_bit 12 v))
    OR push_bit 6 (take_bit 6 (drop_bit 6 v)) OR take_bit 6 v = (v :: u32)"
  "push_bit 10 (drop_bit 10 v) OR push_bit 4 (take_bit 6 (drop_bit 4 v)) OR take_bit 4 v = v"
  "push_bit 2 (drop_bit 2 v) OR take_bit 2 v = v"
proof -
  have cut: "push_bit m (drop_bit m v) OR push_bit k (take_bit (m - k) (drop_bit k v)) = push_bit k (drop_bit k v)"
    if "k \<le> m" for m k and v :: u32
  proof (rule bit_word_eqI)
    fix n
    show "bit (push_bit m (drop_bit m v) OR push_bit k (take_bit (m - k) (drop_bit k v))) n
      = bit (push_bit k (drop_bit k v)) n"
      using that by (cases "n < m"; cases "n < k") (auto simp: bit_simps)
  qed
  have low: "push_bit k (drop_bit k v) OR take_bit k v = v" for k and v :: u32
    using cut [of 0 k v] by simp
  show "push_bit 18 (drop_bit 18 v) OR push_bit 12 (take_bit 6 (drop_bit 12 v))
    OR push_bit 6 (take_bit 6 (drop_bit 6 v)) OR take_bit 6 v = v"
    using cut [of 12 18 v] cut [of 6 12 v] low [of 6 v] by (simp add: or.assoc [symmetric])
  show "push_bit 10 (drop_bit 10 v) OR push_bit 4 (take_bit 6 (drop_bit 4 v)) OR take_bit 4 v = v"
    using cut [of 4 10 v] low [of 4 v] by (simp add: or.assoc [symmetric])
  show "push_bit 2 (drop_bit 2 v) OR take_bit 2 v = v" by (rule low)
qed

lemma octets3:
  "ucast (drop_bit 16 (b64_v3 a b c)) = a" "ucast (take_bit 8 (drop_bit 8 (b64_v3 a b c))) = b"
  "ucast (take_bit 8 (b64_v3 a b c)) = c"
  by (rule bit_word_eqI, auto simp: b64_v3_def bit_simps dest: bit_ucast8 bit_imp_le_length)+

lemma octets2: "ucast (drop_bit 8 (b64_v2 a b)) = a" "ucast (take_bit 8 (b64_v2 a b)) = b"
  by (rule bit_word_eqI, auto simp: b64_v2_def bit_simps dest: bit_ucast8 bit_imp_le_length)+

lemma less_64: "(\<And>n. 6 \<le> n \<Longrightarrow> n < 32 \<Longrightarrow> \<not> bit w n) \<Longrightarrow> w < 64" for w :: u32
proof -
  assume "\<And>n. 6 \<le> n \<Longrightarrow> n < 32 \<Longrightarrow> \<not> bit w n"
  then have "take_bit 6 w = w" by (intro bit_word_eqI) (auto simp: bit_take_bit_iff not_le [symmetric])
  then have "unat w mod 64 = unat w" using unat_and_mask [of w 6] by (simp add: take_bit_eq_mask)
  then have "unat w < 64" using mod_less_divisor [of 64 "unat w"] by linarith
  then show "w < 64" by (simp add: word_less_nat_alt)
qed

lemma small_sextets:
  "drop_bit 18 (b64_v3 a b c) < 64" "v AND 0x3f < (64 :: u32)"
  "drop_bit 10 (b64_v2 a b) < 64" "push_bit 2 (v AND 0xf) < (64 :: u32)"
  "drop_bit 2 (ucast (a :: u8) :: u32) < 64" "push_bit 4 (v AND 3) < (64 :: u32)"
  unfolding and_masks b64_v3_def b64_v2_def
  by (rule less_64, auto simp: bit_simps dest: bit_ucast8 bit_imp_le_length)+

fun b64_of :: "bytes \<Rightarrow> bytes" where
  "b64_of (a # b # c # text) = (let v = b64_v3 a b c in
     [enc6 (drop_bit 18 v), enc6 (drop_bit 12 v AND 0x3f), enc6 (drop_bit 6 v AND 0x3f), enc6 (v AND 0x3f)]
     @ b64_of text)"
| "b64_of [a, b] = (let v = b64_v2 a b in
     [enc6 (drop_bit 10 v), enc6 (drop_bit 4 v AND 0x3f), enc6 (push_bit 2 (v AND 0xf)), ch CHR ''=''])"
| "b64_of [a] = (let v = ucast a in
     [enc6 (drop_bit 2 v), enc6 (push_bit 4 (v AND 3)), ch CHR ''='', ch CHR ''=''])"
| "b64_of [] = []"

lemma length_b64_of: "length (b64_of text) = (length text + 2) div 3 * 4"
proof (induction "text" rule: b64_of.induct)
  case (1 a b c "text")
  have "(5 + length text) div 3 = Suc ((length text + 2) div 3)" by presburger
  with 1 show ?case by (simp add: Let_def)
qed (simp_all add: Let_def)

lemma b64encode_eq:
  "length buf + length (b64_of text) \<le> cap \<Longrightarrow>
     \<exists>rest buf'. b64encode_loop cap text buf = Some (rest, buf') \<and> b64encode_tail cap rest buf' = Some (buf @ b64_of text)"
proof (induction "text" arbitrary: buf rule: b64_of.induct)
  case (1 a b c "text")
  let ?v = "b64_v3 a b c"
  let ?q = "[enc6 (drop_bit 18 ?v), enc6 (drop_bit 12 ?v AND 0x3f), enc6 (drop_bit 6 ?v AND 0x3f), enc6 (?v AND 0x3f)]"
  from 1 have "out_put cap buf ?q = Some (buf @ ?q)" by (simp add: Let_def)
  then show ?case using "1.IH" [OF refl, of "buf @ ?q"] "1.prems" by (simp add: Let_def)
qed (simp_all add: Let_def b64encode_tail_def)

lemma lb64encode_eq:
  assumes sz: "(length text + 2) div 3 * 4 < 2 ^ 31"
  shows "lb64encode text = Some (Inr (b64_of text))"
proof -
  let ?cap = "out_cap (length (b64_of text) > SMALL_CHUNK) (length (b64_of text))"
  have "length [] + length (b64_of text) \<le> ?cap" by (simp add: out_cap_def)
  from b64encode_eq [OF this] obtain rest buf where "b64encode_loop ?cap text [] = Some (rest, buf)"
    "b64encode_tail ?cap rest buf = Some (b64_of text)" by auto
  then show ?thesis using sz push_whole [of "b64_of text"]
    by (simp add: lb64encode_def Let_def int_index_def length_b64_of)
qed

lemma gather_full [simp]: "4 \<le> length cs \<Longrightarrow> b64_gather cs text = Some (cs, text)"
  by (cases "text") simp_all

lemma u32_uint [simp]: "u32_int (uint v) = v"
  by (simp add: u32_int_def)

lemma uint_neg [simp]: "uint v \<noteq> -1" "uint v \<noteq> -2" "- 1 \<noteq> uint v" "- 2 \<noteq> uint v" for v :: u32
  using uint_nonnegative [of v] by linarith+

lemma group3:
  "b64_group [uint (drop_bit 18 v), uint (drop_bit 12 v AND 0x3f), uint (drop_bit 6 v AND 0x3f), uint (v AND 0x3f)]
     = Inr [a, b, c]" if "v = b64_v3 a b c"
  by (simp add: b64_group_def Let_def and_masks sextets octets3 that)

lemma int_masks: "uint v AND 3 = uint (v AND 3)" "uint v AND 0xf = uint (v AND 0xf)" for v :: u32
  by (simp_all add: uint_and)

lemma int_drop: "drop_bit k (uint v) = uint (drop_bit k v)" for v :: u32
  by (simp add: unsigned_drop_bit_eq take_bit_int_eq_self uint_bounded [where w = v, simplified])

lemma group2:
  "b64_group [uint (drop_bit 10 v), uint (drop_bit 4 v AND 0x3f), uint (push_bit 2 (v AND 0xf)), -2] = Inr [a, b]"
  if "v = b64_v2 a b"
proof -
  have "push_bit 2 (take_bit 4 v) AND 3 = 0" "drop_bit 2 (push_bit 2 (take_bit 4 v)) = take_bit 4 v"
    by (rule bit_word_eqI, auto simp: and_masks bit_simps)+
  then show ?thesis
    by (simp add: b64_group_def Let_def and_masks int_masks int_drop sextets octets2 that)
qed

lemma ucast_ucast: "ucast (ucast (a :: u8) :: u32) = a"
  by (rule bit_word_eqI) (auto simp: bit_simps dest: bit_imp_le_length)

lemma group1:
  "b64_group [uint (drop_bit 2 v), uint (push_bit 4 (v AND 3)), -2, -2] = Inr [a]" if "v = (ucast a :: u32)"
proof -
  have "push_bit 4 (take_bit 2 v) AND 0xf = 0" "drop_bit 4 (push_bit 4 (take_bit 2 v)) = take_bit 2 v"
    by (rule bit_word_eqI, auto simp: and_masks bit_simps)+
  then show ?thesis
    by (simp add: b64_group_def Let_def and_masks int_masks int_drop sextets that ucast_ucast)
qed

lemma b64decode_Nil [simp]: "b64decode_loop cap [] buf = Some (Inr buf)"
  by (simp add: b64decode_loop.simps)

lemma b64decode_eq:
  "length buf + length text \<le> cap \<Longrightarrow> b64decode_loop cap (b64_of text) buf = Some (Inr (buf @ text))"
proof (induction "text" arbitrary: buf rule: b64_of.induct)
  case (1 a b c "text")
  then show ?case
    by (subst b64decode_loop.simps) (simp add: Let_def b64index_enc6 and_masks small_sextets [unfolded and_masks] group3 [OF refl, unfolded and_masks])
next
  case (2 a b)
  then show ?case
    by (subst b64decode_loop.simps) (simp add: Let_def b64index_enc6 and_masks small_sextets [unfolded and_masks] group2 [OF refl, unfolded and_masks])
next
  case (3 a)
  then show ?case
    by (subst b64decode_loop.simps) (simp add: Let_def b64index_enc6 and_masks small_sextets [unfolded and_masks] group1 [OF refl, unfolded and_masks])
qed simp

lemma lb64decode_eq:
  assumes "(length text + 2) div 3 * 4 < 2 ^ 31"
  shows "lb64decode (b64_of text) = Some (Inr text)"
proof -
  have "length text \<le> (length (b64_of text) + 3) div 4 * 3" unfolding length_b64_of by presburger
  then show ?thesis using assms
    by (simp add: lb64decode_def Let_def int_index_def length_b64_of b64decode_eq out_cap_def)
qed

interpretation base64: coding lb64encode lb64decode b64_of "3 * 2 ^ 29 - 2"
proof
  fix s :: bytes assume "length s < 3 * 2 ^ 29 - 2"
  then have "(length s + 2) div 3 * 4 < 2 ^ 31" by simp
  then show "lb64encode s = Some (Inr (b64_of s))" "lb64decode (b64_of s) = Some (Inr s)"
    by (simp_all add: lb64encode_eq lb64decode_eq)
qed

section \<open>Exclusive or undoes itself; what the hexadecimal decoder accepts\<close>

lemma lxor_str_involution:
  assumes "k \<noteq> []" "length s < 2 ^ 31"
  shows "\<exists>t. lxor_str s k = Some (Inr t) \<and> lxor_str t k = Some (Inr s)"
proof -
  let ?t = "map (\<lambda>i. s ! i XOR k ! (i mod length k)) [0..<length s]"
  have t: "map (\<lambda>i. ?t ! i XOR k ! (i mod length k)) [0..<length ?t] = s"
    by (rule nth_equalityI) (simp_all add: xor.assoc)
  have "lxor_str u k = Some (Inr (map (\<lambda>i. u ! i XOR k ! (i mod length k)) [0..<length u]))"
    if "length u = length s" for u
    using assms that by (simp add: lxor_str_def int_index_def)
  from this [of s] this [of ?t] show ?thesis unfolding t by simp
qed

text \<open>The decoder compares with 16 and takes every character below \<open>0\<close> or above \<open>9\<close> for a
  letter: besides the digits it accepts \<open>W\<close> to \<open>g\<close>.\<close>

lemma fromhex_accepts_letters: "lfromhex [87, 95] = Some (Inr [0x08])" "lfromhex [48, 103] = Some (Inr [0x10])"
  by (simp_all add: lfromhex_def int_index_def out_cap_def SMALL_CHUNK_def push_lstring_def HEX_def ch_def of_char_def)

end
