(* ===== verification/Des.thy ===== *)
theory Des
  imports Codec
begin

unbundle bit_operations_syntax

text \<open>
  \<^verbatim>\<open>lualib-src/lua-crypt.c\<close>: the DES cipher and its use on Lua strings. The tables, the
  permutation and round macros and the key schedule are those of the source; an index into a
  table is masked to its length. A text is padded by \<open>0x80\<close> and zeros to whole blocks of eight
  bytes, each block is encrypted on its own.
\<close>

section \<open>Tables\<close>

definition SB1 :: "u32 list" where
  "SB1 = [
     0x01010400, 0x00000000, 0x00010000, 0x01010404, 0x01010004, 0x00010404, 0x00000004, 0x00010000,
     0x00000400, 0x01010400, 0x01010404, 0x00000400, 0x01000404, 0x01010004, 0x01000000, 0x00000004,
     0x00000404, 0x01000400, 0x01000400, 0x00010400, 0x00010400, 0x01010000, 0x01010000, 0x01000404,
     0x00010004, 0x01000004, 0x01000004, 0x00010004, 0x00000000, 0x00000404, 0x00010404, 0x01000000,
     0x00010000, 0x01010404, 0x00000004, 0x01010000, 0x01010400, 0x01000000, 0x01000000, 0x00000400,
     0x01010004, 0x00010000, 0x00010400, 0x01000004, 0x00000400, 0x00000004, 0x01000404, 0x00010404,
     0x01010404, 0x00010004, 0x01010000, 0x01000404, 0x01000004, 0x00000404, 0x00010404, 0x01010400,
     0x00000404, 0x01000400, 0x01000400, 0x00000000, 0x00010004, 0x00010400, 0x00000000, 0x01010004]"

definition SB2 :: "u32 list" where
  "SB2 = [
     0x80108020, 0x80008000, 0x00008000, 0x00108020, 0x00100000, 0x00000020, 0x80100020, 0x80008020,
     0x80000020, 0x80108020, 0x80108000, 0x80000000, 0x80008000, 0x00100000, 0x00000020, 0x80100020,
     0x00108000, 0x00100020, 0x80008020, 0x00000000, 0x80000000, 0x00008000, 0x00108020, 0x80100000,
     0x00100020, 0x80000020, 0x00000000, 0x00108000, 0x00008020, 0x80108000, 0x80100000, 0x00008020,
     0x00000000, 0x00108020, 0x80100020, 0x00100000, 0x80008020, 0x80100000, 0x80108000, 0x00008000,
     0x80100000, 0x80008000, 0x00000020, 0x80108020, 0x00108020, 0x00000020, 0x00008000, 0x80000000,
     0x00008020, 0x80108000, 0x00100000, 0x80000020, 0x00100020, 0x80008020, 0x80000020, 0x00100020,
     0x00108000, 0x00000000, 0x80008000, 0x00008020, 0x80000000, 0x80100020, 0x80108020, 0x00108000]"

definition SB3 :: "u32 list" where
  "SB3 = [
     0x00000208, 0x08020200, 0x00000000, 0x08020008, 0x08000200, 0x00000000, 0x00020208, 0x08000200,
     0x00020008, 0x08000008, 0x08000008, 0x00020000, 0x08020208, 0x00020008, 0x08020000, 0x00000208,
     0x08000000, 0x00000008, 0x08020200, 0x00000200, 0x00020200, 0x08020000, 0x08020008, 0x00020208,
     0x08000208, 0x00020200, 0x00020000, 0x08000208, 0x00000008, 0x08020208, 0x00000200, 0x08000000,
     0x08020200, 0x08000000, 0x00020008, 0x00000208, 0x00020000, 0x08020200, 0x08000200, 0x00000000,
     0x00000200, 0x00020008, 0x08020208, 0x08000200, 0x08000008, 0x00000200, 0x00000000, 0x08020008,
     0x08000208, 0x00020000, 0x08000000, 0x08020208, 0x00000008, 0x00020208, 0x00020200, 0x08000008,
     0x08020000, 0x08000208, 0x00000208, 0x08020000, 0x00020208, 0x00000008, 0x08020008, 0x00020200]"

definition SB4 :: "u32 list" where
  "SB4 = [
     0x00802001, 0x00002081, 0x00002081, 0x00000080, 0x00802080, 0x00800081, 0x00800001, 0x00002001,
     0x00000000, 0x00802000, 0x00802000, 0x00802081, 0x00000081, 0x00000000, 0x00800080, 0x00800001,
     0x00000001, 0x00002000, 0x00800000, 0x00802001, 0x00000080, 0x00800000, 0x00002001, 0x00002080,
     0x00800081, 0x00000001, 0x00002080, 0x00800080, 0x00002000, 0x00802080, 0x00802081, 0x00000081,
     0x00800080, 0x00800001, 0x00802000, 0x00802081, 0x00000081, 0x00000000, 0x00000000, 0x00802000,
     0x00002080, 0x00800080, 0x00800081, 0x00000001, 0x00802001, 0x00002081, 0x00002081, 0x00000080,
     0x00802081, 0x00000081, 0x00000001, 0x00002000, 0x00800001, 0x00002001, 0x00802080, 0x00800081,
     0x00002001, 0x00002080, 0x00800000, 0x00802001, 0x00000080, 0x00800000, 0x00002000, 0x00802080]"

definition SB5 :: "u32 list" where
  "SB5 = [
     0x00000100, 0x02080100, 0x02080000, 0x42000100, 0x00080000, 0x00000100, 0x40000000, 0x02080000,
     0x40080100, 0x00080000, 0x02000100, 0x40080100, 0x42000100, 0x42080000, 0x00080100, 0x40000000,
     0x02000000, 0x40080000, 0x40080000, 0x00000000, 0x40000100, 0x42080100, 0x42080100, 0x02000100,
     0x42080000, 0x40000100, 0x00000000, 0x42000000, 0x02080100, 0x02000000, 0x42000000, 0x00080100,
     0x00080000, 0x42000100, 0x00000100, 0x02000000, 0x40000000, 0x02080000, 0x42000100, 0x40080100,
     0x02000100, 0x40000000, 0x42080000, 0x02080100, 0x40080100, 0x00000100, 0x02000000, 0x42080000,
     0x42080100, 0x00080100, 0x42000000, 0x42080100, 0x02080000, 0x00000000, 0x40080000, 0x42000000,
     0x00080100, 0x02000100, 0x40000100, 0x00080000, 0x00000000, 0x40080000, 0x02080100, 0x40000100]"

definition SB6 :: "u32 list" where
  "SB6 = [
     0x20000010, 0x20400000, 0x00004000, 0x20404010, 0x20400000, 0x00000010, 0x20404010, 0x00400000,
     0x20004000, 0x00404010, 0x00400000, 0x20000010, 0x00400010, 0x20004000, 0x20000000, 0x00004010,
     0x00000000, 0x00400010, 0x20004010, 0x00004000, 0x00404000, 0x20004010, 0x00000010, 0x20400010,
     0x20400010, 0x00000000, 0x00404010, 0x20404000, 0x00004010, 0x00404000, 0x20404000, 0x20000000,
     0x20004000, 0x00000010, 0x20400010, 0x00404000, 0x20404010, 0x00400000, 0x00004010, 0x20000010,
     0x00400000, 0x20004000, 0x20000000, 0x00004010, 0x20000010, 0x20404010, 0x00404000, 0x20400000,
     0x00404010, 0x20404000, 0x00000000, 0x20400010, 0x00000010, 0x00004000, 0x20400000, 0x00404010,
     0x00004000, 0x00400010, 0x20004010, 0x00000000, 0x20404000, 0x20000000, 0x00400010, 0x20004010]"

definition SB7 :: "u32 list" where
  "SB7 = [
     0x00200000, 0x04200002, 0x04000802, 0x00000000, 0x00000800, 0x04000802, 0x00200802, 0x04200800,
     0x04200802, 0x00200000, 0x00000000, 0x04000002, 0x00000002, 0x04000000, 0x04200002, 0x00000802,
     0x04000800, 0x00200802, 0x00200002, 0x04000800, 0x04000002, 0x04200000, 0x04200800, 0x00200002,
     0x04200000, 0x00000800, 0x00000802, 0x04200802, 0x00200800, 0x00000002, 0x04000000, 0x00200800,
     0x04000000, 0x00200800, 0x00200000, 0x04000802, 0x04000802, 0x04200002, 0x04200002, 0x00000002,
     0x00200002, 0x04000000, 0x04000800, 0x00200000, 0x04200800, 0x00000802, 0x00200802, 0x04200800,
     0x00000802, 0x04000002, 0x04200802, 0x04200000, 0x00200800, 0x00000000, 0x00000002, 0x04200802,
     0x00000000, 0x00200802, 0x04200000, 0x00000800, 0x04000002, 0x04000800, 0x00000800, 0x00200002]"

definition SB8 :: "u32 list" where
  "SB8 = [
     0x10001040, 0x00001000, 0x00040000, 0x10041040, 0x10000000, 0x10001040, 0x00000040, 0x10000000,
     0x00040040, 0x10040000, 0x10041040, 0x00041000, 0x10041000, 0x00041040, 0x00001000, 0x00000040,
     0x10040000, 0x10000040, 0x10001000, 0x00001040, 0x00041000, 0x00040040, 0x10040040, 0x10041000,
     0x00001040, 0x00000000, 0x00000000, 0x10040040, 0x10000040, 0x10001000, 0x00041040, 0x00040000,
     0x00041040, 0x00040000, 0x10041000, 0x00001000, 0x00000040, 0x10040040, 0x00001000, 0x00041040,
     0x10001000, 0x00000040, 0x10000040, 0x10040000, 0x10040040, 0x10000000, 0x00040000, 0x10001040,
     0x00000000, 0x10041040, 0x00040040, 0x10000040, 0x10040000, 0x10001000, 0x10001040, 0x00000000,
     0x10041040, 0x00041000, 0x00041000, 0x00001040, 0x00001040, 0x00040040, 0x10000000, 0x10041000]"

definition LHs :: "u32 list" where
  "LHs = [
     0x00000000, 0x00000001, 0x00000100, 0x00000101, 0x00010000, 0x00010001, 0x00010100, 0x00010101,
     0x01000000, 0x01000001, 0x01000100, 0x01000101, 0x01010000, 0x01010001, 0x01010100, 0x01010101]"

definition RHs :: "u32 list" where
  "RHs = [
     0x00000000, 0x01000000, 0x00010000, 0x01010000, 0x00000100, 0x01000100, 0x00010100, 0x01010100,
     0x00000001, 0x01000001, 0x00010001, 0x01010001, 0x00000101, 0x01000101, 0x00010101, 0x01010101]"

section \<open>Words and bytes\<close>

definition GET_UINT32 :: "bytes \<Rightarrow> nat \<Rightarrow> u32" where
  "GET_UINT32 b i = push_bit 24 (ucast (b ! i)) OR push_bit 16 (ucast (b ! (i + 1)))
     OR push_bit 8 (ucast (b ! (i + 2))) OR ucast (b ! (i + 3))"

definition PUT_UINT32 :: "u32 \<Rightarrow> bytes" where
  "PUT_UINT32 n = [ucast (drop_bit 24 n), ucast (drop_bit 16 n), ucast (drop_bit 8 n), ucast n]"

section \<open>Permutations and rounds\<close>

text \<open>The line \<open>T = ((X >> k) ^ Y) & m; Y ^= T; X ^= (T << k);\<close> of the macros.\<close>

definition swap_bits :: "nat \<Rightarrow> u32 \<Rightarrow> u32 \<times> u32 \<Rightarrow> u32 \<times> u32" where
  "swap_bits k m XY = (case XY of (X, Y) \<Rightarrow>
     let T = (drop_bit k X XOR Y) AND m in (X XOR push_bit k T, Y XOR T))"

definition rot1 :: "u32 \<Rightarrow> u32" where
  "rot1 X = (push_bit 1 X OR drop_bit 31 X) AND 0xFFFFFFFF"

definition rot31 :: "u32 \<Rightarrow> u32" where
  "rot31 X = (push_bit 31 X OR drop_bit 1 X) AND 0xFFFFFFFF"

definition DES_IP :: "u32 \<times> u32 \<Rightarrow> u32 \<times> u32" where
  "DES_IP XY = (
     let (X, Y) = swap_bits 4 0x0F0F0F0F XY;
         (X, Y) = swap_bits 16 0x0000FFFF (X, Y);
         (Y, X) = swap_bits 2 0x33333333 (Y, X);
         (Y, X) = swap_bits 8 0x00FF00FF (Y, X);
         Y = rot1 Y;
         (X, Y) = swap_bits 0 0xAAAAAAAA (X, Y);
         X = rot1 X
     in (X, Y))"

definition DES_FP :: "u32 \<times> u32 \<Rightarrow> u32 \<times> u32" where
  "DES_FP XY = (
     let (X, Y) = XY;
         X = rot31 X;
         (X, Y) = swap_bits 0 0xAAAAAAAA (X, Y);
         Y = rot31 Y;
         (Y, X) = swap_bits 8 0x00FF00FF (Y, X);
         (Y, X) = swap_bits 2 0x33333333 (Y, X);
         (X, Y) = swap_bits 16 0x0000FFFF (X, Y)
     in swap_bits 4 0x0F0F0F0F (X, Y))"

definition sbox :: "u32 list \<Rightarrow> nat \<Rightarrow> u32 \<Rightarrow> u32" where
  "sbox SB k T = SB ! unat (drop_bit k T AND 0x3F)"

text \<open>One round: the new value of the second word. \<open>k1\<close>, \<open>k2\<close> are the two key words it reads.\<close>

definition DES_ROUND :: "u32 \<Rightarrow> u32 \<Rightarrow> u32 \<Rightarrow> u32 \<Rightarrow> u32" where
  "DES_ROUND k1 k2 X Y = (
     let T = k1 XOR X;
         Y = Y XOR (sbox SB8 0 T XOR sbox SB6 8 T XOR sbox SB4 16 T XOR sbox SB2 24 T);
         T = k2 XOR (push_bit 28 X OR drop_bit 4 X)
     in Y XOR (sbox SB7 0 T XOR sbox SB5 8 T XOR sbox SB3 16 T XOR sbox SB1 24 T))"

section \<open>Key schedule\<close>

definition pc1_left :: "u32 \<Rightarrow> u32" where
  "pc1_left X = (
     let l = (\<lambda>k. LHs ! unat (drop_bit k X AND 0xF))
     in push_bit 3 (l 0) OR push_bit 2 (l 8) OR push_bit 1 (l 16) OR l 24
        OR push_bit 7 (l 5) OR push_bit 6 (l 13) OR push_bit 5 (l 21) OR push_bit 4 (l 29))"

definition pc1_right :: "u32 \<Rightarrow> u32" where
  "pc1_right Y = (
     let r = (\<lambda>k. RHs ! unat (drop_bit k Y AND 0xF))
     in push_bit 3 (r 1) OR push_bit 2 (r 9) OR push_bit 1 (r 17) OR r 25
        OR push_bit 7 (r 4) OR push_bit 6 (r 12) OR push_bit 5 (r 20) OR push_bit 4 (r 28))"

definition rot28 :: "nat \<Rightarrow> u32 \<Rightarrow> u32" where
  "rot28 k X = (push_bit k X OR drop_bit (28 - k) X) AND 0x0FFFFFFF"

definition subkey1 :: "u32 \<Rightarrow> u32 \<Rightarrow> u32" where
  "subkey1 X Y = (push_bit 4 X AND 0x24000000) OR (push_bit 28 X AND 0x10000000) OR (push_bit 14 X AND 0x08000000)
      OR (push_bit 18 X AND 0x02080000) OR (push_bit 6 X AND 0x01000000) OR (push_bit 9 X AND 0x00200000)
      OR (drop_bit 1 X AND 0x00100000) OR (push_bit 10 X AND 0x00040000) OR (push_bit 2 X AND 0x00020000)
      OR (drop_bit 10 X AND 0x00010000) OR (drop_bit 13 Y AND 0x00002000) OR (drop_bit 4 Y AND 0x00001000)
      OR (push_bit 6 Y AND 0x00000800) OR (drop_bit 1 Y AND 0x00000400) OR (drop_bit 14 Y AND 0x00000200)
      OR (Y AND 0x00000100) OR (drop_bit 5 Y AND 0x00000020) OR (drop_bit 10 Y AND 0x00000010)
      OR (drop_bit 3 Y AND 0x00000008) OR (drop_bit 18 Y AND 0x00000004) OR (drop_bit 26 Y AND 0x00000002)
      OR (drop_bit 24 Y AND 0x00000001)"

definition subkey2 :: "u32 \<Rightarrow> u32 \<Rightarrow> u32" where
  "subkey2 X Y = (push_bit 15 X AND 0x20000000) OR (push_bit 17 X AND 0x10000000) OR (push_bit 10 X AND 0x08000000)
      OR (push_bit 22 X AND 0x04000000) OR (drop_bit 2 X AND 0x02000000) OR (push_bit 1 X AND 0x01000000)
      OR (push_bit 16 X AND 0x00200000) OR (push_bit 11 X AND 0x00100000) OR (push_bit 3 X AND 0x00080000)
      OR (drop_bit 6 X AND 0x00040000) OR (push_bit 15 X AND 0x00020000) OR (drop_bit 4 X AND 0x00010000)
      OR (drop_bit 2 Y AND 0x00002000) OR (push_bit 8 Y AND 0x00001000) OR (drop_bit 14 Y AND 0x00000808)
      OR (drop_bit 9 Y AND 0x00000400) OR (Y AND 0x00000200) OR (push_bit 7 Y AND 0x00000100)
      OR (drop_bit 7 Y AND 0x00000020) OR (drop_bit 3 Y AND 0x00000011) OR (push_bit 2 Y AND 0x00000004)
      OR (drop_bit 21 Y AND 0x00000002)"

fun subkeys :: "nat list \<Rightarrow> u32 \<times> u32 \<Rightarrow> u32 list" where
  "subkeys [] XY = []"
| "subkeys (i # is) (X, Y) = (
     let k = (if i < 2 \<or> i = 8 \<or> i = 15 then 1 else 2);
         X = rot28 k X;
         Y = rot28 k Y
     in subkey1 X Y # subkey2 X Y # subkeys is (X, Y))"

definition des_main_ks :: "bytes \<Rightarrow> u32 list" where
  "des_main_ks key = (
     let X = GET_UINT32 key 0;
         Y = GET_UINT32 key 4;
         (Y, X) = swap_bits 4 0x0F0F0F0F (Y, X);
         (Y, X) = swap_bits 0 0x10101010 (Y, X);
         X = pc1_left X AND 0x0FFFFFFF;
         Y = pc1_right Y AND 0x0FFFFFFF
     in subkeys [0..<16] (X, Y))"

section \<open>Blocks\<close>

text \<open>The rounds come in pairs \<open>DES_ROUND(Y, X); DES_ROUND(X, Y)\<close>.\<close>

fun des_rounds :: "u32 list \<Rightarrow> u32 \<times> u32 \<Rightarrow> u32 \<times> u32" where
  "des_rounds (k1 # k2 # k3 # k4 # SK) (X, Y) = (
     let X = DES_ROUND k1 k2 Y X;
         Y = DES_ROUND k3 k4 X Y
     in des_rounds SK (X, Y))"
| "des_rounds SK XY = XY"

definition des_crypt :: "u32 list \<Rightarrow> bytes \<Rightarrow> bytes" where
  "des_crypt SK input = (
     let (X, Y) = DES_IP (GET_UINT32 input 0, GET_UINT32 input 4);
         (X, Y) = des_rounds SK (X, Y);
         (Y, X) = DES_FP (Y, X)
     in PUT_UINT32 Y @ PUT_UINT32 X)"

section \<open>Strings\<close>

definition des_key :: "bytes \<Rightarrow> crypt_error + u32 list" where
  "des_key key = (if length key \<noteq> 8 then Inl (InvalidKeySize (length key)) else Inr (des_main_ks key))"

text \<open>The whole blocks of a text; the rest is left over.\<close>

function des_blocks :: "nat \<Rightarrow> u32 list \<Rightarrow> bytes \<Rightarrow> bytes \<Rightarrow> (bytes \<times> bytes) option" where
  "des_blocks cap SK text buf = (
     if 8 \<le> length text then do {
       buf \<leftarrow> out_put cap buf (des_crypt SK (take 8 text));
       des_blocks cap SK (drop 8 text) buf
     } else Some (text, buf))"
  by pat_completeness auto
termination by (relation "measure (\<lambda>(cap, SK, text, buf). length text)") auto

declare des_blocks.simps [simp del]

definition des_tail :: "bytes \<Rightarrow> bytes" where
  "des_tail rest = map (\<lambda>j. if j < length rest then rest ! j else if j = length rest then 0x80 else 0) [0..<8]"

definition ldesencode :: "bytes \<Rightarrow> bytes \<Rightarrow> crypt_result" where
  "ldesencode key text = (case des_key key of
     Inl e \<Rightarrow> Some (Inl e)
   | Inr SK \<Rightarrow> do {
       let textsz = length text;
       let chunksz = (textsz + 8) div 8 * 8;
       assert_opt (int_index textsz);
       let cap = out_cap (chunksz > SMALL_CHUNK) chunksz;
       (rest, buf) \<leftarrow> des_blocks cap SK text [];
       buf \<leftarrow> out_put cap buf (des_crypt SK (des_tail rest));
       push_lstring buf chunksz
     })"

definition decode_keys :: "u32 list \<Rightarrow> u32 list" where
  "decode_keys ESK = concat (map (\<lambda>i. [ESK ! (30 - 2 * i), ESK ! (31 - 2 * i)]) [0..<16])"

text \<open>The loop over the last eight bytes, from the end: the number of bytes to cut off, or an
  error for a byte that is neither 0 nor \<open>0x80\<close>. The index is an \<open>int\<close> and its bound
  \<open>textsz-8\<close> unsigned: with a text of eight bytes the bound is 0, the test holds for the index
  -1 too, and the code reads in front of the buffer (\<open>None\<close>).\<close>

fun padding_loop :: "nat \<Rightarrow> bytes \<Rightarrow> nat \<Rightarrow> (crypt_error + nat) option" where
  "padding_loop bound [] padding = (if bound = 0 then None else Some (Inr padding))"
| "padding_loop bound (b # bs) padding = (
     if b = 0 then padding_loop bound bs (padding + 1)
     else if b = 0x80 then Some (Inr padding)
     else Some (Inl InvalidDesText))"

definition ldesdecode :: "bytes \<Rightarrow> bytes \<Rightarrow> crypt_result" where
  "ldesdecode key text = (case des_key key of
     Inl e \<Rightarrow> Some (Inl e)
   | Inr ESK \<Rightarrow> (
       let SK = decode_keys ESK; textsz = length text in
       if textsz mod 8 \<noteq> 0 \<or> textsz = 0 then Some (Inl (InvalidDesLength textsz))
       else do {
         assert_opt (int_index textsz);
         (rest, buf) \<leftarrow> des_blocks (out_cap (textsz > SMALL_CHUNK) textsz) SK text [];
         r \<leftarrow> padding_loop (textsz - 8) (take 8 (rev buf)) 1;
         (case r of
            Inl e \<Rightarrow> Some (Inl e)
          | Inr padding \<Rightarrow>
              if padding > 8 then Some (Inl InvalidDesText)
              else push_lstring buf (textsz - padding))
       }))"

section \<open>The permutations are inverse\<close>

lemma swap_bits_involution:
  assumes "drop_bit (32 - k) m = 0" "k < 32"
  shows "swap_bits k m (swap_bits k m XY) = XY"
proof -
  have m: "n + k < 32" if "bit m n" for n
  proof (rule ccontr)
    assume "\<not> n + k < 32"
    then have "n = 32 - k + (n - (32 - k))" using assms(2) by simp
    with that have "bit (drop_bit (32 - k) m) (n - (32 - k))" by (simp only: bit_drop_bit_eq o_def)
    with assms(1) show False by simp
  qed
  obtain X Y where XY: "XY = (X, Y)" by force
  define T where "T = (drop_bit k X XOR Y) AND m"
  have "drop_bit k (push_bit k T) = T"
    by (rule bit_word_eqI) (auto simp: T_def bit_simps dest: m)
  then have "(drop_bit k (X XOR push_bit k T) XOR (Y XOR T)) AND m = T"
    by (simp add: T_def xor.assoc xor.left_commute [of _ "drop_bit k X XOR Y"] ac_simps)
  then show ?thesis unfolding XY swap_bits_def T_def [symmetric] Let_def split_def fst_conv snd_conv
    by (simp add: xor.assoc)
qed

lemma bit_rotate:
  "0 < k \<Longrightarrow> k < 32 \<Longrightarrow> n < 32 \<Longrightarrow>
     bit (push_bit k X OR drop_bit (32 - k) X) n \<longleftrightarrow> bit (X :: u32) (if n < k then n + 32 - k else n - k)"
  by (auto simp: bit_simps ac_simps dest: bit_imp_le_length)

lemma rot_inverse [simp]: "rot31 (rot1 X) = X" "rot1 (rot31 X) = X"
proof -
  have ff: "(X :: u32) AND 0xFFFFFFFF = X" for X
    using take_bit_eq_mask [of 32 X] by (simp add: mask_eq_exp_minus_1 take_bit_word_eq_self)
  have r1: "bit (rot1 X) n = bit X (if n < 1 then 31 else n - 1)" if "n < 32" for n X
    using that bit_rotate [of 1 n X] unfolding rot1_def ff by simp
  have r31: "bit (rot31 X) n = bit X (if n = 31 then 0 else n + 1)" if "n < 32" for n X
    using that bit_rotate [of 31 n X] unfolding rot31_def ff by (cases "n = 31") simp_all
  show "rot31 (rot1 X) = X" "rot1 (rot31 X) = X"
    by (rule bit_word_eqI, auto simp: r1 r31)+
qed

lemma swaps [simp]:
  "swap_bits 4 0x0F0F0F0F (swap_bits 4 0x0F0F0F0F XY) = XY"
  "swap_bits 16 0x0000FFFF (swap_bits 16 0x0000FFFF XY) = XY"
  "swap_bits 2 0x33333333 (swap_bits 2 0x33333333 XY) = XY"
  "swap_bits 8 0x00FF00FF (swap_bits 8 0x00FF00FF XY) = XY"
  "swap_bits 0 0xAAAAAAAA (swap_bits 0 0xAAAAAAAA XY) = XY"
  by (rule swap_bits_involution; simp)+

lemma IP_FP [simp]: "DES_IP (DES_FP XY) = XY" "DES_FP (DES_IP XY) = XY"
  by (simp_all add: DES_IP_def DES_FP_def split_def Let_def)

section \<open>The rounds run backwards\<close>

lemma round_involution [simp]: "DES_ROUND k1 k2 X (DES_ROUND k1 k2 X Y) = Y"
  by (simp add: DES_ROUND_def Let_def xor.assoc xor.left_commute)

fun rev_keys :: "'a list \<Rightarrow> 'a list" where
  "rev_keys (k1 # k2 # SK) = rev_keys SK @ [k1, k2]"
| "rev_keys SK = []"

lemma des_rounds_append:
  "length A mod 4 = 0 \<Longrightarrow> des_rounds (A @ B) XY = des_rounds B (des_rounds A XY)"
proof (induction A XY rule: des_rounds.induct)
  case (1 k1 k2 k3 k4 SK X Y)
  then show ?case by (simp add: Let_def)
qed auto

lemma length_rev_keys: "even (length SK) \<Longrightarrow> length (rev_keys SK) = length SK"
  by (induction SK rule: rev_keys.induct) auto

lemma rounds_back:
  "length SK mod 4 = 0 \<Longrightarrow> des_rounds (rev_keys SK) (prod.swap (des_rounds SK XY)) = prod.swap XY"
proof (induction SK XY rule: des_rounds.induct)
  case (1 k1 k2 k3 k4 SK X Y)
  define X' where "X' = DES_ROUND k1 k2 Y X"
  define Y' where "Y' = DES_ROUND k3 k4 X' Y"
  have l: "length SK mod 4 = 0" using 1(2) by simp
  have "even (length SK)" using l by presburger
  then have "length (rev_keys SK) mod 4 = 0" using l by (simp add: length_rev_keys)
  then have "des_rounds (rev_keys (k1 # k2 # k3 # k4 # SK)) (prod.swap (des_rounds (k1 # k2 # k3 # k4 # SK) (X, Y)))
     = des_rounds [k3, k4, k1, k2] (prod.swap (X', Y'))"
    using 1(1) [OF X'_def Y'_def l] by (simp add: des_rounds_append X'_def [symmetric] Y'_def [symmetric] Let_def)
  also have "\<dots> = prod.swap (X, Y)" by (simp add: Let_def X'_def Y'_def)
  finally show ?case .
qed auto

lemma length_subkeys: "length (subkeys is XY) = 2 * length is"
  by (induction "is" XY rule: subkeys.induct) (simp_all add: Let_def)

lemma length_ks [simp]: "length (des_main_ks key) = 32"
  by (simp add: des_main_ks_def Let_def split_def length_subkeys)

lemma list_by_nth: "length xs = n \<Longrightarrow> xs = map ((!) xs) [0..<n]"
  using map_nth [of xs] by simp

lemma decode_keys_rev:
  assumes "length ESK = 32"
  shows "decode_keys ESK = rev_keys ESK"
proof -
  have "rev_keys ESK = rev_keys (map ((!) ESK) [0..<32])" using list_by_nth [OF assms] by simp
  then show ?thesis by (simp add: decode_keys_def upt_rec eval_nat_numeral)
qed

section \<open>Blocks\<close>

lemma get_bytes: "push_bit 24 (ucast (ucast (drop_bit 24 X) :: u8)) OR push_bit 16 (ucast (ucast (drop_bit 16 X) :: u8))
    OR push_bit 8 (ucast (ucast (drop_bit 8 X) :: u8)) OR ucast (ucast X :: u8) = (X :: u32)"
proof (rule bit_word_eqI)
  fix n assume "n < LENGTH(32)"
  then consider "n < 8" | "8 \<le> n" "n < 16" | "16 \<le> n" "n < 24" | "24 \<le> n" "n < 32" by fastforce
  then show "bit (push_bit 24 (ucast (ucast (drop_bit 24 X) :: u8)) OR push_bit 16 (ucast (ucast (drop_bit 16 X) :: u8))
    OR push_bit 8 (ucast (ucast (drop_bit 8 X) :: u8)) OR ucast (ucast X :: u8) :: u32) n = bit X n"
    by cases (auto simp: bit_simps less_diff_conv2)
qed

lemma get_put: "GET_UINT32 (PUT_UINT32 X @ ys) 0 = X" "GET_UINT32 (PUT_UINT32 Y @ PUT_UINT32 X) 4 = X"
  by (simp_all add: GET_UINT32_def PUT_UINT32_def get_bytes)

lemma put_bytes:
  "PUT_UINT32 (GET_UINT32 b i) = [b ! i, b ! (i + 1), b ! (i + 2), b ! (i + 3)]"
  unfolding PUT_UINT32_def GET_UINT32_def list.inject
  by (intro conjI refl; rule bit_word_eqI) (auto simp: bit_simps dest: bit_imp_le_length)

lemma put_get: "length b = 8 \<Longrightarrow> PUT_UINT32 (GET_UINT32 b 0) @ PUT_UINT32 (GET_UINT32 b 4) = b"
  using list_by_nth [of b 8, symmetric] by (simp add: put_bytes upt_rec eval_nat_numeral)

lemma length_put [simp]: "length (PUT_UINT32 X) = 4"
  by (simp add: PUT_UINT32_def)

lemma length_des_crypt [simp]: "length (des_crypt SK b) = 8"
  by (simp add: des_crypt_def Let_def split_def)

lemma des_block_back:
  assumes "length SK = 32" "length b = 8"
  shows "des_crypt (decode_keys SK) (des_crypt SK b) = b"
proof -
  define XY where "XY = DES_IP (GET_UINT32 b 0, GET_UINT32 b 4)"
  define Z where "Z = DES_FP (prod.swap (des_rounds SK XY))"
  have "des_crypt SK b = PUT_UINT32 (fst Z) @ PUT_UINT32 (snd Z)"
    by (simp add: des_crypt_def Let_def split_def XY_def Z_def prod.swap_def)
  then have "des_crypt (decode_keys SK) (des_crypt SK b)
     = (let W = DES_FP (prod.swap (des_rounds (rev_keys SK) (DES_IP Z))) in PUT_UINT32 (fst W) @ PUT_UINT32 (snd W))"
    using assms(1) by (simp add: des_crypt_def Let_def split_def get_put decode_keys_rev prod.swap_def)
  also have "DES_FP (prod.swap (des_rounds (rev_keys SK) (DES_IP Z))) = (GET_UINT32 b 0, GET_UINT32 b 4)"
    using assms(1) by (simp add: Z_def rounds_back) (simp add: XY_def)
  finally show ?thesis using assms(2) by (simp add: put_get)
qed

section \<open>Strings\<close>

definition des_pad :: "bytes \<Rightarrow> bytes" where
  "des_pad text = text @ 0x80 # replicate (7 - length text mod 8) 0"

text \<open>Every block of a text whose length is a multiple of eight, through one cipher.\<close>

function map_blocks :: "(bytes \<Rightarrow> bytes) \<Rightarrow> bytes \<Rightarrow> bytes" where
  "map_blocks f text = (if 8 \<le> length text then f (take 8 text) @ map_blocks f (drop 8 text) else [])"
  by pat_completeness auto
termination by (relation "measure (\<lambda>(f, text). length text)") auto

declare map_blocks.simps [simp del]

lemma map_blocks_short [simp]: "length text < 8 \<Longrightarrow> map_blocks f text = []"
  by (simp add: map_blocks.simps)

lemma map_blocks_Cons: "length b = 8 \<Longrightarrow> map_blocks f (b @ text) = f b @ map_blocks f text"
  by (simp add: map_blocks.simps [of f "b @ text"])

lemma length_map_blocks:
  "(\<And>b. length (f b) = 8) \<Longrightarrow> length (map_blocks f text) = length text div 8 * 8"
proof (induction f "text" rule: map_blocks.induct)
  case (1 f "text")
  then show ?case by (cases "8 \<le> length text") (simp_all add: map_blocks.simps [of f "text"] le_div_geq)
qed

lemma map_blocks_inverse:
  "(\<And>b. length (f b) = 8) \<Longrightarrow> (\<And>b. length b = 8 \<Longrightarrow> g (f b) = b) \<Longrightarrow> length text mod 8 = 0 \<Longrightarrow>
     map_blocks g (map_blocks f text) = text"
proof (induction f "text" rule: map_blocks.induct)
  case (1 f "text")
  show ?case
  proof (cases "8 \<le> length text")
    case True
    have "length (drop 8 text) mod 8 = 0" using 1(4) True by (simp add: le_mod_geq)
    then show ?thesis using 1 True
      by (simp add: map_blocks.simps [of f "text"] map_blocks_Cons)
  next
    case False
    then show ?thesis using 1(4) by simp
  qed
qed

lemma des_blocks_eq:
  "length buf + length text div 8 * 8 \<le> cap \<Longrightarrow>
     des_blocks cap SK text buf = Some (drop (length text div 8 * 8) text, buf @ map_blocks (des_crypt SK) text)"
proof (induction cap SK "text" buf rule: des_blocks.induct)
  case (1 cap SK "text" buf)
  show ?case
  proof (cases "8 \<le> length text")
    case True
    then have "length text div 8 = Suc ((length text - 8) div 8)" by (simp add: le_div_geq)
    with 1 True show ?thesis
      by (subst des_blocks.simps) (simp add: map_blocks.simps [of _ "text"] add.commute)
  next
    case False
    then show ?thesis by (subst des_blocks.simps) simp
  qed
qed

lemma map_blocks_append:
  "length A mod 8 = 0 \<Longrightarrow> map_blocks f (A @ B) = map_blocks f A @ map_blocks f B"
proof (induction f A rule: map_blocks.induct)
  case (1 f A)
  show ?case
  proof (cases "8 \<le> length A")
    case True
    have "length (drop 8 A) mod 8 = 0" using 1(2) True by (simp add: le_mod_geq)
    with 1(1) [OF True] True show ?thesis
      by (simp add: map_blocks.simps [of f A] map_blocks.simps [of f "A @ B"])
  next
    case False
    then show ?thesis using 1(2) by simp
  qed
qed

lemma des_tail_eq: "length rest < 8 \<Longrightarrow> des_tail rest = rest @ 0x80 # replicate (7 - length rest) 0"
  by (rule nth_equalityI) (auto simp: des_tail_def nth_append nth_Cons')

lemma des_pad_blocks:
  fixes "text" :: bytes
  defines "q \<equiv> length text div 8 * 8"
  shows "map_blocks f (des_pad text) = map_blocks f text @ f (des_tail (drop q text))"
proof -
  have q: "q \<le> length text" "q mod 8 = 0" "length text - q = length text mod 8"
    by (simp_all add: q_def minus_div_mult_eq_mod)
  then have rest: "length (drop q text) < 8" "7 - length (drop q text) = 7 - length text mod 8" by simp_all
  have t8: "length (des_tail (drop q text)) = 8" by (simp add: des_tail_def)
  have "des_pad text = take q text @ des_tail (drop q text)"
    using rest by (simp add: des_tail_eq des_pad_def append.assoc [symmetric] del: append.assoc length_drop)
  moreover have "map_blocks f (take q text @ drop q text) = map_blocks f (take q text)"
    using q rest(1) by (subst map_blocks_append) simp_all
  ultimately show ?thesis using q t8 map_blocks_Cons [of "des_tail (drop q text)" f "[]"]
    by (simp add: map_blocks_append)
qed

lemma length_des_pad: "length (des_pad text) = (length text + 8) div 8 * 8"
proof -
  have "length text = length text div 8 * 8 + length text mod 8" "length text mod 8 < 8"
    "(length text + 8) div 8 = Suc (length text div 8)" by simp_all
  then have "Suc (length text + (7 - length text mod 8)) = (length text + 8) div 8 * 8" by linarith
  then show ?thesis by (simp add: des_pad_def)
qed

definition des_code :: "bytes \<Rightarrow> bytes \<Rightarrow> bytes" where
  "des_code key text = map_blocks (des_crypt (des_main_ks key)) (des_pad text)"

lemma length_des_code: "length (des_code key text) = (length text + 8) div 8 * 8"
  by (simp add: des_code_def length_map_blocks length_des_pad)

lemma ldesencode_eq:
  assumes "length key = 8" "length text < 2 ^ 31"
  shows "ldesencode key text = Some (Inr (des_code key text))"
proof -
  let ?SK = "des_main_ks key" and ?n = "(length text + 8) div 8 * 8"
  let ?cap = "out_cap (?n > SMALL_CHUNK) ?n"
  have n: "?n = length text div 8 * 8 + 8" by (simp only: div_add_self2 distrib_right)
  have cap: "?n \<le> ?cap" by (simp add: out_cap_def)
  have "length text div 8 * 8 \<le> ?n" by simp
  then have b: "des_blocks ?cap ?SK text [] = Some (drop (length text div 8 * 8) text, map_blocks (des_crypt ?SK) text)"
    using cap des_blocks_eq [of "[]" "text" ?cap ?SK] by simp
  have "out_put ?cap (map_blocks (des_crypt ?SK) text) (des_crypt ?SK (des_tail (drop (length text div 8 * 8) text)))
      = Some (des_code key text)"
    using cap [unfolded n] unfolding n
    by (subst out_put_ok) (simp_all add: length_map_blocks des_code_def des_pad_blocks)
  with b show ?thesis using assms length_des_code [of key "text"] push_whole [of "des_code key text"]
    by (simp add: ldesencode_def des_key_def Let_def int_index_def)
qed

lemma padding_zeros:
  "padding_loop bound (replicate z 0 @ 0x80 # bs) n = Some (Inr (n + z))"
  by (induction z arbitrary: n) simp_all

lemma ldesdecode_eq:
  assumes "length key = 8" "length text < 2 ^ 31 - 8"
  shows "ldesdecode key (des_code key text) = Some (Inr text)"
proof -
  let ?c = "des_code key text"
  let ?SK = "decode_keys (des_main_ks key)"
  have m: "length ?c mod 8 = 0" "length ?c \<noteq> 0" "length ?c < 2 ^ 31"
    using assms(2) by (auto simp: length_des_code)
  have undone: "map_blocks (des_crypt ?SK) ?c = des_pad text"
    unfolding des_code_def by (rule map_blocks_inverse) (simp_all add: des_block_back length_des_pad)
  have "length ?c div 8 * 8 \<le> out_cap (length ?c > SMALL_CHUNK) (length ?c)" using m(1) by (auto simp: out_cap_def)
  then have "\<exists>rest. des_blocks (out_cap (length ?c > SMALL_CHUNK) (length ?c)) ?SK ?c [] = Some (rest, des_pad text)"
    using des_blocks_eq [of "[]" ?c _ ?SK] undone by simp
  moreover have "take 8 (rev (des_pad text)) = replicate (7 - length text mod 8) 0 @ 0x80 # take (length text mod 8) (rev text)"
    by (simp add: des_pad_def take_Cons' not_le)
  then have "padding_loop (length ?c - 8) (take 8 (rev (des_pad text))) 1 = Some (Inr (8 - length text mod 8))"
    by (simp add: padding_zeros Suc_diff_le [symmetric])
  moreover have "push_lstring (des_pad text) (length ?c - (8 - length text mod 8)) = Some (Inr text)"
  proof -
    have "length ?c = length text + (8 - length text mod 8)"
      using length_des_pad [of "text"] by (simp add: length_des_code des_pad_def Suc_diff_le [symmetric])
    then have "length ?c - (8 - length text mod 8) = length text" by simp
    then show ?thesis by (simp add: push_lstring_def des_pad_def)
  qed
  ultimately show ?thesis using assms(1) m
    by (auto simp: ldesdecode_def des_key_def Let_def int_index_def)
qed

lemma des_coding: "length key = 8 \<Longrightarrow> coding (ldesencode key) (ldesdecode key) (des_code key) (2 ^ 31 - 8)"
  by (rule coding.intro) (simp_all add: ldesencode_eq ldesdecode_eq)

text \<open>C21. A login token, a text encrypted under a key of eight bytes and sent in base64, is read
  back: every text below one gigabyte is encrypted and encoded without an error, decoding gives the
  encrypted text and decrypting it the text. No access leaves an output buffer.\<close>

theorem token_roundtrip:
  assumes "length key = 8" "length text < 2 ^ 30"
  shows "\<exists>c t. ldesencode key text = Some (Inr c) \<and> lb64encode c = Some (Inr t)
    \<and> lb64decode t = Some (Inr c) \<and> ldesdecode key c = Some (Inr text)"
proof -
  have "length (des_code key text) < 3 * 2 ^ 29 - 2" using assms(2) by (simp add: length_des_code)
  from base64.roundtrip [OF this] coding.enc_ok [OF des_coding [OF assms(1)]] coding.dec_ok [OF des_coding [OF assms(1)]]
  show ?thesis using assms(2) by simp
qed

theorem token_roundtrip_witness:
  "\<exists>c t. ldesencode [1,2,3,4,5,6,7,8] [10,20,30] = Some (Inr c) \<and> lb64encode c = Some (Inr t)
    \<and> lb64decode t = Some (Inr c) \<and> ldesdecode [1,2,3,4,5,6,7,8] c = Some (Inr [10,20,30])"
  by (rule token_roundtrip) simp_all

text \<open>Decrypting eight bytes that encrypt a block of zeros reads in front of the buffer: the
  bound of the loop that looks for the padding is an unsigned 0, so the loop does not stop at the
  first byte. Every key has such a text.\<close>

theorem des_padding_overread:
  assumes "length key = 8"
  shows "ldesdecode key (des_crypt (des_main_ks key) (replicate 8 0)) = None"
proof -
  let ?c = "des_crypt (des_main_ks key) (replicate 8 0)"
  have "des_blocks SMALL_CHUNK (decode_keys (des_main_ks key)) ?c [] = Some ([], replicate 8 0)"
    using des_blocks_eq [of "[]" ?c SMALL_CHUNK] map_blocks_Cons [of ?c _ "[]"]
    by (simp add: SMALL_CHUNK_def des_block_back)
  moreover have "padding_loop 0 (take 8 (rev (replicate 8 0))) 1 = None" by (simp add: eval_nat_numeral)
  ultimately show ?thesis using assms
    by (simp add: ldesdecode_def des_key_def Let_def int_index_def out_cap_def SMALL_CHUNK_def)
qed

theorem des_padding_overread_witness:
  "ldesdecode [1,2,3,4,5,6,7,8] (des_crypt (des_main_ks [1,2,3,4,5,6,7,8]) (replicate 8 0)) = None"
  by (rule des_padding_overread) simp

end
