(* ===== verification/Dh.thy ===== *)
theory Dh
  imports Codec
begin

unbundle bit_operations_syntax

text \<open>
  \<^verbatim>\<open>lualib-src/lua-crypt.c\<close>: the Diffie-Hellman key exchange in the field of the biggest
  64-bit prime, the string hash, and the eight-byte keyed hash. A number crosses the Lua
  boundary as eight bytes, least significant first. The recursion of \<open>pow_mod_p\<close> does not
  end for the exponent 0; it is a partial function whose value is \<open>None\<close> there.
\<close>

section \<open>The model\<close>

definition P :: u64 where "P = 0xffffffffffffffc5"

definition G :: u64 where "G = 5"

function mul_loop :: "u64 \<Rightarrow> u64 \<Rightarrow> u64 \<Rightarrow> u64" where
  "mul_loop a b m = (
     if b = 0 then m
     else
       let m' = (if b AND 1 \<noteq> 0 then (let t = P - a in if m \<ge> t then m - t else m + a) else m);
           a' = (if a \<ge> P - a then a * 2 - P else a * 2)
       in mul_loop a' (drop_bit 1 b) m')"
  by pat_completeness auto
termination
proof (relation "measure (\<lambda>(a, b, m). unat b)", goal_cases)
  case (2 a b m m' a')
  then have "0 < unat b" by (simp add: unat_gt_0)
  then show ?case by (simp add: unat_drop_bit_div)
qed simp

declare mul_loop.simps [simp del]

definition mul_mod_p :: "u64 \<Rightarrow> u64 \<Rightarrow> u64" where
  "mul_mod_p a b = mul_loop a b 0"

partial_function (option) pow_mod_p :: "u64 \<Rightarrow> u64 \<Rightarrow> u64 option" where
  "pow_mod_p a b = (
     if b = 1 then Some a
     else do {
       t \<leftarrow> pow_mod_p a (drop_bit 1 b);
       let t = mul_mod_p t t;
       Some (if b mod 2 \<noteq> 0 then mul_mod_p t a else t)
     })"

definition powmodp :: "u64 \<Rightarrow> u64 \<Rightarrow> u64 option" where
  "powmodp a b = pow_mod_p (if a > P then a mod P else a) b"

definition read64 :: "bytes \<Rightarrow> bytes \<Rightarrow> crypt_error + (u32 \<times> u32) \<times> (u32 \<times> u32)" where
  "read64 x y = (
     if length x \<noteq> 8 then Inl InvalidUint64
     else if length y \<noteq> 8 then Inl InvalidUint64
     else Inr ((le32 x 0, le32 x 4), (le32 y 0, le32 y 4)))"

definition u64_of :: "u32 \<times> u32 \<Rightarrow> u64" where
  "u64_of x = ucast (fst x) OR push_bit 32 (ucast (snd x))"

definition push64 :: "u64 \<Rightarrow> bytes" where
  "push64 r = [ucast (r AND 0xff), ucast (drop_bit 8 r AND 0xff), ucast (drop_bit 16 r AND 0xff),
     ucast (drop_bit 24 r AND 0xff), ucast (drop_bit 32 r AND 0xff), ucast (drop_bit 40 r AND 0xff),
     ucast (drop_bit 48 r AND 0xff), ucast (drop_bit 56 r AND 0xff)]"

definition ldhsecret :: "bytes \<Rightarrow> bytes \<Rightarrow> crypt_result" where
  "ldhsecret x y = (case read64 x y of
     Inl e \<Rightarrow> Some (Inl e)
   | Inr (x, y) \<Rightarrow> (
       let xx = u64_of x; yy = u64_of y in
       if xx = 0 \<or> yy = 0 then Some (Inl CantBeZero)
       else do { r \<leftarrow> powmodp xx yy; Some (Inr (push64 r)) }))"

definition ldhexchange :: "bytes \<Rightarrow> crypt_result" where
  "ldhexchange x = (
     if length x \<noteq> 8 then Some (Inl InvalidUint64)
     else
       let x64 = u64_of (le32 x 0, le32 x 4) in
       if x64 = 0 then Some (Inl CantBeZero)
       else do { r \<leftarrow> powmodp G x64; Some (Inr (push64 r)) })"

section \<open>The string hash and the keyed hash\<close>

definition hash_step :: "u32 \<times> u32 \<Rightarrow> u8 \<Rightarrow> u32 \<times> u32" where
  "hash_step h c = (case h of (djb_hash, js_hash) \<Rightarrow>
     (djb_hash + (push_bit 5 djb_hash + ucast c),
      js_hash XOR (push_bit 5 js_hash + ucast c + drop_bit 2 js_hash)))"

definition qword :: "u32 \<times> u32 \<Rightarrow> bytes" where
  "qword r = (case r of (x, y) \<Rightarrow>
     [ucast (x AND 0xff), ucast (drop_bit 8 x AND 0xff), ucast (drop_bit 16 x AND 0xff), ucast (drop_bit 24 x AND 0xff),
      ucast (y AND 0xff), ucast (drop_bit 8 y AND 0xff), ucast (drop_bit 16 y AND 0xff), ucast (drop_bit 24 y AND 0xff)])"

text \<open>The length is passed as an \<open>int\<close>: a negative one ends the loop at once.\<close>

definition Hash :: "bytes \<Rightarrow> int \<Rightarrow> bytes" where
  "Hash str sz = qword (foldl hash_step (5381, 1315423911) (take (nat sz) str))"

definition int_of_size :: "nat \<Rightarrow> int" where
  "int_of_size n = sint (of_nat n :: 32 word)"

definition lhashkey :: "bytes \<Rightarrow> bytes" where
  "lhashkey key = Hash key (int_of_size (length key))"

definition md5_k :: "u32 list" where
  "md5_k = [
     0xd76aa478, 0xe8c7b756, 0x242070db, 0xc1bdceee, 0xf57c0faf, 0x4787c62a, 0xa8304613, 0xfd469501,
     0x698098d8, 0x8b44f7af, 0xffff5bb1, 0x895cd7be, 0x6b901122, 0xfd987193, 0xa679438e, 0x49b40821,
     0xf61e2562, 0xc040b340, 0x265e5a51, 0xe9b6c7aa, 0xd62f105d, 0x02441453, 0xd8a1e681, 0xe7d3fbc8,
     0x21e1cde6, 0xc33707d6, 0xf4d50d87, 0x455a14ed, 0xa9e3e905, 0xfcefa3f8, 0x676f02d9, 0x8d2a4c8a,
     0xfffa3942, 0x8771f681, 0x6d9d6122, 0xfde5380c, 0xa4beea44, 0x4bdecfa9, 0xf6bb4b60, 0xbebfbc70,
     0x289b7ec6, 0xeaa127fa, 0xd4ef3085, 0x04881d05, 0xd9d4d039, 0xe6db99e5, 0x1fa27cf8, 0xc4ac5665,
     0xf4292244, 0x432aff97, 0xab9423a7, 0xfc93a039, 0x655b59c3, 0x8f0ccc92, 0xffeff47d, 0x85845dd1,
     0x6fa87e4f, 0xfe2ce6e0, 0xa3014314, 0x4e0811a1, 0xf7537e82, 0xbd3af235, 0x2ad7d2bb, 0xeb86d391]"

definition md5_r :: "nat list" where
  "md5_r = [7, 12, 17, 22, 7, 12, 17, 22, 7, 12, 17, 22, 7, 12, 17, 22,
            5,  9, 14, 20, 5,  9, 14, 20, 5,  9, 14, 20, 5,  9, 14, 20,
            4, 11, 16, 23, 4, 11, 16, 23, 4, 11, 16, 23, 4, 11, 16, 23,
            6, 10, 15, 21, 6, 10, 15, 21, 6, 10, 15, 21, 6, 10, 15, 21]"

definition LEFTROTATE :: "u32 \<Rightarrow> nat \<Rightarrow> u32" where
  "LEFTROTATE x c = push_bit c x OR drop_bit (32 - c) x"

definition hmac_step :: "u32 list \<Rightarrow> u32 \<times> u32 \<times> u32 \<times> u32 \<Rightarrow> nat \<Rightarrow> u32 \<times> u32 \<times> u32 \<times> u32" where
  "hmac_step w s i = (case s of (a, b, c, d) \<Rightarrow>
     let (f, g) =
       (if i < 16 then ((b AND c) OR (NOT b AND d), i)
        else if i < 32 then ((d AND b) OR (NOT d AND c), (5 * i + 1) mod 16)
        else if i < 48 then (b XOR c XOR d, (3 * i + 5) mod 16)
        else (c XOR (b OR NOT d), (7 * i) mod 16))
     in (d, b + LEFTROTATE (a + f + md5_k ! i + w ! g) (md5_r ! i), b, c))"

definition hmac :: "u32 \<times> u32 \<Rightarrow> u32 \<times> u32 \<Rightarrow> u32 \<times> u32" where
  "hmac x y = (
     let w = concat (replicate 4 [snd x, fst x, snd y, fst y]) in
     case foldl (hmac_step w) (0x67452301, 0xefcdab89, 0x98badcfe, 0x10325476) [0..<64] of
       (a, b, c, d) \<Rightarrow> (c XOR d, a XOR b))"

definition pushqword :: "u32 \<times> u32 \<Rightarrow> bytes" where
  "pushqword result = qword result"

definition lhmac64 :: "bytes \<Rightarrow> bytes \<Rightarrow> crypt_error + bytes" where
  "lhmac64 x y = (case read64 x y of Inl e \<Rightarrow> Inl e | Inr (x, y) \<Rightarrow> Inr (pushqword (hmac x y)))"

definition lhmac_hash :: "bytes \<Rightarrow> bytes \<Rightarrow> crypt_error + bytes" where
  "lhmac_hash x text = (
     if length x \<noteq> 8 then Inl InvalidUint64
     else
       let key = (le32 x 0, le32 x 4); h = Hash text (int_of_size (length text))
       in Inr (pushqword (hmac (le32 h 0, le32 h 4) key)))"

text \<open>Eight numbers of the random generator, with the lowest bit set when their exclusive
  or would be 0.\<close>

definition lrandomkey :: "int list \<Rightarrow> bytes" where
  "lrandomkey random = (
     let tmp = map (\<lambda>r. of_int r AND 0xff) (take 8 random) in
     if foldl (XOR) 0 tmp = 0 then (hd tmp OR 1) # tl tmp else tmp)"

section \<open>Multiplication modulo the prime\<close>

lemma unat_P: "unat P = 18446744073709551557"
  by (simp add: P_def)

lemma reduce_step:
  assumes "a < P" "m < P"
  shows "unat (if m \<ge> P - a then m - (P - a) else m + a) = (unat m + unat a) mod unat P"
proof -
  have u: "unat a < unat P" "unat m < unat P" using assms by (simp_all add: word_less_nat_alt)
  have d: "unat (P - a) = unat P - unat a" using assms by (simp add: unat_sub_if' word_less_nat_alt less_imp_le)
  show ?thesis
  proof (cases "m \<ge> P - a")
    case True
    then have ge: "unat P - unat a \<le> unat m" using d by (simp add: word_le_nat_alt)
    then have "unat (m - (P - a)) = unat m + unat a - unat P" using u d by (simp add: unat_sub_if')
    moreover have "(unat m + unat a) mod unat P = unat m + unat a - unat P"
    proof -
      have "unat m + unat a = (unat m + unat a - unat P) + unat P" using u ge by linarith
      moreover have "unat m + unat a - unat P < unat P" using u by linarith
      ultimately show ?thesis by (metis mod_add_self2 mod_less)
    qed
    ultimately show ?thesis using True by simp
  next
    case False
    then have lt: "unat m + unat a < unat P" using d u by (simp add: word_le_nat_alt)
    then have "unat (m + a) = unat m + unat a" by (simp add: unat_add_lem [THEN iffD1] unat_P)
    then show ?thesis using False lt by simp
  qed
qed

lemma double_step:
  assumes "a < P"
  shows "unat (if a \<ge> P - a then a * 2 - P else a * 2) = (2 * unat a) mod unat P"
proof -
  have "a * 2 - P = a - (P - a)" "a * 2 = a + a" by (simp_all add: algebra_simps)
  then show ?thesis using reduce_step [OF assms assms] by (simp only: mult_2)
qed

lemma mod_linear: "(x mod p + y mod p * k) mod p = (x + y * k) mod (p :: nat)"
  by (metis mod_add_left_eq mod_add_right_eq mod_mult_left_eq)

lemma mul_loop_mod:
  "a < P \<Longrightarrow> m < P \<Longrightarrow> unat (mul_loop a b m) = (unat m + unat a * unat b) mod unat P"
proof (induction a b m rule: mul_loop.induct)
  case (1 a b m)
  show ?case
  proof (cases "b = 0")
    case True
    with 1(3) show ?thesis by (simp add: mul_loop.simps word_less_nat_alt)
  next
    case False
    define m' where "m' = (if b AND 1 \<noteq> 0 then (let t = P - a in if m \<ge> t then m - t else m + a) else m)"
    define a' where "a' = (if a \<ge> P - a then a * 2 - P else a * 2)"
    have m': "unat m' = (unat m + unat a * (unat b mod 2)) mod unat P"
    proof -
      have "unat m < unat P" using 1(3) by (simp add: word_less_nat_alt)
      moreover have "b AND 1 \<noteq> 0 \<longleftrightarrow> unat b mod 2 = 1"
        using unat_and_mask [of b 1] by (simp add: mask_eq_exp_minus_1 unat_eq_0 [symmetric])
      ultimately show ?thesis unfolding m'_def
        using reduce_step [OF 1(2,3)] by (cases "unat b mod 2 = 1") (auto simp: Let_def)
    qed
    have a': "unat a' = (2 * unat a) mod unat P" unfolding a'_def by (rule double_step [OF 1(2)])
    have lt: "a' < P" "m' < P" using m' a' by (simp_all add: word_less_nat_alt unat_P)
    have "unat (mul_loop a b m) = unat (mul_loop a' (drop_bit 1 b) m')"
      using False by (subst mul_loop.simps) (simp add: m'_def a'_def Let_def)
    also have "\<dots> = (unat m' + unat a' * unat (drop_bit 1 b)) mod unat P"
      using 1(1) [OF False m'_def a'_def] lt by blast
    also have "\<dots> = (unat m + unat a * (unat b mod 2) + 2 * unat a * (unat b div 2)) mod unat P"
      unfolding m' a' unat_drop_bit_div power_one_right by (rule mod_linear)
    also have "unat m + unat a * (unat b mod 2) + 2 * unat a * (unat b div 2) = unat m + unat a * unat b"
    proof -
      have "unat b mod 2 + 2 * (unat b div 2) = unat b" by simp
      then have "unat a * unat b = unat a * (unat b mod 2 + 2 * (unat b div 2))" by simp
      then show ?thesis by (simp only: distrib_left ac_simps)
    qed
    finally show ?thesis .
  qed
qed

lemma mul_mod_p_mod: "a < P \<Longrightarrow> unat (mul_mod_p a b) = unat a * unat b mod unat P"
  using mul_loop_mod [of a 0 b] by (simp add: mul_mod_p_def P_def)

section \<open>Exponentiation\<close>

lemma pow_mod_p_mod:
  "a < P \<Longrightarrow> b \<noteq> 0 \<Longrightarrow> \<exists>t. pow_mod_p a b = Some t \<and> unat t = unat a ^ unat b mod unat P"
proof (induction "unat b" arbitrary: b rule: less_induct)
  case less
  have ua: "unat a < unat P" using less.prems(1) by (simp add: word_less_nat_alt)
  show ?case
  proof (cases "b = 1")
    case True
    then show ?thesis using ua by (subst pow_mod_p.simps) simp
  next
    case False
    let ?h = "drop_bit 1 b"
    have h: "unat ?h = unat b div 2" by (simp add: unat_drop_bit_div)
    have "unat b \<noteq> 0" "unat b \<noteq> unat (1 :: u64)"
      using less.prems(2) False by (simp_all only: unat_eq_0 word_unat_eq_iff [symmetric] not_False_eq_True)
    then have b2: "2 \<le> unat b" by simp
    then have "unat ?h < unat b" "?h \<noteq> 0" using h by (auto simp: unat_eq_0 [symmetric] simp del: unat_eq_0)
    from less.hyps [OF this(1) less.prems(1) this(2)] obtain t where
      t: "pow_mod_p a ?h = Some t" "unat t = unat a ^ (unat b div 2) mod unat P" using h by auto
    have tP: "t < P" using t(2) by (simp add: word_less_nat_alt unat_P)
    let ?s = "mul_mod_p t t"
    have s: "unat ?s = unat a ^ (2 * (unat b div 2)) mod unat P"
      using mul_mod_p_mod [OF tP, of t] t(2) by (simp add: mod_mult_eq power_add [symmetric] mult_2)
    have sP: "?s < P" using s by (simp add: word_less_nat_alt unat_P)
    have par: "b mod 2 \<noteq> 0 \<longleftrightarrow> unat b mod 2 = 1"
      by (simp add: unat_eq_0 [symmetric] unat_mod del: unat_eq_0)
    have "unat (if b mod 2 \<noteq> 0 then mul_mod_p ?s a else ?s) = unat a ^ unat b mod unat P"
    proof (cases "unat b mod 2 = 1")
      case True
      then have "unat b = Suc (2 * (unat b div 2))" by presburger
      then have "unat a ^ unat b = unat a ^ (2 * (unat b div 2)) * unat a" by (metis power_Suc2)
      then show ?thesis using True par mul_mod_p_mod [OF sP, of a] s by (simp add: mod_mult_left_eq)
    next
      case False
      then have "unat b = 2 * (unat b div 2)" by presburger
      then show ?thesis using False par s by simp
    qed
    then show ?thesis using False t(1) by (subst pow_mod_p.simps) (simp add: Let_def)
  qed
qed

lemma powmodp_mod:
  assumes "a \<noteq> P" "b \<noteq> 0"
  shows "\<exists>t. powmodp a b = Some t \<and> unat t = unat a ^ unat b mod unat P"
proof (cases "a > P")
  case True
  have "unat (a mod P) = unat a mod unat P" by (rule unat_mod)
  moreover from this have "a mod P < P" by (simp add: word_less_nat_alt unat_P)
  ultimately show ?thesis using True pow_mod_p_mod [of "a mod P" b] assms(2)
    by (auto simp: powmodp_def power_mod)
next
  case False
  with assms(1) have "a < P" by simp
  then show ?thesis using False pow_mod_p_mod assms(2) by (simp add: powmodp_def)
qed

section \<open>Eight bytes\<close>

definition num64 :: "bytes \<Rightarrow> u64" where
  "num64 x = u64_of (le32 x 0, le32 x 4)"

lemma and_255: "(r :: u64) AND 0xff = take_bit 8 r"
  by (simp add: take_bit_eq_mask mask_eq_exp_minus_1)

lemma num64_push64: "num64 (push64 r) = r"
proof (rule bit_word_eqI)
  fix n assume "n < LENGTH(64)"
  then consider "n < 8" | "8 \<le> n" "n < 16" | "16 \<le> n" "n < 24" | "24 \<le> n" "n < 32" | "32 \<le> n" "n < 40"
    | "40 \<le> n" "n < 48" | "48 \<le> n" "n < 56" | "56 \<le> n" "n < 64" by fastforce
  then show "bit (num64 (push64 r)) n = bit r n"
    unfolding num64_def u64_of_def le32_def push64_def and_255
    by cases (auto simp: bit_simps less_diff_conv2 le_diff_conv2)
qed

section \<open>The exchange\<close>

lemma length_push64 [simp]: "length (push64 r) = 8"
  by (simp add: push64_def)

lemma exchange_eval:
  assumes "length a = 8" "num64 a \<noteq> 0"
  shows "\<exists>r. ldhexchange a = Some (Inr (push64 r)) \<and> unat r = 5 ^ unat (num64 a) mod unat P"
proof -
  have "unat G = 5" "G \<noteq> P" by (simp_all add: G_def P_def)
  with powmodp_mod [of G "num64 a"] assms(2) obtain r where "powmodp G (num64 a) = Some r"
    "unat r = 5 ^ unat (num64 a) mod unat P" by auto
  then show ?thesis using assms by (auto simp: ldhexchange_def Let_def num64_def)
qed

lemma secret_eval:
  assumes "length x = 8" "length y = 8" "num64 x \<notin> {0, P}" "num64 y \<noteq> 0"
  shows "\<exists>r. ldhsecret x y = Some (Inr (push64 r)) \<and> unat r = unat (num64 x) ^ unat (num64 y) mod unat P"
  using powmodp_mod [of "num64 x" "num64 y"] assms by (auto simp: ldhsecret_def read64_def Let_def num64_def)

text \<open>A public number is never 0 modulo the prime, so the check for 0 does not reject it.\<close>

lemma public_nonzero: "5 ^ n mod unat P \<noteq> 0"
proof
  assume "5 ^ n mod unat P = 0"
  then have "unat P dvd 5 ^ n" by (simp add: dvd_eq_mod_eq_0)
  moreover have "coprime (unat P) 5" by (simp add: unat_P coprime_iff_gcd_eq_1 gcd_non_0_nat)
  then have "coprime (unat P) (5 ^ n)" by simp
  ultimately have "unat P dvd 1" by (metis coprime_common_divisor_nat dvd_refl nat_dvd_1_iff_1)
  then show False by (simp add: unat_P)
qed

text \<open>C22. Diffie-Hellman: for any two private keys of eight bytes other than 0 both public keys
  are computed, and each side, from the public key of the other, computes the same secret,
  which is 5 to the product of the private keys modulo the prime; the 64-bit arithmetic of the
  modular multiplication never loses a carry.\<close>

theorem dh_agreement:
  assumes "length a = 8" "length b = 8" "num64 a \<noteq> 0" "num64 b \<noteq> 0"
  shows "\<exists>A B s. ldhexchange a = Some (Inr A) \<and> ldhexchange b = Some (Inr B)
    \<and> ldhsecret A b = Some (Inr s) \<and> ldhsecret B a = Some (Inr s)
    \<and> unat (num64 s) = 5 ^ (unat (num64 a) * unat (num64 b)) mod unat P"
proof -
  have side: "\<exists>A s. ldhexchange x = Some (Inr A) \<and> ldhsecret A y = Some (Inr s) \<and> length s = 8
      \<and> s = push64 (num64 s) \<and> unat (num64 s) = 5 ^ (unat (num64 x) * unat (num64 y)) mod unat P"
    if "length x = 8" "length y = 8" "num64 x \<noteq> 0" "num64 y \<noteq> 0" for x y
  proof -
    from exchange_eval [OF that(1,3)] obtain r where
      r: "ldhexchange x = Some (Inr (push64 r))" "unat r = 5 ^ unat (num64 x) mod unat P" by blast
    then have "unat r \<noteq> 0" "unat r < unat P" using public_nonzero by (simp_all add: unat_P)
    then have "num64 (push64 r) \<notin> {0, P}" by (auto simp: num64_push64)
    from secret_eval [OF _ that(2) this that(4)] obtain t where
      t: "ldhsecret (push64 r) y = Some (Inr (push64 t))" "unat t = unat r ^ unat (num64 y) mod unat P"
      by (auto simp: num64_push64)
    have "unat t = 5 ^ (unat (num64 x) * unat (num64 y)) mod unat P"
      using t(2) r(2) by (simp add: power_mod power_mult)
    with r(1) t(1) show ?thesis by (auto simp: num64_push64)
  qed
  from side [OF assms] side [OF assms(2,1,4,3)] obtain A B s s' where
    "ldhexchange a = Some (Inr A)" "ldhsecret A b = Some (Inr s)" "s = push64 (num64 s)"
    "unat (num64 s) = 5 ^ (unat (num64 a) * unat (num64 b)) mod unat P"
    "ldhexchange b = Some (Inr B)" "ldhsecret B a = Some (Inr s')" "s' = push64 (num64 s')"
    "unat (num64 s') = 5 ^ (unat (num64 b) * unat (num64 a)) mod unat P" by blast
  moreover from this have "s = s'" by (metis mult.commute word_unat_eq_iff)
  ultimately show ?thesis by blast
qed

theorem dh_agreement_witness:
  "num64 [3,0,0,0,0,0,0,0] = 3 \<and> num64 [7,0,0,0,0,0,0,0] = 7
   \<and> (\<exists>A B s. ldhexchange [3,0,0,0,0,0,0,0] = Some (Inr A) \<and> ldhexchange [7,0,0,0,0,0,0,0] = Some (Inr B)
    \<and> ldhsecret A [7,0,0,0,0,0,0,0] = Some (Inr s) \<and> ldhsecret B [3,0,0,0,0,0,0,0] = Some (Inr s)
    \<and> unat (num64 s) = 5 ^ (3 * 7) mod unat P)"
proof -
  have n: "num64 [3,0,0,0,0,0,0,0] = 3" "num64 [7,0,0,0,0,0,0,0] = 7"
    by (simp_all add: num64_def u64_of_def le32_def)
  show ?thesis using dh_agreement [of "[3,0,0,0,0,0,0,0]" "[7,0,0,0,0,0,0,0]"] by (simp add: n)
qed

text \<open>The reduction before the exponentiation tests \<open>a > P\<close>: the prime itself is not reduced.\<close>

lemma powmodp_prime: "powmodp P 1 = Some P"
  by (simp add: powmodp_def pow_mod_p.simps)

end
