(* ===== verification/Sha1.thy ===== *)
theory Sha1
  imports Dh
begin

unbundle bit_operations_syntax

text \<open>
  \<^verbatim>\<open>lualib-src/lsha1.c\<close>: SHA-1 and the keyed hash on top of it, on a little-endian machine. The
  context is a record; the in-place message schedule, the unrolled rounds and the byte-wise
  padding are those of the source. The second half of the theory states the hash of FIPS 180-1
  and shows that the code computes it.
\<close>

section \<open>The model\<close>

record SHA1_CTX =
  state :: "u32 list"
  count0 :: u32
  count1 :: u32
  buffer :: bytes

definition SHA1_DIGEST_SIZE :: nat where "SHA1_DIGEST_SIZE = 20"
definition BLOCKSIZE :: nat where "BLOCKSIZE = 64"

definition rol :: "u32 \<Rightarrow> nat \<Rightarrow> u32" where
  "rol v b = push_bit b v OR drop_bit (32 - b) v"

text \<open>The words of the block, as the union with \<open>uint8_t c[64]\<close> gives them, and the two macros
  that read and update the schedule.\<close>

definition load_block :: "bytes \<Rightarrow> u32 list" where
  "load_block buf = map (\<lambda>i. le32 buf (4 * i)) [0..<16]"

definition blk0 :: "u32 list \<Rightarrow> nat \<Rightarrow> u32 list" where
  "blk0 l i = l[i := (rol (l ! i) 24 AND 0xFF00FF00) OR (rol (l ! i) 8 AND 0x00FF00FF)]"

definition blk :: "u32 list \<Rightarrow> nat \<Rightarrow> u32 list" where
  "blk l i = l[i mod 16 := rol (l ! ((i + 13) mod 16) XOR l ! ((i + 8) mod 16)
     XOR l ! ((i + 2) mod 16) XOR l ! (i mod 16)) 1]"

text \<open>The working variables in the order of the macro's arguments, and the block. A macro adds
  to its last argument \<open>z\<close> and rotates its second argument \<open>w\<close>; the next call of the unrolled
  loop passes them shifted by one place, \<open>(z, v, w, x, y)\<close>.\<close>

type_synonym work = "u32 \<times> u32 \<times> u32 \<times> u32 \<times> u32"

definition R0 :: "work \<times> u32 list \<Rightarrow> nat \<Rightarrow> work \<times> u32 list" where
  "R0 s i = (case s of ((v, w, x, y, z), l) \<Rightarrow>
     let l = blk0 l i;
         z = z + (((w AND (x XOR y)) XOR y) + l ! i + 0x5A827999 + rol v 5);
         w = rol w 30
     in ((z, v, w, x, y), l))"

definition R1 :: "work \<times> u32 list \<Rightarrow> nat \<Rightarrow> work \<times> u32 list" where
  "R1 s i = (case s of ((v, w, x, y, z), l) \<Rightarrow>
     let l = blk l i;
         z = z + (((w AND (x XOR y)) XOR y) + l ! (i mod 16) + 0x5A827999 + rol v 5);
         w = rol w 30
     in ((z, v, w, x, y), l))"

definition R2 :: "work \<times> u32 list \<Rightarrow> nat \<Rightarrow> work \<times> u32 list" where
  "R2 s i = (case s of ((v, w, x, y, z), l) \<Rightarrow>
     let l = blk l i;
         z = z + ((w XOR x XOR y) + l ! (i mod 16) + 0x6ED9EBA1 + rol v 5);
         w = rol w 30
     in ((z, v, w, x, y), l))"

definition R3 :: "work \<times> u32 list \<Rightarrow> nat \<Rightarrow> work \<times> u32 list" where
  "R3 s i = (case s of ((v, w, x, y, z), l) \<Rightarrow>
     let l = blk l i;
         z = z + ((((w OR x) AND y) OR (w AND x)) + l ! (i mod 16) + 0x8F1BBCDC + rol v 5);
         w = rol w 30
     in ((z, v, w, x, y), l))"

definition R4 :: "work \<times> u32 list \<Rightarrow> nat \<Rightarrow> work \<times> u32 list" where
  "R4 s i = (case s of ((v, w, x, y, z), l) \<Rightarrow>
     let l = blk l i;
         z = z + ((w XOR x XOR y) + l ! (i mod 16) + 0xCA62C1D6 + rol v 5);
         w = rol w 30
     in ((z, v, w, x, y), l))"

definition SHA1_Transform :: "u32 list \<Rightarrow> bytes \<Rightarrow> u32 list" where
  "SHA1_Transform st buf = (
     let s = ((st ! 0, st ! 1, st ! 2, st ! 3, st ! 4), load_block buf);
         s = foldl R0 s [0..<16];
         s = foldl R1 s [16..<20];
         s = foldl R2 s [20..<40];
         s = foldl R3 s [40..<60];
         s = foldl R4 s [60..<80]
     in case s of ((a, b, c, d, e), l) \<Rightarrow>
       [st ! 0 + a, st ! 1 + b, st ! 2 + c, st ! 3 + d, st ! 4 + e])"

definition sat_SHA1_Init :: "SHA1_CTX \<Rightarrow> SHA1_CTX" where
  "sat_SHA1_Init c = c\<lparr>state := [0x67452301, 0xEFCDAB89, 0x98BADCFE, 0x10325476, 0xC3D2E1F0],
     count0 := 0, count1 := 0\<rparr>"

text \<open>The number of bits in two words: \<open>len\<close> has 64 bits, and so has \<open>len << 3\<close>, which the
  32-bit sum is compared with.\<close>

definition add_count :: "u32 \<times> u32 \<Rightarrow> u64 \<Rightarrow> u32 \<times> u32" where
  "add_count cnt len = (
     let c0 = fst cnt + ucast (push_bit 3 len);
         c1 = (if (ucast c0 :: u64) < push_bit 3 len then snd cnt + 1 else snd cnt)
     in (c0, c1 + ucast (drop_bit 29 len)))"

text \<open>\<open>memcpy(&buffer[j], data, n)\<close> into an array of 64 bytes; \<open>None\<close> outside it.\<close>

definition copy_in :: "bytes \<Rightarrow> nat \<Rightarrow> bytes \<Rightarrow> bytes option" where
  "copy_in buf j data = (if j + length data \<le> 64
     then Some (take j buf @ data @ drop (j + length data) buf) else None)"

function transform_loop :: "u32 list \<Rightarrow> bytes \<Rightarrow> u32 list \<times> bytes" where
  "transform_loop st data = (
     if 63 < length data then transform_loop (SHA1_Transform st (take 64 data)) (drop 64 data)
     else (st, data))"
  by pat_completeness auto
termination by (relation "measure (\<lambda>(st, data). length data)") auto

declare transform_loop.simps [simp del]

definition sat_SHA1_Update :: "SHA1_CTX \<Rightarrow> bytes \<Rightarrow> SHA1_CTX option" where
  "sat_SHA1_Update c data = do {
     let j = unat (drop_bit 3 (count0 c) AND 63);
     let (c0, c1) = add_count (count0 c, count1 c) (of_nat (length data));
     let c = c\<lparr>count0 := c0, count1 := c1\<rparr>;
     if j + length data > 63 then do {
       let i = 64 - j;
       buf \<leftarrow> copy_in (buffer c) j (take i data);
       let st = SHA1_Transform (state c) buf;
       let (st, rest) = transform_loop st (drop i data);
       buf \<leftarrow> copy_in buf 0 rest;
       Some (c\<lparr>state := st, buffer := buf\<rparr>)
     } else do {
       buf \<leftarrow> copy_in (buffer c) j data;
       Some (c\<lparr>buffer := buf\<rparr>)
     }
   }"

text \<open>The padding loop: one zero byte at a time until 448 bits of the last block are filled.\<close>

partial_function (option) pad_loop :: "SHA1_CTX \<Rightarrow> SHA1_CTX option" where
  "pad_loop c = (
     if count0 c AND 504 \<noteq> 448 then do { c \<leftarrow> sat_SHA1_Update c [0]; pad_loop c }
     else Some c)"

definition be_out :: "u32 list \<Rightarrow> nat \<Rightarrow> u8" where
  "be_out ws i = ucast (drop_bit ((3 - i mod 4) * 8) (ws ! (i div 4)) AND 255)"

definition sat_SHA1_Final :: "SHA1_CTX \<Rightarrow> (bytes \<times> SHA1_CTX) option" where
  "sat_SHA1_Final c = do {
     let finalcount = map (be_out [count1 c, count0 c]) [0..<8];
     c \<leftarrow> sat_SHA1_Update c [0x80];
     c \<leftarrow> pad_loop c;
     c \<leftarrow> sat_SHA1_Update c finalcount;
     let digest = map (be_out (state c)) [0..<SHA1_DIGEST_SIZE];
     Some (digest, c\<lparr>buffer := replicate 64 0, state := replicate 5 0, count0 := 0, count1 := 0\<rparr>)
   }"

text \<open>A context on the stack is uninitialised: its content is an argument.\<close>

definition lsha1 :: "SHA1_CTX \<Rightarrow> bytes \<Rightarrow> bytes option" where
  "lsha1 ctx text = do {
     let c = sat_SHA1_Init ctx;
     c \<leftarrow> sat_SHA1_Update c text;
     (digest, c) \<leftarrow> sat_SHA1_Final c;
     Some digest
   }"

definition xor_key :: "bytes \<Rightarrow> u32 \<Rightarrow> bytes" where
  "xor_key key x = map (\<lambda>i. key ! i XOR ucast (drop_bit (8 * (i mod 4)) x)) [0..<BLOCKSIZE]"

definition lhmac_sha1 :: "SHA1_CTX \<Rightarrow> bytes \<Rightarrow> bytes \<Rightarrow> bytes option" where
  "lhmac_sha1 ctx key text = do {
     rkey \<leftarrow> (if length key > BLOCKSIZE then do {
                 let c = sat_SHA1_Init ctx;
                 c \<leftarrow> sat_SHA1_Update c key;
                 (d, c) \<leftarrow> sat_SHA1_Final c;
                 copy_in (replicate BLOCKSIZE 0) 0 d
               } else copy_in (replicate BLOCKSIZE 0) 0 key);
     let rkey = xor_key rkey 0x5c5c5c5c;
     c1 \<leftarrow> sat_SHA1_Update (sat_SHA1_Init ctx) rkey;
     let rkey = xor_key rkey (0x5c5c5c5c XOR 0x36363636);
     c2 \<leftarrow> sat_SHA1_Update (sat_SHA1_Init ctx) rkey;
     c2 \<leftarrow> sat_SHA1_Update c2 text;
     (digest2, c2) \<leftarrow> sat_SHA1_Final c2;
     c1 \<leftarrow> sat_SHA1_Update c1 digest2;
     (digest1, c1) \<leftarrow> sat_SHA1_Final c1;
     Some digest1
   }"

section \<open>FIPS 180-1\<close>

definition fips_f :: "nat \<Rightarrow> u32 \<Rightarrow> u32 \<Rightarrow> u32 \<Rightarrow> u32" where
  "fips_f t B C D = (
     if t < 20 then (B AND C) OR (NOT B AND D)
     else if t < 40 then B XOR C XOR D
     else if t < 60 then (B AND C) OR (B AND D) OR (C AND D)
     else B XOR C XOR D)"

definition fips_K :: "nat \<Rightarrow> u32" where
  "fips_K t = (if t < 20 then 0x5A827999 else if t < 40 then 0x6ED9EBA1 else if t < 60 then 0x8F1BBCDC else 0xCA62C1D6)"

fun fips_W :: "bytes \<Rightarrow> nat \<Rightarrow> u32" where
  "fips_W M t = (if t < 16 then of_nat (be_nat (take 4 (drop (4 * t) M)))
     else rol (fips_W M (t - 3) XOR fips_W M (t - 8) XOR fips_W M (t - 14) XOR fips_W M (t - 16)) 1)"

declare fips_W.simps [simp del]

definition fips_step :: "bytes \<Rightarrow> work \<Rightarrow> nat \<Rightarrow> work" where
  "fips_step M s t = (case s of (A, B, C, D, E) \<Rightarrow>
     (rol A 5 + fips_f t B C D + E + fips_W M t + fips_K t, A, rol B 30, C, D))"

definition fips_block :: "u32 list \<Rightarrow> bytes \<Rightarrow> u32 list" where
  "fips_block H M = (case foldl (fips_step M) (H ! 0, H ! 1, H ! 2, H ! 3, H ! 4) [0..<80] of
     (A, B, C, D, E) \<Rightarrow> [H ! 0 + A, H ! 1 + B, H ! 2 + C, H ! 3 + D, H ! 4 + E])"

function fips_blocks :: "u32 list \<Rightarrow> bytes \<Rightarrow> u32 list" where
  "fips_blocks H M = (if 64 \<le> length M then fips_blocks (fips_block H (take 64 M)) (drop 64 M) else H)"
  by pat_completeness auto
termination by (relation "measure (\<lambda>(H, M). length M)") auto

declare fips_blocks.simps [simp del]

definition fips_pad :: "bytes \<Rightarrow> bytes" where
  "fips_pad M = M @ [0x80] @ replicate ((119 - length M mod 64) mod 64) 0 @ be_bytes 8 (8 * length M)"

definition fips_init :: "u32 list" where
  "fips_init = [0x67452301, 0xEFCDAB89, 0x98BADCFE, 0x10325476, 0xC3D2E1F0]"

definition sha1 :: "bytes \<Rightarrow> bytes" where
  "sha1 M = concat (map (\<lambda>w. be_bytes 4 (unat w)) (fips_blocks fips_init (fips_pad M)))"

section \<open>One block\<close>

lemma choose_eq: "(w AND (x XOR y)) XOR y = (w AND x) OR (NOT w AND y)" for w x y :: u32
  by (rule bit_word_eqI) (auto simp: bit_simps)

lemma majority_eq: "((w OR x) AND y) OR (w AND x) = (w AND x) OR (w AND y) OR (x AND y)" for w x y :: u32
  by (rule bit_word_eqI) (auto simp: bit_simps)

text \<open>The byte swap of \<open>blk0\<close> turns a word loaded in host order into a big-endian one.\<close>

lemma bit_rol: "k < 32 \<Longrightarrow> n < 32 \<Longrightarrow> bit (rol v k) n \<longleftrightarrow> bit v (if n < k then n + 32 - k else n - k)"
  by (auto simp: rol_def bit_simps ac_simps dest: bit_imp_le_length)

lemma swap_word:
  fixes a b c d :: u8
  defines "v \<equiv> ucast a OR push_bit 8 (ucast b) OR push_bit 16 (ucast c) OR push_bit 24 (ucast d) :: u32"
  shows "(rol v 24 AND 0xFF00FF00) OR (rol v 8 AND 0x00FF00FF)
     = push_bit 24 (ucast a) OR push_bit 16 (ucast b) OR push_bit 8 (ucast c) OR ucast d"
proof (rule bit_word_eqI)
  have m: "0xFF00FF00 = push_bit 24 (mask 8) OR push_bit 8 (mask 8 :: u32)"
    "0x00FF00FF = push_bit 16 (mask 8) OR (mask 8 :: u32)" by (simp_all add: mask_eq_exp_minus_1)
  fix n assume n: "n < LENGTH(32)"
  then consider "n < 8" | "8 \<le> n" "n < 16" | "16 \<le> n" "n < 24" | "24 \<le> n" "n < 32" by fastforce
  then show "bit ((rol v 24 AND 0xFF00FF00) OR (rol v 8 AND 0x00FF00FF)) n
     = bit (push_bit 24 (ucast a) OR push_bit 16 (ucast b) OR push_bit 8 (ucast c) OR ucast d :: u32) n"
    unfolding m bit_or_iff bit_and_iff using n
    by cases (auto simp: bit_rol v_def bit_simps less_diff_conv2 dest: bit_imp_le_length)
qed

lemma take4: "i + 4 \<le> length b \<Longrightarrow> take 4 (drop i b) = [b ! i, b ! (i + 1), b ! (i + 2), b ! (i + 3)]"
  by (simp add: eval_nat_numeral take_Suc_conv_app_nth)

lemma blk0_word:
  assumes "length M = 64" "i < 16"
  shows "(rol (le32 M (4 * i)) 24 AND 0xFF00FF00) OR (rol (le32 M (4 * i)) 8 AND 0x00FF00FF) = fips_W M i"
  using assms by (simp add: le32_def swap_word fips_W.simps [of M i] take4 be_word4)

text \<open>The in-place schedule before round \<open>i\<close>: the last sixteen words in their slots, and the
  words of the block that are still in host order.\<close>

definition sched_inv :: "bytes \<Rightarrow> nat \<Rightarrow> u32 list \<Rightarrow> bool" where
  "sched_inv M i l \<longleftrightarrow> length l = 16
     \<and> (\<forall>j<i. i \<le> j + 16 \<longrightarrow> l ! (j mod 16) = fips_W M j)
     \<and> (\<forall>j<16. i \<le> j \<longrightarrow> l ! j = le32 M (4 * j))"

lemma sched_load: "sched_inv M 0 (load_block M)"
  by (simp add: sched_inv_def load_block_def)

lemma sched_blk0:
  "sched_inv M i l \<Longrightarrow> length M = 64 \<Longrightarrow> i < 16 \<Longrightarrow>
     sched_inv M (Suc i) (blk0 l i) \<and> blk0 l i ! i = fips_W M i"
  by (auto simp: sched_inv_def blk0_def blk0_word nth_list_update less_Suc_eq)

lemma sched_blk:
  assumes inv: "sched_inv M i l" and i: "16 \<le> i"
  shows "sched_inv M (Suc i) (blk l i) \<and> blk l i ! (i mod 16) = fips_W M i"
proof -
  have W: "l ! ((i + (16 - k)) mod 16) = fips_W M (i - k)" if "0 < k" "k \<le> 16" for k
  proof -
    have "i + (16 - k) = (i - k) + 16" using that i by simp
    then have "(i + (16 - k)) mod 16 = (i - k) mod 16" by (metis mod_add_self2)
    then show ?thesis using inv that i by (simp add: sched_inv_def)
  qed
  have new: "blk l i = l[i mod 16 := fips_W M i]"
    using W [of 3] W [of 8] W [of 14] W [of 16] i by (simp add: blk_def fips_W.simps [of M i])
  have "l[i mod 16 := fips_W M i] ! (j mod 16) = fips_W M j" if "j < Suc i" "Suc i \<le> j + 16" for j
  proof (cases "j = i")
    case False
    have "j mod 16 \<noteq> i mod 16"
    proof
      assume "j mod 16 = i mod 16"
      then have "16 dvd i - j" by (metis mod_eq_dvd_iff_nat less_Suc_eq_le that(1))
      moreover have "0 < i - j" "i - j < 16" using that False by simp_all
      ultimately show False by (auto dest: dvd_imp_le)
    qed
    then show ?thesis using inv that False by (simp add: sched_inv_def)
  qed (use inv in \<open>simp add: sched_inv_def\<close>)
  then show ?thesis unfolding new using inv i by (simp add: sched_inv_def)
qed

text \<open>A macro of the code makes one step of the standard.\<close>

lemmas macro_defs = R0_def R1_def R2_def R3_def R4_def fips_step_def fips_f_def fips_K_def Let_def

definition rounds_ok :: "bytes \<Rightarrow> (work \<times> u32 list \<Rightarrow> nat \<Rightarrow> work \<times> u32 list) \<Rightarrow> nat \<Rightarrow> nat \<Rightarrow> bool" where
  "rounds_ok M R m n \<longleftrightarrow> (\<forall>i s l. m \<le> i \<longrightarrow> i < n \<longrightarrow> sched_inv M i l \<longrightarrow>
     (\<exists>l'. R (s, l) i = (fips_step M s i, l') \<and> sched_inv M (Suc i) l'))"

lemma R0_ok: "length M = 64 \<Longrightarrow> rounds_ok M R0 0 16"
  using sched_blk0 [of M] unfolding rounds_ok_def macro_defs choose_eq by (auto simp: ac_simps)

lemma R1_ok: "rounds_ok M R1 16 20"
  using sched_blk [of M] unfolding rounds_ok_def macro_defs choose_eq by (auto simp: ac_simps)

lemma R2_ok: "rounds_ok M R2 20 40"
  using sched_blk [of M] by (auto simp: rounds_ok_def macro_defs ac_simps)

lemma R3_ok: "rounds_ok M R3 40 60"
  using sched_blk [of M] unfolding rounds_ok_def macro_defs majority_eq by (auto simp: ac_simps)

lemma R4_ok: "rounds_ok M R4 60 80"
  using sched_blk [of M] by (auto simp: rounds_ok_def macro_defs ac_simps)

lemma rounds_run:
  assumes "rounds_ok M R m n" "m \<le> n" "sched_inv M m l"
  shows "\<exists>l'. foldl R (s, l) [m..<n] = (foldl (fips_step M) s [m..<n], l') \<and> sched_inv M n l'"
  using assms(2,1)
proof (induction n rule: dec_induct)
  case base
  then show ?case using assms(3) by simp
next
  case (step k)
  then have "rounds_ok M R m k" by (simp add: rounds_ok_def)
  from step.IH [OF this] obtain l1 where
    l1: "foldl R (s, l) [m..<k] = (foldl (fips_step M) s [m..<k], l1)" "sched_inv M k l1" by blast
  from step.prems step.hyps l1(2) obtain l2 where
    "R (foldl (fips_step M) s [m..<k], l1) k = (fips_step M (foldl (fips_step M) s [m..<k]) k, l2)"
    "sched_inv M (Suc k) l2" unfolding rounds_ok_def by blast
  with l1(1) step.hyps show ?case by (simp add: upt_Suc)
qed

lemma transform_fips:
  assumes M: "length M = 64"
  shows "SHA1_Transform H M = fips_block H M"
proof -
  let ?s = "(H ! 0, H ! 1, H ! 2, H ! 3, H ! 4)"
  let ?f = "fips_step M"
  obtain l0 where l0: "foldl R0 (?s, load_block M) [0..<16] = (foldl ?f ?s [0..<16], l0)" "sched_inv M 16 l0"
    using rounds_run [OF R0_ok [OF M] _ sched_load] by blast
  obtain l1 where l1: "foldl R1 (foldl ?f ?s [0..<16], l0) [16..<20] = (foldl ?f (foldl ?f ?s [0..<16]) [16..<20], l1)"
    "sched_inv M 20 l1" using rounds_run [OF R1_ok _ l0(2)] by fastforce
  obtain l2 where l2: "foldl R2 (foldl ?f (foldl ?f ?s [0..<16]) [16..<20], l1) [20..<40]
     = (foldl ?f (foldl ?f (foldl ?f ?s [0..<16]) [16..<20]) [20..<40], l2)"
    "sched_inv M 40 l2" using rounds_run [OF R2_ok _ l1(2)] by fastforce
  obtain l3 where l3: "foldl R3 (foldl ?f (foldl ?f (foldl ?f ?s [0..<16]) [16..<20]) [20..<40], l2) [40..<60]
     = (foldl ?f (foldl ?f (foldl ?f (foldl ?f ?s [0..<16]) [16..<20]) [20..<40]) [40..<60], l3)"
    "sched_inv M 60 l3" using rounds_run [OF R3_ok _ l2(2)] by fastforce
  obtain l4 where l4: "foldl R4 (foldl ?f (foldl ?f (foldl ?f (foldl ?f ?s [0..<16]) [16..<20]) [20..<40]) [40..<60], l3) [60..<80]
     = (foldl ?f (foldl ?f (foldl ?f (foldl ?f (foldl ?f ?s [0..<16]) [16..<20]) [20..<40]) [40..<60]) [60..<80], l4)"
    using rounds_run [OF R4_ok _ l3(2)] by fastforce
  have cut: "[0..<80] = [0..<16] @ [16..<20] @ [20..<40] @ [40..<60] @ [60..<80]"
    by code_simp
  show ?thesis unfolding SHA1_Transform_def fips_block_def cut foldl_append Let_def l0(1) l1(1) l2(1) l3(1) l4
    by (simp add: split_def)
qed

section \<open>The context holds the message so far\<close>

lemma transform_loop_unfold:
  "transform_loop st data = (if 64 \<le> length data
     then transform_loop (fips_block st (take 64 data)) (drop 64 data) else (st, data))"
  by (subst transform_loop.simps) (simp add: transform_fips)

lemma transform_short [simp]: "length data < 64 \<Longrightarrow> transform_loop st data = (st, data)"
  by (simp add: transform_loop_unfold)

lemma transform_append:
  "transform_loop st (A @ B) = (case transform_loop st A of (st', r) \<Rightarrow> transform_loop st' (r @ B))"
proof (induction st A rule: transform_loop.induct)
  case (1 st A)
  show ?case
  proof (cases "64 \<le> length A")
    case True
    then have "63 < length A" by simp
    with 1 [OF this] True show ?thesis
      by (simp add: transform_loop_unfold [of st A] transform_loop_unfold [of st "A @ B"] transform_fips)
  next
    case False
    then show ?thesis by simp
  qed
qed

lemma transform_rest: "transform_loop st A = (st', r) \<Longrightarrow> length r = length A mod 64"
proof (induction st A rule: transform_loop.induct)
  case (1 st A)
  show ?case
  proof (cases "64 \<le> length A")
    case True
    then have "63 < length A" by simp
    with 1(1) [OF this] 1(2) True show ?thesis
      by (simp add: transform_loop_unfold [of st A] transform_fips le_mod_geq [of 64 "length A"])
  qed (use 1(2) in simp)
qed

lemma transform_fips_blocks: "fst (transform_loop st A) = fips_blocks st A"
proof (induction st A rule: fips_blocks.induct)
  case (1 st A)
  then show ?case by (simp add: transform_loop_unfold [of st A] fips_blocks.simps [of st A])
qed

definition absorbed :: "SHA1_CTX \<Rightarrow> bytes \<Rightarrow> bool" where
  "absorbed c M \<longleftrightarrow> length (buffer c) = 64
     \<and> transform_loop fips_init M = (state c, take (length M mod 64) (buffer c))
     \<and> count0 c = of_nat (8 * length M) \<and> count1 c = of_nat (8 * length M div 2 ^ 32)"

lemma absorbed_init: "length (buffer c) = 64 \<Longrightarrow> absorbed (sat_SHA1_Init c) []"
  by (simp add: absorbed_def sat_SHA1_Init_def fips_init_def)

text \<open>A carry out of the low word is detected by the sum being below a summand.\<close>

lemma carry:
  fixes a b N :: nat
  assumes "b < N"
  shows "(a + b) div N = (if (a + b) mod N < b then a div N + 1 else a div N)"
proof (cases "a mod N + b < N")
  case True
  then have "(a + b) mod N = a mod N + b" "(a + b) div N = a div N"
    by (metis mod_add_left_eq mod_less, metis (no_types) add.assoc div_mult_mod_eq div_mult_self3 div_less add_0_right assms gr_implies_not0)
  then show ?thesis by simp
next
  case False
  let ?r = "a mod N + b - N"
  have lt: "?r < N" using assms mod_less_divisor [of N a] by linarith
  have "(a div N + 1) * N = a div N * N + N" "a = a div N * N + a mod N" by simp_all
  then have "a + b = (a div N + 1) * N + ?r" using False by linarith
  then have "(a + b) div N = a div N + 1" "(a + b) mod N = ?r" using lt by (simp_all only: div_mult_self3 mod_mult_self3) simp_all
  moreover have "?r < b" using assms mod_less_divisor [of N a] False by linarith
  ultimately show ?thesis by simp
qed

lemma unat_ucast_u64: "unat (ucast (w :: u32) :: u64) = unat w"
  using unsigned_less [of w, where 'a = nat] by (simp add: unsigned_ucast_eq take_bit_nat_eq_self)

lemma unat_of_nat32: "unat (of_nat n :: u32) = n mod 2 ^ 32"
  by (simp add: unat_of_nat)

lemma add_count_eq:
  assumes "k < 2 ^ 29"
  shows "add_count (of_nat (8 * n), of_nat (8 * n div 2 ^ 32)) (of_nat k)
     = (of_nat (8 * (n + k)), of_nat (8 * (n + k) div 2 ^ 32))"
proof -
  have p: "unat (push_bit 3 (of_nat k :: u64)) = 8 * k" and d: "drop_bit 29 (of_nat k :: u64) = 0"
    using assms by (simp_all add: push_bit_eq_mult unat_word_ariths unat_of_nat unat_drop_bit_div flip: unat_eq_0)
  have u: "ucast (push_bit 3 (of_nat k :: u64)) = (of_nat (8 * k) :: u32)"
    using p by (metis of_nat_unat)
  have c0: "(of_nat (8 * n) + of_nat (8 * k) :: u32) = of_nat (8 * n + 8 * k)" by simp
  have lt: "(ucast (of_nat (8 * n + 8 * k) :: u32) :: u64) < push_bit 3 (of_nat k) \<longleftrightarrow> (8 * n + 8 * k) mod 2 ^ 32 < 8 * k"
    unfolding word_less_nat_alt p by (simp add: unat_ucast_u64 unat_of_nat32 del: of_nat_add of_nat_mult)
  show ?thesis using carry [of "8 * k" "2 ^ 32" "8 * n"] assms
    unfolding add_count_def fst_conv snd_conv u c0 Let_def lt d by (simp add: distrib_left)
qed

lemma count_index:
  assumes "absorbed c M"
  shows "unat (drop_bit 3 (count0 c) AND 63) = length M mod 64" "count0 c AND 504 = of_nat (8 * (length M mod 64))"
proof -
  have "unat (count0 c) = (8 * length M) mod 2 ^ 32"
    using assms unat_of_nat [of "8 * length M", where 'a = 32] unfolding absorbed_def by simp
  moreover have "(63 :: u32) = mask 6" by (simp add: mask_eq_exp_minus_1)
  ultimately have "unat (drop_bit 3 (count0 c) AND 63) = (8 * length M) mod 2 ^ 32 div 2 ^ 3 mod 2 ^ 6"
    by (simp only: unat_and_mask unat_drop_bit_div)
  also have "\<dots> = length M mod 64" 
  proof -
    have "(8 * length M) mod 2 ^ 32 = 8 * (length M mod 2 ^ 29)"
      using mult_mod_right [of 8 "length M" "2 ^ 29"] by simp
    then have "(8 * length M) mod 2 ^ 32 div 2 ^ 3 = length M mod 2 ^ 29" by simp
    then show ?thesis using mod_mod_cancel [of 64 "2 ^ 29" "length M"] by simp
  qed
  finally show *: "unat (drop_bit 3 (count0 c) AND 63) = length M mod 64" .
  have m: "504 = push_bit 3 (mask 6 :: u32)" "63 = (mask 6 :: u32)" by (simp_all add: mask_eq_exp_minus_1)
  have "count0 c AND 504 = push_bit 3 (drop_bit 3 (count0 c) AND 63)"
    unfolding m by (rule bit_word_eqI) (auto simp: bit_simps)
  also have "drop_bit 3 (count0 c) AND 63 = of_nat (length M mod 64)" using * by (metis of_nat_unat ucast_id)
  finally show "count0 c AND 504 = of_nat (8 * (length M mod 64))" by (simp add: push_bit_eq_mult mult.commute)
qed

section \<open>Updates\<close>

lemma update_absorbs:
  assumes abs: "absorbed c M" and k: "length data < 2 ^ 29"
  shows "\<exists>c'. sat_SHA1_Update c data = Some c' \<and> absorbed c' (M @ data)"
proof -
  let ?j = "length M mod 64"
  let ?c = "c\<lparr>count0 := of_nat (8 * length (M @ data)), count1 := of_nat (8 * length (M @ data) div 2 ^ 32)\<rparr>"
  have b: "length (buffer c) = 64" and t: "transform_loop fips_init M = (state c, take ?j (buffer c))"
    using abs by (simp_all add: absorbed_def)
  have cnt: "add_count (count0 c, count1 c) (of_nat (length data))
      = (of_nat (8 * length (M @ data)), of_nat (8 * length (M @ data) div 2 ^ 32))"
    using abs add_count_eq [OF k, of "length M"] by (simp add: absorbed_def)
  note idx = count_index(1) [OF abs]
  have all: "transform_loop fips_init (M @ data) = transform_loop (state c) (take ?j (buffer c) @ data)"
    by (subst transform_append) (simp add: t)
  have j: "?j < 64" by simp
  show ?thesis
  proof (cases "?j + length data > 63")
    case True
    define B where "B = take ?j (buffer c) @ take (64 - ?j) data"
    have B: "length B = 64" using True b j by (simp add: B_def)
    have copy: "copy_in (buffer c) ?j (take (64 - ?j) data) = Some B"
      using True b j by (simp add: copy_in_def B_def)
    obtain st rest where r: "transform_loop (fips_block (state c) B) (drop (64 - ?j) data) = (st, rest)" by force
    have "take ?j (buffer c) @ data = B @ drop (64 - ?j) data" by (simp add: B_def)
    with all r B have whole: "transform_loop fips_init (M @ data) = (st, rest)"
      by (simp add: transform_loop_unfold [of "state c" "B @ _"])
    have rest: "length rest = length (M @ data) mod 64" by (rule transform_rest [OF whole])
    have "length rest < 64" unfolding rest by simp
    then have copy2: "copy_in B 0 rest = Some (rest @ drop (length rest) B)" by (simp add: copy_in_def)
    have "sat_SHA1_Update c data = Some (?c\<lparr>state := st, buffer := rest @ drop (length rest) B\<rparr>)"
      using True copy copy2 r B by (simp add: sat_SHA1_Update_def idx cnt Let_def transform_fips)
    moreover have "absorbed (?c\<lparr>state := st, buffer := rest @ drop (length rest) B\<rparr>) (M @ data)"
    proof -
      have "length (rest @ drop (length rest) B) = 64" using B \<open>length rest < 64\<close> by simp
      then show ?thesis unfolding absorbed_def using whole rest [symmetric] by simp
    qed
    ultimately show ?thesis by blast
  next
    case False
    let ?b = "take ?j (buffer c) @ data @ drop (?j + length data) (buffer c)"
    have copy: "copy_in (buffer c) ?j data = Some ?b" using False by (simp add: copy_in_def)
    have len: "length (M @ data) mod 64 = ?j + length data" 
    proof -
      have "(length M + length data) mod 64 = (?j + length data) mod 64" by (simp add: mod_add_left_eq)
      then show ?thesis using False by simp
    qed
    have "sat_SHA1_Update c data = Some (?c\<lparr>buffer := ?b\<rparr>)"
      using False copy by (simp add: sat_SHA1_Update_def idx cnt Let_def)
    moreover have "absorbed (?c\<lparr>buffer := ?b\<rparr>) (M @ data)"
      unfolding absorbed_def all len using False b j by simp
    ultimately show ?thesis by blast
  qed
qed

lemma pad_length: "r < 64 \<Longrightarrow> (120 - r) mod 64 = (if r \<le> 56 then 56 - r else 120 - r)" for r :: nat
proof (cases "r \<le> 56")
  case True
  then have "120 - r = (56 - r) + 64" by simp
  with True show ?thesis by (metis mod_add_self2 mod_less diff_le_self le_less_trans less_numeral_extra(1) numeral_less_iff semiring_norm(76,77,78,79,80,81))
qed simp

lemma pad_step:
  "r < 64 \<Longrightarrow> r \<noteq> 56 \<Longrightarrow> Suc n = (120 - r) mod 64 \<Longrightarrow> n = (120 - (if r = 63 then 0 else Suc r)) mod 64" for r :: nat
  using pad_length [of r] pad_length [of "Suc r"] by (cases "r = 63") (auto split: if_splits)

lemma pad_absorbs:
  assumes "absorbed c M"
  shows "\<exists>c'. pad_loop c = Some c' \<and> absorbed c' (M @ replicate ((120 - length M mod 64) mod 64) 0)"
  using assms
proof (induction "(120 - length M mod 64) mod 64" arbitrary: c M)
  case 0
  have "length M mod 64 = 56" using 0(1) pad_length [of "length M mod 64"] by (simp split: if_splits)
  then have "count0 c AND 504 = 448" using count_index(2) [OF 0(2)] by simp
  then show ?case using 0 by (subst pad_loop.simps) simp
next
  case (Suc n)
  have ne: "length M mod 64 \<noteq> 56" using Suc(2) by auto
  have "count0 c AND 504 \<noteq> 448"
  proof
    assume "count0 c AND 504 = 448"
    then have "unat (of_nat (8 * (length M mod 64)) :: u32) = 448" using count_index(2) [OF Suc(3)] by simp
    then show False using ne unfolding unat_of_nat32 by simp
  qed
  moreover obtain c1 where c1: "sat_SHA1_Update c [0] = Some c1" "absorbed c1 (M @ [0])"
    using update_absorbs [OF Suc(3), of "[0]"] by auto
  moreover have n: "n = (120 - length (M @ [0]) mod 64) mod 64" 
  proof -
    have "length (M @ [0]) mod 64 = (if length M mod 64 = 63 then 0 else Suc (length M mod 64))"
      by (simp add: mod_Suc)
    then show ?thesis using pad_step [OF _ ne Suc(2)] by simp
  qed
  from Suc(1) [OF this c1(2)] obtain c2 where
    "pad_loop c1 = Some c2" "absorbed c2 ((M @ [0]) @ replicate n 0)" using n by auto
  moreover have "replicate ((120 - length M mod 64) mod 64) (0 :: u8) = 0 # replicate n 0"
    unfolding Suc(2) [symmetric] by simp
  ultimately show ?case by (subst pad_loop.simps) auto
qed

section \<open>The digest\<close>

lemma be_out_bytes: "map (be_out [x, y]) [0..<8] = be_bytes 4 (unat x) @ be_bytes 4 (unat y)"
proof -
  have "[0..<8] = [0, 1, 2, 3, 4, 5, 6, 7 :: nat]" by code_simp
  then show ?thesis by (simp only: be_word_bytes) (simp add: be_out_def)
qed

lemma be_bytes_add: "be_bytes (j + k) n = be_bytes j (n div 256 ^ k) @ be_bytes k (n mod 256 ^ k)"
proof (induction k arbitrary: n)
  case (Suc k)
  have "n mod 256 ^ Suc k div 256 = n div 256 mod 256 ^ k" "n mod 256 ^ Suc k mod 256 = n mod 256"
    by (simp_all add: mod_mult2_eq div_mult2_eq mod_mod_cancel)
  with Suc.IH [of "n div 256"] show ?case by (simp add: div_mult2_eq del: of_nat_mod)
qed simp

lemma be_bytes_8: "be_bytes 4 (n div 2 ^ 32) @ be_bytes 4 (n mod 2 ^ 32) = be_bytes 8 n"
  using be_bytes_add [of 4 4 n] by simp

lemma be_out_digest:
  assumes "length st = 5"
  shows "map (be_out st) [0..<SHA1_DIGEST_SIZE] = concat (map (\<lambda>w. be_bytes 4 (unat w)) st)"
proof -
  obtain a b c d e where "st = [a, b, c, d, e]" using assms by (auto simp: length_Suc_conv eval_nat_numeral)
  moreover have "[0..<20] = [0, 1, 2, 3, 4, 5, 6, 7, 8, 9, 10, 11, 12, 13, 14, 15, 16, 17, 18, 19 :: nat]" by code_simp
  ultimately show ?thesis by (simp only: be_word_bytes SHA1_DIGEST_SIZE_def) (simp add: be_out_def)
qed

lemma length_fips_blocks: "length st = 5 \<Longrightarrow> length (fips_blocks st M) = 5"
proof (induction st M rule: fips_blocks.induct)
  case (1 st M)
  then show ?case by (simp add: fips_blocks.simps [of st M] fips_block_def split: prod.splits)
qed

lemma final_digest:
  assumes abs: "absorbed c M"  and lim: "length M < 2 ^ 61"
  shows "\<exists>c'. sat_SHA1_Final c = Some (sha1 M, c') \<and> length (buffer c') = 64"
proof -
  have cnt: "map (be_out [count1 c, count0 c]) [0..<8] = be_bytes 8 (8 * length M)"
  proof -
    have "unat (count1 c) = 8 * length M div 2 ^ 32" "unat (count0 c) = 8 * length M mod 2 ^ 32"
      using abs lim unfolding absorbed_def unat_of_nat32 [symmetric] by (simp_all only: unat_of_nat32) simp
    then show ?thesis by (simp only: be_out_bytes be_bytes_8)
  qed
  from update_absorbs [OF abs, of "[0x80]"] obtain c1 where
    c1: "sat_SHA1_Update c [0x80] = Some c1" "absorbed c1 (M @ [0x80])" by auto
  let ?z = "(120 - length (M @ [0x80]) mod 64) mod 64"
  from pad_absorbs [OF c1(2)] obtain c2 where
    c2: "pad_loop c1 = Some c2" "absorbed c2 ((M @ [0x80]) @ replicate ?z 0)" by blast
  from update_absorbs [OF c2(2), of "be_bytes 8 (8 * length M)"] obtain c3 where
    c3: "sat_SHA1_Update c2 (be_bytes 8 (8 * length M)) = Some c3"
    "absorbed c3 (((M @ [0x80]) @ replicate ?z 0) @ be_bytes 8 (8 * length M))" by auto
  have z: "?z = (119 - length M mod 64) mod 64"
    by (cases "length M mod 64 = 63") (simp_all add: mod_Suc)
  have "state c3 = fips_blocks fips_init (fips_pad M)"
    using c3(2) transform_fips_blocks [of fips_init "fips_pad M"] unfolding absorbed_def z fips_pad_def by simp
  then have "map (be_out (state c3)) [0..<SHA1_DIGEST_SIZE] = sha1 M"
    by (simp add: sha1_def be_out_digest length_fips_blocks fips_init_def)
  then show ?thesis using c1(1) c2(1) c3(1) by (simp add: sat_SHA1_Final_def cnt Let_def)
qed

lemma length_sha1: "length (sha1 M) = 20"
proof -
  have "length (concat (map (\<lambda>w. be_bytes 4 (f w)) xs)) = 4 * length xs" for f :: "u32 \<Rightarrow> nat" and xs
    by (induction xs) simp_all
  then show ?thesis by (simp add: sha1_def length_fips_blocks fips_init_def)
qed

lemma digest_of:
  assumes "length (buffer ctx) = 64" "length M < 2 ^ 29"
  shows "\<exists>c c'. sat_SHA1_Update (sat_SHA1_Init ctx) M = Some c \<and> sat_SHA1_Final c = Some (sha1 M, c')"
  using update_absorbs [OF absorbed_init [OF assms(1)] assms(2)] final_digest [of _ M] assms(2) by fastforce

text \<open>C23. The code computes SHA-1 as FIPS 180-1 defines it, for every text below half a gigabyte and
  whatever is in the context on the stack: the in-place schedule of sixteen words, the unrolled
  rounds, the buffering of blocks and the byte-wise padding give the digest of the standard, and
  \<open>sat_SHA1_Final\<close> ends.\<close>

theorem sha1_standard:
  assumes "length (buffer ctx) = 64" "length text < 2 ^ 29"
  shows "lsha1 ctx text = Some (sha1 text)"
  using digest_of [OF assms] by (auto simp: lsha1_def Let_def)

theorem sha1_standard_witness:
  "lsha1 \<lparr>state = [], count0 = 5, count1 = 6, buffer = replicate 64 7\<rparr> [97, 98, 99] = Some (sha1 [97, 98, 99])"
  by (rule sha1_standard) simp_all

text \<open>The keyed hash of RFC 2104 over SHA-1.\<close>

definition hmac_key :: "bytes \<Rightarrow> bytes" where
  "hmac_key key = (let k = (if length key > 64 then sha1 key else key) in k @ replicate (64 - length k) 0)"

definition rfc2104 :: "bytes \<Rightarrow> bytes \<Rightarrow> bytes" where
  "rfc2104 key text = sha1 (map ((XOR) 0x5c) (hmac_key key) @ sha1 (map ((XOR) 0x36) (hmac_key key) @ text))"

lemma length_hmac_key: "length (hmac_key key) = 64"
  by (simp add: hmac_key_def Let_def length_sha1)

lemma xor_key_byte:
  assumes "length key = 64" "\<And>i. i < 4 \<Longrightarrow> ucast (drop_bit (8 * i) x) = b"
  shows "xor_key key x = map ((XOR) b) key"
  using assms by (intro nth_equalityI) (auto simp: xor_key_def BLOCKSIZE_def xor.commute)

lemma key_words:
  assumes "i < 4"
  shows "ucast (drop_bit (8 * i) (0x5c5c5c5c :: u32)) = (0x5c :: u8)"
    "ucast (drop_bit (8 * i) (0x5c5c5c5c XOR 0x36363636 :: u32)) = (0x6a :: u8)"
proof -
  consider "i = 0" | "i = 1" | "i = 2" | "i = 3" using assms by linarith
  then show "ucast (drop_bit (8 * i) (0x5c5c5c5c :: u32)) = (0x5c :: u8)"
    "ucast (drop_bit (8 * i) (0x5c5c5c5c XOR 0x36363636 :: u32)) = (0x6a :: u8)" by (cases; simp)+
qed

lemma hmac_sha1_standard:
  assumes b: "length (buffer ctx) = 64" and k: "length key < 2 ^ 29" and t: "length text < 2 ^ 29"
  shows "lhmac_sha1 ctx key text = Some (rfc2104 key text)"
proof -
  let ?k = "hmac_key key"
  have rkey: "(if length key > BLOCKSIZE then do {
                 let c = sat_SHA1_Init ctx;
                 c \<leftarrow> sat_SHA1_Update c key;
                 (d, c) \<leftarrow> sat_SHA1_Final c;
                 copy_in (replicate BLOCKSIZE 0) 0 d
               } else copy_in (replicate BLOCKSIZE 0) 0 key) = Some ?k"
  proof (cases "length key > BLOCKSIZE")
    case True
    then have "copy_in (replicate BLOCKSIZE 0) 0 (sha1 key) = Some ?k"
      by (simp add: BLOCKSIZE_def hmac_key_def copy_in_def length_sha1)
    with True digest_of [OF b k] show ?thesis by (auto simp: Let_def)
  next
    case False
    then show ?thesis by (simp add: BLOCKSIZE_def hmac_key_def copy_in_def)
  qed
  have x1: "xor_key ?k 0x5c5c5c5c = map ((XOR) 0x5c) ?k"
    by (rule xor_key_byte [OF length_hmac_key key_words(1)])
  have x2: "xor_key (map ((XOR) 0x5c) ?k) (0x5c5c5c5c XOR 0x36363636) = map ((XOR) 0x36) ?k"
  proof -
    have "xor_key (map ((XOR) 0x5c) ?k) (0x5c5c5c5c XOR 0x36363636) = map ((XOR) 0x6a) (map ((XOR) 0x5c) ?k)"
      by (rule xor_key_byte [OF _ key_words(2)]) (simp add: length_hmac_key)
    also have "\<dots> = map ((XOR) 0x36) ?k" by (simp add: xor.assoc [symmetric])
    finally show ?thesis .
  qed
  from update_absorbs [OF absorbed_init [OF b], of "map ((XOR) 0x5c) ?k"] obtain c1 where
    c1: "sat_SHA1_Update (sat_SHA1_Init ctx) (map ((XOR) 0x5c) ?k) = Some c1" "absorbed c1 (map ((XOR) 0x5c) ?k)"
    by (auto simp: length_hmac_key)
  from update_absorbs [OF absorbed_init [OF b], of "map ((XOR) 0x36) ?k"] obtain c2 where
    c2: "sat_SHA1_Update (sat_SHA1_Init ctx) (map ((XOR) 0x36) ?k) = Some c2" "absorbed c2 (map ((XOR) 0x36) ?k)"
    by (auto simp: length_hmac_key)
  from update_absorbs [OF c2(2) t] obtain c3 where
    c3: "sat_SHA1_Update c2 text = Some c3" "absorbed c3 (map ((XOR) 0x36) ?k @ text)" by blast
  let ?d = "sha1 (map ((XOR) 0x36) ?k @ text)"
  from final_digest [OF c3(2)] t obtain c4 where c4: "sat_SHA1_Final c3 = Some (?d, c4)"
    by (auto simp: length_hmac_key)
  from update_absorbs [OF c1(2), of ?d] obtain c5 where
    c5: "sat_SHA1_Update c1 ?d = Some c5" "absorbed c5 (map ((XOR) 0x5c) ?k @ ?d)" by (auto simp: length_sha1)
  from final_digest [OF c5(2)] obtain c6 where "sat_SHA1_Final c5 = Some (rfc2104 key text, c6)"
    by (auto simp: length_hmac_key length_sha1 rfc2104_def)
  then show ?thesis unfolding lhmac_sha1_def rkey using c1(1) c2(1) c3(1) c4 c5(1) by (simp add: x1 x2 [simplified] Let_def)
qed

text \<open>The test for the carry compares with the untruncated \<open>len << 3\<close>: a single update with
  half a gigabyte or more counts a carry that did not happen.\<close>

lemma count_spurious_carry: "add_count (0, 0) (2 ^ 29) = (0, 2)" "add_count (0, 0) (2 ^ 28) = (2 ^ 31, 0)"
  by (simp_all add: add_count_def Let_def)

end
