(* ===== verification/Harbor_Service.thy ===== *)
theory Harbor_Service
  imports Server Framing Fifo
begin

unbundle bit_operations_syntax

text \<open>
  \<^verbatim>\<open>service-src/service_harbor.c\<close>: the service that connects the nodes of a cluster. It keeps a
  connection per remote node, a table of global names, and queues for the messages whose
  node or name is not known yet. Frames on a connection have a length of four bytes, most
  significant first; the last twelve bytes of a frame are the message header.

  The state is a record; what the service does to its surroundings is the list \<open>hv_out\<close> of its
  effects, in order. Memory it owns through pointers is tracked by an address: a message that
  came in, the buffer a frame is assembled in. Whether \<open>skynet_send\<close> finds its destination is
  the argument \<open>known\<close>. A chain of the hash table is a list. Of the log lines only the format
  is kept. \<open>None\<close> is an access outside a buffer or a failing assertion.
\<close>

section \<open>Data\<close>

definition HASH_SIZE :: nat where "HASH_SIZE = 4096"
definition DEFAULT_HARBOR_QUEUE :: nat where "DEFAULT_HARBOR_QUEUE = 1024"
definition HEADER_COOKIE_LENGTH :: nat where "HEADER_COOKIE_LENGTH = 12"
definition REMOTE_MAX :: nat where "REMOTE_MAX = 256"

record remote_message_header =
  rm_source :: u32
  rm_destination :: u32
  rm_session :: u32

text \<open>A block of memory: its address and its content.\<close>

record hbuf =
  hb_addr :: nat
  hb_data :: bytes

record harbor_msg =
  hm_header :: remote_message_header
  hm_buffer :: hbuf

record harbor_msg_queue =
  hq_size :: nat
  hq_head :: nat
  hq_tail :: nat
  hq_data :: "harbor_msg option list"

record keyvalue =
  kv_key :: bytes
  kv_hash :: u32
  kv_value :: u32
  kv_queue :: "harbor_msg_queue option"

datatype slave_status = STATUS_WAIT | STATUS_HANDSHAKE | STATUS_HEADER | STATUS_CONTENT | STATUS_DOWN

record slave =
  sl_fd :: int
  sl_queue :: "harbor_msg_queue option"
  sl_status :: slave_status
  sl_length :: int
  sl_read :: int
  sl_size :: bytes
  sl_recv :: "hbuf option"

text \<open>What \<open>skynet_send\<close> is given: nothing, bytes it copies, or a block it takes over.\<close>

datatype hmsg = M_null | M_copy bytes | M_give hbuf

datatype harbor_effect =
    E_send u32 u32 int int hmsg
  | E_error string
  | E_socket_send int bytes
  | E_socket_close int
  | E_socket_start int
  | E_free nat
  | E_callback
  | E_harbor_start

record harbor_svc =
  hv_id :: int
  hv_slave :: u32
  hv_map :: "nat \<Rightarrow> keyvalue list"
  hv_s :: "slave list"
  hv_next :: nat
  hv_out :: "harbor_effect list"

definition h_emit :: "harbor_effect \<Rightarrow> harbor_svc \<Rightarrow> harbor_svc" where
  "h_emit e h = h\<lparr>hv_out := hv_out h @ [e]\<rparr>"

definition h_emits :: "harbor_effect list \<Rightarrow> harbor_svc \<Rightarrow> harbor_svc" where
  "h_emits es h = h\<lparr>hv_out := hv_out h @ es\<rparr>"

definition put_slave :: "nat \<Rightarrow> slave \<Rightarrow> harbor_svc \<Rightarrow> harbor_svc" where
  "put_slave i s h = h\<lparr>hv_s := (hv_s h)[i := s]\<rparr>"

section \<open>Queues of messages\<close>

definition grow_queue :: "harbor_msg_queue \<Rightarrow> harbor_msg_queue" where
  "grow_queue q =
     q\<lparr>hq_data := map (\<lambda>i. hq_data q ! ((i + hq_head q) mod hq_size q)) [0..<hq_size q - 1]
                    @ replicate (hq_size q + 1) None,
       hq_head := 0, hq_tail := hq_size q - 1, hq_size := hq_size q * 2\<rparr>"

definition push_queue_msg :: "harbor_msg \<Rightarrow> harbor_msg_queue \<Rightarrow> harbor_msg_queue option" where
  "push_queue_msg m q = do {
     let q = (if (hq_tail q + 1) mod hq_size q = hq_head q then grow_queue q else q);
     d \<leftarrow> upd_opt (hq_data q) (hq_tail q) (Some m);
     Some (q\<lparr>hq_data := d, hq_tail := (hq_tail q + 1) mod hq_size q\<rparr>)
   }"

definition push_queue :: "hbuf \<Rightarrow> remote_message_header \<Rightarrow> harbor_msg_queue \<Rightarrow> harbor_msg_queue option" where
  "push_queue b hdr q = push_queue_msg \<lparr>hm_header = hdr, hm_buffer = b\<rparr> q"

definition pop_queue :: "harbor_msg_queue \<Rightarrow> (harbor_msg option \<times> harbor_msg_queue) option" where
  "pop_queue q =
     (if hq_head q = hq_tail q then Some (None, q)
      else do {
        e \<leftarrow> nth_opt (hq_data q) (hq_head q);
        m \<leftarrow> e;
        Some (Some m, q\<lparr>hq_head := (hq_head q + 1) mod hq_size q\<rparr>)
      })"

definition new_harbor_queue :: harbor_msg_queue where
  "new_harbor_queue = \<lparr>hq_size = DEFAULT_HARBOR_QUEUE, hq_head = 0, hq_tail = 0,
     hq_data = replicate DEFAULT_HARBOR_QUEUE None\<rparr>"

text \<open>The loops \<open>while ((m = pop_queue(queue)) != NULL)\<close>: the messages in the order they are
  popped. A body that only acts on the message is mapped over them.\<close>

partial_function (option) pop_all :: "harbor_msg_queue \<Rightarrow> harbor_msg list option" where
  "pop_all q = do {
     (m, q) \<leftarrow> pop_queue q;
     (case m of None \<Rightarrow> Some [] | Some m \<Rightarrow> do { ms \<leftarrow> pop_all q; Some (m # ms) })
   }"

definition release_queue :: "harbor_msg_queue option \<Rightarrow> harbor_svc \<Rightarrow> harbor_svc option" where
  "release_queue q h = (case q of
     None \<Rightarrow> Some h
   | Some q \<Rightarrow> do { ms \<leftarrow> pop_all q; Some (h_emits (map (\<lambda>m. E_free (hb_addr (hm_buffer m))) ms) h) })"

fun push_all_queue :: "harbor_msg list \<Rightarrow> harbor_msg_queue \<Rightarrow> harbor_msg_queue option" where
  "push_all_queue [] q = Some q"
| "push_all_queue (m # ms) q = do { q \<leftarrow> push_queue_msg m q; push_all_queue ms q }"

section \<open>The table of names\<close>

definition name_hash :: "bytes \<Rightarrow> u32" where
  "name_hash nm = le32 nm 0 XOR le32 nm 4 XOR le32 nm 8 XOR le32 nm 12"

text \<open>\<open>strncmp(a, b, GLOBALNAME_LENGTH) == 0\<close>\<close>

definition same_name :: "bytes \<Rightarrow> bytes \<Rightarrow> bool" where
  "same_name a b \<longleftrightarrow> upto_nul (take GLOBALNAME_LENGTH a) = upto_nul (take GLOBALNAME_LENGTH b)"

definition kv_is :: "bytes \<Rightarrow> keyvalue \<Rightarrow> bool" where
  "kv_is nm n \<longleftrightarrow> kv_hash n = name_hash nm \<and> same_name (kv_key n) nm"

definition hash_search :: "(nat \<Rightarrow> keyvalue list) \<Rightarrow> bytes \<Rightarrow> keyvalue option" where
  "hash_search m nm = find (kv_is nm) (m (unat (name_hash nm) mod HASH_SIZE))"

definition hash_insert :: "(nat \<Rightarrow> keyvalue list) \<Rightarrow> bytes \<Rightarrow> keyvalue \<times> (nat \<Rightarrow> keyvalue list)" where
  "hash_insert m nm = (
     let h = name_hash nm;
         node = \<lparr>kv_key = take GLOBALNAME_LENGTH nm, kv_hash = h, kv_value = 0, kv_queue = None\<rparr>
     in (node, m(unat h mod HASH_SIZE := node # m (unat h mod HASH_SIZE))))"

text \<open>Writing to the node that \<open>hash_search\<close> returned, or that \<open>hash_insert\<close> added.\<close>

fun store_first :: "('a \<Rightarrow> bool) \<Rightarrow> 'a \<Rightarrow> 'a list \<Rightarrow> 'a list" where
  "store_first P y [] = []"
| "store_first P y (x # xs) = (if P x then y # xs else x # store_first P y xs)"

definition put_node :: "bytes \<Rightarrow> keyvalue \<Rightarrow> harbor_svc \<Rightarrow> harbor_svc" where
  "put_node nm n h = (let i = unat (name_hash nm) mod HASH_SIZE
     in h\<lparr>hv_map := (hv_map h)(i := store_first (kv_is nm) n (hv_map h i))\<rparr>)"

text \<open>\<open>node = hash_search(...); if (node == NULL) node = hash_insert(...);\<close>\<close>

definition name_node :: "bytes \<Rightarrow> harbor_svc \<Rightarrow> keyvalue \<times> harbor_svc" where
  "name_node nm h = (case hash_search (hv_map h) nm of
     Some n \<Rightarrow> (n, h)
   | None \<Rightarrow> (let (n, m) = hash_insert (hv_map h) nm in (n, h\<lparr>hv_map := m\<rparr>)))"

fun release_nodes :: "keyvalue list \<Rightarrow> harbor_svc \<Rightarrow> harbor_svc option" where
  "release_nodes [] h = Some h"
| "release_nodes (n # ns) h = do { h \<leftarrow> release_queue (kv_queue n) h; release_nodes ns h }"

fun hash_delete :: "nat list \<Rightarrow> harbor_svc \<Rightarrow> harbor_svc option" where
  "hash_delete [] h = Some h"
| "hash_delete (i # is) h = do { h \<leftarrow> release_nodes (hv_map h i) h; hash_delete is h }"

section \<open>Connections\<close>

definition close_harbor :: "nat \<Rightarrow> harbor_svc \<Rightarrow> harbor_svc option" where
  "close_harbor i h = do {
     s \<leftarrow> nth_opt (hv_s h) i;
     let h = (if sl_fd s \<noteq> 0 then h_emit (E_socket_close (sl_fd s)) h else h);
     h \<leftarrow> release_queue (sl_queue s) h;
     Some (put_slave i (s\<lparr>sl_status := STATUS_DOWN, sl_queue := None\<rparr>) h)
   }"

definition report_harbor_down :: "int \<Rightarrow> harbor_svc \<Rightarrow> harbor_svc" where
  "report_harbor_down i h = h_emit (E_send 0 (hv_slave h) PTYPE_TEXT 0 (M_copy (lit ''D '' @ dec i))) h"

definition slave_zero :: slave where
  "slave_zero = \<lparr>sl_fd = 0, sl_queue = None, sl_status = STATUS_WAIT, sl_length = 0, sl_read = 0,
     sl_size = replicate 4 0, sl_recv = None\<rparr>"

definition harbor_create :: "nat \<Rightarrow> harbor_svc" where
  "harbor_create next = \<lparr>hv_id = 0, hv_slave = 0, hv_map = (\<lambda>_. []), hv_s = replicate REMOTE_MAX slave_zero,
     hv_next = next, hv_out = []\<rparr>"

fun close_open :: "nat list \<Rightarrow> harbor_svc \<Rightarrow> harbor_svc option" where
  "close_open [] h = Some h"
| "close_open (i # is) h = do {
     s \<leftarrow> nth_opt (hv_s h) i;
     h \<leftarrow> (if sl_fd s \<noteq> 0 \<and> sl_status s \<noteq> STATUS_DOWN then close_harbor i h else Some h);
     close_open is h
   }"

definition harbor_release :: "harbor_svc \<Rightarrow> harbor_svc option" where
  "harbor_release h = do {
     h \<leftarrow> close_open [1..<REMOTE_MAX] h;
     hash_delete [0..<HASH_SIZE] h
   }"

section \<open>Message headers\<close>

definition to_bigendian :: "u32 \<Rightarrow> bytes" where
  "to_bigendian n = [ucast (drop_bit 24 n AND 0xff), ucast (drop_bit 16 n AND 0xff),
     ucast (drop_bit 8 n AND 0xff), ucast (n AND 0xff)]"

definition header_to_message :: "remote_message_header \<Rightarrow> bytes" where
  "header_to_message hdr = to_bigendian (rm_source hdr) @ to_bigendian (rm_destination hdr) @ to_bigendian (rm_session hdr)"

definition from_bigendian :: "bytes \<Rightarrow> u32" where
  "from_bigendian b = push_bit 24 (ucast (b ! 0)) OR push_bit 16 (ucast (b ! 1)) OR push_bit 8 (ucast (b ! 2)) OR ucast (b ! 3)"

definition message_to_header :: "bytes \<Rightarrow> remote_message_header" where
  "message_to_header b = \<lparr>rm_source = from_bigendian (take 4 b), rm_destination = from_bigendian (take 4 (drop 4 b)),
     rm_session = from_bigendian (take 4 (drop 8 b))\<rparr>"

text \<open>The name of the C function is \<open>forward_local_messsage\<close>. A frame shorter than the header makes
  it read in front of the buffer.\<close>

definition forward_local_message :: "(u32 \<Rightarrow> bool) \<Rightarrow> hbuf \<Rightarrow> harbor_svc \<Rightarrow> harbor_svc option" where
  "forward_local_message known msg h = do {
     let sz = length (hb_data msg);
     assert_opt (HEADER_COOKIE_LENGTH \<le> sz);
     let hdr = message_to_header (drop (sz - HEADER_COOKIE_LENGTH) (hb_data msg));
     let type = uint (drop_bit HANDLE_REMOTE_SHIFT (rm_destination hdr));
     let destination = (rm_destination hdr AND HANDLE_MASK) OR push_bit HANDLE_REMOTE_SHIFT (word_of_int (hv_id h));
     let h = h_emit (E_send (rm_source hdr) destination (type OR PTYPE_TAG_DONTCOPY) (sint (rm_session hdr))
                       (M_give (msg\<lparr>hb_data := take (sz - HEADER_COOKIE_LENGTH) (hb_data msg)\<rparr>))) h;
     Some (if known destination then h
           else h_emits ((if type \<noteq> PTYPE_ERROR
                           then [E_send destination (rm_source hdr) PTYPE_ERROR (sint (rm_session hdr)) M_null] else [])
                         @ [E_error ''Unknown destination :%x from :%x type(%d)'']) h)
   }"

definition remote_effects :: "int \<Rightarrow> bytes \<Rightarrow> remote_message_header \<Rightarrow> harbor_effect list" where
  "remote_effects fd b cookie = (
     let sz_header = length b + HEADER_COOKIE_LENGTH in
     if sz_header > 2 ^ 32 - 1 then [E_error ''remote message from :%08x to :%08x is too large.'']
     else [E_socket_send fd (to_bigendian (of_nat sz_header) @ b @ header_to_message cookie)])"

definition send_remote :: "int \<Rightarrow> bytes \<Rightarrow> remote_message_header \<Rightarrow> harbor_svc \<Rightarrow> harbor_svc" where
  "send_remote fd b cookie h = h_emits (remote_effects fd b cookie) h"

text \<open>The bodies of the loops that empty a queue.\<close>

definition send_and_free :: "int \<Rightarrow> u32 \<Rightarrow> harbor_msg \<Rightarrow> harbor_effect list" where
  "send_and_free fd hbits m = (
     let hdr = (hm_header m)\<lparr>rm_destination := rm_destination (hm_header m) OR hbits\<rparr>
     in remote_effects fd (hb_data (hm_buffer m)) hdr @ [E_free (hb_addr (hm_buffer m))])"

definition send_local :: "u32 \<Rightarrow> harbor_msg \<Rightarrow> harbor_effect" where
  "send_local handle m = (
     let type = uint (drop_bit HANDLE_REMOTE_SHIFT (rm_destination (hm_header m)))
     in E_send (rm_source (hm_header m)) handle (type OR PTYPE_TAG_DONTCOPY) (sint (rm_session (hm_header m)))
          (M_give (hm_buffer m)))"

text \<open>\<open>dispatch_name_queue\<close>; the node is returned with what is left of its queue.\<close>

definition dispatch_name_queue :: "keyvalue \<Rightarrow> harbor_svc \<Rightarrow> (keyvalue \<times> harbor_svc) option" where
  "dispatch_name_queue node h = do {
     queue \<leftarrow> kv_queue node;
     let handle = kv_value node;
     let harbor_id = unat (drop_bit HANDLE_REMOTE_SHIFT handle);
     s \<leftarrow> nth_opt (hv_s h) harbor_id;
     let fd = sl_fd s;
     if fd = 0 then
       (if sl_status s = STATUS_DOWN
        then Some (node, h_emit (E_error ''Drop message to %s (in harbor %d)'') h)
        else do {
          (sq, node) \<leftarrow> (case sl_queue s of
              None \<Rightarrow> Some (queue, node\<lparr>kv_queue := None\<rparr>)
            | Some sq \<Rightarrow> do {
                ms \<leftarrow> pop_all queue;
                sq \<leftarrow> push_all_queue ms sq;
                Some (sq, node\<lparr>kv_queue := Some (queue\<lparr>hq_head := hq_tail queue\<rparr>)\<rparr>)
              });
          if harbor_id = unat (drop_bit HANDLE_REMOTE_SHIFT (hv_slave h)) then do {
            ms \<leftarrow> pop_all sq;
            Some (node, put_slave harbor_id (s\<lparr>sl_queue := None\<rparr>) (h_emits (map (send_local handle) ms) h))
          } else Some (node, put_slave harbor_id (s\<lparr>sl_queue := Some sq\<rparr>) h)
        })
     else do {
       ms \<leftarrow> pop_all queue;
       Some (node\<lparr>kv_queue := Some (queue\<lparr>hq_head := hq_tail queue\<rparr>)\<rparr>,
             h_emits (concat (map (send_and_free fd (handle AND HANDLE_MASK)) ms)) h)
     }
   }"

definition dispatch_queue_to :: "nat \<Rightarrow> harbor_svc \<Rightarrow> harbor_svc option" where
  "dispatch_queue_to i h = do {
     s \<leftarrow> nth_opt (hv_s h) i;
     assert_opt (sl_fd s \<noteq> 0);
     (case sl_queue s of
        None \<Rightarrow> Some h
      | Some queue \<Rightarrow> do {
          ms \<leftarrow> pop_all queue;
          Some (put_slave i (s\<lparr>sl_queue := None\<rparr>) (h_emits (concat (map (send_and_free (sl_fd s) 0) ms)) h))
        })
   }"

section \<open>Data from a connection\<close>

definition harbor_id :: "harbor_svc \<Rightarrow> int \<Rightarrow> nat" where
  "harbor_id h fd = (case find (\<lambda>i. sl_fd (hv_s h ! i) = fd) [1..<REMOTE_MAX] of None \<Rightarrow> 0 | Some i \<Rightarrow> i)"

text \<open>\<open>memcpy(dst + pos, src, n)\<close> for the header bytes.\<close>

definition copy_size :: "bytes \<Rightarrow> int \<Rightarrow> bytes \<Rightarrow> bytes option" where
  "copy_size dst pos src = (if 0 \<le> pos \<and> nat pos + length src \<le> length dst
     then Some (take (nat pos) dst @ src @ drop (nat pos + length src) dst) else None)"

text \<open>Of the buffer that a frame is assembled in, \<open>sl_recv\<close> holds the bytes received so far.\<close>

definition recv_append :: "hbuf option \<Rightarrow> bytes \<Rightarrow> hbuf option" where
  "recv_append r bs = map_option (\<lambda>b. b\<lparr>hb_data := hb_data b @ bs\<rparr>) r"

definition start_content :: "nat \<Rightarrow> slave \<Rightarrow> bytes \<Rightarrow> harbor_svc \<Rightarrow> harbor_svc" where
  "start_content i s szb h = (
     let len = uint (push_bit 16 (ucast (szb ! 1)) OR push_bit 8 (ucast (szb ! 2)) OR ucast (szb ! 3) :: u32)
     in put_slave i (s\<lparr>sl_size := szb, sl_length := len, sl_read := 0,
          sl_recv := Some \<lparr>hb_addr = hv_next h, hb_data = []\<rparr>, sl_status := STATUS_CONTENT\<rparr>)
          (h\<lparr>hv_next := hv_next h + 1\<rparr>))"

text \<open>One iteration per status. The \<open>break\<close> after a handshake of one byte and the fall through
  into the next case of the switch both continue with the status \<open>STATUS_HEADER\<close>.\<close>

partial_function (option) push_loop :: "(u32 \<Rightarrow> bool) \<Rightarrow> nat \<Rightarrow> bytes \<Rightarrow> harbor_svc \<Rightarrow> harbor_svc option" where
  "push_loop known i buffer h = do {
     s \<leftarrow> nth_opt (hv_s h) i;
     (if sl_status s = STATUS_HANDSHAKE then do {
        remote_id \<leftarrow> nth_opt buffer 0;
        if unat remote_id \<noteq> i
        then close_harbor i (h_emit (E_error ''Invalid shakehand id (%d) from fd = %d , harbor = %d'') h)
        else do {
          h \<leftarrow> dispatch_queue_to i (put_slave i (s\<lparr>sl_status := STATUS_HEADER\<rparr>) h);
          push_loop known i (drop 1 buffer) h
        }
      }
      else if sl_status s = STATUS_HEADER then do {
        let need = 4 - sl_read s;
        if int (length buffer) < need then do {
          szb \<leftarrow> copy_size (sl_size s) (sl_read s) buffer;
          Some (put_slave i (s\<lparr>sl_size := szb, sl_read := sl_read s + int (length buffer)\<rparr>) h)
        }
        else do {
          szb \<leftarrow> copy_size (sl_size s) (sl_read s) (take (nat need) buffer);
          if szb ! 0 \<noteq> 0
          then close_harbor i (h_emit (E_error ''Message is too long from harbor %d'') (put_slave i (s\<lparr>sl_size := szb\<rparr>) h))
          else do {
            let h = start_content i s szb h;
            if drop (nat need) buffer = [] then Some h else push_loop known i (drop (nat need) buffer) h
          }
        }
      }
      else if sl_status s = STATUS_CONTENT then do {
        let need = sl_length s - sl_read s;
        if int (length buffer) < need
        then Some (put_slave i (s\<lparr>sl_recv := recv_append (sl_recv s) buffer, sl_read := sl_read s + int (length buffer)\<rparr>) h)
        else do {
          msg \<leftarrow> recv_append (sl_recv s) (take (nat need) buffer);
          h \<leftarrow> forward_local_message known msg h;
          let h = put_slave i (s\<lparr>sl_length := 0, sl_read := 0, sl_recv := None, sl_status := STATUS_HEADER\<rparr>) h;
          if drop (nat need) buffer = [] then Some h else push_loop known i (drop (nat need) buffer) h
        }
      }
      else Some h)
   }"

definition push_socket_data :: "(u32 \<Rightarrow> bool) \<Rightarrow> int \<Rightarrow> hbuf \<Rightarrow> harbor_svc \<Rightarrow> harbor_svc option" where
  "push_socket_data known fd b h = (
     let i = harbor_id h fd in
     if i = 0 then Some (h_emits [E_free (hb_addr b), E_error ''Invalid socket fd (%d) data''] h)
     else push_loop known i (hb_data b) h)"

section \<open>Names and outgoing messages\<close>

definition update_name :: "bytes \<Rightarrow> u32 \<Rightarrow> harbor_svc \<Rightarrow> harbor_svc option" where
  "update_name nm handle h = do {
     let (node, h) = name_node nm h;
     let node = node\<lparr>kv_value := handle\<rparr>;
     if kv_queue node \<noteq> None then do {
       (node, h) \<leftarrow> dispatch_name_queue node h;
       h \<leftarrow> release_queue (kv_queue node) h;
       Some (put_node nm (node\<lparr>kv_queue := None\<rparr>) h)
     } else Some (put_node nm node h)
   }"

definition out_header :: "u32 \<Rightarrow> u32 \<Rightarrow> int \<Rightarrow> int \<Rightarrow> remote_message_header" where
  "out_header src destination type sess =
     \<lparr>rm_source = src,
      rm_destination = (destination AND HANDLE_MASK) OR push_bit HANDLE_REMOTE_SHIFT (word_of_int type),
      rm_session = word_of_int sess\<rparr>"

text \<open>The result says whether the service keeps or hands on the message; otherwise the caller
  frees it.\<close>

definition remote_send_handle ::
    "u32 \<Rightarrow> u32 \<Rightarrow> int \<Rightarrow> int \<Rightarrow> hbuf \<Rightarrow> harbor_svc \<Rightarrow> (bool \<times> harbor_svc) option" where
  "remote_send_handle src destination type sess msg h = do {
     let i = unat (drop_bit HANDLE_REMOTE_SHIFT destination);
     if int i = hv_id h
     then Some (True, h_emit (E_send src destination (type OR PTYPE_TAG_DONTCOPY) sess (M_give msg)) h)
     else do {
       s \<leftarrow> nth_opt (hv_s h) i;
       if sl_fd s = 0 \<or> sl_status s = STATUS_HANDSHAKE then
         (if sl_status s = STATUS_DOWN
          then Some (False, h_emits [E_send destination src PTYPE_ERROR 0 M_null,
                 E_error ''Drop message to harbor %d from %x to %x (session = %d, msgsz = %d)''] h)
          else do {
            let q = (case sl_queue s of None \<Rightarrow> new_harbor_queue | Some q \<Rightarrow> q);
            q \<leftarrow> push_queue msg (out_header src destination type sess) q;
            Some (True, put_slave i (s\<lparr>sl_queue := Some q\<rparr>) h)
          })
       else Some (False, send_remote (sl_fd s) (hb_data msg) (out_header src destination type sess) h)
     }
   }"

definition query_text :: "bytes \<Rightarrow> cstr" where
  "query_text nm = upto_nul (lit ''Q '' @ take GLOBALNAME_LENGTH nm)"

definition remote_send_name ::
    "u32 \<Rightarrow> bytes \<Rightarrow> int \<Rightarrow> int \<Rightarrow> hbuf \<Rightarrow> harbor_svc \<Rightarrow> (bool \<times> harbor_svc) option" where
  "remote_send_name src nm type sess msg h = do {
     let (node, h) = name_node nm h;
     if kv_value node = 0 then do {
       let q = (case kv_queue node of None \<Rightarrow> new_harbor_queue | Some q \<Rightarrow> q);
       q \<leftarrow> push_queue msg (out_header src 0 type sess) q;
       Some (True, h_emit (E_send 0 (hv_slave h) PTYPE_TEXT 0 (M_copy (query_text nm)))
                    (put_node nm (node\<lparr>kv_queue := Some q\<rparr>) h))
     }
     else remote_send_handle src (kv_value node) type sess msg h
   }"

section \<open>Commands and the callback\<close>

definition handshake :: "nat \<Rightarrow> harbor_svc \<Rightarrow> harbor_svc option" where
  "handshake i h = do {
     s \<leftarrow> nth_opt (hv_s h) i;
     Some (h_emit (E_socket_send (sl_fd s) [word_of_int (hv_id h)]) h)
   }"

definition scan_int2 :: "cstr \<Rightarrow> int \<times> int" where
  "scan_int2 t = (case scan_int t of
     None \<Rightarrow> (0, 0)
   | Some (a, r) \<Rightarrow> (a, case scan_int r of None \<Rightarrow> 0 | Some (b, _) \<Rightarrow> b))"

definition command_name :: "bytes \<Rightarrow> u32 \<Rightarrow> harbor_svc \<Rightarrow> harbor_svc option" where
  "command_name nm src h = (
     let s = length nm in
     if s = 0 \<or> s \<ge> GLOBALNAME_LENGTH then Some (h_emit (E_error ''Invalid global name %s'') h)
     else update_name (nm @ replicate (GLOBALNAME_LENGTH - s) 0) src h)"

definition command_connect :: "bool \<Rightarrow> bytes \<Rightarrow> harbor_svc \<Rightarrow> harbor_svc option" where
  "command_connect shake buf h = (
     let (fd, i) = scan_int2 (upto_nul buf) in
     if fd = 0 \<or> i \<le> 0 \<or> i \<ge> int REMOTE_MAX then Some (h_emit (E_error ''Invalid command %c %s'') h)
     else do {
       s \<leftarrow> nth_opt (hv_s h) (nat i);
       if sl_fd s \<noteq> 0 then Some (h_emit (E_error ''Harbor %d alreay exist'') h)
       else do {
         let h = h_emit (E_socket_start fd) (put_slave (nat i) (s\<lparr>sl_fd := fd\<rparr>) h);
         h \<leftarrow> handshake (nat i) h;
         let s = s\<lparr>sl_fd := fd\<rparr>;
         if shake then Some (put_slave (nat i) (s\<lparr>sl_status := STATUS_HANDSHAKE\<rparr>) h)
         else dispatch_queue_to (nat i) (put_slave (nat i) (s\<lparr>sl_status := STATUS_HEADER\<rparr>) h)
       }
     })"

text \<open>The text of a command has a command letter and a space; with fewer than two bytes an array of
  negative length would be declared.\<close>

definition harbor_command :: "bytes \<Rightarrow> u32 \<Rightarrow> harbor_svc \<Rightarrow> harbor_svc option" where
  "harbor_command msg src h = do {
     c \<leftarrow> nth_opt msg 0;
     if c = ch CHR ''N'' then command_name (drop 2 msg) src h
     else if c = ch CHR ''S'' \<or> c = ch CHR ''A'' then do {
       assert_opt (2 \<le> length msg);
       command_connect (c = ch CHR ''S'') (drop 2 msg) h
     }
     else Some (h_emit (E_error ''Unknown command %s'') h)
   }"

text \<open>The messages of the callback: a socket event, a command text, or a message for another node.\<close>

datatype harbor_event =
    SOCKET_DATA int hbuf
  | SOCKET_CLOSE int
  | SOCKET_ERROR int
  | SOCKET_CONNECT int
  | SOCKET_WARNING int int
  | SOCKET_OTHER
  | HARBOR_COMMAND bytes u32
  | REMOTE_OUT int int u32 bytes u32 hbuf

definition socket_closed :: "int \<Rightarrow> harbor_svc \<Rightarrow> harbor_svc" where
  "socket_closed fd h = (
     let i = harbor_id h fd in
     if i \<noteq> 0 then report_harbor_down (int i) h else h_emit (E_error ''Unkown fd (%d) closed'') h)"

definition remote_out :: "int \<Rightarrow> int \<Rightarrow> u32 \<Rightarrow> bytes \<Rightarrow> u32 \<Rightarrow> hbuf \<Rightarrow> harbor_svc \<Rightarrow> harbor_svc option" where
  "remote_out type sess src nm handle msg h = do {
     (kept, h) \<leftarrow> (if handle = 0 then remote_send_name src nm type sess msg h
                    else remote_send_handle src handle type sess msg h);
     Some (if kept then h else h_emit (E_free (hb_addr msg)) h)
   }"

fun mainloop :: "(u32 \<Rightarrow> bool) \<Rightarrow> harbor_event \<Rightarrow> harbor_svc \<Rightarrow> harbor_svc option" where
  "mainloop known (SOCKET_DATA fd b) h = do {
     h \<leftarrow> push_socket_data known fd b h;
     Some (h_emit (E_free (hb_addr b)) h)
   }"
| "mainloop known (SOCKET_CLOSE fd) h = Some (socket_closed fd h)"
| "mainloop known (SOCKET_ERROR fd) h = Some (socket_closed fd h)"
| "mainloop known (SOCKET_CONNECT fd) h = Some h"
| "mainloop known (SOCKET_WARNING fd ud) h =
     Some (if harbor_id h fd \<noteq> 0 then h_emit (E_error ''message havn't send to Harbor (%d) reach %d K'') h else h)"
| "mainloop known SOCKET_OTHER h = Some (h_emit (E_error ''recv invalid socket message type %d'') h)"
| "mainloop known (HARBOR_COMMAND msg src) h = harbor_command msg src h"
| "mainloop known (REMOTE_OUT type sess src nm handle msg) h = remote_out type sess src nm handle msg h"

text \<open>\<open>harbor_init\<close>: \<open>None\<close> is the return value 1. The address of the slave service is read as \<open>%u\<close>.
  The effects are \<open>skynet_callback\<close> with the main loop and \<open>skynet_harbor_start\<close>.\<close>

definition harbor_init :: "cstr \<Rightarrow> harbor_svc \<Rightarrow> harbor_svc option" where
  "harbor_init args h = (
     let (i, slave) = (case scan_int args of
         None \<Rightarrow> (0, 0)
       | Some (i, r) \<Rightarrow> (i, case scan_int r of None \<Rightarrow> 0 | Some _ \<Rightarrow> ucast (strtoul 10 r)))
     in if slave = (0 :: u32) then None else Some (h_emits [E_callback, E_harbor_start] (h\<lparr>hv_id := i, hv_slave := slave\<rparr>)))"

section \<open>The queues are first in, first out\<close>

definition hq_slots :: "harbor_msg_queue \<Rightarrow> harbor_msg option list" where
  "hq_slots q = ring_slice (hq_data q) (hq_head q) ((hq_tail q + hq_size q - hq_head q) mod hq_size q)"

definition hq_list :: "harbor_msg_queue \<Rightarrow> harbor_msg list" where
  "hq_list q = map the (hq_slots q)"

definition hq_inv :: "harbor_msg_queue \<Rightarrow> bool" where [inv_defs]:
  "hq_inv q \<longleftrightarrow> 1 < hq_size q \<and> length (hq_data q) = hq_size q \<and> hq_head q < hq_size q \<and> hq_tail q < hq_size q
     \<and> None \<notin> set (hq_slots q)"

definition hq_full :: "harbor_msg_queue \<Rightarrow> bool" where
  "hq_full q \<longleftrightarrow> (hq_tail q + 1) mod hq_size q = hq_head q"

lemma hq_list_empty: "hq_inv q \<Longrightarrow> hq_list q = [] \<longleftrightarrow> hq_head q = hq_tail q"
  by (auto simp: hq_list_def hq_slots_def hq_inv_def ring_count simp flip: length_0_conv split: if_splits)

lemma grow_ok:
  assumes inv: "hq_inv q" and full: "hq_full q"
  shows "hq_inv (grow_queue q) \<and> hq_slots (grow_queue q) = hq_slots q \<and> \<not> hq_full (grow_queue q)"
proof -
  let ?c = "hq_size q" and ?h = "hq_head q" and ?t = "hq_tail q"
  have c: "1 < ?c" "length (hq_data q) = ?c" "?h < ?c" "?t < ?c" using inv by (auto simp: hq_inv_def)
  have n: "(?t + ?c - ?h) mod ?c = ?c - 1"
    using c full by (auto simp: hq_full_def ring_count mod_Suc split: if_splits)
  have old: "hq_slots q = map (\<lambda>i. hq_data q ! ((i + ?h) mod ?c)) [0..<?c - 1]"
    unfolding hq_slots_def n ring_slice_def c(2) by (simp add: add.commute)
  have new: "hq_slots (grow_queue q) = hq_slots q"
  proof -
    have m: "(?c - 1 + ?c * 2) mod (?c * 2) = ?c - 1" using c by (simp only: mod_add_self2) simp
    have "hq_slots (grow_queue q) = ring_slice (hq_data (grow_queue q)) 0 (?c - 1)"
      using m by (simp add: hq_slots_def grow_queue_def)
    also have "\<dots> = take (?c - 1) (hq_data (grow_queue q))"
      using c by (intro ring_slice_take) (simp add: grow_queue_def)
    also have "\<dots> = hq_slots q" by (simp add: grow_queue_def old)
    finally show ?thesis .
  qed
  then show ?thesis using inv c by (auto simp: hq_inv_def grow_queue_def hq_full_def new [unfolded grow_queue_def])
qed

lemma store_ok:
  assumes inv: "hq_inv q" and room: "\<not> hq_full q"
  shows "\<exists>q'. upd_opt (hq_data q) (hq_tail q) (Some m) = Some (hq_data q') \<and> q' = q\<lparr>hq_data := hq_data q',
     hq_tail := (hq_tail q + 1) mod hq_size q\<rparr> \<and> hq_inv q' \<and> hq_list q' = hq_list q @ [m]"
proof -
  let ?c = "hq_size q" and ?h = "hq_head q" and ?t = "hq_tail q"
  let ?n = "(?t + ?c - ?h) mod ?c" and ?d = "(hq_data q)[?t := Some m]"
  let ?q = "q\<lparr>hq_data := ?d, hq_tail := Suc ?t mod ?c\<rparr>"
  have c: "1 < ?c" "length (hq_data q) = ?c" "?h < ?c" "?t < ?c" using inv by (auto simp: hq_inv_def)
  have ht: "(?h + ?n) mod length (hq_data q) = ?t" using c by (simp add: ring_count mod_if)
  have sn: "(Suc ?t mod ?c + ?c - ?h) mod ?c = Suc ?n"
    using c room by (auto simp: hq_full_def ring_count mod_Suc split: if_splits)
  have "ring_slice ?d ?h (Suc ?n) = hq_slots q @ [Some m]"
    using ring_slice_snoc [of ?h "hq_data q" ?n "Some m"] ht c by (simp add: hq_slots_def)
  then have "hq_slots ?q = hq_slots q @ [Some m]" by (simp add: hq_slots_def [of ?q] sn)
  then have "hq_inv ?q" "hq_list ?q = hq_list q @ [m]" using inv c by (auto simp: hq_inv_def hq_list_def)
  then show ?thesis using c by (intro exI [of _ ?q]) simp
qed

lemma push_queue_ok: "hq_inv q \<Longrightarrow> \<exists>q'. push_queue_msg m q = Some q' \<and> hq_inv q' \<and> hq_list q' = hq_list q @ [m]"
proof -
  assume inv: "hq_inv q"
  define p where "p = (if hq_full q then grow_queue q else q)"
  have p: "hq_inv p" "\<not> hq_full p" "hq_list p = hq_list q"
    using grow_ok [OF inv] inv by (auto simp: p_def hq_list_def)
  from store_ok [OF p(1,2), of m] obtain q' where
    q': "upd_opt (hq_data p) (hq_tail p) (Some m) = Some (hq_data q')"
    "q' = p\<lparr>hq_data := hq_data q', hq_tail := (hq_tail p + 1) mod hq_size p\<rparr>" "hq_inv q'" "hq_list q' = hq_list p @ [m]" by blast
  then have "push_queue_msg m q = Some q'"
    by (simp add: push_queue_msg_def Let_def p_def hq_full_def [symmetric, simplified] del: upd_opt_Some)
  with q' p show ?thesis by auto
qed

lemma pop_queue_ok:
  assumes inv: "hq_inv q"
  shows "hq_list q = [] \<Longrightarrow> pop_queue q = Some (None, q)"
    and "hq_list q = x # xs \<Longrightarrow> \<exists>q'. pop_queue q = Some (Some x, q') \<and> hq_inv q' \<and> hq_list q' = xs"
proof -
  show "hq_list q = [] \<Longrightarrow> pop_queue q = Some (None, q)" using hq_list_empty [OF inv] by (simp add: pop_queue_def)
  assume l: "hq_list q = x # xs"
  let ?c = "hq_size q" and ?h = "hq_head q" and ?t = "hq_tail q"
  let ?h' = "(?h + 1) mod ?c" and ?q = "q\<lparr>hq_head := (hq_head q + 1) mod hq_size q\<rparr>"
  have c: "1 < ?c" "length (hq_data q) = ?c" "?h < ?c" "?t < ?c" using inv by (auto simp: hq_inv_def)
  have ne: "?h \<noteq> ?t" using hq_list_empty [OF inv] l by auto
  have n: "(?t + ?c - ?h) mod ?c = Suc ((?t + ?c - ?h') mod ?c)"
    using c ne by (auto simp: ring_count mod_Suc split: if_splits)
  have sl: "hq_slots q = hq_data q ! ?h # hq_slots ?q"
    unfolding hq_slots_def n using ring_slice_Cons [of ?h "hq_data q"] c by simp
  then obtain m where m: "hq_data q ! ?h = Some m" using inv by (cases "hq_data q ! ?h") (auto simp: hq_inv_def)
  with sl l have "x = m" "xs = hq_list ?q" by (simp_all add: hq_list_def)
  moreover have "hq_inv ?q" using inv sl c by (auto simp: hq_inv_def)
  ultimately show "\<exists>q'. pop_queue q = Some (Some x, q') \<and> hq_inv q' \<and> hq_list q' = xs"
    using ne m c by (simp add: pop_queue_def)
qed

interpretation harbor_ring: fifo push_queue_msg pop_queue hq_list hq_inv
  using push_queue_ok pop_queue_ok by unfold_locales blast+

lemma pop_all_list: "hq_inv q \<Longrightarrow> pop_all q = Some (hq_list q)"
proof (induction "hq_list q" arbitrary: q)
  case Nil
  then show ?case using pop_queue_ok(1) [OF Nil(2)] by (subst pop_all.simps) simp
next
  case (Cons m ms)
  from pop_queue_ok(2) [OF Cons(3) Cons(2) [symmetric]] obtain q' where
    "pop_queue q = Some (Some m, q')" "hq_inv q'" "hq_list q' = ms" by blast
  with Cons show ?case by (subst pop_all.simps) (auto simp: Cons(2) [symmetric])
qed

lemma push_all_list:
  "hq_inv q \<Longrightarrow> \<exists>q'. push_all_queue ms q = Some q' \<and> hq_inv q' \<and> hq_list q' = hq_list q @ ms"
proof (induction ms arbitrary: q)
  case (Cons m ms)
  from push_queue_ok [OF Cons(2), of m] obtain q1 where
    "push_queue_msg m q = Some q1" "hq_inv q1" "hq_list q1 = hq_list q @ [m]" by blast
  with Cons(1) [of q1] show ?case by auto
qed simp

lemma new_queue_inv [simp]: "hq_inv new_harbor_queue" "hq_list new_harbor_queue = []"
  by (simp_all add: hq_inv_def hq_list_def hq_slots_def new_harbor_queue_def DEFAULT_HARBOR_QUEUE_def)

lemma drained_inv [simp]: "hq_inv q \<Longrightarrow> hq_inv (q\<lparr>hq_head := hq_tail q\<rparr>) \<and> hq_list (q\<lparr>hq_head := hq_tail q\<rparr>) = []"
  by (simp add: hq_inv_def hq_list_def hq_slots_def)

end
