(* ===== verification/Cluster.thy ===== *)
theory Cluster
  imports Harbor_Service
begin

unbundle bit_operations_syntax

text \<open>
  What the harbor services of a cluster guarantee: a connection is a reader of frames, so a
  message sent from one node arrives on the other whatever the network does to the stream;
  messages to a name wait until the name is known and leave in order.
\<close>

section \<open>Headers\<close>

lemma to_bigendian_bytes: "to_bigendian n = be_bytes 4 (unat n)"
  by (simp add: to_bigendian_def be_word_bytes)

lemma from_bigendian_nat: "length b = 4 \<Longrightarrow> from_bigendian b = of_nat (be_nat b)"
proof -
  assume "length b = 4"
  then obtain w x y z where b: "b = [w, x, y, z]" by (auto simp: length_Suc_conv eval_nat_numeral)
  show ?thesis using be_word4 [of w x y z] unfolding b from_bigendian_def by simp
qed

lemma from_to_bigendian [simp]: "from_bigendian (to_bigendian n) = n"
proof -
  have "unat n < 256 ^ 4" using unsigned_less [of n] by simp
  then show ?thesis by (simp add: from_bigendian_nat to_bigendian_bytes be_nat_bytes)
qed

lemma length_to_bigendian [simp]: "length (to_bigendian n) = 4"
  by (simp add: to_bigendian_def)

lemma length_header [simp]: "length (header_to_message hdr) = 12"
  by (simp add: header_to_message_def)

lemma header_roundtrip [simp]: "message_to_header (header_to_message hdr) = hdr"
  by (simp add: message_to_header_def header_to_message_def)

section \<open>One connection reads frames\<close>

text \<open>What a node hands to its services: source, destination, type, session and content.\<close>

type_synonym delivered = "u32 \<times> u32 \<times> int \<times> int \<times> bytes"

fun handed :: "harbor_effect \<Rightarrow> delivered list" where
  "handed (E_send src dst ty se (M_give b)) = [(src, dst, ty, se, hb_data b)]"
| "handed _ = []"

definition all_handed :: "harbor_effect list \<Rightarrow> delivered list" where
  "all_handed es = concat (map handed es)"

lemma all_handed_simps [simp]:
  "all_handed [] = []" "all_handed (e # es) = handed e @ all_handed es" "all_handed (es @ fs) = all_handed es @ all_handed fs"
  by (simp_all add: all_handed_def)

text \<open>The message in a frame.\<close>

definition frame_message :: "int \<Rightarrow> bytes \<Rightarrow> delivered" where
  "frame_message own b = (
     let n = length b - HEADER_COOKIE_LENGTH; hdr = message_to_header (drop n b)
     in (rm_source hdr, (rm_destination hdr AND HANDLE_MASK) OR push_bit HANDLE_REMOTE_SHIFT (word_of_int own),
         uint (drop_bit HANDLE_REMOTE_SHIFT (rm_destination hdr)) OR PTYPE_TAG_DONTCOPY, sint (rm_session hdr), take n b))"

lemma forward_local_ok:
  assumes "HEADER_COOKIE_LENGTH \<le> length (hb_data msg)"
  shows "\<exists>es. forward_local_message known msg h = Some (h_emits es h)
    \<and> all_handed es = [frame_message (hv_id h) (hb_data msg)]"
  using assms
  by (auto simp: forward_local_message_def Let_def h_emit_def h_emits_def frame_message_def intro!: exI)

definition conn_pend :: "slave \<Rightarrow> bytes" where
  "conn_pend s = (if sl_status s = STATUS_CONTENT
     then be_bytes 4 (nat (sl_length s)) @ (case sl_recv s of Some b \<Rightarrow> hb_data b | None \<Rightarrow> [])
     else take (nat (sl_read s)) (sl_size s))"

definition slave_ok :: "slave \<Rightarrow> bool" where
  "slave_ok s \<longleftrightarrow> length (sl_size s) = 4
     \<and> (sl_status s = STATUS_HEADER \<and> 0 \<le> sl_read s \<and> sl_read s < 4
        \<or> sl_status s = STATUS_CONTENT \<and> sl_length s < 2 ^ 24 \<and> sl_read s < sl_length s
          \<and> (\<exists>b. sl_recv s = Some b \<and> sl_read s = int (length (hb_data b))))"

definition conn_ok :: "nat \<Rightarrow> int \<Rightarrow> int \<Rightarrow> harbor_svc \<Rightarrow> bool" where
  "conn_ok i own fd h \<longleftrightarrow> length (hv_s h) = REMOTE_MAX \<and> hv_id h = own \<and> harbor_id h fd = i \<and> 0 < i \<and> i < REMOTE_MAX
     \<and> slave_ok (hv_s h ! i)"

text \<open>A step that changes of the connections only the given one, and not its descriptor.\<close>

definition only_slave :: "nat \<Rightarrow> harbor_svc \<Rightarrow> slave \<Rightarrow> harbor_effect list \<Rightarrow> harbor_svc \<Rightarrow> bool" where
  "only_slave i h s es h' \<longleftrightarrow> hv_s h' = (hv_s h)[i := s] \<and> sl_fd s = sl_fd (hv_s h ! i) \<and> hv_id h' = hv_id h
     \<and> hv_out h' = hv_out h @ es"

lemma harbor_id_cong:
  assumes "map sl_fd (hv_s h') = map sl_fd (hv_s h)" "length (hv_s h) = REMOTE_MAX"
  shows "harbor_id h' fd = harbor_id h fd"
proof -
  have "length (hv_s h') = REMOTE_MAX" using assms by (metis length_map)
  then have "sl_fd (hv_s h' ! i) = sl_fd (hv_s h ! i)" if "i < REMOTE_MAX" for i
    using assms that by (metis nth_map)
  then have "find (\<lambda>i. sl_fd (hv_s h' ! i) = fd) [1..<REMOTE_MAX] = find (\<lambda>i. sl_fd (hv_s h ! i) = fd) [1..<REMOTE_MAX]"
    by (intro find_cong) auto
  then show ?thesis by (simp add: harbor_id_def)
qed

lemma only_slave_ok:
  assumes "conn_ok i own fd h" "only_slave i h s es h'" "slave_ok s"
  shows "conn_ok i own fd h'"
proof -
  have "map sl_fd (hv_s h') = map sl_fd (hv_s h)"
    using assms(1,2) by (auto simp: only_slave_def conn_ok_def map_update intro: list_update_same_conv [THEN iffD2])
  from harbor_id_cong [OF this] assms show ?thesis by (auto simp: conn_ok_def only_slave_def)
qed

lemma only_slave_trans:
  "only_slave i h s es h' \<Longrightarrow> only_slave i h' t fs h'' \<Longrightarrow> i < length (hv_s h) \<Longrightarrow> only_slave i h t (es @ fs) h''"
  by (auto simp: only_slave_def)

text \<open>The length in a header of four bytes that starts with 0.\<close>

lemma header_length:
  assumes "length b = 4" "b ! 0 = 0"
  shows "uint (push_bit 16 (ucast (b ! 1)) OR push_bit 8 (ucast (b ! 2)) OR ucast (b ! 3) :: u32) = int (be_nat b)"
proof -
  obtain x y z where b: "b = [0, x, y, z]" using assms by (auto simp: length_Suc_conv eval_nat_numeral)
  have "be_nat b < 256 ^ 3" using be_nat_less [of "[x, y, z]"] by (simp add: b be_nat_def)
  moreover have "push_bit 16 (ucast (b ! 1)) OR push_bit 8 (ucast (b ! 2)) OR ucast (b ! 3) = (of_nat (be_nat b) :: u32)"
    using be_word4 [of 0 x y z] unfolding b by simp
  ultimately show ?thesis by (simp only: uint_nat unat_of_nat) simp
qed

lemma first_byte: "length b = 4 \<Longrightarrow> be_nat b < 2 ^ 24 \<Longrightarrow> b ! 0 = 0"
proof -
  assume b4: "length b = 4" and lt: "be_nat b < 2 ^ 24"
  from b4 obtain w x y z where b: "b = [w, x, y, z]" by (auto simp: length_Suc_conv eval_nat_numeral)
  have "unat w * 2 ^ 24 \<le> be_nat b" by (simp add: b be_nat_def)
  then have "unat w = 0" using lt by simp
  then show "b ! 0 = 0" by (simp add: b unat_eq_0)
qed

lemma fits_head: "fits hs lim p \<Longrightarrow> 0 < hs \<Longrightarrow> hs \<le> length p \<Longrightarrow> be_nat (take hs p) < lim"
  by (subst (asm) fits.simps) auto

text \<open>The two states of an established connection.\<close>

lemma push_header:
  assumes "i < length (hv_s h)" "sl_status (hv_s h ! i) = STATUS_HEADER" "sl_read (hv_s h ! i) = int r" "r < 4"
    "length (sl_size (hv_s h ! i)) = 4"
  defines "s \<equiv> hv_s h ! i"
  shows "length buffer < 4 - r \<Longrightarrow> push_loop known i buffer h =
      Some (put_slave i (s\<lparr>sl_size := take r (sl_size s) @ buffer @ drop (r + length buffer) (sl_size s),
        sl_read := int (r + length buffer)\<rparr>) h)"
    and "4 - r \<le> length buffer \<Longrightarrow> (take r (sl_size s) @ take (4 - r) buffer) ! 0 = 0 \<Longrightarrow> push_loop known i buffer h =
      (let h = start_content i s (take r (sl_size s) @ take (4 - r) buffer) h
       in if drop (4 - r) buffer = [] then Some h else push_loop known i (drop (4 - r) buffer) h)"
proof -
  have n: "nat (4 - int r) = 4 - r" using assms(4) by simp
  {
    assume "length buffer < 4 - r"
    then have "int (length buffer) < 4 - int r" "r + length buffer \<le> 4" by simp_all
    then show "push_loop known i buffer h =
      Some (put_slave i (s\<lparr>sl_size := take r (sl_size s) @ buffer @ drop (r + length buffer) (sl_size s),
        sl_read := int (r + length buffer)\<rparr>) h)"
      using assms(1-5) unfolding s_def by (subst push_loop.simps) (simp add: copy_size_def Let_def)
  }
  assume "4 - r \<le> length buffer" and 0: "(take r (sl_size s) @ take (4 - r) buffer) ! 0 = 0"
  then have ge: "\<not> int (length buffer) < 4 - int r" by simp
  have "copy_size (sl_size s) (int r) (take (4 - r) buffer) = Some (take r (sl_size s) @ take (4 - r) buffer)"
    using assms(1-5) \<open>4 - r \<le> length buffer\<close> unfolding s_def by (simp add: copy_size_def)
  then show "push_loop known i buffer h =
      (let h = start_content i s (take r (sl_size s) @ take (4 - r) buffer) h
       in if drop (4 - r) buffer = [] then Some h else push_loop known i (drop (4 - r) buffer) h)"
    using assms(1-5) 0 ge unfolding s_def by (subst push_loop.simps) (simp add: nth_opt_in Let_def n)
qed

lemma push_content:
  assumes "i < length (hv_s h)" "sl_status (hv_s h ! i) = STATUS_CONTENT" "sl_length (hv_s h ! i) = int n"
    "sl_recv (hv_s h ! i) = Some b" "sl_read (hv_s h ! i) = int (length (hb_data b))" "length (hb_data b) < n"
  defines "s \<equiv> hv_s h ! i" and "need \<equiv> n - length (hb_data b)"
  shows "length buffer < need \<Longrightarrow> push_loop known i buffer h =
      Some (put_slave i (s\<lparr>sl_recv := Some (b\<lparr>hb_data := hb_data b @ buffer\<rparr>),
        sl_read := int (length (hb_data b) + length buffer)\<rparr>) h)"
    and "need \<le> length buffer \<Longrightarrow> push_loop known i buffer h = do {
      h \<leftarrow> forward_local_message known (b\<lparr>hb_data := hb_data b @ take need buffer\<rparr>) h;
      let h = put_slave i (s\<lparr>sl_length := 0, sl_read := 0, sl_recv := None, sl_status := STATUS_HEADER\<rparr>) h;
      if drop need buffer = [] then Some h else push_loop known i (drop need buffer) h
    }"
proof -
  have n: "nat (int n - int (length (hb_data b))) = need" using assms by simp
  {
    assume "length buffer < need"
    then have "int (length buffer) < int n - int (length (hb_data b))" using assms by simp
    then show "push_loop known i buffer h =
      Some (put_slave i (s\<lparr>sl_recv := Some (b\<lparr>hb_data := hb_data b @ buffer\<rparr>),
        sl_read := int (length (hb_data b) + length buffer)\<rparr>) h)"
      using assms(1-6) unfolding s_def by (subst push_loop.simps) (simp add: Let_def recv_append_def)
  }
  assume "need \<le> length buffer"
  then have "\<not> int (length buffer) < int n - int (length (hb_data b))" using assms by simp
  then show "push_loop known i buffer h = do {
      h \<leftarrow> forward_local_message known (b\<lparr>hb_data := hb_data b @ take need buffer\<rparr>) h;
      let h = put_slave i (s\<lparr>sl_length := 0, sl_read := 0, sl_recv := None, sl_status := STATUS_HEADER\<rparr>) h;
      if drop need buffer = [] then Some h else push_loop known i (drop need buffer) h
    }"
    using assms(1-6) unfolding s_def by (subst push_loop.simps) (simp add: nth_opt_in Let_def n recv_append_def cong: if_cong)
qed

text \<open>One piece of the stream: the messages it completes are handed over, the rest is kept.\<close>

definition reads :: "(u32 \<Rightarrow> bool) \<Rightarrow> nat \<Rightarrow> int \<Rightarrow> bytes \<Rightarrow> bytes \<Rightarrow> harbor_svc \<Rightarrow> bool" where
  "reads known i own buffer p h \<longleftrightarrow> (\<exists>h' s es. push_loop known i buffer h = Some h' \<and> only_slave i h s es h' \<and> slave_ok s
    \<and> all_handed es = map (frame_message own) (fst (split_frames 4 p)) \<and> conn_pend s = snd (split_frames 4 p))"

lemma readsI:
  "push_loop known i buffer h = Some h' \<Longrightarrow> only_slave i h s es h' \<Longrightarrow> slave_ok s \<Longrightarrow>
     all_handed es = map (frame_message own) (fst (split_frames 4 p)) \<Longrightarrow> conn_pend s = snd (split_frames 4 p) \<Longrightarrow>
     reads known i own buffer p h"
  unfolding reads_def by blast

definition readable :: "nat \<Rightarrow> int \<Rightarrow> int \<Rightarrow> bytes \<Rightarrow> harbor_svc \<Rightarrow> bool" where
  "readable i own fd buffer h \<longleftrightarrow> (let p = conn_pend (hv_s h ! i) @ buffer in
     conn_ok i own fd h \<and> buffer \<noteq> [] \<and> fits 4 (2 ^ 24) p
     \<and> (\<forall>b\<in>set (fst (split_frames 4 p)). HEADER_COOKIE_LENGTH \<le> length b))"

text \<open>One turn of the loop in either state, with the statement for the shorter rest as a hypothesis.\<close>

lemma reads_header:
  assumes "readable i own fd buffer h" and header: "sl_status (hv_s h ! i) = STATUS_HEADER"
    and "\<And>rest g. length rest < length buffer \<Longrightarrow> readable i own fd rest g \<Longrightarrow>
      reads known i own rest (conn_pend (hv_s g ! i) @ rest) g"
  shows "reads known i own buffer (conn_pend (hv_s h ! i) @ buffer) h"
proof -
  let ?s = "hv_s h ! i"
  let ?p = "conn_pend ?s @ buffer"
  have conn: "conn_ok i own fd h" and ne: "buffer \<noteq> []" and fits: "fits 4 (2 ^ 24) ?p"
    and lens: "\<forall>b\<in>set (fst (split_frames 4 ?p)). HEADER_COOKIE_LENGTH \<le> length b"
    using assms(1) by (auto simp: readable_def Let_def)
  then have i: "i < length (hv_s h)" and ok: "slave_ok ?s" and own: "hv_id h = own" by (auto simp: conn_ok_def)
  define r where "r = nat (sl_read ?s)"
  have r: "sl_read ?s = int r" "r < 4" and sz: "length (sl_size ?s) = 4" using ok header by (auto simp: slave_ok_def r_def)
  have pend: "conn_pend ?s = take r (sl_size ?s)" using header by (simp add: conn_pend_def r_def)
  note ph = push_header [OF i header r sz]
  show ?thesis
  proof (cases "length buffer < 4 - r")
    case True
    let ?t = "?s\<lparr>sl_size := take r (sl_size ?s) @ buffer @ drop (r + length buffer) (sl_size ?s), sl_read := int (r + length buffer)\<rparr>"
    have "r + length buffer < 4" using True by simp
    then have "split_frames 4 ?p = ([], ?p)" using r sz pend by (intro split_incomplete) (simp add: complete_def)
    moreover have "conn_pend ?t = ?p" using header r sz pend True by (simp add: conn_pend_def nat_add_distrib)
    ultimately show ?thesis using header True r sz
      by (intro readsI [OF ph(1) [OF True], of ?t "[]"]) (simp_all add: slave_ok_def only_slave_def put_slave_def)
  next
    case False
    let ?rest = "drop (4 - r) buffer"
    define z where "z = take r (sl_size ?s) @ take (4 - r) buffer"
    have z: "length z = 4" "?p = z @ ?rest" using False r sz pend by (simp_all add: z_def)
    then have t4: "take 4 ?p = z" by (metis append_eq_conv_conj)
    have "4 \<le> length ?p" using False r sz pend by simp
    from fits_head [OF fits _ this] have lim: "be_nat z < 2 ^ 24" unfolding t4 by simp
    let ?n = "be_nat z"
    have zb: "be_bytes 4 ?n = z" using be_bytes_nat [of z] z(1) by simp
    let ?t = "?s\<lparr>sl_size := z, sl_length := int ?n, sl_read := 0,
        sl_recv := Some \<lparr>hb_addr = hv_next h, hb_data = []\<rparr>, sl_status := STATUS_CONTENT\<rparr>"
    define h1 where "h1 = start_content i ?s z h"
    have h1: "only_slave i h ?t [] h1" "hv_s h1 ! i = ?t"
      using i header_length [OF z(1) first_byte [OF z(1) lim]]
      by (simp_all add: h1_def start_content_def Let_def only_slave_def put_slave_def)
    have pend1: "conn_pend ?t = z" by (simp add: conn_pend_def zb)
    have npos: "0 < ?n"
    proof (rule ccontr)
      assume "\<not> 0 < ?n"
      then have "split_frames 4 ?p = ([] # fst (split_frames 4 ?rest), snd (split_frames 4 ?rest))"
        using split_known(1) [of 4 ?n ?rest] zb z(2) by simp
      with lens show False by (simp add: HEADER_COOKIE_LENGTH_def)
    qed
    have tok: "slave_ok ?t" using z(1) lim npos by (simp add: slave_ok_def)
    have step: "push_loop known i buffer h = (if ?rest = [] then Some h1 else push_loop known i ?rest h1)"
      using ph(2) [OF _ first_byte [OF z(1) lim, unfolded z_def]] False by (simp add: h1_def z_def Let_def)
    show ?thesis
    proof (cases "?rest = []")
      case True
      then have "split_frames 4 ?p = ([], ?p)" using split_known(2) [of 4 ?n "[]"] npos lim z(2) zb
        by (intro split_incomplete) simp
      then show ?thesis using True step tok pend1 z(2)
        by (intro readsI [OF _ h1(1) tok]) simp_all
    next
      case False
      have "length ?rest < length buffer" using \<open>\<not> length buffer < 4 - r\<close> r(2) by simp
      moreover have "conn_pend (hv_s h1 ! i) @ ?rest = ?p" using h1(2) pend1 z(2) by simp
      ultimately have "reads known i own ?rest ?p h1"
        using assms(3) [of ?rest h1] only_slave_ok [OF conn h1(1) tok] False fits lens by (simp add: readable_def Let_def)
      then show ?thesis using step False only_slave_trans [OF h1(1) _ i] unfolding reads_def by fastforce
    qed
  qed
qed

lemma reads_content:
  assumes "readable i own fd buffer h" and content: "sl_status (hv_s h ! i) = STATUS_CONTENT"
    and "\<And>rest g. length rest < length buffer \<Longrightarrow> readable i own fd rest g \<Longrightarrow>
      reads known i own rest (conn_pend (hv_s g ! i) @ rest) g"
  shows "reads known i own buffer (conn_pend (hv_s h ! i) @ buffer) h"
proof -
  let ?s = "hv_s h ! i"
  let ?p = "conn_pend ?s @ buffer"
  have conn: "conn_ok i own fd h" and ne: "buffer \<noteq> []" and fits: "fits 4 (2 ^ 24) ?p"
    and lens: "\<forall>b\<in>set (fst (split_frames 4 ?p)). HEADER_COOKIE_LENGTH \<le> length b"
    using assms(1) by (auto simp: readable_def Let_def)
  then have i: "i < length (hv_s h)" and ok: "slave_ok ?s" and own: "hv_id h = own" by (auto simp: conn_ok_def)
  from ok content obtain b where b: "sl_recv ?s = Some b" "sl_read ?s = int (length (hb_data b))"
    "sl_read ?s < sl_length ?s" "sl_length ?s < 2 ^ 24" and sz: "length (sl_size ?s) = 4" by (auto simp: slave_ok_def)
  define n where "n = nat (sl_length ?s)"
  have n: "sl_length ?s = int n" "length (hb_data b) < n" "n < 256 ^ 4" using b by (simp_all add: n_def)
  let ?m = "n - length (hb_data b)"
  have pend: "conn_pend ?s = be_bytes 4 n @ hb_data b" using content b by (simp add: conn_pend_def n_def)
  note pc = push_content [OF i content n(1) b(1,2) n(2)]
  show ?thesis
  proof (cases "length buffer < ?m")
    case True
    let ?t = "?s\<lparr>sl_recv := Some (b\<lparr>hb_data := hb_data b @ buffer\<rparr>), sl_read := int (length (hb_data b) + length buffer)\<rparr>"
    have "split_frames 4 ?p = ([], ?p)" using split_known(2) [of 4 n "hb_data b @ buffer"] True n pend
      by (intro split_incomplete) simp
    moreover have "conn_pend ?t = ?p" using content pend by (simp add: conn_pend_def n_def)
    ultimately show ?thesis using content True n b(4) sz
      by (intro readsI [OF pc(1) [OF True], of ?t "[]"]) (simp_all add: slave_ok_def only_slave_def put_slave_def)
  next
    case False
    let ?f = "hb_data b @ take ?m buffer" and ?rest = "drop ?m buffer"
    have f: "take n (hb_data b @ buffer) = ?f" "drop n (hb_data b @ buffer) = ?rest" using n(2) False by simp_all
    have split: "split_frames 4 ?p = (?f # fst (split_frames 4 ?rest), snd (split_frames 4 ?rest))"
      using split_known(1) [of 4 n "hb_data b @ buffer"] n False pend f by simp
    then have "HEADER_COOKIE_LENGTH \<le> length ?f" using lens by simp
    then obtain es where es: "forward_local_message known (b\<lparr>hb_data := ?f\<rparr>) h = Some (h_emits es h)"
      "all_handed es = [frame_message own ?f]" using forward_local_ok [of "b\<lparr>hb_data := ?f\<rparr>" known h] own by auto
    let ?t = "?s\<lparr>sl_length := 0, sl_read := 0, sl_recv := None, sl_status := STATUS_HEADER\<rparr>"
    define h1 where "h1 = put_slave i ?t (h_emits es h)"
    have h1: "only_slave i h ?t es h1" "hv_s h1 ! i = ?t"
      using i by (simp_all add: h1_def only_slave_def put_slave_def h_emits_def)
    have tok: "slave_ok ?t" and pend1: "conn_pend ?t = []" using sz by (simp_all add: slave_ok_def conn_pend_def)
    have step: "push_loop known i buffer h = (if ?rest = [] then Some h1 else push_loop known i ?rest h1)"
      using pc(2) es(1) False by (simp add: h1_def Let_def)
    show ?thesis
    proof (cases "?rest = []")
      case True
      then have "split_frames 4 ?p = ([?f], [])" using split by (simp add: split_incomplete complete_def)
      then show ?thesis using True step pend1 es(2) by (intro readsI [OF _ h1(1) tok]) simp_all
    next
      case False
      have fits1: "fits 4 (2 ^ 24) ?rest"
        using split_known(3) [of 4 n "2 ^ 24" "hb_data b @ buffer"] n \<open>\<not> length buffer < ?m\<close> pend f fits by simp
      have "length ?rest < length buffer" using n(2) \<open>\<not> length buffer < ?m\<close> by simp
      moreover have "conn_pend (hv_s h1 ! i) @ ?rest = ?rest" using h1(2) pend1 by simp
      ultimately have "reads known i own ?rest ?rest h1"
        using assms(3) [of ?rest h1] only_slave_ok [OF conn h1(1) tok] False fits1 lens split
        by (simp add: readable_def Let_def)
      then show ?thesis using step False only_slave_trans [OF h1(1) _ i] split es(2) unfolding reads_def by fastforce
    qed
  qed
qed

lemma push_loop_reads:
  "readable i own fd buffer h \<Longrightarrow> reads known i own buffer (conn_pend (hv_s h ! i) @ buffer) h"
proof (induction "length buffer" arbitrary: buffer h rule: less_induct)
  case less
  then have "slave_ok (hv_s h ! i)" by (auto simp: readable_def Let_def conn_ok_def)
  then consider "sl_status (hv_s h ! i) = STATUS_HEADER" | "sl_status (hv_s h ! i) = STATUS_CONTENT"
    by (auto simp: slave_ok_def)
  then show ?case using reads_header [OF less(2)] reads_content [OF less(2)] less(1) by cases blast+
qed

section \<open>The callback as a reader\<close>

definition harbor_feed :: "(u32 \<Rightarrow> bool) \<Rightarrow> int \<Rightarrow> bytes \<Rightarrow> harbor_svc \<Rightarrow> (delivered list \<times> harbor_svc) option" where
  "harbor_feed known fd c h = do {
     h' \<leftarrow> mainloop known (SOCKET_DATA fd \<lparr>hb_addr = 0, hb_data = c\<rparr>) h;
     Some (all_handed (drop (length (hv_out h)) (hv_out h')), h')
   }"

interpretation harbor_conn: frame_reader 4 "2 ^ 24" "\<lambda>_. True" "frame_message own" "harbor_feed known fd"
  "\<lambda>h. conn_pend (hv_s h ! i)" "conn_ok i own fd" "\<lambda>c. c \<noteq> []" "\<lambda>b. HEADER_COOKIE_LENGTH \<le> length b" for own known fd i
proof
  fix h c
  assume ok: "conn_ok i own fd h" and "c \<noteq> []" "fits 4 (2 ^ 24) (conn_pend (hv_s h ! i) @ c)"
    "\<forall>b\<in>set (fst (split_frames 4 (conn_pend (hv_s h ! i) @ c))). HEADER_COOKIE_LENGTH \<le> length b"
  then have "readable i own fd c h" by (simp add: readable_def Let_def)
  from push_loop_reads [OF this, of known] obtain h1 s es where
    1: "push_loop known i c h = Some h1" "only_slave i h s es h1" "slave_ok s"
    "all_handed es = map (frame_message own) (fst (split_frames 4 (conn_pend (hv_s h ! i) @ c)))"
    "conn_pend s = snd (split_frames 4 (conn_pend (hv_s h ! i) @ c))" unfolding reads_def by blast
  let ?h = "h_emit (E_free 0) h1"
  have i: "0 < i" "harbor_id h fd = i" "i < length (hv_s h)" using ok by (auto simp: conn_ok_def)
  have "only_slave i h s (es @ [E_free 0]) ?h" using 1(2) by (simp add: only_slave_def h_emit_def)
  from only_slave_ok [OF ok this 1(3)] have "conn_ok i own fd ?h" .
  moreover have "harbor_feed known fd c h = Some (all_handed es, ?h)"
    using i 1(1,2) by (simp add: harbor_feed_def push_socket_data_def Let_def h_emit_def only_slave_def)
  moreover have "hv_s ?h ! i = s" using 1(2) i by (simp add: only_slave_def h_emit_def)
  ultimately show "\<exists>s'. harbor_feed known fd c h =
      Some (map (frame_message own) (filter (\<lambda>_. True) (fst (split_frames 4 (conn_pend (hv_s h ! i) @ c)))), s')
    \<and> conn_ok i own fd s' \<and> conn_pend (hv_s s' ! i) = snd (split_frames 4 (conn_pend (hv_s h ! i) @ c))"
    using 1(4,5) by simp
qed simp

section \<open>Sending over an open connection\<close>

record out_message =
  om_type :: int
  om_session :: int
  om_source :: u32
  om_destination :: u32
  om_buffer :: hbuf

definition open_to :: "nat \<Rightarrow> int \<Rightarrow> harbor_svc \<Rightarrow> bool" where
  "open_to j fd h \<longleftrightarrow> 0 < j \<and> j < length (hv_s h) \<and> int j \<noteq> hv_id h \<and> sl_fd (hv_s h ! j) = fd \<and> fd \<noteq> 0
     \<and> sl_status (hv_s h ! j) \<noteq> STATUS_HANDSHAKE"

text \<open>A message to node \<open>j\<close> that fits into a frame.\<close>

definition sendable :: "nat \<Rightarrow> out_message \<Rightarrow> bool" where
  "sendable j m \<longleftrightarrow> unat (drop_bit 24 (om_destination m)) = j \<and> 0 \<le> om_type m \<and> om_type m < 256
     \<and> - (2 ^ 31) \<le> om_session m \<and> om_session m < 2 ^ 31 \<and> length (hb_data (om_buffer m)) + 12 < 2 ^ 24"

fun send_messages :: "(u32 \<Rightarrow> bool) \<Rightarrow> out_message list \<Rightarrow> harbor_svc \<Rightarrow> harbor_svc option" where
  "send_messages known [] h = Some h"
| "send_messages known (m # ms) h = do {
     h \<leftarrow> mainloop known (REMOTE_OUT (om_type m) (om_session m) (om_source m) [] (om_destination m) (om_buffer m)) h;
     send_messages known ms h
   }"

text \<open>The bytes written to a socket.\<close>

fun written :: "int \<Rightarrow> harbor_effect list \<Rightarrow> bytes" where
  "written fd [] = []"
| "written fd (E_socket_send fd' b # es) = (if fd' = fd then b else []) @ written fd es"
| "written fd (_ # es) = written fd es"

lemma written_append [simp]: "written fd (es @ fs) = written fd es @ written fd fs"
  by (induction fd es rule: written.induct) auto

definition message_body :: "out_message \<Rightarrow> bytes" where
  "message_body m = hb_data (om_buffer m)
     @ header_to_message (out_header (om_source m) (om_destination m) (om_type m) (om_session m))"

lemma remote_frame:
  assumes "length b + 12 < 2 ^ 24"
  shows "remote_effects fd b hdr = [E_socket_send fd (frame 4 (b @ header_to_message hdr))]"
proof -
  have "unat (of_nat (length b + 12) :: u32) = length b + 12" using assms by (simp only: unat_of_nat) simp
  then show ?thesis using assms
    by (simp add: remote_effects_def Let_def HEADER_COOKIE_LENGTH_def frame_def to_bigendian_bytes)
qed

lemma send_open:
  assumes "open_to j fd h" "sendable j m"
  shows "mainloop known (REMOTE_OUT (om_type m) (om_session m) (om_source m) [] (om_destination m) (om_buffer m)) h
    = Some (h_emits [E_socket_send fd (frame 4 (message_body m)), E_free (hb_addr (om_buffer m))] h)"
proof -
  have j: "unat (drop_bit 24 (om_destination m)) = j" "0 < j" using assms by (auto simp: sendable_def open_to_def)
  then have "om_destination m \<noteq> 0" by auto
  with assms j show ?thesis
    by (auto simp: remote_out_def remote_send_handle_def HANDLE_REMOTE_SHIFT_def Let_def open_to_def sendable_def
        send_remote_def remote_frame message_body_def h_emits_def h_emit_def)
qed

lemma h_emits_inj: "h_emits es h = h_emits fs h \<Longrightarrow> es = fs"
  by (drule arg_cong [of _ _ hv_out]) (simp add: h_emits_def)

lemma send_messages_frames:
  "open_to j fd h \<Longrightarrow> \<forall>m\<in>set ms. sendable j m \<Longrightarrow>
     \<exists>es. send_messages known ms h = Some (h_emits es h) \<and> written fd es = concat (map (frame 4) (map message_body ms))"
proof (induction ms arbitrary: h)
  case Nil
  then show ?case by (auto simp: h_emits_def intro!: exI [of _ "[]"])
next
  case (Cons m ms)
  let ?es = "[E_socket_send fd (frame 4 (message_body m)), E_free (hb_addr (om_buffer m))]"
  have "open_to j fd (h_emits ?es h)" using Cons.prems(1) by (simp add: open_to_def h_emits_def)
  from Cons.IH [OF this] Cons.prems(2) obtain es where
    es: "send_messages known ms (h_emits ?es h) = Some (h_emits es (h_emits ?es h))"
    "written fd es = concat (map (frame 4) (map message_body ms))" by auto
  have "h_emits es (h_emits ?es h) = h_emits (?es @ es) h" by (simp add: h_emits_def)
  with es send_open [OF Cons.prems(1), of m known] Cons.prems(2) show ?case
    by (intro exI [of _ "?es @ es"]) simp
qed

text \<open>What the receiving node hands over is what was sent.\<close>

definition as_delivered :: "out_message \<Rightarrow> delivered" where
  "as_delivered m = (om_source m, om_destination m, om_type m OR PTYPE_TAG_DONTCOPY, om_session m, hb_data (om_buffer m))"

lemma frame_message_body:
  assumes "sendable j m"
  shows "frame_message (int j) (message_body m) = as_delivered m"
proof -
  let ?d = "om_destination m"
  have j: "unat (drop_bit 24 ?d) = j" using assms by (simp add: sendable_def)
  have ty: "uint (word_of_int (om_type m) :: u32) = om_type m" using assms by (simp add: sendable_def uint_word_of_int)
  have se: "sint (word_of_int (om_session m) :: u32) = om_session m"
    using assms by (simp add: sendable_def signed_of_int signed_take_bit_int_eq_self)
  define w :: u32 where "w = word_of_int (om_type m)"
  let ?w = "(?d AND HANDLE_MASK) OR push_bit 24 w"
  have hm: "HANDLE_MASK = mask 24" by (rule handle_mask_mask)
  have "unat w < 256" using ty assms unfolding unat_eq_nat_uint w_def by (simp add: sendable_def nat_less_iff)
  then have "take_bit 8 w = w" using unat_and_mask [of w 8] by (simp add: take_bit_eq_mask word_unat_eq_iff)
  then have tb: "n < 8" if "bit w n" for n using that by (metis bit_take_bit_iff)
  have "drop_bit 24 ?w = w" unfolding hm by (rule bit_word_eqI) (auto simp: bit_simps dest: tb)
  moreover have "(?w AND HANDLE_MASK) OR push_bit 24 (word_of_int (int j)) = ?d"
  proof -
    have "word_of_int (int j) = drop_bit 24 ?d" using j by (simp flip: j)
    then have "bit ((?w AND mask 24) OR push_bit 24 (word_of_int (int j))) n = bit ?d n" if "n < LENGTH(32)" for n
      using that by (cases "n < 24") (auto simp: bit_simps hm)
    then show ?thesis unfolding hm by (intro bit_word_eqI) blast
  qed
  ultimately show ?thesis using ty se unfolding w_def
    by (simp add: frame_message_def message_body_def as_delivered_def Let_def HEADER_COOKIE_LENGTH_def
        HANDLE_REMOTE_SHIFT_def out_header_def)
qed

text \<open>A stream of such frames, however it is cut.\<close>

lemma stream_delivered:
  assumes "conn_ok i (int j) fd g" "conn_pend (hv_s g ! i) = []" "\<forall>m\<in>set ms. sendable j m"
    "concat cs = concat (map (frame 4) (map message_body ms))" "[] \<notin> set cs"
  shows "\<exists>g'. feed_all (harbor_feed known fd) cs g = Some (map as_delivered ms, g')
    \<and> conn_ok i (int j) fd g' \<and> conn_pend (hv_s g' ! i) = []"
proof -
  have b: "\<forall>b\<in>set (map message_body ms). length b < 256 ^ 4 \<and> length b < 2 ^ 24"
    "\<forall>b\<in>set (map message_body ms). HEADER_COOKIE_LENGTH \<le> length b"
    using assms(3) by (auto simp: message_body_def sendable_def HEADER_COOKIE_LENGTH_def)
  have m: "map (frame_message (int j)) (map message_body ms) = map as_delivered ms"
    using assms(3) frame_message_body by auto
  show ?thesis using harbor_conn.frames_delivered [OF assms(1,2) b, of cs known] assms(4,5) m by (force simp del: map_map)
qed

text \<open>C28. A message from node to node: when the service of one node has an open connection to node
  \<open>j\<close>, everything it is given for services of that node is written to the connection; however
  the network cuts that stream into pieces, the service of node \<open>j\<close> hands to its node exactly
  those messages, in order, with source, destination, type, session and content, and nothing is
  left over. The messages are below 16 megabytes.\<close>

theorem cluster_delivers:
  assumes "open_to j fd h" "\<forall>m\<in>set ms. sendable j m" "conn_ok i (int j) fd' g" "conn_pend (hv_s g ! i) = []"
  shows "\<exists>es. send_messages known ms h = Some (h_emits es h) \<and>
    (\<forall>cs. concat cs = written fd es \<and> [] \<notin> set cs \<longrightarrow>
      (\<exists>g'. feed_all (harbor_feed known' fd') cs g = Some (map as_delivered ms, g')
        \<and> conn_ok i (int j) fd' g' \<and> conn_pend (hv_s g' ! i) = []))"
proof -
  from send_messages_frames [OF assms(1,2), of known] obtain es where
    "send_messages known ms h = Some (h_emits es h)" "written fd es = concat (map (frame 4) (map message_body ms))"
    by blast
  with stream_delivered [OF assms(3,4,2)] show ?thesis by auto
qed

definition demo_sender :: harbor_svc where
  "demo_sender = put_slave 2 (slave_zero\<lparr>sl_fd := 7, sl_status := STATUS_HEADER\<rparr>) ((harbor_create 0)\<lparr>hv_id := 1\<rparr>)"

definition demo_receiver :: harbor_svc where
  "demo_receiver = put_slave 1 (slave_zero\<lparr>sl_fd := 9, sl_status := STATUS_HEADER\<rparr>) ((harbor_create 0)\<lparr>hv_id := 2\<rparr>)"

definition demo_message :: out_message where
  "demo_message = \<lparr>om_type = 10, om_session = 5, om_source = 0x1000003, om_destination = 0x2000004,
     om_buffer = \<lparr>hb_addr = 1, hb_data = [11, 22]\<rparr>\<rparr>"

lemma demo_open: "open_to 2 7 demo_sender" "sendable 2 demo_message" "conn_ok 1 2 9 demo_receiver"
  "conn_pend (hv_s demo_receiver ! 1) = []"
proof -
  show "open_to 2 7 demo_sender"
    by (simp add: open_to_def demo_sender_def put_slave_def harbor_create_def REMOTE_MAX_def)
  show "sendable 2 demo_message" by (simp add: sendable_def demo_message_def)
  have "[1..<REMOTE_MAX] = 1 # [2..<REMOTE_MAX]" by (simp add: REMOTE_MAX_def upt_rec)
  then have "harbor_id demo_receiver 9 = 1"
    by (simp add: harbor_id_def demo_receiver_def put_slave_def harbor_create_def REMOTE_MAX_def)
  then show "conn_ok 1 2 9 demo_receiver"
    by (simp add: conn_ok_def demo_receiver_def put_slave_def harbor_create_def REMOTE_MAX_def slave_ok_def slave_zero_def)
  show "conn_pend (hv_s demo_receiver ! 1) = []"
    by (simp add: conn_pend_def demo_receiver_def put_slave_def harbor_create_def REMOTE_MAX_def slave_zero_def)
qed

theorem cluster_delivers_witness:
  "\<exists>es g'. send_messages (\<lambda>_. True) [demo_message] demo_sender = Some (h_emits es demo_sender)
    \<and> feed_all (harbor_feed (\<lambda>_. True) 9) [take 3 (written 7 es), drop 3 (written 7 es)] demo_receiver
       = Some ([as_delivered demo_message], g')"
proof -
  from cluster_delivers [of 2 7 demo_sender "[demo_message]" 1 9 demo_receiver "\<lambda>_. True" "\<lambda>_. True"] demo_open
  have "\<exists>es. send_messages (\<lambda>_. True) [demo_message] demo_sender = Some (h_emits es demo_sender) \<and>
    (\<forall>cs. concat cs = written 7 es \<and> [] \<notin> set cs \<longrightarrow>
      (\<exists>g'. feed_all (harbor_feed (\<lambda>_. True) 9) cs demo_receiver = Some ([as_delivered demo_message], g')))"
    by (simp del: send_messages.simps) blast
  then obtain es where es: "send_messages (\<lambda>_. True) [demo_message] demo_sender = Some (h_emits es demo_sender)"
    "\<And>cs. concat cs = written 7 es \<Longrightarrow> [] \<notin> set cs \<Longrightarrow>
      \<exists>g'. feed_all (harbor_feed (\<lambda>_. True) 9) cs demo_receiver = Some ([as_delivered demo_message], g')" by blast
  from send_messages_frames [OF demo_open(1), of "[demo_message]" "\<lambda>_. True"] demo_open(2) es(1)
  have "written 7 es = frame 4 (message_body demo_message)" by (auto dest: h_emits_inj)
  then have "length (written 7 es) = 18" by (simp add: frame_def message_body_def demo_message_def)
  then have "concat [take 3 (written 7 es), drop 3 (written 7 es)] = written 7 es"
    "[] \<notin> set [take 3 (written 7 es), drop 3 (written 7 es)]" by auto
  with es show ?thesis by blast
qed

end
