(* ===== verification/Cluster_Names.thy ===== *)
theory Cluster_Names
  imports Cluster
begin

unbundle bit_operations_syntax

text \<open>
  Messages to a global name: they wait in the queue of the name, with one query per message to
  the slave service, until the name is registered, and are then written to the connection of
  the node that owns it.
\<close>

section \<open>The table of names\<close>

definition name_view :: "bytes \<Rightarrow> harbor_svc \<Rightarrow> u32 \<times> harbor_msg_queue option" where
  "name_view nm h = (case hash_search (hv_map h) nm of None \<Rightarrow> (0, None) | Some n \<Rightarrow> (kv_value n, kv_queue n))"

fun queue_list :: "harbor_msg_queue option \<Rightarrow> harbor_msg list" where
  "queue_list None = []"
| "queue_list (Some q) = hq_list q"

definition queue_inv :: "harbor_msg_queue option \<Rightarrow> bool" where
  "queue_inv q \<longleftrightarrow> (\<forall>p. q = Some p \<longrightarrow> hq_inv p)"

lemma queue_or_new:
  "queue_inv q \<Longrightarrow> hq_inv (case q of None \<Rightarrow> new_harbor_queue | Some q \<Rightarrow> q)
    \<and> hq_list (case q of None \<Rightarrow> new_harbor_queue | Some q \<Rightarrow> q) = queue_list q"
  by (cases q) (simp_all add: queue_inv_def)

lemma find_store_first: "find P xs = Some x \<Longrightarrow> P y \<Longrightarrow> find P (store_first P y xs) = Some y"
  by (induction xs) (auto split: if_splits)

lemma search_put:
  "hash_search (hv_map h) nm = Some n \<Longrightarrow> kv_is nm n' \<Longrightarrow> hash_search (hv_map (put_node nm n' h)) nm = Some n'"
  by (simp add: hash_search_def put_node_def Let_def find_store_first)

lemma put_node_simps [simp]:
  "hv_s (put_node nm n h) = hv_s h" "hv_out (put_node nm n h) = hv_out h" "hv_id (put_node nm n h) = hv_id h"
  "hv_slave (put_node nm n h) = hv_slave h"
  by (simp_all add: put_node_def Let_def)

lemma hash_search_is: "hash_search m nm = Some n \<Longrightarrow> kv_is nm n"
  by (auto simp: hash_search_def find_Some_iff)

text \<open>The node that is found or added.\<close>

lemma name_node_ok:
  assumes "name_node nm h = (n, h1)" "length nm = GLOBALNAME_LENGTH"
  shows "hash_search (hv_map h1) nm = Some n" "kv_is nm n" "name_view nm h = (kv_value n, kv_queue n)"
    "\<exists>m. h1 = h\<lparr>hv_map := m\<rparr>"
proof -
  have "hash_search (hv_map h1) nm = Some n \<and> name_view nm h = (kv_value n, kv_queue n) \<and> (\<exists>m. h1 = h\<lparr>hv_map := m\<rparr>)"
  proof (cases "hash_search (hv_map h) nm")
    case None
    then show ?thesis using assms
      by (auto simp: name_node_def name_view_def hash_insert_def Let_def hash_search_def kv_is_def same_name_def)
  next
    case (Some n')
    then show ?thesis using assms(1) by (auto simp: name_node_def name_view_def intro: exI [of _ "hv_map h"])
  qed
  then show "hash_search (hv_map h1) nm = Some n" "name_view nm h = (kv_value n, kv_queue n)" "\<exists>m. h1 = h\<lparr>hv_map := m\<rparr>"
    "kv_is nm n" by (auto dest: hash_search_is)
qed

lemma kv_is_update [simp]:
  "kv_is nm (n\<lparr>kv_value := v\<rparr>) = kv_is nm n" "kv_is nm (n\<lparr>kv_queue := q\<rparr>) = kv_is nm n"
  by (simp_all add: kv_is_def)

section \<open>Waiting for a name\<close>

definition query_effect :: "bytes \<Rightarrow> harbor_svc \<Rightarrow> harbor_effect" where
  "query_effect nm h = E_send 0 (hv_slave h) PTYPE_TEXT 0 (M_copy (query_text nm))"

definition waiting :: "out_message \<Rightarrow> harbor_msg" where
  "waiting m = \<lparr>hm_header = out_header (om_source m) 0 (om_type m) (om_session m), hm_buffer = om_buffer m\<rparr>"

text \<open>The same connections and numbers, with more effects.\<close>

definition same_links :: "harbor_svc \<Rightarrow> harbor_effect list \<Rightarrow> harbor_svc \<Rightarrow> bool" where
  "same_links h es h' \<longleftrightarrow> hv_s h' = hv_s h \<and> hv_id h' = hv_id h \<and> hv_slave h' = hv_slave h \<and> hv_out h' = hv_out h @ es"

lemma same_links_trans: "same_links h es h1 \<Longrightarrow> same_links h1 fs h2 \<Longrightarrow> same_links h (es @ fs) h2"
  by (simp add: same_links_def)

fun send_to_name :: "(u32 \<Rightarrow> bool) \<Rightarrow> bytes \<Rightarrow> out_message list \<Rightarrow> harbor_svc \<Rightarrow> harbor_svc option" where
  "send_to_name known nm [] h = Some h"
| "send_to_name known nm (m # ms) h = do {
     h \<leftarrow> mainloop known (REMOTE_OUT (om_type m) (om_session m) (om_source m) nm 0 (om_buffer m)) h;
     send_to_name known nm ms h
   }"

lemma send_unknown:
  assumes "name_view nm h = (0, q)" "queue_inv q" "length nm = GLOBALNAME_LENGTH"
  shows "\<exists>h' q'. mainloop known (REMOTE_OUT (om_type m) (om_session m) (om_source m) nm 0 (om_buffer m)) h = Some h'
    \<and> name_view nm h' = (0, Some q') \<and> hq_inv q' \<and> hq_list q' = queue_list q @ [waiting m]
    \<and> same_links h [query_effect nm h] h'"
proof -
  obtain n h1 where n: "name_node nm h = (n, h1)" by (cases "name_node nm h")
  note nn = name_node_ok [OF n assms(3)]
  have v: "kv_value n = 0" "kv_queue n = q" using nn(3) assms(1) by simp_all
  from push_queue_ok [of "case q of None \<Rightarrow> new_harbor_queue | Some q \<Rightarrow> q" "waiting m"] queue_or_new [OF assms(2)]
  obtain q' where q': "push_queue_msg (waiting m) (case q of None \<Rightarrow> new_harbor_queue | Some q \<Rightarrow> q) = Some q'"
    "hq_inv q'" "hq_list q' = queue_list q @ [waiting m]" by auto
  let ?h = "h_emit (query_effect nm h1) (put_node nm (n\<lparr>kv_queue := Some q'\<rparr>) h1)"
  have "mainloop known (REMOTE_OUT (om_type m) (om_session m) (om_source m) nm 0 (om_buffer m)) h = Some ?h"
    using n v q'(1) by (simp add: remote_out_def remote_send_name_def push_queue_def waiting_def query_effect_def)
  moreover have "name_view nm ?h = (0, Some q')"
    using search_put [OF nn(1), of "n\<lparr>kv_queue := Some q'\<rparr>"] nn(2) v by (simp add: name_view_def h_emit_def)
  moreover have "same_links h [query_effect nm h] ?h"
    using nn(4) by (auto simp: same_links_def h_emit_def query_effect_def)
  ultimately show ?thesis using q' by blast
qed

lemma send_all_unknown:
  "name_view nm h = (0, q) \<Longrightarrow> queue_inv q \<Longrightarrow> length nm = GLOBALNAME_LENGTH \<Longrightarrow>
   \<exists>h' q'. send_to_name known nm ms h = Some h' \<and> name_view nm h' = (0, q') \<and> queue_inv q'
     \<and> queue_list q' = queue_list q @ map waiting ms \<and> same_links h (replicate (length ms) (query_effect nm h)) h'"
proof (induction ms arbitrary: h q)
  case Nil
  then show ?case by (auto simp: same_links_def)
next
  case (Cons m ms)
  from send_unknown [OF Cons.prems, of known m] obtain h1 q1 where
    1: "mainloop known (REMOTE_OUT (om_type m) (om_session m) (om_source m) nm 0 (om_buffer m)) h = Some h1"
    "name_view nm h1 = (0, Some q1)" "hq_inv q1" "hq_list q1 = queue_list q @ [waiting m]"
    "same_links h [query_effect nm h] h1" by blast
  have eq: "query_effect nm h1 = query_effect nm h" using 1(5) by (simp add: query_effect_def same_links_def)
  from Cons.IH [OF 1(2) _ Cons.prems(3)] 1(3) obtain h2 q2 where
    2: "send_to_name known nm ms h1 = Some h2" "name_view nm h2 = (0, q2)" "queue_inv q2"
    "queue_list q2 = queue_list (Some q1) @ map waiting ms" "same_links h1 (replicate (length ms) (query_effect nm h)) h2"
    by (auto simp: queue_inv_def eq)
  have "send_to_name known nm (m # ms) h = Some h2" using 1(1) 2(1) by (simp del: mainloop.simps)
  then show ?case using 2 1(4) same_links_trans [OF 1(5) 2(5)] by auto
qed

section \<open>The name becomes known\<close>

text \<open>The command a node sends to its harbor service, and the name as the table has it.\<close>

definition name_command :: "bytes \<Rightarrow> u32 \<Rightarrow> harbor_event" where
  "name_command nm handle = HARBOR_COMMAND (lit ''N '' @ nm) handle"

definition padded :: "bytes \<Rightarrow> bytes" where
  "padded nm = nm @ replicate (GLOBALNAME_LENGTH - length nm) 0"

lemma name_command_updates:
  "0 < length nm \<Longrightarrow> length nm < GLOBALNAME_LENGTH \<Longrightarrow>
     mainloop known (name_command nm handle) h = update_name (padded nm) handle h"
  by (simp add: name_command_def harbor_command_def command_name_def padded_def Let_def lit_def ch_def nth_opt_in)

lemma length_padded [simp]: "length nm \<le> GLOBALNAME_LENGTH \<Longrightarrow> length (padded nm) = GLOBALNAME_LENGTH"
  by (simp add: padded_def)

lemma update_open:
  assumes "name_view nm h = (v, Some q)" "hq_inv q" "length nm = GLOBALNAME_LENGTH"
    "open_to j fd h" "unat (drop_bit 24 handle) = j"
  shows "\<exists>h'. update_name nm handle h = Some h' \<and> name_view nm h' = (handle, None)
    \<and> same_links h (concat (map (send_and_free fd (handle AND HANDLE_MASK)) (hq_list q))) h'"
proof -
  obtain n h1 where n: "name_node nm h = (n, h1)" by (cases "name_node nm h")
  note nn = name_node_ok [OF n assms(3)]
  have kq: "kv_queue n = Some q" using nn(3) assms(1) by simp
  obtain mp where h1: "h1 = h\<lparr>hv_map := mp\<rparr>" using nn(4) by blast
  let ?es = "concat (map (send_and_free fd (handle AND HANDLE_MASK)) (hq_list q))"
  let ?n = "n\<lparr>kv_value := handle, kv_queue := Some (q\<lparr>hq_head := hq_tail q\<rparr>)\<rparr>"
  have "dispatch_name_queue (n\<lparr>kv_value := handle\<rparr>) h1 = Some (?n, h_emits ?es h1)"
    using kq assms(2,4,5) h1 pop_all_list [OF assms(2)]
    by (simp add: dispatch_name_queue_def Let_def HANDLE_REMOTE_SHIFT_def open_to_def nth_opt_in)
  moreover have "release_queue (kv_queue ?n) (h_emits ?es h1) = Some (h_emits ?es h1)"
    using pop_all_list [of "q\<lparr>hq_head := hq_tail q\<rparr>"] drained_inv [OF assms(2)]
    by (simp add: release_queue_def h_emits_def)
  ultimately have "update_name nm handle h = Some (put_node nm (?n\<lparr>kv_queue := None\<rparr>) (h_emits ?es h1))"
    using n kq by (simp add: update_name_def)
  moreover have "hash_search (hv_map (put_node nm (?n\<lparr>kv_queue := None\<rparr>) (h_emits ?es h1))) nm = Some (?n\<lparr>kv_queue := None\<rparr>)"
    using nn(1,2) by (intro search_put [of _ _ n]) (simp_all add: h_emits_def)
  ultimately show ?thesis using h1 by (auto simp: name_view_def same_links_def h_emits_def)
qed

lemma written_sent:
  assumes "\<forall>m\<in>set ms. sendable j m \<and> om_destination m = handle"
  shows "written fd (concat (map (send_and_free fd (handle AND HANDLE_MASK)) (map waiting ms)))
    = concat (map (frame 4) (map message_body ms))"
  using assms
proof (induction ms)
  case (Cons m ms)
  have "(hm_header (waiting m))\<lparr>rm_destination := rm_destination (hm_header (waiting m)) OR handle AND HANDLE_MASK\<rparr>
      = out_header (om_source m) (om_destination m) (om_type m) (om_session m)"
    using Cons.prems by (simp add: waiting_def out_header_def or.commute)
  then have "send_and_free fd (handle AND HANDLE_MASK) (waiting m)
      = [E_socket_send fd (frame 4 (message_body m)), E_free (hb_addr (om_buffer m))]"
    using Cons.prems remote_frame [of "hb_data (om_buffer m)" fd]
    by (auto simp: send_and_free_def Let_def message_body_def sendable_def waiting_def)
  with Cons show ?case by simp
qed simp


lemma demo_name_free: "name_view (padded (lit ''DB'')) demo_sender = (0, None)"
  by (simp add: name_view_def hash_search_def demo_sender_def put_slave_def harbor_create_def)


section \<open>A name on a node that is not connected\<close>

text \<open>When there is no connection to the node of the name, the queue of the name becomes the
  queue of the connection. The headers of its messages then still have the handle 0.\<close>

definition unconnected :: "nat \<Rightarrow> harbor_svc \<Rightarrow> bool" where
  "unconnected j h \<longleftrightarrow> 0 < j \<and> j < length (hv_s h) \<and> j < REMOTE_MAX \<and> sl_fd (hv_s h ! j) = 0
     \<and> sl_status (hv_s h ! j) = STATUS_WAIT \<and> sl_queue (hv_s h ! j) = None \<and> j \<noteq> unat (drop_bit 24 (hv_slave h))"

lemma update_unconnected:
  assumes "name_view nm h = (v, Some q)" "hq_inv q" "length nm = GLOBALNAME_LENGTH"
    "unconnected j h" "unat (drop_bit 24 handle) = j"
  shows "\<exists>h'. update_name nm handle h = Some h' \<and> hv_s h' = (hv_s h)[j := (hv_s h ! j)\<lparr>sl_queue := Some q\<rparr>]
    \<and> hv_out h' = hv_out h \<and> hv_id h' = hv_id h"
proof -
  obtain n h1 where n: "name_node nm h = (n, h1)" by (cases "name_node nm h")
  note nn = name_node_ok [OF n assms(3)]
  have kq: "kv_queue n = Some q" using nn(3) assms(1) by simp
  obtain mp where h1: "h1 = h\<lparr>hv_map := mp\<rparr>" using nn(4) by blast
  let ?n = "n\<lparr>kv_value := handle, kv_queue := None\<rparr>" and ?h = "put_slave j ((hv_s h ! j)\<lparr>sl_queue := Some q\<rparr>) h1"
  have "dispatch_name_queue (n\<lparr>kv_value := handle\<rparr>) h1 = Some (?n, ?h)"
    using kq assms(4,5) h1 by (simp add: dispatch_name_queue_def Let_def HANDLE_REMOTE_SHIFT_def unconnected_def nth_opt_in)
  then have "update_name nm handle h = Some (put_node nm ?n ?h)"
    using n kq by (simp add: update_name_def release_queue_def)
  then show ?thesis using h1 by (simp add: put_slave_def)
qed

lemma written_waiting:
  assumes "\<forall>m\<in>set ms. length (hb_data (om_buffer m)) + 12 < 2 ^ 24"
  shows "written fd (concat (map (send_and_free fd 0) (map waiting ms)))
    = concat (map (frame 4) (map message_body (map (\<lambda>m. m\<lparr>om_destination := 0\<rparr>) ms)))"
  using assms
proof (induction ms)
  case (Cons m ms)
  then show ?case using remote_frame [of "hb_data (om_buffer m)" fd]
    by (auto simp: send_and_free_def Let_def message_body_def waiting_def)
qed simp

lemma connect_dispatches:
  assumes "j < length (hv_s h)" "0 < j" "j < REMOTE_MAX" "sl_fd (hv_s h ! j) = 0" "sl_queue (hv_s h ! j) = Some q" "hq_inv q"
    "scan_int2 (upto_nul args) = (fd, int j)" "fd \<noteq> 0"
  shows "\<exists>h'. command_connect False args h = Some h' \<and> hv_out h' = hv_out h @ [E_socket_start fd,
      E_socket_send fd [word_of_int (hv_id h)]] @ concat (map (send_and_free fd 0) (hq_list q))"
  using assms pop_all_list [OF assms(6)]
  by (simp add: command_connect_def Let_def nth_opt_in handshake_def put_slave_def h_emit_def dispatch_queue_to_def h_emits_def)

text \<open>Messages to a name lose their destination when the name is registered before its node is
  connected: they wait in the queue of the connection, and when the connection is made they are
  written to it with the handle 0 instead of the handle of the name, so that the other node
  cannot deliver them.\<close>

lemma name_before_node_loses_handle:
  assumes "name_view (padded nm) h = (0, None)" "0 < length nm" "length nm < GLOBALNAME_LENGTH" "ms \<noteq> []"
    "unconnected j h" "\<forall>m\<in>set ms. sendable j m \<and> om_destination m = handle"
    "scan_int2 (upto_nul args) = (fd, int j)" "fd \<noteq> 0"
  shows "\<exists>h1 h2 h3 es. send_to_name known (padded nm) ms h = Some h1
    \<and> mainloop known (name_command nm handle) h1 = Some h2
    \<and> mainloop known (HARBOR_COMMAND (lit ''A '' @ args) src) h2 = Some h3
    \<and> hv_out h3 = hv_out h1 @ es
    \<and> written fd es = word_of_int (hv_id h) # concat (map (frame 4) (map message_body (map (\<lambda>m. m\<lparr>om_destination := 0\<rparr>) ms)))"
proof -
  let ?nm = "padded nm"
  have nm: "length ?nm = GLOBALNAME_LENGTH" using assms(3) by simp
  from send_all_unknown [OF assms(1) _ nm, of known ms] obtain h1 q where
    1: "send_to_name known ?nm ms h = Some h1" "name_view ?nm h1 = (0, q)" "queue_inv q" "queue_list q = map waiting ms"
    "same_links h (replicate (length ms) (query_effect ?nm h)) h1" by (auto simp: queue_inv_def)
  then obtain p where q: "q = Some p" "hq_inv p" "hq_list p = map waiting ms"
    using assms(4) by (cases q) (auto simp: queue_inv_def)
  have un: "unconnected j h1" using assms(5) 1(5) by (simp add: unconnected_def same_links_def)
  moreover have "unat (drop_bit 24 handle) = j" using assms(4,6) by (cases ms) (auto simp: sendable_def)
  ultimately obtain h2 where
    2: "update_name ?nm handle h1 = Some h2" "hv_s h2 = (hv_s h1)[j := (hv_s h1 ! j)\<lparr>sl_queue := Some p\<rparr>]" "hv_out h2 = hv_out h1"
    "hv_id h2 = hv_id h1"
    using update_unconnected [of ?nm h1 0 p j handle] 1(2) q nm by auto
  have "mainloop known (name_command nm handle) h1 = Some h2"
    using name_command_updates [OF assms(2,3), of known handle h1] 2(1) by simp
  moreover from connect_dispatches [of j h2 p args fd] 2 un q assms(7,8) obtain h3 where
    "command_connect False args h2 = Some h3" "hv_out h3 = hv_out h2 @ [E_socket_start fd, E_socket_send fd [word_of_int (hv_id h2)]]
      @ concat (map (send_and_free fd 0) (map waiting ms))" by (auto simp: unconnected_def)
  moreover have "\<forall>m\<in>set ms. length (hb_data (om_buffer m)) + 12 < 2 ^ 24" using assms(6) by (auto simp: sendable_def)
  ultimately show ?thesis using 1(1,5) 2(3,4) written_waiting [of ms fd]
    by (auto simp: same_links_def harbor_command_def lit_def ch_def nth_opt_in)
qed

definition demo_alone :: harbor_svc where
  "demo_alone = (harbor_create 0)\<lparr>hv_id := 1, hv_slave := 0x1000002\<rparr>"

lemma demo_alone_ok:
  "name_view (padded (lit ''DB'')) demo_alone = (0, None)" "unconnected 2 demo_alone" "scan_int2 (upto_nul (lit ''5 2'')) = (5, 2)"
proof -
  show "name_view (padded (lit ''DB'')) demo_alone = (0, None)"
    by (simp add: name_view_def hash_search_def demo_alone_def harbor_create_def)
  show "unconnected 2 demo_alone"
    by (simp add: unconnected_def demo_alone_def harbor_create_def REMOTE_MAX_def slave_zero_def)
  show "scan_int2 (upto_nul (lit ''5 2'')) = (5, 2)" by code_simp
qed

theorem name_before_node_loses_handle_witness:
  "\<exists>h1 h2 h3 es. send_to_name (\<lambda>_. True) (padded (lit ''DB'')) [demo_message] demo_alone = Some h1
    \<and> mainloop (\<lambda>_. True) (name_command (lit ''DB'') 0x2000004) h1 = Some h2
    \<and> mainloop (\<lambda>_. True) (HARBOR_COMMAND (lit ''A '' @ lit ''5 2'') 0) h2 = Some h3
    \<and> hv_out h3 = hv_out h1 @ es
    \<and> written 5 es = word_of_int (hv_id demo_alone)
        # concat (map (frame 4) (map message_body (map (\<lambda>m. m\<lparr>om_destination := 0\<rparr>) [demo_message])))"
proof (rule name_before_node_loses_handle [OF demo_alone_ok(1)])
  show "\<forall>m\<in>set [demo_message]. sendable 2 m \<and> om_destination m = 0x2000004"
    using demo_open(2) by (simp add: demo_message_def)
  show "scan_int2 (upto_nul (lit ''5 2'')) = (5, int 2)" by (simp add: demo_alone_ok)
qed (simp_all add: demo_alone_ok lit_def GLOBALNAME_LENGTH_def)

end
