(* ===== verification/Seri.thy ===== *)
theory Seri
  imports Framing
begin

unbundle bit_operations_syntax

text \<open>
  \<^verbatim>\<open>lualib-src/lua-seri.c\<close>: the encoding of the values that services send to each other. A value
  is written into a chain of blocks of 128 bytes, which are then copied into one message; the
  reader walks over a message and rebuilds the values.

  What the functions see of a Lua value is the datatype \<open>lua_value\<close>: a table is the length that
  \<open>lua_rawlen\<close> gives for it, its pairs in the order of \<open>lua_next\<close>, and, when it has a metafield
  \<open>__pairs\<close>, the pairs that the iteration returns and whether it ends with an error. What the
  reader builds is the datatype \<open>lua_out\<close>: a table is the sequence of the assignments made to it.
  An error that \<open>luaL_error\<close> raises is a left value, an access outside of a buffer is the left
  value \<open>BadAccess\<close>. The limits of the Lua and the C stack are not modelled.
\<close>

section \<open>Data\<close>

definition TYPE_NIL :: int where "TYPE_NIL = 0"
definition TYPE_BOOLEAN :: int where "TYPE_BOOLEAN = 1"
definition TYPE_NUMBER :: int where "TYPE_NUMBER = 2"
definition TYPE_NUMBER_ZERO :: int where "TYPE_NUMBER_ZERO = 0"
definition TYPE_NUMBER_BYTE :: int where "TYPE_NUMBER_BYTE = 1"
definition TYPE_NUMBER_WORD :: int where "TYPE_NUMBER_WORD = 2"
definition TYPE_NUMBER_DWORD :: int where "TYPE_NUMBER_DWORD = 4"
definition TYPE_NUMBER_QWORD :: int where "TYPE_NUMBER_QWORD = 6"
definition TYPE_NUMBER_REAL :: int where "TYPE_NUMBER_REAL = 8"
definition TYPE_USERDATA :: int where "TYPE_USERDATA = 3"
definition TYPE_SHORT_STRING :: int where "TYPE_SHORT_STRING = 4"
definition TYPE_LONG_STRING :: int where "TYPE_LONG_STRING = 5"
definition TYPE_TABLE :: int where "TYPE_TABLE = 6"
definition MAX_COOKIE :: int where "MAX_COOKIE = 32"
definition BLOCK_SIZE :: nat where "BLOCK_SIZE = 128"
definition MAX_DEPTH :: nat where "MAX_DEPTH = 32"

lemmas type_defs = TYPE_NIL_def TYPE_BOOLEAN_def TYPE_NUMBER_def TYPE_NUMBER_ZERO_def TYPE_NUMBER_BYTE_def
  TYPE_NUMBER_WORD_def TYPE_NUMBER_DWORD_def TYPE_NUMBER_QWORD_def TYPE_NUMBER_REAL_def TYPE_USERDATA_def
  TYPE_SHORT_STRING_def TYPE_LONG_STRING_def TYPE_TABLE_def MAX_COOKIE_def

definition COMBINE_TYPE :: "int \<Rightarrow> int \<Rightarrow> u8" where
  "COMBINE_TYPE t v = word_of_int (t OR push_bit 3 v)"

text \<open>The values that are not tables. An integer is a \<open>lua_Integer\<close> of 64 bits, a real is the bit
  pattern of a \<open>double\<close>.\<close>

datatype lua_atom = LNil | LBoolean bool | LInteger u64 | LReal u64 | LUserdata u64 | LString bytes

datatype lua_value =
    Atom lua_atom
  | Table nat "(lua_value \<times> lua_value) list" "((lua_value \<times> lua_value) list \<times> bool) option"
  | Other string

datatype lua_out = O_atom lua_atom | O_table "(lua_out \<times> lua_out) list"

datatype seri_error =
    TooDepth
  | Unsupport string
  | CallError
  | InvalidStream int
  | TooBig
  | IndexNaN
  | NullPointer
  | BadAccess
  | NoFuel

text \<open>A block holds the bytes written to it; the last block of the chain is the current one.\<close>

record write_block =
  wb_chain :: "bytes list"
  wb_ptr :: nat
  wb_len :: u32

record read_block =
  rb_buffer :: bytes
  rb_len :: int
  rb_ptr :: int

section \<open>Computations that raise errors\<close>

definition bindE :: "'e + 'a \<Rightarrow> ('a \<Rightarrow> 'e + 'b) \<Rightarrow> 'e + 'b" where
  "bindE m f = (case m of Inl e \<Rightarrow> Inl e | Inr x \<Rightarrow> f x)"

lemma bindE_simps [simp]: "bindE (Inl e) f = Inl e" "bindE (Inr x) f = f x"
  by (simp_all add: bindE_def)

lemma bindE_Inr: "bindE m f = Inr y \<longleftrightarrow> (\<exists>x. m = Inr x \<and> f x = Inr y)"
  by (cases m) auto

lemma bindE_Inl: "bindE m f = Inl e \<longleftrightarrow> m = Inl e \<or> (\<exists>x. m = Inr x \<and> f x = Inl e)"
  by (cases m) auto

type_synonym written = "(seri_error \<times> write_block) + write_block"

section \<open>Writing bytes\<close>

text \<open>\<open>memcpy\<close> to the current block.\<close>

definition wb_copy :: "bytes \<Rightarrow> write_block \<Rightarrow> write_block" where
  "wb_copy bs b = b\<lparr>wb_chain := butlast (wb_chain b) @ [take (wb_ptr b) (last (wb_chain b)) @ bs],
     wb_len := wb_len b + of_nat (length bs)\<rparr>"

definition blk_append :: "write_block \<Rightarrow> write_block" where
  "blk_append b = b\<lparr>wb_chain := wb_chain b @ [[]], wb_ptr := 0\<rparr>"

function wb_fill :: "bytes \<Rightarrow> write_block \<Rightarrow> write_block" where
  "wb_fill bs b =
     (if wb_ptr b + length bs \<le> BLOCK_SIZE then (wb_copy bs b)\<lparr>wb_ptr := wb_ptr b + length bs\<rparr>
      else let copy = BLOCK_SIZE - wb_ptr b in wb_fill (drop copy bs) (blk_append (wb_copy (take copy bs) b)))"
  by auto
termination
  by (relation "measure (\<lambda>(bs, b). 2 * length bs + (if BLOCK_SIZE \<le> wb_ptr b then 1 else 0))")
    (auto simp: blk_append_def BLOCK_SIZE_def)

declare wb_fill.simps [simp del]

definition wb_push :: "bytes \<Rightarrow> write_block \<Rightarrow> write_block" where
  "wb_push bs b = wb_fill bs (if wb_ptr b = BLOCK_SIZE then blk_append b else b)"

definition wb_init :: write_block where
  "wb_init = \<lparr>wb_chain = [[]], wb_ptr = 0, wb_len = 0\<rparr>"

definition wb_free :: "write_block \<Rightarrow> write_block" where
  "wb_free b = \<lparr>wb_chain = [], wb_ptr = 0, wb_len = 0\<rparr>"

section \<open>Writing values\<close>

definition wb_nil :: "write_block \<Rightarrow> write_block" where
  "wb_nil b = wb_push [word_of_int TYPE_NIL] b"

definition wb_boolean :: "bool \<Rightarrow> write_block \<Rightarrow> write_block" where
  "wb_boolean v b = wb_push [COMBINE_TYPE TYPE_BOOLEAN (if v then 1 else 0)] b"

definition wb_integer :: "u64 \<Rightarrow> write_block \<Rightarrow> write_block" where
  "wb_integer v b = (
     let x = sint v in
     if x = 0 then wb_push [COMBINE_TYPE TYPE_NUMBER TYPE_NUMBER_ZERO] b
     else if x \<noteq> signed_take_bit 31 x
     then wb_push (le_bytes 8 (unat v)) (wb_push [COMBINE_TYPE TYPE_NUMBER TYPE_NUMBER_QWORD] b)
     else if x < 0
     then wb_push (le_bytes 4 (unat (ucast v :: u32))) (wb_push [COMBINE_TYPE TYPE_NUMBER TYPE_NUMBER_DWORD] b)
     else if x < 0x100 then wb_push [ucast v] (wb_push [COMBINE_TYPE TYPE_NUMBER TYPE_NUMBER_BYTE] b)
     else if x < 0x10000
     then wb_push (le_bytes 2 (unat (ucast v :: u16))) (wb_push [COMBINE_TYPE TYPE_NUMBER TYPE_NUMBER_WORD] b)
     else wb_push (le_bytes 4 (unat (ucast v :: u32))) (wb_push [COMBINE_TYPE TYPE_NUMBER TYPE_NUMBER_DWORD] b))"

definition wb_real :: "u64 \<Rightarrow> write_block \<Rightarrow> write_block" where
  "wb_real v b = wb_push (le_bytes 8 (unat v)) (wb_push [COMBINE_TYPE TYPE_NUMBER TYPE_NUMBER_REAL] b)"

definition wb_pointer :: "u64 \<Rightarrow> write_block \<Rightarrow> write_block" where
  "wb_pointer v b = wb_push (le_bytes 8 (unat v)) (wb_push [word_of_int TYPE_USERDATA] b)"

text \<open>The length is an \<open>int\<close>.\<close>

definition wb_string :: "bytes \<Rightarrow> int \<Rightarrow> write_block \<Rightarrow> write_block" where
  "wb_string str len b = (
     if len < MAX_COOKIE then
       (let b = wb_push [COMBINE_TYPE TYPE_SHORT_STRING len] b
        in if len > 0 then wb_push (take (nat len) str) b else b)
     else wb_push (take (nat len) str)
       (if len < 0x10000
        then wb_push (le_bytes 2 (unat (word_of_int len :: u16))) (wb_push [COMBINE_TYPE TYPE_LONG_STRING 2] b)
        else wb_push (le_bytes 4 (unat (word_of_int len :: u32))) (wb_push [COMBINE_TYPE TYPE_LONG_STRING 4] b)))"

text \<open>\<open>lua_rawgeti\<close>\<close>

definition rawgeti :: "(lua_value \<times> lua_value) list \<Rightarrow> nat \<Rightarrow> lua_value" where
  "rawgeti kvs i = (case find (\<lambda>(k, v). k = Atom (LInteger (of_nat i))) kvs of None \<Rightarrow> Atom LNil | Some (k, v) \<Rightarrow> v)"

text \<open>The mutually recursive functions of the writer are given \<open>pack_one\<close> for the elements of a table,
  at the depth they run at, as the argument \<open>pack\<close>.\<close>

fun array_loop :: "(lua_value \<Rightarrow> write_block \<Rightarrow> written) \<Rightarrow> (lua_value \<times> lua_value) list \<Rightarrow> nat list \<Rightarrow> write_block \<Rightarrow> written" where
  "array_loop pack kvs [] b = Inr b"
| "array_loop pack kvs (i # is) b = bindE (pack (rawgeti kvs i) b) (array_loop pack kvs is)"

definition wb_table_array ::
    "(lua_value \<Rightarrow> write_block \<Rightarrow> written) \<Rightarrow> nat \<Rightarrow> (lua_value \<times> lua_value) list \<Rightarrow> write_block \<Rightarrow> written" where
  "wb_table_array pack n kvs b = (
     let array_size = sint (of_nat n :: u32);
         b = (if array_size \<ge> MAX_COOKIE - 1
              then wb_integer (word_of_int array_size) (wb_push [COMBINE_TYPE TYPE_TABLE (MAX_COOKIE - 1)] b)
              else wb_push [COMBINE_TYPE TYPE_TABLE array_size] b)
     in array_loop pack kvs [1..<nat array_size + 1] b)"

definition in_array :: "int \<Rightarrow> lua_value \<Rightarrow> bool" where
  "in_array array_size k = (case k of Atom (LInteger x) \<Rightarrow> 0 < sint x \<and> sint x \<le> array_size | _ \<Rightarrow> False)"

fun hash_loop :: "(lua_value \<Rightarrow> write_block \<Rightarrow> written) \<Rightarrow> int \<Rightarrow> (lua_value \<times> lua_value) list \<Rightarrow> write_block \<Rightarrow> written" where
  "hash_loop pack array_size [] b = Inr (wb_nil b)"
| "hash_loop pack array_size ((k, v) # kvs) b =
     (if in_array array_size k then hash_loop pack array_size kvs b
      else bindE (pack k b) (\<lambda>b. bindE (pack v b) (hash_loop pack array_size kvs)))"

definition wb_table_hash ::
    "(lua_value \<Rightarrow> write_block \<Rightarrow> written) \<Rightarrow> nat \<Rightarrow> (lua_value \<times> lua_value) list \<Rightarrow> write_block \<Rightarrow> written" where
  "wb_table_hash pack n kvs b = hash_loop pack (sint (of_nat n :: u32)) kvs b"

text \<open>The iteration ends at a key that is nil, or with an error of one of its calls.\<close>

fun metapairs_loop :: "(lua_value \<Rightarrow> write_block \<Rightarrow> written) \<Rightarrow> (lua_value \<times> lua_value) list \<Rightarrow> bool \<Rightarrow> write_block \<Rightarrow> written" where
  "metapairs_loop pack [] raises b = (if raises then Inl (CallError, b) else Inr (wb_nil b))"
| "metapairs_loop pack ((k, v) # ps) raises b =
     (if k = Atom LNil then Inr (wb_nil b)
      else bindE (pack k b) (\<lambda>b. bindE (pack v b) (metapairs_loop pack ps raises)))"

definition wb_table_metapairs ::
    "(lua_value \<Rightarrow> write_block \<Rightarrow> written) \<Rightarrow> (lua_value \<times> lua_value) list \<Rightarrow> bool \<Rightarrow> write_block \<Rightarrow> written" where
  "wb_table_metapairs pack ps raises b = metapairs_loop pack ps raises (wb_push [COMBINE_TYPE TYPE_TABLE 0] b)"

definition wb_table ::
    "(lua_value \<Rightarrow> write_block \<Rightarrow> written) \<Rightarrow> nat \<Rightarrow> (lua_value \<times> lua_value) list
       \<Rightarrow> ((lua_value \<times> lua_value) list \<times> bool) option \<Rightarrow> write_block \<Rightarrow> written" where
  "wb_table pack n kvs meta b = (case meta of
     Some (ps, raises) \<Rightarrow> wb_table_metapairs pack ps raises b
   | None \<Rightarrow> bindE (wb_table_array pack n kvs b) (wb_table_hash pack n kvs))"

definition wb_atom :: "lua_atom \<Rightarrow> write_block \<Rightarrow> write_block" where
  "wb_atom a b = (case a of
     LNil \<Rightarrow> wb_nil b
   | LInteger x \<Rightarrow> wb_integer x b
   | LReal x \<Rightarrow> wb_real x b
   | LBoolean v \<Rightarrow> wb_boolean v b
   | LString str \<Rightarrow> wb_string str (sint (of_nat (length str) :: u32)) b
   | LUserdata p \<Rightarrow> wb_pointer p b)"

text \<open>The recursion counts the levels that are left: 0 is a depth above \<open>MAX_DEPTH\<close>.\<close>

fun pack_left :: "nat \<Rightarrow> lua_value \<Rightarrow> write_block \<Rightarrow> written" where
  "pack_left 0 v b = Inl (TooDepth, wb_free b)"
| "pack_left (Suc r) v b = (case v of
     Atom a \<Rightarrow> Inr (wb_atom a b)
   | Table n kvs meta \<Rightarrow> wb_table (pack_left r) n kvs meta b
   | Other ty \<Rightarrow> Inl (Unsupport ty, wb_free b))"

definition pack_one :: "nat \<Rightarrow> lua_value \<Rightarrow> write_block \<Rightarrow> written" where
  "pack_one depth = pack_left (MAX_DEPTH + 1 - depth)"

fun pack_from :: "lua_value list \<Rightarrow> write_block \<Rightarrow> written" where
  "pack_from [] b = Inr b"
| "pack_from (v # vs) b = bindE (pack_one 0 v b) (pack_from vs)"

text \<open>The blocks are copied into one buffer; a copy of more bytes than a block holds is an access
  to memory that was not written.\<close>

fun seri_loop :: "bytes list \<Rightarrow> int \<Rightarrow> seri_error + bytes" where
  "seri_loop [] len = (if len > 0 then Inl BadAccess else Inr [])"
| "seri_loop (b # bs) len =
     (if len > 0 then
        (if len \<ge> int BLOCK_SIZE then
           (if length b = BLOCK_SIZE then bindE (seri_loop bs (len - int BLOCK_SIZE)) (\<lambda>r. Inr (b @ r)) else Inl BadAccess)
         else if nat len \<le> length b then Inr (take (nat len) b) else Inl BadAccess)
      else Inr [])"

definition seri :: "write_block \<Rightarrow> seri_error + bytes" where
  "seri b = seri_loop (wb_chain b) (sint (wb_len b))"

text \<open>The result is the message and what is left of the chain of blocks.\<close>

definition luaseri_pack :: "lua_value list \<Rightarrow> (seri_error \<times> write_block) + (bytes \<times> write_block)" where
  "luaseri_pack vs = bindE (pack_from vs wb_init) (\<lambda>b. case seri b of
     Inl e \<Rightarrow> Inl (e, b)
   | Inr buffer \<Rightarrow> Inr (buffer, wb_free b))"

section \<open>Reading values\<close>

definition rball_init :: "bytes \<Rightarrow> int \<Rightarrow> read_block" where
  "rball_init buf sz = \<lparr>rb_buffer = buf, rb_len = sz, rb_ptr = 0\<rparr>"

definition rb_read :: "read_block \<Rightarrow> int \<Rightarrow> (int \<times> read_block) option" where
  "rb_read rb sz = (if rb_len rb < sz then None
     else Some (rb_ptr rb, rb\<lparr>rb_ptr := rb_ptr rb + sz, rb_len := rb_len rb - sz\<rparr>))"

text \<open>\<open>rb_read\<close> of a constant size, the test of its result, and the access to the bytes.\<close>

definition rb_fetch :: "nat \<Rightarrow> read_block \<Rightarrow> seri_error + (bytes \<times> read_block)" where
  "rb_fetch n rb = (case rb_read rb (int n) of
     None \<Rightarrow> Inl (InvalidStream (rb_len rb))
   | Some (p, rb') \<Rightarrow>
       if 0 \<le> p \<and> nat p + n \<le> length (rb_buffer rb) then Inr (take n (drop (nat p) (rb_buffer rb)), rb')
       else Inl BadAccess)"

definition get_integer :: "int \<Rightarrow> read_block \<Rightarrow> seri_error + (u64 \<times> read_block)" where
  "get_integer cookie rb =
     (if cookie = TYPE_NUMBER_ZERO then Inr (0, rb)
      else if cookie = TYPE_NUMBER_BYTE then bindE (rb_fetch 1 rb) (\<lambda>(bs, rb). Inr (of_nat (le_nat bs), rb))
      else if cookie = TYPE_NUMBER_WORD then bindE (rb_fetch 2 rb) (\<lambda>(bs, rb). Inr (of_nat (le_nat bs), rb))
      else if cookie = TYPE_NUMBER_DWORD
      then bindE (rb_fetch 4 rb) (\<lambda>(bs, rb). Inr (word_of_int (sint (of_nat (le_nat bs) :: u32)), rb))
      else if cookie = TYPE_NUMBER_QWORD then bindE (rb_fetch 8 rb) (\<lambda>(bs, rb). Inr (of_nat (le_nat bs), rb))
      else Inl (InvalidStream (rb_len rb)))"

definition get_real :: "read_block \<Rightarrow> seri_error + (u64 \<times> read_block)" where
  "get_real rb = bindE (rb_fetch 8 rb) (\<lambda>(bs, rb). Inr (of_nat (le_nat bs), rb))"

definition get_pointer :: "read_block \<Rightarrow> seri_error + (u64 \<times> read_block)" where
  "get_pointer rb = bindE (rb_fetch 8 rb) (\<lambda>(bs, rb). Inr (of_nat (le_nat bs), rb))"

text \<open>A negative length passes \<open>rb_read\<close>; \<open>lua_pushlstring\<close> takes it as a size above every limit and
  raises an error.\<close>

definition get_buffer :: "int \<Rightarrow> read_block \<Rightarrow> seri_error + (bytes \<times> read_block)" where
  "get_buffer len rb = (case rb_read rb len of
     None \<Rightarrow> Inl (InvalidStream (rb_len rb))
   | Some (p, rb') \<Rightarrow>
       if len < 0 then Inl TooBig
       else if 0 \<le> p \<and> nat p + nat len \<le> length (rb_buffer rb)
       then Inr (take (nat len) (drop (nat p) (rb_buffer rb)), rb')
       else Inl BadAccess)"

text \<open>\<open>lua_rawset\<close> refuses a key that is not a number. The bit pattern of such a \<open>double\<close> has the
  largest exponent and a fraction other than 0.\<close>

definition is_nan :: "u64 \<Rightarrow> bool" where
  "is_nan r \<longleftrightarrow> take_bit 11 (drop_bit 52 r) = 0x7ff \<and> take_bit 52 r \<noteq> 0"

definition nan_key :: "lua_out \<Rightarrow> bool" where
  "nan_key k = (case k of O_atom (LReal r) \<Rightarrow> is_nan r | _ \<Rightarrow> False)"

text \<open>The loops of \<open>unpack_table\<close>, with \<open>unpack_one\<close> as an argument. Every pair takes a byte, so the
  bytes that are left bound the second loop; the first argument is that bound.\<close>

type_synonym reader = "read_block \<Rightarrow> seri_error + (lua_out \<times> read_block)"

fun unpack_items :: "reader \<Rightarrow> nat \<Rightarrow> nat \<Rightarrow> read_block \<Rightarrow> seri_error + ((lua_out \<times> lua_out) list \<times> read_block)" where
  "unpack_items un i 0 rb = Inr ([], rb)"
| "unpack_items un i (Suc n) rb =
     bindE (un rb) (\<lambda>(v, rb).
     bindE (unpack_items un (i + 1) n rb) (\<lambda>(kvs, rb).
     Inr ((O_atom (LInteger (of_nat i)), v) # kvs, rb)))"

fun unpack_pairs :: "nat \<Rightarrow> reader \<Rightarrow> read_block \<Rightarrow> seri_error + ((lua_out \<times> lua_out) list \<times> read_block)" where
  "unpack_pairs 0 un rb = Inl NoFuel"
| "unpack_pairs (Suc f) un rb =
     bindE (un rb) (\<lambda>(k, rb).
     if k = O_atom LNil then Inr ([], rb)
     else bindE (un rb) (\<lambda>(v, rb).
       if nan_key k then Inl IndexNaN
       else bindE (unpack_pairs f un rb) (\<lambda>(kvs, rb). Inr ((k, v) # kvs, rb))))"

text \<open>The size of the array part when it is not in the type byte.\<close>

definition table_size :: "int \<Rightarrow> read_block \<Rightarrow> seri_error + (int \<times> read_block)" where
  "table_size array_size rb =
     (if array_size = MAX_COOKIE - 1 then
        bindE (rb_fetch 1 rb) (\<lambda>(t, rb).
        let cookie = uint (drop_bit 3 (t ! 0)) in
        if uint (t ! 0 AND 7) \<noteq> TYPE_NUMBER \<or> cookie = TYPE_NUMBER_REAL then Inl (InvalidStream (rb_len rb))
        else bindE (get_integer cookie rb) (\<lambda>(n, rb). Inr (sint (ucast n :: u32), rb)))
      else Inr (array_size, rb))"

definition unpack_table :: "nat \<Rightarrow> reader \<Rightarrow> int \<Rightarrow> reader" where
  "unpack_table f un array_size rb =
     bindE (table_size array_size rb) (\<lambda>(array_size, rb).
     bindE (unpack_items un 1 (nat array_size) rb) (\<lambda>(items, rb).
     bindE (unpack_pairs f un rb) (\<lambda>(pairs, rb).
     Inr (O_table (items @ pairs), rb))))"

definition push_atom :: "(seri_error + ('a \<times> read_block)) \<Rightarrow> ('a \<Rightarrow> lua_atom) \<Rightarrow> seri_error + (lua_out \<times> read_block)" where
  "push_atom m c = bindE m (\<lambda>(x, rb). Inr (O_atom (c x), rb))"

definition long_string :: "nat \<Rightarrow> reader" where
  "long_string n rb = bindE (rb_fetch n rb) (\<lambda>(bs, rb).
     push_atom (get_buffer (if n = 2 then int (le_nat bs) else sint (of_nat (le_nat bs) :: u32)) rb) LString)"

definition push_value :: "nat \<Rightarrow> reader \<Rightarrow> int \<Rightarrow> int \<Rightarrow> reader" where
  "push_value f un type cookie rb =
     (if type = TYPE_NIL then Inr (O_atom LNil, rb)
      else if type = TYPE_BOOLEAN then Inr (O_atom (LBoolean (cookie \<noteq> 0)), rb)
      else if type = TYPE_NUMBER then
        (if cookie = TYPE_NUMBER_REAL then push_atom (get_real rb) LReal else push_atom (get_integer cookie rb) LInteger)
      else if type = TYPE_USERDATA then push_atom (get_pointer rb) LUserdata
      else if type = TYPE_SHORT_STRING then push_atom (get_buffer cookie rb) LString
      else if type = TYPE_LONG_STRING then
        (if cookie = 2 then long_string 2 rb
         else if cookie \<noteq> 4 then Inl (InvalidStream (rb_len rb))
         else long_string 4 rb)
      else if type = TYPE_TABLE then unpack_table f un cookie rb
      else Inl (InvalidStream (rb_len rb)))"

fun unpack_fuel :: "nat \<Rightarrow> reader" where
  "unpack_fuel 0 rb = Inl NoFuel"
| "unpack_fuel (Suc f) rb =
     bindE (rb_fetch 1 rb) (\<lambda>(t, rb). push_value f (unpack_fuel f) (uint (t ! 0 AND 7)) (uint (drop_bit 3 (t ! 0))) rb)"

definition unpack_one :: reader where
  "unpack_one rb = unpack_fuel (nat (rb_len rb) + 1) rb"

fun unpack_loop :: "nat \<Rightarrow> read_block \<Rightarrow> seri_error + lua_out list" where
  "unpack_loop 0 rb = Inl NoFuel"
| "unpack_loop (Suc f) rb =
     (if rb_read rb 1 = None then Inr []
      else bindE (rb_fetch 1 rb) (\<lambda>(t, rb).
        bindE (push_value f (unpack_fuel f) (uint (t ! 0 AND 7)) (uint (drop_bit 3 (t ! 0))) rb) (\<lambda>(v, rb).
        bindE (unpack_loop f rb) (\<lambda>vs. Inr (v # vs)))))"

text \<open>\<open>luaseri_unpack\<close>: the buffer is absent when the first argument is none or nil, a pointer may be
  \<open>NULL\<close>.\<close>

datatype seri_argument = NoneOrNil | StringArg bytes | PointerArg "bytes option" u64

definition luaseri_unpack :: "seri_argument \<Rightarrow> seri_error + lua_out list" where
  "luaseri_unpack arg = (case arg of
     NoneOrNil \<Rightarrow> Inr []
   | StringArg s \<Rightarrow>
       let len = sint (of_nat (length s) :: u32)
       in if len = 0 then Inr [] else unpack_loop (nat len + 1) (rball_init s len)
   | PointerArg p n \<Rightarrow>
       let len = sint (ucast n :: u32)
       in if len = 0 then Inr []
          else (case p of None \<Rightarrow> Inl NullPointer | Some s \<Rightarrow> unpack_loop (nat len + 1) (rball_init s len)))"

end
