(* ===== verification/Seri_Pack.thy ===== *)
theory Seri_Pack
  imports Seri
begin

unbundle bit_operations_syntax

text \<open>
  The writer of \<^verbatim>\<open>lua-seri.c\<close> against a reference encoding: the chain of blocks is a growing byte
  string, and every function of the writer appends the bytes of the reference encoding or
  raises its error.
\<close>

section \<open>The chain of blocks is a byte string\<close>

definition wb_ok :: "write_block \<Rightarrow> bool" where [inv_defs]:
  "wb_ok b \<longleftrightarrow> wb_chain b \<noteq> [] \<and> (\<forall>c\<in>set (butlast (wb_chain b)). length c = BLOCK_SIZE)
     \<and> length (last (wb_chain b)) = wb_ptr b \<and> wb_ptr b \<le> BLOCK_SIZE \<and> wb_len b = of_nat (length (concat (wb_chain b)))"

definition content :: "write_block \<Rightarrow> bytes" where
  "content b = concat (wb_chain b)"

lemma chain_split: "wb_chain b \<noteq> [] \<Longrightarrow> content b = concat (butlast (wb_chain b)) @ last (wb_chain b)"
  unfolding content_def by (subst append_butlast_last_id [symmetric]) (simp_all del: append_butlast_last_id)

text \<open>Writing into the room of the current block.\<close>

lemma wb_copy_ok:
  assumes "wb_ok b" "wb_ptr b + length bs \<le> BLOCK_SIZE"
  shows "wb_ok ((wb_copy bs b)\<lparr>wb_ptr := wb_ptr b + length bs\<rparr>)" "content (wb_copy bs b) = content b @ bs"
proof -
  have ne: "wb_chain b \<noteq> []" and l: "length (last (wb_chain b)) = wb_ptr b" using assms(1) by (auto simp: wb_ok_def)
  have c: "content (wb_copy bs b) = content b @ bs"
    using l by (simp add: wb_copy_def content_def chain_split [OF ne, unfolded content_def])
  have "wb_len b = of_nat (length (content b))" using assms(1) by (simp add: wb_ok_def content_def)
  then have "wb_len (wb_copy bs b) = of_nat (length (content (wb_copy bs b)))" unfolding c by (simp add: wb_copy_def)
  then show "wb_ok ((wb_copy bs b)\<lparr>wb_ptr := wb_ptr b + length bs\<rparr>)"
    using assms l by (simp add: wb_ok_def content_def) (simp add: wb_copy_def)
  show "content (wb_copy bs b) = content b @ bs" by fact
qed

lemma content_simps [simp]: "content (b\<lparr>wb_ptr := p\<rparr>) = content b" "content (blk_append b) = content b"
  by (simp_all add: content_def blk_append_def)

lemma blk_append_ok:
  assumes "wb_ok b" "wb_ptr b = BLOCK_SIZE"
  shows "wb_ok (blk_append b)"
proof -
  have ne: "wb_chain b \<noteq> []" using assms by (simp add: wb_ok_def)
  have "set (wb_chain b) = insert (last (wb_chain b)) (set (butlast (wb_chain b)))"
    by (subst append_butlast_last_id [OF ne, symmetric]) simp
  then show ?thesis using assms by (auto simp: wb_ok_def blk_append_def butlast_append)
qed

lemma blk_append_ptr [simp]: "blk_append (b\<lparr>wb_ptr := p\<rparr>) = blk_append b"
  by (simp add: blk_append_def)

lemma wb_fill_ok: "wb_ok b \<Longrightarrow> wb_ok (wb_fill bs b) \<and> content (wb_fill bs b) = content b @ bs"
proof (induction bs b rule: wb_fill.induct)
  case (1 bs b)
  show ?case
  proof (cases "wb_ptr b + length bs \<le> BLOCK_SIZE")
    case True
    then show ?thesis using wb_copy_ok [OF 1(2) True] by (subst (1 2) wb_fill.simps) simp
  next
    case False
    let ?n = "BLOCK_SIZE - wb_ptr b"
    let ?b = "wb_copy (take ?n bs) b"
    have p: "wb_ptr b \<le> BLOCK_SIZE" using 1(2) by (simp add: wb_ok_def)
    then have n: "wb_ptr b + length (take ?n bs) = BLOCK_SIZE" using False by simp
    from wb_copy_ok [OF 1(2), of "take ?n bs"] n
    have "wb_ok (?b\<lparr>wb_ptr := BLOCK_SIZE\<rparr>)" "content ?b = content b @ take ?n bs" by simp_all
    with blk_append_ok [of "?b\<lparr>wb_ptr := BLOCK_SIZE\<rparr>"] 1(1) [OF False refl] show ?thesis
      using False by (subst (1 2) wb_fill.simps) (simp add: Let_def)
  qed
qed

lemma wb_push_ok [simp]: "wb_ok b \<Longrightarrow> wb_ok (wb_push bs b)" "wb_ok b \<Longrightarrow> content (wb_push bs b) = content b @ bs"
  using wb_fill_ok [of b] wb_fill_ok [OF blk_append_ok] by (simp_all add: wb_push_def)

lemma wb_init_ok [simp]: "wb_ok wb_init" "content wb_init = []"
  by (simp_all add: wb_ok_def wb_init_def content_def)

text \<open>The blocks are copied into one message.\<close>

lemma seri_loop_chain:
  "cs \<noteq> [] \<Longrightarrow> \<forall>c\<in>set (butlast cs). length c = BLOCK_SIZE \<Longrightarrow> length (last cs) \<le> BLOCK_SIZE \<Longrightarrow>
     seri_loop cs (int (length (concat cs))) = Inr (concat cs)"
proof (induction cs)
  case (Cons c cs)
  show ?case
  proof (cases "cs = []")
    case True
    then show ?thesis using Cons.prems(3) by (cases "length c = BLOCK_SIZE") (auto simp: BLOCK_SIZE_def)
  next
    case False
    then have "seri_loop cs (int (length (concat cs))) = Inr (concat cs)" using Cons by simp
    moreover have "length c = BLOCK_SIZE" using Cons.prems(2) False by simp
    ultimately show ?thesis by (simp add: BLOCK_SIZE_def)
  qed
qed simp

lemma seri_content: "wb_ok b \<Longrightarrow> length (content b) < 2 ^ 31 \<Longrightarrow> seri b = Inr (content b)"
proof -
  assume ok: "wb_ok b" and lt: "length (content b) < 2 ^ 31"
  have "sint (wb_len b) = int (length (content b))"
    using ok lt by (simp add: wb_ok_def content_def signed_of_nat signed_take_bit_int_eq_self)
  then show ?thesis using seri_loop_chain [of "wb_chain b"] ok by (auto simp: seri_def wb_ok_def content_def)
qed

section \<open>The reference encoding\<close>

definition catE :: "'e + 'a list \<Rightarrow> 'e + 'a list \<Rightarrow> 'e + 'a list" where
  "catE x y = bindE x (\<lambda>p. bindE y (\<lambda>q. Inr (p @ q)))"

definition cats :: "('e + 'a list) list \<Rightarrow> 'e + 'a list" where
  "cats xs = foldr catE xs (Inr [])"

lemma cats_simps [simp]: "cats [] = Inr []" "cats (x # xs) = catE x (cats xs)"
  by (simp_all add: cats_def)

lemma catE_simps [simp]: "catE (Inl e) y = Inl e" "catE (Inr p) (Inr q) = Inr (p @ q)" "catE (Inr p) (Inl e) = Inl e"
  by (simp_all add: catE_def)

lemma catE_Inr: "catE x y = Inr bs \<longleftrightarrow> (\<exists>p q. x = Inr p \<and> y = Inr q \<and> bs = p @ q)"
  by (auto simp: catE_def bindE_Inr)

definition tag :: "int \<Rightarrow> int \<Rightarrow> bytes" where
  "tag t v = [COMBINE_TYPE t v]"

text \<open>An integer takes the shortest form that holds it.\<close>

definition integer_bytes :: "u64 \<Rightarrow> bytes" where
  "integer_bytes v = (
     let x = sint v in
     if x = 0 then tag 2 0
     else if x < - (2 ^ 31) \<or> 2 ^ 31 \<le> x then tag 2 6 @ le_bytes 8 (unat v)
     else if 0 < x \<and> x < 2 ^ 8 then tag 2 1 @ le_bytes 1 (nat x)
     else if 0 < x \<and> x < 2 ^ 16 then tag 2 2 @ le_bytes 2 (nat x)
     else tag 2 4 @ le_bytes 4 (nat (x mod 2 ^ 32)))"

definition atom_bytes :: "lua_atom \<Rightarrow> seri_error + bytes" where
  "atom_bytes a = (case a of
     LNil \<Rightarrow> Inr (tag 0 0)
   | LBoolean v \<Rightarrow> Inr (tag 1 (if v then 1 else 0))
   | LInteger v \<Rightarrow> Inr (integer_bytes v)
   | LReal v \<Rightarrow> Inr (tag 2 8 @ le_bytes 8 (unat v))
   | LUserdata v \<Rightarrow> Inr (tag 3 0 @ le_bytes 8 (unat v))
   | LString s \<Rightarrow> let n = length s in
       if n < 32 then Inr (tag 4 (int n) @ s)
       else if n < 2 ^ 16 then Inr (tag 5 2 @ le_bytes 2 n @ s)
       else if n < 2 ^ 31 then Inr (tag 5 4 @ le_bytes 4 n @ s)
       else Inl TooBig)"

definition pair_bytes :: "(lua_value \<Rightarrow> seri_error + bytes) \<Rightarrow> (lua_value \<times> lua_value) list \<Rightarrow> seri_error + bytes" where
  "pair_bytes enc ps = cats (map (\<lambda>(k, v). catE (enc k) (enc v)) ps)"

definition size_bytes :: "nat \<Rightarrow> bytes" where
  "size_bytes n = (if n < 31 then tag 6 (int n) else tag 6 31 @ integer_bytes (of_nat n))"

definition hash_part :: "nat \<Rightarrow> (lua_value \<times> lua_value) list \<Rightarrow> (lua_value \<times> lua_value) list" where
  "hash_part n kvs = filter (\<lambda>(k, v). \<not> in_array (int n) k) kvs"

definition iterated :: "(lua_value \<times> lua_value) list \<Rightarrow> (lua_value \<times> lua_value) list" where
  "iterated ps = takeWhile (\<lambda>(k, v). k \<noteq> Atom LNil) ps"

definition table_bytes ::
    "(lua_value \<Rightarrow> seri_error + bytes) \<Rightarrow> nat \<Rightarrow> (lua_value \<times> lua_value) list
       \<Rightarrow> ((lua_value \<times> lua_value) list \<times> bool) option \<Rightarrow> seri_error + bytes" where
  "table_bytes enc n kvs meta = (case meta of
     None \<Rightarrow> if n < 2 ^ 31
       then catE (Inr (size_bytes n)) (catE (cats (map (\<lambda>i. enc (rawgeti kvs i)) [1..<n + 1]))
              (catE (pair_bytes enc (hash_part n kvs)) (Inr (tag 0 0))))
       else Inl TooBig
   | Some (ps, raises) \<Rightarrow>
       catE (Inr (tag 6 0)) (catE (pair_bytes enc (iterated ps))
         (if raises \<and> iterated ps = ps then Inl CallError else Inr (tag 0 0))))"

fun value_bytes :: "nat \<Rightarrow> lua_value \<Rightarrow> seri_error + bytes" where
  "value_bytes 0 v = Inl TooDepth"
| "value_bytes (Suc r) v = (case v of
     Atom a \<Rightarrow> atom_bytes a
   | Table n kvs meta \<Rightarrow> table_bytes (value_bytes r) n kvs meta
   | Other ty \<Rightarrow> Inl (Unsupport ty))"

text \<open>The encoding of a message: 33 levels of values.\<close>

definition message_bytes :: "lua_value list \<Rightarrow> seri_error + bytes" where
  "message_bytes vs = cats (map (value_bytes 33) vs)"

section \<open>The writer follows the reference\<close>

text \<open>A function of the writer appends the given bytes, or raises the given error; then it has
  freed the blocks, unless a call of the iteration has raised it. Strings and tables with
  \<open>2^31\<close> elements are not specified.\<close>

definition follows :: "(write_block \<Rightarrow> written) \<Rightarrow> seri_error + bytes \<Rightarrow> bool" where
  "follows f x \<longleftrightarrow> (\<forall>b. wb_ok b \<longrightarrow> (case x of
     Inr bs \<Rightarrow> \<exists>b'. f b = Inr b' \<and> wb_ok b' \<and> content b' = content b @ bs
   | Inl e \<Rightarrow> e = TooBig \<or> (\<exists>b'. f b = Inl (e, b') \<and> (e \<noteq> CallError \<longrightarrow> wb_chain b' = []))))"

lemma follows_push: "(\<And>b. wb_ok b \<Longrightarrow> wb_ok (f b) \<and> content (f b) = content b @ bs) \<Longrightarrow> follows (\<lambda>b. Inr (f b)) (Inr bs)"
  by (simp add: follows_def)

lemma follows_bind: "follows f x \<Longrightarrow> follows g y \<Longrightarrow> follows (\<lambda>b. bindE (f b) g) (catE x y)"
  by (cases x; cases y) (fastforce simp: follows_def)+

lemma follows_after:
  assumes "follows f x" "\<And>b. wb_ok b \<Longrightarrow> wb_ok (g b) \<and> content (g b) = content b @ bs"
  shows "follows (\<lambda>b. f (g b)) (catE (Inr bs) x)"
  using assms by (cases x) (auto simp: follows_def, (metis append_assoc)+)

lemma follows_TooBig: "follows f (Inl TooBig)"
  by (simp add: follows_def)

lemma signed_small: "n < 2 ^ 31 \<Longrightarrow> sint (of_nat n :: u32) = int n"
  by (simp add: signed_of_nat signed_take_bit_int_eq_self)

lemma tag_push: "wb_ok b \<Longrightarrow> wb_ok (wb_push [COMBINE_TYPE t v] b) \<and> content (wb_push [COMBINE_TYPE t v] b) = content b @ tag t v"
  by (simp add: tag_def)

lemma tag_0: "[word_of_int t] = tag t 0"
  by (simp add: tag_def COMBINE_TYPE_def)

lemma wb_nil_ok: "wb_ok b \<Longrightarrow> wb_ok (wb_nil b) \<and> content (wb_nil b) = content b @ tag 0 0"
  by (simp add: wb_nil_def tag_def COMBINE_TYPE_def TYPE_NIL_def)

lemma int32_range: "x = signed_take_bit 31 x \<longleftrightarrow> - (2 ^ 31) \<le> x \<and> x < 2 ^ 31" for x :: int
  using signed_take_bit_int_eq_self_iff [of 31 x] by auto

lemma unat_ucast_mod:
  fixes v :: "'a::len word" assumes "LENGTH('b) \<le> LENGTH('a)"
  shows "unat (ucast v :: 'b::len word) = nat (sint v mod 2 ^ LENGTH('b))"
proof -
  have "take_bit LENGTH('b) (sint v) = take_bit LENGTH('b) (uint v)"
    using assms by (simp add: sint_uint take_bit_signed_take_bit)
  moreover have "uint (ucast v :: 'b word) = take_bit LENGTH('b) (uint v)" by (simp add: unsigned_ucast_eq take_bit_word_eq_self unsigned_take_bit_eq)
  ultimately show ?thesis by (simp add: unat_eq_nat_uint take_bit_eq_mod)
qed

lemma wb_integer_ok:
  assumes "wb_ok b"
  shows "wb_ok (wb_integer v b)" "content (wb_integer v b) = content b @ integer_bytes v"
proof -
  let ?x = "sint v"
  have u: "[ucast v] = le_bytes 1 (nat ?x)" if "0 \<le> ?x" "?x < 2 ^ 8"
  proof -
    have "unat (ucast v :: u8) = nat ?x" using that by (simp add: unat_ucast_mod)
    then have "(ucast v :: u8) = of_nat (nat ?x)" by (metis of_nat_unat ucast_id)
    moreover have "nat ?x mod 256 = nat ?x" using that by (simp add: nat_less_iff)
    ultimately show ?thesis by (simp del: of_nat_nat)
  qed
  have w: "0 \<le> ?x \<Longrightarrow> ?x < 2 ^ 16 \<Longrightarrow> unat (ucast v :: u16) = nat ?x" "unat (ucast v :: u32) = nat (?x mod 2 ^ 32)"
    by (simp_all add: unat_ucast_mod)
  show "wb_ok (wb_integer v b)" using assms by (simp add: wb_integer_def Let_def)
  show "content (wb_integer v b) = content b @ integer_bytes v"
    using assms u w by (auto simp: wb_integer_def integer_bytes_def Let_def int32_range type_defs tag_def)
qed

lemma string_bytes_ok:
  assumes "length s < 2 ^ 31"
  shows "follows (\<lambda>b. Inr (wb_atom (LString s) b)) (atom_bytes (LString s))"
proof -
  let ?n = "length s"
  have len: "sint (of_nat ?n :: u32) = int ?n" using assms by (rule signed_small)
  have u: "?n < 2 ^ 16 \<Longrightarrow> unat (of_nat ?n :: u16) = ?n" "unat (of_nat ?n :: u32) = ?n"
    using assms by (simp_all only: unat_of_nat) simp_all
  have "\<exists>bs. atom_bytes (LString s) = Inr bs" using assms by (simp add: atom_bytes_def Let_def)
  then obtain bs where bs: "atom_bytes (LString s) = Inr bs" by blast
  show ?thesis unfolding bs
  proof (rule follows_push)
    fix b assume "wb_ok b"
    then show "wb_ok (wb_atom (LString s) b) \<and> content (wb_atom (LString s) b) = content b @ bs"
      using bs u len assms unfolding wb_atom_def
      by (auto simp: wb_string_def atom_bytes_def Let_def type_defs tag_def split: if_splits)
  qed
qed

lemma wb_atom_follows: "follows (\<lambda>b. Inr (wb_atom a b)) (atom_bytes a)"
proof (cases a)
  case (LString s)
  then show ?thesis using string_bytes_ok [of s]
    by (cases "length s < 2 ^ 31") (simp_all add: atom_bytes_def Let_def follows_TooBig)
qed (auto simp: atom_bytes_def wb_atom_def wb_nil_ok [unfolded tag_def COMBINE_TYPE_def] wb_integer_ok wb_real_def wb_pointer_def wb_boolean_def type_defs tag_def COMBINE_TYPE_def
    intro!: follows_push)

lemma catE_assoc [simp]: "catE (catE x y) z = catE x (catE y z)"
  by (cases x; cases y; cases z) simp_all

lemma catE_Nil [simp]: "catE (Inr []) x = x"
  by (cases x) simp_all

lemma follows_cong: "follows f x \<Longrightarrow> (\<And>b. g b = f b) \<Longrightarrow> x = y \<Longrightarrow> follows g y"
  by (metis ext)

text \<open>What the functions for tables need of the function for their elements.\<close>

locale element_writer =
  fixes pack :: "lua_value \<Rightarrow> write_block \<Rightarrow> written" and enc :: "lua_value \<Rightarrow> seri_error + bytes"
  assumes pack_follows: "follows (pack v) (enc v)"
begin

lemma array_follows: "follows (array_loop pack kvs is) (cats (map (\<lambda>i. enc (rawgeti kvs i)) is))"
proof (induction "is")
  case Nil
  then show ?case using follows_push [of "\<lambda>b. b" "[]"] by (simp add: follows_def)
next
  case (Cons i "is")
  show ?case using follows_bind [OF pack_follows [of "rawgeti kvs i"] Cons] by (rule follows_cong) simp_all
qed

lemma pair_follows:
  "follows f y \<Longrightarrow> follows (\<lambda>b. bindE (pack k b) (\<lambda>b. bindE (pack v b) f)) (catE (enc k) (catE (enc v) y))"
  by (intro follows_bind pack_follows)

lemma hash_follows: "follows (hash_loop pack (int n) kvs) (catE (pair_bytes enc (hash_part n kvs)) (Inr (tag 0 0)))"
proof (induction kvs)
  case Nil
  then show ?case using wb_nil_ok by (simp add: follows_def pair_bytes_def hash_part_def)
next
  case (Cons kv kvs)
  obtain k v where kv: "kv = (k, v)" by (cases kv)
  show ?case
  proof (cases "in_array (int n) k")
    case True
    show ?thesis using Cons by (rule follows_cong) (simp_all add: True kv hash_part_def)
  next
    case False
    show ?thesis using pair_follows [OF Cons, of k v]
      by (rule follows_cong) (simp_all add: False kv hash_part_def pair_bytes_def)
  qed
qed

lemma metapairs_follows:
  "follows (metapairs_loop pack ps raises)
     (catE (pair_bytes enc (iterated ps)) (if raises \<and> iterated ps = ps then Inl CallError else Inr (tag 0 0)))"
proof (induction ps)
  case Nil
  then show ?case using wb_nil_ok by (simp add: follows_def pair_bytes_def iterated_def)
next
  case (Cons kv ps)
  obtain k v where kv: "kv = (k, v)" by (cases kv)
  show ?case
  proof (cases "k = Atom LNil")
    case True
    then show ?thesis using wb_nil_ok by (simp add: follows_def kv iterated_def pair_bytes_def)
  next
    case False
    show ?thesis using pair_follows [OF Cons, of k v]
      by (rule follows_cong) (simp_all add: False kv iterated_def pair_bytes_def)
  qed
qed

lemma table_array_follows:
  assumes "n < 2 ^ 31"
  shows "follows (wb_table_array pack n kvs) (catE (Inr (size_bytes n)) (cats (map (\<lambda>i. enc (rawgeti kvs i)) [1..<n + 1])))"
proof -
  let ?push = "\<lambda>b. if int n \<ge> MAX_COOKIE - 1
      then wb_integer (word_of_int (int n)) (wb_push [COMBINE_TYPE TYPE_TABLE (MAX_COOKIE - 1)] b)
      else wb_push [COMBINE_TYPE TYPE_TABLE (int n)] b"
  have "wb_ok (?push b) \<and> content (?push b) = content b @ size_bytes n" if "wb_ok b" for b
    using that by (simp add: wb_integer_ok size_bytes_def type_defs tag_def)
  from follows_after [OF array_follows [of kvs "[1..<n + 1]"] this] show ?thesis
    by (rule follows_cong) (simp_all add: wb_table_array_def signed_small [OF assms])
qed

lemma table_follows: "follows (wb_table pack n kvs meta) (table_bytes enc n kvs meta)"
proof (cases meta)
  case None
  show ?thesis
  proof (cases "n < 2 ^ 31")
    case True
    from follows_bind [OF table_array_follows [OF this, of kvs] hash_follows [of n kvs]] show ?thesis
      by (rule follows_cong) (use True in \<open>simp_all add: None wb_table_def table_bytes_def wb_table_hash_def [abs_def] signed_small [OF True] del: upt_Suc\<close>)
  qed (simp add: None table_bytes_def follows_TooBig)
next
  case (Some pr)
  obtain ps raises where "pr = (ps, raises)" by (cases pr)
  with Some have meta: "meta = Some (ps, raises)" by simp
  show ?thesis using follows_after [OF metapairs_follows tag_push, of ps raises 6 0]
    by (rule follows_cong) (simp_all add: meta wb_table_def table_bytes_def wb_table_metapairs_def TYPE_TABLE_def)
qed

end

lemma pack_left_follows: "follows (pack_left r v) (value_bytes r v)"
proof (induction r arbitrary: v)
  case 0
  then show ?case by (simp add: follows_def wb_free_def)
next
  case (Suc r)
  note table = element_writer.table_follows [OF element_writer.intro [OF Suc]]
  show ?case
  proof (cases v)
    case (Atom a)
    show ?thesis using wb_atom_follows by (rule follows_cong) (simp_all add: Atom)
  next
    case (Table n kvs meta)
    show ?thesis using table by (rule follows_cong) (simp_all add: Table)
  qed (simp add: follows_def wb_free_def)
qed

interpretation level: element_writer "pack_left r" "value_bytes r" for r
  by unfold_locales (rule pack_left_follows)

lemma pack_from_follows: "follows (pack_from vs) (message_bytes vs)"
proof (induction vs)
  case Nil
  then show ?case by (simp add: follows_def message_bytes_def)
next
  case (Cons v vs)
  have "pack_one 0 = pack_left 33" by (simp add: pack_one_def MAX_DEPTH_def)
  then have "pack_from (v # vs) b = bindE (pack_left 33 v b) (pack_from vs)" for b by (simp only: pack_from.simps)
  with follows_bind [OF level.pack_follows Cons, of 33 v] show ?case
    unfolding message_bytes_def by (rule follows_cong) (simp only: list.map cats_simps)
qed


text \<open>A message: a string, and a table with one element and a field.\<close>

definition demo_table :: "(lua_value \<times> lua_value) list" where
  "demo_table = [(Atom (LInteger 1), Atom (LBoolean True)), (Atom (LString [107]), Atom (LInteger 300))]"

definition demo_values :: "lua_value list" where
  "demo_values = [Atom (LString [104, 105]), Table 1 demo_table None]"

definition demo_bytes :: bytes where
  "demo_bytes = [20, 104, 105, 14, 9, 12, 107, 18, 44, 1, 0]"

lemma value_bytes_numeral: "value_bytes (numeral r) v = (case v of
     Atom a \<Rightarrow> atom_bytes a
   | Table n kvs meta \<Rightarrow> table_bytes (value_bytes (pred_numeral r)) n kvs meta
   | Other ty \<Rightarrow> Inl (Unsupport ty))"
  by (simp add: numeral_eq_Suc)

lemma le_300: "le_bytes 2 300 = [44, 1]"
  by (simp add: numeral_2_eq_2)

lemma demo_encoded: "message_bytes demo_values = Inr demo_bytes"
  by (simp add: message_bytes_def demo_values_def value_bytes_numeral demo_table_def demo_bytes_def table_bytes_def atom_bytes_def integer_bytes_def size_bytes_def tag_def
      COMBINE_TYPE_def pair_bytes_def hash_part_def in_array_def rawgeti_def le_300)


text \<open>The blocks leak when the iteration raises an error.\<close>

lemma chain_long: "wb_ok b \<Longrightarrow> BLOCK_SIZE < length (content b) \<Longrightarrow> 1 < length (wb_chain b)"
  by (cases "wb_chain b"; cases "tl (wb_chain b)") (auto simp: wb_ok_def content_def)

lemma callback_error_leaks:
  assumes "BLOCK_SIZE \<le> length s" "length s < 2 ^ 31"
  shows "\<exists>b. luaseri_pack [Atom (LString s), Table 0 [] (Some ([], True))] = Inl (CallError, b) \<and> 1 < length (wb_chain b)"
proof -
  have "\<exists>bs. atom_bytes (LString s) = Inr bs \<and> BLOCK_SIZE \<le> length bs" using assms by (simp add: atom_bytes_def Let_def)
  then obtain bs where bs: "atom_bytes (LString s) = Inr bs" "BLOCK_SIZE \<le> length bs" by blast
  with wb_atom_follows [of "LString s"] have ok: "wb_ok (wb_atom (LString s) wb_init)" "content (wb_atom (LString s) wb_init) = bs"
    by (auto simp: follows_def dest!: spec [of _ wb_init])
  let ?b = "wb_push (tag 6 0) (wb_atom (LString s) wb_init)"
  have "1 < length (wb_chain ?b)" using ok bs(2) by (intro chain_long) (simp_all add: tag_def)
  moreover have "pack_one 0 = pack_left (Suc 32)" by (simp add: pack_one_def MAX_DEPTH_def)
  ultimately show ?thesis using pack_left.simps(2) [of 32]
    by (simp add: luaseri_pack_def wb_table_def wb_table_metapairs_def TYPE_TABLE_def tag_def)
qed

end
