(* ===== verification/Seri_Unpack.thy ===== *)
theory Seri_Unpack
  imports Seri_Pack
begin

unbundle bit_operations_syntax

text \<open>
  The reader of \<^verbatim>\<open>lua-seri.c\<close>: whatever the bytes are, it stays inside the buffer and ends, and
  the bytes of the reference encoding are read back as the values they encode.
\<close>

section \<open>The read block is the rest of a byte string\<close>

definition rb_ok :: "read_block \<Rightarrow> bool" where [inv_defs]:
  "rb_ok rb \<longleftrightarrow> 0 \<le> rb_ptr rb \<and> 0 \<le> rb_len rb \<and> rb_ptr rb + rb_len rb = int (length (rb_buffer rb))"

definition rest :: "read_block \<Rightarrow> bytes" where
  "rest rb = drop (nat (rb_ptr rb)) (rb_buffer rb)"

lemma length_rest: "rb_ok rb \<Longrightarrow> int (length (rest rb)) = rb_len rb"
  by (auto simp: rb_ok_def rest_def)

text \<open>A computation reads the given bytes and returns the given value.\<close>

definition takes :: "(read_block \<Rightarrow> seri_error + ('a \<times> read_block)) \<Rightarrow> bytes \<Rightarrow> 'a \<Rightarrow> bool" where
  "takes f bs x \<longleftrightarrow> (\<forall>rb more. rb_ok rb \<and> rest rb = bs @ more \<longrightarrow> (\<exists>rb'. f rb = Inr (x, rb') \<and> rb_ok rb' \<and> rest rb' = more))"

lemma takes_return: "takes (\<lambda>rb. Inr (x, rb)) [] x"
  by (simp add: takes_def)

lemma takes_bind: "takes f bs x \<Longrightarrow> takes (g x) cs y \<Longrightarrow> takes (\<lambda>rb. bindE (f rb) (\<lambda>(z, rb). g z rb)) (bs @ cs) y"
  unfolding takes_def by (fastforce simp: append_assoc)

lemma takes_bind_return: "takes f bs x \<Longrightarrow> takes (\<lambda>rb. bindE (f rb) (\<lambda>(z, rb). Inr (g z, rb))) bs (g x)"
  using takes_bind [of f bs x "\<lambda>z rb. Inr (g z, rb)" "[]" "g x"] by (simp add: takes_return)

lemma takes_bind_two:
  "takes f bs x \<Longrightarrow> takes g cs y \<Longrightarrow>
     takes (\<lambda>rb. bindE (f rb) (\<lambda>(u, rb). bindE (g rb) (\<lambda>(w, rb). Inr (h u w, rb)))) (bs @ cs) (h x y)"
  using takes_bind [of f bs x "\<lambda>u rb. bindE (g rb) (\<lambda>(w, rb). Inr (h u w, rb))" cs "h x y"]
    takes_bind_return [of g cs y "h x"] by simp

lemma takes_cong: "takes f bs x \<Longrightarrow> (\<And>rb. g rb = f rb) \<Longrightarrow> takes g bs x"
  by (metis ext)

lemma rb_fetch_ok:
  assumes "rb_ok rb"
  shows "rb_fetch n rb = (if length (rest rb) < n then Inl (InvalidStream (rb_len rb))
    else Inr (take n (rest rb), rb\<lparr>rb_ptr := rb_ptr rb + int n, rb_len := rb_len rb - int n\<rparr>))"
proof -
  have len: "rb_len rb = int (length (rest rb))" using length_rest [OF assms] by simp
  have "0 \<le> rb_ptr rb" "nat (rb_ptr rb) + n \<le> length (rb_buffer rb)" if "\<not> length (rest rb) < n"
    using assms that len by (auto simp: rb_ok_def)
  then show ?thesis by (simp add: rb_fetch_def rb_read_def len) (simp add: rest_def)
qed

lemma advance_ok:
  "rb_ok rb \<Longrightarrow> n \<le> length (rest rb) \<Longrightarrow> rb_ok (rb\<lparr>rb_ptr := rb_ptr rb + int n, rb_len := rb_len rb - int n\<rparr>)
    \<and> rest (rb\<lparr>rb_ptr := rb_ptr rb + int n, rb_len := rb_len rb - int n\<rparr>) = drop n (rest rb)"
  using length_rest [of rb] by (auto simp: rb_ok_def rest_def nat_add_distrib add.commute)

lemma fetch_takes: "length bs = n \<Longrightarrow> takes (rb_fetch n) bs bs"
  unfolding takes_def using advance_ok by (auto simp: rb_fetch_ok)

lemma buffer_takes: "takes (get_buffer (int (length s))) s s"
proof -
  have "get_buffer (int (length s)) rb = rb_fetch (length s) rb" for rb
    by (auto simp: get_buffer_def rb_fetch_def split: option.splits)
  with fetch_takes [OF refl, of s] show ?thesis by (rule takes_cong)
qed

section \<open>Type bytes\<close>

lemma tag_low: "0 \<le> t \<Longrightarrow> t < 8 \<Longrightarrow> uint (COMBINE_TYPE t v AND 7) = t"
proof -
  assume "0 \<le> t" "t < 8"
  then have t: "take_bit 3 t = t" by (simp add: take_bit_int_eq_self)
  have "COMBINE_TYPE t v AND 7 = take_bit 3 (COMBINE_TYPE t v)" by (simp add: take_bit_eq_mask mask_eq_exp_minus_1)
  also have "uint \<dots> = take_bit 3 (t OR push_bit 3 v)" by (simp add: COMBINE_TYPE_def unsigned_take_bit_eq uint_word_of_int_eq)
  also have "\<dots> = t" by (simp add: t take_bit_push_bit)
  finally show ?thesis .
qed

lemma tag_high:
  assumes "0 \<le> t" "t < 8" "0 \<le> v" "v < 32"
  shows "uint (drop_bit 3 (COMBINE_TYPE t v)) = v"
proof -
  have t: "take_bit 3 t = t" and v: "take_bit 5 v = v" using assms by (simp_all add: take_bit_int_eq_self)
  have "uint (drop_bit 3 (COMBINE_TYPE t v)) = drop_bit 3 (take_bit 8 (t OR push_bit 3 v))"
    by (simp add: COMBINE_TYPE_def unsigned_drop_bit_eq uint_word_of_int_eq)
  also have "\<dots> = v"
  proof (rule bit_eqI)
    fix n
    have "bit t (n + 3) = False" using t by (metis bit_take_bit_iff not_add_less2)
    moreover have "bit v n \<longleftrightarrow> n < 5 \<and> bit v n" using v by (metis bit_take_bit_iff)
    ultimately show "bit (drop_bit 3 (take_bit 8 (t OR push_bit 3 v))) n = bit v n"
      by (auto simp: bit_simps add.commute)
  qed
  finally show ?thesis .
qed

text \<open>A value starts with its type byte.\<close>

lemma tag_takes:
  assumes "takes (push_value f (unpack_fuel f) t v) bs x" "0 \<le> t" "t < 8" "0 \<le> v" "v < 32"
  shows "takes (unpack_fuel (Suc f)) (tag t v @ bs) x"
proof -
  have "takes (\<lambda>rb. bindE (rb_fetch 1 rb) (\<lambda>(b, rb). push_value f (unpack_fuel f) (uint (b ! 0 AND 7)) (uint (drop_bit 3 (b ! 0))) rb))
      (tag t v @ bs) x"
    by (rule takes_bind [OF fetch_takes]) (use assms in \<open>simp_all add: tag_def tag_low tag_high\<close>)
  then show ?thesis by (rule takes_cong) simp
qed

section \<open>Reading what was written\<close>

lemma atom_takes: "takes m bs x \<Longrightarrow> takes (\<lambda>rb. push_atom (m rb) c) bs (O_atom (c x))"
  unfolding push_atom_def by (rule takes_bind_return)

lemma le64_takes: "takes (\<lambda>rb. bindE (rb_fetch 8 rb) (\<lambda>(bs, rb). Inr (of_nat (le_nat bs), rb))) (le_bytes 8 (unat v)) v" for v :: u64
proof -
  have "unat v < 256 ^ 8" using unsigned_less [of v] by simp
  then have "(of_nat (le_nat (le_bytes 8 (unat v))) :: u64) = v" by (simp add: le_nat_bytes)
  with takes_bind_return [OF fetch_takes, of "le_bytes 8 (unat v)" 8 "\<lambda>bs. of_nat (le_nat bs) :: u64"] show ?thesis by simp
qed

lemma low_word: "(of_nat (nat (x mod 2 ^ 32)) :: u32) = word_of_int x"
  by (simp add: word_of_int_eq_iff take_bit_eq_mod)

text \<open>The bytes of an integer after its type byte.\<close>

lemma integer_takes:
  obtains c bs where "integer_bytes v = tag 2 c @ bs" "takes (get_integer c) bs v" "0 \<le> c" "c < 8"
proof -
  let ?x = "sint v"
  have small: "\<exists>c bs. integer_bytes v = tag 2 c @ bs \<and> takes (get_integer c) bs v \<and> 0 \<le> c \<and> c < 8"
    if "integer_bytes v = tag 2 c @ le_bytes k n" "0 \<le> c" "c < 8" "n < 256 ^ k"
      "\<And>rb. get_integer c rb = bindE (rb_fetch k rb) (\<lambda>(bs, rb). Inr (g (le_nat bs), rb))" "g n = v" for c k n g
    using takes_bind_return [OF fetch_takes, of "le_bytes k n" k "\<lambda>bs. g (le_nat bs)"] that
    by (intro exI [of _ c] exI [of _ "le_bytes k n"]) (auto simp: le_nat_bytes intro: takes_cong)
  have v: "v = word_of_int ?x" by simp
  consider "?x = 0" | "?x < - (2 ^ 31) \<or> 2 ^ 31 \<le> ?x" | "0 < ?x" "?x < 2 ^ 8" | "2 ^ 8 \<le> ?x" "?x < 2 ^ 16"
    | "?x \<noteq> 0" "- (2 ^ 31) \<le> ?x" "?x < 2 ^ 31" "\<not> (0 < ?x \<and> ?x < 2 ^ 16)" by linarith
  then have "\<exists>c bs. integer_bytes v = tag 2 c @ bs \<and> takes (get_integer c) bs v \<and> 0 \<le> c \<and> c < 8"
  proof cases
    case 1
    then have "v = 0" using v by simp
    then show ?thesis using takes_return [of 0]
      by (intro exI [of _ 0] exI [of _ "[]"]) (simp add: integer_bytes_def get_integer_def [abs_def] type_defs)
  next
    case 2
    then show ?thesis
      by (intro small [of 6 8 "unat v" of_nat])
        (use unsigned_less [of v] in \<open>auto simp: integer_bytes_def Let_def get_integer_def type_defs\<close>)
  next
    case 3
    then show ?thesis
      by (intro small [of 1 1 "nat ?x" of_nat]) (auto simp: integer_bytes_def Let_def get_integer_def type_defs nat_less_iff)
  next
    case 4
    then show ?thesis
      by (intro small [of 2 2 "nat ?x" of_nat]) (auto simp: integer_bytes_def Let_def get_integer_def type_defs nat_less_iff)
  next
    case 5
    let ?n = "nat (?x mod 2 ^ 32)"
    have "(of_nat ?n :: u32) = word_of_int ?x" by (rule low_word)
    then have "sint (of_nat ?n :: u32) = ?x"
      using 5 by (simp only: signed_of_int) (simp add: signed_take_bit_int_eq_self)
    then have "word_of_int (sint (of_nat ?n :: u32)) = v" by simp
    with 5 show ?thesis
      by (intro small [of 4 4 ?n "\<lambda>n. word_of_int (sint (of_nat n :: u32))"])
        (auto simp: integer_bytes_def Let_def get_integer_def type_defs nat_less_iff)
  qed
  then show ?thesis using that by blast
qed

lemma string_takes:
  assumes "n = 2 \<and> length s < 2 ^ 16 \<or> n = 4 \<and> length s < 2 ^ 31"
  shows "takes (long_string n) (le_bytes n (length s) @ s) (O_atom (LString s))"
proof -
  have l: "le_nat (le_bytes n (length s)) = length s" using assms by (intro le_nat_bytes) auto
  have "takes (\<lambda>rb. bindE (rb_fetch n rb) (\<lambda>(bs, rb).
      push_atom (get_buffer (if n = 2 then int (le_nat bs) else sint (of_nat (le_nat bs) :: u32)) rb) LString))
      (le_bytes n (length s) @ s) (O_atom (LString s))"
  proof (rule takes_bind [OF fetch_takes])
    show "takes (\<lambda>rb. push_atom (get_buffer (if n = 2 then int (le_nat (le_bytes n (length s)))
        else sint (of_nat (le_nat (le_bytes n (length s))) :: u32)) rb) LString) s (O_atom (LString s))"
      unfolding l using atom_takes [OF buffer_takes [of s], where c = LString] signed_small [of "length s"] assms by auto
  qed simp
  then show ?thesis by (rule takes_cong) (simp add: long_string_def)
qed

lemma atom_reads:
  assumes "atom_bytes a = Inr bs"
  shows "takes (unpack_fuel (Suc f)) bs (O_atom a)"
proof -
  have tag: "takes (unpack_fuel (Suc f)) (tag t c @ cs) x"
    if "takes g cs x" "\<And>rb. push_value f (unpack_fuel f) t c rb = g rb" "0 \<le> t" "t < 8" "0 \<le> c" "c < 32" for t c cs x g
    using that by (intro tag_takes takes_cong [OF that(1)])
  note pv = push_value_def type_defs
  show ?thesis
  proof (cases a)
    case LNil
    then show ?thesis using assms tag [OF takes_return, of 0 0 "O_atom LNil"] by (simp add: atom_bytes_def pv)
  next
    case (LBoolean v)
    then show ?thesis using assms tag [OF takes_return, of 1 "if v then 1 else 0" "O_atom (LBoolean v)"]
      by (simp add: atom_bytes_def pv split: if_splits)
  next
    case (LInteger v)
    obtain c cs where c: "integer_bytes v = tag 2 c @ cs" "takes (get_integer c) cs v" "0 \<le> c" "c < 8" by (rule integer_takes)
    then show ?thesis using LInteger assms tag [OF atom_takes [OF c(2), where c = LInteger], of 2 c] by (simp add: atom_bytes_def pv)
  next
    case (LReal v)
    then show ?thesis using assms tag [OF atom_takes [OF le64_takes, where c = LReal], of 2 8 v] by (simp add: atom_bytes_def pv get_real_def)
  next
    case (LUserdata v)
    then show ?thesis using assms tag [OF atom_takes [OF le64_takes, where c = LUserdata], of 3 0 v] by (simp add: atom_bytes_def pv get_pointer_def)
  next
    case (LString s)
    have "takes (unpack_fuel (Suc f)) (tag 4 (int (length s)) @ s) (O_atom (LString s))" if "length s < 32"
      using that by (intro tag [OF atom_takes [OF buffer_takes, where c = LString]]) (simp_all add: pv)
    moreover have "takes (unpack_fuel (Suc f)) (tag 5 (int n) @ le_bytes n (length s) @ s) (O_atom (LString s))"
      if "n = 2 \<and> length s < 2 ^ 16 \<or> n = 4 \<and> length s < 2 ^ 31" for n
      using that by (intro tag [OF string_takes [OF that]]) (auto simp: pv)
    ultimately show ?thesis using LString assms [unfolded LString atom_bytes_def Let_def]
      by (auto split: if_splits) (metis (mono_tags) of_nat_numeral)+
  qed
qed

section \<open>Tables\<close>

text \<open>The values that can be sent, as far as their shape goes: a key of a table is neither nil nor
  not a number. (A key that is nil ends the iteration of \<open>__pairs\<close>.)\<close>

definition key_ok :: "lua_value \<Rightarrow> bool" where
  "key_ok k = (case k of Atom (LReal r) \<Rightarrow> \<not> is_nan r | _ \<Rightarrow> True)"

inductive wf_value :: "lua_value \<Rightarrow> bool" where
  wf_atom: "wf_value (Atom a)"
| wf_table: "(\<And>k v. (k, v) \<in> set kvs \<Longrightarrow> k \<noteq> Atom LNil \<and> key_ok k \<and> wf_value k \<and> wf_value v) \<Longrightarrow> wf_value (Table n kvs None)"
| wf_meta: "(\<And>k v. (k, v) \<in> set ps \<Longrightarrow> key_ok k \<and> wf_value k \<and> wf_value v) \<Longrightarrow> wf_value (Table n kvs (Some (ps, raises)))"

inductive_simps wf_simps: "wf_value (Atom a)" "wf_value (Table n kvs None)" "wf_value (Table n kvs (Some (ps, raises)))" "wf_value (Other ty)"

lemma rawgeti_cases: "rawgeti kvs i = Atom LNil \<or> (\<exists>k. (k, rawgeti kvs i) \<in> set kvs)"
  by (auto simp: rawgeti_def find_Some_iff split: option.splits) (metis nth_mem)

lemma size_pair: "(k, v) \<in> set ps \<Longrightarrow> size k < size_list (size_prod size size) ps \<and> size v < size_list (size_prod size size) ps"
  by (induction ps) auto

lemma rawgeti_size [simp]: "size (rawgeti kvs i) < Suc (Suc (size_list (size_prod size size) kvs))"
  using rawgeti_cases [of kvs i] size_pair [of _ _ kvs] by (auto intro: less_SucI)

lemma size_iterated: "(k, v) \<in> set (iterated ps) \<Longrightarrow> size k < size_list (size_prod size size) ps \<and> size v < size_list (size_prod size size) ps"
  by (auto simp: iterated_def dest: set_takeWhileD size_pair)

lemma size_hash_part: "(k, v) \<in> set (hash_part n kvs) \<Longrightarrow> size k < size_list (size_prod size size) kvs \<and> size v < size_list (size_prod size size) kvs"
  by (auto simp: hash_part_def dest: size_pair)

text \<open>What a value is on the other side.\<close>

function as_read :: "lua_value \<Rightarrow> lua_out" where
  "as_read (Atom a) = O_atom a"
| "as_read (Table n kvs None) =
     O_table (map (\<lambda>i. (O_atom (LInteger (of_nat i)), as_read (rawgeti kvs i))) [1..<n + 1]
              @ map (\<lambda>(k, v). (as_read k, as_read v)) (hash_part n kvs))"
| "as_read (Table n kvs (Some (ps, raises))) = O_table (map (\<lambda>(k, v). (as_read k, as_read v)) (iterated ps))"
| "as_read (Other ty) = O_table []"
  by pat_completeness auto
termination
  by (relation "measure size") (auto dest!: size_iterated size_hash_part)

lemma size_takes:
  assumes "n < 2 ^ 31"
  obtains c cs where "size_bytes n = tag 6 c @ cs" "0 \<le> c" "c < 32" "takes (table_size c) cs (int n)"
proof (cases "n < 31")
  case True
  then show ?thesis using takes_return [of "int n"] by (intro that [of "int n" "[]"]) (simp_all add: size_bytes_def table_size_def [abs_def] type_defs)
next
  case False
  obtain c cs where c: "integer_bytes (of_nat n) = tag 2 c @ cs" "takes (get_integer c) cs (of_nat n)" "0 \<le> c" "c < 8"
    by (rule integer_takes)
  let ?rest = "\<lambda>t rb. let cookie = uint (drop_bit 3 (t ! 0)) in
        if uint (t ! 0 AND 7) \<noteq> TYPE_NUMBER \<or> cookie = TYPE_NUMBER_REAL then Inl (InvalidStream (rb_len rb))
        else bindE (get_integer cookie rb) (\<lambda>(n, rb). Inr (sint (ucast n :: u32), rb))"
  have "sint (ucast (of_nat n :: u64) :: u32) = int n" using signed_small [OF assms] assms
    by (simp add: unsigned_of_nat take_bit_nat_eq_self)
  with takes_bind_return [OF c(2), of "\<lambda>n. sint (ucast n :: u32)"] c(3,4)
  have "takes (?rest (tag 2 c)) cs (int n)" by (simp add: tag_def tag_low tag_high type_defs)
  from takes_bind [of "rb_fetch 1" "tag 2 c" "tag 2 c" ?rest, OF fetch_takes this] have "takes (table_size 31) (tag 2 c @ cs) (int n)"
    by (rule takes_cong) (simp_all add: table_size_def type_defs tag_def)
  then show ?thesis using False c(1) by (intro that [of 31]) (simp_all add: size_bytes_def)
qed

lemma as_read_key: "wf_value k \<Longrightarrow> k \<noteq> Atom LNil \<Longrightarrow> key_ok k \<Longrightarrow> as_read k \<noteq> O_atom LNil \<and> \<not> nan_key (as_read k)"
  by (cases k rule: as_read.cases) (auto simp: wf_simps nan_key_def key_ok_def split: lua_atom.splits)

text \<open>What the loops of \<open>unpack_table\<close> need of the function for the elements: it reads the bytes of an
  element of at most \<open>m\<close> bytes.\<close>

locale element_reader =
  fixes un :: reader and enc :: "lua_value \<Rightarrow> seri_error + bytes" and m :: nat
  assumes un_takes: "wf_value v \<Longrightarrow> enc v = Inr bs \<Longrightarrow> length bs \<le> m \<Longrightarrow> takes un bs (as_read v)"
    and nil_takes: "0 < m \<Longrightarrow> takes un (tag 0 0) (O_atom LNil)"
    and enc_pos: "enc v = Inr bs \<Longrightarrow> bs \<noteq> []"
begin

lemma items_takes:
  "cats (map (\<lambda>j. enc (rawgeti kvs j)) [i..<i + n]) = Inr bs \<Longrightarrow> length bs \<le> m \<Longrightarrow> \<forall>j. wf_value (rawgeti kvs j) \<Longrightarrow>
    takes (unpack_items un i n) bs (map (\<lambda>j. (O_atom (LInteger (of_nat j)), as_read (rawgeti kvs j))) [i..<i + n])"
proof (induction n arbitrary: i bs)
  case 0
  then show ?case using takes_return by (simp add: takes_def)
next
  case (Suc n)
  have up: "[i..<i + Suc n] = i # [Suc i..<Suc i + n]" by (simp add: upt_rec)
  from Suc.prems(1) [unfolded up] obtain p q where
    pq: "enc (rawgeti kvs i) = Inr p" "cats (map (\<lambda>j. enc (rawgeti kvs j)) [Suc i..<Suc i + n]) = Inr q" "bs = p @ q"
    by (auto simp: catE_Inr)
  have "takes un p (as_read (rawgeti kvs i))" using Suc.prems pq by (intro un_takes) auto
  moreover have "takes (unpack_items un (Suc i) n) q (map (\<lambda>j. (O_atom (LInteger (of_nat j)), as_read (rawgeti kvs j))) [Suc i..<Suc i + n])"
    using Suc.prems pq by (intro Suc.IH) auto
  ultimately have "takes (\<lambda>rb. bindE (un rb) (\<lambda>(v, rb). bindE (unpack_items un (Suc i) n rb) (\<lambda>(w, rb).
      Inr ((O_atom (LInteger (of_nat i)), v) # w, rb)))) (p @ q) (map (\<lambda>j. (O_atom (LInteger (of_nat j)), as_read (rawgeti kvs j))) [i..<i + Suc n])"
    unfolding up list.map by (rule takes_bind_two)
  then show ?case unfolding pq(3) by (rule takes_cong) simp
qed

lemma pairs_takes:
  "pair_bytes enc ps = Inr bs \<Longrightarrow> length bs < m \<Longrightarrow> length ps < f \<Longrightarrow>
     \<forall>(k, v)\<in>set ps. k \<noteq> Atom LNil \<and> key_ok k \<and> wf_value k \<and> wf_value v \<Longrightarrow>
     takes (unpack_pairs f un) (bs @ tag 0 0) (map (\<lambda>(k, v). (as_read k, as_read v)) ps)"
proof (induction ps arbitrary: bs f)
  let ?body = "\<lambda>f k rb. if k = O_atom LNil then Inr ([], rb) else bindE (un rb) (\<lambda>(v, rb).
      if nan_key k then Inl IndexNaN else bindE (unpack_pairs f un rb) (\<lambda>(kvs, rb). Inr ((k, v) # kvs, rb)))"
  {
    case Nil
    then obtain g where f: "f = Suc g" by (cases f) auto
    have "takes (?body g (O_atom LNil)) [] []" using takes_return by (simp add: takes_def)
    from takes_bind [of un "tag 0 0" "O_atom LNil" "?body g", OF nil_takes this] Nil
    have "takes (\<lambda>rb. bindE (un rb) (\<lambda>(k, rb). ?body g k rb)) (bs @ tag 0 0) []" by (simp add: pair_bytes_def)
    then show ?case unfolding f list.map by (rule takes_cong) simp
  next
    case (Cons kv ps)
    obtain k v where kv: "kv = (k, v)" by (cases kv)
    obtain g where f: "f = Suc g" using Cons.prems(3) by (cases f) auto
    from Cons.prems(1) obtain p q r where
      b: "enc k = Inr p" "enc v = Inr q" "pair_bytes enc ps = Inr r" "bs = p @ q @ r" by (auto simp: kv pair_bytes_def catE_Inr)
    have k: "as_read k \<noteq> O_atom LNil" "\<not> nan_key (as_read k)" using Cons.prems(4) as_read_key [of k] by (auto simp: kv)
    have "takes un q (as_read v)" using b Cons.prems by (intro un_takes) (auto simp: kv)
    moreover have "takes (unpack_pairs g un) (r @ tag 0 0) (map (\<lambda>(k, v). (as_read k, as_read v)) ps)"
      using b Cons.prems f by (intro Cons.IH) auto
    ultimately have "takes (\<lambda>rb. bindE (un rb) (\<lambda>(v, rb). bindE (unpack_pairs g un rb) (\<lambda>(kvs, rb). Inr ((as_read k, v) # kvs, rb))))
        (q @ r @ tag 0 0) (map (\<lambda>(k, v). (as_read k, as_read v)) (kv # ps))"
      unfolding kv list.map prod.case by (rule takes_bind_two)
    then have "takes (?body g (as_read k)) (q @ r @ tag 0 0) (map (\<lambda>(k, v). (as_read k, as_read v)) (kv # ps))" using k by simp
    moreover have "takes un p (as_read k)" using b Cons.prems by (intro un_takes) (auto simp: kv)
    ultimately have "takes (\<lambda>rb. bindE (un rb) (\<lambda>(k, rb). ?body g k rb)) (p @ q @ r @ tag 0 0) (map (\<lambda>(k, v). (as_read k, as_read v)) (kv # ps))"
      by (intro takes_bind [of un p "as_read k" "?body g"])
    then show ?case unfolding f b(4) append_assoc by (rule takes_cong) simp
  }
qed

lemma pair_bytes_length: "pair_bytes enc ps = Inr bs \<Longrightarrow> 2 * length ps \<le> length bs"
proof (induction ps arbitrary: bs)
  case (Cons kv ps)
  obtain k v where kv: "kv = (k, v)" by (cases kv)
  from Cons.prems obtain p q r where "enc k = Inr p" "enc v = Inr q" "pair_bytes enc ps = Inr r" "bs = p @ q @ r"
    by (auto simp: kv pair_bytes_def catE_Inr)
  then show ?case using enc_pos [of k p] enc_pos [of v q] Cons.IH [of r]
    by (cases p; cases q) auto
qed simp

lemma unpack_table_takes:
  assumes "takes (table_size c) cs (int n)" "takes (unpack_items un 1 n) is items" "takes (unpack_pairs f un) ps pairs"
  shows "takes (unpack_table f un c) (cs @ is @ ps) (O_table (items @ pairs))"
proof -
  let ?g = "\<lambda>sz rb. bindE (unpack_items un 1 (nat sz) rb) (\<lambda>(items, rb).
     bindE (unpack_pairs f un rb) (\<lambda>(pairs, rb). Inr (O_table (items @ pairs), rb)))"
  have "takes (?g (int n)) (is @ ps) (O_table (items @ pairs))"
    using takes_bind_two [OF assms(2,3), of "\<lambda>items pairs. O_table (items @ pairs)"] by simp
  from takes_bind [of _ _ _ ?g, OF assms(1) this] show ?thesis by (rule takes_cong) (simp add: unpack_table_def)
qed

lemma table_takes:
  assumes "table_bytes enc n kvs meta = Inr bs" "length bs \<le> Suc m" "wf_value (Table n kvs meta)"
  shows "\<exists>c cs. bs = tag 6 c @ cs \<and> 0 \<le> c \<and> c < 32 \<and> takes (unpack_table m un c) cs (as_read (Table n kvs meta))"
proof (cases meta)
  case None
  then have n: "n < 2 ^ 31" using assms(1) by (auto simp: table_bytes_def split: if_splits)
  have wf: "\<forall>(k, v)\<in>set kvs. k \<noteq> Atom LNil \<and> key_ok k \<and> wf_value k \<and> wf_value v"
    using assms(3) by (auto simp: None wf_simps)
  obtain c cs where c: "size_bytes n = tag 6 c @ cs" "0 \<le> c" "c < 32" "takes (table_size c) cs (int n)"
    using size_takes [OF n] by blast
  from assms(1) n None obtain p q where
    b: "cats (map (\<lambda>i. enc (rawgeti kvs i)) [1..<1 + n]) = Inr p" "pair_bytes enc (hash_part n kvs) = Inr q"
    "bs = tag 6 c @ cs @ p @ q @ tag 0 0"
    by (auto simp: table_bytes_def catE_Inr c(1) simp del: upt_Suc)
  have "length p + length q < m" using assms(2) by (simp add: b(3) tag_def)
  moreover have "wf_value (rawgeti kvs j)" for j using rawgeti_cases [of kvs j] wf by (auto simp: wf_simps)
  ultimately have "takes (unpack_items un 1 n) p (map (\<lambda>j. (O_atom (LInteger (of_nat j)), as_read (rawgeti kvs j))) [1..<1 + n])"
    "takes (unpack_pairs m un) (q @ tag 0 0) (map (\<lambda>(k, v). (as_read k, as_read v)) (hash_part n kvs))"
    using items_takes [OF b(1)] pairs_takes [OF b(2), of m] pair_bytes_length [OF b(2)] wf by (auto simp: hash_part_def)
  from unpack_table_takes [OF c(4) this] show ?thesis using b(3) c(2,3) None by (auto simp del: upt_Suc)
next
  case (Some pr)
  obtain ps raises where meta: "meta = Some (ps, raises)" using Some by (cases pr) auto
  from assms(1) obtain q where b: "pair_bytes enc (iterated ps) = Inr q" "bs = tag 6 0 @ q @ tag 0 0"
    by (auto simp: meta table_bytes_def catE_Inr split: if_splits)
  have "\<forall>(k, v)\<in>set (iterated ps). k \<noteq> Atom LNil \<and> key_ok k \<and> wf_value k \<and> wf_value v"
    using assms(3) by (auto simp: meta wf_simps iterated_def dest: set_takeWhileD)
  then have "takes (unpack_pairs m un) (q @ tag 0 0) (map (\<lambda>(k, v). (as_read k, as_read v)) (iterated ps))"
    using assms(2) pair_bytes_length [OF b(1)] by (intro pairs_takes [OF b(1)]) (auto simp: b(2) tag_def)
  moreover have "takes (unpack_items un 1 0) [] []" using takes_return by (simp add: takes_def)
  moreover have "takes (table_size 0) [] (int 0)" using takes_return [of "int 0"] by (simp add: table_size_def [abs_def] type_defs)
  ultimately show ?thesis using unpack_table_takes [of 0 "[]" 0 "[]" "[]"] b(2) meta by fastforce
qed

end

lemma value_bytes_pos: "value_bytes r v = Inr bs \<Longrightarrow> bs \<noteq> []"
proof (cases r)
  case (Suc r')
  assume "value_bytes r v = Inr bs"
  then show ?thesis using Suc
    by (cases v) (auto simp: atom_bytes_def integer_bytes_def table_bytes_def size_bytes_def tag_def Let_def catE_Inr
        split: lua_atom.splits if_splits option.splits)
qed simp

lemma nil_reads: "0 < g \<Longrightarrow> takes (unpack_fuel g) (tag 0 0) (O_atom LNil)"
  using atom_reads [of LNil "tag 0 0" "g - 1"] by (cases g) (simp_all add: atom_bytes_def)

lemma value_takes:
  "wf_value v \<Longrightarrow> value_bytes r v = Inr bs \<Longrightarrow> length bs \<le> f \<Longrightarrow> takes (unpack_fuel f) bs (as_read v)"
proof (induction r arbitrary: v bs f)
  case (Suc r)
  obtain g where f: "f = Suc g" using value_bytes_pos [OF Suc.prems(2)] Suc.prems(3) by (cases f) auto
  show ?case
  proof (cases v)
    case (Atom a)
    then show ?thesis using Suc.prems(2) atom_reads [of a bs g] by (simp add: f del: unpack_fuel.simps)
  next
    case (Table n kvs meta)
    have "element_reader (unpack_fuel g) (value_bytes r) g"
      using Suc.IH value_bytes_pos nil_reads by unfold_locales auto
    from element_reader.table_takes [OF this, of n kvs meta bs] Suc.prems Table f obtain c cs where
      c: "bs = tag 6 c @ cs" "0 \<le> c" "c < 32" "takes (unpack_table g (unpack_fuel g) c) cs (as_read v)" by auto
    have "takes (push_value g (unpack_fuel g) 6 c) cs (as_read v)"
      using c(4) by (rule takes_cong) (simp add: push_value_def type_defs)
    from tag_takes [OF this] show ?thesis using c f by (simp del: unpack_fuel.simps)
  qed (use Suc.prems in simp)
qed simp

interpretation element: element_reader "unpack_fuel g" "value_bytes r" g for g r
  using value_takes value_bytes_pos nil_reads by unfold_locales auto

section \<open>Messages\<close>

lemma unpack_loop_values:
  "\<forall>v\<in>set vs. wf_value v \<Longrightarrow> message_bytes vs = Inr bs \<Longrightarrow> rb_ok rb \<Longrightarrow> rest rb = bs \<Longrightarrow> length bs < f \<Longrightarrow>
     unpack_loop f rb = Inr (map as_read vs)"
proof (induction vs arbitrary: bs rb f)
  case Nil
  then obtain g where "f = Suc g" by (cases f) auto
  moreover have "rb_read rb 1 = None" using Nil length_rest [of rb] by (simp add: message_bytes_def rb_read_def)
  ultimately show ?case by simp
next
  case (Cons v vs)
  obtain g where f: "f = Suc g" using Cons.prems(5) by (cases f) auto
  from Cons.prems(2) obtain p q where b: "value_bytes 33 v = Inr p" "message_bytes vs = Inr q" "bs = p @ q"
    by (auto simp: message_bytes_def catE_Inr)
  have "takes (unpack_fuel (Suc g)) p (as_read v)" using Cons.prems b f by (intro value_takes [of v 33]) auto
  then obtain rb' where rb': "unpack_fuel (Suc g) rb = Inr (as_read v, rb')" "rb_ok rb'" "rest rb' = q"
    using Cons.prems(3,4) b(3) unfolding takes_def by blast
  have "p \<noteq> []" by (rule value_bytes_pos [OF b(1)])
  then have "rb_read rb 1 \<noteq> None" using Cons.prems(3,4) b(3) length_rest [of rb] by (cases p) (auto simp: rb_read_def)
  moreover have "length q < g" using Cons.prems(5) \<open>p \<noteq> []\<close> by (cases p) (simp_all add: b(3) f)
  then have "unpack_loop g rb' = Inr (map as_read vs)" using Cons.prems b rb' by (intro Cons.IH) auto
  ultimately show ?case using rb'(1) by (auto simp: f bindE_def split: sum.splits)
qed

lemma init_ok [simp]: "rb_ok (rball_init bs (int (length bs)))" "rest (rball_init bs (int (length bs))) = bs"
  by (simp_all add: rb_ok_def rest_def rball_init_def)

text \<open>The two ways a message is passed.\<close>

definition passed :: "bytes \<Rightarrow> seri_argument \<Rightarrow> bool" where
  "passed bs arg \<longleftrightarrow> arg = StringArg bs \<or> arg = PointerArg (Some bs) (of_nat (length bs))"

lemma luaseri_unpack_passed:
  assumes "passed bs arg" "length bs < 2 ^ 31"
  shows "luaseri_unpack arg = (if bs = [] then Inr [] else unpack_loop (length bs + 1) (rball_init bs (int (length bs))))"
proof -
  have "(ucast (of_nat (length bs) :: u64) :: u32) = of_nat (length bs)"
    using assms(2) by (simp add: unsigned_of_nat take_bit_nat_eq_self)
  then show ?thesis using assms signed_small [OF assms(2)] by (auto simp: luaseri_unpack_def passed_def Let_def)
qed

text \<open>C24. What one service packs, another unpacks: for well-formed values the reference encoding
  of which is below two gigabytes, packing succeeds, and unpacking the message, passed as a
  string or as a pointer with its size, gives the same values in order: the same atoms, and
  tables to which exactly the array elements and then the remaining pairs are assigned.\<close>

theorem seri_roundtrip:
  assumes "\<forall>v\<in>set vs. wf_value v" "message_bytes vs = Inr bs" "length bs < 2 ^ 31" "passed bs arg"
  shows "(\<exists>b. luaseri_pack vs = Inr (bs, b)) \<and> luaseri_unpack arg = Inr (map as_read vs)"
proof
  show "\<exists>b. luaseri_pack vs = Inr (bs, b)"
    using pack_from_follows [of vs, unfolded follows_def assms(2), simplified, rule_format, OF wb_init_ok(1)] assms(3)
    by (auto simp: luaseri_pack_def seri_content)
  show "luaseri_unpack arg = Inr (map as_read vs)"
  proof (cases "bs = []")
    case True
    then have "vs = []" using assms(2) value_bytes_pos by (cases vs) (fastforce simp: message_bytes_def catE_Inr)+
    with True show ?thesis using luaseri_unpack_passed [OF assms(4,3)] by simp
  next
    case False
    then show ?thesis using luaseri_unpack_passed [OF assms(4,3)] unpack_loop_values [OF assms(1,2) init_ok]
      by (simp del: unpack_loop.simps)
  qed
qed

lemma demo_wf: "wf_value (Table 1 demo_table None)" "\<forall>v\<in>set demo_values. wf_value v"
  by (auto simp: demo_values_def demo_table_def wf_simps key_ok_def)

theorem seri_roundtrip_witness:
  "(\<exists>b. luaseri_pack demo_values = Inr (demo_bytes, b)) \<and> luaseri_unpack (StringArg demo_bytes) = Inr (map as_read demo_values)"
  by (rule seri_roundtrip [OF demo_wf(2) demo_encoded]) (simp_all add: demo_bytes_def passed_def)

section \<open>Reading arbitrary bytes\<close>

text \<open>The type of what is read: no key of a table is nil or not a number.\<close>

inductive typed :: "lua_out \<Rightarrow> bool" where
  typed_atom: "typed (O_atom a)"
| typed_table: "(\<And>k v. (k, v) \<in> set kvs \<Longrightarrow> k \<noteq> O_atom LNil \<and> \<not> nan_key k \<and> typed k \<and> typed v) \<Longrightarrow> typed (O_table kvs)"

definition typed_pairs :: "(lua_out \<times> lua_out) list \<Rightarrow> bool" where
  "typed_pairs kvs \<longleftrightarrow> (\<forall>(k, v)\<in>set kvs. k \<noteq> O_atom LNil \<and> \<not> nan_key k \<and> typed k \<and> typed v)"

lemma typed_append: "typed_pairs xs \<Longrightarrow> typed_pairs ys \<Longrightarrow> typed (O_table (xs @ ys))"
  by (rule typed_table) (auto simp: typed_pairs_def)

text \<open>A result that is an error the code raises on purpose, or a value of the type and a read block
  that has advanced by at least \<open>n\<close> bytes.\<close>

definition safe :: "('a \<Rightarrow> bool) \<Rightarrow> nat \<Rightarrow> read_block \<Rightarrow> seri_error + ('a \<times> read_block) \<Rightarrow> bool" where
  "safe P n rb r \<longleftrightarrow> (case r of Inl e \<Rightarrow> e \<noteq> BadAccess \<and> e \<noteq> NoFuel
     | Inr (x, rb') \<Rightarrow> P x \<and> rb_ok rb' \<and> rb_len rb' + int n \<le> rb_len rb)"

lemma safe_simps [simp]:
  "safe P n rb (Inl e) \<longleftrightarrow> e \<noteq> BadAccess \<and> e \<noteq> NoFuel"
  "safe P n rb (Inr (x, rb')) \<longleftrightarrow> P x \<and> rb_ok rb' \<and> rb_len rb' + int n \<le> rb_len rb"
  by (simp_all add: safe_def)

lemma safe_bind:
  "safe P n rb r \<Longrightarrow> (\<And>x rb'. P x \<Longrightarrow> rb_ok rb' \<Longrightarrow> rb_len rb' + int n \<le> rb_len rb \<Longrightarrow> safe Q m rb' (f x rb')) \<Longrightarrow>
     safe Q (n + m) rb (bindE r (\<lambda>(x, rb'). f x rb'))"
  by (cases r) (fastforce simp: safe_def split: sum.splits)+

lemma safe_weaken: "safe P n rb r \<Longrightarrow> (\<And>x. P x \<Longrightarrow> Q x) \<Longrightarrow> m \<le> n \<Longrightarrow> safe Q m rb r"
  by (auto simp: safe_def split: sum.splits)

lemma fetch_safe: "rb_ok rb \<Longrightarrow> safe (\<lambda>bs. length bs = n) n rb (rb_fetch n rb)"
  using advance_ok [of rb n] by (auto simp: rb_fetch_ok)

lemma buffer_safe:
  assumes "rb_ok rb"
  shows "safe (\<lambda>_. True) 0 rb (get_buffer len rb)"
proof (cases "0 \<le> len")
  case True
  then have "get_buffer len rb = rb_fetch (nat len) rb" by (auto simp: get_buffer_def rb_fetch_def split: option.splits)
  then show ?thesis using safe_weaken [OF fetch_safe [OF assms]] by simp
qed (auto simp: get_buffer_def split: option.splits)

lemma number_safe: "rb_ok rb \<Longrightarrow> safe (\<lambda>_. True) 0 rb (bindE (rb_fetch n rb) (\<lambda>(bs, rb). Inr (g bs, rb)))"
  using safe_bind [OF fetch_safe, of rb n "\<lambda>_. True" 0 "\<lambda>bs rb. Inr (g bs, rb)"] by (auto intro: safe_weaken)

lemma integer_safe: "rb_ok rb \<Longrightarrow> safe (\<lambda>_. True) 0 rb (get_integer cookie rb)"
  by (simp add: get_integer_def number_safe)

lemma push_atom_safe: "safe (\<lambda>_. True) 0 rb r \<Longrightarrow> safe typed 0 rb (push_atom r c)"
  unfolding push_atom_def
  using safe_bind [of "\<lambda>_. True" 0 rb r typed 0 "\<lambda>x rb. Inr (O_atom (c x), rb)"] by (simp add: typed_atom)

lemma long_string_safe: "rb_ok rb \<Longrightarrow> safe typed 0 rb (long_string n rb)"
  unfolding long_string_def
  by (rule safe_weaken [OF safe_bind [OF fetch_safe, where Q = typed and m = 0]]) (auto intro: push_atom_safe buffer_safe)

lemma table_size_safe: "rb_ok rb \<Longrightarrow> safe (\<lambda>_. True) 0 rb (table_size c rb)"
proof -
  assume ok: "rb_ok rb"
  let ?f = "\<lambda>t rb. let cookie = uint (drop_bit 3 (t ! 0)) in
        if uint (t ! 0 AND 7) \<noteq> TYPE_NUMBER \<or> cookie = TYPE_NUMBER_REAL then Inl (InvalidStream (rb_len rb))
        else bindE (get_integer cookie rb) (\<lambda>(n, rb). Inr (sint (ucast n :: u32), rb))"
  have "safe (\<lambda>_. True) 0 rb' (?f t rb')" if "rb_ok rb'" for t rb'
    using safe_bind [OF integer_safe [OF that], where Q = "\<lambda>_. True" and m = 0 and f = "\<lambda>n rb. Inr (sint (ucast n :: u32), rb)"]
    by (simp add: Let_def)
  then have "safe (\<lambda>_. True) (1 + 0) rb (bindE (rb_fetch 1 rb) (\<lambda>(t, rb). ?f t rb))"
    by (intro safe_bind [OF fetch_safe [OF ok]])
  then show ?thesis using ok by (auto simp: table_size_def intro: safe_weaken)
qed

locale safe_reader =
  fixes un :: reader and m :: nat
  assumes un_safe: "rb_ok rb \<Longrightarrow> rb_len rb < int m \<Longrightarrow> safe typed 1 rb (un rb)"
begin

lemma items_safe: "rb_ok rb \<Longrightarrow> rb_len rb < int m \<Longrightarrow> safe typed_pairs 0 rb (unpack_items un i n rb)"
proof (induction n arbitrary: i rb)
  case (Suc n)
  let ?c = "\<lambda>v kvs. (O_atom (LInteger (of_nat i)), v) # kvs"
  have "safe typed_pairs 0 rb' (bindE (unpack_items un (i + 1) n rb') (\<lambda>(kvs, rb). Inr (?c v kvs, rb)))"
    if "typed v" "rb_ok rb'" "rb_len rb' < int m" for v rb'
    using safe_bind [OF Suc.IH [OF that(2,3)], where Q = typed_pairs and m = 0 and f = "\<lambda>kvs rb. Inr (?c v kvs, rb)"] that(1)
    by (simp add: typed_pairs_def nan_key_def typed_atom)
  then have "safe typed_pairs (1 + 0) rb (bindE (un rb) (\<lambda>(v, rb). bindE (unpack_items un (i + 1) n rb) (\<lambda>(kvs, rb). Inr (?c v kvs, rb))))"
    using Suc.prems by (intro safe_bind [OF un_safe]) auto
  then show ?case by (auto intro: safe_weaken)
qed (simp add: typed_pairs_def)

lemma pairs_safe: "rb_ok rb \<Longrightarrow> rb_len rb < int m \<Longrightarrow> rb_len rb < int f \<Longrightarrow> safe typed_pairs 0 rb (unpack_pairs f un rb)"
proof (induction f arbitrary: rb)
  case 0
  then show ?case by (simp add: rb_ok_def)
next
  case (Suc f)
  have rec: "safe typed_pairs 0 rb' (bindE (unpack_pairs f un rb') (\<lambda>(kvs, rb). Inr ((k, v) # kvs, rb)))"
    if "typed k" "k \<noteq> O_atom LNil" "\<not> nan_key k" "typed v" "rb_ok rb'" "rb_len rb' < int m" "rb_len rb' < int f" for k v rb'
    using safe_bind [OF Suc.IH [OF that(5-7)], where Q = typed_pairs and m = 0 and f = "\<lambda>kvs rb. Inr ((k, v) # kvs, rb)"] that(1-4)
    by (simp add: typed_pairs_def)
  let ?g = "\<lambda>k v rb. if nan_key k then Inl IndexNaN else bindE (unpack_pairs f un rb) (\<lambda>(kvs, rb). Inr ((k, v) # kvs, rb))"
  have "safe typed_pairs 0 rb' (bindE (un rb') (\<lambda>(v, rb). ?g k v rb))"
    if "typed k" "k \<noteq> O_atom LNil" "rb_ok rb'" "rb_len rb' < int m" "rb_len rb' < int f" for k rb'
  proof (rule safe_weaken)
    show "safe typed_pairs (1 + 0) rb' (bindE (un rb') (\<lambda>(v, rb). ?g k v rb))"
      using rec that by (intro safe_bind [OF un_safe]) auto
  qed simp_all
  then have "safe typed_pairs (1 + 0) rb (bindE (un rb) (\<lambda>(k, rb). if k = O_atom LNil then Inr ([], rb) else bindE (un rb) (\<lambda>(v, rb). ?g k v rb)))"
    using Suc.prems by (intro safe_bind [OF un_safe]) (auto simp: typed_pairs_def)
  then show ?case by (auto intro: safe_weaken)
qed

lemma table_safe:
  assumes "rb_ok rb" "rb_len rb < int m" "m \<le> f"
  shows "safe typed 0 rb (unpack_table f un c rb)"
proof -
  have pairs: "safe typed 0 rb' (bindE (unpack_pairs f un rb') (\<lambda>(pairs, rb). Inr (O_table (items @ pairs), rb)))"
    if "typed_pairs items" "rb_ok rb'" "rb_len rb' < int m" for items rb'
    using safe_bind [OF pairs_safe [of rb' f], where Q = typed and m = 0 and f = "\<lambda>pairs rb. Inr (O_table (items @ pairs), rb)"] that assms(3)
    by (simp add: typed_append)
  have items: "safe typed 0 rb' (bindE (unpack_items un 1 (nat n) rb') (\<lambda>(items, rb).
      bindE (unpack_pairs f un rb) (\<lambda>(pairs, rb). Inr (O_table (items @ pairs), rb))))"
    if "rb_ok rb'" "rb_len rb' < int m" for n rb'
    using safe_bind [OF items_safe [OF that], where Q = typed and m = 0
        and f = "\<lambda>items rb. bindE (unpack_pairs f un rb) (\<lambda>(pairs, rb). Inr (O_table (items @ pairs), rb))"] pairs that by auto
  show ?thesis unfolding unpack_table_def
    using safe_bind [OF table_size_safe [OF assms(1)], where Q = typed and m = 0 and f = "\<lambda>n rb. bindE (unpack_items un 1 (nat n) rb) (\<lambda>(items, rb).
      bindE (unpack_pairs f un rb) (\<lambda>(pairs, rb). Inr (O_table (items @ pairs), rb)))"] items assms(2) by auto
qed

lemma push_value_safe:
  assumes "rb_ok rb" "rb_len rb < int m" "m \<le> f"
  shows "safe typed 0 rb (push_value f un t c rb)"
  using table_safe [OF assms] assms(1)
  by (auto simp: push_value_def get_real_def get_pointer_def typed_atom intro!: push_atom_safe number_safe integer_safe
      buffer_safe long_string_safe)

end

lemma unpack_fuel_safe: "rb_ok rb \<Longrightarrow> rb_len rb < int f \<Longrightarrow> safe typed 1 rb (unpack_fuel f rb)"
proof (induction f arbitrary: rb)
  case 0
  then show ?case by (simp add: rb_ok_def)
next
  case (Suc f)
  note push = safe_reader.push_value_safe [OF safe_reader.intro [OF Suc.IH]]
  have "safe typed (1 + 0) rb (bindE (rb_fetch 1 rb) (\<lambda>(t, rb).
      push_value f (unpack_fuel f) (uint (t ! 0 AND 7)) (uint (drop_bit 3 (t ! 0))) rb))"
    using Suc.prems(2) by (intro safe_bind [OF fetch_safe [OF Suc.prems(1)]] push) auto
  then show ?case by simp
qed

interpretation reader: safe_reader "unpack_fuel f" f for f
  by unfold_locales (rule unpack_fuel_safe)

lemma unpack_loop_safe:
  "rb_ok rb \<Longrightarrow> rb_len rb < int f \<Longrightarrow>
     (case unpack_loop f rb of Inl e \<Rightarrow> e \<noteq> BadAccess \<and> e \<noteq> NoFuel | Inr vs \<Rightarrow> \<forall>v\<in>set vs. typed v)"
proof (induction f arbitrary: rb)
  case 0
  then show ?case by (simp add: rb_ok_def)
next
  case (Suc f)
  show ?case
  proof (cases "rb_read rb 1 = None")
    case False
    have eq: "unpack_loop (Suc f) rb = bindE (unpack_fuel (Suc f) rb) (\<lambda>(v, rb). bindE (unpack_loop f rb) (\<lambda>vs. Inr (v # vs)))"
      using False by (auto simp: bindE_def split: sum.splits)
    from unpack_fuel_safe [OF Suc.prems] show ?thesis
    proof (cases "unpack_fuel (Suc f) rb")
      case (Inr p)
      obtain v rb' where p: "p = (v, rb')" by (cases p)
      with unpack_fuel_safe [OF Suc.prems] Inr have "typed v" "rb_ok rb'" "rb_len rb' < int f"
        using Suc.prems(2) by (auto simp del: unpack_fuel.simps)
      with Suc.IH [of rb'] show ?thesis unfolding eq Inr p
        by (auto simp: bindE_def split: sum.splits)
    qed (simp add: eq del: unpack_loop.simps unpack_fuel.simps)
  qed simp
qed

text \<open>C25. Unpacking is safe on every message: whatever the bytes are, it ends, never reads outside
  of the message, and gives either values whose tables have no key that is nil or not a number,
  or one of the errors that the code raises.\<close>

theorem unpack_safe:
  assumes "passed bs arg" "length bs < 2 ^ 31"
  shows "case luaseri_unpack arg of Inl e \<Rightarrow> e \<noteq> BadAccess \<and> e \<noteq> NoFuel | Inr vs \<Rightarrow> \<forall>v\<in>set vs. typed v"
  using unpack_loop_safe [of "rball_init bs (int (length bs))" "length bs + 1"] luaseri_unpack_passed [OF assms]
  by (simp add: rball_init_def rb_ok_def del: unpack_loop.simps)

theorem unpack_safe_witness:
  "case luaseri_unpack (StringArg [14, 9]) of Inl e \<Rightarrow> e \<noteq> BadAccess \<and> e \<noteq> NoFuel | Inr vs \<Rightarrow> \<forall>v\<in>set vs. typed v"
  by (rule unpack_safe [of "[14, 9]"]) (simp_all add: passed_def)

end
