(* ===== verification/Seri_Content.thy ===== *)
theory Seri_Content
  imports Seri_Unpack
begin

unbundle bit_operations_syntax

text \<open>
  What a table is after it was sent: reading a key of the table that the reader has built gives
  the image of what the key had in the table that was packed.
\<close>

section \<open>Reading a key\<close>

text \<open>\<open>lua_rawget\<close> on a table that is packed, and on the sequence of assignments.\<close>

definition raw_get :: "(lua_value \<times> lua_value) list \<Rightarrow> lua_value \<Rightarrow> lua_value" where
  "raw_get kvs k = (case map_of kvs k of None \<Rightarrow> Atom LNil | Some v \<Rightarrow> v)"

fun assigned :: "lua_out \<Rightarrow> lua_out \<Rightarrow> lua_out" where
  "assigned (O_table ops) k = (case map_of (rev ops) k of None \<Rightarrow> O_atom LNil | Some v \<Rightarrow> v)"
| "assigned (O_atom a) k = O_atom LNil"

lemma find_map_of: "map_of kvs k = map_option snd (find (\<lambda>(k', v). k' = k) kvs)"
  by (induction kvs) auto

lemma rawgeti_get: "rawgeti kvs i = raw_get kvs (Atom (LInteger (of_nat i)))"
  by (auto simp: rawgeti_def raw_get_def find_map_of split: option.splits)

lemma map_of_rev: "distinct (map fst xs) \<Longrightarrow> map_of (rev xs) = map_of xs"
  by (rule map_of_inject_set [THEN iffD2]) (simp_all add: rev_map [symmetric])

lemma as_read_atom: "wf_value k \<Longrightarrow> as_read k = O_atom a \<longleftrightarrow> k = Atom a"
  by (cases k rule: as_read.cases) (auto simp: wf_simps)

lemma map_of_as_read:
  "\<forall>(k, v)\<in>set ps. wf_value k \<Longrightarrow>
     map_of (map (\<lambda>(k, v). (as_read k, as_read v)) ps) (O_atom a) = map_option as_read (map_of ps (Atom a))"
  by (induction ps) (auto simp: as_read_atom dest: as_read_atom [THEN iffD1, OF _ sym])

lemma map_of_hash_part: "map_of (hash_part n kvs) k = (if in_array (int n) k then None else map_of kvs k)"
  unfolding hash_part_def by (induction kvs) auto

text \<open>The keys of the array part.\<close>

lemma array_key:
  assumes "n < 2 ^ 31"
  shows "in_array (int n) (Atom a) \<longleftrightarrow> (\<exists>i. 1 \<le> i \<and> i \<le> n \<and> a = LInteger (of_nat i))"
proof
  assume "in_array (int n) (Atom a)"
  then obtain x where x: "a = LInteger x" "0 < sint x" "sint x \<le> int n" by (auto simp: in_array_def split: lua_atom.splits)
  then have "x = of_nat (nat (sint x))" by simp
  with x show "\<exists>i. 1 \<le> i \<and> i \<le> n \<and> a = LInteger (of_nat i)" by (intro exI [of _ "nat (sint x)"]) auto
next
  assume "\<exists>i. 1 \<le> i \<and> i \<le> n \<and> a = LInteger (of_nat i)"
  then obtain i where i: "1 \<le> i" "i \<le> n" "a = LInteger (of_nat i)" by blast
  have "sint (of_nat i :: u64) = int i" using i(2) assms by (simp add: signed_of_nat signed_take_bit_int_eq_self)
  with i show "in_array (int n) (Atom a)" by (simp add: in_array_def)
qed

lemma of_nat_inj: "inj_on (\<lambda>i. of_nat i :: u64) {1..<n + 1}" if "n < 2 ^ 31"
proof (rule inj_onI)
  fix i j assume "i \<in> {1..<n + 1}" "j \<in> {1..<n + 1}" "(of_nat i :: u64) = of_nat j"
  then show "i = j" using that by (simp add: of_nat_inverse word_unat_eq_iff unat_of_nat)
qed

lemma items_distinct:
  assumes "n < 2 ^ 31"
  shows "distinct (map fst (map (\<lambda>i. (O_atom (LInteger (of_nat i)), f i)) [1..<n + 1]))"
proof -
  have "inj_on (\<lambda>i. O_atom (LInteger (of_nat i))) {1..<n + 1}" using of_nat_inj [OF assms] unfolding inj_on_def by blast
  then show ?thesis unfolding map_map comp_def fst_conv distinct_map set_upt by simp
qed

lemma items_key:
  assumes "n < 2 ^ 31" "1 \<le> i" "i \<le> n"
  shows "map_of (map (\<lambda>i. (O_atom (LInteger (of_nat i)), f i)) [1..<n + 1]) (O_atom (LInteger (of_nat i))) = Some (f i)"
proof (rule map_of_is_SomeI)
  show "distinct (map fst (map (\<lambda>i. (O_atom (LInteger (of_nat i)), f i)) [1..<n + 1]))" by (rule items_distinct [OF assms(1)])
  have "i \<in> set [1..<n + 1]" using assms(2,3) by (simp del: upt_Suc)
  then show "(O_atom (LInteger (of_nat i)), f i) \<in> set (map (\<lambda>i. (O_atom (LInteger (of_nat i)), f i)) [1..<n + 1])"
    unfolding set_map by blast
qed

lemma items_no_key:
  assumes "n < 2 ^ 31" "\<not> in_array (int n) (Atom a)"
  shows "map_of (map (\<lambda>i. (O_atom (LInteger (of_nat i)), f i)) [1..<n + 1]) (O_atom a) = None"
  using assms array_key [OF assms(1), of a] by (auto simp: map_of_eq_None_iff simp del: upt_Suc)



end
