(* ===== verification/Socket_Server.thy ===== *)
theory Socket_Server
  imports Prelude
begin

unbundle bit_operations_syntax

text \<open>
  \<^verbatim>\<open>skynet-src/socket_server.c\<close>: the thread that owns all sockets. The other threads reserve ids and
  write requests into a pipe; the socket thread takes them from the pipe, waits for events,
  reads, accepts, and writes what could not be written at once from two lists per socket.

  The operating system is the argument of the model: \<open>ss_env\<close> gives the answer to the \<open>n\<close>-th
  system call, \<open>ss_clock\<close> counts the calls and \<open>ss_trace\<close> records what was done. A call uses of
  an answer what its manual page allows: an error or a count that is at most the count asked
  for. A request in the pipe is a value of \<open>request\<close>; a write of less than \<open>PIPE_BUF\<close> bytes to a
  pipe is atomic. Memory that is sent is tracked by its address. The operations are atomic;
  where that matters, the text says so. \<open>None\<close> is a failing assertion, a call through an object
  interface that is not set, or a loop that does not end.
\<close>

section \<open>Data\<close>

definition MAX_SOCKET_P :: nat where "MAX_SOCKET_P = 16"
definition MAX_SOCKET :: nat where "MAX_SOCKET = 2 ^ MAX_SOCKET_P"
definition MAX_EVENT :: nat where "MAX_EVENT = 64"
definition MIN_READ_BUFFER :: int where "MIN_READ_BUFFER = 64"
definition UDP_ADDRESS_SIZE :: nat where "UDP_ADDRESS_SIZE = 19"
definition MAX_UDP_PACKAGE :: nat where "MAX_UDP_PACKAGE = 65535"
definition PROTOCOL_TCP :: nat where "PROTOCOL_TCP = 0"
definition PROTOCOL_UDP :: nat where "PROTOCOL_UDP = 1"
definition PROTOCOL_UDPv6 :: nat where "PROTOCOL_UDPv6 = 2"

datatype socket_type =
    SOCKET_TYPE_INVALID
  | SOCKET_TYPE_RESERVE
  | SOCKET_TYPE_PLISTEN
  | SOCKET_TYPE_LISTEN
  | SOCKET_TYPE_CONNECTING
  | SOCKET_TYPE_CONNECTED
  | SOCKET_TYPE_HALFCLOSE
  | SOCKET_TYPE_PACCEPT
  | SOCKET_TYPE_BIND

datatype priority = PRIORITY_HIGH | PRIORITY_LOW

text \<open>What is sent: memory with an address, or, for a negative size, an object of the interface
  that \<open>socket_server_userobject\<close> sets.\<close>

datatype payload = Memory nat bytes | Object nat

fun payload_addr :: "payload \<Rightarrow> nat" where
  "payload_addr (Memory a bs) = a"
| "payload_addr (Object a) = a"

text \<open>The object interface: for an object the address of its data, and the data.\<close>

type_synonym object_interface = "(nat \<Rightarrow> nat \<times> bytes) option"

text \<open>A buffer in a list: the payload, and how many of its bytes have been written. The fields
  \<open>ptr\<close> and \<open>sz\<close> follow from these.\<close>

record write_buffer =
  sb_buffer :: payload
  sb_off :: nat
  sb_udp_address :: bytes

text \<open>The union \<open>p\<close> of a socket.\<close>

datatype sock_p = P_size int | P_udp_address bytes

record socket =
  sk_opaque :: nat
  sk_high :: "write_buffer list"
  sk_low :: "write_buffer list"
  sk_wb_size :: int
  sk_fd :: int
  sk_id :: int
  sk_protocol :: nat
  sk_type :: socket_type
  sk_p :: sock_p

datatype sockaddr = V4 bytes bytes | V6 bytes bytes

datatype errno = EINTR | EAGAIN | EINPROGRESS | EMFILE | ENFILE | EOTHER nat

record event =
  ev_s :: "nat option"
  ev_read :: bool
  ev_write :: bool

text \<open>The answer of the operating system to a call: an error, or a number, bytes, an address,
  a list of addresses, events, a text, as the call has them.\<close>

record answer =
  an_err :: "errno option"
  an_num :: nat
  an_data :: bytes
  an_addr :: sockaddr
  an_addrs :: "sockaddr list"
  an_events :: "event list"
  an_text :: "cstr option"

datatype sysop =
    T_write int bytes
  | T_sendto int bytes "sockaddr option"
  | T_close int
  | T_sp_add int nat
  | T_sp_del int
  | T_sp_write int bool
  | T_free nat
  | T_object_free nat
  | T_setopt int
  | T_nonblocking int
  | T_stderr string

datatype request =
    R_start int nat
  | R_bind int int nat
  | R_listen int int nat
  | R_close int bool nat
  | R_open int nat cstr int
  | R_exit
  | R_send int priority payload
  | R_send_udp int payload bytes
  | R_setudp int bytes
  | R_setopt int int int
  | R_udp int int bool nat
  | R_unknown

text \<open>The data of a message: none, a text of the code, the text of an error number, an address in
  text form, or received bytes.\<close>

datatype sock_data = D_null | D_text string | D_strerror | D_peer cstr | D_bytes bytes

record socket_message =
  sm_id :: int
  sm_opaque :: nat
  sm_ud :: int
  sm_data :: sock_data

text \<open>The results of the functions; \<open>SR_none\<close> is -1.\<close>

datatype sock_result = SR_none | SR_data | SR_close | SR_open | SR_accept | SR_error | SR_exit | SR_udp

text \<open>\<open>ss_more\<close> is the variable of the caller that \<open>more\<close> points to: cleared when the thread waits.\<close>

record socket_server =
  ss_checkctrl :: bool
  ss_more :: bool
  ss_alloc_id :: u32
  ss_ev :: "event list"
  ss_event_index :: nat
  ss_soi :: object_interface
  ss_slot :: "nat \<Rightarrow> socket"
  ss_pipe :: "request list"
  ss_env :: "nat \<Rightarrow> answer"
  ss_clock :: nat
  ss_trace :: "sysop list"

section \<open>System calls\<close>

definition sys :: "socket_server \<Rightarrow> answer \<times> socket_server" where
  "sys ss = (ss_env ss (ss_clock ss), ss\<lparr>ss_clock := ss_clock ss + 1\<rparr>)"

definition trace :: "sysop list \<Rightarrow> socket_server \<Rightarrow> socket_server" where
  "trace ops ss = ss\<lparr>ss_trace := ss_trace ss @ ops\<rparr>"

definition put_socket :: "nat \<Rightarrow> socket \<Rightarrow> socket_server \<Rightarrow> socket_server" where
  "put_socket i s ss = ss\<lparr>ss_slot := (ss_slot ss)(i := s)\<rparr>"

text \<open>\<open>write\<close> takes some of the bytes or fails.\<close>

definition sys_write :: "int \<Rightarrow> bytes \<Rightarrow> socket_server \<Rightarrow> (errno + nat) \<times> socket_server" where
  "sys_write fd bs ss = (let (a, ss) = sys ss in (case an_err a of
     Some e \<Rightarrow> (Inl e, ss)
   | None \<Rightarrow> let n = min (an_num a) (length bs) in (Inr n, trace [T_write fd (take n bs)] ss)))"

text \<open>\<open>sendto\<close> takes a package as a whole or fails.\<close>

definition sys_sendto :: "int \<Rightarrow> bytes \<Rightarrow> sockaddr option \<Rightarrow> socket_server \<Rightarrow> (errno + nat) \<times> socket_server" where
  "sys_sendto fd bs sa ss = (let (a, ss) = sys ss in (case an_err a of
     Some e \<Rightarrow> (Inl e, ss)
   | None \<Rightarrow> (Inr (length bs), trace [T_sendto fd bs sa] ss)))"

definition sys_read :: "int \<Rightarrow> socket_server \<Rightarrow> (errno + bytes) \<times> socket_server" where
  "sys_read sz ss = (let (a, ss) = sys ss in (case an_err a of
     Some e \<Rightarrow> (Inl e, ss)
   | None \<Rightarrow> (Inr (take (nat sz) (an_data a)), ss)))"

definition sys_recvfrom :: "socket_server \<Rightarrow> (errno + bytes \<times> sockaddr) \<times> socket_server" where
  "sys_recvfrom ss = (let (a, ss) = sys ss in (case an_err a of
     Some e \<Rightarrow> (Inl e, ss)
   | None \<Rightarrow> (Inr (take MAX_UDP_PACKAGE (an_data a), an_addr a), ss)))"

text \<open>A call that fails or succeeds.\<close>

definition sys_ok :: "socket_server \<Rightarrow> bool \<times> socket_server" where
  "sys_ok ss = (let (a, ss) = sys ss in (an_err a = None, ss))"

definition sp_add :: "int \<Rightarrow> nat \<Rightarrow> socket_server \<Rightarrow> bool \<times> socket_server" where
  "sp_add fd i ss = (let (ok, ss) = sys_ok ss in (ok, if ok then trace [T_sp_add fd i] ss else ss))"

section \<open>Buffers and slots\<close>

text \<open>\<open>send_object_init\<close>: the bytes and the address they are at.\<close>

definition send_object_init :: "socket_server \<Rightarrow> payload \<Rightarrow> (nat \<times> bytes) option" where
  "send_object_init ss p = (case p of
     Memory a bs \<Rightarrow> Some (a, bs)
   | Object a \<Rightarrow> map_option (\<lambda>soi. soi a) (ss_soi ss))"

text \<open>\<open>so.free_func(buffer)\<close>, and \<open>write_buffer_free\<close>\<close>

definition free_payload :: "payload \<Rightarrow> sysop" where
  "free_payload p = (case p of Memory a bs \<Rightarrow> T_free a | Object a \<Rightarrow> T_object_free a)"

definition write_buffer_free :: "write_buffer \<Rightarrow> sysop" where
  "write_buffer_free wb = free_payload (sb_buffer wb)"

definition HASH_ID :: "int \<Rightarrow> nat" where
  "HASH_ID i = unat (word_of_int i :: u32) mod MAX_SOCKET"

text \<open>\<open>reserve_id\<close>. The slot is taken by a compare and swap of its type; here it is taken at once.\<close>

fun reserve_loop :: "nat \<Rightarrow> socket_server \<Rightarrow> int \<times> socket_server" where
  "reserve_loop 0 ss = (-1, ss)"
| "reserve_loop (Suc n) ss = (
     let v = ss_alloc_id ss + 1;
         v = (if sint v < 0 then v AND 0x7fffffff else v);
         ss = ss\<lparr>ss_alloc_id := v\<rparr>;
         i = HASH_ID (sint v);
         s = ss_slot ss i
     in if sk_type s = SOCKET_TYPE_INVALID
        then (sint v, put_socket i (s\<lparr>sk_type := SOCKET_TYPE_RESERVE, sk_id := sint v, sk_fd := -1\<rparr>) ss)
        else reserve_loop n ss)"

definition reserve_id :: "socket_server \<Rightarrow> int \<times> socket_server" where
  "reserve_id ss = reserve_loop MAX_SOCKET ss"

text \<open>\<open>socket_server_create\<close>, when the event pool and the pipe could be made. The memory of the slots
  is not initialised otherwise.\<close>

definition socket_server_create :: "(nat \<Rightarrow> answer) \<Rightarrow> (nat \<Rightarrow> socket) \<Rightarrow> socket_server" where
  "socket_server_create env mem = \<lparr>ss_checkctrl = True, ss_more = True, ss_alloc_id = 0, ss_ev = [], ss_event_index = 0, ss_soi = None,
     ss_slot = (\<lambda>i. (mem i)\<lparr>sk_type := SOCKET_TYPE_INVALID, sk_high := [], sk_low := []\<rparr>), ss_pipe = [],
     ss_env = env, ss_clock = 0, ss_trace = []\<rparr>"

definition free_wb_list :: "write_buffer list \<Rightarrow> sysop list" where
  "free_wb_list wbs = map write_buffer_free wbs"

definition force_close :: "nat \<Rightarrow> socket_server \<Rightarrow> socket_message \<Rightarrow> (socket_server \<times> socket_message) option" where
  "force_close i ss res = do {
     let s = ss_slot ss i;
     let res = \<lparr>sm_id = sk_id s, sm_opaque = sk_opaque s, sm_ud = 0, sm_data = D_null\<rparr>;
     if sk_type s = SOCKET_TYPE_INVALID then Some (ss, res)
     else do {
       assert_opt (sk_type s \<noteq> SOCKET_TYPE_RESERVE);
       let ops = free_wb_list (sk_high s) @ free_wb_list (sk_low s)
         @ (if sk_type s \<noteq> SOCKET_TYPE_PACCEPT \<and> sk_type s \<noteq> SOCKET_TYPE_PLISTEN then [T_sp_del (sk_fd s)] else [])
         @ (if sk_type s \<noteq> SOCKET_TYPE_BIND then [T_close (sk_fd s)] else []);
       Some (put_socket i (s\<lparr>sk_high := [], sk_low := [], sk_type := SOCKET_TYPE_INVALID\<rparr>) (trace ops ss), res)
     }
   }"

fun release_slots :: "nat list \<Rightarrow> socket_server \<Rightarrow> socket_message \<Rightarrow> socket_server option" where
  "release_slots [] ss dummy = Some ss"
| "release_slots (i # is) ss dummy =
     (if sk_type (ss_slot ss i) \<noteq> SOCKET_TYPE_RESERVE
      then do { (ss, dummy) \<leftarrow> force_close i ss dummy; release_slots is ss dummy }
      else release_slots is ss dummy)"

definition socket_server_release :: "socket_server \<Rightarrow> socket_message \<Rightarrow> socket_server option" where
  "socket_server_release ss dummy = release_slots [0..<MAX_SOCKET] ss dummy"

text \<open>\<open>new_fd\<close>: the result says whether there is a socket (not \<open>NULL\<close>).\<close>

definition new_fd :: "int \<Rightarrow> int \<Rightarrow> nat \<Rightarrow> nat \<Rightarrow> bool \<Rightarrow> socket_server \<Rightarrow> (bool \<times> socket_server) option" where
  "new_fd i fd protocol opaque add ss = do {
     let k = HASH_ID i;
     let s = ss_slot ss k;
     assert_opt (sk_type s = SOCKET_TYPE_RESERVE);
     let (ok, ss) = (if add then sp_add fd k ss else (True, ss));
     if \<not> ok then Some (False, put_socket k (s\<lparr>sk_type := SOCKET_TYPE_INVALID\<rparr>) ss)
     else do {
       assert_opt (sk_high s = [] \<and> sk_low s = []);
       Some (True, put_socket k (s\<lparr>sk_id := i, sk_fd := fd, sk_protocol := protocol, sk_p := P_size MIN_READ_BUFFER,
         sk_opaque := opaque, sk_wb_size := 0\<rparr>) ss)
     }
   }"

definition set_type :: "int \<Rightarrow> socket_type \<Rightarrow> socket_server \<Rightarrow> socket_server" where
  "set_type i t ss = put_socket (HASH_ID i) ((ss_slot ss (HASH_ID i))\<lparr>sk_type := t\<rparr>) ss"

text \<open>The loop over the addresses in \<open>open_socket\<close>: the socket that connects or is connecting.\<close>

fun connect_loop :: "sockaddr list \<Rightarrow> socket_server \<Rightarrow> (int \<times> bool \<times> sockaddr) option \<times> socket_server" where
  "connect_loop [] ss = (None, ss)"
| "connect_loop (ai # ais) ss = (
     let (a, ss) = sys ss in
     if an_err a \<noteq> None then connect_loop ais ss
     else
       let sock = int (an_num a);
           (c, ss) = sys (trace [T_setopt sock, T_nonblocking sock] ss)
       in (case an_err c of
             None \<Rightarrow> (Some (sock, True, ai), ss)
           | Some e \<Rightarrow> if e = EINPROGRESS then (Some (sock, False, ai), ss)
                       else connect_loop ais (trace [T_close sock] ss)))"

definition open_socket :: "int \<Rightarrow> nat \<Rightarrow> socket_server \<Rightarrow> socket_message \<Rightarrow> (sock_result \<times> socket_server \<times> socket_message) option" where
  "open_socket i opaque ss res = do {
     let res = \<lparr>sm_id = i, sm_opaque = opaque, sm_ud = 0, sm_data = D_null\<rparr>;
     let failed = (\<lambda>d ss. Some (SR_error, set_type i SOCKET_TYPE_INVALID ss, res\<lparr>sm_data := d\<rparr>));
     let (g, ss) = sys ss;
     if an_err g \<noteq> None then failed D_strerror ss
     else (case connect_loop (an_addrs g) ss of
       (None, ss) \<Rightarrow> failed D_strerror ss
     | (Some (sock, done, ai), ss) \<Rightarrow> do {
         (ok, ss) \<leftarrow> new_fd i sock PROTOCOL_TCP opaque True ss;
         if \<not> ok then failed (D_text ''reach skynet socket number limit'') (trace [T_close sock] ss)
         else if done then do {
           let (t, ss) = sys (set_type i SOCKET_TYPE_CONNECTED ss);
           Some (SR_open, ss, res\<lparr>sm_data := (case an_text t of None \<Rightarrow> D_null | Some t \<Rightarrow> D_peer t)\<rparr>)
         }
         else Some (SR_none, trace [T_sp_write sock True] (set_type i SOCKET_TYPE_CONNECTING ss), res)
       })
   }"

section \<open>Writing\<close>

definition the_list :: "priority \<Rightarrow> socket \<Rightarrow> write_buffer list" where
  "the_list p s = (case p of PRIORITY_HIGH \<Rightarrow> sk_high s | PRIORITY_LOW \<Rightarrow> sk_low s)"

definition set_list :: "priority \<Rightarrow> write_buffer list \<Rightarrow> socket \<Rightarrow> socket" where
  "set_list p wbs s = (case p of PRIORITY_HIGH \<Rightarrow> s\<lparr>sk_high := wbs\<rparr> | PRIORITY_LOW \<Rightarrow> s\<lparr>sk_low := wbs\<rparr>)"

text \<open>The bytes of a buffer that are not written yet.\<close>

definition sb_rest :: "socket_server \<Rightarrow> write_buffer \<Rightarrow> bytes option" where
  "sb_rest ss wb = map_option (\<lambda>(a, bs). drop (sb_off wb) bs) (send_object_init ss (sb_buffer wb))"

text \<open>\<open>send_list_tcp\<close>: a write that was interrupted is repeated, a write of a part ends the loop.\<close>

partial_function (option) send_list_tcp ::
    "nat \<Rightarrow> priority \<Rightarrow> socket_server \<Rightarrow> socket_message \<Rightarrow> (sock_result \<times> socket_server \<times> socket_message) option" where
  "send_list_tcp i p ss res = (
     let s = ss_slot ss i in
     (case the_list p s of
        [] \<Rightarrow> Some (SR_none, ss, res)
      | tmp # next \<Rightarrow> do {
          bs \<leftarrow> sb_rest ss tmp;
          (case sys_write (sk_fd s) bs ss of
             (Inl e, ss) \<Rightarrow>
               if e = EINTR then send_list_tcp i p ss res
               else if e = EAGAIN then Some (SR_none, ss, res)
               else do {
                 (ss, res) \<leftarrow> force_close i ss res;
                 Some (SR_close, ss, res)
               }
           | (Inr sz, ss) \<Rightarrow>
               let s = s\<lparr>sk_wb_size := sk_wb_size s - int sz\<rparr> in
               if sz \<noteq> length bs
               then Some (SR_none, put_socket i (set_list p (tmp\<lparr>sb_off := sb_off tmp + sz\<rparr> # next) s) ss, res)
               else send_list_tcp i p (trace [write_buffer_free tmp] (put_socket i (set_list p next s) ss)) res)
        }))"

text \<open>\<open>udp_socket_address\<close>: \<open>None\<close> is the length 0. The address is a type, a port and an address.\<close>

definition udp_socket_address :: "nat \<Rightarrow> bytes \<Rightarrow> sockaddr option" where
  "udp_socket_address protocol addr =
     (if unat (addr ! 0) \<noteq> protocol then None
      else if protocol = PROTOCOL_UDP then Some (V4 (take 2 (drop 1 addr)) (take 4 (drop 3 addr)))
      else if protocol = PROTOCOL_UDPv6 then Some (V6 (take 2 (drop 1 addr)) (take 16 (drop 3 addr)))
      else None)"

fun send_list_udp_loop ::
    "nat \<Rightarrow> priority \<Rightarrow> write_buffer list \<Rightarrow> socket_server \<Rightarrow> socket_message \<Rightarrow> (sock_result \<times> socket_server \<times> socket_message) option" where
  "send_list_udp_loop i p [] ss res = Some (SR_none, ss, res)"
| "send_list_udp_loop i p (tmp # next) ss res = do {
     let s = ss_slot ss i;
     bs \<leftarrow> sb_rest ss tmp;
     (case sys_sendto (sk_fd s) bs (udp_socket_address (sk_protocol s) (sb_udp_address tmp)) ss of
        (Inl e, ss) \<Rightarrow>
          if e = EINTR \<or> e = EAGAIN then Some (SR_none, ss, res)
          else Some (SR_none, trace [T_stderr ''socket-server : udp (%d) sendto error %s.''] ss, res)
      | (Inr n, ss) \<Rightarrow>
          send_list_udp_loop i p next (trace [write_buffer_free tmp]
            (put_socket i (set_list p next (s\<lparr>sk_wb_size := sk_wb_size s - int (length bs)\<rparr>)) ss)) res)
   }"

definition send_list_udp ::
    "nat \<Rightarrow> priority \<Rightarrow> socket_server \<Rightarrow> socket_message \<Rightarrow> (sock_result \<times> socket_server \<times> socket_message) option" where
  "send_list_udp i p ss res = send_list_udp_loop i p (the_list p (ss_slot ss i)) ss res"

definition send_list ::
    "nat \<Rightarrow> priority \<Rightarrow> socket_server \<Rightarrow> socket_message \<Rightarrow> (sock_result \<times> socket_server \<times> socket_message) option" where
  "send_list i p ss res = (if sk_protocol (ss_slot ss i) = PROTOCOL_TCP then send_list_tcp i p ss res else send_list_udp i p ss res)"

text \<open>\<open>list_uncomplete\<close> compares the pointer to the data with the pointer to the buffer.\<close>

definition list_uncomplete :: "socket_server \<Rightarrow> write_buffer list \<Rightarrow> bool option" where
  "list_uncomplete ss wbs = (case wbs of
     [] \<Rightarrow> Some False
   | wb # _ \<Rightarrow> do { (a, bs) \<leftarrow> send_object_init ss (sb_buffer wb); Some (a + sb_off wb \<noteq> payload_addr (sb_buffer wb)) })"

definition raise_uncomplete :: "socket \<Rightarrow> socket option" where
  "raise_uncomplete s = (case sk_low s of
     [] \<Rightarrow> None
   | tmp # next \<Rightarrow> do { assert_opt (sk_high s = []); Some (s\<lparr>sk_low := next, sk_high := [tmp]\<rparr>) })"

definition send_buffer ::
    "nat \<Rightarrow> socket_server \<Rightarrow> socket_message \<Rightarrow> (sock_result \<times> socket_server \<times> socket_message) option" where
  "send_buffer i ss res = do {
     u \<leftarrow> list_uncomplete ss (sk_low (ss_slot ss i));
     assert_opt (\<not> u);
     (r, ss, res) \<leftarrow> send_list i PRIORITY_HIGH ss res;
     if r = SR_close then Some (SR_close, ss, res)
     else if sk_high (ss_slot ss i) \<noteq> [] then Some (SR_none, ss, res)
     else if sk_low (ss_slot ss i) \<noteq> [] then do {
       (r, ss, res) \<leftarrow> send_list i PRIORITY_LOW ss res;
       if r = SR_close then Some (SR_close, ss, res)
       else do {
         u \<leftarrow> list_uncomplete ss (sk_low (ss_slot ss i));
         if u then do { s \<leftarrow> raise_uncomplete (ss_slot ss i); Some (SR_none, put_socket i s ss, res) }
         else Some (SR_none, ss, res)
       }
     }
     else do {
       let ss = trace [T_sp_write (sk_fd (ss_slot ss i)) False] ss;
       if sk_type (ss_slot ss i) = SOCKET_TYPE_HALFCLOSE
       then do { (ss, res) \<leftarrow> force_close i ss res; Some (SR_close, ss, res) }
       else Some (SR_none, ss, res)
     }
   }"

definition append_sendbuffer_at :: "nat \<Rightarrow> priority \<Rightarrow> payload \<Rightarrow> nat \<Rightarrow> bytes \<Rightarrow> socket_server \<Rightarrow> socket_server option" where
  "append_sendbuffer_at i p pay n addr ss = do {
     (a, bs) \<leftarrow> send_object_init ss pay;
     let s = ss_slot ss i;
     let wb = \<lparr>sb_buffer = pay, sb_off = n, sb_udp_address = addr\<rparr>;
     Some (put_socket i (set_list p (the_list p s @ [wb]) (s\<lparr>sk_wb_size := sk_wb_size s + int (length bs - n)\<rparr>)) ss)
   }"

definition append_sendbuffer_udp :: "nat \<Rightarrow> priority \<Rightarrow> payload \<Rightarrow> bytes \<Rightarrow> socket_server \<Rightarrow> socket_server option" where
  "append_sendbuffer_udp i p pay addr ss = append_sendbuffer_at i p pay 0 addr ss"

definition append_sendbuffer :: "nat \<Rightarrow> payload \<Rightarrow> nat \<Rightarrow> socket_server \<Rightarrow> socket_server option" where
  "append_sendbuffer i pay n ss = append_sendbuffer_at i PRIORITY_HIGH pay n [] ss"

definition append_sendbuffer_low :: "nat \<Rightarrow> payload \<Rightarrow> socket_server \<Rightarrow> socket_server option" where
  "append_sendbuffer_low i pay ss = append_sendbuffer_at i PRIORITY_LOW pay 0 [] ss"

definition send_buffer_empty :: "socket \<Rightarrow> bool" where
  "send_buffer_empty s \<longleftrightarrow> sk_high s = [] \<and> sk_low s = []"

text \<open>The address of a datagram: the one given, or the one of the socket.\<close>

definition datagram_address :: "bytes option \<Rightarrow> socket \<Rightarrow> bytes option" where
  "datagram_address addr s = (case addr of Some a \<Rightarrow> Some a
     | None \<Rightarrow> (case sk_p s of P_udp_address a \<Rightarrow> Some a | P_size n \<Rightarrow> None))"

text \<open>The first write of a message to a socket without pending data.\<close>

definition send_direct_tcp ::
    "nat \<Rightarrow> int \<Rightarrow> payload \<Rightarrow> bytes \<Rightarrow> socket_server \<Rightarrow> socket_message \<Rightarrow> (sock_result \<times> socket_server \<times> socket_message) option" where
  "send_direct_tcp k i pay bs ss res = do {
     let s = ss_slot ss k;
     (case sys_write (sk_fd s) bs ss of
        (Inl e, ss) \<Rightarrow>
          if e = EINTR \<or> e = EAGAIN then
            (if length bs = 0 then Some (SR_none, trace [free_payload pay] ss, res)
             else do {
               ss \<leftarrow> append_sendbuffer k pay 0 ss;
               Some (SR_none, trace [T_sp_write (sk_fd s) True] ss, res)
             })
          else do {
            (ss, res) \<leftarrow> force_close k (trace [T_stderr ''socket-server: write to %d (fd=%d) error :%s.''] ss) res;
            Some (SR_close, trace [free_payload pay] ss, res)
          }
      | (Inr n, ss) \<Rightarrow>
          if n = length bs then Some (SR_none, trace [free_payload pay] ss, res)
          else do {
            ss \<leftarrow> append_sendbuffer k pay n ss;
            Some (SR_none, trace [T_sp_write (sk_fd s) True] ss, res)
          })
   }"

definition send_direct_udp ::
    "nat \<Rightarrow> priority \<Rightarrow> payload \<Rightarrow> bytes \<Rightarrow> bytes \<Rightarrow> socket_server \<Rightarrow> socket_message \<Rightarrow> (sock_result \<times> socket_server \<times> socket_message) option" where
  "send_direct_udp k p pay bs addr ss res = do {
     let s = ss_slot ss k;
     (case sys_sendto (sk_fd s) bs (udp_socket_address (sk_protocol s) addr) ss of
        (Inr n, ss) \<Rightarrow> Some (SR_none, trace [free_payload pay] ss, res)
      | (Inl e, ss) \<Rightarrow> do {
          ss \<leftarrow> append_sendbuffer_udp k p pay addr ss;
          Some (SR_none, trace [T_sp_write (sk_fd s) True] ss, res)
        })
   }"

definition send_socket ::
    "int \<Rightarrow> payload \<Rightarrow> priority \<Rightarrow> bytes option \<Rightarrow> socket_server \<Rightarrow> socket_message \<Rightarrow> (sock_result \<times> socket_server \<times> socket_message) option" where
  "send_socket i pay p addr ss res = do {
     let k = HASH_ID i;
     let s = ss_slot ss k;
     (a, bs) \<leftarrow> send_object_init ss pay;
     if sk_type s = SOCKET_TYPE_INVALID \<or> sk_id s \<noteq> i \<or> sk_type s = SOCKET_TYPE_HALFCLOSE \<or> sk_type s = SOCKET_TYPE_PACCEPT
     then Some (SR_none, trace [free_payload pay] ss, res)
     else if sk_type s = SOCKET_TYPE_PLISTEN \<or> sk_type s = SOCKET_TYPE_LISTEN
     then Some (SR_none, trace [T_stderr ''socket-server: write to listen fd %d.'', free_payload pay] ss, res)
     else if send_buffer_empty s \<and> sk_type s = SOCKET_TYPE_CONNECTED then
       (if sk_protocol s = PROTOCOL_TCP then send_direct_tcp k i pay bs ss res
        else do { ua \<leftarrow> datagram_address addr s; send_direct_udp k p pay bs ua ss res })
     else do {
       ss \<leftarrow> (if sk_protocol s = PROTOCOL_TCP then
                (if p = PRIORITY_LOW then append_sendbuffer_low k pay ss else append_sendbuffer k pay 0 ss)
              else do { ua \<leftarrow> datagram_address addr s; append_sendbuffer_udp k p pay ua ss });
       Some (SR_none, ss, res)
     }
   }"

section \<open>Requests\<close>

type_synonym handled = "(sock_result \<times> socket_server \<times> socket_message) option"

definition listen_socket :: "int \<Rightarrow> int \<Rightarrow> nat \<Rightarrow> socket_server \<Rightarrow> socket_message \<Rightarrow> handled" where
  "listen_socket i fd opaque ss res = do {
     (ok, ss) \<leftarrow> new_fd i fd PROTOCOL_TCP opaque False ss;
     if ok then Some (SR_none, set_type i SOCKET_TYPE_PLISTEN ss, res)
     else Some (SR_error, set_type i SOCKET_TYPE_INVALID (trace [T_close fd] ss),
            \<lparr>sm_id = i, sm_opaque = opaque, sm_ud = 0, sm_data = D_text ''reach skynet socket number limit''\<rparr>)
   }"

definition close_socket :: "int \<Rightarrow> bool \<Rightarrow> nat \<Rightarrow> socket_server \<Rightarrow> socket_message \<Rightarrow> handled" where
  "close_socket i shutdown opaque ss res = do {
     let k = HASH_ID i;
     let s = ss_slot ss k;
     if sk_type s = SOCKET_TYPE_INVALID \<or> sk_id s \<noteq> i
     then Some (SR_close, ss, \<lparr>sm_id = i, sm_opaque = opaque, sm_ud = 0, sm_data = D_null\<rparr>)
     else do {
       (type, ss, res) \<leftarrow> (if send_buffer_empty s then Some (SR_none, ss, res) else send_buffer k ss res);
       if type \<noteq> SR_none then Some (type, ss, res)
       else if shutdown \<or> send_buffer_empty (ss_slot ss k) then do {
         (ss, res) \<leftarrow> force_close k ss res;
         Some (SR_close, ss, res\<lparr>sm_id := i, sm_opaque := opaque\<rparr>)
       }
       else Some (SR_none, set_type i SOCKET_TYPE_HALFCLOSE ss, res)
     }
   }"

definition bind_socket :: "int \<Rightarrow> int \<Rightarrow> nat \<Rightarrow> socket_server \<Rightarrow> socket_message \<Rightarrow> handled" where
  "bind_socket i fd opaque ss res = do {
     let res = res\<lparr>sm_id := i, sm_opaque := opaque, sm_ud := 0\<rparr>;
     (ok, ss) \<leftarrow> new_fd i fd PROTOCOL_TCP opaque True ss;
     if ok then Some (SR_open, set_type i SOCKET_TYPE_BIND (trace [T_nonblocking fd] ss), res\<lparr>sm_data := D_text ''binding''\<rparr>)
     else Some (SR_error, ss, res\<lparr>sm_data := D_text ''reach skynet socket number limit''\<rparr>)
   }"

definition start_socket :: "int \<Rightarrow> nat \<Rightarrow> socket_server \<Rightarrow> socket_message \<Rightarrow> handled" where
  "start_socket i opaque ss res = do {
     let res = \<lparr>sm_id = i, sm_opaque = opaque, sm_ud = 0, sm_data = D_null\<rparr>;
     let k = HASH_ID i;
     let s = ss_slot ss k;
     if sk_type s = SOCKET_TYPE_INVALID \<or> sk_id s \<noteq> i then Some (SR_error, ss, res\<lparr>sm_data := D_text ''invalid socket''\<rparr>)
     else if sk_type s = SOCKET_TYPE_PACCEPT \<or> sk_type s = SOCKET_TYPE_PLISTEN then do {
       let (ok, ss) = sp_add (sk_fd s) k ss;
       if \<not> ok then do {
         (ss, res) \<leftarrow> force_close k ss res;
         Some (SR_error, ss, res\<lparr>sm_data := D_strerror\<rparr>)
       }
       else Some (SR_open,
         put_socket k (s\<lparr>sk_type := (if sk_type s = SOCKET_TYPE_PACCEPT then SOCKET_TYPE_CONNECTED else SOCKET_TYPE_LISTEN),
           sk_opaque := opaque\<rparr>) ss, res\<lparr>sm_data := D_text ''start''\<rparr>)
     }
     else if sk_type s = SOCKET_TYPE_CONNECTED
     then Some (SR_open, put_socket k (s\<lparr>sk_opaque := opaque\<rparr>) ss, res\<lparr>sm_data := D_text ''transfer''\<rparr>)
     else Some (SR_none, ss, res)
   }"

definition setopt_socket :: "int \<Rightarrow> socket_server \<Rightarrow> socket_server" where
  "setopt_socket i ss = (
     let s = ss_slot ss (HASH_ID i)
     in if sk_type s = SOCKET_TYPE_INVALID \<or> sk_id s \<noteq> i then ss else trace [T_setopt (sk_fd s)] ss)"

definition has_cmd :: "socket_server \<Rightarrow> bool" where
  "has_cmd ss \<longleftrightarrow> ss_pipe ss \<noteq> []"

definition add_udp_socket :: "int \<Rightarrow> int \<Rightarrow> bool \<Rightarrow> nat \<Rightarrow> socket_server \<Rightarrow> socket_server option" where
  "add_udp_socket i fd v6 opaque ss = do {
     (ok, ss) \<leftarrow> new_fd i fd (if v6 then PROTOCOL_UDPv6 else PROTOCOL_UDP) opaque True ss;
     if \<not> ok then Some (set_type i SOCKET_TYPE_INVALID (trace [T_close fd] ss))
     else do {
       let k = HASH_ID i;
       Some (put_socket k ((ss_slot ss k)\<lparr>sk_type := SOCKET_TYPE_CONNECTED, sk_p := P_udp_address (replicate UDP_ADDRESS_SIZE 0)\<rparr>) ss)
     }
   }"

text \<open>The copy of the address leaves the bytes behind it as they are.\<close>

definition copy_address :: "bytes \<Rightarrow> nat \<Rightarrow> bytes \<Rightarrow> bytes" where
  "copy_address old n new = take n new @ drop n old"

definition set_udp_address :: "int \<Rightarrow> bytes \<Rightarrow> socket_server \<Rightarrow> socket_message \<Rightarrow> handled" where
  "set_udp_address i addr ss res = do {
     let k = HASH_ID i;
     let s = ss_slot ss k;
     if sk_type s = SOCKET_TYPE_INVALID \<or> sk_id s \<noteq> i then Some (SR_none, ss, res)
     else do {
       let type = unat (addr ! 0);
       if type \<noteq> sk_protocol s
       then Some (SR_error, ss, \<lparr>sm_id = sk_id s, sm_opaque = sk_opaque s, sm_ud = 0, sm_data = D_text ''protocol mismatch''\<rparr>)
       else (case sk_p s of
           P_size n \<Rightarrow> None
         | P_udp_address old \<Rightarrow>
             Some (SR_none, put_socket k (s\<lparr>sk_p := P_udp_address (copy_address old (if type = PROTOCOL_UDP then 1+2+4 else 1+2+16) addr)\<rparr>) ss, res))
     }
   }"

definition ctrl_cmd :: "socket_server \<Rightarrow> socket_message \<Rightarrow> handled" where
  "ctrl_cmd ss res = (case ss_pipe ss of
     [] \<Rightarrow> None
   | r # rs \<Rightarrow> let ss = ss\<lparr>ss_pipe := rs\<rparr> in (case r of
       R_start i opaque \<Rightarrow> start_socket i opaque ss res
     | R_bind i fd opaque \<Rightarrow> bind_socket i fd opaque ss res
     | R_listen i fd opaque \<Rightarrow> listen_socket i fd opaque ss res
     | R_close i shutdown opaque \<Rightarrow> close_socket i shutdown opaque ss res
     | R_open i opaque host port \<Rightarrow> open_socket i opaque ss res
     | R_exit \<Rightarrow> Some (SR_exit, ss, \<lparr>sm_id = 0, sm_opaque = 0, sm_ud = 0, sm_data = D_null\<rparr>)
     | R_send i p pay \<Rightarrow> send_socket i pay p None ss res
     | R_send_udp i pay addr \<Rightarrow> send_socket i pay PRIORITY_HIGH (Some addr) ss res
     | R_setudp i addr \<Rightarrow> set_udp_address i addr ss res
     | R_setopt i what v \<Rightarrow> Some (SR_none, setopt_socket i ss, res)
     | R_udp i fd v6 opaque \<Rightarrow> do { ss \<leftarrow> add_udp_socket i fd v6 opaque ss; Some (SR_none, ss, res) }
     | R_unknown \<Rightarrow> Some (SR_none, trace [T_stderr ''socket-server: Unknown ctrl %c.''] ss, res)))"

section \<open>Events\<close>

text \<open>The size of the next read: twice the last one when the buffer was filled, half when less than
  half of it was used.\<close>

definition next_size :: "int \<Rightarrow> int \<Rightarrow> int" where
  "next_size sz n = (if n = sz then sz * 2 else if sz > MIN_READ_BUFFER \<and> n * 2 < sz then sz div 2 else sz)"

definition forward_message_tcp :: "nat \<Rightarrow> socket_server \<Rightarrow> socket_message \<Rightarrow> handled" where
  "forward_message_tcp i ss res = (
     let s = ss_slot ss i in
     (case sk_p s of
        P_udp_address a \<Rightarrow> None
      | P_size sz \<Rightarrow> (case sys_read sz ss of
          (Inl e, ss) \<Rightarrow>
            if e = EINTR then Some (SR_none, ss, res)
            else if e = EAGAIN then Some (SR_none, trace [T_stderr ''socket-server: EAGAIN capture.''] ss, res)
            else do { (ss, res) \<leftarrow> force_close i ss res; Some (SR_error, ss, res\<lparr>sm_data := D_strerror\<rparr>) }
        | (Inr bs, ss) \<Rightarrow>
            if bs = [] then do { (ss, res) \<leftarrow> force_close i ss res; Some (SR_close, ss, res) }
            else if sk_type s = SOCKET_TYPE_HALFCLOSE then Some (SR_none, ss, res)
            else Some (SR_data, put_socket i (s\<lparr>sk_p := P_size (next_size sz (int (length bs)))\<rparr>) ss,
                   \<lparr>sm_id = sk_id s, sm_opaque = sk_opaque s, sm_ud = int (length bs), sm_data = D_bytes bs\<rparr>))))"

definition gen_udp_address :: "nat \<Rightarrow> sockaddr \<Rightarrow> bytes" where
  "gen_udp_address protocol sa = (case sa of V4 port addr \<Rightarrow> of_nat protocol # port @ addr | V6 port addr \<Rightarrow> of_nat protocol # port @ addr)"

definition forward_message_udp :: "nat \<Rightarrow> socket_server \<Rightarrow> socket_message \<Rightarrow> handled" where
  "forward_message_udp i ss res = (
     let s = ss_slot ss i in
     (case sys_recvfrom ss of
        (Inl e, ss) \<Rightarrow>
          if e = EINTR \<or> e = EAGAIN then Some (SR_none, ss, res)
          else do { (ss, res) \<leftarrow> force_close i ss res; Some (SR_error, ss, res\<lparr>sm_data := D_strerror\<rparr>) }
      | (Inr (bs, sa), ss) \<Rightarrow>
          let protocol = (case sa of V4 p a \<Rightarrow> PROTOCOL_UDP | V6 p a \<Rightarrow> PROTOCOL_UDPv6) in
          if sk_protocol s \<noteq> protocol then Some (SR_none, ss, res)
          else Some (SR_udp, ss, \<lparr>sm_id = sk_id s, sm_opaque = sk_opaque s, sm_ud = int (length bs),
                 sm_data = D_bytes (bs @ gen_udp_address protocol sa)\<rparr>)))"

definition report_connect :: "nat \<Rightarrow> socket_server \<Rightarrow> socket_message \<Rightarrow> handled" where
  "report_connect i ss res = do {
     let (a, ss) = sys ss;
     if an_err a \<noteq> None \<or> an_num a \<noteq> 0 then do {
       (ss, res) \<leftarrow> force_close i ss res;
       Some (SR_error, ss, res\<lparr>sm_data := D_strerror\<rparr>)
     }
     else do {
       let s = (ss_slot ss i)\<lparr>sk_type := SOCKET_TYPE_CONNECTED\<rparr>;
       let ss = put_socket i s ss;
       let ss = (if send_buffer_empty s then trace [T_sp_write (sk_fd s) False] ss else ss);
       let (b, ss) = sys ss;
       Some (SR_open, ss, \<lparr>sm_id = sk_id s, sm_opaque = sk_opaque s, sm_ud = 0,
         sm_data = (if an_err b = None then (case an_text b of None \<Rightarrow> D_null | Some t \<Rightarrow> D_peer t) else D_null)\<rparr>)
     }
   }"

text \<open>\<open>report_accept\<close>: the results 1, -1 and 0 are \<open>SR_accept\<close>, \<open>SR_error\<close> and \<open>SR_none\<close>.\<close>

definition report_accept :: "nat \<Rightarrow> socket_server \<Rightarrow> socket_message \<Rightarrow> handled" where
  "report_accept k ss res = do {
     let s = ss_slot ss k;
     let (a, ss) = sys ss;
     (case an_err a of
        Some e \<Rightarrow>
          if e = EMFILE \<or> e = ENFILE
          then Some (SR_error, ss, \<lparr>sm_id = sk_id s, sm_opaque = sk_opaque s, sm_ud = 0, sm_data = D_strerror\<rparr>)
          else Some (SR_none, ss, res)
      | None \<Rightarrow> do {
          let fd = int (an_num a);
          let (i, ss) = reserve_id ss;
          if i < 0 then Some (SR_none, trace [T_close fd] ss, res)
          else do {
            (ok, ss) \<leftarrow> new_fd i fd PROTOCOL_TCP (sk_opaque s) False (trace [T_setopt fd, T_nonblocking fd] ss);
            if \<not> ok then Some (SR_none, trace [T_close fd] ss, res)
            else Some (SR_accept, set_type i SOCKET_TYPE_PACCEPT ss,
                   \<lparr>sm_id = sk_id s, sm_opaque = sk_opaque s, sm_ud = i,
                    sm_data = (case an_text a of None \<Rightarrow> D_null | Some t \<Rightarrow> D_peer t)\<rparr>)
          }
        })
   }"

text \<open>The events of the current batch that have not been handled: the first one that belongs to the
  socket that was closed is dropped.\<close>

fun clear_event :: "(event \<Rightarrow> bool) \<Rightarrow> event list \<Rightarrow> event list" where
  "clear_event P [] = []"
| "clear_event P (e # es) = (if P e then e\<lparr>ev_s := None\<rparr> # es else e # clear_event P es)"

definition clear_closed_event :: "socket_message \<Rightarrow> sock_result \<Rightarrow> socket_server \<Rightarrow> socket_server" where
  "clear_closed_event res type ss =
     (if type = SR_close \<or> type = SR_error
      then let P = (\<lambda>e. case ev_s e of None \<Rightarrow> False
                     | Some i \<Rightarrow> sk_type (ss_slot ss i) = SOCKET_TYPE_INVALID \<and> sk_id (ss_slot ss i) = sm_id res)
           in ss\<lparr>ss_ev := take (ss_event_index ss) (ss_ev ss) @ clear_event P (drop (ss_event_index ss) (ss_ev ss))\<rparr>
      else ss)"

text \<open>One turn of the loop of \<open>socket_server_poll\<close>: \<open>Inl\<close> continues with the next one, \<open>Inr\<close> returns. A
  return of -1 after an empty wait is \<open>Inr SR_none\<close>.\<close>

definition poll_event :: "nat \<Rightarrow> event \<Rightarrow> socket_server \<Rightarrow> socket_message \<Rightarrow> handled" where
  "poll_event i e ss res = (
     let s = ss_slot ss i in
     (case sk_type s of
        SOCKET_TYPE_CONNECTING \<Rightarrow> report_connect i ss res
      | SOCKET_TYPE_LISTEN \<Rightarrow> report_accept i ss res
      | SOCKET_TYPE_INVALID \<Rightarrow> Some (SR_none, trace [T_stderr ''socket-server: invalid socket''] ss, res)
      | _ \<Rightarrow>
          if ev_read e then do {
            (type, ss, res) \<leftarrow> (if sk_protocol s = PROTOCOL_TCP then forward_message_tcp i ss res else forward_message_udp i ss res);
            let back = ss\<lparr>ss_event_index := ss_event_index ss - 1\<rparr>;
            if type = SR_udp then Some (type, back, res)
            else if ev_write e \<and> type \<noteq> SR_close \<and> type \<noteq> SR_error
            then Some (type, back\<lparr>ss_ev := (ss_ev back)[ss_event_index back := e\<lparr>ev_read := False\<rparr>]\<rparr>, res)
            else Some (type, ss, res)
          }
          else if ev_write e then send_buffer i ss res
          else Some (SR_none, ss, res)))"

text \<open>\<open>sp_wait\<close> reports only sockets that are in the event pool, each once. These are the sockets in
  the following states: \<open>sp_add\<close> is called on the way into them, \<open>sp_del\<close> when they are closed.\<close>

definition in_pool :: "socket_type \<Rightarrow> bool" where
  "in_pool t \<longleftrightarrow> t \<in> {SOCKET_TYPE_LISTEN, SOCKET_TYPE_CONNECTING, SOCKET_TYPE_CONNECTED, SOCKET_TYPE_HALFCLOSE, SOCKET_TYPE_BIND}"

fun reported :: "socket_server \<Rightarrow> nat set \<Rightarrow> event list \<Rightarrow> event list" where
  "reported ss seen [] = []"
| "reported ss seen (e # es) = (case ev_s e of
     None \<Rightarrow> e # reported ss seen es
   | Some i \<Rightarrow> if i \<notin> seen \<and> in_pool (sk_type (ss_slot ss i)) then e # reported ss (insert i seen) es else reported ss seen es)"

definition poll_wait :: "socket_server \<Rightarrow> bool \<times> socket_server" where
  "poll_wait ss =
     (if ss_event_index ss = length (ss_ev ss) then
        let (a, ss) = sys ss;
            evs = (if an_err a = None then take MAX_EVENT (reported ss {} (an_events a)) else [])
        in (evs \<noteq> [], ss\<lparr>ss_ev := evs, ss_checkctrl := True, ss_more := False, ss_event_index := 0\<rparr>)
      else (True, ss))"

definition poll_turn :: "socket_server \<Rightarrow> socket_message \<Rightarrow> (socket_server \<times> socket_message + sock_result \<times> socket_server \<times> socket_message) option" where
  "poll_turn ss res =
     (if ss_checkctrl ss \<and> has_cmd ss then do {
        (type, ss, res) \<leftarrow> ctrl_cmd ss res;
        if type \<noteq> SR_none then Some (Inr (type, clear_closed_event res type ss, res)) else Some (Inl (ss, res))
      }
      else do {
        let (more, ss) = poll_wait (ss\<lparr>ss_checkctrl := False\<rparr>);
        if \<not> more then Some (Inr (SR_none, ss, res))
        else do {
          e \<leftarrow> nth_opt (ss_ev ss) (ss_event_index ss);
          let ss = ss\<lparr>ss_event_index := ss_event_index ss + 1\<rparr>;
          (case ev_s e of
             None \<Rightarrow> Some (Inl (ss, res))
           | Some i \<Rightarrow> do {
               (type, ss, res) \<leftarrow> poll_event i e ss res;
               if type = SR_none then Some (Inl (ss, res)) else Some (Inr (type, ss, res))
             })
        }
      })"

partial_function (option) socket_server_poll :: "socket_server \<Rightarrow> socket_message \<Rightarrow> handled" where
  "socket_server_poll ss res = do {
     r \<leftarrow> poll_turn ss res;
     (case r of Inl (ss, res) \<Rightarrow> socket_server_poll ss res | Inr x \<Rightarrow> Some x)
   }"

section \<open>Calls from other threads\<close>

text \<open>\<open>send_request\<close>\<close>

definition send_request :: "request \<Rightarrow> socket_server \<Rightarrow> socket_server" where
  "send_request r ss = ss\<lparr>ss_pipe := ss_pipe ss @ [r]\<rparr>"

definition SIZEOF_REQUEST_OPEN :: nat where "SIZEOF_REQUEST_OPEN = 24"

definition open_request :: "cstr \<Rightarrow> socket_server \<Rightarrow> int \<times> socket_server" where
  "open_request addr ss =
     (if length addr + SIZEOF_REQUEST_OPEN \<ge> 256
      then (-1, trace [T_stderr ''socket-server : Invalid addr %s.''] ss)
      else reserve_id ss)"

definition socket_server_connect :: "nat \<Rightarrow> cstr \<Rightarrow> int \<Rightarrow> socket_server \<Rightarrow> int \<times> socket_server" where
  "socket_server_connect opaque addr port ss = (
     let (i, ss) = open_request addr ss
     in if i < 0 then (-1, ss) else (i, send_request (R_open i opaque addr port) ss))"

definition free_buffer :: "payload \<Rightarrow> socket_server \<Rightarrow> socket_server option" where
  "free_buffer pay ss = do { _ \<leftarrow> send_object_init ss pay; Some (trace [free_payload pay] ss) }"

definition unknown_id :: "int \<Rightarrow> socket_server \<Rightarrow> bool" where
  "unknown_id i ss \<longleftrightarrow> (let s = ss_slot ss (HASH_ID i) in sk_id s \<noteq> i \<or> sk_type s = SOCKET_TYPE_INVALID)"

definition socket_server_send :: "int \<Rightarrow> payload \<Rightarrow> socket_server \<Rightarrow> (int \<times> socket_server) option" where
  "socket_server_send i pay ss =
     (if unknown_id i ss then map_option (Pair (-1)) (free_buffer pay ss)
      else Some (sk_wb_size (ss_slot ss (HASH_ID i)), send_request (R_send i PRIORITY_HIGH pay) ss))"

definition socket_server_send_lowpriority :: "int \<Rightarrow> payload \<Rightarrow> socket_server \<Rightarrow> socket_server option" where
  "socket_server_send_lowpriority i pay ss =
     (if unknown_id i ss then free_buffer pay ss else Some (send_request (R_send i PRIORITY_LOW pay) ss))"

definition socket_server_exit :: "socket_server \<Rightarrow> socket_server" where
  "socket_server_exit ss = send_request R_exit ss"

definition socket_server_close :: "nat \<Rightarrow> int \<Rightarrow> socket_server \<Rightarrow> socket_server" where
  "socket_server_close opaque i ss = send_request (R_close i False opaque) ss"

definition socket_server_shutdown :: "nat \<Rightarrow> int \<Rightarrow> socket_server \<Rightarrow> socket_server" where
  "socket_server_shutdown opaque i ss = send_request (R_close i True opaque) ss"

text \<open>\<open>do_bind\<close>: the calls \<open>getaddrinfo\<close>, \<open>socket\<close>, \<open>setsockopt\<close>, \<open>bind\<close>. The result is the file
  descriptor, or -1, and whether the address is of the sixth version.\<close>

definition do_bind :: "socket_server \<Rightarrow> int \<times> bool \<times> socket_server" where
  "do_bind ss = (
     let (g, ss) = sys ss in
     if an_err g \<noteq> None then (-1, False, ss)
     else
       let v6 = (case an_addr g of V4 p a \<Rightarrow> False | V6 p a \<Rightarrow> True); (a, ss) = sys ss in
       if an_err a \<noteq> None then (-1, v6, ss)
       else
         let fd = int (an_num a); (r, ss) = sys_ok ss in
         if \<not> r then (-1, v6, trace [T_close fd] ss)
         else let (b, ss) = sys_ok ss in if b then (fd, v6, ss) else (-1, v6, trace [T_close fd] ss))"

definition do_listen :: "socket_server \<Rightarrow> int \<times> socket_server" where
  "do_listen ss = (
     let (fd, v6, ss) = do_bind ss in
     if fd < 0 then (-1, ss)
     else let (l, ss) = sys_ok ss in if l then (fd, ss) else (-1, trace [T_close fd] ss))"

definition socket_server_listen :: "nat \<Rightarrow> socket_server \<Rightarrow> int \<times> socket_server" where
  "socket_server_listen opaque ss = (
     let (fd, ss) = do_listen ss in
     if fd < 0 then (-1, ss)
     else
       let (i, ss) = reserve_id ss
       in if i < 0 then (i, trace [T_close fd] ss) else (i, send_request (R_listen i fd opaque) ss))"

definition socket_server_bind :: "nat \<Rightarrow> int \<Rightarrow> socket_server \<Rightarrow> int \<times> socket_server" where
  "socket_server_bind opaque fd ss = (
     let (i, ss) = reserve_id ss in if i < 0 then (-1, ss) else (i, send_request (R_bind i fd opaque) ss))"

definition socket_server_start :: "nat \<Rightarrow> int \<Rightarrow> socket_server \<Rightarrow> socket_server" where
  "socket_server_start opaque i ss = send_request (R_start i opaque) ss"

definition TCP_NODELAY :: int where "TCP_NODELAY = 1"

definition socket_server_nodelay :: "int \<Rightarrow> socket_server \<Rightarrow> socket_server" where
  "socket_server_nodelay i ss = send_request (R_setopt i TCP_NODELAY 1) ss"

definition socket_server_userobject :: "(nat \<Rightarrow> nat \<times> bytes) \<Rightarrow> socket_server \<Rightarrow> socket_server" where
  "socket_server_userobject soi ss = ss\<lparr>ss_soi := Some soi\<rparr>"

definition socket_server_udp :: "nat \<Rightarrow> cstr option \<Rightarrow> int \<Rightarrow> socket_server \<Rightarrow> int \<times> socket_server" where
  "socket_server_udp opaque addr port ss = (
     let (fd, v6, ss) = (if port \<noteq> 0 \<or> addr \<noteq> None then do_bind ss
           else let (a, ss) = sys ss in ((if an_err a = None then int (an_num a) else -1), False, ss)) in
     if fd < 0 then (-1, ss)
     else
       let (i, ss) = reserve_id (trace [T_nonblocking fd] ss)
       in if i < 0 then (-1, trace [T_close fd] ss) else (i, send_request (R_udp i fd v6 opaque) ss))"

definition socket_server_udp_send :: "int \<Rightarrow> bytes \<Rightarrow> payload \<Rightarrow> socket_server \<Rightarrow> (int \<times> socket_server) option" where
  "socket_server_udp_send i addr pay ss =
     (if unknown_id i ss then map_option (Pair (-1)) (free_buffer pay ss)
      else
        let n = (if unat (addr ! 0) = PROTOCOL_UDP then 1 + 2 + 4 else if unat (addr ! 0) = PROTOCOL_UDPv6 then 1 + 2 + 16 else 0) in
        if n = 0 then map_option (Pair (-1)) (free_buffer pay ss)
        else Some (sk_wb_size (ss_slot ss (HASH_ID i)), send_request (R_send_udp i pay (take n addr)) ss))"

definition socket_server_udp_connect :: "int \<Rightarrow> socket_server \<Rightarrow> int \<times> socket_server" where
  "socket_server_udp_connect i ss = (
     let (g, ss) = sys ss in
     if an_err g \<noteq> None then (-1, ss)
     else
       let protocol = (case an_addr g of V4 p a \<Rightarrow> PROTOCOL_UDP | V6 p a \<Rightarrow> PROTOCOL_UDPv6)
       in (0, send_request (R_setudp i (gen_udp_address protocol (an_addr g))) ss))"

text \<open>\<open>socket_server_udp_address\<close>: the address behind the data of a message, \<open>None\<close> for \<open>NULL\<close>.\<close>

definition socket_server_udp_address :: "bytes \<Rightarrow> nat \<Rightarrow> bytes option" where
  "socket_server_udp_address d ud = (
     let address = drop ud d; type = unat (address ! 0) in
     if type = PROTOCOL_UDP then Some (take (1 + 2 + 4) address)
     else if type = PROTOCOL_UDPv6 then Some (take (1 + 2 + 16) address)
     else None)"

end
