(* ===== verification/Socket_Buffers.thy ===== *)
theory Socket_Buffers
  imports Socket_Server
begin

unbundle bit_operations_syntax

text \<open>
  The send buffers of a socket: what the loops that empty the lists do, for every behaviour of
  the network, and what that means for the stream of bytes that leaves a connection.
\<close>

section \<open>Changing one slot\<close>

text \<open>A step that changes of the server only slot \<open>k\<close> and makes some system calls.\<close>

definition touch :: "nat \<Rightarrow> sysop list \<Rightarrow> socket_server \<Rightarrow> socket_server \<Rightarrow> bool" where
  "touch k ops ss ss' \<longleftrightarrow> (\<exists>s c. ss' = ss\<lparr>ss_slot := (ss_slot ss)(k := s), ss_clock := c, ss_trace := ss_trace ss @ ops\<rparr>)"

lemma touch_same [simp]: "touch k [] ss ss"
  unfolding touch_def by (intro exI [of _ "ss_slot ss k"] exI [of _ "ss_clock ss"]) simp

lemma touch_trans: "touch k ops ss ss1 \<Longrightarrow> touch k ops' ss1 ss2 \<Longrightarrow> touch k (ops @ ops') ss ss2"
  unfolding touch_def by fastforce

lemma touch_put [simp]: "touch k [] ss (put_socket k s ss)"
  unfolding touch_def put_socket_def by (intro exI [of _ s] exI [of _ "ss_clock ss"]) simp

lemma touch_trace [simp]: "touch k ops ss (trace ops ss)"
  unfolding touch_def trace_def by (intro exI [of _ "ss_slot ss k"] exI [of _ "ss_clock ss"]) simp

lemma touch_clock [simp]: "touch k [] ss (ss\<lparr>ss_clock := c\<rparr>)"
  unfolding touch_def by (intro exI [of _ "ss_slot ss k"] exI [of _ c]) simp

lemma touch_fields:
  assumes "touch k ops ss ss'"
  shows "ss_env ss' = ss_env ss" "ss_soi ss' = ss_soi ss" "ss_pipe ss' = ss_pipe ss" "ss_alloc_id ss' = ss_alloc_id ss"
    "ss_ev ss' = ss_ev ss" "ss_event_index ss' = ss_event_index ss" "j \<noteq> k \<Longrightarrow> ss_slot ss' j = ss_slot ss j"
    "ss_trace ss' = ss_trace ss @ ops" "ss_checkctrl ss' = ss_checkctrl ss"
  using assms by (auto simp: touch_def)

lemma slot_simps [simp]:
  "ss_slot (put_socket k s ss) = (ss_slot ss)(k := s)" "ss_slot (trace ops ss) = ss_slot ss"
  by (simp_all add: put_socket_def trace_def)

section \<open>Buffers of plain memory\<close>

text \<open>No object interface is ever set in this program; the following is about plain memory.\<close>

fun pay_bytes :: "payload \<Rightarrow> bytes" where
  "pay_bytes (Memory a bs) = bs"
| "pay_bytes (Object a) = []"

fun is_memory :: "payload \<Rightarrow> bool" where
  "is_memory (Memory a bs) = True"
| "is_memory (Object a) = False"

definition rest_of :: "write_buffer \<Rightarrow> bytes" where
  "rest_of wb = drop (sb_off wb) (pay_bytes (sb_buffer wb))"

definition pending :: "write_buffer list \<Rightarrow> bytes" where
  "pending wbs = concat (map rest_of wbs)"

definition sb_ok :: "write_buffer \<Rightarrow> bool" where
  "sb_ok wb \<longleftrightarrow> is_memory (sb_buffer wb) \<and> sb_off wb \<le> length (pay_bytes (sb_buffer wb))"

text \<open>Only the first buffer of the high list can have been written in part.\<close>

definition lists_ok :: "socket \<Rightarrow> bool" where [inv_defs]:
  "lists_ok s \<longleftrightarrow> (\<forall>wb\<in>set (sk_high s) \<union> set (sk_low s). sb_ok wb) \<and> (\<forall>wb\<in>set (tl (sk_high s)) \<union> set (sk_low s). sb_off wb = 0)
     \<and> sk_wb_size s = int (length (pending (sk_high s)) + length (pending (sk_low s)))"

lemma send_object_memory: "is_memory p \<Longrightarrow> send_object_init ss p = Some (payload_addr p, pay_bytes p)"
  by (cases p) (simp_all add: send_object_init_def)

lemma sb_rest_ok: "sb_ok wb \<Longrightarrow> sb_rest ss wb = Some (rest_of wb)"
  by (simp add: sb_rest_def send_object_memory sb_ok_def rest_of_def)

lemma pending_simps [simp]: "pending [] = []" "pending (wb # wbs) = rest_of wb @ pending wbs" "pending (xs @ ys) = pending xs @ pending ys"
  by (simp_all add: pending_def)

lemma uncomplete_ok: "sb_ok wb \<Longrightarrow> list_uncomplete ss (wb # wbs) = Some (sb_off wb \<noteq> 0)"
  by (simp add: list_uncomplete_def send_object_memory sb_ok_def)

text \<open>Both lists are treated alike.\<close>

lemma list_simps [simp]:
  "the_list p (set_list p wbs s) = wbs" "set_list p wbs (set_list p wbs' s) = set_list p wbs s" "set_list p (the_list p s) s = s"
  "sk_fd (set_list p wbs s) = sk_fd s" "sk_type (set_list p wbs s) = sk_type s" "sk_id (set_list p wbs s) = sk_id s"
  "sk_protocol (set_list p wbs s) = sk_protocol s" "sk_p (set_list p wbs s) = sk_p s" "sk_wb_size (set_list p wbs s) = sk_wb_size s"
  "sk_opaque (set_list p wbs s) = sk_opaque s" "the_list p (s\<lparr>sk_wb_size := n\<rparr>) = the_list p s"
  "set_list p wbs (s\<lparr>sk_wb_size := n\<rparr>) = (set_list p wbs s)\<lparr>sk_wb_size := n\<rparr>"
  by (auto simp: the_list_def set_list_def split: priority.splits)

section \<open>The loop over a list\<close>

text \<open>The bytes written to a descriptor.\<close>

fun sent_to :: "int \<Rightarrow> sysop list \<Rightarrow> bytes" where
  "sent_to fd [] = []"
| "sent_to fd (T_write fd' bs # ops) = (if fd' = fd then bs else []) @ sent_to fd ops"
| "sent_to fd (_ # ops) = sent_to fd ops"

lemma sent_to_append [simp]: "sent_to fd (xs @ ys) = sent_to fd xs @ sent_to fd ys"
  by (induction fd xs rule: sent_to.induct) auto

lemma sent_to_free [simp]: "sent_to fd (write_buffer_free wb # ops) = sent_to fd ops" "sent_to fd (free_payload p # ops) = sent_to fd ops"
  by (auto simp: write_buffer_free_def free_payload_def split: payload.splits)

text \<open>The network does not interrupt every call.\<close>

definition fair :: "socket_server \<Rightarrow> bool" where
  "fair ss \<longleftrightarrow> (\<forall>n. \<exists>m\<ge>n. an_err (ss_env ss m) \<noteq> Some EINTR)"

lemma skip_interrupts:
  assumes "the_list p (ss_slot ss k) = wb # wbs" "sb_ok wb" "\<forall>j<d. an_err (ss_env ss (ss_clock ss + j)) = Some EINTR"
  shows "send_list_tcp k p ss res = send_list_tcp k p (ss\<lparr>ss_clock := ss_clock ss + d\<rparr>) res"
  using assms(3)
proof (induction d)
  case (Suc d)
  let ?ss = "ss\<lparr>ss_clock := ss_clock ss + d\<rparr>"
  have "send_list_tcp k p ?ss res = send_list_tcp k p (ss\<lparr>ss_clock := ss_clock ss + Suc d\<rparr>) res"
    using assms(1,2) Suc.prems
    by (subst send_list_tcp.simps) (simp add: sb_rest_ok sys_write_def sys_def Let_def)
  with Suc show ?case by simp
qed simp

lemma next_answer:
  assumes "fair ss"
  obtains d where "an_err (ss_env ss (ss_clock ss + d)) \<noteq> Some EINTR" "\<forall>j<d. an_err (ss_env ss (ss_clock ss + j)) = Some EINTR"
proof -
  let ?P = "\<lambda>d. an_err (ss_env ss (ss_clock ss + d)) \<noteq> Some EINTR"
  obtain m where "m \<ge> ss_clock ss" "an_err (ss_env ss m) \<noteq> Some EINTR" using assms by (auto simp: fair_def)
  then have "?P (m - ss_clock ss)" by simp
  then have "?P (LEAST d. ?P d)" by (rule LeastI)
  then show ?thesis using not_less_Least [of _ ?P] by (intro that [of "LEAST d. ?P d"]) auto
qed

text \<open>What is left of a list when some of its bytes have been written.\<close>

definition sent_part :: "write_buffer list \<Rightarrow> bytes \<Rightarrow> write_buffer list \<Rightarrow> bool" where
  "sent_part wbs w wbs' \<longleftrightarrow> (\<exists>pre. wbs = pre @ wbs' \<and> w = pending pre)
     \<or> (\<exists>pre wb next n. wbs = pre @ wb # next \<and> n < length (rest_of wb) \<and> w = pending pre @ take n (rest_of wb)
          \<and> wbs' = wb\<lparr>sb_off := sb_off wb + n\<rparr> # next)"

lemma sent_part_cons: "sent_part wbs w wbs' \<Longrightarrow> sent_part (wb # wbs) (rest_of wb @ w) wbs'"
  unfolding sent_part_def by (metis append_Cons append_assoc pending_simps(2))

lemma rest_advance: "rest_of (wb\<lparr>sb_off := sb_off wb + n\<rparr>) = drop n (rest_of wb)"
  by (simp add: rest_of_def add.commute)

lemma sent_part_pending: "sent_part wbs w wbs' \<Longrightarrow> w @ pending wbs' = pending wbs"
  by (auto simp: sent_part_def rest_advance)

lemma sent_part_ok: "sent_part wbs w wbs' \<Longrightarrow> \<forall>wb\<in>set wbs. sb_ok wb \<Longrightarrow> \<forall>wb\<in>set wbs'. sb_ok wb"
  by (auto simp: sent_part_def sb_ok_def rest_of_def)

lemma set_tl: "x \<in> set (tl xs) \<Longrightarrow> x \<in> set xs"
  by (cases xs) auto

lemma sent_part_tl: "sent_part wbs w wbs' \<Longrightarrow> \<forall>wb\<in>set (tl wbs). sb_off wb = 0 \<Longrightarrow> \<forall>wb\<in>set (tl wbs'). sb_off wb = 0"
  unfolding sent_part_def
  by (elim disjE exE conjE; case_tac pre) (auto dest: set_tl)

text \<open>The socket after a list was sent: closed, or with the written bytes gone.\<close>

definition closed :: "socket \<Rightarrow> socket" where
  "closed s = s\<lparr>sk_high := [], sk_low := [], sk_type := SOCKET_TYPE_INVALID\<rparr>"

definition close_message :: "socket \<Rightarrow> socket_message" where
  "close_message s = \<lparr>sm_id = sk_id s, sm_opaque = sk_opaque s, sm_ud = 0, sm_data = D_null\<rparr>"

lemma force_close_ok:
  assumes "sk_type (ss_slot ss k) \<noteq> SOCKET_TYPE_RESERVE" "sk_type (ss_slot ss k) \<noteq> SOCKET_TYPE_INVALID"
  shows "\<exists>ops. force_close k ss res = Some (put_socket k (closed (ss_slot ss k)) (trace ops ss), close_message (ss_slot ss k))"
  using assms by (simp add: force_close_def Let_def closed_def close_message_def) blast

definition live :: "socket \<Rightarrow> bool" where
  "live s \<longleftrightarrow> sk_type s \<noteq> SOCKET_TYPE_INVALID \<and> sk_type s \<noteq> SOCKET_TYPE_RESERVE"

definition list_sent :: "nat \<Rightarrow> priority \<Rightarrow> socket_server \<Rightarrow> sock_result \<Rightarrow> socket_server \<Rightarrow> socket_message \<Rightarrow> bool" where
  "list_sent k p ss r ss' res' \<longleftrightarrow> (\<exists>ops. touch k ops ss ss' \<and> (
     let s = ss_slot ss k; s' = ss_slot ss' k in
     (r = SR_close \<and> sk_type s' = SOCKET_TYPE_INVALID \<and> sk_high s' = [] \<and> sk_low s' = [] \<and> sk_id s' = sk_id s \<and> sm_id res' = sk_id s)
     \<or> (r = SR_none \<and> (\<exists>w wbs'. (sk_protocol s = PROTOCOL_TCP \<longrightarrow> sent_to (sk_fd s) ops = w) \<and> sent_part (the_list p s) w wbs'
          \<and> s' = (set_list p wbs' s)\<lparr>sk_wb_size := sk_wb_size s - int (length w)\<rparr>))))"

lemma list_sentI:
  assumes "touch k ops ss ss'" "sk_protocol (ss_slot ss k) = PROTOCOL_TCP \<Longrightarrow> sent_to (sk_fd (ss_slot ss k)) ops = w"
    "sent_part (the_list p (ss_slot ss k)) w wbs'"
    "ss_slot ss' k = (set_list p wbs' (ss_slot ss k))\<lparr>sk_wb_size := sk_wb_size (ss_slot ss k) - int (length w)\<rparr>"
  shows "list_sent k p ss SR_none ss' res"
  using assms unfolding list_sent_def Let_def by blast

lemma list_sent_stay: "touch k ops ss ss' \<Longrightarrow> sent_to (sk_fd (ss_slot ss k)) ops = [] \<Longrightarrow> ss_slot ss' k = ss_slot ss k \<Longrightarrow>
    list_sent k p ss SR_none ss' res"
  by (rule list_sentI [of k ops ss ss' "[]" p "the_list p (ss_slot ss k)"]) (simp_all add: sent_part_def)

lemma list_sent_cons:
  assumes "touch k ops ss ss1" "the_list p (ss_slot ss k) = wb # wbs"
    "sk_protocol (ss_slot ss k) = PROTOCOL_TCP \<Longrightarrow> sent_to (sk_fd (ss_slot ss k)) ops = rest_of wb"
    "ss_slot ss1 k = (set_list p wbs (ss_slot ss k))\<lparr>sk_wb_size := sk_wb_size (ss_slot ss k) - int (length (rest_of wb))\<rparr>"
    "list_sent k p ss1 r ss' res'"
  shows "list_sent k p ss r ss' res'"
proof -
  from assms(5) consider (close) ops' where "touch k ops' ss1 ss'" "r = SR_close" "sk_type (ss_slot ss' k) = SOCKET_TYPE_INVALID"
      "sk_high (ss_slot ss' k) = []" "sk_low (ss_slot ss' k) = []" "sk_id (ss_slot ss' k) = sk_id (ss_slot ss1 k)" "sm_id res' = sk_id (ss_slot ss1 k)"
    | (more) ops' w wbs' where "touch k ops' ss1 ss'" "r = SR_none"
      "sk_protocol (ss_slot ss1 k) = PROTOCOL_TCP \<longrightarrow> sent_to (sk_fd (ss_slot ss1 k)) ops' = w"
      "sent_part (the_list p (ss_slot ss1 k)) w wbs'"
      "ss_slot ss' k = (set_list p wbs' (ss_slot ss1 k))\<lparr>sk_wb_size := sk_wb_size (ss_slot ss1 k) - int (length w)\<rparr>"
    unfolding list_sent_def Let_def by auto
  then show ?thesis
  proof cases
    case close
    then show ?thesis using touch_trans [OF assms(1) close(1)] assms(4) unfolding list_sent_def Let_def by auto
  next
    case more
    have "sent_part (wb # wbs) (rest_of wb @ w) wbs'" using more(4) assms(4) by (intro sent_part_cons) simp
    then have "list_sent k p ss SR_none ss' res'"
      using more(3,5) assms(2-4) by (intro list_sentI [OF touch_trans [OF assms(1) more(1)], of "rest_of wb @ w"]) auto
    then show ?thesis using more(2) by simp
  qed
qed

text \<open>One write.\<close>

lemma send_list_tcp_write:
  assumes "the_list p (ss_slot ss k) = wb # wbs" "sb_ok wb" "an_err (ss_env ss (ss_clock ss)) \<noteq> Some EINTR"
  defines "s \<equiv> ss_slot ss k" and "a \<equiv> ss_env ss (ss_clock ss)"
  defines "n \<equiv> min (an_num a) (length (rest_of wb))" and "ss1 \<equiv> ss\<lparr>ss_clock := ss_clock ss + 1\<rparr>"
  defines "ss2 \<equiv> trace [T_write (sk_fd s) (take n (rest_of wb))] ss1"
  shows "send_list_tcp k p ss res =
    (if an_err a = Some EAGAIN then Some (SR_none, ss1, res)
     else if an_err a \<noteq> None then do { (ss, res) \<leftarrow> force_close k ss1 res; Some (SR_close, ss, res) }
     else if n \<noteq> length (rest_of wb)
     then Some (SR_none, put_socket k ((set_list p (wb\<lparr>sb_off := sb_off wb + n\<rparr> # wbs) s)\<lparr>sk_wb_size := sk_wb_size s - int n\<rparr>) ss2, res)
     else send_list_tcp k p (trace [write_buffer_free wb] (put_socket k ((set_list p wbs s)\<lparr>sk_wb_size := sk_wb_size s - int n\<rparr>) ss2)) res)"
  using assms(1-3) unfolding s_def a_def n_def ss1_def ss2_def
  by (subst send_list_tcp.simps) (simp add: sb_rest_ok sys_write_def sys_def Let_def split: option.splits)

lemma send_list_tcp_ok:
  assumes "fair ss" "live (ss_slot ss k)" "\<forall>wb\<in>set (the_list p (ss_slot ss k)). sb_ok wb"
  shows "\<exists>r ss' res'. send_list_tcp k p ss res = Some (r, ss', res') \<and> list_sent k p ss r ss' res'"
  using assms
proof (induction "the_list p (ss_slot ss k)" arbitrary: ss)
  case Nil
  then have "send_list_tcp k p ss res = Some (SR_none, ss, res)" by (subst send_list_tcp.simps) simp
  with list_sent_stay [OF touch_same] show ?case by auto
next
  case (Cons wb wbs)
  obtain d where d: "an_err (ss_env ss (ss_clock ss + d)) \<noteq> Some EINTR" "\<forall>j<d. an_err (ss_env ss (ss_clock ss + j)) = Some EINTR"
    using next_answer [OF Cons.prems(1)] .
  have wbs: "the_list p (ss_slot ss k) = wb # wbs" and ok: "sb_ok wb" using Cons.prems(3) Cons(2) [symmetric] by simp_all
  define ss0 where "ss0 = ss\<lparr>ss_clock := ss_clock ss + d\<rparr>"
  define s where "s = ss_slot ss k"
  define n where "n = min (an_num (ss_env ss (ss_clock ss + d))) (length (rest_of wb))"
  define ss1 where "ss1 = ss0\<lparr>ss_clock := ss_clock ss0 + 1\<rparr>"
  define ss2 where "ss2 = trace [T_write (sk_fd s) (take n (rest_of wb))] ss1"
  have skip: "send_list_tcp k p ss res = send_list_tcp k p ss0 res"
    unfolding ss0_def by (rule skip_interrupts [OF wbs ok d(2)])
  have t1: "touch k [] ss ss1" and t2: "touch k [T_write (sk_fd s) (take n (rest_of wb))] ss ss2"
    using touch_trans [of k "[]" ss ss1] by (simp_all add: ss0_def ss1_def ss2_def)
  let ?err = "an_err (ss_env ss (ss_clock ss + d))"
  have eq: "send_list_tcp k p ss res =
      (if ?err = Some EAGAIN then Some (SR_none, ss1, res)
       else if ?err \<noteq> None then do { (ss, res) \<leftarrow> force_close k ss1 res; Some (SR_close, ss, res) }
       else if n \<noteq> length (rest_of wb)
       then Some (SR_none, put_socket k ((set_list p (wb\<lparr>sb_off := sb_off wb + n\<rparr> # wbs) s)\<lparr>sk_wb_size := sk_wb_size s - int n\<rparr>) ss2, res)
       else send_list_tcp k p (trace [write_buffer_free wb] (put_socket k ((set_list p wbs s)\<lparr>sk_wb_size := sk_wb_size s - int n\<rparr>) ss2)) res)"
    using skip send_list_tcp_write [of p ss0 k wb wbs res] wbs ok d(1) by (simp add: ss0_def s_def n_def ss1_def ss2_def)
  consider (again) "?err = Some EAGAIN" | (error) "?err \<noteq> None" "?err \<noteq> Some EAGAIN"
    | (part) "?err = None" "n < length (rest_of wb)" | (all) "?err = None" "n = length (rest_of wb)"
    using min.cobounded2 [of "an_num (ss_env ss (ss_clock ss + d))" "length (rest_of wb)"] unfolding n_def [symmetric]
    by (cases ?err) (auto simp: le_less)
  then show ?case
  proof cases
    case again
    then show ?thesis using eq list_sent_stay [OF t1] by (simp add: ss1_def ss0_def)
  next
    case error
    have "sk_type (ss_slot ss1 k) \<noteq> SOCKET_TYPE_RESERVE" "sk_type (ss_slot ss1 k) \<noteq> SOCKET_TYPE_INVALID"
      using Cons.prems(2) by (simp_all add: ss1_def ss0_def live_def)
    from force_close_ok [OF this, of res] obtain ops where
      "force_close k ss1 res = Some (put_socket k (closed (ss_slot ss1 k)) (trace ops ss1), close_message (ss_slot ss1 k))" by blast
    moreover have "touch k ops ss (put_socket k (closed (ss_slot ss1 k)) (trace ops ss1))"
      using touch_trans [OF touch_trans [OF t1 touch_trace] touch_put] by simp
    ultimately show ?thesis using error eq
      by (auto simp: list_sent_def Let_def ss1_def ss0_def closed_def close_message_def)
  next
    case part
    let ?ss = "put_socket k ((set_list p (wb\<lparr>sb_off := sb_off wb + n\<rparr> # wbs) s)\<lparr>sk_wb_size := sk_wb_size s - int n\<rparr>) ss2"
    have "sent_part (wb # wbs) (take n (rest_of wb)) (wb\<lparr>sb_off := sb_off wb + n\<rparr> # wbs)"
      unfolding sent_part_def using part(2) by (intro disjI2 exI [of _ "[]"]) auto
    then have "list_sent k p ss SR_none ?ss res"
      using wbs part(2) by (intro list_sentI [OF touch_trans [OF t2 touch_put], of "take n (rest_of wb)"]) (auto simp: s_def)
    then show ?thesis using eq part by auto
  next
    case all
    let ?ss = "trace [write_buffer_free wb] (put_socket k ((set_list p wbs s)\<lparr>sk_wb_size := sk_wb_size s - int n\<rparr>) ss2)"
    have t: "touch k ([T_write (sk_fd s) (take n (rest_of wb))] @ [] @ [write_buffer_free wb]) ss ?ss"
      by (rule touch_trans [OF t2 touch_trans [OF touch_put touch_trace]])
    have "fair ?ss" "live (ss_slot ?ss k)" "wbs = the_list p (ss_slot ?ss k)"
      using Cons.prems touch_fields [OF t] by (simp_all add: fair_def live_def s_def)
    moreover have "\<forall>wb\<in>set (the_list p (ss_slot ?ss k)). sb_ok wb" using Cons.prems(3) wbs by (simp add: s_def)
    ultimately obtain r ss' res' where "send_list_tcp k p ?ss res = Some (r, ss', res')" "list_sent k p ?ss r ss' res'"
      using Cons(1) [of ?ss] by auto
    then show ?thesis using eq all list_sent_cons [OF t wbs] by (auto simp: s_def)
  qed
qed

text \<open>Datagrams leave as a whole.\<close>

lemma send_list_udp_ok:
  assumes "sk_protocol (ss_slot ss k) \<noteq> PROTOCOL_TCP" "\<forall>wb\<in>set (the_list p (ss_slot ss k)). sb_ok wb"
  shows "\<exists>r ss' res'. send_list_udp k p ss res = Some (r, ss', res') \<and> list_sent k p ss r ss' res'"
  unfolding send_list_udp_def using assms
proof (induction "the_list p (ss_slot ss k)" arbitrary: ss)
  case Nil
  with list_sent_stay [OF touch_same] show ?case by (auto simp: Nil(1) [symmetric])
next
  case (Cons wb wbs)
  have wbs: "the_list p (ss_slot ss k) = wb # wbs" and ok: "sb_ok wb" using Cons.prems(2) Cons(2) [symmetric] by simp_all
  define s where "s = ss_slot ss k"
  define ss1 where "ss1 = ss\<lparr>ss_clock := ss_clock ss + 1\<rparr>"
  let ?err = "an_err (ss_env ss (ss_clock ss))"
  let ?op = "T_sendto (sk_fd s) (rest_of wb) (udp_socket_address (sk_protocol s) (sb_udp_address wb))"
  let ?ss = "trace [write_buffer_free wb] (put_socket k ((set_list p wbs s)\<lparr>sk_wb_size := sk_wb_size s - int (length (rest_of wb))\<rparr>) (trace [?op] ss1))"
  have t1: "touch k [] ss ss1" by (simp add: ss1_def)
  have eq: "send_list_udp_loop k p (wb # wbs) ss res = (case ?err of
      Some e \<Rightarrow> Some (SR_none, if e = EINTR \<or> e = EAGAIN then ss1 else trace [T_stderr ''socket-server : udp (%d) sendto error %s.''] ss1, res)
    | None \<Rightarrow> send_list_udp_loop k p wbs ?ss res)"
    using ok by (simp add: sb_rest_ok sys_sendto_def sys_def Let_def s_def ss1_def split: option.splits)
  show ?case
  proof (cases ?err)
    case None
    have t: "touch k ([] @ [?op] @ [] @ [write_buffer_free wb]) ss ?ss"
      by (rule touch_trans [OF t1 touch_trans [OF touch_trace touch_trans [OF touch_put touch_trace]]])
    have "wbs = the_list p (ss_slot ?ss k)" "sk_protocol (ss_slot ?ss k) \<noteq> PROTOCOL_TCP" "\<forall>wb\<in>set (the_list p (ss_slot ?ss k)). sb_ok wb"
      using Cons.prems wbs by (simp_all add: s_def)
    from Cons(1) [OF this] obtain r ss' res' where
      "send_list_udp_loop k p (the_list p (ss_slot ?ss k)) ?ss res = Some (r, ss', res')" "list_sent k p ?ss r ss' res'" by blast
    then show ?thesis using eq None list_sent_cons [OF t wbs] Cons.prems(1) by (auto simp: wbs s_def)
  next
    case (Some e)
    then show ?thesis using eq list_sent_stay [OF t1] list_sent_stay [OF touch_trans [OF t1 touch_trace]]
      by (auto simp: wbs ss1_def)
  qed
qed

lemma send_list_ok:
  assumes "fair ss" "live (ss_slot ss k)" "\<forall>wb\<in>set (the_list p (ss_slot ss k)). sb_ok wb"
  shows "\<exists>r ss' res'. send_list k p ss res = Some (r, ss', res') \<and> list_sent k p ss r ss' res'"
  unfolding send_list_def using send_list_tcp_ok [OF assms] send_list_udp_ok [of ss k p res] assms(3) by auto

section \<open>Both lists\<close>

definition same_socket :: "socket \<Rightarrow> socket \<Rightarrow> bool" where
  "same_socket s s' \<longleftrightarrow> sk_id s' = sk_id s \<and> sk_fd s' = sk_fd s \<and> sk_type s' = sk_type s \<and> sk_protocol s' = sk_protocol s
     \<and> sk_p s' = sk_p s \<and> sk_opaque s' = sk_opaque s"

text \<open>The socket is closed, with a message that names it.\<close>

definition gone :: "socket \<Rightarrow> sock_result \<Rightarrow> socket \<Rightarrow> socket_message \<Rightarrow> bool" where
  "gone s r s' res' \<longleftrightarrow> r = SR_close \<and> sk_type s' = SOCKET_TYPE_INVALID \<and> sk_high s' = [] \<and> sk_low s' = [] \<and> sk_id s' = sk_id s
     \<and> sm_id res' = sk_id s"

text \<open>The bytes \<open>w\<close> have been written: the high list first, then buffers of the low list; one that
  was written in part is now in the high list.\<close>

definition moved :: "socket \<Rightarrow> bytes \<Rightarrow> socket \<Rightarrow> bool" where
  "moved s w s' \<longleftrightarrow> same_socket s s' \<and> lists_ok s'
     \<and> (\<exists>pre. sk_low s = pre @ sk_low s' \<and> w @ pending (sk_high s') = pending (sk_high s) @ pending pre)"

definition buffer_sent :: "nat \<Rightarrow> socket_server \<Rightarrow> sock_result \<Rightarrow> socket_server \<Rightarrow> socket_message \<Rightarrow> bool" where
  "buffer_sent k ss r ss' res' \<longleftrightarrow> (\<exists>ops. touch k ops ss ss' \<and> (
     gone (ss_slot ss k) r (ss_slot ss' k) res'
     \<or> r = SR_none \<and> (\<exists>w. (sk_protocol (ss_slot ss k) = PROTOCOL_TCP \<longrightarrow> sent_to (sk_fd (ss_slot ss k)) ops = w)
          \<and> moved (ss_slot ss k) w (ss_slot ss' k))))"

lemma list_sent_cases:
  assumes "list_sent k p ss r ss' res'"
  obtains (closed) ops where "touch k ops ss ss'" "gone (ss_slot ss k) r (ss_slot ss' k) res'"
  | (going) ops w wbs' where "touch k ops ss ss'" "r = SR_none"
    "sk_protocol (ss_slot ss k) = PROTOCOL_TCP \<longrightarrow> sent_to (sk_fd (ss_slot ss k)) ops = w" "sent_part (the_list p (ss_slot ss k)) w wbs'"
    "ss_slot ss' k = (set_list p wbs' (ss_slot ss k))\<lparr>sk_wb_size := sk_wb_size (ss_slot ss k) - int (length w)\<rparr>"
  using assms unfolding list_sent_def Let_def gone_def by blast

lemma low_complete: "lists_ok s \<Longrightarrow> list_uncomplete ss (sk_low s) = Some False"
  by (cases "sk_low s") (auto simp: lists_ok_def uncomplete_ok list_uncomplete_def [of ss "[]"])

text \<open>After the high list.\<close>

lemma high_sent:
  assumes "lists_ok s" "sent_part (sk_high s) w h"
  shows "moved s w (s\<lparr>sk_high := h, sk_wb_size := sk_wb_size s - int (length w)\<rparr>)"
proof -
  have "w @ pending h = pending (sk_high s)" by (rule sent_part_pending [OF assms(2)])
  then have "length (pending (sk_high s)) = length w + length (pending h)" by (metis length_append)
  then show ?thesis
    using assms sent_part_ok [OF assms(2)] sent_part_tl [OF assms(2)] sent_part_pending [OF assms(2)]
    by (auto simp: moved_def same_socket_def lists_ok_def)
qed

text \<open>After the low list, when the high list is empty.\<close>

lemma low_sent:
  assumes "lists_ok s" "sk_high s = []" "sent_part (sk_low s) w l"
  defines "t \<equiv> s\<lparr>sk_low := l, sk_wb_size := sk_wb_size s - int (length w)\<rparr>"
  shows "\<exists>u s'. list_uncomplete ss l = Some u \<and> (if u then raise_uncomplete t else Some t) = Some s' \<and> moved s w s'"
proof -
  have low: "\<forall>wb\<in>set (sk_low s). sb_ok wb \<and> sb_off wb = 0" using assms(1) by (auto simp: lists_ok_def)
  have wp: "w @ pending l = pending (sk_low s)" by (rule sent_part_pending [OF assms(3)])
  then have len: "length (pending (sk_low s)) = length w + length (pending l)" by (metis length_append)
  from assms(3) consider (whole) pre where "sk_low s = pre @ l" "w = pending pre"
    | (part) pre wb rest n where "sk_low s = pre @ wb # rest" "n < length (rest_of wb)" "w = pending pre @ take n (rest_of wb)"
      "l = wb\<lparr>sb_off := sb_off wb + n\<rparr> # rest" unfolding sent_part_def by auto
  then show ?thesis
  proof cases
    case whole
    have "list_uncomplete ss l = Some False"
      using low whole by (cases l) (auto simp: uncomplete_ok list_uncomplete_def [of ss "[]"])
    moreover have "moved s w t" using whole low assms(1,2) len
      by (auto simp: moved_def same_socket_def lists_ok_def t_def)
    ultimately show ?thesis by auto
  next
    case part
    let ?wb = "wb\<lparr>sb_off := n\<rparr>"
    have wb: "sb_ok wb" "sb_off wb = 0" using low part(1) by auto
    then have ok: "sb_ok ?wb" using part(2) by (simp add: sb_ok_def rest_of_def)
    have l: "l = ?wb # rest" using part(4) wb by simp
    have rest: "rest_of ?wb = drop n (rest_of wb)" using rest_advance [of wb n] wb by simp
    have u: "list_uncomplete ss l = Some (n \<noteq> 0)" using ok l by (simp add: uncomplete_ok)
    have "moved s w t" if "n = 0"
      using that part low assms(1,2) len l wb by (auto simp: moved_def same_socket_def lists_ok_def t_def sb_ok_def)
    moreover have "raise_uncomplete t = Some (t\<lparr>sk_low := rest, sk_high := [?wb]\<rparr>)"
      using assms(2) by (simp add: raise_uncomplete_def t_def l)
    moreover have "moved s w (t\<lparr>sk_low := rest, sk_high := [?wb]\<rparr>)"
      using part(1,3) low assms(1,2) len l ok rest
      by (auto simp: moved_def same_socket_def lists_ok_def t_def intro!: exI [of _ "pre @ [wb]"])
    ultimately show ?thesis using u by auto
  qed
qed

lemma moved_trans: "moved s w s1 \<Longrightarrow> moved s1 w' s2 \<Longrightarrow> moved s (w @ w') s2"
  unfolding moved_def same_socket_def by auto

lemma moved_same: "lists_ok s \<Longrightarrow> moved s [] s"
  by (simp add: moved_def same_socket_def)

lemma gone_again: "gone s1 r s' res' \<Longrightarrow> sk_id s1 = sk_id s \<Longrightarrow> gone s r s' res'"
  by (simp add: gone_def)

lemma buffer_sent_gone: "touch k ops ss ss' \<Longrightarrow> gone (ss_slot ss k) r (ss_slot ss' k) res' \<Longrightarrow> buffer_sent k ss r ss' res'"
  unfolding buffer_sent_def by blast

lemma buffer_sent_moved:
  "touch k ops ss ss' \<Longrightarrow> moved (ss_slot ss k) w (ss_slot ss' k) \<Longrightarrow>
     (sk_protocol (ss_slot ss k) = PROTOCOL_TCP \<Longrightarrow> sent_to (sk_fd (ss_slot ss k)) ops = w) \<Longrightarrow> buffer_sent k ss SR_none ss' res'"
  unfolding buffer_sent_def by blast

lemma force_close_gone:
  assumes "live (ss_slot ss k)"
  shows "\<exists>ops ss' res'. force_close k ss res = Some (ss', res') \<and> touch k ops ss ss' \<and> gone (ss_slot ss k) SR_close (ss_slot ss' k) res'
    \<and> res' = close_message (ss_slot ss k) \<and> sent_to fd ops = []"
proof -
  let ?s = "ss_slot ss k"
  let ?ops = "free_wb_list (sk_high ?s) @ free_wb_list (sk_low ?s)
         @ (if sk_type ?s \<noteq> SOCKET_TYPE_PACCEPT \<and> sk_type ?s \<noteq> SOCKET_TYPE_PLISTEN then [T_sp_del (sk_fd ?s)] else [])
         @ (if sk_type ?s \<noteq> SOCKET_TYPE_BIND then [T_close (sk_fd ?s)] else [])"
  have "sent_to fd (free_wb_list wbs) = []" for wbs by (induction wbs) (simp_all add: free_wb_list_def)
  then have "sent_to fd ?ops = []" by simp
  moreover have "force_close k ss res = Some (put_socket k (closed ?s) (trace ?ops ss), close_message ?s)"
    using assms by (simp add: force_close_def Let_def closed_def close_message_def live_def)
  moreover have "touch k ?ops ss (put_socket k (closed ?s) (trace ?ops ss))" using touch_trans [OF touch_trace touch_put] by simp
  moreover have "gone ?s SR_close (closed ?s) (close_message ?s)" by (simp add: gone_def closed_def close_message_def)
  ultimately show ?thesis by (intro exI [of _ ?ops]) simp
qed

lemma buffer_sent_trans:
  assumes "touch k ops ss ss1" "moved (ss_slot ss k) w (ss_slot ss1 k)"
    "sk_protocol (ss_slot ss k) = PROTOCOL_TCP \<Longrightarrow> sent_to (sk_fd (ss_slot ss k)) ops = w" "buffer_sent k ss1 r ss' res'"
  shows "buffer_sent k ss r ss' res'"
proof -
  have same: "sk_id (ss_slot ss1 k) = sk_id (ss_slot ss k)" "sk_fd (ss_slot ss1 k) = sk_fd (ss_slot ss k)"
    "sk_protocol (ss_slot ss1 k) = sk_protocol (ss_slot ss k)" using assms(2) by (simp_all add: moved_def same_socket_def)
  from assms(4) consider (closed) ops' where "touch k ops' ss1 ss'" "gone (ss_slot ss1 k) r (ss_slot ss' k) res'"
    | (going) ops' w' where "touch k ops' ss1 ss'" "r = SR_none"
      "sk_protocol (ss_slot ss1 k) = PROTOCOL_TCP \<longrightarrow> sent_to (sk_fd (ss_slot ss1 k)) ops' = w'" "moved (ss_slot ss1 k) w' (ss_slot ss' k)"
    unfolding buffer_sent_def by blast
  then show ?thesis
  proof cases
    case closed
    then show ?thesis using buffer_sent_gone [OF touch_trans [OF assms(1) closed(1)]] gone_again same(1) by simp
  next
    case going
    then show ?thesis using buffer_sent_moved [OF touch_trans [OF assms(1) going(1)] moved_trans [OF assms(2) going(4)]] assms(3) same
      by simp
  qed
qed

text \<open>The steps 2 and 3 of the code: the low list, and step 4: nothing is left.\<close>

definition low_phase :: "nat \<Rightarrow> socket_server \<Rightarrow> socket_message \<Rightarrow> handled" where
  "low_phase k ss res = do {
     (r, ss, res) \<leftarrow> send_list k PRIORITY_LOW ss res;
     if r = SR_close then Some (SR_close, ss, res)
     else do {
       u \<leftarrow> list_uncomplete ss (sk_low (ss_slot ss k));
       if u then do { s \<leftarrow> raise_uncomplete (ss_slot ss k); Some (SR_none, put_socket k s ss, res) }
       else Some (SR_none, ss, res)
     }
   }"

definition done_phase :: "nat \<Rightarrow> socket_server \<Rightarrow> socket_message \<Rightarrow> handled" where
  "done_phase k ss res = do {
     let ss = trace [T_sp_write (sk_fd (ss_slot ss k)) False] ss;
     if sk_type (ss_slot ss k) = SOCKET_TYPE_HALFCLOSE
     then do { (ss, res) \<leftarrow> force_close k ss res; Some (SR_close, ss, res) }
     else Some (SR_none, ss, res)
   }"

lemma low_phase_ok:
  assumes "fair ss" "live (ss_slot ss k)" "lists_ok (ss_slot ss k)" "sk_high (ss_slot ss k) = []"
  shows "\<exists>r ss' res'. low_phase k ss res = Some (r, ss', res') \<and> buffer_sent k ss r ss' res'"
proof -
  let ?s = "ss_slot ss k"
  have "\<forall>wb\<in>set (the_list PRIORITY_LOW ?s). sb_ok wb" using assms(3) by (auto simp: lists_ok_def the_list_def)
  then obtain r ss1 res1 where 1: "send_list k PRIORITY_LOW ss res = Some (r, ss1, res1)" "list_sent k PRIORITY_LOW ss r ss1 res1"
    using send_list_ok [OF assms(1,2)] by blast
  from 1(2) show ?thesis
  proof (cases rule: list_sent_cases)
    case (closed ops)
    then show ?thesis using 1(1) buffer_sent_gone [OF closed] by (auto simp: low_phase_def gone_def)
  next
    case (going ops w l)
    have s1: "ss_slot ss1 k = ?s\<lparr>sk_low := l, sk_wb_size := sk_wb_size ?s - int (length w)\<rparr>" using going(5) by (simp add: set_list_def)
    from low_sent [OF assms(3,4), of w l ss1] going(4) obtain u s' where
      u: "list_uncomplete ss1 l = Some u" "(if u then raise_uncomplete (ss_slot ss1 k) else Some (ss_slot ss1 k)) = Some s'" "moved ?s w s'"
      unfolding s1 the_list_def by auto
    let ?ss = "if u then put_socket k s' ss1 else ss1"
    have "low_phase k ss res = Some (SR_none, ?ss, res1)" using 1(1) going(2) u(1,2) s1 by (auto simp: low_phase_def split: if_splits)
    moreover have "moved ?s w (ss_slot ?ss k)" "touch k (ops @ []) ss ?ss"
      using u(2,3) touch_trans [OF going(1), of "[]" ?ss] by (auto split: if_splits)
    ultimately show ?thesis using buffer_sent_moved [of k "ops @ []" ss ?ss w] going(3) by auto
  qed
qed

lemma done_phase_ok:
  assumes "live (ss_slot ss k)" "lists_ok (ss_slot ss k)"
  shows "\<exists>r ss' res'. done_phase k ss res = Some (r, ss', res') \<and> buffer_sent k ss r ss' res'"
proof -
  let ?ops = "[T_sp_write (sk_fd (ss_slot ss k)) False]"
  have t: "touch k ?ops ss (trace ?ops ss)" by simp
  have m: "moved (ss_slot ss k) [] (ss_slot (trace ?ops ss) k)" using assms(2) by (simp add: moved_same)
  have live: "live (ss_slot (trace ?ops ss) k)" using assms(1) by simp
  show ?thesis
  proof (cases "sk_type (ss_slot ss k) = SOCKET_TYPE_HALFCLOSE")
    case True
    from force_close_gone [OF live, of res 0] obtain ops ss' res' where
      fc: "force_close k (trace ?ops ss) res = Some (ss', res')" "touch k ops (trace ?ops ss) ss'" "gone (ss_slot ss k) SR_close (ss_slot ss' k) res'"
      by auto
    then show ?thesis using True buffer_sent_gone [OF touch_trans [OF t fc(2)]] by (auto simp: done_phase_def)
  next
    case False
    then show ?thesis using buffer_sent_moved [OF t m] by (auto simp: done_phase_def)
  qed
qed

lemma send_buffer_phases:
  assumes "lists_ok (ss_slot ss k)" "send_list k PRIORITY_HIGH ss res = Some (r, ss1, res1)"
  shows "send_buffer k ss res =
    (if r = SR_close then Some (SR_close, ss1, res1)
     else if sk_high (ss_slot ss1 k) \<noteq> [] then Some (SR_none, ss1, res1)
     else if sk_low (ss_slot ss1 k) \<noteq> [] then low_phase k ss1 res1 else done_phase k ss1 res1)"
  using assms low_complete [OF assms(1), of ss] by (simp add: send_buffer_def low_phase_def done_phase_def)

lemma send_buffer_ok:
  assumes "fair ss" "live (ss_slot ss k)" "lists_ok (ss_slot ss k)"
  shows "\<exists>r ss' res'. send_buffer k ss res = Some (r, ss', res') \<and> buffer_sent k ss r ss' res'"
proof -
  let ?s = "ss_slot ss k"
  have "\<forall>wb\<in>set (the_list PRIORITY_HIGH ?s). sb_ok wb" using assms(3) by (auto simp: lists_ok_def the_list_def)
  then obtain r ss1 res1 where 1: "send_list k PRIORITY_HIGH ss res = Some (r, ss1, res1)" "list_sent k PRIORITY_HIGH ss r ss1 res1"
    using send_list_ok [OF assms(1,2)] by blast
  note eq = send_buffer_phases [OF assms(3) 1(1)]
  from 1(2) show ?thesis
  proof (cases rule: list_sent_cases)
    case (closed ops)
    then show ?thesis using eq buffer_sent_gone [OF closed] by (auto simp: gone_def)
  next
    case (going ops w h)
    have s1: "ss_slot ss1 k = ?s\<lparr>sk_high := h, sk_wb_size := sk_wb_size ?s - int (length w)\<rparr>" using going(5) by (simp add: set_list_def)
    have m: "moved ?s w (ss_slot ss1 k)" unfolding s1 using going(4) by (intro high_sent [OF assms(3)]) (simp add: the_list_def)
    have ok: "fair ss1" "live (ss_slot ss1 k)" "lists_ok (ss_slot ss1 k)"
      using assms(1,2) m s1 touch_fields [OF going(1)] by (simp_all add: fair_def live_def moved_def)
    have tcp: "sk_protocol ?s = PROTOCOL_TCP \<Longrightarrow> sent_to (sk_fd ?s) ops = w" using going(3) by simp
    have "\<exists>r ss' res'. send_buffer k ss res = Some (r, ss', res') \<and> buffer_sent k ss1 r ss' res'"
      using eq going(2) low_phase_ok [OF ok] done_phase_ok [OF ok(2,3)] buffer_sent_moved [OF touch_same moved_same [OF ok(3)]]
      by auto
    then show ?thesis using buffer_sent_trans [OF going(1) m tcp] by blast
  qed
qed

end
