(* ===== verification/Socket_Stream.thy ===== *)
theory Socket_Stream
  imports Socket_Buffers
begin

unbundle bit_operations_syntax

text \<open>
  The stream of a TCP connection: messages sent with two priorities leave the connection as
  whole messages, in the order of their priority lists, whatever the network accepts at a time.
\<close>

section \<open>Sending a message\<close>

definition msg_of :: "write_buffer \<Rightarrow> bytes" where
  "msg_of wb = pay_bytes (sb_buffer wb)"

text \<open>The message \<open>bs\<close> was taken over, of which \<open>w\<close> was written at once: it is behind everything in
  the high list, or behind everything in the low list.\<close>

definition queued :: "priority \<Rightarrow> bytes \<Rightarrow> socket \<Rightarrow> bytes \<Rightarrow> socket \<Rightarrow> bool" where
  "queued p bs s w s' \<longleftrightarrow> same_socket s s' \<and> lists_ok s' \<and>
     ((p = PRIORITY_HIGH \<or> sk_low s = []) \<and> sk_low s' = sk_low s \<and> w @ pending (sk_high s') = pending (sk_high s) @ bs
      \<or> p = PRIORITY_LOW \<and> w = [] \<and> pending (sk_high s') = pending (sk_high s)
          \<and> (\<exists>wb. sk_low s' = sk_low s @ [wb] \<and> msg_of wb = bs))"

text \<open>A connection that takes messages.\<close>

definition accepts :: "int \<Rightarrow> socket_server \<Rightarrow> bool" where
  "accepts i ss \<longleftrightarrow> (let s = ss_slot ss (HASH_ID i) in sk_id s = i \<and> sk_protocol s = PROTOCOL_TCP
     \<and> sk_type s \<in> {SOCKET_TYPE_CONNECTED, SOCKET_TYPE_CONNECTING, SOCKET_TYPE_BIND} \<and> (\<exists>n. sk_p s = P_size n))"

lemma accepts_live: "accepts i ss \<Longrightarrow> live (ss_slot ss (HASH_ID i))"
  by (auto simp: accepts_def live_def Let_def)

definition appended :: "priority \<Rightarrow> payload \<Rightarrow> nat \<Rightarrow> bytes \<Rightarrow> socket \<Rightarrow> socket" where
  "appended p pay n addr s = (set_list p (the_list p s @ [\<lparr>sb_buffer = pay, sb_off = n, sb_udp_address = addr\<rparr>]) s)
     \<lparr>sk_wb_size := sk_wb_size s + int (length (pay_bytes pay) - n)\<rparr>"

lemma append_at_ok:
  "is_memory pay \<Longrightarrow> append_sendbuffer_at k p pay n addr ss = Some (put_socket k (appended p pay n addr (ss_slot ss k)) ss)"
  by (simp add: append_sendbuffer_at_def send_object_memory appended_def Let_def)

lemma appended_lists_ok:
  assumes "lists_ok s" "is_memory pay" "n \<le> length (pay_bytes pay)" "n = 0 \<or> p = PRIORITY_HIGH \<and> sk_high s = []"
  shows "lists_ok (appended p pay n addr s)"
  using assms by (cases p; cases "sk_high s") (auto simp: lists_ok_def appended_def set_list_def the_list_def sb_ok_def rest_of_def)

lemma appended_same: "same_socket s (appended p pay n addr s)"
  by (simp add: same_socket_def appended_def)

lemma appended_high:
  assumes "lists_ok s" "is_memory pay" "n \<le> length (pay_bytes pay)" "n = 0 \<or> sk_high s = [] \<and> sk_low s = []" "p' = PRIORITY_HIGH \<or> sk_low s = []"
  shows "queued p' (pay_bytes pay) s (take n (pay_bytes pay)) (appended PRIORITY_HIGH pay n addr s)"
  using assms appended_lists_ok [OF assms(1-3), of PRIORITY_HIGH addr] appended_same [of s PRIORITY_HIGH pay n addr]
  by (auto simp: queued_def appended_def set_list_def the_list_def rest_of_def)

lemma appended_low:
  assumes "lists_ok s" "is_memory pay"
  shows "queued PRIORITY_LOW (pay_bytes pay) s [] (appended PRIORITY_LOW pay 0 addr s)"
  using assms appended_lists_ok [of s pay 0 PRIORITY_LOW addr] appended_same [of s PRIORITY_LOW pay 0 addr]
  by (auto simp: queued_def appended_def set_list_def the_list_def msg_of_def)

definition send_done :: "int \<Rightarrow> priority \<Rightarrow> bytes \<Rightarrow> socket_server \<Rightarrow> sock_result \<Rightarrow> socket_server \<Rightarrow> socket_message \<Rightarrow> bool" where
  "send_done i p bs ss r ss' res' \<longleftrightarrow> (let k = HASH_ID i; s = ss_slot ss k in
     \<exists>ops. touch k ops ss ss' \<and> (gone s r (ss_slot ss' k) res'
       \<or> r = SR_none \<and> queued p bs s (sent_to (sk_fd s) ops) (ss_slot ss' k)))"

lemma send_doneI:
  "touch (HASH_ID i) ops ss ss' \<Longrightarrow> queued p bs (ss_slot ss (HASH_ID i)) (sent_to (sk_fd (ss_slot ss (HASH_ID i))) ops) (ss_slot ss' (HASH_ID i)) \<Longrightarrow>
     send_done i p bs ss SR_none ss' res'"
  unfolding send_done_def Let_def by blast

text \<open>The write to a socket without pending data.\<close>

lemma send_direct_ok:
  assumes "accepts i ss" "lists_ok (ss_slot ss (HASH_ID i))" "send_buffer_empty (ss_slot ss (HASH_ID i))" "is_memory pay"
  shows "\<exists>r ss' res'. send_direct_tcp (HASH_ID i) i pay (pay_bytes pay) ss res = Some (r, ss', res') \<and> send_done i p (pay_bytes pay) ss r ss' res'"
proof -
  let ?k = "HASH_ID i"
  let ?s = "ss_slot ss ?k" and ?a = "ss_env ss (ss_clock ss)" and ?bs = "pay_bytes pay"
  define ss1 where "ss1 = ss\<lparr>ss_clock := ss_clock ss + 1\<rparr>"
  have t1: "touch ?k [] ss ss1" and s1: "ss_slot ss1 = ss_slot ss" by (simp_all add: ss1_def)
  have empty: "sk_high ?s = []" "sk_low ?s = []" using assms(3) by (simp_all add: send_buffer_empty_def)
  have whole: "queued p ?bs ?s ?bs ?s" using assms(2) empty by (simp add: queued_def same_socket_def)
  have part: "queued p ?bs ?s (take n ?bs) (appended PRIORITY_HIGH pay n [] ?s)" if "n \<le> length ?bs" for n
    using appended_high [OF assms(2,4) that] empty by simp
  show ?thesis
  proof (cases "an_err ?a")
    case None
    define n where "n = min (an_num ?a) (length ?bs)"
    let ?op = "T_write (sk_fd ?s) (take n ?bs)"
    define ss2 where "ss2 = trace [?op] ss1"
    have t2: "touch ?k [?op] ss ss2" and s2: "ss_slot ss2 = ss_slot ss" using touch_trans [OF t1 touch_trace] by (simp_all add: ss2_def s1)
    have n: "n \<le> length ?bs" by (simp add: n_def)
    have eq: "send_direct_tcp ?k i pay ?bs ss res = (if n = length ?bs then Some (SR_none, trace [free_payload pay] ss2, res)
        else Some (SR_none, trace [T_sp_write (sk_fd ?s) True] (put_socket ?k (appended PRIORITY_HIGH pay n [] ?s) ss2), res))"
      using None assms(4) s2
      by (simp add: send_direct_tcp_def sys_write_def sys_def Let_def append_sendbuffer_def append_at_ok n_def ss1_def ss2_def)
    have "send_done i p ?bs ss SR_none (trace [free_payload pay] ss2) res" if "n = length ?bs"
      using that whole s2 by (intro send_doneI [OF touch_trans [OF t2 touch_trace]]) simp
    moreover have "send_done i p ?bs ss SR_none (trace [T_sp_write (sk_fd ?s) True] (put_socket ?k (appended PRIORITY_HIGH pay n [] ?s) ss2)) res"
      using part [OF n] by (intro send_doneI [OF touch_trans [OF t2 touch_trans [OF touch_put touch_trace]]]) simp
    ultimately show ?thesis using eq by auto
  next
    case (Some e)
    show ?thesis
    proof (cases "e = EINTR \<or> e = EAGAIN")
      case True
      have eq: "send_direct_tcp ?k i pay ?bs ss res = (if ?bs = [] then Some (SR_none, trace [free_payload pay] ss1, res)
          else Some (SR_none, trace [T_sp_write (sk_fd ?s) True] (put_socket ?k (appended PRIORITY_HIGH pay 0 [] ?s) ss1), res))"
        using Some True assms(4) s1
        by (auto simp: send_direct_tcp_def sys_write_def sys_def Let_def append_sendbuffer_def append_at_ok ss1_def)
      have "send_done i p ?bs ss SR_none (trace [free_payload pay] ss1) res" if "?bs = []"
        using that whole s1 by (intro send_doneI [OF touch_trans [OF t1 touch_trace]]) simp
      moreover have "send_done i p ?bs ss SR_none (trace [T_sp_write (sk_fd ?s) True] (put_socket ?k (appended PRIORITY_HIGH pay 0 [] ?s) ss1)) res"
        using part [of 0] by (intro send_doneI [OF touch_trans [OF t1 touch_trans [OF touch_put touch_trace]]]) simp
      ultimately show ?thesis using eq by auto
    next
      case False
      let ?ss = "trace [T_stderr ''socket-server: write to %d (fd=%d) error :%s.''] ss1"
      have "live (ss_slot ?ss ?k)" using accepts_live [OF assms(1)] s1 by simp
      from force_close_gone [OF this, of res 0] obtain ops ss' res' where
        fc: "force_close ?k ?ss res = Some (ss', res')" "touch ?k ops ?ss ss'" "gone ?s SR_close (ss_slot ss' ?k) res'" by (auto simp: s1)
      have "send_direct_tcp ?k i pay ?bs ss res = Some (SR_close, trace [free_payload pay] ss', res')"
        using Some False fc(1) by (simp add: send_direct_tcp_def sys_write_def sys_def Let_def ss1_def)
      moreover have "send_done i p ?bs ss SR_close (trace [free_payload pay] ss') res'"
        using touch_trans [OF t1 touch_trans [OF touch_trace touch_trans [OF fc(2) touch_trace]]] fc(3) unfolding send_done_def Let_def by auto
      ultimately show ?thesis by blast
    qed
  qed
qed

lemma send_socket_ok:
  assumes "accepts i ss" "lists_ok (ss_slot ss (HASH_ID i))" "is_memory pay"
  shows "\<exists>r ss' res'. send_socket i pay p addr ss res = Some (r, ss', res') \<and> send_done i p (pay_bytes pay) ss r ss' res'"
proof (cases "send_buffer_empty (ss_slot ss (HASH_ID i)) \<and> sk_type (ss_slot ss (HASH_ID i)) = SOCKET_TYPE_CONNECTED")
  case True
  then have "send_socket i pay p addr ss res = send_direct_tcp (HASH_ID i) i pay (pay_bytes pay) ss res"
    using assms(1,3) by (simp add: send_socket_def accepts_def Let_def send_object_memory)
  with send_direct_ok [OF assms(1,2) _ assms(3)] True show ?thesis by simp
next
  case False
  let ?k = "HASH_ID i"
  let ?s = "ss_slot ss ?k"
  define q where "q = (if p = PRIORITY_LOW then PRIORITY_LOW else PRIORITY_HIGH)"
  have "send_socket i pay p addr ss res = Some (SR_none, put_socket ?k (appended q pay 0 [] ?s) ss, res)"
    using False assms(1,3)
    by (auto simp: send_socket_def accepts_def Let_def send_object_memory append_sendbuffer_low_def append_sendbuffer_def append_at_ok q_def)
  moreover have "queued p (pay_bytes pay) ?s [] (appended q pay 0 [] ?s)"
    using appended_low [OF assms(2,3)] appended_high [OF assms(2,3), of 0 p "[]"] by (cases p) (simp_all add: q_def)
  then have "send_done i p (pay_bytes pay) ss SR_none (put_socket ?k (appended q pay 0 [] ?s) ss) res"
    by (intro send_doneI [OF touch_put]) simp
  ultimately show ?thesis by blast
qed

section \<open>The stream\<close>

text \<open>What happens to a connection: a request to send a message, or an event.\<close>

datatype socket_op = Send priority payload | Event bool bool

definition run_op :: "int \<Rightarrow> socket_op \<Rightarrow> socket_server \<Rightarrow> socket_message \<Rightarrow> handled" where
  "run_op i op ss res = (case op of
     Send p pay \<Rightarrow> send_socket i pay p None ss res
   | Event r w \<Rightarrow> poll_event (HASH_ID i) \<lparr>ev_s = Some (HASH_ID i), ev_read = r, ev_write = w\<rparr> ss res)"

fun run_ops :: "int \<Rightarrow> socket_op list \<Rightarrow> socket_server \<Rightarrow> socket_message \<Rightarrow> handled" where
  "run_ops i [] ss res = Some (SR_none, ss, res)"
| "run_ops i (op # ops) ss res = do {
     (r, ss, res) \<leftarrow> run_op i op ss res;
     if r = SR_close \<or> r = SR_error then Some (r, ss, res) else run_ops i ops ss res
   }"

fun sent_msgs :: "priority \<Rightarrow> socket_op list \<Rightarrow> bytes list" where
  "sent_msgs p [] = []"
| "sent_msgs p (Send q pay # ops) = (if q = p then [pay_bytes pay] else []) @ sent_msgs p ops"
| "sent_msgs p (Event r w # ops) = sent_msgs p ops"

text \<open>The messages \<open>H\<close> of high and \<open>L\<close> of low priority were sent: some of those of low priority wait in
  their list. The others are, mixed with those of high priority, the bytes \<open>w\<close> that were written
  and what is left in the high list.\<close>

definition streamed :: "bytes list \<Rightarrow> bytes list \<Rightarrow> bytes \<Rightarrow> socket \<Rightarrow> bool" where
  "streamed H L w s \<longleftrightarrow> (\<exists>L1 A. L = L1 @ map msg_of (sk_low s) \<and> A \<in> shuffles H L1 \<and> w @ pending (sk_high s) = concat A)"

lemma shuffles_append:
  "A \<in> shuffles xs ys \<Longrightarrow> B \<in> shuffles us vs \<Longrightarrow> A @ B \<in> shuffles (xs @ us) (ys @ vs)"
proof (induction A arbitrary: xs ys)
  case (Cons a A)
  from Cons.prems(1) consider (left) xs' where "xs = a # xs'" "A \<in> shuffles xs' ys" | (right) ys' where "ys = a # ys'" "A \<in> shuffles xs ys'"
    by (auto simp: Cons_in_shuffles_iff neq_Nil_conv)
  then show ?case
    using Cons.IH Cons.prems(2) by cases (auto intro: Cons_in_shuffles_leftI Cons_in_shuffles_rightI)
qed simp

lemma streamed_more:
  assumes "streamed H L w s" "map msg_of (sk_low s) @ L' = K @ map msg_of (sk_low s')"
    "B \<in> shuffles H' K" "w' @ pending (sk_high s') = pending (sk_high s) @ concat B"
  shows "streamed (H @ H') (L @ L') (w @ w') s'"
proof -
  obtain L0 A where *: "L = L0 @ map msg_of (sk_low s)" "A \<in> shuffles H L0" "w @ pending (sk_high s) = concat A"
    using assms(1) unfolding streamed_def by blast
  have "L @ L' = (L0 @ K) @ map msg_of (sk_low s')" using * assms(2) by simp
  moreover have "A @ B \<in> shuffles (H @ H') (L0 @ K)" using * assms(3) by (intro shuffles_append)
  moreover have "(w @ w') @ pending (sk_high s') = concat (A @ B)" using * assms(4) by (metis append_assoc concat_append)
  ultimately show ?thesis unfolding streamed_def by blast
qed

lemma streamed_queued:
  assumes "streamed H L w s" "queued p bs s w' s'"
  shows "streamed (H @ (if p = PRIORITY_HIGH then [bs] else [])) (L @ (if p = PRIORITY_LOW then [bs] else [])) (w @ w') s'"
proof -
  from assms(2) consider (high) "p = PRIORITY_HIGH" "sk_low s' = sk_low s" "w' @ pending (sk_high s') = pending (sk_high s) @ bs"
    | (first) "p = PRIORITY_LOW" "sk_low s = []" "sk_low s' = []" "w' @ pending (sk_high s') = pending (sk_high s) @ bs"
    | (low) wb where "p = PRIORITY_LOW" "w' = []" "pending (sk_high s') = pending (sk_high s)" "sk_low s' = sk_low s @ [wb]" "msg_of wb = bs"
    unfolding queued_def by (cases p) auto
  then show ?thesis
  proof cases
    case high
    then show ?thesis using streamed_more [OF assms(1), of "[]" "[]" s' "[bs]" "[bs]" w'] by simp
  next
    case first
    then show ?thesis using streamed_more [OF assms(1), of "[bs]" "[bs]" s' "[bs]" "[]" w'] by simp
  next
    case low
    then show ?thesis using streamed_more [OF assms(1), of "[bs]" "[]" s' "[]" "[]" w'] by simp
  qed
qed

lemma pending_whole: "\<forall>wb\<in>set wbs. sb_off wb = 0 \<Longrightarrow> pending wbs = concat (map msg_of wbs)"
  by (induction wbs) (auto simp: msg_of_def rest_of_def)

lemma streamed_moved:
  assumes "streamed H L w s" "moved s w' s'" "lists_ok s"
  shows "streamed H L (w @ w') s'"
proof -
  obtain pre where pre: "sk_low s = pre @ sk_low s'" "w' @ pending (sk_high s') = pending (sk_high s) @ pending pre"
    using assms(2) unfolding moved_def by blast
  have "pending pre = concat (map msg_of pre)" using assms(3) pre(1) by (intro pending_whole) (auto simp: lists_ok_def)
  then show ?thesis using pre streamed_more [OF assms(1), of "[]" "map msg_of pre" s' "map msg_of pre" "[]" w'] by simp
qed

text \<open>An operation on a connection.\<close>

definition op_done :: "int \<Rightarrow> socket_op \<Rightarrow> socket_server \<Rightarrow> sock_result \<Rightarrow> socket_server \<Rightarrow> bool" where
  "op_done i op ss r ss' \<longleftrightarrow> (let s = ss_slot ss (HASH_ID i); s' = ss_slot ss' (HASH_ID i) in
     ss_env ss' = ss_env ss \<and> (\<exists>ops. ss_trace ss' = ss_trace ss @ ops \<and>
       (if r = SR_close \<or> r = SR_error then sk_type s' = SOCKET_TYPE_INVALID
        else accepts i ss' \<and> lists_ok s' \<and> sk_fd s' = sk_fd s \<and>
          (\<forall>H L w. streamed H L w s \<longrightarrow> streamed (H @ sent_msgs PRIORITY_HIGH [op]) (L @ sent_msgs PRIORITY_LOW [op]) (w @ sent_to (sk_fd s) ops) s'))))"

lemma accepts_same: "accepts i ss \<Longrightarrow> same_socket (ss_slot ss (HASH_ID i)) (ss_slot ss' (HASH_ID i)) \<Longrightarrow> accepts i ss'"
  by (auto simp: accepts_def same_socket_def Let_def)

lemma op_done_end:
  "ss_env ss' = ss_env ss \<Longrightarrow> ss_trace ss' = ss_trace ss @ ops \<Longrightarrow> r = SR_close \<or> r = SR_error \<Longrightarrow>
     sk_type (ss_slot ss' (HASH_ID i)) = SOCKET_TYPE_INVALID \<Longrightarrow> op_done i op ss r ss'"
  unfolding op_done_def Let_def by auto

lemma op_done_going:
  assumes "ss_env ss' = ss_env ss" "ss_trace ss' = ss_trace ss @ ops" "accepts i ss'" "lists_ok (ss_slot ss' (HASH_ID i))"
    "r \<noteq> SR_close" "r \<noteq> SR_error" "sk_fd (ss_slot ss' (HASH_ID i)) = sk_fd (ss_slot ss (HASH_ID i))"
    "\<And>H L w. streamed H L w (ss_slot ss (HASH_ID i)) \<Longrightarrow> streamed (H @ sent_msgs PRIORITY_HIGH [op]) (L @ sent_msgs PRIORITY_LOW [op])
        (w @ sent_to (sk_fd (ss_slot ss (HASH_ID i))) ops) (ss_slot ss' (HASH_ID i))"
  shows "op_done i op ss r ss'"
  using assms unfolding op_done_def Let_def by auto

lemma send_op_done:
  assumes "accepts i ss" "send_done i p (pay_bytes pay) ss r ss' res'"
  shows "op_done i (Send p pay) ss r ss'"
proof -
  obtain ops where t: "touch (HASH_ID i) ops ss ss'"
    and c: "gone (ss_slot ss (HASH_ID i)) r (ss_slot ss' (HASH_ID i)) res'
       \<or> r = SR_none \<and> queued p (pay_bytes pay) (ss_slot ss (HASH_ID i)) (sent_to (sk_fd (ss_slot ss (HASH_ID i))) ops) (ss_slot ss' (HASH_ID i))"
    using assms(2) unfolding send_done_def Let_def by blast
  note t = touch_fields(1,8) [OF t]
  from c show ?thesis
  proof (elim disjE conjE)
    assume "gone (ss_slot ss (HASH_ID i)) r (ss_slot ss' (HASH_ID i)) res'"
    then show ?thesis using t by (intro op_done_end [where ops = ops]) (auto simp: gone_def)
  next
    assume r: "r = SR_none" and q: "queued p (pay_bytes pay) (ss_slot ss (HASH_ID i)) (sent_to (sk_fd (ss_slot ss (HASH_ID i))) ops) (ss_slot ss' (HASH_ID i))"
    show ?thesis using r t q accepts_same [OF assms(1), of ss'] streamed_queued [OF _ q]
      by (intro op_done_going [where ops = ops]) (auto simp: queued_def same_socket_def)
  qed
qed

lemma buffer_op_done:
  assumes "accepts i ss" "lists_ok (ss_slot ss (HASH_ID i))" "buffer_sent (HASH_ID i) ss r ss' res'"
  shows "op_done i (Event rd wr) ss r ss'"
proof -
  have tcp: "sk_protocol (ss_slot ss (HASH_ID i)) = PROTOCOL_TCP" using assms(1) by (simp add: accepts_def Let_def)
  obtain ops where t: "touch (HASH_ID i) ops ss ss'"
    and c: "gone (ss_slot ss (HASH_ID i)) r (ss_slot ss' (HASH_ID i)) res'
       \<or> r = SR_none \<and> moved (ss_slot ss (HASH_ID i)) (sent_to (sk_fd (ss_slot ss (HASH_ID i))) ops) (ss_slot ss' (HASH_ID i))"
    using assms(3) tcp unfolding buffer_sent_def by blast
  note t = touch_fields(1,8) [OF t]
  from c show ?thesis
  proof (elim disjE conjE)
    assume "gone (ss_slot ss (HASH_ID i)) r (ss_slot ss' (HASH_ID i)) res'"
    then show ?thesis using t by (intro op_done_end [where ops = ops]) (auto simp: gone_def)
  next
    assume r: "r = SR_none" and m: "moved (ss_slot ss (HASH_ID i)) (sent_to (sk_fd (ss_slot ss (HASH_ID i))) ops) (ss_slot ss' (HASH_ID i))"
    show ?thesis using r t m accepts_same [OF assms(1), of ss'] streamed_moved [OF _ m assms(2)]
      by (intro op_done_going [where ops = ops]) (auto simp: moved_def same_socket_def)
  qed
qed

text \<open>A step that keeps the lists.\<close>

lemma kept_op_done:
  assumes "ss_env ss' = ss_env ss" "ss_trace ss' = ss_trace ss @ ops" "sent_to (sk_fd (ss_slot ss (HASH_ID i))) ops = []"
    "accepts i ss'" "lists_ok (ss_slot ss (HASH_ID i))" "r \<noteq> SR_close" "r \<noteq> SR_error"
    "ss_slot ss' (HASH_ID i) = (ss_slot ss (HASH_ID i))\<lparr>sk_type := t, sk_p := q\<rparr>"
  shows "op_done i (Event rd wr) ss r ss'"
  using assms by (intro op_done_going [where ops = ops]) (auto simp: lists_ok_def streamed_def)

text \<open>A step that closes the connection.\<close>

lemma closed_op_done:
  assumes "live (ss_slot ss (HASH_ID i))" "ss_env ss1 = ss_env ss" "ss_trace ss1 = ss_trace ss @ ops" "ss_slot ss1 = ss_slot ss"
  shows "\<exists>ss' res'. force_close (HASH_ID i) ss1 res = Some (ss', res') \<and> op_done i (Event rd wr) ss SR_close ss' \<and> op_done i (Event rd wr) ss SR_error ss'"
proof -
  have "live (ss_slot ss1 (HASH_ID i))" using assms by simp
  from force_close_gone [OF this, of res 0] obtain ops' ss' res' where fc: "force_close (HASH_ID i) ss1 res = Some (ss', res')"
    "touch (HASH_ID i) ops' ss1 ss'" "gone (ss_slot ss1 (HASH_ID i)) SR_close (ss_slot ss' (HASH_ID i)) res'" by auto
  have "op_done i (Event rd wr) ss r ss'" if "r = SR_close \<or> r = SR_error" for r
    using that assms fc(3) touch_fields(1,8) [OF fc(2)] by (intro op_done_end [where ops = "ops @ ops'"]) (auto simp: gone_def)
  then show ?thesis using fc(1) by blast
qed

lemma connect_op_done:
  assumes "accepts i ss" "lists_ok (ss_slot ss (HASH_ID i))"
  shows "\<exists>r ss' res'. report_connect (HASH_ID i) ss res = Some (r, ss', res') \<and> op_done i (Event rd wr) ss r ss'"
proof -
  define a where "a = ss_env ss (ss_clock ss)"
  define ss1 where "ss1 = ss\<lparr>ss_clock := ss_clock ss + 1\<rparr>"
  have s1: "ss_env ss1 = ss_env ss" "ss_trace ss1 = ss_trace ss @ []" "ss_slot ss1 = ss_slot ss" by (simp_all add: ss1_def)
  show ?thesis
  proof (cases "an_err a \<noteq> None \<or> an_num a \<noteq> 0")
    case True
    from closed_op_done [OF accepts_live [OF assms(1)] s1, of res] obtain ss' res' where
      "force_close (HASH_ID i) ss1 res = Some (ss', res')" "op_done i (Event rd wr) ss SR_error ss'" by blast
    then show ?thesis using True by (simp add: report_connect_def sys_def a_def ss1_def)
  next
    case False
    let ?s = "(ss_slot ss (HASH_ID i))\<lparr>sk_type := SOCKET_TYPE_CONNECTED\<rparr>"
    let ?ops = "if send_buffer_empty ?s then [T_sp_write (sk_fd ?s) False] else []"
    let ?ss = "(trace ?ops (put_socket (HASH_ID i) ?s ss1))\<lparr>ss_clock := ss_clock ss + 2\<rparr>"
    have "\<exists>res'. report_connect (HASH_ID i) ss res = Some (SR_open, ?ss, res')"
      using False by (auto simp: report_connect_def sys_def a_def ss1_def Let_def trace_def put_socket_def)
    moreover have "op_done i (Event rd wr) ss SR_open ?ss"
      using assms by (intro kept_op_done [where ops = ?ops and t = SOCKET_TYPE_CONNECTED and q = "sk_p ?s"])
        (auto simp: s1 trace_def put_socket_def accepts_def Let_def)
    ultimately show ?thesis by blast
  qed
qed

lemma read_op_done:
  assumes "accepts i ss" "lists_ok (ss_slot ss (HASH_ID i))"
  shows "\<exists>r ss' res'. forward_message_tcp (HASH_ID i) ss res = Some (r, ss', res') \<and> op_done i (Event rd wr) ss r ss' \<and> r \<noteq> SR_udp"
proof -
  define ss1 where "ss1 = ss\<lparr>ss_clock := ss_clock ss + 1\<rparr>"
  have s1: "ss_env ss1 = ss_env ss" "ss_trace ss1 = ss_trace ss @ []" "ss_slot ss1 = ss_slot ss" by (simp_all add: ss1_def)
  let ?s = "ss_slot ss (HASH_ID i)"
  obtain n where n: "sk_p ?s = P_size n" using assms(1) by (auto simp: accepts_def Let_def)
  have keep: "op_done i (Event rd wr) ss r (trace ops (ss1\<lparr>ss_slot := (ss_slot ss)(HASH_ID i := ?s\<lparr>sk_p := P_size m\<rparr>)\<rparr>))"
    if "r \<noteq> SR_close" "r \<noteq> SR_error" "sent_to (sk_fd ?s) ops = []" for r ops m
    using that assms by (intro kept_op_done [where ops = ops and t = "sk_type ?s" and q = "P_size m"])
      (auto simp: s1 trace_def accepts_def Let_def)
  have same: "(ss_slot ss)(HASH_ID i := ?s\<lparr>sk_p := P_size n\<rparr>) = ss_slot ss" using n by (intro ext) simp
  obtain ss' res' where fc: "force_close (HASH_ID i) ss1 res = Some (ss', res')"
    "op_done i (Event rd wr) ss SR_close ss'" "op_done i (Event rd wr) ss SR_error ss'"
    using closed_op_done [OF accepts_live [OF assms(1)] s1, of res] by blast
  show ?thesis
  proof (cases "sys_read n ss")
    case (Pair x ss2)
    have ss2: "ss2 = ss1" using Pair by (auto simp: sys_read_def sys_def ss1_def Let_def split: option.splits)
    show ?thesis
    proof (cases x)
      case (Inl e)
      then show ?thesis
        using n Pair ss2 fc keep [of SR_none "[]" n] keep [of SR_none "[T_stderr ''socket-server: EAGAIN capture.'']" n] same
        by (auto simp: forward_message_tcp_def trace_def ss1_def Let_def)
    next
      case (Inr bs)
      then show ?thesis
        using n Pair ss2 fc keep [of SR_none "[]" n] keep [of SR_data "[]" "next_size n (int (length bs))"] same
        by (auto simp: forward_message_tcp_def trace_def ss1_def put_socket_def Let_def)
    qed
  qed
qed

lemma op_done_index:
  "op_done i op ss r (ss'\<lparr>ss_event_index := n\<rparr>) = op_done i op ss r ss'" "op_done i op ss r (ss'\<lparr>ss_ev := es\<rparr>) = op_done i op ss r ss'"
  by (simp_all add: op_done_def accepts_def)

lemma event_op_done:
  assumes "accepts i ss" "lists_ok (ss_slot ss (HASH_ID i))" "fair ss"
  shows "\<exists>r ss' res'. run_op i (Event rd wr) ss res = Some (r, ss', res') \<and> op_done i (Event rd wr) ss r ss'"
proof -
  let ?s = "ss_slot ss (HASH_ID i)" and ?e = "\<lparr>ev_s = Some (HASH_ID i), ev_read = rd, ev_write = wr\<rparr>"
  have type: "sk_type ?s \<in> {SOCKET_TYPE_CONNECTED, SOCKET_TYPE_CONNECTING, SOCKET_TYPE_BIND}" and tcp: "sk_protocol ?s = PROTOCOL_TCP"
    using assms(1) by (simp_all add: accepts_def Let_def)
  have conn: "run_op i (Event rd wr) ss res = report_connect (HASH_ID i) ss res" if "sk_type ?s = SOCKET_TYPE_CONNECTING"
    using that by (simp add: run_op_def poll_event_def Let_def)
  have still: "op_done i (Event rd wr) ss SR_none ss"
    using assms by (intro kept_op_done [where ops = "[]" and t = "sk_type ?s" and q = "sk_p ?s"]) auto
  consider (connecting) "sk_type ?s = SOCKET_TYPE_CONNECTING" | (reading) "sk_type ?s \<noteq> SOCKET_TYPE_CONNECTING" "rd"
    | (writing) "sk_type ?s \<noteq> SOCKET_TYPE_CONNECTING" "\<not> rd" by blast
  then show ?thesis
  proof cases
    case connecting
    with conn connect_op_done [OF assms(1,2)] show ?thesis by simp
  next
    case reading
    from read_op_done [OF assms(1,2), of res rd wr] obtain r ss' res' where
      f: "forward_message_tcp (HASH_ID i) ss res = Some (r, ss', res')" "op_done i (Event rd wr) ss r ss'" "r \<noteq> SR_udp" by blast
    then show ?thesis using reading type tcp by (auto simp: run_op_def poll_event_def Let_def op_done_index)
  next
    case writing
    have "run_op i (Event rd wr) ss res = (if wr then send_buffer (HASH_ID i) ss res else Some (SR_none, ss, res))"
      using writing type by (auto simp: run_op_def poll_event_def Let_def)
    moreover obtain r ss' res' where "send_buffer (HASH_ID i) ss res = Some (r, ss', res')" "buffer_sent (HASH_ID i) ss r ss' res'"
      using send_buffer_ok [OF assms(3) accepts_live [OF assms(1)] assms(2)] by blast
    ultimately show ?thesis using still buffer_op_done [OF assms(1,2)] by auto
  qed
qed

lemma run_op_done:
  assumes "accepts i ss" "lists_ok (ss_slot ss (HASH_ID i))" "fair ss" "\<And>p pay. op = Send p pay \<Longrightarrow> is_memory pay"
  shows "\<exists>r ss' res'. run_op i op ss res = Some (r, ss', res') \<and> op_done i op ss r ss'"
proof (cases op)
  case (Send p pay)
  then show ?thesis using send_socket_ok [OF assms(1,2), of pay p None res] assms(4) send_op_done [OF assms(1)]
    by (fastforce simp: run_op_def)
next
  case (Event rd wr)
  then show ?thesis using event_op_done [OF assms(1-3)] by simp
qed

lemma run_ops_streamed:
  assumes "accepts i ss" "lists_ok (ss_slot ss (HASH_ID i))" "fair ss" "\<forall>op\<in>set ops. \<forall>p pay. op = Send p pay \<longrightarrow> is_memory pay"
    "streamed H L w (ss_slot ss (HASH_ID i))"
  shows "\<exists>r ss' res' sys. run_ops i ops ss res = Some (r, ss', res') \<and> ss_trace ss' = ss_trace ss @ sys \<and>
    (if r = SR_close \<or> r = SR_error then sk_type (ss_slot ss' (HASH_ID i)) = SOCKET_TYPE_INVALID
     else accepts i ss' \<and> streamed (H @ sent_msgs PRIORITY_HIGH ops) (L @ sent_msgs PRIORITY_LOW ops)
       (w @ sent_to (sk_fd (ss_slot ss (HASH_ID i))) sys) (ss_slot ss' (HASH_ID i)))"
  using assms
proof (induction ops arbitrary: ss res H L w)
  case (Cons op ops)
  from run_op_done [OF Cons.prems(1-3), of op res] Cons.prems(4) obtain r1 ss1 res1 where
    1: "run_op i op ss res = Some (r1, ss1, res1)" "op_done i op ss r1 ss1" by auto
  show ?case
  proof (cases "r1 = SR_close \<or> r1 = SR_error")
    case True
    with 1 show ?thesis by (auto simp: op_done_def Let_def)
  next
    case False
    then obtain sys where sys: "ss_env ss1 = ss_env ss" "ss_trace ss1 = ss_trace ss @ sys" "accepts i ss1" "lists_ok (ss_slot ss1 (HASH_ID i))"
      "sk_fd (ss_slot ss1 (HASH_ID i)) = sk_fd (ss_slot ss (HASH_ID i))"
      "streamed (H @ sent_msgs PRIORITY_HIGH [op]) (L @ sent_msgs PRIORITY_LOW [op])
         (w @ sent_to (sk_fd (ss_slot ss (HASH_ID i))) sys) (ss_slot ss1 (HASH_ID i))"
      using 1(2) Cons.prems(5) unfolding op_done_def Let_def by auto
    have msgs: "sent_msgs p (op # ops) = sent_msgs p [op] @ sent_msgs p ops" for p by (cases op) simp_all
    have "fair ss1" using Cons.prems(3) sys(1) by (simp add: fair_def)
    from Cons.IH [OF sys(3,4) this _ sys(6), of res1] Cons.prems(4) obtain r ss' res' sys' where
      2: "run_ops i ops ss1 res1 = Some (r, ss', res')" "ss_trace ss' = ss_trace ss1 @ sys'"
      "if r = SR_close \<or> r = SR_error then sk_type (ss_slot ss' (HASH_ID i)) = SOCKET_TYPE_INVALID
       else accepts i ss' \<and> streamed ((H @ sent_msgs PRIORITY_HIGH [op]) @ sent_msgs PRIORITY_HIGH ops)
         ((L @ sent_msgs PRIORITY_LOW [op]) @ sent_msgs PRIORITY_LOW ops)
         ((w @ sent_to (sk_fd (ss_slot ss (HASH_ID i))) sys) @ sent_to (sk_fd (ss_slot ss1 (HASH_ID i))) sys') (ss_slot ss' (HASH_ID i))" by auto
    have "run_ops i (op # ops) ss res = Some (r, ss', res')" using False 1(1) 2(1) by simp
    moreover have "ss_trace ss' = ss_trace ss @ sys @ sys'" using 2(2) sys(2) by simp
    ultimately show ?thesis using 2(3) sys(5) msgs by (metis append_assoc sent_to_append)
  qed
qed auto

text \<open>C31
  The stream of a TCP connection. Any sequence of messages of both priorities and of events, on a
  network that answers every call as it likes but does not interrupt all of them, is handled
  without a failing assertion and without looping. If the connection is not closed by then, the
  bytes written to it and the bytes left in the high list are whole messages: all messages of
  high priority in the order they were sent, mixed with a prefix of the messages of low priority
  in their order; the other messages of low priority wait in the low list. No message is split by
  another one, lost, repeated or reordered within its priority.\<close>

theorem tcp_stream:
  assumes "accepts i ss" "send_buffer_empty (ss_slot ss (HASH_ID i))" "sk_wb_size (ss_slot ss (HASH_ID i)) = 0" "fair ss"
    "\<forall>op\<in>set ops. \<forall>p pay. op = Send p pay \<longrightarrow> is_memory pay"
  shows "\<exists>r ss' res' sys. run_ops i ops ss res = Some (r, ss', res') \<and> ss_trace ss' = ss_trace ss @ sys \<and>
    (if r = SR_close \<or> r = SR_error then sk_type (ss_slot ss' (HASH_ID i)) = SOCKET_TYPE_INVALID
     else accepts i ss' \<and> (\<exists>L1 A. sent_msgs PRIORITY_LOW ops = L1 @ map msg_of (sk_low (ss_slot ss' (HASH_ID i)))
         \<and> A \<in> shuffles (sent_msgs PRIORITY_HIGH ops) L1
         \<and> sent_to (sk_fd (ss_slot ss (HASH_ID i))) sys @ pending (sk_high (ss_slot ss' (HASH_ID i))) = concat A))"
proof -
  let ?s = "ss_slot ss (HASH_ID i)"
  have "lists_ok ?s" "streamed [] [] [] ?s" using assms(2,3) by (simp_all add: lists_ok_def send_buffer_empty_def streamed_def)
  from run_ops_streamed [OF assms(1) this(1) assms(4,5) this(2), of res] show ?thesis unfolding streamed_def append_Nil .
qed

text \<open>An example: the network takes three bytes at a time. The message of high priority goes out
  between the two of low priority, of which the first had been started.\<close>

definition stream_socket :: socket where
  "stream_socket = \<lparr>sk_opaque = 1, sk_high = [], sk_low = [], sk_wb_size = 0, sk_fd = 7, sk_id = 5, sk_protocol = PROTOCOL_TCP,
     sk_type = SOCKET_TYPE_CONNECTED, sk_p = P_size 64\<rparr>"

definition stream_server :: socket_server where
  "stream_server = (socket_server_create (\<lambda>n. \<lparr>an_err = None, an_num = 3, an_data = [], an_addr = V4 [] [], an_addrs = [], an_events = [], an_text = None\<rparr>)
     (\<lambda>k. stream_socket))\<lparr>ss_slot := (\<lambda>k. stream_socket)\<rparr>"

definition stream_ops :: "socket_op list" where
  "stream_ops = [Send PRIORITY_LOW (Memory 100 [1, 2, 3, 4]), Send PRIORITY_LOW (Memory 200 [5, 6]),
     Send PRIORITY_HIGH (Memory 300 [7]), Event False True]"

lemma tcp_stream_witness:
  "(\<exists>r ss' res' sys. run_ops 5 stream_ops stream_server (close_message stream_socket) = Some (r, ss', res')
      \<and> ss_trace ss' = ss_trace stream_server @ sys \<and>
    (if r = SR_close \<or> r = SR_error then sk_type (ss_slot ss' (HASH_ID 5)) = SOCKET_TYPE_INVALID
     else accepts 5 ss' \<and> (\<exists>L1 A. sent_msgs PRIORITY_LOW stream_ops = L1 @ map msg_of (sk_low (ss_slot ss' (HASH_ID 5)))
         \<and> A \<in> shuffles (sent_msgs PRIORITY_HIGH stream_ops) L1
         \<and> sent_to 7 sys @ pending (sk_high (ss_slot ss' (HASH_ID 5))) = concat A)))
   \<and> accepts 5 stream_server \<and> fair stream_server"
proof -
  have pre: "accepts 5 stream_server" "send_buffer_empty (ss_slot stream_server (HASH_ID 5))" "sk_wb_size (ss_slot stream_server (HASH_ID 5)) = 0"
      "fair stream_server" "\<forall>op\<in>set stream_ops. \<forall>p pay. op = Send p pay \<longrightarrow> is_memory pay" "sk_fd (ss_slot stream_server (HASH_ID 5)) = 7"
    by (auto simp: accepts_def stream_server_def stream_socket_def send_buffer_empty_def fair_def stream_ops_def socket_server_create_def Let_def)
  show ?thesis using tcp_stream [OF pre(1-5), of "close_message stream_socket"] unfolding pre(6) using pre(1,4) by blast
qed

end
