(* ===== verification/Socket_Slots.thy ===== *)
theory Socket_Slots
  imports Socket_Stream Transition
begin

unbundle bit_operations_syntax

text \<open>
  What every request and every new socket does to its slot, and which ids are reserved.
\<close>

section \<open>Sockets\<close>

text \<open>Which lists and which member of the union a socket has depends on its type and protocol. The
  size of the next read is 64 times a power of two.\<close>

definition writable :: "socket_type \<Rightarrow> bool" where
  "writable t \<longleftrightarrow> t \<in> {SOCKET_TYPE_CONNECTING, SOCKET_TYPE_CONNECTED, SOCKET_TYPE_HALFCLOSE, SOCKET_TYPE_BIND}"

definition union_ok :: "socket \<Rightarrow> bool" where
  "union_ok s \<longleftrightarrow> (if sk_protocol s = PROTOCOL_TCP then \<exists>j. sk_p s = P_size (MIN_READ_BUFFER * 2 ^ j)
     else sk_protocol s \<in> {PROTOCOL_UDP, PROTOCOL_UDPv6} \<and> (\<exists>a. sk_p s = P_udp_address a))"

definition slot_ok :: "nat \<Rightarrow> socket \<Rightarrow> bool" where [inv_defs]:
  "slot_ok k s \<longleftrightarrow> (\<not> writable (sk_type s) \<longrightarrow> send_buffer_empty s) \<and> (sk_type s \<noteq> SOCKET_TYPE_INVALID \<longrightarrow> HASH_ID (sk_id s) = k)
     \<and> (live s \<longrightarrow> lists_ok s \<and> union_ok s)"

lemma writable_live: "writable t \<Longrightarrow> t \<noteq> SOCKET_TYPE_INVALID \<and> t \<noteq> SOCKET_TYPE_RESERVE"
  by (auto simp: writable_def)

lemma writable_in_pool: "writable t \<Longrightarrow> in_pool t"
  by (auto simp: writable_def in_pool_def)

text \<open>An operation on slot \<open>k\<close> leaves a proper slot; if the socket leaves the event pool, the result
  says so and names it.\<close>

definition handled_ok :: "nat \<Rightarrow> socket_server \<Rightarrow> sock_result \<Rightarrow> socket_server \<Rightarrow> socket_message \<Rightarrow> bool" where
  "handled_ok k ss r ss' res' \<longleftrightarrow> (let s = ss_slot ss k; s' = ss_slot ss' k in
     (\<exists>ops. touch k ops ss ss') \<and> slot_ok k s' \<and> sk_type s' \<noteq> SOCKET_TYPE_RESERVE \<and>
     (in_pool (sk_type s) \<longrightarrow> in_pool (sk_type s')
        \<or> (r = SR_close \<or> r = SR_error) \<and> sk_type s' = SOCKET_TYPE_INVALID \<and> sk_id s' = sm_id res'))"

lemma handled_gone:
  assumes "touch k ops ss ss'" "gone (ss_slot ss k) SR_close (ss_slot ss' k) res'" "r = SR_close \<or> r = SR_error"
  shows "handled_ok k ss r ss' res'"
  using assms unfolding handled_ok_def Let_def
  by (auto simp: gone_def slot_ok_def send_buffer_empty_def live_def)

lemma handled_same:
  assumes "touch k ops ss ss'" "ss_slot ss' k = ss_slot ss k" "slot_ok k (ss_slot ss k)" "sk_type (ss_slot ss k) \<noteq> SOCKET_TYPE_RESERVE"
  shows "handled_ok k ss r ss' res'"
  using assms unfolding handled_ok_def Let_def by auto

lemma handled_new:
  assumes "touch k ops ss ss'" "slot_ok k (ss_slot ss' k)" "sk_type (ss_slot ss' k) \<noteq> SOCKET_TYPE_RESERVE"
    "in_pool (sk_type (ss_slot ss k)) \<Longrightarrow> in_pool (sk_type (ss_slot ss' k))"
  shows "handled_ok k ss r ss' res'"
  using assms unfolding handled_ok_def Let_def by auto

lemma handled_after:
  assumes "touch k ops ss ss1" "ss_slot ss1 k = ss_slot ss k" "handled_ok k ss1 r ss' res'"
  shows "handled_ok k ss r ss' res'"
  using assms touch_trans [OF assms(1)] unfolding handled_ok_def Let_def by auto

lemma slot_ok_same:
  assumes "slot_ok k s" "same_socket s s'" "writable (sk_type s)" "lists_ok s'"
  shows "slot_ok k s'"
  using assms by (auto simp: slot_ok_def same_socket_def union_ok_def live_def)

lemma slot_ok_writable: "slot_ok k s \<Longrightarrow> \<not> send_buffer_empty s \<Longrightarrow> writable (sk_type s)"
  by (auto simp: slot_ok_def)

lemma slot_ok_live: "slot_ok k s \<Longrightarrow> live s \<Longrightarrow> lists_ok s \<and> union_ok s"
  by (simp add: slot_ok_def)

lemma send_buffer_handled:
  assumes "fair ss" "slot_ok k (ss_slot ss k)" "writable (sk_type (ss_slot ss k))"
  shows "\<exists>r ss' res'. send_buffer k ss res = Some (r, ss', res') \<and> handled_ok k ss r ss' res' \<and> (r = SR_none \<or> r = SR_close)
    \<and> (r = SR_none \<longrightarrow> same_socket (ss_slot ss k) (ss_slot ss' k))"
proof -
  have live: "live (ss_slot ss k)" using writable_live [OF assms(3)] by (simp add: live_def)
  then have "lists_ok (ss_slot ss k)" using slot_ok_live [OF assms(2)] by simp
  from send_buffer_ok [OF assms(1) live this, of res] obtain r ss' res' where
    sb: "send_buffer k ss res = Some (r, ss', res')" "buffer_sent k ss r ss' res'" by blast
  from sb(2) consider (closed) ops where "touch k ops ss ss'" "gone (ss_slot ss k) r (ss_slot ss' k) res'"
    | (going) ops w where "touch k ops ss ss'" "r = SR_none" "moved (ss_slot ss k) w (ss_slot ss' k)"
    unfolding buffer_sent_def by blast
  then show ?thesis
  proof cases
    case closed
    then have "r = SR_close" by (simp add: gone_def)
    then show ?thesis using sb(1) closed handled_gone [OF closed(1)] by simp
  next
    case going
    then have same: "same_socket (ss_slot ss k) (ss_slot ss' k)" "lists_ok (ss_slot ss' k)" by (simp_all add: moved_def)
    have "handled_ok k ss r ss' res'"
      using slot_ok_same [OF assms(2) same(1) assms(3) same(2)] same writable_live [OF assms(3)]
      by (intro handled_new [OF going(1)]) (auto simp: same_socket_def)
    then show ?thesis using sb(1) going(2) same by simp
  qed
qed

lemma force_close_handled:
  assumes "live (ss_slot ss k)" "r = SR_close \<or> r = SR_error"
  shows "\<exists>ss' res'. force_close k ss res = Some (ss', res') \<and> handled_ok k ss r ss' res' \<and> sm_id res' = sk_id (ss_slot ss k)"
  using force_close_gone [OF assms(1), of res 0] handled_gone [OF _ _ assms(2)] by (auto simp: close_message_def)

lemma handled_data: "handled_ok k ss r ss' (res\<lparr>sm_data := d\<rparr>) = handled_ok k ss r ss' res"
  by (simp add: handled_ok_def)

section \<open>Requests\<close>

text \<open>A request for an existing socket changes it, or does nothing to any of them.\<close>

definition answered :: "nat \<Rightarrow> socket_server \<Rightarrow> sock_result \<Rightarrow> socket_server \<Rightarrow> socket_message \<Rightarrow> bool" where
  "answered k ss r ss' res' \<longleftrightarrow> (\<exists>ops. ss' = trace ops ss) \<or> live (ss_slot ss k) \<and> handled_ok k ss r ss' res'"

lemma answered_nothing [simp]: "answered k ss r ss res'" "answered k ss r (trace ops ss) res'"
  by (auto simp: answered_def trace_def intro: exI [of _ "[]"])

lemma answered_handled: "live (ss_slot ss k) \<Longrightarrow> handled_ok k ss r ss' res' \<Longrightarrow> answered k ss r ss' res'"
  by (simp add: answered_def)

lemma close_socket_handled:
  assumes "fair ss" "slot_ok (HASH_ID i) (ss_slot ss (HASH_ID i))" "sk_id (ss_slot ss (HASH_ID i)) = i \<Longrightarrow> sk_type (ss_slot ss (HASH_ID i)) \<noteq> SOCKET_TYPE_RESERVE"
  shows "\<exists>r ss' res'. close_socket i sd opaque ss res = Some (r, ss', res') \<and> answered (HASH_ID i) ss r ss' res'"
proof (cases "sk_type (ss_slot ss (HASH_ID i)) = SOCKET_TYPE_INVALID \<or> sk_id (ss_slot ss (HASH_ID i)) \<noteq> i")
  case True
  then show ?thesis by (auto simp: close_socket_def)
next
  case False
  let ?k = "HASH_ID i"
  let ?s = "ss_slot ss ?k"
  have live: "live ?s" and id: "sk_id ?s = i" using False assms(3) by (auto simp: live_def)
  have fin: "\<exists>r ss' res'. (if sd \<or> send_buffer_empty (ss_slot ss1 ?k) then do {
         (ss, res) \<leftarrow> force_close ?k ss1 res1;
         Some (SR_close, ss, res\<lparr>sm_id := i, sm_opaque := opaque\<rparr>)
       }
       else Some (SR_none, set_type i SOCKET_TYPE_HALFCLOSE ss1, res1)) = Some (r, ss', res') \<and> handled_ok ?k ss1 r ss' res'"
    if s1: "same_socket ?s (ss_slot ss1 ?k)" "slot_ok ?k (ss_slot ss1 ?k)" for ss1 res1
  proof -
    have live1: "live (ss_slot ss1 ?k)" using live s1(1) by (simp add: live_def same_socket_def)
    show ?thesis
    proof (cases "sd \<or> send_buffer_empty (ss_slot ss1 ?k)")
      case True
      from force_close_handled [OF live1, of SR_close res1] obtain ss' res' where
        "force_close ?k ss1 res1 = Some (ss', res')" "handled_ok ?k ss1 SR_close ss' res'" "sm_id res' = i" using s1(1) id by (auto simp: same_socket_def)
      then show ?thesis using True by (auto simp: handled_ok_def Let_def)
    next
      case False
      have w: "writable (sk_type (ss_slot ss1 ?k))" using slot_ok_writable [OF s1(2)] False by simp
      let ?ss = "set_type i SOCKET_TYPE_HALFCLOSE ss1"
      have "touch ?k [] ss1 ?ss" by (simp add: set_type_def)
      moreover have "slot_ok ?k (ss_slot ?ss ?k)"
        using s1(2) live1 w by (auto simp: set_type_def slot_ok_def writable_def live_def lists_ok_def union_ok_def)
      ultimately have "handled_ok ?k ss1 SR_none ?ss res1"
        by (intro handled_new [where ops = "[]"]) (auto simp: set_type_def in_pool_def)
      then show ?thesis using False by auto
    qed
  qed
  show ?thesis
  proof (cases "send_buffer_empty ?s")
    case True
    have "same_socket ?s ?s" by (simp add: same_socket_def)
    from fin [OF this assms(2), of res] show ?thesis using False True answered_handled [OF live] by (auto simp: close_socket_def Let_def)
  next
    case nonempty: False
    from send_buffer_handled [OF assms(1,2) slot_ok_writable [OF assms(2) nonempty], of res] obtain r1 ss1 res1 where
      1: "send_buffer ?k ss res = Some (r1, ss1, res1)" "handled_ok ?k ss r1 ss1 res1" "r1 = SR_none \<or> r1 = SR_close"
        "r1 = SR_none \<longrightarrow> same_socket ?s (ss_slot ss1 ?k)" by blast
    show ?thesis
    proof (cases "r1 = SR_none")
      case True
      have s1: "same_socket ?s (ss_slot ss1 ?k)" "slot_ok ?k (ss_slot ss1 ?k)" using 1 True by (auto simp: handled_ok_def Let_def)
      from fin [OF this, of res1] obtain r ss' res' where
        2: "close_socket i sd opaque ss res = Some (r, ss', res')" "handled_ok ?k ss1 r ss' res'"
        using False nonempty 1(1) True by (auto simp: close_socket_def Let_def)
      have "handled_ok ?k ss r ss' res'"
        using 1(2) 2(2) s1(1) touch_trans unfolding handled_ok_def Let_def same_socket_def by metis
      then show ?thesis using 2(1) answered_handled [OF live] by blast
    next
      case r1: False
      then show ?thesis using False nonempty 1 answered_handled [OF live] by (auto simp: close_socket_def Let_def)
    qed
  qed
qed

lemma send_tcp_handled:
  assumes "slot_ok (HASH_ID i) (ss_slot ss (HASH_ID i))" "accepts i ss" "is_memory pay"
  shows "\<exists>r ss' res'. send_socket i pay p addr ss res = Some (r, ss', res') \<and> handled_ok (HASH_ID i) ss r ss' res'"
proof -
  let ?k = "HASH_ID i"
  let ?s = "ss_slot ss ?k"
  have w: "writable (sk_type ?s)" using assms(2) by (auto simp: accepts_def writable_def Let_def)
  then have "lists_ok ?s" using slot_ok_live [OF assms(1)] accepts_live [OF assms(2)] by simp
  from send_socket_ok [OF assms(2) this assms(3), of p addr res] obtain r ss' res' where
    sd: "send_socket i pay p addr ss res = Some (r, ss', res')" "send_done i p (pay_bytes pay) ss r ss' res'" by blast
  from sd(2) obtain ops where t: "touch ?k ops ss ss'"
    and c: "gone ?s r (ss_slot ss' ?k) res' \<or> queued p (pay_bytes pay) ?s (sent_to (sk_fd ?s) ops) (ss_slot ss' ?k)"
    unfolding send_done_def Let_def by blast
  from c have "handled_ok ?k ss r ss' res'"
  proof
    assume g: "gone ?s r (ss_slot ss' ?k) res'"
    then have "r = SR_close" by (simp add: gone_def)
    then show ?thesis using handled_gone [OF t] g by simp
  next
    assume "queued p (pay_bytes pay) ?s (sent_to (sk_fd ?s) ops) (ss_slot ss' ?k)"
    then have same: "same_socket ?s (ss_slot ss' ?k)" "lists_ok (ss_slot ss' ?k)" by (simp_all add: queued_def)
    show ?thesis using slot_ok_same [OF assms(1) same(1) w same(2)] same(1) writable_live [OF w]
      by (intro handled_new [OF t]) (auto simp: same_socket_def)
  qed
  then show ?thesis using sd(1) by blast
qed

text \<open>A datagram.\<close>

lemma appended_handled:
  assumes "slot_ok k (ss_slot ss k)" "writable (sk_type (ss_slot ss k))" "is_memory pay" "touch k ops ss ss'"
    "ss_slot ss' k = appended p pay 0 addr (ss_slot ss k)"
  shows "handled_ok k ss r ss' res'"
proof -
  have "lists_ok (ss_slot ss k)" using slot_ok_live [OF assms(1)] writable_live [OF assms(2)] by (simp add: live_def)
  then have "lists_ok (ss_slot ss' k)" using appended_lists_ok [OF _ assms(3), of _ 0 p addr] assms(5) by simp
  from slot_ok_same [OF assms(1) _ assms(2) this] show ?thesis
    using appended_same [of "ss_slot ss k" p pay 0 addr] assms(5) writable_live [OF assms(2)]
    by (intro handled_new [OF assms(4)]) (auto simp: same_socket_def)
qed

lemma send_direct_udp_handled:
  assumes "slot_ok k (ss_slot ss k)" "writable (sk_type (ss_slot ss k))" "is_memory pay"
  shows "\<exists>r ss' res'. send_direct_udp k p pay (pay_bytes pay) ua ss res = Some (r, ss', res') \<and> handled_ok k ss r ss' res'"
proof -
  let ?s = "ss_slot ss k" and ?a = "ss_env ss (ss_clock ss)"
  define sa where "sa = udp_socket_address (sk_protocol ?s) ua"
  define ss1 where "ss1 = ss\<lparr>ss_clock := ss_clock ss + 1\<rparr>"
  have live: "sk_type ?s \<noteq> SOCKET_TYPE_RESERVE" using writable_live [OF assms(2)] by simp
  have t1: "touch k [] ss ss1" and s1: "ss_slot ss1 = ss_slot ss" by (simp_all add: ss1_def)
  show ?thesis
  proof (cases "an_err ?a")
    case None
    let ?ops = "[T_sendto (sk_fd ?s) (pay_bytes pay) sa] @ [free_payload pay]"
    have "send_direct_udp k p pay (pay_bytes pay) ua ss res = Some (SR_none, trace ?ops ss1, res)"
      using None by (simp add: send_direct_udp_def sys_sendto_def sys_def Let_def sa_def ss1_def trace_def)
    moreover have "handled_ok k ss SR_none (trace ?ops ss1) res"
      using assms(1) live s1 by (intro handled_same [OF touch_trans [OF t1 touch_trace]]) simp_all
    ultimately show ?thesis by blast
  next
    case (Some e)
    let ?ss = "trace [T_sp_write (sk_fd ?s) True] (put_socket k (appended p pay 0 ua ?s) ss1)"
    have "send_direct_udp k p pay (pay_bytes pay) ua ss res = Some (SR_none, ?ss, res)"
      using Some assms(3) s1 by (simp add: send_direct_udp_def sys_sendto_def sys_def Let_def append_sendbuffer_udp_def append_at_ok ss1_def)
    moreover have "handled_ok k ss SR_none ?ss res"
      by (rule appended_handled [OF assms touch_trans [OF t1 touch_trans [OF touch_put touch_trace]]]) simp
    ultimately show ?thesis by blast
  qed
qed

lemma send_socket_handled:
  assumes "slot_ok (HASH_ID i) (ss_slot ss (HASH_ID i))" "is_memory pay"
    "sk_id (ss_slot ss (HASH_ID i)) = i \<Longrightarrow> sk_type (ss_slot ss (HASH_ID i)) \<noteq> SOCKET_TYPE_RESERVE"
  shows "\<exists>r ss' res'. send_socket i pay p addr ss res = Some (r, ss', res')
    \<and> answered (HASH_ID i) ss r ss' res'"
proof -
  let ?k = "HASH_ID i"
  let ?s = "ss_slot ss ?k"
  consider (unknown) "sk_type ?s = SOCKET_TYPE_INVALID \<or> sk_id ?s \<noteq> i \<or> sk_type ?s = SOCKET_TYPE_HALFCLOSE \<or> sk_type ?s = SOCKET_TYPE_PACCEPT"
    | (listening) "\<not> (sk_type ?s = SOCKET_TYPE_INVALID \<or> sk_id ?s \<noteq> i \<or> sk_type ?s = SOCKET_TYPE_HALFCLOSE \<or> sk_type ?s = SOCKET_TYPE_PACCEPT)"
      "sk_type ?s = SOCKET_TYPE_PLISTEN \<or> sk_type ?s = SOCKET_TYPE_LISTEN"
    | (taken) "sk_id ?s = i" "sk_type ?s \<in> {SOCKET_TYPE_CONNECTED, SOCKET_TYPE_CONNECTING, SOCKET_TYPE_BIND}"
    using assms(3) by (cases "sk_type ?s") auto
  then show ?thesis
  proof cases
    case unknown
    then show ?thesis using assms(2) by (auto simp: send_socket_def send_object_memory Let_def)
  next
    case listening
    then show ?thesis using assms(2) by (simp add: send_socket_def send_object_memory Let_def)
  next
    case taken
    have w: "writable (sk_type ?s)" using taken(2) by (auto simp: writable_def)
    have live: "live ?s" using writable_live [OF w] by (simp add: live_def)
    then have u: "union_ok ?s" using slot_ok_live [OF assms(1)] by simp
    note ans = answered_handled [OF live]
    show ?thesis
    proof (cases "sk_protocol ?s = PROTOCOL_TCP")
      case True
      then have "accepts i ss" using taken u by (auto simp: accepts_def union_ok_def Let_def)
      from send_tcp_handled [OF assms(1) this assms(2)] show ?thesis using ans by blast
    next
      case False
      then obtain ua where ua: "datagram_address addr ?s = Some ua" using u by (cases addr) (auto simp: union_ok_def datagram_address_def)
      show ?thesis
      proof (cases "send_buffer_empty ?s \<and> sk_type ?s = SOCKET_TYPE_CONNECTED")
        case True
        then have "send_socket i pay p addr ss res = send_direct_udp ?k p pay (pay_bytes pay) ua ss res"
          using False taken assms(2) ua by (auto simp: send_socket_def send_object_memory Let_def)
        with send_direct_udp_handled [OF assms(1) w assms(2), of p ua res] show ?thesis using ans by auto
      next
        case queue: False
        have "send_socket i pay p addr ss res = Some (SR_none, put_socket ?k (appended p pay 0 ua ?s) ss, res)"
          using False queue taken assms(2) ua by (auto simp: send_socket_def send_object_memory Let_def append_sendbuffer_udp_def append_at_ok)
        moreover have "handled_ok ?k ss SR_none (put_socket ?k (appended p pay 0 ua ?s) ss) res"
          by (rule appended_handled [OF assms(1) w assms(2) touch_put]) simp
        ultimately show ?thesis using ans by blast
      qed
    qed
  qed
qed

lemma touch_ex [simp]: "\<exists>ops. touch k ops ss ss" "\<exists>ops. touch k ops ss (ss\<lparr>ss_clock := c\<rparr>)" "\<exists>ops. touch k ops ss (trace ops' (ss\<lparr>ss_clock := c\<rparr>))"
  using touch_same touch_clock touch_trans [OF touch_clock touch_trace] by blast+

lemma touch_sp_add:
  assumes "sp_add fd k ss = (ok, ss')"
  shows "\<exists>ops. touch j ops ss ss'" "ss_slot ss' = ss_slot ss"
proof -
  let ?ss = "ss\<lparr>ss_clock := ss_clock ss + 1\<rparr>"
  have "ss' = (if ok then trace [T_sp_add fd k] ?ss else ?ss)" using assms by (auto simp: sp_add_def sys_ok_def sys_def Let_def)
  then show "\<exists>ops. touch j ops ss ss'" "ss_slot ss' = ss_slot ss"
    by simp_all
qed

lemma start_socket_handled:
  assumes "slot_ok (HASH_ID i) (ss_slot ss (HASH_ID i))" "sk_id (ss_slot ss (HASH_ID i)) = i \<Longrightarrow> sk_type (ss_slot ss (HASH_ID i)) \<noteq> SOCKET_TYPE_RESERVE"
  shows "\<exists>r ss' res'. start_socket i opaque ss res = Some (r, ss', res') \<and> answered (HASH_ID i) ss r ss' res'"
proof -
  let ?k = "HASH_ID i"
  let ?s = "ss_slot ss ?k"
  have new: "handled_ok ?k ss r (put_socket ?k (?s\<lparr>sk_type := t, sk_opaque := opaque\<rparr>) ss1) res'"
    if "live ?s" "touch ?k ops ss ss1" "in_pool t" "writable t \<or> \<not> writable (sk_type ?s)" for r t ss1 res' ops
    using that assms(1) touch_trans [OF that(2) touch_put]
    by (intro handled_new [where ops = "ops @ []"])
      (auto simp: slot_ok_def live_def lists_ok_def union_ok_def in_pool_def writable_def send_buffer_empty_def)
  consider (unknown) "sk_type ?s = SOCKET_TYPE_INVALID \<or> sk_id ?s \<noteq> i"
    | (waiting) "sk_id ?s = i" "live ?s" "sk_type ?s = SOCKET_TYPE_PACCEPT \<or> sk_type ?s = SOCKET_TYPE_PLISTEN"
    | (connected) "sk_id ?s = i" "live ?s" "sk_type ?s = SOCKET_TYPE_CONNECTED"
    | (other) "sk_id ?s = i" "\<not> (sk_type ?s = SOCKET_TYPE_INVALID \<or> sk_type ?s = SOCKET_TYPE_PACCEPT \<or> sk_type ?s = SOCKET_TYPE_PLISTEN
        \<or> sk_type ?s = SOCKET_TYPE_CONNECTED)"
    by (cases "sk_type ?s") (auto simp: live_def)
  then show ?thesis
  proof cases
    case unknown
    then show ?thesis by (auto simp: start_socket_def Let_def)
  next
    case waiting
    obtain ok ss1 where sp: "sp_add (sk_fd ?s) ?k ss = (ok, ss1)" by fastforce
    obtain ops where t: "touch ?k ops ss ss1" and s1: "ss_slot ss1 = ss_slot ss" using touch_sp_add [OF sp] by blast
    show ?thesis
    proof (cases ok)
      case True
      let ?t = "if sk_type ?s = SOCKET_TYPE_PACCEPT then SOCKET_TYPE_CONNECTED else SOCKET_TYPE_LISTEN"
      have "start_socket i opaque ss res = Some (SR_open, put_socket ?k (?s\<lparr>sk_type := ?t, sk_opaque := opaque\<rparr>) ss1,
          \<lparr>sm_id = i, sm_opaque = opaque, sm_ud = 0, sm_data = D_text ''start''\<rparr>)"
        using waiting True sp by (auto simp: start_socket_def Let_def)
      moreover have "in_pool ?t" "writable ?t \<or> \<not> writable (sk_type ?s)" using waiting by (auto simp: in_pool_def writable_def)
      ultimately show ?thesis using new [OF waiting(2) t, of ?t] answered_handled [OF waiting(2)] by blast
    next
      case False
      have "live (ss_slot ss1 ?k)" using waiting(2) s1 by simp
      from force_close_handled [OF this, of SR_error "\<lparr>sm_id = i, sm_opaque = opaque, sm_ud = 0, sm_data = D_null\<rparr>"] obtain ss' res' where
        fc: "force_close ?k ss1 \<lparr>sm_id = i, sm_opaque = opaque, sm_ud = 0, sm_data = D_null\<rparr> = Some (ss', res')" "handled_ok ?k ss1 SR_error ss' res'"
        by blast
      have "start_socket i opaque ss res = Some (SR_error, ss', res'\<lparr>sm_data := D_strerror\<rparr>)"
        using waiting False sp fc(1) by (auto simp: start_socket_def Let_def)
      then show ?thesis using handled_after [OF t _ fc(2)] s1 handled_data answered_handled [OF waiting(2)] by auto
    qed
  next
    case connected
    have "start_socket i opaque ss res = Some (SR_open, put_socket ?k (?s\<lparr>sk_type := SOCKET_TYPE_CONNECTED, sk_opaque := opaque\<rparr>) ss,
        \<lparr>sm_id = i, sm_opaque = opaque, sm_ud = 0, sm_data = D_text ''transfer''\<rparr>)"
      using connected by (cases ?s) (auto simp: start_socket_def Let_def)
    then show ?thesis using new [OF connected(2) touch_same, of SOCKET_TYPE_CONNECTED] answered_handled [OF connected(2)] by (auto simp: in_pool_def writable_def)
  next
    case other
    then show ?thesis by (auto simp: start_socket_def Let_def)
  qed
qed

lemma set_udp_address_handled:
  assumes "slot_ok (HASH_ID i) (ss_slot ss (HASH_ID i))" "unat (addr ! 0) \<in> {PROTOCOL_UDP, PROTOCOL_UDPv6}"
    "sk_id (ss_slot ss (HASH_ID i)) = i \<Longrightarrow> sk_type (ss_slot ss (HASH_ID i)) \<noteq> SOCKET_TYPE_RESERVE"
  shows "\<exists>r ss' res'. set_udp_address i addr ss res = Some (r, ss', res') \<and> answered (HASH_ID i) ss r ss' res'"
proof (cases "sk_type (ss_slot ss (HASH_ID i)) = SOCKET_TYPE_INVALID \<or> sk_id (ss_slot ss (HASH_ID i)) \<noteq> i
    \<or> unat (addr ! 0) \<noteq> sk_protocol (ss_slot ss (HASH_ID i))")
  case True
  then show ?thesis by (auto simp: set_udp_address_def Let_def)
next
  case False
  let ?k = "HASH_ID i"
  let ?s = "ss_slot ss ?k"
  have live: "live ?s" using False assms(3) by (auto simp: live_def)
  have udp: "sk_protocol ?s \<noteq> PROTOCOL_TCP" using False assms(2) by (auto simp: PROTOCOL_TCP_def PROTOCOL_UDP_def PROTOCOL_UDPv6_def)
  then obtain old where old: "sk_p ?s = P_udp_address old" using slot_ok_live [OF assms(1) live] by (auto simp: union_ok_def)
  let ?ss = "put_socket ?k (?s\<lparr>sk_p := P_udp_address (copy_address old (if unat (addr ! 0) = PROTOCOL_UDP then 1+2+4 else 1+2+16) addr)\<rparr>) ss"
  have "set_udp_address i addr ss res = Some (SR_none, ?ss, res)" using False old by (auto simp: set_udp_address_def Let_def)
  moreover have "handled_ok ?k ss SR_none ?ss res"
    using assms(1) live udp by (intro handled_new [OF touch_put]) (auto simp: slot_ok_def live_def lists_ok_def union_ok_def send_buffer_empty_def)
  ultimately show ?thesis using answered_handled [OF live] by blast
qed

section \<open>New sockets\<close>

text \<open>\<open>new_fd\<close> on a reserved slot.\<close>

definition fresh_socket :: "int \<Rightarrow> int \<Rightarrow> nat \<Rightarrow> nat \<Rightarrow> socket \<Rightarrow> socket" where
  "fresh_socket i fd protocol opaque s = s\<lparr>sk_id := i, sk_fd := fd, sk_protocol := protocol, sk_p := P_size MIN_READ_BUFFER,
     sk_opaque := opaque, sk_wb_size := 0\<rparr>"

lemma new_fd_reserved:
  assumes "sk_type (ss_slot ss (HASH_ID i)) = SOCKET_TYPE_RESERVE" "slot_ok (HASH_ID i) (ss_slot ss (HASH_ID i))"
  shows "\<exists>ok ss1 ops. touch (HASH_ID i) ops ss ss1 \<and> ss_slot ss1 = ss_slot ss \<and> (\<not> add \<longrightarrow> ok) \<and>
    new_fd i fd protocol opaque add ss = Some (ok, put_socket (HASH_ID i)
      (if ok then fresh_socket i fd protocol opaque (ss_slot ss (HASH_ID i)) else (ss_slot ss (HASH_ID i))\<lparr>sk_type := SOCKET_TYPE_INVALID\<rparr>) ss1)"
proof -
  let ?k = "HASH_ID i"
  let ?s = "ss_slot ss ?k"
  have empty: "sk_high ?s = []" "sk_low ?s = []" using assms by (auto simp: slot_ok_def writable_def send_buffer_empty_def)
  obtain ok ss1 where sp: "(if add then sp_add fd ?k ss else (True, ss)) = (ok, ss1)" by fastforce
  then have "(\<exists>ops. touch ?k ops ss ss1) \<and> ss_slot ss1 = ss_slot ss \<and> (\<not> add \<longrightarrow> ok)"
    using touch_sp_add [of fd ?k ss ok ss1] by (cases add) auto
  moreover have "new_fd i fd protocol opaque add ss = Some (ok, put_socket ?k
      (if ok then fresh_socket i fd protocol opaque ?s else ?s\<lparr>sk_type := SOCKET_TYPE_INVALID\<rparr>) ss1)"
    using assms(1) sp empty by (simp add: new_fd_def Let_def fresh_socket_def)
  ultimately show ?thesis by blast
qed

lemma fresh_handled:
  assumes "touch (HASH_ID i) ops ss ss'" "sk_type (ss_slot ss (HASH_ID i)) = SOCKET_TYPE_RESERVE" "slot_ok (HASH_ID i) (ss_slot ss (HASH_ID i))"
    "ss_slot ss' (HASH_ID i) = (fresh_socket i fd protocol opaque (ss_slot ss (HASH_ID i)))\<lparr>sk_type := t, sk_p := q\<rparr>"
    "t \<noteq> SOCKET_TYPE_RESERVE" "protocol = PROTOCOL_TCP \<and> q = P_size MIN_READ_BUFFER \<or> protocol \<in> {PROTOCOL_UDP, PROTOCOL_UDPv6} \<and> (\<exists>a. q = P_udp_address a)"
  shows "handled_ok (HASH_ID i) ss r ss' res'"
proof -
  have empty: "sk_high (ss_slot ss (HASH_ID i)) = []" "sk_low (ss_slot ss (HASH_ID i)) = []"
    using assms(2,3) by (auto simp: slot_ok_def writable_def send_buffer_empty_def)
  have "union_ok (ss_slot ss' (HASH_ID i))"
    using assms(4,6) by (auto simp: union_ok_def fresh_socket_def PROTOCOL_TCP_def PROTOCOL_UDP_def PROTOCOL_UDPv6_def intro: exI [of _ 0])
  then have "slot_ok (HASH_ID i) (ss_slot ss' (HASH_ID i))"
    using assms(4) empty by (simp add: slot_ok_def fresh_socket_def send_buffer_empty_def lists_ok_def)
  then show ?thesis using assms(2,4,5) by (intro handled_new [OF assms(1)]) (auto simp: in_pool_def)
qed

lemma unreserved_handled:
  assumes "touch (HASH_ID i) ops ss ss'" "sk_type (ss_slot ss (HASH_ID i)) = SOCKET_TYPE_RESERVE" "slot_ok (HASH_ID i) (ss_slot ss (HASH_ID i))"
    "ss_slot ss' (HASH_ID i) = (ss_slot ss (HASH_ID i))\<lparr>sk_type := SOCKET_TYPE_INVALID\<rparr>"
  shows "handled_ok (HASH_ID i) ss r ss' res'"
  using assms(2-4) by (intro handled_new [OF assms(1)]) (auto simp: slot_ok_def live_def writable_def send_buffer_empty_def in_pool_def)

lemma touch_clock_touch: "touch k ops ss ss1 \<Longrightarrow> touch k ops ss (ss1\<lparr>ss_clock := c\<rparr>)"
  using touch_trans [OF _ touch_clock, of k ops ss ss1 c] by simp

lemma connect_loop_touch:
  "connect_loop ais ss = (x, ss') \<Longrightarrow> (\<exists>ops. touch k ops ss ss') \<and> ss_slot ss' = ss_slot ss"
proof (induction ais arbitrary: ss)
  case (Cons ai ais)
  let ?a = "ss_env ss (ss_clock ss)"
  let ?ss1 = "ss\<lparr>ss_clock := ss_clock ss + 1\<rparr>"
  show ?case
  proof (cases "an_err ?a = None")
    case False
    then have "connect_loop ais ?ss1 = (x, ss')" using Cons.prems by (simp add: sys_def)
    from Cons.IH [OF this] obtain ops where "touch k ops ?ss1 ss'" "ss_slot ss' = ss_slot ss" by auto
    then show ?thesis using touch_trans [OF touch_clock] by blast
  next
    case True
    let ?sock = "int (an_num ?a)"
    let ?ss2 = "(trace [T_setopt ?sock, T_nonblocking ?sock] ?ss1)\<lparr>ss_clock := ss_clock ss + 2\<rparr>"
    let ?c = "ss_env ss (ss_clock ss + 1)"
    have t2: "touch k ([] @ [T_setopt ?sock, T_nonblocking ?sock]) ss ?ss2"
      by (intro touch_clock_touch touch_trans [OF touch_clock touch_trace])
    show ?thesis
    proof (cases "an_err ?c = None \<or> an_err ?c = Some EINPROGRESS")
      case ok: True
      then have "ss' = ?ss2" using Cons.prems True by (auto simp: sys_def Let_def trace_def split: if_splits)
      then show ?thesis using t2 by auto
    next
      case False
      then have "connect_loop ais (trace [T_close ?sock] ?ss2) = (x, ss')"
        using Cons.prems True by (auto simp: sys_def Let_def trace_def split: if_splits option.splits)
      from Cons.IH [OF this] obtain ops where "touch k ops (trace [T_close ?sock] ?ss2) ss'" "ss_slot ss' = ss_slot ss" by auto
      then show ?thesis using touch_trans [OF touch_trans [OF t2 touch_trace]] by blast
    qed
  qed
qed (use touch_same in auto)

text \<open>A request that creates a socket, on its reserved slot.\<close>

definition creates_ok :: "int \<Rightarrow> socket_server \<Rightarrow> handled \<Rightarrow> bool" where
  "creates_ok i ss h \<longleftrightarrow> (\<exists>r ss' res'. h = Some (r, ss', res') \<and> handled_ok (HASH_ID i) ss r ss' res')"

lemma creates_okI: "h = Some (r, ss', res') \<Longrightarrow> handled_ok (HASH_ID i) ss r ss' res' \<Longrightarrow> creates_ok i ss h"
  unfolding creates_ok_def by blast

lemma slot_twice [simp]: "put_socket k s (put_socket k s' ss) = put_socket k s ss"
  by (simp add: put_socket_def)

lemma put_trace: "trace ops (put_socket k s ss) = put_socket k s (trace ops ss)"
  by (simp add: put_socket_def trace_def)

lemma listen_socket_creates:
  assumes "sk_type (ss_slot ss (HASH_ID i)) = SOCKET_TYPE_RESERVE" "slot_ok (HASH_ID i) (ss_slot ss (HASH_ID i))"
  shows "creates_ok i ss (listen_socket i fd opaque ss res)"
proof -
  let ?k = "HASH_ID i"
  from new_fd_reserved [OF assms, of False fd PROTOCOL_TCP opaque] obtain ss1 ops where
    n: "touch ?k ops ss ss1" "new_fd i fd PROTOCOL_TCP opaque False ss = Some (True, put_socket ?k (fresh_socket i fd PROTOCOL_TCP opaque (ss_slot ss ?k)) ss1)"
    by auto
  let ?s = "(fresh_socket i fd PROTOCOL_TCP opaque (ss_slot ss ?k))\<lparr>sk_type := SOCKET_TYPE_PLISTEN\<rparr>"
  have "listen_socket i fd opaque ss res = Some (SR_none, put_socket ?k ?s ss1, res)"
    using n(2) by (simp add: listen_socket_def set_type_def)
  moreover have "handled_ok ?k ss SR_none (put_socket ?k ?s ss1) res"
    by (rule fresh_handled [OF touch_trans [OF n(1) touch_put] assms, where fd = fd and opaque = opaque and protocol = PROTOCOL_TCP and t = SOCKET_TYPE_PLISTEN and q = "P_size MIN_READ_BUFFER"])
      (simp_all add: fresh_socket_def)
  ultimately show ?thesis by (rule creates_okI)
qed

lemma bind_socket_creates:
  assumes "sk_type (ss_slot ss (HASH_ID i)) = SOCKET_TYPE_RESERVE" "slot_ok (HASH_ID i) (ss_slot ss (HASH_ID i))"
  shows "creates_ok i ss (bind_socket i fd opaque ss res)"
proof -
  let ?k = "HASH_ID i"
  from new_fd_reserved [OF assms, of True fd PROTOCOL_TCP opaque] obtain ok ss1 ops where
    n: "touch ?k ops ss ss1" "new_fd i fd PROTOCOL_TCP opaque True ss = Some (ok, put_socket ?k
      (if ok then fresh_socket i fd PROTOCOL_TCP opaque (ss_slot ss ?k) else (ss_slot ss ?k)\<lparr>sk_type := SOCKET_TYPE_INVALID\<rparr>) ss1)" by auto
  show ?thesis
  proof (cases ok)
    case True
    let ?s = "(fresh_socket i fd PROTOCOL_TCP opaque (ss_slot ss ?k))\<lparr>sk_type := SOCKET_TYPE_BIND\<rparr>"
    let ?ss = "put_socket ?k ?s (trace [T_nonblocking fd] ss1)"
    have "\<exists>res'. bind_socket i fd opaque ss res = Some (SR_open, ?ss, res')"
      using n(2) True by (simp add: bind_socket_def set_type_def put_trace)
    moreover have "handled_ok ?k ss SR_open ?ss res'" for res'
      by (rule fresh_handled [OF touch_trans [OF touch_trans [OF n(1) touch_trace] touch_put] assms, where fd = fd and opaque = opaque and protocol = PROTOCOL_TCP and t = SOCKET_TYPE_BIND and q = "P_size MIN_READ_BUFFER"])
        (simp_all add: fresh_socket_def)
    ultimately show ?thesis using creates_okI by blast
  next
    case False
    let ?ss = "put_socket ?k ((ss_slot ss ?k)\<lparr>sk_type := SOCKET_TYPE_INVALID\<rparr>) ss1"
    have "\<exists>res'. bind_socket i fd opaque ss res = Some (SR_error, ?ss, res')" using n(2) False by (simp add: bind_socket_def)
    moreover have "handled_ok ?k ss SR_error ?ss res'" for res' by (rule unreserved_handled [OF touch_trans [OF n(1) touch_put] assms]) simp
    ultimately show ?thesis using creates_okI by blast
  qed
qed

lemma add_udp_socket_creates:
  assumes "sk_type (ss_slot ss (HASH_ID i)) = SOCKET_TYPE_RESERVE" "slot_ok (HASH_ID i) (ss_slot ss (HASH_ID i))"
  shows "creates_ok i ss (do { ss \<leftarrow> add_udp_socket i fd v6 opaque ss; Some (SR_none, ss, res) })"
proof -
  let ?k = "HASH_ID i" and ?p = "if v6 then PROTOCOL_UDPv6 else PROTOCOL_UDP"
  from new_fd_reserved [OF assms, of True fd ?p opaque] obtain ok ss1 ops where
    n: "touch ?k ops ss ss1" "ss_slot ss1 = ss_slot ss" "new_fd i fd ?p opaque True ss = Some (ok, put_socket ?k
      (if ok then fresh_socket i fd ?p opaque (ss_slot ss ?k) else (ss_slot ss ?k)\<lparr>sk_type := SOCKET_TYPE_INVALID\<rparr>) ss1)" by auto
  show ?thesis
  proof (cases ok)
    case True
    let ?q = "P_udp_address (replicate UDP_ADDRESS_SIZE 0)"
    let ?s = "(fresh_socket i fd ?p opaque (ss_slot ss ?k))\<lparr>sk_type := SOCKET_TYPE_CONNECTED, sk_p := ?q\<rparr>"
    have "add_udp_socket i fd v6 opaque ss = Some (put_socket ?k ?s ss1)" using n(3) True by (simp add: add_udp_socket_def Let_def)
    moreover have "handled_ok ?k ss SR_none (put_socket ?k ?s ss1) res"
      by (rule fresh_handled [OF touch_trans [OF n(1) touch_put] assms, where fd = fd and opaque = opaque and t = SOCKET_TYPE_CONNECTED and q = ?q and protocol = ?p]) simp_all
    ultimately show ?thesis by (intro creates_okI) simp_all
  next
    case False
    let ?ss = "put_socket ?k ((ss_slot ss ?k)\<lparr>sk_type := SOCKET_TYPE_INVALID\<rparr>) (trace [T_close fd] ss1)"
    have "add_udp_socket i fd v6 opaque ss = Some ?ss" using n(3) False by (simp add: add_udp_socket_def set_type_def put_trace)
    moreover have "handled_ok ?k ss SR_none ?ss res"
      by (rule unreserved_handled [OF touch_trans [OF touch_trans [OF n(1) touch_trace] touch_put] assms]) simp
    ultimately show ?thesis by (intro creates_okI) simp_all
  qed
qed

lemma open_socket_creates:
  assumes "sk_type (ss_slot ss (HASH_ID i)) = SOCKET_TYPE_RESERVE" "slot_ok (HASH_ID i) (ss_slot ss (HASH_ID i))"
  shows "creates_ok i ss (open_socket i opaque ss res)"
proof -
  let ?k = "HASH_ID i"
  have failed: "handled_ok ?k ss SR_error (set_type i SOCKET_TYPE_INVALID ss1) res'"
    if "touch ?k ops ss ss1" "ss_slot ss1 ?k = ss_slot ss ?k \<or> ss_slot ss1 ?k = (ss_slot ss ?k)\<lparr>sk_type := SOCKET_TYPE_INVALID\<rparr>" for ops ss1 res'
    using that by (intro unreserved_handled [OF touch_trans [OF that(1)] assms, of "[]"]) (auto simp: set_type_def)
  define g where "g = ss_env ss (ss_clock ss)"
  define ss0 where "ss0 = ss\<lparr>ss_clock := ss_clock ss + 1\<rparr>"
  have t0: "touch ?k [] ss ss0" "ss_slot ss0 = ss_slot ss" by (simp_all add: ss0_def)
  have sys: "sys ss = (g, ss0)" by (simp add: sys_def g_def ss0_def)
  obtain x ss1 where x: "connect_loop (an_addrs g) ss0 = (x, ss1)" by fastforce
  obtain ops1 where t1': "touch ?k ops1 ss0 ss1" and s1: "ss_slot ss1 = ss_slot ss" using connect_loop_touch [OF x, of ?k] t0 by auto
  note t1 = touch_trans [OF t0(1) t1']
  consider (nohost) "an_err g \<noteq> None" | (none) "an_err g = None" "x = None" | (sock) sock dn ai where "an_err g = None" "x = Some (sock, dn, ai)"
    by (cases x) auto
  then show ?thesis
  proof cases
    case nohost
    then have "\<exists>res'. open_socket i opaque ss res = Some (SR_error, set_type i SOCKET_TYPE_INVALID ss0, res')" by (simp add: open_socket_def sys)
    then show ?thesis using failed [OF t0(1)] t0(2) creates_okI by force
  next
    case none
    then have "\<exists>res'. open_socket i opaque ss res = Some (SR_error, set_type i SOCKET_TYPE_INVALID ss1, res')" using x by (simp add: open_socket_def sys)
    then show ?thesis using failed [OF t1] s1 creates_okI by force
  next
    case sock
    have res: "sk_type (ss_slot ss1 ?k) = SOCKET_TYPE_RESERVE" "slot_ok ?k (ss_slot ss1 ?k)" using assms s1 by simp_all
    from new_fd_reserved [OF res, of True sock PROTOCOL_TCP opaque] obtain ok ss2 ops where
      n: "touch ?k ops ss1 ss2" "ss_slot ss2 = ss_slot ss1" "new_fd i sock PROTOCOL_TCP opaque True ss1 = Some (ok, put_socket ?k
        (if ok then fresh_socket i sock PROTOCOL_TCP opaque (ss_slot ss ?k) else (ss_slot ss ?k)\<lparr>sk_type := SOCKET_TYPE_INVALID\<rparr>) ss2)"
      unfolding s1 by auto
    note t2 = touch_trans [OF t1 n(1)]
    have done': "handled_ok ?k ss r ss3 res'"
      if "touch ?k ops3 (put_socket ?k ((fresh_socket i sock PROTOCOL_TCP opaque (ss_slot ss ?k))\<lparr>sk_type := t\<rparr>) ss2) ss3"
        "ss_slot ss3 ?k = (fresh_socket i sock PROTOCOL_TCP opaque (ss_slot ss ?k))\<lparr>sk_type := t\<rparr>" "t \<noteq> SOCKET_TYPE_RESERVE" for r res' t ss3 ops3
      by (rule fresh_handled [OF touch_trans [OF touch_trans [OF t2 touch_put] that(1)] assms, where fd = sock and opaque = opaque and protocol = PROTOCOL_TCP and t = t and q = "P_size MIN_READ_BUFFER"])
        (simp_all add: that fresh_socket_def)
    consider (limit) "\<not> ok" | (connected) "ok" "dn" | (connecting) "ok" "\<not> dn" by blast
    then show ?thesis
    proof cases
      case limit
      let ?ss = "trace [T_close sock] (put_socket ?k ((ss_slot ss ?k)\<lparr>sk_type := SOCKET_TYPE_INVALID\<rparr>) ss2)"
      have "\<exists>res'. open_socket i opaque ss res = Some (SR_error, set_type i SOCKET_TYPE_INVALID ?ss, res')"
        using sock x n(3) limit by (simp add: open_socket_def sys)
      moreover have "handled_ok ?k ss SR_error (set_type i SOCKET_TYPE_INVALID ?ss) res'" for res'
        by (rule failed [OF touch_trans [OF touch_trans [OF t2 touch_put] touch_trace]]) simp
      ultimately show ?thesis using creates_okI by blast
    next
      case connected
      let ?ss = "put_socket ?k ((fresh_socket i sock PROTOCOL_TCP opaque (ss_slot ss ?k))\<lparr>sk_type := SOCKET_TYPE_CONNECTED\<rparr>) ss2"
      have "\<exists>res'. open_socket i opaque ss res = Some (SR_open, ?ss\<lparr>ss_clock := ss_clock ?ss + 1\<rparr>, res')"
        using sock x n(3) connected by (simp add: open_socket_def sys set_type_def sys_def [of "put_socket _ _ _"])
      then show ?thesis using done' [OF touch_clock, where t = SOCKET_TYPE_CONNECTED] creates_okI by auto
    next
      case connecting
      let ?ss = "put_socket ?k ((fresh_socket i sock PROTOCOL_TCP opaque (ss_slot ss ?k))\<lparr>sk_type := SOCKET_TYPE_CONNECTING\<rparr>) ss2"
      have "\<exists>res'. open_socket i opaque ss res = Some (SR_none, trace [T_sp_write sock True] ?ss, res')"
        using sock x n(3) connecting by (simp add: open_socket_def sys set_type_def)
      then show ?thesis using done' [OF touch_trace, where t = SOCKET_TYPE_CONNECTING] creates_okI by auto
    qed
  qed
qed

section \<open>Ids\<close>

lemma sint_of_small: "n < 2 ^ 31 \<Longrightarrow> sint (of_nat n :: u32) = int n"
  by (simp add: signed_of_nat signed_take_bit_int_eq_self)

lemma sint_small: "unat a < 2 ^ 31 \<Longrightarrow> sint a = int (unat a)" for a :: u32
  using sint_of_small [of "unat a"] by simp

lemma unat_Suc: "unat a + 1 < 2 ^ 31 \<Longrightarrow> unat (a + 1) = unat a + 1" for a :: u32
  by (subst unat_plus_simple [THEN iffD1]) (auto simp: word_le_nat_alt unat_word_ariths(1))

text \<open>While fewer than \<open>2 ^ 31\<close> ids have been tried, a reserved id is larger than all that were tried
  before.\<close>

definition reserved :: "int \<Rightarrow> u32 \<Rightarrow> socket_server \<Rightarrow> socket_server" where
  "reserved i a ss = put_socket (HASH_ID i) ((ss_slot ss (HASH_ID i))\<lparr>sk_type := SOCKET_TYPE_RESERVE, sk_id := i, sk_fd := -1\<rparr>) (ss\<lparr>ss_alloc_id := a\<rparr>)"

lemma reserve_loop_cases:
  assumes "unat (ss_alloc_id ss) + n < 2 ^ 31" "reserve_loop n ss = (i, ss')"
  shows "(\<exists>a. i = -1 \<and> ss' = ss\<lparr>ss_alloc_id := a\<rparr> \<and> unat (ss_alloc_id ss) \<le> unat a \<and> unat a \<le> unat (ss_alloc_id ss) + n)
    \<or> (\<exists>a. ss' = reserved i a ss \<and> i = int (unat a) \<and> unat (ss_alloc_id ss) < unat a \<and> unat a \<le> unat (ss_alloc_id ss) + n
      \<and> sk_type (ss_slot ss (HASH_ID i)) = SOCKET_TYPE_INVALID)"
  using assms
proof (induction n arbitrary: ss)
  case 0
  then show ?case by (auto intro: exI [of _ "ss_alloc_id ss"])
next
  case (Suc n)
  let ?v = "ss_alloc_id ss + 1"
  have v: "unat ?v = unat (ss_alloc_id ss) + 1" using Suc.prems(1) by (intro unat_Suc) simp
  then have s: "sint ?v = int (unat ?v)" using Suc.prems(1) by (intro sint_small) simp
  let ?ss = "ss\<lparr>ss_alloc_id := ?v\<rparr>"
  have eq: "reserve_loop (Suc n) ss = (if sk_type (ss_slot ss (HASH_ID (int (unat ?v)))) = SOCKET_TYPE_INVALID
      then (int (unat ?v), reserved (int (unat ?v)) ?v ss) else reserve_loop n ?ss)"
    using s by (simp add: Let_def reserved_def)
  show ?case
  proof (cases "sk_type (ss_slot ss (HASH_ID (int (unat ?v)))) = SOCKET_TYPE_INVALID")
    case True
    then have "i = int (unat ?v)" "ss' = reserved i ?v ss" using eq Suc.prems(2) by auto
    then show ?thesis using True v by (intro disjI2 exI [of _ ?v]) simp
  next
    case False
    then have "reserve_loop n ?ss = (i, ss')" using eq Suc.prems(2) by simp
    moreover have "unat (ss_alloc_id ?ss) + n < 2 ^ 31" using Suc.prems(1) v by simp
    ultimately have "(\<exists>a. i = -1 \<and> ss' = ?ss\<lparr>ss_alloc_id := a\<rparr> \<and> unat ?v \<le> unat a \<and> unat a \<le> unat ?v + n)
      \<or> (\<exists>a. ss' = reserved i a ?ss \<and> i = int (unat a) \<and> unat ?v < unat a \<and> unat a \<le> unat ?v + n
        \<and> sk_type (ss_slot ss (HASH_ID i)) = SOCKET_TYPE_INVALID)" using Suc.IH [of ?ss] by simp
    moreover have "reserved i a ?ss = reserved i a ss" for a by (simp add: reserved_def)
    ultimately show ?thesis unfolding v by fastforce
  qed
qed

definition plenty :: "socket_server \<Rightarrow> bool" where
  "plenty ss \<longleftrightarrow> unat (ss_alloc_id ss) + MAX_SOCKET < 2 ^ 31"

lemma reserve_id_cases:
  assumes "plenty ss" "reserve_id ss = (i, ss')"
  obtains (full) a where "i = -1" "ss' = ss\<lparr>ss_alloc_id := a\<rparr>" "sint (ss_alloc_id ss) \<le> sint a"
  | (reserve) a where "ss' = reserved i a ss" "i = sint a" "0 < i" "sint (ss_alloc_id ss) < sint a"
      "sk_type (ss_slot ss (HASH_ID i)) = SOCKET_TYPE_INVALID"
proof -
  have lt: "unat (ss_alloc_id ss) + MAX_SOCKET < 2 ^ 31" using assms(1) by (simp add: plenty_def)
  then have s: "sint (ss_alloc_id ss) = int (unat (ss_alloc_id ss))" by (intro sint_small) simp
  have a: "sint a = int (unat a)" if "unat a \<le> unat (ss_alloc_id ss) + MAX_SOCKET" for a :: u32 using lt that by (intro sint_small) simp
  from assms(2) have "reserve_loop MAX_SOCKET ss = (i, ss')" by (simp add: reserve_id_def)
  from reserve_loop_cases [OF lt this] show ?thesis
  proof (elim disjE exE conjE)
    fix b assume b: "i = -1" "ss' = ss\<lparr>ss_alloc_id := b\<rparr>" "unat (ss_alloc_id ss) \<le> unat b" "unat b \<le> unat (ss_alloc_id ss) + MAX_SOCKET"
    have "sint (ss_alloc_id ss) \<le> sint b" using b(3) a [OF b(4)] s by linarith
    then show ?thesis using full b by blast
  next
    fix b assume b: "ss' = reserved i b ss" "i = int (unat b)" "unat (ss_alloc_id ss) < unat b" "unat b \<le> unat (ss_alloc_id ss) + MAX_SOCKET"
      "sk_type (ss_slot ss (HASH_ID i)) = SOCKET_TYPE_INVALID"
    have "i = sint b" "0 < i" "sint (ss_alloc_id ss) < sint b" using b(2,3) a [OF b(4)] s by linarith+
    then show ?thesis using reserve b by blast
  qed
qed

end
