(* ===== verification/Socket_Safety.thy ===== *)
theory Socket_Safety
  imports Socket_Slots
begin

unbundle bit_operations_syntax

text \<open>
  The invariant of the socket server, over the steps of the socket thread and the calls of all
  other threads in any order: the requests in the pipe fit the sockets, and the events that
  wait to be handled belong to sockets in the event pool.
\<close>

section \<open>The pipe\<close>

fun request_id :: "request \<Rightarrow> int option" where
  "request_id (R_start i opaque) = Some i"
| "request_id (R_bind i fd opaque) = Some i"
| "request_id (R_listen i fd opaque) = Some i"
| "request_id (R_close i sd opaque) = Some i"
| "request_id (R_open i opaque host port) = Some i"
| "request_id R_exit = None"
| "request_id (R_send i p pay) = Some i"
| "request_id (R_send_udp i pay addr) = Some i"
| "request_id (R_setudp i addr) = Some i"
| "request_id (R_setopt i what v) = Some i"
| "request_id (R_udp i fd v6 opaque) = Some i"
| "request_id R_unknown = None"

fun new_id :: "request \<Rightarrow> int option" where
  "new_id (R_bind i fd opaque) = Some i"
| "new_id (R_listen i fd opaque) = Some i"
| "new_id (R_open i opaque host port) = Some i"
| "new_id (R_udp i fd v6 opaque) = Some i"
| "new_id _ = None"

fun request_ok :: "request \<Rightarrow> bool" where
  "request_ok (R_send i p pay) = is_memory pay"
| "request_ok (R_send_udp i pay addr) = is_memory pay"
| "request_ok (R_setudp i addr) \<longleftrightarrow> unat (addr ! 0) \<in> {PROTOCOL_UDP, PROTOCOL_UDPv6}"
| "request_ok _ = True"

definition made :: "request list \<Rightarrow> int set" where
  "made rs = {i. \<exists>r\<in>set rs. new_id r = Some i}"

text \<open>No request for a socket is in the pipe before the one that creates it.\<close>

fun ordered :: "request list \<Rightarrow> bool" where
  "ordered [] = True"
| "ordered (r # rs) \<longleftrightarrow> (\<forall>i. request_id r = Some i \<longrightarrow> i \<notin> made rs) \<and> ordered rs"

text \<open>The reserved slots are those of the sockets whose creation is in the pipe.\<close>

definition pipe_ok :: "socket_server \<Rightarrow> bool" where [inv_defs]:
  "pipe_ok ss \<longleftrightarrow> ordered (ss_pipe ss)
     \<and> (\<forall>r\<in>set (ss_pipe ss). request_ok r \<and> (\<forall>i. request_id r = Some i \<longrightarrow> i \<le> sint (ss_alloc_id ss)))
     \<and> (\<forall>i\<in>made (ss_pipe ss). sk_type (ss_slot ss (HASH_ID i)) = SOCKET_TYPE_RESERVE \<and> sk_id (ss_slot ss (HASH_ID i)) = i)
     \<and> (\<forall>k. sk_type (ss_slot ss k) = SOCKET_TYPE_RESERVE \<longrightarrow> sk_id (ss_slot ss k) \<in> made (ss_pipe ss))"

lemma made_simps [simp]: "made [] = {}" "made (r # rs) = (case new_id r of None \<Rightarrow> made rs | Some i \<Rightarrow> insert i (made rs))"
    "made (rs @ rs') = made rs \<union> made rs'"
  by (auto simp: made_def split: option.splits)

lemma new_request_id: "new_id r = Some i \<Longrightarrow> request_id r = Some i"
  by (cases r) auto

lemma made_request_id: "i \<in> made rs \<Longrightarrow> \<exists>r\<in>set rs. request_id r = Some i"
  by (auto simp: made_def dest: new_request_id)

lemma ordered_append: "ordered (rs @ [r]) \<longleftrightarrow> ordered rs \<and> (\<forall>i. new_id r = Some i \<longrightarrow> (\<forall>r'\<in>set rs. request_id r' \<noteq> Some i))"
  by (induction rs) (auto split: option.splits)

section \<open>The events\<close>

fun event_slots :: "event list \<Rightarrow> nat list" where
  "event_slots [] = []"
| "event_slots (e # es) = (case ev_s e of None \<Rightarrow> event_slots es | Some k \<Rightarrow> k # event_slots es)"

definition waiting :: "socket_server \<Rightarrow> nat list" where
  "waiting ss = event_slots (drop (ss_event_index ss) (ss_ev ss))"

definition events_ok :: "socket_server \<Rightarrow> bool" where [inv_defs]:
  "events_ok ss \<longleftrightarrow> ss_event_index ss \<le> length (ss_ev ss) \<and> distinct (waiting ss) \<and> (\<forall>k\<in>set (waiting ss). in_pool (sk_type (ss_slot ss k)))"

lemma event_slots_append: "event_slots (xs @ ys) = event_slots xs @ event_slots ys"
  by (induction xs) (auto split: option.splits)

lemma reported_slots:
  "distinct (event_slots (reported ss seen es)) \<and> set (event_slots (reported ss seen es)) \<inter> seen = {}
     \<and> (\<forall>k\<in>set (event_slots (reported ss seen es)). in_pool (sk_type (ss_slot ss k)))"
proof (induction es arbitrary: seen)
  case (Cons e es)
  show ?case
  proof (cases "ev_s e")
    case None
    then show ?thesis using Cons.IH [of seen] by simp
  next
    case (Some i)
    then show ?thesis using Cons.IH [of seen] Cons.IH [of "insert i seen"] by (cases "i \<notin> seen \<and> in_pool (sk_type (ss_slot ss i))") auto
  qed
qed simp

lemma taken_slots: "distinct (event_slots es) \<Longrightarrow> distinct (event_slots (take n es))" "k \<in> set (event_slots (take n es)) \<Longrightarrow> k \<in> set (event_slots es)"
  using event_slots_append [of "take n es" "drop n es"] by auto

lemma clear_event_slots:
  assumes "distinct (event_slots es)" "\<forall>j\<in>set (event_slots es). Q j \<longrightarrow> j = k"
  shows "event_slots (clear_event (\<lambda>e. case ev_s e of None \<Rightarrow> False | Some j \<Rightarrow> Q j) es) = filter (\<lambda>j. \<not> Q j) (event_slots es)"
  using assms
proof (induction es)
  case (Cons e es)
  have "filter (\<lambda>j. \<not> Q j) (event_slots es) = event_slots es" if "Q j" "ev_s e = Some j" for j
    using that Cons.prems by (intro filter_True) auto
  then show ?case using Cons by (auto split: option.splits)
qed simp

text \<open>A step that closes at most slot \<open>k\<close>, with a result that says so.\<close>

lemma events_after:
  assumes "events_ok ss" "ss_ev ss' = ss_ev ss" "ss_event_index ss' = ss_event_index ss"
    "\<And>j. in_pool (sk_type (ss_slot ss j)) \<Longrightarrow> in_pool (sk_type (ss_slot ss' j))
       \<or> j = k \<and> (r = SR_close \<or> r = SR_error) \<and> sk_type (ss_slot ss' j) = SOCKET_TYPE_INVALID \<and> sk_id (ss_slot ss' j) = sm_id res"
  shows "events_ok (clear_closed_event res r ss')"
proof (cases "r = SR_close \<or> r = SR_error")
  case True
  define Q where "Q = (\<lambda>j. sk_type (ss_slot ss' j) = SOCKET_TYPE_INVALID \<and> sk_id (ss_slot ss' j) = sm_id res)"
  let ?es = "drop (ss_event_index ss) (ss_ev ss)"
  let ?P = "\<lambda>e. case ev_s e of None \<Rightarrow> False | Some j \<Rightarrow> Q j"
  have le: "ss_event_index ss \<le> length (ss_ev ss)" and d: "distinct (event_slots ?es)"
    and p: "\<And>j. j \<in> set (event_slots ?es) \<Longrightarrow> in_pool (sk_type (ss_slot ss j))" using assms(1) by (auto simp: events_ok_def waiting_def)
  have "\<not> in_pool SOCKET_TYPE_INVALID" by (simp add: in_pool_def)
  then have pool: "in_pool (sk_type (ss_slot ss' j)) \<or> j = k \<and> Q k" if "j \<in> set (event_slots ?es)" for j
    using assms(4) [OF p [OF that]] by (auto simp: Q_def)
  have q: "\<forall>j\<in>set (event_slots ?es). Q j \<longrightarrow> j = k"
    using pool \<open>\<not> in_pool SOCKET_TYPE_INVALID\<close> unfolding Q_def by metis
  have eq: "clear_closed_event res r ss' = ss'\<lparr>ss_ev := take (ss_event_index ss) (ss_ev ss) @ clear_event ?P ?es\<rparr>"
    unfolding Q_def using True assms(2,3) by (simp add: clear_closed_event_def)
  have "waiting (clear_closed_event res r ss') = filter (\<lambda>j. \<not> Q j) (event_slots ?es)"
    using clear_event_slots [OF d q] le assms(3) by (simp add: waiting_def eq)
  then show ?thesis using le assms(3) d pool by (auto simp: events_ok_def eq)
next
  case False
  then show ?thesis using assms by (auto simp: events_ok_def waiting_def clear_closed_event_def)
qed

section \<open>The server\<close>

definition server_ok :: "socket_server \<Rightarrow> bool" where [inv_defs]:
  "server_ok ss \<longleftrightarrow> (\<forall>k. slot_ok k (ss_slot ss k)) \<and> pipe_ok ss \<and> events_ok ss \<and> fair ss"

lemma clear_fields [simp]:
  "ss_slot (clear_closed_event res r ss) = ss_slot ss" "ss_pipe (clear_closed_event res r ss) = ss_pipe ss"
  "ss_alloc_id (clear_closed_event res r ss) = ss_alloc_id ss" "ss_env (clear_closed_event res r ss) = ss_env ss"
  by (simp_all add: clear_closed_event_def)

lemma clear_none [simp]: "clear_closed_event res SR_none ss = ss"
  by (simp add: clear_closed_event_def)

text \<open>After a step on slot \<open>k\<close>, when the requests in the pipe fit the other slots.\<close>

lemma handled_server:
  assumes "\<forall>j. slot_ok j (ss_slot ss j)" "events_ok ss" "fair ss" "handled_ok k ss r ss' res'"
    "ordered (ss_pipe ss)" "\<forall>r\<in>set (ss_pipe ss). request_ok r \<and> (\<forall>i. request_id r = Some i \<longrightarrow> i \<le> sint (ss_alloc_id ss))"
    "\<forall>i\<in>made (ss_pipe ss). HASH_ID i \<noteq> k \<and> sk_type (ss_slot ss (HASH_ID i)) = SOCKET_TYPE_RESERVE \<and> sk_id (ss_slot ss (HASH_ID i)) = i"
    "\<forall>j. j \<noteq> k \<and> sk_type (ss_slot ss j) = SOCKET_TYPE_RESERVE \<longrightarrow> sk_id (ss_slot ss j) \<in> made (ss_pipe ss)"
  shows "server_ok (clear_closed_event res' r ss')"
proof -
  obtain ops where t: "touch k ops ss ss'" and h: "slot_ok k (ss_slot ss' k)" "sk_type (ss_slot ss' k) \<noteq> SOCKET_TYPE_RESERVE"
     "in_pool (sk_type (ss_slot ss k)) \<longrightarrow> in_pool (sk_type (ss_slot ss' k))
        \<or> (r = SR_close \<or> r = SR_error) \<and> sk_type (ss_slot ss' k) = SOCKET_TYPE_INVALID \<and> sk_id (ss_slot ss' k) = sm_id res'"
    using assms(4) unfolding handled_ok_def Let_def by blast
  have f: "ss_env ss' = ss_env ss" "ss_pipe ss' = ss_pipe ss" "ss_alloc_id ss' = ss_alloc_id ss" "ss_ev ss' = ss_ev ss"
    "ss_event_index ss' = ss_event_index ss" and o: "\<And>j. j \<noteq> k \<Longrightarrow> ss_slot ss' j = ss_slot ss j"
    using touch_fields [OF t] by auto
  have slots: "slot_ok j (ss_slot ss' j)" for j using assms(1) h(1) o by (cases "j = k") auto
  have "events_ok (clear_closed_event res' r ss')"
  proof (rule events_after [OF assms(2) f(4,5), where k = k])
    fix j assume "in_pool (sk_type (ss_slot ss j))"
    then show "in_pool (sk_type (ss_slot ss' j)) \<or> j = k \<and> (r = SR_close \<or> r = SR_error) \<and> sk_type (ss_slot ss' j) = SOCKET_TYPE_INVALID
        \<and> sk_id (ss_slot ss' j) = sm_id res'" using h(3) o by (cases "j = k") auto
  qed
  moreover have "pipe_ok (clear_closed_event res' r ss')"
    using assms(5-8) f o h(2) unfolding pipe_ok_def clear_fields by metis
  ultimately show ?thesis using slots f assms(3) by (simp add: server_ok_def fair_def)
qed

text \<open>A request for an existing socket.\<close>

lemma pipe_pop:
  assumes "server_ok ss" "ss_pipe ss = r # rs" "new_id r = None"
  shows "server_ok (ss\<lparr>ss_pipe := rs\<rparr>)"
  using assms by (auto simp: server_ok_def pipe_ok_def events_ok_def waiting_def fair_def)

lemma live_server:
  assumes "server_ok ss" "live (ss_slot ss k)" "handled_ok k ss r ss' res'"
  shows "server_ok (clear_closed_event res' r ss')"
  using assms(1,2) by (intro handled_server [OF _ _ _ assms(3)]) (auto simp: server_ok_def pipe_ok_def live_def)

lemma trace_server: "server_ok (trace ops ss) = server_ok ss"
  by (simp add: server_ok_def pipe_ok_def events_ok_def waiting_def fair_def trace_def)

lemma clear_nothing:
  assumes "server_ok ss"
  shows "server_ok (clear_closed_event res r ss)"
  using assms events_after [of ss ss undefined r res] by (simp add: server_ok_def pipe_ok_def fair_def)

lemma answered_server:
  assumes "server_ok ss" "answered k ss r ss' res'"
  shows "server_ok (clear_closed_event res' r ss')"
  using assms(2) live_server [OF assms(1)] clear_nothing [of "trace _ ss"] trace_server assms(1) unfolding answered_def by auto

text \<open>When a request is taken from the pipe, its socket exists or is not the one with that id.\<close>

lemma popped_not_reserved:
  assumes "server_ok ss" "ss_pipe ss = r # rs" "new_id r = None" "request_id r = Some i" "sk_id (ss_slot ss (HASH_ID i)) = i"
  shows "sk_type (ss_slot ss (HASH_ID i)) \<noteq> SOCKET_TYPE_RESERVE"
proof
  assume "sk_type (ss_slot ss (HASH_ID i)) = SOCKET_TYPE_RESERVE"
  then have "i \<in> made (r # rs)" using assms(1,2,5) by (auto simp: server_ok_def pipe_ok_def)
  moreover have "i \<notin> made rs" using assms(1,2,4) by (auto simp: server_ok_def pipe_ok_def)
  ultimately show False using assms(3) by simp
qed

text \<open>A request that creates a socket.\<close>

lemma created_server:
  assumes "server_ok ss" "ss_pipe ss = r # rs" "new_id r = Some i"
    "\<And>ss. sk_type (ss_slot ss (HASH_ID i)) = SOCKET_TYPE_RESERVE \<Longrightarrow> slot_ok (HASH_ID i) (ss_slot ss (HASH_ID i)) \<Longrightarrow> creates_ok i ss (h ss)"
  shows "\<exists>r' ss' res'. h (ss\<lparr>ss_pipe := rs\<rparr>) = Some (r', ss', res') \<and> server_ok (clear_closed_event res' r' ss')"
proof -
  let ?ss = "ss\<lparr>ss_pipe := rs\<rparr>"
  have slots: "\<forall>j. slot_ok j (ss_slot ss j)" and o: "ordered rs" "i \<notin> made rs"
    and rs: "\<forall>r\<in>set rs. request_ok r \<and> (\<forall>i. request_id r = Some i \<longrightarrow> i \<le> sint (ss_alloc_id ss))"
    and m: "\<forall>j\<in>insert i (made rs). sk_type (ss_slot ss (HASH_ID j)) = SOCKET_TYPE_RESERVE \<and> sk_id (ss_slot ss (HASH_ID j)) = j"
    and bk: "\<forall>k. sk_type (ss_slot ss k) = SOCKET_TYPE_RESERVE \<longrightarrow> sk_id (ss_slot ss k) \<in> insert i (made rs)"
    using assms(1-3) new_request_id [OF assms(3)] by (auto simp: server_ok_def pipe_ok_def)
  have "creates_ok i ?ss (h ?ss)" using m slots by (intro assms(4)) auto
  then obtain r' ss' res' where h: "h ?ss = Some (r', ss', res')" "handled_ok (HASH_ID i) ?ss r' ss' res'" unfolding creates_ok_def by blast
  have "server_ok (clear_closed_event res' r' ss')"
  proof (rule handled_server [OF _ _ _ h(2)])
    show "\<forall>j\<in>made (ss_pipe ?ss). HASH_ID j \<noteq> HASH_ID i \<and> sk_type (ss_slot ?ss (HASH_ID j)) = SOCKET_TYPE_RESERVE \<and> sk_id (ss_slot ?ss (HASH_ID j)) = j"
    proof
      fix j assume j: "j \<in> made (ss_pipe ?ss)"
      then have "j \<noteq> i" "sk_id (ss_slot ss (HASH_ID i)) = i" "sk_id (ss_slot ss (HASH_ID j)) = j" using m o(2) by auto
      then have "HASH_ID j \<noteq> HASH_ID i" by metis
      then show "HASH_ID j \<noteq> HASH_ID i \<and> sk_type (ss_slot ?ss (HASH_ID j)) = SOCKET_TYPE_RESERVE \<and> sk_id (ss_slot ?ss (HASH_ID j)) = j"
        using m j by simp
    qed
    show "\<forall>j. j \<noteq> HASH_ID i \<and> sk_type (ss_slot ?ss j) = SOCKET_TYPE_RESERVE \<longrightarrow> sk_id (ss_slot ?ss j) \<in> made (ss_pipe ?ss)"
    proof (intro allI impI, elim conjE)
      fix j assume j: "j \<noteq> HASH_ID i" "sk_type (ss_slot ?ss j) = SOCKET_TYPE_RESERVE"
      then have "HASH_ID (sk_id (ss_slot ss j)) = j" "sk_id (ss_slot ss j) \<in> insert i (made rs)" using bk slots by (auto simp: slot_ok_def)
      then show "sk_id (ss_slot ?ss j) \<in> made (ss_pipe ?ss)" using j(1) by auto
    qed
  qed (use assms(1) slots o rs in \<open>auto simp: server_ok_def events_ok_def waiting_def fair_def\<close>)
  then show ?thesis using h(1) by blast
qed

lemma ctrl_cmd_server:
  assumes "server_ok ss" "has_cmd ss"
  shows "\<exists>r ss' res'. ctrl_cmd ss res = Some (r, ss', res') \<and> server_ok (clear_closed_event res' r ss')"
proof -
  obtain r rs where pipe: "ss_pipe ss = r # rs" using assms(2) by (auto simp: has_cmd_def neq_Nil_conv)
  let ?ss = "ss\<lparr>ss_pipe := rs\<rparr>"
  note pop = pipe_pop [OF assms(1) pipe]
  note made = created_server [OF assms(1) pipe]
  have old: "sk_type (ss_slot ?ss (HASH_ID i)) \<noteq> SOCKET_TYPE_RESERVE"
    if "new_id r = None" "request_id r = Some i" "sk_id (ss_slot ?ss (HASH_ID i)) = i" for i
    using popped_not_reserved [OF assms(1) pipe that(1,2)] that(3) by simp
  have slot: "slot_ok k (ss_slot ?ss k)" for k using assms(1) by (simp add: server_ok_def)
  have fair: "fair ?ss" using assms(1) by (simp add: server_ok_def fair_def)
  have rok: "request_ok r" using assms(1) pipe by (auto simp: server_ok_def pipe_ok_def)
  have ans: ?thesis if "new_id r = None" "\<exists>r' ss' res'. ctrl_cmd ss res = Some (r', ss', res') \<and> answered k ?ss r' ss' res'" for k
    using that(2) answered_server [OF pop [OF that(1)]] by blast
  show ?thesis
  proof (cases r)
    case (R_start i opaque)
    then show ?thesis using start_socket_handled [OF slot, of i opaque res] old pipe by (intro ans [of "HASH_ID i"]) (auto simp: ctrl_cmd_def)
  next
    case (R_bind i fd opaque)
    then show ?thesis using made [of i "\<lambda>ss. bind_socket i fd opaque ss res"] bind_socket_creates pipe by (auto simp: ctrl_cmd_def)
  next
    case (R_listen i fd opaque)
    then show ?thesis using made [of i "\<lambda>ss. listen_socket i fd opaque ss res"] listen_socket_creates pipe by (auto simp: ctrl_cmd_def)
  next
    case (R_close i sd opaque)
    then show ?thesis using close_socket_handled [OF fair slot, of i sd opaque res] old pipe by (intro ans [of "HASH_ID i"]) (auto simp: ctrl_cmd_def)
  next
    case (R_open i opaque host port)
    then show ?thesis using made [of i "\<lambda>ss. open_socket i opaque ss res"] open_socket_creates pipe by (auto simp: ctrl_cmd_def)
  next
    case R_exit
    then show ?thesis using clear_nothing [OF pop] pipe by (auto simp: ctrl_cmd_def)
  next
    case (R_send i p pay)
    then show ?thesis using send_socket_handled [OF slot, of pay i p None res] old pipe rok by (intro ans [of "HASH_ID i"]) (auto simp: ctrl_cmd_def)
  next
    case (R_send_udp i pay addr)
    then show ?thesis using send_socket_handled [OF slot, of pay i PRIORITY_HIGH "Some addr" res] old pipe rok
      by (intro ans [of "HASH_ID i"]) (auto simp: ctrl_cmd_def)
  next
    case (R_setudp i addr)
    then show ?thesis using set_udp_address_handled [OF slot, of addr i res] old pipe rok by (intro ans [of "HASH_ID i"]) (auto simp: ctrl_cmd_def)
  next
    case (R_setopt i what v)
    then show ?thesis using pop pipe by (auto simp: ctrl_cmd_def setopt_socket_def Let_def trace_server)
  next
    case (R_udp i fd v6 opaque)
    then show ?thesis using made [of i "\<lambda>ss. do { ss \<leftarrow> add_udp_socket i fd v6 opaque ss; Some (SR_none, ss, res) }"] add_udp_socket_creates pipe
      by (auto simp: ctrl_cmd_def)
  next
    case R_unknown
    then show ?thesis using pop pipe by (auto simp: ctrl_cmd_def trace_server)
  qed
qed

section \<open>Handling events\<close>

text \<open>The size of the next read.\<close>

lemma next_size_power:
  assumes "sz = MIN_READ_BUFFER * 2 ^ j"
  shows "\<exists>j'. next_size sz n = MIN_READ_BUFFER * 2 ^ j'"
proof (cases j)
  case 0
  then show ?thesis using assms by (auto simp: next_size_def MIN_READ_BUFFER_def intro: exI [of _ 0] exI [of _ 1])
next
  case (Suc m)
  have "next_size sz n \<in> {MIN_READ_BUFFER * 2 ^ Suc j, MIN_READ_BUFFER * 2 ^ m, MIN_READ_BUFFER * 2 ^ j}"
    using assms Suc by (auto simp: next_size_def MIN_READ_BUFFER_def)
  then show ?thesis by blast
qed

lemma closing:
  assumes "live (ss_slot ss k)" "ss_slot ss1 k = ss_slot ss k" "touch k ops ss ss1" "r = SR_close \<or> r = SR_error"
  shows "\<exists>ss' res'. force_close k ss1 res = Some (ss', res') \<and> handled_ok k ss r ss' res'"
  using force_close_handled [of ss1 k r res] handled_after [OF assms(3,2)] assms(1,2,4) by auto

lemma forward_tcp_handled:
  assumes "slot_ok k (ss_slot ss k)" "live (ss_slot ss k)" "sk_protocol (ss_slot ss k) = PROTOCOL_TCP"
  shows "\<exists>r ss' res'. forward_message_tcp k ss res = Some (r, ss', res') \<and> handled_ok k ss r ss' res'"
proof -
  let ?s = "ss_slot ss k"
  obtain j where p: "sk_p ?s = P_size (MIN_READ_BUFFER * 2 ^ j)" using slot_ok_live [OF assms(1,2)] assms(3) by (auto simp: union_ok_def)
  let ?sz = "MIN_READ_BUFFER * 2 ^ j :: int"
  define ss1 where "ss1 = ss\<lparr>ss_clock := ss_clock ss + 1\<rparr>"
  have t1: "touch k [] ss ss1" and s1: "ss_slot ss1 = ss_slot ss" by (simp_all add: ss1_def)
  have res: "sk_type ?s \<noteq> SOCKET_TYPE_RESERVE" using assms(2) by (simp add: live_def)
  obtain ss' res' where fc: "force_close k ss1 res = Some (ss', res')" "handled_ok k ss SR_close ss' res'" "handled_ok k ss SR_error ss' res'"
    using closing [OF assms(2) _ t1, of SR_close res] closing [OF assms(2) _ t1, of SR_error res] s1 by auto
  have same: "handled_ok k ss SR_none (trace ops ss1) res" for ops
    using s1 assms(1) res by (intro handled_same [OF touch_trans [OF t1 touch_trace]]) simp_all
  have same': "handled_ok k ss SR_none ss1 res" using s1 assms(1) res by (intro handled_same [OF t1]) simp_all
  have got: "handled_ok k ss SR_data (put_socket k (?s\<lparr>sk_p := P_size (next_size ?sz n)\<rparr>) ss1) m" for n m
    using assms next_size_power [OF refl, of j n] res
    by (intro handled_new [OF touch_trans [OF t1 touch_put]]) (auto simp: slot_ok_def live_def lists_ok_def union_ok_def send_buffer_empty_def)
  obtain x where rd: "sys_read ?sz ss = (x, ss1)" by (cases "an_err (ss_env ss (ss_clock ss))") (simp_all add: sys_read_def sys_def ss1_def)
  show ?thesis
  proof (cases x)
    case (Inl e)
    then show ?thesis using rd p same same' fc handled_data by (auto simp: forward_message_tcp_def)
  next
    case (Inr bs)
    then show ?thesis using rd p same' fc got s1 by (auto simp: forward_message_tcp_def Let_def)
  qed
qed

lemma forward_udp_handled:
  assumes "slot_ok k (ss_slot ss k)" "live (ss_slot ss k)"
  shows "\<exists>r ss' res'. forward_message_udp k ss res = Some (r, ss', res') \<and> handled_ok k ss r ss' res'"
proof -
  define ss1 where "ss1 = ss\<lparr>ss_clock := ss_clock ss + 1\<rparr>"
  have t1: "touch k [] ss ss1" and s1: "ss_slot ss1 = ss_slot ss" by (simp_all add: ss1_def)
  obtain ss' res' where fc: "force_close k ss1 res = Some (ss', res')" "handled_ok k ss SR_error ss' res'"
    using closing [OF assms(2) _ t1, of SR_error res] s1 by auto
  have same: "handled_ok k ss r ss1 m" for r m using s1 assms by (intro handled_same [OF t1]) (simp_all add: live_def)
  obtain x where rd: "sys_recvfrom ss = (x, ss1)" by (cases "an_err (ss_env ss (ss_clock ss))") (simp_all add: sys_recvfrom_def sys_def ss1_def)
  show ?thesis
  proof (cases x)
    case (Inl e)
    then show ?thesis using rd same fc handled_data by (auto simp: forward_message_udp_def)
  next
    case (Inr b)
    then show ?thesis using rd same by (cases b) (auto simp: forward_message_udp_def Let_def)
  qed
qed

lemma report_connect_handled:
  assumes "slot_ok k (ss_slot ss k)" "sk_type (ss_slot ss k) = SOCKET_TYPE_CONNECTING"
  shows "\<exists>r ss' res'. report_connect k ss res = Some (r, ss', res') \<and> handled_ok k ss r ss' res' \<and> r \<noteq> SR_none"
proof -
  let ?s = "ss_slot ss k"
  define a where "a = ss_env ss (ss_clock ss)"
  define ss1 where "ss1 = ss\<lparr>ss_clock := ss_clock ss + 1\<rparr>"
  have t1: "touch k [] ss ss1" and s1: "ss_slot ss1 = ss_slot ss" by (simp_all add: ss1_def)
  have live: "live ?s" using assms(2) by (simp add: live_def)
  show ?thesis
  proof (cases "an_err a \<noteq> None \<or> an_num a \<noteq> 0")
    case True
    obtain ss' res' where "force_close k ss1 res = Some (ss', res')" "handled_ok k ss SR_error ss' res'"
      using closing [OF live _ t1, of SR_error res] s1 by auto
    then show ?thesis using True handled_data by (auto simp: report_connect_def sys_def a_def ss1_def)
  next
    case False
    let ?s' = "?s\<lparr>sk_type := SOCKET_TYPE_CONNECTED\<rparr>"
    let ?ops = "if send_buffer_empty ?s' then [T_sp_write (sk_fd ?s) False] else []"
    let ?ss = "(trace ?ops (put_socket k ?s' ss1))\<lparr>ss_clock := ss_clock ss + 2\<rparr>"
    have t: "touch k (([] @ []) @ ?ops) ss ?ss" by (intro touch_clock_touch touch_trans [OF touch_trans [OF t1 touch_put] touch_trace])
    have "\<exists>m. report_connect k ss res = Some (SR_open, ?ss, m)"
      using False s1 by (simp add: report_connect_def sys_def a_def [symmetric] Let_def put_trace) (simp add: a_def ss1_def put_socket_def trace_def)
    moreover have "handled_ok k ss SR_open ?ss m" for m
      using assms live by (intro handled_new [OF t]) (auto simp: slot_ok_def live_def lists_ok_def union_ok_def writable_def in_pool_def)
    ultimately show ?thesis by blast
  qed
qed

lemma clock_server: "server_ok (ss\<lparr>ss_clock := c\<rparr>) = server_ok ss"
  by (simp add: server_ok_def pipe_ok_def events_ok_def waiting_def fair_def)

lemma alloc_server: "server_ok ss \<Longrightarrow> sint (ss_alloc_id ss) \<le> sint a \<Longrightarrow> server_ok (ss\<lparr>ss_alloc_id := a\<rparr>)"
  by (fastforce simp: server_ok_def pipe_ok_def events_ok_def waiting_def fair_def)

lemma reserved_slot:
  assumes "slot_ok (HASH_ID i) (ss_slot ss (HASH_ID i))" "sk_type (ss_slot ss (HASH_ID i)) = SOCKET_TYPE_INVALID"
  shows "sk_type (ss_slot (reserved i a ss) (HASH_ID i)) = SOCKET_TYPE_RESERVE" "slot_ok (HASH_ID i) (ss_slot (reserved i a ss) (HASH_ID i))"
  using assms by (auto simp: reserved_def slot_ok_def writable_def live_def send_buffer_empty_def)

lemma free_slot_server:
  assumes "server_ok ss" "sk_type (ss_slot ss k) = SOCKET_TYPE_INVALID" "handled_ok k ss SR_accept ss' res'"
  shows "server_ok ss'"
proof -
  have "server_ok (clear_closed_event res' SR_accept ss')"
    using assms(1,2) by (intro handled_server [OF _ _ _ assms(3)]) (auto simp: server_ok_def pipe_ok_def)
  then show ?thesis by (simp add: clear_closed_event_def)
qed

lemma accept_reserved:
  assumes "server_ok ss" "sk_type (ss_slot ss (HASH_ID i)) = SOCKET_TYPE_INVALID" "sint (ss_alloc_id ss) \<le> sint a"
  shows "\<exists>ss2. new_fd i fd PROTOCOL_TCP opaque False (trace ops (reserved i a ss)) = Some (True, ss2) \<and> server_ok (set_type i SOCKET_TYPE_PACCEPT ss2)
    \<and> ss_ev ss2 = ss_ev ss \<and> ss_event_index ss2 = ss_event_index ss"
proof -
  let ?k = "HASH_ID i" and ?r = "trace ops (reserved i a ss)" and ?a = "ss\<lparr>ss_alloc_id := a\<rparr>"
  have ok: "slot_ok ?k (ss_slot ss ?k)" using assms(1) by (simp add: server_ok_def)
  have r: "sk_type (ss_slot ?r ?k) = SOCKET_TYPE_RESERVE" "slot_ok ?k (ss_slot ?r ?k)" using reserved_slot [OF ok assms(2)] by simp_all
  from new_fd_reserved [OF this, of False fd PROTOCOL_TCP opaque] obtain ss1 ops1 where
    n: "touch ?k ops1 ?r ss1" "new_fd i fd PROTOCOL_TCP opaque False ?r = Some (True, put_socket ?k (fresh_socket i fd PROTOCOL_TCP opaque (ss_slot ?r ?k)) ss1)"
    by auto
  let ?ss2 = "put_socket ?k (fresh_socket i fd PROTOCOL_TCP opaque (ss_slot ?r ?k)) ss1"
  let ?s = "(fresh_socket i fd PROTOCOL_TCP opaque (ss_slot ?r ?k))\<lparr>sk_type := SOCKET_TYPE_PACCEPT\<rparr>"
  have set: "set_type i SOCKET_TYPE_PACCEPT ?ss2 = put_socket ?k ?s ss1" by (simp add: set_type_def)
  have "touch ?k ([] @ ops) ?a ?r" unfolding reserved_def by (intro touch_trans [OF touch_put touch_trace])
  from touch_trans [OF this touch_trans [OF n(1) touch_put]]
  have t: "touch ?k (([] @ ops) @ ops1 @ []) ?a (put_socket ?k ?s ss1)" .
  have "handled_ok ?k ?r SR_accept (put_socket ?k ?s ss1) undefined"
    by (rule fresh_handled [OF touch_trans [OF n(1) touch_put] r, where fd = fd and opaque = opaque and protocol = PROTOCOL_TCP
      and t = SOCKET_TYPE_PACCEPT and q = "P_size MIN_READ_BUFFER"]) (simp_all add: fresh_socket_def)
  then have "handled_ok ?k ?a SR_accept (put_socket ?k ?s ss1) undefined"
    using t assms(2) unfolding handled_ok_def Let_def by (auto simp: in_pool_def)
  then have "server_ok (put_socket ?k ?s ss1)" using free_slot_server [OF alloc_server [OF assms(1,3)]] assms(2) by simp
  moreover have "ss_ev ss1 = ss_ev ss" "ss_event_index ss1 = ss_event_index ss"
    using touch_fields [OF n(1)] by (simp_all add: trace_def reserved_def put_socket_def)
  ultimately show ?thesis using n(2) set by (auto simp: put_socket_def)
qed

lemma report_accept_server:
  assumes "server_ok ss" "plenty ss"
  shows "\<exists>r ss' res'. report_accept k ss res = Some (r, ss', res') \<and> server_ok ss'"
proof -
  define a where "a = ss_env ss (ss_clock ss)"
  define ss1 where "ss1 = ss\<lparr>ss_clock := ss_clock ss + 1\<rparr>"
  have ok: "server_ok ss1" "plenty ss1" using assms by (simp_all add: ss1_def clock_server plenty_def)
  have sys: "sys ss = (a, ss1)" by (simp add: sys_def a_def ss1_def)
  show ?thesis
  proof (cases "an_err a")
    case (Some e)
    then show ?thesis using ok by (simp add: report_accept_def sys Let_def)
  next
    case None
    obtain i ss2 where r: "reserve_id ss1 = (i, ss2)" by fastforce
    from ok(2) r show ?thesis
    proof (cases rule: reserve_id_cases)
      case (full b)
      then show ?thesis using None r ok alloc_server trace_server by (simp add: report_accept_def sys Let_def)
    next
      case (reserve b)
      then have "sint (ss_alloc_id ss1) \<le> sint b" by simp
      from accept_reserved [OF ok(1) reserve(5) this, of "int (an_num a)" "sk_opaque (ss_slot ss k)" "[T_setopt (int (an_num a)), T_nonblocking (int (an_num a))]"]
      obtain ss3 where "new_fd i (int (an_num a)) PROTOCOL_TCP (sk_opaque (ss_slot ss k)) False
            (trace [T_setopt (int (an_num a)), T_nonblocking (int (an_num a))] ss2) = Some (True, ss3)"
          "server_ok (set_type i SOCKET_TYPE_PACCEPT ss3)" unfolding reserve(1) by blast
      then show ?thesis using None r reserve(3) by (simp add: report_accept_def sys Let_def)
    qed
  qed
qed

text \<open>The event at the index has been taken.\<close>

lemma index_server:
  assumes "server_ok ss" "ss_event_index ss < length (ss_ev ss)" "ev_s (ss_ev ss ! ss_event_index ss) = Some k"
  defines "ss1 \<equiv> ss\<lparr>ss_event_index := ss_event_index ss + 1\<rparr>"
  shows "server_ok ss1" "k \<notin> set (waiting ss1)" "in_pool (sk_type (ss_slot ss k))" "waiting ss = k # waiting ss1"
proof -
  show w: "waiting ss = k # waiting ss1"
    using assms(2,3) by (simp add: waiting_def ss1_def Cons_nth_drop_Suc [symmetric])
  then show "server_ok ss1" "k \<notin> set (waiting ss1)" "in_pool (sk_type (ss_slot ss k))"
    using assms(1,2) by (auto simp: server_ok_def pipe_ok_def events_ok_def fair_def ss1_def)
qed

lemma back_server:
  assumes "server_ok ss" "ss_event_index ss = Suc n" "n < length (ss_ev ss)" "ev_s e = Some k" "k \<notin> set (waiting ss)" "in_pool (sk_type (ss_slot ss k))"
  shows "server_ok (ss\<lparr>ss_event_index := n, ss_ev := (ss_ev ss)[n := e]\<rparr>)"
proof -
  have "drop n ((ss_ev ss)[n := e]) = e # drop (Suc n) (ss_ev ss)"
    using assms(3) by (metis Cons_nth_drop_Suc drop_update_cancel length_list_update lessI nth_list_update_eq)
  then have "waiting (ss\<lparr>ss_event_index := n, ss_ev := (ss_ev ss)[n := e]\<rparr>) = k # waiting ss"
    using assms(2,4) by (simp add: waiting_def)
  then show ?thesis using assms by (auto simp: server_ok_def pipe_ok_def events_ok_def fair_def)
qed

lemma event_server:
  assumes "server_ok ss" "live (ss_slot ss k)" "handled_ok k ss r ss' res'" "k \<notin> set (waiting ss)"
  shows "server_ok ss'"
proof -
  obtain ops where t: "touch k ops ss ss'" using assms(3) unfolding handled_ok_def Let_def by blast
  have "events_ok ss'"
    using assms(1,4) touch_fields [OF t] unfolding server_ok_def events_ok_def waiting_def by metis
  moreover have "server_ok (clear_closed_event res' r ss')" by (rule live_server [OF assms(1-3)])
  ultimately show ?thesis by (simp add: server_ok_def pipe_ok_def fair_def)
qed

lemma in_pool_live: "in_pool (sk_type s) \<Longrightarrow> live s"
  by (auto simp: in_pool_def live_def)

lemma poll_event_server:
  assumes "server_ok ss" "ss_event_index ss < length (ss_ev ss)" "e = ss_ev ss ! ss_event_index ss" "ev_s e = Some k" "plenty ss"
  defines "ss1 \<equiv> ss\<lparr>ss_event_index := ss_event_index ss + 1\<rparr>"
  shows "\<exists>r ss' res'. poll_event k e ss1 res = Some (r, ss', res') \<and> server_ok ss'"
proof -
  have k: "server_ok ss1" "k \<notin> set (waiting ss1)" "in_pool (sk_type (ss_slot ss k))"
    using index_server [OF assms(1,2), of k] assms(3,4) by (simp_all add: ss1_def)
  let ?s = "ss_slot ss1 k"
  have s: "?s = ss_slot ss k" by (simp add: ss1_def)
  have live: "live ?s" and slot: "slot_ok k ?s" and fair: "fair ss1" using in_pool_live [of ?s] k(1,3) s unfolding server_ok_def by metis+
  have plenty: "plenty ss1" using assms(5) by (simp add: plenty_def ss1_def)
  note fin = event_server [OF k(1) live _ k(2)]
  consider (connecting) "sk_type ?s = SOCKET_TYPE_CONNECTING" | (listen) "sk_type ?s = SOCKET_TYPE_LISTEN"
    | (data) "sk_type ?s \<in> {SOCKET_TYPE_CONNECTED, SOCKET_TYPE_HALFCLOSE, SOCKET_TYPE_BIND}" using k(3) s by (auto simp: in_pool_def)
  then show ?thesis
  proof cases
    case connecting
    then show ?thesis using report_connect_handled [OF slot, of res] fin by (fastforce simp: poll_event_def Let_def)
  next
    case listen
    then show ?thesis using report_accept_server [OF k(1) plenty] by (simp add: poll_event_def Let_def)
  next
    case data
    let ?f = "if sk_protocol ?s = PROTOCOL_TCP then forward_message_tcp k ss1 res else forward_message_udp k ss1 res"
    obtain r ss2 res2 where f: "?f = Some (r, ss2, res2)" "handled_ok k ss1 r ss2 res2"
      using forward_tcp_handled [OF slot live] forward_udp_handled [OF slot live] by (cases "sk_protocol ?s = PROTOCOL_TCP") force+
    obtain r3 ss3 res3 where w: "send_buffer k ss1 res = Some (r3, ss3, res3)" "handled_ok k ss1 r3 ss3 res3"
      using send_buffer_handled [OF fair slot, of res] data by (auto simp: writable_def)
    let ?bk = "ss2\<lparr>ss_event_index := ss_event_index ss2 - 1\<rparr>"
    have eq: "poll_event k e ss1 res =
        (if ev_read e then
           (if r = SR_udp then Some (r, ?bk, res2)
            else if ev_write e \<and> r \<noteq> SR_close \<and> r \<noteq> SR_error
            then Some (r, ?bk\<lparr>ss_ev := (ss_ev ?bk)[ss_event_index ?bk := e\<lparr>ev_read := False\<rparr>]\<rparr>, res2)
            else Some (r, ss2, res2))
         else if ev_write e then Some (r3, ss3, res3)
         else Some (SR_none, ss1, res))"
      using data f(1) w(1) by (auto simp: poll_event_def Let_def)
    have ok2: "server_ok ss2" and ok3: "server_ok ss3" using fin f(2) w(2) by blast+
    obtain ops where t: "touch k ops ss1 ss2" using f(2) unfolding handled_ok_def Let_def by blast
    have i: "ss_event_index ss2 = Suc (ss_event_index ss)" "ss_ev ss2 = ss_ev ss" "waiting ss2 = waiting ss1"
      using touch_fields [OF t] by (simp_all add: ss1_def waiting_def)
    have again: "server_ok (ss2\<lparr>ss_event_index := ss_event_index ss, ss_ev := (ss_ev ss2)[ss_event_index ss := e']\<rparr>)"
      if "r \<noteq> SR_close" "r \<noteq> SR_error" "ev_s e' = Some k" for e'
      using that f(2) k s i assms(2) by (intro back_server [OF ok2 i(1)]) (auto simp: handled_ok_def Let_def)
    have upd: "(ss_ev ss2)[ss_event_index ss := e] = ss_ev ss2" using i(2) assms(3) by simp
    have "server_ok ?bk" if "r = SR_udp" using again [of e] that assms(4) upd i(1) by simp
    moreover have "server_ok (?bk\<lparr>ss_ev := (ss_ev ?bk)[ss_event_index ?bk := e\<lparr>ev_read := False\<rparr>]\<rparr>)" if "r \<noteq> SR_close" "r \<noteq> SR_error"
      using again [OF that, of "e\<lparr>ev_read := False\<rparr>"] assms(4) i(1) by simp
    ultimately show ?thesis unfolding eq using ok2 ok3 k(1) by auto
  qed
qed

lemma poll_wait_server:
  assumes "server_ok ss" "poll_wait ss = (mr, ss')"
  shows "server_ok ss'" "mr \<Longrightarrow> ss_event_index ss' < length (ss_ev ss')" "plenty ss' = plenty ss"
proof -
  let ?a = "ss_env ss (ss_clock ss)"
  let ?ss1 = "ss\<lparr>ss_clock := ss_clock ss + 1\<rparr>"
  let ?evs = "if an_err ?a = None then take MAX_EVENT (reported ?ss1 {} (an_events ?a)) else []"
  let ?w = "?ss1\<lparr>ss_ev := ?evs, ss_checkctrl := True, ss_more := False, ss_event_index := 0\<rparr>"
  have eq: "(mr, ss') = (if ss_event_index ss = length (ss_ev ss) then (?evs \<noteq> [], ?w) else (True, ss))"
    using assms(2) by (auto simp: poll_wait_def sys_def Let_def)
  have "events_ok ?w" using reported_slots [of ?ss1 "{}" "an_events ?a"] by (auto simp: events_ok_def waiting_def taken_slots(1) dest: taken_slots(2))
  then have "server_ok ?w" using assms(1) by (simp add: server_ok_def pipe_ok_def fair_def)
  then show "server_ok ss'" using eq assms(1) by (auto split: if_splits)
  show "mr \<Longrightarrow> ss_event_index ss' < length (ss_ev ss')"
    using eq assms(1) by (auto simp: server_ok_def events_ok_def split: if_splits)
  show "plenty ss' = plenty ss" using eq by (auto simp: plenty_def split: if_splits)
qed

fun turn_state :: "socket_server \<times> socket_message + sock_result \<times> socket_server \<times> socket_message \<Rightarrow> socket_server" where
  "turn_state (Inl (ss, res)) = ss"
| "turn_state (Inr (r, ss, res)) = ss"

lemma poll_turn_server:
  assumes "server_ok ss" "plenty ss"
  shows "\<exists>x. poll_turn ss res = Some x \<and> server_ok (turn_state x)"
proof (cases "ss_checkctrl ss \<and> has_cmd ss")
  case True
  from ctrl_cmd_server [OF assms(1), of res] True obtain r ss' res' where
    "ctrl_cmd ss res = Some (r, ss', res')" "server_ok (clear_closed_event res' r ss')" by blast
  then show ?thesis using True by (auto simp: poll_turn_def)
next
  case False
  let ?ss = "ss\<lparr>ss_checkctrl := False\<rparr>"
  have ok: "server_ok ?ss" "plenty ?ss" using assms by (simp_all add: server_ok_def pipe_ok_def events_ok_def waiting_def fair_def plenty_def)
  obtain mr ss1 where w: "poll_wait ?ss = (mr, ss1)" by fastforce
  note ok1 = poll_wait_server [OF ok(1) w]
  have turn: "poll_turn ss res = (if \<not> mr then Some (Inr (SR_none, ss1, res)) else do {
      e \<leftarrow> nth_opt (ss_ev ss1) (ss_event_index ss1);
      let ss = ss1\<lparr>ss_event_index := ss_event_index ss1 + 1\<rparr>;
      (case ev_s e of
         None \<Rightarrow> Some (Inl (ss, res))
       | Some i \<Rightarrow> do {
           (type, ss, res) \<leftarrow> poll_event i e ss res;
           if type = SR_none then Some (Inl (ss, res)) else Some (Inr (type, ss, res))
         }) })" using w unfolding poll_turn_def if_not_P [OF False] by simp
  show ?thesis
  proof (cases mr)
    case False
    then show ?thesis using turn ok1(1) by simp
  next
    case True
    let ?e = "ss_ev ss1 ! ss_event_index ss1" and ?ss1 = "ss1\<lparr>ss_event_index := ss_event_index ss1 + 1\<rparr>"
    have lt: "ss_event_index ss1 < length (ss_ev ss1)" using ok1(2) True by simp
    show ?thesis
    proof (cases "ev_s ?e")
      case None
      have "waiting ?ss1 = waiting ss1" using lt None by (simp add: waiting_def Cons_nth_drop_Suc [symmetric])
      then have "server_ok ?ss1" using ok1(1) lt by (simp add: server_ok_def pipe_ok_def events_ok_def fair_def)
      then show ?thesis using turn True None lt by (simp add: nth_opt_in)
    next
      case (Some k)
      have "plenty ss1" using ok1(3) ok(2) by simp
      from poll_event_server [OF ok1(1) lt refl Some this, of res] obtain r ss' res' where
        "poll_event k ?e ?ss1 res = Some (r, ss', res')" "server_ok ss'" by blast
      then show ?thesis using turn True Some lt by (auto simp: nth_opt_in)
    qed
  qed
qed

section \<open>All threads\<close>

text \<open>The calls of the other threads. A call that returns nothing of interest gives the state only.\<close>

datatype thread_call =
    C_connect nat cstr int
  | C_listen nat
  | C_bind nat int
  | C_udp nat "cstr option" int
  | C_send int payload
  | C_send_low int payload
  | C_udp_send int bytes payload
  | C_udp_connect int
  | C_close nat int
  | C_shutdown nat int
  | C_start nat int
  | C_nodelay int
  | C_exit

fun do_call :: "thread_call \<Rightarrow> socket_server \<Rightarrow> socket_server option" where
  "do_call (C_connect opaque addr port) ss = Some (snd (socket_server_connect opaque addr port ss))"
| "do_call (C_listen opaque) ss = Some (snd (socket_server_listen opaque ss))"
| "do_call (C_bind opaque fd) ss = Some (snd (socket_server_bind opaque fd ss))"
| "do_call (C_udp opaque addr port) ss = Some (snd (socket_server_udp opaque addr port ss))"
| "do_call (C_send i pay) ss = map_option snd (socket_server_send i pay ss)"
| "do_call (C_send_low i pay) ss = socket_server_send_lowpriority i pay ss"
| "do_call (C_udp_send i addr pay) ss = map_option snd (socket_server_udp_send i addr pay ss)"
| "do_call (C_udp_connect i) ss = Some (snd (socket_server_udp_connect i ss))"
| "do_call (C_close opaque i) ss = Some (socket_server_close opaque i ss)"
| "do_call (C_shutdown opaque i) ss = Some (socket_server_shutdown opaque i ss)"
| "do_call (C_start opaque i) ss = Some (socket_server_start opaque i ss)"
| "do_call (C_nodelay i) ss = Some (socket_server_nodelay i ss)"
| "do_call C_exit ss = Some (socket_server_exit ss)"

fun call_id :: "thread_call \<Rightarrow> int option" where
  "call_id (C_send i pay) = Some i"
| "call_id (C_send_low i pay) = Some i"
| "call_id (C_udp_send i addr pay) = Some i"
| "call_id (C_udp_connect i) = Some i"
| "call_id (C_close opaque i) = Some i"
| "call_id (C_shutdown opaque i) = Some i"
| "call_id (C_start opaque i) = Some i"
| "call_id (C_nodelay i) = Some i"
| "call_id _ = None"

fun call_payload :: "thread_call \<Rightarrow> payload option" where
  "call_payload (C_send i pay) = Some pay"
| "call_payload (C_send_low i pay) = Some pay"
| "call_payload (C_udp_send i addr pay) = Some pay"
| "call_payload _ = None"

text \<open>A thread uses ids that have been given out, and sends plain memory.\<close>

definition call_ok :: "thread_call \<Rightarrow> socket_server \<Rightarrow> bool" where
  "call_ok c ss \<longleftrightarrow> (\<forall>i. call_id c = Some i \<longrightarrow> i \<le> sint (ss_alloc_id ss)) \<and> (\<forall>pay. call_payload c = Some pay \<longrightarrow> is_memory pay)"

text \<open>The steps: the socket thread makes one turn, or another thread makes a call. Fewer than \<open>2 ^ 31\<close>
  ids are tried in all.\<close>

inductive socket_step :: "socket_server \<Rightarrow> socket_server \<Rightarrow> bool" where
  turn: "plenty ss \<Longrightarrow> poll_turn ss res = Some x \<Longrightarrow> socket_step ss (turn_state x)"
| call: "plenty ss \<Longrightarrow> call_ok c ss \<Longrightarrow> do_call c ss = Some ss' \<Longrightarrow> socket_step ss ss'"

definition socket_init :: "socket_server \<Rightarrow> bool" where
  "socket_init ss \<longleftrightarrow> (\<exists>env mem. ss = socket_server_create env mem) \<and> fair ss"

lemma init_server: "socket_init ss \<Longrightarrow> server_ok ss"
  by (auto simp: socket_init_def socket_server_create_def server_ok_def pipe_ok_def events_ok_def waiting_def slot_ok_def live_def send_buffer_empty_def)

lemma request_server:
  assumes "server_ok ss" "request_ok r" "new_id r = None" "\<And>i. request_id r = Some i \<Longrightarrow> i \<le> sint (ss_alloc_id ss)"
  shows "server_ok (send_request r ss)"
  using assms unfolding send_request_def
  by (auto simp: server_ok_def pipe_ok_def events_ok_def waiting_def fair_def ordered_append)

lemma free_buffer_server: "server_ok ss \<Longrightarrow> is_memory pay \<Longrightarrow> \<exists>ss'. free_buffer pay ss = Some ss' \<and> server_ok ss'"
  by (simp add: free_buffer_def send_object_memory trace_server)

text \<open>An id is reserved and the request that creates its socket is written.\<close>

lemma create_server:
  assumes "server_ok ss" "plenty ss" "reserve_id ss = (i, ss')"
  shows "i < 0 \<Longrightarrow> server_ok ss'" "\<not> i < 0 \<Longrightarrow> new_id r = Some i \<Longrightarrow> request_ok r \<Longrightarrow> server_ok (send_request r ss')"
proof -
  assume "i < 0"
  with assms show "server_ok ss'" by (cases rule: reserve_id_cases [OF assms(2,3)]) (auto intro: alloc_server)
next
  assume i: "\<not> i < 0" and r: "new_id r = Some i" "request_ok r"
  from assms(2,3) show "server_ok (send_request r ss')"
  proof (cases rule: reserve_id_cases)
    case (reserve a)
    let ?k = "HASH_ID i"
    have ok: "server_ok ss" "\<forall>j. slot_ok j (ss_slot ss j)" "pipe_ok ss" "events_ok ss" "fair ss" using assms(1) by (simp_all add: server_ok_def)
    have slot: "ss_slot ss' = (ss_slot ss)(?k := (ss_slot ss ?k)\<lparr>sk_type := SOCKET_TYPE_RESERVE, sk_id := i, sk_fd := -1\<rparr>)"
      and f: "ss_pipe ss' = ss_pipe ss" "ss_alloc_id ss' = a" "ss_ev ss' = ss_ev ss" "ss_event_index ss' = ss_event_index ss" "ss_env ss' = ss_env ss"
      by (simp_all add: reserve(1) reserved_def put_socket_def)
    have slots: "slot_ok j (ss_slot ss' j)" for j
      using reserved_slot(2) [of i ss a] reserve(5) ok(2) slot by (cases "j = ?k") (auto simp: reserve(1))
    have fresh: "\<forall>r'\<in>set (ss_pipe ss). \<forall>j. request_id r' = Some j \<longrightarrow> j < i" using ok(3) reserve(2,4) unfolding pipe_ok_def by fastforce
    have not_made: "j \<in> made (ss_pipe ss) \<Longrightarrow> j \<noteq> i \<and> HASH_ID j \<noteq> ?k" for j
      using fresh made_request_id [of j "ss_pipe ss"] ok(3) reserve(5) unfolding pipe_ok_def by fastforce
    have "ordered (ss_pipe ss @ [r])" using ok(3) fresh r(1) by (auto simp: pipe_ok_def ordered_append)
    moreover have "\<forall>r'\<in>set (ss_pipe ss @ [r]). request_ok r' \<and> (\<forall>j. request_id r' = Some j \<longrightarrow> j \<le> sint a)"
      using ok(3) r reserve(2) fresh new_request_id [OF r(1)] by (force simp: pipe_ok_def)
    moreover have "\<forall>j\<in>made (ss_pipe ss @ [r]). sk_type (ss_slot ss' (HASH_ID j)) = SOCKET_TYPE_RESERVE \<and> sk_id (ss_slot ss' (HASH_ID j)) = j"
      using ok(3) r(1) not_made slot by (auto simp: pipe_ok_def)
    moreover have "\<forall>k. sk_type (ss_slot ss' k) = SOCKET_TYPE_RESERVE \<longrightarrow> sk_id (ss_slot ss' k) \<in> made (ss_pipe ss @ [r])"
      using ok(3) r(1) slot by (auto simp: pipe_ok_def)
    ultimately have "pipe_ok (send_request r ss')" using f by (simp add: pipe_ok_def send_request_def)
    moreover have "events_ok (send_request r ss')"
      using ok(4) f slot reserve(5) by (auto simp: events_ok_def send_request_def waiting_def in_pool_def)
    ultimately show ?thesis using slots ok(5) f by (simp add: server_ok_def send_request_def fair_def)
  qed (use i in simp)
qed

text \<open>System calls change nothing else.\<close>

definition quiet :: "socket_server \<Rightarrow> socket_server \<Rightarrow> bool" where
  "quiet ss ss' \<longleftrightarrow> (\<exists>ops c. ss' = (trace ops ss)\<lparr>ss_clock := c\<rparr>)"

lemma quiet_refl: "quiet ss ss"
  unfolding quiet_def by (intro exI [of _ "[]"] exI [of _ "ss_clock ss"]) (simp add: trace_def)

lemma quiet_trans: "quiet ss ss1 \<Longrightarrow> quiet ss1 ss2 \<Longrightarrow> quiet ss ss2"
  by (auto simp: quiet_def trace_def) blast

lemma quiet_trace: "quiet ss ss' \<Longrightarrow> quiet ss (trace ops ss')"
  by (erule quiet_trans) (auto simp: quiet_def trace_def intro!: exI [of _ ops] exI [of _ "ss_clock ss'"])

lemma quiet_call: "quiet ss (snd (sys ss))" "quiet ss (snd (sys_ok ss))"
  unfolding quiet_def sys_def sys_ok_def trace_def by (intro exI [of _ "[]"] exI [of _ "Suc (ss_clock ss)"]; simp)+

lemma quiet_sys: "quiet ss ss' \<Longrightarrow> quiet ss (snd (sys ss'))" "quiet ss ss' \<Longrightarrow> quiet ss (snd (sys_ok ss'))"
  using quiet_trans quiet_call by blast+

lemmas quiet_intros = quiet_refl quiet_trace quiet_sys

lemma quiet_server: "quiet ss ss' \<Longrightarrow> server_ok ss' = server_ok ss \<and> plenty ss' = plenty ss"
  by (auto simp: quiet_def clock_server trace_server) (simp_all add: plenty_def trace_def)

lemma do_bind_quiet: "quiet ss (snd (snd (do_bind ss)))"
  by (auto simp: do_bind_def Let_def split_beta intro!: quiet_intros)

lemma do_listen_quiet: "quiet ss (snd (do_listen ss))"
proof -
  have "quiet ss (snd (sys_ok (snd (snd (do_bind ss)))))" by (intro quiet_intros do_bind_quiet)
  then show ?thesis using do_bind_quiet [of ss] by (auto simp: do_listen_def Let_def split_beta intro: quiet_intros)
qed

lemma reserve_and_send:
  assumes "server_ok ss" "plenty ss" "new_id (r (fst (reserve_id ss))) = Some (fst (reserve_id ss))" "request_ok (r (fst (reserve_id ss)))"
  shows "server_ok (snd (if fst (reserve_id ss) < 0 then (a, trace ops (snd (reserve_id ss)))
    else (b, send_request (r (fst (reserve_id ss))) (snd (reserve_id ss)))))"
  using create_server [OF assms(1,2), of "fst (reserve_id ss)" "snd (reserve_id ss)"] assms(3,4) by (simp add: trace_server)

lemma connect_server: "server_ok ss \<Longrightarrow> plenty ss \<Longrightarrow> server_ok (snd (socket_server_connect opaque addr port ss))"
  using reserve_and_send [of ss "\<lambda>i. R_open i opaque addr port" _ "[]"]
  by (auto simp: socket_server_connect_def open_request_def trace_server Let_def split_beta trace_def [of "[]"] split: if_splits)

lemma bind_server: "server_ok ss \<Longrightarrow> plenty ss \<Longrightarrow> server_ok (snd (socket_server_bind opaque fd ss))"
  using reserve_and_send [of ss "\<lambda>i. R_bind i fd opaque" _ "[]"]
  by (auto simp: socket_server_bind_def Let_def split_beta trace_def split: if_splits)

lemma listen_server:
  assumes "server_ok ss" "plenty ss"
  shows "server_ok (snd (socket_server_listen opaque ss))"
proof -
  let ?ss = "snd (do_listen ss)"
  have ok: "server_ok ?ss" "plenty ?ss" using quiet_server [OF do_listen_quiet, of ss] assms by simp_all
  show ?thesis using reserve_and_send [OF ok, of "\<lambda>i. R_listen i (fst (do_listen ss)) opaque" _ "[T_close (fst (do_listen ss))]"] ok
    by (auto simp: socket_server_listen_def Let_def split_beta split: if_splits)
qed

lemma udp_server:
  assumes "server_ok ss" "plenty ss"
  shows "server_ok (snd (socket_server_udp opaque addr port ss))"
proof -
  define b where "b = (if port \<noteq> 0 \<or> addr \<noteq> None then do_bind ss
      else let (a, ss) = sys ss in ((if an_err a = None then int (an_num a) else -1), False, ss))"
  obtain fd v6 ss1 where b1: "b = (fd, v6, ss1)" by (cases b)
  have "quiet ss ss1" using b1 do_bind_quiet [of ss] quiet_sys(1) [OF quiet_refl, of ss] by (auto simp: b_def sys_def split: if_splits)
  then have ok: "server_ok (trace [T_nonblocking fd] ss1)" "plenty (trace [T_nonblocking fd] ss1)" "server_ok ss1"
    using quiet_server [OF quiet_trace] quiet_server assms by auto
  have "socket_server_udp opaque addr port ss = (if fd < 0 then (-1, ss1) else
      let (i, ss) = reserve_id (trace [T_nonblocking fd] ss1)
      in if i < 0 then (-1, trace [T_close fd] ss) else (i, send_request (R_udp i fd v6 opaque) ss))"
    using b1 unfolding b_def socket_server_udp_def by simp
  then show ?thesis using reserve_and_send [OF ok(1,2), of "\<lambda>i. R_udp i fd v6 opaque" _ "[T_close fd]"] ok(3)
    by (auto simp: Let_def split_beta split: if_splits)
qed

lemma udp_address_head: "0 < length (gen_udp_address p sa)" "p < 256 \<Longrightarrow> unat (gen_udp_address p sa ! 0) = p"
  by (auto simp: gen_udp_address_def unat_of_nat split: sockaddr.splits)

lemma udp_connect_server:
  assumes "server_ok ss" "i \<le> sint (ss_alloc_id ss)"
  shows "server_ok (snd (socket_server_udp_connect i ss))"
proof -
  let ?ss = "ss\<lparr>ss_clock := ss_clock ss + 1\<rparr>" and ?g = "ss_env ss (ss_clock ss)"
  let ?p = "case an_addr ?g of V4 p a \<Rightarrow> PROTOCOL_UDP | V6 p a \<Rightarrow> PROTOCOL_UDPv6"
  have "unat (gen_udp_address ?p (an_addr ?g) ! 0) = ?p"
    by (rule udp_address_head(2)) (simp add: PROTOCOL_UDP_def PROTOCOL_UDPv6_def split: sockaddr.splits)
  then have "request_ok (R_setudp i (gen_udp_address ?p (an_addr ?g)))" by (auto split: sockaddr.splits)
  then have "server_ok (send_request (R_setudp i (gen_udp_address ?p (an_addr ?g))) ?ss)"
    using assms by (intro request_server) (auto simp: clock_server)
  then show ?thesis using assms(1) by (simp add: socket_server_udp_connect_def sys_def Let_def clock_server)
qed

lemma send_server:
  assumes "server_ok ss" "is_memory pay" "i \<le> sint (ss_alloc_id ss)"
  shows "\<exists>n ss'. socket_server_send i pay ss = Some (n, ss') \<and> server_ok ss'"
    "\<exists>ss'. socket_server_send_lowpriority i pay ss = Some ss' \<and> server_ok ss'"
    "\<exists>n ss'. socket_server_udp_send i addr pay ss = Some (n, ss') \<and> server_ok ss'"
proof -
  have req: "server_ok (send_request (R_send i p pay) ss)" "server_ok (send_request (R_send_udp i pay a) ss)" for p a
    using assms by (auto intro!: request_server)
  show "\<exists>n ss'. socket_server_send i pay ss = Some (n, ss') \<and> server_ok ss'"
    "\<exists>ss'. socket_server_send_lowpriority i pay ss = Some ss' \<and> server_ok ss'"
    "\<exists>n ss'. socket_server_udp_send i addr pay ss = Some (n, ss') \<and> server_ok ss'"
    using free_buffer_server [OF assms(1,2)] req
    by (auto simp: socket_server_send_def socket_server_send_lowpriority_def socket_server_udp_send_def Let_def)
qed

lemma call_server:
  assumes "server_ok ss" "plenty ss" "call_ok c ss"
  shows "\<exists>ss'. do_call c ss = Some ss' \<and> server_ok ss'"
proof (cases c)
  case (C_send i pay)
  then show ?thesis using send_server(1) [OF assms(1), of pay i] assms(3) by (auto simp: call_ok_def)
next
  case (C_send_low i pay)
  then show ?thesis using send_server(2) [OF assms(1), of pay i] assms(3) by (auto simp: call_ok_def)
next
  case (C_udp_send i addr pay)
  then show ?thesis using send_server(3) [OF assms(1), of pay i addr] assms(3) by (auto simp: call_ok_def)
qed (use assms in \<open>auto simp: call_ok_def socket_server_close_def socket_server_shutdown_def socket_server_start_def socket_server_nodelay_def
    socket_server_exit_def intro!: connect_server listen_server bind_server udp_server udp_connect_server request_server\<close>)

interpretation socket_sys: inductive_invariant socket_init socket_step server_ok
proof
  show "server_ok ss" if "socket_init ss" for ss using that by (rule init_server)
next
  fix ss ss' assume ok: "server_ok ss" and st: "socket_step ss ss'"
  from st show "server_ok ss'"
  proof cases
    case (turn res x)
    then show ?thesis using poll_turn_server [OF ok turn(2), of res] by auto
  next
    case (call c)
    then show ?thesis using call_server [OF ok call(1,2)] by auto
  qed
qed


text \<open>An example: a connect request has been sent and waits in the pipe.\<close>

definition quiet_answer :: answer where
  "quiet_answer = \<lparr>an_err = None, an_num = 0, an_data = [], an_addr = V4 [] [], an_addrs = [], an_events = [], an_text = None\<rparr>"

definition new_server :: socket_server where
  "new_server = socket_server_create (\<lambda>n. quiet_answer) (\<lambda>k. stream_socket)"

definition connecting_server :: socket_server where
  "connecting_server = snd (socket_server_connect 1 [104] 80 new_server)"

lemma connecting_reached: "reach socket_init socket_step connecting_server"
proof (rule reach_step)
  have "socket_init new_server" by (auto simp: socket_init_def new_server_def fair_def socket_server_create_def quiet_answer_def)
  then show "reach socket_init socket_step new_server" by (rule reach_init)
  show "socket_step new_server connecting_server"
    by (rule socket_step.call [of _ "C_connect 1 [104] 80"])
      (auto simp: connecting_server_def plenty_def call_ok_def new_server_def socket_server_create_def MAX_SOCKET_def MAX_SOCKET_P_def)
qed


end
