(* ===== verification/Socket_Memory.thy ===== *)
theory Socket_Memory
  imports Socket_Safety
begin

unbundle bit_operations_syntax

text \<open>
  The memory of sent messages. The server takes over every buffer it is given: the buffer is in a
  request in the pipe, in a list of a socket, or freed, and always in exactly one of these.
\<close>

section \<open>Where the buffers are\<close>

text \<open>A buffer is represented by the call that frees it.\<close>

fun is_free :: "sysop \<Rightarrow> bool" where
  "is_free (T_free a) = True"
| "is_free (T_object_free a) = True"
| "is_free _ = False"

definition frees :: "sysop list \<Rightarrow> sysop multiset" where
  "frees ops = mset (filter is_free ops)"

definition held :: "socket \<Rightarrow> sysop multiset" where
  "held s = mset (map write_buffer_free (sk_high s)) + mset (map write_buffer_free (sk_low s))"

fun request_payload :: "request \<Rightarrow> payload option" where
  "request_payload (R_send i p pay) = Some pay"
| "request_payload (R_send_udp i pay addr) = Some pay"
| "request_payload _ = None"

fun in_pipe :: "request list \<Rightarrow> sysop multiset" where
  "in_pipe [] = {#}"
| "in_pipe (r # rs) = (case request_payload r of None \<Rightarrow> {#} | Some pay \<Rightarrow> {#free_payload pay#}) + in_pipe rs"

definition rest :: "nat \<Rightarrow> socket_server \<Rightarrow> sysop multiset" where
  "rest k ss = in_pipe (ss_pipe ss) + (\<Sum>j\<in>{..<MAX_SOCKET} - {k}. held (ss_slot ss j))"

definition own :: "socket_server \<Rightarrow> sysop multiset" where
  "own ss = frees (ss_trace ss) + in_pipe (ss_pipe ss) + (\<Sum>j<MAX_SOCKET. held (ss_slot ss j))"

lemma frees_simps [simp]:
  "frees [] = {#}" "frees (xs @ ys) = frees xs + frees ys" "frees (op # ops) = (if is_free op then {#op#} else {#}) + frees ops"
  by (simp_all add: frees_def)

lemma free_payload_free [simp]: "is_free (free_payload pay)" "is_free (write_buffer_free wb)"
  by (simp_all add: write_buffer_free_def free_payload_def split: payload.splits)

lemma frees_list [simp]: "frees (free_wb_list wbs) = mset (map write_buffer_free wbs)"
  by (induction wbs) (simp_all add: free_wb_list_def)

lemma own_at: "k < MAX_SOCKET \<Longrightarrow> own ss = frees (ss_trace ss) + held (ss_slot ss k) + rest k ss"
  by (simp add: own_def rest_def sum.remove [of "{..<MAX_SOCKET}" k])

lemma rest_simps [simp]:
  "rest k (put_socket k s ss) = rest k ss" "rest k (trace ops ss) = rest k ss" "rest k (ss\<lparr>ss_clock := c\<rparr>) = rest k ss"
  by (auto simp: rest_def put_socket_def trace_def intro: sum.cong)

lemma trace_simps [simp]:
  "ss_trace (put_socket k s ss) = ss_trace ss" "ss_trace (trace ops ss) = ss_trace ss @ ops"
  by (simp_all add: put_socket_def trace_def)

lemma own_put: "k < MAX_SOCKET \<Longrightarrow> own (put_socket k s ss) = frees (ss_trace ss) + held s + rest k ss"
  using own_at [of k "put_socket k s ss"] by simp

lemma own_same [simp]:
  "own (ss\<lparr>ss_clock := c\<rparr>) = own ss" "own (ss\<lparr>ss_alloc_id := a\<rparr>) = own ss"
  "own (ss\<lparr>ss_ev := es\<rparr>) = own ss" "own (ss\<lparr>ss_event_index := n\<rparr>) = own ss" "own (ss\<lparr>ss_checkctrl := b\<rparr>) = own ss"
  "own (ss\<lparr>ss_more := b\<rparr>) = own ss" "own (trace ops ss) = own ss + frees ops"
  by (simp_all add: own_def trace_def)

text \<open>A slot whose lists stay.\<close>

lemma own_keep: "k < MAX_SOCKET \<Longrightarrow> sk_high s = sk_high (ss_slot ss k) \<Longrightarrow> sk_low s = sk_low (ss_slot ss k) \<Longrightarrow> own (put_socket k s ss) = own ss"
  by (simp add: own_put own_at [of k ss] held_def)

section \<open>The functions\<close>

lemma force_close_own:
  assumes "force_close k ss res = Some (ss', res')" "k < MAX_SOCKET"
  shows "own ss' = own ss"
proof (cases "sk_type (ss_slot ss k) = SOCKET_TYPE_INVALID")
  case True
  then show ?thesis using assms(1) by (simp add: force_close_def Let_def)
next
  case False
  then show ?thesis using assms
    by (auto simp: force_close_def Let_def own_put own_at [of k ss] held_def add.assoc add.commute add.left_commute)
qed

lemma held_set: "held (set_list p wbs s) + mset (map write_buffer_free (the_list p s)) = held s + mset (map write_buffer_free wbs)"
  by (cases p) (simp_all add: held_def set_list_def the_list_def)

lemma sys_own: "own (snd (sys ss)) = own ss" "own (snd (sys_ok ss)) = own ss" "own (snd (sys_write fd bs ss)) = own ss"
    "own (snd (sys_sendto fd bs sa ss)) = own ss" "own (snd (sys_read n ss)) = own ss" "own (snd (sys_recvfrom ss)) = own ss"
    "own (snd (sp_add fd k ss)) = own ss"
  by (auto simp: sys_def sys_ok_def sys_write_def sys_sendto_def sys_read_def sys_recvfrom_def sp_add_def Let_def split: option.splits)

lemma sys_slot: "ss_slot (snd (sys_write fd bs ss)) = ss_slot ss" "ss_slot (snd (sys_sendto fd bs sa ss)) = ss_slot ss"
    "ss_slot (snd (sys_read n ss)) = ss_slot ss" "ss_slot (snd (sys_recvfrom ss)) = ss_slot ss" "ss_slot (snd (sp_add fd k ss)) = ss_slot ss"
    "ss_slot (snd (sys ss)) = ss_slot ss" "ss_slot (snd (sys_ok ss)) = ss_slot ss"
  by (auto simp: sys_def sys_ok_def sys_write_def sys_sendto_def sys_read_def sys_recvfrom_def sp_add_def Let_def split: option.splits)

text \<open>One buffer is taken from a list and freed, put behind it, or changed.\<close>

lemma own_pop:
  assumes "k < MAX_SOCKET" "the_list p (ss_slot ss k) = wb # wbs" "ss_slot ss1 = ss_slot ss" "own ss1 = own ss"
  shows "own (trace [write_buffer_free wb] (put_socket k ((set_list p wbs (ss_slot ss k))\<lparr>sk_wb_size := n\<rparr>) ss1)) = own ss"
  using assms(2,3,4) own_at [OF assms(1), of ss1]
  by (cases p) (simp_all add: own_put [OF assms(1)] held_def set_list_def the_list_def)

lemma own_push:
  assumes "k < MAX_SOCKET"
  shows "own (put_socket k (appended p pay n addr (ss_slot ss k)) ss) = own ss + {#free_payload pay#}"
  using own_at [OF assms, of ss]
  by (cases p) (simp_all add: own_put [OF assms] held_def set_list_def the_list_def appended_def write_buffer_free_def)

lemma own_change:
  assumes "k < MAX_SOCKET" "the_list p (ss_slot ss k) = wb # wbs" "ss_slot ss1 = ss_slot ss" "own ss1 = own ss" "sb_buffer wb' = sb_buffer wb"
  shows "own (put_socket k ((set_list p (wb' # wbs) (ss_slot ss k))\<lparr>sk_wb_size := n\<rparr>) ss1) = own ss"
  using assms(2-) own_at [OF assms(1), of ss1]
  by (cases p) (simp_all add: own_put [OF assms(1)] held_def set_list_def the_list_def write_buffer_free_def)

lemma send_list_tcp_own:
  assumes "send_list_tcp k p ss res = Some y"
  shows "k < MAX_SOCKET \<longrightarrow> own (fst (snd y)) = own ss"
proof (rule send_list_tcp.raw_induct [OF _ assms, where P = "\<lambda>k p ss res y. k < MAX_SOCKET \<longrightarrow> own (fst (snd y)) = own ss"], intro impI, goal_cases)
  case (1 send k p ss res y)
  note prem = 1(3)
  show ?case
  proof (cases "the_list p (ss_slot ss k)")
    case Nil
    then show ?thesis using prem "1"(2) by auto
  next
    case (Cons wb wbs)
    obtain bs where bs: "sb_rest ss wb = Some bs" using "1"(2) Cons by (auto simp: Let_def)
    obtain x ss1 where w: "sys_write (sk_fd (ss_slot ss k)) bs ss = (x, ss1)" by fastforce
    have s1: "own ss1 = own ss" "ss_slot ss1 = ss_slot ss" using sys_own(3) sys_slot(1) w by (metis snd_conv)+
    show ?thesis
    proof (cases x)
      case (Inl e)
      then show ?thesis using "1"(1,2) prem Cons bs w s1 force_close_own by (auto simp: Let_def split: if_splits)
    next
      case (Inr n)
      let ?s = "(ss_slot ss k)\<lparr>sk_wb_size := sk_wb_size (ss_slot ss k) - int n\<rparr>"
      show ?thesis
      proof (cases "n = length bs")
        case True
        have "send k p (trace [write_buffer_free wb] (put_socket k (set_list p wbs ?s) ss1)) res = Some y"
          using "1"(2) Cons bs w Inr True by (simp add: Let_def)
        from "1"(1) [OF this] prem own_pop [OF _ Cons s1(2,1)] show ?thesis by simp
      next
        case False
        then have "fst (snd y) = put_socket k (set_list p (wb\<lparr>sb_off := sb_off wb + n\<rparr> # wbs) ?s) ss1"
          using "1"(2) Cons bs w Inr by (auto simp: Let_def)
        then show ?thesis using own_change [OF _ Cons s1(2,1), where wb' = "wb\<lparr>sb_off := sb_off wb + n\<rparr>"] prem by simp
      qed
    qed
  qed
qed

lemma send_list_udp_own:
  assumes "send_list_udp_loop k p wbs ss res = Some (r, ss', res')" "k < MAX_SOCKET" "the_list p (ss_slot ss k) = wbs"
  shows "own ss' = own ss"
  using assms
proof (induction wbs arbitrary: ss)
  case (Cons wb wbs)
  obtain bs where bs: "sb_rest ss wb = Some bs" using Cons.prems(1) by (auto simp: Let_def)
  let ?sa = "udp_socket_address (sk_protocol (ss_slot ss k)) (sb_udp_address wb)"
  obtain x ss1 where w: "sys_sendto (sk_fd (ss_slot ss k)) bs ?sa ss = (x, ss1)" by fastforce
  have s1: "own ss1 = own ss" "ss_slot ss1 = ss_slot ss" using sys_own(4) sys_slot(2) w by (metis snd_conv)+
  show ?case
  proof (cases x)
    case (Inl e)
    then show ?thesis using Cons.prems(1) bs w s1 by (auto simp: Let_def split: if_splits)
  next
    case (Inr n)
    let ?ss = "trace [write_buffer_free wb] (put_socket k ((set_list p wbs (ss_slot ss k))\<lparr>sk_wb_size := sk_wb_size (ss_slot ss k) - int (length bs)\<rparr>) ss1)"
    have "send_list_udp_loop k p wbs ?ss res = Some (r, ss', res')" using Cons.prems(1) bs w Inr by (simp add: Let_def)
    from Cons.IH [OF this Cons.prems(2)] own_pop [OF Cons.prems(2,3) s1(2,1)] show ?thesis by simp
  qed
qed simp

lemma send_list_own:
  assumes "send_list k p ss res = Some (r, ss', res')" "k < MAX_SOCKET"
  shows "own ss' = own ss"
  using assms send_list_tcp_own [of k p ss res "(r, ss', res')"] send_list_udp_own [of k p _ ss res r ss' res']
  by (auto simp: send_list_def send_list_udp_def split: if_splits)

lemma raise_own: "raise_uncomplete (ss_slot ss k) = Some s \<Longrightarrow> k < MAX_SOCKET \<Longrightarrow> own (put_socket k s ss) = own ss"
  using own_at [of k ss] by (auto simp: raise_uncomplete_def own_put held_def split: list.splits)

lemma send_buffer_own:
  assumes "send_buffer k ss res = Some (r, ss', res')" "k < MAX_SOCKET"
  shows "own ss' = own ss"
  using assms
  by (auto simp: send_buffer_def Let_def split: if_splits dest!: send_list_own force_close_own raise_own)

lemma HASH_ID_less [simp]: "HASH_ID i < MAX_SOCKET"
  by (simp add: HASH_ID_def MAX_SOCKET_def)

lemma append_own:
  assumes "append_sendbuffer_at k p pay n addr ss = Some ss'" "k < MAX_SOCKET"
  shows "own ss' = own ss + {#free_payload pay#}"
  using assms own_at [OF assms(2), of ss]
  by (cases p) (auto simp: append_sendbuffer_at_def Let_def own_put held_def set_list_def the_list_def write_buffer_free_def)

lemmas append_defs = append_sendbuffer_def append_sendbuffer_low_def append_sendbuffer_udp_def

lemma send_direct_own:
  assumes "k < MAX_SOCKET"
  shows "send_direct_tcp k i pay bs ss res = Some (r, ss', res') \<Longrightarrow> own ss' = own ss + {#free_payload pay#}"
    "send_direct_udp k p pay bs addr ss res = Some (r, ss', res') \<Longrightarrow> own ss' = own ss + {#free_payload pay#}"
proof -
  assume d: "send_direct_tcp k i pay bs ss res = Some (r, ss', res')"
  obtain x ss1 where w: "sys_write (sk_fd (ss_slot ss k)) bs ss = (x, ss1)" by fastforce
  then have "own ss1 = own ss" using sys_own(3) by (metis snd_conv)
  then show "own ss' = own ss + {#free_payload pay#}" using d w assms
    by (cases x) (auto simp: send_direct_tcp_def append_defs Let_def split: if_splits dest!: append_own force_close_own)
next
  assume d: "send_direct_udp k p pay bs addr ss res = Some (r, ss', res')"
  obtain x ss1 where w: "sys_sendto (sk_fd (ss_slot ss k)) bs (udp_socket_address (sk_protocol (ss_slot ss k)) addr) ss = (x, ss1)" by fastforce
  then have "own ss1 = own ss" using sys_own(4) by (metis snd_conv)
  then show "own ss' = own ss + {#free_payload pay#}" using d w assms
    by (cases x) (auto simp: send_direct_udp_def append_defs Let_def dest!: append_own)
qed

lemma send_socket_own: "send_socket i pay p addr ss res = Some (r, ss', res') \<Longrightarrow> own ss' = own ss + {#free_payload pay#}"
  by (auto simp: send_socket_def append_defs Let_def split: if_splits dest!: append_own send_direct_own [OF HASH_ID_less])

lemma set_type_own [simp]: "own (set_type i t ss) = own ss"
  by (simp add: set_type_def own_keep)

lemma new_fd_own: "new_fd i fd protocol opaque add ss = Some (ok, ss') \<Longrightarrow> own ss' = own ss"
proof -
  assume n: "new_fd i fd protocol opaque add ss = Some (ok, ss')"
  obtain b ss1 where b: "(if add then sp_add fd (HASH_ID i) ss else (True, ss)) = (b, ss1)" by fastforce
  then have "ss1 = (if add then snd (sp_add fd (HASH_ID i) ss) else ss)" by (metis snd_conv)
  then have "own ss1 = own ss" "ss_slot ss1 = ss_slot ss" by (simp_all add: sys_own sys_slot)
  moreover obtain s where "ss' = put_socket (HASH_ID i) s ss1" "sk_high s = sk_high (ss_slot ss (HASH_ID i))" "sk_low s = sk_low (ss_slot ss (HASH_ID i))"
    using n by (simp add: new_fd_def Let_def b split: if_splits) auto
  ultimately show ?thesis by (simp add: own_keep)
qed

lemma connect_loop_own: "own (snd (connect_loop ais ss)) = own ss"
proof (induction ais arbitrary: ss)
  case (Cons ai ais)
  then show ?case by (auto simp: sys_def Let_def split: option.splits)
qed simp

lemma open_socket_own:
  assumes "open_socket i opaque ss res = Some (r, ss', res')"
  shows "own ss' = own ss"
proof -
  obtain g ss0 where g: "sys ss = (g, ss0)" by fastforce
  obtain x ss1 where x: "connect_loop (an_addrs g) ss0 = (x, ss1)" by fastforce
  have o: "own ss0 = own ss" "own ss1 = own ss0" using sys_own(1) [of ss] connect_loop_own [of "an_addrs g" ss0] g x by simp_all
  show ?thesis using assms g x o
    by (auto simp: open_socket_def Let_def split_beta sys_own split: if_splits option.splits dest!: new_fd_own)
qed

lemma start_socket_own:
  assumes "start_socket i opaque ss res = Some (r, ss', res')"
  shows "own ss' = own ss"
proof -
  obtain ok ss1 where a: "sp_add (sk_fd (ss_slot ss (HASH_ID i))) (HASH_ID i) ss = (ok, ss1)" by fastforce
  have o: "own ss1 = own ss" "ss_slot ss1 = ss_slot ss" using sys_own(7) sys_slot(5) a by (metis snd_conv)+
  show ?thesis using assms a o own_keep [OF HASH_ID_less, of _ ss1 i] own_keep [OF HASH_ID_less, of _ ss i]
    by (auto simp: start_socket_def Let_def split: if_splits dest!: force_close_own)
qed

lemma close_socket_own: "close_socket i sd opaque ss res = Some (r, ss', res') \<Longrightarrow> own ss' = own ss"
  by (auto simp: close_socket_def Let_def split: if_splits dest!: send_buffer_own force_close_own)

lemma other_requests_own:
  "bind_socket i fd opaque ss res = Some (r, ss', res') \<Longrightarrow> own ss' = own ss"
  "listen_socket i fd opaque ss res = Some (r, ss', res') \<Longrightarrow> own ss' = own ss"
  "set_udp_address i addr ss res = Some (r, ss', res') \<Longrightarrow> own ss' = own ss"
  "add_udp_socket i fd v6 opaque ss = Some ss' \<Longrightarrow> own ss' = own ss"
  "own (setopt_socket i ss) = own ss"
  by (auto simp: bind_socket_def listen_socket_def set_udp_address_def add_udp_socket_def setopt_socket_def Let_def own_keep
      split: if_splits sock_p.splits dest!: new_fd_own)

lemma ctrl_cmd_own:
  assumes "ctrl_cmd ss res = Some (r, ss', res')"
  shows "own ss' = own ss"
proof -
  obtain q qs where q: "ss_pipe ss = q # qs" using assms by (auto simp: ctrl_cmd_def split: list.splits)
  let ?p = "case request_payload q of None \<Rightarrow> {#} | Some pay \<Rightarrow> {#free_payload pay#}"
  have "own ss' = own (ss\<lparr>ss_pipe := qs\<rparr>) + ?p"
    using assms q
    by (cases q) (auto simp: ctrl_cmd_def other_requests_own(5) dest!: send_socket_own start_socket_own close_socket_own open_socket_own other_requests_own(1-4))
  also have "\<dots> = own ss" by (simp add: own_def q)
  finally show ?thesis .
qed

lemma forward_own:
  assumes "k < MAX_SOCKET"
  shows "forward_message_tcp k ss res = Some (r, ss', res') \<Longrightarrow> own ss' = own ss"
    "forward_message_udp k ss res = Some (r, ss', res') \<Longrightarrow> own ss' = own ss"
    "report_connect k ss res = Some (r, ss', res') \<Longrightarrow> own ss' = own ss"
proof -
  assume f: "forward_message_tcp k ss res = Some (r, ss', res')"
  then obtain sz where sz: "sk_p (ss_slot ss k) = P_size sz" by (auto simp: forward_message_tcp_def Let_def split: sock_p.splits)
  obtain x ss1 where w: "sys_read sz ss = (x, ss1)" by fastforce
  then have "own ss1 = own ss" "ss_slot ss1 = ss_slot ss" using sys_own(5) sys_slot(3) by (metis snd_conv)+
  then show "own ss' = own ss" using f w sz assms
    by (cases x) (auto simp: forward_message_tcp_def Let_def own_keep split: if_splits dest!: force_close_own)
next
  assume f: "forward_message_udp k ss res = Some (r, ss', res')"
  obtain x ss1 where w: "sys_recvfrom ss = (x, ss1)" by fastforce
  then have "own ss1 = own ss" using sys_own(6) by (metis snd_conv)
  then show "own ss' = own ss" using f w assms
    by (cases x) (auto simp: forward_message_udp_def Let_def split: if_splits dest!: force_close_own)
next
  assume "report_connect k ss res = Some (r, ss', res')"
  then show "own ss' = own ss" using assms
    by (auto simp: report_connect_def sys_def Let_def own_keep split: if_splits dest!: force_close_own)
qed

lemma reserve_loop_own: "own (snd (reserve_loop n ss)) = own ss"
  by (induction n arbitrary: ss) (simp_all add: Let_def own_keep)

lemma reserve_id_own: "reserve_id ss = (i, ss') \<Longrightarrow> own ss' = own ss"
  using reserve_loop_own [of MAX_SOCKET ss] by (simp add: reserve_id_def)

lemma report_accept_own:
  assumes "report_accept k ss res = Some (r, ss', res')"
  shows "own ss' = own ss"
proof -
  define ss1 where "ss1 = ss\<lparr>ss_clock := ss_clock ss + 1\<rparr>"
  obtain i ss2 where i: "reserve_id ss1 = (i, ss2)" by fastforce
  have "own ss2 = own ss" using reserve_id_own [OF i] by (simp add: ss1_def)
  then show ?thesis using assms i unfolding ss1_def
    by (auto simp: report_accept_def sys_def Let_def split: if_splits option.splits dest!: new_fd_own)
qed

lemma poll_event_own:
  assumes "poll_event k e ss res = Some (r, ss', res')" "k < MAX_SOCKET"
  shows "own ss' = own ss"
proof -
  let ?t = "sk_type (ss_slot ss k)"
  let ?f = "if sk_protocol (ss_slot ss k) = PROTOCOL_TCP then forward_message_tcp k ss res else forward_message_udp k ss res"
  have f: "own ss1 = own ss" if "?f = Some (r1, ss1, res1)" for r1 ss1 res1
    using that forward_own [OF assms(2)] by (auto split: if_splits)
  have other: "own ss' = own ss"
    if h: "(if ev_read e then do {
            (type, ss, res) \<leftarrow> ?f;
            let back = ss\<lparr>ss_event_index := ss_event_index ss - 1\<rparr>;
            if type = SR_udp then Some (type, back, res)
            else if ev_write e \<and> type \<noteq> SR_close \<and> type \<noteq> SR_error
            then Some (type, back\<lparr>ss_ev := (ss_ev back)[ss_event_index back := e\<lparr>ev_read := False\<rparr>]\<rparr>, res)
            else Some (type, ss, res)
          }
          else if ev_write e then send_buffer k ss res
          else Some (SR_none, ss, res)) = Some (r, ss', res')"
  proof (cases "ev_read e")
    case True
    then obtain r1 ss1 res1 where "?f = Some (r1, ss1, res1)" "own ss' = own ss1" using h by (auto simp: Let_def split: if_splits)
    then show ?thesis using f by simp
  next
    case False
    then show ?thesis using h send_buffer_own [OF _ assms(2)] by (auto split: if_splits)
  qed
  show ?thesis using assms(1) other forward_own(3) [OF assms(2)] report_accept_own unfolding poll_event_def Let_def
    by (cases ?t) auto
qed

section \<open>The whole server\<close>

lemma poll_wait_own: "own (snd (poll_wait ss)) = own ss"
  by (simp add: poll_wait_def sys_def Let_def)

lemma server_slot: "server_ok ss \<Longrightarrow> sk_type (ss_slot ss k) \<noteq> SOCKET_TYPE_INVALID \<Longrightarrow> k < MAX_SOCKET"
  unfolding server_ok_def slot_ok_def by (metis HASH_ID_less)

lemma poll_turn_own:
  assumes "poll_turn ss res = Some x" "server_ok ss"
  shows "own (turn_state x) = own ss"
proof (cases "ss_checkctrl ss \<and> has_cmd ss")
  case True
  have "own (clear_closed_event m r ss1) = own ss1" for m r ss1 by (simp add: clear_closed_event_def)
  then show ?thesis using True assms(1) by (auto simp: poll_turn_def split: if_splits dest!: ctrl_cmd_own)
next
  case False
  obtain mr ss1 where w: "poll_wait (ss\<lparr>ss_checkctrl := False\<rparr>) = (mr, ss1)" by fastforce
  have o: "own ss1 = own ss" using poll_wait_own [of "ss\<lparr>ss_checkctrl := False\<rparr>"] w by simp
  have "server_ok (ss\<lparr>ss_checkctrl := False\<rparr>)" using assms(2) by (simp add: server_ok_def pipe_ok_def events_ok_def waiting_def fair_def)
  from poll_wait_server [OF this w] have ok: "server_ok ss1" "mr \<Longrightarrow> ss_event_index ss1 < length (ss_ev ss1)" by blast+
  let ?e = "ss_ev ss1 ! ss_event_index ss1" and ?ss1 = "ss1\<lparr>ss_event_index := Suc (ss_event_index ss1)\<rparr>"
  have turn: "(if \<not> mr then Some (Inr (SR_none, ss1, res)) else
      (case ev_s ?e of
         None \<Rightarrow> Some (Inl (?ss1, res))
       | Some i \<Rightarrow> do {
           (type, ss, res) \<leftarrow> poll_event i ?e ?ss1 res;
           if type = SR_none then Some (Inl (ss, res)) else Some (Inr (type, ss, res))
         })) = Some x"
    using assms(1) w ok(2) unfolding poll_turn_def if_not_P [OF False] by (simp add: nth_opt_in Let_def split: if_splits)
  have k: "k < MAX_SOCKET" if "mr" "ev_s ?e = Some k" for k
    using index_server(3) [OF ok(1) ok(2) [OF that(1)] that(2)] in_pool_live server_slot [OF ok(1)] by (auto simp: live_def)
  show ?thesis using turn o k poll_event_own [of _ ?e ?ss1 res] by (auto split: if_splits option.splits)
qed

text \<open>The calls of other threads.\<close>

definition given :: "payload option \<Rightarrow> sysop multiset" where
  "given p = (case p of None \<Rightarrow> {#} | Some pay \<Rightarrow> {#free_payload pay#})"

lemma in_pipe_append: "in_pipe (rs @ rs') = in_pipe rs + in_pipe rs'"
  by (induction rs) simp_all

lemma request_own: "own (send_request r ss) = own ss + given (request_payload r)"
  by (simp add: own_def send_request_def in_pipe_append given_def)

lemma free_buffer_own: "free_buffer pay ss = Some ss' \<Longrightarrow> own ss' = own ss + {#free_payload pay#}"
  by (auto simp: free_buffer_def)

lemma do_bind_own: "own (snd (snd (do_bind ss))) = own ss"
  by (simp add: do_bind_def Let_def split_beta sys_own)

lemma do_listen_own: "own (snd (do_listen ss)) = own ss"
  by (simp add: do_listen_def Let_def split_beta sys_own do_bind_own)

lemma reserve_snd_own: "own (snd (reserve_id ss)) = own ss"
  by (simp add: reserve_id_def reserve_loop_own)

lemma create_calls_own:
  "own (snd (socket_server_connect opaque addr port ss)) = own ss" "own (snd (socket_server_bind opaque fd ss)) = own ss"
  "own (snd (socket_server_listen opaque ss)) = own ss" "own (snd (socket_server_udp opaque ad port ss)) = own ss"
  "own (snd (socket_server_udp_connect i ss)) = own ss"
  by (simp_all add: socket_server_connect_def open_request_def socket_server_bind_def socket_server_listen_def socket_server_udp_def
      socket_server_udp_connect_def Let_def split_beta request_own given_def reserve_snd_own do_listen_own do_bind_own sys_own)

lemma call_own: "do_call c ss = Some ss' \<Longrightarrow> own ss' = own ss + given (call_payload c)"
  by (cases c) (auto simp: create_calls_own request_own given_def socket_server_send_def socket_server_send_lowpriority_def socket_server_udp_send_def
      socket_server_close_def socket_server_shutdown_def socket_server_start_def socket_server_nodelay_def socket_server_exit_def Let_def
      split: if_splits dest!: free_buffer_own)

text \<open>A run of the server, with the buffers it was given.\<close>

inductive socket_run :: "sysop multiset \<Rightarrow> socket_server \<Rightarrow> bool" where
  start: "socket_init ss \<Longrightarrow> socket_run {#} ss"
| turn: "socket_run g ss \<Longrightarrow> plenty ss \<Longrightarrow> poll_turn ss res = Some x \<Longrightarrow> socket_run g (turn_state x)"
| call: "socket_run g ss \<Longrightarrow> plenty ss \<Longrightarrow> call_ok c ss \<Longrightarrow> do_call c ss = Some ss' \<Longrightarrow> socket_run (g + given (call_payload c)) ss'"

lemma run_reach: "socket_run g ss \<Longrightarrow> reach socket_init socket_step ss"
  by (induction rule: socket_run.induct) (auto intro: reach.intros socket_step.intros)

lemma init_own: "socket_init ss \<Longrightarrow> own ss = {#}"
  by (auto simp: socket_init_def socket_server_create_def own_def held_def)

text \<open>C32
  No buffer is lost and none is freed twice: over any run of the server, the buffers that were given
  to it are exactly those it has freed, those in requests in the pipe and those in the lists of its
  sockets, each counted once, whatever the network does and however sockets are closed.\<close>

theorem buffers_freed_once:
  assumes "socket_run g ss"
  shows "g = frees (ss_trace ss) + in_pipe (ss_pipe ss) + (\<Sum>k<MAX_SOCKET. held (ss_slot ss k))"
proof -
  have "own ss = g"
    using assms
  proof (induction rule: socket_run.induct)
    case (turn g ss res x)
    then show ?case using poll_turn_own [OF turn(3)] socket_sys.reach_inv [OF run_reach [OF turn(1)]] by simp
  qed (simp_all add: init_own call_own)
  then show ?thesis by (simp add: own_def)
qed

text \<open>An example: a message is sent to a socket that does not exist and is freed at once.\<close>

definition refused_server :: socket_server where
  "refused_server = trace [T_free 100] new_server"

lemma buffers_freed_once_witness:
  "socket_run {#T_free 100#} refused_server
   \<and> {#T_free 100#} = frees (ss_trace refused_server) + in_pipe (ss_pipe refused_server) + (\<Sum>k<MAX_SOCKET. held (ss_slot refused_server k))"
proof -
  have init: "socket_init new_server" by (auto simp: socket_init_def new_server_def fair_def socket_server_create_def quiet_answer_def)
  have "plenty new_server" by (simp add: plenty_def new_server_def socket_server_create_def MAX_SOCKET_def MAX_SOCKET_P_def)
  moreover have "call_ok (C_send 0 (Memory 100 [1])) new_server" by (simp add: call_ok_def new_server_def socket_server_create_def)
  moreover have "do_call (C_send 0 (Memory 100 [1])) new_server = Some refused_server"
    by (simp add: socket_server_send_def unknown_id_def new_server_def socket_server_create_def free_buffer_def send_object_init_def refused_server_def free_payload_def Let_def)
  ultimately have "socket_run ({#} + given (call_payload (C_send 0 (Memory 100 [1])))) refused_server"
    by (intro socket_run.call [OF socket_run.start [OF init]])
  then have run: "socket_run {#T_free 100#} refused_server" by (simp add: given_def free_payload_def)
  with buffers_freed_once [OF this] show ?thesis by simp
qed

end
