(* ===== verification/Skynet_Socket.thy ===== *)
theory Skynet_Socket
  imports Messaging Socket_Memory
begin

unbundle bit_operations_syntax

text \<open>
  \<^verbatim>\<open>skynet-src/skynet_socket.c\<close> on both sides: the calls of the services reach the socket server, its results
  become messages of the services. The translation of one result into a message is in theory
  Server; here it is put together with the model of the socket server.
\<close>

section \<open>The interface\<close>

text \<open>\<open>SOCKET_SERVER\<close> is \<open>NULL\<close> before \<open>skynet_socket_init\<close> and after \<open>skynet_socket_free\<close>.\<close>

definition skynet_socket_init :: "(nat \<Rightarrow> answer) \<Rightarrow> (nat \<Rightarrow> socket) \<Rightarrow> socket_server option" where
  "skynet_socket_init env mem = Some (socket_server_create env mem)"

definition skynet_socket_exit :: "socket_server option \<Rightarrow> socket_server option option" where
  "skynet_socket_exit SS = do { ss \<leftarrow> SS; Some (Some (socket_server_exit ss)) }"

text \<open>The result has \<open>SOCKET_SERVER\<close> as \<open>NULL\<close>, and what was done.\<close>

definition skynet_socket_free :: "socket_server option \<Rightarrow> socket_message \<Rightarrow> (socket_server option \<times> sysop list) option" where
  "skynet_socket_free SS dummy = do { ss \<leftarrow> SS; ss \<leftarrow> socket_server_release ss dummy; Some (None, ss_trace ss) }"

text \<open>The kind of a result, and its data as bytes. The text of an error number is an argument.\<close>

definition kind_of :: "sock_result \<Rightarrow> socket_result" where
  "kind_of r = (case r of SR_exit \<Rightarrow> Sk_exit | SR_data \<Rightarrow> Sk_data | SR_close \<Rightarrow> Sk_close | SR_open \<Rightarrow> Sk_open
     | SR_error \<Rightarrow> Sk_error | SR_accept \<Rightarrow> Sk_accept | SR_udp \<Rightarrow> Sk_udp | SR_none \<Rightarrow> Sk_other (-1))"

definition data_of :: "cstr \<Rightarrow> sock_data \<Rightarrow> bytes option" where
  "data_of strerror d = (case d of D_null \<Rightarrow> None | D_text t \<Rightarrow> Some (lit t) | D_strerror \<Rightarrow> Some strerror | D_peer t \<Rightarrow> Some t | D_bytes bs \<Rightarrow> Some bs)"

text \<open>\<open>skynet_socket_poll\<close>: the structure \<open>result\<close> is not initialised.\<close>

definition socket_poll :: "cstr \<Rightarrow> socket_message \<Rightarrow> socket_server option \<Rightarrow> skynet_node \<Rightarrow> (int \<times> socket_server option \<times> skynet_node) option" where
  "socket_poll strerror result SS n = do {
     ss \<leftarrow> SS;
     (type, ss, result) \<leftarrow> socket_server_poll (ss\<lparr>ss_more := True\<rparr>) result;
     (r, n) \<leftarrow> skynet_socket_poll (kind_of type) (of_nat (sm_opaque result)) (sm_id result) (sm_ud result)
                (data_of strerror (sm_data result)) (ss_more ss) n;
     Some (r, Some ss, n)
   }"

definition skynet_socket_send :: "nat \<Rightarrow> int \<Rightarrow> payload \<Rightarrow> socket_server \<Rightarrow> skynet_node \<Rightarrow> (int \<times> socket_server \<times> skynet_node) option" where
  "skynet_socket_send c i pay ss n = do {
     (wsz, ss) \<leftarrow> socket_server_send i pay ss;
     (r, n) \<leftarrow> check_wsz c i wsz n;
     Some (r, ss, n)
   }"

definition skynet_socket_send_lowpriority :: "int \<Rightarrow> payload \<Rightarrow> socket_server \<Rightarrow> socket_server option" where
  "skynet_socket_send_lowpriority i pay ss = socket_server_send_lowpriority i pay ss"

definition handle_nat :: "nat \<Rightarrow> skynet_node \<Rightarrow> nat option" where
  "handle_nat c n = map_option unat (skynet_context_handle c n)"

definition skynet_socket_listen :: "nat \<Rightarrow> skynet_node \<Rightarrow> socket_server \<Rightarrow> (int \<times> socket_server) option" where
  "skynet_socket_listen c n ss = do { source \<leftarrow> handle_nat c n; Some (socket_server_listen source ss) }"

definition skynet_socket_connect :: "nat \<Rightarrow> cstr \<Rightarrow> int \<Rightarrow> skynet_node \<Rightarrow> socket_server \<Rightarrow> (int \<times> socket_server) option" where
  "skynet_socket_connect c host port n ss = do { source \<leftarrow> handle_nat c n; Some (socket_server_connect source host port ss) }"

definition skynet_socket_bind :: "nat \<Rightarrow> int \<Rightarrow> skynet_node \<Rightarrow> socket_server \<Rightarrow> (int \<times> socket_server) option" where
  "skynet_socket_bind c fd n ss = do { source \<leftarrow> handle_nat c n; Some (socket_server_bind source fd ss) }"

definition skynet_socket_close :: "nat \<Rightarrow> int \<Rightarrow> skynet_node \<Rightarrow> socket_server \<Rightarrow> socket_server option" where
  "skynet_socket_close c i n ss = do { source \<leftarrow> handle_nat c n; Some (socket_server_close source i ss) }"

definition skynet_socket_shutdown :: "nat \<Rightarrow> int \<Rightarrow> skynet_node \<Rightarrow> socket_server \<Rightarrow> socket_server option" where
  "skynet_socket_shutdown c i n ss = do { source \<leftarrow> handle_nat c n; Some (socket_server_shutdown source i ss) }"

definition skynet_socket_start :: "nat \<Rightarrow> int \<Rightarrow> skynet_node \<Rightarrow> socket_server \<Rightarrow> socket_server option" where
  "skynet_socket_start c i n ss = do { source \<leftarrow> handle_nat c n; Some (socket_server_start source i ss) }"

definition skynet_socket_nodelay :: "int \<Rightarrow> socket_server \<Rightarrow> socket_server" where
  "skynet_socket_nodelay i ss = socket_server_nodelay i ss"

definition skynet_socket_udp :: "nat \<Rightarrow> cstr option \<Rightarrow> int \<Rightarrow> skynet_node \<Rightarrow> socket_server \<Rightarrow> (int \<times> socket_server) option" where
  "skynet_socket_udp c addr port n ss = do { source \<leftarrow> handle_nat c n; Some (socket_server_udp source addr port ss) }"

definition skynet_socket_udp_connect :: "int \<Rightarrow> socket_server \<Rightarrow> int \<times> socket_server" where
  "skynet_socket_udp_connect i ss = socket_server_udp_connect i ss"

definition skynet_socket_udp_send :: "nat \<Rightarrow> int \<Rightarrow> bytes \<Rightarrow> payload \<Rightarrow> socket_server \<Rightarrow> skynet_node \<Rightarrow> (int \<times> socket_server \<times> skynet_node) option" where
  "skynet_socket_udp_send c i address pay ss n = do {
     (wsz, ss) \<leftarrow> socket_server_udp_send i address pay ss;
     (r, n) \<leftarrow> check_wsz c i wsz n;
     Some (r, ss, n)
   }"

definition SKYNET_SOCKET_TYPE_UDP :: int where "SKYNET_SOCKET_TYPE_UDP = 6"

text \<open>\<open>skynet_socket_udp_address\<close> of a message with the given type, \<open>ud\<close> and buffer.\<close>

definition skynet_socket_udp_address :: "int \<Rightarrow> nat \<Rightarrow> bytes \<Rightarrow> bytes option" where
  "skynet_socket_udp_address type ud d = (if type \<noteq> SKYNET_SOCKET_TYPE_UDP then None else socket_server_udp_address d ud)"

section \<open>From the network to a service\<close>

lemma forward_delivers:
  assumes inv: "node_inv refs hs n"
    and dest: "skynet_handle_grab (handle_of n) opq (n_handles n) = Some c" "n_ctxs n c = Some x"
  shows "\<exists>n' v msg. forward_message t False opq sid ud d n = Some n' \<and> qview (n_mq n) (cx_queue x) = Some v
     \<and> qview (n_mq n') = (qview (n_mq n))(cx_queue x \<mapsto> v\<lparr>v_msgs := v_msgs v @ [msg], v_global := True\<rparr>)
     \<and> data msg = PSocket t sid ud d [] \<and> uint (drop_bit MESSAGE_TYPE_SHIFT (sz msg)) = PTYPE_SOCKET"
proof -
  let ?msg = "\<lparr>source = 0, session = 0, data = PSocket t sid ud d [], sz = with_type (of_nat SOCKET_MESSAGE_SIZE) PTYPE_SOCKET\<rparr>"
  from push_eq [OF inv, of opq ?msg] dest obtain m v where
    p: "skynet_context_push opq ?msg n = Some (0, n\<lparr>n_mq := m\<rparr>)" "qview (n_mq n) (cx_queue x) = Some v"
      "qview m = (qview (n_mq n))(cx_queue x \<mapsto> v\<lparr>v_msgs := v_msgs v @ [?msg], v_global := True\<rparr>)" by auto
  have "uint (drop_bit MESSAGE_TYPE_SHIFT (with_type (of_nat SOCKET_MESSAGE_SIZE) PTYPE_SOCKET)) = PTYPE_SOCKET"
    by (rule with_type_decode(1) [OF small_size]) (simp_all add: SOCKET_MESSAGE_SIZE_def PTYPE_SOCKET_def)
  then show ?thesis using p by (auto simp: forward_message_def Let_def)
qed

text \<open>The socket thread is at a read event of a connection, and the network has bytes.\<close>

definition reading :: "nat \<Rightarrow> int \<Rightarrow> bytes \<Rightarrow> socket_server \<Rightarrow> bool" where
  "reading k len bs ss \<longleftrightarrow> \<not> (ss_checkctrl ss \<and> has_cmd ss) \<and> ss_event_index ss < length (ss_ev ss)
     \<and> ev_s (ss_ev ss ! ss_event_index ss) = Some k \<and> ev_read (ss_ev ss ! ss_event_index ss)
     \<and> sk_type (ss_slot ss k) \<in> {SOCKET_TYPE_CONNECTED, SOCKET_TYPE_BIND} \<and> sk_protocol (ss_slot ss k) = PROTOCOL_TCP
     \<and> sk_p (ss_slot ss k) = P_size len \<and> an_err (ss_env ss (ss_clock ss)) = None
     \<and> bs = take (nat len) (an_data (ss_env ss (ss_clock ss))) \<and> bs \<noteq> []"

lemma poll_reads:
  assumes "reading k len bs ss"
  shows "\<exists>ss'. socket_server_poll ss res = Some (SR_data, ss',
       \<lparr>sm_id = sk_id (ss_slot ss k), sm_opaque = sk_opaque (ss_slot ss k), sm_ud = int (length bs), sm_data = D_bytes bs\<rparr>)
     \<and> sk_p (ss_slot ss' k) = P_size (next_size len (int (length bs)))"
proof -
  let ?e = "ss_ev ss ! ss_event_index ss"
  let ?ss = "ss\<lparr>ss_checkctrl := False, ss_event_index := Suc (ss_event_index ss)\<rparr>"
  let ?m = "\<lparr>sm_id = sk_id (ss_slot ss k), sm_opaque = sk_opaque (ss_slot ss k), sm_ud = int (length bs), sm_data = D_bytes bs\<rparr>"
  let ?s' = "(ss_slot ss k)\<lparr>sk_p := P_size (next_size len (int (length bs)))\<rparr>"
  have ctrl: "\<not> (ss_checkctrl ss \<and> has_cmd ss)" and lt: "ss_event_index ss < length (ss_ev ss)" using assms by (auto simp: reading_def)
  have f: "forward_message_tcp k ?ss res = Some (SR_data, put_socket k ?s' (?ss\<lparr>ss_clock := Suc (ss_clock ss)\<rparr>), ?m)"
    using assms by (auto simp: reading_def forward_message_tcp_def sys_read_def sys_def Let_def)
  have "\<exists>ss'. poll_event k ?e ?ss res = Some (SR_data, ss', ?m) \<and> sk_p (ss_slot ss' k) = P_size (next_size len (int (length bs)))"
    using assms f by (auto simp: reading_def poll_event_def Let_def)
  moreover have "poll_wait (ss\<lparr>ss_checkctrl := False\<rparr>) = (True, ss\<lparr>ss_checkctrl := False\<rparr>)" using lt by (simp add: poll_wait_def)
  ultimately have "\<exists>ss'. poll_turn ss res = Some (Inr (SR_data, ss', ?m)) \<and> sk_p (ss_slot ss' k) = P_size (next_size len (int (length bs)))"
    using assms lt unfolding poll_turn_def if_not_P [OF ctrl] by (auto simp: reading_def nth_opt_in Let_def)
  then show ?thesis by (subst socket_server_poll.simps) auto
qed

text \<open>C33
  Bytes that arrive on a connection reach its service: when the socket thread is at a read event of a
  TCP connection and the network has bytes, it returns with them, and the queue of the service that owns
  the connection gets exactly one message, of type socket, with the id of the connection, the number of
  bytes and exactly these bytes, behind all earlier messages; no other queue changes.\<close>

theorem received_bytes_arrive:
  assumes "reading k len bs ss" "node_inv refs hs n"
    "skynet_handle_grab (handle_of n) (of_nat (sk_opaque (ss_slot ss k))) (n_handles n) = Some c" "n_ctxs n c = Some x"
  shows "\<exists>r ss' n' v msg. socket_poll strerror result (Some ss) n = Some (r, Some ss', n')
     \<and> qview (n_mq n) (cx_queue x) = Some v
     \<and> qview (n_mq n') = (qview (n_mq n))(cx_queue x \<mapsto> v\<lparr>v_msgs := v_msgs v @ [msg], v_global := True\<rparr>)
     \<and> data msg = PSocket 1 (sk_id (ss_slot ss k)) (int (length bs)) (Some bs) []
     \<and> uint (drop_bit MESSAGE_TYPE_SHIFT (sz msg)) = PTYPE_SOCKET"
proof -
  have "reading k len bs (ss\<lparr>ss_more := True\<rparr>)" using assms(1) by (auto simp: reading_def has_cmd_def)
  from poll_reads [OF this, of result] obtain ss' where
    p: "socket_server_poll (ss\<lparr>ss_more := True\<rparr>) result = Some (SR_data, ss',
       \<lparr>sm_id = sk_id (ss_slot ss k), sm_opaque = sk_opaque (ss_slot ss k), sm_ud = int (length bs), sm_data = D_bytes bs\<rparr>)" by auto
  from forward_delivers [OF assms(2-4), of 1 "sk_id (ss_slot ss k)" "int (length bs)" "Some bs"] obtain n' v msg where
    f: "forward_message 1 False (of_nat (sk_opaque (ss_slot ss k))) (sk_id (ss_slot ss k)) (int (length bs)) (Some bs) n = Some n'"
      "qview (n_mq n) (cx_queue x) = Some v"
      "qview (n_mq n') = (qview (n_mq n))(cx_queue x \<mapsto> v\<lparr>v_msgs := v_msgs v @ [msg], v_global := True\<rparr>)"
      "data msg = PSocket 1 (sk_id (ss_slot ss k)) (int (length bs)) (Some bs) []"
      "uint (drop_bit MESSAGE_TYPE_SHIFT (sz msg)) = PTYPE_SOCKET" by blast
  have "\<exists>r. socket_poll strerror result (Some ss) n = Some (r, Some ss', n')"
    using p f(1) by (simp add: socket_poll_def kind_of_def data_of_def skynet_socket_poll_def Let_def)
  then show ?thesis using f by blast
qed

text \<open>An example: five bytes arrive on the connection of a service with the handle 16777217.\<close>

definition reading_server :: socket_server where
  "reading_server = (socket_server_create
     (\<lambda>n. \<lparr>an_err = None, an_num = 0, an_data = [1, 2, 3, 4, 5], an_addr = V4 [] [], an_addrs = [], an_events = [], an_text = None\<rparr>)
     (\<lambda>k. stream_socket))
     \<lparr>ss_slot := (\<lambda>k. stream_socket\<lparr>sk_opaque := 16777217\<rparr>), ss_ev := [\<lparr>ev_s = Some 5, ev_read = True, ev_write = False\<rparr>]\<rparr>"

lemma received_bytes_arrive_witness:
  "\<exists>r ss' n' q v msg. socket_poll [] (close_message stream_socket) (Some reading_server) (sy_node demo_running) = Some (r, Some ss', n')
     \<and> qview (n_mq n') q = Some v \<and> msg \<in> set (v_msgs v) \<and> data msg = PSocket 1 5 5 (Some [1, 2, 3, 4, 5]) []"
proof -
  obtain refs hs where inv: "node_inv refs hs (sy_node demo_running)" using demo_inv by blast
  obtain x where x: "n_ctxs (sy_node demo_running) 0 = Some x" using demo_launched(2) by auto
  have rd: "reading 5 64 [1, 2, 3, 4, 5] reading_server"
    by (simp add: reading_def reading_server_def socket_server_create_def stream_socket_def has_cmd_def)
  have op: "sk_opaque (ss_slot reading_server 5) = 16777217" "sk_id (ss_slot reading_server 5) = 5"
    by (simp_all add: reading_server_def stream_socket_def)
  have "skynet_handle_grab (handle_of (sy_node demo_running)) (of_nat (sk_opaque (ss_slot reading_server 5))) (n_handles (sy_node demo_running)) = Some 0"
    using demo_launched(3) by (simp add: op)
  from received_bytes_arrive [OF rd inv this x, of "[]" "close_message stream_socket"] obtain r ss' n' v msg where
    "socket_poll [] (close_message stream_socket) (Some reading_server) (sy_node demo_running) = Some (r, Some ss', n')"
    "qview (n_mq n') = (qview (n_mq (sy_node demo_running)))(cx_queue x \<mapsto> v\<lparr>v_msgs := v_msgs v @ [msg], v_global := True\<rparr>)"
    "data msg = PSocket 1 5 5 (Some [1, 2, 3, 4, 5]) []" by (auto simp: op)
  then show ?thesis
    by (intro exI [of _ r] exI [of _ ss'] exI [of _ n'] exI [of _ "cx_queue x"] exI [of _ "v\<lparr>v_msgs := v_msgs v @ [msg], v_global := True\<rparr>"] exI [of _ msg]) simp
qed

end
