(* ===== verification/Malloc_Hook.thy ===== *)
theory Malloc_Hook
  imports Framing Transition
begin

unbundle bit_operations_syntax

text \<open>
  \<open>skynet-src/malloc_hook.c\<close> (with \<open>jemalloc\<close>): \<open>malloc\<close>, \<open>realloc\<close>, \<open>calloc\<close> and \<open>free\<close> of the whole
  process go through functions that append the handle of the running service to every block and count the
  bytes of the service in a table of \<open>SLOT_SIZE\<close> entries, indexed by the low bits of the handle.

  The allocator itself is third-party code: the record \<open>je\<close> of its functions is an argument of the model,
  \<open>je_ok\<close> what is documented of them. A live block is its contents, as long as \<open>je_malloc_usable_size\<close> says;
  the memory that Lua gets through \<open>skynet_lalloc\<close> has no handle and is kept apart. The calls are sequential here:
  the counters are updated by atomic instructions, which the model takes one call after the other.
\<close>

section \<open>State\<close>

type_synonym blocks = "nat \<rightharpoonup> bytes"

record mem_data =
  md_handle :: u32
  md_allocated :: u64

definition SLOT_SIZE :: nat where "SLOT_SIZE = 0x10000"
definition PREFIX_SIZE :: u64 where "PREFIX_SIZE = 4"

record mem =
  used_memory :: u64
  memory_block :: u64
  mem_stats :: "mem_data list"
  heap :: blocks
  lua_heap :: blocks

definition mem_init :: mem where
  "mem_init = \<lparr>used_memory = 0, memory_block = 0,
     mem_stats = replicate SLOT_SIZE \<lparr>md_handle = 0, md_allocated = 0\<rparr>, heap = Map.empty, lua_heap = Map.empty\<rparr>"

text \<open>The allocator, on the blocks that are live: the pointer and the contents of the block it returns, or \<open>NULL\<close>.\<close>

record je =
  je_malloc :: "blocks \<Rightarrow> u64 \<Rightarrow> (nat \<times> bytes) option"
  je_realloc :: "blocks \<Rightarrow> nat \<Rightarrow> u64 \<Rightarrow> (nat \<times> bytes) option"
  je_calloc :: "blocks \<Rightarrow> u64 \<Rightarrow> u64 \<Rightarrow> (nat \<times> bytes) option"

definition live :: "mem \<Rightarrow> blocks" where "live st = heap st ++ lua_heap st"

section \<open>Counting\<close>

definition stat_slot :: "u32 \<Rightarrow> nat" where "stat_slot handle = unat (handle AND (of_nat SLOT_SIZE - 1))"

text \<open>The index of the entry whose \<open>allocated\<close> the caller may update, and the table with the entry taken over
  when it was free.\<close>

definition get_allocated_field :: "u32 \<Rightarrow> mem_data list \<Rightarrow> nat option \<times> mem_data list" where
  "get_allocated_field handle stats =
     (let h = stat_slot handle; d = stats ! h; old_alloc = md_allocated d;
          d' = (if md_handle d = 0 \<or> sint old_alloc \<le> 0 then
                  \<lparr>md_handle = handle, md_allocated = (if sint old_alloc < 0 then 0 else old_alloc)\<rparr>
                else d)
      in (if md_handle d' \<noteq> handle then None else Some h, stats[h := d']))"

definition update_xmalloc_stat_alloc :: "u32 \<Rightarrow> nat \<Rightarrow> mem \<Rightarrow> mem" where
  "update_xmalloc_stat_alloc handle n st =
     (let (fld, stats) = get_allocated_field handle (mem_stats st)
      in st\<lparr>used_memory := used_memory st + of_nat n, memory_block := memory_block st + 1,
           mem_stats := (case fld of None \<Rightarrow> stats
             | Some h \<Rightarrow> stats[h := (stats ! h)\<lparr>md_allocated := md_allocated (stats ! h) + of_nat n\<rparr>])\<rparr>)"

definition update_xmalloc_stat_free :: "u32 \<Rightarrow> nat \<Rightarrow> mem \<Rightarrow> mem" where
  "update_xmalloc_stat_free handle n st =
     (let (fld, stats) = get_allocated_field handle (mem_stats st)
      in st\<lparr>used_memory := used_memory st - of_nat n, memory_block := memory_block st - 1,
           mem_stats := (case fld of None \<Rightarrow> stats
             | Some h \<Rightarrow> stats[h := (stats ! h)\<lparr>md_allocated := md_allocated (stats ! h) - of_nat n\<rparr>])\<rparr>)"

text \<open>The handle in the last four bytes of a block.\<close>

definition put_handle :: "u32 \<Rightarrow> bytes \<Rightarrow> bytes" where
  "put_handle handle b = take (length b - 4) b @ le_bytes 4 (unat handle)"

definition get_handle :: "bytes \<Rightarrow> u32" where
  "get_handle b = of_nat (le_nat (drop (length b - 4) b))"

definition fill_prefix :: "u32 \<Rightarrow> nat \<Rightarrow> mem \<Rightarrow> (nat \<times> mem) option" where
  "fill_prefix handle ptr st = do {
     b \<leftarrow> heap st ptr;
     assert_opt (4 \<le> length b);
     Some (ptr, update_xmalloc_stat_alloc handle (length b) (st\<lparr>heap := (heap st)(ptr \<mapsto> put_handle handle b)\<rparr>))
   }"

definition clean_prefix :: "nat \<Rightarrow> mem \<Rightarrow> (nat \<times> mem) option" where
  "clean_prefix ptr st = do {
     b \<leftarrow> heap st ptr;
     assert_opt (4 \<le> length b);
     Some (ptr, update_xmalloc_stat_free (get_handle b) (length b) st)
   }"

section \<open>The allocation functions\<close>

text \<open>Handles other than those of a service belong to threads: \<open>- THREAD_MAIN\<close> before the node is started.\<close>

definition skynet_current_handle :: "bool \<Rightarrow> u32 \<Rightarrow> u32" where
  "skynet_current_handle node_init handle_key = (if node_init then handle_key else - 1)"

text \<open>Running out of memory aborts the process: \<open>None\<close>.\<close>

definition skynet_malloc :: "je \<Rightarrow> u32 \<Rightarrow> u64 \<Rightarrow> mem \<Rightarrow> (nat \<times> mem) option" where
  "skynet_malloc j handle sz0 st = do {
     (ptr, b) \<leftarrow> je_malloc j (live st) (sz0 + PREFIX_SIZE);
     fill_prefix handle ptr (st\<lparr>heap := (heap st)(ptr \<mapsto> b)\<rparr>)
   }"

definition skynet_realloc :: "je \<Rightarrow> u32 \<Rightarrow> nat \<Rightarrow> u64 \<Rightarrow> mem \<Rightarrow> (nat \<times> mem) option" where
  "skynet_realloc j handle ptr sz0 st =
     (if ptr = 0 then skynet_malloc j handle sz0 st
      else do {
        (rawptr, st1) \<leftarrow> clean_prefix ptr st;
        (newptr, b) \<leftarrow> je_realloc j (live st1) rawptr (sz0 + PREFIX_SIZE);
        fill_prefix handle newptr (st1\<lparr>heap := (heap st1)(rawptr := None, newptr \<mapsto> b)\<rparr>)
      })"

definition skynet_free :: "nat \<Rightarrow> mem \<Rightarrow> mem option" where
  "skynet_free ptr st =
     (if ptr = 0 then Some st
      else do {
        (rawptr, st1) \<leftarrow> clean_prefix ptr st;
        Some (st1\<lparr>heap := (heap st1)(rawptr := None)\<rparr>)
      })"

definition skynet_calloc :: "je \<Rightarrow> u32 \<Rightarrow> u64 \<Rightarrow> u64 \<Rightarrow> mem \<Rightarrow> (nat \<times> mem) option" where
  "skynet_calloc j handle nmemb sz0 st = do {
     assert_opt (sz0 \<noteq> 0);
     (ptr, b) \<leftarrow> je_calloc j (live st) (nmemb + (PREFIX_SIZE + sz0 - 1) div sz0) sz0;
     fill_prefix handle ptr (st\<lparr>heap := (heap st)(ptr \<mapsto> b)\<rparr>)
   }"

text \<open>A write of the program through a pointer it was given: \<open>None\<close> outside the block, or in its last four bytes,
  where the handle is.\<close>

definition mem_write :: "nat \<Rightarrow> nat \<Rightarrow> bytes \<Rightarrow> mem \<Rightarrow> mem option" where
  "mem_write ptr off bs st = do {
     b \<leftarrow> heap st ptr;
     assert_opt (off + length bs + 4 \<le> length b);
     Some (st\<lparr>heap := (heap st)(ptr \<mapsto> take off b @ bs @ drop (off + length bs) b)\<rparr>)
   }"

definition mem_read :: "nat \<Rightarrow> nat \<Rightarrow> nat \<Rightarrow> mem \<Rightarrow> bytes option" where
  "mem_read ptr off n st = do {
     b \<leftarrow> heap st ptr;
     assert_opt (off + n + 4 \<le> length b);
     Some (take n (drop off b))
   }"

definition skynet_strdup :: "je \<Rightarrow> u32 \<Rightarrow> cstr \<Rightarrow> mem \<Rightarrow> (nat \<times> mem) option" where
  "skynet_strdup j handle str st = do {
     (ret, st1) \<leftarrow> skynet_malloc j handle (of_nat (length str) + 1) st;
     st2 \<leftarrow> mem_write ret 0 (str @ [0]) st1;
     Some (ret, st2)
   }"

text \<open>The allocator of the Lua states: no handle, no counting; \<open>NULL\<close> is an answer.\<close>

definition skynet_lalloc :: "je \<Rightarrow> nat \<Rightarrow> u64 \<Rightarrow> mem \<Rightarrow> nat \<times> mem" where
  "skynet_lalloc j ptr nsize st =
     (if nsize = 0 then (0, st\<lparr>lua_heap := (lua_heap st)(ptr := None)\<rparr>)
      else case je_realloc j (live st) ptr nsize of
        None \<Rightarrow> (0, st)
      | Some (newptr, b) \<Rightarrow> (newptr, st\<lparr>lua_heap := (lua_heap st)(ptr := None, newptr \<mapsto> b)\<rparr>))"

section \<open>Reports\<close>

definition malloc_used_memory :: "mem \<Rightarrow> u64" where "malloc_used_memory st = used_memory st"
definition malloc_memory_block :: "mem \<Rightarrow> u64" where "malloc_memory_block st = memory_block st"

definition in_report :: "mem_data \<Rightarrow> bool" where "in_report d \<longleftrightarrow> md_handle d \<noteq> 0 \<and> md_allocated d \<noteq> 0"

text \<open>The lines of the dump, in kilobytes, and their total.\<close>

definition dump_c_mem :: "mem \<Rightarrow> (u32 \<times> int) list \<times> int" where
  "dump_c_mem st =
     (let ds = filter in_report (mem_stats st)
      in (map (\<lambda>d. (md_handle d, drop_bit 10 (sint (md_allocated d)))) ds,
          sint (drop_bit 10 (foldl (\<lambda>t d. t + md_allocated d) 0 ds))))"

definition dump_mem_lua :: "mem \<Rightarrow> u32 \<rightharpoonup> u64" where
  "dump_mem_lua st = foldl (\<lambda>t d. t(md_handle d \<mapsto> md_allocated d)) Map.empty (filter in_report (mem_stats st))"

definition malloc_current_memory :: "u32 \<Rightarrow> mem \<Rightarrow> u64" where
  "malloc_current_memory handle st =
     (case List.find (\<lambda>d. md_handle d = handle \<and> md_allocated d \<noteq> 0) (mem_stats st) of
        Some d \<Rightarrow> md_allocated d | None \<Rightarrow> 0)"


section \<open>The handle of a block\<close>

lemma length_put_handle [simp]: "4 \<le> length b \<Longrightarrow> length (put_handle h b) = length b"
  by (simp add: put_handle_def)

lemma le_word [simp]: "of_nat (le_nat (le_bytes 4 (unat n))) = n" for n :: u32
proof -
  have "unat n < 256 ^ 4" using unsigned_less [of n] by simp
  then show ?thesis by (simp add: le_nat_bytes)
qed

lemma get_put_handle [simp]: "4 \<le> length b \<Longrightarrow> get_handle (put_handle h b) = h"
  by (simp add: put_handle_def get_handle_def)

lemma get_handle_write [simp]:
  "off + length bs + 4 \<le> length b \<Longrightarrow> get_handle (take off b @ bs @ drop (off + length bs) b) = get_handle b"
  by (simp add: get_handle_def)

section \<open>What the counters should say\<close>

text \<open>The bytes in the live blocks whose handle satisfies a predicate.\<close>

definition weight :: "(u32 \<Rightarrow> bool) \<Rightarrow> blocks \<Rightarrow> nat" where
  "weight P bl = (\<Sum>p\<in>dom bl. if P (get_handle (the (bl p))) then length (the (bl p)) else 0)"

abbreviation total :: "blocks \<Rightarrow> nat" where "total \<equiv> weight (\<lambda>_. True)"

lemma weight_empty [simp]: "weight P Map.empty = 0"
  by (simp add: weight_def)

lemma weight_add:
  assumes "finite (dom bl)" "p \<notin> dom bl"
  shows "weight P (bl(p \<mapsto> b)) = (if P (get_handle b) then length b else 0) + weight P bl"
proof -
  have "(\<Sum>q\<in>dom bl. if P (get_handle (the ((bl(p \<mapsto> b)) q))) then length (the ((bl(p \<mapsto> b)) q)) else 0) = weight P bl"
    unfolding weight_def using assms(2) by (intro sum.cong) auto
  with assms show ?thesis by (simp add: weight_def)
qed

lemma weight_remove:
  assumes "finite (dom bl)" "bl p = Some b"
  shows "weight P bl = (if P (get_handle b) then length b else 0) + weight P (bl(p := None))"
  using weight_add [of "bl(p := None)" p P b] assms by (simp add: fun_upd_idem)

lemma weight_upd:
  assumes "finite (dom bl)" "bl p = Some b" "length b' = length b" "get_handle b' = get_handle b"
  shows "weight P (bl(p \<mapsto> b')) = weight P bl"
  using weight_add [of "bl(p := None)" p P b'] weight_remove [OF assms(1,2)] assms by simp

lemma weight_le: "weight P bl \<le> total bl"
  unfolding weight_def by (intro sum_mono) simp

lemma total_map_add:
  assumes "finite (dom a)" "finite (dom b)" "dom a \<inter> dom b = {}"
  shows "total a \<le> total (a ++ b)"
proof -
  have "(a ++ b) p = a p" if "p \<in> dom a" for p
    using that assms(3) by (auto simp: map_add_def split: option.split)
  then have "total a = (\<Sum>p\<in>dom a. length (the ((a ++ b) p)))" by (simp add: weight_def)
  also have "\<dots> \<le> total (a ++ b)" using assms by (auto simp: weight_def intro!: sum_mono2)
  finally show ?thesis .
qed

text \<open>
  The handles in use are a set \<open>H\<close> in which no two share a slot. Every block belongs to one of them, and the
  counters are exact: the process totals, and for each slot the bytes of the blocks of its handle.
\<close>

definition slot_inv :: "u32 set \<Rightarrow> blocks \<Rightarrow> nat \<Rightarrow> mem_data \<Rightarrow> bool" where
  "slot_inv H bl i d \<longleftrightarrow> md_allocated d = of_nat (weight (\<lambda>h. stat_slot h = i) bl)
     \<and> (md_allocated d \<noteq> 0 \<longrightarrow> md_handle d \<in> H \<and> stat_slot (md_handle d) = i)"

definition mem_inv :: "u32 set \<Rightarrow> mem \<Rightarrow> bool" where
  "mem_inv H st \<longleftrightarrow>
     finite (dom (heap st)) \<and> finite (dom (lua_heap st)) \<and> dom (heap st) \<inter> dom (lua_heap st) = {}
   \<and> 0 \<notin> dom (live st)
   \<and> (\<forall>b\<in>ran (heap st). 4 \<le> length b \<and> get_handle b \<in> H)
   \<and> total (heap st) < 2 ^ 63
   \<and> used_memory st = of_nat (total (heap st)) \<and> memory_block st = of_nat (card (dom (heap st)))
   \<and> length (mem_stats st) = SLOT_SIZE \<and> (\<forall>i<SLOT_SIZE. slot_inv H (heap st) i (mem_stats st ! i))"

lemma slot_less [simp]: "stat_slot h < SLOT_SIZE"
proof -
  have m: "(of_nat SLOT_SIZE - 1 :: u32) = mask 16" by (simp add: SLOT_SIZE_def mask_eq_exp_minus_1)
  show ?thesis unfolding stat_slot_def m by (simp add: unat_and_mask SLOT_SIZE_def)
qed

lemma sint64_small: "n < 2 ^ 63 \<Longrightarrow> sint (of_nat n :: u64) = int n"
  by (simp add: signed_of_nat signed_take_bit_int_eq_self)

text \<open>The entry of a handle of \<open>H\<close> is its own, or free.\<close>

lemma field_own:
  assumes "inj_on stat_slot H" "h \<in> H" "slot_inv H bl (stat_slot h) (stats ! stat_slot h)" "total bl < 2 ^ 63"
    "length stats = SLOT_SIZE"
  shows "get_allocated_field h stats = (Some (stat_slot h),
    stats[stat_slot h := \<lparr>md_handle = h, md_allocated = md_allocated (stats ! stat_slot h)\<rparr>])"
proof -
  let ?d = "stats ! stat_slot h"
  have s: "sint (md_allocated ?d) = int (weight (\<lambda>x. stat_slot x = stat_slot h) bl)"
    using assms(3,4) weight_le [of "\<lambda>x. stat_slot x = stat_slot h" bl] sint64_small [of "weight (\<lambda>x. stat_slot x = stat_slot h) bl"]
    by (simp add: slot_inv_def)
  show ?thesis
  proof (cases "md_handle ?d = 0 \<or> sint (md_allocated ?d) \<le> 0")
    case True
    then show ?thesis using s by (auto simp: get_allocated_field_def Let_def)
  next
    case False
    then have "md_allocated ?d \<noteq> 0" by auto
    then have "md_handle ?d = h" using assms(1-3) by (auto simp: slot_inv_def inj_on_def)
    moreover from this have "\<lparr>md_handle = h, md_allocated = md_allocated ?d\<rparr> = ?d" by (cases ?d) simp
    then have "stats[stat_slot h := \<lparr>md_handle = h, md_allocated = md_allocated ?d\<rparr>] = stats" by (simp only: list_update_id)
    ultimately show ?thesis using False by (simp add: get_allocated_field_def Let_def)
  qed
qed

lemma slot_inv_other:
  "stat_slot (get_handle b) \<noteq> i \<Longrightarrow> finite (dom bl) \<Longrightarrow> p \<notin> dom bl \<Longrightarrow> slot_inv H (bl(p \<mapsto> b)) i d = slot_inv H bl i d"
  by (simp add: slot_inv_def weight_add)

lemma mem_inv_add:
  assumes "mem_inv H st" "inj_on stat_slot H" "h \<in> H" "p \<notin> dom (live st)" "p \<noteq> 0" "get_handle b = h" "4 \<le> length b"
    "total (heap st) + length b < 2 ^ 63"
  shows "mem_inv H (update_xmalloc_stat_alloc h (length b) (st\<lparr>heap := (heap st)(p \<mapsto> b)\<rparr>))"
proof -
  have fin: "finite (dom (heap st))" and new: "p \<notin> dom (heap st)" "p \<notin> dom (lua_heap st)"
    and len: "length (mem_stats st) = SLOT_SIZE"
    and sl: "\<And>i. i < SLOT_SIZE \<Longrightarrow> slot_inv H (heap st) i (mem_stats st ! i)" and t: "total (heap st) < 2 ^ 63"
    using assms(1,4) by (auto simp: mem_inv_def live_def)
  note f = field_own [OF assms(2,3) sl [OF slot_less] t len]
  have "slot_inv H ((heap st)(p \<mapsto> b)) (stat_slot h) \<lparr>md_handle = h, md_allocated = md_allocated (mem_stats st ! stat_slot h) + of_nat (length b)\<rparr>"
    using sl [OF slot_less, of h] assms(3,6) fin new(1) by (simp add: slot_inv_def weight_add)
  then have sl': "slot_inv H ((heap st)(p \<mapsto> b)) i
      ((mem_stats st)[stat_slot h := \<lparr>md_handle = h, md_allocated = md_allocated (mem_stats st ! stat_slot h) + of_nat (length b)\<rparr>] ! i)"
    if "i < SLOT_SIZE" for i
    using that sl [OF that] assms(6) fin new(1) len by (cases "i = stat_slot h") (simp_all add: slot_inv_other)
  have up: "update_xmalloc_stat_alloc h (length b) (st\<lparr>heap := (heap st)(p \<mapsto> b)\<rparr>) =
      st\<lparr>heap := (heap st)(p \<mapsto> b), used_memory := used_memory st + of_nat (length b), memory_block := memory_block st + 1,
        mem_stats := (mem_stats st)[stat_slot h := \<lparr>md_handle = h, md_allocated = md_allocated (mem_stats st ! stat_slot h) + of_nat (length b)\<rparr>]\<rparr>"
    using len by (simp add: update_xmalloc_stat_alloc_def f)
  have own: "\<forall>x\<in>ran ((heap st)(p \<mapsto> b)). 4 \<le> length x \<and> get_handle x \<in> H"
    using assms(1,3,6,7) new(1) by (auto simp: mem_inv_def)
  show ?thesis
    unfolding up mem_inv_def using assms fin new len sl' own
    by (simp add: mem_inv_def weight_add live_def)
qed

lemma mem_inv_remove:
  assumes "mem_inv H st" "inj_on stat_slot H" "heap st p = Some b"
  shows "mem_inv H (update_xmalloc_stat_free (get_handle b) (length b) (st\<lparr>heap := (heap st)(p := None)\<rparr>))"
proof -
  let ?h = "get_handle b" and ?bl = "(heap st)(p := None)"
  have fin: "finite (dom (heap st))" and h: "?h \<in> H"
    and len: "length (mem_stats st) = SLOT_SIZE"
    and sl: "\<And>i. i < SLOT_SIZE \<Longrightarrow> slot_inv H (heap st) i (mem_stats st ! i)" and t: "total (heap st) < 2 ^ 63"
    using assms(1,3) by (auto simp: mem_inv_def live_def ran_def)
  note f = field_own [OF assms(2) h sl [OF slot_less] t len]
  note w = weight_remove [OF fin assms(3)]
  have "slot_inv H ?bl (stat_slot ?h) \<lparr>md_handle = ?h, md_allocated = md_allocated (mem_stats st ! stat_slot ?h) - of_nat (length b)\<rparr>"
    using sl [OF slot_less, of ?h] h by (simp add: slot_inv_def w)
  then have "slot_inv H ?bl i
      ((mem_stats st)[stat_slot ?h := \<lparr>md_handle = ?h, md_allocated = md_allocated (mem_stats st ! stat_slot ?h) - of_nat (length b)\<rparr>] ! i)"
    if "i < SLOT_SIZE" for i
    using that sl [OF that] len by (cases "i = stat_slot ?h") (simp_all add: slot_inv_def w)
  moreover have "card (dom (heap st)) = Suc (card (dom ?bl))"
    using fin assms(3) card.remove [of "dom (heap st)" p] by (simp add: domI)
  moreover have "update_xmalloc_stat_free ?h (length b) (st\<lparr>heap := ?bl\<rparr>) =
      st\<lparr>heap := ?bl, used_memory := used_memory st - of_nat (length b), memory_block := memory_block st - 1,
        mem_stats := (mem_stats st)[stat_slot ?h := \<lparr>md_handle = ?h, md_allocated = md_allocated (mem_stats st ! stat_slot ?h) - of_nat (length b)\<rparr>]\<rparr>"
    using len by (simp add: update_xmalloc_stat_free_def f)
  ultimately show ?thesis
    using assms fin len w [of "\<lambda>_. True"]
    by (auto simp: mem_inv_def live_def ran_def)
qed


section \<open>The functions keep the counters exact\<close>

text \<open>
  What the allocator documents: a block is new, not null and as long as asked for; a moved block keeps its
  contents; a cleared block is zero. Memory is finite: the live blocks never make up half the address space.
\<close>

definition je_ok :: "je \<Rightarrow> bool" where
  "je_ok j \<longleftrightarrow>
     (\<forall>bl n p b. je_malloc j bl n = Some (p, b) \<longrightarrow>
        p \<noteq> 0 \<and> p \<notin> dom bl \<and> unat n \<le> length b \<and> total bl + length b < 2 ^ 63)
   \<and> (\<forall>bl q n p b. je_realloc j bl q n = Some (p, b) \<longrightarrow>
        p \<noteq> 0 \<and> p \<notin> dom (bl(q := None)) \<and> unat n \<le> length b \<and> total (bl(q := None)) + length b < 2 ^ 63
        \<and> (\<forall>a. bl q = Some a \<longrightarrow> take (min (length a) (unat n)) b = take (min (length a) (unat n)) a))
   \<and> (\<forall>bl m n p b. je_calloc j bl m n = Some (p, b) \<longrightarrow>
        p \<noteq> 0 \<and> p \<notin> dom bl \<and> unat m * unat n \<le> length b \<and> total bl + length b < 2 ^ 63
        \<and> take (unat m * unat n) b = replicate (unat m * unat n) 0)"

lemma fill_inv:
  assumes "mem_inv H st" "inj_on stat_slot H" "h \<in> H" "p \<notin> dom (live st)" "p \<noteq> 0" "total (live st) + length b < 2 ^ 63"
    "fill_prefix h p (st\<lparr>heap := (heap st)(p \<mapsto> b)\<rparr>) = Some (q, st')"
  shows "mem_inv H st' \<and> q = p \<and> heap st' = (heap st)(p \<mapsto> put_handle h b) \<and> 4 \<le> length b"
proof -
  have b: "4 \<le> length b" and st': "q = p"
      "st' = update_xmalloc_stat_alloc h (length (put_handle h b)) (st\<lparr>heap := (heap st)(p \<mapsto> put_handle h b)\<rparr>)"
    using assms(7) by (auto simp: fill_prefix_def)
  have "total (heap st) \<le> total (live st)"
    unfolding live_def using assms(1) by (intro total_map_add) (auto simp: mem_inv_def)
  then have "mem_inv H st'"
    unfolding st' using assms b by (intro mem_inv_add) auto
  then show ?thesis using st' b by (simp add: update_xmalloc_stat_alloc_def case_prod_beta)
qed

lemma malloc_inv:
  assumes "je_ok j" "mem_inv H st" "inj_on stat_slot H" "h \<in> H" "skynet_malloc j h n st = Some (p, st')"
  shows "mem_inv H st' \<and> p \<notin> dom (live st) \<and> (\<exists>b. unat (n + PREFIX_SIZE) \<le> length b \<and> 4 \<le> length b
    \<and> heap st' = (heap st)(p \<mapsto> put_handle h b))"
proof -
  obtain q b where j: "je_malloc j (live st) (n + PREFIX_SIZE) = Some (q, b)"
    and f: "fill_prefix h q (st\<lparr>heap := (heap st)(q \<mapsto> b)\<rparr>) = Some (p, st')"
    using assms(5) by (auto simp: skynet_malloc_def)
  have k: "q \<noteq> 0 \<and> q \<notin> dom (live st) \<and> unat (n + PREFIX_SIZE) \<le> length b \<and> total (live st) + length b < 2 ^ 63"
    using assms(1) j by (auto simp: je_ok_def)
  then have "mem_inv H st' \<and> p = q \<and> heap st' = (heap st)(q \<mapsto> put_handle h b) \<and> 4 \<le> length b"
    by (intro fill_inv [OF assms(2-4) _ _ _ f]) auto
  with k show ?thesis by auto
qed

lemma free_heap [simp]:
  "heap (update_xmalloc_stat_free h n st) = heap st" "lua_heap (update_xmalloc_stat_free h n st) = lua_heap st"
  "(update_xmalloc_stat_free h n st)\<lparr>heap := bl\<rparr> = update_xmalloc_stat_free h n (st\<lparr>heap := bl\<rparr>)"
  by (simp_all add: update_xmalloc_stat_free_def case_prod_beta)

lemma free_inv:
  assumes "mem_inv H st" "inj_on stat_slot H" "skynet_free p st = Some st'"
  shows "mem_inv H st' \<and> heap st' = (heap st)(p := None)"
proof (cases "p = 0")
  case True
  with assms show ?thesis by (auto simp: skynet_free_def mem_inv_def live_def fun_upd_idem_iff)
next
  case False
  then obtain b where b: "heap st p = Some b"
    and st': "st' = update_xmalloc_stat_free (get_handle b) (length b) (st\<lparr>heap := (heap st)(p := None)\<rparr>)"
    using assms(3) by (auto simp: skynet_free_def clean_prefix_def)
  show ?thesis unfolding st' using mem_inv_remove [OF assms(1,2) b] by simp
qed


lemma live_remove: "q \<notin> dom (lua_heap st) \<Longrightarrow> (live st)(q := None) = live (st\<lparr>heap := (heap st)(q := None)\<rparr>)"
  by (auto simp: live_def map_add_def fun_eq_iff split: option.splits)

lemma realloc_inv:
  assumes "je_ok j" "mem_inv H st" "inj_on stat_slot H" "h \<in> H" "q \<noteq> 0" "skynet_realloc j h q n st = Some (p, st')"
  shows "mem_inv H st' \<and> (\<exists>a b. heap st q = Some a \<and> heap st' = (heap st)(q := None, p \<mapsto> put_handle h b)
    \<and> unat (n + PREFIX_SIZE) \<le> length b \<and> 4 \<le> length b
    \<and> take (min (length a) (unat (n + PREFIX_SIZE))) b = take (min (length a) (unat (n + PREFIX_SIZE))) a)"
proof -
  obtain a where a: "heap st q = Some a" using assms(5,6) by (auto simp: skynet_realloc_def clean_prefix_def)
  define st2 where "st2 = update_xmalloc_stat_free (get_handle a) (length a) (st\<lparr>heap := (heap st)(q := None)\<rparr>)"
  have inv2: "mem_inv H st2" unfolding st2_def by (rule mem_inv_remove [OF assms(2,3) a])
  have "q \<notin> dom (lua_heap st)" using assms(2) a by (auto simp: mem_inv_def)
  then have l: "live st2 = (live st)(q := None)"
    and lq: "live st q = Some a" using a by (auto simp: live_remove st2_def) (auto simp: live_def map_add_def split: option.splits)
  obtain r b where j: "je_realloc j (live st) q (n + PREFIX_SIZE) = Some (r, b)"
    and f: "fill_prefix h r (st2\<lparr>heap := (heap st2)(r \<mapsto> b)\<rparr>) = Some (p, st')"
    using assms(5,6) a by (auto simp: skynet_realloc_def clean_prefix_def live_def st2_def)
  have k: "r \<noteq> 0" "r \<notin> dom (live st2)" "unat (n + PREFIX_SIZE) \<le> length b" "total (live st2) + length b < 2 ^ 63"
    "take (min (length a) (unat (n + PREFIX_SIZE))) b = take (min (length a) (unat (n + PREFIX_SIZE))) a"
    using assms(1) j lq unfolding je_ok_def l by blast+
  have "mem_inv H st' \<and> p = r \<and> heap st' = (heap st2)(r \<mapsto> put_handle h b) \<and> 4 \<le> length b"
    using k by (intro fill_inv [OF inv2 assms(3,4) _ _ _ f]) auto
  then show ?thesis using a k by (auto simp: st2_def)
qed

lemma calloc_inv:
  assumes "je_ok j" "mem_inv H st" "inj_on stat_slot H" "h \<in> H" "skynet_calloc j h m n st = Some (p, st')"
  shows "mem_inv H st' \<and> n \<noteq> 0 \<and> (\<exists>b k. k = unat (m + (PREFIX_SIZE + n - 1) div n) * unat n
    \<and> heap st' = (heap st)(p \<mapsto> put_handle h b) \<and> k \<le> length b \<and> take k b = replicate k 0)"
proof -
  obtain q b where j: "je_calloc j (live st) (m + (PREFIX_SIZE + n - 1) div n) n = Some (q, b)"
    and f: "fill_prefix h q (st\<lparr>heap := (heap st)(q \<mapsto> b)\<rparr>) = Some (p, st')" and n: "n \<noteq> 0"
    using assms(5) by (auto simp: skynet_calloc_def)
  let ?k = "unat (m + (PREFIX_SIZE + n - 1) div n) * unat n"
  have k: "q \<noteq> 0" "q \<notin> dom (live st)" "?k \<le> length b" "total (live st) + length b < 2 ^ 63" "take ?k b = replicate ?k 0"
    using assms(1) j unfolding je_ok_def by blast+
  then have "mem_inv H st' \<and> p = q \<and> heap st' = (heap st)(q \<mapsto> put_handle h b) \<and> 4 \<le> length b"
    by (intro fill_inv [OF assms(2-4) _ _ _ f]) auto
  with n k show ?thesis by auto
qed

lemma write_inv:
  assumes "mem_inv H st" "mem_write p off bs st = Some st'"
  shows "mem_inv H st'"
proof -
  obtain b where b: "heap st p = Some b" "off + length bs + 4 \<le> length b"
    and st': "st' = st\<lparr>heap := (heap st)(p \<mapsto> take off b @ bs @ drop (off + length bs) b)\<rparr>"
    using assms(2) by (auto simp: mem_write_def)
  let ?b = "take off b @ bs @ drop (off + length bs) b"
  have w: "weight P ((heap st)(p \<mapsto> ?b)) = weight P (heap st)" for P
    using assms(1) b by (intro weight_upd) (auto simp: mem_inv_def)
  have own: "\<forall>x\<in>ran ((heap st)(p \<mapsto> ?b)). 4 \<le> length x \<and> get_handle x \<in> H"
    using assms(1) b by (auto simp: mem_inv_def ran_def split: if_splits)
  have d: "dom ((heap st)(p \<mapsto> ?b)) = dom (heap st)" using b(1) by auto
  then have "dom (live st') = dom (live st)" by (simp add: live_def st')
  then show ?thesis
    using assms(1) own d unfolding mem_inv_def slot_inv_def by (simp add: w st')
qed

lemma strdup_inv:
  assumes "je_ok j" "mem_inv H st" "inj_on stat_slot H" "h \<in> H" "skynet_strdup j h str st = Some (p, st')"
  shows "mem_inv H st'"
  using assms malloc_inv [OF assms(1-4)] write_inv by (fastforce simp: skynet_strdup_def)

lemma mem_inv_lua:
  "mem_inv H st \<Longrightarrow> finite (dom bl) \<Longrightarrow> dom (heap st) \<inter> dom bl = {} \<Longrightarrow> bl 0 = None \<Longrightarrow> mem_inv H (st\<lparr>lua_heap := bl\<rparr>)"
  unfolding mem_inv_def live_def by (simp add: domIff)

lemma lalloc_inv:
  assumes "je_ok j" "mem_inv H st" "p = 0 \<or> p \<in> dom (lua_heap st)"
  shows "mem_inv H (snd (skynet_lalloc j p n st))"
proof (cases "n = 0 \<or> je_realloc j (live st) p n = None")
  case True
  then have "snd (skynet_lalloc j p n st) = st \<or> snd (skynet_lalloc j p n st) = st\<lparr>lua_heap := (lua_heap st)(p := None)\<rparr>"
    by (auto simp: skynet_lalloc_def)
  moreover have "mem_inv H (st\<lparr>lua_heap := (lua_heap st)(p := None)\<rparr>)"
    using assms(2) by (intro mem_inv_lua) (auto simp: mem_inv_def live_def)
  ultimately show ?thesis using assms(2) by auto
next
  case False
  then obtain q b where j: "je_realloc j (live st) p n = Some (q, b)" and "n \<noteq> 0" by auto
  then have "q \<noteq> 0" "q \<notin> dom ((live st)(p := None))" using assms(1) unfolding je_ok_def by blast+
  moreover have "p \<notin> dom (heap st)" using assms(2,3) by (auto simp: mem_inv_def live_def)
  ultimately have "q \<noteq> 0" "q \<notin> dom (heap st)" by (auto simp: live_def split: if_splits)
  then have "mem_inv H (st\<lparr>lua_heap := (lua_heap st)(p := None, q \<mapsto> b)\<rparr>)"
    using assms(2) by (intro mem_inv_lua) (auto simp: mem_inv_def live_def)
  then show ?thesis using j \<open>n \<noteq> 0\<close> by (simp add: skynet_lalloc_def)
qed


text \<open>The room for the program in front of the handle: as much as it asked for, when the sum does not wrap around.\<close>

lemma malloc_room:
  assumes "je_ok j" "mem_inv H st" "inj_on stat_slot H" "h \<in> H" "skynet_malloc j h n st = Some (p, st')" "unat n + 4 < 2 ^ 64"
  shows "\<exists>b. heap st' = (heap st)(p \<mapsto> b) \<and> unat n + 4 \<le> length b \<and> p \<notin> dom (live st) \<and> mem_inv H st'"
proof -
  have "unat (n + PREFIX_SIZE) = unat n + 4"
    using assms(6) by (subst unat_add_lem [THEN iffD1]) (simp_all add: PREFIX_SIZE_def)
  with malloc_inv [OF assms(1-5)] show ?thesis by fastforce
qed

lemma calloc_zero:
  assumes "je_ok j" "mem_inv H st" "inj_on stat_slot H" "h \<in> H" "skynet_calloc j h m n st = Some (p, st')"
    and no_wrap: "unat n + 3 < 2 ^ 64" "unat m + (unat n + 3) div unat n < 2 ^ 64"
  shows "\<exists>b. heap st' = (heap st)(p \<mapsto> b) \<and> unat m * unat n + 4 \<le> length b
    \<and> take (unat m * unat n) b = replicate (unat m * unat n) 0"
proof -
  obtain b k where n: "n \<noteq> 0" and k: "k = unat (m + (PREFIX_SIZE + n - 1) div n) * unat n"
    and b: "heap st' = (heap st)(p \<mapsto> put_handle h b)" "k \<le> length b" "take k b = replicate k 0"
    using calloc_inv [OF assms(1-5)] by blast
  have e: "PREFIX_SIZE + n - 1 = n + 3" by (simp add: PREFIX_SIZE_def)
  have "unat (n + 3) = unat n + 3"
    using no_wrap(1) by (subst unat_add_lem [THEN iffD1]) simp_all
  then have "unat ((PREFIX_SIZE + n - 1) div n) = (unat n + 3) div unat n" unfolding e by (simp add: unat_div)
  then have "unat (m + (PREFIX_SIZE + n - 1) div n) = unat m + (unat n + 3) div unat n"
    using no_wrap(2) by (subst unat_add_lem [THEN iffD1]) simp_all
  moreover have "4 \<le> (unat n + 3) div unat n * unat n"
  proof -
    have "0 < unat n" using n by (simp add: unat_gt_0)
    then show ?thesis using mod_less_divisor [of "unat n" "unat n + 3"] div_mult_mod_eq [of "unat n + 3" "unat n"] by linarith
  qed
  ultimately have "unat m * unat n + 4 \<le> k" unfolding k by (simp add: distrib_right)
  moreover from this b(3) have "take (unat m * unat n) b = replicate (unat m * unat n) 0"
    by (metis add_leD1 min.absorb1 take_replicate take_take)
  ultimately show ?thesis
    using b by (intro exI [of _ "put_handle h b"]) (auto simp: put_handle_def min_def)
qed

section \<open>The accounting\<close>

text \<open>One call: an allocation for a service of \<open>H\<close>, a release, a write inside a block, a call of a Lua state.\<close>

inductive mem_step :: "je \<Rightarrow> u32 set \<Rightarrow> mem \<Rightarrow> mem \<Rightarrow> bool" for j :: je and H :: "u32 set" where
  step_malloc: "h \<in> H \<Longrightarrow> skynet_malloc j h n st = Some (p, st') \<Longrightarrow> mem_step j H st st'"
| step_realloc: "h \<in> H \<Longrightarrow> skynet_realloc j h q n st = Some (p, st') \<Longrightarrow> mem_step j H st st'"
| step_calloc: "h \<in> H \<Longrightarrow> skynet_calloc j h m n st = Some (p, st') \<Longrightarrow> mem_step j H st st'"
| step_strdup: "h \<in> H \<Longrightarrow> skynet_strdup j h str st = Some (p, st') \<Longrightarrow> mem_step j H st st'"
| step_free: "skynet_free q st = Some st' \<Longrightarrow> mem_step j H st st'"
| step_write: "mem_write q off bs st = Some st' \<Longrightarrow> mem_step j H st st'"
| step_lalloc: "q = 0 \<or> q \<in> dom (lua_heap st) \<Longrightarrow> skynet_lalloc j q n st = (p, st') \<Longrightarrow> mem_step j H st st'"

definition accountable :: "je \<Rightarrow> u32 set \<Rightarrow> mem \<Rightarrow> bool" where
  "accountable j H st \<longleftrightarrow> (je_ok j \<and> inj_on stat_slot H \<longrightarrow> mem_inv H st)"

lemma mem_init_inv: "mem_inv H mem_init"
  by (simp add: mem_inv_def mem_init_def live_def slot_inv_def)

lemma mem_step_inv:
  assumes "je_ok j" "inj_on stat_slot H" "mem_inv H st" "mem_step j H st st'"
  shows "mem_inv H st'"
  using assms(4)
proof cases
  case (step_malloc h n p) with malloc_inv assms(1-3) show ?thesis by blast
next
  case (step_realloc h q n p)
  show ?thesis
  proof (cases "q = 0")
    case True
    with step_realloc malloc_inv [OF assms(1,3,2)] show ?thesis by (simp add: skynet_realloc_def)
  next
    case False
    with step_realloc realloc_inv [OF assms(1,3,2)] show ?thesis by blast
  qed
next
  case (step_calloc h m n p) with calloc_inv assms(1-3) show ?thesis by blast
next
  case (step_strdup h str p) with strdup_inv assms(1-3) show ?thesis by blast
next
  case (step_free q) with free_inv assms(2,3) show ?thesis by blast
next
  case (step_write q off bs) with write_inv assms(3) show ?thesis by blast
next
  case (step_lalloc q n p)
  with lalloc_inv [OF assms(1,3), of q n] show ?thesis by simp
qed

interpretation mem_sys: inductive_invariant "\<lambda>st. st = mem_init" "mem_step j H" "accountable j H"
  by unfold_locales (auto simp: accountable_def mem_init_inv intro: mem_step_inv)

lemma weight_own:
  assumes "mem_inv H st" "inj_on stat_slot H" "h \<in> H"
  shows "weight (\<lambda>x. stat_slot x = stat_slot h) (heap st) = weight (\<lambda>x. x = h) (heap st)"
proof -
  have "get_handle (the (heap st p)) \<in> H" if "p \<in> dom (heap st)" for p
    using assms(1) that by (auto simp: mem_inv_def ran_def)
  then have "stat_slot (get_handle (the (heap st p))) = stat_slot h \<longleftrightarrow> get_handle (the (heap st p)) = h" if "p \<in> dom (heap st)" for p
    using assms(2,3) that by (auto dest: inj_onD)
  then show ?thesis unfolding weight_def by (intro sum.cong) auto
qed

lemma current_memory:
  assumes "mem_inv H st" "inj_on stat_slot H" "h \<in> H"
  shows "malloc_current_memory h st = of_nat (weight (\<lambda>x. x = h) (heap st))"
proof -
  let ?P = "\<lambda>d. md_handle d = h \<and> md_allocated d \<noteq> 0"
  have sl: "slot_inv H (heap st) i (mem_stats st ! i)" if "i < length (mem_stats st)" for i
    using assms(1) that by (simp add: mem_inv_def)
  have len: "stat_slot h < length (mem_stats st)" using assms(1) by (simp add: mem_inv_def)
  have own: "md_allocated (mem_stats st ! stat_slot h) = of_nat (weight (\<lambda>x. x = h) (heap st))"
    using sl [OF len] by (simp add: slot_inv_def weight_own [OF assms])
  show ?thesis
  proof (cases "List.find ?P (mem_stats st)")
    case None
    then have "\<not> ?P (mem_stats st ! stat_slot h)" using len by (auto simp: find_None_iff)
    with sl [OF len] assms(2,3) have "md_allocated (mem_stats st ! stat_slot h) = 0"
      by (auto simp: slot_inv_def dest: inj_onD)
    with None own show ?thesis by (simp add: malloc_current_memory_def)
  next
    case (Some d)
    then obtain i where i: "i < length (mem_stats st)" "?P (mem_stats st ! i)" "d = mem_stats st ! i"
      by (auto simp: find_Some_iff)
    with sl [OF i(1)] have "i = stat_slot h" by (simp add: slot_inv_def)
    with Some i own show ?thesis by (simp add: malloc_current_memory_def)
  qed
qed

lemma card_le_total:
  assumes "mem_inv H st" shows "card (dom (heap st)) \<le> total (heap st)"
proof -
  have "1 \<le> length (the (heap st p))" if "p \<in> dom (heap st)" for p
    using assms that by (force simp: mem_inv_def ran_def)
  then have "(\<Sum>p\<in>dom (heap st). 1) \<le> total (heap st)" unfolding weight_def by (intro sum_mono) simp
  then show ?thesis by simp
qed

text \<open>C34. The memory reports are exact. While the services that allocate have handles in different slots, after any
  sequence of allocations, resizings, releases, writes inside the blocks and calls of the Lua allocator: the
  used memory is the sum of the sizes of the live blocks, the number of blocks is their number, and the memory of
  a service the sum over the blocks that carry its handle.
\<close>

theorem memory_accounting:
  assumes "je_ok j" "inj_on stat_slot H" "reach (\<lambda>st. st = mem_init) (mem_step j H) st"
  shows "unat (malloc_used_memory st) = total (heap st)
    \<and> unat (malloc_memory_block st) = card (dom (heap st))
    \<and> (\<forall>h\<in>H. unat (malloc_current_memory h st) = weight (\<lambda>x. x = h) (heap st))"
proof -
  have inv: "mem_inv H st" using mem_sys.reach_inv [OF assms(3)] assms(1,2) by (simp add: accountable_def)
  then have t: "total (heap st) < 2 ^ 64" by (simp add: mem_inv_def)
  have u: "unat (of_nat n :: u64) = n" if "n \<le> total (heap st)" for n
    using that t by (simp add: unat_of_nat)
  show ?thesis
    using inv u [OF weight_le] u [OF card_le_total [OF inv]] u [of "total (heap st)"] current_memory [OF inv assms(2)]
    by (simp add: malloc_used_memory_def malloc_memory_block_def mem_inv_def)
qed

text \<open>An allocator with room for one block of sixteen bytes.\<close>

definition je_one :: je where
  "je_one = \<lparr>je_malloc = (\<lambda>bl n. if bl = Map.empty \<and> n \<le> 16 then Some (8, replicate 16 0) else None),
     je_realloc = (\<lambda>bl q n. None), je_calloc = (\<lambda>bl m n. None)\<rparr>"

lemma je_one_ok: "je_ok je_one"
  by (auto simp: je_ok_def je_one_def word_le_nat_alt split: if_splits)

lemma malloc_one:
  "\<exists>st. skynet_malloc je_one 5 10 mem_init = Some (8, st) \<and> heap st = [8 \<mapsto> put_handle 5 (replicate 16 0)]"
  by (simp add: skynet_malloc_def je_one_def fill_prefix_def live_def mem_init_def PREFIX_SIZE_def
      update_xmalloc_stat_alloc_def case_prod_beta)

lemma memory_accounting_witness:
  "\<exists>st. heap st = [8 \<mapsto> put_handle 5 (replicate 16 0)] \<and> unat (malloc_used_memory st) = 16
     \<and> unat (malloc_memory_block st) = 1 \<and> unat (malloc_current_memory 5 st) = 16"
proof -
  obtain st where st: "skynet_malloc je_one 5 10 mem_init = Some (8, st)" "heap st = [8 \<mapsto> put_handle 5 (replicate 16 0)]"
    using malloc_one by blast
  have "reach (\<lambda>st. st = mem_init) (mem_step je_one {5}) mem_init" by (rule reach_init) simp
  then have "reach (\<lambda>st. st = mem_init) (mem_step je_one {5}) st"
    by (rule reach_step) (rule step_malloc [OF _ st(1)], simp)
  from memory_accounting [OF je_one_ok _ this] st(2) show ?thesis
    by (intro exI [of _ st]) (simp add: weight_def)
qed

end
