(* ===== verification/Cluster_Core.thy ===== *)
theory Cluster_Core
  imports Malloc_Hook
begin

unbundle bit_operations_syntax

text \<open>
  \<open>lualib-src/lua-cluster.c\<close>: the requests and responses between nodes of a cluster. A message that does not fit
  one package is announced by its size and sent in parts of \<open>MULTI_PART\<close> bytes. The packages are assembled in
  an array on the stack, which the model takes with arbitrary contents; a write or read outside an array, a block
  or a string is \<open>None\<close>, and so is a failing \<open>assert\<close>. An error raised with \<open>luaL_error\<close> is a value \<open>Inl\<close>.
  The message is a block of \<open>Malloc_Hook\<close>, which the packing of a request frees.
\<close>

section \<open>Values and errors\<close>

datatype lua_val = V_nil | V_boolean bool | V_integer u64 | V_string bytes

datatype cluster_error =
    Invalid_request_message
  | Invalid_request_session int
  | Name_too_long
  | Invalid_cluster_message int
  | Invalid_multi_part
  | Invalid_package_type u8

text \<open>The address of a request: a number, read as \<open>lua_tointeger\<close> gives it, a string, or something else.\<close>

datatype cluster_addr = Addr_number u64 | Addr_string bytes | Addr_other

definition TEMP_LENGTH :: nat where "TEMP_LENGTH = 0x8200"
definition MULTI_PART :: nat where "MULTI_PART = 0x8000"

section \<open>Writing a package\<close>

definition poke :: "nat \<Rightarrow> bytes \<Rightarrow> bytes \<Rightarrow> bytes option" where
  "poke off bs buf = (if off + length bs \<le> length buf then Some (take off buf @ bs @ drop (off + length bs) buf) else None)"

definition fill_uint32 :: "nat \<Rightarrow> u32 \<Rightarrow> bytes \<Rightarrow> bytes option" where
  "fill_uint32 off n = poke off
     [ucast (n AND 0xff), ucast (drop_bit 8 n AND 0xff), ucast (drop_bit 16 n AND 0xff), ucast (drop_bit 24 n AND 0xff)]"

definition fill_header :: "u32 \<Rightarrow> bytes \<Rightarrow> bytes option" where
  "fill_header sz0 buf = do {
     assert_opt (sint sz0 < 0x10000);
     poke 0 [ucast (drop_bit 8 sz0 AND 0xff), ucast (sz0 AND 0xff)] buf
   }"

text \<open>\<open>lua_pushlstring\<close> of the first bytes of the array.\<close>

definition lstring :: "bytes \<Rightarrow> nat \<Rightarrow> bytes option" where
  "lstring buf n = (if n \<le> length buf then Some (take n buf) else None)"

definition parts :: "u32 \<Rightarrow> nat" where
  "parts sz0 = unat (sz0 - 1) div MULTI_PART + 1"

text \<open>The packages of a request, and how many parts follow (none for a message in one package).\<close>

definition packreq_number :: "bytes \<Rightarrow> u64 \<Rightarrow> u32 \<Rightarrow> nat \<Rightarrow> u32 \<Rightarrow> mem \<Rightarrow> (bytes \<times> nat) option" where
  "packreq_number buf n sess msg sz0 st =
     (let addr = ucast n :: u32 in
      if unat sz0 < MULTI_PART then do {
        buf \<leftarrow> fill_header (sz0 + 9) buf;
        buf \<leftarrow> poke 2 [0] buf;
        buf \<leftarrow> fill_uint32 3 addr buf;
        buf \<leftarrow> fill_uint32 7 sess buf;
        bs \<leftarrow> mem_read msg 0 (unat sz0) st;
        buf \<leftarrow> poke 11 bs buf;
        str \<leftarrow> lstring buf (unat sz0 + 11);
        Some (str, 0)
      } else do {
        buf \<leftarrow> fill_header 13 buf;
        buf \<leftarrow> poke 2 [1] buf;
        buf \<leftarrow> fill_uint32 3 addr buf;
        buf \<leftarrow> fill_uint32 7 sess buf;
        buf \<leftarrow> fill_uint32 11 sz0 buf;
        str \<leftarrow> lstring buf 15;
        Some (str, parts sz0)
      })"

definition packreq_string ::
  "bytes \<Rightarrow> cluster_addr \<Rightarrow> u32 \<Rightarrow> nat \<Rightarrow> u32 \<Rightarrow> mem \<Rightarrow> ((cluster_error + bytes \<times> nat) \<times> mem) option" where
  "packreq_string buf a sess msg sz0 st =
     (let nm = (case a of Addr_string s \<Rightarrow> s | _ \<Rightarrow> []); namelen = length nm in
      if namelen < 1 \<or> namelen > 255 then do {
        st \<leftarrow> skynet_free msg st;
        Some (Inl Name_too_long, st)
      } else if unat sz0 < MULTI_PART then do {
        buf \<leftarrow> fill_header (sz0 + 6 + of_nat namelen) buf;
        buf \<leftarrow> poke 2 [0x80] buf;
        buf \<leftarrow> poke 3 [of_nat namelen] buf;
        buf \<leftarrow> poke 4 nm buf;
        buf \<leftarrow> fill_uint32 (4 + namelen) sess buf;
        bs \<leftarrow> mem_read msg 0 (unat sz0) st;
        buf \<leftarrow> poke (8 + namelen) bs buf;
        str \<leftarrow> lstring buf (unat sz0 + 8 + namelen);
        Some (Inr (str, 0), st)
      } else do {
        buf \<leftarrow> fill_header (10 + of_nat namelen) buf;
        buf \<leftarrow> poke 2 [0x81] buf;
        buf \<leftarrow> poke 3 [of_nat namelen] buf;
        buf \<leftarrow> poke 4 nm buf;
        buf \<leftarrow> fill_uint32 (4 + namelen) sess buf;
        buf \<leftarrow> fill_uint32 (8 + namelen) sz0 buf;
        str \<leftarrow> lstring buf (12 + namelen);
        Some (Inr (str, parts sz0), st)
      })"

fun packreq_loop :: "nat \<Rightarrow> bytes \<Rightarrow> u32 \<Rightarrow> nat \<Rightarrow> nat \<Rightarrow> u32 \<Rightarrow> mem \<Rightarrow> bytes list option" where
  "packreq_loop 0 buf sess msg ptr sz0 st = Some []"
| "packreq_loop (Suc k) buf sess msg ptr sz0 st = do {
     let (s, ty) = (if unat sz0 > MULTI_PART then (of_nat MULTI_PART, 2) else (sz0, 3 :: u8));
     buf \<leftarrow> poke 2 [ty] buf;
     buf \<leftarrow> fill_header (s + 5) buf;
     buf \<leftarrow> fill_uint32 3 sess buf;
     bs \<leftarrow> mem_read msg ptr (unat s) st;
     buf \<leftarrow> poke 7 bs buf;
     str \<leftarrow> lstring buf (unat s + 7);
     rest \<leftarrow> packreq_loop k buf sess msg (ptr + unat s) (sz0 - s) st;
     Some (str # rest)
   }"

definition packreq_multi :: "bytes \<Rightarrow> u32 \<Rightarrow> nat \<Rightarrow> u32 \<Rightarrow> mem \<Rightarrow> bytes list option" where
  "packreq_multi buf sess msg sz0 st = packreq_loop (parts sz0) buf sess msg 0 sz0 st"

text \<open>The request, the next session and the table of parts, if there is one.\<close>

definition lpackrequest ::
  "bytes \<Rightarrow> bytes \<Rightarrow> cluster_addr \<Rightarrow> u64 \<Rightarrow> nat \<Rightarrow> u64 \<Rightarrow> mem
     \<Rightarrow> ((cluster_error + bytes \<times> u32 \<times> bytes list option) \<times> mem) option" where
  "lpackrequest buf buf2 a n msg m st =
     (if msg = 0 then Some (Inl Invalid_request_message, st)
      else let sz0 = ucast m :: u32; sess = ucast n :: u32 in
      if sint sess \<le> 0 then do {
        st \<leftarrow> skynet_free msg st;
        Some (Inl (Invalid_request_session (sint sess)), st)
      } else do {
        (r, st) \<leftarrow> (case a of
            Addr_number x \<Rightarrow> map_option (\<lambda>r. (Inr r, st)) (packreq_number buf x sess msg sz0 st)
          | _ \<Rightarrow> packreq_string buf a sess msg sz0 st);
        case r of Inl e \<Rightarrow> Some (Inl e, st)
        | Inr (req, multipak) \<Rightarrow> do {
            let nxt = (if sint (sess + 1) < 0 then 1 else sess + 1);
            if multipak \<noteq> 0 then do {
              ps \<leftarrow> packreq_multi buf2 sess msg sz0 st;
              st \<leftarrow> skynet_free msg st;
              Some (Inr (req, nxt, Some ps), st)
            } else do {
              st \<leftarrow> skynet_free msg st;
              Some (Inr (req, nxt, None), st)
            }
          }
      })"

section \<open>Reading a package\<close>

definition unpack_uint32 :: "bytes \<Rightarrow> nat \<Rightarrow> u32 option" where
  "unpack_uint32 buf i = do {
     assert_opt (i + 3 < length buf);
     Some (le32 buf i)
   }"

text \<open>\<open>lua_pushlstring\<close> of a part of the string.\<close>

definition substring :: "bytes \<Rightarrow> nat \<Rightarrow> nat \<Rightarrow> bytes option" where
  "substring buf i n = (if i + n \<le> length buf then Some (take n (drop i buf)) else None)"

abbreviation push_u32 :: "u32 \<Rightarrow> lua_val" where "push_u32 w \<equiv> V_integer (ucast w)"

definition unpackreq_number :: "bytes \<Rightarrow> int \<Rightarrow> (cluster_error + lua_val list) option" where
  "unpackreq_number buf sz0 =
     (if sz0 < 9 then Some (Inl (Invalid_cluster_message sz0))
      else do {
        address \<leftarrow> unpack_uint32 buf 1;
        sess \<leftarrow> unpack_uint32 buf 5;
        str \<leftarrow> substring buf 9 (nat (sz0 - 9));
        Some (Inr [push_u32 address, push_u32 sess, V_string str])
      })"

definition unpackmreq_number :: "bytes \<Rightarrow> int \<Rightarrow> (cluster_error + lua_val list) option" where
  "unpackmreq_number buf sz0 =
     (if sz0 \<noteq> 13 then Some (Inl (Invalid_cluster_message sz0))
      else do {
        address \<leftarrow> unpack_uint32 buf 1;
        sess \<leftarrow> unpack_uint32 buf 5;
        total_size \<leftarrow> unpack_uint32 buf 9;
        Some (Inr [push_u32 address, push_u32 sess, push_u32 total_size, V_boolean True])
      })"

definition unpackmreq_part :: "bytes \<Rightarrow> int \<Rightarrow> (cluster_error + lua_val list) option" where
  "unpackmreq_part buf sz0 =
     (if sz0 < 5 then Some (Inl Invalid_multi_part)
      else do {
        ty \<leftarrow> nth_opt buf 0;
        sess \<leftarrow> unpack_uint32 buf 1;
        str \<leftarrow> substring buf 5 (nat (sz0 - 5));
        Some (Inr [V_boolean False, push_u32 sess, V_string str, V_boolean (ty = 2)])
      })"

text \<open>The size is an \<open>int\<close> that has been checked not to be negative when it is compared with the unsigned sums.\<close>

definition unpackreq_string :: "bytes \<Rightarrow> int \<Rightarrow> (cluster_error + lua_val list) option" where
  "unpackreq_string buf sz0 =
     (if sz0 < 2 then Some (Inl (Invalid_cluster_message sz0))
      else do {
        b \<leftarrow> nth_opt buf 1;
        let namesz = unat b;
        if sz0 < int namesz + 6 then Some (Inl (Invalid_cluster_message sz0))
        else do {
          nm \<leftarrow> substring buf 2 namesz;
          sess \<leftarrow> unpack_uint32 buf (namesz + 2);
          str \<leftarrow> substring buf (2 + namesz + 4) (nat (sz0 - int namesz - 6));
          Some (Inr [V_string nm, push_u32 sess, V_string str])
        }
      })"

definition unpackmreq_string :: "bytes \<Rightarrow> int \<Rightarrow> (cluster_error + lua_val list) option" where
  "unpackmreq_string buf sz0 =
     (if sz0 < 2 then Some (Inl (Invalid_cluster_message sz0))
      else do {
        b \<leftarrow> nth_opt buf 1;
        let namesz = unat b;
        if sz0 < int namesz + 10 then Some (Inl (Invalid_cluster_message sz0))
        else do {
          nm \<leftarrow> substring buf 2 namesz;
          sess \<leftarrow> unpack_uint32 buf (namesz + 2);
          total_size \<leftarrow> unpack_uint32 buf (namesz + 6);
          Some (Inr [V_string nm, push_u32 sess, push_u32 total_size, V_boolean True])
        }
      })"

text \<open>A Lua string has a zero byte behind its last one, which is what an empty message shows as its type.\<close>

definition lunpackrequest :: "bytes \<Rightarrow> (cluster_error + lua_val list) option" where
  "lunpackrequest msg =
     (let sz0 = sint (of_nat (length msg) :: u32); ty = (msg @ [0]) ! 0 in
      if ty = 0 then unpackreq_number msg sz0
      else if ty = 1 then unpackmreq_number msg sz0
      else if ty = 2 \<or> ty = 3 then unpackmreq_part msg sz0
      else if ty = 0x80 then unpackreq_string msg sz0
      else if ty = 0x81 then unpackmreq_string msg sz0
      else Some (Inl (Invalid_package_type ty)))"

section \<open>Responses\<close>

fun packresponse_loop :: "nat \<Rightarrow> bytes \<Rightarrow> u32 \<Rightarrow> bytes \<Rightarrow> nat \<Rightarrow> nat \<Rightarrow> bytes list option" where
  "packresponse_loop 0 buf sess msg ptr sz0 = Some []"
| "packresponse_loop (Suc k) buf sess msg ptr sz0 = do {
     let (s, ty) = (if sz0 > MULTI_PART then (MULTI_PART, 3) else (sz0, 4 :: u8));
     buf \<leftarrow> poke 6 [ty] buf;
     buf \<leftarrow> fill_header (of_nat s + 5) buf;
     buf \<leftarrow> fill_uint32 2 sess buf;
     bs \<leftarrow> substring msg ptr s;
     buf \<leftarrow> poke 7 bs buf;
     str \<leftarrow> lstring buf (s + 7);
     rest \<leftarrow> packresponse_loop k buf sess msg (ptr + s) (sz0 - s);
     Some (str # rest)
   }"

text \<open>One package, or a table of them. The message is a Lua string or a block with a size; both are its bytes here.
  The caller keeps it.\<close>

definition lpackresponse :: "bytes \<Rightarrow> u64 \<Rightarrow> bool \<Rightarrow> bytes \<Rightarrow> (bytes + bytes list) option" where
  "lpackresponse buf n ok msg =
     (let sess = ucast n :: u32; sz0 = length msg in
      if ok \<and> sz0 > MULTI_PART then do {
        let part = (sz0 - 1) div MULTI_PART + 1;
        buf \<leftarrow> fill_header 9 buf;
        buf \<leftarrow> fill_uint32 2 sess buf;
        buf \<leftarrow> poke 6 [2] buf;
        buf \<leftarrow> fill_uint32 7 (of_nat sz0) buf;
        str \<leftarrow> lstring buf 11;
        rest \<leftarrow> packresponse_loop part buf sess msg 0 sz0;
        Some (Inr (str # rest))
      } else do {
        let s = (if \<not> ok \<and> sz0 > MULTI_PART then MULTI_PART else sz0);
        buf \<leftarrow> fill_header (of_nat s + 5) buf;
        buf \<leftarrow> fill_uint32 2 sess buf;
        buf \<leftarrow> poke 6 [of_bool ok] buf;
        bs \<leftarrow> substring msg 0 s;
        buf \<leftarrow> poke 7 bs buf;
        str \<leftarrow> lstring buf (s + 7);
        Some (Inl str)
      })"

text \<open>Returning nothing is the empty list.\<close>

definition lunpackresponse :: "bytes \<Rightarrow> lua_val list option" where
  "lunpackresponse buf =
     (let sz0 = length buf in
      if sz0 < 5 then Some []
      else do {
        sess \<leftarrow> unpack_uint32 buf 0;
        ty \<leftarrow> nth_opt buf 4;
        if ty = 0 then do {
          str \<leftarrow> substring buf 5 (sz0 - 5);
          Some [push_u32 sess, V_boolean False, V_string str]
        } else if ty = 1 \<or> ty = 4 then do {
          str \<leftarrow> substring buf 5 (sz0 - 5);
          Some [push_u32 sess, V_boolean True, V_string str]
        } else if ty = 2 then
          (if sz0 \<noteq> 9 then Some []
           else do {
             n \<leftarrow> unpack_uint32 buf 5;
             Some [push_u32 sess, V_boolean True, push_u32 n, V_boolean True]
           })
        else if ty = 3 then do {
          str \<leftarrow> substring buf 5 (sz0 - 5);
          Some [push_u32 sess, V_boolean True, V_string str, V_boolean True]
        } else Some []
      })"

section \<open>Putting the parts together\<close>

fun lconcat_loop :: "nat \<Rightarrow> u32 \<Rightarrow> nat \<Rightarrow> lua_val list \<Rightarrow> mem \<Rightarrow> ((nat \<times> u32) option \<times> mem) option" where
  "lconcat_loop buff sz0 offset (V_string str # rest) st =
     (if length str + offset > unat (scast sz0 :: u64) then do {
        st \<leftarrow> skynet_free buff st;
        Some (None, st)
      } else do {
        st \<leftarrow> mem_write buff offset str st;
        lconcat_loop buff sz0 (offset + length str) rest st
      })"
| "lconcat_loop buff sz0 offset t st =
     (if int offset \<noteq> sint sz0 then do {
        st \<leftarrow> skynet_free buff st;
        Some (None, st)
      } else Some (Some (buff, sz0), st))"

text \<open>The table is the list of its entries from index 1 on. The result is the block with the whole message and its size.\<close>

definition lconcat :: "je \<Rightarrow> u32 \<Rightarrow> lua_val list option \<Rightarrow> mem \<Rightarrow> ((nat \<times> u32) option \<times> mem) option" where
  "lconcat j handle t st =
     (case t of Some (V_integer n # rest) \<Rightarrow> do {
        let sz0 = (ucast n :: u32);
        (buff, st) \<leftarrow> skynet_malloc j handle (scast sz0) st;
        lconcat_loop buff sz0 0 rest st
      }
      | _ \<Rightarrow> Some (None, st))"


section \<open>Writing a package in order\<close>

fun pokes :: "(nat \<times> bytes) list \<Rightarrow> bytes \<Rightarrow> bytes option" where
  "pokes [] buf = Some buf"
| "pokes ((off, bs) # ps) buf = Option.bind (poke off bs buf) (pokes ps)"

fun contiguous :: "nat \<Rightarrow> (nat \<times> bytes) list \<Rightarrow> bool" where
  "contiguous off [] = True"
| "contiguous off ((k, bs) # ps) = (k = off \<and> contiguous (off + length bs) ps)"

abbreviation written :: "(nat \<times> bytes) list \<Rightarrow> bytes" where "written ps \<equiv> concat (map snd ps)"

lemma pokes_eq:
  "contiguous off ps \<Longrightarrow> off + length (written ps) \<le> length buf \<Longrightarrow>
     pokes ps buf = Some (take off buf @ written ps @ drop (off + length (written ps)) buf)"
proof (induction ps arbitrary: off buf)
  case (Cons p ps)
  obtain bs where p: "p = (off, bs)" using Cons.prems(1) by (cases p) simp
  let ?buf = "take off buf @ bs @ drop (off + length bs) buf"
  have "pokes ps ?buf
      = Some (take (off + length bs) ?buf @ written ps @ drop (off + length bs + length (written ps)) ?buf)"
    using Cons.prems p by (intro Cons.IH) simp_all
  then show ?case using Cons.prems p by (simp add: poke_def min_absorb2 ac_simps)
qed simp

text \<open>Fields written one behind the other are the package, whatever was in the array.\<close>

lemma package_written:
  assumes "contiguous 0 ps" "length (written ps) \<le> length buf" "n = length (written ps)"
  obtains b where "pokes ps buf = Some b" "lstring b n = Some (written ps)" "length b = length buf"
  using assms pokes_eq [of 0 ps buf] by (simp add: lstring_def)

lemma poke_swap:
  assumes "a + length as \<le> b"
  shows "Option.bind (poke b bs buf) (poke a as) = Option.bind (poke a as buf) (poke b bs)"
proof (cases "b + length bs \<le> length buf")
  case True
  let ?l = "take a buf @ as @ take (b - (a + length as)) (drop (a + length as) buf) @ bs @ drop (b + length bs) buf"
  have "poke a as (take b buf @ bs @ drop (b + length bs) buf) = Some ?l"
    using True assms by (simp add: poke_def min_absorb1 min_absorb2 drop_take)
  moreover have "poke b bs (take a buf @ as @ drop (a + length as) buf) = Some ?l"
    using True assms by (simp add: poke_def min_absorb2 add.commute)
  ultimately show ?thesis using True assms by (simp add: poke_def)
next
  case False
  with assms show ?thesis by (simp add: poke_def)
qed

lemma be4: "be_bytes 4 n = [of_nat (n div 2 ^ 24 mod 256), of_nat (n div 2 ^ 16 mod 256), of_nat (n div 2 ^ 8 mod 256), of_nat (n mod 256)]"
proof -
  have "4 = Suc (Suc (Suc (Suc 0)))" by simp
  then show ?thesis
    by (simp only: be_bytes.simps append.simps) (simp add: div_mult2_eq [symmetric] del: of_nat_mod)
qed

lemma be2: "be_bytes 2 n = [of_nat (n div 256 mod 256), of_nat (n mod 256)]"
proof -
  have "2 = Suc (Suc 0)" by simp
  then show ?thesis by (simp only: be_bytes.simps append.simps)
qed

lemma le4: "le_bytes 4 n = [of_nat (n mod 256), of_nat (n div 2 ^ 8 mod 256), of_nat (n div 2 ^ 16 mod 256), of_nat (n div 2 ^ 24 mod 256)]"
proof -
  have "4 = Suc (Suc (Suc (Suc 0)))" by simp
  then show ?thesis
    by (simp only: le_bytes.simps) (simp add: div_mult2_eq [symmetric] del: of_nat_mod)
qed

lemma fill_uint32_le: "fill_uint32 off n = poke off (le_bytes 4 (unat n))"
  using be_word_bytes [of n] unfolding be4 by (simp add: fill_uint32_def le4 del: of_nat_mod)

lemma sint32_small: "k < 2 ^ 31 \<Longrightarrow> sint (of_nat k :: u32) = int k"
  by (simp add: signed_of_nat signed_take_bit_int_eq_self)

lemma fill_header_be:
  assumes "unat n < 0x10000" shows "fill_header n buf = poke 0 (be_bytes 2 (unat n)) buf"
proof -
  have "be_bytes 2 (unat n) = [ucast (drop_bit 8 n AND 0xff), ucast (n AND 0xff)]"
    using be_word_bytes [of n] unfolding be4 be2 by simp
  moreover have "sint n = int (unat n)" using assms sint32_small [of "unat n"] by simp
  moreover have "int (unat n) < 0x10000" using assms by linarith
  ultimately show ?thesis using assms by (simp add: fill_header_def)
qed

lemma le32_nat:
  assumes "i + 3 < length buf"
  shows "le32 buf i = of_nat (le_nat (take 4 (drop i buf)))"
proof -
  have "take 4 (drop i buf) = [buf ! i, buf ! (i + 1), buf ! (i + 2), buf ! (i + 3)]"
    using assms by (intro nth_equalityI) (auto simp: nth_Cons' less_Suc_eq numeral_eq_Suc)
  then have "of_nat (le_nat (take 4 (drop i buf))) = (of_nat (be_nat [buf ! (i + 3), buf ! (i + 2), buf ! (i + 1), buf ! i]) :: u32)"
    by (simp add: le_nat_def be_nat_def algebra_simps)
  then show ?thesis by (simp add: le32_def be_word4 [symmetric] or.commute or.left_commute or.assoc)
qed

lemma unpack_le:
  "i = length a \<Longrightarrow> unpack_uint32 (a @ le_bytes 4 (unat n) @ r) i = Some n"
  by (simp add: unpack_uint32_def le32_nat)


section \<open>The packages of a request\<close>

text \<open>What the comments of the source draw: the body of a package, behind the two bytes of its length.\<close>

datatype request_package =
    Whole cluster_addr u32 bytes
  | Announce cluster_addr u32 u32
  | Part u32 bool bytes

abbreviation put32 :: "u32 \<Rightarrow> bytes" where "put32 w \<equiv> le_bytes 4 (unat w)"

fun put_addr :: "u8 \<Rightarrow> cluster_addr \<Rightarrow> bytes" where
  "put_addr ty (Addr_number n) = ty # put32 (ucast n)"
| "put_addr ty (Addr_string nm) = (0x80 + ty) # of_nat (length nm) # nm"
| "put_addr ty Addr_other = []"

fun request_body :: "request_package \<Rightarrow> bytes" where
  "request_body (Whole a sess m) = put_addr 0 a @ put32 sess @ m"
| "request_body (Announce a sess n) = put_addr 1 a @ put32 sess @ put32 n"
| "request_body (Part sess padding m) = (if padding then 2 else 3) # put32 sess @ m"

fun addr_value :: "cluster_addr \<Rightarrow> lua_val" where
  "addr_value (Addr_number n) = push_u32 (ucast n)"
| "addr_value (Addr_string nm) = V_string nm"
| "addr_value Addr_other = V_nil"

fun package_values :: "request_package \<Rightarrow> lua_val list" where
  "package_values (Whole a sess m) = [addr_value a, push_u32 sess, V_string m]"
| "package_values (Announce a sess n) = [addr_value a, push_u32 sess, push_u32 n, V_boolean True]"
| "package_values (Part sess padding m) = [V_boolean False, push_u32 sess, V_string m, V_boolean padding]"

fun addr_ok :: "cluster_addr \<Rightarrow> bool" where
  "addr_ok (Addr_number n) = True"
| "addr_ok (Addr_string nm) = (1 \<le> length nm \<and> length nm \<le> 255)"
| "addr_ok Addr_other = False"

fun package_ok :: "request_package \<Rightarrow> bool" where
  "package_ok (Whole a sess m) = (addr_ok a \<and> length m \<le> MULTI_PART)"
| "package_ok (Announce a sess n) = addr_ok a"
| "package_ok (Part sess padding m) = (length m \<le> MULTI_PART)"

lemma length_string_byte:
  assumes "length nm \<le> 255"
  shows "unat (of_nat (length nm) :: u8) = length nm" "uint (of_nat (length nm) :: u8) = int (length nm)"
  using assms by (simp_all add: unat_of_nat unsigned_of_nat take_bit_nat_eq_self take_bit_int_eq_self)

lemma substring_app: "i = length a \<Longrightarrow> n = length b \<Longrightarrow> substring (a @ b @ r) i n = Some b"
  by (simp add: substring_def)

lemma unpack_number:
  "unpackreq_number (0 # put32 a @ put32 sess @ m) (int (9 + length m)) = Some (Inr [push_u32 a, push_u32 sess, V_string m])"
  "unpackmreq_number (1 # put32 a @ put32 sess @ put32 n) 13 = Some (Inr [push_u32 a, push_u32 sess, push_u32 n, V_boolean True])"
  using unpack_le [of 1 "[0]" a "put32 sess @ m"] unpack_le [of 5 "0 # put32 a" sess m]
    substring_app [of 9 "0 # put32 a @ put32 sess" "length m" m "[]"]
    unpack_le [of 1 "[1]" a "put32 sess @ put32 n"] unpack_le [of 5 "1 # put32 a" sess "put32 n"]
    unpack_le [of 9 "1 # put32 a @ put32 sess" n "[]"]
  by (simp_all add: unpackreq_number_def unpackmreq_number_def)

lemma unpack_string:
  assumes "length nm \<le> 255"
  shows "unpackreq_string (0x80 # of_nat (length nm) # nm @ put32 sess @ m) (int (length nm + 6 + length m))
      = Some (Inr [V_string nm, push_u32 sess, V_string m])"
    and "unpackmreq_string (0x81 # of_nat (length nm) # nm @ put32 sess @ put32 n) (int (length nm + 10))
      = Some (Inr [V_string nm, push_u32 sess, push_u32 n, V_boolean True])"
  using unpack_le [of "length nm + 2" "t # of_nat (length nm) # nm" sess r for t r]
    substring_app [of 2 "[t, of_nat (length nm)]" "length nm" nm r for t r]
    substring_app [of "2 + length nm + 4" "0x80 # of_nat (length nm) # nm @ put32 sess" "length m" m "[]"]
    unpack_le [of "length nm + 6" "0x81 # of_nat (length nm) # nm @ put32 sess" n "[]"]
  by (simp_all add: unpackreq_string_def unpackmreq_string_def nth_opt_def Let_def length_string_byte [OF assms])

lemma unpack_part:
  "ty = 2 \<or> ty = 3 \<Longrightarrow> unpackmreq_part (ty # put32 sess @ m) (int (5 + length m))
     = Some (Inr [V_boolean False, push_u32 sess, V_string m, V_boolean (ty = 2)])"
  using unpack_le [of 1 "[ty]" sess m] substring_app [of 5 "ty # put32 sess" "length m" m "[]"]
  by (simp add: unpackmreq_part_def nth_opt_def)

lemma unpack_dispatch:
  assumes "length (ty # r) < 2 ^ 31"
  shows "ty = 0 \<Longrightarrow> lunpackrequest (ty # r) = unpackreq_number (ty # r) (int (length (ty # r)))"
    "ty = 1 \<Longrightarrow> lunpackrequest (ty # r) = unpackmreq_number (ty # r) (int (length (ty # r)))"
    "ty = 2 \<or> ty = 3 \<Longrightarrow> lunpackrequest (ty # r) = unpackmreq_part (ty # r) (int (length (ty # r)))"
    "ty = 0x80 \<Longrightarrow> lunpackrequest (ty # r) = unpackreq_string (ty # r) (int (length (ty # r)))"
    "ty = 0x81 \<Longrightarrow> lunpackrequest (ty # r) = unpackmreq_string (ty # r) (int (length (ty # r)))"
  unfolding lunpackrequest_def sint32_small [OF assms] append_Cons nth_Cons_0 Let_def by auto

lemma unpack_request_body:
  assumes "package_ok p"
  shows "lunpackrequest (request_body p) = Some (Inr (package_values p))"
proof (cases p)
  case (Whole a sess m)
  then show ?thesis
  proof (cases a)
    case (Addr_number n)
    with Whole assms show ?thesis using unpack_number(1) [of "ucast n" sess m]
      by (simp add: unpack_dispatch(1) MULTI_PART_def)
  next
    case (Addr_string nm)
    with Whole assms show ?thesis using unpack_string(1) [of nm sess m]
      by (simp add: unpack_dispatch(4) MULTI_PART_def add.commute add.left_commute)
  qed (use Whole assms in simp)
next
  case (Announce a sess z)
  then show ?thesis
  proof (cases a)
    case (Addr_number n)
    with Announce assms show ?thesis using unpack_number(2) [of "ucast n" sess z]
      by (simp add: unpack_dispatch(2))
  next
    case (Addr_string nm)
    with Announce assms show ?thesis using unpack_string(2) [of nm sess z]
      by (simp add: unpack_dispatch(5) add.commute)
  qed (use Announce assms in simp)
next
  case (Part sess padding m)
  then show ?thesis
    using assms unpack_part [of 2 sess m] unpack_part [of 3 sess m]
    by (simp add: unpack_dispatch(3) MULTI_PART_def)
qed

section \<open>Packing a request\<close>

lemma mem_read_in:
  assumes "heap st msg = Some b" "length m + 4 \<le> length b" "take (length m) b = m" "off + n \<le> length m"
  shows "mem_read msg off n st = Some (take n (drop off m))"
proof -
  have "take n (drop off (take (length m) b)) = take n (drop off b)"
    using assms(4) by (simp add: drop_take)
  with assms show ?thesis by (simp add: mem_read_def)
qed

lemma unat_add_small: "unat sz0 + unat k < 2 ^ 32 \<Longrightarrow> unat (sz0 + k) = unat sz0 + unat k" for sz0 k :: u32
  by (subst unat_add_lem [THEN iffD1]) simp_all

lemma fill_small:
  assumes "unat sz0 \<le> MULTI_PART" "unat k \<le> 0x200"
  shows "fill_header (sz0 + k) buf = poke 0 (be_bytes 2 (unat sz0 + unat k)) buf"
proof -
  have "unat (sz0 + k) = unat sz0 + unat k" using assms unat_add_small [of sz0 k] by (simp add: MULTI_PART_def)
  then show ?thesis using assms fill_header_be [of "sz0 + k"] by (simp add: MULTI_PART_def)
qed

lemmas packing = frame_def fill_uint32_le MULTI_PART_def TEMP_LENGTH_def

lemma packed_number:
  assumes "length buf = TEMP_LENGTH"
  shows "mem_read msg 0 (unat sz0) st = Some m \<Longrightarrow> length m = unat sz0 \<Longrightarrow> unat sz0 < MULTI_PART \<Longrightarrow>
      packreq_number buf n sess msg sz0 st = Some (frame 2 (request_body (Whole (Addr_number n) sess m)), 0)"
    and "MULTI_PART \<le> unat sz0 \<Longrightarrow>
      packreq_number buf n sess msg sz0 st = Some (frame 2 (request_body (Announce (Addr_number n) sess sz0)), parts sz0)"
proof -
  assume m: "mem_read msg 0 (unat sz0) st = Some m" "length m = unat sz0" "unat sz0 < MULTI_PART"
  let ?ps = "[(0, be_bytes 2 (unat sz0 + 9)), (2, [0]), (3, put32 (ucast n)), (7, put32 sess), (11, m)]"
  obtain b where "pokes ?ps buf = Some b" "lstring b (unat sz0 + 11) = Some (written ?ps)"
    by (rule package_written [of ?ps buf "unat sz0 + 11"]) (use assms m in \<open>simp_all add: packing\<close>)
  moreover have "fill_header (sz0 + 9) buf = poke 0 (be_bytes 2 (unat sz0 + 9)) buf"
    using m(3) fill_small [of sz0 9 buf] by simp
  ultimately show "packreq_number buf n sess msg sz0 st = Some (frame 2 (request_body (Whole (Addr_number n) sess m)), 0)"
    using m by (auto simp: packreq_number_def frame_def fill_uint32_le add.commute)
next
  assume m: "MULTI_PART \<le> unat sz0"
  let ?ps = "[(0, be_bytes 2 13), (2, [1]), (3, put32 (ucast n)), (7, put32 sess), (11, put32 sz0)]"
  obtain b where "pokes ?ps buf = Some b" "lstring b 15 = Some (written ?ps)"
    by (rule package_written [of ?ps buf 15]) (use assms in \<open>simp_all add: packing\<close>)
  then show "packreq_number buf n sess msg sz0 st = Some (frame 2 (request_body (Announce (Addr_number n) sess sz0)), parts sz0)"
    using m fill_header_be [of 13 buf] by (auto simp: packreq_number_def frame_def fill_uint32_le)
qed

lemma packed_string:
  assumes "length buf = TEMP_LENGTH" "1 \<le> length nm" "length nm \<le> 255"
  shows "mem_read msg 0 (unat sz0) st = Some m \<Longrightarrow> length m = unat sz0 \<Longrightarrow> unat sz0 < MULTI_PART \<Longrightarrow>
      packreq_string buf (Addr_string nm) sess msg sz0 st = Some (Inr (frame 2 (request_body (Whole (Addr_string nm) sess m)), 0), st)"
    and "MULTI_PART \<le> unat sz0 \<Longrightarrow>
      packreq_string buf (Addr_string nm) sess msg sz0 st
        = Some (Inr (frame 2 (request_body (Announce (Addr_string nm) sess sz0)), parts sz0), st)"
proof -
  have u: "unat (6 + of_nat (length nm) :: u32) = 6 + length nm" "unat (10 + of_nat (length nm) :: u32) = 10 + length nm"
    using assms(3) unat_add_small [of _ "of_nat (length nm)"] by (simp_all add: unat_of_nat)
  {
    assume m: "mem_read msg 0 (unat sz0) st = Some m" "length m = unat sz0" "unat sz0 < MULTI_PART"
    let ?l = "length nm"
    let ?ps = "[(0, be_bytes 2 (unat sz0 + (6 + ?l))), (2, [0x80]), (3, [of_nat ?l]), (4, nm), (4 + ?l, put32 sess), (8 + ?l, m)]"
    obtain b where "pokes ?ps buf = Some b" "lstring b (unat sz0 + 8 + ?l) = Some (written ?ps)"
      by (rule package_written [of ?ps buf "unat sz0 + 8 + ?l"]) (use assms m in \<open>simp_all add: packing\<close>)
    moreover have "fill_header (sz0 + 6 + of_nat ?l) buf = poke 0 (be_bytes 2 (unat sz0 + (6 + ?l))) buf"
      using m(3) assms(3) fill_small [of sz0 "6 + of_nat ?l" buf] by (simp add: u add.assoc)
    moreover have "frame 2 (request_body (Whole (Addr_string nm) sess m)) = written ?ps"
      using m(2) by (simp add: frame_def ac_simps)
    ultimately show "packreq_string buf (Addr_string nm) sess msg sz0 st = Some (Inr (frame 2 (request_body (Whole (Addr_string nm) sess m)), 0), st)"
      using m assms by (auto simp: packreq_string_def Let_def fill_uint32_le simp del: request_body.simps)
  next
    assume m: "MULTI_PART \<le> unat sz0"
    let ?l = "length nm"
    let ?ps = "[(0, be_bytes 2 (10 + ?l)), (2, [0x81]), (3, [of_nat ?l]), (4, nm), (4 + ?l, put32 sess), (8 + ?l, put32 sz0)]"
    obtain b where "pokes ?ps buf = Some b" "lstring b (12 + ?l) = Some (written ?ps)"
      by (rule package_written [of ?ps buf "12 + ?l"]) (use assms in \<open>simp_all add: packing\<close>)
    moreover have "fill_header (10 + of_nat ?l) buf = poke 0 (be_bytes 2 (10 + ?l)) buf"
      using assms(3) fill_header_be [of "10 + of_nat ?l" buf] by (simp add: u)
    moreover have "frame 2 (request_body (Announce (Addr_string nm) sess sz0)) = written ?ps"
      by (simp add: frame_def ac_simps)
    ultimately show "packreq_string buf (Addr_string nm) sess msg sz0 st
        = Some (Inr (frame 2 (request_body (Announce (Addr_string nm) sess sz0)), parts sz0), st)"
      using m assms by (auto simp: packreq_string_def Let_def fill_uint32_le simp del: request_body.simps)
  }
qed


text \<open>A part: its type is written before the length in front of it.\<close>

lemma part_written:
  assumes "length buf = TEMP_LENGTH" "unat s \<le> MULTI_PART" "length bs = unat s"
  obtains b1 b2 b3 b4 where "poke 2 [ty] buf = Some b1" "fill_header (s + 5) b1 = Some b2" "fill_uint32 3 sess b2 = Some b3"
    "poke 7 bs b3 = Some b4" "lstring b4 (unat s + 7) = Some (frame 2 (ty # put32 sess @ bs))" "length b4 = TEMP_LENGTH"
proof -
  let ?h = "be_bytes 2 (unat s + 5)"
  let ?ps = "[(0, ?h), (2, [ty]), (3, put32 sess), (7, bs)]"
  obtain b where b: "pokes ?ps buf = Some b" "lstring b (unat s + 7) = Some (written ?ps)" "length b = length buf"
    by (rule package_written [of ?ps buf "unat s + 7"]) (use assms in \<open>simp_all add: packing\<close>)
  then obtain b2 b3 where p: "Option.bind (poke 0 ?h buf) (poke 2 [ty]) = Some b2" "poke 3 (put32 sess) b2 = Some b3" "poke 7 bs b3 = Some b"
    by auto
  then obtain b1 where "poke 2 [ty] buf = Some b1" "poke 0 ?h b1 = Some b2"
    using poke_swap [of 0 ?h 2 "[ty]" buf] by auto
  moreover have "fill_header (s + 5) b1 = poke 0 ?h b1" using assms(2) fill_small [of s 5] by simp
  moreover have "written ?ps = frame 2 (ty # put32 sess @ bs)" using assms(3) by (simp add: frame_def add.commute)
  ultimately show thesis using b p assms(1) that by (simp add: fill_uint32_le)
qed

function part_list :: "u32 \<Rightarrow> bytes \<Rightarrow> request_package list" where
  "part_list sess m = (if length m > MULTI_PART
     then Part sess True (take MULTI_PART m) # part_list sess (drop MULTI_PART m) else [Part sess False m])"
  by pat_completeness auto
termination by (relation "measure (\<lambda>(sess, m). length m)") (auto simp: MULTI_PART_def)

declare part_list.simps [simp del]

abbreviation send_packages :: "request_package list \<Rightarrow> bytes list" where
  "send_packages \<equiv> map (\<lambda>p. frame 2 (request_body p))"

lemma unat_MULTI_PART [simp]: "unat (of_nat MULTI_PART :: u32) = MULTI_PART"
  by (simp add: MULTI_PART_def)

lemma parts_step:
  assumes "MULTI_PART < unat sz0" shows "parts sz0 = Suc (parts (sz0 - of_nat MULTI_PART))"
proof -
  have g: "of_nat MULTI_PART \<le> sz0" using assms by (simp add: word_le_nat_alt)
  then have d: "unat (sz0 - of_nat MULTI_PART) = unat sz0 - MULTI_PART" by (simp add: unat_sub)
  have "unat (x - 1) = unat x - 1" if "0 < unat x" for x :: u32
    using that by (simp add: unat_sub word_le_nat_alt)
  then show ?thesis using assms d by (simp add: parts_def) (simp add: MULTI_PART_def div_if)
qed

lemma parts_last: "0 < unat sz0 \<Longrightarrow> unat sz0 \<le> MULTI_PART \<Longrightarrow> parts sz0 = 1"
proof -
  assume "0 < unat sz0" "unat sz0 \<le> MULTI_PART"
  then have "unat (sz0 - 1) < MULTI_PART" by (simp add: unat_sub word_le_nat_alt)
  then show ?thesis by (simp add: parts_def)
qed

lemma packed_parts:
  assumes "length buf = TEMP_LENGTH" "length m = unat sz0" "0 < length m"
    "\<And>off n. off + n \<le> length m \<Longrightarrow> mem_read msg (ptr + off) n st = Some (take n (drop off m))"
  shows "packreq_loop (parts sz0) buf sess msg ptr sz0 st = Some (send_packages (part_list sess m))"
  using assms
proof (induction sess m arbitrary: buf ptr sz0 rule: part_list.induct)
  case (1 sess m)
  show ?case
  proof (cases "MULTI_PART < unat sz0")
    case True
    let ?s = "of_nat MULTI_PART :: u32"
    have d: "unat (sz0 - ?s) = length m - MULTI_PART"
      using True 1(3) by (simp add: unat_sub word_le_nat_alt)
    obtain b1 b2 b3 b4 where b: "poke 2 [2] buf = Some b1" "fill_header (?s + 5) b1 = Some b2" "fill_uint32 3 sess b2 = Some b3"
      "poke 7 (take MULTI_PART m) b3 = Some b4" "length b4 = TEMP_LENGTH"
      "lstring b4 (unat ?s + 7) = Some (frame 2 (2 # put32 sess @ take MULTI_PART m))"
      using True 1(2,3) by (auto intro: part_written [of buf ?s "take MULTI_PART m" 2 sess])
    have r: "mem_read msg ptr MULTI_PART st = Some (take MULTI_PART m)" using 1(5) [of 0 MULTI_PART] True 1(3) by simp
    have "packreq_loop (parts (sz0 - ?s)) b4 sess msg (ptr + MULTI_PART) (sz0 - ?s) st
        = Some (send_packages (part_list sess (drop MULTI_PART m)))"
    proof (rule 1(1))
      fix off n assume "off + n \<le> length (drop MULTI_PART m)"
      then show "mem_read msg (ptr + MULTI_PART + off) n st = Some (take n (drop off (drop MULTI_PART m)))"
        using 1(5) [of "MULTI_PART + off" n] True 1(3) by (simp add: ac_simps)
    qed (use True 1(3) b d in simp_all)
    then show ?thesis using b r True 1(3) parts_step [OF True] part_list.simps [of sess m] by simp
  next
    case False
    obtain b1 b2 b3 b4 where b: "poke 2 [3] buf = Some b1" "fill_header (sz0 + 5) b1 = Some b2" "fill_uint32 3 sess b2 = Some b3"
      "poke 7 m b3 = Some b4" "lstring b4 (unat sz0 + 7) = Some (frame 2 (3 # put32 sess @ m))"
      using False 1(2,3) by (auto intro: part_written [of buf sz0 m 3 sess])
    have r: "mem_read msg ptr (unat sz0) st = Some m" using 1(5) [of 0 "unat sz0"] 1(3) by simp
    then show ?thesis using b False 1(3,4) parts_last [of sz0] part_list.simps [of sess m] by simp
  qed
qed


definition request_packages :: "cluster_addr \<Rightarrow> u32 \<Rightarrow> bytes \<Rightarrow> request_package list" where
  "request_packages a sess m =
     (if length m < MULTI_PART then [Whole a sess m] else Announce a sess (of_nat (length m)) # part_list sess m)"

lemma parts_pos [simp]: "parts sz0 \<noteq> 0"
  by (simp add: parts_def)

definition next_session :: "u32 \<Rightarrow> u32" where
  "next_session sess = (if sint (sess + 1) < 0 then 1 else sess + 1)"

lemma packed_request:
  fixes n :: u64 and z :: u64
  defines "sess \<equiv> ucast n :: u32" and "sz0 \<equiv> ucast z :: u32"
  assumes "length buf = TEMP_LENGTH" "length buf2 = TEMP_LENGTH" "addr_ok a" "0 < sint sess" "msg \<noteq> 0"
    and msg: "heap st msg = Some b" "unat sz0 + 4 \<le> length b" "m = take (unat sz0) b"
  shows "\<exists>req ps st'. lpackrequest buf buf2 a n msg z st = Some (Inr (req, next_session sess, ps), st')
    \<and> skynet_free msg st = Some st' \<and> req # (case ps of None \<Rightarrow> [] | Some l \<Rightarrow> l) = send_packages (request_packages a sess m)"
proof -
  have len: "length m = unat sz0" using msg by simp
  have rd: "mem_read msg off k st = Some (take k (drop off m))" if "off + k \<le> length m" for off k
    using that msg len by (intro mem_read_in [of st msg b]) simp_all
  obtain st' where st': "skynet_free msg st = Some st'"
    using \<open>msg \<noteq> 0\<close> msg(1,2) by (simp add: skynet_free_def clean_prefix_def)
  have z: "of_nat (length m) = sz0" using len by simp
  show ?thesis
  proof (cases "unat sz0 < MULTI_PART")
    case True
    let ?req = "frame 2 (request_body (Whole a sess m))"
    have "(case a of Addr_number x \<Rightarrow> map_option (\<lambda>r. (Inr r, st)) (packreq_number buf x sess msg sz0 st)
        | _ \<Rightarrow> packreq_string buf a sess msg sz0 st) = Some (Inr (?req, 0), st)"
      using assms(3,5) packed_number(1) [of buf msg sz0 st m _ sess] packed_string(1) [of buf _ msg sz0 st m sess]
        rd [of 0 "unat sz0"] len True by (cases a) simp_all
    then have "lpackrequest buf buf2 a n msg z st = Some (Inr (?req, next_session sess, None), st')"
      using assms(6,7) st' by (simp add: lpackrequest_def Let_def next_session_def flip: sess_def sz0_def)
    then show ?thesis using st' True len by (simp add: request_packages_def)
  next
    case False
    let ?req = "frame 2 (request_body (Announce a sess sz0))"
    have "(case a of Addr_number x \<Rightarrow> map_option (\<lambda>r. (Inr r, st)) (packreq_number buf x sess msg sz0 st)
        | _ \<Rightarrow> packreq_string buf a sess msg sz0 st) = Some (Inr (?req, parts sz0), st)"
      using assms(3,5) packed_number(2) [of buf sz0 _ sess] packed_string(2) [of buf _ sz0 sess] False by (cases a) simp_all
    moreover have "packreq_multi buf2 sess msg sz0 st = Some (send_packages (part_list sess m))"
      unfolding packreq_multi_def using assms(4) len False rd by (intro packed_parts) (simp_all add: MULTI_PART_def)
    ultimately have "lpackrequest buf buf2 a n msg z st = Some (Inr (?req, next_session sess, Some (send_packages (part_list sess m))), st')"
      using assms(6,7) st' by (simp add: lpackrequest_def Let_def next_session_def flip: sess_def sz0_def)
    then show ?thesis using st' False len z by (simp add: request_packages_def)
  qed
qed

lemma part_list_ok: "p \<in> set (part_list sess m) \<Longrightarrow> package_ok p"
proof (induction sess m rule: part_list.induct)
  case (1 sess m)
  then show ?case by (subst (asm) (2) part_list.simps) (auto split: if_splits)
qed

lemma request_packages_ok: "addr_ok a \<Longrightarrow> p \<in> set (request_packages a sess m) \<Longrightarrow> package_ok p"
  by (auto simp: request_packages_def part_list_ok split: if_splits)

lemma body_short: "package_ok p \<Longrightarrow> length (request_body p) < 0x10000"
proof (cases p)
  case (Whole a sess m)
  then show "package_ok p \<Longrightarrow> ?thesis" by (cases a) (auto simp: MULTI_PART_def)
next
  case (Announce a sess z)
  then show "package_ok p \<Longrightarrow> ?thesis" by (cases a) auto
qed (simp add: MULTI_PART_def)

section \<open>Concatenation is checked\<close>

lemma scast_nonneg:
  fixes w :: u32 assumes "unat w < 2 ^ 31"
  shows "unat (scast w :: u64) = unat w" "sint w = int (unat w)"
proof -
  show s: "sint w = int (unat w)" using sint32_small [OF assms] by simp
  have "(scast w :: u64) = of_nat (unat w)" unfolding scast_eq s by simp
  then show "unat (scast w :: u64) = unat w" using assms by (simp only: unat_of_nat) simp
qed

fun leading :: "lua_val list \<Rightarrow> bytes" where
  "leading (V_string s # t) = s @ leading t"
| "leading t = []"

lemma leading_strings [simp]: "leading (map V_string strs) = concat strs"
  by (induction strs) auto

lemma write_frame:
  "mem_write p off bs st = Some st' \<Longrightarrow> \<exists>b b'. heap st p = Some b \<and> st' = st\<lparr>heap := (heap st)(p \<mapsto> b')\<rparr>
     \<and> b' = take off b @ bs @ drop (off + length bs) b \<and> off + length bs + 4 \<le> length b"
  by (auto simp: mem_write_def)

lemma free_block:
  "p \<noteq> 0 \<Longrightarrow> heap st p = Some b \<Longrightarrow> 4 \<le> length b \<Longrightarrow> \<exists>st'. skynet_free p st = Some st' \<and> heap st' = (heap st)(p := None)"
  by (simp add: skynet_free_def clean_prefix_def)

lemma concat_stop:
  assumes "p \<noteq> 0" "heap st p = Some b" "unat n + 4 \<le> length b" "unat n < 2 ^ 31" "off \<le> unat n" "leading t = []"
    "lconcat_loop p n off t st = (if int off \<noteq> sint n then Option.bind (skynet_free p st) (\<lambda>st. Some (None, st)) else Some (Some (p, n), st))"
  shows "if off + length (leading t) = unat n
    then \<exists>b' st'. lconcat_loop p n off t st = Some (Some (p, n), st') \<and> heap st' = (heap st)(p \<mapsto> b')
      \<and> take (unat n) b' = take off b @ leading t \<and> length b' = length b
    else \<exists>st'. lconcat_loop p n off t st = Some (None, st') \<and> heap st' = (heap st)(p := None)"
proof (cases "off = unat n")
  case True
  then have "lconcat_loop p n off t st = Some (Some (p, n), st) \<and> heap st = (heap st)(p \<mapsto> b) \<and> take (unat n) b = take off b"
    using assms scast_nonneg(2) [OF assms(4)] by (simp add: fun_upd_idem)
  with True assms(6) show ?thesis by fastforce
next
  case False
  obtain st' where "skynet_free p st = Some st'" "heap st' = (heap st)(p := None)"
    using free_block [OF assms(1,2)] assms(3) by auto
  moreover have "int off \<noteq> sint n" using False scast_nonneg(2) [OF assms(4)] by linarith
  ultimately show ?thesis using False assms(6,7) by simp
qed

lemma concat_loop:
  assumes "p \<noteq> 0" "heap st p = Some b" "unat n + 4 \<le> length b" "unat n < 2 ^ 31" "off \<le> unat n"
  shows "if off + length (leading t) = unat n
    then \<exists>b' st'. lconcat_loop p n off t st = Some (Some (p, n), st') \<and> heap st' = (heap st)(p \<mapsto> b')
      \<and> take (unat n) b' = take off b @ leading t \<and> length b' = length b
    else \<exists>st'. lconcat_loop p n off t st = Some (None, st') \<and> heap st' = (heap st)(p := None)"
  using assms
proof (induction p n off t st arbitrary: b rule: lconcat_loop.induct)
  case (1 p n off str rest st)
  note u = scast_nonneg(1) [OF 1(5)]
  show ?case
  proof (cases "unat n < length str + off")
    case True
    then show ?thesis using free_block [OF 1(2,3)] 1(4) u by fastforce
  next
    case False
    define b1 where "b1 = take off b @ str @ drop (off + length str) b"
    let ?st = "st\<lparr>heap := (heap st)(p \<mapsto> b1)\<rparr>"
    have w: "mem_write p off str st = Some ?st" using 1(3,4) False by (simp add: mem_write_def b1_def)
    have len: "length b1 = length b" using 1(4) False by (simp add: b1_def)
    have t: "take (off + length str) b1 = take off b @ str" using 1(4) False by (simp add: b1_def)
    have g: "\<not> unat (scast n :: u64) < length str + off" using False u by simp
    have "if off + length str + length (leading rest) = unat n
      then \<exists>b' st'. lconcat_loop p n (off + length str) rest ?st = Some (Some (p, n), st') \<and> heap st' = (heap ?st)(p \<mapsto> b')
        \<and> take (unat n) b' = take (off + length str) b1 @ leading rest \<and> length b' = length b1
      else \<exists>st'. lconcat_loop p n (off + length str) rest ?st = Some (None, st') \<and> heap st' = (heap ?st)(p := None)"
      by (rule 1(1) [OF g w]) (use 1 False len in simp_all)
    then show ?thesis using w g t len
      by (cases "off + (length str + length (leading rest)) = unat n") (simp_all add: add.assoc)
  qed
qed (rule concat_stop; simp)+


text \<open>A table that starts with a size below two gigabytes: the block with the strings behind it if their lengths add
  up to the size, and otherwise nothing, with the block released again. No write leaves the block.\<close>

lemma concat_table:
  assumes "je_ok j" "mem_inv H st" "inj_on stat_slot H" "h \<in> H" "unat (ucast n :: u32) < 2 ^ 31"
    and m: "skynet_malloc j h (scast (ucast n :: u32)) st = Some (p, st1)"
  shows "if length (leading t) = unat (ucast n :: u32)
    then \<exists>b st'. lconcat j h (Some (V_integer n # t)) st = Some (Some (p, ucast n), st') \<and> heap st' = (heap st)(p \<mapsto> b)
      \<and> p \<notin> dom (heap st) \<and> length (leading t) + 4 \<le> length b \<and> take (length (leading t)) b = leading t
    else \<exists>st'. lconcat j h (Some (V_integer n # t)) st = Some (None, st') \<and> heap st' = heap st"
proof -
  let ?n = "ucast n :: u32"
  note u = scast_nonneg(1) [OF assms(5)]
  obtain b where b: "heap st1 = (heap st)(p \<mapsto> b)" "unat ?n + 4 \<le> length b" "p \<notin> dom (live st)" "mem_inv H st1"
    using malloc_room [OF assms(1-4) m] u assms(5) by auto
  then have "p \<noteq> 0" by (auto simp: mem_inv_def live_def)
  have d: "p \<notin> dom (heap st)" using b(3) by (simp add: live_def)
  then have e: "(heap st)(p := None) = heap st" by (simp add: fun_upd_idem domIff)
  have l: "lconcat j h (Some (V_integer n # t)) st = lconcat_loop p ?n 0 t st1"
    using m by (simp add: lconcat_def)
  show ?thesis
    using concat_loop [OF \<open>p \<noteq> 0\<close> _ b(2) assms(5), of st1 0 t] b(1,2) d e unfolding l
    by (cases "length (leading t) = unat ?n") auto
qed

section \<open>The packages of a response\<close>

datatype response_package = Reply bool bytes | Begin u32 | More bytes | Last bytes

fun response_body :: "u32 \<Rightarrow> response_package \<Rightarrow> bytes" where
  "response_body sess (Reply ok m) = put32 sess @ of_bool ok # m"
| "response_body sess (Begin n) = put32 sess @ 2 # put32 n"
| "response_body sess (More m) = put32 sess @ 3 # m"
| "response_body sess (Last m) = put32 sess @ 4 # m"

fun response_values :: "u32 \<Rightarrow> response_package \<Rightarrow> lua_val list" where
  "response_values sess (Reply ok m) = [push_u32 sess, V_boolean ok, V_string m]"
| "response_values sess (Begin n) = [push_u32 sess, V_boolean True, push_u32 n, V_boolean True]"
| "response_values sess (More m) = [push_u32 sess, V_boolean True, V_string m, V_boolean True]"
| "response_values sess (Last m) = [push_u32 sess, V_boolean True, V_string m]"

lemma unpack_response_body: "lunpackresponse (response_body sess p) = Some (response_values sess p)"
proof -
  have s: "unpack_uint32 (put32 sess @ r) 0 = Some sess" for r using unpack_le [of 0 "[]" sess r] by simp
  have t: "nth_opt (put32 sess @ ty # m) 4 = Some ty" for ty m by (simp add: nth_append)
  have m: "substring (put32 sess @ ty # m) 5 (length m) = Some m" for ty m
    using substring_app [of 5 "put32 sess @ [ty]" "length m" m "[]"] by simp
  have n: "unpack_uint32 (put32 sess @ 2 # put32 n) 5 = Some n" for n
    using unpack_le [of 5 "put32 sess @ [2]" n "[]"] by simp
  show ?thesis
  proof (cases p)
    case (Reply ok x)
    then show ?thesis by (cases ok) (simp_all add: lunpackresponse_def Let_def s t m)
  qed (simp_all add: lunpackresponse_def Let_def s t m n)
qed

function response_parts :: "bytes \<Rightarrow> response_package list" where
  "response_parts m = (if length m > MULTI_PART
     then More (take MULTI_PART m) # response_parts (drop MULTI_PART m) else [Last m])"
  by pat_completeness auto
termination by (relation "measure length") (auto simp: MULTI_PART_def)

declare response_parts.simps [simp del]

definition response_packages :: "bool \<Rightarrow> bytes \<Rightarrow> response_package list" where
  "response_packages ok m =
     (if ok \<and> length m > MULTI_PART then Begin (of_nat (length m)) # response_parts m
      else [Reply ok (if ok then m else take MULTI_PART m)])"

abbreviation send_responses :: "u32 \<Rightarrow> response_package list \<Rightarrow> bytes list" where
  "send_responses sess \<equiv> map (\<lambda>p. frame 2 (response_body sess p))"

lemma response_written:
  assumes "length buf = TEMP_LENGTH" "s \<le> MULTI_PART" "length bs = s"
  obtains b1 b2 b3 b4 where "poke 6 [ty] buf = Some b1" "fill_header (of_nat s + 5) b1 = Some b2" "fill_uint32 2 sess b2 = Some b3"
    "poke 7 bs b3 = Some b4" "lstring b4 (s + 7) = Some (frame 2 (put32 sess @ ty # bs))" "length b4 = TEMP_LENGTH"
proof -
  let ?h = "be_bytes 2 (s + 5)"
  let ?ps = "[(0, ?h), (2, put32 sess), (6, [ty]), (7, bs)]"
  have u: "unat (of_nat s :: u32) = s" using assms(2) by (simp add: unat_of_nat MULTI_PART_def)
  obtain b where b: "pokes ?ps buf = Some b" "lstring b (s + 7) = Some (written ?ps)" "length b = length buf"
    by (rule package_written [of ?ps buf "s + 7"]) (use assms in \<open>simp_all add: packing\<close>)
  then obtain x b3 where p: "poke 0 ?h buf = Some x" "Option.bind (poke 2 (put32 sess) x) (poke 6 [ty]) = Some b3" "poke 7 bs b3 = Some b"
    by auto
  then obtain b2 where q: "poke 6 [ty] x = Some b2" "poke 2 (put32 sess) b2 = Some b3"
    using poke_swap [of 2 "put32 sess" 6 "[ty]" x] by auto
  with p(1) obtain b1 where "poke 6 [ty] buf = Some b1" "poke 0 ?h b1 = Some b2"
    using poke_swap [of 0 ?h 6 "[ty]" buf] by auto
  moreover have "fill_header (of_nat s + 5) b1 = poke 0 ?h b1" using assms(2) fill_small [of "of_nat s" 5] u by simp
  moreover have "written ?ps = frame 2 (put32 sess @ ty # bs)" using assms(3) by (simp add: frame_def add.commute)
  ultimately show thesis using b p q assms(1) that by (simp add: fill_uint32_le)
qed

lemma packed_response_parts:
  assumes "length buf = TEMP_LENGTH" "0 < n" "ptr + n = length msg"
  shows "packresponse_loop ((n - 1) div MULTI_PART + 1) buf sess msg ptr n
    = Some (send_responses sess (response_parts (drop ptr msg)))"
  using assms
proof (induction n arbitrary: buf ptr rule: less_induct)
  case (less n)
  show ?case
  proof (cases "MULTI_PART < n")
    case True
    let ?bs = "take MULTI_PART (drop ptr msg)"
    obtain b1 b2 b3 b4 where b: "poke 6 [3] buf = Some b1" "fill_header (of_nat MULTI_PART + 5) b1 = Some b2" "fill_uint32 2 sess b2 = Some b3"
      "poke 7 ?bs b3 = Some b4" "length b4 = TEMP_LENGTH" "lstring b4 (MULTI_PART + 7) = Some (frame 2 (put32 sess @ 3 # ?bs))"
      using True less(2,4) by (auto intro: response_written [of buf MULTI_PART ?bs 3 sess])
    have r: "substring msg ptr MULTI_PART = Some ?bs" using True less(4) by (simp add: substring_def)
    define k where "k = (n - MULTI_PART - 1) div MULTI_PART + 1"
    have p: "(n - 1) div MULTI_PART + 1 = Suc k"
      using True by (simp add: k_def MULTI_PART_def div_if)
    have "packresponse_loop k b4 sess msg (ptr + MULTI_PART) (n - MULTI_PART)
        = Some (send_responses sess (response_parts (drop (ptr + MULTI_PART) msg)))"
      unfolding k_def using True less b(5) by (intro less(1)) (simp_all add: MULTI_PART_def)
    moreover have "length msg - ptr = n" using less(4) by simp
    ultimately show ?thesis
      using b r True response_parts.simps [of "drop ptr msg"] unfolding p by (simp add: add.commute)
  next
    case False
    obtain b1 b2 b3 b4 where b: "poke 6 [4] buf = Some b1" "fill_header (of_nat n + 5) b1 = Some b2" "fill_uint32 2 sess b2 = Some b3"
      "poke 7 (drop ptr msg) b3 = Some b4" "lstring b4 (n + 7) = Some (frame 2 (put32 sess @ 4 # drop ptr msg))"
      using False less(2,4) by (auto intro: response_written [of buf n "drop ptr msg" 4 sess])
    have r: "substring msg ptr n = Some (drop ptr msg)" using less(4) by (simp add: substring_def)
    have "(n - 1) div MULTI_PART = 0" "length msg - ptr = n" using False less(3,4) by simp_all
    then show ?thesis using b r False response_parts.simps [of "drop ptr msg"] by simp
  qed
qed

lemma packed_response:
  assumes "length buf = TEMP_LENGTH" "length m < 2 ^ 32"
  shows "lpackresponse buf n ok m = Some (if ok \<and> length m > MULTI_PART
     then Inr (send_responses (ucast n) (response_packages ok m))
     else Inl (hd (send_responses (ucast n) (response_packages ok m))))"
proof (cases "ok \<and> length m > MULTI_PART")
  case True
  let ?sess = "ucast n :: u32"
  let ?ps = "[(0, be_bytes 2 9), (2, put32 ?sess), (6, [2]), (7, put32 (of_nat (length m)))]"
  obtain b where b: "pokes ?ps buf = Some b" "lstring b 11 = Some (written ?ps)" "length b = length buf"
    by (rule package_written [of ?ps buf 11]) (use assms in \<open>simp_all add: packing\<close>)
  have "packresponse_loop ((length m - 1) div MULTI_PART + 1) b ?sess m 0 (length m) = Some (send_responses ?sess (response_parts m))"
    using packed_response_parts [of b "length m" 0 m ?sess] True b(3) assms(1)
    by (cases "m = []") (simp_all del: packresponse_loop.simps)
  with b True show ?thesis
    using fill_header_be [of 9 buf]
    by (auto simp: lpackresponse_def Let_def fill_uint32_le response_packages_def frame_def)
next
  case False
  let ?sess = "ucast n :: u32" and ?s = "if \<not> ok \<and> length m > MULTI_PART then MULTI_PART else length m"
  let ?bs = "take ?s m"
  let ?ps = "[(0, be_bytes 2 (?s + 5)), (2, put32 ?sess), (6, [of_bool ok]), (7, ?bs)]"
  have s: "?s \<le> MULTI_PART" "?s \<le> length m" using False by auto
  then have u: "unat (of_nat ?s :: u32) = ?s" by (simp only: unat_of_nat) (simp add: MULTI_PART_def)
  have h: "fill_header (of_nat ?s + 5) buf = poke 0 (be_bytes 2 (?s + 5)) buf"
    using s(1) fill_small [of "of_nat ?s" 5] unfolding u by simp
  obtain b where b: "pokes ?ps buf = Some b" "lstring b (?s + 7) = Some (written ?ps)"
    by (rule package_written [of ?ps buf "?s + 7"]) (use assms s in \<open>auto simp: packing\<close>)
  have w: "written ?ps = frame 2 (response_body ?sess (Reply ok ?bs))"
    using s by (simp add: frame_def add.commute)
  have r: "response_packages ok m = [Reply ok ?bs]" using False by (auto simp: response_packages_def)
  have "substring m 0 ?s = Some ?bs" using s by (simp add: substring_def)
  with b False h show ?thesis
    unfolding w r by (auto simp: lpackresponse_def Let_def fill_uint32_le simp del: response_body.simps)
qed

text \<open>C38. A size near the top of the range defeats the check. The size is a signed number here and an unsigned one for
  \<open>skynet_malloc\<close>, which adds the room for the handle: for the size \<open>0xffffffff\<close> the sum is 3, and no length of a
  string is above the size. A node that announces such a size gets a block of the smallest size allocated by the
  receiver, which then writes the part behind its end.
\<close>

theorem concat_overflow:
  assumes "je_malloc j (live st) 3 = Some (p, b)" "4 \<le> length b" "length b < 4 + length part" "length part < 2 ^ 63"
  shows "(\<exists>st1. skynet_malloc j h (- 1) st = Some (p, st1) \<and> mem_write p 0 part st1 = None)
    \<and> lconcat j h (Some [V_integer 0xffffffff, V_string part]) st = None"
proof -
  have u: "ucast (0xffffffff :: u64) = (- 1 :: u32)" "(scast (- 1 :: u32) :: u64) = - 1" by simp_all
  have e: "PREFIX_SIZE - 1 = 3" by (simp add: PREFIX_SIZE_def)
  obtain st1 where m: "skynet_malloc j h (- 1) st = Some (p, st1)" "heap st1 p = Some (put_handle h b)"
    using assms(1,2) by (auto simp: skynet_malloc_def e fill_prefix_def update_xmalloc_stat_alloc_def case_prod_beta)
  have "unat (- 1 :: u64) = 2 ^ 64 - 1" by (simp add: unsigned_minus_1_eq_mask mask_eq_exp_minus_1)
  then have g: "\<not> length part + 0 > unat (scast (- 1 :: u32) :: u64)" using assms(4) unfolding u by simp
  have w: "mem_write p 0 part st1 = None" using m(2) assms(2,3) by (simp add: mem_write_def assert_opt_def)
  then have "lconcat_loop p (- 1) 0 [V_string part] st1 = None" using g by (simp only: lconcat_loop.simps if_False bind.bind_lzero)
  moreover have v: "(4294967295 :: u32) = - 1" by simp
  ultimately show ?thesis using m(1) w by (simp add: lconcat_def v del: lconcat_loop.simps)
qed

lemma concat_overflow_witness:
  "lconcat je_one 5 (Some [V_integer 0xffffffff, V_string (replicate 13 65)]) mem_init = None"
  using concat_overflow [of je_one mem_init 8 "replicate 16 0" "replicate 13 65" 5]
  by (simp add: je_one_def live_def mem_init_def)

end
