(* ===== verification/Cluster_Calls.thy ===== *)
theory Cluster_Calls
  imports Cluster_Core
begin

text \<open>
  The calls between nodes of a cluster: the Lua services around \<open>lua-cluster.c\<close>. \<open>service/clusterd.lua\<close> packs a request,
  the other node collects the parts of large requests in \<open>large_request\<close>, by session, and calls the service when a
  request is complete (\<open>command.socket\<close>); \<open>lualib/socketchannel.lua\<close> collects the parts of a response for the
  coroutine that waits for its session (\<open>dispatch_by_session\<close>), which puts them together (\<open>command.req\<close>).
\<close>

section \<open>Collecting requests\<close>

text \<open>An entry of \<open>large_request\<close>: the address and the list of the values inserted so far.\<close>

type_synonym large = "u64 \<rightharpoonup> lua_val \<times> lua_val list"

datatype outcome =
    Raised cluster_error
  | Waiting
  | Deliver lua_val u64 bytes
  | Invalid_large_req u64

text \<open>\<open>cluster.concat\<close>, and the bytes in the block that is handed over.\<close>

definition concat_message :: "je \<Rightarrow> u32 \<Rightarrow> lua_val list \<Rightarrow> mem \<Rightarrow> (bytes option \<times> mem) option" where
  "concat_message j handle t st = do {
     (r, st) \<leftarrow> lconcat j handle (Some t) st;
     case r of None \<Rightarrow> Some (None, st)
     | Some (p, n) \<Rightarrow> do { bs \<leftarrow> mem_read p 0 (unat n) st; Some (Some bs, st) }
   }"

definition socket_data :: "je \<Rightarrow> u32 \<Rightarrow> bytes \<Rightarrow> large \<times> mem \<Rightarrow> (outcome \<times> large \<times> mem) option" where
  "socket_data j handle msg s = do {
     let (large_request, st) = s;
     r \<leftarrow> lunpackrequest msg;
     case r of
       Inl e \<Rightarrow> Some (Raised e, large_request, st)
     | Inr (addr # V_integer sess # m # padding) \<Rightarrow>
         if padding = [V_boolean True] then do {
           let (a, t) = (case large_request sess of Some req \<Rightarrow> req | None \<Rightarrow> (addr, []));
           Some (Waiting, large_request(sess \<mapsto> (a, t @ [m])), st)
         } else (case large_request sess of
             Some (a, t) \<Rightarrow> do {
               (r, st) \<leftarrow> concat_message j handle (t @ [m]) st;
               Some (case r of None \<Rightarrow> Invalid_large_req sess | Some bs \<Rightarrow> Deliver a sess bs, large_request(sess := None), st)
             }
           | None \<Rightarrow> (case m of V_string bs \<Rightarrow> Some (Deliver addr sess bs, large_request, st) | _ \<Rightarrow> None))
     | _ \<Rightarrow> None
   }"

fun clusterd_run :: "je \<Rightarrow> u32 \<Rightarrow> bytes list \<Rightarrow> large \<times> mem \<Rightarrow> (outcome list \<times> large \<times> mem) option" where
  "clusterd_run j handle [] s = Some ([], s)"
| "clusterd_run j handle (msg # msgs) s = do {
     (r, s) \<leftarrow> socket_data j handle msg s;
     (rs, s) \<leftarrow> clusterd_run j handle msgs s;
     Some (r # rs, s)
   }"

section \<open>One package\<close>

fun package_session :: "request_package \<Rightarrow> u32" where
  "package_session (Whole a sess m) = sess"
| "package_session (Announce a sess n) = sess"
| "package_session (Part sess padding m) = sess"

lemma part_session: "p \<in> set (part_list sess m) \<Longrightarrow> package_session p = sess"
proof (induction sess m rule: part_list.induct)
  case (1 sess m)
  then show ?case by (subst (asm) (2) part_list.simps) (auto split: if_splits)
qed

lemma part_list_ne [simp]: "part_list sess m \<noteq> []" "[] \<noteq> part_list sess m"
  by (subst part_list.simps, simp)+

text \<open>How far the request of a session is: the entry of the table, and the packages still to come.\<close>

definition pending :: "u32 \<Rightarrow> cluster_addr \<Rightarrow> bytes \<Rightarrow> (lua_val \<times> lua_val list) option \<Rightarrow> request_package list \<Rightarrow> bool" where
  "pending sess a m e ps \<longleftrightarrow>
     (e = None \<and> ps = request_packages a sess m)
   \<or> (\<exists>strs rest. e = Some (addr_value a, push_u32 (of_nat (length m)) # map V_string strs)
        \<and> ps = part_list sess rest \<and> concat strs @ rest = m \<and> MULTI_PART \<le> length m)"

text \<open>Only a refused allocation, of the size of the message, stops the node.\<close>

definition refused :: "je \<Rightarrow> u32 \<Rightarrow> nat \<Rightarrow> mem \<Rightarrow> bool" where
  "refused j h n st \<longleftrightarrow> MULTI_PART \<le> n \<and> skynet_malloc j h (of_nat n) st = None"

lemma concat_loop_inv:
  "lconcat_loop p n off t st = Some (r, st') \<Longrightarrow> mem_inv H st \<Longrightarrow> inj_on stat_slot H \<Longrightarrow> mem_inv H st'"
proof (induction p n off t st arbitrary: r st' rule: lconcat_loop.induct)
  case (1 p n off str rest st)
  then show ?case by (auto split: if_splits dest: write_inv free_inv)
qed (auto split: if_splits dest: free_inv)

lemma concat_inv:
  assumes "lconcat j h t st = Some (r, st')" "je_ok j" "mem_inv H st" "inj_on stat_slot H" "h \<in> H"
  shows "mem_inv H st'"
proof -
  consider (table) n rest where "t = Some (V_integer n # rest)" | (other) "st' = st"
    using assms(1) by (cases t) (auto simp: lconcat_def split: list.splits lua_val.splits)
  then show ?thesis
  proof cases
    case table
    then obtain p st1 where m: "skynet_malloc j h (scast (ucast n :: u32)) st = Some (p, st1)"
      and l: "lconcat_loop p (ucast n) 0 rest st1 = Some (r, st')"
      using assms(1) by (auto simp: lconcat_def Let_def)
    then show ?thesis using malloc_inv [OF assms(2-5) m] concat_loop_inv [OF l] assms(4) by blast
  qed (use assms in simp)
qed

lemma concat_message_ok:
  assumes "je_ok j" "mem_inv H st" "inj_on stat_slot H" "h \<in> H" "length (leading t) < 2 ^ 31" "MULTI_PART \<le> length (leading t)"
  shows "refused j h (length (leading t)) st \<or> (\<exists>st'. concat_message j h (push_u32 (of_nat (length (leading t))) # t) st = Some (Some (leading t), st') \<and> mem_inv H st')"
proof -
  let ?n = "of_nat (length (leading t)) :: u32"
  have u: "unat ?n = length (leading t)" using assms(5) by (simp only: unat_of_nat) simp
  have c: "ucast (ucast ?n :: u64) = ?n" by (simp add: ucast_up_ucast_id is_up)
  have s: "unat (scast ?n :: u64) = length (leading t)" using scast_nonneg(1) [of ?n] assms(5) u by simp
  show ?thesis
  proof (cases "skynet_malloc j h (scast ?n) st")
    case None
    moreover have "(scast ?n :: u64) = of_nat (length (leading t))" using s by (metis of_nat_unat ucast_id)
    ultimately show ?thesis using assms(6) by (simp add: refused_def)
  next
    case (Some q)
    then obtain p st1 where m: "skynet_malloc j h (scast (ucast (ucast ?n :: u64) :: u32)) st = Some (p, st1)"
      by (cases q) (simp only: c)
    obtain b st' where k: "lconcat j h (Some (push_u32 ?n # t)) st = Some (Some (p, ?n), st')" "heap st' = (heap st)(p \<mapsto> b)"
      "length (leading t) + 4 \<le> length b" "take (length (leading t)) b = leading t"
      using concat_table [OF assms(1-4) _ m, of t] assms(5) u c by auto
    moreover have "mem_inv H st'" using concat_inv [OF k(1)] assms by blast
    ultimately show ?thesis
      using u by (simp add: concat_message_def mem_read_def)
  qed
qed

text \<open>A package of a pending request: the request is still pending, or it is delivered. The other sessions are not touched.\<close>

lemma next_package:
  assumes "pending sess a m (Some (a', t)) (p # ps)"
  obtains strs rest where "a' = addr_value a" "t = push_u32 (of_nat (length m)) # map V_string strs" "concat strs @ rest = m" "MULTI_PART \<le> length m"
    "p = Part sess (MULTI_PART < length rest) (take MULTI_PART rest)"
    "ps = (if MULTI_PART < length rest then part_list sess (drop MULTI_PART rest) else [])"
proof -
  obtain strs rest where "a' = addr_value a" "t = push_u32 (of_nat (length m)) # map V_string strs" "concat strs @ rest = m" "MULTI_PART \<le> length m"
    "p # ps = part_list sess rest"
    using assms by (auto simp: pending_def)
  then show thesis using that part_list.simps [of sess rest] by (auto split: if_splits)
qed

lemma pending_ps: "pending sess a m e ps \<Longrightarrow> ps \<noteq> []"
  by (auto simp: pending_def request_packages_def split: if_splits)

lemma socket_data_package:
  assumes "je_ok j" "mem_inv H st" "inj_on stat_slot H" "h \<in> H" "addr_ok a" "length m < 2 ^ 31"
    and p: "pending sess a m (lr (ucast sess)) (p # ps)"
  shows "refused j h (length m) st \<or> (\<exists>r e st'. socket_data j h (request_body p) (lr, st) = Some (r, lr(ucast sess := e), st') \<and> mem_inv H st'
    \<and> (if ps = [] then e = None \<and> r = Deliver (addr_value a) (ucast sess) m else r = Waiting \<and> pending sess a m e ps))"
proof (cases "lr (ucast sess)")
  case None
  from None p consider "p = Whole a sess m" "ps = []" "length m < MULTI_PART"
    | "p = Announce a sess (of_nat (length m))" "ps = part_list sess m" "MULTI_PART \<le> length m"
    by (auto simp: pending_def request_packages_def split: if_splits)
  then show ?thesis
  proof cases
    case 1
    then have "package_ok p" using assms(5) by simp
    from unpack_request_body [OF this] 1 None assms(2) show ?thesis
      by (simp add: socket_data_def fun_upd_idem del: request_body.simps)
  next
    case 2
    then have "package_ok p" using assms(5) by simp
    moreover have "pending sess a m (Some (addr_value a, [push_u32 (of_nat (length m))])) (part_list sess m)"
      unfolding pending_def using 2(3) by (intro disjI2) (auto intro!: exI [of _ "[]"])
    ultimately show ?thesis using 2 None assms(2) unpack_request_body [of p]
      by (intro disjI2 exI [of _ Waiting] exI [of _ "Some (addr_value a, [push_u32 (of_nat (length m))])"] exI [of _ st])
        (simp add: socket_data_def del: request_body.simps)
  qed
next
  case (Some at)
  then obtain strs rest where e: "lr (ucast sess) = Some (addr_value a, push_u32 (of_nat (length m)) # map V_string strs)"
    and m: "concat strs @ rest = m" "MULTI_PART \<le> length m" and q: "p = Part sess (MULTI_PART < length rest) (take MULTI_PART rest)"
    and ps: "ps = (if MULTI_PART < length rest then part_list sess (drop MULTI_PART rest) else [])"
    using p by (cases at) (auto elim!: next_package)
  have u: "lunpackrequest (request_body p) = Some (Inr (package_values p))" by (rule unpack_request_body) (simp add: q)
  show ?thesis
  proof (cases "MULTI_PART < length rest")
    case True
    have "pending sess a m (Some (addr_value a, push_u32 (of_nat (length m)) # map V_string (strs @ [take MULTI_PART rest])))
        (part_list sess (drop MULTI_PART rest))"
      unfolding pending_def using m by (intro disjI2) (auto intro!: exI [of _ "strs @ [take MULTI_PART rest]"])
    then show ?thesis using True e u q ps assms(2)
      by (intro disjI2 exI [of _ Waiting] exI [of _ "Some (addr_value a, push_u32 (of_nat (length m)) # map V_string (strs @ [take MULTI_PART rest]))"]
          exI [of _ st]) (simp add: socket_data_def del: request_body.simps)
  next
    case False
    have l: "leading (map V_string (strs @ [rest])) = m" using m(1) by (simp only: leading_strings) simp
    from concat_message_ok [OF assms(1-4), of "map V_string (strs @ [rest])"] assms(6) m(2)
    show ?thesis unfolding l using False e u q ps
      by (auto simp: socket_data_def simp del: request_body.simps)
  qed
qed


section \<open>Interleaved requests\<close>

lemma key_inj [simp]: "(ucast (a :: u32) :: u64) = ucast b \<longleftrightarrow> a = b"
proof
  assume "(ucast a :: u64) = ucast b"
  then have "(ucast (ucast a :: u64) :: u32) = ucast (ucast b :: u64)" by simp
  then show "a = b" by (simp add: ucast_up_ucast_id is_up)
qed simp

fun answers :: "u32 \<Rightarrow> outcome \<Rightarrow> bool" where
  "answers s (Deliver a sess bs) = (sess = ucast s)"
| "answers s (Invalid_large_req sess) = (sess = ucast s)"
| "answers s r = False"

abbreviation of_session :: "u32 \<Rightarrow> request_package list \<Rightarrow> request_package list" where
  "of_session s \<equiv> filter (\<lambda>p. package_session p = s)"

definition progress :: "(u32 \<rightharpoonup> cluster_addr \<times> bytes) \<Rightarrow> large \<Rightarrow> request_package list \<Rightarrow> bool" where
  "progress R lr ps \<longleftrightarrow> (\<forall>s. case R s of
       None \<Rightarrow> lr (ucast s) = None \<and> of_session s ps = []
     | Some (a, m) \<Rightarrow> addr_ok a \<and> length m < 2 ^ 31
         \<and> (pending s a m (lr (ucast s)) (of_session s ps) \<or> lr (ucast s) = None \<and> of_session s ps = []))"

definition expected :: "(u32 \<rightharpoonup> cluster_addr \<times> bytes) \<Rightarrow> request_package list \<Rightarrow> u32 \<Rightarrow> outcome list" where
  "expected R ps s = (case R s of Some (a, m) \<Rightarrow> if of_session s ps = [] then [] else [Deliver (addr_value a) (ucast s) m] | None \<Rightarrow> [])"

lemma progress_step:
  assumes "progress R lr (p # ps)"
  obtains a m where "R (package_session p) = Some (a, m)" "addr_ok a" "length m < 2 ^ 31"
    "pending (package_session p) a m (lr (ucast (package_session p))) (p # of_session (package_session p) ps)"
  using assms unfolding progress_def
  by (auto dest: spec [of _ "package_session p"] split: option.splits)

lemma run_requests:
  assumes "je_ok j" "inj_on stat_slot H" "h \<in> H"
  shows "mem_inv H st \<Longrightarrow> progress R lr ps \<Longrightarrow>
     (\<exists>done1 p todo rs lr1 st1 a m. ps = done1 @ p # todo \<and> clusterd_run j h (map request_body done1) (lr, st) = Some (rs, lr1, st1)
        \<and> R (package_session p) = Some (a, m) \<and> refused j h (length m) st1)
   \<or> (\<exists>rs lr' st'. clusterd_run j h (map request_body ps) (lr, st) = Some (rs, lr', st') \<and> mem_inv H st'
        \<and> (\<forall>s. lr' (ucast s) = None \<and> filter (answers s) rs = expected R ps s))"
proof (induction ps arbitrary: lr st)
  case Nil
  have "lr (ucast s) = None \<and> expected R [] s = []" for s
    using Nil(2) [unfolded progress_def, THEN spec, of s] by (auto simp: expected_def dest: pending_ps split: option.splits)
  with Nil(1) show ?case by (intro disjI2) simp
next
  case (Cons p ps)
  let ?s = "package_session p"
  obtain a m where R: "R ?s = Some (a, m)" "addr_ok a" "length m < 2 ^ 31"
    and pend: "pending ?s a m (lr (ucast ?s)) (p # of_session ?s ps)"
    using progress_step [OF Cons.prems(2)] by metis
  show ?case
  proof (cases "refused j h (length m) st")
    case True
    then show ?thesis using R(1) by - (rule disjI1, rule exI [of _ "[]"], simp)
  next
    case False
    then obtain r e st1 where d: "socket_data j h (request_body p) (lr, st) = Some (r, lr(ucast ?s := e), st1)"
      and inv: "mem_inv H st1"
      and r: "if of_session ?s ps = [] then e = None \<and> r = Deliver (addr_value a) (ucast ?s) m
        else r = Waiting \<and> pending ?s a m e (of_session ?s ps)"
      using socket_data_package [of j H st h a m ?s lr p "of_session ?s ps"] assms Cons.prems(1) R(2,3) pend by blast
    have "progress R (lr(ucast ?s := e)) ps"
      unfolding progress_def
    proof
      fix s
      show "case R s of None \<Rightarrow> (lr(ucast ?s := e)) (ucast s) = None \<and> of_session s ps = []
        | Some (a, m) \<Rightarrow> addr_ok a \<and> length m < 2 ^ 31
          \<and> (pending s a m ((lr(ucast ?s := e)) (ucast s)) (of_session s ps) \<or> (lr(ucast ?s := e)) (ucast s) = None \<and> of_session s ps = [])"
        using Cons.prems(2) [unfolded progress_def, THEN spec, of s] R r
        by (cases "s = ?s") (auto split: if_splits option.splits)
    qed
    from Cons.IH [OF inv this] show ?thesis
    proof (elim disjE exE conjE)
      fix done1 q todo rs lr1 st2 a' m'
      assume "ps = done1 @ q # todo" "clusterd_run j h (map request_body done1) (lr(ucast ?s := e), st1) = Some (rs, lr1, st2)"
        "R (package_session q) = Some (a', m')" "refused j h (length m') st2"
      then show ?thesis using d by - (rule disjI1, rule exI [of _ "p # done1"], auto)
    next
      fix rs lr' st'
      assume k: "clusterd_run j h (map request_body ps) (lr(ucast ?s := e), st1) = Some (rs, lr', st')" "mem_inv H st'"
        "\<forall>s. lr' (ucast s) = None \<and> filter (answers s) rs = expected R ps s"
      have "filter (answers s) (r # rs) = expected R (p # ps) s" for s
        using k(3) r R(1) by (cases "s = ?s") (auto simp: expected_def split: if_splits option.splits)
      then show ?thesis using k d by (intro disjI2 exI [of _ "r # rs"]) simp
    qed
  qed
qed


section \<open>Collecting responses\<close>

text \<open>The part of a channel that \<open>dispatch_by_session\<close> works on: the coroutine waiting for a session, and for each
  coroutine the result and its data, one value or a table of parts.\<close>

record channel =
  c_thread :: "u64 \<rightharpoonup> nat"
  c_result :: "nat \<rightharpoonup> bool"
  c_result_data :: "nat \<rightharpoonup> lua_val + lua_val list"

datatype dispatched = Close | Unknown_session | Collect | Wakeup nat

text \<open>\<open>table.insert\<close> fails on a value that is not a table.\<close>

definition insert_data :: "(lua_val + lua_val list) option \<Rightarrow> lua_val \<Rightarrow> (lua_val + lua_val list) option" where
  "insert_data d v = (case d of None \<Rightarrow> Some (Inr [v]) | Some (Inr t) \<Rightarrow> Some (Inr (t @ [v])) | Some (Inl _) \<Rightarrow> None)"

definition dispatch_by_session :: "bytes \<Rightarrow> channel \<Rightarrow> (dispatched \<times> channel) option" where
  "dispatch_by_session msg c = do {
     r \<leftarrow> lunpackresponse msg;
     case r of
       V_integer sess # V_boolean result_ok # result_data # padding \<Rightarrow>
         (case c_thread c sess of
            Some co \<Rightarrow>
              if padding = [V_boolean True] \<and> result_ok then do {
                d \<leftarrow> insert_data (c_result_data c co) result_data;
                Some (Collect, c\<lparr>c_result_data := (c_result_data c)(co \<mapsto> d)\<rparr>)
              } else do {
                let c1 = c\<lparr>c_thread := (c_thread c)(sess := None), c_result := (c_result c)(co \<mapsto> result_ok)\<rparr>;
                d \<leftarrow> (if result_ok \<and> c_result_data c co \<noteq> None then insert_data (c_result_data c co) result_data
                     else Some (Inl result_data));
                Some (Wakeup co, c1\<lparr>c_result_data := (c_result_data c)(co \<mapsto> d)\<rparr>)
              }
          | None \<Rightarrow> Some (Unknown_session, c\<lparr>c_thread := (c_thread c)(sess := None)\<rparr>))
     | _ \<Rightarrow> Some (Close, c)
   }"

fun channel_run :: "bytes list \<Rightarrow> channel \<Rightarrow> (dispatched list \<times> channel) option" where
  "channel_run [] c = Some ([], c)"
| "channel_run (msg # msgs) c = do {
     (r, c) \<leftarrow> dispatch_by_session msg c;
     (rs, c) \<leftarrow> channel_run msgs c;
     Some (r # rs, c)
   }"

text \<open>What the waiting coroutine gets from the data: \<open>command.req\<close> puts a table together.\<close>

definition req_result :: "je \<Rightarrow> u32 \<Rightarrow> lua_val + lua_val list \<Rightarrow> mem \<Rightarrow> (bytes option \<times> mem) option" where
  "req_result j handle d st =
     (case d of Inl (V_string bs) \<Rightarrow> Some (Some bs, st) | Inl _ \<Rightarrow> Some (None, st) | Inr t \<Rightarrow> concat_message j handle t st)"

definition finished :: "u32 \<Rightarrow> nat \<Rightarrow> bool \<Rightarrow> lua_val + lua_val list \<Rightarrow> channel \<Rightarrow> channel" where
  "finished sess co ok d c = c\<lparr>c_thread := (c_thread c)(ucast sess := None), c_result := (c_result c)(co \<mapsto> ok),
     c_result_data := (c_result_data c)(co \<mapsto> d)\<rparr>"

lemma finished_collect [simp]:
  "finished sess co ok d (c\<lparr>c_result_data := (c_result_data c)(co \<mapsto> x)\<rparr>) = finished sess co ok d c"
  by (simp add: finished_def)

lemma response_parts_run:
  assumes "c_thread c (ucast sess) = Some co" "c_result_data c co = Some (Inr t)"
  shows "\<exists>rs strs. channel_run (map (response_body sess) (response_parts m)) c
      = Some (rs @ [Wakeup co], finished sess co True (Inr (t @ map V_string strs)) c)
    \<and> set rs \<subseteq> {Collect} \<and> concat strs = m"
  using assms
proof (induction m arbitrary: c t rule: response_parts.induct)
  case (1 m)
  show ?case
  proof (cases "MULTI_PART < length m")
    case True
    let ?b = "take MULTI_PART m"
    let ?c = "c\<lparr>c_result_data := (c_result_data c)(co \<mapsto> Inr (t @ [V_string ?b]))\<rparr>"
    have d: "dispatch_by_session (response_body sess (More ?b)) c = Some (Collect, ?c)"
      using 1(2,3) unpack_response_body [of sess "More ?b"]
      by (simp add: dispatch_by_session_def insert_data_def del: response_body.simps)
    have "c_thread ?c (ucast sess) = Some co" "c_result_data ?c co = Some (Inr (t @ [V_string ?b]))" using 1(2) by simp_all
    then obtain rs strs where k: "channel_run (map (response_body sess) (response_parts (drop MULTI_PART m))) ?c
        = Some (rs @ [Wakeup co], finished sess co True (Inr ((t @ [V_string ?b]) @ map V_string strs)) ?c)"
      "set rs \<subseteq> {Collect}" "concat strs = drop MULTI_PART m"
      using 1(1) [OF True] by blast
    from k(1) d True response_parts.simps [of m]
    have "channel_run (map (response_body sess) (response_parts m)) c
        = Some ((Collect # rs) @ [Wakeup co], finished sess co True (Inr (t @ map V_string (?b # strs))) c)"
      by (simp del: response_body.simps)
    moreover have "concat (?b # strs) = m" using k(3) by simp
    ultimately show ?thesis using k(2) by (intro exI [of _ "Collect # rs"] exI [of _ "?b # strs"]) simp
  next
    case False
    then have "channel_run (map (response_body sess) (response_parts m)) c
        = Some ([] @ [Wakeup co], finished sess co True (Inr (t @ map V_string [m])) c)"
      using 1(2,3) unpack_response_body [of sess "Last m"] response_parts.simps [of m]
      by (simp add: dispatch_by_session_def insert_data_def Let_def finished_def del: response_body.simps)
    then show ?thesis by (intro exI [of _ "[]"] exI [of _ "[m]"]) simp
  qed
qed

lemma response_run:
  assumes "c_thread c (ucast sess) = Some co" "c_result_data c co = None"
  shows "\<exists>rs d. channel_run (map (response_body sess) (response_packages ok m)) c = Some (rs @ [Wakeup co], finished sess co ok d c)
    \<and> set rs \<subseteq> {Collect}
    \<and> (d = Inl (V_string (if ok then m else take MULTI_PART m))
       \<or> ok \<and> MULTI_PART \<le> length m \<and> (\<exists>strs. d = Inr (push_u32 (of_nat (length m)) # map V_string strs) \<and> concat strs = m))"
proof (cases "ok \<and> length m > MULTI_PART")
  case True
  let ?n = "of_nat (length m) :: u32"
  let ?c = "c\<lparr>c_result_data := (c_result_data c)(co \<mapsto> Inr [push_u32 ?n])\<rparr>"
  have d: "dispatch_by_session (response_body sess (Begin ?n)) c = Some (Collect, ?c)"
    using assms unpack_response_body [of sess "Begin ?n"]
    by (simp add: dispatch_by_session_def insert_data_def del: response_body.simps)
  obtain rs strs where k: "channel_run (map (response_body sess) (response_parts m)) ?c
      = Some (rs @ [Wakeup co], finished sess co True (Inr ([push_u32 ?n] @ map V_string strs)) ?c)"
    "set rs \<subseteq> {Collect}" "concat strs = m"
    using response_parts_run [of ?c sess co "[push_u32 ?n]" m] assms(1) by auto
  from k(1) d have "channel_run (map (response_body sess) (response_packages ok m)) c
      = Some ((Collect # rs) @ [Wakeup co], finished sess co ok (Inr (push_u32 ?n # map V_string strs)) c)"
    using True by (simp add: response_packages_def del: response_body.simps)
  with True k(2,3) show ?thesis by (intro exI [of _ "Collect # rs"]) auto
next
  case False
  let ?m = "if ok then m else take MULTI_PART m"
  have "channel_run (map (response_body sess) (response_packages ok m)) c = Some ([] @ [Wakeup co], finished sess co ok (Inl (V_string ?m)) c)"
    using False assms unpack_response_body [of sess "Reply ok ?m"]
    by (auto simp: response_packages_def dispatch_by_session_def Let_def finished_def simp del: response_body.simps)
  then show ?thesis by (intro exI [of _ "[]"]) auto
qed


lemma response_parts_short: "p \<in> set (response_parts m) \<Longrightarrow> length (response_body sess p) < 0x10000"
proof (induction m rule: response_parts.induct)
  case (1 m)
  then show ?case by (subst (asm) (2) response_parts.simps) (auto simp: MULTI_PART_def split: if_splits)
qed

lemma response_short: "p \<in> set (response_packages ok m) \<Longrightarrow> length (response_body sess p) < 0x10000"
  by (auto simp: response_packages_def MULTI_PART_def response_parts_short split: if_splits)

section \<open>The cluster calls are correct\<close>

lemma split_sent:
  assumes "\<forall>p\<in>set ps. length (f p) < 0x10000"
  shows "split_frames 2 (concat (map (\<lambda>p. frame 2 (f p)) ps)) = (map f ps, [])"
  using split_frames_concat [of 2 "map f ps"] assms by (simp add: comp_def)

text \<open>C36. A request is packed whole. For a message of any size to a service given by number or by a name of 1 to 255 bytes, the
  packing succeeds whatever was in its arrays, releases the message once and counts the session up, from the
  largest one to 1; a reader that cuts the packages out of the stream by their two-byte lengths and unpacks them gets the
  address, the session and the message, or its size and its parts in order, the last one marked.
\<close>

theorem request_packed:
  assumes "length buf = TEMP_LENGTH" "length buf2 = TEMP_LENGTH" "addr_ok a" "0 < sint (ucast n :: u32)" "msg \<noteq> 0"
    "heap st msg = Some b" "unat (ucast z :: u32) + 4 \<le> length b" "m = take (unat (ucast z :: u32)) b"
  shows "\<exists>req ps st' bodies. lpackrequest buf buf2 a n msg z st = Some (Inr (req, next_session (ucast n), ps), st')
    \<and> skynet_free msg st = Some st'
    \<and> split_frames 2 (req @ concat (case ps of None \<Rightarrow> [] | Some l \<Rightarrow> l)) = (bodies, [])
    \<and> map lunpackrequest bodies = map (\<lambda>p. Some (Inr (package_values p))) (request_packages a (ucast n) m)"
proof -
  let ?ps = "request_packages a (ucast n) m"
  obtain req ps st' where r: "lpackrequest buf buf2 a n msg z st = Some (Inr (req, next_session (ucast n), ps), st')"
    "skynet_free msg st = Some st'" "req # (case ps of None \<Rightarrow> [] | Some l \<Rightarrow> l) = send_packages ?ps"
    using packed_request [OF assms] by (elim exE conjE) (rule that)
  have ok: "package_ok p" if "p \<in> set ?ps" for p using request_packages_ok [OF assms(3) that] .
  have "req @ concat (case ps of None \<Rightarrow> [] | Some l \<Rightarrow> l) = concat (send_packages ?ps)"
    unfolding r(3) [symmetric] by simp
  moreover have "split_frames 2 (concat (send_packages ?ps)) = (map request_body ?ps, [])"
    using ok body_short by (intro split_sent) blast
  moreover have "map lunpackrequest (map request_body ?ps) = map (\<lambda>p. Some (Inr (package_values p))) ?ps"
    using ok unpack_request_body by simp
  ultimately show ?thesis using r(1,2) by auto
qed

lemma request_packed_witness:
  "\<exists>req ps st' bodies. lpackrequest (replicate TEMP_LENGTH 0) (replicate TEMP_LENGTH 1) (Addr_string [100, 98]) 0x7fffffff 8 3
       (mem_init\<lparr>heap := [8 \<mapsto> [1, 2, 3, 0, 0, 0, 0]]\<rparr>) = Some (Inr (req, 1, ps), st')
    \<and> split_frames 2 (req @ concat (case ps of None \<Rightarrow> [] | Some l \<Rightarrow> l)) = (bodies, [])
    \<and> map lunpackrequest bodies = [Some (Inr [V_string [100, 98], V_integer 0x7fffffff, V_string [1, 2, 3]])]"
proof -
  have n: "next_session 0x7fffffff = 1" by (simp add: next_session_def)
  show ?thesis
    using request_packed [of "replicate TEMP_LENGTH 0" "replicate TEMP_LENGTH 1" "Addr_string [100, 98]" "0x7fffffff" 8
        "mem_init\<lparr>heap := [8 \<mapsto> [1, 2, 3, 0, 0, 0, 0]]\<rparr>" "[1, 2, 3, 0, 0, 0, 0]" 3 "[1, 2, 3]"]
    by (auto simp: request_packages_def MULTI_PART_def n)
qed







text \<open>
  The table is indexed by the session alone, and every node counts its sessions from 1: a complete request of one node,
  with the session of a large request that another node is still sending, is taken for the end of the latter; its sender
  gets an error and the large request is lost.
\<close>

lemma session_collision:
  assumes "je_ok j" "inj_on stat_slot H" "h \<in> H" "mem_inv H st" "MULTI_PART \<le> unat n" "unat n < 2 ^ 31" "length m < MULTI_PART"
    "skynet_malloc j h (scast n) st = Some (p, st1)" "addr_ok a" "addr_ok a'"
  shows "\<exists>st'. clusterd_run j h (map request_body [Announce a s n, Whole a' s m]) (Map.empty, st)
    = Some ([Waiting, Invalid_large_req (ucast s)], Map.empty, st')"
proof -
  have c: "ucast (ucast n :: u64) = n" by (simp add: ucast_up_ucast_id is_up)
  have "length (leading [V_string m]) \<noteq> unat n" using assms(5,7) by simp
  then obtain st' where "lconcat j h (Some [push_u32 n, V_string m]) st = Some (None, st')"
    using concat_table [OF assms(1,4,2,3), of "ucast n" p st1 "[V_string m]"] assms(6,8) by (auto simp: c)
  then show ?thesis
    using unpack_request_body [of "Announce a s n"] unpack_request_body [of "Whole a' s m"] assms(7,9,10)
    by (simp add: socket_data_def concat_message_def fun_upd_idem del: request_body.simps)
qed

end
