(* ===== verification/Stm.thy ===== *)
theory Stm
  imports Transition
begin

text \<open>
  \<open>lualib-src/lua-stm.c\<close>: a message that one service updates and others read without copying it. The object has a
  reference count, a read-write lock and a pointer to the current copy; a copy has a reference count and the message.
  The writer and the readers are services on different threads: the calls are cut at the points where they let go of
  the lock, and the steps of different services interleave. What happens inside the lock is one step (\<open>Locks\<close> has the lock
  itself), except in \<open>stm_releasereader\<close>, whose steps under the read lock other readers can interleave with.
  \<open>None\<close> is the use of a freed object or copy, or a failing \<open>assert\<close>. A message is its bytes, fewer than the
  code's 32-bit size can count.
\<close>

section \<open>Objects and copies\<close>

record stm_copy =
  cp_reference :: int
  cp_msg :: bytes

record stm_object =
  ob_readers :: nat
  ob_reference :: int
  ob_copy :: "nat option"

text \<open>Where a service is: the writer between the swap of the copies and the release of the old one; a reader with the copy
  it fetched, or after it has given back the object (was it the last reference?).\<close>

datatype writer_pc = W_idle | W_release "nat option" | W_gone
datatype reader_pc = R_idle | R_got "nat option" | R_leave bool | R_left | R_gone

record stm_reader =
  rd_lastcopy :: "nat option"
  rd_pc :: reader_pc

record stm =
  object :: "stm_object option"
  copies :: "nat \<rightharpoonup> stm_copy"
  next_copy :: nat
  freed :: "nat list"
  writer :: writer_pc
  in_flight :: nat
  readers :: "stm_reader list"

definition stm_newcopy :: "bytes \<Rightarrow> stm \<Rightarrow> nat \<times> stm" where
  "stm_newcopy msg s = (next_copy s,
     s\<lparr>copies := (copies s)(next_copy s \<mapsto> \<lparr>cp_reference = 1, cp_msg = msg\<rparr>), next_copy := next_copy s + 1\<rparr>)"

definition stm_new :: "bytes \<Rightarrow> stm" where
  "stm_new msg =
     (let (c, s) = stm_newcopy msg \<lparr>object = None, copies = Map.empty, next_copy = 0, freed = [], writer = W_idle, in_flight = 0, readers = []\<rparr>
      in s\<lparr>object := Some \<lparr>ob_readers = 0, ob_reference = 1, ob_copy = Some c\<rparr>\<rparr>)"

text \<open>The message and the copy are freed together; the list has the copies in the order of their release.\<close>

definition stm_releasecopy :: "nat option \<Rightarrow> stm \<Rightarrow> stm option" where
  "stm_releasecopy copy s = (case copy of None \<Rightarrow> Some s
     | Some c \<Rightarrow> do {
         cp \<leftarrow> copies s c;
         let ref = cp_reference cp - 1;
         Some (if ref = 0 then s\<lparr>copies := (copies s)(c := None), freed := freed s @ [c]\<rparr>
               else s\<lparr>copies := (copies s)(c \<mapsto> cp\<lparr>cp_reference := ref\<rparr>)\<rparr>)
       })"

text \<open>The lock is free of readers when the writer enters; a step is possible only then.\<close>

definition stm_release :: "stm \<Rightarrow> stm option" where
  "stm_release s = do {
     ob \<leftarrow> object s;
     assert_opt (ob_copy ob \<noteq> None);
     s \<leftarrow> stm_releasecopy (ob_copy ob) s;
     let ref = ob_reference ob - 1;
     Some (s\<lparr>object := (if ref > 0 then Some (ob\<lparr>ob_copy := None, ob_reference := ref\<rparr>) else None)\<rparr>)
   }"

text \<open>The first half takes the read lock and gives back the reference, the second frees the object or unlocks it.\<close>

definition stm_releasereader_enter :: "stm \<Rightarrow> (bool \<times> stm) option" where
  "stm_releasereader_enter s = do {
     ob \<leftarrow> object s;
     let ref = ob_reference ob - 1;
     Some (ref = 0, s\<lparr>object := Some (ob\<lparr>ob_readers := ob_readers ob + 1, ob_reference := ref\<rparr>)\<rparr>)
   }"

definition stm_releasereader_leave :: "bool \<Rightarrow> stm \<Rightarrow> stm option" where
  "stm_releasereader_leave lastref s = do {
     ob \<leftarrow> object s;
     if lastref then do {
       assert_opt (ob_copy ob = None);
       Some (s\<lparr>object := None\<rparr>)
     } else Some (s\<lparr>object := Some (ob\<lparr>ob_readers := ob_readers ob - 1\<rparr>)\<rparr>)
   }"

definition stm_grab :: "stm \<Rightarrow> stm option" where
  "stm_grab s = do {
     ob \<leftarrow> object s;
     assert_opt (ob_reference ob > 0);
     Some (s\<lparr>object := Some (ob\<lparr>ob_reference := ob_reference ob + 1\<rparr>)\<rparr>)
   }"

definition fetch_copy :: "stm \<Rightarrow> (nat option \<times> stm) option" where
  "fetch_copy s = do {
     ob \<leftarrow> object s;
     case ob_copy ob of None \<Rightarrow> Some (None, s)
     | Some c \<Rightarrow> do {
         cp \<leftarrow> copies s c;
         assert_opt (cp_reference cp > 0);
         Some (Some c, s\<lparr>copies := (copies s)(c \<mapsto> cp\<lparr>cp_reference := cp_reference cp + 1\<rparr>)\<rparr>)
       }
   }"

text \<open>The first part of \<open>stm_update\<close>, up to the unlocking: the old copy is still to be released.\<close>

definition stm_update_swap :: "bytes \<Rightarrow> stm \<Rightarrow> (nat option \<times> stm) option" where
  "stm_update_swap msg s = do {
     let (c, s) = stm_newcopy msg s;
     ob \<leftarrow> object s;
     Some (ob_copy ob, s\<lparr>object := Some (ob\<lparr>ob_copy := Some c\<rparr>)\<rparr>)
   }"

section \<open>The calls of the services\<close>

definition lcopy :: "stm \<Rightarrow> stm option" where
  "lcopy s = map_option (\<lambda>s. s\<lparr>in_flight := in_flight s + 1\<rparr>) (stm_grab s)"

definition lnewreader :: "stm \<Rightarrow> stm" where
  "lnewreader s = s\<lparr>in_flight := in_flight s - 1, readers := readers s @ [\<lparr>rd_lastcopy = None, rd_pc = R_idle\<rparr>]\<rparr>"

definition lupdate_swap :: "bytes \<Rightarrow> stm \<Rightarrow> stm option" where
  "lupdate_swap msg s = map_option (\<lambda>(old, s). s\<lparr>writer := W_release old\<rparr>) (stm_update_swap msg s)"

definition lupdate_release :: "nat option \<Rightarrow> stm \<Rightarrow> stm option" where
  "lupdate_release old s = map_option (\<lambda>s. s\<lparr>writer := W_idle\<rparr>) (stm_releasecopy old s)"

definition ldeletewriter :: "stm \<Rightarrow> stm option" where
  "ldeletewriter s = map_option (\<lambda>s. s\<lparr>writer := W_gone\<rparr>) (stm_release s)"

definition set_reader :: "nat \<Rightarrow> nat option \<Rightarrow> reader_pc \<Rightarrow> stm \<Rightarrow> stm" where
  "set_reader i c pc s = s\<lparr>readers := (readers s)[i := \<lparr>rd_lastcopy = c, rd_pc = pc\<rparr>]\<rparr>"

definition lread_fetch :: "nat \<Rightarrow> stm \<Rightarrow> stm option" where
  "lread_fetch i s = map_option (\<lambda>(c, s). set_reader i (rd_lastcopy (readers s ! i)) (R_got c) s) (fetch_copy s)"

text \<open>The rest of \<open>lread\<close>: the message that is handed to the callback, if there is a new one.\<close>

definition lread_finish :: "nat \<Rightarrow> nat option \<Rightarrow> stm \<Rightarrow> (bytes option \<times> stm) option" where
  "lread_finish i copy s =
     (let lst = rd_lastcopy (readers s ! i) in
      if copy = lst then map_option (\<lambda>s. (None, set_reader i lst R_idle s)) (stm_releasecopy copy s)
      else do {
        s \<leftarrow> stm_releasecopy lst s;
        let s1 = set_reader i copy R_idle s;
        case copy of None \<Rightarrow> Some (None, s1)
        | Some c \<Rightarrow> do { cp \<leftarrow> copies s c; Some (Some (cp_msg cp), s1) }
      })"

definition ldeletereader_enter :: "nat \<Rightarrow> stm \<Rightarrow> stm option" where
  "ldeletereader_enter i s =
     map_option (\<lambda>(lastref, s). set_reader i (rd_lastcopy (readers s ! i)) (R_leave lastref) s) (stm_releasereader_enter s)"

definition ldeletereader_leave :: "nat \<Rightarrow> bool \<Rightarrow> stm \<Rightarrow> stm option" where
  "ldeletereader_leave i lastref s =
     map_option (\<lambda>s. set_reader i (rd_lastcopy (readers s ! i)) R_left s) (stm_releasereader_leave lastref s)"

definition ldeletereader_finish :: "nat \<Rightarrow> stm \<Rightarrow> stm option" where
  "ldeletereader_finish i s = map_option (set_reader i None R_gone) (stm_releasecopy (rd_lastcopy (readers s ! i)) s)"

definition unlocked :: "stm \<Rightarrow> bool" where
  "unlocked s = (case object s of Some ob \<Rightarrow> ob_readers ob = 0 | None \<Rightarrow> True)"

text \<open>The next step of the writer or of a reader; waiting for the lock is no step.\<close>

definition at_pc :: "nat \<Rightarrow> reader_pc \<Rightarrow> stm \<Rightarrow> bool" where
  "at_pc i pc s \<longleftrightarrow> i < length (readers s) \<and> rd_pc (readers s ! i) = pc"

inductive stm_call :: "stm \<Rightarrow> stm option \<Rightarrow> bool" where
  call_copy: "writer s = W_idle \<Longrightarrow> stm_call s (lcopy s)"
| call_newreader: "0 < in_flight s \<Longrightarrow> stm_call s (Some (lnewreader s))"
| call_swap: "writer s = W_idle \<Longrightarrow> unlocked s \<Longrightarrow> stm_call s (lupdate_swap msg s)"
| call_release: "writer s = W_release old \<Longrightarrow> stm_call s (lupdate_release old s)"
| call_deletewriter: "writer s = W_idle \<Longrightarrow> unlocked s \<Longrightarrow> stm_call s (ldeletewriter s)"
| call_fetch: "at_pc i R_idle s \<Longrightarrow> stm_call s (lread_fetch i s)"
| call_finish: "at_pc i (R_got c) s \<Longrightarrow> stm_call s (map_option snd (lread_finish i c s))"
| call_enter: "at_pc i R_idle s \<Longrightarrow> stm_call s (ldeletereader_enter i s)"
| call_leave: "at_pc i (R_leave lastref) s \<Longrightarrow> stm_call s (ldeletereader_leave i lastref s)"
| call_left: "at_pc i R_left s \<Longrightarrow> stm_call s (ldeletereader_finish i s)"

definition stm_step :: "stm \<Rightarrow> stm \<Rightarrow> bool" where
  "stm_step s t \<longleftrightarrow> stm_call s (Some t)"

definition stm_init :: "stm \<Rightarrow> bool" where
  "stm_init s \<longleftrightarrow> (\<exists>msg. s = stm_new msg)"


section \<open>Exact counts\<close>

text \<open>Who refers to a copy: the object, the writer that has still to release it, the readers.\<close>

definition rd_holds :: "nat \<Rightarrow> stm_reader \<Rightarrow> nat" where
  "rd_holds c r = of_bool (rd_lastcopy r = Some c) + of_bool (rd_pc r = R_got (Some c))"

definition current :: "stm \<Rightarrow> nat option" where
  "current s = Option.bind (object s) ob_copy"

definition holds :: "stm \<Rightarrow> nat \<Rightarrow> nat" where
  "holds s c = of_bool (current s = Some c) + of_bool (writer s = W_release (Some c)) + sum_list (map (rd_holds c) (readers s))"

text \<open>Who refers to the object, and which readers are inside the lock.\<close>

definition rd_owns :: "stm_reader \<Rightarrow> nat" where
  "rd_owns r = (case rd_pc r of R_idle \<Rightarrow> 1 | R_got _ \<Rightarrow> 1 | _ \<Rightarrow> 0)"

definition rd_leaving :: "stm_reader \<Rightarrow> nat" where
  "rd_leaving r = (case rd_pc r of R_leave _ \<Rightarrow> 1 | _ \<Rightarrow> 0)"

definition rd_last :: "stm_reader \<Rightarrow> nat" where
  "rd_last r = of_bool (rd_pc r = R_leave True)"

definition owners :: "stm \<Rightarrow> nat" where
  "owners s = of_bool (writer s \<noteq> W_gone) + in_flight s + sum_list (map rd_owns (readers s))"

text \<open>The counts of the copies against a function that says what they should be.\<close>

definition copies_ok :: "(nat \<Rightarrow> nat) \<Rightarrow> stm \<Rightarrow> bool" where
  "copies_ok H s \<longleftrightarrow>
     (\<forall>c. H c = 0 \<longrightarrow> copies s c = None)
   \<and> (\<forall>c. 0 < H c \<longrightarrow> (\<exists>cp. copies s c = Some cp \<and> cp_reference cp = int (H c)))
   \<and> distinct (freed s) \<and> (\<forall>c. c \<in> set (freed s) \<longleftrightarrow> c < next_copy s \<and> H c = 0) \<and> (\<forall>c\<ge>next_copy s. H c = 0)"

definition leaving :: "stm \<Rightarrow> nat" where "leaving s = sum_list (map rd_leaving (readers s))"
definition lasts :: "stm \<Rightarrow> nat" where "lasts s = sum_list (map rd_last (readers s))"

text \<open>The object against the numbers of its owners, of the readers inside the lock, and of those about to free it.\<close>

fun object_good :: "stm_object option \<Rightarrow> nat \<Rightarrow> bool \<Rightarrow> nat \<Rightarrow> nat \<Rightarrow> bool" where
  "object_good (Some ob) n gone lv ls = (ob_reference ob = int n \<and> (ob_copy ob = None \<longleftrightarrow> gone) \<and> ls = of_bool (n = 0) \<and> ob_readers ob = lv)"
| "object_good None n gone lv ls = (n = 0 \<and> ls = 0)"

definition object_ok :: "stm \<Rightarrow> bool" where
  "object_ok s \<longleftrightarrow> object_good (object s) (owners s) (writer s = W_gone) (leaving s) (lasts s)"

definition stm_inv :: "stm \<Rightarrow> bool" where
  "stm_inv s \<longleftrightarrow> copies_ok (holds s) s \<and> object_ok s"

lemma copies_ok_copy:
  "copies_ok H s \<Longrightarrow> 0 < H c \<Longrightarrow> \<exists>cp. copies s c = Some cp \<and> cp_reference cp = int (H c) \<and> c < next_copy s"
  unfolding copies_ok_def by (metis leI less_numeral_extra(3))

text \<open>A function that differs in one place.\<close>

lemma copies_ok_release:
  assumes "copies_ok H s" "0 < H c"
  obtains s' where "stm_releasecopy (Some c) s = Some s'" "copies_ok (H(c := H c - 1)) s'"
    "object s' = object s" "next_copy s' = next_copy s" "writer s' = writer s" "in_flight s' = in_flight s" "readers s' = readers s"
    "\<And>x cp. x \<noteq> c \<Longrightarrow> copies s' x = copies s x"
proof -
  obtain cp where cp: "copies s c = Some cp" "cp_reference cp = int (H c)" "c < next_copy s"
    using copies_ok_copy [of H s c] assms by auto
  have nf: "c \<notin> set (freed s)" using assms by (auto simp: copies_ok_def)
  define s' where "s' = (if H c = 1 then s\<lparr>copies := (copies s)(c := None), freed := freed s @ [c]\<rparr>
    else s\<lparr>copies := (copies s)(c \<mapsto> cp\<lparr>cp_reference := int (H c) - 1\<rparr>)\<rparr>)"
  have "stm_releasecopy (Some c) s = Some s'" using cp by (simp add: stm_releasecopy_def s'_def)
  moreover have "copies_ok (H(c := H c - 1)) s'"
    using assms cp nf by (auto simp: copies_ok_def s'_def of_nat_diff)
  ultimately show thesis using that by (simp add: s'_def)
qed

lemma copies_ok_fetch:
  assumes "copies_ok H s" "0 < H c"
  obtains cp where "copies s c = Some cp" "0 < cp_reference cp"
    "copies_ok (H(c := H c + 1)) (s\<lparr>copies := (copies s)(c \<mapsto> cp\<lparr>cp_reference := cp_reference cp + 1\<rparr>)\<rparr>)"
proof -
  obtain cp where cp: "copies s c = Some cp" "cp_reference cp = int (H c)" "c < next_copy s"
    using copies_ok_copy [of H s c] assms by auto
  have "copies_ok (H(c := H c + 1)) (s\<lparr>copies := (copies s)(c \<mapsto> cp\<lparr>cp_reference := cp_reference cp + 1\<rparr>)\<rparr>)"
    using assms cp by (auto simp: copies_ok_def)
  with cp assms(2) that show thesis by simp
qed

lemma copies_ok_new:
  assumes "copies_ok H s"
  shows "copies_ok (H(next_copy s := 1)) (snd (stm_newcopy msg s))"
  using assms by (auto simp: copies_ok_def stm_newcopy_def less_Suc_eq)

lemma copies_ok_cong:
  "copies s' = copies s \<Longrightarrow> freed s' = freed s \<Longrightarrow> next_copy s' = next_copy s \<Longrightarrow> (\<And>c. H' c = H c) \<Longrightarrow> copies_ok H s \<Longrightarrow> copies_ok H' s'"
  by (simp add: copies_ok_def)

lemma releasecopy_fields:
  "stm_releasecopy c s = Some s' \<Longrightarrow> object s' = object s \<and> next_copy s' = next_copy s \<and> writer s' = writer s
     \<and> in_flight s' = in_flight s \<and> readers s' = readers s"
  by (auto simp: stm_releasecopy_def Let_def split: option.splits)


section \<open>Each call keeps the counts\<close>

lemma set_reader_fields [simp]:
  "object (set_reader i l pc s) = object s" "copies (set_reader i l pc s) = copies s" "next_copy (set_reader i l pc s) = next_copy s"
  "freed (set_reader i l pc s) = freed s" "writer (set_reader i l pc s) = writer s" "in_flight (set_reader i l pc s) = in_flight s"
  "current (set_reader i l pc s) = current s"
  by (simp_all add: set_reader_def current_def)

lemma reader_sums:
  fixes f :: "stm_reader \<Rightarrow> nat" assumes "at_pc i pc0 s"
  shows "sum_list (map f (readers (set_reader i l pc s))) + f (readers s ! i) = sum_list (map f (readers s)) + f \<lparr>rd_lastcopy = l, rd_pc = pc\<rparr>"
  using assms sum_list_move [of i "readers s" f] by (simp add: at_pc_def set_reader_def)

lemma reader_counts:
  assumes "at_pc i pc0 s"
  shows "holds (set_reader i l pc s) c + rd_holds c (readers s ! i) = holds s c + rd_holds c \<lparr>rd_lastcopy = l, rd_pc = pc\<rparr>"
    and "owners (set_reader i l pc s) + rd_owns (readers s ! i) = owners s + rd_owns \<lparr>rd_lastcopy = l, rd_pc = pc\<rparr>"
  using reader_sums [OF assms, of "rd_holds c" l pc] reader_sums [OF assms, of rd_owns l pc]
  by (simp_all add: holds_def owners_def)

lemma reader_le:
  fixes f :: "stm_reader \<Rightarrow> nat" assumes "at_pc i pc s" shows "f (readers s ! i) \<le> sum_list (map f (readers s))"
  using assms by (auto simp: at_pc_def intro: member_le_sum_list)

lemma owner_object:
  assumes "object_ok s" "0 < owners s"
  obtains ob where "object s = Some ob" "ob_reference ob = int (owners s)" "ob_copy ob = None \<longleftrightarrow> writer s = W_gone"
    "lasts s = 0" "ob_readers ob = leaving s"
  using assms by (cases "object s") (auto simp: object_ok_def)

lemma reader_owner: "at_pc i R_idle s \<or> at_pc i (R_got c) s \<Longrightarrow> 0 < owners s"
  using reader_le [of i _ s rd_owns] by (auto simp: owners_def at_pc_def rd_owns_def)

lemma writer_owner: "writer s \<noteq> W_gone \<Longrightarrow> 0 < owners s"
  by (simp add: owners_def)

lemma copy_step:
  assumes "stm_inv s" "writer s = W_idle"
  shows "\<exists>t. lcopy s = Some t \<and> stm_inv t"
proof -
  have ok: "object_ok s" "copies_ok (holds s) s" using assms(1) by (auto simp: stm_inv_def)
  obtain ob where ob: "object s = Some ob" "ob_reference ob = int (owners s)" "ob_copy ob = None \<longleftrightarrow> writer s = W_gone"
    "lasts s = 0" "ob_readers ob = leaving s"
    using owner_object [OF ok(1)] writer_owner [of s] assms(2) by auto
  let ?t = "s\<lparr>object := Some (ob\<lparr>ob_reference := ob_reference ob + 1\<rparr>), in_flight := in_flight s + 1\<rparr>"
  have "lcopy s = Some ?t" using ob writer_owner [of s] assms(2) by (simp add: lcopy_def stm_grab_def)
  moreover have "holds ?t c = holds s c" for c using ob by (simp add: holds_def current_def)
  then have "copies_ok (holds ?t) ?t" by (intro copies_ok_cong [OF _ _ _ _ ok(2)]) simp_all
  moreover have "owners ?t = owners s + 1" "leaving ?t = leaving s" "lasts ?t = lasts s" by (simp_all add: owners_def leaving_def lasts_def)
  then have "object_ok ?t" using ob assms(2) by (simp add: object_ok_def)
  ultimately show ?thesis by (auto simp: stm_inv_def)
qed

lemma newreader_step:
  assumes "stm_inv s" "0 < in_flight s"
  shows "stm_inv (lnewreader s)"
proof -
  let ?t = "lnewreader s"
  have "holds ?t c = holds s c" for c by (simp add: lnewreader_def holds_def rd_holds_def current_def)
  moreover have "copies_ok (holds s) s" using assms(1) by (simp add: stm_inv_def)
  ultimately have "copies_ok (holds ?t) ?t" by (intro copies_ok_cong [of ?t s "holds ?t" "holds s"]) (simp_all add: lnewreader_def)
  moreover have "owners ?t = owners s" "leaving ?t = leaving s" "lasts ?t = lasts s" "object ?t = object s" "writer ?t = writer s"
    using assms(2) by (simp_all add: lnewreader_def owners_def leaving_def lasts_def rd_owns_def rd_leaving_def rd_last_def)
  then have "object_ok ?t" using assms(1) by (simp add: stm_inv_def object_ok_def)
  ultimately show ?thesis by (simp add: stm_inv_def)
qed

lemma swap_step:
  assumes "stm_inv s" "writer s = W_idle"
  shows "\<exists>t. lupdate_swap msg s = Some t \<and> stm_inv t"
proof -
  have ok: "object_ok s" "copies_ok (holds s) s" using assms(1) by (auto simp: stm_inv_def)
  obtain ob where ob: "object s = Some ob" "ob_reference ob = int (owners s)" "ob_copy ob = None \<longleftrightarrow> writer s = W_gone"
    "lasts s = 0" "ob_readers ob = leaving s"
    using owner_object [OF ok(1)] writer_owner [of s] assms(2) by auto
  then obtain c0 where c0: "ob_copy ob = Some c0" using assms(2) by auto
  let ?n = "snd (stm_newcopy msg s)"
  let ?t = "?n\<lparr>object := Some (ob\<lparr>ob_copy := Some (next_copy s)\<rparr>), writer := W_release (Some c0)\<rparr>"
  have "lupdate_swap msg s = Some ?t" using ob(1) c0 by (simp add: lupdate_swap_def stm_update_swap_def stm_newcopy_def)
  moreover have z: "holds s (next_copy s) = 0" using ok(2) by (simp add: copies_ok_def)
  then have "holds ?t c = ((holds s)(next_copy s := 1)) c" for c
    using ob(1) c0 assms(2) by (auto simp: holds_def current_def stm_newcopy_def)
  then have "copies_ok (holds ?t) ?t" using copies_ok_new [OF ok(2), of msg] by (intro copies_ok_cong [of ?t ?n]) simp_all
  moreover have "owners ?t = owners s" "leaving ?t = leaving s" "lasts ?t = lasts s"
    using assms(2) by (simp_all add: owners_def leaving_def lasts_def stm_newcopy_def)
  then have "object_ok ?t" using ob assms(2) writer_owner [of s] by (simp add: object_ok_def)
  ultimately show ?thesis by (auto simp: stm_inv_def)
qed


lemma release_step:
  assumes "stm_inv s" "writer s = W_release old"
  shows "\<exists>t. lupdate_release old s = Some t \<and> stm_inv t"
proof -
  have ok: "object_ok s" "copies_ok (holds s) s" using assms(1) by (auto simp: stm_inv_def)
  have o: "object_ok (t\<lparr>writer := W_idle\<rparr>)"
    if "object t = object s" "in_flight t = in_flight s" "readers t = readers s" for t :: stm
    using that ok(1) assms(2) by (simp add: object_ok_def owners_def leaving_def lasts_def)
  show ?thesis
  proof (cases old)
    case None
    then have "holds (s\<lparr>writer := W_idle\<rparr>) c = holds s c" for c using assms(2) by (simp add: holds_def current_def)
    then have "copies_ok (holds (s\<lparr>writer := W_idle\<rparr>)) (s\<lparr>writer := W_idle\<rparr>)" by (intro copies_ok_cong [OF _ _ _ _ ok(2)]) simp_all
    then show ?thesis using None o [of s] by (simp add: lupdate_release_def stm_releasecopy_def stm_inv_def)
  next
    case (Some c)
    then have "0 < holds s c" using assms(2) by (simp add: holds_def)
    then obtain s' where s': "stm_releasecopy (Some c) s = Some s'" "copies_ok ((holds s)(c := holds s c - 1)) s'"
      "object s' = object s" "in_flight s' = in_flight s" "readers s' = readers s" "writer s' = writer s"
      by (rule copies_ok_release [OF ok(2)])
    let ?t = "s'\<lparr>writer := W_idle\<rparr>"
    have "holds ?t x = ((holds s)(c := holds s c - 1)) x" for x
      using assms(2) Some s' by (simp add: holds_def current_def)
    then have "copies_ok (holds ?t) ?t" by (intro copies_ok_cong [OF _ _ _ _ s'(2)]) simp_all
    then show ?thesis using Some s' o [of s'] by (simp add: lupdate_release_def stm_inv_def)
  qed
qed

lemma deletewriter_step:
  assumes "stm_inv s" "writer s = W_idle"
  shows "\<exists>t. ldeletewriter s = Some t \<and> stm_inv t"
proof -
  have ok: "object_ok s" "copies_ok (holds s) s" using assms(1) by (auto simp: stm_inv_def)
  obtain ob where ob: "object s = Some ob" "ob_reference ob = int (owners s)" "ob_copy ob = None \<longleftrightarrow> writer s = W_gone"
    "lasts s = 0" "ob_readers ob = leaving s"
    using owner_object [OF ok(1)] writer_owner [of s] assms(2) by auto
  then obtain c where c: "ob_copy ob = Some c" using assms(2) by auto
  then have "0 < holds s c" using ob(1) by (simp add: holds_def current_def)
  then obtain s' where s': "stm_releasecopy (Some c) s = Some s'" "copies_ok ((holds s)(c := holds s c - 1)) s'"
    "object s' = object s" "in_flight s' = in_flight s" "readers s' = readers s" "writer s' = writer s"
    by (rule copies_ok_release [OF ok(2)])
  define ob' where "ob' = (if ob_reference ob - 1 > 0 then Some (ob\<lparr>ob_copy := None, ob_reference := ob_reference ob - 1\<rparr>) else None)"
  define t where "t = s'\<lparr>object := ob', writer := W_gone\<rparr>"
  have "ldeletewriter s = Some t" using ob(1) c s'(1) by (simp add: ldeletewriter_def stm_release_def ob'_def t_def)
  moreover have "holds t x = ((holds s)(c := holds s c - 1)) x" for x
    using assms(2) ob(1) c s' by (simp add: holds_def current_def ob'_def t_def)
  then have "copies_ok (holds t) t" by (intro copies_ok_cong [OF _ _ _ _ s'(2)]) (simp_all add: t_def)
  moreover have "owners s = owners t + 1" "leaving t = leaving s" "lasts t = lasts s"
    "object t = ob'" "writer t = W_gone"
    using s' assms(2) by (simp_all add: owners_def leaving_def lasts_def t_def)
  then have "object_ok t" using ob by (simp add: object_ok_def ob'_def)
  ultimately show ?thesis by (auto simp: stm_inv_def)
qed

text \<open>A step of a reader that leaves the object as it is.\<close>

lemma object_ok_reader:
  assumes "object_ok s" "at_pc i pc0 s" "rd_owns \<lparr>rd_lastcopy = l, rd_pc = pc\<rparr> = rd_owns (readers s ! i)"
    "rd_leaving \<lparr>rd_lastcopy = l, rd_pc = pc\<rparr> = rd_leaving (readers s ! i)"
    "rd_last \<lparr>rd_lastcopy = l, rd_pc = pc\<rparr> = rd_last (readers s ! i)"
    "object t = object s" "writer t = writer s" "in_flight t = in_flight s" "readers t = readers (set_reader i l pc s)"
  shows "object_ok t"
proof -
  have "owners t = owners s" using reader_counts(2) [OF assms(2), of l pc] assms(3,7-9) by (simp add: owners_def)
  moreover have "leaving t = leaving s" "lasts t = lasts s"
    using reader_sums [OF assms(2), of rd_leaving l pc] reader_sums [OF assms(2), of rd_last l pc] assms(4,5,9)
    by (simp_all add: leaving_def lasts_def)
  ultimately show ?thesis using assms(1,6,7) by (simp add: object_ok_def)
qed

lemma fetch_step:
  assumes "stm_inv s" "at_pc i R_idle s"
  shows "\<exists>t. lread_fetch i s = Some t \<and> stm_inv t"
proof -
  have ok: "object_ok s" "copies_ok (holds s) s" using assms(1) by (auto simp: stm_inv_def)
  let ?l = "rd_lastcopy (readers s ! i)"
  have pc: "rd_pc (readers s ! i) = R_idle" using assms(2) by (simp add: at_pc_def)
  have "0 < owners s" using reader_owner assms(2) by blast
  then obtain ob where ob: "object s = Some ob" by (rule owner_object [OF ok(1)])
  have o: "object_ok (set_reader i ?l (R_got c) (s\<lparr>copies := cs\<rparr>))" for c cs
    by (rule object_ok_reader [OF ok(1) assms(2), of ?l "R_got c"])
      (simp_all add: pc rd_owns_def rd_leaving_def rd_last_def set_reader_def)
  show ?thesis
  proof (cases "ob_copy ob")
    case None
    let ?t = "set_reader i ?l (R_got None) s"
    have "lread_fetch i s = Some ?t" using ob None by (simp add: lread_fetch_def fetch_copy_def)
    moreover have "holds ?t x = holds s x" for x
      using reader_counts(1) [OF assms(2), of ?l "R_got None" x] pc by (simp add: rd_holds_def)
    then have "copies_ok (holds ?t) ?t" by (intro copies_ok_cong [OF _ _ _ _ ok(2)]) simp_all
    ultimately show ?thesis using o [of None "copies s"] by (simp add: stm_inv_def)
  next
    case (Some c)
    then have "0 < holds s c" using ob by (simp add: holds_def current_def)
    then obtain cp where cp: "copies s c = Some cp" "0 < cp_reference cp"
      "copies_ok ((holds s)(c := holds s c + 1)) (s\<lparr>copies := (copies s)(c \<mapsto> cp\<lparr>cp_reference := cp_reference cp + 1\<rparr>)\<rparr>)"
      by (rule copies_ok_fetch [OF ok(2)])
    let ?s = "s\<lparr>copies := (copies s)(c \<mapsto> cp\<lparr>cp_reference := cp_reference cp + 1\<rparr>)\<rparr>"
    let ?t = "set_reader i ?l (R_got (Some c)) ?s"
    have "lread_fetch i s = Some ?t" using ob Some cp(1,2) by (simp add: lread_fetch_def fetch_copy_def)
    moreover have "holds ?t x = ((holds s)(c := holds s c + 1)) x" for x
      using reader_counts(1) [OF assms(2), of ?l "R_got (Some c)" x] pc
      by (simp add: rd_holds_def holds_def set_reader_def current_def)
    then have "copies_ok (holds ?t) ?t" by (intro copies_ok_cong [OF _ _ _ _ cp(3)]) simp_all
    ultimately show ?thesis using o [of "Some c"] by (simp add: stm_inv_def)
  qed
qed


lemma holds_last: "at_pc i pc s \<Longrightarrow> rd_lastcopy (readers s ! i) = Some c \<Longrightarrow> 0 < holds s c"
  using reader_le [of i pc s "rd_holds c"] by (simp add: holds_def rd_holds_def)

lemma holds_got: "at_pc i (R_got (Some c)) s \<Longrightarrow> 0 < holds s c"
  using reader_le [of i "R_got (Some c)" s "rd_holds c"] by (simp add: holds_def rd_holds_def at_pc_def)

text \<open>A reader releases a copy it refers to, and refers to it no more.\<close>

lemma reader_release:
  assumes "stm_inv s" "at_pc i pc0 s"
    and "\<And>x. rd_holds x (readers s ! i) = rd_holds x \<lparr>rd_lastcopy = l, rd_pc = pc\<rparr> + of_bool (c = Some x)"
    and "rd_owns \<lparr>rd_lastcopy = l, rd_pc = pc\<rparr> = rd_owns (readers s ! i)"
    and "rd_leaving \<lparr>rd_lastcopy = l, rd_pc = pc\<rparr> = rd_leaving (readers s ! i)"
    and "rd_last \<lparr>rd_lastcopy = l, rd_pc = pc\<rparr> = rd_last (readers s ! i)"
  shows "\<exists>s'. stm_releasecopy c s = Some s' \<and> stm_inv (set_reader i l pc s') \<and> readers s' = readers s
    \<and> (\<forall>x cp. c \<noteq> Some x \<longrightarrow> copies s' x = copies s x)"
proof (cases c)
  case None
  let ?t = "set_reader i l pc s"
  have ok: "object_ok s" "copies_ok (holds s) s" using assms(1) by (auto simp: stm_inv_def)
  have "holds ?t x = holds s x" for x
    using reader_counts(1) [OF assms(2), of l pc x] assms(3) [of x] None by simp
  then have "copies_ok (holds ?t) ?t" by (intro copies_ok_cong [OF _ _ _ _ ok(2)]) simp_all
  moreover have "object_ok ?t"
    by (rule object_ok_reader [OF ok(1) assms(2) assms(4-6)]) simp_all
  ultimately show ?thesis using None by (simp add: stm_inv_def stm_releasecopy_def)
next
  case (Some y)
  have ok: "object_ok s" "copies_ok (holds s) s" using assms(1) by (auto simp: stm_inv_def)
  have "rd_holds y (readers s ! i) \<le> holds s y" using reader_le [OF assms(2), of "rd_holds y"] by (simp add: holds_def)
  then have "0 < holds s y" using assms(3) [of y] Some by simp
  then obtain s' where s': "stm_releasecopy (Some y) s = Some s'" "copies_ok ((holds s)(y := holds s y - 1)) s'"
    "object s' = object s" "next_copy s' = next_copy s" "writer s' = writer s" "in_flight s' = in_flight s" "readers s' = readers s"
    "\<And>x cp. x \<noteq> y \<Longrightarrow> copies s' x = copies s x"
    using copies_ok_release [OF ok(2)] by metis
  let ?t = "set_reader i l pc s'"
  have "holds ?t x = holds (set_reader i l pc s) x" for x
    using s' by (simp add: holds_def set_reader_def current_def)
  then have "holds ?t x = ((holds s)(y := holds s y - 1)) x" for x
    using reader_counts(1) [OF assms(2), of l pc x] assms(3) [of x] Some by (auto simp: of_bool_def split: if_splits)
  then have "copies_ok (holds ?t) ?t" by (intro copies_ok_cong [OF _ _ _ _ s'(2)]) simp_all
  moreover have "object_ok ?t"
    by (rule object_ok_reader [OF ok(1) assms(2) assms(4-6)]) (simp_all add: s' set_reader_def)
  ultimately show ?thesis using Some s' by (auto simp: stm_inv_def)
qed

lemma finish_step:
  assumes "stm_inv s" "at_pc i (R_got c) s"
  shows "\<exists>m t. lread_finish i c s = Some (m, t) \<and> stm_inv t
    \<and> (m = None \<and> (c = None \<or> c = rd_lastcopy (readers s ! i)) \<or> (\<exists>x cp. c = Some x \<and> copies s x = Some cp \<and> m = Some (cp_msg cp)))"
proof -
  let ?l = "rd_lastcopy (readers s ! i)"
  have pc: "rd_pc (readers s ! i) = R_got c" using assms(2) by (simp add: at_pc_def)
  note kinds = rd_owns_def rd_leaving_def rd_last_def rd_holds_def pc
  show ?thesis
  proof (cases "c = ?l")
    case True
    obtain s' where "stm_releasecopy c s = Some s'" "stm_inv (set_reader i ?l R_idle s')"
      using reader_release [OF assms, of ?l R_idle c] True by (auto simp: kinds)
    then show ?thesis using True by (simp add: lread_finish_def)
  next
    case False
    obtain s' where s': "stm_releasecopy ?l s = Some s'" "stm_inv (set_reader i c R_idle s')"
      "\<forall>x. ?l \<noteq> Some x \<longrightarrow> copies s' x = copies s x"
      using reader_release [OF assms, of c R_idle ?l] by (auto simp: kinds)
    show ?thesis
    proof (cases c)
      case None
      then show ?thesis using False s' by (simp add: lread_finish_def)
    next
      case (Some x)
      obtain cp where cp: "copies s x = Some cp"
        using copies_ok_copy [of "holds s" s x] holds_got [of i x s] assms Some by (auto simp: stm_inv_def)
      then have "copies s' x = Some cp" using s'(3) False Some by auto
      then show ?thesis using cp False Some s' by (simp add: lread_finish_def)
    qed
  qed
qed

lemma left_step:
  assumes "stm_inv s" "at_pc i R_left s"
  shows "\<exists>t. ldeletereader_finish i s = Some t \<and> stm_inv t"
proof -
  have pc: "rd_pc (readers s ! i) = R_left" using assms(2) by (simp add: at_pc_def)
  show ?thesis
    using reader_release [OF assms, of None R_gone "rd_lastcopy (readers s ! i)"]
    by (auto simp: ldeletereader_finish_def rd_owns_def rd_leaving_def rd_last_def rd_holds_def pc)
qed


text \<open>A reader gives back the object: the counts of the copies stay.\<close>

lemma holds_leaving:
  assumes "at_pc i pc0 s" "rd_holds x \<lparr>rd_lastcopy = rd_lastcopy (readers s ! i), rd_pc = pc\<rparr> = rd_holds x (readers s ! i)"
    "t = set_reader i (rd_lastcopy (readers s ! i)) pc (s\<lparr>object := ob\<rparr>)" "current t = current s"
  shows "holds t x = holds s x"
proof -
  have "sum_list (map (rd_holds x) (readers t)) = sum_list (map (rd_holds x) (readers s))"
    using reader_sums [OF assms(1), of "rd_holds x" "rd_lastcopy (readers s ! i)" pc] assms(2) by (simp add: assms(3) set_reader_def)
  moreover have "writer t = writer s" by (simp add: assms(3))
  ultimately show ?thesis using assms(4) by (simp add: holds_def)
qed

lemma numbers_leaving:
  assumes "at_pc i pc0 s" "t = set_reader i l pc (s\<lparr>object := ob\<rparr>)"
  shows "owners t + rd_owns (readers s ! i) = owners s + rd_owns \<lparr>rd_lastcopy = l, rd_pc = pc\<rparr>"
    "leaving t + rd_leaving (readers s ! i) = leaving s + rd_leaving \<lparr>rd_lastcopy = l, rd_pc = pc\<rparr>"
    "lasts t + rd_last (readers s ! i) = lasts s + rd_last \<lparr>rd_lastcopy = l, rd_pc = pc\<rparr>"
    "object t = ob" "writer t = writer s"
  using reader_counts(2) [OF assms(1), of l pc] reader_sums [OF assms(1), of rd_leaving l pc] reader_sums [OF assms(1), of rd_last l pc]
  by (simp_all add: assms(2) owners_def leaving_def lasts_def set_reader_def)

lemma enter_step:
  assumes "stm_inv s" "at_pc i R_idle s"
  shows "\<exists>t. ldeletereader_enter i s = Some t \<and> stm_inv t"
proof -
  have ok: "object_ok s" "copies_ok (holds s) s" using assms(1) by (auto simp: stm_inv_def)
  let ?l = "rd_lastcopy (readers s ! i)"
  have pc: "rd_pc (readers s ! i) = R_idle" using assms(2) by (simp add: at_pc_def)
  have own: "0 < owners s" using reader_owner assms(2) by blast
  obtain ob where ob: "object s = Some ob" "ob_reference ob = int (owners s)" "ob_copy ob = None \<longleftrightarrow> writer s = W_gone"
    "lasts s = 0" "ob_readers ob = leaving s"
    using owner_object [OF ok(1) own] by metis
  let ?ob = "ob\<lparr>ob_readers := ob_readers ob + 1, ob_reference := ob_reference ob - 1\<rparr>" and ?b = "ob_reference ob - 1 = 0"
  define t where "t = set_reader i ?l (R_leave ?b) (s\<lparr>object := Some ?ob\<rparr>)"
  have "ldeletereader_enter i s = Some t" using ob(1) by (simp add: ldeletereader_enter_def stm_releasereader_enter_def t_def Let_def)
  moreover have "holds t x = holds s x" for x
    by (rule holds_leaving [OF assms(2) _ t_def]) (simp_all add: rd_holds_def pc current_def ob(1) t_def)
  then have "copies_ok (holds t) t" by (intro copies_ok_cong [OF _ _ _ _ ok(2)]) (simp_all add: t_def)
  moreover have "object_ok t"
    using numbers_leaving [OF assms(2) t_def] ob own by (auto simp: object_ok_def rd_owns_def rd_leaving_def rd_last_def pc)
  ultimately show ?thesis by (simp add: stm_inv_def)
qed

lemma leave_last_step:
  assumes "stm_inv s" "at_pc i (R_leave True) s"
  shows "\<exists>t. ldeletereader_leave i True s = Some t \<and> stm_inv t"
proof -
  have ok: "object_ok s" "copies_ok (holds s) s" using assms(1) by (auto simp: stm_inv_def)
  let ?l = "rd_lastcopy (readers s ! i)"
  have pc: "rd_pc (readers s ! i) = R_leave True" using assms(2) by (simp add: at_pc_def)
  have "0 < lasts s" using reader_le [OF assms(2), of rd_last] by (simp add: lasts_def rd_last_def pc)
  then obtain ob where ob: "object s = Some ob" "owners s = 0" "lasts s = 1" "ob_copy ob = None \<longleftrightarrow> writer s = W_gone"
    using ok(1) by (cases "object s") (auto simp: object_ok_def)
  then have gone: "ob_copy ob = None" by (simp add: owners_def split: if_splits)
  define t where "t = set_reader i ?l R_left (s\<lparr>object := None\<rparr>)"
  have "ldeletereader_leave i True s = Some t" using ob(1) gone by (simp add: ldeletereader_leave_def stm_releasereader_leave_def t_def)
  moreover have "holds t x = holds s x" for x
    by (rule holds_leaving [OF assms(2) _ t_def]) (simp_all add: rd_holds_def pc current_def ob(1) gone t_def)
  then have "copies_ok (holds t) t" by (intro copies_ok_cong [OF _ _ _ _ ok(2)]) (simp_all add: t_def)
  moreover have "object_ok t"
    using numbers_leaving [OF assms(2) t_def] ob by (simp add: object_ok_def rd_owns_def rd_leaving_def rd_last_def pc)
  ultimately show ?thesis by (simp add: stm_inv_def)
qed

lemma leave_step:
  assumes "stm_inv s" "at_pc i (R_leave False) s" "object s = Some ob"
  shows "\<exists>t. ldeletereader_leave i False s = Some t \<and> stm_inv t"
proof -
  have ok: "object_ok s" "copies_ok (holds s) s" using assms(1) by (auto simp: stm_inv_def)
  let ?l = "rd_lastcopy (readers s ! i)"
  have pc: "rd_pc (readers s ! i) = R_leave False" using assms(2) by (simp add: at_pc_def)
  have lv: "0 < leaving s" using reader_le [OF assms(2), of rd_leaving] by (simp add: leaving_def rd_leaving_def pc)
  define t where "t = set_reader i ?l R_left (s\<lparr>object := Some (ob\<lparr>ob_readers := ob_readers ob - 1\<rparr>)\<rparr>)"
  have "ldeletereader_leave i False s = Some t" using assms(3) by (simp add: ldeletereader_leave_def stm_releasereader_leave_def t_def)
  moreover have "holds t x = holds s x" for x
    by (rule holds_leaving [OF assms(2) _ t_def]) (simp_all add: rd_holds_def pc current_def assms(3) t_def)
  then have "copies_ok (holds t) t" by (intro copies_ok_cong [OF _ _ _ _ ok(2)]) (simp_all add: t_def)
  moreover have "object_ok t"
    using numbers_leaving [OF assms(2) t_def] ok(1) assms(3) lv by (auto simp: object_ok_def rd_owns_def rd_leaving_def rd_last_def pc)
  ultimately show ?thesis by (simp add: stm_inv_def)
qed

section \<open>All interleavings\<close>

lemma stm_call_inv:
  assumes "stm_inv s" "stm_call s r"
  shows "(\<exists>t. r = Some t \<and> stm_inv t) \<or> (r = None \<and> object s = None \<and> (\<exists>i. at_pc i (R_leave False) s))"
  using assms(2)
proof cases
  case (call_leave i lastref)
  show ?thesis
  proof (cases lastref)
    case True
    with call_leave leave_last_step [OF assms(1)] show ?thesis by auto
  next
    case False
    show ?thesis
    proof (cases "object s")
      case None
      then have "r = None" using call_leave(1) by (simp add: ldeletereader_leave_def stm_releasereader_leave_def)
      with None False call_leave(2) show ?thesis by auto
    next
      case (Some ob)
      with False call_leave leave_step [OF assms(1)] show ?thesis by auto
    qed
  qed
next
  case (call_finish i c)
  then obtain m t where "lread_finish i c s = Some (m, t)" "stm_inv t" using finish_step [OF assms(1)] by blast
  with call_finish show ?thesis by simp
qed (use assms(1) copy_step newreader_step swap_step release_step deletewriter_step fetch_step enter_step left_step in blast)+

lemma stm_new_inv: "stm_inv (stm_new msg)"
  by (auto simp: stm_inv_def stm_new_def stm_newcopy_def copies_ok_def object_ok_def holds_def current_def owners_def leaving_def lasts_def)

interpretation stm_sys: inductive_invariant stm_init stm_step stm_inv
proof
  show "stm_init s \<Longrightarrow> stm_inv s" for s by (auto simp: stm_init_def stm_new_inv)
  show "stm_inv s \<Longrightarrow> stm_step s t \<Longrightarrow> stm_inv t" for s t
    using stm_call_inv [of s "Some t"] by (auto simp: stm_step_def)
qed

text \<open>C39. The shared copies are counted exactly. However the calls of the writer and the readers interleave: the count of
  every copy is the number of references to it, so that the copy a reader keeps is never freed under it, and a copy
  without references has been freed exactly once; the count of the object is the number of its owners; and no call
  uses freed memory or fails an assertion, but for a reader that unlocks an object another reader has freed.
\<close>

theorem stm_counts_exact:
  assumes "reach stm_init stm_step s"
  shows "(\<forall>c cp. copies s c = Some cp \<longrightarrow> cp_reference cp = int (holds s c) \<and> 0 < holds s c)
    \<and> (\<forall>c. 0 < holds s c \<longrightarrow> copies s c \<noteq> None)
    \<and> distinct (freed s) \<and> set (freed s) = {c. c < next_copy s \<and> holds s c = 0}
    \<and> (\<forall>ob. object s = Some ob \<longrightarrow> ob_reference ob = int (owners s)) \<and> (0 < owners s \<longrightarrow> object s \<noteq> None)
    \<and> (stm_call s None \<longrightarrow> object s = None \<and> (\<exists>i. at_pc i (R_leave False) s))"
proof -
  have inv: "stm_inv s" by (rule stm_sys.reach_inv [OF assms])
  then have c: "copies_ok (holds s) s" and o: "object_ok s" by (auto simp: stm_inv_def)
  have live: "\<exists>cp. copies s x = Some cp \<and> cp_reference cp = int (holds s x)" if "0 < holds s x" for x
    using copies_ok_copy [OF c that] by blast
  have pos: "0 < holds s x" if "copies s x = Some cp" for x cp
    using c that by (metis copies_ok_def gr0I option.distinct(1))
  have exact: "cp_reference cp = int (holds s x) \<and> 0 < holds s x" if "copies s x = Some cp" for x cp
    using pos [OF that] live [of x] that by auto
  have fr: "distinct (freed s)" "set (freed s) = {c. c < next_copy s \<and> holds s c = 0}"
    using c by (auto simp: copies_ok_def)
  have ref: "ob_reference ob = int (owners s)" if "object s = Some ob" for ob
    using o that by (simp add: object_ok_def)
  have own: "0 < owners s \<Longrightarrow> object s \<noteq> None" using o by (cases "object s") (auto simp: object_ok_def)
  have fault: "stm_call s None \<Longrightarrow> object s = None \<and> (\<exists>i. at_pc i (R_leave False) s)"
    using stm_call_inv [OF inv] by blast
  show ?thesis using exact live fr ref own fault by (intro conjI allI impI) blast+
qed

lemma reach_call: "reach stm_init stm_step s \<Longrightarrow> stm_call s (f s) \<Longrightarrow> f s = Some t \<Longrightarrow> reach stm_init stm_step t"
  by (rule reach_step) (simp_all add: stm_step_def)

lemmas stm_defs = lcopy_def lnewreader_def ldeletewriter_def ldeletereader_enter_def ldeletereader_leave_def stm_grab_def stm_release_def
  stm_releasecopy_def stm_releasereader_enter_def stm_releasereader_leave_def stm_new_def stm_newcopy_def set_reader_def at_pc_def unlocked_def

text \<open>Two readers: the writer is gone, the first reader has given back its reference and is still inside the lock, the
  second has given back the last one.\<close>

definition race_state :: "stm_object option \<Rightarrow> reader_pc \<Rightarrow> stm" where
  "race_state ob pc = \<lparr>object = ob, copies = Map.empty, next_copy = 1, freed = [0], writer = W_gone, in_flight = 0,
     readers = [\<lparr>rd_lastcopy = None, rd_pc = R_leave False\<rparr>, \<lparr>rd_lastcopy = None, rd_pc = pc\<rparr>]\<rparr>"

lemma race_reached:
  "reach stm_init stm_step (race_state (Some \<lparr>ob_readers = 2, ob_reference = 0, ob_copy = None\<rparr>) (R_leave True))"
proof -
  let ?ob = "\<lambda>lk r c. Some \<lparr>ob_readers = lk, ob_reference = r, ob_copy = c\<rparr>"
  let ?rd = "\<lambda>pc. \<lparr>rd_lastcopy = None, rd_pc = pc\<rparr>"
  let ?s = "\<lambda>r fl rs. \<lparr>object = ?ob 0 r (Some 0), copies = [0 \<mapsto> \<lparr>cp_reference = 1, cp_msg = []\<rparr>], next_copy = 1, freed = [],
     writer = W_idle, in_flight = fl, readers = rs\<rparr>"
  let ?t = "\<lambda>lk r rs. \<lparr>object = ?ob lk r None, copies = Map.empty, next_copy = 1, freed = [0], writer = W_gone, in_flight = 0, readers = rs\<rparr>"
  have "stm_init (?s 1 0 [])" by (auto simp: stm_init_def stm_defs intro!: exI [of _ "[]"])
  then have "reach stm_init stm_step (?s 1 0 [])" by (rule reach_init)
  then have "reach stm_init stm_step (?s 2 1 [])" by (rule reach_call [OF _ call_copy]) (simp_all add: stm_defs)
  then have "reach stm_init stm_step (?s 3 2 [])" by (rule reach_call [OF _ call_copy]) (simp_all add: stm_defs)
  then have "reach stm_init stm_step (?s 3 1 [?rd R_idle])"
    by (rule reach_call [where f = "\<lambda>s. Some (lnewreader s)", OF _ call_newreader]) (simp_all add: stm_defs)
  then have "reach stm_init stm_step (?s 3 0 [?rd R_idle, ?rd R_idle])"
    by (rule reach_call [where f = "\<lambda>s. Some (lnewreader s)", OF _ call_newreader]) (simp_all add: stm_defs)
  then have "reach stm_init stm_step (?t 0 2 [?rd R_idle, ?rd R_idle])"
    by (rule reach_call [OF _ call_deletewriter]) (simp_all add: stm_defs)
  then have "reach stm_init stm_step (?t 1 1 [?rd (R_leave False), ?rd R_idle])"
    by (rule reach_call [OF _ call_enter [of 0]]) (simp_all add: stm_defs)
  then have "reach stm_init stm_step (?t 2 0 [?rd (R_leave False), ?rd (R_leave True)])"
    by (rule reach_call [OF _ call_enter [of 1]]) (simp_all add: stm_defs)
  then show ?thesis by (simp add: race_state_def)
qed

lemma stm_counts_exact_witness:
  "\<exists>s. object s = Some \<lparr>ob_readers = 2, ob_reference = 0, ob_copy = None\<rparr> \<and> owners s = 0 \<and> freed s = [0] \<and> holds s 0 = 0
     \<and> \<not> stm_call s None"
proof -
  let ?s = "race_state (Some \<lparr>ob_readers = 2, ob_reference = 0, ob_copy = None\<rparr>) (R_leave True)"
  have "object ?s = Some \<lparr>ob_readers = 2, ob_reference = 0, ob_copy = None\<rparr>" "freed ?s = [0]" by (simp_all add: race_state_def)
  then show ?thesis using stm_counts_exact [OF race_reached] by (intro exI [of _ ?s]) auto
qed

text \<open>C40. Giving back the object is a race. When two readers are deleted at the same time, the first can give back its
  reference and be stopped before it unlocks; the second then gives back the last one and frees the object, and the first
  unlocks freed memory.
\<close>

theorem stm_release_race:
  "\<exists>s t i. reach stm_init stm_step s \<and> at_pc i (R_leave True) s \<and> ldeletereader_leave i True s = Some t
     \<and> object t = None \<and> at_pc 0 (R_leave False) t \<and> ldeletereader_leave 0 False t = None"
proof -
  let ?s = "race_state (Some \<lparr>ob_readers = 2, ob_reference = 0, ob_copy = None\<rparr>) (R_leave True)"
  have "at_pc 1 (R_leave True) ?s" "ldeletereader_leave 1 True ?s = Some (race_state None R_left)"
    "at_pc 0 (R_leave False) (race_state None R_left)" "ldeletereader_leave 0 False (race_state None R_left) = None"
    "object (race_state None R_left) = None"
    by (simp_all add: race_state_def stm_defs)
  with race_reached show ?thesis by blast
qed

end
