(* ===== verification/Spec2Isabelle.thy ===== *)
theory Spec2Isabelle
  imports Scheduler Locks Gate Netpack Messaging Des Sha1 Cluster_Names Seri_Content Skynet_Socket Cluster_Calls Stm
begin

text \<open>
  A verification development of the C code of skynet, the game server framework this server is
  built on. All paths are below \<^verbatim>\<open>src/\<close>.

  \<^bold>\<open>The program.\<close> A skynet process runs services. A service has a context with a handle and a message
  queue; worker threads take queues from a global queue and hand the messages to the callbacks of the
  services. A timer thread turns time into messages, a socket thread turns network events into messages and
  requests of services into system calls, a monitor thread looks for services that do not return. Processes
  form a cluster of nodes, connected by the harbor service; client connections come in through the gate
  service. Most services are written in Lua; they use C libraries for splitting streams into messages, for
  serialisation and for cryptography.

  \<^bold>\<open>How it is modelled.\<close> Every C function is a HOL function of the same name, by explicit state passing; a
  struct is a record, an enumeration or tagged union a datatype, a fixed-width integer that can wrap around a
  word. A failing assertion, an access outside an array or through an invalid pointer, and a loop that does
  not end is \<open>None\<close>; error codes are ordinary values. Memory that is shared or freed is an explicit store with
  addresses (message queues, contexts) or an effect in a trace (\<open>free\<close>, writes, log lines). What is not in the
  repository or is the operating system is an argument: the answers to system calls, the callbacks of the
  services, the dynamic linker, random numbers. Threads interleave between operations that the code protects
  by a lock or an atomic instruction; the reachable states are those of \<open>Transition.reach\<close>, and the invariants
  are interpretations of the locale \<open>inductive_invariant\<close>.

  \<^bold>\<open>The theories.\<close>

  \<^item> Prelude, Fifo, Registry, Transition: machine types, failing computations, generic lemmas; the contracts
    of a queue (a locale over an abstraction to lists), of a finite injective map, of a transition system.
  \<^item> Message_Queue, Queue_View, Scheduler (\<^verbatim>\<open>skynet-src/skynet_mq.c\<close>): the ring buffer of a service and the global
    queue of queues. The ring refines a list, also while it grows; in every interleaving of workers and senders
    no queue is held twice, none with messages is lost, messages are delivered once and in order, and no assertion
    fails.
  \<^item> Timer (\<^verbatim>\<open>skynet-src/skynet_timer.c\<close>): the timing wheel. A tick dispatches exactly the events that are due, in
    the order they were added, also across the wrap-around of the 32-bit clock; an event fires at its time; a late
    update catches up.
  \<^item> Handle (\<^verbatim>\<open>skynet-src/skynet_handle.c\<close>): the table of handles refines a map, names are found by binary
    search, retiring all handles ends.
  \<^item> Locks (\<^verbatim>\<open>skynet-src/spinlock.h\<close>, \<^verbatim>\<open>rwlock.h\<close>): exclusion and freedom from deadlock, on atomic instructions.
  \<^item> Module (\<^verbatim>\<open>skynet-src/skynet_module.c\<close>): the search for a module stays inside its buffer and opens the first
    file that opens; a module is loaded once.
  \<^item> Server, Contexts, Runner, Node, Messaging (\<^verbatim>\<open>skynet-src/skynet_server.c\<close>, \<^verbatim>\<open>skynet_harbor.c\<close>, \<^verbatim>\<open>skynet_monitor.c\<close>,
    \<^verbatim>\<open>skynet_env.c\<close>, \<^verbatim>\<open>skynet_error.c\<close>, \<^verbatim>\<open>skynet_log.c\<close>): contexts with reference counts, sending, dispatching, launching,
    the text commands. Whatever the services do, the counts are exact, nothing registered is freed and nothing is
    leaked; a message to a local handle arrives once with its type and size.
  \<^item> Cstring, Framing, Ptype: C strings and number formats, length-prefixed frames as an abstract specification,
    message types.
  \<^item> Databuffer, Hashid, Gate (\<^verbatim>\<open>service-src/databuffer.h\<close>, \<^verbatim>\<open>hashid.h\<close>, \<^verbatim>\<open>service_gate.c\<close>): the gate splits the stream of a
    client into its frames, however the network cuts it; its callback never fails.
  \<^item> Netpack (\<^verbatim>\<open>lualib-src/lua-netpack.c\<close>): the same for the Lua library, for several connections at once.
  \<^item> Harbor_Service, Cluster, Cluster_Names (\<^verbatim>\<open>service-src/service_harbor.c\<close>): messages to other nodes arrive there
    exactly and in order; messages to a global name wait until the name is known and are then delivered.
  \<^item> Seri, Seri_Pack, Seri_Unpack, Seri_Content (\<^verbatim>\<open>lualib-src/lua-seri.c\<close>): packing through a chain of blocks gives a
    reference encoding, unpacking any bytes is safe, and what one service packs another one unpacks.
  \<^item> Codec, Dh, Des, Sha1 (\<^verbatim>\<open>lualib-src/lua-crypt.c\<close>, \<^verbatim>\<open>lsha1.c\<close>): hexadecimal and base64, the key exchange, DES and SHA-1 against
    their standards.
  \<^item> Socket_Server, Socket_Buffers, Socket_Stream, Socket_Slots, Socket_Safety, Socket_Memory
    (\<^verbatim>\<open>skynet-src/socket_server.c\<close>, \<^verbatim>\<open>socket_epoll.h\<close>): the socket thread. In all interleavings with the calls of
    other threads no assertion fails; messages of two priorities leave a connection whole and in order; every
    buffer is freed exactly once.
  \<^item> Skynet_Socket (\<^verbatim>\<open>skynet-src/skynet_socket.c\<close>): the socket thread and the node together; received bytes arrive in
    the queue of the service that owns the connection.
  \<^item> Malloc_Hook (\<^verbatim>\<open>skynet-src/malloc_hook.c\<close>): the allocation functions of the process, which append the handle of the
    service to every block. The reported numbers of bytes and blocks are exact, in total and for each service.
  \<^item> Cluster_Core, Cluster_Calls (\<^verbatim>\<open>lualib-src/lua-cluster.c\<close>, \<^verbatim>\<open>service/clusterd.lua\<close>, \<^verbatim>\<open>lualib/socketchannel.lua\<close>): calls between nodes
    of a Lua cluster. Requests and responses of any size are packed, cut out of the stream, unpacked and put
    together to what was sent, also when the packages of several requests are mixed; messages are freed once.
  \<^item> Stm (\<^verbatim>\<open>lualib-src/lua-stm.c\<close>): a message shared by a writer and readers on other threads. The reference counts are
    exact in every interleaving; the one race of the code is shown by a run.

  \<^bold>\<open>Fuel and bounds.\<close> A loop is structural recursion, a function with a measure, or a \<open>partial_function\<close> whose
  return is proved under the stated condition (the spin loops under a step of the other thread, \<open>send_list_tcp\<close> on
  a network that does not interrupt every call, \<open>skynet_handle_retireall\<close> without one). Unpacking takes the number of bytes left as
  fuel: every value takes at least one byte, so it is enough. \<open>reserve_id\<close> tries at most \<open>MAX_SOCKET\<close> ids, as the
  code does; the socket theorems hold while fewer than \<open>2 ^ 31\<close> ids have been tried. SHA-1 is for texts below half a
  gigabyte, where the code's bit count is right.

  \<^bold>\<open>Atomicity.\<close> Two places of the code are not atomic where the model is: the slot of a socket and its id are
  reserved at once (\<open>reserve_id\<close>), and a closed slot is not reserved again before its waiting event is cleared. The
  first is a finding of the manifest. The allocation functions are taken one call after the other. The race of \<open>skynet_context_new\<close> is modelled step by step in Messaging.

  \<^bold>\<open>Not modelled.\<close> \<^verbatim>\<open>3rd/\<close> (Lua, jemalloc, lpeg, md5) is third-party code. The bindings that only move arguments between
  Lua and the functions above (\<^verbatim>\<open>lualib-src/lua-skynet.c\<close>, \<^verbatim>\<open>lua-socket.c\<close>, \<^verbatim>\<open>lua-clientsocket.c\<close>, \<^verbatim>\<open>lua-memory.c\<close> and
  others), the start of the process (\<^verbatim>\<open>skynet_main.c\<close>, \<^verbatim>\<open>skynet_start.c\<close>, \<^verbatim>\<open>skynet_daemon.c\<close>) and the BSON, sproto, multicast
  and shared data libraries are listed in the manifest with the reasons. Services in Lua are arbitrary callbacks,
  but for the collection of the parts of cluster requests and responses.
\<close>

end
